(* ===== verification/Seqlen_KK.thy ===== *)
theory Seqlen_KK
  imports Prelude "HOL-Library.Product_Lexorder" "HOL-Library.List_Lexorder"
begin

text \<open>
  Karmarkar--Karp balanced partitioning (\<^verbatim>\<open>verl/utils/seqlen_balancing.py\<close>, \<open>karmarkar_karp\<close>).
  The nested class \<open>Set\<close> is the datatype \<open>kk_set\<close> with the linear order of its
  \<open>__lt__\<close>; the nested class \<open>State\<close> is the record \<open>kk_state\<close>. The priority queue of
  \<^verbatim>\<open>heapq\<close> is a list kept in the order of \<open>State.__lt__\<close>: pushing inserts, popping takes the
  least element. The contract the reduction loop needs of a state (merging keeps a
  well-formedness predicate and adds the items) is the locale \<open>mergeable\<close>.
\<close>

section \<open>The class Set and its order\<close>

datatype kk_set = KK_Set (ks_sum: int) (ks_items: "(nat \<times> int) list")

definition kset_new :: kk_set where
  "kset_new = KK_Set 0 []"

definition kset_add :: "nat \<Rightarrow> int \<Rightarrow> kk_set \<Rightarrow> kk_set" where
  "kset_add idx v s = KK_Set (ks_sum s + v) (ks_items s @ [(idx, v)])"

definition kset_merge :: "kk_set \<Rightarrow> kk_set \<Rightarrow> kk_set" where
  "kset_merge s other = foldl (\<lambda>s (idx, v). kset_add idx v s) s (ks_items other)"

definition kset_lt :: "kk_set \<Rightarrow> kk_set \<Rightarrow> bool" where
  "kset_lt s other =
     (if ks_sum s \<noteq> ks_sum other then ks_sum s < ks_sum other
      else if length (ks_items s) \<noteq> length (ks_items other)
        then length (ks_items s) < length (ks_items other)
      else ks_items s < ks_items other)"

text \<open>The order of the library on \<open>kk_set\<close> is that of \<open>__lt__\<close>.\<close>

instantiation kk_set :: linorder
begin

definition less_kk_set :: "kk_set \<Rightarrow> kk_set \<Rightarrow> bool" where
  "less_kk_set = kset_lt"

definition less_eq_kk_set :: "kk_set \<Rightarrow> kk_set \<Rightarrow> bool" where
  "less_eq_kk_set s other = (s < other \<or> s = other)"

instance
proof
  fix x y z :: kk_set
  have irr: "\<not> x < x" for x :: kk_set by (simp add: less_kk_set_def kset_lt_def)
  have tr: "x < y \<Longrightarrow> y < z \<Longrightarrow> x < z" for x y z :: kk_set
    by (auto simp: less_kk_set_def kset_lt_def split: if_splits)
  show "x < y \<longleftrightarrow> x \<le> y \<and> \<not> y \<le> x"
    using irr tr by (auto simp: less_eq_kk_set_def)
  show "x \<le> x" by (simp add: less_eq_kk_set_def)
  show "x \<le> y \<Longrightarrow> y \<le> z \<Longrightarrow> x \<le> z"
    using tr by (auto simp: less_eq_kk_set_def)
  show "x \<le> y \<Longrightarrow> y \<le> x \<Longrightarrow> x = y"
    using irr tr by (auto simp: less_eq_kk_set_def)
  show "x \<le> y \<or> y \<le> x"
    by (cases x; cases y) (auto simp: less_eq_kk_set_def less_kk_set_def kset_lt_def)
qed

end

section \<open>The class State\<close>

record kk_state =
  st_k :: nat
  st_sets :: "kk_set list"

text \<open>Python's \<open>sorted(xs, reverse=True)\<close> on a linear order: equal elements are identical.\<close>

definition sorted_reverse :: "'a::linorder list \<Rightarrow> 'a list" where
  "sorted_reverse xs = rev (sort xs)"

definition state_new :: "(nat \<times> int) list \<Rightarrow> nat \<Rightarrow> kk_state result" where
  "state_new items k =
     require (length items = 1 \<or> length items = k) AssertionError
      (require (length items \<le> k) IndexError
        (Inr \<lparr>st_k = k,
              st_sets = sorted_reverse
                (map (\<lambda>i. if i < length items
                          then kset_add (fst (items ! i)) (snd (items ! i)) kset_new
                          else kset_new) [0..<k])\<rparr>))"

definition state_get_partitions :: "kk_state \<Rightarrow> nat list list" where
  "state_get_partitions s = map (\<lambda>ks. map fst (ks_items ks)) (st_sets s)"

definition state_merge :: "kk_state \<Rightarrow> kk_state \<Rightarrow> kk_state" where
  "state_merge s other =
     s\<lparr>st_sets := sorted_reverse
         (map (\<lambda>i. kset_merge (st_sets s ! i) (st_sets other ! (st_k s - 1 - i))) [0..<st_k s])\<rparr>"

definition state_spread :: "kk_state \<Rightarrow> int" where
  "state_spread s = ks_sum (hd (st_sets s)) - ks_sum (last (st_sets s))"

definition state_lt :: "kk_state \<Rightarrow> kk_state \<Rightarrow> bool" where
  "state_lt s other =
     (if state_spread s \<noteq> state_spread other then state_spread s > state_spread other
      else hd (st_sets other) < hd (st_sets s))"

section \<open>heapq and the reduction loop\<close>

fun heap_push :: "('s \<Rightarrow> 's \<Rightarrow> bool) \<Rightarrow> 's \<Rightarrow> 's list \<Rightarrow> 's list" where
  "heap_push lt s [] = [s]"
| "heap_push lt s (t # ts) = (if lt t s then t # heap_push lt s ts else s # t # ts)"

lemma length_heap_push [simp]: "length (heap_push lt s h) = Suc (length h)"
  by (induction h) auto

lemma mset_heap_push [simp]: "mset (heap_push lt s h) = add_mset s (mset h)"
  by (induction h) auto

lemma set_heap_push [simp]: "set (heap_push lt s h) = insert s (set h)"
  by (induction h) auto

function heap_reduce :: "('s \<Rightarrow> 's \<Rightarrow> bool) \<Rightarrow> ('s \<Rightarrow> 's \<Rightarrow> 's) \<Rightarrow> 's list \<Rightarrow> 's list" where
  "heap_reduce lt mrg (s0 # s1 # h) = heap_reduce lt mrg (heap_push lt (mrg s0 s1) h)"
| "heap_reduce lt mrg [s] = [s]"
| "heap_reduce lt mrg [] = []"
  by pat_completeness auto
termination
  by (relation "measure (\<lambda>(lt, mrg, h). length h)") auto

lemma heap_reduce_induct [case_names two one empty]:
  assumes "\<And>s0 s1 h. P (heap_push lt (mrg s0 s1) h) \<Longrightarrow> P (s0 # s1 # h)"
    and "\<And>s. P [s]" and "P []"
  shows "P h"
proof (induction "length h" arbitrary: h rule: less_induct)
  case less
  show ?case
  proof (cases h)
    case Nil
    with assms(3) show ?thesis by simp
  next
    case (Cons s0 t)
    with assms(1,2) less show ?thesis by (cases t) simp_all
  qed
qed

definition kk_groups :: "(int \<times> nat) list \<Rightarrow> nat \<Rightarrow> (nat \<times> int) list list" where
  "kk_groups srt k =
     map (\<lambda>b. map (\<lambda>i. (snd (srt ! (b * k + i)), fst (srt ! (b * k + i)))) [0..<k])
       [0..<length srt div k]"

definition kk_initial :: "int list \<Rightarrow> nat \<Rightarrow> bool \<Rightarrow> kk_state list result" where
  "kk_initial seqlen_list k equal_size =
     (let srt = sort (zip seqlen_list [0..<length seqlen_list]) in
      bind_r
       (if equal_size then
          require (k \<noteq> 0) ZeroDivisionError
           (require (length seqlen_list mod k = 0) AssertionError
             (map_r (\<lambda>g. state_new g k) (kk_groups srt k)))
        else map_r (\<lambda>(v, i). state_new [(i, v)] k) srt)
       (\<lambda>states. Inr (foldl (\<lambda>h s. heap_push state_lt s h) [] states)))"

definition karmarkar_karp :: "int list \<Rightarrow> nat \<Rightarrow> bool \<Rightarrow> nat list list result" where
  "karmarkar_karp seqlen_list k equal_size =
     bind_r (kk_initial seqlen_list k equal_size) (\<lambda>pq.
       case heap_reduce state_lt state_merge pq of
         [] \<Rightarrow> Inl IndexError
       | final # _ \<Rightarrow>
           (let partitions = state_get_partitions final in
            require (equal_size \<longrightarrow> (\<forall>p \<in> set partitions. length p * k = length seqlen_list))
              AssertionError (Inr partitions)))"

section \<open>The contract between the loop and a state\<close>

locale mergeable =
  fixes mrg :: "'s \<Rightarrow> 's \<Rightarrow> 's" and ok :: "'s \<Rightarrow> bool" and items :: "'s \<Rightarrow> 'i multiset"
  assumes ok_merge: "ok s \<Longrightarrow> ok t \<Longrightarrow> ok (mrg s t)"
    and items_merge: "ok s \<Longrightarrow> ok t \<Longrightarrow> items (mrg s t) = items s + items t"
begin

lemma reduce_ok: "\<forall>s \<in> set h. ok s \<Longrightarrow> \<forall>s \<in> set (heap_reduce lt mrg h). ok s"
  by (induction h rule: heap_reduce_induct [where lt = lt and mrg = mrg]) (simp_all add: ok_merge)

lemma reduce_items:
  "\<forall>s \<in> set h. ok s \<Longrightarrow>
   (\<Sum>s\<in>#mset (heap_reduce lt mrg h). items s) = (\<Sum>s\<in>#mset h. items s)"
  by (induction h rule: heap_reduce_induct [where lt = lt and mrg = mrg])
    (simp_all add: items_merge ok_merge add.assoc)

lemma reduce_single:
  assumes "h \<noteq> []" and "\<forall>s \<in> set h. ok s"
  obtains s where "heap_reduce lt mrg h = [s]" and "ok s"
    and "items s = (\<Sum>s\<in>#mset h. items s)"
proof -
  have "h \<noteq> [] \<longrightarrow> (\<exists>s. heap_reduce lt mrg h = [s])"
    by (induction h rule: heap_reduce_induct [where lt = lt and mrg = mrg])
      (simp_all flip: length_greater_0_conv)
  then obtain s where s: "heap_reduce lt mrg h = [s]" using assms(1) by blast
  moreover have "ok s" using reduce_ok [OF assms(2), of lt] s by simp
  moreover have "items s = (\<Sum>s\<in>#mset h. items s)"
    using reduce_items [OF assms(2), of lt] s by simp
  ultimately show thesis by (rule that)
qed

end

section \<open>Well-formed states\<close>

definition kset_ok :: "kk_set \<Rightarrow> bool" where
  "kset_ok s \<longleftrightarrow> ks_sum s = sum_list (map snd (ks_items s)) \<and> (\<forall>(i, v) \<in> set (ks_items s). 0 \<le> v)"

definition state_items :: "kk_state \<Rightarrow> (nat \<times> int) multiset" where
  "state_items s = mset (concat (map ks_items (st_sets s)))"

definition kk_nonempty :: "kk_set \<Rightarrow> bool" where
  "kk_nonempty s \<longleftrightarrow> ks_items s \<noteq> []"

definition kk_ok :: "nat \<Rightarrow> int \<Rightarrow> kk_state \<Rightarrow> bool" where
  "kk_ok k M s \<longleftrightarrow>
     st_k s = k \<and> length (st_sets s) = k \<and> sorted (rev (st_sets s)) \<and>
     (\<forall>ks \<in> set (st_sets s). kset_ok ks) \<and>
     (\<forall>a \<in> set (st_sets s). \<forall>b \<in> set (st_sets s). ks_sum a - ks_sum b \<le> M) \<and>
     length (filter kk_nonempty (st_sets s)) = min k (size (state_items s))"

definition kk_uniform :: "kk_state \<Rightarrow> bool" where
  "kk_uniform s \<longleftrightarrow> (\<exists>c. \<forall>ks \<in> set (st_sets s). length (ks_items ks) = c)"

lemma kset_merge_simps [simp]:
  "ks_items (kset_merge s t) = ks_items s @ ks_items t"
  "ks_sum (kset_merge s t) = ks_sum s + sum_list (map snd (ks_items t))"
proof -
  have "ks_items (foldl (\<lambda>s (i, v). kset_add i v s) s xs) = ks_items s @ xs \<and>
        ks_sum (foldl (\<lambda>s (i, v). kset_add i v s) s xs) = ks_sum s + sum_list (map snd xs)" for xs
    by (induction xs arbitrary: s) (auto simp: kset_add_def)
  then show "ks_items (kset_merge s t) = ks_items s @ ks_items t"
    and "ks_sum (kset_merge s t) = ks_sum s + sum_list (map snd (ks_items t))"
    by (simp_all add: kset_merge_def)
qed

lemma kset_ok_merge: "kset_ok s \<Longrightarrow> kset_ok t \<Longrightarrow> kset_ok (kset_merge s t)"
  by (auto simp: kset_ok_def)

lemma kset_sum_merge: "kset_ok t \<Longrightarrow> ks_sum (kset_merge s t) = ks_sum s + ks_sum t"
  by (simp add: kset_ok_def)

lemma kset_le_sum: "s \<le> t \<Longrightarrow> ks_sum s \<le> ks_sum t" for s t :: kk_set
  by (auto simp: less_eq_kk_set_def less_kk_set_def kset_lt_def split: if_splits)

lemma kset_sum_nonneg: "kset_ok s \<Longrightarrow> 0 \<le> ks_sum s"
  by (fastforce simp: kset_ok_def intro!: sum_list_nonneg)

lemma kset_le_nonempty:
  assumes "s \<le> t" and "kset_ok s" and "kset_ok t" and "kk_nonempty s"
  shows "kk_nonempty t"
proof (rule ccontr)
  assume "\<not> kk_nonempty t"
  then have t: "ks_items t = []" "ks_sum t = 0"
    using assms(3) by (auto simp: kk_nonempty_def kset_ok_def)
  with kset_le_sum [OF assms(1)] kset_sum_nonneg [OF assms(2)] have "ks_sum s = 0" by simp
  with t assms(1,4) show False
    by (auto simp: less_eq_kk_set_def less_kk_set_def kset_lt_def kk_nonempty_def split: if_splits)
qed

lemma sorted_reverse_simps [simp]:
  "length (sorted_reverse xs) = length xs" "set (sorted_reverse xs) = set xs"
  "mset (sorted_reverse xs) = mset xs" "sorted (rev (sorted_reverse xs))"
  by (simp_all add: sorted_reverse_def)

lemma length_filter_sorted_reverse [simp]:
  "length (filter P (sorted_reverse xs)) = length (filter P xs)"
  by (metis mset_filter size_mset sorted_reverse_simps(3))

lemma nth_filter_prefix:
  assumes "\<And>i j. i < j \<Longrightarrow> j < length xs \<Longrightarrow> P (xs ! j) \<Longrightarrow> P (xs ! i)" and "i < length xs"
  shows "P (xs ! i) \<longleftrightarrow> i < length (filter P xs)"
  using assms
proof (induction xs arbitrary: i)
  case (Cons x xs)
  have mono: "P (xs ! j) \<Longrightarrow> P (xs ! i)" if "i < j" "j < length xs" for i j
    using Cons.prems(1) [of "Suc i" "Suc j"] that by simp
  have none: "filter P xs = []" if "\<not> P x"
  proof -
    have "\<not> P (xs ! j)" if "j < length xs" for j
      using Cons.prems(1) [of 0 "Suc j"] that \<open>\<not> P x\<close> by auto
    then show ?thesis by (auto simp: filter_empty_conv in_set_conv_nth)
  qed
  show ?case
  proof (cases i)
    case 0
    with none show ?thesis by auto
  next
    case (Suc j)
    have step: "P (xs ! j) \<longleftrightarrow> j < length (filter P xs)"
      using Cons.IH [OF mono] Cons.prems(2) Suc by simp
    show ?thesis
    proof (cases "P x")
      case True
      with step Suc show ?thesis by simp
    next
      case False
      with step Suc none show ?thesis by simp
    qed
  qed
qed simp

lemma kk_ok_nth:
  assumes "kk_ok k M s" and "i \<le> j" and "j < k"
  shows "st_sets s ! j \<le> st_sets s ! i"
  using assms by (auto simp: kk_ok_def sorted_rev_iff_nth_mono)

lemma kk_ok_nonempty_nth:
  assumes "kk_ok k M s" and "i < k"
  shows "kk_nonempty (st_sets s ! i) \<longleftrightarrow> i < size (state_items s)"
proof -
  have "kk_nonempty (st_sets s ! i)" if "i < j" "j < length (st_sets s)" "kk_nonempty (st_sets s ! j)"
    for i j
    using kset_le_nonempty [OF kk_ok_nth [OF assms(1), of i j] _ _ that(3)] that assms(1)
    by (simp add: kk_ok_def)
  from nth_filter_prefix [of "st_sets s" kk_nonempty, OF this] assms show ?thesis
    by (auto simp: kk_ok_def)
qed

section \<open>Merging keeps a state well-formed\<close>

definition merged_sets :: "nat \<Rightarrow> kk_state \<Rightarrow> kk_state \<Rightarrow> kk_set list" where
  "merged_sets k s t = map (\<lambda>i. kset_merge (st_sets s ! i) (st_sets t ! (k - 1 - i))) [0..<k]"

lemma state_merge_sets: "st_k s = k \<Longrightarrow> st_sets (state_merge s t) = sorted_reverse (merged_sets k s t)"
  by (simp add: state_merge_def merged_sets_def)

lemma kk_ok_set_nth: "kk_ok k M s \<Longrightarrow> i < k \<Longrightarrow> st_sets s ! i \<in> set (st_sets s)"
  by (simp add: kk_ok_def)

lemma merged_sets_ok: "kk_ok k M s \<Longrightarrow> kk_ok k M t \<Longrightarrow> ks \<in> set (merged_sets k s t) \<Longrightarrow> kset_ok ks"
  by (auto simp: merged_sets_def kk_ok_def intro!: kset_ok_merge)

lemma merged_sets_spread:
  assumes s: "kk_ok k M s" and t: "kk_ok k M t"
    and "a \<in> set (merged_sets k s t)" and "b \<in> set (merged_sets k s t)"
  shows "ks_sum a - ks_sum b \<le> M"
proof -
  from assms(3,4) obtain i j where ij: "i < k" "j < k"
    and a: "a = kset_merge (st_sets s ! i) (st_sets t ! (k - 1 - i))"
    and b: "b = kset_merge (st_sets s ! j) (st_sets t ! (k - 1 - j))"
    by (auto simp: merged_sets_def)
  have le: "ks_sum (st_sets r ! n) \<le> ks_sum (st_sets r ! m)" if "kk_ok k M r" "m \<le> n" "n < k" for r m n
    using kk_ok_nth [OF that] by (rule kset_le_sum)
  have diff: "ks_sum (st_sets r ! m) - ks_sum (st_sets r ! n) \<le> M" if "kk_ok k M r" "m < k" "n < k"
    for r m n
    using that kk_ok_set_nth [OF that(1)] by (simp add: kk_ok_def)
  have ok: "kset_ok (st_sets t ! m)" if "m < k" for m
    using t that by (simp add: kk_ok_def)
  have a': "ks_sum a = ks_sum (st_sets s ! i) + ks_sum (st_sets t ! (k - 1 - i))"
    unfolding a using ij(1) by (intro kset_sum_merge ok) simp
  have b': "ks_sum b = ks_sum (st_sets s ! j) + ks_sum (st_sets t ! (k - 1 - j))"
    unfolding b using ij(2) by (intro kset_sum_merge ok) simp
  show ?thesis
  proof (cases "i \<le> j")
    case True
    with ij have "ks_sum (st_sets t ! (k - 1 - i)) \<le> ks_sum (st_sets t ! (k - 1 - j))"
      by (intro le [OF t]) simp_all
    with diff [OF s ij] a' b' show ?thesis by simp
  next
    case False
    with ij have "ks_sum (st_sets s ! i) \<le> ks_sum (st_sets s ! j)"
      by (intro le [OF s]) simp_all
    with diff [OF t, of "k - 1 - i" "k - 1 - j"] ij a' b' show ?thesis by simp
  qed
qed

lemma mset_reversed_upt: "mset (map (\<lambda>i. f (k - 1 - i)) [0..<k]) = mset (map f [0..<k])"
proof -
  have "map (\<lambda>i. f (k - 1 - i)) [0..<k] = rev (map f [0..<k])"
    by (rule nth_equalityI) (simp_all add: rev_nth)
  then show ?thesis by simp
qed

lemma sum_reversed_upt: "(\<Sum>i\<in>#mset [0..<k]. f (k - 1 - i)) = (\<Sum>i\<in>#mset [0..<k]. f i)"
  by (rule arg_cong [where f = sum_mset]) (rule mset_reversed_upt [unfolded mset_map])

lemma state_items_merge:
  assumes s: "kk_ok k M s" and t: "kk_ok k M t"
  shows "state_items (state_merge s t) = state_items s + state_items t"
proof -
  have items: "state_items r = (\<Sum>i\<in>#mset [0..<k]. mset (ks_items (st_sets r ! i)))"
    if "length (st_sets r) = k" for r
  proof -
    have "state_items r = mset (concat (map (\<lambda>i. ks_items (st_sets r ! i)) [0..<k]))"
      using that map_nth_upt [of "st_sets r"]
      by (simp add: state_items_def flip: map_map [unfolded comp_def])
    then show ?thesis by (simp add: mset_concat_map)
  qed
  have "state_items (state_merge s t) = (\<Sum>ks\<in>#mset (merged_sets k s t). mset (ks_items ks))"
    using s by (simp add: state_items_def state_merge_sets kk_ok_def mset_concat_map)
  also have "\<dots> = (\<Sum>i\<in>#mset [0..<k]. mset (ks_items (st_sets s ! i))) +
      (\<Sum>i\<in>#mset [0..<k]. mset (ks_items (st_sets t ! (k - 1 - i))))"
    by (simp add: merged_sets_def image_mset.compositionality comp_def sum_mset.distrib)
  also have "(\<Sum>i\<in>#mset [0..<k]. mset (ks_items (st_sets t ! (k - 1 - i)))) =
      (\<Sum>i\<in>#mset [0..<k]. mset (ks_items (st_sets t ! i)))"
    by (rule sum_reversed_upt)
  finally show ?thesis
    using s t by (simp add: items kk_ok_def)
qed

lemma card_ends: "card {i. i < k \<and> (i < a \<or> k - 1 - i < b)} = min k (a + b)" for a b k :: nat
proof -
  have "{i. i < k \<and> (i < a \<or> k - 1 - i < b)} = {..<k} - {a..<k - b}" by auto
  moreover have "card ({..<k} - {a..<k - b}) = k - (k - b - a)"
    by (subst card_Diff_subset) auto
  ultimately show ?thesis by simp
qed

lemma merged_sets_nonempty:
  assumes "kk_ok k M s" and "kk_ok k M t"
  shows "length (filter kk_nonempty (merged_sets k s t)) =
         min k (size (state_items s) + size (state_items t))"
proof -
  have "kk_nonempty (merged_sets k s t ! i) \<longleftrightarrow>
        i < size (state_items s) \<or> k - 1 - i < size (state_items t)" if "i < k" for i
    using that kk_ok_nonempty_nth [OF assms(1), of i] kk_ok_nonempty_nth [OF assms(2), of "k - 1 - i"]
    by (simp add: merged_sets_def kk_nonempty_def)
  then have "{i. i < k \<and> kk_nonempty (merged_sets k s t ! i)} =
      {i. i < k \<and> (i < size (state_items s) \<or> k - 1 - i < size (state_items t))}" by blast
  moreover have "length (merged_sets k s t) = k" by (simp add: merged_sets_def)
  ultimately show ?thesis by (simp only: length_filter_conv_card card_ends)
qed

lemma kk_ok_merge:
  assumes s: "kk_ok k M s" and t: "kk_ok k M t"
  shows "kk_ok k M (state_merge s t)"
proof -
  have k: "st_k s = k" using s by (simp add: kk_ok_def)
  then have sets: "st_sets (state_merge s t) = sorted_reverse (merged_sets k s t)"
    by (rule state_merge_sets)
  have "length (filter kk_nonempty (merged_sets k s t)) = min k (size (state_items (state_merge s t)))"
    by (simp add: merged_sets_nonempty [OF s t] state_items_merge [OF s t])
  with k sets merged_sets_ok [OF s t] merged_sets_spread [OF s t] show ?thesis
    by (simp add: kk_ok_def state_merge_def merged_sets_def)
qed

lemma kk_uniform_merge:
  assumes "kk_ok k M s" and "kk_ok k M t" and "kk_uniform s" and "kk_uniform t"
  shows "kk_uniform (state_merge s t)"
proof -
  from assms(3,4) obtain c d where "\<forall>ks \<in> set (st_sets s). length (ks_items ks) = c"
    and "\<forall>ks \<in> set (st_sets t). length (ks_items ks) = d"
    by (auto simp: kk_uniform_def)
  with assms(1,2) have "\<forall>ks \<in> set (merged_sets k s t). length (ks_items ks) = c + d"
    by (auto simp: merged_sets_def kk_ok_def)
  with assms(1) show ?thesis by (auto simp: kk_uniform_def state_merge_sets kk_ok_def)
qed

interpretation kk: mergeable state_merge "kk_ok k M" state_items for k M
  by unfold_locales (auto intro: kk_ok_merge simp: state_items_merge)

interpretation kku: mergeable state_merge "\<lambda>s. kk_ok k M s \<and> kk_uniform s" state_items for k M
  by unfold_locales (auto intro: kk_ok_merge kk_uniform_merge simp: state_items_merge)

section \<open>Initial states and the result\<close>

definition vals_in :: "int \<Rightarrow> (nat \<times> int) list \<Rightarrow> bool" where
  "vals_in M items \<longleftrightarrow> (\<forall>(i, v) \<in> set items. 0 \<le> v \<and> v \<le> M)"

definition new_sets :: "(nat \<times> int) list \<Rightarrow> nat \<Rightarrow> kk_set list" where
  "new_sets items k = map (\<lambda>i. if i < length items then KK_Set (snd (items ! i)) [items ! i]
                               else KK_Set 0 []) [0..<k]"

lemma state_new_eq:
  assumes "length items = 1 \<or> length items = k" and "0 < k"
  shows "state_new items k = Inr \<lparr>st_k = k, st_sets = sorted_reverse (new_sets items k)\<rparr>"
  using assms by (auto simp: state_new_def new_sets_def kset_add_def kset_new_def cong: if_cong)

lemma concat_nth_prefix:
  "length xs \<le> k \<Longrightarrow> concat (map (\<lambda>i. if i < length xs then [xs ! i] else []) [0..<k]) = xs"
proof -
  assume le: "length xs \<le> k"
  then have "[0..<k] = [0..<length xs] @ [length xs..<k]"
    by (metis le_add_diff_inverse upt_add_eq_append zero_le)
  moreover have "concat (map (\<lambda>i. if i < length xs then [xs ! i] else []) [0..<length xs]) = xs"
  proof -
    have "map (\<lambda>i. if i < length xs then [xs ! i] else []) [0..<length xs] =
        map (\<lambda>i. [xs ! i]) [0..<length xs]" by simp
    then show ?thesis by (simp only: concat_map_singleton map_nth)
  qed
  moreover have "concat (map (\<lambda>i. if i < length xs then [xs ! i] else []) [length xs..<k]) = []"
    by simp
  ultimately show ?thesis by (simp only: map_append concat_append append_Nil2)
qed

lemma new_sets_items: "length items \<le> k \<Longrightarrow> concat (map ks_items (new_sets items k)) = items"
  using concat_nth_prefix [of items k] by (simp add: new_sets_def comp_def if_distrib cong: if_cong)

lemma new_sets_nonempty: "length (filter kk_nonempty (new_sets items k)) = min k (length items)"
proof -
  have "{i. i < k \<and> kk_nonempty (new_sets items k ! i)} = {i. i < k \<and> i < length items}"
    by (auto simp: new_sets_def kk_nonempty_def split: if_splits)
  also have "\<dots> = {..<min k (length items)}" by auto
  finally show ?thesis by (simp add: length_filter_conv_card new_sets_def)
qed

lemma mset_concat_cong: "mset xs = mset ys \<Longrightarrow> mset (concat (map f xs)) = mset (concat (map f ys))"
  by (simp add: mset_concat_map)

lemma state_new_ok:
  assumes "length items = 1 \<or> length items = k" and "0 < k" and M: "0 \<le> M" "vals_in M items"
  obtains s where "state_new items k = Inr s" and "kk_ok k M s" and "state_items s = mset items"
    and "length items = k \<longrightarrow> kk_uniform s"
proof -
  define s where "s = \<lparr>st_k = k, st_sets = sorted_reverse (new_sets items k)\<rparr>"
  have le: "length items \<le> k" using assms(1,2) by auto
  have val: "0 \<le> snd (items ! i) \<and> snd (items ! i) \<le> M" if "i < length items" for i
    using bspec [OF M(2) [unfolded vals_in_def] nth_mem [OF that]] by (simp add: case_prod_beta)
  have items: "state_items s = mset items"
  proof -
    have "state_items s = mset (concat (map ks_items (sorted_reverse (new_sets items k))))"
      by (simp add: state_items_def s_def)
    also have "\<dots> = mset (concat (map ks_items (new_sets items k)))"
      by (rule mset_concat_cong) simp
    finally show ?thesis by (simp only: new_sets_items [OF le])
  qed
  have sets: "kset_ok ks \<and> 0 \<le> ks_sum ks \<and> ks_sum ks \<le> M" if "ks \<in> set (new_sets items k)" for ks
    using that val M(1) by (auto simp: new_sets_def kset_ok_def split: if_splits prod.splits)
      (metis snd_conv)+
  have spread: "ks_sum a - ks_sum b \<le> M"
    if "a \<in> set (new_sets items k)" "b \<in> set (new_sets items k)" for a b
    using sets [OF that(1)] sets [OF that(2)] by simp
  have ok: "kk_ok k M s"
    using sets spread items new_sets_nonempty [of items k]
    by (simp add: kk_ok_def s_def) (simp add: new_sets_def)
  have "kk_uniform s" if "length items = k"
    using that by (auto simp: kk_uniform_def s_def new_sets_def intro!: exI [of _ 1])
  with that [of s] ok items state_new_eq [OF assms(1,2)] show thesis by (simp add: s_def)
qed

lemma map_r_states:
  assumes "\<forall>g \<in> set gs. (length g = 1 \<or> length g = k) \<and> vals_in M g" and "0 < k" and "0 \<le> M"
  obtains ss where "map_r (\<lambda>g. state_new g k) gs = Inr ss" and "\<forall>s \<in> set ss. kk_ok k M s"
    and "(\<Sum>s\<in>#mset ss. state_items s) = mset (concat gs)"
    and "(\<forall>g \<in> set gs. length g = k) \<longrightarrow> (\<forall>s \<in> set ss. kk_uniform s)"
    and "length ss = length gs"
  using assms
proof (induction gs arbitrary: thesis)
  case (Cons g gs)
  obtain ss where ss: "map_r (\<lambda>g. state_new g k) gs = Inr ss" "\<forall>s \<in> set ss. kk_ok k M s"
    "(\<Sum>s\<in>#mset ss. state_items s) = mset (concat gs)"
    "(\<forall>g \<in> set gs. length g = k) \<longrightarrow> (\<forall>s \<in> set ss. kk_uniform s)" "length ss = length gs"
    using Cons.IH Cons.prems by auto
  obtain s where s: "state_new g k = Inr s" "kk_ok k M s" "state_items s = mset g"
    "length g = k \<longrightarrow> kk_uniform s"
    using Cons.prems by (auto intro: state_new_ok [of g k M])
  show ?case by (rule Cons.prems(1) [of "s # ss"]) (use s ss in auto)
qed auto

lemma kk_groups_concat:
  assumes "length srt mod k = 0" and "0 < k"
  shows "concat (kk_groups srt k) = map prod.swap srt"
proof -
  have *: "concat (map (\<lambda>b. map (\<lambda>i. f (b * k + i)) [0..<k]) [0..<m]) = map f [0..<m * k]"
    for f :: "nat \<Rightarrow> nat \<times> int" and m
  proof (induction m)
    case (Suc m)
    have "map (\<lambda>i. m * k + i) [0..<k] = [m * k..<m * k + k]"
      using map_add_upt [of "m * k" k] by (simp add: add.commute)
    moreover have "[0..<Suc m * k] = [0..<m * k] @ [m * k..<m * k + k]"
      using upt_add_eq_append [of 0 "m * k" k] by (simp add: add.commute)
    ultimately have "[0..<Suc m * k] = [0..<m * k] @ map (\<lambda>i. m * k + i) [0..<k]" by simp
    with Suc show ?case by (simp only: upt_Suc map_append concat_append) (simp add: comp_def)
  qed simp
  have "length srt div k * k = length srt" using assms by auto
  moreover have "kk_groups srt k =
      map (\<lambda>b. map (\<lambda>i. prod.swap (srt ! (b * k + i))) [0..<k]) [0..<length srt div k]"
    by (simp add: kk_groups_def prod.swap_def)
  ultimately have "concat (kk_groups srt k) = map (\<lambda>i. prod.swap (srt ! i)) [0..<length srt]"
    using * [of "\<lambda>i. prod.swap (srt ! i)" "length srt div k"] by simp
  also have "\<dots> = map prod.swap (map ((!) srt) [0..<length srt])" by (simp add: comp_def)
  finally show ?thesis by (simp only: map_nth)
qed

lemma mset_foldl_push [simp]:
  "mset (foldl (\<lambda>h s. heap_push lt s h) h ss) = mset h + mset ss"
  by (induction ss arbitrary: h) simp_all

definition sorted_pairs :: "int list \<Rightarrow> (int \<times> nat) list" where
  "sorted_pairs xs = sort (zip xs [0..<length xs])"

lemma length_sorted_pairs [simp]: "length (sorted_pairs xs) = length xs"
  by (simp add: sorted_pairs_def)

lemma mset_sorted_pairs: "mset (map prod.swap (sorted_pairs xs)) = mset (zip [0..<length xs] xs)"
proof -
  have "map prod.swap (zip xs [0..<length xs]) = zip [0..<length xs] xs"
    using zip_commute [of "[0..<length xs]" xs] by (simp add: prod.swap_def case_prod_unfold)
  moreover have "mset (map prod.swap (sorted_pairs xs)) = mset (map prod.swap (zip xs [0..<length xs]))"
    by (simp only: sorted_pairs_def mset_map mset_sort)
  ultimately show ?thesis by (simp only:)
qed

lemma vals_in_mset: "mset xs = mset ys \<Longrightarrow> vals_in M xs = vals_in M ys"
  by (drule mset_eq_setD) (simp add: vals_in_def)

lemma vals_in_zip: "\<forall>v \<in> set xs. 0 \<le> v \<and> v \<le> M \<Longrightarrow> vals_in M (zip [0..<length xs] xs)"
  by (auto simp: vals_in_def dest: set_zip_rightD)

lemma vals_in_concat: "vals_in M (concat gs) \<longleftrightarrow> (\<forall>g \<in> set gs. vals_in M g)"
  by (auto simp: vals_in_def)

lemma kk_initial_groups:
  assumes "0 < k" and "equal_size \<longrightarrow> length xs mod k = 0"
  obtains gs where "kk_initial xs k equal_size =
      bind_r (map_r (\<lambda>g. state_new g k) gs) (\<lambda>ss. Inr (foldl (\<lambda>h s. heap_push state_lt s h) [] ss))"
    and "concat gs = map prod.swap (sorted_pairs xs)"
    and "\<forall>g \<in> set gs. length g = 1 \<or> length g = k"
    and "equal_size \<longrightarrow> (\<forall>g \<in> set gs. length g = k)"
proof (cases equal_size)
  case True
  show thesis
  proof (rule that [of "kk_groups (sorted_pairs xs) k"])
    show "concat (kk_groups (sorted_pairs xs) k) = map prod.swap (sorted_pairs xs)"
      using assms True by (intro kk_groups_concat) simp_all
  qed (use assms True in \<open>auto simp: kk_initial_def sorted_pairs_def kk_groups_def Let_def\<close>)
next
  case False
  show thesis
  proof (rule that [of "map (\<lambda>(v, i). [(i, v)]) (sorted_pairs xs)"])
    show "concat (map (\<lambda>(v, i). [(i, v)]) (sorted_pairs xs)) = map prod.swap (sorted_pairs xs)"
      by (simp add: case_prod_unfold prod.swap_def)
  qed (use False in \<open>auto simp: kk_initial_def sorted_pairs_def map_r_map case_prod_unfold\<close>)
qed

lemma kk_initial_ok:
  assumes "xs \<noteq> []" and vals: "\<forall>v \<in> set xs. 0 \<le> v \<and> v \<le> M" and "0 < k"
    and "equal_size \<longrightarrow> length xs mod k = 0"
  obtains pq where "kk_initial xs k equal_size = Inr pq" and "pq \<noteq> []"
    and "\<forall>s \<in> set pq. kk_ok k M s \<and> (equal_size \<longrightarrow> kk_uniform s)"
    and "(\<Sum>s\<in>#mset pq. state_items s) = mset (zip [0..<length xs] xs)"
proof -
  obtain gs where gs: "kk_initial xs k equal_size =
      bind_r (map_r (\<lambda>g. state_new g k) gs) (\<lambda>ss. Inr (foldl (\<lambda>h s. heap_push state_lt s h) [] ss))"
    "concat gs = map prod.swap (sorted_pairs xs)"
    "\<forall>g \<in> set gs. length g = 1 \<or> length g = k" "equal_size \<longrightarrow> (\<forall>g \<in> set gs. length g = k)"
    using kk_initial_groups [OF assms(3,4)] by metis
  have items: "mset (concat gs) = mset (zip [0..<length xs] xs)"
    by (simp only: gs(2) mset_sorted_pairs)
  then have "vals_in M (concat gs)"
    using vals_in_mset vals_in_zip [OF vals] by blast
  moreover have "0 \<le> M" using assms(1) vals by (cases xs) auto
  ultimately obtain ss where ss: "map_r (\<lambda>g. state_new g k) gs = Inr ss" "\<forall>s \<in> set ss. kk_ok k M s"
    "(\<Sum>s\<in>#mset ss. state_items s) = mset (concat gs)"
    "(\<forall>g \<in> set gs. length g = k) \<longrightarrow> (\<forall>s \<in> set ss. kk_uniform s)" "length ss = length gs"
    using map_r_states [of gs k M] gs(3) assms(3) by (auto simp: vals_in_concat)
  define pq where "pq = foldl (\<lambda>h s. heap_push state_lt s h) [] ss"
  have pq: "mset pq = mset ss" by (simp add: pq_def)
  have "gs \<noteq> []"
  proof
    assume "gs = []"
    with gs(2) have "length (sorted_pairs xs) = 0" by simp
    with assms(1) show False by simp
  qed
  moreover have "length pq = length gs" using arg_cong [OF pq, of size] ss(5) by simp
  ultimately have "pq \<noteq> []" by auto
  moreover have "\<forall>s \<in> set pq. kk_ok k M s \<and> (equal_size \<longrightarrow> kk_uniform s)"
    using ss(2,4) gs(4) mset_eq_setD [OF pq] by simp
  ultimately show thesis
    using that [of pq] gs(1) ss(1,3) items pq by (simp add: pq_def)
qed

lemma kk_uniform_size:
  assumes "kk_ok k M s" and "kk_uniform s" and "ks \<in> set (st_sets s)"
  shows "length (ks_items ks) * k = size (state_items s)"
proof -
  obtain c where c: "\<forall>ks \<in> set (st_sets s). length (ks_items ks) = c"
    using assms(2) by (auto simp: kk_uniform_def)
  then have "map (\<lambda>ks. length (ks_items ks)) (st_sets s) = replicate k c"
    using assms(1) by (intro nth_equalityI) (auto simp: kk_ok_def)
  then have "size (state_items s) = k * c"
    by (simp add: state_items_def length_concat comp_def sum_list_replicate)
  with c assms(3) show ?thesis by simp
qed

lemma kk_result:
  assumes "xs \<noteq> []" and "\<forall>v \<in> set xs. 0 \<le> v \<and> v \<le> M" and "0 < k"
    and "equal_size \<longrightarrow> length xs mod k = 0"
  obtains s where "karmarkar_karp xs k equal_size = Inr (state_get_partitions s)"
    and "kk_ok k M s" and "equal_size \<longrightarrow> kk_uniform s"
    and "state_items s = mset (zip [0..<length xs] xs)"
proof -
  obtain pq where pq: "kk_initial xs k equal_size = Inr pq" "pq \<noteq> []"
    "\<forall>s \<in> set pq. kk_ok k M s \<and> (equal_size \<longrightarrow> kk_uniform s)"
    "(\<Sum>s\<in>#mset pq. state_items s) = mset (zip [0..<length xs] xs)"
    using kk_initial_ok [OF assms] by metis
  obtain s where s: "heap_reduce state_lt state_merge pq = [s]" "kk_ok k M s"
    "equal_size \<longrightarrow> kk_uniform s" "state_items s = mset (zip [0..<length xs] xs)"
  proof (cases equal_size)
    case True
    with kku.reduce_single [of pq k M state_lt] pq that show thesis by auto
  next
    case False
    with kk.reduce_single [of pq k M state_lt] pq that show thesis by auto
  qed
  have "length (ks_items ks) * k = length xs" if "equal_size" "ks \<in> set (st_sets s)" for ks
    using kk_uniform_size [OF s(2) _ that(2)] s(3,4) that(1) by simp
  then have "karmarkar_karp xs k equal_size = Inr (state_get_partitions s)"
    using pq(1) s(1) by (simp add: karmarkar_karp_def require_def Let_def state_get_partitions_def)
  with that s show thesis by blast
qed

section \<open>The partitions as index lists\<close>

definition part_sum :: "int list \<Rightarrow> nat list \<Rightarrow> int" where
  "part_sum xs p = sum_list (map ((!) xs) p)"

definition is_partition :: "nat \<Rightarrow> nat \<Rightarrow> nat list list \<Rightarrow> bool" where
  "is_partition n k ps \<longleftrightarrow> length ps = k \<and> mset (concat ps) = mset [0..<n]"

lemma state_partitions_index:
  assumes "state_items s = mset (zip [0..<length xs] xs)" and "ks \<in> set (st_sets s)"
    and "kset_ok ks"
  shows "part_sum xs (map fst (ks_items ks)) = ks_sum ks"
proof -
  have "xs ! fst e = snd e" if "e \<in> set (ks_items ks)" for e
  proof -
    have "e \<in># state_items s" using that assms(2) by (auto simp: state_items_def)
    then have "e \<in> set (zip [0..<length xs] xs)" by (simp only: assms(1) set_mset_mset)
    then show ?thesis by (auto simp: set_zip)
  qed
  then have "map ((!) xs) (map fst (ks_items ks)) = map snd (ks_items ks)" by simp
  with assms(3) show ?thesis by (simp only: part_sum_def kset_ok_def)
qed

lemma kk_partitions:
  assumes "xs \<noteq> []" and "\<forall>v \<in> set xs. 0 \<le> v \<and> v \<le> M" and "0 < k"
    and "equal_size \<longrightarrow> length xs mod k = 0"
  obtains ps where "karmarkar_karp xs k equal_size = Inr ps" and "is_partition (length xs) k ps"
    and "k \<le> length xs \<longrightarrow> [] \<notin> set ps"
    and "\<forall>p \<in> set ps. \<forall>q \<in> set ps. part_sum xs p - part_sum xs q \<le> M"
    and "equal_size \<longrightarrow> (\<forall>p \<in> set ps. length p * k = length xs)"
proof -
  obtain s where s: "karmarkar_karp xs k equal_size = Inr (state_get_partitions s)"
    "kk_ok k M s" "equal_size \<longrightarrow> kk_uniform s" "state_items s = mset (zip [0..<length xs] xs)"
    using kk_result [OF assms] by metis
  let ?ps = "state_get_partitions s"
  have "mset (concat ?ps) = image_mset fst (state_items s)"
    by (simp add: state_get_partitions_def state_items_def map_concat comp_def flip: mset_map)
  also have "\<dots> = mset (map fst (zip [0..<length xs] xs))" by (simp only: s(4) mset_map)
  finally have part: "is_partition (length xs) k ?ps"
    using s(2) by (simp add: is_partition_def kk_ok_def state_get_partitions_def)
  have sz: "size (state_items s) = length xs" by (simp add: s(4))
  have ne: "[] \<notin> set ?ps" if "k \<le> length xs"
  proof -
    have "length (filter kk_nonempty (st_sets s)) = length (st_sets s)"
      using s(2) sz that by (simp add: kk_ok_def)
    then have "filter kk_nonempty (st_sets s) = st_sets s" by (metis length_filter_less less_irrefl filter_True)
    then have "\<forall>ks \<in> set (st_sets s). kk_nonempty ks" by (simp only: filter_id_conv)
    then show ?thesis by (auto simp: state_get_partitions_def kk_nonempty_def)
  qed
  have bal: "\<forall>p \<in> set ?ps. \<forall>q \<in> set ?ps. part_sum xs p - part_sum xs q \<le> M"
    using s(2) by (auto simp: state_get_partitions_def kk_ok_def state_partitions_index [OF s(4)])
  have "\<forall>p \<in> set ?ps. length p * k = length xs" if equal_size
    using kk_uniform_size [OF s(2)] s(3) that sz by (auto simp: state_get_partitions_def)
  with that [OF s(1) part] ne bal show thesis by blast
qed

end
