(* ===== verification/Seqlen_Balance.thy ===== *)
theory Seqlen_Balance
  imports Seqlen_KK "HOL-Library.Word" Complex_Main
begin

text \<open>
  The rest of \<^verbatim>\<open>verl/utils/seqlen_balancing.py\<close>: the workload estimate, the greedy
  partitioner, the checked partition of a batch, dynamic micro-batching and its inverse,
  and the partition that keeps the samples of one prompt together. A batch is a list of
  samples; \<open>torch.distributed\<close>'s MAX all-reduce is a parameter. The source estimates the workload in 64-bit integers:
  \<open>calculate_workload\<close> is unbounded, and \<open>workload_no_overflow\<close> shows that the two agree for lengths below \<open>2 ^ 31\<close>.
\<close>

section \<open>Workload\<close>

definition calculate_workload :: "int \<Rightarrow> int" where
  "calculate_workload seqlen = 24576 * seqlen + seqlen ^ 2"

definition calculate_workload_int64 :: "64 word \<Rightarrow> 64 word" where
  "calculate_workload_int64 seqlen = 24576 * seqlen + seqlen ^ 2"

section \<open>Greedy partition\<close>

fun min_scan :: "int list \<Rightarrow> nat option \<Rightarrow> nat list \<Rightarrow> nat option" where
  "min_scan tots m [] = m"
| "min_scan tots m (j # js) =
     min_scan tots (case m of None \<Rightarrow> Some j
                    | Some i \<Rightarrow> if tots ! j < tots ! i then Some j else Some i) js"

fun greedy_loop :: "nat \<Rightarrow> (int \<times> nat) list \<Rightarrow> nat list list \<Rightarrow> int list \<Rightarrow> nat list list result" where
  "greedy_loop k [] partitions tots = Inr partitions"
| "greedy_loop k ((seqlen, i) # rest) partitions tots =
     (case min_scan tots None [0..<k] of
        None \<Rightarrow> Inl TypeError
      | Some m \<Rightarrow> greedy_loop k rest (partitions[m := partitions ! m @ [i]])
                    (tots[m := tots ! m + seqlen]))"

definition greedy_partition :: "int list \<Rightarrow> nat \<Rightarrow> bool \<Rightarrow> nat list list result" where
  "greedy_partition seqlen_list k equal_size =
     (let bias = (if equal_size then sum_list seqlen_list + 1 else 0);
          items = zip (map (\<lambda>v. v + bias) seqlen_list) [0..<length seqlen_list] in
      bind_r (greedy_loop k items (replicate k []) (replicate k 0)) (\<lambda>partitions.
        require (equal_size \<longrightarrow> (\<forall>p \<in> set partitions. length p * k = length seqlen_list))
          AssertionError (Inr partitions)))"

section \<open>Checked balanced partitions\<close>

definition check_and_sort_partitions :: "nat \<Rightarrow> nat \<Rightarrow> nat list list \<Rightarrow> nat list list result" where
  "check_and_sort_partitions n k partitions =
     require (length partitions = k) AssertionError
      (bind_r (map_r (\<lambda>p. require (p \<noteq> []) AssertionError (Inr (sort p))) partitions)
        (\<lambda>sorted_partitions.
          require (set (concat partitions) = set [0..<n]) AssertionError (Inr sorted_partitions)))"

definition get_seqlen_balanced_partitions :: "int list \<Rightarrow> nat \<Rightarrow> bool \<Rightarrow> nat list list result" where
  "get_seqlen_balanced_partitions seqlen_list k equal_size =
     require (k \<le> length seqlen_list) AssertionError
      (bind_r (karmarkar_karp seqlen_list k equal_size)
        (check_and_sort_partitions (length seqlen_list) k))"

record unbalance_log =
  ul_min :: int
  ul_max :: int
  ul_minmax_diff :: int
  ul_balanced_min :: int
  ul_balanced_max :: int
  ul_mean :: rat

definition batch_sums :: "nat \<Rightarrow> int list \<Rightarrow> int list" where
  "batch_sums b xs =
     map (\<lambda>off. sum_list (take b (drop off xs))) (filter (\<lambda>i. i mod b = 0) [0..<length xs])"

definition log_seqlen_unbalance :: "int list \<Rightarrow> nat list list \<Rightarrow> unbalance_log result" where
  "log_seqlen_unbalance seqlen_list partitions =
     require (length partitions \<noteq> 0) ZeroDivisionError
      (let batch_size = length seqlen_list div length partitions in
       require (batch_size \<noteq> 0) ValueError
        (require (\<forall>p \<in> set partitions. \<forall>i \<in> set p. i < length seqlen_list) IndexError
          (let tots = batch_sums batch_size seqlen_list;
               balanced = map (part_sum seqlen_list) partitions in
           Inr \<lparr>ul_min = Min (set tots), ul_max = Max (set tots),
                ul_minmax_diff = Max (set tots) - Min (set tots),
                ul_balanced_min = Min (set balanced), ul_balanced_max = Max (set balanced),
                ul_mean = of_int (sum_list tots) / of_nat (length partitions)\<rparr>)))"

definition ceildiv :: "int \<Rightarrow> int \<Rightarrow> int result" where
  "ceildiv a b = require (b \<noteq> 0) ZeroDivisionError (Inr (- (a div - b)))"

definition roundup_divisible :: "int \<Rightarrow> int \<Rightarrow> int result" where
  "roundup_divisible a b = require (b \<noteq> 0) ZeroDivisionError (Inr (((a + b - 1) div b) * b))"

section \<open>Dynamic micro-batches\<close>

text \<open>\<open>xs[start::step]\<close> for a non-negative start and a positive step.\<close>

definition stride :: "nat \<Rightarrow> nat \<Rightarrow> 'a list \<Rightarrow> 'a list" where
  "stride start step xs =
     map ((!) xs) (filter (\<lambda>i. start \<le> i \<and> (i - start) mod step = 0) [0..<length xs])"

text \<open>Python's stable \<open>sort(key=..., reverse=True)\<close> keeps equal elements in order.\<close>

definition sort_key_reverse :: "('a \<Rightarrow> 'b::linorder) \<Rightarrow> 'a list \<Rightarrow> 'a list" where
  "sort_key_reverse key xs = rev (sort_key key (rev xs))"

record mb_options =
  mb_dp_all_reduce_max :: "(int \<Rightarrow> int) option"
  mb_num_batches_divided_by :: "int option"
  mb_min_num_micro_batch :: "int option"
  mb_use_dynamic_bsz_balance :: bool
  mb_force_group_size :: nat

definition num_micro_batches :: "int list \<Rightarrow> int \<Rightarrow> mb_options \<Rightarrow> int result" where
  "num_micro_batches seq_lens max_token_len opts =
     bind_r (ceildiv (sum_list seq_lens) max_token_len) (\<lambda>c.
       let num_groups = int (length seq_lens div mb_force_group_size opts);
           n0 = min num_groups c;
           n1 = (case mb_min_num_micro_batch opts of None \<Rightarrow> n0 | Some m \<Rightarrow> max m n0);
           n2 = (case mb_dp_all_reduce_max opts of None \<Rightarrow> n1 | Some f \<Rightarrow> f n1) in
       case mb_num_batches_divided_by opts of None \<Rightarrow> Inr n2 | Some d \<Rightarrow> roundup_divisible n2 d)"

definition group_workloads :: "int list \<Rightarrow> nat \<Rightarrow> int list" where
  "group_workloads seq_lens g =
     map (\<lambda>j. sum_list (map (\<lambda>i. calculate_workload (seq_lens ! (j * g + i))) [0..<g]))
       [0..<length seq_lens div g]"

definition expand_group :: "nat \<Rightarrow> nat list \<Rightarrow> nat list" where
  "expand_group g p = concat (map (\<lambda>j. [j * g..<j * g + g]) p)"

definition head_or_zero :: "nat list \<Rightarrow> nat" where
  "head_or_zero p = (case p of [] \<Rightarrow> 0 | i # _ \<Rightarrow> i)"

definition bsz_sort_key :: "int list \<Rightarrow> nat \<Rightarrow> nat list \<Rightarrow> int \<times> nat" where
  "bsz_sort_key workloads g p =
     (if g > 1 then sum_list (map (\<lambda>i. workloads ! (i div g)) (stride 0 g p))
      else sum_list (map ((!) workloads) p),
      head_or_zero p)"

definition balance_order :: "int list \<Rightarrow> nat \<Rightarrow> nat list list \<Rightarrow> nat list list" where
  "balance_order workloads g idx =
     (let s = sort_key_reverse (bsz_sort_key workloads g) idx
      in rev (stride 0 2 s) @ stride 1 2 s)"

definition micro_batch_indices ::
  "int list \<Rightarrow> int \<Rightarrow> int \<Rightarrow> mb_options \<Rightarrow> nat list list result" where
  "micro_batch_indices seq_lens max_seq_len max_token_len opts =
     (let g = mb_force_group_size opts; n = length seq_lens in
      require (max_seq_len \<le> max_token_len) AssertionError
       (require (g \<noteq> 0) ZeroDivisionError
        (require (n mod g = 0) AssertionError
         (bind_r (num_micro_batches seq_lens max_token_len opts) (\<lambda>num.
           require (num \<le> int (n div g)) AssertionError
            (let workloads = (if g > 1 then group_workloads seq_lens g
                              else map calculate_workload seq_lens) in
             bind_r (get_seqlen_balanced_partitions workloads (nat num) False) (\<lambda>parts.
               let idx = (if g > 1 then map (expand_group g) parts else parts) in
               Inr (if mb_use_dynamic_bsz_balance opts then balance_order workloads g idx
                    else idx))))))))"

definition rearrange_micro_batches ::
  "'a list \<Rightarrow> int list \<Rightarrow> int \<Rightarrow> int \<Rightarrow> mb_options \<Rightarrow> ('a list list \<times> nat list list) result" where
  "rearrange_micro_batches batch seq_lens max_seq_len max_token_len opts =
     bind_r (micro_batch_indices seq_lens max_seq_len max_token_len opts) (\<lambda>idx.
       Inr (map (map ((!) batch)) idx, idx))"

fun reverse_idx_loop :: "nat \<Rightarrow> nat list \<Rightarrow> nat list \<Rightarrow> nat list result" where
  "reverse_idx_loop i [] acc = Inr acc"
| "reverse_idx_loop i (idx # rest) acc =
     require (idx < length acc) IndexError (reverse_idx_loop (Suc i) rest (acc[idx := i]))"

definition get_reverse_idx :: "nat list \<Rightarrow> nat list result" where
  "get_reverse_idx idx_map = reverse_idx_loop 0 idx_map idx_map"

definition restore_dynamic_batch :: "'a list \<Rightarrow> nat list list \<Rightarrow> 'a list result" where
  "restore_dynamic_batch data batch_idx_list =
     (let indices = concat batch_idx_list in
      require (length indices = length data) AssertionError
       (bind_r (get_reverse_idx indices) (\<lambda>revert.
         require (\<forall>i \<in> set revert. i < length data) IndexError (Inr (map ((!) data) revert)))))"

section \<open>Keeping the samples of a prompt together\<close>

fun uid_groups ::
  "nat \<Rightarrow> (int \<times> 'u) list \<Rightarrow> 'u option \<Rightarrow> nat list \<Rightarrow> int \<Rightarrow> (nat list \<times> int) list" where
  "uid_groups i [] cur idxs tot = (if idxs \<noteq> [] then [(idxs, tot)] else [])"
| "uid_groups i ((seqlen, uid) # rest) cur idxs tot =
     (if Some uid \<noteq> cur then
        (if idxs \<noteq> [] then (idxs, tot) # uid_groups (Suc i) rest (Some uid) [i] seqlen
         else uid_groups (Suc i) rest (Some uid) [i] seqlen)
      else uid_groups (Suc i) rest cur (idxs @ [i]) (tot + seqlen))"

definition get_group_balanced_partitions :: "int list \<Rightarrow> 'u list \<Rightarrow> nat \<Rightarrow> nat list list result" where
  "get_group_balanced_partitions seqlen_list uid_list k =
     require (length seqlen_list = length uid_list) AssertionError
      (let groups = uid_groups 0 (zip seqlen_list uid_list) None [] 0 in
       require (k \<le> length groups) AssertionError
        (let workloads = map (\<lambda>(idxs, tot). sum_list (map (\<lambda>i. calculate_workload (seqlen_list ! i)) idxs))
               groups in
         bind_r (get_seqlen_balanced_partitions workloads k True) (\<lambda>group_partitions.
           Inr (map (\<lambda>gp. sort (concat (map (\<lambda>j. fst (groups ! j)) gp))) group_partitions))))"

section \<open>Balanced partitions: correctness\<close>

lemma is_partition_facts:
  assumes "is_partition n k ps"
  shows "length ps = k" "set (concat ps) = {0..<n}" "distinct (concat ps)"
  using assms mset_upt_distinct [of "concat ps" n] by (auto simp: is_partition_def)

lemma mset_concat_sort: "mset (concat (map sort ps)) = mset (concat ps)"
  by (induction ps) simp_all

lemma part_sum_sort [simp]: "part_sum xs (sort p) = part_sum xs p"
  unfolding part_sum_def by (metis mset_map mset_sort sum_mset_sum_list)

lemma check_and_sort_ok:
  assumes "is_partition n k ps" and "[] \<notin> set ps"
  shows "check_and_sort_partitions n k ps = Inr (map sort ps)"
proof -
  have "map_r (\<lambda>p. require (p \<noteq> []) AssertionError (Inr (sort p))) ps = Inr (map sort ps)"
    using assms(2) by (intro map_r_total) (auto simp: require_def)
  with is_partition_facts [OF assms(1)] show ?thesis
    by (simp add: check_and_sort_partitions_def)
qed

lemma balanced_partitions_ok:
  assumes "xs \<noteq> []" and "\<forall>v \<in> set xs. 0 \<le> v \<and> v \<le> M" and "0 < k" and "k \<le> length xs"
    and "equal_size \<longrightarrow> length xs mod k = 0"
  obtains ps where "get_seqlen_balanced_partitions xs k equal_size = Inr ps"
    and "is_partition (length xs) k ps" and "\<forall>p \<in> set ps. p \<noteq> [] \<and> sorted p"
    and "\<forall>p \<in> set ps. \<forall>q \<in> set ps. part_sum xs p - part_sum xs q \<le> M"
    and "equal_size \<longrightarrow> (\<forall>p \<in> set ps. length p * k = length xs)"
proof -
  obtain ps where ps: "karmarkar_karp xs k equal_size = Inr ps" "is_partition (length xs) k ps"
    "k \<le> length xs \<longrightarrow> [] \<notin> set ps"
    "\<forall>p \<in> set ps. \<forall>q \<in> set ps. part_sum xs p - part_sum xs q \<le> M"
    "equal_size \<longrightarrow> (\<forall>p \<in> set ps. length p * k = length xs)"
    using kk_partitions [OF assms(1,2,3,5)] by metis
  show thesis
  proof (rule that [of "map sort ps"])
    show "get_seqlen_balanced_partitions xs k equal_size = Inr (map sort ps)"
      using ps assms(4) check_and_sort_ok [of "length xs" k ps]
      by (simp add: get_seqlen_balanced_partitions_def)
    show "is_partition (length xs) k (map sort ps)"
      using ps(2) by (simp add: is_partition_def mset_concat_sort)
    show "\<forall>p \<in> set (map sort ps). p \<noteq> [] \<and> sorted p"
      using ps(3) assms(4) by (auto dest: arg_cong [where f = length])
    show "\<forall>p \<in> set (map sort ps). \<forall>q \<in> set (map sort ps). part_sum xs p - part_sum xs q \<le> M"
      using ps(4) by simp
    show "equal_size \<longrightarrow> (\<forall>p \<in> set (map sort ps). length p * k = length xs)"
      using ps(5) by simp
  qed
qed

lemma karmarkar_karp_Inr_conditions:
  assumes "karmarkar_karp xs k equal_size = Inr ps"
  shows "0 < k \<and> xs \<noteq> [] \<and> (equal_size \<longrightarrow> length xs mod k = 0)"
proof -
  obtain pq where pq: "kk_initial xs k equal_size = Inr pq"
    using assms unfolding karmarkar_karp_def bind_r_Inr by blast
  with assms have ne: "heap_reduce state_lt state_merge pq \<noteq> []"
    by (auto simp: karmarkar_karp_def)
  have "pq \<noteq> []" using ne by auto
  have eq: "equal_size \<longrightarrow> k \<noteq> 0 \<and> length xs mod k = 0"
    using pq by (auto simp: kk_initial_def Let_def bind_r_Inr require_Inr split: if_splits)
  have "xs \<noteq> []"
  proof
    assume "xs = []"
    with pq \<open>pq \<noteq> []\<close> show False
      by (auto simp: kk_initial_def kk_groups_def bind_r_Inr require_Inr split: if_splits)
  qed
  moreover have "k \<noteq> 0" if "\<not> equal_size"
  proof
    assume "k = 0"
    obtain a srt where "sort (zip xs [0..<length xs]) = a # srt"
      using \<open>xs \<noteq> []\<close> by (cases "sort (zip xs [0..<length xs])")
        (auto dest: arg_cong [where f = length])
    with pq that \<open>k = 0\<close> show False
      by (cases a) (simp add: kk_initial_def bind_r_Inr state_new_def)
  qed
  ultimately show ?thesis using eq by auto
qed

lemma balanced_partitions_partition:
  assumes "get_seqlen_balanced_partitions xs k equal_size = Inr ps" and "\<forall>v \<in> set xs. 0 \<le> v"
  shows "is_partition (length xs) k ps"
proof -
  have "\<exists>qs. karmarkar_karp xs k equal_size = Inr qs" and le: "k \<le> length xs"
    using assms(1) by (auto simp: get_seqlen_balanced_partitions_def require_Inr bind_r_Inr)
  then have "0 < k \<and> xs \<noteq> [] \<and> (equal_size \<longrightarrow> length xs mod k = 0)"
    using karmarkar_karp_Inr_conditions by blast
  moreover have "\<forall>v \<in> set xs. 0 \<le> v \<and> v \<le> Max (set xs)"
    using assms(2) by simp
  ultimately obtain ps' where "get_seqlen_balanced_partitions xs k equal_size = Inr ps'"
    "is_partition (length xs) k ps'"
    using balanced_partitions_ok [of xs "Max (set xs)" k equal_size] le by metis
  with assms(1) show ?thesis by simp
qed

section \<open>Micro-batches: every sample exactly once\<close>

lemma mset_filter_compl: "mset (filter P xs) + mset (filter (\<lambda>x. \<not> P x) xs) = mset xs"
  by (induction xs) auto

lemma mset_strides: "mset (rev (stride 0 2 xs) @ stride 1 2 xs) = mset xs"
proof -
  let ?I = "[0..<length xs]"
  have "filter (\<lambda>i. 1 \<le> i \<and> (i - 1) mod 2 = 0) ?I = filter (\<lambda>i. \<not> i mod 2 = 0) ?I"
    by (rule filter_cong [OF refl]) presburger
  then have "mset (rev (stride 0 2 xs) @ stride 1 2 xs) =
      image_mset ((!) xs) (mset (filter (\<lambda>i. i mod 2 = 0) ?I) + mset (filter (\<lambda>i. \<not> i mod 2 = 0) ?I))"
    by (simp add: stride_def)
  also have "\<dots> = mset (map ((!) xs) ?I)"
    by (simp only: mset_filter_compl mset_map)
  finally show ?thesis by (simp only: map_nth)
qed

lemma mset_balance_order: "mset (balance_order w g idx) = mset idx"
proof -
  have "mset (sort_key_reverse key idx) = mset idx" for key :: "nat list \<Rightarrow> int \<times> nat"
    by (simp add: sort_key_reverse_def)
  then show ?thesis by (simp only: balance_order_def Let_def mset_strides)
qed

lemma expand_group_concat: "concat (map (expand_group g) ps) = expand_group g (concat ps)"
  by (induction ps) (simp_all add: expand_group_def)

lemma expand_group_upt: "expand_group g [0..<m] = [0..<m * g]"
proof (induction m)
  case (Suc m)
  have "[0..<Suc m * g] = [0..<m * g] @ [m * g..<m * g + g]"
    using upt_add_eq_append [of 0 "m * g" g] by (simp add: add.commute)
  with Suc show ?case by (simp add: expand_group_def)
qed (simp add: expand_group_def)

lemma mset_expand_group: "mset p = mset [0..<m] \<Longrightarrow> mset (expand_group g p) = mset [0..<m * g]"
  using mset_concat_cong [of p "[0..<m]" "\<lambda>j. [j * g..<j * g + g]"] expand_group_upt [of g m]
  by (simp only: expand_group_def)

lemma calculate_workload_nonneg: "0 \<le> l \<Longrightarrow> 0 \<le> calculate_workload l"
  by (simp add: calculate_workload_def)

lemma workloads_nonneg:
  assumes "\<forall>l \<in> set seq_lens. 0 \<le> l"
    and "v \<in> set (if g > 1 then group_workloads seq_lens g else map calculate_workload seq_lens)"
  shows "0 \<le> v"
proof -
  have "0 \<le> seq_lens ! (j * g + i)" if "j < length seq_lens div g" "i < g" for i j
  proof -
    have "Suc j * g \<le> length seq_lens"
      using that(1) by (metis Suc_leI div_times_less_eq_dividend mult_le_mono1 order_trans)
    with that(2) assms(1) show ?thesis by simp
  qed
  with assms show ?thesis
    by (fastforce simp: group_workloads_def intro!: sum_list_nonneg calculate_workload_nonneg
        split: if_splits)
qed

lemma micro_batch_indices_partition:
  assumes "micro_batch_indices seq_lens max_seq_len max_token_len opts = Inr idx"
    and "\<forall>l \<in> set seq_lens. 0 \<le> l"
  shows "mset (concat idx) = mset [0..<length seq_lens]"
proof -
  define g where "g = mb_force_group_size opts"
  define w where "w = (if g > 1 then group_workloads seq_lens g else map calculate_workload seq_lens)"
  obtain num parts where g: "g \<noteq> 0" "length seq_lens mod g = 0"
    and parts: "get_seqlen_balanced_partitions w (nat num) False = Inr parts"
    and idx: "idx = (let i = (if g > 1 then map (expand_group g) parts else parts) in
      if mb_use_dynamic_bsz_balance opts then balance_order w g i else i)"
    using assms(1) unfolding micro_batch_indices_def Let_def g_def [symmetric] w_def [symmetric]
    by (auto simp: require_Inr bind_r_Inr)
  have "\<forall>v \<in> set w. 0 \<le> v"
    using workloads_nonneg [OF assms(2)] by (auto simp: w_def)
  from balanced_partitions_partition [OF parts this]
  have p: "mset (concat parts) = mset [0..<length w]" by (simp add: is_partition_def)
  have "mset (concat (if g > 1 then map (expand_group g) parts else parts)) = mset [0..<length seq_lens]"
  proof (cases "g > 1")
    case True
    then have "length w * g = length seq_lens"
      using g by (auto simp: w_def group_workloads_def)
    with mset_expand_group [OF p, of g] True show ?thesis
      by (simp only: expand_group_concat if_True)
  next
    case False
    with p show ?thesis by (simp add: w_def)
  qed
  moreover have "mset (concat idx) = mset (concat (if g > 1 then map (expand_group g) parts else parts))"
    unfolding idx Let_def using mset_concat_cong [OF mset_balance_order, where f = "\<lambda>x. x"] by simp
  ultimately show ?thesis by simp
qed

section \<open>Restoring the order of a batch\<close>

lemma reverse_idx_loop_ok:
  assumes "\<forall>x \<in> set rest. x < length acc" and "distinct rest"
  shows "\<exists>r. reverse_idx_loop i rest acc = Inr r \<and> length r = length acc \<and>
    (\<forall>j < length rest. r ! (rest ! j) = i + j) \<and> (\<forall>x. x \<notin> set rest \<longrightarrow> r ! x = acc ! x)"
  using assms
proof (induction rest arbitrary: i acc)
  case (Cons x rest)
  then obtain r where r: "reverse_idx_loop (Suc i) rest (acc[x := i]) = Inr r" "length r = length acc"
    "\<forall>j < length rest. r ! (rest ! j) = Suc i + j"
    "\<forall>y. y \<notin> set rest \<longrightarrow> r ! y = acc[x := i] ! y"
    using Cons.IH [of "acc[x := i]" "Suc i"] by auto
  have "r ! ((x # rest) ! j) = i + j" if "j < length (x # rest)" for j
    using that r(3,4) Cons.prems by (cases j) auto
  moreover have "r ! y = acc ! y" if "y \<notin> set (x # rest)" for y
    using that r(4) by auto
  ultimately show ?case using r(1,2) Cons.prems by auto
qed simp

lemma get_reverse_idx_inverse:
  assumes "mset idx = mset [0..<n]"
  obtains r where "get_reverse_idx idx = Inr r" and "length r = n"
    and "\<And>j. j < n \<Longrightarrow> r ! (idx ! j) = j" and "\<And>x. x < n \<Longrightarrow> r ! x < n \<and> idx ! (r ! x) = x"
proof -
  have idx: "distinct idx" "set idx = {0..<n}"
    using mset_upt_distinct [OF assms] by simp_all
  then have len: "length idx = n" by (metis card_atLeastLessThan diff_zero distinct_card)
  obtain r where r: "get_reverse_idx idx = Inr r" "length r = n"
    "\<forall>j < n. r ! (idx ! j) = j"
    using reverse_idx_loop_ok [of idx idx 0] idx len by (auto simp: get_reverse_idx_def)
  have "r ! x < n \<and> idx ! (r ! x) = x" if "x < n" for x
  proof -
    from that idx len obtain j where "j < n" "idx ! j = x"
      by (metis atLeastLessThan_iff in_set_conv_nth zero_le)
    with r(3) show ?thesis by auto
  qed
  with that r show thesis by blast
qed

lemma restore_permuted:
  assumes "mset (concat idx) = mset [0..<length batch]"
  shows "restore_dynamic_batch (concat (map (map ((!) batch)) idx)) idx = Inr batch"
proof -
  let ?n = "length batch" and ?c = "concat idx"
  have len: "length ?c = ?n" using arg_cong [OF assms, of size] by simp
  obtain r where r: "get_reverse_idx ?c = Inr r" "length r = ?n"
    "\<And>x. x < ?n \<Longrightarrow> r ! x < ?n \<and> ?c ! (r ! x) = x"
    using get_reverse_idx_inverse [OF assms] by metis
  have data: "concat (map (map ((!) batch)) idx) = map ((!) batch) ?c" by (simp add: map_concat)
  have "map ((!) (map ((!) batch) ?c)) r = batch"
    using r(2,3) len by (intro nth_equalityI) simp_all
  moreover have "\<forall>i \<in> set r. i < ?n"
    using r(2,3) by (auto simp: in_set_conv_nth)
  ultimately show ?thesis
    using r(1) len by (simp add: restore_dynamic_batch_def data)
qed

section \<open>The greedy partition\<close>

lemma min_scan_ok:
  assumes "\<forall>i. m = Some i \<longrightarrow> i \<in> S \<and> (\<forall>j \<in> S. tots ! i \<le> tots ! j)" and "m = None \<longrightarrow> S = {}"
    and "S \<union> set js \<noteq> {}"
  shows "\<exists>i. min_scan tots m js = Some i \<and> i \<in> S \<union> set js \<and> (\<forall>j \<in> S \<union> set js. tots ! i \<le> tots ! j)"
  using assms
proof (induction js arbitrary: m S)
  case Nil
  then show ?case by (cases m) auto
next
  case (Cons j js)
  let ?m = "case m of None \<Rightarrow> Some j | Some i \<Rightarrow> if tots ! j < tots ! i then Some j else Some i"
  have "\<exists>i. min_scan tots ?m js = Some i \<and> i \<in> insert j S \<union> set js \<and>
      (\<forall>j' \<in> insert j S \<union> set js. tots ! i \<le> tots ! j')"
    using Cons.prems by (intro Cons.IH) (fastforce split: option.splits if_splits)+
  then show ?case by simp
qed

lemma min_scan_least:
  assumes "0 < k"
  obtains m where "min_scan tots None [0..<k] = Some m" and "m < k" and "\<forall>j < k. tots ! m \<le> tots ! j"
  using min_scan_ok [of None "{}" tots "[0..<k]"] assms by auto

definition greedy_inv :: "(nat \<Rightarrow> int) \<Rightarrow> nat \<Rightarrow> nat list list \<Rightarrow> int list \<Rightarrow> bool" where
  "greedy_inv val k P S \<longleftrightarrow>
     length P = k \<and> length S = k \<and> (\<forall>j < k. S ! j = sum_list (map val (P ! j)))"

lemma greedy_inv_step:
  "greedy_inv val k P S \<Longrightarrow> m < k \<Longrightarrow> greedy_inv val k (P[m := P ! m @ [i]]) (S[m := S ! m + val i])"
  by (auto simp: greedy_inv_def nth_list_update)

lemma mset_concat_update:
  assumes "m < length P"
  shows "mset (concat (P[m := P ! m @ [i]])) = add_mset i (mset (concat P))"
proof -
  have "mset (concat P) = mset (concat (take m P @ P ! m # drop (Suc m) P))"
    by (simp only: id_take_nth_drop [OF assms, symmetric])
  moreover have "mset (concat (P[m := P ! m @ [i]])) =
      mset (concat (take m P @ (P ! m @ [i]) # drop (Suc m) P))"
    by (simp only: upd_conv_take_nth_drop [OF assms])
  ultimately show ?thesis by simp
qed

lemma greedy_loop_run:
  assumes "0 < k" and "greedy_inv val k P S" and "\<forall>(v, i) \<in> set items. v = val i"
    and step: "\<And>P S i m rest. R ((val i, i) # rest) P \<Longrightarrow> greedy_inv val k P S \<Longrightarrow> m < k \<Longrightarrow>
      \<forall>j < k. S ! m \<le> S ! j \<Longrightarrow> R rest (P[m := P ! m @ [i]])"
    and "R items P"
  obtains P' S' where "greedy_loop k items P S = Inr P'" and "greedy_inv val k P' S'" and "R [] P'"
    and "mset (concat P') = mset (concat P) + mset (map snd items)"
  using assms(2,3,5)
proof (induction items arbitrary: P S thesis)
  case (Cons x items)
  obtain v i where x: "x = (v, i)" by (cases x)
  obtain m where m: "min_scan S None [0..<k] = Some m" "m < k" "\<forall>j < k. S ! m \<le> S ! j"
    using min_scan_least [OF assms(1)] by metis
  let ?P = "P[m := P ! m @ [i]]" and ?S = "S[m := S ! m + v]"
  have v: "v = val i" using Cons.prems(3) x by simp
  have inv: "greedy_inv val k ?P ?S" unfolding v by (rule greedy_inv_step [OF Cons.prems(2) m(2)])
  have R: "R items ?P" using step [OF _ Cons.prems(2) m(2,3)] Cons.prems(4) x v by simp
  have rest: "\<forall>(v, i) \<in> set items. v = val i" using Cons.prems(3) by simp
  obtain P' S' where *: "greedy_loop k items ?P ?S = Inr P'" "greedy_inv val k P' S'" "R [] P'"
    "mset (concat P') = mset (concat ?P) + mset (map snd items)"
    using Cons.IH [OF _ inv rest R] by metis
  have "length P = k" using Cons.prems(2) by (simp add: greedy_inv_def)
  with *(4) m(2) x have "mset (concat P') = mset (concat P) + mset (map snd (x # items))"
    by (simp only: mset_concat_update) simp
  with * m(1) show ?case by (intro Cons.prems(1) [of P' S']) (simp_all add: x)
qed simp

lemma greedy_inv_start: "greedy_inv val k (replicate k []) (replicate k 0)"
  by (simp add: greedy_inv_def)

lemma concat_replicate_Nil [simp]: "concat (replicate k []) = []"
  by (induction k) simp_all

lemma greedy_items:
  "\<forall>(v, i) \<in> set (zip (map (\<lambda>v. v + b) xs) [0..<length xs]). v = xs ! i + b \<and> i < length xs"
  by (auto simp: set_zip)

lemma greedy_partition_balanced:
  assumes "0 < k" and "\<forall>v \<in> set xs. 0 \<le> v \<and> v \<le> M" and "0 \<le> M"
  obtains ps where "greedy_partition xs k False = Inr ps" and "is_partition (length xs) k ps"
    and "\<forall>p \<in> set ps. \<forall>q \<in> set ps. part_sum xs p - part_sum xs q \<le> M"
proof -
  define R :: "(int \<times> nat) list \<Rightarrow> nat list list \<Rightarrow> bool" where "R = (\<lambda>rest P. length P = k \<and> (\<forall>(v, i) \<in> set rest. i < length xs) \<and>
    (\<forall>a < k. \<forall>b < k. part_sum xs (P ! a) - part_sum xs (P ! b) \<le> M))"
  let ?items = "zip (map (\<lambda>v. v + 0) xs) [0..<length xs]"
  have step: "R rest (P[m := P ! m @ [i]])"
    if "R ((xs ! i, i) # rest) P" "greedy_inv ((!) xs) k P S" "m < k" "\<forall>j < k. S ! m \<le> S ! j"
    for P S i m rest
  proof -
    have S: "S ! j = part_sum xs (P ! j)" if "j < k" for j
      using \<open>greedy_inv ((!) xs) k P S\<close> that by (simp add: greedy_inv_def part_sum_def)
    have v: "0 \<le> xs ! i" "xs ! i \<le> M"
      using that(1) assms(2) by (auto simp: R_def)
    have least: "part_sum xs (P ! m) \<le> part_sum xs (P ! j)" if "j < k" for j
      using that \<open>m < k\<close> \<open>\<forall>j < k. S ! m \<le> S ! j\<close> S by metis
    have new: "part_sum xs (P ! j @ [i]) = part_sum xs (P ! j) + xs ! i" for j
      by (simp add: part_sum_def)
    have "part_sum xs (P[m := P ! m @ [i]] ! a) - part_sum xs (P[m := P ! m @ [i]] ! b) \<le> M"
      if "a < k" "b < k" for a b
    proof -
      have "part_sum xs (P ! a) - part_sum xs (P ! b) \<le> M" "length P = k"
        using \<open>R ((xs ! i, i) # rest) P\<close> that by (auto simp: R_def)
      with v least [of b] least [of a] that assms(3) \<open>m < k\<close> show ?thesis
        by (auto simp: nth_list_update new)
    qed
    with that(1) show ?thesis by (simp add: R_def)
  qed
  have R0: "R ?items (replicate k [])"
    using greedy_items [of 0 xs] assms(3) by (auto simp: R_def part_sum_def)
  have items: "\<forall>(v, i) \<in> set ?items. v = xs ! i" using greedy_items [of 0 xs] by auto
  obtain P S where P: "greedy_loop k ?items (replicate k []) (replicate k 0) = Inr P"
    "greedy_inv ((!) xs) k P S" "R [] P"
    "mset (concat P) = mset (concat (replicate k [])) + mset (map snd ?items)"
    by (rule greedy_loop_run [where R = R, OF assms(1) greedy_inv_start items step R0])
  have "is_partition (length xs) k P"
    using P(3,4) by (simp add: is_partition_def R_def)
  moreover have "\<forall>p \<in> set P. \<forall>q \<in> set P. part_sum xs p - part_sum xs q \<le> M"
    using P(3) by (auto simp: R_def in_set_conv_nth)
  moreover have "greedy_partition xs k False = Inr P"
    using P(1) by (simp add: greedy_partition_def)
  ultimately show thesis using that by blast
qed

section \<open>The greedy partition with equal sizes\<close>

lemma part_sum_nonneg: "\<forall>v \<in> set xs. 0 \<le> v \<Longrightarrow> \<forall>i \<in> set p. i < length xs \<Longrightarrow> 0 \<le> part_sum xs p"
  by (auto simp: part_sum_def intro!: sum_list_nonneg)

lemma part_sum_concat: "part_sum xs (concat ps) = sum_list (map (part_sum xs) ps)"
  by (induction ps) (simp_all add: part_sum_def)

lemma part_sum_member_le:
  assumes "\<forall>v \<in> set xs. 0 \<le> v" and "\<forall>i \<in> set (concat ps). i < length xs" and "p \<in> set ps"
  shows "part_sum xs p \<le> part_sum xs (concat ps)"
  unfolding part_sum_concat using assms part_sum_nonneg [OF assms(1)]
  by (intro sum_list_le_member) fastforce+

lemma part_sum_mset: "mset p = mset q \<Longrightarrow> part_sum xs p = part_sum xs q"
  unfolding part_sum_def by (metis mset_map sum_mset_sum_list)

lemma biased_sum: "sum_list (map (\<lambda>i. xs ! i + b) p) = part_sum xs p + b * int (length p)"
  by (induction p) (simp_all add: part_sum_def algebra_simps)

lemma near_equal_lengths:
  assumes near: "\<forall>a < k. \<forall>b < k. length (P ! a) \<le> length (P ! b) + 1" and "length P = k"
    and total: "length (concat P) = k * c" and "p \<in> set P"
  shows "length p = c"
proof -
  let ?L = "map length P"
  have sum: "sum_list ?L = k * c" using total by (simp add: length_concat)
  from \<open>p \<in> set P\<close> assms(2) obtain a where a: "a < k" "P ! a = p" by (auto simp: in_set_conv_nth)
  have split: "sum_list ?L = (\<Sum>j<k. length (P ! j))"
    using assms(2) by (simp add: sum_list_sum_nth atLeast0LessThan)
  show ?thesis
  proof (rule antisym)
    show "length p \<le> c"
    proof (rule ccontr)
      assume "\<not> length p \<le> c"
      have "c \<le> length (P ! j)" if "j < k" for j
      proof -
        have "length (P ! a) \<le> length (P ! j) + 1" using near a(1) that by blast
        with \<open>\<not> length p \<le> c\<close> a(2) show ?thesis by simp
      qed
      then have "(\<Sum>j<k. c) < (\<Sum>j<k. length (P ! j))"
        using a \<open>\<not> length p \<le> c\<close> by (intro sum_strict_mono_ex1) (auto intro!: bexI [of _ a])
      with sum split show False by simp
    qed
    show "c \<le> length p"
    proof (rule ccontr)
      assume "\<not> c \<le> length p"
      have "length (P ! j) \<le> c" if "j < k" for j
      proof -
        have "length (P ! j) \<le> length (P ! a) + 1" using near a(1) that by blast
        with \<open>\<not> c \<le> length p\<close> a(2) show ?thesis by simp
      qed
      then have "(\<Sum>j<k. length (P ! j)) < (\<Sum>j<k. c)"
        using a \<open>\<not> c \<le> length p\<close> by (intro sum_strict_mono_ex1) (auto intro!: bexI [of _ a])
      with sum split show False by simp
    qed
  qed
qed

lemma greedy_partition_equal:
  assumes "0 < k" and "\<forall>v \<in> set xs. 0 \<le> v" and "length xs mod k = 0"
  obtains ps where "greedy_partition xs k True = Inr ps" and "is_partition (length xs) k ps"
    and "\<forall>p \<in> set ps. length p * k = length xs"
proof -
  define b where "b = sum_list xs + 1"
  let ?val = "\<lambda>i. xs ! i + b" and ?items = "zip (map (\<lambda>v. v + b) xs) [0..<length xs]"
  define R :: "(int \<times> nat) list \<Rightarrow> nat list list \<Rightarrow> bool" where "R = (\<lambda>rest P.
    length P = k \<and> mset (concat P) + mset (map snd rest) = mset [0..<length xs] \<and>
    (\<forall>a < k. \<forall>b < k. length (P ! a) \<le> length (P ! b) + 1))"
  have total: "part_sum xs [0..<length xs] = sum_list xs" by (simp add: part_sum_def map_nth)
  have bound: "0 \<le> part_sum xs p \<and> part_sum xs p < b"
    if "R rest P" "p \<in> set P" for rest P p
  proof -
    have m: "mset (concat P @ map snd rest) = mset [0..<length xs]"
      using that(1) by (simp add: R_def)
    then have idx: "\<forall>i \<in> set (concat P @ map snd rest). i < length xs"
      by (metis atLeastLessThan_iff atLeastLessThan_upt mset_eq_setD)
    have "part_sum xs (concat P) + part_sum xs (map snd rest) = sum_list xs"
      using part_sum_mset [OF m, of xs] total by (simp add: part_sum_def)
    moreover have "0 \<le> part_sum xs (map snd rest)"
      using idx by (intro part_sum_nonneg [OF assms(2)]) simp
    moreover have "part_sum xs p \<le> part_sum xs (concat P)"
      using idx by (intro part_sum_member_le [OF assms(2) _ that(2)]) simp
    moreover have "0 \<le> part_sum xs p"
      using idx that(2) by (intro part_sum_nonneg [OF assms(2)]) auto
    ultimately show ?thesis by (simp add: b_def)
  qed
  have step: "R rest (P[m := P ! m @ [i]])"
    if R: "R ((?val i, i) # rest) P" and inv: "greedy_inv ?val k P S" and "m < k"
      and min: "\<forall>j < k. S ! m \<le> S ! j" for P S i m rest
  proof -
    have lenP: "length P = k" using R by (simp add: R_def)
    have least: "length (P ! m) \<le> length (P ! j)" if "j < k" for j
    proof (rule ccontr)
      assume "\<not> length (P ! m) \<le> length (P ! j)"
      then have "int (length (P ! j)) + 1 \<le> int (length (P ! m))" by simp
      moreover have "0 \<le> b" using bound [OF R, of "P ! m"] lenP \<open>m < k\<close> by auto
      ultimately have "b * (int (length (P ! j)) + 1) \<le> b * int (length (P ! m))"
        by (rule mult_left_mono)
      moreover have "S ! j = part_sum xs (P ! j) + b * int (length (P ! j))" if "j < k" for j
        using inv that by (simp add: greedy_inv_def biased_sum)
      moreover have "S ! m \<le> S ! j" using min that by simp
      ultimately have "part_sum xs (P ! m) + b \<le> part_sum xs (P ! j)"
        using that \<open>m < k\<close> by (simp add: algebra_simps)
      with bound [OF R, of "P ! m"] bound [OF R, of "P ! j"] lenP that \<open>m < k\<close> show False by simp
    qed
    have "length (P[m := P ! m @ [i]] ! a) \<le> length (P[m := P ! m @ [i]] ! c) + 1"
      if "a < k" "c < k" for a c
    proof -
      have "length (P ! a) \<le> length (P ! c) + 1" using R that by (simp add: R_def)
      with least [of c] that lenP \<open>m < k\<close> show ?thesis by (auto simp: nth_list_update)
    qed
    moreover have "mset (concat (P[m := P ! m @ [i]])) + mset (map snd rest) = mset [0..<length xs]"
      using R lenP \<open>m < k\<close> by (simp only: mset_concat_update) (simp add: R_def)
    ultimately show ?thesis using lenP by (simp add: R_def)
  qed
  have "map snd ?items = [0..<length xs]" by simp
  then have R0: "R ?items (replicate k [])" by (simp only: R_def) simp
  have items: "\<forall>(v, i) \<in> set ?items. v = ?val i" using greedy_items [of b xs] by auto
  obtain P S where P: "greedy_loop k ?items (replicate k []) (replicate k 0) = Inr P"
    "greedy_inv ?val k P S" "R [] P"
    "mset (concat P) = mset (concat (replicate k [])) + mset (map snd ?items)"
    by (rule greedy_loop_run [where R = R, OF assms(1) greedy_inv_start items step R0])
  have part: "is_partition (length xs) k P" using P(3) by (simp add: is_partition_def R_def)
  have "length (concat P) = length xs"
  proof -
    have "size (mset (concat P)) = size (mset [0..<length xs])"
      using part by (simp only: is_partition_def)
    then show ?thesis by (simp only: size_mset length_upt diff_zero)
  qed
  moreover have "k * (length xs div k) = length xs" using assms(3) by auto
  ultimately have total: "length (concat P) = k * (length xs div k)" by (simp only:)
  have "\<forall>a < k. \<forall>b < k. length (P ! a) \<le> length (P ! b) + 1" and "length P = k"
    using P(3) unfolding R_def by blast+
  then have "\<forall>p \<in> set P. length p = length xs div k"
    using near_equal_lengths [OF _ _ total] by blast
  then have sizes: "\<forall>p \<in> set P. length p * k = length xs" using assms(3) by auto
  moreover have "greedy_partition xs k True = Inr P"
    using P(1) sizes by (simp add: greedy_partition_def b_def Let_def)
  ultimately show thesis using that part by blast
qed

section \<open>Samples of one prompt stay together\<close>

lemma uid_groups_indices:
  "concat (map fst (uid_groups i rest cur idxs tot)) = idxs @ [i..<i + length rest]"
proof (induction i rest cur idxs tot rule: uid_groups.induct)
  case (2 i seqlen uid rest cur idxs tot)
  have "[i..<i + Suc (length rest)] = i # [Suc i..<Suc i + length rest]"
    by (simp add: upt_conv_Cons del: upt_Suc)
  with 2 show ?case by (simp del: upt_Suc)
qed simp

lemma uid_groups_open:
  "idxs \<noteq> [] \<Longrightarrow> \<exists>grp \<in> set (uid_groups i rest cur idxs tot). set idxs \<subseteq> set (fst grp) \<and>
     (rest \<noteq> [] \<longrightarrow> cur = Some (snd (hd rest)) \<longrightarrow> i \<in> set (fst grp))"
proof (induction i rest cur idxs tot rule: uid_groups.induct)
  case (2 i seqlen uid rest cur idxs tot)
  show ?case
  proof (cases "Some uid = cur")
    case True
    with 2 show ?thesis by fastforce
  next
    case False
    with 2 show ?thesis by auto
  qed
qed simp

lemma uid_groups_adjacent:
  assumes "Suc j < length rest" and "snd (rest ! j) = snd (rest ! Suc j)"
  shows "\<exists>grp \<in> set (uid_groups i rest cur idxs tot). i + j \<in> set (fst grp) \<and> Suc (i + j) \<in> set (fst grp)"
  using assms
proof (induction i rest cur idxs tot arbitrary: j rule: uid_groups.induct)
  case (2 i seqlen uid rest cur idxs tot)
  show ?case
  proof (cases j)
    case 0
    with 2(4,5) have rest: "rest \<noteq> []" "snd (hd rest) = uid" by (auto simp: hd_conv_nth)
    let ?idxs = "if Some uid \<noteq> cur then [i] else idxs @ [i]"
      and ?tot = "if Some uid \<noteq> cur then seqlen else tot + seqlen"
    have "?idxs \<noteq> []" by simp
    from uid_groups_open [OF this, of "Suc i" rest "Some uid" ?tot] rest
    obtain grp where "grp \<in> set (uid_groups (Suc i) rest (Some uid) ?idxs ?tot)"
      "set ?idxs \<subseteq> set (fst grp)" "Suc i \<in> set (fst grp)" by metis
    then show ?thesis
      using 0 by (cases "Some uid = cur") (auto simp: split: if_splits)
  next
    case (Suc l)
    with 2 show ?thesis
      by (cases "Some uid = cur"; cases "idxs = []") fastforce+
  qed
qed simp

lemma index_unique_block:
  assumes "distinct (concat xss)" and "a < length xss" and "b < length xss"
    and "x \<in> set (xss ! a)" and "x \<in> set (xss ! b)"
  shows "a = b"
  using assms
proof (induction xss arbitrary: a b)
  case (Cons xs xss)
  have "x \<notin> set xs \<or> x \<notin> set (xss ! i)" if "i < length xss" for i
    using Cons.prems(1) nth_mem [OF that] by auto
  with Cons show ?case by (cases a; cases b) auto
qed simp

lemma concat_map_concat: "concat (map (\<lambda>xs. concat (map f xs)) xss) = concat (map f (concat xss))"
  by (induction xss) simp_all

lemma mset_concat_sorted_blocks: "mset (concat (map (\<lambda>x. sort (f x)) xs)) = mset (concat (map f xs))"
  by (induction xs) simp_all

lemma group_balanced_ok:
  assumes "get_group_balanced_partitions xs us k = Inr ps" and "\<forall>l \<in> set xs. 0 \<le> l"
  shows "is_partition (length xs) k ps \<and>
    (\<forall>j. Suc j < length us \<longrightarrow> us ! j = us ! Suc j \<longrightarrow> (\<forall>p \<in> set ps. j \<in> set p \<longleftrightarrow> Suc j \<in> set p))"
proof -
  define groups where "groups = uid_groups 0 (zip xs us) None [] 0"
  define G where "G = map fst groups"
  define w where "w = map (\<lambda>(idxs, tot). sum_list (map (\<lambda>i. calculate_workload (xs ! i)) idxs)) groups"
  define members where "members = (\<lambda>gp. concat (map (\<lambda>j. fst (groups ! j)) gp))"
  from assms(1) obtain gps where len: "length xs = length us"
    and gps: "get_seqlen_balanced_partitions w k True = Inr gps"
    and ps: "ps = map (\<lambda>gp. sort (members gp)) gps"
    by (auto simp: get_group_balanced_partitions_def Let_def require_Inr bind_r_Inr groups_def
        w_def members_def)
  have G: "concat G = [0..<length xs]"
    using uid_groups_indices [of 0 "zip xs us" None "[]" 0] len by (simp add: G_def groups_def)
  have "i < length xs" if "g \<in> set groups" "i \<in> set (fst g)" for g i
  proof -
    have "i \<in> set (concat G)" using that by (auto simp: G_def)
    then show ?thesis by (simp only: G) simp
  qed
  then have "\<forall>v \<in> set w. 0 \<le> v"
    using assms(2) by (fastforce simp: w_def intro!: sum_list_nonneg calculate_workload_nonneg)
  from balanced_partitions_partition [OF gps this]
  have gpart: "is_partition (length groups) k gps" by (simp add: w_def)
  have mem: "members gp = concat (map ((!) G) gp)" if "gp \<in> set gps" for gp
  proof -
    have "j < length groups" if "j \<in> set gp" for j
      using that \<open>gp \<in> set gps\<close> is_partition_facts(2) [OF gpart] by auto
    then show ?thesis by (auto simp: members_def G_def cong: map_cong intro!: arg_cong [where f = concat])
  qed
  have "mset (concat ps) = mset (concat (map members gps))"
    unfolding ps by (rule mset_concat_sorted_blocks)
  also have "map members gps = map (\<lambda>gp. concat (map ((!) G) gp)) gps"
    using mem by simp
  also have "concat \<dots> = concat (map ((!) G) (concat gps))"
    by (rule concat_map_concat)
  also have "mset \<dots> = mset (concat (map ((!) G) [0..<length groups]))"
    using gpart by (intro mset_concat_cong) (simp add: is_partition_def)
  also have "map ((!) G) [0..<length groups] = G" by (simp add: G_def map_nth_upt [of "map fst groups", simplified])
  finally have part: "is_partition (length xs) k ps"
    using gpart by (simp add: is_partition_def ps G)
  moreover have "j \<in> set p \<longleftrightarrow> Suc j \<in> set p"
    if j: "Suc j < length us" "us ! j = us ! Suc j" and p: "p \<in> set ps" for j p
  proof -
    have "snd (zip xs us ! j) = snd (zip xs us ! Suc j)" and "Suc j < length (zip xs us)"
      using j len by simp_all
    from uid_groups_adjacent [OF this(2,1), of 0 None "[]" 0]
    obtain grp where grp: "grp \<in> set groups" "j \<in> set (fst grp)" "Suc j \<in> set (fst grp)"
      unfolding groups_def by auto
    then obtain a where "a < length groups" "groups ! a = grp" by (auto simp: in_set_conv_nth)
    with grp have a: "a < length groups" "j \<in> set (G ! a)" "Suc j \<in> set (G ! a)"
      by (simp_all add: G_def)
    obtain gp where gp: "gp \<in> set gps" "p = sort (members gp)" using p by (auto simp: ps)
    have "x \<in> set p \<longleftrightarrow> a \<in> set gp" if "x \<in> set (G ! a)" for x
    proof -
      have "x \<in> set p \<longleftrightarrow> (\<exists>b \<in> set gp. x \<in> set (G ! b))" by (simp add: gp mem)
      moreover have "b < length G" if "b \<in> set gp" for b
        using that gp(1) is_partition_facts(2) [OF gpart] by (auto simp: G_def)
      moreover have "distinct (concat G)" and "a < length G"
        using a(1) by (simp_all only: G distinct_upt) (simp add: G_def)
      ultimately show ?thesis
        using index_unique_block [of G a _ x] that by blast
    qed
    with a show ?thesis by simp
  qed
  ultimately show ?thesis by blast
qed

section \<open>Success and number of micro-batches\<close>

lemma ceildiv_bounds:
  assumes "0 < b"
  shows "\<exists>c. ceildiv a b = Inr c \<and> (c - 1) * b < a \<and> a \<le> c * b"
proof -
  let ?q = "(- a) div b" and ?r = "(- a) mod b"
  have "?q * b + ?r = - a" "0 \<le> ?r" "?r < b" using assms by simp_all
  moreover have "(- ?q - 1) * b = - (?q * b) - b" "- ?q * b = - (?q * b)"
    by (simp_all add: algebra_simps)
  ultimately have "(- ?q - 1) * b < a" "a \<le> - ?q * b" by linarith+
  moreover have "ceildiv a b = Inr (- ?q)"
    using assms by (simp add: ceildiv_def div_minus_right)
  ultimately show ?thesis by blast
qed

lemma roundup_divisible_bounds:
  assumes "0 < b"
  shows "\<exists>r. roundup_divisible a b = Inr r \<and> a \<le> r \<and> r < a + b \<and> b dvd r"
proof -
  let ?r = "((a + b - 1) div b) * b"
  have "?r = a + b - 1 - (a + b - 1) mod b"
    by (metis minus_mod_eq_div_mult)
  moreover have "0 \<le> (a + b - 1) mod b" "(a + b - 1) mod b < b" using assms by simp_all
  ultimately have "a \<le> ?r" "?r < a + b" by linarith+
  then show ?thesis using assms by (simp add: roundup_divisible_def)
qed

definition plain_options :: "bool \<Rightarrow> nat \<Rightarrow> mb_options" where
  "plain_options balance g =
     \<lparr>mb_dp_all_reduce_max = None, mb_num_batches_divided_by = None, mb_min_num_micro_batch = None,
      mb_use_dynamic_bsz_balance = balance, mb_force_group_size = g\<rparr>"

lemma length_strides: "length (rev (stride 0 2 xs) @ stride 1 2 xs) = length xs"
  using arg_cong [OF mset_strides [of xs], of size] by (simp only: size_mset)

lemma length_balance_order: "length (balance_order w g idx) = length idx"
  using arg_cong [OF mset_balance_order [of w g idx], of size] by (simp only: size_mset)

lemma set_balance_order: "set (balance_order w g idx) = set idx"
  by (rule mset_eq_setD) (rule mset_balance_order)

lemma expand_group_nonempty: "0 < g \<Longrightarrow> p \<noteq> [] \<Longrightarrow> expand_group g p \<noteq> []"
  by (cases p) (simp_all add: expand_group_def)

lemma micro_batch_indices_ok:
  assumes ne: "seq_lens \<noteq> []" and lens: "\<forall>l \<in> set seq_lens. 0 \<le> l" and pos: "0 < sum_list seq_lens"
    and budget: "max_seq_len \<le> max_token_len" "0 < max_token_len"
    and g: "0 < g" "length seq_lens mod g = 0"
  obtains idx c where "micro_batch_indices seq_lens max_seq_len max_token_len (plain_options bal g) = Inr idx"
    and "ceildiv (sum_list seq_lens) max_token_len = Inr c"
    and "int (length idx) = min (int (length seq_lens div g)) c" and "\<forall>p \<in> set idx. p \<noteq> []"
proof -
  let ?G = "length seq_lens div g"
  define w where "w = (if g > 1 then group_workloads seq_lens g else map calculate_workload seq_lens)"
  obtain c where c: "ceildiv (sum_list seq_lens) max_token_len = Inr c" "sum_list seq_lens \<le> c * max_token_len"
    using ceildiv_bounds [OF budget(2)] by blast
  have "0 < c" using c(2) pos budget(2) by (smt (verit) mult_nonpos_nonneg)
  have G: "0 < ?G" using ne g by (auto simp: div_greater_zero_iff dest: dvd_imp_le)
  define num where "num = min (int ?G) c"
  have num: "0 < num" "nat num \<le> ?G" using G \<open>0 < c\<close> by (auto simp: num_def)
  have lw: "length w = ?G" using g by (simp add: w_def group_workloads_def) (metis One_nat_def div_by_1 g(1) Suc_lessI)
  then have w: "w \<noteq> []" using G by auto
  have wpos: "\<forall>v \<in> set w. 0 \<le> v \<and> v \<le> Max (set w)"
    using workloads_nonneg [OF lens] by (auto simp: w_def)
  have k: "0 < nat num" "nat num \<le> length w" "False \<longrightarrow> length w mod nat num = 0"
    using num lw by simp_all
  obtain parts where "get_seqlen_balanced_partitions w (nat num) False = Inr parts"
    "is_partition (length w) (nat num) parts" "\<forall>p \<in> set parts. p \<noteq> [] \<and> sorted p"
    using balanced_partitions_ok [OF w wpos k] by metis
  then have parts: "get_seqlen_balanced_partitions w (nat num) False = Inr parts"
    "length parts = nat num" "\<forall>p \<in> set parts. p \<noteq> []"
    by (simp_all add: is_partition_def)
  define idx0 where "idx0 = (if g > 1 then map (expand_group g) parts else parts)"
  have idx0: "length idx0 = nat num" "\<forall>p \<in> set idx0. p \<noteq> []"
    using parts(2,3) expand_group_nonempty [OF g(1)] by (auto simp: idx0_def)
  define idx where "idx = (if bal then balance_order w g idx0 else idx0)"
  show thesis
  proof (rule that)
    show "micro_batch_indices seq_lens max_seq_len max_token_len (plain_options bal g) = Inr idx"
    proof -
      have opts: "mb_force_group_size (plain_options bal g) = g"
        "mb_use_dynamic_bsz_balance (plain_options bal g) = bal"
        by (simp_all add: plain_options_def)
      have n: "num_micro_batches seq_lens max_token_len (plain_options bal g) = Inr num"
        using c(1) by (simp add: num_micro_batches_def plain_options_def num_def)
      have le: "num \<le> int ?G" by (simp add: num_def)
      show ?thesis
        using budget g parts(1) n le
        by (cases "1 < g") (simp_all add: micro_batch_indices_def Let_def opts w_def idx_def idx0_def)
    qed
    show "ceildiv (sum_list seq_lens) max_token_len = Inr c" by (rule c(1))
    show "int (length idx) = min (int ?G) c"
      using idx0(1) num by (simp add: idx_def length_balance_order flip: num_def)
    show "\<forall>p \<in> set idx. p \<noteq> []" using idx0(2) by (simp add: idx_def set_balance_order)
  qed
qed

section \<open>Properties\<close>

text \<open>C10 \<open>get_seqlen_balanced_partitions\<close> on non-negative lengths with at least one item per
  partition (and, for equal sizes, a divisible count) raises nothing: it returns exactly \<open>k\<close>
  non-empty sorted index lists that use every index once, whose sums differ by at most the
  largest length, and which all have the same size when equal sizes were asked for.\<close>

theorem balanced_partitions_correct:
  assumes "xs \<noteq> []" and "\<forall>v \<in> set xs. 0 \<le> v \<and> v \<le> M" and "0 < k" and "k \<le> length xs"
    and "equal_size \<longrightarrow> length xs mod k = 0"
  shows "\<exists>ps. get_seqlen_balanced_partitions xs k equal_size = Inr ps \<and>
    length ps = k \<and> mset (concat ps) = mset [0..<length xs] \<and> (\<forall>p \<in> set ps. p \<noteq> [] \<and> sorted p) \<and>
    (\<forall>p \<in> set ps. \<forall>q \<in> set ps. part_sum xs p - part_sum xs q \<le> M) \<and>
    (equal_size \<longrightarrow> (\<forall>p \<in> set ps. length p * k = length xs))"
  using balanced_partitions_ok [OF assms] unfolding is_partition_def by metis

theorem balanced_partitions_correct_witness:
  "\<exists>ps. get_seqlen_balanced_partitions [5, 3, 8, 1] 2 True = Inr ps \<and>
    length ps = 2 \<and> mset (concat ps) = mset [0..<length [5, 3, 8, 1::int]] \<and>
    (\<forall>p \<in> set ps. p \<noteq> [] \<and> sorted p) \<and>
    (\<forall>p \<in> set ps. \<forall>q \<in> set ps. part_sum [5, 3, 8, 1] p - part_sum [5, 3, 8, 1] q \<le> 8) \<and>
    (True \<longrightarrow> (\<forall>p \<in> set ps. length p * 2 = length [5, 3, 8, 1::int]))"
  by (rule balanced_partitions_correct) simp_all

text \<open>The greedy partitioner with \<open>equal_size\<close> on non-negative lengths whose count is a
  multiple of \<open>k\<close> never trips its final assertion: the bias keeps the partition sizes equal.\<close>

theorem greedy_partition_equal_size:
  assumes "0 < k" and "\<forall>v \<in> set xs. 0 \<le> v" and "length xs mod k = 0"
  shows "\<exists>ps. greedy_partition xs k True = Inr ps \<and> length ps = k \<and>
    mset (concat ps) = mset [0..<length xs] \<and> (\<forall>p \<in> set ps. length p * k = length xs)"
  using greedy_partition_equal [OF assms] unfolding is_partition_def by metis

theorem greedy_partition_equal_size_witness:
  "\<exists>ps. greedy_partition [5, 3, 8, 1] 2 True = Inr ps \<and> length ps = 2 \<and>
    mset (concat ps) = mset [0..<length [5, 3, 8, 1::int]] \<and>
    (\<forall>p \<in> set ps. length p * 2 = length [5, 3, 8, 1::int])"
  by (rule greedy_partition_equal_size) simp_all

text \<open>Dynamic batching loses nothing: whenever \<open>rearrange_micro_batches\<close> returns, running
  \<open>restore_dynamic_batch\<close> on the concatenated micro-batches gives back the batch in its
  original order, for every option (grouping, balancing order, DP synchronisation).\<close>

theorem restore_rearranged:
  assumes "rearrange_micro_batches batch seq_lens max_seq_len max_token_len opts = Inr (mbs, idx)"
    and "length batch = length seq_lens" and "\<forall>l \<in> set seq_lens. 0 \<le> l"
  shows "restore_dynamic_batch (concat mbs) idx = Inr batch"
proof -
  have "micro_batch_indices seq_lens max_seq_len max_token_len opts = Inr idx"
    and mbs: "mbs = map (map ((!) batch)) idx"
    using assms(1) by (auto simp: rearrange_micro_batches_def bind_r_Inr)
  from micro_batch_indices_partition [OF this(1) assms(3)] assms(2)
  have "mset (concat idx) = mset [0..<length batch]" by (simp only:)
  then show ?thesis unfolding mbs by (rule restore_permuted)
qed

lemma rearrange_example:
  "rearrange_micro_batches ''abcdef'' [3, 3, 3, 5, 1, 2] 5 6 (plain_options True 2) =
     Inr ([''ef'', ''cd'', ''ab''], [[4, 5], [2, 3], [0, 1]])"
  by code_simp

theorem restore_rearranged_witness:
  "restore_dynamic_batch (concat [''ef'', ''cd'', ''ab'']) [[4, 5], [2, 3], [0, 1]] = Inr ''abcdef''"
  by (rule restore_rearranged [OF rearrange_example]) simp_all

text \<open>Dynamic batching succeeds on every well-formed batch without extra constraints: the
  number of micro-batches is the ceiling of the token total over the budget, capped by the
  number of groups, and no micro-batch is empty.\<close>

theorem rearrange_succeeds:
  assumes "seq_lens \<noteq> []" and "\<forall>l \<in> set seq_lens. 0 \<le> l" and "0 < sum_list seq_lens"
    and "max_seq_len \<le> max_token_len" and "0 < max_token_len"
    and "0 < g" and "length seq_lens mod g = 0"
  shows "\<exists>mbs idx c. rearrange_micro_batches batch seq_lens max_seq_len max_token_len (plain_options bal g)
      = Inr (mbs, idx) \<and> (c - 1) * max_token_len < sum_list seq_lens \<and> sum_list seq_lens \<le> c * max_token_len \<and>
      int (length mbs) = min (int (length seq_lens div g)) c \<and> (\<forall>p \<in> set idx. p \<noteq> [])"
proof -
  obtain idx c where *: "micro_batch_indices seq_lens max_seq_len max_token_len (plain_options bal g) = Inr idx"
    "ceildiv (sum_list seq_lens) max_token_len = Inr c"
    "int (length idx) = min (int (length seq_lens div g)) c" "\<forall>p \<in> set idx. p \<noteq> []"
    by (rule micro_batch_indices_ok [OF assms])
  with ceildiv_bounds [OF assms(5), of "sum_list seq_lens"] show ?thesis
    by (auto simp: rearrange_micro_batches_def)
qed

theorem rearrange_succeeds_witness:
  "\<exists>mbs idx c. rearrange_micro_batches ''abc'' [3, 3, 3] 3 5 (plain_options True 1) = Inr (mbs, idx) \<and>
      (c - 1) * 5 < 9 \<and> 9 \<le> c * 5 \<and> int (length mbs) = min 3 c \<and> (\<forall>p \<in> set idx. p \<noteq> [])"
  using rearrange_succeeds [of "[3, 3, 3]" 3 5 1 "''abc''" True] by simp

text \<open>The token budget is not a bound on a micro-batch: three samples of 3 tokens with
  \<open>max_token_len = 5\<close> are split into two micro-batches, one of which holds 6 tokens.\<close>

theorem micro_batch_exceeds_budget:
  "rearrange_micro_batches [3, 3, 3 :: int] [3, 3, 3] 3 5 (plain_options True 1) =
     Inr ([[3, 3], [3]], [[0, 1], [2]]) \<and> sum_list [3, 3 :: int] > 5"
  by code_simp

text \<open>A requested minimum of micro-batches above the number of groups is refused: no empty
  micro-batch is ever added, the call raises \<open>AssertionError\<close>.\<close>

theorem min_micro_batches_not_padded:
  assumes "mb_min_num_micro_batch opts = Some m" and "int (length seq_lens div mb_force_group_size opts) < m"
    and "mb_dp_all_reduce_max opts = None" and "mb_num_batches_divided_by opts = None"
    and "0 < mb_force_group_size opts" and "max_token_len \<noteq> 0"
  shows "rearrange_micro_batches batch seq_lens max_seq_len max_token_len opts = Inl AssertionError"
  using assms
  by (auto simp: rearrange_micro_batches_def micro_batch_indices_def num_micro_batches_def ceildiv_def
      Let_def require_def)

theorem min_micro_batches_not_padded_witness:
  "rearrange_micro_batches ''ab'' [3, 3] 3 5 ((plain_options True 1)\<lparr>mb_min_num_micro_batch := Some 4\<rparr>)
     = Inl AssertionError"
  by (rule min_micro_batches_not_padded [where m = 4]) (simp_all add: plain_options_def)

text \<open>\<open>get_group_balanced_partitions\<close>: what it returns is a partition of the samples into \<open>k\<close>
  lists in which neighbouring samples with the same uid are never separated.\<close>

theorem group_balanced_keeps_prompts:
  assumes "get_group_balanced_partitions xs us k = Inr ps" and "\<forall>l \<in> set xs. 0 \<le> l"
  shows "length ps = k \<and> mset (concat ps) = mset [0..<length xs] \<and>
    (\<forall>j. Suc j < length us \<longrightarrow> us ! j = us ! Suc j \<longrightarrow> (\<forall>p \<in> set ps. j \<in> set p \<longleftrightarrow> Suc j \<in> set p))"
  using group_balanced_ok [OF assms] by (auto simp: is_partition_def)

lemma group_balanced_example:
  "get_group_balanced_partitions [1, 2, 3, 4] ''aabb'' 2 = Inr [[2, 3], [0, 1]]"
  by code_simp

theorem group_balanced_keeps_prompts_witness:
  "(2::nat) \<in> set [2, 3::nat] \<longleftrightarrow> (3::nat) \<in> set [2, 3::nat]"
  using group_balanced_keeps_prompts [OF group_balanced_example] by simp

text \<open>The int64 workload estimate does not overflow for lengths below \<open>2 ^ 31\<close>: the 64-bit
  result read as a signed integer is the mathematical value.\<close>

theorem workload_no_overflow:
  assumes "0 \<le> l" and "l < 2 ^ 31"
  shows "sint (calculate_workload_int64 (word_of_int l)) = calculate_workload l"
proof -
  have "l ^ 2 \<le> (2 ^ 31) ^ 2" using assms by (intro power_mono) simp_all
  then have "0 \<le> calculate_workload l" "calculate_workload l < 2 ^ 63"
    using assms by (simp_all add: calculate_workload_def)
  moreover have "calculate_workload_int64 (word_of_int l) = word_of_int (calculate_workload l)"
    by (simp add: calculate_workload_int64_def calculate_workload_def power2_eq_square
        flip: wi_hom_add wi_hom_mult)
  ultimately show ?thesis by (simp add: sint_sbintrunc' signed_take_bit_int_eq_self)
qed

theorem workload_no_overflow_witness:
  "sint (calculate_workload_int64 4096) = calculate_workload 4096"
  using workload_no_overflow [of 4096] by simp

end
