(* ===== verification/MessageQueue.thy ===== *)
theory MessageQueue
  imports Prelude
begin

text \<open>
  The message queue between the rollouter and the trainer
  (\<^verbatim>\<open>verl/experimental/fully_async_policy/message_queue.py\<close>). Every coroutine of
  \<open>MessageQueue\<close> runs its body under one lock, so an operation is a function on the state;
  \<open>get_sample\<close> gives the lock up while it waits on the condition, so the consumers are
  modelled as a transition system: a consumer is running, waiting on the condition, or woken
  and about to check again. The ghost history \<open>cs_put\<close>/\<open>cs_removed\<close> records every sample put and
  every sample that left the queue. The locale \<open>bounded_queue\<close> is the interface the rollouter
  relies on.
\<close>

section \<open>State and operations\<close>

record ('a, 'v) mq =
  mq_queue :: "'a list"
  mq_val_queue :: "'v list"
  mq_running :: bool
  mq_max :: nat
  mq_produced :: nat
  mq_consumed :: nat
  mq_dropped :: nat

text \<open>\<open>collections.deque\<close> with a maximal length: appending to a full deque discards from the left.\<close>

definition deque_append :: "nat \<Rightarrow> 'a list \<Rightarrow> 'a \<Rightarrow> 'a list" where
  "deque_append maxlen q x = (let q' = q @ [x] in drop (length q' - maxlen) q')"

definition mq_init :: "int option \<Rightarrow> ('a, 'v) mq result" where
  "mq_init max_queue_size =
     (case max_queue_size of
        None \<Rightarrow> Inl ValueError
      | Some n \<Rightarrow> require (0 \<le> n) ValueError
          (Inr \<lparr>mq_queue = [], mq_val_queue = [], mq_running = True, mq_max = nat n,
                mq_produced = 0, mq_consumed = 0, mq_dropped = 0\<rparr>))"

definition put_sample :: "'a \<Rightarrow> ('a, 'v) mq \<Rightarrow> (bool \<times> ('a, 'v) mq) result" where
  "put_sample x s =
     (let is_drop = mq_max s \<le> length (mq_queue s) in
      require (is_drop \<longrightarrow> mq_queue s \<noteq> []) IndexError
       (let q = (if is_drop then tl (mq_queue s) else mq_queue s) in
        Inr (\<not> is_drop,
          s\<lparr>mq_queue := deque_append (mq_max s) q x,
            mq_dropped := mq_dropped s + (if is_drop then 1 else 0),
            mq_produced := mq_produced s + 1\<rparr>)))"

datatype 'a get_outcome = Blocked | Closed | Sample 'a nat

definition get_sample :: "('a, 'v) mq \<Rightarrow> 'a get_outcome \<times> ('a, 'v) mq" where
  "get_sample s =
     (if mq_queue s = [] \<and> mq_running s then (Blocked, s)
      else if \<not> mq_running s \<and> mq_queue s = [] then (Closed, s)
      else (Sample (hd (mq_queue s)) (length (tl (mq_queue s))),
            s\<lparr>mq_queue := tl (mq_queue s), mq_consumed := mq_consumed s + 1\<rparr>))"

definition get_queue_size :: "('a, 'v) mq \<Rightarrow> nat" where
  "get_queue_size s = length (mq_queue s)"

record mq_statistics =
  mqs_queue_size :: nat
  mqs_total_produced :: nat
  mqs_total_consumed :: nat
  mqs_dropped_samples :: nat
  mqs_max_queue_size :: nat

definition mq_get_statistics :: "('a, 'v) mq \<Rightarrow> mq_statistics" where
  "mq_get_statistics s =
     \<lparr>mqs_queue_size = length (mq_queue s), mqs_total_produced = mq_produced s,
      mqs_total_consumed = mq_consumed s, mqs_dropped_samples = mq_dropped s,
      mqs_max_queue_size = mq_max s\<rparr>"

definition clear_queue :: "('a, 'v) mq \<Rightarrow> ('a, 'v) mq" where
  "clear_queue s = s\<lparr>mq_queue := []\<rparr>"

definition mq_shutdown :: "('a, 'v) mq \<Rightarrow> ('a, 'v) mq" where
  "mq_shutdown s = s\<lparr>mq_running := False\<rparr>"

definition put_validate :: "'v \<Rightarrow> ('a, 'v) mq \<Rightarrow> ('a, 'v) mq" where
  "put_validate v s = s\<lparr>mq_val_queue := mq_val_queue s @ [v]\<rparr>"

definition get_validate :: "('a, 'v) mq \<Rightarrow> 'v option \<times> ('a, 'v) mq" where
  "get_validate s =
     (case mq_val_queue s of [] \<Rightarrow> (None, s) | v # vs \<Rightarrow> (Some v, s\<lparr>mq_val_queue := vs\<rparr>))"

section \<open>The interface of a bounded queue\<close>

locale bounded_queue =
  fixes contents :: "'q \<Rightarrow> 'a list" and cap :: "'q \<Rightarrow> nat" and put :: "'a \<Rightarrow> 'q \<Rightarrow> bool \<times> 'q"
    and get :: "'q \<Rightarrow> 'q" and ok :: "'q \<Rightarrow> bool"
  assumes put_ok: "ok q \<Longrightarrow> ok (snd (put x q))"
    and put_cap: "ok q \<Longrightarrow> cap (snd (put x q)) = cap q"
    and put_accepts: "ok q \<Longrightarrow> fst (put x q) \<longleftrightarrow> length (contents q) < cap q"
    and put_contents: "ok q \<Longrightarrow> contents (snd (put x q)) =
      (if length (contents q) < cap q then contents q else tl (contents q)) @ [x]"
    and get_contents: "ok q \<Longrightarrow> contents q \<noteq> [] \<Longrightarrow> contents (get q) = tl (contents q)"
    and within_cap: "ok q \<Longrightarrow> length (contents q) \<le> cap q \<and> 0 < cap q"
begin

lemma size_put: "ok q \<Longrightarrow> length (contents (snd (put x q))) = min (cap q) (Suc (length (contents q)))"
  using within_cap [of q] by (auto simp: put_contents min_def)

lemma size_put_le: "ok q \<Longrightarrow> length (contents (snd (put x q))) \<le> Suc (length (contents q))"
  by (simp add: size_put)

lemma puts_size: "ok q \<Longrightarrow>
    length (contents (fold (\<lambda>x q. snd (put x q)) xs q)) = min (cap q) (length (contents q) + length xs)"
proof (induction xs arbitrary: q)
  case (Cons x xs)
  then show ?case by (simp add: put_ok put_cap size_put min_def)
qed (use within_cap in auto)

lemma puts_keep_latest: "ok q \<Longrightarrow> length (contents q) + length xs \<le> cap q \<Longrightarrow>
    contents (fold (\<lambda>x q. snd (put x q)) xs q) = contents q @ xs"
proof (induction xs arbitrary: q)
  case (Cons x xs)
  then show ?case by (simp add: put_ok put_cap put_contents)
qed simp

end

definition mq_ok :: "('a, 'v) mq \<Rightarrow> bool" where
  "mq_ok s \<longleftrightarrow> length (mq_queue s) \<le> mq_max s \<and> 0 < mq_max s"

definition put_total :: "'a \<Rightarrow> ('a, 'v) mq \<Rightarrow> bool \<times> ('a, 'v) mq" where
  "put_total x s = (case put_sample x s of Inr r \<Rightarrow> r | Inl _ \<Rightarrow> (False, s))"

lemma put_sample_eq:
  assumes "mq_ok s"
  shows "put_sample x s = Inr (length (mq_queue s) < mq_max s,
    s\<lparr>mq_queue := (if length (mq_queue s) < mq_max s then mq_queue s else tl (mq_queue s)) @ [x],
      mq_dropped := mq_dropped s + (if length (mq_queue s) < mq_max s then 0 else 1),
      mq_produced := mq_produced s + 1\<rparr>)"
  using assms by (auto simp: put_sample_def mq_ok_def deque_append_def Let_def require_def)

lemma put_total_eq: "mq_ok s \<Longrightarrow> put_sample x s = Inr (put_total x s)"
  by (simp add: put_total_def put_sample_eq)

interpretation mqi: bounded_queue mq_queue mq_max put_total "\<lambda>s. snd (get_sample s)" mq_ok
  by unfold_locales (auto simp: put_total_def put_sample_eq get_sample_def mq_ok_def)

section \<open>Consumers waiting on the condition\<close>

datatype ('c, 'a) removal = Delivered 'c 'a | Dropped 'a | Cleared 'a

fun removal_item :: "('c, 'a) removal \<Rightarrow> 'a" where
  "removal_item (Delivered c x) = x"
| "removal_item (Dropped x) = x"
| "removal_item (Cleared x) = x"

definition is_delivered :: "('c, 'a) removal \<Rightarrow> bool" where
  "is_delivered r = (case r of Delivered c x \<Rightarrow> True | _ \<Rightarrow> False)"

definition is_dropped :: "('c, 'a) removal \<Rightarrow> bool" where
  "is_dropped r = (case r of Dropped x \<Rightarrow> True | _ \<Rightarrow> False)"

record ('c, 'a, 'v) mq_system =
  cs_mq :: "('a, 'v) mq"
  cs_waiting :: "'c set"
  cs_woken :: "'c set"
  cs_put :: "'a list"
  cs_removed :: "('c, 'a) removal list"

definition consumer_check :: "'c \<Rightarrow> ('c, 'a, 'v) mq_system \<Rightarrow> ('c, 'a, 'v) mq_system" where
  "consumer_check c S =
     (case get_sample (cs_mq S) of
        (Blocked, m) \<Rightarrow> S\<lparr>cs_waiting := insert c (cs_waiting S), cs_woken := cs_woken S - {c}\<rparr>
      | (Closed, m) \<Rightarrow> S\<lparr>cs_woken := cs_woken S - {c}\<rparr>
      | (Sample x n, m) \<Rightarrow>
          S\<lparr>cs_mq := m, cs_woken := cs_woken S - {c}, cs_removed := cs_removed S @ [Delivered c x]\<rparr>)"

definition notify_all :: "('c, 'a, 'v) mq_system \<Rightarrow> ('c, 'a, 'v) mq_system" where
  "notify_all S = S\<lparr>cs_woken := cs_woken S \<union> cs_waiting S, cs_waiting := {}\<rparr>"

inductive mq_step :: "('c, 'a, 'v) mq_system \<Rightarrow> ('c, 'a, 'v) mq_system \<Rightarrow> bool" where
  call_get: "c \<notin> cs_waiting S \<Longrightarrow> c \<notin> cs_woken S \<Longrightarrow> mq_step S (consumer_check c S)"
| resume_get: "c \<in> cs_woken S \<Longrightarrow> mq_step S (consumer_check c S)"
| put_full: "put_sample x (cs_mq S) = Inr (False, m) \<Longrightarrow>
    mq_step S (notify_all (S\<lparr>cs_mq := m, cs_put := cs_put S @ [x],
      cs_removed := cs_removed S @ [Dropped (hd (mq_queue (cs_mq S)))]\<rparr>))"
| put_room: "put_sample x (cs_mq S) = Inr (True, m) \<Longrightarrow>
    mq_step S (notify_all (S\<lparr>cs_mq := m, cs_put := cs_put S @ [x]\<rparr>))"
| clear: "mq_step S (S\<lparr>cs_mq := clear_queue (cs_mq S),
      cs_removed := cs_removed S @ map Cleared (mq_queue (cs_mq S))\<rparr>)"
| shutdown: "mq_step S (notify_all (S\<lparr>cs_mq := mq_shutdown (cs_mq S)\<rparr>))"
| put_val: "mq_step S (S\<lparr>cs_mq := put_validate v (cs_mq S)\<rparr>)"
| get_val: "mq_step S (S\<lparr>cs_mq := snd (get_validate (cs_mq S))\<rparr>)"

definition mq_start :: "nat \<Rightarrow> ('c, 'a, 'v) mq_system" where
  "mq_start n =
     \<lparr>cs_mq = \<lparr>mq_queue = [], mq_val_queue = [], mq_running = True, mq_max = n,
               mq_produced = 0, mq_consumed = 0, mq_dropped = 0\<rparr>,
      cs_waiting = {}, cs_woken = {}, cs_put = [], cs_removed = []\<rparr>"

inductive mq_reachable :: "nat \<Rightarrow> ('c, 'a, 'v) mq_system \<Rightarrow> bool" for n where
  start: "mq_reachable n (mq_start n)"
| step: "mq_reachable n S \<Longrightarrow> mq_step S T \<Longrightarrow> mq_reachable n T"

definition mq_inv :: "nat \<Rightarrow> ('c, 'a, 'v) mq_system \<Rightarrow> bool" where
  "mq_inv n S \<longleftrightarrow>
     mq_max (cs_mq S) = n \<and> length (mq_queue (cs_mq S)) \<le> n \<and>
     map removal_item (cs_removed S) @ mq_queue (cs_mq S) = cs_put S \<and>
     mq_produced (cs_mq S) = length (cs_put S) \<and>
     mq_consumed (cs_mq S) = length (filter is_delivered (cs_removed S)) \<and>
     mq_dropped (cs_mq S) = length (filter is_dropped (cs_removed S)) \<and>
     (cs_waiting S \<noteq> {} \<longrightarrow> mq_queue (cs_mq S) = [] \<and> mq_running (cs_mq S))"

lemmas removal_simps = is_delivered_def is_dropped_def

lemma cleared_simps [simp]:
  "map (removal_item \<circ> Cleared) xs = xs"
  "filter (is_delivered \<circ> Cleared) xs = []"
  "filter (is_dropped \<circ> Cleared) xs = []"
  by (induction xs) (auto simp: removal_simps)

lemma mq_inv_start: "mq_inv n (mq_start n)"
  by (simp add: mq_inv_def mq_start_def)

lemma mq_inv_consumer_check: "mq_inv n S \<Longrightarrow> mq_inv n (consumer_check c S)"
  by (auto simp: mq_inv_def consumer_check_def get_sample_def removal_simps neq_Nil_conv
      split: if_splits)

lemma put_sample_pos: "put_sample x s = Inr r \<Longrightarrow> length (mq_queue s) \<le> mq_max s \<Longrightarrow> mq_ok s"
  by (cases "mq_queue s") (auto simp: put_sample_def mq_ok_def require_Inr Let_def)

lemma mq_inv_put:
  assumes inv: "mq_inv n S" and put: "put_sample x (cs_mq S) = Inr (b, m)"
  shows "mq_inv n (notify_all (S\<lparr>cs_mq := m, cs_put := cs_put S @ [x],
    cs_removed := cs_removed S @ (if b then [] else [Dropped (hd (mq_queue (cs_mq S)))])\<rparr>))"
proof -
  have ok: "mq_ok (cs_mq S)" using put_sample_pos [OF put] inv by (simp add: mq_inv_def)
  from put [unfolded put_sample_eq [OF ok]] have b: "b = (length (mq_queue (cs_mq S)) < mq_max (cs_mq S))"
    and m: "m = (cs_mq S)\<lparr>mq_queue := (if b then mq_queue (cs_mq S) else tl (mq_queue (cs_mq S))) @ [x],
      mq_dropped := mq_dropped (cs_mq S) + (if b then 0 else 1), mq_produced := mq_produced (cs_mq S) + 1\<rparr>"
    by auto
  show ?thesis
  proof (cases b)
    case True
    with inv b show ?thesis by (auto simp: m mq_inv_def notify_all_def)
  next
    case False
    with b ok obtain y ys where "mq_queue (cs_mq S) = y # ys"
      by (cases "mq_queue (cs_mq S)") (auto simp: mq_ok_def)
    with inv False b show ?thesis by (auto simp: m mq_inv_def notify_all_def removal_simps)
  qed
qed

lemma mq_step_inv: "mq_step S T \<Longrightarrow> mq_inv n S \<Longrightarrow> mq_inv n T"
proof (induction rule: mq_step.induct)
  case (put_full x S m)
  then show ?case using mq_inv_put [of n S x False m] by simp
next
  case (put_room x S m)
  then show ?case using mq_inv_put [of n S x True m] by simp
next
  case (clear S)
  then show ?case by (auto simp: mq_inv_def clear_queue_def filter_map)
next
  case (get_val S)
  then show ?case by (auto simp: mq_inv_def get_validate_def split: list.splits)
next
  case (call_get c S)
  from call_get(3) show ?case by (rule mq_inv_consumer_check)
next
  case (resume_get c S)
  from resume_get(2) show ?case by (rule mq_inv_consumer_check)
qed (auto simp: mq_inv_def mq_shutdown_def notify_all_def put_validate_def)

lemma mq_reachable_inv: "mq_reachable n S \<Longrightarrow> mq_inv n S"
  by (induction rule: mq_reachable.induct) (auto intro: mq_inv_start mq_step_inv)

section \<open>Properties\<close>

text \<open>C27 The message queue loses and duplicates nothing and keeps the order: in every reachable
  state of producers and any number of waiting consumers, the samples that left the queue (delivered,
  dropped as oldest, or cleared), in the order they left, followed by the samples still queued, are
  exactly the samples put, in the order they were put; the queue never exceeds its size and the
  three counters count the puts, the deliveries and the drops.\<close>

theorem mq_conservation:
  assumes "mq_reachable n S"
  shows "map removal_item (cs_removed S) @ mq_queue (cs_mq S) = cs_put S \<and>
    length (mq_queue (cs_mq S)) \<le> n \<and>
    mq_produced (cs_mq S) = length (cs_put S) \<and>
    mq_consumed (cs_mq S) = length (filter is_delivered (cs_removed S)) \<and>
    mq_dropped (cs_mq S) = length (filter is_dropped (cs_removed S))"
  using mq_reachable_inv [OF assms] by (simp add: mq_inv_def)

definition mq_put_step :: "'a \<Rightarrow> ('c, 'a, 'v) mq_system \<Rightarrow> ('c, 'a, 'v) mq_system" where
  "mq_put_step x S = notify_all (S\<lparr>cs_mq := snd (put_total x (cs_mq S)), cs_put := cs_put S @ [x],
     cs_removed := cs_removed S @
       (if fst (put_total x (cs_mq S)) then [] else [Dropped (hd (mq_queue (cs_mq S)))])\<rparr>)"

lemma mq_put_step_step: "mq_ok (cs_mq S) \<Longrightarrow> mq_step S (mq_put_step x S)"
  using put_total_eq [of "cs_mq S" x] mq_step.put_full [of x S] mq_step.put_room [of x S]
  by (cases "put_total x (cs_mq S)") (auto simp: mq_put_step_def split: if_splits)

lemma mq_example_reachable:
  "mq_reachable 1 (consumer_check ''trainer'' (mq_put_step (2::nat) (mq_put_step 1
     (mq_start 1 :: (string, nat, nat) mq_system))))"
proof -
  let ?S0 = "mq_start 1 :: (string, nat, nat) mq_system"
  have 1: "mq_reachable 1 (mq_put_step 1 ?S0)"
    by (rule mq_reachable.step [OF mq_reachable.start]) (rule mq_put_step_step, simp add: mq_start_def mq_ok_def)
  have 2: "mq_reachable 1 (mq_put_step 2 (mq_put_step 1 ?S0))"
    by (rule mq_reachable.step [OF 1]) (rule mq_put_step_step,
      simp add: mq_start_def mq_ok_def mq_put_step_def notify_all_def put_total_def put_sample_eq)
  show ?thesis
    by (rule mq_reachable.step [OF 2]) (rule mq_step.call_get,
      simp_all add: mq_put_step_def notify_all_def mq_start_def)
qed

theorem mq_conservation_witness:
  "mq_dropped (cs_mq (consumer_check ''trainer'' (mq_put_step (2::nat) (mq_put_step 1
     (mq_start 1 :: (string, nat, nat) mq_system))))) =
   length (filter is_dropped (cs_removed (consumer_check ''trainer'' (mq_put_step (2::nat) (mq_put_step 1
     (mq_start 1 :: (string, nat, nat) mq_system))))))"
  using mq_conservation [OF mq_example_reachable] by blast

text \<open>No lost wake-up: in every reachable state a consumer that sleeps on the condition has
  nothing to consume and has not been shut down, so no consumer waits while a sample is queued.\<close>

theorem mq_no_lost_wakeup:
  assumes "mq_reachable n S" and "c \<in> cs_waiting S"
  shows "mq_queue (cs_mq S) = [] \<and> mq_running (cs_mq S)"
  using mq_reachable_inv [OF assms(1)] assms(2) by (auto simp: mq_inv_def)

lemma mq_waiting_reachable:
  "mq_reachable 1 (consumer_check ''trainer'' (mq_start 1 :: (string, nat, nat) mq_system))"
  by (rule mq_reachable.step [OF mq_reachable.start]) (rule mq_step.call_get, simp_all add: mq_start_def)

theorem mq_no_lost_wakeup_witness:
  "mq_queue (cs_mq (consumer_check ''trainer'' (mq_start 1 :: (string, nat, nat) mq_system))) = [] \<and>
   mq_running (cs_mq (consumer_check ''trainer'' (mq_start 1 :: (string, nat, nat) mq_system)))"
  by (rule mq_no_lost_wakeup [OF mq_waiting_reachable, of "''trainer''"])
    (simp add: consumer_check_def get_sample_def mq_start_def)

end
