(* ===== verification/Rollouter.thy ===== *)
theory Rollouter
  imports MessageQueue Complex_Main
begin

text \<open>
  The streaming rollouter of the fully asynchronous policy
  (\<^verbatim>\<open>verl/experimental/fully_async_policy/fully_async_rollouter.py\<close>): the feed, the processor
  coroutine, the generation tasks, the monitor, \<open>reset_staleness\<close>, and the trainer as the consumer
  of the message queue. The coroutines interleave only at an \<open>await\<close>, so each stretch of code
  between two awaits is one action; \<open>ro_act\<close> gives the state after an action, or None where the
  coroutine cannot run there. A reset takes three actions (count the active tasks, read the queue
  size on the queue's actor, store the sum) under the lock. In two places awaits are joined: the monitor's
  tests of \<open>running\<close> and \<open>paused\<close>, the sleep between them and the reading of the queue size are one action, and so are the finish signal and the end of
  \<open>running\<close> in the main coroutine.
\<close>

section \<open>Configuration and feed\<close>

record ro_config =
  rc_required :: nat
  rc_threshold :: rat
  rc_trigger :: nat
  rc_total_rollout_steps :: nat
  rc_replicas :: nat

text \<open>\<open>int(...)\<close> of a non-negative product is its floor. The products are exact here and
  floating point in the code.\<close>

definition max_required_samples :: "ro_config \<Rightarrow> nat" where
  "max_required_samples c =
     nat \<lfloor>of_nat (rc_required c) * (rc_threshold c + 1) * of_nat (rc_trigger c)\<rfloor>"

definition total_train_steps :: "ro_config \<Rightarrow> nat result" where
  "total_train_steps c = require (rc_required c * rc_trigger c \<noteq> 0) ZeroDivisionError
     (Inr (rc_total_rollout_steps c div (rc_required c * rc_trigger c)))"

definition max_concurrent_samples :: "ro_config \<Rightarrow> nat" where
  "max_concurrent_samples c = min (rc_replicas c * 16) (max_required_samples c)"

definition continuous_iterator :: "nat \<Rightarrow> 'b list \<Rightarrow> (nat \<times> 'b) list" where
  "continuous_iterator total_epochs loader =
     concat (map (\<lambda>epoch. map (\<lambda>b. (epoch, b)) loader) [0..<total_epochs])"

record 'b rollout_sample =
  rs_full_batch :: 'b
  rs_sample_id :: "nat \<times> nat"
  rs_epoch :: nat

fun feed_loop :: "nat \<Rightarrow> nat \<Rightarrow> (nat \<times> 'b) list \<Rightarrow> 'b rollout_sample list \<times> nat" where
  "feed_loop tot gs [] = ([], gs)"
| "feed_loop tot gs ((epoch, b) # it) =
     (let s = \<lparr>rs_full_batch = b, rs_sample_id = (epoch, gs), rs_epoch = epoch\<rparr> in
      if tot \<le> gs then ([s], gs)
      else let (ss, gs') = feed_loop tot (gs + 1) it in (s # ss, gs'))"

definition feed_samples :: "nat \<Rightarrow> nat \<Rightarrow> nat \<Rightarrow> 'b list \<Rightarrow> 'b rollout_sample option list" where
  "feed_samples tot total_epochs gs loader =
     map Some (fst (feed_loop tot gs (continuous_iterator total_epochs loader))) @ [None]"

section \<open>State\<close>

datatype task_status = Generating | Done | Failed

datatype 'a processor_pc =
    Top
  | Checked nat
  | Pausing
  | Draining
  | Getting
  | Holding 'a
  | HoldWait 'a
  | Ending
  | EndWait
  | Finished
  | Crashed

datatype reset_phase = NoReset | Counted nat | SizeRead nat

datatype monitor_phase = MonIdle | MonChecked nat | MonResume

datatype lock_owner = Free | ByProcessor | ByReset

record 'a ro =
  ro_pc :: "'a processor_pc"
  ro_paused :: bool
  ro_event :: bool
  ro_running :: bool
  ro_lock :: lock_owner
  ro_staleness :: nat
  ro_active :: "('a \<times> task_status) list"
  ro_feed :: "'a option list"
  ro_pending :: "'a option list"
  ro_mq :: "('a option, unit) mq"
  ro_generated :: nat
  ro_dropped_stale :: nat
  ro_processed :: nat
  ro_reset :: reset_phase
  ro_monitor :: monitor_phase
  tr_collected :: nat
  tr_stopped :: bool
  ro_overlaps :: nat

record ro_limits =
  lim_samples :: nat
  lim_concurrent :: nat
  lim_batch :: nat

definition limits_of :: "ro_config \<Rightarrow> ro_limits" where
  "limits_of c = \<lparr>lim_samples = max_required_samples c, lim_concurrent = max_concurrent_samples c,
     lim_batch = rc_required c * rc_trigger c\<rparr>"

definition ro_start :: "ro_limits \<Rightarrow> 'a option list \<Rightarrow> 'a ro" where
  "ro_start L feed =
     \<lparr>ro_pc = Top, ro_paused = False, ro_event = True, ro_running = True, ro_lock = Free,
      ro_staleness = 0, ro_active = [], ro_feed = feed, ro_pending = [],
      ro_mq = \<lparr>mq_queue = [], mq_val_queue = [], mq_running = True, mq_max = lim_samples L,
               mq_produced = 0, mq_consumed = 0, mq_dropped = 0\<rparr>,
      ro_generated = 0, ro_dropped_stale = 0, ro_processed = 0,
      ro_reset = NoReset, ro_monitor = MonIdle, tr_collected = 0, tr_stopped = False,
      ro_overlaps = 0\<rparr>"

section \<open>The coroutines\<close>

definition should_pause :: "ro_limits \<Rightarrow> nat \<Rightarrow> nat \<Rightarrow> bool" where
  "should_pause L queue_size staleness \<longleftrightarrow>
     lim_samples L \<le> queue_size \<or> lim_samples L \<le> staleness"

definition task_done :: "'a \<times> task_status \<Rightarrow> bool" where
  "task_done t \<longleftrightarrow> snd t \<noteq> Generating"

definition task_failed :: "'a \<times> task_status \<Rightarrow> bool" where
  "task_failed t \<longleftrightarrow> snd t = Failed"

definition prune :: "'a processor_pc \<Rightarrow> 'a ro \<Rightarrow> 'a ro" where
  "prune nxt s = s\<lparr>ro_active := filter (\<lambda>t. \<not> task_done t) (ro_active s), ro_lock := Free,
     ro_pc := (if list_ex task_failed (ro_active s) then Crashed else nxt)\<rparr>"

definition processor_step :: "ro_limits \<Rightarrow> 'a ro \<Rightarrow> 'a ro option" where
  "processor_step L s = (case ro_pc s of
       Top \<Rightarrow> Some (if ro_paused s then s\<lparr>ro_pc := Pausing\<rparr>
                    else s\<lparr>ro_pc := Checked (get_queue_size (ro_mq s))\<rparr>)
     | Checked n \<Rightarrow> Some (s\<lparr>ro_pc := (if should_pause L n (ro_staleness s) then Pausing else Getting)\<rparr>)
     | Pausing \<Rightarrow> (if ro_lock s = Free
          then Some (s\<lparr>ro_paused := True, ro_event := False, ro_pc := Draining\<rparr>) else None)
     | Draining \<Rightarrow> (if ro_event s then Some (s\<lparr>ro_pc := Top\<rparr>) else None)
     | Getting \<Rightarrow> (case ro_pending s of
          [] \<Rightarrow> None
        | None # p \<Rightarrow> Some (s\<lparr>ro_pending := p, ro_staleness := ro_staleness s + 1, ro_pc := Ending\<rparr>)
        | Some x # p \<Rightarrow>
            Some (s\<lparr>ro_pending := p, ro_staleness := ro_staleness s + 1, ro_pc := Holding x\<rparr>))
     | Holding x \<Rightarrow>
         (if ro_lock s \<noteq> Free then None
          else if lim_concurrent L \<le> length (ro_active s)
          then (if ro_active s = [] then None else Some (s\<lparr>ro_lock := ByProcessor, ro_pc := HoldWait x\<rparr>))
          else if ro_paused s \<and> \<not> ro_event s then None
          else Some (s\<lparr>ro_active := ro_active s @ [(x, Generating)], ro_pc := Top\<rparr>))
     | HoldWait x \<Rightarrow> (if list_ex task_done (ro_active s) then Some (prune (Holding x) s) else None)
     | Ending \<Rightarrow>
         (if ro_active s = [] then Some (s\<lparr>ro_pc := Finished\<rparr>)
          else if ro_lock s = Free then Some (s\<lparr>ro_lock := ByProcessor, ro_pc := EndWait\<rparr>) else None)
     | EndWait \<Rightarrow> (if list_ex task_done (ro_active s) then Some (prune Ending s) else None)
     | Finished \<Rightarrow> None
     | Crashed \<Rightarrow> None)"

text \<open>While it drains, the processor discards a finished task as soon as it sees it, holding the lock.\<close>

definition drain_discard :: "nat \<Rightarrow> 'a ro \<Rightarrow> 'a ro option" where
  "drain_discard i s =
     (if ro_pc s = Draining \<and> ro_lock s = Free \<and> i < length (ro_active s) \<and> task_done (ro_active s ! i)
      then Some (s\<lparr>ro_active := take i (ro_active s) @ drop (Suc i) (ro_active s),
                   ro_pc := (if task_failed (ro_active s ! i) then Crashed else Draining)\<rparr>)
      else None)"

definition task_finish :: "nat \<Rightarrow> 'a ro \<Rightarrow> 'a ro option" where
  "task_finish i s =
     (if i < length (ro_active s) \<and> snd (ro_active s ! i) = Generating
      then case put_sample (Some (fst (ro_active s ! i))) (ro_mq s) of
          Inl e \<Rightarrow> Some (s\<lparr>ro_active := (ro_active s)[i := (fst (ro_active s ! i), Failed)]\<rparr>)
        | Inr (success, q) \<Rightarrow>
            Some (s\<lparr>ro_active := (ro_active s)[i := (fst (ro_active s ! i), Done)], ro_mq := q,
                    ro_generated := ro_generated s + (if success then 1 else 0),
                    ro_dropped_stale := ro_dropped_stale s + (if success then 0 else 1),
                    ro_processed := ro_processed s + 1\<rparr>)
      else None)"

definition task_fail :: "nat \<Rightarrow> 'a ro \<Rightarrow> 'a ro option" where
  "task_fail i s =
     (if i < length (ro_active s) \<and> snd (ro_active s ! i) = Generating
      then Some (s\<lparr>ro_active := (ro_active s)[i := (fst (ro_active s ! i), Failed)]\<rparr>) else None)"

definition feed_step :: "'a ro \<Rightarrow> 'a ro option" where
  "feed_step s = (case ro_feed s of
       [] \<Rightarrow> None
     | x # xs \<Rightarrow> (if length (ro_pending s) < 128
          then Some (s\<lparr>ro_feed := xs, ro_pending := ro_pending s @ [x]\<rparr>) else None))"

text \<open>The end of \<open>_streaming_generation_main\<close>: the finish signal goes into the message queue whether
  the processor ended or crashed.\<close>

definition main_finish :: "'a ro \<Rightarrow> 'a ro option" where
  "main_finish s =
     (if ro_pc s \<in> {Finished, Crashed} \<and> ro_running s
      then case put_sample None (ro_mq s) of
          Inl e \<Rightarrow> None
        | Inr (success, q) \<Rightarrow> Some (s\<lparr>ro_mq := q, ro_running := False\<rparr>)
      else None)"

definition monitor_step :: "ro_limits \<Rightarrow> 'a ro \<Rightarrow> 'a ro option" where
  "monitor_step L s = (case ro_monitor s of
       MonIdle \<Rightarrow> (if ro_running s \<and> ro_paused s
          then Some (s\<lparr>ro_monitor := MonChecked (get_queue_size (ro_mq s))\<rparr>) else None)
     | MonChecked n \<Rightarrow>
         Some (s\<lparr>ro_monitor := (if should_pause L n (ro_staleness s) then MonIdle else MonResume)\<rparr>)
     | MonResume \<Rightarrow> (if ro_lock s = Free
          then Some (s\<lparr>ro_paused := False, ro_event := True, ro_monitor := MonIdle\<rparr>) else None))"

definition holds_sample :: "'a processor_pc \<Rightarrow> bool" where
  "holds_sample p = (case p of Holding x \<Rightarrow> True | HoldWait x \<Rightarrow> True | _ \<Rightarrow> False)"

text \<open>\<open>reset_staleness\<close>, which the trainer calls once it has trained on a whole round of samples.
  \<open>ro_overlaps\<close> is a ghost: it counts the resets that complete while the processor holds a sample
  it has taken from the pending queue and not yet submitted.\<close>

definition reset_step :: "ro_limits \<Rightarrow> 'a ro \<Rightarrow> 'a ro option" where
  "reset_step L s = (case ro_reset s of
       NoReset \<Rightarrow> (if ro_lock s = Free \<and> (lim_batch L \<le> tr_collected s \<or> tr_stopped s)
          then Some (s\<lparr>ro_lock := ByReset, ro_paused := False, ro_event := True,
                       ro_reset := Counted (length (ro_active s))\<rparr>) else None)
     | Counted n \<Rightarrow> Some (s\<lparr>ro_reset := SizeRead (n + get_queue_size (ro_mq s))\<rparr>)
     | SizeRead n \<Rightarrow> Some (s\<lparr>ro_staleness := n, ro_lock := Free, ro_reset := NoReset, tr_collected := 0,
          ro_overlaps := ro_overlaps s + (if holds_sample (ro_pc s) then 1 else 0)\<rparr>))"

definition trainer_get :: "ro_limits \<Rightarrow> 'a ro \<Rightarrow> 'a ro option" where
  "trainer_get L s =
     (if tr_stopped s \<or> lim_batch L \<le> tr_collected s then None
      else case get_sample (ro_mq s) of
          (Sample (Some x) n, q) \<Rightarrow> Some (s\<lparr>ro_mq := q, tr_collected := tr_collected s + 1\<rparr>)
        | (Sample None n, q) \<Rightarrow> Some (s\<lparr>ro_mq := q, tr_stopped := True\<rparr>)
        | _ \<Rightarrow> None)"

datatype ro_action =
    AProcessor | ADiscard nat | AFinish nat | AFail nat | AFeed | AMain | AMonitor | AReset | AGet

fun ro_act :: "ro_limits \<Rightarrow> ro_action \<Rightarrow> 'a ro \<Rightarrow> 'a ro option" where
  "ro_act L AProcessor s = processor_step L s"
| "ro_act L (ADiscard i) s = drain_discard i s"
| "ro_act L (AFinish i) s = task_finish i s"
| "ro_act L (AFail i) s = task_fail i s"
| "ro_act L AFeed s = feed_step s"
| "ro_act L AMain s = main_finish s"
| "ro_act L AMonitor s = monitor_step L s"
| "ro_act L AReset s = reset_step L s"
| "ro_act L AGet s = trainer_get L s"

inductive ro_reachable :: "ro_limits \<Rightarrow> 'a option list \<Rightarrow> 'a ro \<Rightarrow> bool" for L feed where
  ro_init: "ro_reachable L feed (ro_start L feed)"
| ro_step: "ro_reachable L feed s \<Longrightarrow> ro_act L a s = Some t \<Longrightarrow> ro_reachable L feed t"

fun ro_run :: "ro_limits \<Rightarrow> ro_action list \<Rightarrow> 'a ro \<Rightarrow> 'a ro option" where
  "ro_run L [] s = Some s"
| "ro_run L (a # as) s = (case ro_act L a s of None \<Rightarrow> None | Some t \<Rightarrow> ro_run L as t)"

lemma ro_run_reachable: "ro_reachable L feed s \<Longrightarrow> ro_run L as s = Some t \<Longrightarrow> ro_reachable L feed t"
proof (induction as arbitrary: s)
  case (Cons a as)
  then show ?case by (auto split: option.splits intro: ro_step)
qed simp

lemma ro_run_append: "ro_run L (as @ bs) s = Option.bind (ro_run L as s) (ro_run L bs)"
  by (induction as arbitrary: s) (auto split: option.splits)

section \<open>Counting samples\<close>

definition running_tasks :: "('a \<times> task_status) list \<Rightarrow> nat" where
  "running_tasks ts = length (filter (\<lambda>t. \<not> task_done t) ts)"

definition queued_samples :: "'b option list \<Rightarrow> nat" where
  "queued_samples q = length (filter (\<lambda>x. x \<noteq> None) q)"

definition held :: "'a processor_pc \<Rightarrow> nat" where
  "held p = (if holds_sample p then 1 else 0)"

definition outstanding :: "'a ro \<Rightarrow> nat" where
  "outstanding s = running_tasks (ro_active s) + queued_samples (mq_queue (ro_mq s)) + held (ro_pc s)"

lemma running_simps [simp]:
  "running_tasks [] = 0"
  "running_tasks (ts @ us) = running_tasks ts + running_tasks us"
  "running_tasks (t # ts) = (if task_done t then 0 else 1) + running_tasks ts"
  "running_tasks (filter (\<lambda>t. \<not> task_done t) ts) = running_tasks ts"
  by (simp_all add: running_tasks_def)

lemma task_done_simps [simp]:
  "task_done (x, Generating) = False" "task_done (x, Done)" "task_done (x, Failed)"
  by (simp_all add: task_done_def)

lemma queued_simps [simp]:
  "queued_samples [] = 0"
  "queued_samples (p @ q) = queued_samples p + queued_samples q"
  "queued_samples (x # q) = (if x = None then 0 else 1) + queued_samples q"
  by (simp_all add: queued_samples_def)

lemma queued_le: "queued_samples q \<le> length q"
  by (simp add: queued_samples_def)

lemma queued_tl: "queued_samples (tl q) \<le> queued_samples q"
  by (cases q) auto

lemma queued_all: "None \<notin> set q \<Longrightarrow> queued_samples q = length q"
proof (induction q)
  case (Cons a q)
  then show ?case by (cases a) auto
qed simp

lemma running_le: "running_tasks ts \<le> length ts"
  by (simp add: running_tasks_def)

lemma held_simps [simp]:
  "held Top = 0" "held (Checked n) = 0" "held Pausing = 0" "held Draining = 0" "held Getting = 0"
  "held (Holding x) = 1" "held (HoldWait x) = 1" "held Ending = 0" "held EndWait = 0"
  "held Finished = 0" "held Crashed = 0"
  by (simp_all add: held_def holds_sample_def)

lemma running_update:
  assumes "i < length ts" "snd (ts ! i) = Generating" "st \<noteq> Generating"
  shows "running_tasks ts = Suc (running_tasks (ts[i := (x, st)]))"
  using assms
proof (induction ts arbitrary: i)
  case (Cons t ts)
  then show ?case by (cases i) (auto simp: task_done_def)
qed simp

lemma running_discard:
  assumes "i < length ts" "task_done (ts ! i)"
  shows "running_tasks (take i ts @ drop (Suc i) ts) = running_tasks ts"
  using assms by (subst (3) id_take_nth_drop [of i ts]) simp_all

lemma filter_shrinks: "list_ex task_done ts \<Longrightarrow> length (filter (\<lambda>t. \<not> task_done t) ts) < length ts"
  by (induction ts) (auto simp: le_imp_less_Suc split: if_splits)

section \<open>The invariant\<close>

definition overlap_slack :: "nat \<Rightarrow> nat" where
  "overlap_slack n = (if n = 0 then 0 else 1)"

text \<open>Between the check and the get, the processor has one slot reserved; the end signal keeps it.\<close>

fun reserve :: "'a processor_pc \<Rightarrow> nat" where
  "reserve Getting = 1"
| "reserve Ending = 1"
| "reserve EndWait = 1"
| "reserve Finished = 1"
| "reserve _ = 0"

definition accounting_inv :: "ro_limits \<Rightarrow> 'a ro \<Rightarrow> bool" where
  "accounting_inv L s \<longleftrightarrow>
     mq_max (ro_mq s) = lim_samples L \<and>
     length (mq_queue (ro_mq s)) \<le> lim_samples L \<and>
     outstanding s \<le> ro_staleness s + overlap_slack (ro_overlaps s) \<and>
     outstanding s + reserve (ro_pc s) \<le> lim_samples L + overlap_slack (ro_overlaps s) \<and>
     length (ro_active s) \<le> lim_concurrent L"

text \<open>What a reset in progress has counted covers the samples that are running, and, once the queue
  size is read, also those queued: the lock keeps the processor from submitting meanwhile.\<close>

fun reset_covers :: "reset_phase \<Rightarrow> nat \<Rightarrow> nat \<Rightarrow> bool" where
  "reset_covers NoReset running queued = True"
| "reset_covers (Counted n) running queued = (running \<le> n)"
| "reset_covers (SizeRead n) running queued = (running + queued \<le> n)"

definition reset_inv :: "'a ro \<Rightarrow> bool" where
  "reset_inv s \<longleftrightarrow>
     reset_covers (ro_reset s) (running_tasks (ro_active s)) (queued_samples (mq_queue (ro_mq s))) \<and>
     (ro_reset s \<noteq> NoReset \<longleftrightarrow> ro_lock s = ByReset) \<and>
     (ro_lock s = ByProcessor \<longleftrightarrow> (ro_pc s = EndWait \<or> (\<exists>x. ro_pc s = HoldWait x)))"

definition control_inv :: "'a ro \<Rightarrow> bool" where
  "control_inv s \<longleftrightarrow>
     ro_paused s = (\<not> ro_event s) \<and>
     (ro_paused s \<longrightarrow> ro_pc s = Draining \<or> ro_pc s = Crashed) \<and>
     (ro_running s \<longrightarrow> None \<notin> set (mq_queue (ro_mq s))) \<and>
     (\<not> ro_running s \<longrightarrow> ro_pc s = Finished \<or> ro_pc s = Crashed) \<and>
     (ro_pc s = Finished \<longrightarrow> ro_active s = [])"

definition drop_inv :: "'a ro \<Rightarrow> bool" where
  "drop_inv s \<longleftrightarrow>
     ro_processed s = ro_generated s + ro_dropped_stale s \<and>
     (ro_overlaps s = 0 \<and> ro_pc s \<noteq> Crashed \<longrightarrow> mq_dropped (ro_mq s) = 0 \<and> ro_dropped_stale s = 0)"

definition ro_inv :: "ro_limits \<Rightarrow> 'a ro \<Rightarrow> bool" where
  "ro_inv L s \<longleftrightarrow> accounting_inv L s \<and> reset_inv s \<and> control_inv s \<and> drop_inv s"

lemma reset_covers_mono:
  "reset_covers r a b \<Longrightarrow> a' \<le> a \<Longrightarrow> a' + b' \<le> a + b \<Longrightarrow> reset_covers r a' b'"
  by (cases r) auto

lemmas ro_invs = ro_inv_def accounting_inv_def reset_inv_def control_inv_def drop_inv_def
  outstanding_def

lemma ro_inv_start: "ro_inv L (ro_start L feed)"
  by (simp add: ro_invs ro_start_def)

lemma ro_inv_frame [simp]:
  "ro_inv L (s\<lparr>ro_feed := f\<rparr>) = ro_inv L s"
  "ro_inv L (s\<lparr>ro_feed := f, ro_pending := p\<rparr>) = ro_inv L s"
  "ro_inv L (s\<lparr>ro_monitor := m\<rparr>) = ro_inv L s"
  by (simp_all add: ro_invs)

lemma ro_inv_feed: "ro_inv L s \<Longrightarrow> feed_step s = Some t \<Longrightarrow> ro_inv L t"
  by (auto simp: feed_step_def split: list.splits if_splits)

lemma ro_inv_resume: "ro_inv L s \<Longrightarrow> ro_inv L (s\<lparr>ro_paused := False, ro_event := True\<rparr>)"
  by (clarsimp simp: ro_invs; linarith)

lemma ro_inv_monitor:
  assumes "ro_inv L s" "monitor_step L s = Some t" shows "ro_inv L t"
proof (cases "ro_monitor s")
  case MonResume
  with assms(2) have t: "t = (s\<lparr>ro_paused := False, ro_event := True\<rparr>)\<lparr>ro_monitor := MonIdle\<rparr>"
    by (simp add: monitor_step_def split: if_splits)
  show ?thesis unfolding t using ro_inv_resume [OF assms(1)] by (simp only: ro_inv_frame)
qed (use assms in \<open>auto simp: monitor_step_def split: if_splits\<close>)

lemma ro_inv_fail: 
  assumes inv: "ro_inv L s" and st: "task_fail i s = Some t" shows "ro_inv L t"
proof -
  from st have i: "i < length (ro_active s)" "snd (ro_active s ! i) = Generating"
    and t: "t = s\<lparr>ro_active := (ro_active s)[i := (fst (ro_active s ! i), Failed)]\<rparr>"
    by (simp_all add: task_fail_def split: if_splits)
  from running_update [OF i, of Failed "fst (ro_active s ! i)"] have
    r: "running_tasks ((ro_active s)[i := (fst (ro_active s ! i), Failed)]) \<le> running_tasks (ro_active s)"
    by simp
  show ?thesis using inv r i(1) unfolding t
    by (clarsimp simp: ro_invs) ((intro conjI)?; (linarith | (rule reset_covers_mono, assumption, simp, simp) | simp))
qed


lemma ro_inv_discard:
  assumes inv: "ro_inv L s" and st: "drain_discard i s = Some t" shows "ro_inv L t"
proof -
  from st have i: "i < length (ro_active s)" "task_done (ro_active s ! i)" and pc: "ro_pc s = Draining"
    and t: "t = s\<lparr>ro_active := take i (ro_active s) @ drop (Suc i) (ro_active s),
                   ro_pc := (if task_failed (ro_active s ! i) then Crashed else Draining)\<rparr>"
    by (simp_all add: drain_discard_def split: if_splits)
  have r: "running_tasks (take i (ro_active s) @ drop (Suc i) (ro_active s)) = running_tasks (ro_active s)"
    by (rule running_discard [OF i])
  show ?thesis using inv r i(1) pc unfolding t
    by (cases "task_failed (ro_active s ! i)"; clarsimp simp: ro_invs; linarith)
qed

lemma ro_inv_finish:
  assumes inv: "ro_inv L s" and pos: "0 < lim_samples L" and st: "task_finish i s = Some t"
  shows "ro_inv L t"
proof -
  let ?q = "mq_queue (ro_mq s)" and ?x = "fst (ro_active s ! i)"
  from st have i: "i < length (ro_active s)" "snd (ro_active s ! i) = Generating"
    by (simp_all add: task_finish_def split: if_splits)
  have ok: "mq_ok (ro_mq s)" using inv pos by (simp add: ro_invs mq_ok_def)
  have act: "ro_active s \<noteq> []" using i by auto
  from running_update [OF i, of Done ?x] have
    r: "running_tasks (ro_active s) = Suc (running_tasks ((ro_active s)[i := (?x, Done)]))" by simp
  show ?thesis
  proof (cases "length ?q < mq_max (ro_mq s)")
    case True
    with st i have t: "t = s\<lparr>ro_active := (ro_active s)[i := (?x, Done)],
        ro_mq := (ro_mq s)\<lparr>mq_queue := ?q @ [Some ?x], mq_produced := Suc (mq_produced (ro_mq s))\<rparr>,
        ro_generated := ro_generated s + 1, ro_processed := ro_processed s + 1\<rparr>"
      by (simp add: task_finish_def put_sample_eq [OF ok])
    show ?thesis using inv r i(1) act True unfolding t
      by (clarsimp simp: ro_invs) ((intro conjI)?; (linarith | (rule reset_covers_mono, assumption, simp, simp) | simp))
  next
    case False
    with st i have t: "t = s\<lparr>ro_active := (ro_active s)[i := (?x, Done)],
        ro_mq := (ro_mq s)\<lparr>mq_queue := tl ?q @ [Some ?x], mq_dropped := Suc (mq_dropped (ro_mq s)),
          mq_produced := Suc (mq_produced (ro_mq s))\<rparr>,
        ro_dropped_stale := ro_dropped_stale s + 1, ro_processed := ro_processed s + 1\<rparr>"
      by (simp add: task_finish_def put_sample_eq [OF ok])
    have q: "queued_samples (tl ?q) \<le> queued_samples ?q" by (rule queued_tl)
    have full: "length ?q = lim_samples L" using False inv by (simp add: ro_invs)
    have ne: "None \<notin> set (tl ?q)" if "None \<notin> set ?q" using that by (cases ?q) auto
    have ov: "ro_overlaps s \<noteq> 0 \<or> ro_pc s = Crashed"
    proof (rule ccontr)
      assume "\<not> ?thesis"
      then have "ro_running s" "outstanding s \<le> lim_samples L" "None \<notin> set ?q"
        using inv act by (auto simp: ro_inv_def accounting_inv_def control_inv_def overlap_slack_def)
      with r full show False by (simp add: outstanding_def queued_all)
    qed
    show ?thesis using inv r i(1) act q full ne ov pos unfolding t
      by (clarsimp simp: ro_invs) ((intro conjI)?; (linarith | (rule reset_covers_mono, assumption, simp, simp) | simp))
  qed
qed


lemma ro_inv_prune:
  assumes inv: "ro_inv L s" and fin: "list_ex task_done (ro_active s)"
    and pc: "(\<exists>x. ro_pc s = HoldWait x \<and> nxt = Holding x) \<or> (ro_pc s = EndWait \<and> nxt = Ending)"
  shows "ro_inv L (prune nxt s)"
proof -
  have len: "length (filter (\<lambda>t. \<not> task_done t) (ro_active s)) \<le> lim_concurrent L"
    using filter_shrinks [OF fin] inv by (simp add: ro_invs)
  show ?thesis using pc inv len
    by (elim disjE exE conjE; cases "list_ex task_failed (ro_active s)"; clarsimp simp: ro_invs prune_def)
qed

lemma ro_inv_processor:
  assumes inv: "ro_inv L s" and st: "processor_step L s = Some t"
  shows "ro_inv L t"
proof (cases "ro_pc s")
  case (HoldWait x)
  with st have "list_ex task_done (ro_active s)" "t = prune (Holding x) s"
    by (simp_all add: processor_step_def split: if_splits)
  with ro_inv_prune [OF inv] HoldWait show ?thesis by auto
next
  case EndWait
  with st have "list_ex task_done (ro_active s)" "t = prune Ending s"
    by (simp_all add: processor_step_def split: if_splits)
  with ro_inv_prune [OF inv] EndWait show ?thesis by auto
next
  case (Checked n)
  show ?thesis
  proof (cases "should_pause L n (ro_staleness s)")
    case True
    with st Checked have t: "t = s\<lparr>ro_pc := Pausing\<rparr>" by (simp add: processor_step_def)
    show ?thesis using inv Checked unfolding t by (clarsimp simp: ro_invs)
  next
    case False
    with st Checked have t: "t = s\<lparr>ro_pc := Getting\<rparr>" by (simp add: processor_step_def)
    from False have lt: "ro_staleness s < lim_samples L" by (simp add: should_pause_def)
    show ?thesis using inv Checked lt unfolding t by (clarsimp simp: ro_invs)
  qed
next
  case Getting
  with st obtain x p where "ro_pending s = x # p"
    by (auto simp: processor_step_def split: list.splits)
  then show ?thesis using inv Getting st
    by (cases x; clarsimp simp: processor_step_def; clarsimp simp: ro_invs)
next
  case (Holding x)
  show ?thesis
  proof (cases "lim_concurrent L \<le> length (ro_active s)")
    case True
    with st Holding have t: "t = s\<lparr>ro_lock := ByProcessor, ro_pc := HoldWait x\<rparr>" and l: "ro_lock s = Free"
      by (simp_all add: processor_step_def split: if_splits)
    show ?thesis using inv Holding l unfolding t by (clarsimp simp: ro_invs)
  next
    case False
    with st Holding have t: "t = s\<lparr>ro_active := ro_active s @ [(x, Generating)], ro_pc := Top\<rparr>"
      and l: "ro_lock s = Free"
      by (simp_all add: processor_step_def split: if_splits)
    show ?thesis using inv Holding l False unfolding t by (clarsimp simp: ro_invs)
  qed
next
  case Ending
  show ?thesis
  proof (cases "ro_active s = []")
    case True
    with st Ending have t: "t = s\<lparr>ro_pc := Finished\<rparr>" by (simp add: processor_step_def)
    show ?thesis using inv Ending True unfolding t by (clarsimp simp: ro_invs)
  next
    case False
    with st Ending have t: "t = s\<lparr>ro_lock := ByProcessor, ro_pc := EndWait\<rparr>" and l: "ro_lock s = Free"
      by (simp_all add: processor_step_def split: if_splits)
    show ?thesis using inv Ending l unfolding t by (clarsimp simp: ro_invs)
  qed
next
  case Top
  with inv have "\<not> ro_paused s" by (auto simp: ro_inv_def control_inv_def)
  with st Top have t: "t = s\<lparr>ro_pc := Checked (get_queue_size (ro_mq s))\<rparr>"
    by (simp add: processor_step_def)
  show ?thesis using inv Top unfolding t by (clarsimp simp: ro_invs)
next
  case Pausing
  with st have t: "t = s\<lparr>ro_paused := True, ro_event := False, ro_pc := Draining\<rparr>"
    by (simp add: processor_step_def split: if_splits)
  show ?thesis using inv Pausing unfolding t by (clarsimp simp: ro_invs)
next
  case Draining
  with st have t: "t = s\<lparr>ro_pc := Top\<rparr>" and "ro_event s"
    by (simp_all add: processor_step_def split: if_splits)
  then show ?thesis using inv Draining unfolding t by (clarsimp simp: ro_invs)
qed (use st in \<open>simp_all add: processor_step_def\<close>)


lemma ro_inv_main:
  assumes inv: "ro_inv L s" and pos: "0 < lim_samples L" and st: "main_finish s = Some t"
  shows "ro_inv L t"
proof -
  let ?q = "mq_queue (ro_mq s)"
  from st have pc: "ro_pc s = Finished \<or> ro_pc s = Crashed" and run: "ro_running s"
    by (auto simp: main_finish_def split: if_splits)
  have ok: "mq_ok (ro_mq s)" using inv pos by (simp add: ro_invs mq_ok_def)
  have qs: "queued_samples ?q = length ?q"
    using inv run by (simp add: ro_inv_def control_inv_def queued_all)
  show ?thesis
  proof (cases "length ?q < mq_max (ro_mq s)")
    case True
    with st pc run have t: "t = s\<lparr>ro_mq := (ro_mq s)\<lparr>mq_queue := ?q @ [None],
        mq_produced := Suc (mq_produced (ro_mq s))\<rparr>, ro_running := False\<rparr>"
      by (simp add: main_finish_def put_sample_eq [OF ok])
    show ?thesis using inv pc True unfolding t by (clarsimp simp: ro_invs)
  next
    case False
    with st pc run have t: "t = s\<lparr>ro_mq := (ro_mq s)\<lparr>mq_queue := tl ?q @ [None],
        mq_dropped := Suc (mq_dropped (ro_mq s)), mq_produced := Suc (mq_produced (ro_mq s))\<rparr>,
        ro_running := False\<rparr>"
      by (simp add: main_finish_def put_sample_eq [OF ok])
    have q: "queued_samples (tl ?q) \<le> queued_samples ?q" by (rule queued_tl)
    have "ro_overlaps s \<noteq> 0 \<or> ro_pc s = Crashed"
      using inv pc False qs by (auto simp: ro_invs overlap_slack_def)
    then show ?thesis using inv pc q False pos unfolding t
      by (clarsimp simp: ro_invs) ((intro conjI)?; (linarith | (rule reset_covers_mono, assumption, simp, simp) | simp))
  qed
qed

lemma ro_inv_reset:
  assumes inv: "ro_inv L s" and st: "reset_step L s = Some t"
  shows "ro_inv L t"
proof (cases "ro_reset s")
  case NoReset
  with st have t: "t = s\<lparr>ro_lock := ByReset, ro_paused := False, ro_event := True,
      ro_reset := Counted (length (ro_active s))\<rparr>" and l: "ro_lock s = Free"
    by (simp_all add: reset_step_def split: if_splits)
  show ?thesis using inv NoReset l running_le [of "ro_active s"] unfolding t by (clarsimp simp: ro_invs)
next
  case (Counted n)
  with st have t: "t = s\<lparr>ro_reset := SizeRead (n + length (mq_queue (ro_mq s)))\<rparr>"
    by (simp add: reset_step_def get_queue_size_def)
  show ?thesis using inv Counted queued_le [of "mq_queue (ro_mq s)"] unfolding t by (clarsimp simp: ro_invs)
next
  case (SizeRead n)
  with st have t: "t = s\<lparr>ro_staleness := n, ro_lock := Free, ro_reset := NoReset, tr_collected := 0,
      ro_overlaps := ro_overlaps s + held (ro_pc s)\<rparr>"
    by (simp add: reset_step_def held_def)
  have "held (ro_pc s) \<le> overlap_slack (ro_overlaps s + held (ro_pc s))"
    "overlap_slack (ro_overlaps s) \<le> overlap_slack (ro_overlaps s + held (ro_pc s))"
    by (simp_all add: overlap_slack_def held_def)
  then show ?thesis using inv SizeRead unfolding t by (clarsimp simp: ro_invs)
qed

lemma ro_inv_get:
  assumes inv: "ro_inv L s" and st: "trainer_get L s = Some t"
  shows "ro_inv L t"
proof (cases "mq_queue (ro_mq s)")
  case Nil
  with st show ?thesis by (auto simp: trainer_get_def get_sample_def split: if_splits)
next
  case (Cons x q)
  then have g: "get_sample (ro_mq s) =
      (Sample x (length q), (ro_mq s)\<lparr>mq_queue := q, mq_consumed := mq_consumed (ro_mq s) + 1\<rparr>)"
    by (simp add: get_sample_def)
  show ?thesis
  proof (cases x)
    case None
    with st g have t: "t = s\<lparr>ro_mq := (ro_mq s)\<lparr>mq_queue := q, mq_consumed := mq_consumed (ro_mq s) + 1\<rparr>,
        tr_stopped := True\<rparr>"
      by (simp add: trainer_get_def split: if_splits)
    show ?thesis using inv Cons None unfolding t by (clarsimp simp: ro_invs)
  next
    case (Some y)
    with st g have t: "t = s\<lparr>ro_mq := (ro_mq s)\<lparr>mq_queue := q, mq_consumed := mq_consumed (ro_mq s) + 1\<rparr>,
        tr_collected := tr_collected s + 1\<rparr>"
      by (simp add: trainer_get_def split: if_splits)
    have "reset_covers (ro_reset s) (running_tasks (ro_active s)) (queued_samples q)"
      if "reset_covers (ro_reset s) (running_tasks (ro_active s)) (Suc (queued_samples q))"
      using that by (rule reset_covers_mono) simp_all
    then show ?thesis using inv Cons Some unfolding t by (clarsimp simp: ro_invs)
  qed
qed

lemma ro_inv_act:
  assumes "ro_inv L s" "0 < lim_samples L" "ro_act L a s = Some t"
  shows "ro_inv L t"
  using assms
  by (cases a) (auto dest: ro_inv_processor ro_inv_discard ro_inv_finish ro_inv_fail ro_inv_feed
      ro_inv_main ro_inv_monitor ro_inv_reset ro_inv_get)

lemma ro_reachable_inv: "ro_reachable L feed s \<Longrightarrow> 0 < lim_samples L \<Longrightarrow> ro_inv L s"
  by (induction rule: ro_reachable.induct) (auto intro: ro_inv_start ro_inv_act)


section \<open>Runs that stop making progress\<close>

text \<open>The rollouter waits for a reset, the trainer waits for a sample, and the monitor sees no reason
  to resume: nothing is generated, queued or delivered any more.\<close>

definition ro_stuck :: "ro_limits \<Rightarrow> 'a ro \<Rightarrow> bool" where
  "ro_stuck L s \<longleftrightarrow> ro_pc s = Draining \<and> ro_paused s \<and> \<not> ro_event s \<and> ro_active s = [] \<and>
     mq_queue (ro_mq s) = [] \<and> mq_running (ro_mq s) \<and> lim_samples L \<le> ro_staleness s \<and>
     tr_collected s < lim_batch L \<and> \<not> tr_stopped s \<and> ro_reset s = NoReset \<and> ro_monitor s \<noteq> MonResume"

lemma ro_stuck_act: "ro_stuck L s \<Longrightarrow> ro_act L a s = Some t \<Longrightarrow> ro_stuck L t"
  by (cases a)
    (auto simp: ro_stuck_def processor_step_def drain_discard_def task_finish_def task_fail_def
      feed_step_def main_finish_def monitor_step_def reset_step_def trainer_get_def get_sample_def
      should_pause_def split: if_splits list.splits monitor_phase.splits)

lemma ro_stuck_run: "ro_stuck L s \<Longrightarrow> ro_run L as s = Some t \<Longrightarrow> ro_stuck L t"
proof (induction as arbitrary: s)
  case (Cons a as)
  then show ?case by (auto split: option.splits intro: ro_stuck_act)
qed simp

section \<open>Properties\<close>

definition submit_trace :: "ro_action list" where
  "submit_trace = [AProcessor, AProcessor, AProcessor, AProcessor]"

definition overlap_trace :: "ro_action list" where
  "overlap_trace = replicate 6 AFeed @ submit_trace @ submit_trace @ replicate 3 AProcessor @
     [AFinish 0, ADiscard 0, AFinish 0, ADiscard 0, AGet] @ replicate 3 AReset @
     [AProcessor, AProcessor, AProcessor, AProcessor, AGet] @ replicate 3 AReset @ [AProcessor] @
     submit_trace @ submit_trace @ [AFinish 0, AFinish 1, AProcessor, AProcessor, AFinish 0]"

definition deadlock_trace :: "ro_action list" where
  "deadlock_trace = replicate 4 AFeed @ submit_trace @ submit_trace @ [AFinish 0, AFinish 1] @
     [AProcessor, AProcessor, AGet, AGet] @ replicate 3 AReset @ replicate 5 AProcessor @
     [ADiscard 0, ADiscard 0, AFinish 0, ADiscard 0, AGet]"

definition five_prompts :: "nat option list" where
  "five_prompts = [Some 1, Some 2, Some 3, Some 4, Some 5, None]"

definition small_config :: ro_config where
  "small_config = \<lparr>rc_required = 1, rc_threshold = 1, rc_trigger = 1, rc_total_rollout_steps = 5,
     rc_replicas = 1\<rparr>"

definition partial_config :: ro_config where
  "partial_config = \<lparr>rc_required = 2, rc_threshold = 1 / 2, rc_trigger = 1, rc_total_rollout_steps = 5,
     rc_replicas = 1\<rparr>"

lemma small_limits [simp]:
  "limits_of small_config = \<lparr>lim_samples = 2, lim_concurrent = 2, lim_batch = 1\<rparr>"
  by (simp add: limits_of_def small_config_def max_required_samples_def max_concurrent_samples_def)

lemma partial_limits [simp]:
  "limits_of partial_config = \<lparr>lim_samples = 3, lim_concurrent = 3, lim_batch = 2\<rparr>"
  by (simp add: limits_of_def partial_config_def max_required_samples_def max_concurrent_samples_def)

text \<open>\<open>after c as\<close> is the state after a run of the five prompts under the configuration \<open>c\<close>.\<close>

abbreviation after :: "ro_config \<Rightarrow> ro_action list \<Rightarrow> nat ro option" where
  "after c as \<equiv> ro_run (limits_of c) as (ro_start (limits_of c) five_prompts)"

lemma after_reachable: "after c as = Some s \<Longrightarrow> ro_reachable (limits_of c) five_prompts s"
  by (rule ro_run_reachable [OF ro_init])

lemma overlap_run: "after small_config overlap_trace \<noteq> None"
  unfolding small_limits by code_simp

text \<open>C1 Bounded staleness and memory: as long as no reset completes while the processor holds a sample, at any moment at
  most \<open>max_required_samples\<close> samples have been taken from the feed and not yet been consumed by the trainer (being
  generated, held by the processor, or in the message queue), and \<open>staleness_samples\<close> counts all of them. After such a
  reset the bound and the count can be off, but by one sample only, however many such resets there are. The message queue never exceeds its size, and the
  number of concurrent generation tasks never exceeds \<open>max_concurrent_samples\<close>.\<close>

theorem rollouter_backlog_bounded:
  assumes "ro_reachable L feed s" and "0 < lim_samples L"
  shows "outstanding s \<le> lim_samples L + (if ro_overlaps s = 0 then 0 else 1) \<and>
    outstanding s \<le> ro_staleness s + (if ro_overlaps s = 0 then 0 else 1) \<and>
    length (mq_queue (ro_mq s)) \<le> lim_samples L \<and> length (ro_active s) \<le> lim_concurrent L"
  using ro_reachable_inv [OF assms] by (auto simp: ro_inv_def accounting_inv_def overlap_slack_def)

lemma overlap_reachable:
  "ro_reachable (limits_of small_config) five_prompts (the (after small_config overlap_trace))"
proof -
  obtain s where "after small_config overlap_trace = Some s" using overlap_run by blast
  then show ?thesis using after_reachable by (metis option.sel)
qed

lemma submit_run: "after small_config (AFeed # submit_trace @ [AFinish 0]) \<noteq> None \<and>
    (case after small_config (AFeed # submit_trace @ [AFinish 0]) of
       None \<Rightarrow> False | Some s \<Rightarrow> ro_overlaps s = 0 \<and> ro_pc s = Top \<and> ro_processed s = 1)"
  unfolding small_limits by code_simp

theorem rollouter_backlog_bounded_witness:
  "outstanding (the (after small_config (AFeed # submit_trace @ [AFinish 0]))) \<le> lim_samples (limits_of small_config) \<and>
   outstanding (the (after small_config overlap_trace)) \<le> lim_samples (limits_of small_config) + 1"
proof -
  obtain s where s: "after small_config (AFeed # submit_trace @ [AFinish 0]) = Some s" and "ro_overlaps s = 0"
    using submit_run by (auto split: option.splits)
  moreover have "0 < lim_samples (limits_of small_config)" by simp
  ultimately show ?thesis
    using rollouter_backlog_bounded [OF after_reachable [OF s]] rollouter_backlog_bounded [OF overlap_reachable]
    by (auto split: if_splits)
qed

text \<open>C5 No sample is lost while resets do not cut in: as long as no reset completes while the
  processor holds a sample and no generation has crashed the processor, no put ever evicts a sample
  from the message queue, the finish signal included, and every processed sample was accepted.\<close>

theorem rollouter_drops_nothing:
  assumes "ro_reachable L feed s" and "0 < lim_samples L" and "ro_overlaps s = 0" and "ro_pc s \<noteq> Crashed"
  shows "mq_dropped (ro_mq s) = 0 \<and> ro_generated s = ro_processed s"
  using ro_reachable_inv [OF assms(1,2)] assms(3,4) by (auto simp: ro_inv_def drop_inv_def)

theorem rollouter_drops_nothing_witness:
  "ro_generated (the (after small_config (AFeed # submit_trace @ [AFinish 0]))) = 1"
proof -
  obtain s where s: "after small_config (AFeed # submit_trace @ [AFinish 0]) = Some s"
    and p: "ro_overlaps s = 0" "ro_pc s = Top" "ro_processed s = 1"
    using submit_run by (auto split: option.splits)
  have "ro_generated s = ro_processed s"
    using rollouter_drops_nothing [OF after_reachable [OF s]] p by simp
  with s p show ?thesis by simp
qed

text \<open>A reset that cuts in loses a sample: with one prompt per step, a staleness threshold of 1 and
  one replica, the run \<open>overlap_trace\<close> is possible, in which a reset completes while the processor
  holds a sample and \<open>reset_staleness\<close> does not count it; a later put finds the queue full and
  evicts the oldest sample.\<close>

theorem rollouter_reset_can_drop:
  "map_option (\<lambda>s. (ro_overlaps s, ro_dropped_stale s, mq_queue (ro_mq s))) (after small_config overlap_trace) =
     Some (1, 1, [Some 4, Some 5])"
  unfolding small_limits by code_simp

lemma deadlock_run: "after partial_config deadlock_trace \<noteq> None \<and>
    (case after partial_config deadlock_trace of None \<Rightarrow> False | Some s \<Rightarrow> ro_stuck (limits_of partial_config) s)"
  unfolding partial_limits by code_simp

text \<open>C11 A reset that counts finished tasks can stop the system for ever: \<open>reset_staleness\<close> counts
  every task in \<open>active_tasks\<close>, finished ones that the processor has not discarded yet included. With
  two prompts per step and a threshold of 1/2, after \<open>deadlock_trace\<close> whatever happens next the
  processor waits for a reset, the trainer, with one of its two samples, waits for a sample, the
  message queue stays empty and nothing is being generated, while prompts are still to be fed.\<close>

theorem rollouter_can_deadlock:
  assumes "after partial_config (deadlock_trace @ as) = Some s"
  shows "ro_pc s = Draining \<and> ro_paused s \<and> ro_active s = [] \<and> mq_queue (ro_mq s) = [] \<and>
    tr_collected s < lim_batch (limits_of partial_config) \<and> \<not> tr_stopped s"
proof -
  obtain u where u: "after partial_config deadlock_trace = Some u" and st: "ro_stuck (limits_of partial_config) u"
    using deadlock_run by (auto split: option.splits)
  have "ro_run (limits_of partial_config) as u = Some s" using assms u by (simp add: ro_run_append)
  from ro_stuck_run [OF st this] show ?thesis by (simp add: ro_stuck_def)
qed

lemma deadlock_run_more: "after partial_config (deadlock_trace @ [AFeed, AMonitor, AMonitor]) \<noteq> None"
  unfolding partial_limits by code_simp

theorem rollouter_can_deadlock_witness:
  "ro_active (the (after partial_config (deadlock_trace @ [AFeed, AMonitor, AMonitor]))) = []"
  using deadlock_run_more rollouter_can_deadlock [of "[AFeed, AMonitor, AMonitor]"] by fastforce

text \<open>No resume signal is lost: the rollouter is paused exactly when its resume event is cleared,
  it is paused only while the processor drains (or has crashed), and a draining processor that is not
  paused can leave the drain at once.\<close>

theorem rollouter_resume_not_lost:
  assumes "ro_reachable L feed s" and "0 < lim_samples L"
  shows "ro_paused s = (\<not> ro_event s) \<and>
    (ro_paused s \<longrightarrow> ro_pc s \<in> {Draining, Crashed}) \<and>
    (ro_pc s = Draining \<and> \<not> ro_paused s \<longrightarrow> processor_step L s = Some (s\<lparr>ro_pc := Top\<rparr>))"
  using ro_reachable_inv [OF assms] by (auto simp: ro_inv_def control_inv_def processor_step_def)

theorem rollouter_resume_not_lost_witness:
  "ro_paused (the (after small_config overlap_trace)) = (\<not> ro_event (the (after small_config overlap_trace)))"
  using rollouter_resume_not_lost [OF overlap_reachable] by simp

section \<open>The feed\<close>

lemma feed_loop_length: "length (fst (feed_loop tot gs it)) =
    (if it = [] then 0 else min (length it) (tot - gs + 1))"
proof (induction it arbitrary: gs)
  case (Cons x it)
  show ?case using Cons.IH [of "gs + 1"] by (cases x) (auto simp: Let_def min_def split: prod.splits)
qed simp

lemma feed_loop_ids: "map rs_sample_id (fst (feed_loop tot gs it)) =
    zip (map fst (take (length (fst (feed_loop tot gs it))) it)) [gs..<gs + length (fst (feed_loop tot gs it))]"
proof (induction it arbitrary: gs)
  case (Cons x it)
  have "[gs..<gs + Suc n] = gs # [Suc gs..<Suc gs + n]" for n by (simp add: upt_rec)
  then show ?case using Cons.IH [of "gs + 1"]
    by (cases x; cases "feed_loop tot (Suc gs) it") (auto simp: Let_def)
qed simp

lemma length_continuous_iterator: "length (continuous_iterator e loader) = e * length loader"
  by (induction e) (auto simp: continuous_iterator_def)

text \<open>The feed hands the processor the right number of samples: from step \<open>gs\<close> it puts one sample
  for each batch of the epochs, in order, until step \<open>total_rollout_steps\<close> has been fed, with ids that
  never repeat, and then exactly one end signal.\<close>

theorem feed_samples_complete:
  assumes "1 \<le> gs" and "gs \<le> tot" and "loader \<noteq> []" and "0 < epochs"
  shows "\<exists>ss. feed_samples tot epochs gs loader = map Some ss @ [None] \<and>
    length ss = min (epochs * length loader) (tot - gs + 1) \<and> distinct (map rs_sample_id ss) \<and>
    map snd (map rs_sample_id ss) = [gs..<gs + length ss]"
proof (intro exI conjI)
  let ?it = "continuous_iterator epochs loader"
  let ?ss = "fst (feed_loop tot gs ?it)"
  show "feed_samples tot epochs gs loader = map Some ?ss @ [None]" by (simp add: feed_samples_def)
  have "length ?it = epochs * length loader" by (rule length_continuous_iterator)
  moreover have "?it \<noteq> []" using calculation assms(3,4) by (metis length_0_conv mult_is_0 neq0_conv)
  ultimately show "length ?ss = min (epochs * length loader) (tot - gs + 1)"
    by (simp add: feed_loop_length)
  then have le: "length ?ss \<le> length ?it" by (simp add: length_continuous_iterator)
  then show ids: "map snd (map rs_sample_id ?ss) = [gs..<gs + length ?ss]"
    unfolding feed_loop_ids by (simp add: min_def)
  then have "distinct (map snd (map rs_sample_id ?ss))" by simp
  then show "distinct (map rs_sample_id ?ss)" by (rule distinct_map [THEN iffD1, THEN conjunct1])
qed

theorem feed_samples_complete_witness:
  "\<exists>ss. feed_samples 3 2 1 [''a'', ''b''] = map Some ss @ [None] \<and>
    length ss = min (2 * length [''a'', ''b'']) (3 - 1 + 1) \<and> distinct (map rs_sample_id ss) \<and>
    map snd (map rs_sample_id ss) = [1..<1 + length ss]"
  by (rule feed_samples_complete) simp_all

text \<open>A whole training round fits into the backlog: with a non-negative staleness threshold the limit on
  outstanding samples, and so the queue, is at least the number of samples between two parameter syncs.\<close>

theorem backlog_holds_a_round:
  assumes "0 \<le> rc_threshold c"
  shows "rc_required c * rc_trigger c \<le> max_required_samples c \<and>
    max_concurrent_samples c \<le> max_required_samples c"
proof -
  have "(of_nat (rc_required c) :: rat) * 1 \<le> of_nat (rc_required c) * (rc_threshold c + 1)"
    using assms by (intro mult_left_mono) auto
  then have "(of_nat (rc_required c) :: rat) * 1 * of_nat (rc_trigger c) \<le>
      of_nat (rc_required c) * (rc_threshold c + 1) * of_nat (rc_trigger c)"
    by (intro mult_right_mono) auto
  then have "(of_nat (rc_required c * rc_trigger c) :: rat) \<le>
      of_nat (rc_required c) * (rc_threshold c + 1) * of_nat (rc_trigger c)" by simp
  then have "int (rc_required c * rc_trigger c) \<le>
      \<lfloor>of_nat (rc_required c) * (rc_threshold c + 1) * of_nat (rc_trigger c)\<rfloor>"
    by (simp add: le_floor_iff)
  then have "rc_required c * rc_trigger c \<le> max_required_samples c"
    unfolding max_required_samples_def by linarith
  then show ?thesis by (simp add: max_concurrent_samples_def)
qed

theorem backlog_holds_a_round_witness:
  "rc_required partial_config * rc_trigger partial_config \<le> max_required_samples partial_config \<and>
    max_concurrent_samples partial_config \<le> max_required_samples partial_config"
  by (rule backlog_holds_a_round) (simp add: partial_config_def)

end
