(* ===== verification/Trainer.thy ===== *)
theory Trainer
  imports MessageQueue
begin

text \<open>
  The trainer of the fully asynchronous policy
  (\<^verbatim>\<open>verl/experimental/fully_async_policy/fully_async_trainer.py\<close>): collecting samples from the
  message queue, the local trigger step and the parameter version, the old log-probabilities
  computed with saved copies of the model (\<^verbatim>\<open>experimental/separation/engine_workers.py\<close>), and
  the guards of parameter sync, validation and checkpointing. The parameters of the model and one
  optimiser update are arguments; the effects are recorded in the order they happen as
  \<open>tr_events\<close>.
\<close>

section \<open>Collecting samples\<close>

text \<open>\<open>collect\<close> is the loop of \<open>_get_samples_from_queue\<close> over the answers of the queue. The outer None
  stands for waiting for ever on a queue that gives no further answer; the inner None for
  \<open>(None, None)\<close>.\<close>

fun collect :: "nat \<Rightarrow> 'a list \<Rightarrow> 'a option get_outcome list \<Rightarrow> 'a list result option" where
  "collect required acc outs =
     (if required \<le> length acc then Some (Inr acc)
      else case outs of
          [] \<Rightarrow> None
        | Blocked # os \<Rightarrow> collect required acc os
        | Closed # os \<Rightarrow> Some (Inl TypeError)
        | Sample None n # os \<Rightarrow> Some (Inr acc)
        | Sample (Some x) n # os \<Rightarrow> collect required (acc @ [x]) os)"

definition get_samples_from_queue ::
  "nat \<Rightarrow> 'a option get_outcome list \<Rightarrow> 'a list option result option" where
  "get_samples_from_queue required outs =
     map_option (\<lambda>r. bind_r r (\<lambda>q. Inr (if q = [] \<or> length q < required then None else Some q)))
       (collect required [] outs)"

declare collect.simps [simp del]

section \<open>State\<close>

record tr_config =
  tc_trigger :: nat
  tc_test_freq :: int
  tc_save_freq :: int
  tc_bypass :: bool
  tc_critic_warmup :: nat

datatype 'p tr_event = LogProb 'p | Synced nat 'p | Validated nat | Saved nat 'p

record 'p trainer =
  tr_global_steps :: nat
  tr_local :: nat
  tr_version :: nat
  tr_last_ckpt :: nat
  tr_params :: 'p
  tr_cpu :: "nat \<Rightarrow> 'p option"
  tr_events :: "'p tr_event list"

definition trainer_init :: "'p \<Rightarrow> 'p trainer" where
  "trainer_init p = \<lparr>tr_global_steps = 0, tr_local = 1, tr_version = 0, tr_last_ckpt = 0,
     tr_params = p, tr_cpu = (\<lambda>_. None), tr_events = []\<rparr>"

section \<open>Saved models\<close>

definition save_model_to_cpu :: "nat \<Rightarrow> 'p trainer \<Rightarrow> 'p trainer" where
  "save_model_to_cpu n s = s\<lparr>tr_cpu := (tr_cpu s)(n := Some (tr_params s))\<rparr>"

definition restore_model_from_cpu :: "nat \<Rightarrow> 'p trainer \<Rightarrow> 'p trainer" where
  "restore_model_from_cpu n s =
     (case tr_cpu s n of Some p \<Rightarrow> s\<lparr>tr_params := p\<rparr> | None \<Rightarrow> s)"

definition clear_cpu_model :: "nat \<Rightarrow> 'p trainer \<Rightarrow> 'p trainer" where
  "clear_cpu_model n s = s\<lparr>tr_cpu := (tr_cpu s)(n := None)\<rparr>"

definition log_prob :: "'p trainer \<Rightarrow> 'p trainer" where
  "log_prob s = s\<lparr>tr_events := tr_events s @ [LogProb (tr_params s)]\<rparr>"

definition compute_old_log_prob :: "'p trainer \<Rightarrow> 'p trainer" where
  "compute_old_log_prob s =
     (if tr_local s = 1 then log_prob (save_model_to_cpu 1 s)
      else clear_cpu_model (tr_local s) (restore_model_from_cpu (tr_local s)
             (log_prob (restore_model_from_cpu 1 (save_model_to_cpu (tr_local s) s)))))"

section \<open>One training step\<close>

definition fit_compute_log_prob :: "tr_config \<Rightarrow> 'p trainer \<Rightarrow> 'p trainer" where
  "fit_compute_log_prob c s = (if tc_bypass c then s else compute_old_log_prob s)"

text \<open>The actor is left alone while the critic warms up.\<close>

definition fit_update_actor :: "tr_config \<Rightarrow> ('p \<Rightarrow> 'b \<Rightarrow> 'p) \<Rightarrow> nat \<Rightarrow> 'b \<Rightarrow> 'p \<Rightarrow> 'p" where
  "fit_update_actor c upd global_steps b p = (if tc_critic_warmup c \<le> global_steps then upd p b else p)"

definition fit_update_local_step :: "tr_config \<Rightarrow> 'p trainer \<Rightarrow> 'p trainer" where
  "fit_update_local_step c s =
     (if tr_local s < tc_trigger c then s\<lparr>tr_local := tr_local s + 1\<rparr>
      else s\<lparr>tr_version := tr_version s + 1, tr_local := 1\<rparr>)"

definition fit_update_weights :: "'p trainer \<Rightarrow> 'p trainer" where
  "fit_update_weights s =
     (if tr_local s \<noteq> 1 then s
      else s\<lparr>tr_events := tr_events s @ [Synced (tr_version s) (tr_params s)]\<rparr>)"

definition fit_validate :: "tr_config \<Rightarrow> bool \<Rightarrow> 'p trainer \<Rightarrow> 'p trainer" where
  "fit_validate c val_before_train s =
     (if tr_local s \<noteq> 1 then s
      else if \<not> (0 < tc_test_freq c \<and> int (tr_version s) mod tc_test_freq c = 0 \<and> 0 < tr_version s)
              \<and> \<not> val_before_train then s
      else s\<lparr>tr_events := tr_events s @ [Validated (tr_version s)]\<rparr>)"

definition fit_save_checkpoint :: "tr_config \<Rightarrow> bool \<Rightarrow> bool \<Rightarrow> 'p trainer \<Rightarrow> 'p trainer" where
  "fit_save_checkpoint c esi force s =
     (if tr_version s = tr_last_ckpt s then s
      else if 0 < tc_save_freq c \<and> (force \<or> int (tr_version s) mod tc_save_freq c = 0 \<or> esi)
      then s\<lparr>tr_events := tr_events s @ [Saved (tr_version s) (tr_params s)], tr_last_ckpt := tr_version s\<rparr>
      else s)"

definition fit_step :: "tr_config \<Rightarrow> ('p \<Rightarrow> 'b \<Rightarrow> 'p) \<Rightarrow> bool \<Rightarrow> 'b \<Rightarrow> 'p trainer \<Rightarrow> 'p trainer" where
  "fit_step c upd esi b s =
     (let s1 = fit_compute_log_prob c s;
          s2 = s1\<lparr>tr_params := fit_update_actor c upd (tr_global_steps s1) b (tr_params s1)\<rparr>;
          s3 = fit_update_weights (fit_update_local_step c s2);
          s4 = fit_save_checkpoint c esi False (fit_validate c False s3)
      in s4\<lparr>tr_global_steps := tr_global_steps s4 + 1\<rparr>)"

text \<open>The loop of \<open>fit\<close> over the batches the queue delivers, each with the answer of
  \<open>should_save_ckpt_esi\<close> after it, and the end of training when the queue gives the end signal.\<close>

definition fit_loop :: "tr_config \<Rightarrow> ('p \<Rightarrow> 'b \<Rightarrow> 'p) \<Rightarrow> ('b \<times> bool) list \<Rightarrow> 'p trainer \<Rightarrow> 'p trainer" where
  "fit_loop c upd bs s =
     foldl (\<lambda>s (b, esi). fit_step c upd esi b s) (s\<lparr>tr_global_steps := tr_global_steps s + 1\<rparr>) bs"

definition fit_end :: "tr_config \<Rightarrow> bool \<Rightarrow> 'p trainer \<Rightarrow> 'p trainer result" where
  "fit_end c esi s =
     require (tc_test_freq c \<noteq> 0) ZeroDivisionError
       (let s1 = (if int (tr_version s) mod tc_test_freq c \<noteq> 0 \<or> 1 < tr_local s
                  then fit_validate c False (fit_update_weights s) else s)
        in Inr (fit_save_checkpoint c esi True s1))"

definition fit :: "tr_config \<Rightarrow> ('p \<Rightarrow> 'b \<Rightarrow> 'p) \<Rightarrow> ('b \<times> bool) list \<Rightarrow> bool \<Rightarrow> 'p trainer \<Rightarrow> 'p trainer result" where
  "fit c upd bs esi s = fit_end c esi (fit_loop c upd bs s)"

definition load_checkpoint :: "tr_config \<Rightarrow> nat \<Rightarrow> 'p \<Rightarrow> 'p trainer \<Rightarrow> 'p trainer" where
  "load_checkpoint c version params s =
     s\<lparr>tr_version := version, tr_global_steps := version * tc_trigger c + 1, tr_last_ckpt := version,
       tr_params := params\<rparr>"

section \<open>Lemmas\<close>

fun last_synced :: "'p tr_event list \<Rightarrow> 'p option" where
  "last_synced [] = None"
| "last_synced (Synced v p # es) = (case last_synced es of None \<Rightarrow> Some p | Some q \<Rightarrow> Some q)"
| "last_synced (e # es) = last_synced es"

lemma last_synced_append: "last_synced (es @ fs) =
    (case last_synced fs of None \<Rightarrow> last_synced es | Some q \<Rightarrow> Some q)"
  by (induction es rule: last_synced.induct) (auto split: option.splits)

text \<open>Every log-probability is computed with the parameters last synced to the rollouter.\<close>

fun on_policy :: "'p option \<Rightarrow> 'p tr_event list \<Rightarrow> bool" where
  "on_policy cur [] = True"
| "on_policy cur (Synced v p # es) = on_policy (Some p) es"
| "on_policy cur (LogProb p # es) = (cur = Some p \<and> on_policy cur es)"
| "on_policy cur (e # es) = on_policy cur es"

lemma on_policy_append: "on_policy cur (es @ fs) \<longleftrightarrow> on_policy cur es \<and>
    on_policy (case last_synced es of None \<Rightarrow> cur | Some q \<Rightarrow> Some q) fs"
  by (induction cur es rule: on_policy.induct) (auto split: option.splits)

definition is_synced :: "'p tr_event \<Rightarrow> bool" where
  "is_synced e = (case e of Synced v p \<Rightarrow> True | _ \<Rightarrow> False)"

definition trainer_inv :: "tr_config \<Rightarrow> 'p trainer \<Rightarrow> bool" where
  "trainer_inv c s \<longleftrightarrow>
     1 \<le> tr_local s \<and> tr_local s \<le> tc_trigger c \<and> on_policy None (tr_events s) \<and>
     last_synced (tr_events s) \<noteq> None \<and>
     (tr_local s = 1 \<longrightarrow> last_synced (tr_events s) = Some (tr_params s)) \<and>
     (tr_local s \<noteq> 1 \<and> \<not> tc_bypass c \<longrightarrow> tr_cpu s 1 = last_synced (tr_events s))"

lemmas model_copy_simps = save_model_to_cpu_def restore_model_from_cpu_def clear_cpu_model_def log_prob_def

lemma compute_old_log_prob_effect:
  assumes inv: "trainer_inv c s" and bypass: "\<not> tc_bypass c"
  shows "\<exists>cpu. compute_old_log_prob s = s\<lparr>tr_cpu := cpu,
      tr_events := tr_events s @ [LogProb (the (last_synced (tr_events s)))]\<rparr> \<and>
    cpu 1 = last_synced (tr_events s)"
proof (cases "tr_local s = 1")
  case True
  with inv show ?thesis
    by (auto simp: trainer_inv_def compute_old_log_prob_def model_copy_simps)
next
  case False
  with inv bypass obtain p where "last_synced (tr_events s) = Some p" "tr_cpu s (Suc 0) = Some p"
    by (auto simp: trainer_inv_def)
  with False show ?thesis
    by (intro exI [of _ "(tr_cpu s)(tr_local s := None)"] conjI trainer.equality)
      (simp_all add: compute_old_log_prob_def model_copy_simps)
qed

lemma fit_compute_log_prob_inv:
  assumes inv: "trainer_inv c s"
  shows "trainer_inv c (fit_compute_log_prob c s) \<and>
    tr_params (fit_compute_log_prob c s) = tr_params s \<and> tr_local (fit_compute_log_prob c s) = tr_local s \<and>
    tr_version (fit_compute_log_prob c s) = tr_version s \<and>
    tr_global_steps (fit_compute_log_prob c s) = tr_global_steps s \<and>
    tr_last_ckpt (fit_compute_log_prob c s) = tr_last_ckpt s \<and>
    last_synced (tr_events (fit_compute_log_prob c s)) = last_synced (tr_events s) \<and>
    (\<not> tc_bypass c \<longrightarrow> tr_cpu (fit_compute_log_prob c s) 1 = last_synced (tr_events s))"
proof (cases "tc_bypass c")
  case True
  with inv show ?thesis by (simp add: fit_compute_log_prob_def)
next
  case False
  obtain cpu where e: "compute_old_log_prob s = s\<lparr>tr_cpu := cpu,
      tr_events := tr_events s @ [LogProb (the (last_synced (tr_events s)))]\<rparr>"
    and cpu: "cpu 1 = last_synced (tr_events s)"
    using compute_old_log_prob_effect [OF inv False] by blast
  from inv obtain p where p: "last_synced (tr_events s) = Some p" by (auto simp: trainer_inv_def)
  show ?thesis using inv cpu p False
    by (simp add: fit_compute_log_prob_def e trainer_inv_def last_synced_append on_policy_append)
qed

text \<open>The steps after the update leave the parameters alone and add no log-probability.\<close>

lemma validate_frame:
  "tr_params (fit_validate c b s) = tr_params s" "tr_local (fit_validate c b s) = tr_local s"
  "tr_version (fit_validate c b s) = tr_version s" "tr_cpu (fit_validate c b s) = tr_cpu s"
  "last_synced (tr_events (fit_validate c b s)) = last_synced (tr_events s)"
  "on_policy None (tr_events (fit_validate c b s)) = on_policy None (tr_events s)"
  "tr_global_steps (fit_validate c b s) = tr_global_steps s"
  "tr_last_ckpt (fit_validate c b s) = tr_last_ckpt s"
  by (auto simp: fit_validate_def last_synced_append on_policy_append)

lemma save_frame:
  "tr_params (fit_save_checkpoint c e f s) = tr_params s" "tr_local (fit_save_checkpoint c e f s) = tr_local s"
  "tr_version (fit_save_checkpoint c e f s) = tr_version s" "tr_cpu (fit_save_checkpoint c e f s) = tr_cpu s"
  "last_synced (tr_events (fit_save_checkpoint c e f s)) = last_synced (tr_events s)"
  "on_policy None (tr_events (fit_save_checkpoint c e f s)) = on_policy None (tr_events s)"
  "tr_global_steps (fit_save_checkpoint c e f s) = tr_global_steps s"
  by (auto simp: fit_save_checkpoint_def last_synced_append on_policy_append)

lemma update_frame:
  "tr_params (fit_update_weights s) = tr_params s" "tr_local (fit_update_weights s) = tr_local s"
  "tr_version (fit_update_weights s) = tr_version s" "tr_cpu (fit_update_weights s) = tr_cpu s"
  "on_policy None (tr_events (fit_update_weights s)) = on_policy None (tr_events s)"
  "tr_global_steps (fit_update_weights s) = tr_global_steps s"
  "tr_last_ckpt (fit_update_weights s) = tr_last_ckpt s"
  "last_synced (tr_events (fit_update_weights s)) =
     (if tr_local s = 1 then Some (tr_params s) else last_synced (tr_events s))"
  by (auto simp: fit_update_weights_def last_synced_append on_policy_append)

lemmas step_frames = validate_frame save_frame update_frame

lemma fit_step_effect:
  assumes inv: "trainer_inv c s"
  shows "trainer_inv c (fit_step c upd esi b s) \<and>
    tr_params (fit_step c upd esi b s) = fit_update_actor c upd (tr_global_steps s) b (tr_params s) \<and>
    tr_global_steps (fit_step c upd esi b s) = tr_global_steps s + 1 \<and>
    tr_local (fit_step c upd esi b s) = (if tr_local s < tc_trigger c then tr_local s + 1 else 1) \<and>
    tr_version (fit_step c upd esi b s) = tr_version s + (if tr_local s < tc_trigger c then 0 else 1) \<and>
    last_synced (tr_events (fit_step c upd esi b s)) =
      (if tr_local s < tc_trigger c then last_synced (tr_events s)
       else Some (fit_update_actor c upd (tr_global_steps s) b (tr_params s)))"
  using fit_compute_log_prob_inv [OF inv] inv
  by (auto simp: fit_step_def Let_def step_frames fit_update_local_step_def trainer_inv_def)

text \<open>The parameters after steps with these batches, the first of them at global step \<open>n\<close>.\<close>

definition trained :: "tr_config \<Rightarrow> ('p \<Rightarrow> 'b \<Rightarrow> 'p) \<Rightarrow> nat \<Rightarrow> 'p \<Rightarrow> ('b \<times> bool) list \<Rightarrow> 'p" where
  "trained c upd n p bs = foldl (\<lambda>p (k, b). fit_update_actor c upd k b p) p (enumerate n (map fst bs))"

lemma trained_Nil [simp]: "trained c upd n p [] = p"
  by (simp add: trained_def)

lemma trained_snoc [simp]: "trained c upd n p (bs @ [x]) = fit_update_actor c upd (n + length bs) (fst x) (trained c upd n p bs)"
  by (simp add: trained_def enumerate_append_eq)

lemma trained_warm: "tc_critic_warmup c \<le> n \<Longrightarrow> trained c upd n p bs = foldl upd p (map fst bs)"
  by (induction bs rule: rev_induct) (simp_all add: fit_update_actor_def)

text \<open>The state after training on the batches \<open>bs\<close> from a state that has just been synced.\<close>

definition trainer_ready :: "tr_config \<Rightarrow> 'p trainer \<Rightarrow> bool" where
  "trainer_ready c s \<longleftrightarrow> trainer_inv c s \<and> tr_local s = 1"

lemma fit_loop_effect:
  assumes ready: "trainer_ready c s" and T: "0 < tc_trigger c"
  shows "trainer_inv c (fit_loop c upd bs s) \<and>
    tr_params (fit_loop c upd bs s) = trained c upd (tr_global_steps s + 1) (tr_params s) bs \<and>
    tr_global_steps (fit_loop c upd bs s) = tr_global_steps s + 1 + length bs \<and>
    tr_local (fit_loop c upd bs s) = length bs mod tc_trigger c + 1 \<and>
    tr_version (fit_loop c upd bs s) = tr_version s + length bs div tc_trigger c \<and>
    last_synced (tr_events (fit_loop c upd bs s)) =
      Some (trained c upd (tr_global_steps s + 1) (tr_params s) (take (tc_trigger c * (length bs div tc_trigger c)) bs))"
proof (induction bs rule: rev_induct)
  case Nil
  show ?case using ready by (simp add: fit_loop_def trainer_ready_def trainer_inv_def)
next
  case (snoc x bs)
  let ?T = "tc_trigger c" and ?n = "length bs"
  obtain b e where x: "x = (b, e)" by (cases x)
  have step: "fit_loop c upd (bs @ [(b, e)]) s = fit_step c upd e b (fit_loop c upd bs s)"
    by (simp add: fit_loop_def)
  from snoc have inv: "trainer_inv c (fit_loop c upd bs s)" by blast
  show ?case
  proof (cases "?n mod ?T + 1 < ?T")
    case True
    then have "Suc ?n mod ?T = Suc (?n mod ?T)" "Suc ?n div ?T = ?n div ?T"
      by (simp_all add: mod_Suc div_Suc)
    moreover have "?T * (?n div ?T) \<le> ?n" by simp
    ultimately show ?thesis using snoc fit_step_effect [OF inv, of upd e b] True by (simp add: x step)
  next
    case False
    then have eq: "Suc (?n mod ?T) = ?T" using T mod_less_divisor [of ?T ?n] by linarith
    then have d: "Suc ?n mod ?T = 0" "Suc ?n div ?T = Suc (?n div ?T)"
      by (simp_all add: mod_Suc div_Suc)
    have "?T * (Suc ?n div ?T) = Suc ?n" using d(1) by (simp add: minus_mod_eq_mult_div [symmetric])
    then have "?T * Suc (?n div ?T) = Suc ?n" using d(2) by simp
    then show ?thesis using snoc fit_step_effect [OF inv, of upd e b] False d by (simp add: x step)
  qed
qed

lemma initial_sync_ready: "0 < tc_trigger c \<Longrightarrow> trainer_ready c (fit_update_weights (trainer_init p))"
  by (simp add: trainer_ready_def trainer_inv_def fit_update_weights_def trainer_init_def)

lemma resume_ready: "0 < tc_trigger c \<Longrightarrow>
    trainer_ready c (fit_update_weights (load_checkpoint c v p (trainer_init q)))"
  by (simp add: trainer_ready_def trainer_inv_def fit_update_weights_def trainer_init_def load_checkpoint_def)

text \<open>The samples the queue delivers before the first end signal.\<close>

fun delivered :: "'a option get_outcome list \<Rightarrow> 'a list" where
  "delivered [] = []"
| "delivered (Sample (Some x) n # os) = x # delivered os"
| "delivered (Blocked # os) = delivered os"
| "delivered (_ # os) = []"

lemma collect_simps:
  "collect required acc [] = (if required \<le> length acc then Some (Inr acc) else None)"
  "collect required acc (Blocked # os) =
     (if required \<le> length acc then Some (Inr acc) else collect required acc os)"
  "collect required acc (Sample None n # os) = Some (Inr acc)"
  "collect required acc (Sample (Some x) n # os) =
     (if required \<le> length acc then Some (Inr acc) else collect required (acc @ [x]) os)"
  by (subst collect.simps, simp)+

lemma collect_delivered:
  assumes "Closed \<notin> set outs"
  shows "collect required acc outs =
    (if required \<le> length acc then Some (Inr acc)
     else if required \<le> length (acc @ delivered outs)
     then Some (Inr (acc @ take (required - length acc) (delivered outs)))
     else if \<exists>n. Sample None n \<in> set outs then Some (Inr (acc @ delivered outs)) else None)"
  using assms
proof (induction outs arbitrary: acc)
  case Nil
  then show ?case by (simp add: collect_simps)
next
  case (Cons out outs)
  then have IH: "collect required a outs =
    (if required \<le> length a then Some (Inr a)
     else if required \<le> length (a @ delivered outs)
     then Some (Inr (a @ take (required - length a) (delivered outs)))
     else if \<exists>n. Sample None n \<in> set outs then Some (Inr (a @ delivered outs)) else None)" for a
    by auto
  show ?case
  proof (cases out)
    case (Sample v n)
    show ?thesis
    proof (cases v)
      case None
      then show ?thesis by (auto simp: Sample collect_simps)
    next
      case (Some x)
      have "required - length acc = Suc (required - Suc (length acc))" if "\<not> required \<le> length acc"
        using that by simp
      then show ?thesis using IH [of "acc @ [x]"] by (auto simp: Sample Some collect_simps)
    qed
  next
    case Blocked
    then show ?thesis using IH [of acc] by (auto simp: collect_simps)
  qed (use Cons.prems in simp)
qed

section \<open>Properties\<close>

text \<open>The trainer gets a full batch or none: while the queue is open, \<open>_get_samples_from_queue\<close>
  returns the first \<open>required_samples\<close> samples the queue delivers, in order; if the end signal comes
  before, it returns nothing, whatever it had collected; otherwise it keeps waiting.\<close>

theorem get_samples_all_or_none:
  assumes "Closed \<notin> set outs" and "0 < required"
  shows "get_samples_from_queue required outs =
    (if required \<le> length (delivered outs) then Some (Inr (Some (take required (delivered outs))))
     else if \<exists>n. Sample None n \<in> set outs then Some (Inr None) else None)"
  using assms by (auto simp: get_samples_from_queue_def collect_delivered)

theorem get_samples_all_or_none_witness:
  "get_samples_from_queue 2 [Sample (Some ''a'') 1, Blocked, Sample None 0] = Some (Inr None)"
  by (subst get_samples_all_or_none) auto

text \<open>C14 Old log-probabilities are those of the rollout policy: from a freshly synced trainer, for any
  number of steps, every old log-probability is computed with exactly the parameters last synced to
  the rollouter, although the optimiser has moved on within the round, and computing it leaves the
  current parameters as they were: after the run they are the successive updates of the batches, those of the
  steps before \<open>critic_warmup\<close> left out. The parameter version counts the full rounds.\<close>

theorem trainer_log_probs_on_policy:
  assumes "trainer_ready c s" and "0 < tc_trigger c"
  shows "on_policy None (tr_events (fit_loop c upd bs s)) \<and>
    tr_params (fit_loop c upd bs s) = trained c upd (tr_global_steps s + 1) (tr_params s) bs \<and>
    (tc_critic_warmup c \<le> tr_global_steps s + 1 \<longrightarrow> tr_params (fit_loop c upd bs s) = foldl upd (tr_params s) (map fst bs)) \<and>
    tr_version (fit_loop c upd bs s) = tr_version s + length bs div tc_trigger c \<and>
    tr_local (fit_loop c upd bs s) = length bs mod tc_trigger c + 1"
  using fit_loop_effect [OF assms, of upd bs] by (simp add: trainer_inv_def trained_warm)

definition example_trainer_config :: tr_config where
  "example_trainer_config = \<lparr>tc_trigger = 2, tc_test_freq = 1, tc_save_freq = 1, tc_bypass = False, tc_critic_warmup = 0\<rparr>"

lemma example_ready:
  "0 < tc_trigger example_trainer_config"
  "trainer_ready example_trainer_config (fit_update_weights (trainer_init p))"
  by (simp_all add: example_trainer_config_def initial_sync_ready)

theorem trainer_log_probs_on_policy_witness:
  "on_policy None (tr_events (fit_loop example_trainer_config (+) [(1, False), (2, False), (4, False)]
     (fit_update_weights (trainer_init (0 :: int)))))"
  using trainer_log_probs_on_policy [OF example_ready(2,1),
      where upd = "(+)" and bs = "[(1 :: int, False), (2, False), (4, False)]"] by blast

text \<open>The steps of an unfinished round are never synced: when training ends, the parameters last
  synced to the rollouter are those after the last full round, although \<open>fit\<close> asks for a final sync
  when \<open>local_trigger_step\<close> is above 1: \<open>_fit_update_weights\<close> returns at once there.\<close>

theorem trainer_partial_round_not_synced:
  assumes "trainer_ready c s" and "0 < tc_trigger c" and "fit c upd bs esi s = Inr t"
  shows "tr_params t = trained c upd (tr_global_steps s + 1) (tr_params s) bs \<and>
    last_synced (tr_events t) =
      Some (trained c upd (tr_global_steps s + 1) (tr_params s) (take (tc_trigger c * (length bs div tc_trigger c)) bs))"
proof -
  note e = fit_loop_effect [OF assms(1,2), of upd bs]
  have "tr_params t = tr_params (fit_loop c upd bs s) \<and>
      last_synced (tr_events t) = last_synced (tr_events (fit_loop c upd bs s))"
    using assms(3) e
    by (auto simp: fit_def fit_end_def require_Inr Let_def step_frames trainer_inv_def split: if_splits)
  with e show ?thesis by simp
qed

lemma example_fit: "\<exists>t. fit example_trainer_config (+) [(1, False), (2, False), (4, False)] False
    (fit_update_weights (trainer_init (0 :: int))) = Inr t"
  by (simp add: fit_def fit_end_def example_trainer_config_def)

theorem trainer_partial_round_not_synced_witness:
  "\<exists>t. fit example_trainer_config (+) [(1, False), (2, False), (4, False)] False
      (fit_update_weights (trainer_init (0 :: int))) = Inr t \<and>
    tr_params t = 7 \<and> last_synced (tr_events t) = Some 3"
proof -
  obtain t where t: "fit example_trainer_config (+) [(1, False), (2, False), (4, False)] False
      (fit_update_weights (trainer_init (0 :: int))) = Inr t"
    using example_fit by blast
  from trainer_partial_round_not_synced [OF example_ready(2,1) t] t show ?thesis
    by (simp add: example_trainer_config_def fit_update_weights_def trainer_init_def trained_warm)
qed

text \<open>The end of training saves the last version or raises: with a positive \<open>save_freq\<close>, \<open>fit\<close> ends
  with the last parameter version checkpointed, unless \<open>test_freq\<close> is 0; then it raises
  ZeroDivisionError after the last step instead of skipping validation, and the forced checkpoint is
  not written.\<close>

theorem trainer_fit_end:
  assumes "0 < tc_save_freq c"
  shows "case fit c upd bs esi s of
      Inl e \<Rightarrow> tc_test_freq c = 0 \<and> e = ZeroDivisionError
    | Inr t \<Rightarrow> tc_test_freq c \<noteq> 0 \<and> tr_last_ckpt t = tr_version t"
proof (cases "tc_test_freq c = 0")
  case False
  with assms show ?thesis by (simp add: fit_def fit_end_def Let_def fit_save_checkpoint_def)
qed (simp add: fit_def fit_end_def)

theorem trainer_fit_end_witness:
  "case fit example_trainer_config (+) [(1, False)] False (trainer_init (0 :: int)) of
      Inl e \<Rightarrow> tc_test_freq example_trainer_config = 0 \<and> e = ZeroDivisionError
    | Inr t \<Rightarrow> tc_test_freq example_trainer_config \<noteq> 0 \<and> tr_last_ckpt t = tr_version t"
  by (rule trainer_fit_end) (simp add: example_trainer_config_def)

text \<open>A resumed run is one global step ahead: an uninterrupted run that has just finished version
  \<open>v\<close> starts its next step with \<open>global_steps\<close> equal to \<open>v * trigger + 1\<close>; a run resumed from the
  checkpoint of version \<open>v\<close> starts it with \<open>v * trigger + 2\<close>, because \<open>load_checkpoint\<close> already sets
  the next step and \<open>fit\<close> increments it again.\<close>

theorem trainer_resume_skips_step:
  assumes "0 < tc_trigger c" and "length bs = v * tc_trigger c"
  shows "tr_global_steps (fit_loop c upd bs (fit_update_weights (trainer_init p))) = v * tc_trigger c + 1 \<and>
    tr_version (fit_loop c upd bs (fit_update_weights (trainer_init p))) = v \<and>
    tr_global_steps (fit_loop c upd [] (fit_update_weights (load_checkpoint c v q (trainer_init p)))) =
      v * tc_trigger c + 2"
  using fit_loop_effect [OF initial_sync_ready [OF assms(1), of p] assms(1), of upd bs]
    fit_loop_effect [OF resume_ready [OF assms(1), of v q p] assms(1), of upd "[]"]
    assms
  by (simp add: fit_update_weights_def trainer_init_def load_checkpoint_def)

theorem trainer_resume_skips_step_witness:
  "tr_global_steps (fit_loop example_trainer_config (+) []
     (fit_update_weights (load_checkpoint example_trainer_config 1 (5 :: int) (trainer_init 0)))) = 4"
  using trainer_resume_skips_step [of example_trainer_config "[(1, False), (2, False)]" 1 "(+)" "0 :: int" 5]
  by (simp add: example_trainer_config_def)

end
