(* ===== verification/LoadBalancer.thy ===== *)
theory LoadBalancer
  imports Prelude
begin

text \<open>
  The global request load balancer and the manager of its servers
  (\<^verbatim>\<open>verl/workers/rollout/llm_server.py\<close> and \<open>FullyAsyncLLMServerManager\<close> of
  \<^verbatim>\<open>verl/experimental/fully_async_policy/fully_async_rollouter.py\<close>). The routing cache is a
  \<open>cachetools.LRUCache\<close>, which is not part of the repository: its operations are the parameter
  \<open>cache_ops\<close>, its documented behaviour the locale \<open>lru_cache\<close>, interpreted on a list of entries,
  most recently used first.
\<close>

section \<open>The routing cache\<close>

record ('c, 'r, 's) cache_ops =
  c_get :: "'c \<Rightarrow> 'r \<Rightarrow> 's option"
  c_touch :: "'c \<Rightarrow> 'r \<Rightarrow> 'c"
  c_put :: "'c \<Rightarrow> 'r \<Rightarrow> 's \<Rightarrow> 'c"
  c_del :: "'c \<Rightarrow> 'r \<Rightarrow> 'c"

locale lru_cache =
  fixes C :: "('c, 'r, 's) cache_ops" and recency :: "'c \<Rightarrow> 'r list" and maxsize :: nat
  assumes maxsize_pos: "0 < maxsize"
    and get_recency: "c_get C c r \<noteq> None \<longleftrightarrow> r \<in> set (recency c)"
    and touch_get: "c_get C (c_touch C c r) = c_get C c"
    and touch_recency: "r \<in> set (recency c) \<Longrightarrow> recency (c_touch C c r) = r # removeAll r (recency c)"
    and put_recency: "recency (c_put C c r s) = take maxsize (r # removeAll r (recency c))"
    and put_get: "c_get C (c_put C c r s) r = Some s"
    and put_get_other: "r' \<noteq> r \<Longrightarrow> r' \<in> set (recency (c_put C c r s)) \<Longrightarrow>
      c_get C (c_put C c r s) r' = c_get C c r'"
    and del_recency: "recency (c_del C c r) = removeAll r (recency c)"
    and del_get: "r' \<noteq> r \<Longrightarrow> c_get C (c_del C c r) r' = c_get C c r'"

definition list_cache :: "nat \<Rightarrow> (('r \<times> 's) list, 'r, 's) cache_ops" where
  "list_cache n = \<lparr>c_get = map_of,
     c_touch = (\<lambda>c r. case map_of c r of None \<Rightarrow> c | Some s \<Rightarrow> (r, s) # dict_del r c),
     c_put = (\<lambda>c r s. take n ((r, s) # dict_del r c)),
     c_del = (\<lambda>c r. dict_del r c)\<rparr>"

lemma map_of_take: "k \<in> set (map fst (take n xs)) \<Longrightarrow> map_of (take n xs) k = map_of xs k"
proof (induction xs arbitrary: n)
  case (Cons x xs)
  then show ?case by (cases n; cases x) auto
qed simp

interpretation list_lru: lru_cache "list_cache (Suc n)" "map fst" "Suc n"
proof unfold_locales
  fix c :: "('a \<times> 'b) list" and r r' :: 'a and s :: 'b
  show "r \<in> set (map fst c) \<Longrightarrow> map fst (c_touch (list_cache (Suc n)) c r) = r # removeAll r (map fst c)"
    using keys_dict_del [of r c]
    by (auto simp: list_cache_def dict_keys_def map_of_eq_None_iff split: option.splits)
  show "map fst (c_put (list_cache (Suc n)) c r s) = take (Suc n) (r # removeAll r (map fst c))"
    using keys_dict_del [of r c] by (simp add: list_cache_def dict_keys_def flip: take_map)
  show "r' \<noteq> r \<Longrightarrow> r' \<in> set (map fst (c_put (list_cache (Suc n)) c r s)) \<Longrightarrow>
      c_get (list_cache (Suc n)) (c_put (list_cache (Suc n)) c r s) r' = c_get (list_cache (Suc n)) c r'"
    using map_of_take [of r' "Suc n" "(r, s) # dict_del r c"] by (simp add: list_cache_def)
  show "c_get (list_cache (Suc n)) (c_touch (list_cache (Suc n)) c r) = c_get (list_cache (Suc n)) c"
    by (auto simp: list_cache_def split: option.splits)
  show "map fst (c_del (list_cache (Suc n)) c r) = removeAll r (map fst c)"
    using keys_dict_del [of r c] by (simp add: list_cache_def dict_keys_def)
qed (auto simp: list_cache_def map_of_eq_None_iff)

section \<open>State and operations\<close>

record ('c, 's, 'h) balancer =
  lb_servers :: "('s, 'h) dict"
  lb_inflight :: "('s, nat) dict"
  lb_cache :: 'c

definition lb_init :: "'c \<Rightarrow> ('s, 'h) dict \<Rightarrow> ('c, 's, 'h) balancer result" where
  "lb_init empty_cache servers = require (servers \<noteq> []) ValueError
     (Inr \<lparr>lb_servers = servers, lb_inflight = map (\<lambda>(sid, h). (sid, 0)) servers, lb_cache = empty_cache\<rparr>)"

text \<open>\<open>min(d, key=d.get)\<close>: the first key, in insertion order, with the smallest value.\<close>

fun least_loaded :: "('s, nat) dict \<Rightarrow> 's \<Rightarrow> nat \<Rightarrow> 's" where
  "least_loaded [] best n = best"
| "least_loaded ((k, v) # d) best n = (if v < n then least_loaded d k v else least_loaded d best n)"

definition bump :: "'s \<Rightarrow> ('s, nat) dict \<Rightarrow> ('s, nat) dict" where
  "bump sid d = dict_set sid (case map_of d sid of None \<Rightarrow> 1 | Some n \<Rightarrow> n + 1) d"

text \<open>An acquire that raises keeps the state changes made before: the result is the error or the server,
  and the state.\<close>

definition grant :: "'s \<Rightarrow> ('c, 's, 'h) balancer \<Rightarrow> ('s \<times> 'h) result \<times> ('c, 's, 'h) balancer" where
  "grant sid s = (bind_r (dict_item (lb_servers s) sid) (\<lambda>h. Inr (sid, h)),
     s\<lparr>lb_inflight := bump sid (lb_inflight s)\<rparr>)"

definition select_server ::
  "('c, 'r, 's) cache_ops \<Rightarrow> 'r \<Rightarrow> ('c, 's, 'h) balancer \<Rightarrow> ('s \<times> 'h) result \<times> ('c, 's, 'h) balancer" where
  "select_server C r s =
     (case lb_inflight s of
        [] \<Rightarrow> (Inl RuntimeError, s)
      | (k, v) # d \<Rightarrow>
          (let sid = least_loaded d k v in grant sid (s\<lparr>lb_cache := c_put C (lb_cache s) r sid\<rparr>)))"

definition acquire_server ::
  "('c, 'r, 's) cache_ops \<Rightarrow> 'r \<Rightarrow> ('c, 's, 'h) balancer \<Rightarrow> ('s \<times> 'h) result \<times> ('c, 's, 'h) balancer" where
  "acquire_server C r s =
     (case c_get C (lb_cache s) r of
        Some sid \<Rightarrow>
          (let s' = s\<lparr>lb_cache := c_touch C (lb_cache s) r\<rparr> in
           if sid \<in> set (dict_keys (lb_inflight s')) then grant sid s'
           else select_server C r (s'\<lparr>lb_cache := c_del C (lb_cache s') r\<rparr>))
      | None \<Rightarrow> select_server C r s)"

definition release_server :: "'s \<Rightarrow> ('c, 's, 'h) balancer \<Rightarrow> ('c, 's, 'h) balancer" where
  "release_server sid s =
     (case map_of (lb_inflight s) sid of
        None \<Rightarrow> s
      | Some n \<Rightarrow> if 0 < n then s\<lparr>lb_inflight := dict_set sid (n - 1) (lb_inflight s)\<rparr> else s)"

definition add_server :: "'s \<times> 'h \<Rightarrow> ('c, 's, 'h) balancer \<Rightarrow> ('c, 's, 'h) balancer" where
  "add_server kv s = s\<lparr>lb_inflight := dict_set (fst kv) 0 (lb_inflight s),
     lb_servers := dict_set (fst kv) (snd kv) (lb_servers s)\<rparr>"

definition add_servers :: "('s, 'h) dict \<Rightarrow> ('c, 's, 'h) balancer \<Rightarrow> ('c, 's, 'h) balancer" where
  "add_servers servers s = fold add_server servers s"

definition remove_server :: "'s \<Rightarrow> ('c, 's, 'h) balancer \<Rightarrow> ('c, 's, 'h) balancer" where
  "remove_server sid s = s\<lparr>lb_inflight := dict_del sid (lb_inflight s),
     lb_servers := dict_del sid (lb_servers s)\<rparr>"

definition remove_servers :: "'s list \<Rightarrow> ('c, 's, 'h) balancer \<Rightarrow> ('c, 's, 'h) balancer" where
  "remove_servers sids s = fold remove_server sids s"

definition get_inflight_count :: "('c, 's, 'h) balancer \<Rightarrow> 's \<Rightarrow> nat" where
  "get_inflight_count s sid = (case map_of (lb_inflight s) sid of None \<Rightarrow> 0 | Some n \<Rightarrow> n)"

definition get_all_servers :: "('c, 's, 'h) balancer \<Rightarrow> 's list" where
  "get_all_servers s = dict_keys (lb_inflight s)"

record ('s) lb_status =
  st_servers :: "('s, nat) dict"
  st_total_inflight :: nat
  st_active_servers :: nat
  st_registered_handles :: "'s list"

definition get_status :: "('c, 's, 'h) balancer \<Rightarrow> 's lb_status" where
  "get_status s = \<lparr>st_servers = lb_inflight s, st_total_inflight = sum_list (map snd (lb_inflight s)),
     st_active_servers = length (lb_inflight s), st_registered_handles = dict_keys (lb_servers s)\<rparr>"

section \<open>Operations and the registry\<close>

definition lb_wf :: "('c, 's, 'h) balancer \<Rightarrow> bool" where
  "lb_wf s \<longleftrightarrow> dict_keys (lb_inflight s) = dict_keys (lb_servers s) \<and> distinct (dict_keys (lb_servers s))"

lemma least_loaded_min:
  "(least_loaded d k v = k \<or> least_loaded d k v \<in> set (dict_keys d)) \<and>
   (distinct (dict_keys ((k, v) # d)) \<longrightarrow>
     (\<forall>n. map_of ((k, v) # d) (least_loaded d k v) = Some n \<longrightarrow> (\<forall>(k', m) \<in> set ((k, v) # d). n \<le> m)))"
proof (induction d arbitrary: k v)
  case Nil
  then show ?case by simp
next
  case (Cons x d)
  obtain k' v' where x: "x = (k', v')" by (cases x)
  show ?case
  proof (cases "v' < v")
    case True
    then show ?thesis using Cons [of k' v'] by (auto simp: x dict_keys_def split: if_splits)
  next
    case False
    then show ?thesis using Cons [of k v] by (fastforce simp: x dict_keys_def split: if_splits)
  qed
qed


definition load :: "('c, 's, 'h) balancer \<Rightarrow> 's \<Rightarrow> nat option" where
  "load s sid = map_of (lb_inflight s) sid"

lemma load_keys: "sid \<in> set (dict_keys (lb_inflight s)) \<longleftrightarrow> load s sid \<noteq> None"
  by (simp add: load_def keys_map_of)

lemma keys_bump: "sid \<in> set (dict_keys d) \<Longrightarrow> dict_keys (bump sid d) = dict_keys d"
  by (simp add: bump_def keys_dict_set)

lemma lb_wf_registered: "lb_wf s \<Longrightarrow> load s sid \<noteq> None \<longleftrightarrow> map_of (lb_servers s) sid \<noteq> None"
  by (metis keys_map_of lb_wf_def load_keys)

lemma grant_registered:
  assumes "lb_wf s" "load s sid = Some n"
  shows "\<exists>h. grant sid s = (Inr (sid, h), s\<lparr>lb_inflight := dict_set sid (n + 1) (lb_inflight s)\<rparr>) \<and>
    map_of (lb_servers s) sid = Some h"
proof -
  from lb_wf_registered [OF assms(1), of sid] assms(2)
  obtain h where h: "map_of (lb_servers s) sid = Some h" by auto
  from assms(2) have "bump sid (lb_inflight s) = dict_set sid (n + 1) (lb_inflight s)"
    by (simp add: bump_def load_def)
  with h show ?thesis by (simp add: grant_def dict_item_def)
qed

lemma lb_wf_frame [simp]: "lb_wf (s\<lparr>lb_cache := c\<rparr>) = lb_wf s" "load (s\<lparr>lb_cache := c\<rparr>) = load s"
  by (simp_all add: lb_wf_def load_def fun_eq_iff)

lemma lb_wf_set: "lb_wf s \<Longrightarrow> load s sid \<noteq> None \<Longrightarrow> lb_wf (s\<lparr>lb_inflight := dict_set sid n (lb_inflight s)\<rparr>)"
  using load_keys [of sid s] by (auto simp: lb_wf_def keys_dict_set)

lemma lb_wf_add: "lb_wf s \<Longrightarrow> lb_wf (add_servers d s)"
proof (induction d arbitrary: s)
  case (Cons kv d)
  from Cons.prems have "lb_wf (add_server kv s)"
    by (auto simp: lb_wf_def add_server_def keys_dict_set)
  then show ?case using Cons.IH by (simp add: add_servers_def)
qed (simp add: add_servers_def)

lemma lb_wf_remove: "lb_wf s \<Longrightarrow> lb_wf (remove_servers sids s)"
proof (induction sids arbitrary: s)
  case (Cons sid sids)
  from Cons.prems have "lb_wf (remove_server sid s)"
    by (simp add: lb_wf_def remove_server_def keys_dict_del distinct_removeAll)
  then show ?case using Cons.IH by (simp add: remove_servers_def)
qed (simp add: remove_servers_def)

lemma lb_wf_release: "lb_wf s \<Longrightarrow> lb_wf (release_server sid s)"
  using lb_wf_set [of s sid] by (auto simp: release_server_def load_def split: option.splits)

lemma load_release: "load (release_server sid s) x = (if x = sid then map_option (\<lambda>n. n - 1) (load s x) else load s x)"
  by (auto simp: release_server_def load_def split: option.splits)

lemma load_add: "load (add_servers d s) x = (if x \<in> set (map fst d) then Some 0 else load s x)"
  by (induction d arbitrary: s) (auto simp: add_servers_def add_server_def load_def)

lemma load_remove: "load (remove_servers sids s) x = (if x \<in> set sids then None else load s x)"
  by (induction sids arbitrary: s) (auto simp: remove_servers_def remove_server_def load_def)

section \<open>Acquiring\<close>

lemma select_cases:
  assumes wf: "lb_wf s" and ne: "lb_inflight s \<noteq> []"
  obtains sid n h where "select_server C r s = (Inr (sid, h),
      s\<lparr>lb_cache := c_put C (lb_cache s) r sid, lb_inflight := dict_set sid (n + 1) (lb_inflight s)\<rparr>)"
    and "load s sid = Some n" and "map_of (lb_servers s) sid = Some h"
    and "\<And>x m. load s x = Some m \<Longrightarrow> n \<le> m"
proof -
  from ne obtain k v d where d: "lb_inflight s = (k, v) # d" by (cases "lb_inflight s") auto
  let ?sid = "least_loaded d k v"
  have dist: "distinct (dict_keys ((k, v) # d))" using wf by (simp add: lb_wf_def flip: d)
  have "?sid \<in> set (dict_keys (lb_inflight s))"
    using least_loaded_min [of d k v] d by (auto simp: dict_keys_def)
  then obtain n where n: "load s ?sid = Some n" using load_keys by fastforce
  have min: "n \<le> m" if "load s x = Some m" for x m
  proof -
    have "(x, m) \<in> set ((k, v) # d)" using that by (intro map_of_SomeD) (simp add: load_def d)
    moreover have "map_of ((k, v) # d) ?sid = Some n" using n by (simp add: load_def d)
    ultimately show ?thesis using least_loaded_min [of d k v] dist by blast
  qed
  obtain h where "grant ?sid (s\<lparr>lb_cache := c_put C (lb_cache s) r ?sid\<rparr>) = (Inr (?sid, h),
      s\<lparr>lb_cache := c_put C (lb_cache s) r ?sid, lb_inflight := dict_set ?sid (n + 1) (lb_inflight s)\<rparr>)"
    and "map_of (lb_servers s) ?sid = Some h"
    using grant_registered [of "s\<lparr>lb_cache := c_put C (lb_cache s) r ?sid\<rparr>" ?sid n] wf n by auto
  moreover have "select_server C r s = grant ?sid (s\<lparr>lb_cache := c_put C (lb_cache s) r ?sid\<rparr>)"
    by (simp only: select_server_def d list.case prod.case Let_def)
  ultimately show thesis using that [of ?sid h n] n min by metis
qed

lemma acquire_cases:
  assumes wf: "lb_wf s" and ne: "lb_inflight s \<noteq> []"
  obtains
    (Sticky) sid n h where "acquire_server C r s = (Inr (sid, h),
      s\<lparr>lb_cache := c_touch C (lb_cache s) r, lb_inflight := dict_set sid (n + 1) (lb_inflight s)\<rparr>)"
      "c_get C (lb_cache s) r = Some sid" "load s sid = Some n" "map_of (lb_servers s) sid = Some h"
  | (Fresh) sid n h c where "acquire_server C r s = (Inr (sid, h),
      s\<lparr>lb_cache := c_put C c r sid, lb_inflight := dict_set sid (n + 1) (lb_inflight s)\<rparr>)"
      "c = (if c_get C (lb_cache s) r = None then lb_cache s else c_del C (c_touch C (lb_cache s) r) r)"
      "\<And>sid'. c_get C (lb_cache s) r = Some sid' \<Longrightarrow> load s sid' = None"
      "load s sid = Some n" "map_of (lb_servers s) sid = Some h" "\<And>x m. load s x = Some m \<Longrightarrow> n \<le> m"
proof (cases "c_get C (lb_cache s) r")
  case None
  obtain sid n h where "select_server C r s = (Inr (sid, h),
      s\<lparr>lb_cache := c_put C (lb_cache s) r sid, lb_inflight := dict_set sid (n + 1) (lb_inflight s)\<rparr>)"
    and "load s sid = Some n" and "map_of (lb_servers s) sid = Some h"
    and "\<And>x m. load s x = Some m \<Longrightarrow> n \<le> m"
    by (rule select_cases [OF wf ne, of C r]) blast
  with None show thesis by (intro Fresh) (simp_all add: acquire_server_def)
next
  case (Some sid)
  show thesis
  proof (cases "load s sid")
    case None
    let ?s = "s\<lparr>lb_cache := c_del C (c_touch C (lb_cache s) r) r\<rparr>"
    have "lb_wf ?s" "lb_inflight ?s \<noteq> []" using wf ne by simp_all
    then obtain x n h where "select_server C r ?s = (Inr (x, h),
        ?s\<lparr>lb_cache := c_put C (lb_cache ?s) r x, lb_inflight := dict_set x (n + 1) (lb_inflight ?s)\<rparr>)"
      and "load ?s x = Some n" and "map_of (lb_servers ?s) x = Some h"
      and "\<And>y m. load ?s y = Some m \<Longrightarrow> n \<le> m"
      by (rule select_cases [of ?s C r]) blast
    moreover have "sid \<notin> set (dict_keys (lb_inflight s))" using None by (simp add: load_keys)
    ultimately show thesis using Some None by (intro Fresh) (simp_all add: acquire_server_def)
  next
    case n: (Some n)
    obtain h where "grant sid (s\<lparr>lb_cache := c_touch C (lb_cache s) r\<rparr>) = (Inr (sid, h),
        s\<lparr>lb_cache := c_touch C (lb_cache s) r, lb_inflight := dict_set sid (n + 1) (lb_inflight s)\<rparr>)"
      and "map_of (lb_servers s) sid = Some h"
      using grant_registered [of "s\<lparr>lb_cache := c_touch C (lb_cache s) r\<rparr>" sid n] wf n by auto
    moreover have "sid \<in> set (dict_keys (lb_inflight s))" using n by (simp add: load_keys)
    ultimately show thesis using Some n by (intro Sticky) (simp_all add: acquire_server_def)
  qed
qed


section \<open>Requests in flight\<close>

text \<open>The clients: a request is in flight from its acquire to its release. \<open>ls_clean\<close> is a ghost that
  stays true as long as no server is added while requests are in flight on it.\<close>

datatype ('r, 's, 'h) lb_op = Acquire 'r | Release 's | Add "('s, 'h) dict" | Remove "'s list"

record ('c, 's, 'h) lb_system =
  ls_lb :: "('c, 's, 'h) balancer"
  ls_out :: "'s list"
  ls_clean :: bool

fun lb_exec :: "('c, 'r, 's) cache_ops \<Rightarrow> ('r, 's, 'h) lb_op \<Rightarrow> ('c, 's, 'h) lb_system \<Rightarrow>
    ('c, 's, 'h) lb_system option" where
  "lb_exec C (Acquire r) S =
     (case acquire_server C r (ls_lb S) of
        (Inr (sid, h), s) \<Rightarrow> Some (S\<lparr>ls_lb := s, ls_out := sid # ls_out S\<rparr>)
      | (Inl e, s) \<Rightarrow> Some (S\<lparr>ls_lb := s\<rparr>))"
| "lb_exec C (Release sid) S =
     (if sid \<in> set (ls_out S)
      then Some (S\<lparr>ls_lb := release_server sid (ls_lb S), ls_out := remove1 sid (ls_out S)\<rparr>) else None)"
| "lb_exec C (Add d) S = Some (S\<lparr>ls_lb := add_servers d (ls_lb S),
     ls_clean := (ls_clean S \<and> (\<forall>sid \<in> set (map fst d). sid \<notin> set (ls_out S)))\<rparr>)"
| "lb_exec C (Remove sids) S = Some (S\<lparr>ls_lb := remove_servers sids (ls_lb S)\<rparr>)"

fun lb_run :: "('c, 'r, 's) cache_ops \<Rightarrow> ('r, 's, 'h) lb_op list \<Rightarrow> ('c, 's, 'h) lb_system \<Rightarrow>
    ('c, 's, 'h) lb_system option" where
  "lb_run C [] S = Some S"
| "lb_run C (x # xs) S = (case lb_exec C x S of None \<Rightarrow> None | Some T \<Rightarrow> lb_run C xs T)"

definition lb_start :: "'c \<Rightarrow> ('s, 'h) dict \<Rightarrow> ('c, 's, 'h) lb_system result" where
  "lb_start empty_cache servers =
     bind_r (lb_init empty_cache servers) (\<lambda>s. Inr \<lparr>ls_lb = s, ls_out = [], ls_clean = True\<rparr>)"

definition lb_inv :: "('c, 's, 'h) lb_system \<Rightarrow> bool" where
  "lb_inv S \<longleftrightarrow> lb_wf (ls_lb S) \<and>
     (\<forall>sid n. load (ls_lb S) sid = Some n \<longrightarrow>
        n \<le> count_list (ls_out S) sid \<and> (ls_clean S \<longrightarrow> n = count_list (ls_out S) sid))"

lemma count_list_remove1: "count_list (remove1 x xs) y = (if x = y then count_list xs y - 1 else count_list xs y)"
  by (induction xs) (auto simp: count_list_0_iff)

lemma no_server_acquire:
  assumes "lb_wf s" "lb_inflight s = []"
  shows "\<exists>c. acquire_server C r s = (Inl RuntimeError, s\<lparr>lb_cache := c\<rparr>)"
proof (cases "c_get C (lb_cache s) r")
  case None
  then have "acquire_server C r s = (Inl RuntimeError, s\<lparr>lb_cache := lb_cache s\<rparr>)"
    using assms by (simp add: acquire_server_def select_server_def)
  then show ?thesis by blast
next
  case (Some sid)
  with assms show ?thesis
    by (auto simp: acquire_server_def select_server_def dict_keys_def Let_def)
qed

lemma lb_inv_acquire:
  assumes inv: "lb_inv S" shows "lb_inv (the (lb_exec C (Acquire r) S))"
proof (cases "lb_inflight (ls_lb S) = []")
  case True
  with no_server_acquire [of "ls_lb S" C r] inv show ?thesis by (auto simp: lb_inv_def)
next
  case False
  from inv have wf: "lb_wf (ls_lb S)" by (simp add: lb_inv_def)
  have *: "lb_inv (S\<lparr>ls_lb := (ls_lb S)\<lparr>lb_cache := c, lb_inflight := dict_set sid (n + 1) (lb_inflight (ls_lb S))\<rparr>,
      ls_out := sid # ls_out S\<rparr>)" if "load (ls_lb S) sid = Some n" for sid n c
    using that inv lb_wf_set [of "ls_lb S" sid "n + 1"]
    by (auto simp: lb_inv_def load_def lb_wf_def)
  show ?thesis
    by (rule acquire_cases [OF wf False, of C r]) (use * in auto)
qed

lemma lb_inv_release:
  assumes inv: "lb_inv S" and ex: "lb_exec C (Release sid) S = Some T"
  shows "lb_inv T"
proof -
  from ex have T: "T = S\<lparr>ls_lb := release_server sid (ls_lb S), ls_out := remove1 sid (ls_out S)\<rparr>"
    by (simp split: if_splits)
  show ?thesis using inv
    by (auto simp: T lb_inv_def lb_wf_release load_release count_list_remove1 split: if_splits)
      (metis diff_le_mono)+
qed

lemma lb_inv_exec: "lb_inv S \<Longrightarrow> lb_exec C x S = Some T \<Longrightarrow> lb_inv T"
proof (cases x)
  case (Acquire r)
  assume "lb_inv S" "lb_exec C x S = Some T"
  with lb_inv_acquire [of S C r] Acquire show ?thesis by simp
next
  case (Release sid)
  assume "lb_inv S" "lb_exec C x S = Some T"
  with lb_inv_release [of S C sid T] Release show ?thesis by simp
next
  case (Add d)
  assume "lb_inv S" "lb_exec C x S = Some T"
  with Add show ?thesis
    by (auto simp: lb_inv_def lb_wf_add load_add count_list_0_iff split: if_splits)
next
  case (Remove sids)
  assume "lb_inv S" "lb_exec C x S = Some T"
  with Remove show ?thesis by (auto simp: lb_inv_def lb_wf_remove load_remove split: if_splits)
qed

lemma lb_inv_run: "lb_inv S \<Longrightarrow> lb_run C xs S = Some T \<Longrightarrow> lb_inv T"
proof (induction xs arbitrary: S)
  case (Cons x xs)
  then show ?case using lb_inv_exec by (fastforce split: option.splits)
qed simp

lemma lb_inv_start: "distinct (dict_keys servers) \<Longrightarrow> lb_start c servers = Inr S \<Longrightarrow> lb_inv S"
proof -
  assume d: "distinct (dict_keys servers)" and st: "lb_start c servers = Inr S"
  have "map_of (map (\<lambda>(sid, h). (sid, 0 :: nat)) servers) sid = Some n \<Longrightarrow> n = 0" for sid n
    by (auto dest!: map_of_SomeD)
  with d st show ?thesis
    by (auto simp: lb_start_def lb_init_def res_simps lb_inv_def lb_wf_def load_def dict_keys_def
        comp_def case_prod_beta)
qed

section \<open>Sticky sessions under the cache's replacement\<close>

definition others_since :: "('c \<Rightarrow> 'r list) \<Rightarrow> 'r \<Rightarrow> 'c \<Rightarrow> 'r list" where
  "others_since recency r c = takeWhile (\<lambda>x. x \<noteq> r) (recency c)"

lemma takeWhile_removeAll:
  "r' \<noteq> r \<Longrightarrow> takeWhile (\<lambda>x. x \<noteq> r) (removeAll r' xs) = removeAll r' (takeWhile (\<lambda>x. x \<noteq> r) xs)"
  by (induction xs) auto

lemma takeWhile_take: "r \<in> set xs \<Longrightarrow> length (takeWhile (\<lambda>x. x \<noteq> r) xs) < m \<Longrightarrow>
    takeWhile (\<lambda>x. x \<noteq> r) (take m xs) = takeWhile (\<lambda>x. x \<noteq> r) xs \<and> r \<in> set (take m xs)"
proof (induction xs arbitrary: m)
  case (Cons x xs)
  then show ?case by (cases m) auto
qed simp

fun requested :: "('r, 's, 'h) lb_op list \<Rightarrow> 'r set" where
  "requested [] = {}"
| "requested (Acquire r # xs) = insert r (requested xs)"
| "requested (_ # xs) = requested xs"

fun removed :: "('r, 's, 'h) lb_op list \<Rightarrow> 's set" where
  "removed [] = {}"
| "removed (Remove sids # xs) = set sids \<union> removed xs"
| "removed (_ # xs) = removed xs"

context lru_cache
begin

definition sticky :: "'r \<Rightarrow> 's \<Rightarrow> 'r set \<Rightarrow> ('c, 's, 'h) balancer \<Rightarrow> bool" where
  "sticky r sid U s \<longleftrightarrow> lb_wf s \<and> load s sid \<noteq> None \<and> c_get C (lb_cache s) r = Some sid \<and>
     distinct (others_since recency r (lb_cache s)) \<and> set (others_since recency r (lb_cache s)) \<subseteq> U"

lemma sticky_nonempty: "sticky r sid U s \<Longrightarrow> lb_inflight s \<noteq> []"
  by (auto simp: sticky_def load_def)

lemma others_touch:
  assumes "r' \<noteq> r" "r' \<in> set (recency c)"
  shows "others_since recency r (c_touch C c r') = r' # removeAll r' (others_since recency r c)"
  using assms by (simp add: others_since_def touch_recency takeWhile_removeAll)

lemma others_put:
  assumes "r' \<noteq> r" "r \<in> set (recency c)" "Suc (length (removeAll r' (others_since recency r c))) < maxsize"
  shows "others_since recency r (c_put C c r' s) = r' # removeAll r' (others_since recency r c) \<and>
    r \<in> set (recency (c_put C c r' s))"
proof -
  have t: "takeWhile (\<lambda>x. x \<noteq> r) (r' # removeAll r' (recency c)) = r' # removeAll r' (others_since recency r c)"
    using assms(1) by (simp add: others_since_def takeWhile_removeAll)
  then show ?thesis using takeWhile_take [of r "r' # removeAll r' (recency c)" maxsize] assms
    by (simp add: others_since_def put_recency)
qed

lemma others_del:
  "r' \<noteq> r \<Longrightarrow> others_since recency r (c_del C c r') = removeAll r' (others_since recency r c)"
  by (simp add: others_since_def del_recency takeWhile_removeAll)

lemma put_keeps:
  assumes r': "r' \<noteq> r" and get: "c_get C c r = Some sid"
    and dist: "distinct (others_since recency r c)" and sub: "set (others_since recency r c) \<subseteq> U"
    and fin: "finite U" "card (insert r' U) < maxsize"
  shows "c_get C (c_put C c r' x) r = Some sid \<and> distinct (others_since recency r (c_put C c r' x)) \<and>
    set (others_since recency r (c_put C c r' x)) \<subseteq> insert r' U"
proof -
  have mem: "r \<in> set (recency c)" using get get_recency [of c r] by simp
  have "card (set (r' # removeAll r' (others_since recency r c))) \<le> card (insert r' U)"
    using sub fin(1) by (intro card_mono) auto
  moreover have "distinct (r' # removeAll r' (others_since recency r c))"
    using dist by (simp add: distinct_removeAll)
  ultimately have "length (r' # removeAll r' (others_since recency r c)) \<le> card (insert r' U)"
    by (simp only: distinct_card)
  then have "Suc (length (removeAll r' (others_since recency r c))) < maxsize"
    using fin(2) by simp
  from others_put [OF r' mem this, of x] have
    o: "others_since recency r (c_put C c r' x) = r' # removeAll r' (others_since recency r c)"
    and r: "r \<in> set (recency (c_put C c r' x))" by auto
  from put_get_other [OF r' [symmetric] r] get show ?thesis
    using dist sub by (auto simp: o distinct_removeAll)
qed

lemma sticky_acquire_other:
  assumes st: "sticky r sid U s" and r': "r' \<noteq> r" and fin: "finite U" "card (insert r' U) < maxsize"
  shows "sticky r sid (insert r' U) (snd (acquire_server C r' s))"
proof -
  let ?c = "lb_cache s"
  from st have wf: "lb_wf s" and get: "c_get C ?c r = Some sid" and load: "load s sid \<noteq> None"
    and dist: "distinct (others_since recency r ?c)" and sub: "set (others_since recency r ?c) \<subseteq> U"
    by (auto simp: sticky_def)
  have keep: "lb_wf (s\<lparr>lb_cache := c, lb_inflight := dict_set x (n + 1) (lb_inflight s)\<rparr>) \<and>
      load (s\<lparr>lb_cache := c, lb_inflight := dict_set x (n + 1) (lb_inflight s)\<rparr>) sid \<noteq> None"
    if "load s x = Some n" for x n c
    using that lb_wf_set [of s x "n + 1"] wf load by (auto simp: load_def lb_wf_def)
  show ?thesis
  proof (rule acquire_cases [OF wf sticky_nonempty [OF st], of C r'])
    fix x n h
    assume a: "acquire_server C r' s = (Inr (x, h), s\<lparr>lb_cache := c_touch C ?c r',
        lb_inflight := dict_set x (n + 1) (lb_inflight s)\<rparr>)" and "c_get C ?c r' = Some x" "load s x = Some n"
    then have "r' \<in> set (recency ?c)" using get_recency [of ?c r'] by simp
    with others_touch [OF r'] dist sub keep [OF \<open>load s x = Some n\<close>] get show ?thesis
      by (auto simp: sticky_def a touch_get distinct_removeAll)
  next
    fix x n h c
    assume a: "acquire_server C r' s = (Inr (x, h), s\<lparr>lb_cache := c_put C c r' x,
        lb_inflight := dict_set x (n + 1) (lb_inflight s)\<rparr>)" and n: "load s x = Some n"
      and c: "c = (if c_get C ?c r' = None then ?c else c_del C (c_touch C ?c r') r')"
    have "c_get C c r = Some sid \<and> distinct (others_since recency r c) \<and> set (others_since recency r c) \<subseteq> U"
    proof (cases "c_get C ?c r' = None")
      case False
      then have "r' \<in> set (recency ?c)" using get_recency [of ?c r'] by simp
      with False show ?thesis using r' dist sub get
        by (auto simp: c del_get touch_get others_del others_touch distinct_removeAll)
    qed (use get dist sub c in auto)
    with put_keeps [OF r' _ _ _ fin] keep [OF n] show ?thesis by (auto simp: sticky_def a)
  qed
qed

lemma sticky_acquire_same:
  assumes st: "sticky r sid U s"
  shows "(\<exists>h. acquire_server C r s = (Inr (sid, h), snd (acquire_server C r s))) \<and>
    sticky r sid U (snd (acquire_server C r s))"
proof -
  let ?c = "lb_cache s"
  from st have wf: "lb_wf s" and get: "c_get C ?c r = Some sid" and load: "load s sid \<noteq> None"
    by (auto simp: sticky_def)
  then have mem: "r \<in> set (recency ?c)" using get_recency [of ?c r] by simp
  show ?thesis
  proof (rule acquire_cases [OF wf sticky_nonempty [OF st], of C r])
    fix x n h
    assume a: "acquire_server C r s = (Inr (x, h), s\<lparr>lb_cache := c_touch C ?c r,
        lb_inflight := dict_set x (n + 1) (lb_inflight s)\<rparr>)" and x: "c_get C ?c r = Some x" "load s x = Some n"
    have "others_since recency r (c_touch C ?c r) = []"
      using mem by (simp add: others_since_def touch_recency)
    then show ?thesis using a x get lb_wf_set [OF wf, of x "n + 1"] load
      by (auto simp: sticky_def touch_get load_def lb_wf_def)
  qed (use get load in auto)
qed

lemma sticky_frame:
  "sticky r sid U s \<Longrightarrow> sticky r sid U (release_server x s)"
  "sticky r sid U s \<Longrightarrow> sticky r sid U (add_servers d s)"
  "sticky r sid U s \<Longrightarrow> sid \<notin> set sids \<Longrightarrow> sticky r sid U (remove_servers sids s)"
proof -
  have c: "lb_cache (release_server x s) = lb_cache s" "lb_cache (add_servers d s) = lb_cache s"
    "lb_cache (remove_servers sids s) = lb_cache s"
    subgoal by (simp add: release_server_def split: option.splits)
    subgoal by (induction d arbitrary: s) (auto simp: add_servers_def add_server_def)
    subgoal by (induction sids arbitrary: s) (auto simp: remove_servers_def remove_server_def)
    done
  show "sticky r sid U s \<Longrightarrow> sticky r sid U (release_server x s)"
    by (auto simp: sticky_def c lb_wf_release load_release)
  show "sticky r sid U s \<Longrightarrow> sticky r sid U (add_servers d s)"
    by (auto simp: sticky_def c lb_wf_add load_add)
  show "sticky r sid U s \<Longrightarrow> sid \<notin> set sids \<Longrightarrow> sticky r sid U (remove_servers sids s)"
    by (auto simp: sticky_def c lb_wf_remove load_remove)
qed

lemma sticky_run:
  assumes "sticky r sid U (ls_lb S)" "finite U" "card (U \<union> (requested xs - {r})) < maxsize"
    and "sid \<notin> removed xs" and "lb_run C xs S = Some T"
  shows "sticky r sid (U \<union> (requested xs - {r})) (ls_lb T)"
  using assms
proof (induction xs arbitrary: S U)
  case (Cons x xs)
  from Cons.prems(5) obtain V where V: "lb_exec C x S = Some V" and run: "lb_run C xs V = Some T"
    by (auto split: option.splits)
  show ?case
  proof (cases x)
    case (Acquire r')
    have lb: "ls_lb V = snd (acquire_server C r' (ls_lb S))"
      using V Acquire by (auto split: prod.splits sum.splits)
    show ?thesis
    proof (cases "r' = r")
      case True
      then have "sticky r sid U (ls_lb V)" using sticky_acquire_same [OF Cons.prems(1)] lb by simp
      with Cons.IH [OF _ Cons.prems(2) _ _ run] Cons.prems(3,4) Acquire True show ?thesis by simp
    next
      case False
      have fin: "finite (requested xs)" for xs :: "('r, 's, 'd) lb_op list" by (induction xs rule: requested.induct) auto
      have "card (insert r' U) \<le> card (U \<union> (requested (x # xs) - {r}))"
        using Cons.prems(2) Acquire False fin by (intro card_mono) auto
      with Cons.prems(3) have "sticky r sid (insert r' U) (ls_lb V)"
        unfolding lb by (intro sticky_acquire_other [OF Cons.prems(1) False Cons.prems(2)]) simp
      moreover have "insert r' U \<union> (requested xs - {r}) = U \<union> (requested (x # xs) - {r})"
        using Acquire False by auto
      ultimately show ?thesis using Cons.IH [of "insert r' U" V] Cons.prems(2-4) run Acquire by simp
    qed
  next
    case (Release y)
    then have "sticky r sid U (ls_lb V)" using V Cons.prems(1) by (auto simp: sticky_frame split: if_splits)
    with Cons.IH [OF _ Cons.prems(2) _ _ run] Cons.prems(3,4) Release show ?thesis by simp
  next
    case (Add d)
    then have "sticky r sid U (ls_lb V)" using V Cons.prems(1) by (auto simp: sticky_frame)
    with Cons.IH [OF _ Cons.prems(2) _ _ run] Cons.prems(3,4) Add show ?thesis by simp
  next
    case (Remove sids)
    then have "sticky r sid U (ls_lb V)" using V Cons.prems(1,4) by (auto simp: sticky_frame)
    with Cons.IH [OF _ Cons.prems(2) _ _ run] Cons.prems(3,4) Remove show ?thesis by simp
  qed
qed simp

lemma acquire_makes_sticky:
  assumes wf: "lb_wf s" and acq: "acquire_server C r s = (Inr (sid, h), t)"
  shows "sticky r sid {} t"
proof -
  have ne: "lb_inflight s \<noteq> []"
  proof
    assume "lb_inflight s = []"
    with no_server_acquire [OF wf, of C r] acq show False by auto
  qed
  show ?thesis
  proof (rule acquire_cases [OF wf ne, of C r])
    fix x n h'
    assume a: "acquire_server C r s = (Inr (x, h'), s\<lparr>lb_cache := c_touch C (lb_cache s) r,
        lb_inflight := dict_set x (n + 1) (lb_inflight s)\<rparr>)" and g: "c_get C (lb_cache s) r = Some x" "load s x = Some n"
    then have "r \<in> set (recency (lb_cache s))" using get_recency [of "lb_cache s" r] by simp
    with a g acq show ?thesis using lb_wf_set [OF wf, of x "n + 1"]
      by (auto simp: sticky_def touch_get load_def lb_wf_def others_since_def touch_recency)
  next
    fix x n h' c
    assume a: "acquire_server C r s = (Inr (x, h'), s\<lparr>lb_cache := c_put C c r x,
        lb_inflight := dict_set x (n + 1) (lb_inflight s)\<rparr>)" and g: "load s x = Some n"
    obtain k where "maxsize = Suc k" using maxsize_pos by (cases maxsize) auto
    with a g acq show ?thesis using lb_wf_set [OF wf, of x "n + 1"]
      by (auto simp: sticky_def put_get load_def lb_wf_def others_since_def put_recency)
  qed
qed

lemma session_sticks:
  assumes "lb_wf s" "acquire_server C r s = (Inr (sid, h), ls_lb S)" "lb_run C xs S = Some T"
    and "card (requested xs - {r}) < maxsize" "sid \<notin> removed xs"
  shows "\<exists>h'. fst (acquire_server C r (ls_lb T)) = Inr (sid, h')"
proof -
  have "sticky r sid ({} \<union> (requested xs - {r})) (ls_lb T)"
    using acquire_makes_sticky [OF assms(1,2)] assms by (intro sticky_run) auto
  from sticky_acquire_same [OF this] show ?thesis by (metis fst_conv)
qed

end

section \<open>Properties\<close>

text \<open>An acquire is sticky or least-loaded: with at least one server, \<open>acquire_server\<close> returns a
  registered server with its own handle and counts the request on it. If the cache names a server that
  is still active it is that server; otherwise no active server has fewer requests in flight than the
  chosen one had.\<close>

theorem acquire_sticky_or_least_loaded:
  assumes "lb_wf s" and "lb_inflight s \<noteq> []"
  shows "\<exists>sid h n. fst (acquire_server C r s) = Inr (sid, h) \<and> map_of (lb_servers s) sid = Some h \<and>
    load s sid = Some n \<and> load (snd (acquire_server C r s)) sid = Some (n + 1) \<and>
    (\<forall>x. x \<noteq> sid \<longrightarrow> load (snd (acquire_server C r s)) x = load s x) \<and>
    lb_servers (snd (acquire_server C r s)) = lb_servers s \<and>
    (if \<exists>x. c_get C (lb_cache s) r = Some x \<and> load s x \<noteq> None then c_get C (lb_cache s) r = Some sid
     else \<forall>x m. load s x = Some m \<longrightarrow> n \<le> m)"
proof (rule acquire_cases [OF assms, of C r])
  fix sid n h
  assume "acquire_server C r s = (Inr (sid, h), s\<lparr>lb_cache := c_touch C (lb_cache s) r,
      lb_inflight := dict_set sid (n + 1) (lb_inflight s)\<rparr>)"
    "c_get C (lb_cache s) r = Some sid" "load s sid = Some n" "map_of (lb_servers s) sid = Some h"
  then show ?thesis by (intro exI [of _ sid] exI [of _ h] exI [of _ n]) (simp add: load_def)
next
  fix sid n h c
  assume "acquire_server C r s = (Inr (sid, h), s\<lparr>lb_cache := c_put C c r sid,
      lb_inflight := dict_set sid (n + 1) (lb_inflight s)\<rparr>)"
    "\<And>x. c_get C (lb_cache s) r = Some x \<Longrightarrow> load s x = None"
    "load s sid = Some n" "map_of (lb_servers s) sid = Some h" "\<And>x m. load s x = Some m \<Longrightarrow> n \<le> m"
  then show ?thesis by (intro exI [of _ sid] exI [of _ h] exI [of _ n]) (auto simp: load_def)
qed

definition two_servers :: "((string \<times> string) list, string, nat) lb_system" where
  "two_servers = \<lparr>ls_lb = \<lparr>lb_servers = [(''a'', 1), (''b'', 2)], lb_inflight = [(''a'', 0), (''b'', 0)],
     lb_cache = []\<rparr>, ls_out = [], ls_clean = True\<rparr>"

lemma two_servers_inv: "lb_inv two_servers"
  by (simp add: lb_inv_def lb_wf_def two_servers_def load_def dict_keys_def)

theorem acquire_sticky_or_least_loaded_witness:
  "\<exists>sid h n. fst (acquire_server (list_cache (Suc 1)) ''r'' (ls_lb two_servers)) = Inr (sid, h) \<and>
     map_of (lb_servers (ls_lb two_servers)) sid = Some h \<and> load (ls_lb two_servers) sid = Some n"
  using acquire_sticky_or_least_loaded [of "ls_lb two_servers" "list_cache (Suc 1)" "''r''"] two_servers_inv
  by (fastforce simp: lb_inv_def two_servers_def)

text \<open>The in-flight counters are exact: through any sequence of acquires, releases, additions and
  removals of servers, from a freshly built balancer, the handles and the counters have the same keys, the
  counter of an active server never exceeds the number of requests in flight on it, and it is equal to
  that number as long as no server was added while requests were in flight on it.\<close>

theorem inflight_counts_requests:
  assumes "distinct (dict_keys servers)" and "lb_start c servers = Inr S" and "lb_run C xs S = Some T"
    and "map_of (lb_inflight (ls_lb T)) sid = Some n"
  shows "n \<le> count_list (ls_out T) sid \<and> (ls_clean T \<longrightarrow> n = count_list (ls_out T) sid) \<and>
    dict_keys (lb_inflight (ls_lb T)) = dict_keys (lb_servers (ls_lb T))"
  using lb_inv_run [OF lb_inv_start [OF assms(1,2)] assms(3)] assms(4)
  by (simp add: lb_inv_def lb_wf_def load_def)

definition example_ops :: "(string, string, nat) lb_op list" where
  "example_ops = [Acquire ''r1'', Acquire ''r2'', Remove [''a''], Acquire ''r1'', Add [(''a'', 7)], Release ''b'']"

lemma example_run:
  "case lb_run (list_cache (Suc 1)) example_ops two_servers of
     None \<Rightarrow> False
   | Some T \<Rightarrow> map_of (lb_inflight (ls_lb T)) ''b'' = Some 1 \<and> \<not> ls_clean T"
  by (simp add: example_ops_def two_servers_def acquire_server_def select_server_def grant_def list_cache_def
      dict_item_def bump_def release_server_def add_servers_def add_server_def remove_servers_def
      remove_server_def dict_keys_def Let_def)

lemma two_servers_start: "lb_start [] [(''a'', 1), (''b'', 2)] = Inr two_servers"
  by (simp add: lb_start_def lb_init_def two_servers_def)

theorem inflight_counts_requests_witness:
  "1 \<le> count_list (ls_out (the (lb_run (list_cache (Suc 1)) example_ops two_servers))) ''b''"
proof -
  obtain T where T: "lb_run (list_cache (Suc 1)) example_ops two_servers = Some T"
    and b: "map_of (lb_inflight (ls_lb T)) ''b'' = Some 1"
    using example_run by (auto split: option.splits)
  show ?thesis unfolding T option.sel
    using inflight_counts_requests [OF _ two_servers_start T b] by (simp add: dict_keys_def)
qed

text \<open>C25 A conversation stays on its server: whatever cache behaves like an LRU cache of \<open>maxsize\<close>
  entries, once a request id has been given a server, any interleaving with other acquires, releases,
  additions and removals that does not remove that server and uses fewer than \<open>maxsize\<close> other request
  ids leads the next acquire of the id to the same server.\<close>

theorem session_keeps_server:
  assumes "lru_cache C recency maxsize" and "lb_wf s"
    and "acquire_server C r s = (Inr (sid, h), ls_lb S)" and "lb_run C xs S = Some T"
    and "card (requested xs - {r}) < maxsize" and "sid \<notin> removed xs"
  shows "\<exists>h'. fst (acquire_server C r (ls_lb T)) = Inr (sid, h')"
  using lru_cache.session_sticks [OF assms(1) assms(2-6)] .

definition session_ops :: "(string, string, nat) lb_op list" where
  "session_ops = [Acquire ''r2'', Release ''a'', Add [(''c'', 3)], Remove [''b'']]"

lemma session_acquire: "acquire_server (list_cache (Suc 1)) ''r1'' (ls_lb two_servers) =
    (Inr (''a'', 1), ls_lb (the (lb_exec (list_cache (Suc 1)) (Acquire ''r1'') two_servers)))"
  by (simp add: two_servers_def acquire_server_def select_server_def grant_def list_cache_def dict_item_def
      bump_def dict_keys_def Let_def)

lemma session_run: "lb_run (list_cache (Suc 1)) session_ops
    (the (lb_exec (list_cache (Suc 1)) (Acquire ''r1'') two_servers)) \<noteq> None"
  by (simp add: two_servers_def acquire_server_def select_server_def grant_def list_cache_def dict_item_def
      bump_def dict_keys_def Let_def session_ops_def)

theorem session_keeps_server_witness:
  "\<exists>h'. fst (acquire_server (list_cache (Suc 1)) ''r1'' (ls_lb (the (lb_run (list_cache (Suc 1)) session_ops
      (the (lb_exec (list_cache (Suc 1)) (Acquire ''r1'') two_servers)))))) = Inr (''a'', h')"
proof -
  obtain T where T: "lb_run (list_cache (Suc 1)) session_ops
      (the (lb_exec (list_cache (Suc 1)) (Acquire ''r1'') two_servers)) = Some T"
    using session_run by auto
  have wf: "lb_wf (ls_lb two_servers)" using two_servers_inv by (simp add: lb_inv_def)
  show ?thesis unfolding T option.sel
    by (rule session_keeps_server [OF list_lru.lru_cache_axioms wf session_acquire T])
      (simp_all add: session_ops_def)
qed

end
