(* ===== verification/ServerClient.thy ===== *)
theory ServerClient
  imports LoadBalancer
begin

text \<open>
  The clients of the language-model servers: \<open>FullyAsyncLLMServerClient.generate\<close>, which resumes a
  generation the trainer has interrupted, and \<open>FullyAsyncLLMServerManager.add_replicas\<close> and
  \<open>remove_replicas\<close>, which bring the trainer's own GPUs into the load balancer and take them out again
  (\<^verbatim>\<open>verl/experimental/fully_async_policy/fully_async_rollouter.py\<close>). The answer of a server to one
  request (\<open>LLMServerClient.generate\<close>, an RPC) is the parameter \<open>srv\<close>, a function on its own state;
  the loop takes fuel, and \<open>resume_generate_total\<close> gives enough of it.
\<close>

section \<open>Resuming an interrupted generation\<close>

record ('l, 'e) token_output =
  to_ids :: "int list"
  to_log_probs :: "'l list option"
  to_routed :: "'e list option"
  to_preempted :: "nat option"
  to_stop :: "string option"
  to_steps :: "nat option"

record ('l, 'e) gen_result =
  gr_ids :: "int list"
  gr_log_probs :: "'l list"
  gr_routed :: "'e list option"
  gr_preempted :: nat
  gr_stop :: "string option"
  gr_steps :: "nat option"
  gr_min_steps :: "nat option"
  gr_max_steps :: "nat option"

definition empty_result :: "('l, 'e) gen_result" where
  "empty_result = \<lparr>gr_ids = [], gr_log_probs = [], gr_routed = None, gr_preempted = 0, gr_stop = None,
     gr_steps = None, gr_min_steps = None, gr_max_steps = None\<rparr>"

definition merge_output :: "('l, 'e) token_output \<Rightarrow> ('l, 'e) gen_result \<Rightarrow> ('l, 'e) gen_result" where
  "merge_output out r =
     r\<lparr>gr_ids := gr_ids r @ to_ids out,
       gr_log_probs := gr_log_probs r @ (case to_log_probs out of None \<Rightarrow> [] | Some l \<Rightarrow> l),
       gr_routed := (case to_routed out of
            None \<Rightarrow> gr_routed r
          | Some e \<Rightarrow> (if to_ids out = [] then gr_routed r
              else case gr_routed r of None \<Rightarrow> Some e | Some old \<Rightarrow> Some (old @ last_n (length (to_ids out)) e))),
       gr_preempted := gr_preempted r + (case to_preempted out of None \<Rightarrow> 0 | Some n \<Rightarrow> n),
       gr_stop := to_stop out,
       gr_steps := to_steps out,
       gr_min_steps := (case gr_min_steps r of None \<Rightarrow> to_steps out | Some n \<Rightarrow> Some n),
       gr_max_steps := to_steps out\<rparr>"

definition is_abort :: "string option \<Rightarrow> bool" where
  "is_abort reason \<longleftrightarrow> reason = Some ''aborted'' \<or> reason = Some ''abort''"

text \<open>The outer None is a key that is not there, the inner one a key whose value is None.\<close>

record sampling_params =
  sp_max_tokens :: "int option option"
  sp_max_new_tokens :: "int option option"

definition token_limit :: "sampling_params \<Rightarrow> int option" where
  "token_limit sp = (case sp_max_tokens sp of Some v \<Rightarrow> v | None \<Rightarrow>
     (case sp_max_new_tokens sp of Some v \<Rightarrow> v | None \<Rightarrow> None))"

definition set_limit :: "int \<Rightarrow> sampling_params \<Rightarrow> sampling_params" where
  "set_limit n sp = (if sp_max_tokens sp \<noteq> None then sp\<lparr>sp_max_tokens := Some (Some n)\<rparr>
     else sp\<lparr>sp_max_new_tokens := Some (Some n)\<rparr>)"

type_synonym ('s, 'l, 'e) server = "'s \<Rightarrow> int list \<Rightarrow> sampling_params \<Rightarrow> ('l, 'e) token_output \<times> 's"

text \<open>The caller's \<open>sampling_params\<close> are updated in place, so the loop also returns them.\<close>

fun generate_loop :: "nat \<Rightarrow> bool \<Rightarrow> ('s, 'l, 'e) server \<Rightarrow> int list \<Rightarrow> int option \<Rightarrow> sampling_params \<Rightarrow> 's \<Rightarrow>
    ('l, 'e) gen_result \<Rightarrow> (('l, 'e) gen_result \<times> sampling_params \<times> 's) option" where
  "generate_loop 0 partial_rollout srv prompt limit sp s r = None"
| "generate_loop (Suc fuel) partial_rollout srv prompt limit sp s r =
     (let (out, s') = srv s (prompt @ gr_ids r) sp;
          r' = merge_output out r;
          sp' = (case limit of None \<Rightarrow> sp | Some n \<Rightarrow> set_limit (n - int (length (gr_ids r'))) sp)
      in if (case limit of None \<Rightarrow> False | Some n \<Rightarrow> n \<le> int (length (gr_ids r')))
         then Some (r'\<lparr>gr_stop := Some ''length''\<rparr>, sp', s')
         else if \<not> is_abort (to_stop out) \<or> \<not> partial_rollout then Some (r', sp', s')
         else generate_loop fuel partial_rollout srv prompt limit sp' s' r')"

definition resume_generate :: "nat \<Rightarrow> bool \<Rightarrow> ('s, 'l, 'e) server \<Rightarrow> int list \<Rightarrow> sampling_params \<Rightarrow> 's \<Rightarrow>
    (('l, 'e) gen_result \<times> sampling_params \<times> 's) option" where
  "resume_generate fuel partial_rollout srv prompt sp s =
     generate_loop fuel partial_rollout srv prompt (token_limit sp) sp s empty_result"

section \<open>An interruption is invisible\<close>

text \<open>What a model that picks its next token by \<open>nxt\<close> (None: end of sequence) generates in at most \<open>n\<close>
  tokens. A server is faithful to it when an answer is a prefix of that, and the whole of it unless
  the answer says it was aborted.\<close>

fun complete :: "(int list \<Rightarrow> int option) \<Rightarrow> nat \<Rightarrow> int list \<Rightarrow> int list" where
  "complete nxt 0 ctx = []"
| "complete nxt (Suc n) ctx = (case nxt ctx of None \<Rightarrow> [] | Some t \<Rightarrow> t # complete nxt n (ctx @ [t]))"

definition faithful_server :: "(int list \<Rightarrow> int option) \<Rightarrow> ('s, 'l, 'e) server \<Rightarrow> bool" where
  "faithful_server nxt srv \<longleftrightarrow>
     (\<forall>s ctx sp n. token_limit sp = Some (int n) \<longrightarrow>
        (\<exists>k. to_ids (fst (srv s ctx sp)) = take k (complete nxt n ctx)) \<and>
        (\<not> is_abort (to_stop (fst (srv s ctx sp))) \<longrightarrow> to_ids (fst (srv s ctx sp)) = complete nxt n ctx))"

definition scores_tokens :: "('s, 'l, 'e) server \<Rightarrow> bool" where
  "scores_tokens srv \<longleftrightarrow> (\<forall>s ctx sp. \<exists>l. to_log_probs (fst (srv s ctx sp)) = Some l \<and>
     length l = length (to_ids (fst (srv s ctx sp))))"

lemma length_complete: "length (complete nxt n ctx) \<le> n"
  by (induction n arbitrary: ctx) (auto split: option.splits)

lemma complete_continue:
  "complete nxt n ctx = take k (complete nxt n ctx) @
     complete nxt (n - length (take k (complete nxt n ctx))) (ctx @ take k (complete nxt n ctx))"
proof (induction n arbitrary: k ctx)
  case (Suc n)
  show ?case
  proof (cases k)
    case (Suc j)
    then show ?thesis using Suc.IH [of "ctx @ [t]" j for t] by (auto split: option.splits)
  qed simp
qed simp

lemma token_limit_set: "token_limit sp \<noteq> None \<Longrightarrow> token_limit (set_limit n sp) = Some n"
  by (auto simp: token_limit_def set_limit_def split: option.splits)

lemma gr_ids_merge [simp]: "gr_ids (merge_output out r) = gr_ids r @ to_ids out"
  by (simp add: merge_output_def)

lemma gr_log_probs_merge: "to_log_probs out = Some l \<Longrightarrow>
    gr_log_probs (merge_output out r) = gr_log_probs r @ l"
  by (simp add: merge_output_def)

lemma generate_loop_complete:
  assumes faithful: "faithful_server nxt srv"
    and res: "generate_loop fuel True srv prompt (Some (int n)) sp s r = Some (r', sp', s')"
    and lim: "token_limit sp = Some (int n - int (length (gr_ids r)))" "length (gr_ids r) \<le> n"
  shows "gr_ids r' = gr_ids r @ complete nxt (n - length (gr_ids r)) (prompt @ gr_ids r)"
  using res lim
proof (induction fuel arbitrary: sp s r)
  case (Suc fuel)
  let ?b = "n - length (gr_ids r)" and ?ctx = "prompt @ gr_ids r"
  obtain out t where srv: "srv s ?ctx sp = (out, t)" by (cases "srv s ?ctx sp")
  have lim: "token_limit sp = Some (int ?b)" using Suc.prems(2,3) by simp
  with faithful srv obtain k where k: "to_ids out = take k (complete nxt ?b ?ctx)"
    and whole: "\<not> is_abort (to_stop out) \<Longrightarrow> to_ids out = complete nxt ?b ?ctx"
    unfolding faithful_server_def by (metis fst_conv)
  have len: "length (to_ids out) \<le> ?b" using length_complete [of nxt ?b ?ctx] by (simp add: k)
  define r1 where "r1 = merge_output out r"
  note cont = complete_continue [of nxt ?b ?ctx k, folded k]
  show ?case
  proof (cases "n \<le> length (gr_ids r1)")
    case True
    then have "length (to_ids out) = ?b" using len by (simp add: r1_def)
    with cont have "to_ids out = complete nxt ?b ?ctx" by simp
    with Suc.prems(1) True show ?thesis by (auto simp: srv Let_def r1_def)
  next
    case False
    show ?thesis
    proof (cases "is_abort (to_stop out)")
      case True
      let ?sp = "set_limit (int n - int (length (gr_ids r1))) sp"
      from Suc.prems(1) False True have
        "generate_loop fuel True srv prompt (Some (int n)) ?sp t r1 = Some (r', sp', s')"
        by (simp add: srv Let_def r1_def)
      moreover have "token_limit ?sp = Some (int n - int (length (gr_ids r1)))"
        using lim by (intro token_limit_set) simp
      ultimately have "gr_ids r' = gr_ids r1 @ complete nxt (n - length (gr_ids r1)) (prompt @ gr_ids r1)"
        using False by (intro Suc.IH) simp_all
      then show ?thesis using cont by (simp add: r1_def)
    next
      case no_abort: False
      with Suc.prems(1) False whole show ?thesis by (auto simp: srv Let_def r1_def)
    qed
  qed
qed simp

lemma generate_loop_scores:
  assumes sc: "scores_tokens srv" and res: "generate_loop fuel p srv prompt lim sp s r = Some (r', sp', s')"
    and len: "length (gr_log_probs r) = length (gr_ids r)"
  shows "length (gr_log_probs r') = length (gr_ids r')"
  using res len
proof (induction fuel arbitrary: sp s r)
  case (Suc fuel)
  obtain out t where srv: "srv s (prompt @ gr_ids r) sp = (out, t)" by (cases "srv s (prompt @ gr_ids r) sp")
  with sc obtain l where l: "to_log_probs out = Some l" "length l = length (to_ids out)"
    unfolding scores_tokens_def by (metis fst_conv)
  have m: "length (gr_log_probs (merge_output out r)) = length (gr_ids (merge_output out r))"
    using l Suc.prems(2) by (simp add: gr_log_probs_merge)
  show ?case using Suc.prems(1) Suc.IH [OF _ m] m
    by (auto simp: srv Let_def split: if_splits)
qed simp

lemma generate_loop_total:
  assumes aborts: "\<And>s ctx sp. is_abort (to_stop (fst (srv s ctx sp))) \<Longrightarrow> left (snd (srv s ctx sp)) < left s"
    and fuel: "left s < fuel"
  shows "generate_loop fuel p srv prompt lim sp s r \<noteq> None"
  using fuel
proof (induction fuel arbitrary: sp s r)
  case (Suc fuel)
  obtain out t where srv: "srv s (prompt @ gr_ids r) sp = (out, t)" by (cases "srv s (prompt @ gr_ids r) sp")
  have "left t < fuel" if "is_abort (to_stop out)"
    using aborts [of s "prompt @ gr_ids r" sp] that Suc.prems by (simp add: srv)
  with Suc.IH show ?case by (cases p; simp add: srv Let_def)
qed simp

section \<open>Hybrid replicas\<close>

record 'h replica =
  rp_id :: nat
  rp_address :: string
  rp_handle :: 'h

record ('c, 'h) server_manager =
  sm_hybrid :: "(string, 'h replica) dict"
  sm_alive :: "(string, 'h replica) dict"
  sm_alive_addresses :: "(string, string) dict"
  sm_addresses :: "string list"
  sm_handles :: "'h list"
  sm_replicas :: "'h replica list"
  sm_balancer :: "('c, string, 'h) balancer"

fun select_new :: "('c, 'h) server_manager \<Rightarrow> string list \<Rightarrow> (string, 'h) dict \<Rightarrow> (string, 'h) dict \<times> string list" where
  "select_new m [] servers = (servers, [])"
| "select_new m (rid # rids) servers =
     (if map_of (sm_alive m) rid \<noteq> None then select_new m rids servers
      else case map_of (sm_hybrid m) rid of
          None \<Rightarrow> select_new m rids servers
        | Some rp \<Rightarrow>
            (let (sv, vs) = select_new m rids (dict_set (rp_address rp) (rp_handle rp) servers) in (sv, rid # vs)))"

definition track_replica :: "string \<Rightarrow> ('c, 'h) server_manager \<Rightarrow> ('c, 'h) server_manager" where
  "track_replica rid m = (case map_of (sm_hybrid m) rid of
       None \<Rightarrow> m
     | Some rp \<Rightarrow>
         m\<lparr>sm_handles := (if rp_address rp \<in> set (sm_addresses m) then sm_handles m
              else sm_handles m @ [rp_handle rp]),
           sm_addresses := (if rp_address rp \<in> set (sm_addresses m) then sm_addresses m
              else sm_addresses m @ [rp_address rp]),
           sm_replicas := (if rp \<in> set (sm_replicas m) then sm_replicas m else sm_replicas m @ [rp]),
           sm_alive := dict_set rid rp (sm_alive m),
           sm_alive_addresses := dict_set rid (rp_address rp) (sm_alive_addresses m)\<rparr>)"

text \<open>\<open>rpc_ok\<close> says whether the call of the load balancer succeeds; when it raises, nothing is tracked and
  the answer is 0.\<close>

definition add_replicas :: "bool \<Rightarrow> string list \<Rightarrow> ('c, 'h) server_manager \<Rightarrow> nat \<times> ('c, 'h) server_manager" where
  "add_replicas rpc_ok rids m =
     (let (servers, valid) = select_new m rids [] in
      if servers = [] then (0, m)
      else if \<not> rpc_ok then (0, m)
      else (length valid,
            fold track_replica valid (m\<lparr>sm_balancer := add_servers servers (sm_balancer m)\<rparr>)))"

fun select_alive :: "('c, 'h) server_manager \<Rightarrow> string list \<Rightarrow> (string list \<times> string list) result" where
  "select_alive m [] = Inr ([], [])"
| "select_alive m (rid # rids) =
     (if map_of (sm_alive m) rid = None then select_alive m rids
      else bind_r (dict_item (sm_alive_addresses m) rid) (\<lambda>a.
           bind_r (select_alive m rids) (\<lambda>(addrs, vs). Inr (a # addrs, rid # vs))))"

fun index_of :: "'x list \<Rightarrow> 'x \<Rightarrow> nat" where
  "index_of [] x = 0"
| "index_of (y # ys) x = (if y = x then 0 else Suc (index_of ys x))"

definition pop_at :: "nat \<Rightarrow> 'x list \<Rightarrow> 'x list" where
  "pop_at i xs = take i xs @ drop (Suc i) xs"

definition untrack_replica :: "string \<Rightarrow> ('c, 'h) server_manager \<Rightarrow> ('c, 'h) server_manager result" where
  "untrack_replica rid m =
     bind_r (dict_item (sm_alive_addresses m) rid) (\<lambda>a. bind_r (dict_item (sm_alive m) rid) (\<lambda>rp.
       Inr (m\<lparr>sm_handles := (if a \<in> set (sm_addresses m)
                then pop_at (index_of (sm_addresses m) a) (sm_handles m) else sm_handles m),
              sm_addresses := (if a \<in> set (sm_addresses m)
                then pop_at (index_of (sm_addresses m) a) (sm_addresses m) else sm_addresses m),
              sm_replicas := remove1 rp (sm_replicas m),
              sm_alive := dict_del rid (sm_alive m),
              sm_alive_addresses := dict_del rid (sm_alive_addresses m)\<rparr>)))"

text \<open>The clean-up loop; an exception in it is caught, the replicas before it stay removed and the answer is 0.\<close>

fun untrack_all :: "string list \<Rightarrow> ('c, 'h) server_manager \<Rightarrow> bool \<times> ('c, 'h) server_manager" where
  "untrack_all [] m = (True, m)"
| "untrack_all (rid # rids) m =
     (case untrack_replica rid m of Inl e \<Rightarrow> (False, m) | Inr m' \<Rightarrow> untrack_all rids m')"

definition remove_replicas ::
  "bool \<Rightarrow> string list \<Rightarrow> ('c, 'h) server_manager \<Rightarrow> (nat \<times> ('c, 'h) server_manager) result" where
  "remove_replicas rpc_ok rids m =
     bind_r (select_alive m rids) (\<lambda>(addrs, valid).
       if addrs = [] then Inr (0, m)
       else if \<not> rpc_ok then Inr (0, m)
       else let (ok, m') = untrack_all valid (m\<lparr>sm_balancer := remove_servers addrs (sm_balancer m)\<rparr>)
            in Inr (if ok then length valid else 0, m'))"

section \<open>Adding and removing again\<close>

lemma dict_del_append: "dict_del k (d @ e) = dict_del k d @ dict_del k e"
  by (induction d) auto

lemma dict_del_fresh: "k \<notin> set (dict_keys d) \<Longrightarrow> dict_del k d = d"
  by (induction d) (auto simp: dict_keys_def)

lemma index_of_append: "x \<notin> set xs \<Longrightarrow> index_of (xs @ x # ys) x = length xs"
  by (induction xs) auto

lemma pop_at_append: "pop_at (length xs) (xs @ x # ys) = xs @ ys"
  by (simp add: pop_at_def)

text \<open>Hybrid replicas \<open>R rid\<close> that are registered and asleep, with addresses of their own.\<close>

definition asleep :: "(string \<Rightarrow> 'h replica) \<Rightarrow> string list \<Rightarrow> ('c, 'h) server_manager \<Rightarrow> bool" where
  "asleep R rids m \<longleftrightarrow>
     distinct rids \<and> distinct (map (\<lambda>rid. rp_address (R rid)) rids) \<and> inj_on R (set rids) \<and>
     (\<forall>rid \<in> set rids. map_of (sm_hybrid m) rid = Some (R rid) \<and>
        rid \<notin> set (dict_keys (sm_alive m)) \<and> rid \<notin> set (dict_keys (sm_alive_addresses m)) \<and>
        rp_address (R rid) \<notin> set (sm_addresses m) \<and> R rid \<notin> set (sm_replicas m) \<and>
        rp_address (R rid) \<notin> set (dict_keys (lb_inflight (sm_balancer m))) \<and>
        rp_address (R rid) \<notin> set (dict_keys (lb_servers (sm_balancer m)))) \<and>
     length (sm_handles m) = length (sm_addresses m)"

definition awake :: "(string \<Rightarrow> 'h replica) \<Rightarrow> string list \<Rightarrow> ('c, 'h) server_manager \<Rightarrow> ('c, 'h) server_manager" where
  "awake R rids m =
     m\<lparr>sm_handles := sm_handles m @ map (\<lambda>rid. rp_handle (R rid)) rids,
       sm_addresses := sm_addresses m @ map (\<lambda>rid. rp_address (R rid)) rids,
       sm_replicas := sm_replicas m @ map R rids,
       sm_alive := sm_alive m @ map (\<lambda>rid. (rid, R rid)) rids,
       sm_alive_addresses := sm_alive_addresses m @ map (\<lambda>rid. (rid, rp_address (R rid))) rids\<rparr>"

lemma asleep_balancer: "asleep R rids m \<Longrightarrow>
    asleep R rids (m\<lparr>sm_balancer := b\<rparr>) \<longleftrightarrow>
      (\<forall>rid \<in> set rids. rp_address (R rid) \<notin> set (dict_keys (lb_inflight b)) \<and>
        rp_address (R rid) \<notin> set (dict_keys (lb_servers b)))"
  by (auto simp: asleep_def)

lemma track_awake:
  assumes "asleep R (rids @ [rid]) m"
  shows "track_replica rid (awake R rids m) = awake R (rids @ [rid]) m"
proof -
  have "rid \<notin> set (dict_keys (sm_alive m @ map (\<lambda>rid. (rid, R rid)) rids))"
    "rid \<notin> set (dict_keys (sm_alive_addresses m @ map (\<lambda>rid. (rid, rp_address (R rid))) rids))"
    using assms by (auto simp: asleep_def dict_keys_def)
  note f = this [THEN dict_set_fresh]
  have "R rid \<notin> R ` set rids" using assms by (auto simp: asleep_def inj_on_def)
  moreover have "rp_address (R rid) \<notin> (\<lambda>rid. rp_address (R rid)) ` set rids" using assms by (auto simp: asleep_def)
  ultimately show ?thesis using assms by (simp add: track_replica_def awake_def asleep_def f)
qed

lemma asleep_append1: "asleep R (rids @ ids) m \<Longrightarrow> asleep R rids m"
  by (auto simp: asleep_def inj_on_def)

lemma awake_Nil [simp]: "awake R [] m = m"
  by (simp add: awake_def)

lemma track_all_awake: "asleep R rids m \<Longrightarrow> fold track_replica rids m = awake R rids m"
proof (induction rids rule: rev_induct)
  case (snoc rid rids)
  then show ?case using track_awake [OF snoc.prems] asleep_append1 [OF snoc.prems] by simp
qed simp

lemma map_of_self: "x \<in> set xs \<Longrightarrow> map_of (map (\<lambda>x. (x, f x)) xs) x = Some (f x)"
  by (simp add: map_of_map_restrict)

lemma awake_alive: "asleep R rids m \<Longrightarrow> rid \<in> set rids \<Longrightarrow>
    map_of (sm_alive (awake R rids m)) rid = Some (R rid) \<and>
    map_of (sm_alive_addresses (awake R rids m)) rid = Some (rp_address (R rid))"
  by (auto simp: awake_def asleep_def map_add_def keys_map_of map_of_self)

lemma untrack_awake:
  assumes "asleep R (rid # rids) m"
  shows "untrack_replica rid (awake R (rid # rids) m) = Inr (awake R rids m)"
proof -
  have fresh: "rid \<notin> set (dict_keys (sm_alive m))" "rid \<notin> set (dict_keys (sm_alive_addresses m))"
    "rid \<notin> set rids" "R rid \<notin> set (sm_replicas m)" "rp_address (R rid) \<notin> set (sm_addresses m)"
    "length (sm_handles m) = length (sm_addresses m)"
    using assms by (simp_all add: asleep_def)
  have del: "dict_del rid (sm_alive m @ (rid, R rid) # map (\<lambda>rid. (rid, R rid)) rids) =
      sm_alive m @ map (\<lambda>rid. (rid, R rid)) rids"
    using fresh by (simp add: dict_del_append dict_del_fresh dict_keys_def comp_def)
  have dela: "dict_del rid (sm_alive_addresses m @ (rid, rp_address (R rid)) # map (\<lambda>rid. (rid, rp_address (R rid))) rids) =
      sm_alive_addresses m @ map (\<lambda>rid. (rid, rp_address (R rid))) rids"
    using fresh by (simp add: dict_del_append dict_del_fresh dict_keys_def comp_def)
  have get: "dict_item (sm_alive (awake R (rid # rids) m)) rid = Inr (R rid)"
    "dict_item (sm_alive_addresses (awake R (rid # rids) m)) rid = Inr (rp_address (R rid))"
    using awake_alive [OF assms, of rid] by (simp_all add: dict_item_def)
  have popa: "pop_at (length (sm_addresses m)) (sm_handles m @ rp_handle (R rid) # map (\<lambda>rid. rp_handle (R rid)) rids) =
      sm_handles m @ map (\<lambda>rid. rp_handle (R rid)) rids"
    using pop_at_append [of "sm_handles m"] fresh by simp
  have "untrack_replica rid (awake R (rid # rids) m) = Inr ((awake R (rid # rids) m)
      \<lparr>sm_handles := sm_handles m @ map (\<lambda>rid. rp_handle (R rid)) rids,
       sm_addresses := sm_addresses m @ map (\<lambda>rid. rp_address (R rid)) rids,
       sm_replicas := sm_replicas m @ map R rids,
       sm_alive := sm_alive m @ map (\<lambda>rid. (rid, R rid)) rids,
       sm_alive_addresses := sm_alive_addresses m @ map (\<lambda>rid. (rid, rp_address (R rid))) rids\<rparr>)"
    unfolding untrack_replica_def get bind_r_simps using fresh
    by (simp add: awake_def del dela index_of_append pop_at_append popa remove1_append)
  then show ?thesis by (simp add: awake_def)
qed

lemma untrack_all_awake: "asleep R rids m \<Longrightarrow> untrack_all rids (awake R rids m) = (True, m)"
proof (induction rids)
  case (Cons rid rids)
  have "asleep R rids m" using Cons.prems by (auto simp: asleep_def)
  then show ?case using Cons untrack_awake [OF Cons.prems] by simp
qed simp

lemma select_new_asleep: "asleep R rids m \<Longrightarrow>
    \<forall>rid \<in> set rids. rp_address (R rid) \<notin> set (dict_keys sv) \<Longrightarrow>
    select_new m rids sv = (sv @ map (\<lambda>rid. (rp_address (R rid), rp_handle (R rid))) rids, rids)"
proof (induction rids arbitrary: sv)
  case (Cons rid rids)
  have "asleep R rids m" using Cons.prems(1) by (auto simp: asleep_def)
  moreover have "\<forall>x \<in> set rids. rp_address (R x) \<notin> set (dict_keys (sv @ [(rp_address (R rid), rp_handle (R rid))]))"
  proof -
    have "rp_address (R rid) \<notin> (\<lambda>x. rp_address (R x)) ` set rids" using Cons.prems(1) by (simp add: asleep_def)
    then have "rp_address (R x) \<noteq> rp_address (R rid)" if "x \<in> set rids" for x
      using that by (metis (no_types, lifting) image_iff)
    with Cons.prems(2) show ?thesis by (simp add: dict_keys_def)
  qed
  moreover have "map_of (sm_hybrid m) rid = Some (R rid)" "map_of (sm_alive m) rid = None"
    using Cons.prems(1) by (auto simp: asleep_def keys_map_of)
  ultimately show ?case using Cons by (simp add: dict_set_fresh Let_def)
qed simp

lemma select_alive_awake: "(\<And>rid. rid \<in> set rids \<Longrightarrow> map_of (sm_alive m) rid \<noteq> None \<and>
      map_of (sm_alive_addresses m) rid = Some (rp_address (R rid))) \<Longrightarrow>
    select_alive m rids = Inr (map (\<lambda>rid. rp_address (R rid)) rids, rids)"
  by (induction rids) (auto simp: dict_item_def)

lemma awake_balancer: "awake R rids (m\<lparr>sm_balancer := b\<rparr>) = (awake R rids m)\<lparr>sm_balancer := b\<rparr>"
  by (rule server_manager.equality) (simp_all add: awake_def)

lemma track_frame: "fold track_replica rids (m\<lparr>sm_balancer := b\<rparr>) =
    (fold track_replica rids m)\<lparr>sm_balancer := b\<rparr>"
proof (induction rids arbitrary: m)
  case (Cons rid rids)
  have "track_replica rid (m\<lparr>sm_balancer := b\<rparr>) = (track_replica rid m)\<lparr>sm_balancer := b\<rparr>"
    by (simp add: track_replica_def split: option.splits)
  then show ?case using Cons by simp
qed simp

lemma untrack_frame: "untrack_all rids (m\<lparr>sm_balancer := b\<rparr>) =
    (fst (untrack_all rids m), (snd (untrack_all rids m))\<lparr>sm_balancer := b\<rparr>)"
proof (induction rids arbitrary: m)
  case (Cons rid rids)
  have "untrack_replica rid (m\<lparr>sm_balancer := b\<rparr>) =
      (case untrack_replica rid m of Inl e \<Rightarrow> Inl e | Inr m' \<Rightarrow> Inr (m'\<lparr>sm_balancer := b\<rparr>))"
    by (auto simp: untrack_replica_def dict_item_def split: option.splits)
  then show ?case using Cons by (simp split: sum.splits)
qed simp

lemma balancer_roundtrip:
  assumes "distinct (map fst sv)"
    and "\<forall>a \<in> set (map fst sv). a \<notin> set (dict_keys (lb_inflight b)) \<and> a \<notin> set (dict_keys (lb_servers b))"
  shows "remove_servers (map fst sv) (add_servers sv b) = b"
proof -
  have add: "add_servers sv b = b\<lparr>lb_inflight := lb_inflight b @ map (\<lambda>(a, h). (a, 0)) sv,
      lb_servers := lb_servers b @ sv\<rparr>"
    using assms
  proof (induction sv arbitrary: b)
    case (Cons x sv)
    obtain a h where x: "x = (a, h)" by (cases x)
    have s: "add_server x b = b\<lparr>lb_inflight := lb_inflight b @ [(a, 0)], lb_servers := lb_servers b @ [(a, h)]\<rparr>"
      using Cons.prems by (simp add: add_server_def x dict_set_fresh)
    have "add_servers sv (add_server x b) = (add_server x b)\<lparr>
        lb_inflight := lb_inflight (add_server x b) @ map (\<lambda>(a, h). (a, 0)) sv,
        lb_servers := lb_servers (add_server x b) @ sv\<rparr>"
      using Cons.prems by (intro Cons.IH) (auto simp: s [unfolded x] x dict_keys_def)
    then show ?case by (simp add: add_servers_def s [unfolded x] x)
  qed (simp add: add_servers_def)
  have "remove_servers (map fst sv) (b\<lparr>lb_inflight := lb_inflight b @ map (\<lambda>(a, h). (a, 0)) sv,
      lb_servers := lb_servers b @ sv\<rparr>) = b"
    using assms
  proof (induction sv arbitrary: b)
    case (Cons x sv)
    obtain a h where x: "x = (a, h)" by (cases x)
    have "dict_del a (lb_inflight b @ (a, 0) # map (\<lambda>(a, h). (a, 0)) sv) =
        lb_inflight b @ map (\<lambda>(a, h). (a, 0)) sv"
      using Cons.prems by (simp add: x dict_del_append dict_del_fresh dict_keys_def comp_def case_prod_beta)
    moreover have "dict_del a (lb_servers b @ (a, h) # sv) = lb_servers b @ sv"
      using Cons.prems by (simp add: x dict_del_append dict_del_fresh dict_keys_def)
    ultimately show ?case using Cons by (simp add: remove_servers_def remove_server_def x)
  qed (simp add: remove_servers_def)
  then show ?thesis by (simp add: add)
qed

section \<open>Properties\<close>

text \<open>C28 An interruption is invisible: let every answer of the server be a prefix of what the model
  generates within the token limit of the request, and all of it unless the answer was aborted. Then
  however often the generation is aborted and resumed, the tokens returned are exactly those of one
  uninterrupted generation within the caller's limit, and every token keeps its log-probability.\<close>

theorem resume_is_invisible:
  assumes "faithful_server nxt srv" and "scores_tokens srv" and "token_limit sp = Some (int n)"
    and "resume_generate fuel True srv prompt sp s = Some (r, sp', s')"
  shows "gr_ids r = complete nxt n prompt \<and> length (gr_log_probs r) = length (gr_ids r)"
  using generate_loop_complete [OF assms(1), of fuel prompt n sp s empty_result r sp' s']
    generate_loop_scores [OF assms(2), of fuel True prompt "Some (int n)" sp s empty_result r sp' s'] assms(3,4)
  by (simp add: resume_generate_def empty_result_def)

text \<open>A server that counts up to 5 and is aborted once, after two tokens.\<close>

definition count_up :: "int list \<Rightarrow> int option" where
  "count_up ctx = (if ctx \<noteq> [] \<and> last ctx < 5 then Some (last ctx + 1) else None)"

definition aborting_server :: "(bool, int, nat) server" where
  "aborting_server fresh ctx sp =
     (let n = (case token_limit sp of None \<Rightarrow> 10 | Some k \<Rightarrow> nat k);
          ids = (if fresh then take 2 (complete count_up n ctx) else complete count_up n ctx)
      in (\<lparr>to_ids = ids, to_log_probs = Some ids, to_routed = None, to_preempted = None,
           to_stop = Some (if fresh then ''abort'' else ''stop''), to_steps = Some 0\<rparr>, False))"

lemma aborting_server_ok: "faithful_server count_up aborting_server" "scores_tokens aborting_server"
proof -
  have "\<exists>k. complete count_up n ctx = take k (complete count_up n ctx)" for n ctx
    by (rule exI [of _ "length (complete count_up n ctx)"]) simp
  then show "faithful_server count_up aborting_server"
    by (auto simp: faithful_server_def aborting_server_def Let_def is_abort_def)
qed (simp add: scores_tokens_def aborting_server_def Let_def)

definition four_tokens :: sampling_params where
  "four_tokens = \<lparr>sp_max_tokens = Some (Some 4), sp_max_new_tokens = None\<rparr>"

lemma aborting_run: "map_option (\<lambda>(r, sp, s). (gr_ids r, gr_stop r, sp_max_tokens sp))
    (resume_generate 3 True aborting_server [0] four_tokens True) = Some ([1, 2, 3, 4], Some ''length'', Some (Some 0))"
  by code_simp

theorem resume_is_invisible_witness:
  "\<exists>r sp' s'. resume_generate 3 True aborting_server [0] four_tokens True = Some (r, sp', s') \<and>
     gr_ids r = complete count_up 4 [0] \<and> length (gr_log_probs r) = length (gr_ids r)"
proof -
  obtain r sp' s' where r: "resume_generate 3 True aborting_server [0] four_tokens True = Some (r, sp', s')"
    using aborting_run by auto
  have "token_limit four_tokens = Some (int 4)" by (simp add: token_limit_def four_tokens_def)
  from resume_is_invisible [OF aborting_server_ok this r] r show ?thesis by blast
qed

text \<open>Resuming ends: if every aborted answer uses up something (\<open>left\<close>, for instance the parameter
  syncs still to come), \<open>generate\<close> returns after at most that many answers and one more.\<close>

theorem resume_generate_total:
  assumes "\<And>s ctx sp. is_abort (to_stop (fst (srv s ctx sp))) \<Longrightarrow> left (snd (srv s ctx sp)) < left s"
    and "left s < fuel"
  shows "resume_generate fuel partial_rollout srv prompt sp s \<noteq> None"
  unfolding resume_generate_def by (rule generate_loop_total [OF assms])

theorem resume_generate_total_witness:
  "resume_generate 2 True aborting_server [0] four_tokens True \<noteq> None"
  by (rule resume_generate_total [where left = "\<lambda>fresh. if fresh then 1 else 0"])
    (auto simp: aborting_server_def Let_def is_abort_def split: if_splits)

text \<open>Validation on the trainer's GPUs leaves the pool as it was: activating registered, sleeping hybrid
  replicas and deactivating them again reports each of them both times and restores the whole state of
  the manager and of its load balancer: addresses, handles, replicas, active sets, counters and order.\<close>

theorem hybrid_replicas_roundtrip:
  assumes "asleep R rids m" and "rids \<noteq> []"
  shows "fst (add_replicas True rids m) = length rids \<and>
    remove_replicas True rids (snd (add_replicas True rids m)) = Inr (length rids, m)"
proof -
  let ?sv = "map (\<lambda>rid. (rp_address (R rid), rp_handle (R rid))) rids"
  let ?b = "add_servers ?sv (sm_balancer m)" and ?addr = "map (\<lambda>rid. rp_address (R rid)) rids"
  let ?m = "m\<lparr>sm_balancer := ?b\<rparr>"
  have keys: "map fst ?sv = ?addr" by (simp add: comp_def)
  have rt: "remove_servers ?addr ?b = sm_balancer m"
    using balancer_roundtrip [of ?sv "sm_balancer m"] assms(1) by (simp add: comp_def asleep_def)
  have "select_new m rids [] = (?sv, rids)"
    using select_new_asleep [OF assms(1), of "[]"] by (simp add: dict_keys_def)
  moreover have tr: "fold track_replica rids m' = awake R rids m'" "untrack_all rids (awake R rids m') = (True, m')"
    if "m' = m\<lparr>sm_balancer := b\<rparr>" for m' b
  proof -
    have a: "asleep R rids (m\<lparr>sm_balancer := sm_balancer m\<rparr>)" using assms(1) by simp
    show "fold track_replica rids m' = awake R rids m'"
      using track_frame [where rids = rids and m = m and b = b] track_all_awake [OF assms(1)] by (simp add: that awake_balancer)
    show "untrack_all rids (awake R rids m') = (True, m')"
      using untrack_frame [where rids = rids and m = "awake R rids m" and b = b] untrack_all_awake [OF assms(1)] by (simp add: that awake_balancer)
  qed
  ultimately have add: "add_replicas True rids m = (length rids, awake R rids ?m)"
    using assms(2) by (simp add: add_replicas_def)
  have "select_alive (awake R rids ?m) rids = Inr (?addr, rids)"
    using awake_alive [OF assms(1)] by (intro select_alive_awake) (simp add: awake_def)
  moreover have "(awake R rids ?m)\<lparr>sm_balancer := remove_servers ?addr (sm_balancer (awake R rids ?m))\<rparr> =
      awake R rids (m\<lparr>sm_balancer := sm_balancer m\<rparr>)"
    by (simp add: awake_def rt)
  ultimately show ?thesis using assms(2) tr(2) [OF refl, of "sm_balancer m"] by (simp add: add remove_replicas_def)
qed

definition example_replica :: "string \<Rightarrow> nat replica" where
  "example_replica rid = \<lparr>rp_id = length rid, rp_address = rid @ ''.addr'', rp_handle = length rid\<rparr>"

definition example_manager :: "((string \<times> string) list, nat) server_manager" where
  "example_manager = \<lparr>sm_hybrid = [(''h'', example_replica ''h''), (''hh'', example_replica ''hh'')],
     sm_alive = [], sm_alive_addresses = [], sm_addresses = [''s''], sm_handles = [9], sm_replicas = [],
     sm_balancer = \<lparr>lb_servers = [(''s'', 9)], lb_inflight = [(''s'', 3)], lb_cache = []\<rparr>\<rparr>"

theorem hybrid_replicas_roundtrip_witness:
  "fst (add_replicas True [''h'', ''hh''] example_manager) = length [''h'', ''hh''] \<and>
   remove_replicas True [''h'', ''hh''] (snd (add_replicas True [''h'', ''hh''] example_manager)) =
     Inr (length [''h'', ''hh''], example_manager)"
  by (rule hybrid_replicas_roundtrip [of example_replica])
    (simp_all add: asleep_def example_manager_def example_replica_def dict_keys_def)

end
