(* ===== verification/TokenBucket.thy ===== *)
theory TokenBucket
  imports Prelude Complex_Main
begin

text \<open>
  The token bucket that limits the rate of reward requests
  (\<open>AsyncTokenBucket\<close> of \<^verbatim>\<open>verl/experimental/reward_loop/reward_manager/limited.py\<close>). Times and amounts
  are rationals (floating point in the code). An \<open>acquire\<close> is a sequence of attempts, each under the
  lock at a time of the event loop; between two attempts it sleeps.
\<close>

record bucket =
  b_rate :: rat
  b_max :: rat
  b_tokens :: rat
  b_last :: "rat option"

text \<open>\<open>max_tokens or rate_limit\<close>: a missing or zero maximum is replaced by the rate.\<close>

definition bucket_init :: "rat \<Rightarrow> rat option \<Rightarrow> bucket" where
  "bucket_init rate max_tokens =
     (let m = (case max_tokens of None \<Rightarrow> rate | Some x \<Rightarrow> if x = 0 then rate else x)
      in \<lparr>b_rate = rate, b_max = m, b_tokens = m, b_last = None\<rparr>)"

definition refill :: "rat \<Rightarrow> bucket \<Rightarrow> bucket" where
  "refill now b =
     (let last = (case b_last b of None \<Rightarrow> now | Some t \<Rightarrow> t);
          new_tokens = (now - last) * b_rate b
      in b\<lparr>b_tokens := min (b_max b) (b_tokens b + new_tokens), b_last := Some now\<rparr>)"

text \<open>The answer of an attempt: the request is granted, now or after a sleep that is not followed by
  another attempt, or it must try again after a sleep. Dividing by a zero rate raises.\<close>

datatype attempt = Granted rat | Retry rat

definition acquire_attempt :: "rat \<Rightarrow> rat \<Rightarrow> bucket \<Rightarrow> (attempt \<times> bucket) result" where
  "acquire_attempt num now b =
     (let b1 = refill now b in
      if b_max b < num
      then require (b_tokens b1 < num \<longrightarrow> b_rate b \<noteq> 0) ZeroDivisionError
             (Inr (Granted (if b_tokens b1 < num then (num - b_tokens b1) / b_rate b else 0),
                   b1\<lparr>b_tokens := b_tokens b1 - num\<rparr>))
      else if num \<le> b_tokens b1 then Inr (Granted 0, b1\<lparr>b_tokens := b_tokens b1 - num\<rparr>)
      else require (b_rate b \<noteq> 0) ZeroDivisionError
             (Inr (Retry ((num - b_tokens b1) / b_rate b), b1)))"

section \<open>Runs\<close>

text \<open>A run is a sequence of attempts of any number of callers, in the order in which they hold the
  lock: the amount asked for and the time. The log lists the granted amounts with the time at which
  their \<open>acquire\<close> returns.\<close>

fun bucket_run :: "(rat \<times> rat) list \<Rightarrow> bucket \<Rightarrow> ((rat \<times> rat) list \<times> bucket) result" where
  "bucket_run [] b = Inr ([], b)"
| "bucket_run ((num, now) # xs) b =
     bind_r (acquire_attempt num now b) (\<lambda>(a, b').
     bind_r (bucket_run xs b') (\<lambda>(gs, b'').
       Inr ((case a of Granted w \<Rightarrow> (num, now + w) # gs | Retry w \<Rightarrow> gs), b'')))"

fun times_from :: "rat \<Rightarrow> (rat \<times> rat) list \<Rightarrow> bool" where
  "times_from t [] = True"
| "times_from t ((num, now) # xs) = (t \<le> now \<and> 0 \<le> num \<and> times_from now xs)"

lemma refill_simps [simp]:
  "b_rate (refill now b) = b_rate b" "b_max (refill now b) = b_max b" "b_last (refill now b) = Some now"
  by (simp_all add: refill_def Let_def)

lemma refill_le: "b_tokens (refill now b) \<le> b_max b"
  by (simp add: refill_def Let_def)

lemma refill_bound:
  assumes "b_last b = Some t"
  shows "b_tokens (refill now b) \<le> b_tokens b + b_rate b * (now - t)"
  using assms by (simp add: refill_def Let_def mult.commute)

lemma granted_covered:
  assumes att: "acquire_attempt num now b = Inr (Granted w, b')" and rate: "0 < b_rate b"
  shows "0 \<le> w \<and> b_tokens b' = b_tokens (refill now b) - num \<and> 0 \<le> b_tokens b' + b_rate b * w \<and>
    b_last b' = Some now \<and> b_rate b' = b_rate b \<and> b_max b' = b_max b"
  using att rate
  by (auto simp: acquire_attempt_def Let_def require_Inr split: if_splits)

lemma retry_frame:
  assumes "acquire_attempt num now b = Inr (Retry w, b')"
  shows "b' = refill now b"
  using assms by (auto simp: acquire_attempt_def Let_def require_Inr split: if_splits)

text \<open>The tokens granted so far and the balance never exceed the capacity plus what has been refilled;
  a return is late enough for the balance to be non-negative by then.\<close>

lemma bucket_run_bound:
  assumes "bucket_run xs b = Inr (gs, b')" "0 < b_rate b" "b_last b = Some t" "times_from t xs"
    and "0 \<le> given" "given + b_tokens b \<le> cap + b_rate b * (t - t0)"
  shows "\<forall>i < length gs. given + sum_list (map fst (take (Suc i) gs)) \<le> cap + b_rate b * (snd (gs ! i) - t0)"
  using assms
proof (induction xs arbitrary: b gs t given)
  case Nil
  then show ?case by simp
next
  case (Cons x xs)
  obtain num now where x: "x = (num, now)" by (cases x)
  from Cons.prems(1) obtain a b1 gs1 where a: "acquire_attempt num now b = Inr (a, b1)"
    and r: "bucket_run xs b1 = Inr (gs1, b')"
    and gs: "gs = (case a of Granted w \<Rightarrow> (num, now + w) # gs1 | Retry w \<Rightarrow> gs1)"
    by (auto simp: x bind_r_Inr)
  have le: "t \<le> now" "0 \<le> num" "times_from now xs" using Cons.prems(4) by (simp_all add: x)
  have tok: "b_tokens (refill now b) \<le> b_tokens b + b_rate b * (now - t)"
    by (rule refill_bound [OF Cons.prems(3)])
  have step: "given + b_tokens (refill now b) \<le> cap + b_rate b * (now - t0)"
    using tok Cons.prems(6) by (simp add: algebra_simps)
  show ?case
  proof (cases a)
    case (Retry w)
    with a have b1: "b1 = refill now b" by (simp add: retry_frame)
    show ?thesis
      using Cons.IH [OF r, of now given] Cons.prems(2,5) le step by (simp add: b1 gs Retry)
  next
    case (Granted w)
    from granted_covered [OF a [unfolded Granted] Cons.prems(2)]
    have g: "0 \<le> w" "b_tokens b1 = b_tokens (refill now b) - num" "0 \<le> b_tokens b1 + b_rate b * w"
      "b_last b1 = Some now" "b_rate b1 = b_rate b" by auto
    have bal: "(given + num) + b_tokens b1 \<le> cap + b_rate b1 * (now - t0)"
      using step by (simp add: g)
    have first: "given + num \<le> cap + b_rate b * (now + w - t0)"
      using bal g(3) by (simp add: g(5) algebra_simps)
    have rest: "\<forall>i < length gs1. (given + num) + sum_list (map fst (take (Suc i) gs1))
        \<le> cap + b_rate b * (snd (gs1 ! i) - t0)"
      using Cons.IH [OF r, of now "given + num"] Cons.prems(2,5) le bal g by simp
    show ?thesis
    proof (intro allI impI)
      fix i assume "i < length gs"
      then show "given + sum_list (map fst (take (Suc i) gs)) \<le> cap + b_rate b * (snd (gs ! i) - t0)"
        using first rest by (cases i) (auto simp: gs Granted add.assoc)
    qed
  qed
qed

section \<open>Properties\<close>

text \<open>The rate limit holds: with a positive rate, whatever callers ask for and however their attempts
  interleave, when an acquire returns at time \<open>T\<close>, all amounts granted up to it, oversized requests
  included, are at most the capacity of the bucket plus the rate times the time since the first attempt.\<close>

theorem bucket_rate_limit:
  assumes "0 < rate" and "bucket_run ((num, t0) # xs) (bucket_init rate max_tokens) = Inr (gs, b)"
    and "times_from t0 ((num, t0) # xs)" and "i < length gs"
  shows "sum_list (map fst (take (Suc i) gs)) \<le>
    b_max (bucket_init rate max_tokens) + rate * (snd (gs ! i) - t0)"
proof -
  let ?b = "bucket_init rate max_tokens"
  have rate: "b_rate ?b = rate" by (simp add: bucket_init_def Let_def)
  have "refill t0 (?b\<lparr>b_last := Some t0\<rparr>) = refill t0 ?b"
    by (simp add: refill_def Let_def bucket_init_def)
  then have "acquire_attempt num t0 (?b\<lparr>b_last := Some t0\<rparr>) = acquire_attempt num t0 ?b"
    by (simp add: acquire_attempt_def Let_def)
  then have run: "bucket_run ((num, t0) # xs) (?b\<lparr>b_last := Some t0\<rparr>) = Inr (gs, b)"
    using assms(2) by simp
  have "b_tokens ?b \<le> b_max ?b" by (simp add: bucket_init_def Let_def)
  then show ?thesis
    using bucket_run_bound [OF run, of t0 0 "b_max ?b" t0] assms(1,3,4) by (simp add: rate)
qed

lemma bucket_example:
  "bucket_run [(2, 0), (1, 1), (5, 2), (1, 6), (1, 7)] (bucket_init 1 (Some 2)) =
     Inr ([(2, 0), (1, 1), (5, 6), (1, 7)], \<lparr>b_rate = 1, b_max = 2, b_tokens = 0, b_last = Some 7\<rparr>)"
  by (simp add: bucket_init_def acquire_attempt_def refill_def Let_def)

theorem bucket_rate_limit_witness:
  "sum_list (map fst (take (Suc 2) [(2, 0), (1, 1), (5, 6), (1, 7)])) \<le> b_max (bucket_init 1 (Some 2)) + (1 :: rat) * (6 - 0)"
  using bucket_rate_limit [OF _ bucket_example, of 2] by simp

text \<open>A waiting request is served: if an attempt is told to retry after \<open>w\<close> and no other caller
  takes tokens meanwhile, the attempt after the sleep, however late it runs, is granted at once.\<close>

theorem bucket_retry_succeeds:
  assumes "0 < b_rate b" and "acquire_attempt num now b = Inr (Retry w, b')" and "now + w \<le> later"
  shows "0 < w \<and> (\<exists>b''. acquire_attempt num later b' = Inr (Granted 0, b''))"
proof -
  from assms(1,2) have small: "num \<le> b_max b" and lt: "b_tokens (refill now b) < num"
    and w: "w = (num - b_tokens (refill now b)) / b_rate b" and b': "b' = refill now b"
    by (auto simp: acquire_attempt_def Let_def require_Inr split: if_splits)
  have "num - b_tokens (refill now b) = w * b_rate b" using assms(1) by (simp add: w)
  also have "\<dots> \<le> (later - now) * b_rate b" using assms(1,3) by (intro mult_right_mono) auto
  finally have "num \<le> b_tokens (refill later b')"
    using small by (simp add: b' refill_def [of later] Let_def)
  moreover have "0 < w" using lt assms(1) by (simp add: w)
  ultimately show ?thesis using small by (simp add: acquire_attempt_def Let_def b')
qed

theorem bucket_retry_succeeds_witness:
  "\<exists>b''. acquire_attempt 2 2 (refill 1 \<lparr>b_rate = 1, b_max = 2, b_tokens = 0, b_last = Some 0\<rparr>) = Inr (Granted 0, b'')"
  using bucket_retry_succeeds [of "\<lparr>b_rate = 1, b_max = 2, b_tokens = 0, b_last = Some 0\<rparr>" 2 1 1
      "refill 1 \<lparr>b_rate = 1, b_max = 2, b_tokens = 0, b_last = Some 0\<rparr>" 2]
  by (simp add: acquire_attempt_def Let_def refill_def [of 1])

end
