(* ===== verification/Checkpoint.thy ===== *)
theory Checkpoint
  imports Prelude Complex_Main
begin

text \<open>
  Checkpoint rotation and resumption (\<^verbatim>\<open>verl/utils/checkpoint/checkpoint_manager.py\<close>, called by
  \<^verbatim>\<open>fsdp_checkpoint_manager.py\<close> and, for the tracker file, by the trainer). The disk is the set of
  the checkpoint directories on it; \<open>save_phases\<close> gives the disk after every phase of a save, so that
  what a crash leaves behind is visible.
\<close>

section \<open>Rotation\<close>

record 'p ckpt_state =
  ck_saved :: "'p list"
  ck_disk :: "'p set"

definition remove_previous_save_local_path :: "'p list \<Rightarrow> 'p ckpt_state \<Rightarrow> 'p ckpt_state" where
  "remove_previous_save_local_path paths s = s\<lparr>ck_disk := ck_disk s - set paths\<rparr>"

text \<open>The retention limit is None when \<open>max_ckpt_to_keep\<close> is None or not an int.\<close>

definition ensure_checkpoint_capacity :: "int option \<Rightarrow> 'p ckpt_state \<Rightarrow> 'p ckpt_state" where
  "ensure_checkpoint_capacity keep s =
     (case keep of
        None \<Rightarrow> s
      | Some n \<Rightarrow>
          if n \<le> 1 then s
          else if n \<le> int (length (ck_saved s))
          then (let keep_start = length (ck_saved s) - nat n + 1
                in (remove_previous_save_local_path (take keep_start (ck_saved s)) s)
                     \<lparr>ck_saved := drop keep_start (ck_saved s)\<rparr>)
          else s)"

definition register_checkpoint :: "'p \<Rightarrow> int option \<Rightarrow> 'p ckpt_state \<Rightarrow> 'p ckpt_state" where
  "register_checkpoint p keep s =
     (let s1 = s\<lparr>ck_saved := ck_saved s @ [p]\<rparr> in
      case keep of
        None \<Rightarrow> s1
      | Some n \<Rightarrow>
          if n \<le> 0 then s1
          else if n < int (length (ck_saved s1))
          then (let keep_start = length (ck_saved s1) - nat n
                in (remove_previous_save_local_path (take keep_start (ck_saved s1)) s1)
                     \<lparr>ck_saved := drop keep_start (ck_saved s1)\<rparr>)
          else s1)"

text \<open>\<open>save_checkpoint\<close> on rank 0: make room, write the directory, register it.\<close>

definition save_phases :: "int option \<Rightarrow> 'p \<Rightarrow> 'p ckpt_state \<Rightarrow> 'p ckpt_state list" where
  "save_phases keep p s =
     (let s1 = ensure_checkpoint_capacity keep s;
          s2 = s1\<lparr>ck_disk := insert p (ck_disk s1)\<rparr>;
          s3 = register_checkpoint p keep s2
      in [s1, s2, s3])"

definition save_checkpoint :: "int option \<Rightarrow> 'p \<Rightarrow> 'p ckpt_state \<Rightarrow> 'p ckpt_state" where
  "save_checkpoint keep p s = last (save_phases keep p s)"

definition fresh_ckpt :: "'p ckpt_state" where
  "fresh_ckpt = \<lparr>ck_saved = [], ck_disk = {}\<rparr>"

definition rotation_inv :: "'p ckpt_state \<Rightarrow> bool" where
  "rotation_inv s \<longleftrightarrow> distinct (ck_saved s) \<and> ck_disk s = set (ck_saved s)"

lemma ensure_effect:
  assumes "rotation_inv s" "1 < n"
  shows "ensure_checkpoint_capacity (Some (int n)) s =
    \<lparr>ck_saved = last_n (n - 1) (ck_saved s), ck_disk = set (last_n (n - 1) (ck_saved s))\<rparr> \<or>
    (length (ck_saved s) < n \<and> ensure_checkpoint_capacity (Some (int n)) s = s)"
proof (cases "n \<le> length (ck_saved s)")
  case True
  then have k: "length (ck_saved s) - nat (int n) + 1 = length (ck_saved s) - (n - 1)" using assms(2) by simp
  have "ck_disk s - set (take (length (ck_saved s) - (n - 1)) (ck_saved s)) =
      set (last_n (n - 1) (ck_saved s))"
    using assms(1) distinct_drop_set [of "ck_saved s"] by (simp add: rotation_inv_def last_n_def)
  then show ?thesis using True assms(2)
    unfolding ensure_checkpoint_capacity_def option.case Let_def k
    by (simp add: remove_previous_save_local_path_def last_n_def)
next
  case False
  then show ?thesis by (simp add: ensure_checkpoint_capacity_def)
qed

lemma register_effect:
  assumes "distinct (ck_saved s @ [p])" "ck_disk s = set (ck_saved s @ [p])" "0 < n"
  shows "register_checkpoint p (Some (int n)) s =
    \<lparr>ck_saved = last_n n (ck_saved s @ [p]), ck_disk = set (last_n n (ck_saved s @ [p]))\<rparr>"
proof -
  let ?L = "ck_saved s @ [p]"
  have d: "ck_disk s - set (take (length ?L - n) ?L) = set (last_n n ?L)"
    unfolding assms(2) last_n_def by (rule distinct_drop_set [OF assms(1)])
  show ?thesis
  proof (cases "n < length ?L")
    case True
    then show ?thesis using assms(3) d
      by (simp add: register_checkpoint_def Let_def remove_previous_save_local_path_def last_n_def)
  next
    case False
    then show ?thesis using assms by (simp add: register_checkpoint_def Let_def)
  qed
qed

lemma save_phases_effect:
  assumes inv: "rotation_inv s" and p: "p \<notin> set (ck_saved s)" and n: "0 < n" "length (ck_saved s) \<le> n"
  shows "save_phases (Some (int n)) p s =
    (let kept = (if n = 1 then ck_saved s else last_n (n - 1) (ck_saved s)) in
     [\<lparr>ck_saved = kept, ck_disk = set kept\<rparr>, \<lparr>ck_saved = kept, ck_disk = insert p (set kept)\<rparr>,
      \<lparr>ck_saved = last_n n (ck_saved s @ [p]), ck_disk = set (last_n n (ck_saved s @ [p]))\<rparr>])"
proof -
  let ?kept = "if n = 1 then ck_saved s else last_n (n - 1) (ck_saved s)"
  have s: "s = \<lparr>ck_saved = ck_saved s, ck_disk = set (ck_saved s)\<rparr>" using inv by (simp add: rotation_inv_def)
  have ens: "ensure_checkpoint_capacity (Some (int n)) s = \<lparr>ck_saved = ?kept, ck_disk = set ?kept\<rparr>"
  proof (cases "n = 1")
    case True
    then show ?thesis using s by (simp add: ensure_checkpoint_capacity_def)
  next
    case False
    then have "1 < n" using n(1) by simp
    from ensure_effect [OF inv this] show ?thesis
    proof (elim disjE conjE)
      assume "length (ck_saved s) < n" "ensure_checkpoint_capacity (Some (int n)) s = s"
      moreover from this have "last_n (n - 1) (ck_saved s) = ck_saved s" by simp
      ultimately show ?thesis using s False by simp
    qed (use False in simp)
  qed
  have dist: "distinct (?kept @ [p])"
    using inv p set_last_n [of "n - 1" "ck_saved s"] by (auto simp: rotation_inv_def distinct_last_n)
  have "last_n n (?kept @ [p]) = last_n n (ck_saved s @ [p])"
  proof (cases n)
    case (Suc m)
    then show ?thesis by (auto simp: last_n_snoc last_n_last_n last_n_def)
  qed (use n in simp)
  with register_effect [of "\<lparr>ck_saved = ?kept, ck_disk = insert p (set ?kept)\<rparr>" p n] dist n(1)
  show ?thesis by (simp add: save_phases_def ens Let_def)
qed

definition saves :: "int option \<Rightarrow> 'p list \<Rightarrow> 'p ckpt_state" where
  "saves keep ps = fold (\<lambda>p s. save_checkpoint keep p s) ps fresh_ckpt"

lemma saves_snoc: "saves keep (ps @ [p]) = save_checkpoint keep p (saves keep ps)"
  by (simp add: saves_def)

lemma saves_effect:
  assumes "distinct ps" "0 < n"
  shows "saves (Some (int n)) ps = \<lparr>ck_saved = last_n n ps, ck_disk = set (last_n n ps)\<rparr>"
  using assms(1)
proof (induction ps rule: rev_induct)
  case Nil
  then show ?case by (simp add: saves_def fresh_ckpt_def)
next
  case (snoc p ps)
  have eq: "saves (Some (int n)) ps = \<lparr>ck_saved = last_n n ps, ck_disk = set (last_n n ps)\<rparr>"
    using snoc by simp
  have "rotation_inv (saves (Some (int n)) ps)" "p \<notin> set (ck_saved (saves (Some (int n)) ps))"
    "length (ck_saved (saves (Some (int n)) ps)) \<le> n"
    using snoc.prems set_last_n [of n ps] by (auto simp: eq rotation_inv_def distinct_last_n)
  from save_phases_effect [OF this(1,2) assms(2) this(3)] have
    "save_checkpoint (Some (int n)) p (saves (Some (int n)) ps) =
      \<lparr>ck_saved = last_n n (last_n n ps @ [p]), ck_disk = set (last_n n (last_n n ps @ [p]))\<rparr>"
    by (simp add: save_checkpoint_def eq Let_def)
  moreover have "last_n n (last_n n ps @ [p]) = last_n n (ps @ [p])"
    using assms(2) by (cases n) (simp_all add: last_n_snoc last_n_last_n)
  ultimately show ?case by (simp add: saves_snoc)
qed

lemma saves_unlimited: "ck_disk (saves None ps) = set ps"
proof (induction ps rule: rev_induct)
  case Nil
  then show ?case by (simp add: saves_def fresh_ckpt_def)
next
  case (snoc p ps)
  then show ?case
    by (simp add: saves_snoc save_checkpoint_def save_phases_def ensure_checkpoint_capacity_def
      register_checkpoint_def Let_def)
qed

section \<open>Finding the latest checkpoint\<close>

text \<open>\<open>tracker\<close> is the content of the tracker file, None when there is none, parsed by \<open>int\<close> (which may
  raise); \<open>ckpt_dir\<close> joins the base path and the formatted directory name.\<close>

definition find_latest_ckpt_path ::
  "'b option \<Rightarrow> ('b \<Rightarrow> int result option) \<Rightarrow> ('b \<Rightarrow> int \<Rightarrow> 'p) \<Rightarrow> 'p set \<Rightarrow> 'p option result" where
  "find_latest_ckpt_path path tracker ckpt_dir disk =
     (case path of
        None \<Rightarrow> Inr None
      | Some base \<Rightarrow> (case tracker base of
            None \<Rightarrow> Inr None
          | Some r \<Rightarrow> bind_r r (\<lambda>iteration.
              let p = ckpt_dir base iteration in Inr (if p \<in> disk then Some p else None))))"

section \<open>Expiring instances\<close>

text \<open>The two environment variables: None when unset or empty; the value parsed by \<open>float\<close> and \<open>int\<close>.\<close>

definition should_save_ckpt_esi ::
  "rat result option \<Rightarrow> int result option \<Rightarrow> rat \<Rightarrow> rat \<Rightarrow> rat \<Rightarrow> rat \<Rightarrow> bool result" where
  "should_save_ckpt_esi mlp aws now max_steps_duration save_ckpt_duration redundant_time =
     (case mlp of
        Some (Inl e) \<Rightarrow> (if e = ValueError then Inr False else Inl e)
      | Some (Inr t) \<Rightarrow> (let remaining = t - now in
          Inr (0 < remaining \<and> 0 < max_steps_duration \<and>
               remaining \<le> save_ckpt_duration + max_steps_duration + redundant_time))
      | None \<Rightarrow> (case aws of
          None \<Rightarrow> Inr False
        | Some r \<Rightarrow> bind_r r (\<lambda>t.
            Inr (of_int t - now < save_ckpt_duration + max_steps_duration + redundant_time))))"

section \<open>Properties\<close>

text \<open>Rotation keeps exactly the newest checkpoints, at every moment: after saving any sequence of
  different paths with \<open>max_ckpt_to_keep = n\<close>, at least 1, the directories on disk, and the manager's
  record of them, are the last \<open>n\<close> of the sequence in order. While the next one is saved, a crash
  before it is complete leaves at least the last \<open>max 1 (n - 1)\<close> of the old ones, and there are never
  more than \<open>max 2 n\<close> directories.\<close>

theorem rotation_keeps_newest:
  assumes "distinct (ps @ [p])" and "0 < n"
  shows "saves (Some (int n)) ps = \<lparr>ck_saved = last_n n ps, ck_disk = set (last_n n ps)\<rparr> \<and>
    (\<exists>s1 s2 s3. save_phases (Some (int n)) p (saves (Some (int n)) ps) = [s1, s2, s3] \<and>
       set (last_n (max 1 (n - 1)) ps) \<subseteq> ck_disk s1 \<and> card (ck_disk s1) \<le> max 2 n \<and>
       set (last_n (max 1 (n - 1)) ps) \<subseteq> ck_disk s2 \<and> card (ck_disk s2) \<le> max 2 n \<and>
       ck_disk s3 = set (last_n n (ps @ [p])))"
proof -
  have eq: "saves (Some (int n)) ps = \<lparr>ck_saved = last_n n ps, ck_disk = set (last_n n ps)\<rparr>"
    using saves_effect assms by auto
  have "rotation_inv (saves (Some (int n)) ps)" "p \<notin> set (ck_saved (saves (Some (int n)) ps))"
    "length (ck_saved (saves (Some (int n)) ps)) \<le> n"
    using assms(1) set_last_n [of n ps] by (auto simp: eq rotation_inv_def distinct_last_n)
  note ph = save_phases_effect [OF this(1,2) assms(2) this(3), unfolded eq ckpt_state.select_convs]
  let ?kept = "if n = 1 then last_n n ps else last_n (n - 1) (last_n n ps)"
  have kept: "?kept = last_n (max 1 (n - 1)) ps" using assms(2) by (auto simp: last_n_last_n max_def)
  have l: "last_n n (last_n n ps @ [p]) = last_n n (ps @ [p])"
    using assms(2) by (cases n) (simp_all add: last_n_snoc last_n_last_n)
  have c: "card (set (last_n (max 1 (n - 1)) ps)) \<le> max 1 (n - 1)"
    using card_length [of "last_n (max 1 (n - 1)) ps"] by simp
  have c2: "card (insert p (set (last_n (max 1 (n - 1)) ps))) \<le> Suc (max 1 (n - 1))"
    using card_insert_le_m1 [of "Suc (max 1 (n - 1))" "set (last_n (max 1 (n - 1)) ps)" p] c by simp
  show ?thesis
    unfolding eq ph Let_def kept l
    using c c2 by (auto simp: max_def split: if_splits)
qed

theorem rotation_keeps_newest_witness:
  "ck_disk (saves (Some (int 2)) [''s1'', ''s2'', ''s3'']) = {''s2'', ''s3''}"
  using rotation_keeps_newest [of "[''s1'', ''s2'', ''s3'']" "''s4''" 2] by (auto simp: last_n_def)

text \<open>The latest checkpoint can be resumed: with \<open>max_ckpt_to_keep\<close> missing or at least 1, after any
  non-empty sequence of saves of different paths, with the tracker file naming the iteration of the
  last one, \<open>find_latest_ckpt_path\<close> returns the directory of the last save.\<close>

theorem latest_checkpoint_found:
  assumes "distinct (map (ckpt_dir base) its)" and "its \<noteq> []" and "tracker base = Some (Inr (last its))"
    and "keep = None \<or> (\<exists>n. keep = Some n \<and> 1 \<le> n)"
  shows "find_latest_ckpt_path (Some base) tracker ckpt_dir (ck_disk (saves keep (map (ckpt_dir base) its))) =
    Inr (Some (ckpt_dir base (last its)))"
proof -
  let ?ps = "map (ckpt_dir base) its"
  have "last ?ps \<in> ck_disk (saves keep ?ps)"
  proof (cases keep)
    case None
    then have "ck_disk (saves keep ?ps) = set ?ps" by (simp only: saves_unlimited)
    moreover have "last ?ps \<in> set ?ps" using assms(2) by (intro last_in_set) simp
    ultimately show ?thesis by (simp only:)
  next
    case (Some n)
    with assms(4) have "1 \<le> n" by simp
    then have m: "n = int (Suc (nat n - 1))" by simp
    then obtain m where m: "n = int (Suc m)" by blast
    have "?ps = butlast ?ps @ [last ?ps]" using assms(2) by simp
    then have "last_n (Suc m) ?ps = last_n m (butlast ?ps) @ [last ?ps]" by (metis last_n_snoc)
    then show ?thesis using Some m saves_effect [OF assms(1), of "Suc m"] by simp
  qed
  then show ?thesis using assms(2,3) by (simp add: find_latest_ckpt_path_def last_map Let_def)
qed

theorem latest_checkpoint_found_witness:
  "find_latest_ckpt_path (Some ()) (\<lambda>_. Some (Inr (last [5, 10 :: int]))) (\<lambda>_ i. i)
     (ck_disk (saves (Some 1) (map (\<lambda>i. i) [5, 10]))) = Inr (Some 10)"
  using latest_checkpoint_found [of "\<lambda>_ i. i" "()" "[5, 10]" "\<lambda>_. Some (Inr (last [5, 10]))" "Some 1"] by simp

end
