(* ===== verification/DataProto.thy ===== *)
theory DataProto
  imports Prelude
begin

text \<open>
  \<open>DataProto\<close>, the batch that travels between the driver and the workers (\<^verbatim>\<open>verl/protocol.py\<close>, with
  \<open>union_two_dict\<close> and \<open>list_of_dict_to_dict_of_list\<close> of \<^verbatim>\<open>verl/utils/py_functional.py\<close>). A tensor with batch
  dimension is the list of its rows; a \<open>TensorDict\<close> is a batch size and an ordered dictionary of
  tensors; a numpy array of objects is the list of its elements. The content of a row is an arbitrary
  type. Tensors, numpy and \<open>TensorDict\<close> are libraries: their indexing, slicing, concatenation and
  splitting along the first dimension are modelled by list functions with their documented behaviour.
\<close>

section \<open>Values of meta information\<close>

datatype 'm pyval = Atom 'm | PyNone | PyList "'m pyval list" | PyDict "(string \<times> 'm pyval) list"

text \<open>Python's \<open>==\<close>: dictionaries are compared without their order.\<close>

function py_eq :: "'m pyval \<Rightarrow> 'm pyval \<Rightarrow> bool" where
  "py_eq (Atom a) w = (case w of Atom b \<Rightarrow> a = b | _ \<Rightarrow> False)"
| "py_eq PyNone w = (case w of PyNone \<Rightarrow> True | _ \<Rightarrow> False)"
| "py_eq (PyList xs) w = (case w of
       PyList ys \<Rightarrow> length xs = length ys \<and> (\<forall>(x, y) \<in> set (zip xs ys). py_eq x y)
     | _ \<Rightarrow> False)"
| "py_eq (PyDict d) w = (case w of
       PyDict e \<Rightarrow> length d = length e \<and>
         (\<forall>(k, v) \<in> set d. case map_of e k of None \<Rightarrow> False | Some w \<Rightarrow> py_eq v w)
     | _ \<Rightarrow> False)"
  by pat_completeness auto

lemma size_member: "x \<in> set xs \<Longrightarrow> size x < Suc (size_list size xs)"
  using size_list_estimation' [of x xs "size x" size] by simp

lemma size_value: "(k, v) \<in> set d \<Longrightarrow> size v < Suc (size_list (size_prod (\<lambda>x. 0) size) d)"
  using size_list_estimation' [of "(k, v)" d "size v" "size_prod (\<lambda>x. 0) size"] by simp

termination py_eq
  by (relation "measure (\<lambda>(v, w). size v)") (auto dest!: set_zip_leftD intro: size_member size_value)

section \<open>Dictionaries of lists\<close>

definition union_two_dict :: "(string, 'm pyval) dict \<Rightarrow> (string, 'm pyval) dict \<Rightarrow> (string, 'm pyval) dict result" where
  "union_two_dict d1 d2 =
     fold (\<lambda>(k, v) r. bind_r r (\<lambda>d.
        require (case map_of d k of None \<Rightarrow> True | Some w \<Rightarrow> py_eq v w) AssertionError (Inr (dict_set k v d))))
       d2 (Inr d1)"

definition list_of_dict_to_dict_of_list :: "('k, 'v) dict list \<Rightarrow> ('k, 'v list) dict result" where
  "list_of_dict_to_dict_of_list ds =
     (case ds of
        [] \<Rightarrow> Inr []
      | d # _ \<Rightarrow>
          fold (\<lambda>e r. fold (\<lambda>(k, v) r. bind_r r (\<lambda>out.
              case map_of out k of None \<Rightarrow> Inl AssertionError | Some vs \<Rightarrow> Inr (dict_set k (vs @ [v]) out))) e r)
            ds (Inr (map (\<lambda>(k, v). (k, [])) d)))"

section \<open>Data\<close>

record 'r tdict =
  td_size :: nat
  td_items :: "(string, 'r list) dict"

record ('r, 'o, 'm) data_proto =
  dp_batch :: "'r tdict option"
  dp_non_tensor :: "(string, 'o list) dict"
  dp_meta :: "(string, 'm pyval) dict"

definition dp_len :: "('r, 'o, 'm) data_proto \<Rightarrow> nat" where
  "dp_len d = (case dp_batch d of
       Some b \<Rightarrow> td_size b
     | None \<Rightarrow> (case dp_non_tensor d of [] \<Rightarrow> 0 | (k, v) # _ \<Rightarrow> length v))"

definition check_consistency :: "('r, 'o, 'm) data_proto \<Rightarrow> bool" where
  "check_consistency d = (case dp_batch d of
       None \<Rightarrow> True
     | Some b \<Rightarrow> \<forall>(k, v) \<in> set (dp_non_tensor d). length v = td_size b)"

text \<open>The constructor checks the consistency after initialisation.\<close>

definition mk_dp :: "'r tdict option \<Rightarrow> (string, 'o list) dict \<Rightarrow> (string, 'm pyval) dict \<Rightarrow>
    ('r, 'o, 'm) data_proto result" where
  "mk_dp b nt meta =
     (let d = \<lparr>dp_batch = b, dp_non_tensor = nt, dp_meta = meta\<rparr>
      in require (check_consistency d) AssertionError (Inr d))"

definition auto_padding_key :: string where
  "auto_padding_key = ''_verl_auto_padding''"

definition from_dict :: "(string, 'r list) dict \<Rightarrow> (string, 'o list) dict \<Rightarrow> (string, 'm pyval) dict \<Rightarrow>
    'm pyval \<Rightarrow> bool \<Rightarrow> ('r, 'o, 'm) data_proto result" where
  "from_dict tensors non_tensors meta true_val auto_padding =
     (case tensors of
        [] \<Rightarrow> mk_dp None non_tensors (if auto_padding then dict_set auto_padding_key true_val meta else meta)
      | (k, t) # ts \<Rightarrow>
          require (\<forall>(k', t') \<in> set ts. length t' = length t) AssertionError
            (mk_dp (Some \<lparr>td_size = length t, td_items = tensors\<rparr>) non_tensors
               (if auto_padding then dict_set auto_padding_key true_val meta else meta)))"

section \<open>Operations on the columns\<close>

definition map_items :: "('a \<Rightarrow> 'b) \<Rightarrow> ('k, 'a) dict \<Rightarrow> ('k, 'b) dict" where
  "map_items f d = map (\<lambda>(k, v). (k, f v)) d"

text \<open>Apply \<open>f\<close> to every tensor and \<open>g\<close> to every array; the new batch size is \<open>n\<close>.\<close>

definition map_cols :: "('r list \<Rightarrow> 's list) \<Rightarrow> ('o list \<Rightarrow> 'p list) \<Rightarrow> nat \<Rightarrow> ('r, 'o, 'm) data_proto \<Rightarrow>
    ('s, 'p, 'm) data_proto result" where
  "map_cols f g n d =
     mk_dp (map_option (\<lambda>b. \<lparr>td_size = n, td_items = map_items f (td_items b)\<rparr>) (dp_batch d))
       (map_items g (dp_non_tensor d)) (dp_meta d)"

text \<open>The indices of a Python slice of a sequence of length \<open>n\<close> (\<open>slice.indices\<close>, then \<open>range\<close>).\<close>

definition slice_clamp :: "int \<Rightarrow> int \<Rightarrow> int \<Rightarrow> int option \<Rightarrow> int \<Rightarrow> int" where
  "slice_clamp n lower upper x dflt =
     (case x of None \<Rightarrow> dflt | Some i \<Rightarrow> if i < 0 then max (i + n) lower else min i upper)"

definition slice_indices :: "int option \<Rightarrow> int option \<Rightarrow> int \<Rightarrow> nat \<Rightarrow> nat list" where
  "slice_indices start stop step n =
     (if 0 < step
      then (let lo = slice_clamp (int n) 0 (int n) start 0; hi = slice_clamp (int n) 0 (int n) stop (int n)
            in map (\<lambda>i. nat (lo + int i * step)) [0..<nat ((hi - lo + step - 1) div step)])
      else (let lo = slice_clamp (int n) (-1) (int n - 1) start (int n - 1);
                hi = slice_clamp (int n) (-1) (int n - 1) stop (-1)
            in map (\<lambda>i. nat (lo + int i * step)) [0..<nat ((lo - hi - step - 1) div (- step))]))"

definition py_slice :: "int option \<Rightarrow> int option \<Rightarrow> int \<Rightarrow> 'a list \<Rightarrow> 'a list" where
  "py_slice start stop step xs = map (\<lambda>i. xs ! i) (slice_indices start stop step (length xs))"

text \<open>A step of 0 raises, and so does a negative step on a tensor.\<close>

definition slice_dp :: "int option \<Rightarrow> int option \<Rightarrow> int option \<Rightarrow> ('r, 'o, 'm) data_proto \<Rightarrow>
    ('r, 'o, 'm) data_proto result" where
  "slice_dp start stop step d =
     (let st = (case step of None \<Rightarrow> 1 | Some s \<Rightarrow> s) in
      require (st = 0 \<longrightarrow> dp_batch d = None \<and> dp_non_tensor d = []) ValueError
       (require (st < 0 \<longrightarrow> dp_batch d = None) ValueError
         (map_cols (py_slice start stop st) (py_slice start stop st)
            (length (slice_indices start stop st (dp_len d))) d)))"

text \<open>Indexing by a list of positions, negative ones from the end, or by a boolean mask.\<close>

datatype index = Idxs "int list" | Mask "bool list"

definition index_size :: "index \<Rightarrow> nat" where
  "index_size ix = (case ix of Idxs is \<Rightarrow> length is | Mask bs \<Rightarrow> length (filter id bs))"

definition norm_index :: "nat \<Rightarrow> int \<Rightarrow> nat result" where
  "norm_index n i = require (- int n \<le> i \<and> i < int n) IndexError (Inr (nat (if i < 0 then i + int n else i)))"

definition pick :: "index \<Rightarrow> 'a list \<Rightarrow> 'a list result" where
  "pick ix xs = (case ix of
       Idxs is \<Rightarrow> map_r (\<lambda>i. bind_r (norm_index (length xs) i) (\<lambda>j. Inr (xs ! j))) is
     | Mask bs \<Rightarrow> require (length bs = length xs) IndexError
         (Inr (map snd (filter fst (zip bs xs)))))"

definition items_r :: "('a \<Rightarrow> 'b result) \<Rightarrow> ('k, 'a) dict \<Rightarrow> ('k, 'b) dict result" where
  "items_r f d = map_r (\<lambda>(k, v). bind_r (f v) (\<lambda>w. Inr (k, w))) d"

definition select_idxs :: "index \<Rightarrow> ('r, 'o, 'm) data_proto \<Rightarrow> ('r, 'o, 'm) data_proto result" where
  "select_idxs ix d =
     bind_r (case dp_batch d of
         None \<Rightarrow> Inr None
       | Some b \<Rightarrow> bind_r (items_r (pick ix) (td_items b)) (\<lambda>it. Inr (Some \<lparr>td_size = index_size ix, td_items = it\<rparr>)))
     (\<lambda>b. bind_r (items_r (pick ix) (dp_non_tensor d)) (\<lambda>nt. mk_dp b nt (dp_meta d)))"

definition reorder :: "int list \<Rightarrow> ('r, 'o, 'm) data_proto \<Rightarrow> ('r, 'o, 'm) data_proto result" where
  "reorder is d = (case dp_batch d of
       None \<Rightarrow> Inl TypeError
     | Some b \<Rightarrow>
         bind_r (items_r (pick (Idxs is)) (td_items b)) (\<lambda>it.
         bind_r (items_r (pick (Idxs is)) (dp_non_tensor d)) (\<lambda>nt.
           Inr (d\<lparr>dp_batch := Some \<lparr>td_size = length is, td_items = it\<rparr>, dp_non_tensor := nt\<rparr>))))"

section \<open>Operations on the keys\<close>

definition select_keys :: "string list \<Rightarrow> (string, 'a) dict \<Rightarrow> (string, 'a) dict result" where
  "select_keys ks d = fold (\<lambda>k r. bind_r r (\<lambda>out. bind_r (dict_item d k) (\<lambda>v. Inr (dict_set k v out)))) ks (Inr [])"

definition filter_keys :: "string list option \<Rightarrow> (string, 'a) dict \<Rightarrow> (string, 'a) dict" where
  "filter_keys ks d = (case ks of None \<Rightarrow> d | Some ks \<Rightarrow> filter (\<lambda>(k, v). k \<in> set ks) d)"

definition select_dp :: "string list option \<Rightarrow> string list option \<Rightarrow> string list option \<Rightarrow>
    ('r, 'o, 'm) data_proto \<Rightarrow> ('r, 'o, 'm) data_proto result" where
  "select_dp batch_keys nt_keys meta_keys d =
     bind_r (case batch_keys of
         None \<Rightarrow> Inr (dp_batch d)
       | Some ks \<Rightarrow> (case dp_batch d of
            None \<Rightarrow> Inl AttributeError
          | Some b \<Rightarrow> bind_r (select_keys ks (td_items b)) (\<lambda>it. Inr (Some (b\<lparr>td_items := it\<rparr>)))))
     (\<lambda>b. mk_dp b (filter_keys nt_keys (dp_non_tensor d)) (filter_keys meta_keys (dp_meta d)))"

fun pop_keys :: "string list \<Rightarrow> (string, 'a) dict \<Rightarrow> (string, 'a) dict \<Rightarrow> ((string, 'a) dict \<times> (string, 'a) dict) result" where
  "pop_keys [] d out = Inr (out, d)"
| "pop_keys (k # ks) d out = (case map_of d k of
       None \<Rightarrow> Inl AssertionError
     | Some v \<Rightarrow> pop_keys ks (dict_del k d) (dict_set k v out))"

definition pop_dp :: "string list \<Rightarrow> string list \<Rightarrow> string list \<Rightarrow> ('r, 'o, 'm) data_proto \<Rightarrow>
    (('r, 'o, 'm) data_proto \<times> ('r, 'o, 'm) data_proto) result" where
  "pop_dp batch_keys nt_keys meta_keys d =
     bind_r (case dp_batch d of
         None \<Rightarrow> require (batch_keys = []) AttributeError (Inr ([], None))
       | Some b \<Rightarrow> bind_r (pop_keys batch_keys (td_items b) []) (\<lambda>(out, rest). Inr (out, Some (b\<lparr>td_items := rest\<rparr>))))
     (\<lambda>(tensors, b). bind_r (pop_keys nt_keys (dp_non_tensor d) []) (\<lambda>(non_tensors, nt).
       bind_r (pop_keys meta_keys (dp_meta d) []) (\<lambda>(meta, rest_meta).
       bind_r (from_dict tensors non_tensors meta PyNone False) (\<lambda>popped.
         Inr (popped, \<lparr>dp_batch = b, dp_non_tensor = nt, dp_meta = rest_meta\<rparr>)))))"

text \<open>\<open>rename\<close> hands the tuple of keys to \<open>TensorDict.rename_key_\<close>, which reads a tuple as the path of a nested
  key: one key is renamed (the new one goes to the end), more keys are a path, which a batch of plain
  tensors does not have.\<close>

definition rename_dp :: "string list \<Rightarrow> string list \<Rightarrow> ('r, 'o, 'm) data_proto \<Rightarrow> ('r, 'o, 'm) data_proto result" where
  "rename_dp olds news d =
     require (length news = length olds) ValueError
       (case dp_batch d of
          None \<Rightarrow> Inl AttributeError
        | Some b \<Rightarrow> (case (olds, news) of
            ([old], [new]) \<Rightarrow> bind_r (dict_item (td_items b) old) (\<lambda>v.
              Inr (if old = new then d
                   else d\<lparr>dp_batch := Some (b\<lparr>td_items := dict_set new v (dict_del old (td_items b))\<rparr>)\<rparr>))
          | _ \<Rightarrow> Inl KeyError))"

definition union_tensor_dict :: "'r tdict \<Rightarrow> 'r tdict \<Rightarrow> 'r tdict result" where
  "union_tensor_dict t1 t2 =
     require (td_size t1 = td_size t2) AssertionError
       (bind_r (fold (\<lambda>(k, v) r. bind_r r (\<lambda>d. case map_of d k of
            None \<Rightarrow> Inr (dict_set k v d)
          | Some w \<Rightarrow> require (w = v) AssertionError (Inr d))) (td_items t2) (Inr (td_items t1)))
        (\<lambda>d. Inr (t1\<lparr>td_items := d\<rparr>)))"

definition union_numpy_dict :: "(string, 'o list) dict \<Rightarrow> (string, 'o list) dict \<Rightarrow> (string, 'o list) dict result" where
  "union_numpy_dict d1 d2 =
     fold (\<lambda>(k, v) r. bind_r r (\<lambda>d.
        require (case map_of d k of None \<Rightarrow> True | Some w \<Rightarrow> w = v) AssertionError (Inr (dict_set k v d))))
       d2 (Inr d1)"

definition union_dp :: "('r, 'o, 'm) data_proto \<Rightarrow> ('r, 'o, 'm) data_proto \<Rightarrow> ('r, 'o, 'm) data_proto result" where
  "union_dp d e = (case (dp_batch d, dp_batch e) of
       (Some b, Some c) \<Rightarrow>
         bind_r (union_tensor_dict b c) (\<lambda>t.
         bind_r (union_numpy_dict (dp_non_tensor d) (dp_non_tensor e)) (\<lambda>nt.
         bind_r (union_two_dict (dp_meta d) (dp_meta e)) (\<lambda>m.
           Inr \<lparr>dp_batch = Some t, dp_non_tensor = nt, dp_meta = m\<rparr>)))
     | _ \<Rightarrow> Inl AttributeError)"

section \<open>Concatenation and splitting\<close>

text \<open>\<open>torch.cat\<close> of \<open>TensorDict\<close>s: the same keys everywhere, in the order of the first.\<close>

definition td_concat :: "'r tdict list \<Rightarrow> 'r tdict result" where
  "td_concat ts = (case ts of
       [] \<Rightarrow> Inl RuntimeError
     | t # _ \<Rightarrow>
         require (\<forall>u \<in> set ts. set (dict_keys (td_items u)) = set (dict_keys (td_items t))) KeyError
           (Inr \<lparr>td_size = sum_list (map td_size ts),
                 td_items = map (\<lambda>k. (k, concat (map (\<lambda>u. the (map_of (td_items u) k)) ts)))
                   (dict_keys (td_items t))\<rparr>))"

definition metrics_key :: string where
  "metrics_key = ''metrics''"

text \<open>Merging the meta information: the metrics of all workers are collected, other keys must agree.\<close>

fun collect_metrics :: "'m pyval \<Rightarrow> 'm pyval list" where
  "collect_metrics PyNone = []"
| "collect_metrics (PyList vs) = vs"
| "collect_metrics v = [v]"

fun merge_items :: "(string, 'm pyval) dict \<Rightarrow> (string, 'm pyval) dict \<Rightarrow> 'm pyval list \<Rightarrow>
    ((string, 'm pyval) dict \<times> 'm pyval list) result" where
  "merge_items [] merged ms = Inr (merged, ms)"
| "merge_items ((k, v) # d) merged ms =
     (if k = metrics_key then merge_items d merged (ms @ collect_metrics v)
      else case map_of merged k of
          Some w \<Rightarrow> require (py_eq w v) AssertionError (merge_items d merged ms)
        | None \<Rightarrow> merge_items d (dict_set k v merged) ms)"

fun merge_all :: "(string, 'm pyval) dict list \<Rightarrow> (string, 'm pyval) dict \<Rightarrow> 'm pyval list \<Rightarrow>
    ((string, 'm pyval) dict \<times> 'm pyval list) result" where
  "merge_all [] merged ms = Inr (merged, ms)"
| "merge_all (d # ds) merged ms = bind_r (merge_items d merged ms) (\<lambda>(merged', ms'). merge_all ds merged' ms')"

definition as_dict :: "'m pyval \<Rightarrow> (string, 'm pyval) dict result" where
  "as_dict v = (case v of PyDict d \<Rightarrow> Inr d | _ \<Rightarrow> Inl AttributeError)"

definition merge_meta :: "(string, 'm pyval) dict list \<Rightarrow> (string, 'm pyval) dict result" where
  "merge_meta ds =
     bind_r (merge_all ds [] []) (\<lambda>(merged, ms).
       if ms = [] then Inr merged
       else bind_r (map_r as_dict ms) (\<lambda>mds. bind_r (list_of_dict_to_dict_of_list mds) (\<lambda>cols.
         Inr (dict_set metrics_key (PyDict (map_items PyList cols)) merged))))"

definition concat_dp :: "('r, 'o, 'm) data_proto list \<Rightarrow> ('r, 'o, 'm) data_proto result" where
  "concat_dp ds = (case ds of
       [] \<Rightarrow> Inl IndexError
     | d # _ \<Rightarrow>
         bind_r (case dp_batch d of
             None \<Rightarrow> Inr None
           | Some _ \<Rightarrow> bind_r (map_r (\<lambda>e. case dp_batch e of None \<Rightarrow> Inl TypeError | Some b \<Rightarrow> Inr b) ds)
               (\<lambda>bs. bind_r (td_concat bs) (\<lambda>b. Inr (Some b))))
         (\<lambda>b. bind_r (list_of_dict_to_dict_of_list (map dp_non_tensor ds)) (\<lambda>nt.
           bind_r (merge_meta (map dp_meta ds)) (\<lambda>m. mk_dp b (map_items concat nt) m))))"

text \<open>\<open>torch.chunk\<close> cuts pieces of the rounded-up size and may give fewer than asked for;
  \<open>np.array_split\<close> gives exactly the number asked for.\<close>

fun cut :: "nat list \<Rightarrow> 'a list \<Rightarrow> 'a list list" where
  "cut [] xs = []"
| "cut (n # ns) xs = take n xs # cut ns (drop n xs)"

definition torch_chunk_sizes :: "nat \<Rightarrow> nat \<Rightarrow> nat list" where
  "torch_chunk_sizes n chunks =
     (let sz = (n + chunks - 1) div chunks in
      if sz = 0 then [0] else replicate (n div sz) sz @ (if n mod sz = 0 then [] else [n mod sz]))"

definition array_split_sizes :: "nat \<Rightarrow> nat \<Rightarrow> nat list" where
  "array_split_sizes n chunks = replicate (n mod chunks) (n div chunks + 1) @ replicate (chunks - n mod chunks) (n div chunks)"

definition is_padding_enabled :: "bool \<Rightarrow> ('m pyval \<Rightarrow> bool) \<Rightarrow> ('r, 'o, 'm) data_proto \<Rightarrow> bool" where
  "is_padding_enabled config_auto truthy d \<longleftrightarrow>
     (case map_of (dp_meta d) auto_padding_key of None \<Rightarrow> False | Some v \<Rightarrow> truthy v) \<or> config_auto"

definition chunk_cols :: "nat list \<Rightarrow> nat \<Rightarrow> ('r, 'o, 'm) data_proto \<Rightarrow> nat \<Rightarrow> ('r, 'o, 'm) data_proto result" where
  "chunk_cols sizes chunks d i =
     mk_dp (map_option (\<lambda>b. \<lparr>td_size = sizes ! i, td_items = map_items (\<lambda>v. cut sizes v ! i) (td_items b)\<rparr>) (dp_batch d))
       (map_items (\<lambda>v. (if dp_batch d = None then cut (array_split_sizes (length v) chunks) v else cut sizes v) ! i)
          (dp_non_tensor d)) (dp_meta d)"

definition chunk_dp :: "bool \<Rightarrow> nat \<Rightarrow> ('r, 'o, 'm) data_proto \<Rightarrow> ('r, 'o, 'm) data_proto list result" where
  "chunk_dp padding chunks d =
     (if \<not> padding \<and> chunks = 0 then Inl ZeroDivisionError
      else if \<not> padding \<and> dp_len d mod chunks \<noteq> 0 then Inl AssertionError
      else if dp_batch d \<noteq> None \<and> chunks = 0 then Inl ValueError
      else let sizes = torch_chunk_sizes (dp_len d) chunks in
        if dp_batch d \<noteq> None \<and> dp_non_tensor d \<noteq> [] \<and> length sizes \<noteq> chunks then Inl AssertionError
        else if dp_batch d \<noteq> None \<and> length sizes < chunks then Inl IndexError
        else map_r (chunk_cols sizes chunks d) [0..<chunks])"

definition split_dp :: "nat \<Rightarrow> ('r, 'o, 'm) data_proto \<Rightarrow> ('r, 'o, 'm) data_proto list result" where
  "split_dp sz d =
     require (sz \<noteq> 0) ValueError
       (map_r (\<lambda>i. slice_dp (Some (int (i * sz))) (Some (int (i * sz + sz))) None d)
          [0..<(dp_len d + sz - 1) div sz])"

section \<open>Repeating, folding, padding\<close>

definition repeat_interleave :: "nat \<Rightarrow> 'a list \<Rightarrow> 'a list" where
  "repeat_interleave k xs = concat (map (replicate k) xs)"

definition tile :: "nat \<Rightarrow> 'a list \<Rightarrow> 'a list" where
  "tile k xs = concat (replicate k xs)"

definition repeat_dp :: "nat \<Rightarrow> bool \<Rightarrow> ('r, 'o, 'm) data_proto \<Rightarrow> ('r, 'o, 'm) data_proto result" where
  "repeat_dp k interleave d =
     (if interleave then map_cols (repeat_interleave k) (repeat_interleave k) (dp_len d * k) d
      else map_cols (tile k) (tile k) (dp_len d * k) d)"

definition repeat_each :: "nat list \<Rightarrow> 'a list \<Rightarrow> 'a list result" where
  "repeat_each ks xs =
     (if length ks = length xs then Inr (concat (map2 (\<lambda>k x. replicate k x) ks xs))
      else case ks of [k] \<Rightarrow> Inr (repeat_interleave k xs) | _ \<Rightarrow> Inl RuntimeError)"

definition sample_level_repeat :: "nat list \<Rightarrow> ('r, 'o, 'm) data_proto \<Rightarrow> ('r, 'o, 'm) data_proto result" where
  "sample_level_repeat ks d =
     bind_r (case dp_batch d of
         None \<Rightarrow> Inr None
       | Some b \<Rightarrow> bind_r (items_r (repeat_each ks) (td_items b)) (\<lambda>it.
           require (\<forall>(k, v) \<in> set it. length v = sum_list ks) RuntimeError
             (Inr (Some \<lparr>td_size = sum_list ks, td_items = it\<rparr>))))
     (\<lambda>b. bind_r (items_r (repeat_each ks) (dp_non_tensor d)) (\<lambda>nt. mk_dp b nt (dp_meta d)))"

text \<open>Rows with a second dimension: a row is the list of its columns. \<open>reshape\<close> to \<open>n_split\<close> times as many
  rows needs the columns of all rows to fill the new shape.\<close>

definition split_row :: "nat \<Rightarrow> 'e list \<Rightarrow> 'e list list" where
  "split_row n row = cut (replicate n (length row div n)) row"

definition split_rows :: "nat \<Rightarrow> 'e list list \<Rightarrow> 'e list list result" where
  "split_rows n rows = require (n \<noteq> 0) ZeroDivisionError
     (require (\<forall>row \<in> set rows. length row mod n = 0) RuntimeError (Inr (concat (map (split_row n) rows))))"

definition unfold_column_chunks :: "nat \<Rightarrow> string list option \<Rightarrow> ('e list, 'o list, 'm) data_proto \<Rightarrow>
    ('e list, 'o list, 'm) data_proto result" where
  "unfold_column_chunks n keys d =
     bind_r (case dp_batch d of
         None \<Rightarrow> Inr None
       | Some b \<Rightarrow> bind_r (map_r (\<lambda>(k, v).
             if (case keys of None \<Rightarrow> False | Some ks \<Rightarrow> k \<in> set ks)
             then bind_r (split_rows n v) (\<lambda>w. Inr (k, w)) else Inr (k, repeat_interleave n v)) (td_items b))
           (\<lambda>it. Inr (Some \<lparr>td_size = td_size b * n, td_items = it\<rparr>)))
     (\<lambda>b. bind_r (map_r (\<lambda>(k, v). case keys of
            None \<Rightarrow> Inl TypeError
          | Some ks \<Rightarrow> (if k \<in> set ks then bind_r (split_rows n v) (\<lambda>w. Inr (k, w))
              else Inr (k, repeat_interleave n v))) (dp_non_tensor d))
         (\<lambda>nt. mk_dp b nt (dp_meta d)))"

definition fold_rows :: "nat \<Rightarrow> 'a list \<Rightarrow> 'a list list" where
  "fold_rows new_size xs = cut (replicate new_size (length xs div new_size)) xs"

definition fold_batch_dim :: "nat \<Rightarrow> ('r, 'o, 'm) data_proto \<Rightarrow> ('r list, 'o list, 'm) data_proto result" where
  "fold_batch_dim new_size d = (case dp_batch d of
       None \<Rightarrow> Inl AttributeError
     | Some b \<Rightarrow>
         require (new_size \<noteq> 0) ZeroDivisionError
          (require (td_size b mod new_size = 0) AssertionError
            (map_cols (fold_rows new_size) (fold_rows new_size) new_size d)))"

definition unfold_batch_dim :: "('r list, 'o list, 'm) data_proto \<Rightarrow> ('r, 'o, 'm) data_proto result" where
  "unfold_batch_dim d = (case dp_batch d of
       None \<Rightarrow> Inl AttributeError
     | Some b \<Rightarrow> map_cols concat concat
         (case td_items b of [] \<Rightarrow> td_size b | (k, v) # _ \<Rightarrow> length (concat v)) d)"

fun pad_pieces :: "nat \<Rightarrow> nat \<Rightarrow> nat \<Rightarrow> nat list" where
  "pad_pieces 0 n remaining = []"
| "pad_pieces (Suc fuel) n remaining =
     (if remaining = 0 then [] else min remaining n # pad_pieces fuel n (remaining - min remaining n))"

definition pad_dataproto_to_divisor :: "nat \<Rightarrow> ('r, 'o, 'm) data_proto \<Rightarrow> (('r, 'o, 'm) data_proto \<times> nat) result" where
  "pad_dataproto_to_divisor divisor d =
     require (divisor \<noteq> 0) ZeroDivisionError
      (if dp_len d mod divisor \<noteq> 0
       then (let pad = divisor - dp_len d mod divisor in
             bind_r (map_r (\<lambda>k. slice_dp None (Some (int k)) None d) (pad_pieces pad (dp_len d) pad)) (\<lambda>ps.
             bind_r (concat_dp (d # ps)) (\<lambda>p. Inr (p, pad))))
       else Inr (d, 0))"

definition unpad_dataproto :: "nat \<Rightarrow> ('r, 'o, 'm) data_proto \<Rightarrow> ('r, 'o, 'm) data_proto result" where
  "unpad_dataproto pad d = (if pad \<noteq> 0 then slice_dp None (Some (- int pad)) None d else Inr d)"

text \<open>\<open>padding\<close>: append copies of the first or of the last row; the meta information stays.\<close>

definition padding_dp :: "nat \<Rightarrow> bool \<Rightarrow> ('r, 'o, 'm) data_proto \<Rightarrow> ('r, 'o, 'm) data_proto result" where
  "padding_dp sz use_first d =
     (if sz = 0 then Inr d
      else bind_r (select_idxs (Idxs [if use_first then 0 else int (dp_len d) - 1]) d) (\<lambda>c.
           bind_r (repeat_dp sz True c) (\<lambda>part.
           bind_r (concat_dp [d, part]) (\<lambda>p.
             Inr (d\<lparr>dp_batch := dp_batch p, dp_non_tensor := dp_non_tensor p\<rparr>)))))"

text \<open>\<open>make_iterator\<close> without shuffling: the mini-batches of every epoch in order.\<close>

definition make_iterator :: "nat \<Rightarrow> nat \<Rightarrow> ('r, 'o, 'm) data_proto \<Rightarrow> ('r, 'o, 'm) data_proto list result" where
  "make_iterator mini_batch_size epochs d = (case dp_batch d of
       None \<Rightarrow> Inl AttributeError
     | Some b \<Rightarrow>
         require (mini_batch_size \<noteq> 0) ZeroDivisionError
          (require (td_size b mod mini_batch_size = 0) AssertionError
            (bind_r (split_dp mini_batch_size d) (\<lambda>ms. Inr (concat (replicate epochs ms))))))"

section \<open>Well-formed data\<close>

text \<open>What a well-formed batch satisfies: every tensor and array has as many rows as the batch, keys are
  unique. For data without tensors the equal lengths are not checked by the code.\<close>

fun py_wf :: "'m pyval \<Rightarrow> bool" where
  "py_wf (Atom a) = True"
| "py_wf PyNone = True"
| "py_wf (PyList xs) = (\<forall>x \<in> set xs. py_wf x)"
| "py_wf (PyDict d) = (distinct (map fst d) \<and> (\<forall>kv \<in> set d. py_wf (snd kv)))"

definition td_ok :: "'r tdict \<Rightarrow> bool" where
  "td_ok b \<longleftrightarrow> distinct (dict_keys (td_items b)) \<and> (\<forall>(k, v) \<in> set (td_items b). length v = td_size b)"

definition dp_ok :: "('r, 'o, 'm) data_proto \<Rightarrow> bool" where
  "dp_ok d \<longleftrightarrow> (case dp_batch d of None \<Rightarrow> True | Some b \<Rightarrow> td_ok b) \<and>
     distinct (dict_keys (dp_non_tensor d)) \<and> (\<forall>(k, v) \<in> set (dp_non_tensor d). length v = dp_len d) \<and>
     distinct (dict_keys (dp_meta d)) \<and> (\<forall>(k, v) \<in> set (dp_meta d). py_wf v)"

lemma py_eq_refl: "py_wf v \<Longrightarrow> py_eq v v"
proof (induction v)
  case (PyList xs)
  then show ?case by (auto simp: zip_same_conv_map)
next
  case (PyDict d)
  have "case map_of d (fst kv) of None \<Rightarrow> False | Some w \<Rightarrow> py_eq (snd kv) w" if "kv \<in> set d" for kv
  proof -
    have "map_of d (fst kv) = Some (snd kv)" using that PyDict.prems by (simp add: map_of_eq_Some_iff)
    moreover have "py_eq (snd kv) (snd kv)"
      using PyDict.IH [OF that, of "snd kv"] PyDict.prems that by (cases kv) auto
    ultimately show ?thesis by simp
  qed
  then show ?case by (simp add: case_prod_beta)
qed simp_all

text \<open>Apply \<open>f\<close> to every tensor and \<open>g\<close> to every array, without the check.\<close>

definition cols :: "('r list \<Rightarrow> 's list) \<Rightarrow> ('o list \<Rightarrow> 'p list) \<Rightarrow> nat \<Rightarrow> ('r, 'o, 'm) data_proto \<Rightarrow>
    ('s, 'p, 'm) data_proto" where
  "cols f g n d = \<lparr>dp_batch = map_option (\<lambda>b. \<lparr>td_size = n, td_items = map_items f (td_items b)\<rparr>) (dp_batch d),
     dp_non_tensor = map_items g (dp_non_tensor d), dp_meta = dp_meta d\<rparr>"

text \<open>\<open>f\<close> and \<open>g\<close> turn columns of the length of \<open>d\<close> into columns of length \<open>n\<close>.\<close>

definition resizes :: "('r list \<Rightarrow> 's list) \<Rightarrow> ('o list \<Rightarrow> 'p list) \<Rightarrow> nat \<Rightarrow> nat \<Rightarrow> bool" where
  "resizes f g m n \<longleftrightarrow> (\<forall>xs. length xs = m \<longrightarrow> length (f xs) = n) \<and> (\<forall>xs. length xs = m \<longrightarrow> length (g xs) = n)"

lemma keys_map_items [simp]: "dict_keys (map_items f d) = dict_keys d"
  by (simp add: dict_keys_def map_items_def comp_def case_prod_beta)

lemma map_items_simps [simp]:
  "map_items f [] = []" "map_items f ((k, v) # d) = (k, f v) # map_items f d"
  "map_items f (d @ e) = map_items f d @ map_items f e"
  by (simp_all add: map_items_def)

lemma set_map_items: "(k, w) \<in> set (map_items f d) \<longleftrightarrow> (\<exists>v. (k, v) \<in> set d \<and> w = f v)"
  by (auto simp: map_items_def)

lemma map_of_map_items: "map_of (map_items f d) k = map_option f (map_of d k)"
  by (induction d) (auto simp: map_items_def)

lemma map_items_cong: "(\<And>k v. (k, v) \<in> set d \<Longrightarrow> f v = g v) \<Longrightarrow> map_items f d = map_items g d"
  by (auto simp: map_items_def)

lemma map_items_id: "(\<And>k v. (k, v) \<in> set d \<Longrightarrow> f v = v) \<Longrightarrow> map_items f d = d"
  unfolding map_items_def by (rule map_idI) auto

lemma map_items_comp: "map_items f (map_items g d) = map_items (\<lambda>v. f (g v)) d"
  by (simp add: map_items_def comp_def case_prod_beta)

lemma tensor_length: "dp_ok d \<Longrightarrow> dp_batch d = Some b \<Longrightarrow> (k, v) \<in> set (td_items b) \<Longrightarrow> length v = dp_len d"
  by (fastforce simp: dp_ok_def td_ok_def dp_len_def)

lemma array_length: "dp_ok d \<Longrightarrow> (k, v) \<in> set (dp_non_tensor d) \<Longrightarrow> length v = dp_len d"
  by (fastforce simp: dp_ok_def)

lemma dp_len_cols:
  assumes ok: "dp_ok d" and r: "resizes f g (dp_len d) n" and ne: "dp_batch d \<noteq> None \<or> dp_non_tensor d \<noteq> []"
  shows "dp_len (cols f g n d) = n"
proof (cases "dp_batch d")
  case None
  with ne obtain k v nt where nt: "dp_non_tensor d = (k, v) # nt" by (cases "dp_non_tensor d") auto
  have "length (g v) = n" using r array_length [OF ok, of k v] nt unfolding resizes_def by auto
  with None nt show ?thesis by (simp add: dp_len_def cols_def)
qed (simp add: dp_len_def cols_def)

lemma cols_ok:
  assumes ok: "dp_ok d" and r: "resizes f g (dp_len d) n"
  shows "dp_ok (cols f g n d)"
proof -
  have "length w = dp_len (cols f g n d)" if w: "(k, w) \<in> set (dp_non_tensor (cols f g n d))" for k w
  proof -
    from w obtain v where v: "(k, v) \<in> set (dp_non_tensor d)" "w = g v" by (auto simp: cols_def set_map_items)
    then have "dp_non_tensor d \<noteq> []" by auto
    with dp_len_cols [OF ok r] array_length [OF ok v(1)] r v(2) show ?thesis by (simp add: resizes_def)
  qed
  moreover have "case dp_batch (cols f g n d) of None \<Rightarrow> True | Some b \<Rightarrow> td_ok b"
  proof (cases "dp_batch d")
    case (Some b)
    have "length w = n" if "(k, w) \<in> set (map_items f (td_items b))" for k w
      using that r tensor_length [OF ok Some] by (auto simp: set_map_items resizes_def)
    with ok Some show ?thesis by (auto simp: dp_ok_def td_ok_def cols_def)
  qed (simp add: cols_def)
  moreover have "distinct (dict_keys (dp_non_tensor (cols f g n d)))" "dp_meta (cols f g n d) = dp_meta d"
    using ok by (simp_all add: cols_def dp_ok_def)
  ultimately show ?thesis using ok unfolding dp_ok_def by auto
qed


lemma dp_ok_consistent: "dp_ok d \<Longrightarrow> check_consistency d"
  by (auto simp: dp_ok_def check_consistency_def dp_len_def split: option.splits)

lemma mk_dp_ok: "dp_ok \<lparr>dp_batch = b, dp_non_tensor = nt, dp_meta = m\<rparr> \<Longrightarrow>
    mk_dp b nt m = Inr \<lparr>dp_batch = b, dp_non_tensor = nt, dp_meta = m\<rparr>"
  by (simp add: mk_dp_def dp_ok_consistent)

lemma map_cols_eq:
  assumes "dp_ok d" "resizes f g (dp_len d) n"
  shows "map_cols f g n d = Inr (cols f g n d)"
  using cols_ok [OF assms] unfolding map_cols_def cols_def by (rule mk_dp_ok)

lemma cols_id: "dp_ok d \<Longrightarrow> (\<And>xs. length xs = dp_len d \<Longrightarrow> f xs = xs) \<Longrightarrow>
    (\<And>xs. length xs = dp_len d \<Longrightarrow> g xs = xs) \<Longrightarrow> (dp_batch d \<noteq> None \<Longrightarrow> n = dp_len d) \<Longrightarrow> cols f g n d = d"
  using tensor_length [of d] array_length [of d]
  by (cases "dp_batch d") (auto simp: cols_def dp_len_def intro!: map_items_id data_proto.equality tdict.equality)

lemma cols_cols: "cols f' g' n' (cols f g n d) = cols (\<lambda>xs. f' (f xs)) (\<lambda>xs. g' (g xs)) n' d"
  by (cases "dp_batch d") (simp_all add: cols_def map_items_comp)

lemma cols_cong:
  assumes "dp_ok d" "\<And>xs. length xs = dp_len d \<Longrightarrow> f xs = f' xs" "\<And>xs. length xs = dp_len d \<Longrightarrow> g xs = g' xs"
  shows "cols f g n d = cols f' g' n d"
  using assms tensor_length [of d] array_length [of d]
  by (cases "dp_batch d") (auto simp: cols_def intro!: map_items_cong)

section \<open>Concatenating pieces\<close>

lemma gather_inner:
  assumes "distinct (dict_keys (xs @ ys))"
  shows "fold (\<lambda>(k, v) r. bind_r r (\<lambda>out. case map_of out k of None \<Rightarrow> Inl AssertionError
      | Some vs \<Rightarrow> Inr (dict_set k (vs @ [v]) out))) (map_items g ys)
        (Inr (map_items (\<lambda>v. h v @ [g v]) xs @ map_items h ys)) =
    Inr (map_items (\<lambda>v. h v @ [g v]) (xs @ ys))"
  using assms
proof (induction ys arbitrary: xs)
  case (Cons y ys)
  obtain k v where y: "y = (k, v)" by (cases y)
  let ?xs = "map_items (\<lambda>v. h v @ [g v]) xs"
  have "k \<notin> set (dict_keys xs)" using Cons.prems by (auto simp: y dict_keys_def)
  then have k: "k \<notin> set (dict_keys ?xs)" by simp
  have get: "map_of (?xs @ (k, h v) # map_items h ys) k = Some (h v)"
    using k keys_map_of [of k ?xs] by (simp add: map_add_def)
  have upd: "dict_set k w (d @ (k, u) # e) = d @ (k, w) # e" if "k \<notin> set (dict_keys d)"
    for w u and d e :: "('a, 'd list) dict"
    using that by (induction d) (auto simp: dict_keys_def)
  have "distinct (dict_keys ((xs @ [(k, v)]) @ ys))" using Cons.prems by (simp add: y)
  from Cons.IH [OF this] show ?case
    by (simp add: y get upd [OF k] del: map_of_append)
qed simp

lemma gather_columns:
  assumes "distinct (dict_keys d)" "gs \<noteq> []"
  shows "list_of_dict_to_dict_of_list (map (\<lambda>g. map_items g d) gs) = Inr (map_items (\<lambda>v. map (\<lambda>g. g v) gs) d)"
proof -
  let ?step = "\<lambda>e r. fold (\<lambda>(k, v) r. bind_r r (\<lambda>out. case map_of out k of None \<Rightarrow> Inl AssertionError
      | Some vs \<Rightarrow> Inr (dict_set k (vs @ [v]) out))) e r"
  have "fold ?step (map (\<lambda>g. map_items g d) gs) (Inr (map_items (\<lambda>v. map (\<lambda>g. g v) hs) d)) =
      Inr (map_items (\<lambda>v. map (\<lambda>g. g v) (hs @ gs)) d)" for hs
  proof (induction gs arbitrary: hs)
    case (Cons g gs)
    have "?step (map_items g d) (Inr (map_items (\<lambda>v. map (\<lambda>g. g v) hs) d)) =
        Inr (map_items (\<lambda>v. map (\<lambda>g. g v) (hs @ [g])) d)"
      using gather_inner [of "[]" d g "\<lambda>v. map (\<lambda>g. g v) hs"] assms(1) by simp
    then show ?case using Cons [of "hs @ [g]"] by simp
  qed simp
  from this [of "[]"] have all: "fold ?step (map (\<lambda>g. map_items g d) gs) (Inr (map_items (\<lambda>v. []) d)) =
      Inr (map_items (\<lambda>v. map (\<lambda>g. g v) gs) d)" by simp
  obtain g gs' where gs: "gs = g # gs'" using assms(2) by (cases gs) auto
  have start: "map (\<lambda>(k, v). (k, [])) (map_items g d) = map_items (\<lambda>v. []) d"
    by (simp add: map_items_def case_prod_unfold comp_def)
  have "list_of_dict_to_dict_of_list (map (\<lambda>g. map_items g d) gs) =
      fold ?step (map (\<lambda>g. map_items g d) gs) (Inr (map (\<lambda>(k, v). (k, [])) (map_items g d)))"
    unfolding list_of_dict_to_dict_of_list_def gs by simp
  then show ?thesis unfolding start all .
qed

lemma td_concat_columns:
  assumes "distinct (dict_keys d)" "ps \<noteq> []"
  shows "td_concat (map (\<lambda>(n, f). \<lparr>td_size = n, td_items = map_items f d\<rparr>) ps) =
    Inr \<lparr>td_size = sum_list (map fst ps), td_items = map_items (\<lambda>v. concat (map (\<lambda>(n, f). f v) ps)) d\<rparr>"
proof -
  let ?ts = "map (\<lambda>(n, f). \<lparr>td_size = n, td_items = map_items f d\<rparr>) ps"
  obtain t ts where t: "?ts = t # ts" using assms(2) by (cases ps) auto
  have keys: "dict_keys (td_items u) = dict_keys d" if "u \<in> set ?ts" for u using that by auto
  then have kt: "dict_keys (td_items t) = dict_keys d" using t by (metis list.set_intros(1))
  have all: "\<forall>u \<in> set ?ts. set (dict_keys (td_items u)) = set (dict_keys (td_items t))"
    using keys kt by simp
  have "(k, concat (map (\<lambda>u. the (map_of (td_items u) k)) ?ts)) = (k, concat (map (\<lambda>(n, f). f v) ps))"
    if "(k, v) \<in> set d" for k v
  proof -
    have "map_of d k = Some v" using that assms(1) by (simp add: dict_keys_def)
    then show ?thesis by (simp add: comp_def case_prod_unfold map_of_map_items)
  qed
  then have "map (\<lambda>k. (k, concat (map (\<lambda>u. the (map_of (td_items u) k)) ?ts))) (dict_keys d) =
      map_items (\<lambda>v. concat (map (\<lambda>(n, f). f v) ps)) d"
    by (auto simp: dict_keys_def map_items_def)
  moreover have "sum_list (map td_size ?ts) = sum_list (map fst ps)"
    by (simp add: comp_def case_prod_beta)
  moreover have "td_concat ?ts = require (\<forall>u \<in> set ?ts. set (dict_keys (td_items u)) = set (dict_keys (td_items t)))
      KeyError (Inr \<lparr>td_size = sum_list (map td_size ?ts), td_items =
        map (\<lambda>k. (k, concat (map (\<lambda>u. the (map_of (td_items u) k)) ?ts))) (dict_keys (td_items t))\<rparr>)"
    unfolding td_concat_def t by simp
  ultimately show ?thesis unfolding kt using all kt by simp
qed

definition no_metrics :: "('r, 'o, 'm) data_proto \<Rightarrow> bool" where
  "no_metrics d \<longleftrightarrow> metrics_key \<notin> set (dict_keys (dp_meta d))"

lemma merge_items_fresh:
  assumes "distinct (dict_keys (m @ d))" "metrics_key \<notin> set (dict_keys d)"
  shows "merge_items d m ms = Inr (m @ d, ms)"
  using assms
proof (induction d arbitrary: m)
  case (Cons x d)
  obtain k v where x: "x = (k, v)" by (cases x)
  have k: "k \<notin> set (dict_keys m)" "k \<noteq> metrics_key" using Cons.prems by (auto simp: x dict_keys_def)
  have "dict_set k v m = m @ [(k, v)]"
    using k(1) by (induction m) (auto simp: dict_keys_def)
  moreover have "map_of m k = None" using k(1) keys_map_of [of k m] by simp
  ultimately show ?case using Cons.IH [of "m @ [(k, v)]"] Cons.prems k(2) by (simp add: x dict_keys_def)
qed simp

lemma merge_items_same:
  assumes "metrics_key \<notin> set (dict_keys d)" "\<And>k v. (k, v) \<in> set d \<Longrightarrow> map_of m k = Some v \<and> py_wf v"
  shows "merge_items d m ms = Inr (m, ms)"
  using assms
proof (induction d)
  case (Cons x d)
  obtain k v where x: "x = (k, v)" by (cases x)
  have "map_of m k = Some v" "py_eq v v" "k \<noteq> metrics_key"
    using Cons.prems(2) [of k v] Cons.prems(1) py_eq_refl by (auto simp: x dict_keys_def)
  moreover have "merge_items d m ms = Inr (m, ms)" using Cons by (auto simp: dict_keys_def)
  ultimately show ?case by (simp add: x)
qed simp

lemma merge_meta_same:
  assumes ok: "dp_ok d" "no_metrics d" and ne: "0 < k"
  shows "merge_meta (replicate k (dp_meta d)) = Inr (dp_meta d)"
proof -
  have same: "merge_all (replicate j (dp_meta d)) (dp_meta d) [] = Inr (dp_meta d, [])" for j
  proof (induction j)
    case (Suc j)
    have "map_of (dp_meta d) k = Some v \<and> py_wf v" if "(k, v) \<in> set (dp_meta d)" for k v
      using ok(1) that by (auto simp: dp_ok_def dict_keys_def)
    then have "merge_items (dp_meta d) (dp_meta d) [] = Inr (dp_meta d, [])"
      using ok(2) by (intro merge_items_same) (auto simp: no_metrics_def)
    with Suc show ?case by simp
  qed simp
  have "merge_items (dp_meta d) [] [] = Inr (dp_meta d, [])"
    using merge_items_fresh [of "[]" "dp_meta d"] ok by (simp add: dp_ok_def no_metrics_def)
  with same ne show ?thesis by (cases k) (simp_all add: merge_meta_def)
qed

text \<open>The pieces that \<open>f i\<close>, \<open>g i\<close> cut out of \<open>d\<close>, put together again.\<close>

lemma concat_cols:
  assumes ok: "dp_ok d" "no_metrics d" and ne: "is \<noteq> []"
    and r: "\<And>i. i \<in> set is \<Longrightarrow> resizes (f i) (g i) (dp_len d) (n i)"
  shows "concat_dp (map (\<lambda>i. cols (f i) (g i) (n i) d) is) =
    Inr (cols (\<lambda>xs. concat (map (\<lambda>i. f i xs) is)) (\<lambda>xs. concat (map (\<lambda>i. g i xs) is)) (sum_list (map n is)) d)"
proof -
  let ?ds = "map (\<lambda>i. cols (f i) (g i) (n i) d) is"
  let ?F = "\<lambda>xs. concat (map (\<lambda>i. f i xs) is)" and ?G = "\<lambda>xs. concat (map (\<lambda>i. g i xs) is)"
  obtain e es where e: "?ds = e # es" using ne by (cases "is") auto
  have nt: "list_of_dict_to_dict_of_list (map dp_non_tensor ?ds) = Inr (map_items (\<lambda>v. map (\<lambda>i. g i v) is) (dp_non_tensor d))"
    using gather_columns [of "dp_non_tensor d" "map g is"] ok(1) ne by (simp add: dp_ok_def cols_def comp_def)
  have "map dp_meta ?ds = replicate (length is) (dp_meta d)"
    by (simp add: cols_def comp_def map_replicate_const)
  then have meta: "merge_meta (map dp_meta ?ds) = Inr (dp_meta d)" using merge_meta_same [OF ok] ne by simp
  have batch: "(case dp_batch e of None \<Rightarrow> Inr None
      | Some _ \<Rightarrow> bind_r (map_r (\<lambda>e. case dp_batch e of None \<Rightarrow> Inl TypeError | Some b \<Rightarrow> Inr b) ?ds)
          (\<lambda>bs. bind_r (td_concat bs) (\<lambda>b. Inr (Some b)))) = Inr (dp_batch (cols ?F ?G (sum_list (map n is)) d))"
  proof (cases "dp_batch d")
    case None
    then have "dp_batch e = None" using e ne by (cases "is") (auto simp: cols_def)
    with None show ?thesis by (simp add: cols_def)
  next
    case (Some b)
    then have "dp_batch e \<noteq> None" using e ne by (cases "is") (auto simp: cols_def)
    moreover have "map_r (\<lambda>e. case dp_batch e of None \<Rightarrow> Inl TypeError | Some b \<Rightarrow> Inr b) ?ds =
        Inr (map (\<lambda>(n, f). \<lparr>td_size = n, td_items = map_items f (td_items b)\<rparr>) (map (\<lambda>i. (n i, f i)) is))"
      by (subst map_r_total [where g = "\<lambda>e. the (dp_batch e)"]) (auto simp: cols_def Some comp_def)
    moreover have "distinct (dict_keys (td_items b))" using ok(1) Some by (simp add: dp_ok_def td_ok_def)
    ultimately show ?thesis
      using td_concat_columns [of "td_items b" "map (\<lambda>i. (n i, f i)) is"] ne Some
      by (auto simp: cols_def comp_def)
  qed
  have res: "resizes ?F ?G (dp_len d) (sum_list (map n is))"
    using r by (auto simp: resizes_def length_concat comp_def intro!: arg_cong [where f = sum_list])
  have "mk_dp (dp_batch (cols ?F ?G (sum_list (map n is)) d)) (map_items ?G (dp_non_tensor d)) (dp_meta d) =
      Inr (cols ?F ?G (sum_list (map n is)) d)"
    using mk_dp_ok [of "dp_batch (cols ?F ?G (sum_list (map n is)) d)" "map_items ?G (dp_non_tensor d)" "dp_meta d"]
      cols_ok [OF ok(1) res] by (simp add: cols_def)
  moreover have "concat_dp ?ds = bind_r (case dp_batch e of None \<Rightarrow> Inr None
      | Some _ \<Rightarrow> bind_r (map_r (\<lambda>e. case dp_batch e of None \<Rightarrow> Inl TypeError | Some b \<Rightarrow> Inr b) ?ds)
          (\<lambda>bs. bind_r (td_concat bs) (\<lambda>b. Inr (Some b))))
       (\<lambda>b. bind_r (list_of_dict_to_dict_of_list (map dp_non_tensor ?ds)) (\<lambda>nt.
           bind_r (merge_meta (map dp_meta ?ds)) (\<lambda>m. mk_dp b (map_items concat nt) m)))"
    unfolding e concat_dp_def by simp
  ultimately show ?thesis unfolding batch nt meta by (simp add: map_items_comp)
qed

section \<open>Slices and cuts\<close>

lemma slice_step1:
  assumes "lo \<le> hi" "hi \<le> length xs"
  shows "map (\<lambda>i. xs ! nat (int lo + int i * 1)) [0..<nat ((int hi - int lo + 1 - 1) div 1)] = take (hi - lo) (drop lo xs)"
proof -
  have "nat (int lo + int i) = lo + i" for i by simp
  with assms show ?thesis by (auto intro!: nth_equalityI)
qed

lemma py_slice_take [simp]: "py_slice None (Some (int k)) 1 xs = take k xs"
proof -
  have "slice_clamp (int (length xs)) 0 (int (length xs)) (Some (int k)) d = int (min k (length xs))" for d
    by (simp add: slice_clamp_def)
  moreover have "take (min k (length xs)) xs = take k xs" by (simp add: min_def)
  ultimately show ?thesis
    using slice_step1 [of 0 "min k (length xs)" xs]
    by (simp add: py_slice_def slice_indices_def slice_clamp_def comp_def Let_def)
qed

lemma py_slice_take_fun: "py_slice None (Some (int k)) 1 = take k"
  by (rule ext) simp

lemma py_slice_drop_last: "0 < p \<Longrightarrow> py_slice None (Some (- int p)) 1 xs = take (length xs - p) xs"
proof -
  assume p: "0 < p"
  have "slice_clamp (int (length xs)) 0 (int (length xs)) (Some (- int p)) d = int (length xs - p)" for d
    using p by (simp add: slice_clamp_def of_nat_diff max_def)
  then show ?thesis
    using slice_step1 [of 0 "length xs - p" xs]
    by (simp add: py_slice_def slice_indices_def comp_def Let_def slice_clamp_def [of _ _ _ None])
qed

lemma py_slice_window: "py_slice (Some (int a)) (Some (int (a + k))) 1 xs = take k (drop a xs)"
proof (cases "a \<le> length xs")
  case True
  have "slice_clamp (int (length xs)) 0 (int (length xs)) (Some (int j)) d = int (min j (length xs))" for j d
    by (simp add: slice_clamp_def)
  note c = this [of a] this [of "a + k"]
  have "take (min (a + k) (length xs) - a) (drop a xs) = take k (drop a xs)"
    by (simp add: min_def)
  then show ?thesis
    using slice_step1 [of a "min (a + k) (length xs)" xs] True
    unfolding py_slice_def slice_indices_def c Let_def by (simp add: comp_def min_absorb1)
next
  case False
  then show ?thesis
    by (simp add: py_slice_def slice_indices_def slice_clamp_def Let_def)
qed

lemma length_slice_indices: "length (py_slice a b s xs) = length (slice_indices a b s (length xs))"
  by (simp add: py_slice_def)

lemma slice_resizes: "resizes (py_slice a b s) (py_slice a b s) m (length (slice_indices a b s m))"
  by (simp add: resizes_def length_slice_indices)

lemma slice_dp_eq:
  assumes "dp_ok d" "case step of None \<Rightarrow> True | Some s \<Rightarrow> 0 < s"
  shows "slice_dp a b step d = Inr (cols (py_slice a b (case step of None \<Rightarrow> 1 | Some s \<Rightarrow> s))
    (py_slice a b (case step of None \<Rightarrow> 1 | Some s \<Rightarrow> s))
    (length (slice_indices a b (case step of None \<Rightarrow> 1 | Some s \<Rightarrow> s) (dp_len d))) d)"
  using assms map_cols_eq [OF assms(1) slice_resizes]
  by (auto simp: slice_dp_def Let_def split: option.splits)

lemma length_cut [simp]: "length (cut ns xs) = length ns"
  by (induction ns arbitrary: xs) auto

lemma concat_cut: "sum_list ns = length xs \<Longrightarrow> concat (cut ns xs) = xs"
proof (induction ns arbitrary: xs)
  case (Cons n ns)
  then have "sum_list ns = length (drop n xs)" by simp
  with Cons.IH show ?case by simp
qed simp

lemma length_cut_nth: "sum_list ns = length xs \<Longrightarrow> i < length ns \<Longrightarrow> length (cut ns xs ! i) = ns ! i"
proof (induction ns arbitrary: xs i)
  case (Cons n ns)
  then have "sum_list ns = length (drop n xs)" "n \<le> length xs" by simp_all
  with Cons show ?case by (cases i) simp_all
qed simp

lemma chunk_sizes_equal:
  assumes "0 < c" "n = c * m" "0 < m"
  shows "torch_chunk_sizes n c = replicate c m"
proof -
  obtain k where k: "c = Suc k" using assms(1) by (cases c) auto
  have "Suc k * m + Suc k - 1 = k + m * Suc k" by (simp add: algebra_simps)
  moreover have "(k + m * Suc k) div Suc k = m" by (simp del: mult_Suc_right)
  ultimately have "(c * m + c - 1) div c = m" by (simp only: k)
  then show ?thesis using assms by (simp add: torch_chunk_sizes_def Let_def)
qed

lemma array_split_equal: "0 < c \<Longrightarrow> n = c * m \<Longrightarrow> array_split_sizes n c = replicate c m"
  by (simp add: array_split_sizes_def)

lemma map_cut_nth: "map (\<lambda>i. cut ns xs ! i) [0..<length ns] = cut ns xs"
  by (rule nth_equalityI) auto

lemma cut_resizes: "i < c \<Longrightarrow>
    resizes (\<lambda>v. cut (replicate c m) v ! i) (\<lambda>v. cut (replicate c m) v ! i) (c * m) m"
  by (simp add: resizes_def length_cut_nth sum_list_replicate)

lemma concat_cut_equal:
  "length xs = c * m \<Longrightarrow> concat (map (\<lambda>i. cut (replicate c m) xs ! i) [0..<c]) = xs"
  using concat_cut [of "replicate c m" xs] map_cut_nth [of "replicate c m" xs] by (simp add: sum_list_replicate)

lemma chunk_dp_eq:
  assumes ok: "dp_ok d" and c: "0 < c" "dp_len d = c * m" and m: "dp_batch d = None \<or> 0 < m"
  shows "chunk_dp padding c d =
    Inr (map (\<lambda>i. cols (\<lambda>v. cut (replicate c m) v ! i) (\<lambda>v. cut (replicate c m) v ! i) m d) [0..<c])"
proof -
  let ?f = "\<lambda>i v. cut (replicate c m) v ! i" and ?sizes = "torch_chunk_sizes (dp_len d) c"
  have sizes: "?sizes = replicate c m" if "dp_batch d \<noteq> None"
    using chunk_sizes_equal [OF c] m that by auto
  have arr: "array_split_sizes (length v) c = replicate c m" if "(k, v) \<in> set (dp_non_tensor d)" for k v
    using array_length [OF ok that] array_split_equal [OF c] by simp
  have piece: "chunk_cols ?sizes c d i = Inr (cols (?f i) (?f i) m d)" if i: "i < c" for i
  proof -
    have "resizes (?f i) (?f i) (dp_len d) m"
      unfolding c(2) by (rule cut_resizes [OF i])
    note mk = mk_dp_ok [OF cols_ok [OF ok this, unfolded cols_def]]
    show ?thesis
    proof (cases "dp_batch d")
      case None
      then have "map_items (\<lambda>v. (if dp_batch d = None then cut (array_split_sizes (length v) c) v else cut ?sizes v) ! i)
          (dp_non_tensor d) = map_items (?f i) (dp_non_tensor d)"
        using arr by (intro map_items_cong) simp
      then show ?thesis using mk None by (simp add: chunk_cols_def cols_def)
    next
      case (Some b)
      then show ?thesis using mk sizes i by (simp add: chunk_cols_def cols_def)
    qed
  qed
  have "map_r (chunk_cols ?sizes c d) [0..<c] = Inr (map (\<lambda>i. cols (?f i) (?f i) m d) [0..<c])"
    using piece by (intro map_r_total) simp
  then show ?thesis using c sizes by (auto simp: chunk_dp_def Let_def)
qed

lemma concat_chunks:
  assumes ok: "dp_ok d" "no_metrics d" and c: "0 < c" "dp_len d = c * m"
  shows "concat_dp (map (\<lambda>i. cols (\<lambda>v. cut (replicate c m) v ! i) (\<lambda>v. cut (replicate c m) v ! i) m d) [0..<c]) = Inr d"
proof -
  let ?f = "\<lambda>i v. cut (replicate c m) v ! i"
  have r: "resizes (?f i) (?f i) (dp_len d) m" if "i \<in> set [0..<c]" for i
    using that unfolding c(2) by (intro cut_resizes) simp
  show ?thesis
  proof -
    have "concat_dp (map (\<lambda>i. cols (?f i) (?f i) m d) [0..<c]) =
        Inr (cols (\<lambda>xs. concat (map (\<lambda>i. ?f i xs) [0..<c])) (\<lambda>xs. concat (map (\<lambda>i. ?f i xs) [0..<c]))
          (sum_list (map (\<lambda>_. m) [0..<c])) d)"
      by (rule concat_cols [OF ok _ r]) (use c(1) in auto)
    also have "cols (\<lambda>xs. concat (map (\<lambda>i. ?f i xs) [0..<c])) (\<lambda>xs. concat (map (\<lambda>i. ?f i xs) [0..<c]))
          (sum_list (map (\<lambda>_. m) [0..<c])) d = d"
      by (rule cols_id [OF ok(1)]) (simp_all add: concat_cut_equal c(2) sum_list_triv)
    finally show ?thesis .
  qed
qed

section \<open>Padding, folding, picking\<close>

definition pad_rows :: "nat \<Rightarrow> 'a list \<Rightarrow> 'a list" where
  "pad_rows p xs = xs @ take p (tile p xs)"

lemma length_tile: "length (tile k xs) = k * length xs"
  by (induction k) (simp_all add: tile_def)

lemma length_pad_rows: "xs \<noteq> [] \<Longrightarrow> length (pad_rows p xs) = length xs + p"
  by (cases xs) (simp_all add: pad_rows_def length_tile)

lemma pad_pieces_rows:
  "xs \<noteq> [] \<Longrightarrow> r \<le> fuel \<Longrightarrow>
    concat (map (\<lambda>k. take k xs) (pad_pieces fuel (length xs) r)) = take r (tile fuel xs)"
proof (induction fuel arbitrary: r)
  case (Suc fuel)
  have pos: "0 < length xs" using Suc.prems(1) by simp
  show ?case
  proof (cases "r \<le> length xs")
    case True
    then have "concat (map (\<lambda>k. take k xs) (pad_pieces fuel (length xs) 0)) = []" by (cases fuel) simp_all
    with True show ?thesis by (simp add: tile_def)
  next
    case False
    then have r: "r - length xs \<le> fuel" "r \<noteq> 0" using Suc.prems(2) pos by linarith+
    show ?thesis using False r(2) Suc.IH [OF Suc.prems(1) r(1)] by (simp add: tile_def min_def)
  qed
qed (simp add: tile_def)

lemma sum_pad_pieces: "0 < n \<Longrightarrow> r \<le> fuel \<Longrightarrow>
    sum_list (pad_pieces fuel n r) = r \<and> (\<forall>k \<in> set (pad_pieces fuel n r). k \<le> n)"
proof (induction fuel arbitrary: r)
  case (Suc fuel)
  show ?case
  proof (cases "r \<le> n")
    case True
    then have "pad_pieces (Suc fuel) n r = (if r = 0 then [] else [r])" by (cases fuel) simp_all
    with True show ?thesis by simp
  next
    case False
    then have r: "min r n = n" "r \<noteq> 0" "r - n \<le> fuel" using Suc.prems by simp_all
    from Suc.IH [OF Suc.prems(1) r(3)] show ?thesis using r(1,2) False by simp
  qed
qed simp

lemma pad_rows_pieces: "length xs = n \<Longrightarrow> 0 < n \<Longrightarrow>
    xs @ concat (map (\<lambda>k. take k xs) (pad_pieces p n p)) = pad_rows p xs"
  using pad_pieces_rows [of xs p p] by (auto simp: pad_rows_def)

lemma pad_dp_eq:
  assumes ok: "dp_ok d" "no_metrics d" and div: "0 < c" "dp_len d mod c \<noteq> 0"
  shows "pad_dataproto_to_divisor c d =
    Inr (cols (pad_rows (c - dp_len d mod c)) (pad_rows (c - dp_len d mod c)) (dp_len d + (c - dp_len d mod c)) d,
         c - dp_len d mod c)"
proof -
  let ?n = "dp_len d" and ?p = "c - dp_len d mod c"
  let ?ks = "pad_pieces ?p ?n ?p"
  have n: "0 < ?n" using div(2) by (cases ?n) simp_all
  note ks = sum_pad_pieces [OF n order_refl, of ?p]
  have sl: "slice_dp None (Some (int k)) None d = Inr (cols (take k) (take k) k d)" if "k \<in> set ?ks" for k
  proof -
    have "length (slice_indices None (Some (int k)) 1 ?n) = k"
      using length_slice_indices [of None "Some (int k)" 1 "replicate ?n ()"] ks that by simp
    then show ?thesis using slice_dp_eq [OF ok(1), of None None "Some (int k)"] by (simp add: py_slice_take_fun)
  qed
  have pieces: "map_r (\<lambda>k. slice_dp None (Some (int k)) None d) ?ks = Inr (map (\<lambda>k. cols (take k) (take k) k d) ?ks)"
    using sl by (intro map_r_total)
  let ?is = "None # map Some ?ks"
  let ?f = "\<lambda>i xs. case i of None \<Rightarrow> xs | Some k \<Rightarrow> take k xs"
  have self: "cols (\<lambda>xs. xs) (\<lambda>xs. xs) ?n d = d" by (rule cols_id [OF ok(1)]) simp_all
  have "d # map (\<lambda>k. cols (take k) (take k) k d) ?ks =
      map (\<lambda>i. cols (case i of None \<Rightarrow> \<lambda>xs. xs | Some k \<Rightarrow> take k) (case i of None \<Rightarrow> \<lambda>xs. xs | Some k \<Rightarrow> take k)
        (case i of None \<Rightarrow> ?n | Some k \<Rightarrow> k) d) ?is"
    using self by (simp add: comp_def)
  moreover have "concat_dp (map (\<lambda>i. cols (case i of None \<Rightarrow> \<lambda>xs. xs | Some k \<Rightarrow> take k)
        (case i of None \<Rightarrow> \<lambda>xs. xs | Some k \<Rightarrow> take k) (case i of None \<Rightarrow> ?n | Some k \<Rightarrow> k) d) ?is) =
      Inr (cols (\<lambda>xs. concat (map (\<lambda>i. (case i of None \<Rightarrow> \<lambda>xs. xs | Some k \<Rightarrow> take k) xs) ?is))
        (\<lambda>xs. concat (map (\<lambda>i. (case i of None \<Rightarrow> \<lambda>xs. xs | Some k \<Rightarrow> take k) xs) ?is))
        (sum_list (map (\<lambda>i. case i of None \<Rightarrow> ?n | Some k \<Rightarrow> k) ?is)) d)"
    by (rule concat_cols [OF ok]) (use ks in \<open>auto simp: resizes_def\<close>)
  moreover have "sum_list (map (\<lambda>i. case i of None \<Rightarrow> ?n | Some k \<Rightarrow> k) ?is) = ?n + ?p"
    using ks by (simp add: comp_def)
  moreover have "cols (\<lambda>xs. concat (map (\<lambda>i. (case i of None \<Rightarrow> \<lambda>xs. xs | Some k \<Rightarrow> take k) xs) ?is))
        (\<lambda>xs. concat (map (\<lambda>i. (case i of None \<Rightarrow> \<lambda>xs. xs | Some k \<Rightarrow> take k) xs) ?is)) (?n + ?p) d =
      cols (pad_rows ?p) (pad_rows ?p) (?n + ?p) d"
    by (rule cols_cong [OF ok(1)])
      (use n in \<open>simp_all add: pad_rows_pieces comp_def\<close>)
  ultimately have "concat_dp (d # map (\<lambda>k. cols (take k) (take k) k d) ?ks) =
      Inr (cols (pad_rows ?p) (pad_rows ?p) (?n + ?p) d)" by (simp only:)
  then show ?thesis using div pieces by (simp add: pad_dataproto_to_divisor_def Let_def)
qed

lemma concat_fold_rows: "length xs mod n = 0 \<Longrightarrow> concat (fold_rows n xs) = xs"
  unfolding fold_rows_def by (rule concat_cut) (auto simp: sum_list_replicate)

lemma length_fold_rows [simp]: "length (fold_rows n xs) = n"
  by (simp add: fold_rows_def)

lemma pick_length: "pick ix xs = Inr ys \<Longrightarrow> length ys = index_size ix"
proof (cases ix)
  case (Idxs "is")
  assume "pick ix xs = Inr ys"
  with Idxs show ?thesis by (auto simp: pick_def index_size_def dest: length_map_r)
next
  case (Mask bs)
  have "length (filter fst (zip bs xs)) = length (filter id bs)" if "length bs = length xs"
    using that by (induction bs xs rule: list_induct2) auto
  moreover assume "pick ix xs = Inr ys"
  ultimately show ?thesis using Mask by (auto simp: pick_def index_size_def require_Inr)
qed

lemma items_r_total: "(\<And>k v. (k, v) \<in> set d \<Longrightarrow> f v = Inr (g v)) \<Longrightarrow> items_r f d = Inr (map_items g d)"
  unfolding items_r_def map_items_def by (rule map_r_total) auto

lemma items_r_Inr:
  assumes "items_r f d = Inr e"
  shows "dict_keys e = dict_keys d \<and> (\<forall>k w. (k, w) \<in> set e \<longrightarrow> (\<exists>v. (k, v) \<in> set d \<and> f v = Inr w))"
  using assms
proof (induction d arbitrary: e)
  case (Cons x d)
  obtain k v where x: "x = (k, v)" by (cases x)
  from Cons.prems obtain w e' where "f v = Inr w" "e = (k, w) # e'" "items_r f d = Inr e'"
    by (auto simp: items_r_def x bind_r_Inr)
  with Cons.IH [of e'] show ?case by (auto simp: x dict_keys_def)
qed (simp add: items_r_def dict_keys_def)

lemma select_idxs_ok:
  assumes ok: "dp_ok d" and sel: "select_idxs ix d = Inr e"
  shows "dp_ok e"
proof -
  from sel obtain b nt where b: "(case dp_batch d of None \<Rightarrow> Inr None
      | Some b \<Rightarrow> bind_r (items_r (pick ix) (td_items b)) (\<lambda>it. Inr (Some \<lparr>td_size = index_size ix, td_items = it\<rparr>))) = Inr b"
    and nt: "items_r (pick ix) (dp_non_tensor d) = Inr nt" and mk: "mk_dp b nt (dp_meta d) = Inr e"
    by (auto simp: select_idxs_def bind_r_Inr)
  from mk have e: "e = \<lparr>dp_batch = b, dp_non_tensor = nt, dp_meta = dp_meta d\<rparr>"
    by (simp add: mk_dp_def Let_def require_Inr)
  have len: "length w = index_size ix" if "(k, w) \<in> set nt" for k w
    using items_r_Inr [OF nt] that pick_length by blast
  have b_ok: "case b of None \<Rightarrow> True | Some b \<Rightarrow> td_ok b \<and> td_size b = index_size ix"
  proof (cases "dp_batch d")
    case None
    with b show ?thesis by auto
  next
    case (Some b0)
    with b obtain it where it: "items_r (pick ix) (td_items b0) = Inr it"
      and bb: "b = Some \<lparr>td_size = index_size ix, td_items = it\<rparr>" by (auto simp: bind_r_Inr)
    have "distinct (dict_keys (td_items b0))" using ok Some by (simp add: dp_ok_def td_ok_def)
    with items_r_Inr [OF it] pick_length show ?thesis by (fastforce simp: bb td_ok_def)
  qed
  have l: "dp_len e = index_size ix \<or> nt = []"
    using b_ok len by (cases b; cases nt) (auto simp: e dp_len_def)
  have "length w = dp_len e" if "(k, w) \<in> set nt" for k w
    using l len [OF that] that by auto
  moreover have "distinct (dict_keys nt)" using items_r_Inr [OF nt] ok by (simp add: dp_ok_def)
  ultimately show ?thesis using ok b_ok by (auto simp: dp_ok_def e split: option.splits)
qed

lemma sum_torch_chunk_sizes: "0 < c \<Longrightarrow> sum_list (torch_chunk_sizes n c) = n"
proof -
  assume c: "0 < c"
  let ?s = "(n + c - 1) div c"
  have "n = 0" if "?s = 0" using that c by (auto simp: div_eq_0_iff)
  moreover have "?s * (n div ?s) + n mod ?s = n" by (rule mult_div_mod_eq)
  ultimately show ?thesis by (auto simp: torch_chunk_sizes_def Let_def sum_list_replicate mult.commute)
qed

lemma sum_array_split_sizes: "0 < c \<Longrightarrow> sum_list (array_split_sizes n c) = n \<and> length (array_split_sizes n c) = c"
proof -
  assume c: "0 < c"
  then have "n mod c \<le> c" by (simp add: less_imp_le)
  then have "n mod c * (n div c + 1) + (c - n mod c) * (n div c) = c * (n div c) + n mod c"
    by (simp add: algebra_simps diff_mult_distrib)
  then show ?thesis using \<open>n mod c \<le> c\<close> by (simp add: array_split_sizes_def sum_list_replicate)
qed


section \<open>Round trips\<close>

lemma cut_equal_nth: "i < c \<Longrightarrow> cut (replicate c m) xs ! i = take m (drop (i * m) xs)"
proof (induction c arbitrary: i xs)
  case (Suc c)
  then show ?case by (cases i) (simp_all add: add.commute)
qed simp

lemma length_pad_rows': "length xs = n \<Longrightarrow> 0 < n \<Longrightarrow> length (pad_rows p xs) = n + p"
  using length_pad_rows [of xs p] by auto

lemma take_pad_rows: "length xs = n \<Longrightarrow> take n (pad_rows k xs) = xs"
  by (simp add: pad_rows_def)

lemma py_slice_pad_rows: "length xs = n \<Longrightarrow> 0 < n \<Longrightarrow> 0 < k \<Longrightarrow> py_slice None (Some (- int k)) 1 (pad_rows k xs) = xs"
  by (simp only: py_slice_drop_last length_pad_rows' take_pad_rows add_diff_cancel_right')

lemma round_up: "0 < c \<Longrightarrow> n + (c - n mod c) = (n div c + 1) * c" for n c :: nat
proof -
  assume "0 < c"
  then have "n mod c < c" by simp
  moreover have "n = n div c * c + n mod c" by simp
  ultimately show ?thesis by (metis add.assoc add_mult_distrib le_add_diff_inverse less_imp_le mult_1)
qed

text \<open>Cutting a well-formed batch into as many chunks as divide it and concatenating the chunks gives the
  batch back, tensors, arrays and meta information; with or without padding allowed, every chunk is
  well formed and holds its share of the rows, in order.\<close>

theorem chunk_concat_roundtrip:
  assumes "dp_ok d" "no_metrics d" "0 < c" "dp_len d mod c = 0" "dp_batch d = None \<or> 0 < dp_len d"
  shows "\<exists>ps. chunk_dp padding c d = Inr ps \<and> length ps = c \<and> concat_dp ps = Inr d \<and>
    (\<forall>i < c. dp_ok (ps ! i) \<and>
       ps ! i = cols (\<lambda>xs. take (dp_len d div c) (drop (i * (dp_len d div c)) xs))
         (\<lambda>xs. take (dp_len d div c) (drop (i * (dp_len d div c)) xs)) (dp_len d div c) d)"
proof -
  let ?m = "dp_len d div c"
  have len: "dp_len d = c * ?m" using assms(4) by auto
  then have m: "dp_batch d = None \<or> 0 < ?m" using assms(5) by (metis mult_0_right neq0_conv)
  let ?ps = "map (\<lambda>i. cols (\<lambda>v. cut (replicate c ?m) v ! i) (\<lambda>v. cut (replicate c ?m) v ! i) ?m d) [0..<c]"
  have chunk: "chunk_dp padding c d = Inr ?ps" by (rule chunk_dp_eq [OF assms(1,3) len m])
  have piece: "dp_ok (?ps ! i) \<and> ?ps ! i = cols (\<lambda>xs. take ?m (drop (i * ?m) xs)) (\<lambda>xs. take ?m (drop (i * ?m) xs)) ?m d"
    if i: "i < c" for i
  proof -
    have "resizes (\<lambda>v. cut (replicate c ?m) v ! i) (\<lambda>v. cut (replicate c ?m) v ! i) (dp_len d) ?m"
      using cut_resizes [OF i, of ?m] len by simp
    from cols_ok [OF assms(1) this] i show ?thesis by (simp add: cut_equal_nth)
  qed
  have conc: "concat_dp ?ps = Inr d" by (rule concat_chunks [OF assms(1-3) len])
  show ?thesis by (rule exI [of _ ?ps]) (intro conjI chunk conc allI impI piece; simp)
qed

text \<open>Padding a batch to a multiple of the divisor appends fewer rows than the divisor, and unpadding by the
  returned count gives the original batch back.\<close>

theorem pad_unpad_roundtrip:
  assumes "dp_ok d" "no_metrics d" "0 < c"
  shows "\<exists>p k. pad_dataproto_to_divisor c d = Inr (p, k) \<and> k < c \<and> dp_len p = dp_len d + k \<and> dp_len p mod c = 0 \<and>
    unpad_dataproto k p = Inr d"
proof (cases "dp_len d mod c = 0")
  case True
  then show ?thesis using assms(3) by (simp add: pad_dataproto_to_divisor_def unpad_dataproto_def)
next
  case False
  let ?n = "dp_len d" and ?k = "c - dp_len d mod c"
  let ?p = "cols (pad_rows ?k) (pad_rows ?k) (?n + ?k) d"
  have n: "0 < ?n" using False by (cases ?n) simp_all
  then have ne: "dp_batch d \<noteq> None \<or> dp_non_tensor d \<noteq> []"
    by (cases "dp_batch d") (auto simp: dp_len_def)
  have r: "resizes (pad_rows ?k) (pad_rows ?k) ?n (?n + ?k)"
    using n by (simp add: resizes_def length_pad_rows')
  have k: "0 < ?k" "?k < c" using assms(3) False by (simp_all add: mod_less_divisor)
  have "?n + ?k = (?n div c + 1) * c"
    by (rule round_up [OF assms(3)])
  then have div: "(?n + ?k) mod c = 0" by (metis mod_mult_self2_is_0)
  note len = dp_len_cols [OF assms(1) r ne]
  have "slice_dp None (Some (- int ?k)) None ?p = Inr (cols (\<lambda>xs. py_slice None (Some (- int ?k)) 1 (pad_rows ?k xs))
      (\<lambda>xs. py_slice None (Some (- int ?k)) 1 (pad_rows ?k xs)) (length (slice_indices None (Some (- int ?k)) 1 (?n + ?k))) d)"
    using slice_dp_eq [OF cols_ok [OF assms(1) r], of None None "Some (- int ?k)"] unfolding len cols_cols by simp
  moreover have "length (slice_indices None (Some (- int ?k)) 1 (?n + ?k)) = ?n"
    using length_slice_indices [of None "Some (- int ?k)" 1 "replicate (?n + ?k) ()"]
      py_slice_drop_last [OF k(1), of "replicate (?n + ?k) ()"] by simp
  moreover have "cols (\<lambda>xs. py_slice None (Some (- int ?k)) 1 (pad_rows ?k xs))
      (\<lambda>xs. py_slice None (Some (- int ?k)) 1 (pad_rows ?k xs)) ?n d = d"
    by (rule cols_id [OF assms(1)])
      (rule py_slice_pad_rows [OF _ n k(1)] refl | assumption)+
  ultimately have "unpad_dataproto ?k ?p = Inr d" using k(1) by (simp add: unpad_dataproto_def)
  then show ?thesis using pad_dp_eq [OF assms(1-3) False] k(2) div len
    by (intro exI [of _ ?p] exI [of _ ?k]) (simp only: simp_thms)
qed

text \<open>Folding a batch into rows of rows and unfolding it again gives the batch back, when the batch has tensors
  and the new size divides it.\<close>

theorem fold_unfold_roundtrip:
  assumes "dp_ok d" "dp_batch d = Some b" "td_items b \<noteq> []" "0 < n" "td_size b mod n = 0"
  shows "\<exists>f. fold_batch_dim n d = Inr f \<and> dp_ok f \<and> dp_len f = n \<and> unfold_batch_dim f = Inr d"
proof -
  let ?f = "cols (fold_rows n) (fold_rows n) n d"
  have len: "dp_len d = td_size b" using assms(2) by (simp add: dp_len_def)
  have r: "resizes (fold_rows n) (fold_rows n) (dp_len d) n" by (simp add: resizes_def)
  note ok = cols_ok [OF assms(1) r]
  have flen: "dp_len ?f = n" using assms(2) by (simp add: dp_len_def cols_def)
  have fold: "fold_batch_dim n d = Inr ?f"
    using assms(2,4,5) map_cols_eq [OF assms(1) r] by (simp add: fold_batch_dim_def)
  obtain k v it where it: "td_items b = (k, v) # it" using assms(3) by (cases "td_items b") auto
  have v: "length v = td_size b" using tensor_length [OF assms(1,2), of k v] it len by simp
  have "unfold_batch_dim ?f = map_cols concat concat (td_size b) ?f"
    using assms(2,5) v by (simp add: unfold_batch_dim_def cols_def it concat_fold_rows)
  also have "\<dots> = mk_dp (dp_batch (cols (\<lambda>xs. concat (fold_rows n xs)) (\<lambda>xs. concat (fold_rows n xs)) (td_size b) d))
      (dp_non_tensor (cols (\<lambda>xs. concat (fold_rows n xs)) (\<lambda>xs. concat (fold_rows n xs)) (td_size b) d)) (dp_meta d)"
    unfolding map_cols_def using assms(2) by (simp add: cols_def map_items_comp)
  also have "cols (\<lambda>xs. concat (fold_rows n xs)) (\<lambda>xs. concat (fold_rows n xs)) (td_size b) d = d"
    by (rule cols_id [OF assms(1)]) (use assms(5) len in \<open>simp_all add: concat_fold_rows\<close>)
  also have "mk_dp (dp_batch d) (dp_non_tensor d) (dp_meta d) = Inr d"
    using mk_dp_ok [of "dp_batch d" "dp_non_tensor d" "dp_meta d"] assms(1) by (cases d) simp
  finally show ?thesis using fold ok flen by blast
qed


section \<open>Operations keep the batch well formed\<close>

lemma slice_dp_ok:
  assumes ok: "dp_ok d" and res: "slice_dp a b step d = Inr e"
  shows "dp_ok e"
proof -
  let ?s = "case step of None \<Rightarrow> 1 | Some s \<Rightarrow> s"
  have "map_cols (py_slice a b ?s) (py_slice a b ?s) (length (slice_indices a b ?s (dp_len d))) d = Inr e"
    using res by (simp add: slice_dp_def Let_def require_Inr)
  then show ?thesis using map_cols_eq [OF ok slice_resizes] cols_ok [OF ok slice_resizes] by auto
qed

lemma length_repeat_interleave [simp]: "length (repeat_interleave k xs) = length xs * k"
  by (induction xs) (simp_all add: repeat_interleave_def)

lemma repeat_dp_ok:
  assumes ok: "dp_ok d" and res: "repeat_dp k il d = Inr e"
  shows "dp_ok e \<and> e = cols (if il then repeat_interleave k else tile k) (if il then repeat_interleave k else tile k)
    (dp_len d * k) d"
proof -
  have r: "resizes (repeat_interleave k) (repeat_interleave k) (dp_len d) (dp_len d * k)"
    "resizes (tile k) (tile k) (dp_len d) (dp_len d * k)"
    by (simp_all add: resizes_def length_tile mult.commute)
  show ?thesis
    using res map_cols_eq [OF ok r(1)] map_cols_eq [OF ok r(2)] cols_ok [OF ok r(1)] cols_ok [OF ok r(2)]
    by (cases il) (simp_all add: repeat_dp_def)
qed

lemma picked_ok:
  assumes ok: "distinct (dict_keys d)" and picked: "items_r (pick ix) d = Inr e"
  shows "distinct (dict_keys e) \<and> (\<forall>(k, v) \<in> set e. length v = index_size ix)"
  using items_r_Inr [OF picked] pick_length ok by fastforce

lemma reorder_ok:
  assumes ok: "dp_ok d" and res: "reorder is d = Inr e"
  shows "dp_ok e"
proof -
  from res obtain b it nt where b: "dp_batch d = Some b" and it: "items_r (pick (Idxs is)) (td_items b) = Inr it"
    and nt: "items_r (pick (Idxs is)) (dp_non_tensor d) = Inr nt"
    and e: "e = d\<lparr>dp_batch := Some \<lparr>td_size = length is, td_items = it\<rparr>, dp_non_tensor := nt\<rparr>"
    by (auto simp: reorder_def bind_r_Inr split: option.splits)
  have d: "distinct (dict_keys (td_items b))" "distinct (dict_keys (dp_non_tensor d))"
    using ok b by (simp_all add: dp_ok_def td_ok_def)
  from picked_ok [OF d(1) it] picked_ok [OF d(2) nt] ok show ?thesis
    by (auto simp: e dp_ok_def td_ok_def dp_len_def index_size_def)
qed

lemma cut_resizes_at:
  assumes "sum_list ns = n" "i < length ns"
  shows "resizes (\<lambda>v. cut ns v ! i) (\<lambda>v. cut ns v ! i) n (ns ! i)"
  using assms by (simp add: resizes_def length_cut_nth)

lemma chunk_dp_ok:
  assumes ok: "dp_ok d" and res: "chunk_dp padding c d = Inr ps" and p: "p \<in> set ps"
  shows "dp_ok p"
proof -
  let ?ns = "if dp_batch d = None then array_split_sizes (dp_len d) c else torch_chunk_sizes (dp_len d) c"
  let ?ts = "torch_chunk_sizes (dp_len d) c"
  have all: "map_r (chunk_cols ?ts c d) [0..<c] = Inr ps" and len: "dp_batch d \<noteq> None \<Longrightarrow> c \<le> length ?ts"
    using res by (auto simp: chunk_dp_def Let_def split: if_splits)
  from all p obtain i where i: "i < c" "chunk_cols ?ts c d i = Inr p"
    by (force simp: map_r_Inr list_all2_conv_all_nth in_set_conv_nth)
  then have c: "0 < c" by simp
  have "resizes (\<lambda>v. cut ?ns v ! i) (\<lambda>v. cut ?ns v ! i) (dp_len d) (?ns ! i)"
    using sum_torch_chunk_sizes [OF c, of "dp_len d"] sum_array_split_sizes [OF c, of "dp_len d"] len i(1)
    by (intro cut_resizes_at) auto
  note piece = cols_ok [OF ok this]
  have "p = cols (\<lambda>v. cut ?ns v ! i) (\<lambda>v. cut ?ns v ! i) (?ns ! i) d"
  proof (cases "dp_batch d")
    case None
    have "map_items (\<lambda>v. cut (array_split_sizes (length v) c) v ! i) (dp_non_tensor d) =
        map_items (\<lambda>v. cut (array_split_sizes (dp_len d) c) v ! i) (dp_non_tensor d)"
      using array_length [OF ok] by (intro map_items_cong) simp
    with None i(2) show ?thesis by (simp add: chunk_cols_def cols_def mk_dp_def Let_def require_Inr)
  next
    case (Some b)
    with i(2) show ?thesis by (simp add: chunk_cols_def cols_def mk_dp_def Let_def require_Inr)
  qed
  with piece show ?thesis by simp
qed

lemma map_r_member: "map_r f xs = Inr ys \<Longrightarrow> y \<in> set ys \<Longrightarrow> \<exists>x. f x = Inr y"
  by (induction xs arbitrary: ys) (auto simp: bind_r_Inr)

lemma split_dp_ok:
  assumes ok: "dp_ok d" and res: "split_dp sz d = Inr ps" and p: "p \<in> set ps"
  shows "dp_ok p"
proof -
  have "map_r (\<lambda>i. slice_dp (Some (int (i * sz))) (Some (int (i * sz + sz))) None d) [0..<(dp_len d + sz - 1) div sz] = Inr ps"
    using res by (simp add: split_dp_def require_Inr)
  then have "\<exists>i. slice_dp (Some (int (i * sz))) (Some (int (i * sz + sz))) None d = Inr p"
    using map_r_member [OF _ p] by blast
  then obtain i where "slice_dp (Some (int (i * sz))) (Some (int (i * sz + sz))) None d = Inr p" ..
  then show ?thesis by (rule slice_dp_ok [OF ok])
qed


section \<open>Union\<close>

text \<open>The loop all three unions share: a key both sides have must agree, up to \<open>P\<close>.\<close>

definition merge_keys :: "('v \<Rightarrow> 'v \<Rightarrow> bool) \<Rightarrow> ('k, 'v) dict \<Rightarrow> ('k, 'v) dict \<Rightarrow> ('k, 'v) dict result" where
  "merge_keys P d e = fold (\<lambda>(k, v) r. bind_r r (\<lambda>d.
     require (case map_of d k of None \<Rightarrow> True | Some w \<Rightarrow> P v w) AssertionError (Inr (dict_set k v d)))) e (Inr d)"

lemma fold_Inl: "(\<And>x e. f x (Inl e) = Inl e) \<Longrightarrow> fold f xs (Inl e) = Inl e"
  by (induction xs) auto

lemma merge_keys_Cons: "merge_keys P d ((k, v) # e) =
    require (case map_of d k of None \<Rightarrow> True | Some w \<Rightarrow> P v w) AssertionError (merge_keys P (dict_set k v d) e)"
proof -
  have err: "fold (\<lambda>(k, v) r. bind_r r (\<lambda>d. require (case map_of d k of None \<Rightarrow> True | Some w \<Rightarrow> P v w) AssertionError
      (Inr (dict_set k v d)))) e (Inl x) = Inl x" for x
    by (rule fold_Inl) auto
  show ?thesis
    by (cases "case map_of d k of None \<Rightarrow> True | Some w \<Rightarrow> P v w") (simp_all add: merge_keys_def err)
qed

lemma merge_keys_Nil: "merge_keys P d [] = Inr d"
  by (simp add: merge_keys_def)

lemma merge_keys_Inr:
  assumes "merge_keys P d e = Inr u" "distinct (dict_keys d)" "distinct (dict_keys e)"
  shows "distinct (dict_keys u) \<and> map_of u = map_of d ++ map_of e \<and>
    (\<forall>k v w. map_of d k = Some w \<longrightarrow> map_of e k = Some v \<longrightarrow> P v w)"
  using assms
proof (induction e arbitrary: d)
  case (Cons x e)
  obtain k v where x: "x = (k, v)" by (cases x)
  have head: "case map_of d k of None \<Rightarrow> True | Some w \<Rightarrow> P v w" and tail: "merge_keys P (dict_set k v d) e = Inr u"
    using Cons.prems(1) by (simp_all add: x merge_keys_Cons require_Inr)
  have k: "map_of e k = None" "distinct (dict_keys e)"
    using Cons.prems(3) by (simp_all add: x dict_keys_def map_of_eq_None_iff)
  note IH = Cons.IH [OF tail distinct_dict_set [OF Cons.prems(2)] k(2)]
  have "map_of (dict_set k v d) ++ map_of e = map_of d ++ map_of (x # e)"
    using k(1) by (intro ext) (auto simp: x map_add_def split: option.splits)
  then have "map_of u = map_of d ++ map_of (x # e)" using IH by (simp only:)
  moreover have "P v' w" if "map_of d k' = Some w" "map_of (x # e) k' = Some v'" for k' v' w
  proof (cases "k' = k")
    case False
    then have "map_of (dict_set k v d) k' = Some w" "map_of e k' = Some v'" using that by (simp_all add: x)
    with IH show ?thesis by blast
  qed (use that head in \<open>simp add: x\<close>)
  ultimately show ?case using IH by blast
qed (simp add: merge_keys_Nil)

lemma merge_keys_total:
  assumes "distinct (dict_keys e)" "\<And>k v w. map_of d k = Some w \<Longrightarrow> map_of e k = Some v \<Longrightarrow> P v w"
  shows "\<exists>u. merge_keys P d e = Inr u"
  using assms
proof (induction e arbitrary: d)
  case (Cons x e)
  obtain k v where x: "x = (k, v)" by (cases x)
  have k: "map_of e k = None" "distinct (dict_keys e)"
    using Cons.prems(1) by (simp_all add: x dict_keys_def map_of_eq_None_iff)
  have tail: "P v' w" if "map_of (dict_set k v d) k' = Some w" "map_of e k' = Some v'" for k' v' w
    using that k(1) Cons.prems(2) [of k' w v'] by (auto simp: x split: if_splits)
  have "\<exists>u. merge_keys P (dict_set k v d) e = Inr u" by (rule Cons.IH [OF k(2)]) (rule tail)
  then show ?case
    using Cons.prems(2) [of k _ v] by (auto simp: x merge_keys_Cons split: option.split)
qed (simp add: merge_keys_Nil)

lemma union_two_dict_merge: "union_two_dict = merge_keys py_eq"
  by (intro ext) (simp add: union_two_dict_def merge_keys_def)

lemma union_numpy_dict_merge: "union_numpy_dict = merge_keys (\<lambda>v w. w = v)"
  by (intro ext) (simp add: union_numpy_dict_def merge_keys_def)

lemma dict_set_same: "map_of d k = Some v \<Longrightarrow> dict_set k v d = d"
  by (induction d) (auto split: if_splits)

lemma check_step: "(case map_of d k of None \<Rightarrow> Inr (dict_set k v d) | Some w \<Rightarrow> require (w = v) AssertionError (Inr d)) =
    require (case map_of d k of None \<Rightarrow> True | Some w \<Rightarrow> w = v) AssertionError (Inr (dict_set k v d))"
  by (cases "map_of d k") (auto simp: require_def dict_set_same)

lemma union_tensor_dict_merge: "union_tensor_dict t1 t2 =
    require (td_size t1 = td_size t2) AssertionError
      (bind_r (merge_keys (\<lambda>v w. w = v) (td_items t1) (td_items t2)) (\<lambda>d. Inr (t1\<lparr>td_items := d\<rparr>)))"
  by (simp only: union_tensor_dict_def merge_keys_def check_step)


lemma distinct_value: "distinct (dict_keys d) \<Longrightarrow> (k, v) \<in> set d \<longleftrightarrow> map_of d k = Some v"
  by (simp add: dict_keys_def)

lemma merged_member:
  assumes "merge_keys P d e = Inr u" "distinct (dict_keys d)" "distinct (dict_keys e)" "(k, v) \<in> set u"
  shows "(k, v) \<in> set d \<or> (k, v) \<in> set e"
proof -
  note m = merge_keys_Inr [OF assms(1-3)]
  with assms(4) have "map_of d k = Some v \<or> map_of e k = Some v"
    by (auto simp: distinct_value map_add_def split: option.splits)
  with assms(2,3) show ?thesis by (simp add: distinct_value)
qed

lemma merge_keys_error: "merge_keys P d e = Inl x \<Longrightarrow> x = AssertionError"
proof (induction e arbitrary: d)
  case (Cons y e)
  then show ?case by (cases y) (auto simp: merge_keys_Cons require_Inl)
qed (simp add: merge_keys_Nil)

lemma merge_keys_conflict:
  assumes "distinct (dict_keys e)" "merge_keys P d e = Inl x"
  shows "x = AssertionError \<and> (\<exists>k w v. map_of d k = Some w \<and> map_of e k = Some v \<and> \<not> P v w)"
proof -
  have "\<exists>k w v. map_of d k = Some w \<and> map_of e k = Some v \<and> \<not> P v w"
  proof (rule ccontr)
    assume "\<not> ?thesis"
    then have "\<exists>u. merge_keys P d e = Inr u" by (intro merge_keys_total [OF assms(1)]) blast
    with assms(2) show False by simp
  qed
  with merge_keys_error [OF assms(2)] show ?thesis by blast
qed

lemma bind_r_Inl: "bind_r r f = Inl x \<longleftrightarrow> r = Inl x \<or> (\<exists>y. r = Inr y \<and> f y = Inl x)"
  by (cases r) auto

lemma union_dp_Inr:
  assumes "union_dp d e = Inr u"
  obtains b c t nt m where "dp_batch d = Some b" "dp_batch e = Some c" "td_size b = td_size c"
    "merge_keys (\<lambda>v w. w = v) (td_items b) (td_items c) = Inr t"
    "merge_keys (\<lambda>v w. w = v) (dp_non_tensor d) (dp_non_tensor e) = Inr nt"
    "merge_keys py_eq (dp_meta d) (dp_meta e) = Inr m"
    "u = \<lparr>dp_batch = Some (b\<lparr>td_items := t\<rparr>), dp_non_tensor = nt, dp_meta = m\<rparr>"
  using assms by (auto simp: union_dp_def union_tensor_dict_merge union_numpy_dict_merge union_two_dict_merge
      bind_r_Inr require_Inr split: option.splits)

lemma union_dp_ok:
  assumes "dp_ok d" "dp_ok e" "union_dp d e = Inr u"
  shows "dp_ok u"
proof -
  from assms(3) obtain b c t nt m where b: "dp_batch d = Some b" and c: "dp_batch e = Some c" and sz: "td_size b = td_size c"
    and t: "merge_keys (\<lambda>v w. w = v) (td_items b) (td_items c) = Inr t"
    and nt: "merge_keys (\<lambda>v w. w = v) (dp_non_tensor d) (dp_non_tensor e) = Inr nt"
    and m: "merge_keys py_eq (dp_meta d) (dp_meta e) = Inr m"
    and u: "u = \<lparr>dp_batch = Some (b\<lparr>td_items := t\<rparr>), dp_non_tensor = nt, dp_meta = m\<rparr>" by (rule union_dp_Inr)
  have len: "dp_len d = td_size b" "dp_len e = td_size b" "dp_len u = td_size b"
    using b c sz by (simp_all add: dp_len_def u)
  have dis: "distinct (dict_keys (td_items b))" "distinct (dict_keys (td_items c))"
    "distinct (dict_keys (dp_non_tensor d))" "distinct (dict_keys (dp_non_tensor e))"
    "distinct (dict_keys (dp_meta d))" "distinct (dict_keys (dp_meta e))"
    using assms(1,2) b c by (simp_all add: dp_ok_def td_ok_def)
  have "length v = td_size b" if "(k, v) \<in> set t" for k v
    using merged_member [OF t dis(1,2) that] tensor_length [OF assms(1) b] tensor_length [OF assms(2) c] len by auto
  moreover have "length v = td_size b" if "(k, v) \<in> set nt" for k v
    using merged_member [OF nt dis(3,4) that] array_length [OF assms(1)] array_length [OF assms(2)] len by auto
  moreover have "py_wf v" if "(k, v) \<in> set m" for k v
    using merged_member [OF m dis(5,6) that] assms(1,2) by (auto simp: dp_ok_def)
  ultimately show ?thesis
    using merge_keys_Inr [OF t dis(1,2)] merge_keys_Inr [OF nt dis(3,4)] merge_keys_Inr [OF m dis(5,6)]
    by (auto simp: dp_ok_def td_ok_def u dp_len_def)
qed

text \<open>The union of two well-formed batches either fails on a key on which they disagree (or on different batch
  sizes), or holds exactly the tensors and arrays of both.\<close>

theorem union_holds_both:
  assumes "dp_ok d" "dp_ok e" "dp_batch d = Some b" "dp_batch e = Some c"
  shows "(case union_dp d e of
      Inr u \<Rightarrow> dp_ok u \<and> map_option td_size (dp_batch u) = Some (td_size b) \<and> td_size b = td_size c \<and>
        map_option (\<lambda>t. map_of (td_items t)) (dp_batch u) = Some (map_of (td_items b) ++ map_of (td_items c)) \<and>
        map_of (dp_non_tensor u) = map_of (dp_non_tensor d) ++ map_of (dp_non_tensor e) \<and>
        map_of (dp_meta u) = map_of (dp_meta d) ++ map_of (dp_meta e)
    | Inl x \<Rightarrow> x = AssertionError \<and> (td_size b \<noteq> td_size c
        \<or> (\<exists>k v w. map_of (td_items b) k = Some v \<and> map_of (td_items c) k = Some w \<and> v \<noteq> w)
        \<or> (\<exists>k v w. map_of (dp_non_tensor d) k = Some v \<and> map_of (dp_non_tensor e) k = Some w \<and> v \<noteq> w)
        \<or> (\<exists>k v w. map_of (dp_meta d) k = Some v \<and> map_of (dp_meta e) k = Some w \<and> \<not> py_eq w v)))"
proof (cases "union_dp d e")
  case (Inr u)
  have dis: "distinct (dict_keys (td_items b))" "distinct (dict_keys (td_items c))"
    "distinct (dict_keys (dp_non_tensor d))" "distinct (dict_keys (dp_non_tensor e))"
    "distinct (dict_keys (dp_meta d))" "distinct (dict_keys (dp_meta e))"
    using assms by (simp_all add: dp_ok_def td_ok_def)
  from Inr assms(3,4) obtain t nt m where sz: "td_size b = td_size c"
    and t: "merge_keys (\<lambda>v w. w = v) (td_items b) (td_items c) = Inr t"
    and nt: "merge_keys (\<lambda>v w. w = v) (dp_non_tensor d) (dp_non_tensor e) = Inr nt"
    and m: "merge_keys py_eq (dp_meta d) (dp_meta e) = Inr m"
    and u: "u = \<lparr>dp_batch = Some (b\<lparr>td_items := t\<rparr>), dp_non_tensor = nt, dp_meta = m\<rparr>"
    by (auto elim: union_dp_Inr)
  show ?thesis
    using union_dp_ok [OF assms(1,2) Inr] sz merge_keys_Inr [OF t dis(1,2)] merge_keys_Inr [OF nt dis(3,4)]
      merge_keys_Inr [OF m dis(5,6)] by (simp add: Inr u)
next
  case (Inl x)
  have dis: "distinct (dict_keys (td_items c))" "distinct (dict_keys (dp_non_tensor e))" "distinct (dict_keys (dp_meta e))"
    using assms by (simp_all add: dp_ok_def td_ok_def)
  note conflict = merge_keys_conflict [OF dis(1)] merge_keys_conflict [OF dis(2)] merge_keys_conflict [OF dis(3)]
  show ?thesis
  proof (cases "td_size b = td_size c")
    case False
    with Inl assms(3,4) show ?thesis by (simp add: union_dp_def union_tensor_dict_def)
  next
    case True
    then show ?thesis using Inl assms(3,4) conflict
      by (auto simp: union_dp_def union_tensor_dict_merge union_numpy_dict_merge union_two_dict_merge bind_r_Inl)
  qed
qed


section \<open>Reachable batches\<close>

lemma fold_select_keys:
  assumes "fold (\<lambda>k r. bind_r r (\<lambda>out. bind_r (dict_item d k) (\<lambda>v. Inr (dict_set k v out)))) ks (Inr o0) = Inr e"
    "distinct (dict_keys o0)" "distinct (dict_keys d)" "\<And>k v. (k, v) \<in> set o0 \<Longrightarrow> (k, v) \<in> set d"
  shows "distinct (dict_keys e) \<and> (\<forall>k v. (k, v) \<in> set e \<longrightarrow> (k, v) \<in> set d) \<and>
    set (dict_keys e) = set (dict_keys o0) \<union> set ks"
  using assms
proof (induction ks arbitrary: o0)
  case (Cons k ks)
  have err: "fold (\<lambda>k r. bind_r r (\<lambda>out. bind_r (dict_item d k) (\<lambda>v. Inr (dict_set k v out)))) ks (Inl x) = Inl x" for x
    by (rule fold_Inl) simp
  obtain v where v: "map_of d k = Some v"
    using Cons.prems(1) err by (cases "map_of d k") (simp_all add: dict_item_def)
  have sub: "(k', v') \<in> set d" if "(k', v') \<in> set (dict_set k v o0)" for k' v'
    using that Cons.prems(2-4) v by (auto simp: distinct_value split: if_splits)
  have "fold (\<lambda>k r. bind_r r (\<lambda>out. bind_r (dict_item d k) (\<lambda>v. Inr (dict_set k v out)))) ks (Inr (dict_set k v o0)) = Inr e"
    using Cons.prems(1) v by (simp add: dict_item_def)
  from Cons.IH [OF this distinct_dict_set [OF Cons.prems(2)] Cons.prems(3) sub] show ?case
    by (auto simp: keys_dict_set split: if_splits)
qed simp

lemma select_keys_Inr:
  assumes "select_keys ks d = Inr e" "distinct (dict_keys d)"
  shows "distinct (dict_keys e) \<and> (\<forall>k v. (k, v) \<in> set e \<longrightarrow> (k, v) \<in> set d) \<and> set (dict_keys e) = set ks"
  using fold_select_keys [of d ks "[]" e] assms by (simp add: select_keys_def dict_keys_def)

lemma filter_keys_sub: "(k, v) \<in> set (filter_keys ks d) \<Longrightarrow> (k, v) \<in> set d"
  by (auto simp: filter_keys_def split: option.splits)

lemma distinct_filter_keys: "distinct (dict_keys d) \<Longrightarrow> distinct (dict_keys (filter_keys ks d))"
  by (auto simp: filter_keys_def dict_keys_def distinct_map_filter split: option.splits)

lemma length_arrays:
  assumes "dp_batch e = None" "\<And>k v. (k, v) \<in> set (dp_non_tensor e) \<Longrightarrow> length v = n" "(k, v) \<in> set (dp_non_tensor e)"
  shows "length v = dp_len e"
proof (cases "dp_non_tensor e")
  case (Cons x nt)
  then have "length (snd x) = n" using assms(2) [of "fst x" "snd x"] by simp
  with assms(1) Cons have "dp_len e = n" by (simp add: dp_len_def case_prod_unfold)
  with assms(2) [OF assms(3)] show ?thesis by simp
qed (use assms in simp)

lemma select_dp_ok:
  assumes ok: "dp_ok d" and res: "select_dp bk nk mk d = Inr e"
  shows "dp_ok e"
proof -
  from res obtain b where e: "e = \<lparr>dp_batch = b, dp_non_tensor = filter_keys nk (dp_non_tensor d),
      dp_meta = filter_keys mk (dp_meta d)\<rparr>"
    and b: "b = dp_batch d \<or> (\<exists>b0 ks it. dp_batch d = Some b0 \<and> select_keys ks (td_items b0) = Inr it \<and>
      b = Some (b0\<lparr>td_items := it\<rparr>))"
    by (auto simp: select_dp_def bind_r_Inr mk_dp_def Let_def require_Inr split: option.splits)
  have dis: "distinct (dict_keys (dp_non_tensor e))" "distinct (dict_keys (dp_meta e))"
    using ok by (simp_all add: e dp_ok_def distinct_filter_keys)
  have meta: "\<forall>(k, v) \<in> set (dp_meta e). py_wf v"
    using ok filter_keys_sub [of _ _ mk "dp_meta d"] by (fastforce simp: e dp_ok_def)
  have arr: "length v = dp_len d" if "(k, v) \<in> set (dp_non_tensor e)" for k v
    using array_length [OF ok filter_keys_sub] that by (simp add: e)
  show ?thesis
  proof (cases "dp_batch d")
    case None
    then have bn: "dp_batch e = None" using b by (auto simp: e)
    have "length v = dp_len e" if "(k, v) \<in> set (dp_non_tensor e)" for k v
      by (rule length_arrays [OF bn _ that]) (rule arr)
    with dis meta bn show ?thesis by (auto simp: dp_ok_def)
  next
    case (Some b0)
    obtain it where it: "dp_batch e = Some (b0\<lparr>td_items := it\<rparr>)" "distinct (dict_keys it)"
      "\<And>k v. (k, v) \<in> set it \<Longrightarrow> (k, v) \<in> set (td_items b0)"
    proof -
      have d0: "distinct (dict_keys (td_items b0))" using ok Some by (simp add: dp_ok_def td_ok_def)
      from b have "\<exists>it. dp_batch e = Some (b0\<lparr>td_items := it\<rparr>) \<and> distinct (dict_keys it) \<and>
          (\<forall>k v. (k, v) \<in> set it \<longrightarrow> (k, v) \<in> set (td_items b0))"
      proof
        assume "b = dp_batch d"
        then show ?thesis using Some d0 by (intro exI [of _ "td_items b0"]) (simp add: e)
      next
        assume "\<exists>b0 ks it. dp_batch d = Some b0 \<and> select_keys ks (td_items b0) = Inr it \<and> b = Some (b0\<lparr>td_items := it\<rparr>)"
        then show ?thesis using Some select_keys_Inr [OF _ d0] by (auto simp: e)
      qed
      with that show thesis by blast
    qed
    have len: "dp_len e = dp_len d" using it(1) Some by (simp add: dp_len_def)
    have "length v = td_size b0" if "(k, v) \<in> set it" for k v
      using tensor_length [OF ok Some it(3) [OF that]] Some by (simp add: dp_len_def)
    with it dis meta arr len show ?thesis by (auto simp: dp_ok_def td_ok_def)
  qed
qed

lemma rename_dp_ok:
  assumes ok: "dp_ok d" and res: "rename_dp olds news d = Inr e"
  shows "dp_ok e"
proof -
  from res obtain b old new where b: "dp_batch d = Some b"
    and r: "bind_r (dict_item (td_items b) old) (\<lambda>v. Inr (if old = new then d
      else d\<lparr>dp_batch := Some (b\<lparr>td_items := dict_set new v (dict_del old (td_items b))\<rparr>)\<rparr>)) = Inr e"
    by (auto simp: rename_dp_def require_Inr split: option.splits list.splits)
  then obtain v where v: "map_of (td_items b) old = Some v"
    and e: "e = (if old = new then d else d\<lparr>dp_batch := Some (b\<lparr>td_items := dict_set new v (dict_del old (td_items b))\<rparr>)\<rparr>)"
    by (auto simp: dict_item_def bind_r_Inr split: option.splits)
  have dis: "distinct (dict_keys (td_items b))" using ok b by (simp add: dp_ok_def td_ok_def)
  have "length w = td_size b" if "(k, w) \<in> set (dict_set new v (dict_del old (td_items b)))" for k w
  proof -
    from that dis have "map_of (td_items b) k = Some w \<or> map_of (td_items b) old = Some w"
      using v by (auto simp: distinct_value split: if_splits)
    then show ?thesis using tensor_length [OF ok b] b by (auto dest: map_of_SomeD simp: dp_len_def)
  qed
  with ok b dis show ?thesis by (auto simp: e dp_ok_def td_ok_def dp_len_def)
qed


lemma pop_keys_Inr:
  assumes "pop_keys ks d out = Inr (out', rest)" "distinct (dict_keys d)" "distinct (dict_keys out)"
    "set (dict_keys out) \<inter> set (dict_keys d) = {}"
  shows "distinct (dict_keys out') \<and> distinct (dict_keys rest) \<and> map_of out' ++ map_of rest = map_of out ++ map_of d \<and>
    set (dict_keys out') = set (dict_keys out) \<union> set ks \<and> set (dict_keys rest) = set (dict_keys d) - set ks"
  using assms
proof (induction ks d out rule: pop_keys.induct)
  case (2 k ks d out)
  obtain v where v: "map_of d k = Some v" and tail: "pop_keys ks (dict_del k d) (dict_set k v out) = Inr (out', rest)"
    using 2(2) by (auto split: option.splits)
  have dj: "set (dict_keys (dict_set k v out)) \<inter> set (dict_keys (dict_del k d)) = {}"
    using 2(5) by (auto simp: keys_dict_set keys_dict_del split: if_splits)
  have "map_of (dict_set k v out) ++ map_of (dict_del k d) = map_of out ++ map_of d"
    using v by (intro ext) (auto simp: map_add_def split: option.splits)
  moreover note IH = 2(1) [OF v tail distinct_dict_del [OF 2(3)] distinct_dict_set [OF 2(4)] dj]
  moreover have "k \<in> set (dict_keys d)" using v keys_map_of [of k d] by simp
  ultimately have "map_of out' ++ map_of rest = map_of out ++ map_of d"
    "set (dict_keys out') = set (dict_keys out) \<union> set (k # ks)" "set (dict_keys rest) = set (dict_keys d) - set (k # ks)"
    "distinct (dict_keys out')" "distinct (dict_keys rest)"
    by (simp only:, auto simp: keys_dict_set keys_dict_del)
  then show ?case by blast
qed simp

lemma pop_keys_member:
  assumes "pop_keys ks d [] = Inr (out, rest)" "distinct (dict_keys d)"
  shows "distinct (dict_keys out) \<and> distinct (dict_keys rest) \<and>
    (\<forall>k v. (k, v) \<in> set out \<longrightarrow> (k, v) \<in> set d) \<and> (\<forall>k v. (k, v) \<in> set rest \<longrightarrow> (k, v) \<in> set d)"
proof -
  have p: "distinct (dict_keys out) \<and> distinct (dict_keys rest) \<and> map_of out ++ map_of rest = map_of d \<and>
      set (dict_keys out) = set ks \<and> set (dict_keys rest) = set (dict_keys d) - set ks"
    using pop_keys_Inr [OF assms] by (simp add: dict_keys_def)
  then have m: "map_of out ++ map_of rest = map_of d" and dj: "set (dict_keys out) \<inter> set (dict_keys rest) = {}"
    and dis: "distinct (dict_keys out)" "distinct (dict_keys rest)"
    by auto
  have "map_of d k = Some v" if "map_of rest k = Some v" for k v
  proof -
    have "(map_of out ++ map_of rest) k = Some v" using that by (simp add: map_add_def)
    then show ?thesis by (simp only: m)
  qed
  moreover have "map_of d k = Some v" if "map_of out k = Some v" for k v
  proof -
    have "k \<notin> set (dict_keys rest)" using that dj keys_map_of [of k out] by auto
    then have "map_of rest k = None" using keys_map_of [of k rest] by simp
    with that have "(map_of out ++ map_of rest) k = Some v" by (simp add: map_add_def)
    then show ?thesis by (simp only: m)
  qed
  ultimately show ?thesis using dis by (simp add: distinct_value [OF assms(2)] distinct_value [OF dis(1)] distinct_value [OF dis(2)])
qed

lemma from_dict_len:
  assumes "from_dict ts nt m v ap = Inr e"
  shows "(\<forall>(k, t) \<in> set ts. length t = dp_len e) \<and> dp_non_tensor e = nt \<and>
    (if ts = [] then dp_batch e = None else dp_batch e = Some \<lparr>td_size = dp_len e, td_items = ts\<rparr> \<and>
       (\<forall>(k, a) \<in> set nt. length a = dp_len e)) \<and> dp_meta e = (if ap then dict_set auto_padding_key v m else m)"
proof (cases ts)
  case (Cons x ts')
  obtain k t where x: "x = (k, t)" by (cases x)
  from assms have e: "e = \<lparr>dp_batch = Some \<lparr>td_size = length t, td_items = ts\<rparr>, dp_non_tensor = nt,
      dp_meta = (if ap then dict_set auto_padding_key v m else m)\<rparr>"
    and chk: "check_consistency e" and ts: "\<forall>(k', t') \<in> set ts'. length t' = length t"
    by (auto simp: from_dict_def Cons x require_Inr mk_dp_def Let_def)
  have "dp_len e = length t" by (simp add: e dp_len_def)
  moreover have "\<forall>(k, a) \<in> set nt. length a = length t" using chk by (simp add: e check_consistency_def)
  ultimately show ?thesis using ts unfolding e by (simp add: Cons x)
qed (use assms in \<open>auto simp: from_dict_def mk_dp_def Let_def require_Inr\<close>)

text \<open>Popping keeps both batches well formed. The popped one needs arrays of equal lengths, which hold since they
  come from the same batch.\<close>

lemma pop_dp_ok:
  assumes ok: "dp_ok d" and res: "pop_dp bk nk mk d = Inr (e, r)"
  shows "dp_ok e \<and> dp_ok r"
proof -
  from res obtain ts b nt nt' m m' where
    bt: "case dp_batch d of None \<Rightarrow> ts = [] \<and> b = None
      | Some b0 \<Rightarrow> \<exists>rest. pop_keys bk (td_items b0) [] = Inr (ts, rest) \<and> b = Some (b0\<lparr>td_items := rest\<rparr>)"
    and nt: "pop_keys nk (dp_non_tensor d) [] = Inr (nt, nt')" and m: "pop_keys mk (dp_meta d) [] = Inr (m, m')"
    and e: "from_dict ts nt m PyNone False = Inr e"
    and r: "r = \<lparr>dp_batch = b, dp_non_tensor = nt', dp_meta = m'\<rparr>"
    by (auto simp: pop_dp_def bind_r_Inr require_Inr split: option.splits)
  note f = from_dict_len [OF e]
  have dis: "distinct (dict_keys (dp_non_tensor d))" "distinct (dict_keys (dp_meta d))" using ok by (simp_all add: dp_ok_def)
  note pn = pop_keys_member [OF nt dis(1)] and pm = pop_keys_member [OF m dis(2)]
  have arr: "length v = dp_len d" if "(k, v) \<in> set nt \<or> (k, v) \<in> set nt'" for k v
    using that pn array_length [OF ok] by blast
  have meta: "(\<forall>(k, v) \<in> set m. py_wf v) \<and> (\<forall>(k, v) \<in> set m'. py_wf v)"
    using pm ok by (fastforce simp: dp_ok_def)
  have e_arr: "length v = dp_len e" if "(k, v) \<in> set nt" for k v
  proof (cases "ts = []")
    case True
    then have none: "dp_batch e = None" and en: "dp_non_tensor e = nt" using f by simp_all
    show ?thesis by (rule length_arrays [OF none _ that [folded en]]) (use arr en in blast)
  qed (use f that in auto)
  have r_arr: "length v = dp_len r" if "(k, v) \<in> set nt'" for k v
  proof (cases "dp_batch d")
    case None
    then have none: "dp_batch r = None" using bt by (simp add: r)
    have rn: "dp_non_tensor r = nt'" by (simp add: r)
    show ?thesis by (rule length_arrays [OF none _ that [folded rn]]) (use arr rn in blast)
  next
    case (Some b0)
    then have "dp_len r = dp_len d" using bt by (auto simp: r dp_len_def)
    then show ?thesis using arr [of k v] that by simp
  qed
  have td: "distinct (dict_keys ts) \<and> (case b of None \<Rightarrow> True | Some b \<Rightarrow> td_ok b)"
  proof (cases "dp_batch d")
    case None
    with bt show ?thesis by (simp add: dict_keys_def)
  next
    case (Some b0)
    then have "distinct (dict_keys (td_items b0))" using ok by (simp add: dp_ok_def td_ok_def)
    with bt Some pop_keys_member [of bk "td_items b0" ts] ok show ?thesis by (fastforce simp: dp_ok_def td_ok_def)
  qed
  have "dp_ok e"
    using f td pn pm meta e_arr by (cases "ts = []") (auto simp: dp_ok_def td_ok_def)
  moreover have "dp_ok r"
    using td pn pm meta r_arr by (auto simp: dp_ok_def r split: option.splits)
  ultimately show ?thesis ..
qed


text \<open>All batches one gets from \<open>d\<close> by the operations above, in any order.\<close>

inductive dp_derived :: "('r, 'o, 'm) data_proto \<Rightarrow> ('r, 'o, 'm) data_proto \<Rightarrow> bool" for d where
  Start: "dp_derived d d"
| Slice: "dp_derived d e \<Longrightarrow> slice_dp a b step e = Inr u \<Longrightarrow> dp_derived d u"
| Select_Idxs: "dp_derived d e \<Longrightarrow> select_idxs ix e = Inr u \<Longrightarrow> dp_derived d u"
| Reorder: "dp_derived d e \<Longrightarrow> reorder is e = Inr u \<Longrightarrow> dp_derived d u"
| Select: "dp_derived d e \<Longrightarrow> select_dp bk nk mk e = Inr u \<Longrightarrow> dp_derived d u"
| Popped: "dp_derived d e \<Longrightarrow> pop_dp bk nk mk e = Inr (u, r) \<Longrightarrow> dp_derived d u"
| Rest: "dp_derived d e \<Longrightarrow> pop_dp bk nk mk e = Inr (r, u) \<Longrightarrow> dp_derived d u"
| Rename: "dp_derived d e \<Longrightarrow> rename_dp olds news e = Inr u \<Longrightarrow> dp_derived d u"
| Repeat: "dp_derived d e \<Longrightarrow> repeat_dp k il e = Inr u \<Longrightarrow> dp_derived d u"
| Chunk: "dp_derived d e \<Longrightarrow> chunk_dp padding c e = Inr ps \<Longrightarrow> u \<in> set ps \<Longrightarrow> dp_derived d u"
| Split: "dp_derived d e \<Longrightarrow> split_dp sz e = Inr ps \<Longrightarrow> u \<in> set ps \<Longrightarrow> dp_derived d u"
| Union: "dp_derived d e \<Longrightarrow> dp_derived d f \<Longrightarrow> union_dp e f = Inr u \<Longrightarrow> dp_derived d u"

text \<open>C20 Every batch derived from a well-formed one by slicing, indexing, reordering, selecting, popping, renaming,
  repeating, chunking, splitting and union, in any order, is well formed: keys are unique, every tensor
  and array has as many rows as the batch.\<close>

theorem derived_well_formed:
  assumes "dp_ok d" "dp_derived d e"
  shows "dp_ok e"
  using assms(2,1)
proof (induction rule: dp_derived.induct)
  case Slice then show ?case using slice_dp_ok by blast
next
  case Select_Idxs then show ?case using select_idxs_ok by blast
next
  case Reorder then show ?case using reorder_ok by blast
next
  case Select then show ?case using select_dp_ok by blast
next
  case Popped then show ?case using pop_dp_ok by blast
next
  case Rest then show ?case using pop_dp_ok by blast
next
  case Rename then show ?case using rename_dp_ok by blast
next
  case Repeat then show ?case using repeat_dp_ok by blast
next
  case Chunk then show ?case using chunk_dp_ok by blast
next
  case Split then show ?case using split_dp_ok by blast
next
  case Union then show ?case using union_dp_ok by blast
qed

definition window :: "nat \<Rightarrow> nat \<Rightarrow> 'a list \<Rightarrow> 'a list" where
  "window sz i xs = take sz (drop (i * sz) xs)"

lemma py_slice_window_fun: "py_slice (Some (int (i * sz))) (Some (int (i * sz + sz))) 1 = window sz i"
  by (rule ext) (simp only: py_slice_window window_def)

lemma length_window: "length xs = k * sz \<Longrightarrow> i < k \<Longrightarrow> length (window sz i xs) = sz"
proof -
  assume "length xs = k * sz" "i < k"
  then have "i * sz + sz \<le> length xs" using mult_le_mono1 [of "Suc i" k sz] by simp
  then show ?thesis by (simp add: window_def)
qed

lemma concat_windows: "length xs = k * sz \<Longrightarrow> concat (map (\<lambda>i. window sz i xs) [0..<k]) = xs"
proof -
  assume len: "length xs = k * sz"
  have "map (\<lambda>i. window sz i xs) [0..<k] = map (\<lambda>i. cut (replicate k sz) xs ! i) [0..<k]"
    by (simp add: window_def cut_equal_nth)
  then show ?thesis using concat_cut_equal [OF len] by (simp only:)
qed

lemma split_dp_eq:
  assumes ok: "dp_ok d" and sz: "0 < sz" "dp_len d = k * sz"
  shows "split_dp sz d = Inr (map (\<lambda>i. cols (window sz i) (window sz i) sz d) [0..<k])"
proof -
  have k: "(dp_len d + sz - 1) div sz = k"
  proof -
    have "dp_len d + sz - 1 = (sz - 1) + k * sz" using sz by linarith
    then have "(dp_len d + sz - 1) div sz = ((sz - 1) + k * sz) div sz" by (rule arg_cong)
    also have "\<dots> = k" using sz(1) by (simp only: div_mult_self1 div_less diff_less zero_less_one neq0_conv add_0_right)
    finally show ?thesis .
  qed
  have "slice_dp (Some (int (i * sz))) (Some (int (i * sz + sz))) None d = Inr (cols (window sz i) (window sz i) sz d)"
    if i: "i \<in> set [0..<k]" for i
  proof -
    have "length (slice_indices (Some (int (i * sz))) (Some (int (i * sz + sz))) 1 (dp_len d)) = sz"
      using length_slice_indices [of "Some (int (i * sz))" "Some (int (i * sz + sz))" 1 "replicate (dp_len d) ()"]
        length_window [of "replicate (dp_len d) ()" k sz i] sz i by (simp only: py_slice_window_fun) simp
    then show ?thesis
      using slice_dp_eq [OF ok, of None "Some (int (i * sz))" "Some (int (i * sz + sz))"]
      by (simp only: option.case py_slice_window_fun simp_thms)
  qed
  then have "map_r (\<lambda>i. slice_dp (Some (int (i * sz))) (Some (int (i * sz + sz))) None d) [0..<k] =
      Inr (map (\<lambda>i. cols (window sz i) (window sz i) sz d) [0..<k])" by (rule map_r_total)
  then show ?thesis using sz(1) unfolding split_dp_def k by simp
qed

text \<open>The mini-batches of every epoch have the requested size, are well formed, and put together are the batch, so
  that every row is seen once per epoch, in order.\<close>

theorem iterator_covers_batch:
  assumes "dp_ok d" "no_metrics d" "dp_batch d = Some b" "0 < td_size b" "0 < sz" "td_size b mod sz = 0"
  shows "\<exists>ms. make_iterator sz epochs d = Inr (concat (replicate epochs ms)) \<and> length ms = td_size b div sz \<and>
    concat_dp ms = Inr d \<and> (\<forall>p \<in> set ms. dp_ok p \<and> dp_len p = sz)"
proof -
  define k where "k = td_size b div sz"
  have len: "dp_len d = k * sz" using assms(3,6) by (auto simp: dp_len_def k_def)
  then have k: "0 < k" using assms(3,4) by (cases k) (auto simp: dp_len_def)
  let ?ms = "map (\<lambda>i. cols (window sz i) (window sz i) sz d) [0..<k]"
  have r: "resizes (window sz i) (window sz i) (dp_len d) sz" if "i \<in> set [0..<k]" for i
    using that len by (auto simp: resizes_def length_window [where k = k])
  have mem: "dp_ok p \<and> dp_len p = sz" if p: "p \<in> set ?ms" for p
  proof -
    from p obtain i where i: "i \<in> set [0..<k]" and pi: "p = cols (window sz i) (window sz i) sz d" by auto
    show ?thesis unfolding pi using cols_ok [OF assms(1) r [OF i]] assms(3) by (simp add: dp_len_def cols_def)
  qed
  have "concat_dp ?ms = Inr (cols (\<lambda>xs. concat (map (\<lambda>i. window sz i xs) [0..<k]))
      (\<lambda>xs. concat (map (\<lambda>i. window sz i xs) [0..<k])) (sum_list (map (\<lambda>_. sz) [0..<k])) d)"
    by (rule concat_cols [OF assms(1,2) _ r]) (use k in auto)
  also have "cols (\<lambda>xs. concat (map (\<lambda>i. window sz i xs) [0..<k])) (\<lambda>xs. concat (map (\<lambda>i. window sz i xs) [0..<k]))
      (sum_list (map (\<lambda>_. sz) [0..<k])) d = d"
    by (rule cols_id [OF assms(1)]) (simp_all add: concat_windows len sum_list_triv)
  finally have conc: "concat_dp ?ms = Inr d" .
  have it: "make_iterator sz epochs d = Inr (concat (replicate epochs ?ms))"
    using split_dp_eq [OF assms(1,5) len] assms(3,5,6) by (simp add: make_iterator_def)
  have "length ?ms = td_size b div sz" by (simp add: k_def)
  with it conc mem show ?thesis by blast
qed

section \<open>Concrete batches\<close>

definition four_rows :: "(int, int, int) data_proto" where
  "four_rows = \<lparr>dp_batch = Some \<lparr>td_size = 4, td_items = [(''ids'', [1, 2, 3, 4]), (''mask'', [1, 1, 0, 1])]\<rparr>,
     dp_non_tensor = [(''uid'', [7, 7, 8, 8])], dp_meta = [(''temperature'', Atom 1)]\<rparr>"

definition scored_rows :: "(int, int, int) data_proto" where
  "scored_rows = \<lparr>dp_batch = Some \<lparr>td_size = 4, td_items = [(''ids'', [1, 2, 3, 4]), (''score'', [9, 9, 9, 9])]\<rparr>,
     dp_non_tensor = [], dp_meta = [(''temperature'', Atom 1)]\<rparr>"

lemma four_rows_ok: "dp_ok four_rows" "no_metrics four_rows" "dp_len four_rows = 4"
  "dp_batch four_rows = Some \<lparr>td_size = 4, td_items = [(''ids'', [1, 2, 3, 4]), (''mask'', [1, 1, 0, 1])]\<rparr>"
  by (simp_all add: four_rows_def dp_ok_def td_ok_def dp_len_def dict_keys_def no_metrics_def metrics_key_def)

lemma scored_rows_ok: "dp_ok scored_rows"
  "dp_batch scored_rows = Some \<lparr>td_size = 4, td_items = [(''ids'', [1, 2, 3, 4]), (''score'', [9, 9, 9, 9])]\<rparr>"
  by (simp_all add: scored_rows_def dp_ok_def td_ok_def dp_len_def dict_keys_def)

lemma chunk_concat_witness:
  "\<exists>ps. chunk_dp False 2 four_rows = Inr ps \<and> length ps = 2 \<and> concat_dp ps = Inr four_rows"
  using chunk_concat_roundtrip [of four_rows 2 False] by (auto simp: four_rows_ok)

lemma pad_unpad_witness:
  "\<exists>p k. pad_dataproto_to_divisor 3 four_rows = Inr (p, k) \<and> dp_len p mod 3 = 0 \<and> unpad_dataproto k p = Inr four_rows"
proof -
  have "(0 :: nat) < 3" by simp
  from pad_unpad_roundtrip [OF four_rows_ok(1,2) this] obtain p k where
    "pad_dataproto_to_divisor 3 four_rows = Inr (p, k)" "dp_len p mod 3 = 0" "unpad_dataproto k p = Inr four_rows"
    by (elim exE conjE)
  then show ?thesis by (intro exI conjI)
qed

lemma fold_unfold_witness:
  "\<exists>f. fold_batch_dim 2 four_rows = Inr f \<and> unfold_batch_dim f = Inr four_rows"
  using fold_unfold_roundtrip [of four_rows _ 2] by (auto simp: four_rows_ok)

lemma union_witness:
  "case union_dp four_rows scored_rows of Inl x \<Rightarrow> x = AssertionError | Inr u \<Rightarrow> dp_ok u"
proof -
  note u = union_holds_both [OF four_rows_ok(1) scored_rows_ok(1) four_rows_ok(4) scored_rows_ok(2)]
  show ?thesis
  proof (cases "union_dp four_rows scored_rows")
    case (Inl x)
    from u [unfolded Inl sum.case, THEN conjunct1] show ?thesis by (simp add: Inl)
  next
    case (Inr d)
    from u [unfolded Inr sum.case, THEN conjunct1] show ?thesis by (simp add: Inr)
  qed
qed

lemma derived_witness: "dp_ok (case repeat_dp 2 True four_rows of Inr u \<Rightarrow> u | Inl e \<Rightarrow> four_rows)"
proof -
  have r: "repeat_dp 2 True four_rows = Inr (case repeat_dp 2 True four_rows of Inr u \<Rightarrow> u | Inl e \<Rightarrow> four_rows)"
    by (simp add: repeat_dp_def map_cols_def mk_dp_def check_consistency_def four_rows_def dp_len_def map_items_def
        repeat_interleave_def)
  have "dp_derived four_rows (case repeat_dp 2 True four_rows of Inr u \<Rightarrow> u | Inl e \<Rightarrow> four_rows)"
    by (rule dp_derived.Repeat [OF dp_derived.Start r])
  with four_rows_ok(1) show ?thesis by (rule derived_well_formed)
qed

lemma iterator_witness:
  "\<exists>ms. make_iterator 2 3 four_rows = Inr (concat (replicate 3 ms)) \<and> concat_dp ms = Inr four_rows"
  using iterator_covers_batch [of four_rows _ 2 3] by (auto simp: four_rows_ok)

end
