(* ===== verification/Dispatch.thy ===== *)
theory Dispatch
  imports DataProto
begin

text \<open>
  Dispatching a call over a worker group and collecting its results
  (\<^verbatim>\<open>verl/single_controller/base/decorator.py\<close>, the remote calls of \<^verbatim>\<open>single_controller/ray/base.py\<close>,
  the registered ranks of \<^verbatim>\<open>single_controller/base/worker.py\<close>, \<open>DynamicEnum\<close> of \<^verbatim>\<open>utils/py_functional.py\<close>).
  A worker's method is a function of its arguments that returns a value or raises. What can be cut into
  pieces and put together again is the interface \<open>batch_type\<close>, of which \<open>DataProto\<close> is the instance
  proved here; the object store and the remote calls of ray keep values as they are.
\<close>

section \<open>Dynamic enumerations\<close>

text \<open>\<open>upper\<close> is \<open>str.upper\<close>; a member is its value.\<close>

record dyn_enum =
  de_registry :: "(string, nat) dict"
  de_next :: nat

definition enum_register :: "(string \<Rightarrow> string) \<Rightarrow> string \<Rightarrow> dyn_enum \<Rightarrow> (dyn_enum \<times> nat) result" where
  "enum_register upper name e =
     (let key = upper name in
      require (key \<notin> set (dict_keys (de_registry e))) ValueError
        (Inr (\<lparr>de_registry = dict_set key (de_next e) (de_registry e), de_next = de_next e + 1\<rparr>, de_next e)))"

definition enum_remove :: "(string \<Rightarrow> string) \<Rightarrow> string \<Rightarrow> dyn_enum \<Rightarrow> (dyn_enum \<times> nat) result" where
  "enum_remove upper name e =
     bind_r (dict_item (de_registry e) (upper name)) (\<lambda>v. Inr (e\<lparr>de_registry := dict_del (upper name) (de_registry e)\<rparr>, v))"

definition enum_from_name :: "(string \<Rightarrow> string) \<Rightarrow> string \<Rightarrow> dyn_enum \<Rightarrow> nat option" where
  "enum_from_name upper name e = map_of (de_registry e) (upper name)"

text \<open>The registry of dispatch modes maps a member to its pair of functions.\<close>

record 'f dispatch_reg =
  dr_enum :: dyn_enum
  dr_fns :: "(nat, 'f) dict"

definition register_dispatch_mode :: "(string \<Rightarrow> string) \<Rightarrow> string \<Rightarrow> 'f \<Rightarrow> 'f dispatch_reg \<Rightarrow> ('f dispatch_reg \<times> nat) result" where
  "register_dispatch_mode upper name fns r =
     bind_r (enum_register upper name (dr_enum r)) (\<lambda>(e, m).
       require (m \<notin> set (dict_keys (dr_fns r))) AssertionError
         (Inr (r\<lparr>dr_enum := e, dr_fns := dict_set m fns (dr_fns r)\<rparr>, m)))"

definition update_dispatch_mode :: "nat \<Rightarrow> 'f \<Rightarrow> 'f dispatch_reg \<Rightarrow> 'f dispatch_reg result" where
  "update_dispatch_mode m fns r =
     require (m \<in> set (dict_keys (dr_fns r))) AssertionError (Inr (r\<lparr>dr_fns := dict_set m fns (dr_fns r)\<rparr>))"

definition get_predefined_dispatch_fn :: "nat \<Rightarrow> 'f dispatch_reg \<Rightarrow> 'f result" where
  "get_predefined_dispatch_fn m r = dict_item (dr_fns r) m"

section \<open>Remote execution\<close>

text \<open>An argument of a call as Python sees it: a plain value, a list or a tuple.\<close>

datatype 'v arg = Plain 'v | PyArr "'v list" | PyTup "'v list"

type_synonym ('v, 'o) worker_fn = "'v arg list \<Rightarrow> (string, 'v arg) dict \<Rightarrow> 'o result"

definition is_shards :: "nat \<Rightarrow> 'v arg \<Rightarrow> bool" where
  "is_shards n a = (case a of PyArr xs \<Rightarrow> length xs = n | _ \<Rightarrow> False)"

definition shard :: "nat \<Rightarrow> 'v arg \<Rightarrow> 'v arg" where
  "shard i a = (case a of PyArr xs \<Rightarrow> Plain (xs ! i) | _ \<Rightarrow> a)"

definition execute_all :: "('v, 'o) worker_fn list \<Rightarrow> 'v arg list \<Rightarrow> (string, 'v arg) dict \<Rightarrow> 'o result list" where
  "execute_all workers args kwargs =
     (if list_all (is_shards (length workers)) args \<and> list_all (\<lambda>(k, a). is_shards (length workers) a) kwargs
      then map (\<lambda>i. (workers ! i) (map (shard i) args) (map_items (shard i) kwargs)) [0..<length workers]
      else map (\<lambda>w. w args kwargs) workers)"

definition execute_rank_zero :: "('v, 'o) worker_fn list \<Rightarrow> 'v arg list \<Rightarrow> (string, 'v arg) dict \<Rightarrow> 'o result" where
  "execute_rank_zero workers args kwargs = (case workers of [] \<Rightarrow> Inl IndexError | w # _ \<Rightarrow> w args kwargs)"

section \<open>Dispatch functions\<close>

definition dispatch_one_to_all :: "nat \<Rightarrow> 'v list \<Rightarrow> (string, 'v) dict \<Rightarrow> 'v arg list \<times> (string, 'v arg) dict" where
  "dispatch_one_to_all n args kwargs =
     (map (\<lambda>a. PyArr (replicate n a)) args, map_items (\<lambda>a. PyArr (replicate n a)) kwargs)"

definition dispatch_all_to_all :: "'v arg list \<Rightarrow> (string, 'v arg) dict \<Rightarrow> 'v arg list \<times> (string, 'v arg) dict" where
  "dispatch_all_to_all args kwargs = (args, kwargs)"

definition is_sized :: "nat \<Rightarrow> 'v arg \<Rightarrow> bool" where
  "is_sized n a = (case a of Plain v \<Rightarrow> False | PyArr xs \<Rightarrow> length xs = n | PyTup xs \<Rightarrow> length xs = n)"

definition dispatch_dp_compute :: "nat \<Rightarrow> 'v arg list \<Rightarrow> (string, 'v arg) dict \<Rightarrow>
    ('v arg list \<times> (string, 'v arg) dict) result" where
  "dispatch_dp_compute n args kwargs =
     require (list_all (is_sized n) args \<and> list_all (\<lambda>(k, a). is_sized n a) kwargs) AssertionError
       (Inr (args, kwargs))"

definition collect_dp_compute :: "nat \<Rightarrow> 'o list \<Rightarrow> 'o list result" where
  "collect_dp_compute n out = require (length out = n) AssertionError (Inr out)"

definition split_one :: "(nat \<Rightarrow> 'd \<Rightarrow> 'd list result) \<Rightarrow> nat \<Rightarrow> 'd \<Rightarrow> 'd list result" where
  "split_one chunk n d = bind_r (chunk n d) (\<lambda>ps. require (length ps = n) AssertionError (Inr ps))"

definition split_args_kwargs_data_proto :: "(nat \<Rightarrow> 'd \<Rightarrow> 'd list result) \<Rightarrow> nat \<Rightarrow> 'd list \<Rightarrow> (string, 'd) dict \<Rightarrow>
    ('d list list \<times> (string, 'd list) dict) result" where
  "split_args_kwargs_data_proto chunk n args kwargs =
     bind_r (map_r (split_one chunk n) args) (\<lambda>a. bind_r (items_r (split_one chunk n) kwargs) (\<lambda>k. Inr (a, k)))"

definition dispatch_dp_compute_data_proto_with_func :: "(nat \<Rightarrow> 'd \<Rightarrow> 'd list result) \<Rightarrow> nat \<Rightarrow> 'f \<Rightarrow> 'd list \<Rightarrow>
    (string, 'd) dict \<Rightarrow> ('f list \<times> 'd list list \<times> (string, 'd list) dict) result" where
  "dispatch_dp_compute_data_proto_with_func chunk n f args kwargs =
     bind_r (split_args_kwargs_data_proto chunk n args kwargs) (\<lambda>(a, k). Inr (replicate n f, a, k))"

definition py_item :: "'a list \<Rightarrow> nat \<Rightarrow> 'a result" where
  "py_item xs i = require (i < length xs) IndexError (Inr (xs ! i))"

definition transform_arg :: "nat list \<Rightarrow> nat \<Rightarrow> nat \<Rightarrow> 'd list \<Rightarrow> 'd list result" where
  "transform_arg mapping dp_size n xs =
     require (length xs = dp_size) AssertionError
       (map_r (\<lambda>i. bind_r (py_item mapping i) (py_item xs)) [0..<n])"

text \<open>The number of threads is read off the first positional argument, so there has to be one.\<close>

definition dispatch_nd_compute :: "nat list \<Rightarrow> nat \<Rightarrow> nat \<Rightarrow> 'd list list \<Rightarrow> (string, 'd list) dict \<Rightarrow>
    ('d list list \<times> (string, 'd list) dict) result" where
  "dispatch_nd_compute mapping dp_size n args kwargs =
     require (args \<noteq> []) IndexError
       (require (list_all (\<lambda>a. a \<noteq> []) args \<and> list_all (\<lambda>(k, a). a \<noteq> []) kwargs) AssertionError
         (bind_r (map_r (transform_arg mapping dp_size n) args) (\<lambda>a.
          bind_r (items_r (transform_arg mapping dp_size n) kwargs) (\<lambda>k. Inr (a, k)))))"

definition collect_nd_compute :: "bool list \<Rightarrow> nat \<Rightarrow> 'o list \<Rightarrow> 'o list result" where
  "collect_nd_compute cmask n out =
     require (length out = n) AssertionError
       (bind_r (map_r (py_item cmask) [0..<n]) (\<lambda>bs. Inr (map snd (filter fst (zip bs out)))))"

definition dispatch_nd_compute_dataproto :: "(nat \<Rightarrow> 'd \<Rightarrow> 'd list result) \<Rightarrow> nat list \<Rightarrow> nat \<Rightarrow> nat \<Rightarrow> 'd list \<Rightarrow>
    (string, 'd) dict \<Rightarrow> ('d list list \<times> (string, 'd list) dict) result" where
  "dispatch_nd_compute_dataproto chunk mapping dp_size n args kwargs =
     bind_r (split_args_kwargs_data_proto chunk dp_size args kwargs) (\<lambda>(a, k). dispatch_nd_compute mapping dp_size n a k)"

definition collect_nd_compute_dataproto :: "('d list \<Rightarrow> 'd result) \<Rightarrow> bool list \<Rightarrow> nat \<Rightarrow> 'd list \<Rightarrow> 'd result" where
  "collect_nd_compute_dataproto conc cmask n out =
     bind_r (collect_nd_compute cmask n out) (\<lambda>xs. require (xs \<noteq> []) AssertionError (conc xs))"

section \<open>Registered ranks\<close>

record worker_info =
  w_dispatch :: "(string, nat) dict"
  w_collect :: "(string, bool) dict"

definition register_dispatch_collect_info :: "string \<Rightarrow> nat \<Rightarrow> bool \<Rightarrow> worker_info \<Rightarrow> worker_info result" where
  "register_dispatch_collect_info mesh dp_rank is_collect w =
     require (mesh \<notin> set (dict_keys (w_dispatch w)) \<and> mesh \<notin> set (dict_keys (w_collect w))) ValueError
       (Inr \<lparr>w_dispatch = dict_set mesh dp_rank (w_dispatch w), w_collect = dict_set mesh is_collect (w_collect w)\<rparr>)"

definition query_dispatch_info :: "string \<Rightarrow> worker_info \<Rightarrow> nat result" where
  "query_dispatch_info mesh w = (case map_of (w_dispatch w) mesh of None \<Rightarrow> Inl AssertionError | Some r \<Rightarrow> Inr r)"

definition query_collect_info :: "string \<Rightarrow> worker_info \<Rightarrow> bool result" where
  "query_collect_info mesh w = (case map_of (w_collect w) mesh of None \<Rightarrow> Inl AssertionError | Some b \<Rightarrow> Inr b)"

text \<open>The worker group caches what it asked its workers for.\<close>

record wgroup =
  wg_workers :: "worker_info list"
  wg_dispatch :: "(string, nat list) dict"
  wg_collect :: "(string, bool list) dict"

definition lazy_dispatch_info :: "string \<Rightarrow> wgroup \<Rightarrow> (nat list \<times> wgroup) result" where
  "lazy_dispatch_info mesh g = (case map_of (wg_dispatch g) mesh of
       Some m \<Rightarrow> Inr (m, g)
     | None \<Rightarrow> bind_r (map_r (query_dispatch_info mesh) (wg_workers g)) (\<lambda>m.
         Inr (m, g\<lparr>wg_dispatch := dict_set mesh m (wg_dispatch g)\<rparr>)))"

definition lazy_collect_info :: "string \<Rightarrow> wgroup \<Rightarrow> (bool list \<times> wgroup) result" where
  "lazy_collect_info mesh g =
     require (mesh \<in> set (dict_keys (wg_dispatch g))) AssertionError
      (case map_of (wg_collect g) mesh of
         Some m \<Rightarrow> Inr (m, g)
       | None \<Rightarrow> bind_r (map_r (query_collect_info mesh) (wg_workers g)) (\<lambda>m.
           Inr (m, g\<lparr>wg_collect := dict_set mesh m (wg_collect g)\<rparr>)))"

definition dispatch_lazy_compute_data_proto :: "(nat \<Rightarrow> 'd \<Rightarrow> 'd list result) \<Rightarrow> string \<Rightarrow> wgroup \<Rightarrow> 'd list \<Rightarrow>
    (string, 'd) dict \<Rightarrow> ('d list list \<times> (string, 'd list) dict \<times> wgroup) result" where
  "dispatch_lazy_compute_data_proto chunk mesh g args kwargs =
     bind_r (lazy_dispatch_info mesh g) (\<lambda>(m, g').
       require (m \<noteq> []) ValueError
        (bind_r (dispatch_nd_compute_dataproto chunk m (Max (set m) + 1) (length (wg_workers g)) args kwargs)
          (\<lambda>(a, k). Inr (a, k, g'))))"

definition collect_lazy_compute_data_proto :: "('d list \<Rightarrow> 'd result) \<Rightarrow> string \<Rightarrow> wgroup \<Rightarrow> 'd list \<Rightarrow> ('d \<times> wgroup) result" where
  "collect_lazy_compute_data_proto conc mesh g out =
     bind_r (lazy_collect_info mesh g) (\<lambda>(cmask, g').
       bind_r (collect_nd_compute_dataproto conc cmask (length (wg_workers g)) out) (\<lambda>d. Inr (d, g')))"

text \<open>A call of a method registered with the lazy dispatch of a mesh.\<close>

definition lazy_call :: "(nat \<Rightarrow> 'd \<Rightarrow> 'd list result) \<Rightarrow> ('d list \<Rightarrow> 'd result) \<Rightarrow> string \<Rightarrow> ('d, 'd) worker_fn list \<Rightarrow>
    wgroup \<Rightarrow> 'd list \<Rightarrow> (string, 'd) dict \<Rightarrow> ('d \<times> wgroup) result" where
  "lazy_call chunk conc mesh methods g args kwargs =
     bind_r (dispatch_lazy_compute_data_proto chunk mesh g args kwargs) (\<lambda>(a, k, g1).
     bind_r (map_r (\<lambda>r. r) (execute_all methods (map PyArr a) (map_items PyArr k))) (\<lambda>out.
       collect_lazy_compute_data_proto conc mesh g1 out))"

text \<open>The ranks a worker of the FSDP engine registers: the data-parallel rank of the device mesh and whether it is
  the first of its sequence-parallel group; \<open>sp\<close> is None when sequences are not split.\<close>

definition get_data_parallel_rank :: "nat option \<Rightarrow> nat \<Rightarrow> nat" where
  "get_data_parallel_rank sp rank = (case sp of None \<Rightarrow> rank | Some s \<Rightarrow> rank div s)"

definition is_mp_src_rank_with_outputs :: "nat option \<Rightarrow> nat \<Rightarrow> bool" where
  "is_mp_src_rank_with_outputs sp rank = (case sp of None \<Rightarrow> True | Some s \<Rightarrow> rank mod s = 0)"

section \<open>Automatic padding\<close>

text \<open>\<open>st\<close> is the common length and the padding, once the first padded argument fixed them. The padding is done in
  place: the second component is the caller's batch after the call.\<close>

definition padding_and_split_data :: "bool \<Rightarrow> ('m pyval \<Rightarrow> bool) \<Rightarrow> nat \<Rightarrow> (nat \<times> nat) option \<Rightarrow> ('r, 'o, 'm) data_proto \<Rightarrow>
    ((nat \<times> nat) option \<times> ('r, 'o, 'm) data_proto \<times> ('r, 'o, 'm) data_proto list) result" where
  "padding_and_split_data ca truthy n st d =
     (if is_padding_enabled ca truthy d
      then bind_r (case st of
             None \<Rightarrow> require (n \<noteq> 0) ZeroDivisionError
               (Inr (dp_len d, if 0 < dp_len d mod n then n - dp_len d mod n else 0))
           | Some (l, p) \<Rightarrow> require (l = dp_len d) AssertionError (Inr (l, p)))
         (\<lambda>(l, p). bind_r (padding_dp p False d) (\<lambda>e.
            bind_r (chunk_dp (is_padding_enabled ca truthy e) n e) (\<lambda>ps. Inr (Some (l, p), e, ps))))
      else bind_r (chunk_dp False n d) (\<lambda>ps. Inr (st, d, ps)))"

fun split_in_turn :: "('s \<Rightarrow> 'd \<Rightarrow> ('s \<times> 'd \<times> 'd list) result) \<Rightarrow> 's \<Rightarrow> 'd list \<Rightarrow> ('s \<times> 'd list \<times> 'd list list) result" where
  "split_in_turn f st [] = Inr (st, [], [])"
| "split_in_turn f st (d # ds) = bind_r (f st d) (\<lambda>(st', e, ps).
     bind_r (split_in_turn f st' ds) (\<lambda>(st'', es, pss). Inr (st'', e # es, ps # pss)))"

text \<open>The pieces of the positional and the keyword arguments, the padding handed on under a key of its own,
  and the caller's positional arguments afterwards.\<close>

definition split_with_auto_padding :: "bool \<Rightarrow> ('m pyval \<Rightarrow> bool) \<Rightarrow> nat \<Rightarrow> ('r, 'o, 'm) data_proto list \<Rightarrow>
    (string, ('r, 'o, 'm) data_proto) dict \<Rightarrow>
    (('r, 'o, 'm) data_proto list list \<times> (string, ('r, 'o, 'm) data_proto list) dict \<times> nat option
      \<times> ('r, 'o, 'm) data_proto list) result" where
  "split_with_auto_padding ca truthy n args kwargs =
     bind_r (split_in_turn (padding_and_split_data ca truthy n) None args) (\<lambda>(st, after, pss).
     bind_r (split_in_turn (padding_and_split_data ca truthy n) st (map snd kwargs)) (\<lambda>(st', _, kss).
       Inr (pss, zip (map fst kwargs) kss, map_option snd st', after)))"

definition collect_dp_compute_data_proto :: "nat \<Rightarrow> ('r, 'o, 'm) data_proto list \<Rightarrow> ('r, 'o, 'm) data_proto result" where
  "collect_dp_compute_data_proto n out =
     require (out \<noteq> []) AssertionError (bind_r (collect_dp_compute n out) concat_dp)"

text \<open>What a bound method does after collecting: it cuts the padding off the end.\<close>

definition cut_padding_data :: "nat option \<Rightarrow> ('r, 'o, 'm) data_proto \<Rightarrow> ('r, 'o, 'm) data_proto result" where
  "cut_padding_data pad d = (case pad of
       None \<Rightarrow> Inr d
     | Some p \<Rightarrow> if 0 < p then select_idxs (Idxs (map int (take (dp_len d - p) [0..<dp_len d]))) d else Inr d)"

definition cut_padding_list :: "nat option \<Rightarrow> 'a list \<Rightarrow> 'a list" where
  "cut_padding_list pad out = (case pad of None \<Rightarrow> out | Some p \<Rightarrow> if 0 < p then take (length out - p) out else out)"

definition dp_compute_proto_call :: "bool \<Rightarrow> ('m pyval \<Rightarrow> bool) \<Rightarrow>
    (('r, 'o, 'm) data_proto, ('r, 'o, 'm) data_proto) worker_fn list \<Rightarrow> ('r, 'o, 'm) data_proto list \<Rightarrow>
    (string, ('r, 'o, 'm) data_proto) dict \<Rightarrow> (('r, 'o, 'm) data_proto \<times> ('r, 'o, 'm) data_proto list) result" where
  "dp_compute_proto_call ca truthy methods args kwargs =
     bind_r (split_with_auto_padding ca truthy (length methods) args kwargs) (\<lambda>(a, k, pad, after).
     bind_r (map_r (\<lambda>r. r) (execute_all methods (map PyArr a) (map_items PyArr k))) (\<lambda>out.
     bind_r (collect_dp_compute_data_proto (length methods) out) (\<lambda>d.
     bind_r (cut_padding_data pad d) (\<lambda>e. Inr (e, after)))))"

definition dp_compute_metric_call :: "bool \<Rightarrow> ('m pyval \<Rightarrow> bool) \<Rightarrow>
    (('r, 'o, 'm) data_proto, 'x) worker_fn list \<Rightarrow> ('r, 'o, 'm) data_proto list \<Rightarrow>
    (string, ('r, 'o, 'm) data_proto) dict \<Rightarrow> 'x list result" where
  "dp_compute_metric_call ca truthy methods args kwargs =
     bind_r (split_with_auto_padding ca truthy (length methods) args kwargs) (\<lambda>(a, k, pad, after).
     bind_r (map_r (\<lambda>r. r) (execute_all methods (map PyArr a) (map_items PyArr k))) (\<lambda>out.
     bind_r (collect_dp_compute (length methods) out) (\<lambda>xs. Inr (cut_padding_list pad xs))))"

section \<open>Futures\<close>

text \<open>\<open>DataProtoFuture\<close>: the results of the workers that are still to come, and the piece to take of their
  concatenation. A future keeps the last piece asked for only.\<close>

record 'd dp_future =
  fut_results :: "'d list"
  fut_piece :: "(nat \<times> nat) option"

definition future_concat :: "'d list \<Rightarrow> 'd dp_future" where
  "future_concat rs = \<lparr>fut_results = rs, fut_piece = None\<rparr>"

definition future_chunk :: "nat \<Rightarrow> 'd dp_future \<Rightarrow> 'd dp_future list" where
  "future_chunk n f = map (\<lambda>i. f\<lparr>fut_piece := Some (i, n)\<rparr>) [0..<n]"

definition future_get :: "(nat \<Rightarrow> 'd \<Rightarrow> 'd list result) \<Rightarrow> ('d list \<Rightarrow> 'd result) \<Rightarrow> 'd dp_future \<Rightarrow> 'd result" where
  "future_get chunk conc f =
     require (fut_results f \<noteq> []) IndexError
      (bind_r (conc (fut_results f)) (\<lambda>d. case fut_piece f of
          None \<Rightarrow> Inr d
        | Some (i, n) \<Rightarrow> bind_r (chunk n d) (\<lambda>ps. py_item ps i)))"


section \<open>Enumerations never reuse a value\<close>

inductive enum_step :: "(string \<Rightarrow> string) \<Rightarrow> dyn_enum \<Rightarrow> dyn_enum \<Rightarrow> bool" for upper where
  Registered: "enum_register upper name e = Inr (e', v) \<Longrightarrow> enum_step upper e e'"
| Removed: "enum_remove upper name e = Inr (e', v) \<Longrightarrow> enum_step upper e e'"

definition enum_ok :: "dyn_enum \<Rightarrow> bool" where
  "enum_ok e \<longleftrightarrow> distinct (dict_keys (de_registry e)) \<and> distinct (map snd (de_registry e)) \<and>
     (\<forall>k v. (k, v) \<in> set (de_registry e) \<longrightarrow> v < de_next e)"

lemma dict_del_filter: "dict_del k d = filter (\<lambda>(k', v). k' \<noteq> k) d"
  by (induction d) auto

lemma enum_register_ok: "enum_ok e \<Longrightarrow> enum_register upper name e = Inr (e', v) \<Longrightarrow> enum_ok e'"
  by (fastforce simp: enum_ok_def enum_register_def Let_def require_Inr dict_set_fresh dict_keys_def)

lemma enum_remove_ok: "enum_ok e \<Longrightarrow> enum_remove upper name e = Inr (e', v) \<Longrightarrow> enum_ok e'"
  by (auto simp: enum_ok_def enum_remove_def bind_r_Inr dict_del_filter dict_keys_def distinct_map_filter)

lemma enum_step_ok: "enum_step upper e e' \<Longrightarrow> enum_ok e \<Longrightarrow> enum_ok e'"
  by (induction rule: enum_step.induct) (blast intro: enum_register_ok enum_remove_ok)+

text \<open>Registering a new dispatch mode succeeds exactly when the name is free.\<close>

definition registry_ok :: "'f dispatch_reg \<Rightarrow> bool" where
  "registry_ok r \<longleftrightarrow> enum_ok (dr_enum r) \<and> (\<forall>m \<in> set (dict_keys (dr_fns r)). m < de_next (dr_enum r))"

section \<open>Lists of shards\<close>

lemma map_r_py_item: "map_r (py_item xs) [0..<length xs] = Inr xs"
proof -
  have "map_r (py_item xs) [0..<length xs] = Inr (map (\<lambda>i. xs ! i) [0..<length xs])"
    by (rule map_r_total) (simp add: py_item_def)
  then show ?thesis by (simp add: map_nth)
qed

lemma transform_arg_eq:
  assumes "\<forall>r \<in> set ms. r < length xs"
  shows "transform_arg ms (length xs) (length ms) xs = Inr (map (\<lambda>r. xs ! r) ms)"
proof -
  have "map_r (\<lambda>i. bind_r (py_item ms i) (py_item xs)) [0..<length ms] = Inr (map (\<lambda>i. xs ! (ms ! i)) [0..<length ms])"
    by (rule map_r_total) (use assms in \<open>simp add: py_item_def\<close>)
  moreover have "map (\<lambda>i. xs ! (ms ! i)) [0..<length ms] = map (\<lambda>r. xs ! r) ms"
    by (rule nth_equalityI) simp_all
  ultimately show ?thesis by (simp add: transform_arg_def)
qed

lemma execute_all_one:
  assumes "length ys = length methods"
  shows "execute_all methods [PyArr ys] [] = map (\<lambda>i. (methods ! i) [Plain (ys ! i)] []) [0..<length methods]"
  using assms by (simp add: execute_all_def is_shards_def shard_def)

text \<open>All workers compute the same function of their shard.\<close>

definition computes :: "('d \<Rightarrow> 'o) \<Rightarrow> ('d, 'o) worker_fn list \<Rightarrow> bool" where
  "computes h methods \<longleftrightarrow> (\<forall>m \<in> set methods. \<forall>x. m [Plain x] [] = Inr (h x))"

lemma execute_computes:
  assumes "computes h methods" "length ys = length methods"
  shows "map_r (\<lambda>r. r) (execute_all methods [PyArr ys] []) = Inr (map h ys)"
proof -
  have "map_r (\<lambda>r. r) (execute_all methods [PyArr ys] []) =
      map_r (\<lambda>i. (methods ! i) [Plain (ys ! i)] []) [0..<length methods]"
    unfolding execute_all_one [OF assms(2)] by (rule map_r_map)
  also have "\<dots> = Inr (map (\<lambda>i. h (ys ! i)) [0..<length methods])"
    by (rule map_r_total) (use assms(1) in \<open>auto simp: computes_def\<close>)
  also have "map (\<lambda>i. h (ys ! i)) [0..<length methods] = map h ys"
    using assms(2) by (intro nth_equalityI) simp_all
  finally show ?thesis .
qed

text \<open>The ranks of a mesh: every worker has a data-parallel rank, and the workers that collect have the ranks
  0, 1, ... in order.\<close>

definition mesh_ok :: "nat \<Rightarrow> nat list \<Rightarrow> bool list \<Rightarrow> bool" where
  "mesh_ok dp ms bs \<longleftrightarrow> length bs = length ms \<and> 0 < dp \<and> (\<forall>r \<in> set ms. r < dp) \<and>
     map fst (filter snd (zip ms bs)) = [0..<dp]"

lemma mesh_size:
  assumes "mesh_ok dp ms bs"
  shows "Max (set ms) + 1 = dp" "ms \<noteq> []"
proof -
  have "r \<in> set ms" if "r < dp" for r
  proof -
    have "r \<in> set (map fst (filter snd (zip ms bs)))" using that assms by (simp add: mesh_ok_def)
    then show ?thesis by (auto dest: set_zip_leftD)
  qed
  then have "dp - 1 \<in> set ms" using assms by (auto simp: mesh_ok_def)
  moreover have "\<forall>r \<in> set ms. r \<le> dp - 1" using assms by (auto simp: mesh_ok_def)
  ultimately have "Max (set ms) = dp - 1" by (intro Max_eqI) auto
  then show "Max (set ms) + 1 = dp" using assms by (simp add: mesh_ok_def)
  show "ms \<noteq> []" using \<open>dp - 1 \<in> set ms\<close> by auto
qed

lemma collect_mesh:
  assumes "mesh_ok dp ms bs" "length ps = dp"
  shows "collect_nd_compute bs (length ms) (map h (map (\<lambda>r. ps ! r) ms)) = Inr (map h ps)"
proof -
  have len: "length bs = length ms" using assms(1) by (simp add: mesh_ok_def)
  have "map snd (filter fst (zip bs (map h (map (\<lambda>r. ps ! r) ms)))) = map (\<lambda>r. h (ps ! r)) (map fst (filter snd (zip ms bs)))"
    using len by (induction ms bs rule: list_induct2') auto
  also have "\<dots> = map h ps"
    using assms by (intro nth_equalityI) (auto simp: mesh_ok_def)
  finally show ?thesis using map_r_py_item [of bs] len by (simp add: collect_nd_compute_def)
qed


section \<open>Data that can be cut and put together\<close>

text \<open>What dispatching needs of the data: cutting well-formed data into as many pieces as divide it, applying a
  row-wise function to every piece and putting the results together is applying it to the whole.\<close>

locale batch_type =
  fixes chunk :: "nat \<Rightarrow> 'd \<Rightarrow> 'd list result"
    and conc :: "'d list \<Rightarrow> 'd result"
    and good :: "'d \<Rightarrow> bool"
    and rows :: "'d \<Rightarrow> nat"
    and rowwise :: "('d \<Rightarrow> 'd) \<Rightarrow> bool"
  assumes chunk_law: "good d \<Longrightarrow> 0 < n \<Longrightarrow> 0 < rows d \<Longrightarrow> rows d mod n = 0 \<Longrightarrow>
    \<exists>ps. chunk n d = Inr ps \<and> length ps = n \<and> (\<forall>h. rowwise h \<longrightarrow> conc (map h ps) = Inr (h d))"
begin

lemma nd_compute_call:
  assumes d: "good d" "0 < rows d" "rows d mod dp = 0" and h: "rowwise h" "computes h methods"
    and mesh: "mesh_ok dp ms bs" "length methods = length ms"
  shows "\<exists>a. dispatch_nd_compute_dataproto chunk ms dp (length ms) [d] [] = Inr ([a], []) \<and> length a = length ms \<and>
    (\<exists>out. map_r (\<lambda>r. r) (execute_all methods [PyArr a] []) = Inr out \<and>
      collect_nd_compute_dataproto conc bs (length ms) out = Inr (h d))"
proof -
  have dp: "0 < dp" using mesh(1) by (simp add: mesh_ok_def)
  from chunk_law [OF d(1) dp d(2,3)] obtain ps where ps: "chunk dp d = Inr ps" "length ps = dp"
    and conc: "conc (map h ps) = Inr (h d)" using h(1) by blast
  let ?a = "map (\<lambda>r. ps ! r) ms"
  have "ps \<noteq> []" using ps(2) dp by auto
  have "transform_arg ms dp (length ms) ps = Inr ?a"
    using transform_arg_eq [of ms ps] mesh(1) ps(2) by (simp add: mesh_ok_def)
  then have disp: "dispatch_nd_compute_dataproto chunk ms dp (length ms) [d] [] = Inr ([?a], [])"
    using ps \<open>ps \<noteq> []\<close> by (simp add: dispatch_nd_compute_dataproto_def split_args_kwargs_data_proto_def split_one_def
        items_r_def dispatch_nd_compute_def)
  have out: "map_r (\<lambda>r. r) (execute_all methods [PyArr ?a] []) = Inr (map h ?a)"
    by (rule execute_computes [OF h(2)]) (simp add: mesh(2))
  have "collect_nd_compute_dataproto conc bs (length ms) (map h ?a) = Inr (h d)"
    using collect_mesh [OF mesh(1) ps(2), of h] conc \<open>ps \<noteq> []\<close> by (simp add: collect_nd_compute_dataproto_def)
  with disp out show ?thesis by (intro exI [of _ ?a]) simp
qed

lemma lazy_call_rowwise:
  assumes d: "good d" "0 < rows d" "rows d mod dp = 0" and h: "rowwise h" "computes h methods"
    and mesh: "mesh_ok dp ms bs" "length methods = length ms" "length (wg_workers g) = length ms"
    and info: "map_r (query_dispatch_info name) (wg_workers g) = Inr ms" "map_r (query_collect_info name) (wg_workers g) = Inr bs"
    and cache: "map_of (wg_dispatch g) name \<in> {None, Some ms}" "map_of (wg_collect g) name \<in> {None, Some bs}"
  shows "\<exists>g'. lazy_call chunk conc name methods g [d] [] = Inr (h d, g') \<and> wg_workers g' = wg_workers g \<and>
    map_of (wg_dispatch g') name = Some ms \<and> map_of (wg_collect g') name = Some bs"
proof -
  from nd_compute_call [OF d h mesh(1,2)] obtain a out where
    a: "dispatch_nd_compute_dataproto chunk ms dp (length ms) [d] [] = Inr ([a], [])"
    and out: "map_r (\<lambda>r. r) (execute_all methods [PyArr a] []) = Inr out"
    and coll: "collect_nd_compute_dataproto conc bs (length ms) out = Inr (h d)" by blast
  obtain g1 where g1: "lazy_dispatch_info name g = Inr (ms, g1)" "wg_workers g1 = wg_workers g"
    "map_of (wg_dispatch g1) name = Some ms" "wg_collect g1 = wg_collect g"
    using cache(1) info(1) by (auto simp: lazy_dispatch_info_def)
  obtain g2 where g2: "lazy_collect_info name g1 = Inr (bs, g2)" "wg_workers g2 = wg_workers g"
    "map_of (wg_dispatch g2) name = Some ms" "map_of (wg_collect g2) name = Some bs"
    using cache(2) info(2) g1 keys_map_of [of name "wg_dispatch g1"] by (auto simp: lazy_collect_info_def)
  have "dispatch_lazy_compute_data_proto chunk name g [d] [] = Inr ([a], [], g1)"
    using g1(1) mesh_size [OF mesh(1)] a mesh(3) by (simp add: dispatch_lazy_compute_data_proto_def)
  moreover have "collect_lazy_compute_data_proto conc name g1 out = Inr (h d, g2)"
    using g2(1) coll mesh(3) g1(2) by (simp add: collect_lazy_compute_data_proto_def)
  ultimately have "lazy_call chunk conc name methods g [d] [] = Inr (h d, g2)"
    using out by (simp add: lazy_call_def)
  with g2 show ?thesis by blast
qed

lemma future_pieces:
  assumes rs: "rs \<noteq> []" "conc rs = Inr d" and d: "good d" "0 < n" "0 < rows d" "rows d mod n = 0"
  shows "\<exists>ps. chunk n d = Inr ps \<and> map_r (future_get chunk conc) (future_chunk n (future_concat rs)) = Inr ps"
proof -
  from chunk_law [OF d] obtain ps where ps: "chunk n d = Inr ps" "length ps = n" by blast
  have "map_r (future_get chunk conc) (future_chunk n (future_concat rs)) =
      map_r (\<lambda>i. future_get chunk conc (future_concat rs\<lparr>fut_piece := Some (i, n)\<rparr>)) [0..<n]"
    unfolding future_chunk_def by (rule map_r_map)
  also have "\<dots> = Inr (map (\<lambda>i. ps ! i) [0..<n])"
    by (rule map_r_total) (use rs ps in \<open>simp add: future_get_def future_concat_def py_item_def\<close>)
  also have "map (\<lambda>i. ps ! i) [0..<n] = ps" using ps(2) by (auto simp: map_nth)
  finally show ?thesis using ps(1) by blast
qed

end

section \<open>Batches as data\<close>

text \<open>A row-wise function changes every row on its own and keeps the number of rows.\<close>

definition each_row :: "('r \<Rightarrow> 'r) \<Rightarrow> ('o \<Rightarrow> 'o) \<Rightarrow> ('r, 'o, 'm) data_proto \<Rightarrow> ('r, 'o, 'm) data_proto" where
  "each_row f g d = cols (map f) (map g) (dp_len d) d"

definition row_function :: "(('r, 'o, 'm) data_proto \<Rightarrow> ('r, 'o, 'm) data_proto) \<Rightarrow> bool" where
  "row_function h \<longleftrightarrow> (\<exists>f g. h = each_row f g)"

definition dp_good :: "('r, 'o, 'm) data_proto \<Rightarrow> bool" where
  "dp_good d \<longleftrightarrow> dp_ok d \<and> no_metrics d"

lemma nonempty_columns: "0 < dp_len d \<Longrightarrow> dp_batch d \<noteq> None \<or> dp_non_tensor d \<noteq> []"
  by (cases "dp_batch d") (auto simp: dp_len_def)

lemma concat_map_pieces: "concat (map (\<lambda>i. map f (c i)) is) = map f (concat (map c is))"
  by (induction "is") auto

lemma chunk_rowwise:
  assumes "dp_ok d" "no_metrics d" "0 < n" "0 < dp_len d" "dp_len d mod n = 0"
  shows "\<exists>ps. chunk_dp padding n d = Inr ps \<and> length ps = n \<and>
    (\<forall>h. row_function h \<longrightarrow> concat_dp (map h ps) = Inr (h d))"
proof -
  define m where "m = dp_len d div n"
  have len: "dp_len d = n * m" using assms(5) by (auto simp: m_def)
  have m: "0 < m" using len assms(4) by (cases m) simp_all
  let ?c = "\<lambda>i v. cut (replicate n m) v ! i"
  let ?ps = "map (\<lambda>i. cols (?c i) (?c i) m d) [0..<n]"
  have chunk: "chunk_dp padding n d = Inr ?ps" by (rule chunk_dp_eq [OF assms(1,3) len]) (simp add: m)
  have "concat_dp (map h ?ps) = Inr (h d)" if row: "row_function h" for h
  proof -
    from row obtain f g where h: "h = each_row f g" by (auto simp: row_function_def)
    have r: "resizes (?c i) (?c i) (dp_len d) m" if "i < n" for i
      unfolding len by (rule cut_resizes [OF that])
    have "each_row f g (cols (?c i) (?c i) m d) = cols (\<lambda>xs. map f (?c i xs)) (\<lambda>xs. map g (?c i xs)) m d" if "i < n" for i
      unfolding each_row_def cols_cols using dp_len_cols [OF assms(1) r [OF that] nonempty_columns [OF assms(4)]] by simp
    then have pieces: "map h ?ps = map (\<lambda>i. cols (\<lambda>xs. map f (?c i xs)) (\<lambda>xs. map g (?c i xs)) m d) [0..<n]"
      by (simp add: h)
    have total: "sum_list (map (\<lambda>_. m) [0..<n]) = dp_len d" by (simp add: sum_list_triv len)
    have "concat_dp (map (\<lambda>i. cols (\<lambda>xs. map f (?c i xs)) (\<lambda>xs. map g (?c i xs)) m d) [0..<n]) =
        Inr (cols (\<lambda>xs. concat (map (\<lambda>i. map f (?c i xs)) [0..<n])) (\<lambda>xs. concat (map (\<lambda>i. map g (?c i xs)) [0..<n]))
          (sum_list (map (\<lambda>_. m) [0..<n])) d)"
      by (rule concat_cols [OF assms(1,2)]) (use r assms(3) in \<open>auto simp: resizes_def\<close>)
    moreover have "cols (\<lambda>xs. concat (map (\<lambda>i. map f (?c i xs)) [0..<n])) (\<lambda>xs. concat (map (\<lambda>i. map g (?c i xs)) [0..<n]))
          (sum_list (map (\<lambda>_. m) [0..<n])) d = cols (map f) (map g) (sum_list (map (\<lambda>_. m) [0..<n])) d"
      by (rule cols_cong [OF assms(1)]) (simp_all only: concat_map_pieces len concat_cut_equal)
    ultimately show ?thesis unfolding pieces by (simp only: total h each_row_def)
  qed
  with chunk show ?thesis by (intro exI [of _ ?ps]) simp
qed

definition chunk_batch :: "bool \<Rightarrow> ('m pyval \<Rightarrow> bool) \<Rightarrow> nat \<Rightarrow> ('r, 'o, 'm) data_proto \<Rightarrow> ('r, 'o, 'm) data_proto list result" where
  "chunk_batch ca truthy n d = chunk_dp (is_padding_enabled ca truthy d) n d"

interpretation dataproto: batch_type "chunk_batch ca truthy" concat_dp dp_good dp_len row_function for ca truthy
  by unfold_locales (simp add: dp_good_def chunk_batch_def chunk_rowwise)

text \<open>The worker group of the FSDP engine: every worker has registered its ranks for the mesh.\<close>

definition fsdp_worker :: "string \<Rightarrow> nat option \<Rightarrow> nat \<Rightarrow> worker_info result" where
  "fsdp_worker name sp rank = register_dispatch_collect_info name (get_data_parallel_rank sp rank)
     (is_mp_src_rank_with_outputs sp rank) \<lparr>w_dispatch = [], w_collect = []\<rparr>"

lemma fsdp_worker_eq: "fsdp_worker name sp rank = Inr \<lparr>w_dispatch = [(name, get_data_parallel_rank sp rank)],
    w_collect = [(name, is_mp_src_rank_with_outputs sp rank)]\<rparr>"
  by (simp add: fsdp_worker_def register_dispatch_collect_info_def dict_keys_def)

lemma filter_none: "(\<And>i. i \<in> set is \<Longrightarrow> \<not> P i) \<Longrightarrow> filter snd (zip (map f is) (map P is)) = []"
  by (induction "is") auto

lemma fsdp_mesh_ok:
  assumes "0 < dp" "0 < s"
  shows "mesh_ok dp (map (get_data_parallel_rank (Some s)) [0..<dp * s]) (map (is_mp_src_rank_with_outputs (Some s)) [0..<dp * s])"
proof -
  have step: "map fst (filter snd (zip (map (get_data_parallel_rank (Some s)) [k * s..<Suc k * s])
      (map (is_mp_src_rank_with_outputs (Some s)) [k * s..<Suc k * s]))) = [k]" for k
  proof -
    have "[k * s..<Suc k * s] = k * s # [k * s + 1..<k * s + s]"
      using assms(2) by (simp add: upt_conv_Cons add.commute)
    moreover have "\<not> is_mp_src_rank_with_outputs (Some s) i" if "i \<in> set [k * s + 1..<k * s + s]" for i
    proof -
      from that obtain j where "i = k * s + j" "0 < j" "j < s" by (auto simp: less_eq_Suc_le dest!: le_Suc_ex)
      then show ?thesis by (simp add: is_mp_src_rank_with_outputs_def)
    qed
    ultimately show ?thesis
      using assms(2) filter_none [of "[k * s + 1..<k * s + s]" "is_mp_src_rank_with_outputs (Some s)"
          "get_data_parallel_rank (Some s)"]
      by (simp add: get_data_parallel_rank_def is_mp_src_rank_with_outputs_def)
  qed
  have all: "map fst (filter snd (zip (map (get_data_parallel_rank (Some s)) [0..<k * s])
      (map (is_mp_src_rank_with_outputs (Some s)) [0..<k * s]))) = [0..<k]" for k
  proof (induction k)
    case (Suc k)
    have "[0..<Suc k * s] = [0..<k * s] @ [k * s..<Suc k * s]" using upt_add_eq_append [of 0 "k * s" s] by (simp add: add.commute)
    with Suc step [of k] show ?case by simp
  qed simp
  have "i div s < dp" if "i < dp * s" for i using that assms by (simp add: less_mult_imp_div_less)
  with all [of dp] assms show ?thesis by (simp add: mesh_ok_def get_data_parallel_rank_def)
qed


text \<open>The group as it is before its first call.\<close>

definition fsdp_group :: "string \<Rightarrow> nat option \<Rightarrow> nat \<Rightarrow> wgroup result" where
  "fsdp_group name sp n = bind_r (map_r (fsdp_worker name sp) [0..<n]) (\<lambda>ws.
     Inr \<lparr>wg_workers = ws, wg_dispatch = [], wg_collect = []\<rparr>)"

definition fsdp_infos :: "string \<Rightarrow> nat option \<Rightarrow> nat \<Rightarrow> worker_info list" where
  "fsdp_infos name sp n = map (\<lambda>rank. \<lparr>w_dispatch = [(name, get_data_parallel_rank sp rank)],
     w_collect = [(name, is_mp_src_rank_with_outputs sp rank)]\<rparr>) [0..<n]"

lemma fsdp_group_eq: "fsdp_group name sp n = Inr \<lparr>wg_workers = fsdp_infos name sp n, wg_dispatch = [], wg_collect = []\<rparr>"
proof -
  have "map_r (fsdp_worker name sp) [0..<n] = Inr (fsdp_infos name sp n)"
    unfolding fsdp_infos_def by (rule map_r_total) (rule fsdp_worker_eq)
  then show ?thesis by (simp add: fsdp_group_def)
qed

lemma fsdp_queries:
  "map_r (query_dispatch_info name) (fsdp_infos name sp n) = Inr (map (get_data_parallel_rank sp) [0..<n])"
  "map_r (query_collect_info name) (fsdp_infos name sp n) = Inr (map (is_mp_src_rank_with_outputs sp) [0..<n])"
  unfolding fsdp_infos_def map_r_map by (rule map_r_total, simp add: query_dispatch_info_def query_collect_info_def)+

text \<open>C22 A method of an FSDP worker group that works row by row gives, called on a batch, what it gives on the whole
  batch: the batch is cut over the data-parallel ranks, every sequence-parallel rank of a group gets the
  same piece, one of them is collected, and the pieces come back in order.\<close>

theorem fsdp_call_rowwise:
  assumes d: "dp_ok d" "no_metrics d" "0 < dp_len d" "dp_len d mod dp = 0" and n: "0 < dp" "0 < s"
    and methods: "length methods = dp * s" "computes (each_row f g) methods"
    and group: "fsdp_group name (Some s) (dp * s) = Inr wg"
  shows "\<exists>wg'. lazy_call (chunk_batch ca truthy) concat_dp name methods wg [d] [] = Inr (each_row f g d, wg') \<and>
    wg_workers wg' = wg_workers wg"
proof -
  let ?ms = "map (get_data_parallel_rank (Some s)) [0..<dp * s]"
  let ?bs = "map (is_mp_src_rank_with_outputs (Some s)) [0..<dp * s]"
  have wg: "wg = \<lparr>wg_workers = fsdp_infos name (Some s) (dp * s), wg_dispatch = [], wg_collect = []\<rparr>"
    using group by (simp add: fsdp_group_eq)
  have good: "dp_good d" using d by (simp add: dp_good_def)
  have row: "row_function (each_row f g)" by (auto simp: row_function_def)
  have len: "length methods = length ?ms" "length (wg_workers wg) = length ?ms"
    using methods(1) by (simp_all add: wg fsdp_infos_def)
  have info: "map_r (query_dispatch_info name) (wg_workers wg) = Inr ?ms"
    "map_r (query_collect_info name) (wg_workers wg) = Inr ?bs" by (simp_all add: wg fsdp_queries)
  have cache: "map_of (wg_dispatch wg) name \<in> {None, Some ?ms}" "map_of (wg_collect wg) name \<in> {None, Some ?bs}"
    by (simp_all add: wg)
  from dataproto.lazy_call_rowwise [OF good d(3,4) row methods(2) fsdp_mesh_ok [OF n] len info cache]
  show ?thesis by blast
qed

text \<open>Getting the pieces of the future of a list of batches is cutting their concatenation.\<close>

theorem future_chunks_of_batch:
  assumes "rs \<noteq> []" "concat_dp rs = Inr d" "dp_ok d" "no_metrics d" "0 < n" "0 < dp_len d" "dp_len d mod n = 0"
  shows "\<exists>ps. chunk_batch ca truthy n d = Inr ps \<and>
    map_r (future_get (chunk_batch ca truthy) concat_dp) (future_chunk n (future_concat rs)) = Inr ps"
  using assms by (intro dataproto.future_pieces) (simp_all add: dp_good_def)

section \<open>Automatic padding\<close>

definition pad_last :: "nat \<Rightarrow> 'a list \<Rightarrow> 'a list" where
  "pad_last p xs = xs @ replicate p (last xs)"

lemma pick_nat: "\<forall>j \<in> set js. j < length xs \<Longrightarrow> pick (Idxs (map int js)) xs = Inr (map (\<lambda>j. xs ! j) js)"
  by (induction js) (simp_all add: pick_def norm_index_def)

lemma select_idxs_nat:
  assumes ok: "dp_ok d" and js: "\<forall>j \<in> set js. j < dp_len d"
  shows "select_idxs (Idxs (map int js)) d =
    Inr (cols (\<lambda>xs. map (\<lambda>j. xs ! j) js) (\<lambda>xs. map (\<lambda>j. xs ! j) js) (length js) d)"
proof -
  let ?f = "\<lambda>xs. map (\<lambda>j. xs ! j) js" and ?g = "\<lambda>xs. map (\<lambda>j. xs ! j) js"
  have nt: "items_r (pick (Idxs (map int js))) (dp_non_tensor d) = Inr (map_items ?g (dp_non_tensor d))"
    using array_length [OF ok] js by (intro items_r_total pick_nat) auto
  have "resizes ?f ?g (dp_len d) (length js)" by (simp add: resizes_def)
  note mk = mk_dp_ok [OF cols_ok [OF ok this, unfolded cols_def]]
  show ?thesis
  proof (cases "dp_batch d")
    case None
    then show ?thesis using mk nt by (simp add: select_idxs_def cols_def)
  next
    case (Some b)
    have "items_r (pick (Idxs (map int js))) (td_items b) = Inr (map_items ?f (td_items b))"
      using tensor_length [OF ok Some] js by (intro items_r_total pick_nat) auto
    with Some mk nt show ?thesis by (simp add: select_idxs_def cols_def index_size_def)
  qed
qed

lemma last_nth: "length xs = n \<Longrightarrow> 0 < n \<Longrightarrow> xs ! (n - Suc 0) = last xs"
  by (metis One_nat_def last_conv_nth length_greater_0_conv)

lemma padding_dp_eq:
  assumes ok: "dp_ok d" "no_metrics d" and n: "0 < dp_len d"
  shows "padding_dp p False d = Inr (cols (pad_last p) (pad_last p) (dp_len d + p) d)"
proof (cases "p = 0")
  case True
  then show ?thesis using cols_id [OF ok(1), of "pad_last p" "pad_last p" "dp_len d + p"]
    by (simp add: padding_dp_def pad_last_def)
next
  case False
  let ?n = "dp_len d"
  let ?l = "\<lambda>xs. map (\<lambda>j. xs ! j) [?n - 1]" and ?l' = "\<lambda>xs. map (\<lambda>j. xs ! j) [?n - 1]"
  have idx: "int ?n - 1 = int (?n - 1)" using n by simp
  have r1: "resizes ?l ?l' ?n 1" by (simp add: resizes_def)
  have sel: "select_idxs (Idxs [int ?n - 1]) d = Inr (cols ?l ?l' 1 d)"
    using select_idxs_nat [OF ok(1), of "[?n - 1]"] n unfolding idx by simp
  have len1: "dp_len (cols ?l ?l' 1 d) = 1" by (rule dp_len_cols [OF ok(1) r1 nonempty_columns [OF n]])
  have rp: "resizes (repeat_interleave p) (repeat_interleave p) (dp_len (cols ?l ?l' 1 d)) (1 * p)"
    unfolding len1 by (simp add: resizes_def)
  have rep: "repeat_dp p True (cols ?l ?l' 1 d) =
      Inr (cols (\<lambda>xs. repeat_interleave p (?l xs)) (\<lambda>xs. repeat_interleave p (?l' xs)) (1 * p) d)"
    using map_cols_eq [OF cols_ok [OF ok(1) r1] rp] unfolding repeat_dp_def len1 if_True cols_cols .
  let ?f = "\<lambda>b xs. if b then repeat_interleave p (?l xs) else xs" and ?g = "\<lambda>b xs. if b then repeat_interleave p (?l' xs) else xs"
  have two: "concat_dp (map (\<lambda>b. cols (?f b) (?g b) (if b then p else ?n) d) [False, True]) =
      Inr (cols (\<lambda>xs. concat (map (\<lambda>b. ?f b xs) [False, True])) (\<lambda>xs. concat (map (\<lambda>b. ?g b xs) [False, True]))
        (sum_list (map (\<lambda>b. if b then p else ?n) [False, True])) d)"
    by (rule concat_cols [OF ok]) (auto simp: resizes_def)
  have self: "cols (\<lambda>xs. xs) (\<lambda>xs. xs) ?n d = d" by (rule cols_id [OF ok(1)]) simp_all
  have "cols (\<lambda>xs. concat (map (\<lambda>b. ?f b xs) [False, True])) (\<lambda>xs. concat (map (\<lambda>b. ?g b xs) [False, True])) (?n + p) d =
      cols (pad_last p) (pad_last p) (?n + p) d"
    by (rule cols_cong [OF ok(1)]) (use n in \<open>simp_all add: pad_last_def repeat_interleave_def last_nth\<close>)
  with two self have conc: "concat_dp [d, cols (\<lambda>xs. repeat_interleave p (?l xs)) (\<lambda>xs. repeat_interleave p (?l' xs)) p d] =
      Inr (cols (pad_last p) (pad_last p) (?n + p) d)" by simp
  have "d\<lparr>dp_batch := dp_batch (cols (pad_last p) (pad_last p) (?n + p) d),
      dp_non_tensor := dp_non_tensor (cols (pad_last p) (pad_last p) (?n + p) d)\<rparr> = cols (pad_last p) (pad_last p) (?n + p) d"
    by (simp add: cols_def)
  then show ?thesis using False sel rep conc by (simp add: padding_dp_def del: One_nat_def)
qed


definition pad_of :: "nat \<Rightarrow> ('r, 'o, 'm) data_proto \<Rightarrow> nat" where
  "pad_of n d = (if 0 < dp_len d mod n then n - dp_len d mod n else 0)"

definition padded :: "nat \<Rightarrow> ('r, 'o, 'm) data_proto \<Rightarrow> ('r, 'o, 'm) data_proto" where
  "padded n d = cols (pad_last (pad_of n d)) (pad_last (pad_of n d)) (dp_len d + pad_of n d) d"

lemma padded_facts:
  assumes ok: "dp_ok d" "no_metrics d" and n: "0 < dp_len d" "0 < n"
  shows "dp_ok (padded n d)" "no_metrics (padded n d)" "dp_len (padded n d) = dp_len d + pad_of n d"
    "dp_len (padded n d) mod n = 0" "is_padding_enabled ca truthy (padded n d) = is_padding_enabled ca truthy d"
proof -
  have r: "resizes (pad_last (pad_of n d)) (pad_last (pad_of n d)) (dp_len d) (dp_len d + pad_of n d)"
    by (simp add: resizes_def pad_last_def)
  show "dp_ok (padded n d)" unfolding padded_def by (rule cols_ok [OF ok(1) r])
  show len: "dp_len (padded n d) = dp_len d + pad_of n d"
    unfolding padded_def by (rule dp_len_cols [OF ok(1) r nonempty_columns [OF n(1)]])
  show "dp_len (padded n d) mod n = 0"
  proof (cases "dp_len d mod n = 0")
    case False
    then have "dp_len d + pad_of n d = (dp_len d div n + 1) * n" using round_up [OF n(2)] by (simp add: pad_of_def)
    then show ?thesis unfolding len by (simp only: mod_mult_self2_is_0)
  qed (simp add: len pad_of_def)
  show "no_metrics (padded n d)" "is_padding_enabled ca truthy (padded n d) = is_padding_enabled ca truthy d"
    using ok(2) by (simp_all add: padded_def cols_def no_metrics_def is_padding_enabled_def)
qed

lemma split_padded:
  assumes ok: "dp_ok d" "no_metrics d" and n: "0 < dp_len d" "0 < n" and enabled: "is_padding_enabled ca truthy d"
  shows "\<exists>ps. split_with_auto_padding ca truthy n [d] [] = Inr ([ps], [], Some (pad_of n d), [padded n d]) \<and>
    length ps = n \<and> (\<forall>h. row_function h \<longrightarrow> concat_dp (map h ps) = Inr (h (padded n d)))"
proof -
  note f = padded_facts [OF ok n]
  have pos: "0 < dp_len (padded n d)" using f(3) n(1) by simp
  from chunk_rowwise [OF f(1,2) n(2) pos f(4)] obtain ps where
    ps: "chunk_dp True n (padded n d) = Inr ps" "length ps = n"
    and h: "\<forall>h. row_function h \<longrightarrow> concat_dp (map h ps) = Inr (h (padded n d))" by blast
  have "padding_dp (pad_of n d) False d = Inr (padded n d)" unfolding padded_def by (rule padding_dp_eq [OF ok n(1)])
  then have "padding_and_split_data ca truthy n None d = Inr (Some (dp_len d, pad_of n d), padded n d, ps)"
    using enabled n(2) ps(1) f(5) by (simp add: padding_and_split_data_def pad_of_def [symmetric])
  then show ?thesis using ps(2) h by (intro exI [of _ ps]) (simp add: split_with_auto_padding_def)
qed

lemma map_nth_take: "length xs = n \<Longrightarrow> k \<le> n \<Longrightarrow> map (\<lambda>j. xs ! j) (take k [0..<n]) = take k xs"
  by (metis map_nth take_map)

lemma take_padded: "length xs = n \<Longrightarrow> map (\<lambda>j. map f (pad_last p xs) ! j) (take n [0..<n + p]) = map f xs"
  by (subst map_nth_take) (simp_all add: pad_last_def)

lemma cut_padding:
  assumes ok: "dp_ok d" "no_metrics d" and n: "0 < dp_len d" "0 < n"
  shows "cut_padding_data (Some (pad_of n d)) (each_row f g (padded n d)) = Inr (each_row f g d)"
proof -
  let ?p = "pad_of n d" and ?n = "dp_len d"
  let ?e = "each_row f g (padded n d)"
  note pf = padded_facts [OF ok n]
  have e: "?e = cols (\<lambda>xs. map f (pad_last ?p xs)) (\<lambda>xs. map g (pad_last ?p xs)) (?n + ?p) d"
    unfolding each_row_def pf(3) by (simp add: padded_def cols_cols)
  have r: "resizes (\<lambda>xs. map f (pad_last ?p xs)) (\<lambda>xs. map g (pad_last ?p xs)) ?n (?n + ?p)"
    by (simp add: resizes_def pad_last_def)
  have e_ok: "dp_ok ?e" unfolding e by (rule cols_ok [OF ok(1) r])
  have e_len: "dp_len ?e = ?n + ?p" unfolding e by (rule dp_len_cols [OF ok(1) r nonempty_columns [OF n(1)]])
  let ?js = "take ?n [0..<?n + ?p]"
  have js: "length ?js = ?n" by simp
  have "select_idxs (Idxs (map int ?js)) ?e =
      Inr (cols (\<lambda>xs. map (\<lambda>j. xs ! j) ?js) (\<lambda>xs. map (\<lambda>j. xs ! j) ?js) (length ?js) ?e)"
    by (rule select_idxs_nat [OF e_ok]) (auto simp: e_len)
  also have "cols (\<lambda>xs. map (\<lambda>j. xs ! j) ?js) (\<lambda>xs. map (\<lambda>j. xs ! j) ?js) (length ?js) ?e = each_row f g d"
    unfolding js e cols_cols unfolding each_row_def
    by (rule cols_cong [OF ok(1)]) (simp_all only: take_padded)
  finally have cut: "select_idxs (Idxs (map int ?js)) ?e = Inr (each_row f g d)" .
  show ?thesis
  proof (cases "0 < ?p")
    case True
    then show ?thesis using cut by (simp add: cut_padding_data_def e_len)
  next
    case False
    then have z: "?p = 0" by simp
    have "?e = cols (\<lambda>xs. map f (pad_last 0 xs)) (\<lambda>xs. map g (pad_last 0 xs)) ?n d" unfolding e z by simp
    also have "\<dots> = each_row f g d" unfolding each_row_def by (rule cols_cong [OF ok(1)]) (simp_all add: pad_last_def)
    finally have "?e = each_row f g d" .
    with False show ?thesis by (simp add: cut_padding_data_def)
  qed
qed

text \<open>With automatic padding, a row-by-row method gives what it gives on the batch, whatever the number of workers,
  but the caller's batch is left padded: unless the workers divide it, its union with the result fails.\<close>

theorem auto_padding_call:
  assumes ok: "dp_ok d" "no_metrics d" and n: "0 < dp_len d" "methods \<noteq> []"
    and enabled: "is_padding_enabled ca truthy d" and methods: "computes (each_row f g) methods"
  shows "dp_compute_proto_call ca truthy methods [d] [] = Inr (each_row f g d, [padded (length methods) d]) \<and>
    (dp_batch d \<noteq> None \<and> dp_len d mod length methods \<noteq> 0 \<longrightarrow>
      union_dp (padded (length methods) d) (each_row f g d) = Inl AssertionError)"
proof
  have len: "0 < length methods" using n(2) by simp
  from split_padded [OF ok n(1) len enabled] obtain ps where
    ps: "split_with_auto_padding ca truthy (length methods) [d] [] =
      Inr ([ps], [], Some (pad_of (length methods) d), [padded (length methods) d])"
    and lps: "length ps = length methods" and h: "\<forall>h. row_function h \<longrightarrow> concat_dp (map h ps) = Inr (h (padded (length methods) d))"
    by blast
  have ne: "ps \<noteq> []" using lps n(2) by auto
  have "concat_dp (map (each_row f g) ps) = Inr (each_row f g (padded (length methods) d))"
    using h by (auto simp: row_function_def)
  then have "collect_dp_compute_data_proto (length methods) (map (each_row f g) ps) = Inr (each_row f g (padded (length methods) d))"
    using lps ne by (simp add: collect_dp_compute_data_proto_def collect_dp_compute_def)
  then show "dp_compute_proto_call ca truthy methods [d] [] = Inr (each_row f g d, [padded (length methods) d])"
    using ps execute_computes [OF methods lps] cut_padding [OF ok n(1) len] by (simp add: dp_compute_proto_call_def)
  show "dp_batch d \<noteq> None \<and> dp_len d mod length methods \<noteq> 0 \<longrightarrow>
      union_dp (padded (length methods) d) (each_row f g d) = Inl AssertionError"
  proof
    assume "dp_batch d \<noteq> None \<and> dp_len d mod length methods \<noteq> 0"
    then obtain b where b: "dp_batch d = Some b" and p: "0 < pad_of (length methods) d"
      using mod_less_divisor [OF len, of "dp_len d"] by (auto simp: pad_of_def)
    then show "union_dp (padded (length methods) d) (each_row f g d) = Inl AssertionError"
      by (simp add: union_dp_def union_tensor_dict_def padded_def each_row_def cols_def)
  qed
qed

text \<open>A metric call with automatic padding drops as many workers' outputs as rows were padded, so that outputs computed
  on real rows are lost: only as many are kept as the number of rows modulo the number of workers.\<close>

theorem metric_call_drops_outputs:
  assumes ok: "dp_ok d" "no_metrics d" and n: "methods \<noteq> []" "dp_len d mod length methods \<noteq> 0"
    and enabled: "is_padding_enabled ca truthy d" and methods: "computes h methods"
  shows "\<exists>out. dp_compute_metric_call ca truthy methods [d] [] = Inr out \<and> length out = dp_len d mod length methods"
proof -
  have len: "0 < length methods" and pos: "0 < dp_len d" using n by (auto intro: Nat.gr0I)
  from split_padded [OF ok pos len enabled] obtain ps where
    ps: "split_with_auto_padding ca truthy (length methods) [d] [] =
      Inr ([ps], [], Some (pad_of (length methods) d), [padded (length methods) d])"
    and lps: "length ps = length methods" by blast
  have lt: "dp_len d mod length methods < length methods" using len by simp
  have "dp_compute_metric_call ca truthy methods [d] [] = Inr (take (length methods - pad_of (length methods) d) (map h ps))"
    using ps execute_computes [OF methods lps] lps n(2) lt
    by (simp add: dp_compute_metric_call_def collect_dp_compute_def cut_padding_list_def pad_of_def)
  moreover have "length methods - pad_of (length methods) d = dp_len d mod length methods"
    using n(2) lt by (simp add: pad_of_def)
  ultimately show ?thesis using lps lt by simp
qed


section \<open>Concrete calls\<close>

definition worker_of :: "('d \<Rightarrow> 'o) \<Rightarrow> ('d, 'o) worker_fn" where
  "worker_of h args kwargs = (case args of [Plain x] \<Rightarrow> Inr (h x) | _ \<Rightarrow> Inl TypeError)"

lemma workers_compute: "computes h (replicate n (worker_of h))"
  by (auto simp: computes_def worker_of_def)

lemma fsdp_call_witness:
  "case fsdp_group ''train'' (Some 2) 4 of Inl e \<Rightarrow> False | Inr wg \<Rightarrow>
     \<exists>wg'. lazy_call (chunk_batch False (\<lambda>v. True)) concat_dp ''train''
       (replicate 4 (worker_of (each_row (\<lambda>x. x + 1) (\<lambda>u. u)))) wg [four_rows] [] =
         Inr (each_row (\<lambda>x. x + 1) (\<lambda>u. u) four_rows, wg')"
proof -
  have n: "(0::nat) < 2" "dp_len four_rows mod 2 = 0" "0 < dp_len four_rows" by (simp_all add: four_rows_ok)
  have len: "length (replicate 4 (worker_of (each_row (\<lambda>x. x + 1 :: int) (\<lambda>u. u :: int)))) = 2 * 2" by simp
  from fsdp_call_rowwise [OF four_rows_ok(1,2) n(3,2) n(1) n(1) len workers_compute, of "''train''" _ False "\<lambda>v. True"]
  show ?thesis by (simp add: fsdp_group_eq) blast
qed

lemma auto_padding_witness:
  "dp_compute_proto_call True (\<lambda>v. True) (replicate 3 (worker_of (each_row (\<lambda>x. x + 1) (\<lambda>u. u)))) [four_rows] [] =
     Inr (each_row (\<lambda>x. x + 1) (\<lambda>u. u) four_rows, [padded 3 four_rows])"
  using auto_padding_call [of four_rows "replicate 3 (worker_of (each_row (\<lambda>x. x + 1) (\<lambda>u. u)))" True "\<lambda>v. True"
      "\<lambda>x. x + 1" "\<lambda>u. u", OF four_rows_ok(1,2) _ _ _ workers_compute]
  by (simp add: four_rows_ok(3) is_padding_enabled_def)

lemma metric_call_witness:
  "\<exists>out. dp_compute_metric_call True (\<lambda>v. True) (replicate 3 (worker_of dp_len)) [four_rows] [] = Inr out \<and> length out = 1"
  using metric_call_drops_outputs [of four_rows "replicate 3 (worker_of dp_len)" True "\<lambda>v. True" dp_len,
      OF four_rows_ok(1,2) _ _ _ workers_compute]
  by (simp add: four_rows_ok(3) is_padding_enabled_def)

lemma future_chunks_witness:
  "\<exists>ps. chunk_batch False (\<lambda>v. True) 2 four_rows = Inr ps \<and>
    map_r (future_get (chunk_batch False (\<lambda>v. True)) concat_dp) (future_chunk 2 (future_concat [four_rows])) = Inr ps"
proof -
  have "concat_dp [four_rows] = Inr four_rows"
    using concat_cols [OF four_rows_ok(1,2), of "[()]" "\<lambda>u xs. xs" "\<lambda>u xs. xs" "\<lambda>u. 4"]
      cols_id [OF four_rows_ok(1), of "\<lambda>xs. xs" "\<lambda>xs. xs" 4] by (simp add: resizes_def four_rows_ok(3))
  then show ?thesis
    using future_chunks_of_batch [of "[four_rows]" four_rows 2 False "\<lambda>v. True"] four_rows_ok by simp
qed


section \<open>The registry of dispatch modes\<close>

text \<open>Registering a dispatch mode fails only when the name is taken; otherwise the new mode gets a value no mode
  had, its functions are found under it, and the functions of every other mode are as before.\<close>

theorem registered_mode_found:
  assumes "registry_ok r"
  shows "case register_dispatch_mode upper name fns r of
      Inl e \<Rightarrow> e = ValueError \<and> enum_from_name upper name (dr_enum r) \<noteq> None
    | Inr (r', m) \<Rightarrow> registry_ok r' \<and> enum_from_name upper name (dr_enum r') = Some m \<and>
        get_predefined_dispatch_fn m r' = Inr fns \<and> get_predefined_dispatch_fn m r = Inl KeyError \<and>
        (\<forall>k. k \<noteq> m \<longrightarrow> get_predefined_dispatch_fn k r' = get_predefined_dispatch_fn k r)"
proof (cases "upper name \<in> set (dict_keys (de_registry (dr_enum r)))")
  case True
  then show ?thesis using keys_map_of [of "upper name" "de_registry (dr_enum r)"]
    by (simp add: register_dispatch_mode_def enum_register_def enum_from_name_def)
next
  case False
  let ?e = "\<lparr>de_registry = dict_set (upper name) (de_next (dr_enum r)) (de_registry (dr_enum r)), de_next = de_next (dr_enum r) + 1\<rparr>"
  have reg: "enum_register upper name (dr_enum r) = Inr (?e, de_next (dr_enum r))"
    using False by (simp add: enum_register_def)
  have fresh: "de_next (dr_enum r) \<notin> set (dict_keys (dr_fns r))" using assms by (auto simp: registry_ok_def)
  then have none: "map_of (dr_fns r) (de_next (dr_enum r)) = None"
    using keys_map_of [of "de_next (dr_enum r)" "dr_fns r"] by simp
  have "enum_ok ?e" using enum_register_ok [OF _ reg] assms by (simp add: registry_ok_def)
  then have "registry_ok (r\<lparr>dr_enum := ?e, dr_fns := dict_set (de_next (dr_enum r)) fns (dr_fns r)\<rparr>)"
    using assms by (auto simp: registry_ok_def keys_dict_set less_Suc_eq)
  then show ?thesis using reg fresh none
    by (simp add: register_dispatch_mode_def enum_from_name_def get_predefined_dispatch_fn_def dict_item_def)
qed

lemma registered_mode_witness:
  "case register_dispatch_mode (\<lambda>s. s) ''A'' (7 :: nat) \<lparr>dr_enum = \<lparr>de_registry = [], de_next = 0\<rparr>, dr_fns = []\<rparr> of
     Inl e \<Rightarrow> False | Inr (r', m) \<Rightarrow> get_predefined_dispatch_fn m r' = Inr 7"
proof -
  have ok: "registry_ok \<lparr>dr_enum = \<lparr>de_registry = [], de_next = 0\<rparr>, dr_fns = []\<rparr>"
    by (simp add: registry_ok_def enum_ok_def dict_keys_def)
  show ?thesis using registered_mode_found [OF ok, of "\<lambda>s. s" "''A''" "7 :: nat"]
    by (simp split: sum.splits prod.splits add: enum_from_name_def)
qed

end
