(* ===== verification/Tensor.thy ===== *)
theory Tensor
  imports Prelude Complex_Main
begin

text \<open>
  Tensors of one and two dimensions as lists of reals, and the masked reductions of
  \<^verbatim>\<open>verl/utils/torch_functional.py\<close>. Floating-point numbers are modelled by reals, without rounding;
  where torch would give an infinity or a NaN by dividing by zero, the value is None (\<open>div_fin\<close>).
  Element-wise operations expect tensors of the same shape.
\<close>

named_theorems tensor_simps \<open>elementwise operations and sums\<close>

type_synonym vec = "real list"
type_synonym mat = "real list list"

section \<open>Element-wise operations\<close>

definition vzip :: "('a \<Rightarrow> 'b \<Rightarrow> 'c) \<Rightarrow> 'a list \<Rightarrow> 'b list \<Rightarrow> 'c list" where
  "vzip f xs ys = map (\<lambda>(x, y). f x y) (zip xs ys)"

definition mzip :: "('a \<Rightarrow> 'b \<Rightarrow> 'c) \<Rightarrow> 'a list list \<Rightarrow> 'b list list \<Rightarrow> 'c list list" where
  "mzip f A B = vzip (vzip f) A B"

definition mmap :: "('a \<Rightarrow> 'b) \<Rightarrow> 'a list list \<Rightarrow> 'b list list" where
  "mmap f A = map (map f) A"

definition msum :: "mat \<Rightarrow> real" where
  "msum A = sum_list (map sum_list A)"

definition same_shape :: "'a list list \<Rightarrow> 'b list list \<Rightarrow> bool" where
  "same_shape A B \<longleftrightarrow> list_all2 (\<lambda>r s. length r = length s) A B"

text \<open>A mask of zeros and ones.\<close>

definition is_mask :: "mat \<Rightarrow> bool" where
  "is_mask M \<longleftrightarrow> (\<forall>row \<in> set M. \<forall>m \<in> set row. m = 0 \<or> m = 1)"

text \<open>\<open>torch.clamp\<close>: the upper bound wins when the bounds cross.\<close>

definition clamp :: "real \<Rightarrow> real \<Rightarrow> real \<Rightarrow> real" where
  "clamp lo hi x = min (max x lo) hi"

definition div_fin :: "real \<Rightarrow> real \<Rightarrow> real option" where
  "div_fin a b = (if b = 0 then None else Some (a / b))"

lemma vzip_simps [simp]:
  "vzip f [] ys = []" "vzip f xs [] = []" "vzip f (x # xs) (y # ys) = f x y # vzip f xs ys"
  by (cases xs; simp add: vzip_def)+

lemma length_vzip [simp]: "length (vzip f xs ys) = min (length xs) (length ys)"
  by (simp add: vzip_def)

lemma nth_vzip [simp]: "i < length xs \<Longrightarrow> i < length ys \<Longrightarrow> vzip f xs ys ! i = f (xs ! i) (ys ! i)"
  by (simp add: vzip_def)

lemma map_vzip: "map g (vzip f xs ys) = vzip (\<lambda>x y. g (f x y)) xs ys"
  by (simp add: vzip_def case_prod_beta comp_def)

lemma vzip_append: "length xs = length ys \<Longrightarrow> vzip f (xs @ xs') (ys @ ys') = vzip f xs ys @ vzip f xs' ys'"
  by (simp add: vzip_def)

lemma sum_vzip_scale: "length xs = length ys \<Longrightarrow> sum_list (vzip (\<lambda>x y. c * f x y) xs ys) = c * sum_list (vzip f xs ys)"
  for c :: real
  by (induction xs ys rule: list_induct2) (simp_all add: algebra_simps)

lemma sum_vzip_add: "length xs = length ys \<Longrightarrow>
    sum_list (vzip (\<lambda>x y. f x y + g x y) xs ys) = sum_list (vzip f xs ys) + sum_list (vzip g xs ys :: real list)"
  by (induction xs ys rule: list_induct2) (simp_all add: algebra_simps)

lemma msum_simps [simp]: "msum [] = 0" "msum (r # A) = sum_list r + msum A" "msum (A @ B) = msum A + msum B"
  by (simp_all add: msum_def)

lemma mzip_simps [simp]: "mzip f [] B = []" "mzip f A [] = []" "mzip f (r # A) (s # B) = vzip f r s # mzip f A B"
  by (simp_all add: mzip_def)

lemma same_shape_simps [simp]:
  "same_shape [] B \<longleftrightarrow> B = []" "same_shape (r # A) B \<longleftrightarrow> (\<exists>s B'. B = s # B' \<and> length r = length s \<and> same_shape A B')"
  by (auto simp: same_shape_def list_all2_Cons1)

lemma same_shape_induct [consumes 1, case_names Nil Cons]:
  assumes "same_shape A B" "P [] []"
    "\<And>r A s B. length r = length s \<Longrightarrow> same_shape A B \<Longrightarrow> P A B \<Longrightarrow> P (r # A) (s # B)"
  shows "P A B"
  using assms(1) unfolding same_shape_def
  by (induction rule: list_all2_induct) (use assms(2,3) in \<open>auto simp: same_shape_def\<close>)

lemma same_shape_length: "same_shape A B \<Longrightarrow> length A = length B"
  by (simp add: same_shape_def list_all2_lengthD)

lemma clamp_bounds: "lo \<le> hi \<Longrightarrow> lo \<le> clamp lo hi x \<and> clamp lo hi x \<le> hi"
  by (simp add: clamp_def)

lemma clamp_id: "lo \<le> x \<Longrightarrow> x \<le> hi \<Longrightarrow> clamp lo hi x = x"
  by (simp add: clamp_def)

lemma clamp_mono: "x \<le> y \<Longrightarrow> clamp lo hi x \<le> clamp lo hi y"
  by (auto simp: clamp_def)

section \<open>Shapes and entries\<close>

definition shape :: "'a list list \<Rightarrow> nat list" where
  "shape A = map length A"

lemma shape_simps [simp]: "shape [] = []" "shape (r # A) = length r # shape A"
  by (simp_all add: shape_def)

lemma length_shape: "shape A = shape B \<Longrightarrow> length A = length B"
  unfolding shape_def by (metis length_map)

lemma shape_nth: "shape A = shape B \<Longrightarrow> i < length A \<Longrightarrow> length (A ! i) = length (B ! i)"
  unfolding shape_def by (metis length_map nth_map)

lemma same_shape_iff: "same_shape A B \<longleftrightarrow> shape A = shape B"
proof (induction A arbitrary: B)
  case (Cons r A)
  then show ?case by (cases B) auto
qed (auto simp: shape_def)

lemma shape_mmap [simp]: "shape (mmap f A) = shape A"
  by (simp add: shape_def mmap_def)

lemma shape_mzip: "shape A = shape B \<Longrightarrow> shape (mzip f A B) = shape A"
proof (induction A arbitrary: B)
  case (Cons r A)
  then show ?case by (cases B) auto
qed simp

lemma nth_mmap: "i < length A \<Longrightarrow> j < length (A ! i) \<Longrightarrow> mmap f A ! i ! j = f (A ! i ! j)"
  by (simp add: mmap_def)

lemma nth_mzip: "shape A = shape B \<Longrightarrow> i < length A \<Longrightarrow> j < length (A ! i) \<Longrightarrow> mzip f A B ! i ! j = f (A ! i ! j) (B ! i ! j)"
  using shape_nth [of A B i] length_shape [of A B] by (simp add: mzip_def)

lemma shape_vzip_rows: "(\<And>x y. length (f x y) = length y) \<Longrightarrow> length xs = length M \<Longrightarrow> shape (vzip f xs M) = shape M"
proof (induction xs arbitrary: M)
  case (Cons x xs)
  then show ?case by (cases M) auto
qed simp

lemma mat_eqI:
  assumes "shape A = shape B" "\<And>i j. i < length A \<Longrightarrow> j < length (A ! i) \<Longrightarrow> A ! i ! j = B ! i ! j"
  shows "A = B"
proof (rule nth_equalityI)
  show "length A = length B" by (rule length_shape [OF assms(1)])
  fix i
  assume i: "i < length A"
  show "A ! i = B ! i" by (rule nth_equalityI) (use assms(2) [OF i] shape_nth [OF assms(1) i] in simp_all)
qed

section \<open>Masked reductions\<close>

definition masked_sum :: "mat \<Rightarrow> mat \<Rightarrow> real" where
  "masked_sum values mk = msum (mzip (\<lambda>v m. (if m \<noteq> 0 then v else 0) * m) values mk)"

definition masked_mean :: "mat \<Rightarrow> mat \<Rightarrow> real" where
  "masked_mean values mk = masked_sum values mk / (msum mk + 1 / 10 ^ 8)"

definition masked_var :: "mat \<Rightarrow> mat \<Rightarrow> bool \<Rightarrow> real result" where
  "masked_var values mk unbiased =
     (let mean = masked_mean values mk;
          variance = masked_mean (mmap (\<lambda>v. (v - mean) ^ 2) values) mk;
          mask_sum = msum mk in
      if \<not> unbiased then Inr variance
      else if mask_sum = 0 then Inl ValueError
      else if mask_sum = 1 then Inl ValueError
      else Inr (variance * (mask_sum / (mask_sum - 1))))"

definition masked_whiten :: "mat \<Rightarrow> mat \<Rightarrow> bool \<Rightarrow> mat result" where
  "masked_whiten values mk shift_mean =
     (let mean = masked_mean values mk in
      bind_r (masked_var values mk True) (\<lambda>var.
        Inr (mmap (\<lambda>v. (v - mean) * (1 / sqrt (var + 1 / 10 ^ 8)) + (if shift_mean then 0 else mean)) values)))"

definition get_response_mask :: "nat list \<Rightarrow> nat list list \<Rightarrow> mat" where
  "get_response_mask eos ids =
     map (\<lambda>row. let e = map (\<lambda>t. if t \<in> set eos then 1 else 0 :: nat) row in
            map (\<lambda>i. if sum_list (take (i + 1) e) - e ! i = 0 then 1 else 0) [0..<length row]) ids"

lemma masked_sum_mult: "masked_sum values mk = msum (mzip (\<lambda>v m. v * m) values mk)"
proof -
  have "(\<lambda>v m. (if m \<noteq> 0 then v else 0) * m) = (\<lambda>v m :: real. v * m)" by (intro ext) simp
  then show ?thesis unfolding masked_sum_def by simp
qed

lemma masked_sum_shift:
  assumes "same_shape values mk"
  shows "masked_sum (mmap (\<lambda>v. c * (v - a)) values) mk = c * (masked_sum values mk - a * msum mk)"
  using assms
proof (induction rule: same_shape_induct)
  case (Cons r A s B)
  have "sum_list (vzip (\<lambda>v m. v * m) (map (\<lambda>v. c * (v - a)) r) s) = c * (sum_list (vzip (\<lambda>v m. v * m) r s) - a * sum_list s)"
    using Cons(1) by (induction r s rule: list_induct2) (simp_all add: algebra_simps)
  with Cons show ?case by (simp add: masked_sum_mult mmap_def algebra_simps)
qed (simp add: masked_sum_def mmap_def)

lemma mask_sum_nonneg: "is_mask mk \<Longrightarrow> 0 \<le> msum mk"
proof (induction mk)
  case (Cons row mk)
  have "\<forall>m \<in> set row. 0 \<le> m" using Cons.prems by (auto simp: is_mask_def)
  then have "0 \<le> sum_list row" by (simp add: sum_list_nonneg)
  with Cons show ?case by (simp add: is_mask_def)
qed simp

lemma masked_var_nonneg:
  assumes "is_mask mk" "same_shape values mk" "masked_var values mk True = Inr var" "1 < msum mk"
  shows "0 \<le> var"
proof -
  let ?sq = "mmap (\<lambda>v. (v - masked_mean values mk) ^ 2) values"
  have "0 \<le> masked_sum ?sq mk"
  proof -
    have "0 \<le> msum (mzip (\<lambda>v m. v * m) (mmap (\<lambda>v. (v - a) ^ 2) values) mk)" for a
      using assms(2,1)
    proof (induction rule: same_shape_induct)
      case (Cons r A s B)
      have "0 \<le> sum_list (vzip (\<lambda>v m. v * m) (map (\<lambda>v. (v - a) ^ 2) r) s)"
        using Cons(1) Cons.prems by (induction r s rule: list_induct2) (auto simp: is_mask_def)
      with Cons show ?case by (simp add: is_mask_def mmap_def)
    qed (simp add: mmap_def)
    then show ?thesis by (simp add: masked_sum_mult)
  qed
  then have "0 \<le> masked_mean ?sq mk" using mask_sum_nonneg [OF assms(1)] by (simp add: masked_mean_def)
  with assms(3,4) show ?thesis by (auto simp: masked_var_def Let_def split: if_splits)
qed

text \<open>Whitening fails exactly on masks with no or one element; otherwise the masked sum of the result is the
  masked mean times the \<open>1e-8\<close> of the denominator, over the deviation.\<close>

lemma masked_whiten_sum:
  assumes "is_mask mk" "same_shape values mk" "masked_whiten values mk True = Inr w"
  shows "\<exists>var. masked_var values mk True = Inr var \<and>
    masked_sum w mk = masked_mean values mk / 10 ^ 8 * (1 / sqrt (var + 1 / 10 ^ 8))"
proof -
  from assms(3) obtain var where var: "masked_var values mk True = Inr var"
    and w: "w = mmap (\<lambda>v. (1 / sqrt (var + 1 / 10 ^ 8)) * (v - masked_mean values mk)) values"
    by (auto simp: masked_whiten_def bind_r_Inr Let_def mult.commute)
  have pos: "0 < msum mk + 1 / 10 ^ 8" using mask_sum_nonneg [OF assms(1)] by (simp add: add_nonneg_pos)
  then have "masked_sum values mk = masked_mean values mk * (msum mk + 1 / 10 ^ 8)" by (simp add: masked_mean_def)
  then have eq: "masked_sum values mk - masked_mean values mk * msum mk = masked_mean values mk / 10 ^ 8"
    by (simp add: algebra_simps)
  have "masked_sum w mk = 1 / sqrt (var + 1 / 10 ^ 8) * (masked_mean values mk / 10 ^ 8)"
    by (simp only: w masked_sum_shift [OF assms(2)] eq)
  with var show ?thesis by (simp add: mult.commute)
qed

end
