(* ===== verification/Advantage.thy ===== *)
theory Advantage
  imports Tensor
begin

text \<open>
  The advantage estimators of \<^verbatim>\<open>verl/trainer/ppo/core_algos.py\<close> and the group statistics of
  \<^verbatim>\<open>verl/utils/groupwise.py\<close>. A batch is a matrix of token-level rewards with a mask of the response
  tokens; outcome estimators sum the rewards of a row and compare rows of the same prompt, whose label
  is in \<open>index\<close>. The results are over reals (see \<open>Tensor\<close>); a division by \<open>std + epsilon = 0\<close>, which
  needs \<open>epsilon = 0\<close> and equal scores, gives 0 here and NaN in torch.
\<close>

section \<open>Groups\<close>

text \<open>\<open>defaultdict(list)\<close> filled in the order of the batch.\<close>

definition append_to :: "'g \<Rightarrow> 'v \<Rightarrow> ('g, 'v list) dict \<Rightarrow> ('g, 'v list) dict" where
  "append_to g v d = dict_set g ((case map_of d g of None \<Rightarrow> [] | Some vs \<Rightarrow> vs) @ [v]) d"

definition group_by :: "'g list \<Rightarrow> 'v list \<Rightarrow> ('g, 'v list) dict" where
  "group_by index vs = fold (\<lambda>(g, v) d. append_to g v d) (zip index vs) []"

definition members :: "'g \<Rightarrow> 'g list \<Rightarrow> 'v list \<Rightarrow> 'v list" where
  "members g index vs = map snd (filter (\<lambda>(h, v). h = g) (zip index vs))"

definition mean :: "vec \<Rightarrow> real" where
  "mean xs = sum_list xs / real (length xs)"

text \<open>\<open>torch.std\<close>, with Bessel's correction, of at least two values.\<close>

definition sq_dev :: "vec \<Rightarrow> real" where
  "sq_dev xs = sum_list (map (\<lambda>x. (x - mean xs) ^ 2) xs)"

definition std :: "vec \<Rightarrow> real" where
  "std xs = sqrt (sq_dev xs / (real (length xs) - 1))"

definition scores_of :: "mat \<Rightarrow> vec" where
  "scores_of R = map sum_list R"

definition scale_rows :: "vec \<Rightarrow> mat \<Rightarrow> mat" where
  "scale_rows scores M = vzip (\<lambda>s row. map (\<lambda>m. s * m) row) scores M"

text \<open>\<open>scores[i] = f(scores[i], table[index[i]])\<close> for every row.\<close>

definition per_row :: "('g, 't) dict \<Rightarrow> ('t \<Rightarrow> real \<Rightarrow> real) \<Rightarrow> 'g list \<Rightarrow> vec \<Rightarrow> vec" where
  "per_row d f index scores = vzip (\<lambda>g s. case map_of d g of None \<Rightarrow> s | Some t \<Rightarrow> f t s) index scores"

section \<open>Generalised advantage estimation\<close>

text \<open>The loop runs from the last token; the result is the advantages, the next value and the last advantage.\<close>

fun gae_row :: "real \<Rightarrow> real \<Rightarrow> (real \<times> real \<times> real) list \<Rightarrow> vec \<times> real \<times> real" where
  "gae_row gamma lam [] = ([], 0, 0)"
| "gae_row gamma lam ((r, v, m) # ts) =
     (let (advantages, nextvalues, lastgaelam) = gae_row gamma lam ts;
          delta = r + gamma * nextvalues - v;
          lastgaelam1 = delta + gamma * lam * lastgaelam;
          nextvalues' = v * m + (1 - m) * nextvalues;
          lastgaelam' = lastgaelam1 * m + (1 - m) * lastgaelam
      in (lastgaelam' # advantages, nextvalues', lastgaelam'))"

definition gae_rows :: "real \<Rightarrow> real \<Rightarrow> mat \<Rightarrow> mat \<Rightarrow> mat \<Rightarrow> mat" where
  "gae_rows gamma lam R V M = map (\<lambda>(r, v, m). fst (gae_row gamma lam (zip r (zip v m)))) (zip R (zip V M))"

definition compute_gae_advantage_return :: "mat \<Rightarrow> mat \<Rightarrow> mat \<Rightarrow> real \<Rightarrow> real \<Rightarrow> (mat \<times> mat) result" where
  "compute_gae_advantage_return R V M gamma lam =
     (let advantages = gae_rows gamma lam R V M;
          returns = mzip (+) advantages V
      in bind_r (masked_whiten advantages M True) (\<lambda>w. Inr (w, returns)))"

section \<open>Outcome estimators\<close>

definition grpo_stats :: "vec \<Rightarrow> real \<times> real" where
  "grpo_stats xs = (if length xs = 1 then (0, 1) else (mean xs, std xs))"

definition compute_grpo_outcome_advantage :: "mat \<Rightarrow> mat \<Rightarrow> 'g list \<Rightarrow> real \<Rightarrow> bool \<Rightarrow> mat result" where
  "compute_grpo_outcome_advantage R M index epsilon by_std =
     require (length R \<le> length index) IndexError
       (let scores = scores_of R;
            stats = map (\<lambda>(g, xs). (g, grpo_stats xs)) (group_by index scores)
        in Inr (scale_rows (per_row stats (\<lambda>(mu, sd) s. if by_std then (s - mu) / (sd + epsilon) else s - mu)
             index scores) M))"

text \<open>\<open>group_mean_std\<close>: group numbers from 0, a floor for the variance, singletons set to mean 0 and deviation 1.\<close>

definition group_mean_std :: "vec \<Rightarrow> nat list \<Rightarrow> real \<Rightarrow> (vec \<times> vec \<times> vec) result" where
  "group_mean_std scores gidx eps =
     require (length scores = length gidx) ValueError
       (let G = (if gidx = [] then 0 else Max (set gidx) + 1);
            count = map (\<lambda>g. real (length (members g gidx scores))) [0..<G];
            s1 = map (\<lambda>g. sum_list (members g gidx scores)) [0..<G];
            s2 = map (\<lambda>g. sum_list (map (\<lambda>x. x * x) (members g gidx scores))) [0..<G];
            mu = vzip (\<lambda>s c. s / max c 1) s1 count;
            var_num = vzip (\<lambda>q (s, c). q - s * s / max c 1) s2 (zip s1 count);
            var = vzip (\<lambda>v c. v / max (c - 1) 1) var_num count;
            sd = map (\<lambda>v. sqrt (max v eps)) var
        in Inr (vzip (\<lambda>m c. if c \<le> 1 then 0 else m) mu count, vzip (\<lambda>s c. if c \<le> 1 then 1 else s) sd count, count))"

text \<open>The labels of the vectorised version are group numbers already (\<open>as_torch_index\<close>).\<close>

definition compute_grpo_vectorized_outcome_advantage :: "mat \<Rightarrow> mat \<Rightarrow> nat list \<Rightarrow> real \<Rightarrow> bool \<Rightarrow> mat result" where
  "compute_grpo_vectorized_outcome_advantage R M g epsilon by_std =
     (let scores = scores_of R in
      bind_r (group_mean_std scores g epsilon) (\<lambda>(mean_g, std_g, _).
        Inr (scale_rows (vzip (\<lambda>i s. if by_std then (s - mean_g ! i) / (std_g ! i + epsilon) else s - mean_g ! i)
          g scores) M)))"

text \<open>Several reward dimensions, each normalised on its own, weighted, summed and whitened over the batch.\<close>

fun weighted_sum :: "vec \<Rightarrow> mat list \<Rightarrow> mat option \<Rightarrow> mat option result" where
  "weighted_sum ws [] acc = Inr acc"
| "weighted_sum [] (A # As) acc = Inl IndexError"
| "weighted_sum (w # ws) (A # As) acc = weighted_sum ws As
     (Some (case acc of None \<Rightarrow> mmap (\<lambda>a. w * a) A | Some B \<Rightarrow> mzip (\<lambda>b a. b + w * a) B A))"

text \<open>The reward of a dimension sits on the last valid response token; with no valid token, on the last position.\<close>

definition place_score :: "vec \<Rightarrow> real \<Rightarrow> nat \<Rightarrow> vec result" where
  "place_score attention s width =
     (let i = int (nat \<lfloor>sum_list attention\<rfloor>) - 1;
          j = (if i < 0 then i + int width else i)
      in require (0 \<le> j \<and> j < int width) IndexError (Inr ((replicate width 0)[nat j := s])))"

text \<open>What the estimator reads of the configuration and the batch: the keys and weights of the dimensions, the
  scores of every dimension, and the attention mask from the end of the prompt.\<close>

record gdpo_input =
  gi_reward_keys :: "string list"
  gi_reward_weights :: "vec option"
  gi_non_tensor :: "(string, vec) dict"
  gi_response_attention :: mat

definition gdpo_score_list :: "gdpo_input \<Rightarrow> mat \<Rightarrow> mat list result" where
  "gdpo_score_list c M =
     require (gi_reward_keys c \<noteq> []) AssertionError
       (map_r (\<lambda>key. case map_of (gi_non_tensor c) key of
            None \<Rightarrow> Inl AssertionError
          | Some scores \<Rightarrow> map_r (\<lambda>(att, s, row). place_score att s (length row)) (zip (gi_response_attention c) (zip scores M)))
        (gi_reward_keys c))"

definition compute_gdpo_outcome_advantage :: "mat \<Rightarrow> mat \<Rightarrow> 'g list \<Rightarrow> real \<Rightarrow> bool \<Rightarrow> gdpo_input option \<Rightarrow> mat result" where
  "compute_gdpo_outcome_advantage R M index epsilon by_std config =
     bind_r (case config of None \<Rightarrow> Inr [R] | Some c \<Rightarrow> gdpo_score_list c M) (\<lambda>score_list.
       let weights = (case Option.bind config gi_reward_weights of None \<Rightarrow> replicate (length score_list) 1 | Some ws \<Rightarrow> ws) in
       bind_r (map_r (\<lambda>A. compute_grpo_outcome_advantage A M index epsilon by_std) score_list) (\<lambda>As.
       bind_r (weighted_sum weights As None) (\<lambda>acc. case acc of
           None \<Rightarrow> Inl TypeError
         | Some A \<Rightarrow> bind_r (masked_whiten A M True) (\<lambda>w. Inr (mzip (\<lambda>x m. x * m) w M)))))"

text \<open>Pass@k: only the best row of a group gets an advantage. \<open>argmax\<close> is the index \<open>torch.topk\<close> gives first.\<close>

definition second_max :: "nat \<Rightarrow> vec \<Rightarrow> real" where
  "second_max i xs = Max (set (take i xs @ drop (Suc i) xs))"

definition passk_group :: "(vec \<Rightarrow> nat) \<Rightarrow> real \<Rightarrow> bool \<Rightarrow> vec \<Rightarrow> (nat \<times> real) result" where
  "passk_group argmax epsilon by_std rewards =
     require (2 \<le> length rewards) ValueError
       (let i = argmax rewards; a = rewards ! i - second_max i rewards
        in Inr (i, if by_std then a / (std rewards + epsilon) else a))"

definition compute_grpo_passk_outcome_advantage :: "(vec \<Rightarrow> nat) \<Rightarrow> mat \<Rightarrow> mat \<Rightarrow> 'g list \<Rightarrow> real \<Rightarrow> bool \<Rightarrow> mat result" where
  "compute_grpo_passk_outcome_advantage argmax R M index epsilon by_std =
     require (length R \<le> length index) IndexError
       (let scores = scores_of R; rows = [0..<length R] in
        bind_r (map_r (\<lambda>((g, xs), (_, is)). bind_r (passk_group argmax epsilon by_std xs) (\<lambda>(i, a). Inr (is ! i, a)))
            (zip (group_by index scores) (group_by index rows)))
          (\<lambda>best. Inr (scale_rows (fold (\<lambda>(i, a) v. v[i := a]) best (replicate (length R) 0)) M)))"

definition baseline_mean :: "vec \<Rightarrow> real" where
  "baseline_mean xs = (if length xs = 1 then 0 else mean xs)"

definition compute_reinforce_plus_plus_baseline_outcome_advantage :: "mat \<Rightarrow> mat \<Rightarrow> 'g list \<Rightarrow> mat result" where
  "compute_reinforce_plus_plus_baseline_outcome_advantage R M index =
     require (length R \<le> length index) IndexError
       (let scores = scores_of R;
            means = map (\<lambda>(g, xs). (g, baseline_mean xs)) (group_by index scores);
            A = scale_rows (per_row means (\<lambda>mu s. s - mu) index scores) M
        in bind_r (masked_whiten A M True) (\<lambda>w. Inr (mzip (\<lambda>x m. x * m) w M)))"

definition compute_rloo_outcome_advantage :: "mat \<Rightarrow> mat \<Rightarrow> 'g list \<Rightarrow> mat result" where
  "compute_rloo_outcome_advantage R M index =
     require (length R \<le> length index) IndexError
       (let scores = scores_of R;
            table = map (\<lambda>(g, xs). (g, real (length xs), baseline_mean xs)) (group_by index scores)
        in Inr (scale_rows (per_row table (\<lambda>(n, mu) s. if 1 < n then s * n / (n - 1) - mu * n / (n - 1) else s)
             index scores) M))"

text \<open>\<open>np.unique\<close> with the inverse, and \<open>torch.bincount\<close> with weights.\<close>

fun position :: "'a \<Rightarrow> 'a list \<Rightarrow> nat" where
  "position x [] = 0"
| "position x (y # ys) = (if x = y then 0 else Suc (position x ys))"

definition unique_inverse :: "'g::linorder list \<Rightarrow> nat list" where
  "unique_inverse index = (let u = sort (remdups index) in map (\<lambda>g. position g u) index)"

definition bincount :: "nat list \<Rightarrow> vec \<Rightarrow> vec" where
  "bincount inverse_ix ws = map (\<lambda>k. sum_list (members k inverse_ix ws)) [0..<(if inverse_ix = [] then 0 else Max (set inverse_ix) + 1)]"

definition compute_rloo_vectorized_outcome_advantage :: "mat \<Rightarrow> mat \<Rightarrow> 'g::linorder list \<Rightarrow> mat" where
  "compute_rloo_vectorized_outcome_advantage R M index =
     (let scores = scores_of R;
          inverse_ix = unique_inverse index;
          c = map (\<lambda>k. bincount inverse_ix (replicate (length inverse_ix) 1) ! k) inverse_ix;
          t = map (\<lambda>k. bincount inverse_ix scores ! k) inverse_ix;
          adv = vzip (\<lambda>s (n, sm). (n * s - sm) / max (n - 1) 1 * (if 1 < n then 1 else 0)) scores (zip c t)
      in scale_rows adv M)"

definition opo_baseline :: "vec \<Rightarrow> vec \<Rightarrow> real option" where
  "opo_baseline lens xs = (if length xs = 1 then Some 0 else div_fin (sum_list (vzip (*) lens xs)) (sum_list lens))"

text \<open>A group without response tokens gives a NaN baseline, here None.\<close>

definition compute_opo_outcome_advantage :: "mat \<Rightarrow> mat \<Rightarrow> 'g list \<Rightarrow> mat option result" where
  "compute_opo_outcome_advantage R M index =
     require (length R \<le> length index) IndexError
       (let scores = scores_of R; lens = map sum_list M;
            table = map (\<lambda>((g, xs), (_, ls)). (g, opo_baseline ls xs)) (zip (group_by index scores) (group_by index lens))
        in Inr (if \<exists>(g, b) \<in> set table. b = None then None
                else Some (scale_rows (per_row table (\<lambda>b s. s - the b) index scores) M)))"

definition compute_gpg_outcome_advantage :: "mat \<Rightarrow> mat \<Rightarrow> 'g list \<Rightarrow> real \<Rightarrow> mat result" where
  "compute_gpg_outcome_advantage R M index f_norm =
     require (length R \<le> length index) IndexError
       (let scores = scores_of R;
            m = real (length (filter (\<lambda>s. s \<noteq> 0) scores));
            alpha = real (length scores) / max m 1;
            means = map (\<lambda>(g, xs). (g, baseline_mean xs)) (group_by index scores)
        in Inr (scale_rows (per_row means (\<lambda>mu s. alpha * (s - mu) / f_norm) index scores) M))"

section \<open>Token-level estimators\<close>

text \<open>REINFORCE++: the running return is reset after a token outside the mask.\<close>

fun rfpp_row :: "real \<Rightarrow> (real \<times> real) list \<Rightarrow> vec \<times> real" where
  "rfpp_row gamma [] = ([], 0)"
| "rfpp_row gamma ((r, m) # ts) =
     (let (returns, running_return) = rfpp_row gamma ts;
          running_return' = r + gamma * running_return
      in (running_return' # returns, running_return' * m))"

definition compute_reinforce_plus_plus_outcome_advantage :: "mat \<Rightarrow> mat \<Rightarrow> real \<Rightarrow> (mat \<times> mat) result" where
  "compute_reinforce_plus_plus_outcome_advantage R M gamma =
     (let returns = vzip (\<lambda>r m. fst (rfpp_row gamma (zip r m))) R M in
      bind_r (masked_whiten returns M True) (\<lambda>w. Inr (mzip (\<lambda>x m. x * m) w M, returns)))"

fun rev_cumsum :: "vec \<Rightarrow> vec" where
  "rev_cumsum [] = []"
| "rev_cumsum (x # xs) = sum_list (x # xs) # rev_cumsum xs"

definition rewards_to_go :: "mat \<Rightarrow> mat \<Rightarrow> mat" where
  "rewards_to_go R M = map rev_cumsum (mzip (\<lambda>r m. r * m) R M)"

definition compute_remax_outcome_advantage :: "mat \<Rightarrow> vec \<Rightarrow> mat \<Rightarrow> mat \<times> mat" where
  "compute_remax_outcome_advantage R baselines M =
     (let returns = rewards_to_go R M
      in (mzip (\<lambda>g b. g - b) returns (scale_rows baselines M), returns))"

definition compute_rewards :: "mat \<Rightarrow> mat \<Rightarrow> mat \<Rightarrow> real \<Rightarrow> mat" where
  "compute_rewards scores old_log_prob ref_log_prob kl_ratio =
     mzip (\<lambda>s k. s - k * kl_ratio) scores (mzip (\<lambda>p q. p - q) old_log_prob ref_log_prob)"


section \<open>Facts on groups\<close>

lemma members_simps [simp]:
  "members g [] vs = []" "members g index [] = []"
  "members g (h # index) (v # vs) = (if h = g then v # members g index vs else members g index vs)"
  by (cases index; simp add: members_def)+

lemma members_vzip: "length index = length xs \<Longrightarrow> members g index (vzip f index xs) = map (f g) (members g index xs)"
  by (induction index xs rule: list_induct2) auto

lemma members_append: "length index = length xs \<Longrightarrow>
    members g (index @ index') (xs @ xs') = members g index xs @ members g index' xs'"
  by (induction index xs rule: list_induct2) auto

lemma length_members: "length index = length xs \<Longrightarrow> length ys = length index \<Longrightarrow>
    length (members g index xs) = length (members g index ys)"
proof (induction index xs arbitrary: ys rule: list_induct2)
  case (Cons h index x xs)
  then show ?case by (cases ys) auto
qed simp

lemma group_by_snoc: "length index = length vs \<Longrightarrow> group_by (index @ [g]) (vs @ [v]) = append_to g v (group_by index vs)"
  by (simp add: group_by_def)

lemma map_of_group_by: "length index = length vs \<Longrightarrow>
    map_of (group_by index vs) g = (if members g index vs = [] then None else Some (members g index vs))"
proof (induction index arbitrary: vs rule: rev_induct)
  case (snoc h index)
  then obtain w v where vs: "vs = w @ [v]" "length index = length w" by (cases vs rule: rev_cases) auto
  with snoc.IH [of w] show ?case by (auto simp: group_by_snoc append_to_def members_append split: if_splits)
qed (simp add: group_by_def)

lemma distinct_group_by: "distinct (dict_keys (group_by index vs))"
proof -
  have "distinct (dict_keys d) \<Longrightarrow> distinct (dict_keys (fold (\<lambda>(g, v) d. append_to g v d) ps d))" for ps d
    by (induction ps arbitrary: d) (auto simp: append_to_def)
  from this [of "[]"] show ?thesis by (simp add: group_by_def dict_keys_def [of "[]"])
qed

lemma map_of_map_snd: "map_of (map (\<lambda>(g, xs). (g, f xs)) d) g = map_option f (map_of d g)"
  by (induction d) auto

text \<open>The values that \<open>per_row\<close> gives the rows of a group.\<close>

lemma members_per_row:
  assumes "length index = length xs" "members g index xs \<noteq> []"
  shows "members g index (per_row (map (\<lambda>(g, ys). (g, st ys)) (group_by index xs)) f index xs) =
    map (f (st (members g index xs))) (members g index xs)"
  using assms unfolding per_row_def members_vzip [OF assms(1)]
  by (simp add: map_of_map_snd map_of_group_by)

lemma length_per_row [simp]: "length (per_row d f index xs) = min (length index) (length xs)"
  by (simp add: per_row_def)

lemma sum_centered: "xs \<noteq> [] \<Longrightarrow> sum_list (map (\<lambda>x. c * (x - mean xs)) xs) = 0"
proof -
  assume "xs \<noteq> []"
  have "sum_list (map (\<lambda>x. c * (x - a)) xs) = c * (sum_list xs - real (length xs) * a)" for a
    by (induction xs) (simp_all add: algebra_simps)
  then show ?thesis using \<open>xs \<noteq> []\<close> by (simp add: mean_def)
qed

section \<open>Properties of the outcome estimators\<close>

text \<open>C16 GRPO scales every response mask by one number per row: in a group of at least two rows these numbers sum to
  zero, whether or not they are normalised, and the row of a group of one keeps its score (up to epsilon).\<close>

theorem grpo_group_relative:
  assumes len: "length index = length R"
  shows "\<exists>a. compute_grpo_outcome_advantage R M index epsilon by_std = Inr (scale_rows a M) \<and> length a = length R \<and>
    (\<forall>g. 2 \<le> length (members g index R) \<longrightarrow> sum_list (members g index a) = 0) \<and>
    (\<forall>g s. members g index (scores_of R) = [s] \<longrightarrow> members g index a = [if by_std then s / (1 + epsilon) else s])"
proof -
  let ?s = "scores_of R"
  let ?f = "\<lambda>(mu, sd) s. if by_std then (s - mu) / (sd + epsilon) else s - mu"
  let ?a = "per_row (map (\<lambda>(g, xs). (g, grpo_stats xs)) (group_by index ?s)) ?f index ?s"
  have ls: "length index = length ?s" using len by (simp add: scores_of_def)
  have row: "members g index ?a = map (?f (grpo_stats (members g index ?s))) (members g index ?s)"
    if "members g index ?s \<noteq> []" for g
    by (rule members_per_row [OF ls that])
  have "sum_list (members g index ?a) = 0" if g: "2 \<le> length (members g index R)" for g
  proof -
    let ?xs = "members g index ?s"
    have l: "2 \<le> length ?xs" using g length_members [OF ls, of R g] len by simp
    then have ne: "?xs \<noteq> []" by auto
    have st: "grpo_stats ?xs = (mean ?xs, std ?xs)" using l by (simp add: grpo_stats_def)
    have "members g index ?a = map (\<lambda>x. (if by_std then 1 / (std ?xs + epsilon) else 1) * (x - mean ?xs)) ?xs"
      unfolding row [OF ne] st by (cases by_std) simp_all
    then show ?thesis by (simp only: sum_centered [OF ne])
  qed
  moreover have "members g index ?a = [if by_std then s / (1 + epsilon) else s]" if "members g index ?s = [s]" for g s
    using row [of g] that by (simp add: grpo_stats_def)
  moreover have "compute_grpo_outcome_advantage R M index epsilon by_std = Inr (scale_rows ?a M)"
    using len by (simp add: compute_grpo_outcome_advantage_def Let_def)
  ultimately show ?thesis using len by (intro exI [of _ ?a]) (simp add: scores_of_def)
qed

text \<open>RLOO gives every row of a group of at least two its score minus the mean score of the other rows of the group.\<close>

theorem rloo_leave_one_out:
  assumes len: "length index = length R" and g: "2 \<le> length (members g index R)"
  shows "\<exists>a. compute_rloo_outcome_advantage R M index = Inr (scale_rows a M) \<and> length a = length R \<and>
    members g index a = map (\<lambda>s. s - (sum_list (members g index (scores_of R)) - s) /
      (real (length (members g index (scores_of R))) - 1)) (members g index (scores_of R))"
proof -
  let ?s = "scores_of R"
  let ?f = "\<lambda>(n, mu) s. if 1 < n then s * n / (n - 1) - mu * n / (n - 1) else s"
  let ?a = "per_row (map (\<lambda>(g, xs). (g, real (length xs), baseline_mean xs)) (group_by index ?s)) ?f index ?s"
  have ls: "length index = length ?s" using len by (simp add: scores_of_def)
  let ?xs = "members g index ?s"
  have l: "2 \<le> length ?xs" using g length_members [OF ls, of R g] len by simp
  then have ne: "?xs \<noteq> []" by auto
  have n: "1 < real (length ?xs)" using l by simp
  have "?f (real (length ?xs), baseline_mean ?xs) s = s - (sum_list ?xs - s) / (real (length ?xs) - 1)" for s
  proof -
    have "baseline_mean ?xs * real (length ?xs) = sum_list ?xs" using l n by (simp add: baseline_mean_def mean_def)
    then have "?f (real (length ?xs), baseline_mean ?xs) s = (s * real (length ?xs) - sum_list ?xs) / (real (length ?xs) - 1)"
      using n by (simp add: diff_divide_distrib)
    also have "s * real (length ?xs) - sum_list ?xs = s * (real (length ?xs) - 1) - (sum_list ?xs - s)"
      by (simp add: algebra_simps)
    finally show ?thesis using n by (simp add: diff_divide_distrib)
  qed
  then have "members g index ?a = map (\<lambda>s. s - (sum_list ?xs - s) / (real (length ?xs) - 1)) ?xs"
    unfolding members_per_row [OF ls ne, where st = "\<lambda>xs. (real (length xs), baseline_mean xs)"] by simp
  moreover have "compute_rloo_outcome_advantage R M index = Inr (scale_rows ?a M)"
    using len by (simp add: compute_rloo_outcome_advantage_def Let_def)
  ultimately show ?thesis using len by (intro exI [of _ ?a]) (simp add: scores_of_def)
qed


section \<open>Generalised advantage estimation\<close>

text \<open>The advantage as the discounted sum of temporal differences, over the tokens that are kept.\<close>

definition td_error :: "real \<Rightarrow> vec \<Rightarrow> vec \<Rightarrow> nat \<Rightarrow> real" where
  "td_error gamma rs vs t = rs ! t + gamma * (if t + 1 < length vs then vs ! (t + 1) else 0) - vs ! t"

definition gae_sum :: "real \<Rightarrow> real \<Rightarrow> vec \<Rightarrow> vec \<Rightarrow> vec" where
  "gae_sum gamma lam rs vs =
     map (\<lambda>t. \<Sum>l<length rs - t. (gamma * lam) ^ l * td_error gamma rs vs (t + l)) [0..<length rs]"

definition kept :: "'a list \<Rightarrow> vec \<Rightarrow> 'a list" where
  "kept xs m = map fst (filter (\<lambda>(x, b). b \<noteq> 0) (zip xs m))"

lemma kept_simps [simp]: "kept [] m = []" "kept xs [] = []" "kept (x # xs) (b # m) = (if b \<noteq> 0 then x # kept xs m else kept xs m)"
  by (cases xs; simp add: kept_def)+

lemma length_kept: "length xs = length m \<Longrightarrow> length ys = length m \<Longrightarrow> length (kept xs m) = length (kept ys m)"
proof (induction xs m arbitrary: ys rule: list_induct2)
  case (Cons x xs b m)
  then show ?case by (cases ys) auto
qed simp

lemma kept_vzip: "length xs = length m \<Longrightarrow> length ys = length m \<Longrightarrow> kept (vzip f xs ys) m = vzip f (kept xs m) (kept ys m)"
proof (induction xs m arbitrary: ys rule: list_induct2)
  case (Cons x xs b m)
  then show ?case by (cases ys) auto
qed simp

lemma length_gae_row [simp]: "length (fst (gae_row gamma lam ts)) = length ts"
  by (induction gamma lam ts rule: gae_row.induct) (auto simp: Let_def split: prod.splits)

text \<open>Tokens outside the mask change nothing.\<close>

lemma gae_row_kept:
  assumes "length r = length m" "length v = length m" "\<forall>b \<in> set m. b = 0 \<or> b = 1"
  shows "kept (fst (gae_row gamma lam (zip r (zip v m)))) m = fst (gae_row gamma lam (zip (kept r m) (zip (kept v m) (replicate (length (kept r m)) 1))))
    \<and> snd (gae_row gamma lam (zip r (zip v m))) = snd (gae_row gamma lam (zip (kept r m) (zip (kept v m) (replicate (length (kept r m)) 1))))"
  using assms
proof (induction r m arbitrary: v rule: list_induct2)
  case (Cons x r b m)
  then obtain y v' where v: "v = y # v'" "length v' = length m" by (cases v) auto
  from Cons.IH [OF v(2)] Cons.prems(2) show ?case
    by (auto simp: v(1) Let_def split: prod.splits)
qed simp

lemma gae_sum_Cons:
  assumes "length rs = length vs"
  shows "gae_sum gamma lam (r # rs) (v # vs) =
    (r + gamma * (case vs of [] \<Rightarrow> 0 | w # _ \<Rightarrow> w) - v +
      gamma * lam * (case gae_sum gamma lam rs vs of [] \<Rightarrow> 0 | a # _ \<Rightarrow> a)) # gae_sum gamma lam rs vs"
proof -
  let ?q = "gamma * lam" and ?n = "length rs"
  have shift: "td_error gamma (r # rs) (v # vs) (Suc t) = td_error gamma rs vs t" for t
    by (simp add: td_error_def)
  have head: "td_error gamma (r # rs) (v # vs) 0 = r + gamma * (case vs of [] \<Rightarrow> 0 | w # _ \<Rightarrow> w) - v"
    by (cases vs) (simp_all add: td_error_def)
  have tail: "map (\<lambda>t. \<Sum>l<Suc ?n - t. ?q ^ l * td_error gamma (r # rs) (v # vs) (t + l)) [1..<Suc ?n] = gae_sum gamma lam rs vs"
    unfolding gae_sum_def One_nat_def map_Suc_upt [symmetric] map_map by (simp add: comp_def shift)
  have "(\<Sum>l<Suc ?n. ?q ^ l * td_error gamma (r # rs) (v # vs) l) =
      td_error gamma (r # rs) (v # vs) 0 + (\<Sum>l<?n. ?q ^ Suc l * td_error gamma rs vs l)"
    by (subst sum.lessThan_Suc_shift) (simp add: shift)
  also have "(\<Sum>l<?n. ?q ^ Suc l * td_error gamma rs vs l) = ?q * (\<Sum>l<?n. ?q ^ l * td_error gamma rs vs l)"
    by (simp add: sum_distrib_left mult.assoc)
  also have "(\<Sum>l<?n. ?q ^ l * td_error gamma rs vs l) = (case gae_sum gamma lam rs vs of [] \<Rightarrow> 0 | a # _ \<Rightarrow> a)"
    by (cases rs) (simp_all add: gae_sum_def upt_conv_Cons del: upt_Suc)
  finally have first: "(\<Sum>l<Suc ?n. ?q ^ l * td_error gamma (r # rs) (v # vs) l) =
      r + gamma * (case vs of [] \<Rightarrow> 0 | w # _ \<Rightarrow> w) - v + ?q * (case gae_sum gamma lam rs vs of [] \<Rightarrow> 0 | a # _ \<Rightarrow> a)"
    using head by simp
  have "gae_sum gamma lam (r # rs) (v # vs) = (\<Sum>l<Suc ?n. ?q ^ l * td_error gamma (r # rs) (v # vs) l) #
      map (\<lambda>t. \<Sum>l<Suc ?n - t. ?q ^ l * td_error gamma (r # rs) (v # vs) (t + l)) [1..<Suc ?n]"
    unfolding gae_sum_def list.size by (subst upt_conv_Cons) simp_all
  then show ?thesis by (simp only: first tail)
qed

lemma gae_row_sum:
  "length rs = length vs \<Longrightarrow>
    gae_row gamma lam (zip rs (zip vs (replicate (length rs) 1))) =
      (gae_sum gamma lam rs vs, (case vs of [] \<Rightarrow> 0 | w # _ \<Rightarrow> w), (case gae_sum gamma lam rs vs of [] \<Rightarrow> 0 | a # _ \<Rightarrow> a))"
proof (induction rs vs rule: list_induct2)
  case (Cons r rs v vs)
  then show ?case using gae_sum_Cons [OF Cons(1), of gamma lam r v] by (simp add: Let_def)
qed (simp add: gae_sum_def)

text \<open>C15 On the response tokens of a row, the returns of generalised advantage estimation are the values plus the
  discounted sums of the temporal differences of the row with every other token cut out: observation
  tokens, their values and their rewards do not count.\<close>

theorem gae_of_kept_tokens:
  assumes res: "compute_gae_advantage_return R V M gamma lam = Inr (A, returns)"
    and shape: "same_shape R M" "same_shape V M" "is_mask M" and i: "i < length R"
  shows "kept (returns ! i) (M ! i) =
    vzip (+) (gae_sum gamma lam (kept (R ! i) (M ! i)) (kept (V ! i) (M ! i))) (kept (V ! i) (M ! i))"
proof -
  let ?r = "R ! i" and ?v = "V ! i" and ?m = "M ! i"
  have len: "length R = length M" "length V = length M" using shape(1,2) by (simp_all add: same_shape_length)
  have rows: "length ?r = length ?m" "length ?v = length ?m"
    using shape(1,2) i len by (simp_all add: same_shape_def list_all2_conv_all_nth)
  have m: "\<forall>b \<in> set ?m. b = 0 \<or> b = 1" using shape(3) nth_mem [of i M] i len unfolding is_mask_def by fastforce
  let ?adv = "fst (gae_row gamma lam (zip ?r (zip ?v ?m)))"
  have "returns ! i = vzip (+) ?adv ?v"
    using res i len by (auto simp: compute_gae_advantage_return_def bind_r_Inr Let_def mzip_def gae_rows_def)
  moreover have "kept (vzip (+) ?adv ?v) ?m = vzip (+) (kept ?adv ?m) (kept ?v ?m)"
    using rows by (intro kept_vzip) simp_all
  moreover have "kept ?adv ?m = gae_sum gamma lam (kept ?r ?m) (kept ?v ?m)"
    using gae_row_kept [OF rows m, of gamma lam] gae_row_sum [OF length_kept [OF rows], of gamma lam] by simp
  ultimately show ?thesis by simp
qed

text \<open>With \<open>lam = 1\<close> the values cancel.\<close>

fun discounted :: "real \<Rightarrow> vec \<Rightarrow> vec" where
  "discounted gamma [] = []"
| "discounted gamma (r # rs) = (r + gamma * (case discounted gamma rs of [] \<Rightarrow> 0 | g # _ \<Rightarrow> g)) # discounted gamma rs"

lemma gae_sum_lam_1:
  "length rs = length vs \<Longrightarrow> vzip (+) (gae_sum gamma 1 rs vs) vs = discounted gamma rs"
proof (induction rs vs rule: list_induct2)
  case (Cons r rs v vs)
  show ?case
  proof (cases rs)
    case Nil
    with Cons show ?thesis by (simp add: gae_sum_def td_error_def)
  next
    case (Cons s ss)
    with \<open>length rs = length vs\<close> obtain w ws where vs: "vs = w # ws" by (cases vs) auto
    have lss: "length ss = length ws" using \<open>length rs = length vs\<close> Cons vs by simp
    obtain a as where g: "gae_sum gamma 1 rs vs = a # as" using gae_sum_Cons [OF lss, of gamma 1 s w] Cons vs by auto
    have "discounted gamma rs = (a + w) # vzip (+) as ws" using Cons.IH g vs by simp
    then show ?thesis using g vs gae_sum_Cons [OF \<open>length rs = length vs\<close>, of gamma 1 r v] Cons.IH
      by (simp add: algebra_simps)
  qed
qed (simp add: gae_sum_def)

text \<open>With \<open>lam = 1\<close> the returns on the response tokens are the discounted rewards to go, whatever the values.\<close>

theorem gae_lam_1_returns:
  assumes "compute_gae_advantage_return R V M gamma 1 = Inr (A, returns)"
    and "same_shape R M" "same_shape V M" "is_mask M" "i < length R"
  shows "kept (returns ! i) (M ! i) = discounted gamma (kept (R ! i) (M ! i))"
proof -
  have "length (R ! i) = length (M ! i)" "length (V ! i) = length (M ! i)"
    using assms(2-5) same_shape_length [OF assms(2)] by (simp_all add: same_shape_def list_all2_conv_all_nth)
  note len = length_kept [OF this]
  show ?thesis unfolding gae_of_kept_tokens [OF assms] by (rule gae_sum_lam_1 [OF len])
qed


section \<open>REINFORCE++, ReMax\<close>

text \<open>In REINFORCE++ a token outside the mask cuts the returns: the tokens before it get the returns they would have
  if the row ended there, so a reward at the end of a later turn does not reach an earlier turn.\<close>

theorem rfpp_cut_at_masked_token:
  assumes res: "compute_reinforce_plus_plus_outcome_advantage [r1 @ x # r2] [m1 @ 0 # m2] gamma = Inr (A, returns)"
    and len: "length r1 = length m1"
  shows "\<exists>tail. returns = [fst (rfpp_row gamma (zip r1 m1)) @ tail]"
proof -
  have step: "fst (rfpp_row gamma (ps @ qs)) = fst (rfpp_row gamma ps) @ fst (rfpp_row gamma qs)
      \<and> (ps \<noteq> [] \<longrightarrow> snd (rfpp_row gamma (ps @ qs)) = snd (rfpp_row gamma ps))" if "snd (rfpp_row gamma qs) = 0" for ps qs
    using that
  proof (induction ps)
    case (Cons p ps)
    obtain r m where p: "p = (r, m)" by (cases p)
    show ?case using Cons by (cases "ps = []") (auto simp: p Let_def split: prod.splits)
  qed simp
  have "snd (rfpp_row gamma (zip (x # r2) (0 # m2))) = 0" by (simp add: Let_def split: prod.splits)
  note s = step [OF this, of "zip r1 m1"]
  have "returns = [fst (rfpp_row gamma (zip (r1 @ x # r2) (m1 @ 0 # m2)))]"
    using res by (auto simp: compute_reinforce_plus_plus_outcome_advantage_def Let_def bind_r_Inr)
  then show ?thesis using s len by simp
qed

lemma rev_cumsum_nth: "t < length xs \<Longrightarrow> rev_cumsum xs ! t = sum_list (drop t xs)"
proof (induction xs arbitrary: t)
  case (Cons x xs)
  then show ?case by (cases t) simp_all
qed simp

lemma length_rev_cumsum [simp]: "length (rev_cumsum xs) = length xs"
  by (induction xs) simp_all

section \<open>OPO\<close>

lemma zip_group_by: "length index = length xs \<Longrightarrow> length index = length ys \<Longrightarrow>
    map fst (group_by index xs) = map fst (group_by index ys)"
proof (induction index arbitrary: xs ys rule: rev_induct)
  case (snoc g index)
  then obtain xs' x ys' y where "xs = xs' @ [x]" "ys = ys' @ [y]" "length index = length xs'" "length index = length ys'"
    by (cases xs rule: rev_cases; cases ys rule: rev_cases) auto
  moreover from this snoc.IH have "dict_keys (group_by index xs') = dict_keys (group_by index ys')" by (simp add: dict_keys_def)
  ultimately show ?case by (simp add: group_by_snoc append_to_def keys_dict_set flip: dict_keys_def)
qed (simp add: group_by_def)

lemma map_of_zip_dicts:
  "map fst d = map fst e \<Longrightarrow> map_of (map (\<lambda>((g, xs), (_, ls)). (g, f ls xs)) (zip d e)) g =
    (case map_of d g of None \<Rightarrow> None | Some xs \<Rightarrow> map_option (\<lambda>ls. f ls xs) (map_of e g))"
proof (induction d arbitrary: e)
  case (Cons p d)
  then obtain q e' where "e = q # e'" "fst p = fst q" "map fst d = map fst e'" by (cases e) auto
  with Cons.IH [of e'] show ?case by (cases p; cases q) (auto split: option.split)
qed simp

text \<open>OPO: in a group of at least two rows the advantages, weighted by the lengths of the responses, sum to zero.\<close>

theorem opo_length_weighted:
  assumes len: "length index = length R" "length M = length R" and g: "2 \<le> length (members g index R)"
    and res: "compute_opo_outcome_advantage R M index = Inr (Some A)"
  shows "\<exists>a. A = scale_rows a M \<and> length a = length R \<and>
    sum_list (vzip (\<lambda>l x. l * x) (members g index (map sum_list M)) (members g index a)) = 0"
proof -
  let ?s = "scores_of R" and ?l = "map sum_list M"
  let ?table = "map (\<lambda>((g, xs), (_, ls)). (g, opo_baseline ls xs)) (zip (group_by index ?s) (group_by index ?l))"
  let ?a = "per_row ?table (\<lambda>b s. s - the b) index ?s"
  have ls: "length index = length ?s" "length index = length ?l" using len by (simp_all add: scores_of_def)
  let ?xs = "members g index ?s" and ?ls = "members g index ?l"
  have n: "2 \<le> length ?xs" "length ?xs = length ?ls"
    using g length_members [OF ls(1), of R g] length_members [OF ls(1), of ?l g] len by simp_all
  then have ne: "?xs \<noteq> []" "?ls \<noteq> []" by auto
  have tab: "map_of ?table g = Some (opo_baseline ?ls ?xs)"
    using ne by (simp add: map_of_zip_dicts [OF zip_group_by [OF ls]] map_of_group_by [OF ls(1)] map_of_group_by [OF ls(2)])
  have A: "A = scale_rows ?a M" and fin: "\<not> (\<exists>(g, b) \<in> set ?table. b = None)"
    using res len by (auto simp: compute_opo_outcome_advantage_def Let_def require_Inr split: if_splits)
  have "(g, opo_baseline ?ls ?xs) \<in> set ?table" by (rule map_of_SomeD [OF tab])
  with fin have "opo_baseline ?ls ?xs \<noteq> None" by blast
  then have b: "sum_list ?ls \<noteq> 0" "opo_baseline ?ls ?xs = Some (sum_list (vzip (*) ?ls ?xs) / sum_list ?ls)"
    using n by (auto simp: opo_baseline_def div_fin_def split: if_splits)
  have "members g index ?a = map (\<lambda>s. s - sum_list (vzip (*) ?ls ?xs) / sum_list ?ls) ?xs"
    unfolding per_row_def members_vzip [OF ls(1)] using tab b by simp
  moreover have "sum_list (vzip (\<lambda>l x. l * x) ls (map (\<lambda>s. s - c) xs)) = sum_list (vzip (*) ls xs) - c * sum_list ls"
    if "length xs = length ls" for ls xs and c :: real
    using that by (induction xs ls rule: list_induct2) (simp_all add: algebra_simps)
  ultimately show ?thesis using A b(1) n(2) len by (intro exI [of _ ?a]) (simp add: scores_of_def)
qed


section \<open>The vectorised estimators\<close>

lemma nth_position: "x \<in> set xs \<Longrightarrow> xs ! position x xs = x"
  by (induction xs) auto

lemma position_inj: "x \<in> set xs \<Longrightarrow> y \<in> set xs \<Longrightarrow> position x xs = position y xs \<longleftrightarrow> x = y"
  using nth_position [of x xs] nth_position [of y xs] by metis

lemma members_relabel:
  assumes "inj_on f (insert g (set index))" "length index = length xs"
  shows "members (f g) (map f index) xs = members g index xs"
  using assms(2,1) by (induction index xs rule: list_induct2) (auto simp: inj_on_def)

lemma below_Max: "k \<in> set ks \<Longrightarrow> k < (if ks = [] then 0 else Max (set ks) + 1)" for k :: nat
  by (auto simp: less_Suc_eq_le intro: Max_ge)

lemma bincount_unique:
  assumes "length index = length xs" "i < length index"
  shows "bincount (unique_inverse index) xs ! (unique_inverse index ! i) = sum_list (members (index ! i) index xs)"
proof -
  let ?f = "\<lambda>g. position g (sort (remdups index))"
  have u: "unique_inverse index = map ?f index" by (simp add: unique_inverse_def Let_def)
  have inj: "inj_on ?f (insert (index ! i) (set index))"
    using assms(2) by (auto simp: inj_on_def position_inj)
  have "?f (index ! i) < (if map ?f index = [] then 0 else Max (set (map ?f index)) + 1)"
    by (rule below_Max) (use assms(2) in auto)
  then show ?thesis
    unfolding bincount_def u using assms(2) members_relabel [OF inj assms(1)] by simp
qed

lemma sum_members_ones: "length index = length xs \<Longrightarrow>
    sum_list (members g index (replicate (length index) 1)) = real (length (members g index xs))"
  by (induction index xs rule: list_induct2) auto

lemma nth_members: "length index = length xs \<Longrightarrow> i < length index \<Longrightarrow> xs ! i \<in> set (members (index ! i) index xs)"
proof (induction index xs arbitrary: i rule: list_induct2)
  case (Cons h index x xs)
  then show ?case by (cases i) auto
qed simp

lemma per_row_nth:
  assumes "length index = length xs" "i < length xs"
  shows "per_row (map (\<lambda>(g, ys). (g, st ys)) (group_by index xs)) f index xs ! i =
    f (st (members (index ! i) index xs)) (xs ! i)"
proof -
  have "members (index ! i) index xs \<noteq> []" using nth_members [OF assms(1), of i] assms by auto
  then show ?thesis using assms by (simp add: per_row_def map_of_map_snd map_of_group_by)
qed

text \<open>The vectorised RLOO gives every row of a group of at least two what the loop gives; but for the only row of a
  group the loop keeps the score and the vectorised version gives zero.\<close>

theorem rloo_vectorized_agrees:
  assumes len: "length index = length R"
  shows "\<exists>a b. compute_rloo_outcome_advantage R M index = Inr (scale_rows a M) \<and>
    compute_rloo_vectorized_outcome_advantage R M index = scale_rows b M \<and> length a = length R \<and> length b = length R \<and>
    (\<forall>i < length R. if 2 \<le> length (members (index ! i) index R) then a ! i = b ! i
       else a ! i = scores_of R ! i \<and> b ! i = 0)"
proof -
  let ?s = "scores_of R"
  let ?n = "\<lambda>i. real (length (members (index ! i) index ?s))" and ?t = "\<lambda>i. sum_list (members (index ! i) index ?s)"
  let ?f = "\<lambda>(n, mu) s. if 1 < n then s * n / (n - 1) - mu * n / (n - 1) else s"
  let ?a = "per_row (map (\<lambda>(g, xs). (g, real (length xs), baseline_mean xs)) (group_by index ?s)) ?f index ?s"
  let ?inv = "unique_inverse index"
  let ?b = "vzip (\<lambda>s (n, sm). (n * s - sm) / max (n - 1) 1 * (if 1 < n then 1 else 0)) ?s
    (zip (map (\<lambda>k. bincount ?inv (replicate (length ?inv) 1) ! k) ?inv) (map (\<lambda>k. bincount ?inv ?s ! k) ?inv))"
  have ls: "length index = length ?s" using len by (simp add: scores_of_def)
  have li: "length ?inv = length index" by (simp add: unique_inverse_def Let_def)
  have b: "?b ! i = (?n i * ?s ! i - ?t i) / max (?n i - 1) 1 * (if 1 < ?n i then 1 else 0)" if "i < length R" for i
    using that len ls li bincount_unique [of index "replicate (length index) 1" i] bincount_unique [OF ls, of i]
      sum_members_ones [OF ls, of "index ! i"] by simp
  have a: "?a ! i = ?f (?n i, baseline_mean (members (index ! i) index ?s)) (?s ! i)" if "i < length R" for i
    using per_row_nth [OF ls, of i "\<lambda>xs. (real (length xs), baseline_mean xs)" ?f] that ls len by simp
  have eq: "if 2 \<le> length (members (index ! i) index R) then ?a ! i = ?b ! i else ?a ! i = ?s ! i \<and> ?b ! i = 0"
    if i: "i < length R" for i
  proof -
    have lm: "length (members (index ! i) index ?s) = length (members (index ! i) index R)"
      using length_members [OF ls, of R] len by simp
    show ?thesis
    proof (cases "2 \<le> length (members (index ! i) index R)")
      case True
      then have n: "1 < ?n i" "2 \<le> ?n i" using lm by simp_all
      then have "baseline_mean (members (index ! i) index ?s) * ?n i = ?t i"
        by (simp add: baseline_mean_def mean_def)
      then have "?a ! i = (?n i * ?s ! i - ?t i) / (?n i - 1)"
        using a [OF i] n by (simp add: diff_divide_distrib mult.commute)
      moreover have "max (?n i - 1) 1 = ?n i - 1" using n by simp
      ultimately show ?thesis using True b [OF i] n by simp
    next
      case False
      then have "\<not> 1 < ?n i" using lm by simp
      then show ?thesis using False a [OF i] b [OF i] by simp
    qed
  qed
  have "compute_rloo_outcome_advantage R M index = Inr (scale_rows ?a M)"
    using len by (simp add: compute_rloo_outcome_advantage_def Let_def)
  moreover have "compute_rloo_vectorized_outcome_advantage R M index = scale_rows ?b M"
    by (simp add: compute_rloo_vectorized_outcome_advantage_def Let_def)
  moreover have "length ?a = length R" "length ?b = length R" using len ls li by simp_all
  ultimately show ?thesis using eq by blast
qed

lemma sq_dev_alt: "xs \<noteq> [] \<Longrightarrow> sum_list (map (\<lambda>x. x * x) xs) - sum_list xs * sum_list xs / real (length xs) = sq_dev xs"
proof -
  assume ne: "xs \<noteq> []"
  have "sum_list (map (\<lambda>x. (x - a) ^ 2) xs) = sum_list (map (\<lambda>x. x * x) xs) - 2 * a * sum_list xs + real (length xs) * a ^ 2" for a
    by (induction xs) (simp_all add: algebra_simps power2_eq_square)
  from this [of "mean xs"] show ?thesis using ne
    by (simp add: sq_dev_def mean_def power2_eq_square)
qed

lemma group_mean_std_nth:
  assumes ls: "length scores = length g" and i: "i < length g"
  shows "\<exists>mu sd c. group_mean_std scores g eps = Inr (mu, sd, c) \<and>
    (let xs = members (g ! i) g scores in
      mu ! (g ! i) = (if length xs = 1 then 0 else mean xs) \<and>
      sd ! (g ! i) = (if length xs = 1 then 1 else sqrt (max (sq_dev xs / (real (length xs) - 1)) eps)))"
proof -
  let ?xs = "members (g ! i) g scores"
  have ne: "?xs \<noteq> []" using nth_members [of g scores i] ls i by auto
  have G: "g ! i < (if g = [] then 0 else Max (set g) + 1)" by (rule below_Max) (use i in auto)
  have n: "length ?xs = 1 \<or> 2 \<le> length ?xs" using ne by (cases ?xs; cases "tl ?xs") auto
  show ?thesis
    using n G ls sq_dev_alt [OF ne]
    by (auto simp: group_mean_std_def Let_def mean_def max_def)
qed

text \<open>The vectorised GRPO gives every row what the loop gives, unless it normalises by the deviation of a group
  whose variance lies below epsilon: there it uses the square root of epsilon for the deviation.\<close>

theorem grpo_vectorized_agrees:
  assumes len: "length g = length R"
  shows "\<exists>a b. compute_grpo_outcome_advantage R M g epsilon by_std = Inr (scale_rows a M) \<and>
    compute_grpo_vectorized_outcome_advantage R M g epsilon by_std = Inr (scale_rows b M) \<and>
    (\<forall>i < length R. let xs = members (g ! i) g (scores_of R) in
       a ! i = b ! i \<or> (by_std \<and> sq_dev xs / (real (length xs) - 1) < epsilon \<and> 2 \<le> length xs \<and>
         b ! i = (scores_of R ! i - mean xs) / (sqrt epsilon + epsilon)))"
proof -
  let ?s = "scores_of R"
  let ?f = "\<lambda>(mu, sd) s. if by_std then (s - mu) / (sd + epsilon) else s - mu"
  let ?a = "per_row (map (\<lambda>(g, xs). (g, grpo_stats xs)) (group_by g ?s)) ?f g ?s"
  have ls: "length g = length ?s" using len by (simp add: scores_of_def)
  have "\<exists>mu sd c. group_mean_std ?s g epsilon = Inr (mu, sd, c)" using ls by (simp add: group_mean_std_def Let_def)
  then obtain mu sd c where gms: "group_mean_std ?s g epsilon = Inr (mu, sd, c)" by blast
  let ?b = "vzip (\<lambda>i s. if by_std then (s - mu ! i) / (sd ! i + epsilon) else s - mu ! i) g ?s"
  have "let xs = members (g ! i) g ?s in ?a ! i = ?b ! i \<or> (by_std \<and> sq_dev xs / (real (length xs) - 1) < epsilon \<and> 2 \<le> length xs \<and>
      ?b ! i = (?s ! i - mean xs) / (sqrt epsilon + epsilon))" if i: "i < length R" for i
  proof -
    let ?xs = "members (g ! i) g ?s"
    have ne: "?xs \<noteq> []" using nth_members [OF ls, of i] i len by auto
    have m: "mu ! (g ! i) = (if length ?xs = 1 then 0 else mean ?xs)"
      "sd ! (g ! i) = (if length ?xs = 1 then 1 else sqrt (max (sq_dev ?xs / (real (length ?xs) - 1)) epsilon))"
      using group_mean_std_nth [of ?s g i epsilon] gms ls i len by (auto simp: Let_def)
    have a: "?a ! i = ?f (grpo_stats ?xs) (?s ! i)" using per_row_nth [OF ls, of i] i ls len by simp
    have b: "?b ! i = (if by_std then (?s ! i - mu ! (g ! i)) / (sd ! (g ! i) + epsilon) else ?s ! i - mu ! (g ! i))"
      using i ls len by simp
    show ?thesis
    proof (cases "length ?xs = 1")
      case True
      then show ?thesis using a b m by (simp add: grpo_stats_def Let_def)
    next
      case False
      then have two: "2 \<le> length ?xs" using ne by (cases ?xs; cases "tl ?xs") auto
      show ?thesis
        using False two a b m by (cases "sq_dev ?xs / (real (length ?xs) - 1) < epsilon")
          (auto simp: grpo_stats_def Let_def std_def max_def not_less)
    qed
  qed
  moreover have "compute_grpo_outcome_advantage R M g epsilon by_std = Inr (scale_rows ?a M)"
    using len by (simp add: compute_grpo_outcome_advantage_def Let_def)
  moreover have "compute_grpo_vectorized_outcome_advantage R M g epsilon by_std = Inr (scale_rows ?b M)"
    using gms by (simp add: compute_grpo_vectorized_outcome_advantage_def)
  ultimately show ?thesis by blast
qed

section \<open>Examples\<close>

theorem grpo_witness:
  "\<exists>a. compute_grpo_outcome_advantage [[3], [1], [5]] [[1], [1], [1]] [0 :: nat, 0, 1] (1/10) True =
      Inr (scale_rows a [[1], [1], [1]]) \<and> sum_list (members 0 [0 :: nat, 0, 1] a) = 0 \<and> members 1 [0 :: nat, 0, 1] a = [50 / 11]"
proof -
  have l: "length [0 :: nat, 0, 1] = length [[3], [1], [5 :: real]]" by simp
  from grpo_group_relative [OF l, of "[[1], [1], [1]]" "1/10" True] obtain a where
    e: "compute_grpo_outcome_advantage [[3], [1], [5]] [[1], [1], [1]] [0 :: nat, 0, 1] (1/10) True = Inr (scale_rows a [[1], [1], [1]])"
    and groups: "\<forall>g. 2 \<le> length (members g [0 :: nat, 0, 1] [[3], [1], [5 :: real]]) \<longrightarrow> sum_list (members g [0, 0, 1] a) = 0"
      "\<forall>g s. members g [0 :: nat, 0, 1] (scores_of [[3], [1], [5]]) = [s] \<longrightarrow>
        members g [0, 0, 1] a = [if True then s / (1 + 1/10) else s]" by (elim exE conjE)
  have "sum_list (members 0 [0 :: nat, 0, 1] a) = 0" by (rule groups(1) [rule_format]) simp
  moreover have "members 1 [0 :: nat, 0, 1] a = [if True then 5 / (1 + 1/10) else 5]"
    by (rule groups(2) [rule_format]) (simp add: scores_of_def)
  then have "members 1 [0 :: nat, 0, 1] a = [50 / 11]" by simp
  ultimately show ?thesis using e by (intro exI conjI)
qed

theorem rloo_witness:
  "\<exists>a. compute_rloo_outcome_advantage [[3], [1]] [[1], [1]] [0 :: nat, 0] = Inr (scale_rows a [[1], [1]]) \<and>
    members 0 [0 :: nat, 0] a = [2, -2]"
proof -
  have l: "length [0 :: nat, 0] = length [[3], [1 :: real]]" and g: "2 \<le> length (members 0 [0 :: nat, 0] [[3], [1 :: real]])" by simp_all
  from rloo_leave_one_out [OF l g, of "[[1], [1]]"] obtain a where
    e: "compute_rloo_outcome_advantage [[3], [1]] [[1], [1]] [0 :: nat, 0] = Inr (scale_rows a [[1], [1]])"
    and m: "members 0 [0 :: nat, 0] a = map (\<lambda>s. s - (sum_list (members 0 [0 :: nat, 0] (scores_of [[3], [1]])) - s) /
      (real (length (members 0 [0 :: nat, 0] (scores_of [[3], [1]]))) - 1)) (members 0 [0 :: nat, 0] (scores_of [[3], [1]]))"
    by (elim exE conjE)
  from m have "members 0 [0 :: nat, 0] a = [2, -2]" by (simp add: scores_of_def)
  with e show ?thesis by (intro exI conjI)
qed

theorem gae_witness:
  "\<exists>A returns. compute_gae_advantage_return [[1, 9, 2]] [[1, 7, 3]] [[1, 0, 1]] 1 1 = Inr (A, returns) \<and>
    kept (returns ! 0) [1, 0, 1] = vzip (+) (gae_sum 1 1 [1, 2] [1, 3]) [1, 3]"
proof -
  obtain A returns where r: "compute_gae_advantage_return [[1, 9, 2]] [[1, 7, 3]] [[1, 0, 1]] 1 1 = Inr (A, returns)"
    by (simp add: compute_gae_advantage_return_def masked_whiten_def masked_var_def Let_def)
  have "is_mask [[1, 0, 1]]" by (simp add: is_mask_def)
  with gae_of_kept_tokens [OF r, of 0] show ?thesis using r by auto
qed

theorem gae_lam_1_witness:
  "\<exists>A returns. compute_gae_advantage_return [[1, 9, 2]] [[1, 7, 3]] [[1, 0, 1]] (1/2) 1 = Inr (A, returns) \<and>
    kept (returns ! 0) [1, 0, 1] = discounted (1/2) [1, 2]"
proof -
  obtain A returns where r: "compute_gae_advantage_return [[1, 9, 2]] [[1, 7, 3]] [[1, 0, 1]] (1/2) 1 = Inr (A, returns)"
    by (simp add: compute_gae_advantage_return_def masked_whiten_def masked_var_def Let_def)
  have "is_mask [[1, 0, 1]]" by (simp add: is_mask_def)
  with gae_lam_1_returns [OF r, of 0] show ?thesis using r by auto
qed

theorem rfpp_witness:
  "\<exists>A returns tail. compute_reinforce_plus_plus_outcome_advantage [[1, 2] @ 3 # [5, 6]] [[1, 1] @ 0 # [1, 1]] 1 = Inr (A, returns) \<and>
    returns = [[3, 2] @ tail]"
proof -
  obtain A returns where r: "compute_reinforce_plus_plus_outcome_advantage [[1, 2] @ 3 # [5, 6]] [[1, 1] @ 0 # [1, 1]] 1 = Inr (A, returns)"
    by (simp add: compute_reinforce_plus_plus_outcome_advantage_def masked_whiten_def masked_var_def Let_def)
  have "length [1, 2 :: real] = length [1, 1 :: real]" by simp
  from rfpp_cut_at_masked_token [OF r this] r show ?thesis by auto
qed

theorem opo_witness:
  "\<exists>A a. compute_opo_outcome_advantage [[1, 1], [3, 0]] [[1, 1], [1, 0]] [0 :: nat, 0] = Inr (Some A) \<and>
    A = scale_rows a [[1, 1], [1, 0]] \<and> sum_list (vzip (\<lambda>l x. l * x) [2, 1] (members 0 [0 :: nat, 0] a)) = 0"
proof -
  obtain A where r: "compute_opo_outcome_advantage [[1, 1], [3, 0]] [[1, 1], [1, 0]] [0 :: nat, 0] = Inr (Some A)"
    by (simp add: compute_opo_outcome_advantage_def scores_of_def group_by_def append_to_def opo_baseline_def div_fin_def Let_def dict_set_def)
  have g: "length [0 :: nat, 0] = length [[1, 1], [3, 0 :: real]]" "length [[1, 1], [1, 0 :: real]] = length [[1, 1], [3, 0 :: real]]"
    "2 \<le> length (members 0 [0 :: nat, 0] [[1, 1], [3, 0 :: real]])" by simp_all
  from opo_length_weighted [OF g r] obtain a where e: "A = scale_rows a [[1, 1], [1, 0]]"
    and z: "sum_list (vzip (\<lambda>l x. l * x) (members 0 [0 :: nat, 0] (map sum_list [[1, 1], [1, 0]])) (members 0 [0 :: nat, 0] a)) = 0"
    by (elim exE conjE)
  from z have "sum_list (vzip (\<lambda>l x. l * x) [2, 1] (members 0 [0 :: nat, 0] a)) = 0" by simp
  with r e show ?thesis by (intro exI conjI)
qed

theorem rloo_vectorized_witness:
  "\<exists>a b. compute_rloo_outcome_advantage [[3], [1], [5]] [[1], [1], [1]] [0 :: nat, 0, 1] = Inr (scale_rows a [[1], [1], [1]]) \<and>
    compute_rloo_vectorized_outcome_advantage [[3], [1], [5]] [[1], [1], [1]] [0 :: nat, 0, 1] = scale_rows b [[1], [1], [1]] \<and>
    a ! 0 = b ! 0 \<and> a ! 2 = 5 \<and> b ! 2 = 0"
proof -
  have l: "length [0 :: nat, 0, 1] = length [[3], [1], [5 :: real]]" by simp
  from rloo_vectorized_agrees [OF l, of "[[1], [1], [1]]"] obtain a b where
    e: "compute_rloo_outcome_advantage [[3], [1], [5]] [[1], [1], [1]] [0 :: nat, 0, 1] = Inr (scale_rows a [[1], [1], [1]])"
      "compute_rloo_vectorized_outcome_advantage [[3], [1], [5]] [[1], [1], [1]] [0 :: nat, 0, 1] = scale_rows b [[1], [1], [1]]"
    and all: "\<forall>i < 3. if 2 \<le> length (members ([0 :: nat, 0, 1] ! i) [0, 0, 1] [[3], [1], [5 :: real]]) then a ! i = b ! i
       else a ! i = scores_of [[3], [1], [5]] ! i \<and> b ! i = 0" by auto
  from all [rule_format, of 0] have "a ! 0 = b ! 0" by simp
  moreover from all [rule_format, of 2] have "a ! 2 = 5" "b ! 2 = 0" by (simp_all add: scores_of_def)
  ultimately show ?thesis using e by (intro exI conjI)
qed

theorem grpo_vectorized_witness:
  "\<exists>a b. compute_grpo_outcome_advantage [[3], [1]] [[1], [1]] [0 :: nat, 0] (1/10) True = Inr (scale_rows a [[1], [1]]) \<and>
    compute_grpo_vectorized_outcome_advantage [[3], [1]] [[1], [1]] [0, 0] (1/10) True = Inr (scale_rows b [[1], [1]]) \<and>
    a ! 0 = b ! 0"
proof -
  have l: "length [0 :: nat, 0] = length [[3], [1 :: real]]" by simp
  from grpo_vectorized_agrees [OF l, of "[[1], [1]]" "1/10" True] obtain a b where
    e: "compute_grpo_outcome_advantage [[3], [1]] [[1], [1]] [0 :: nat, 0] (1/10) True = Inr (scale_rows a [[1], [1]])"
      "compute_grpo_vectorized_outcome_advantage [[3], [1]] [[1], [1]] [0, 0] (1/10) True = Inr (scale_rows b [[1], [1]])"
    and all: "\<forall>i < 2. let xs = members ([0 :: nat, 0] ! i) [0, 0] (scores_of [[3], [1]]) in
       a ! i = b ! i \<or> (True \<and> sq_dev xs / (real (length xs) - 1) < 1/10 \<and> 2 \<le> length xs \<and>
         b ! i = (scores_of [[3], [1]] ! i - mean xs) / (sqrt (1/10) + 1/10))" by auto
  from all [rule_format, of 0] have "a ! 0 = b ! 0" by (auto simp: scores_of_def sq_dev_def mean_def Let_def)
  with e show ?thesis by (intro exI conjI)
qed

end
