(* ===== verification/PolicyLoss.thy ===== *)
theory PolicyLoss
  imports Tensor
begin

text \<open>
  Losses of \<^verbatim>\<open>verl/trainer/ppo/core_algos.py\<close>: the aggregation of token losses over sequences and
  data-parallel ranks, the policy losses and their registry, the value loss, the KL penalties and the KL
  controllers. The policy losses are modelled by their values (\<open>detach\<close> changes only gradients); the KL
  penalties, whose point is the gradient, by dual numbers: a value and its derivative by \<open>logprob\<close>.
  A loss that is not a finite number is None.
\<close>

section \<open>Aggregation\<close>

record batch_info =
  bi_dp_size :: nat
  bi_num_tokens :: "real option"
  bi_batch_size :: "real option"
  bi_scale_factor :: "real option"

definition default_info :: batch_info where
  "default_info = \<lparr>bi_dp_size = 1, bi_num_tokens = None, bi_batch_size = None, bi_scale_factor = None\<rparr>"

definition seq_present :: "mat \<Rightarrow> vec" where
  "seq_present M = map (\<lambda>row. if 0 < sum_list row then 1 else 0) M"

definition masked_sum_vec :: "vec \<Rightarrow> vec \<Rightarrow> real" where
  "masked_sum_vec xs ms = sum_list (vzip (\<lambda>x m. (if m \<noteq> 0 then x else 0) * m) xs ms)"

definition needs_global :: "batch_info \<Rightarrow> real option \<Rightarrow> real \<Rightarrow> real result" where
  "needs_global info given own = (case given of
       Some n \<Rightarrow> Inr n
     | None \<Rightarrow> require (bi_dp_size info \<le> 1) ValueError (Inr own))"

definition times_dp :: "batch_info \<Rightarrow> real option \<Rightarrow> real option" where
  "times_dp info x = map_option (\<lambda>v. v * real (bi_dp_size info)) x"

definition agg_loss :: "mat \<Rightarrow> mat \<Rightarrow> string \<Rightarrow> batch_info \<Rightarrow> real option result" where
  "agg_loss L M mode info =
     (if mode = ''token-mean''
      then bind_r (needs_global info (bi_num_tokens info) (msum M)) (\<lambda>n.
             Inr (times_dp info (div_fin (masked_sum L M) n)))
      else if mode = ''seq-mean-token-sum'' \<or> mode = ''seq-mean-token-sum-norm''
      then (let seq_losses = map sum_list (mzip (\<lambda>l m. l * m) L M); seq_mask = seq_present M in
            bind_r (needs_global info (bi_batch_size info) (sum_list seq_mask)) (\<lambda>n.
            let loss = times_dp info (div_fin (masked_sum_vec seq_losses seq_mask) n) in
            if mode = ''seq-mean-token-sum-norm''
            then Inr (Option.bind loss (\<lambda>v. div_fin v (case bi_scale_factor info of
                   Some s \<Rightarrow> s | None \<Rightarrow> real (case M of [] \<Rightarrow> 0 | row # _ \<Rightarrow> length row))))
            else Inr loss))
      else if mode = ''seq-mean-token-mean''
      then (let seq_losses = vzip (\<lambda>s row. s / (sum_list row + 1 / 10 ^ 8)) (map sum_list (mzip (\<lambda>l m. l * m) L M)) M;
                seq_mask = seq_present M in
            bind_r (needs_global info (bi_batch_size info) (sum_list seq_mask)) (\<lambda>n.
              Inr (times_dp info (div_fin (masked_sum_vec seq_losses seq_mask) n))))
      else Inl ValueError)"

section \<open>The registry of policy losses\<close>

definition register_policy_loss :: "string \<Rightarrow> 'f \<Rightarrow> (string, 'f) dict \<Rightarrow> (string, 'f) dict" where
  "register_policy_loss name f reg = dict_set name f reg"

definition get_policy_loss_fn :: "string \<Rightarrow> (string, 'f) dict \<Rightarrow> 'f result" where
  "get_policy_loss_fn name reg = (case map_of reg name of None \<Rightarrow> Inl ValueError | Some f \<Rightarrow> Inr f)"

text \<open>Advantage estimators refuse a second function under the same name.\<close>

definition register_adv_est :: "string \<Rightarrow> 'f \<Rightarrow> (string, 'f) dict \<Rightarrow> (string, 'f) dict result" where
  "register_adv_est name f reg =
     require (case map_of reg name of None \<Rightarrow> True | Some g \<Rightarrow> g = f) ValueError (Inr (dict_set name f reg))"

definition get_adv_estimator_fn :: "string \<Rightarrow> (string, 'f) dict \<Rightarrow> 'f result" where
  "get_adv_estimator_fn name reg = (case map_of reg name of None \<Rightarrow> Inl ValueError | Some f \<Rightarrow> Inr f)"

section \<open>KL controllers\<close>

datatype kl_controller = Fixed real | Adaptive real real real

record kl_config =
  kc_type :: string
  kc_coef :: real
  kc_target :: real
  kc_horizon :: real

definition get_kl_controller :: "kl_config \<Rightarrow> kl_controller result" where
  "get_kl_controller c =
     (if kc_type c = ''fixed'' then Inr (Fixed (kc_coef c))
      else if kc_type c = ''adaptive''
      then require (0 < kc_horizon c) AssertionError (Inr (Adaptive (kc_coef c) (kc_target c) (kc_horizon c)))
      else Inl NotImplementedError)"

definition kl_value :: "kl_controller \<Rightarrow> real" where
  "kl_value k = (case k of Fixed v \<Rightarrow> v | Adaptive v t h \<Rightarrow> v)"

fun kl_update :: "real \<Rightarrow> real \<Rightarrow> kl_controller \<Rightarrow> kl_controller" where
  "kl_update current_kl n_steps (Fixed v) = Fixed v"
| "kl_update current_kl n_steps (Adaptive v target horizon) =
     (let proportional_error = clamp (-(1/5)) (1/5) (current_kl / target - 1);
          mult = 1 + proportional_error * n_steps / horizon
      in Adaptive (v * mult) target horizon)"

section \<open>KL penalties, with their derivatives\<close>

type_synonym dual = "real \<times> real"

definition d_sub :: "dual \<Rightarrow> dual \<Rightarrow> dual" where "d_sub a b = (fst a - fst b, snd a - snd b)"
definition d_add :: "dual \<Rightarrow> dual \<Rightarrow> dual" where "d_add a b = (fst a + fst b, snd a + snd b)"
definition d_scale :: "real \<Rightarrow> dual \<Rightarrow> dual" where "d_scale c a = (c * fst a, c * snd a)"
definition d_square :: "dual \<Rightarrow> dual" where "d_square a = (fst a ^ 2, 2 * fst a * snd a)"
definition d_abs :: "dual \<Rightarrow> dual" where "d_abs a = (\<bar>fst a\<bar>, sgn (fst a) * snd a)"
definition d_exp :: "dual \<Rightarrow> dual" where "d_exp a = (exp (fst a), exp (fst a) * snd a)"
definition d_clamp :: "real \<Rightarrow> real \<Rightarrow> dual \<Rightarrow> dual" where
  "d_clamp lo hi a = (clamp lo hi (fst a), if lo \<le> fst a \<and> fst a \<le> hi then snd a else 0)"
definition detach :: "dual \<Rightarrow> dual" where "detach a = (fst a, 0)"

definition kl_penalty_forward :: "dual \<Rightarrow> dual \<Rightarrow> string \<Rightarrow> dual result" where
  "kl_penalty_forward logprob ref_logprob penalty =
     (if penalty = ''kl'' \<or> penalty = ''k1'' then Inr (d_sub logprob ref_logprob)
      else if penalty = ''abs'' then Inr (d_abs (d_sub logprob ref_logprob))
      else if penalty = ''mse'' \<or> penalty = ''k2'' then Inr (d_scale (1/2) (d_square (d_sub logprob ref_logprob)))
      else if penalty = ''low_var_kl'' \<or> penalty = ''k3''
      then (let kl = d_clamp (-20) 20 (d_sub ref_logprob logprob);
                ratio = d_exp kl;
                kld = d_sub (d_sub ratio kl) (1, 0)
            in Inr (d_clamp (-10) 10 kld))
      else Inl NotImplementedError)"

definition ends_plus :: "string \<Rightarrow> bool" where
  "ends_plus s = (s \<noteq> [] \<and> last s = CHR ''+'')"

definition kl_penalty :: "dual \<Rightarrow> dual \<Rightarrow> string \<Rightarrow> dual result" where
  "kl_penalty logprob ref_logprob penalty =
     (let base = (if ends_plus penalty then butlast penalty else penalty) in
      bind_r (kl_penalty_forward logprob ref_logprob base) (\<lambda>forward_score.
        if \<not> ends_plus penalty \<or> penalty = ''mse'' \<or> penalty = ''k2'' then Inr forward_score
        else (let backward_score = d_scale (1/2) (d_square (d_sub logprob ref_logprob))
              in Inr (d_add (d_sub backward_score (detach backward_score)) (detach forward_score)))))"

section \<open>Policy losses\<close>

record actor_config =
  ac_clip_ratio :: real
  ac_clip_ratio_low :: "real option"
  ac_clip_ratio_high :: "real option"
  ac_clip_ratio_c :: "real option"
  ac_info :: batch_info
  ac_tau_pos :: real
  ac_tau_neg :: real
  ac_clip_cov_ratio :: "real option"
  ac_clip_cov_lb :: "real option"
  ac_clip_cov_ub :: "real option"
  ac_kl_cov_ratio :: "real option"
  ac_ppo_kl_coef :: "real option"

definition get_or :: "real \<Rightarrow> real option \<Rightarrow> real" where
  "get_or d x = (case x of None \<Rightarrow> d | Some v \<Rightarrow> v)"

definition clip_low :: "actor_config \<Rightarrow> real" where
  "clip_low c = get_or (ac_clip_ratio c) (ac_clip_ratio_low c)"

definition clip_high :: "actor_config \<Rightarrow> real" where
  "clip_high c = get_or (ac_clip_ratio c) (ac_clip_ratio_high c)"

type_synonym loss_result = "(real option \<times> (string \<times> real) list) result"

text \<open>Three matrices of the same shape, token by token.\<close>

definition mzip3 :: "('a \<Rightarrow> 'b \<Rightarrow> 'c \<Rightarrow> 'd) \<Rightarrow> 'a list list \<Rightarrow> 'b list list \<Rightarrow> 'c list list \<Rightarrow> 'd list list" where
  "mzip3 f A B C = mzip (\<lambda>g c. g c) (mzip f A B) C"

definition corrected :: "mat option \<Rightarrow> mat \<Rightarrow> mat" where
  "corrected ws L = (case ws of None \<Rightarrow> L | Some W \<Rightarrow> mzip (\<lambda>l w. l * w) L W)"

definition log_ratio :: "real \<Rightarrow> real \<Rightarrow> real" where
  "log_ratio old_lp lp = clamp (-20) 20 (lp - old_lp)"

definition approx_kl :: "mat \<Rightarrow> mat \<Rightarrow> mat \<Rightarrow> real" where
  "approx_kl old_lps lps M = masked_mean (mzip (\<lambda>p l. - log_ratio p l) old_lps lps) M"

definition frac :: "bool \<Rightarrow> real" where
  "frac b = (if b then 1 else 0)"

definition pg_losses1 :: "real \<Rightarrow> real \<Rightarrow> real" where
  "pg_losses1 ratio adv = - adv * ratio"

definition pg_losses2 :: "real \<Rightarrow> real \<Rightarrow> real \<Rightarrow> real \<Rightarrow> real" where
  "pg_losses2 lo hi ratio adv = - adv * clamp (1 - lo) (1 + hi) ratio"

definition dual_clip_loss :: "real \<Rightarrow> real \<Rightarrow> real \<Rightarrow> real \<Rightarrow> real \<Rightarrow> real" where
  "dual_clip_loss lo hi c ratio adv =
     (let clip1 = max (pg_losses1 ratio adv) (pg_losses2 lo hi ratio adv);
          pg_losses3 = - adv * c
      in if adv < 0 then min pg_losses3 clip1 else clip1)"

definition ppo_loss :: "real \<Rightarrow> real \<Rightarrow> real \<Rightarrow> string \<Rightarrow> batch_info \<Rightarrow> mat option \<Rightarrow> mat \<Rightarrow> mat \<Rightarrow> mat \<Rightarrow> mat \<Rightarrow> loss_result" where
  "ppo_loss lo hi c mode info ws old_lps lps advs M =
     require (1 < c) AssertionError
       (let R = mzip (\<lambda>p l. exp (log_ratio p l)) old_lps lps;
            L = mzip (dual_clip_loss lo hi c) R advs;
            clipfrac = masked_mean (mzip (\<lambda>r a. frac (pg_losses1 r a < pg_losses2 lo hi r a)) R advs) M;
            lower = masked_mean (mzip (\<lambda>r a. frac (- a * c < max (pg_losses1 r a) (pg_losses2 lo hi r a)) * frac (a < 0)) R advs) M
        in bind_r (agg_loss (corrected ws L) M mode info) (\<lambda>loss.
          Inr (loss, [(''actor/pg_clipfrac'', clipfrac), (''actor/ppo_kl'', approx_kl old_lps lps M),
            (''actor/pg_clipfrac_lower'', lower)])))"

definition compute_policy_loss :: "mat \<Rightarrow> mat \<Rightarrow> mat \<Rightarrow> mat \<Rightarrow> real \<Rightarrow> real option \<Rightarrow> real option \<Rightarrow> real \<Rightarrow> string \<Rightarrow> loss_result" where
  "compute_policy_loss old_lps lps advs M cliprange lo hi c mode =
     ppo_loss (get_or cliprange lo) (get_or cliprange hi) c mode default_info None old_lps lps advs M"

definition compute_policy_loss_vanilla :: "mat \<Rightarrow> mat \<Rightarrow> mat \<Rightarrow> mat \<Rightarrow> string \<Rightarrow> actor_config \<Rightarrow> mat option \<Rightarrow> loss_result" where
  "compute_policy_loss_vanilla old_lps lps advs M mode cfg ws =
     ppo_loss (clip_low cfg) (clip_high cfg) (get_or 3 (ac_clip_ratio_c cfg)) mode (ac_info cfg) ws old_lps lps advs M"

text \<open>DPPO: the loss of a token counts only while the policies stay close, measured by total variation or KL.\<close>

definition dppo_loss :: "(real \<Rightarrow> real \<Rightarrow> real \<Rightarrow> bool) \<Rightarrow> mat \<Rightarrow> mat \<Rightarrow> mat \<Rightarrow> mat \<Rightarrow> string \<Rightarrow> actor_config \<Rightarrow> mat option \<Rightarrow> loss_result" where
  "dppo_loss valid old_lps lps advs M mode cfg ws =
     (let c = get_or 20 (ac_clip_ratio_c cfg);
          V = mzip3 (\<lambda>p l a. frac (valid p l a)) old_lps lps advs;
          L = mzip3 (\<lambda>p l a. - a * min (exp (log_ratio p l)) c * l * frac (valid p l a)) old_lps lps advs;
          clipfrac = masked_mean (mmap (\<lambda>v. 1 - v) V) M;
          lower = masked_mean (mzip3 (\<lambda>p l v. frac (c < exp (log_ratio p l)) * v) old_lps lps V) M
      in bind_r (agg_loss (corrected ws L) M mode (ac_info cfg)) (\<lambda>loss.
          Inr (loss, [(''actor/pg_clipfrac'', clipfrac), (''actor/ppo_kl'', approx_kl old_lps lps M),
            (''actor/pg_clipfrac_lower'', lower)])))"

definition valid_tv :: "real \<Rightarrow> real \<Rightarrow> real \<Rightarrow> real \<Rightarrow> real \<Rightarrow> bool" where
  "valid_tv lo hi old_lp lp adv =
     (if 0 < adv then exp lp - exp old_lp \<le> hi else - lo \<le> exp lp - exp old_lp)"

definition binary_kl :: "real \<Rightarrow> real \<Rightarrow> real" where
  "binary_kl old_lp lp = exp old_lp * (old_lp - lp) +
     (1 - exp old_lp) * ln ((1 - exp old_lp + 1 / 10 ^ 8) / (1 - exp lp + 1 / 10 ^ 8))"

definition valid_kl :: "real \<Rightarrow> real \<Rightarrow> real \<Rightarrow> real \<Rightarrow> real \<Rightarrow> bool" where
  "valid_kl lo hi old_lp lp adv =
     (if 0 < adv then binary_kl old_lp lp \<le> hi \<or> exp lp \<le> exp old_lp
      else binary_kl old_lp lp \<le> lo \<or> exp old_lp \<le> exp lp)"

definition compute_policy_loss_dppo_tv :: "mat \<Rightarrow> mat \<Rightarrow> mat \<Rightarrow> mat \<Rightarrow> string \<Rightarrow> actor_config \<Rightarrow> mat option \<Rightarrow> loss_result" where
  "compute_policy_loss_dppo_tv old_lps lps advs M mode cfg ws =
     dppo_loss (valid_tv (clip_low cfg) (clip_high cfg)) old_lps lps advs M mode cfg ws"

definition compute_policy_loss_dppo_kl :: "mat \<Rightarrow> mat \<Rightarrow> mat \<Rightarrow> mat \<Rightarrow> string \<Rightarrow> actor_config \<Rightarrow> mat option \<Rightarrow> loss_result" where
  "compute_policy_loss_dppo_kl old_lps lps advs M mode cfg ws =
     dppo_loss (valid_kl (clip_low cfg) (clip_high cfg)) old_lps lps advs M mode cfg ws"

text \<open>GSPO: one importance ratio per sequence, the geometric mean of its token ratios.\<close>

definition seq_log_ratio :: "vec \<Rightarrow> vec \<Rightarrow> vec \<Rightarrow> real" where
  "seq_log_ratio old_lp lp m = sum_list (vzip (\<lambda>d b. d * b) (vzip (\<lambda>l p. l - p) lp old_lp) m) / max (sum_list m) 1"

definition compute_policy_loss_gspo :: "mat \<Rightarrow> mat \<Rightarrow> mat \<Rightarrow> mat \<Rightarrow> actor_config \<Rightarrow> mat option \<Rightarrow> loss_result" where
  "compute_policy_loss_gspo old_lps lps advs M cfg ws =
     (let S = vzip (\<lambda>(p, l) m. seq_log_ratio p l m) (zip old_lps lps) M;
          R = vzip (\<lambda>s lp. map (\<lambda>l. exp (min (l - l + s) 10)) lp) S lps;
          L1 = mzip pg_losses1 R advs;
          L2 = mzip (pg_losses2 (clip_low cfg) (clip_high cfg)) R advs;
          clipfrac = masked_mean (mzip (\<lambda>a b. frac (a < b)) L1 L2) M;
          kl = masked_mean (mzip (\<lambda>p l. - (l - p)) old_lps lps) M
      in bind_r (agg_loss (corrected ws (mzip max L1 L2)) M ''seq-mean-token-mean'' (ac_info cfg)) (\<lambda>loss.
          Inr (loss, [(''actor/pg_clipfrac'', clipfrac), (''actor/ppo_kl'', kl), (''actor/pg_clipfrac_lower'', 0)])))"

definition sigmoid :: "real \<Rightarrow> real" where
  "sigmoid x = 1 / (1 + exp (- x))"

definition sapo_gate :: "real \<Rightarrow> real \<Rightarrow> real" where
  "sapo_gate tau x = sigmoid (tau * (x - 1)) * (4 / tau)"

definition compute_policy_loss_sapo :: "mat \<Rightarrow> mat \<Rightarrow> mat \<Rightarrow> mat \<Rightarrow> actor_config \<Rightarrow> mat option \<Rightarrow> loss_result" where
  "compute_policy_loss_sapo old_lps lps advs M cfg ws =
     (let L = mzip3 (\<lambda>p l a. - sapo_gate (if 0 < a then ac_tau_pos cfg else ac_tau_neg cfg) (exp (log_ratio p l)) * a)
            old_lps lps advs
      in bind_r (agg_loss (corrected ws L) M ''seq-mean-token-mean'' (ac_info cfg)) (\<lambda>loss.
          Inr (loss, [(''actor/pg_clipfrac'', 0), (''actor/ppo_kl'', approx_kl old_lps lps M), (''actor/pg_clipfrac_lower'', 0)])))"

definition compute_policy_loss_gpg :: "mat \<Rightarrow> mat \<Rightarrow> mat \<Rightarrow> string \<Rightarrow> actor_config \<Rightarrow> mat option \<Rightarrow> loss_result" where
  "compute_policy_loss_gpg lps advs M mode cfg ws =
     bind_r (agg_loss (corrected ws (mzip (\<lambda>l a. - l * a) lps advs)) M mode (ac_info cfg)) (\<lambda>loss. Inr (loss, []))"

definition compute_policy_loss_cispo :: "mat \<Rightarrow> mat \<Rightarrow> mat \<Rightarrow> mat \<Rightarrow> string \<Rightarrow> actor_config \<Rightarrow> mat option \<Rightarrow> loss_result" where
  "compute_policy_loss_cispo old_lps lps advs M mode cfg ws =
     (let R = mzip (\<lambda>p l. exp (log_ratio p l)) old_lps lps;
          C = mmap (clamp (1 - clip_low cfg) (1 + clip_high cfg)) R;
          L = mzip3 (\<lambda>r a l. - r * a * l) C advs lps;
          clipfrac = masked_mean (mzip (\<lambda>r c. frac (r \<noteq> c)) R C) M
      in bind_r (agg_loss (corrected ws L) M mode (ac_info cfg)) (\<lambda>loss.
          Inr (loss, [(''actor/pg_clipfrac'', clipfrac), (''actor/ppo_kl'', approx_kl old_lps lps M),
            (''actor/pg_clipfrac_lower'', 0)])))"

text \<open>GMPO: the clipped log ratio is averaged over the sequence; the loss is the mean over all rows.\<close>

definition geo_clip :: "real \<Rightarrow> real \<Rightarrow> real \<Rightarrow> real \<Rightarrow> real" where
  "geo_clip lo hi d adv = sgn adv * min (sgn adv * d) (sgn adv * clamp (- lo) hi d)"

definition row_mean :: "vec \<Rightarrow> vec \<Rightarrow> real" where
  "row_mean xs m = sum_list (vzip (\<lambda>x b. x * b) xs m) / (sum_list m + 1 / 10 ^ 8)"

definition compute_policy_loss_geo_mean :: "mat \<Rightarrow> mat \<Rightarrow> mat \<Rightarrow> mat \<Rightarrow> actor_config \<Rightarrow> mat option \<Rightarrow> loss_result" where
  "compute_policy_loss_geo_mean old_lps lps advs M cfg ws =
     (let D = mzip (\<lambda>l p. l - p) lps old_lps;
          K = mzip (geo_clip (clip_low cfg) (clip_high cfg)) D advs;
          ratio = map exp (vzip row_mean K M);
          advantage = vzip row_mean advs M;
          L = vzip (\<lambda>a r. - a * r) advantage ratio;
          L' = (case ws of None \<Rightarrow> L
            | Some W \<Rightarrow> vzip (\<lambda>l w. l * w) L (map exp (vzip row_mean (mmap (\<lambda>w. ln (w + 1 / 10 ^ 10)) W) M)));
          clipped = mmap (\<lambda>d. d \<noteq> clamp (- clip_low cfg) (clip_high cfg) d) D
      in Inr (div_fin (sum_list L') (real (length L')),
          [(''actor/pg_clipfrac'', masked_mean (mzip (\<lambda>b a. frac (b \<and> 0 < a)) clipped advs) M),
           (''actor/ppo_kl'', masked_mean (mmap uminus D) M),
           (''actor/pg_clipfrac_lower'', masked_mean (mzip (\<lambda>b a. frac (b \<and> a < 0)) clipped advs) M)]))"

section \<open>Value loss\<close>

definition clip_by_value :: "real \<Rightarrow> real \<Rightarrow> real \<Rightarrow> real" where
  "clip_by_value x lo hi = max (min x hi) lo"

definition compute_value_loss :: "mat \<Rightarrow> mat \<Rightarrow> mat \<Rightarrow> mat \<Rightarrow> real \<Rightarrow> string \<Rightarrow> (real option \<times> real) result" where
  "compute_value_loss vpreds returns values M cliprange mode =
     (let C = mzip (\<lambda>p v. clip_by_value p (v - cliprange) (v + cliprange)) vpreds values;
          L1 = mzip (\<lambda>p r. (p - r) ^ 2) vpreds returns;
          L2 = mzip (\<lambda>p r. (p - r) ^ 2) C returns;
          clipfrac = masked_mean (mzip (\<lambda>a b. frac (a < b)) L1 L2) M
      in bind_r (agg_loss (mzip max L1 L2) M mode default_info) (\<lambda>loss.
           Inr (map_option (\<lambda>l. 1 / 2 * l) loss, clipfrac)))"


section \<open>Covariance-based losses and REINFORCE\<close>

text \<open>The positions of a matrix in row-major order.\<close>

definition positions :: "'a list list \<Rightarrow> (nat \<times> nat) list" where
  "positions A = concat (map (\<lambda>i. map (\<lambda>j. (i, j)) [0..<length (A ! i)]) [0..<length A])"

definition entry :: "'a list list \<Rightarrow> nat \<times> nat \<Rightarrow> 'a" where
  "entry A ij = A ! fst ij ! snd ij"

definition mmap_at :: "(nat \<times> nat \<Rightarrow> 'a \<Rightarrow> 'b) \<Rightarrow> 'a list list \<Rightarrow> 'b list list" where
  "mmap_at f A = map (\<lambda>i. map (\<lambda>j. f (i, j) (A ! i ! j)) [0..<length (A ! i)]) [0..<length A]"

text \<open>\<open>perm n\<close> is the random permutation of \<open>0..<n\<close> that \<open>torch.randperm\<close> draws.\<close>

definition clip_cov_num :: "real \<Rightarrow> mat \<Rightarrow> nat" where
  "clip_cov_num ratio M = max (nat \<lfloor>ratio * msum M\<rfloor>) 1"

definition clip_cov_candidates :: "real \<Rightarrow> real \<Rightarrow> mat \<Rightarrow> mat \<Rightarrow> mat \<Rightarrow> mat \<Rightarrow> mat \<Rightarrow> (nat \<times> nat) list" where
  "clip_cov_candidates lb ub lps advs M L1 L2 =
     (let ma = masked_mean advs M; ml = masked_mean lps M;
          cov = mzip (\<lambda>a l. (a - ma) * (l - ml)) advs lps
      in filter (\<lambda>ij. 0 < entry M ij \<and> \<not> entry L1 ij < entry L2 ij \<and> lb < entry cov ij \<and> entry cov ij < ub) (positions cov))"

definition compute_policy_loss_clip_cov :: "(nat \<Rightarrow> nat list) \<Rightarrow> mat \<Rightarrow> mat \<Rightarrow> mat \<Rightarrow> mat \<Rightarrow> string \<Rightarrow> actor_config \<Rightarrow>
    mat option \<Rightarrow> loss_result" where
  "compute_policy_loss_clip_cov perm old_lps lps advs M mode cfg ws =
     require (0 < get_or (2 / 10 ^ 4) (ac_clip_cov_ratio cfg)) AssertionError
       (let R = mzip (\<lambda>p l. exp (l - p)) old_lps lps;
            L1 = mzip pg_losses1 R advs;
            L2 = mzip (pg_losses2 (clip_low cfg) (clip_high cfg)) R advs;
            idx = clip_cov_candidates (get_or 1 (ac_clip_cov_lb cfg)) (get_or 5 (ac_clip_cov_ub cfg)) lps advs M L1 L2;
            n = clip_cov_num (get_or (2 / 10 ^ 4) (ac_clip_cov_ratio cfg)) M;
            chosen = map (\<lambda>k. idx ! k) (take (min n (length idx)) (perm (length idx)));
            corr = mmap_at (\<lambda>ij a. if ij \<in> set chosen then 0 else 1) advs;
            L = mzip (\<lambda>l c. l * c) (mzip max L1 L2) corr
        in bind_r (agg_loss (corrected ws L) M mode (ac_info cfg)) (\<lambda>loss.
          Inr (loss, [(''actor/pg_clipfrac'', masked_mean (mmap (\<lambda>c. frac (c = 0)) corr) M),
            (''actor/ppo_kl'', masked_mean (mzip (\<lambda>p l. - (l - p)) old_lps lps) M)])))"

text \<open>\<open>topk k xs\<close> are the indices of the \<open>k\<close> largest values.\<close>

definition avg :: "vec \<Rightarrow> real" where
  "avg xs = sum_list xs / real (length xs)"

definition compute_policy_loss_kl_cov :: "(nat \<Rightarrow> vec \<Rightarrow> nat list) \<Rightarrow> mat \<Rightarrow> mat \<Rightarrow> mat \<Rightarrow> mat \<Rightarrow> string \<Rightarrow> actor_config \<Rightarrow>
    mat option \<Rightarrow> loss_result" where
  "compute_policy_loss_kl_cov topk old_lps lps advs M mode cfg ws =
     require (0 < get_or (2 / 10 ^ 4) (ac_kl_cov_ratio cfg)) AssertionError
       (let ratio = get_or (2 / 10 ^ 4) (ac_kl_cov_ratio cfg); coef = get_or 1 (ac_ppo_kl_coef cfg);
            L1 = mzip3 (\<lambda>p l a. - a * exp (l - p)) old_lps lps advs;
            Lkl = mzip3 (\<lambda>p l a. - a * exp (l - p) + coef * \<bar>l - p\<bar>) old_lps lps advs;
            valid = filter (\<lambda>ij. 0 < entry M ij) (positions M);
            as = map (entry advs) valid; ls = map (entry lps) valid;
            cov = vzip (\<lambda>a l. (a - avg as) * (l - avg ls)) as ls;
            k = max 1 (nat \<lfloor>real (length cov) * ratio\<rfloor>)
        in require (valid = [] \<or> k \<le> length cov) RuntimeError
          (let chosen = (if valid = [] then [] else map (\<lambda>i. valid ! i) (topk k cov));
               L = mmap_at (\<lambda>ij l. if ij \<in> set chosen then entry Lkl ij else l) L1
           in bind_r (agg_loss (corrected ws L) M mode (ac_info cfg)) (\<lambda>loss.
             Inr (loss, [(''actor/ppo_kl'', masked_mean (mzip (\<lambda>p l. \<bar>l - p\<bar>) old_lps lps) M)]))))"

definition compute_policy_loss_reinforce :: "mat \<Rightarrow> mat \<Rightarrow> mat \<Rightarrow> mat \<Rightarrow> string \<Rightarrow> actor_config \<Rightarrow> mat option \<Rightarrow> loss_result" where
  "compute_policy_loss_reinforce rollout_lps lps advs M mode cfg ws =
     bind_r (agg_loss (corrected ws (mzip (\<lambda>a l. - a * l) advs lps)) M mode (ac_info cfg)) (\<lambda>loss.
       Inr (loss, [(''actor/ppo_kl'', masked_mean (mzip (\<lambda>p l. - (l - p)) rollout_lps lps) M)]))"

section \<open>Aggregation over data-parallel ranks\<close>

text \<open>What a micro batch adds to the loss, before it is divided by the global count.\<close>

definition loss_total :: "string \<Rightarrow> mat \<Rightarrow> mat \<Rightarrow> real" where
  "loss_total mode L M =
     (if mode = ''token-mean'' then masked_sum L M
      else if mode = ''seq-mean-token-mean''
      then masked_sum_vec (vzip (\<lambda>s row. s / (sum_list row + 1 / 10 ^ 8)) (map sum_list (mzip (\<lambda>l m. l * m) L M)) M) (seq_present M)
      else masked_sum_vec (map sum_list (mzip (\<lambda>l m. l * m) L M)) (seq_present M))"

definition known_mode :: "string \<Rightarrow> bool" where
  "known_mode mode \<longleftrightarrow> mode \<in> {''token-mean'', ''seq-mean-token-sum'', ''seq-mean-token-sum-norm'', ''seq-mean-token-mean''}"

text \<open>The counts of the whole batch that are handed to every rank.\<close>

definition global_info :: "nat \<Rightarrow> mat \<Rightarrow> real \<Rightarrow> batch_info" where
  "global_info dp M s = \<lparr>bi_dp_size = dp, bi_num_tokens = Some (msum M), bi_batch_size = Some (sum_list (seq_present M)),
     bi_scale_factor = Some s\<rparr>"

definition divisor :: "string \<Rightarrow> mat \<Rightarrow> real \<Rightarrow> real" where
  "divisor mode M s = (if mode = ''token-mean'' then msum M
     else if mode = ''seq-mean-token-sum-norm'' then sum_list (seq_present M) * s else sum_list (seq_present M))"

lemma agg_loss_global:
  assumes "known_mode mode" "divisor mode G s \<noteq> 0"
  shows "agg_loss L M mode (global_info dp G s) = Inr (Some (loss_total mode L M * real dp / divisor mode G s))"
  using assms unfolding known_mode_def insert_iff empty_iff
  by (elim disjE FalseE; simp add: agg_loss_def loss_total_def global_info_def needs_global_def times_dp_def div_fin_def divisor_def Let_def)

lemma agg_loss_single:
  assumes "known_mode mode" "divisor mode M s \<noteq> 0"
  shows "agg_loss L M mode \<lparr>bi_dp_size = 1, bi_num_tokens = None, bi_batch_size = None, bi_scale_factor = Some s\<rparr> =
    Inr (Some (loss_total mode L M / divisor mode M s))"
  using assms unfolding known_mode_def insert_iff empty_iff
  by (elim disjE FalseE; simp add: agg_loss_def loss_total_def needs_global_def times_dp_def div_fin_def divisor_def Let_def)

lemma seq_present_append: "seq_present (A @ B) = seq_present A @ seq_present B"
  by (simp add: seq_present_def)

lemma loss_total_append:
  assumes "length L = length M"
  shows "loss_total mode (L @ L') (M @ M') = loss_total mode L M + loss_total mode L' M'"
  using assms by (simp add: loss_total_def masked_sum_def mzip_def vzip_append masked_sum_vec_def seq_present_def)

lemma loss_total_concat:
  "list_all2 (\<lambda>L M. length L = length M) Ls Ms \<Longrightarrow>
    sum_list (vzip (loss_total mode) Ls Ms) = loss_total mode (concat Ls) (concat Ms)"
proof (induction rule: list_all2_induct)
  case Nil
  show ?case by (simp add: loss_total_def masked_sum_def masked_sum_vec_def seq_present_def)
next
  case (Cons L Ls M Ms)
  then show ?case by (simp only: vzip_simps sum_list.Cons concat.simps loss_total_append)
qed

text \<open>C13 The average over the data-parallel ranks of the losses they aggregate from their own rows, with the counts of
  the whole batch, is the loss aggregated from the whole batch at once, in every mode: the loss does not
  depend on how the rows are spread over the ranks.\<close>

theorem agg_loss_parallelism_invariant:
  assumes "known_mode mode" "Ls \<noteq> []" "list_all2 (\<lambda>L M. length L = length M) Ls Ms" "divisor mode (concat Ms) s \<noteq> 0"
  shows "\<exists>xs. map_r (\<lambda>(L, M). agg_loss L M mode (global_info (length Ls) (concat Ms) s)) (zip Ls Ms) = Inr (map Some xs) \<and>
    agg_loss (concat Ls) (concat Ms) mode \<lparr>bi_dp_size = 1, bi_num_tokens = None, bi_batch_size = None, bi_scale_factor = Some s\<rparr> =
      Inr (Some (sum_list xs / real (length Ls)))"
proof -
  let ?d = "divisor mode (concat Ms) s"
  let ?x = "\<lambda>(L, M). loss_total mode L M * real (length Ls) / ?d"
  have "map_r (\<lambda>(L, M). agg_loss L M mode (global_info (length Ls) (concat Ms) s)) (zip Ls Ms) = Inr (map (\<lambda>p. Some (?x p)) (zip Ls Ms))"
    by (rule map_r_total) (use agg_loss_global [OF assms(1,4)] in auto)
  moreover have "sum_list (map ?x (zip Ls Ms)) = real (length Ls) / ?d * sum_list (vzip (loss_total mode) Ls Ms)"
    unfolding vzip_def by (induction "zip Ls Ms") (auto simp: sum_list_const_mult [symmetric] case_prod_beta mult.commute)
  then have "sum_list (map ?x (zip Ls Ms)) / real (length Ls) = loss_total mode (concat Ls) (concat Ms) / ?d"
    using assms(2) unfolding loss_total_concat [OF assms(3)] by simp
  ultimately show ?thesis using agg_loss_single [OF assms(1,4), of "concat Ls"]
    by (intro exI [of _ "map ?x (zip Ls Ms)"]) (simp add: comp_def)
qed


section \<open>Token losses\<close>

text \<open>The dual-clip loss of a token: inside the clip range (and, for a negative advantage, below the bound c) it is the
  plain policy gradient; for a non-negative advantage it never rewards a ratio above the range, for a
  negative one it never rewards a ratio below the range and is at most the advantage times c.\<close>

theorem dual_clip_loss_bounds:
  assumes "0 \<le> lo" "lo < 1" "0 \<le> hi" "1 < c" "0 < r"
  shows "(0 \<le> a \<longrightarrow> - a * (1 + hi) \<le> dual_clip_loss lo hi c r a \<and> - a * r \<le> dual_clip_loss lo hi c r a) \<and>
    (a < 0 \<longrightarrow> - a * (1 - lo) \<le> dual_clip_loss lo hi c r a \<and> dual_clip_loss lo hi c r a \<le> - a * c) \<and>
    (1 - lo \<le> r \<and> r \<le> 1 + hi \<and> (a < 0 \<longrightarrow> r \<le> c) \<longrightarrow> dual_clip_loss lo hi c r a = - a * r)"
proof (intro conjI impI)
  have cl: "1 - lo \<le> clamp (1 - lo) (1 + hi) r" "clamp (1 - lo) (1 + hi) r \<le> 1 + hi"
    using clamp_bounds [of "1 - lo" "1 + hi" r] assms(1,3) by simp_all
  {
    assume a: "0 \<le> a"
    have "a * clamp (1 - lo) (1 + hi) r \<le> a * (1 + hi)" using cl(2) a by (rule mult_left_mono)
    then show "- a * (1 + hi) \<le> dual_clip_loss lo hi c r a" "- a * r \<le> dual_clip_loss lo hi c r a"
      using a by (simp_all add: dual_clip_loss_def pg_losses1_def pg_losses2_def Let_def max_def)
  next
    assume a: "a < 0"
    have "- a * (1 - lo) \<le> - a * clamp (1 - lo) (1 + hi) r" using cl(1) a by (intro mult_left_mono) simp_all
    moreover have "- a * (1 - lo) \<le> - a * c" using a assms(1,4) by (intro mult_left_mono) simp_all
    ultimately show "- a * (1 - lo) \<le> dual_clip_loss lo hi c r a" "dual_clip_loss lo hi c r a \<le> - a * c"
      using a by (simp_all add: dual_clip_loss_def pg_losses1_def pg_losses2_def Let_def max_def)
  next
    assume r: "1 - lo \<le> r \<and> r \<le> 1 + hi \<and> (a < 0 \<longrightarrow> r \<le> c)"
    have "- a * r \<le> - a * c" if "a < 0" using that r by (intro mult_left_mono) simp_all
    with r show "dual_clip_loss lo hi c r a = - a * r"
      by (auto simp: dual_clip_loss_def pg_losses1_def pg_losses2_def Let_def clamp_id min_def)
  }
qed

text \<open>A KL penalty whose name ends in a plus has the value of the estimator without the plus and the derivative of the
  squared estimator k2, which is the log ratio; without the plus, k1 has the constant derivative 1.\<close>

theorem kl_penalty_straight_through:
  assumes "kl_penalty_forward (x, 1) (y, 0) est = Inr (v, d)"
  shows "kl_penalty (x, 1) (y, 0) (est @ ''+'') = Inr (v, x - y) \<and>
    kl_penalty_forward (x, 1) (y, 0) ''k2'' = Inr ((x - y) ^ 2 / 2, x - y) \<and>
    kl_penalty_forward (x, 1) (y, 0) ''k1'' = Inr (x - y, 1)"
proof -
  have "last (est @ ''+'') \<noteq> last ''mse''" "last (est @ ''+'') \<noteq> last ''k2''" by simp_all
  then have "est @ ''+'' \<noteq> ''mse''" "est @ ''+'' \<noteq> ''k2''" by (auto simp del: last_snoc last.simps)
  moreover have "ends_plus (est @ ''+'')" by (simp add: ends_plus_def)
  ultimately show ?thesis using assms
    by (simp add: kl_penalty_def d_add_def d_sub_def d_scale_def d_square_def detach_def Let_def kl_penalty_forward_def [of _ _ "''k1''"]
        kl_penalty_forward_def [of _ _ "''k2''"])
qed

text \<open>The low-variance estimator k3 is never negative and at most 10, is zero when the policies agree on the token, and is,
  up to its two clamps, at least the log ratio k1 less one.\<close>

theorem k3_bounds:
  shows "\<exists>v d. kl_penalty_forward (x, 1) (y, 0) ''k3'' = Inr (v, d) \<and> 0 \<le> v \<and> v \<le> 10 \<and> (x = y \<longrightarrow> v = 0) \<and>
    min (clamp (-20) 20 (x - y) - 1) 10 \<le> v"
proof -
  define k where "k = clamp (-20) 20 (y - x)"
  have k: "1 \<le> exp k - k" using exp_ge_add_one_self [of k] by linarith
  have e: "0 < exp k" by simp
  have sym: "clamp (-20) 20 (x - y) = - k" by (simp add: k_def clamp_def min_def max_def)
  have zero: "x = y \<longrightarrow> k = 0" by (simp add: k_def clamp_def)
  have "clamp (-10) 10 (exp k - k - 1) = min 10 (exp k - k - 1)" using k by (simp add: clamp_def min_def max_def)
  then have "\<exists>d. kl_penalty_forward (x, 1) (y, 0) ''k3'' = Inr (min 10 (exp k - k - 1), d)"
    by (simp add: kl_penalty_forward_def Let_def d_clamp_def d_sub_def d_exp_def k_def)
  moreover have "0 \<le> min 10 (exp k - k - 1)" using k by simp
  moreover have "- k - 1 \<le> exp k - k - 1" using e by linarith
  then have "min (- k - 1) 10 \<le> min 10 (exp k - k - 1)" by (simp only: min.mono min.commute [of _ 10] order_refl)
  moreover have "x = y \<longrightarrow> min 10 (exp k - k - 1) = 0" using zero by auto
  ultimately show ?thesis unfolding sym by (metis min.cobounded1)
qed

section \<open>Controllers\<close>

lemma minus_fifth: "v * 5 < w \<Longrightarrow> v + w * -(1/5) < 0" for v w :: real
  by simp

text \<open>The adaptive KL coefficient rises when the divergence is above its target, falls when it is below, changes by a
  factor within 20 percent of the step fraction, and stays positive as long as fewer steps than five
  horizons are reported at once; with more, a low divergence makes it negative.\<close>

theorem adaptive_kl_update:
  assumes "0 < v" "0 < target" "0 < horizon" "0 < n"
  shows "(target < kl \<longrightarrow> v < kl_value (kl_update kl n (Adaptive v target horizon))) \<and>
    (kl < target \<longrightarrow> kl_value (kl_update kl n (Adaptive v target horizon)) < v) \<and>
    \<bar>kl_value (kl_update kl n (Adaptive v target horizon)) - v\<bar> \<le> v * (n / horizon) / 5 \<and>
    (n < 5 * horizon \<longrightarrow> 0 < kl_value (kl_update kl n (Adaptive v target horizon))) \<and>
    (5 * horizon < n \<and> kl \<le> 4 / 5 * target \<longrightarrow> kl_value (kl_update kl n (Adaptive v target horizon)) < 0)"
proof -
  define e where "e = clamp (-(1/5)) (1/5) (kl / target - 1)"
  have val: "kl_value (kl_update kl n (Adaptive v target horizon)) = v + v * (n / horizon) * e"
    by (simp add: kl_value_def Let_def e_def algebra_simps)
  have f: "0 < v * (n / horizon)" using assms by simp
  have e: "-(1/5) \<le> e" "e \<le> 1/5" using clamp_bounds [of "-(1/5)" "1/5"] by (simp_all add: e_def)
  have up: "0 < e" if "target < kl"
  proof -
    have "1 < kl / target" using that assms(2) by (simp add: pos_less_divide_eq)
    then show ?thesis by (simp add: e_def clamp_def)
  qed
  have down: "e < 0" if "kl < target"
  proof -
    have "kl / target < 1" using that assms(2) by (simp add: pos_divide_less_eq)
    then show ?thesis by (simp add: e_def clamp_def)
  qed
  have low: "e = -(1/5)" if "kl \<le> 4 / 5 * target"
  proof -
    have "kl / target - 1 \<le> - (1/5)" using that assms(2) by (simp add: field_simps)
    then show ?thesis unfolding e_def clamp_def by (simp only: max_absorb2 min_def) simp
  qed
  have "\<bar>v * (n / horizon) * e\<bar> \<le> v * (n / horizon) * (1 / 5)"
  proof -
    have "\<bar>e\<bar> \<le> 1 / 5" using e by linarith
    then show ?thesis unfolding abs_mult [of "v * (n / horizon)"] abs_of_pos [OF f] using f by (intro mult_left_mono) simp_all
  qed
  moreover have "0 < v + v * (n / horizon) * e" if "n < 5 * horizon"
  proof -
    have "n / horizon < 5" using that assms(3) by (simp add: pos_divide_less_eq)
    then have "v * (n / horizon) < v * 5" using assms(1) by (rule mult_strict_left_mono)
    moreover have "- (v * (n / horizon) * (1 / 5)) \<le> v * (n / horizon) * e" using f e(1) mult_left_mono [of "-(1/5)" e "v * (n / horizon)"] by simp
    ultimately show ?thesis by simp
  qed
  moreover have "v + v * (n / horizon) * e < 0" if "5 * horizon < n" "kl \<le> 4 / 5 * target"
  proof -
    have "5 < n / horizon" using that(1) assms(3) by (simp add: pos_less_divide_eq)
    then have "v * 5 < v * (n / horizon)" using assms(1) by (rule mult_strict_left_mono)
    then show ?thesis unfolding low [OF that(2)] by (rule minus_fifth)
  qed
  moreover have "v < v + v * (n / horizon) * e" if "target < kl" using mult_pos_pos [OF f up [OF that]] by linarith
  moreover have "v + v * (n / horizon) * e < v" if "kl < target" using mult_pos_neg [OF f down [OF that]] by linarith
  ultimately show ?thesis unfolding val by (simp only: add_diff_cancel_left' implies_True_equals simp_thms mult_1_right times_divide_eq_right) blast
qed

section \<open>Examples\<close>

theorem agg_loss_witness:
  "\<exists>xs. map_r (\<lambda>(L, M). agg_loss L M ''token-mean'' (global_info (length [[[3, 4]], [[1, 5 :: real]]]) (concat [[[1, 1]], [[1, 0]]]) 7))
      (zip [[[3, 4]], [[1, 5]]] [[[1, 1]], [[1, 0]]]) = Inr (map Some xs) \<and>
    agg_loss (concat [[[3, 4]], [[1, 5]]]) (concat [[[1, 1]], [[1, 0]]]) ''token-mean''
      \<lparr>bi_dp_size = 1, bi_num_tokens = None, bi_batch_size = None, bi_scale_factor = Some 7\<rparr> =
      Inr (Some (sum_list xs / real (length [[[3, 4]], [[1, 5 :: real]]])))"
  by (rule agg_loss_parallelism_invariant) (simp_all add: known_mode_def divisor_def)

theorem dual_clip_witness:
  "dual_clip_loss (1/5) (1/5) 3 2 1 \<ge> - (6/5) \<and> dual_clip_loss (1/5) (1/5) 3 2 (-1) \<le> 3 \<and>
   dual_clip_loss (1/5) (1/5) 3 1 (-1) = 1"
  using dual_clip_loss_bounds [of "1/5" "1/5" 3 2 1] dual_clip_loss_bounds [of "1/5" "1/5" 3 2 "-1"]
    dual_clip_loss_bounds [of "1/5" "1/5" 3 1 "-1"] by simp

theorem kl_plus_witness: "kl_penalty (3, 1) (1, 0) ''abs+'' = Inr (2, 2)"
  using kl_penalty_straight_through [of 3 1 "''abs''" 2 1] by (simp add: kl_penalty_forward_def d_abs_def d_sub_def)

theorem adaptive_kl_witness:
  "kl_value (kl_update 0 (60 :: real) (Adaptive 1 1 10)) < 0 \<and> 1 < kl_value (kl_update 2 (5 :: real) (Adaptive 1 1 10))"
  using adaptive_kl_update [of 1 1 10 60 0] adaptive_kl_update [of 1 1 10 5 2] by simp

end
