(* ===== verification/TokenBaseline.thy ===== *)
theory TokenBaseline
  imports Advantage
begin

text \<open>
  The optimal token baselines of \<^verbatim>\<open>verl/trainer/ppo/core_algos.py\<close>: a baseline per prompt group and time step,
  the average of the rewards to go weighted by the cumulative path variance, for responses of one turn and,
  on the tokens that the mask keeps, of several turns. Where a denominator is zero, torch gives an infinity
  or a NaN; the result is None.
\<close>

section \<open>Definitions\<close>

definition cumsum :: "vec \<Rightarrow> vec" where
  "cumsum xs = map (\<lambda>i. sum_list (take (Suc i) xs)) [0..<length xs]"

text \<open>\<open>1 - 2 p + (sum of squared probabilities)\<close> per token, times the squared importance weight, accumulated.\<close>

definition path_variance :: "mat \<Rightarrow> mat \<Rightarrow> mat \<Rightarrow> mat option \<Rightarrow> mat" where
  "path_variance M lps sum_pi_squared ws =
     (let w = mzip (\<lambda>l s. 1 - 2 * exp l + s) lps sum_pi_squared;
          w' = (case ws of None \<Rightarrow> w | Some R \<Rightarrow> mzip (\<lambda>a r. a * r ^ 2) w R)
      in map cumsum (mzip (\<lambda>a m. a * m) w' M))"

text \<open>The longest response of a group, if it is the only one, and the second largest length.\<close>

definition second_largest :: "vec \<Rightarrow> nat" where
  "second_largest lens = nat \<lfloor>sort lens ! (length lens - 2)\<rfloor>"

definition only_longest :: "vec \<Rightarrow> real \<Rightarrow> bool" where
  "only_longest lens l =
     (let mx = nat \<lfloor>last (sort lens)\<rfloor>
      in l = real mx \<and> length (filter (\<lambda>x. x = real mx) lens) = 1 \<and> second_largest lens < mx)"

definition group_rows :: "bool \<Rightarrow> nat \<Rightarrow> (nat \<Rightarrow> real) \<Rightarrow> (nat list \<Rightarrow> vec) \<Rightarrow> nat list \<Rightarrow> (nat \<times> vec) list" where
  "group_rows handle_zero_tail width len baseline is =
     (if length is = 1 then map (\<lambda>i. (i, replicate width 0)) is
      else (let b = baseline is; lens = map len is in
        map (\<lambda>i. (i, if handle_zero_tail \<and> only_longest lens (len i)
                   then take (second_largest lens) b @ replicate (width - second_largest lens) 0 else b)) is))"

definition baseline_of :: "('g, (nat \<times> vec) list) dict \<Rightarrow> 'g \<Rightarrow> nat \<Rightarrow> nat \<Rightarrow> vec" where
  "baseline_of table g i width = (case map_of table g of
       None \<Rightarrow> replicate width 0
     | Some rows \<Rightarrow> (case map_of rows i of None \<Rightarrow> replicate width 0 | Some b \<Rightarrow> b))"

definition weighted_ratio :: "real \<Rightarrow> (nat \<Rightarrow> nat \<Rightarrow> real) \<Rightarrow> (nat \<Rightarrow> nat \<Rightarrow> real) \<Rightarrow> nat \<Rightarrow> nat list \<Rightarrow> vec" where
  "weighted_ratio epsilon num w width is =
     map (\<lambda>t. sum_list (map (\<lambda>i. num i t) is) / (sum_list (map (\<lambda>i. w i t) is) + epsilon)) [0..<width]"

definition degenerate :: "real \<Rightarrow> (nat \<Rightarrow> nat \<Rightarrow> real) \<Rightarrow> nat \<Rightarrow> nat list \<Rightarrow> bool" where
  "degenerate epsilon w width is \<longleftrightarrow> length is \<noteq> 1 \<and> (\<exists>t < width. sum_list (map (\<lambda>i. w i t) is) + epsilon = 0)"

definition mat_width :: "mat \<Rightarrow> nat" where
  "mat_width A = (case A of [] \<Rightarrow> 0 | row # _ \<Rightarrow> length row)"

definition compute_optimal_token_baseline_advantage :: "mat \<Rightarrow> mat \<Rightarrow> 'g list \<Rightarrow> mat \<Rightarrow> mat \<Rightarrow> mat option \<Rightarrow> bool \<Rightarrow> real \<Rightarrow>
    (mat \<times> mat) option result" where
  "compute_optimal_token_baseline_advantage R M index lps sum_pi_squared ws handle_zero_tail epsilon =
     require (length R \<le> length index) IndexError
       (let T = mat_width R; G = rewards_to_go R M; W = path_variance M lps sum_pi_squared ws;
            groups = group_by index [0..<length R];
            num = (\<lambda>i t. G ! i ! t * W ! i ! t * M ! i ! t); w = (\<lambda>i t. W ! i ! t * M ! i ! t);
            table = map (\<lambda>(g, is). (g, group_rows handle_zero_tail T (\<lambda>i. sum_list (M ! i)) (weighted_ratio epsilon num w T) is)) groups;
            B = map (\<lambda>i. baseline_of table (index ! i) i T) [0..<length R]
        in Inr (if \<exists>(g, is) \<in> set groups. degenerate epsilon w T is then None
             else Some (mzip (\<lambda>a m. a * m) (mzip (\<lambda>g b. g - b) G B) M, G)))"

text \<open>Several turns: the kept tokens of a row move to the front, and back after the baseline is subtracted.\<close>

definition row_len :: "mat \<Rightarrow> nat \<Rightarrow> nat" where
  "row_len M i = nat \<lfloor>sum_list (M ! i)\<rfloor>"

definition compress :: "vec \<Rightarrow> vec \<Rightarrow> nat \<Rightarrow> nat \<Rightarrow> vec" where
  "compress xs m l width = (if l = 0 then replicate width 0 else kept xs m @ replicate (width - l) 0)"

fun scatter :: "vec \<Rightarrow> vec \<Rightarrow> vec" where
  "scatter [] xs = []"
| "scatter (b # m) xs =
     (if b = 0 then 0 # scatter m xs else case xs of [] \<Rightarrow> 0 # scatter m [] | x # xs' \<Rightarrow> x # scatter m xs')"

definition compute_multi_turn_optimal_token_baseline_advantage :: "mat \<Rightarrow> mat \<Rightarrow> 'g list \<Rightarrow> mat \<Rightarrow> mat \<Rightarrow> mat option \<Rightarrow> bool \<Rightarrow> real \<Rightarrow>
    (mat \<times> mat) option result" where
  "compute_multi_turn_optimal_token_baseline_advantage R M index lps sum_pi_squared ws handle_zero_tail epsilon =
     (let G = rewards_to_go R M; W = path_variance M lps sum_pi_squared ws;
          n = length M; len = row_len M;
          width = (if M = [] then 0 else Max (len ` {0..<n}));
          rows = filter (\<lambda>i. len i \<noteq> 0) [0..<n]
      in require (\<forall>i \<in> set rows. length (kept (M ! i) (M ! i)) = len i) RuntimeError
        (require (\<forall>i \<in> set rows. i < length index) IndexError
          (let all_w = map (\<lambda>i. compress (W ! i) (M ! i) (len i) width) [0..<n];
               all_r = map (\<lambda>i. compress (G ! i) (M ! i) (len i) width) [0..<n];
               groups = group_by (map (\<lambda>i. index ! i) rows) rows;
               num = (\<lambda>i t. all_r ! i ! t * all_w ! i ! t); w = (\<lambda>i t. all_w ! i ! t);
               table = map (\<lambda>(g, is). (g, group_rows handle_zero_tail width (\<lambda>i. real (len i)) (weighted_ratio epsilon num w width) is)) groups;
               A = map (\<lambda>i. if len i = 0 then replicate (length (M ! i)) 0
                   else scatter (M ! i) (take (len i) (vzip (\<lambda>r b. r - b) (all_r ! i) (baseline_of table (index ! i) i width)))) [0..<n]
           in Inr (if \<exists>(g, is) \<in> set groups. degenerate epsilon w width is then None
                else Some (mzip (\<lambda>a m. a * m) A M, G)))))"

section \<open>One turn and several turns\<close>

lemma members_filter: "members g (map h xs) xs = filter (\<lambda>j. h j = g) xs"
  by (induction xs) (simp_all add: members_def)

lemma members_upt: "members g index [0..<length index] = filter (\<lambda>j. index ! j = g) [0..<length index]"
  using members_filter [of g "\<lambda>j. index ! j" "[0..<length index]"] by (simp add: map_nth)

lemma map_of_map_pair: "i \<in> set is \<Longrightarrow> map_of (map (\<lambda>i. (i, f i)) is) i = Some (f i)"
  by (induction "is") auto

lemma nth_cut_tail: "t < width \<Longrightarrow> length b = width \<Longrightarrow>
    (take s b @ replicate (width - s) 0) ! t = (if t < s then b ! t else (0 :: real))"
  by (auto simp: nth_append)

lemma sort_zeros:
  fixes xs :: vec
  assumes "\<forall>x \<in> set xs. 0 \<le> x"
  shows "sort xs = replicate (length (filter (\<lambda>x. x = 0) xs)) 0 @ sort (filter (\<lambda>x. x \<noteq> 0) xs)"
proof (rule properties_for_sort)
  have "mset (filter (\<lambda>x. x = 0) xs) = mset (replicate (length (filter (\<lambda>x. x = 0) xs)) 0)"
    by (induction xs) auto
  then show "mset (replicate (length (filter (\<lambda>x. x = 0) xs)) 0 @ sort (filter (\<lambda>x. x \<noteq> 0) xs)) = mset xs"
    by (metis mset_append mset_filter mset_sort multiset_partition)
  show "sorted (replicate (length (filter (\<lambda>x. x = 0) xs)) 0 @ sort (filter (\<lambda>x. x \<noteq> 0) xs))"
    using assms by (auto simp: sorted_append)
qed

text \<open>Empty responses count neither for the longest nor, beside two others, for the second longest.\<close>

lemma longest_without_zeros:
  fixes lens :: vec
  assumes nn: "\<forall>x \<in> set lens. 0 \<le> x" and ne: "2 \<le> length (filter (\<lambda>x. x \<noteq> 0) lens)" and l: "l \<noteq> 0"
  shows "second_largest lens = second_largest (filter (\<lambda>x. x \<noteq> 0) lens)"
    "only_longest lens l \<longleftrightarrow> only_longest (filter (\<lambda>x. x \<noteq> 0) lens) l"
proof -
  let ?f = "filter (\<lambda>x. x \<noteq> 0) lens" and ?k = "length (filter (\<lambda>x. x = 0) lens)"
  note srt = sort_zeros [OF nn]
  have "length lens = ?k + length ?f" by (induction lens) auto
  then have i: "length lens - 2 = ?k + (length ?f - 2)" using ne by simp
  have "sort lens ! (?k + j) = sort ?f ! j" for j unfolding srt by (simp add: nth_append)
  with i show s: "second_largest lens = second_largest ?f" by (simp add: second_largest_def)
  have "sort ?f \<noteq> []" using ne by (metis length_sort list.size(3) not_numeral_le_zero)
  then have "last (sort lens) = last (sort ?f)" unfolding srt by simp
  moreover have "filter (\<lambda>x. x = l) lens = filter (\<lambda>x. x = l) ?f" using l by (induction lens) auto
  ultimately show "only_longest lens l \<longleftrightarrow> only_longest ?f l"
    using s by (auto simp: only_longest_def Let_def)
qed

lemma longest_alone:
  fixes lens :: vec
  assumes nn: "\<forall>x \<in> set lens. 0 \<le> x" and one: "filter (\<lambda>x. x \<noteq> 0) lens = [l]" and n: "length lens \<noteq> 1" and l: "l = real k"
  shows "second_largest lens = 0" "only_longest lens l"
proof -
  let ?k = "length (filter (\<lambda>x. x = 0) lens)"
  have srt: "sort lens = replicate ?k 0 @ [l]" using sort_zeros [OF nn] one by simp
  have "length lens = ?k + length (filter (\<lambda>x. x \<noteq> 0) lens)" by (induction lens) auto
  then have "length lens = Suc ?k" using one by simp
  moreover from this n have "0 < ?k" by simp
  ultimately show s: "second_largest lens = 0" unfolding second_largest_def srt by (simp add: nth_append)
  have "l \<in> set (filter (\<lambda>x. x \<noteq> 0) lens)" using one by simp
  then have nz: "l \<noteq> 0" by simp
  then have "filter (\<lambda>x. x = l) lens = filter (\<lambda>x. x = l) [l]" unfolding one [symmetric] by (induction lens) auto
  then show "only_longest lens l" using s nz l unfolding only_longest_def srt by (simp add: Let_def)
qed

definition prefix_mask :: "nat \<Rightarrow> mat \<Rightarrow> bool" where
  "prefix_mask T M \<longleftrightarrow> (\<forall>row \<in> set M. \<exists>l \<le> T. row = replicate l 1 @ replicate (T - l) 0)"

lemma kept_prefix: "length xs = T \<Longrightarrow> l \<le> T \<Longrightarrow> kept xs (replicate l 1 @ replicate (T - l) 0) = take l xs"
proof -
  have z: "kept ys (replicate k 0) = []" for ys :: "'a list" and k
    by (induction ys arbitrary: k) (auto simp: kept_def zip_replicate2)
  have "kept xs (replicate l 1 @ replicate k 0) = take l xs" if "l \<le> length xs" for k
    using that
  proof (induction l arbitrary: xs)
    case (Suc l)
    then show ?case by (cases xs) simp_all
  qed (simp add: z)
  then show "length xs = T \<Longrightarrow> l \<le> T \<Longrightarrow> kept xs (replicate l 1 @ replicate (T - l) 0) = take l xs" by simp
qed

lemma scatter_prefix: "length xs = l \<Longrightarrow> scatter (replicate l 1 @ replicate k 0) xs = xs @ replicate k 0"
proof (induction l arbitrary: xs)
  case 0
  then show ?case by (induction k) simp_all
next
  case (Suc l)
  then show ?case by (cases xs) simp_all
qed

lemma row_prefix:
  assumes "prefix_mask T M" "i < length M"
  obtains l where "l \<le> T" "M ! i = replicate l 1 @ replicate (T - l) 0" "row_len M i = l" "sum_list (M ! i) = real l"
proof -
  from assms obtain l where l: "l \<le> T" "M ! i = replicate l 1 @ replicate (T - l) 0" unfolding prefix_mask_def by (meson nth_mem)
  then have "sum_list (M ! i) = real l" by (simp add: sum_list_replicate)
  with l show ?thesis by (intro that [OF l]) (simp_all add: row_len_def)
qed

text \<open>The baseline of a response does not change when the empty responses leave its group.\<close>

lemma group_rows_agree:
  assumes i: "i \<in> set is" "len i \<noteq> 0" and l1: "\<And>j. j \<in> set is \<Longrightarrow> len1 j = real (len j)"
    and w: "\<And>j t. j \<in> set is \<Longrightarrow> t < width' \<Longrightarrow> w j t = (if len j \<noteq> 0 then w' j t else 0)"
    and num: "\<And>j t. j \<in> set is \<Longrightarrow> t < width' \<Longrightarrow> num j t = (if len j \<noteq> 0 then num' j t else 0)"
    and t: "t < width'" "width' \<le> width"
  shows "\<exists>b b'. map_of (group_rows True width len1 (weighted_ratio epsilon num w width) is) i = Some b \<and>
    map_of (group_rows True width' (\<lambda>j. real (len j)) (weighted_ratio epsilon num' w' width') (filter (\<lambda>j. len j \<noteq> 0) is)) i = Some b' \<and>
    b ! t = b' ! t"
proof -
  let ?is' = "filter (\<lambda>j. len j \<noteq> 0) is"
  let ?b = "weighted_ratio epsilon num w width is" and ?b' = "weighted_ratio epsilon num' w' width' ?is'"
  have i': "i \<in> set ?is'" using i by simp
  have lens: "map len1 is = map (\<lambda>j. real (len j)) is" using l1 by simp
  let ?lens = "map (\<lambda>j. real (len j)) is"
  have f: "filter (\<lambda>x. x \<noteq> 0) ?lens = map (\<lambda>j. real (len j)) ?is'" by (induction "is") auto
  have nn: "\<forall>x \<in> set ?lens. 0 \<le> x" by simp
  have wb: "length ?b = width" "length ?b' = width'" by (simp_all add: weighted_ratio_def)
  have bt: "?b ! t = ?b' ! t"
  proof -
    have "sum_list (map (\<lambda>j. num j t) is) = sum_list (map (\<lambda>j. num j t) ?is')"
      by (rule sum_list_map_filter [symmetric]) (use num t in simp)
    also have "\<dots> = sum_list (map (\<lambda>j. num' j t) ?is')" by (rule arg_cong [where f = sum_list], rule map_cong) (use num t in auto)
    finally have "sum_list (map (\<lambda>j. num j t) is) = sum_list (map (\<lambda>j. num' j t) ?is')" .
    moreover have "sum_list (map (\<lambda>j. w j t) is) = sum_list (map (\<lambda>j. w j t) ?is')"
      by (rule sum_list_map_filter [symmetric]) (use w t in simp)
    moreover have "sum_list (map (\<lambda>j. w j t) ?is') = sum_list (map (\<lambda>j. w' j t) ?is')"
      by (rule arg_cong [where f = sum_list], rule map_cong) (use w t in auto)
    ultimately show ?thesis using t by (simp add: weighted_ratio_def)
  qed
  have cut: "(if c then take s x @ replicate (k - s) 0 else x) ! t = (if c \<and> s \<le> t then 0 else x ! t)"
    if "t < k" "length x = k" for c s k and x :: vec
    using nth_cut_tail [OF that, of s] by auto
  define row where "row W lens b = (if only_longest lens (real (len i)) then take (second_largest lens) b @ replicate (W - second_largest lens) 0 else b)"
    for W lens and b :: vec
  show ?thesis
  proof (cases "length is = 1")
    case True
    then have "is = [i]" using i(1) by (cases "is") auto
    then show ?thesis using i(2) t by (simp add: group_rows_def)
  next
    case False
    have single: "map_of (group_rows True width len1 (weighted_ratio epsilon num w width) is) i = Some (row width ?lens ?b)"
      using False i(1) l1 unfolding group_rows_def Let_def lens row_def by (simp add: map_of_map_pair)
    show ?thesis
    proof (cases "length ?is' = 1")
      case one: True
      then obtain a where a: "?is' = [a]" by (auto simp: length_Suc_conv)
      have "i \<in> set [a]" using i' unfolding a .
      then have is': "?is' = [i]" using a by simp
      have "filter (\<lambda>x. x \<noteq> 0) ?lens = [real (len i)]" unfolding f is' by simp
      from longest_alone [OF nn this _ refl] False have "second_largest ?lens = 0" "only_longest ?lens (real (len i))" by simp_all
      then have "row width ?lens ?b = replicate width 0" by (simp add: row_def)
      then show ?thesis unfolding single is' using t by (simp add: group_rows_def)
    next
      case more: False
      have "length ?is' \<noteq> 0" using i' by (metis length_pos_if_in_set less_not_refl)
      then have n: "2 \<le> length (filter (\<lambda>x. x \<noteq> 0) ?lens)" using more unfolding f length_map by linarith
      have nz: "real (len i) \<noteq> 0" using i(2) by simp
      note same = longest_without_zeros [OF nn n nz]
      have multi: "map_of (group_rows True width' (\<lambda>j. real (len j)) (weighted_ratio epsilon num' w' width') ?is') i =
          Some (row width' (map (\<lambda>j. real (len j)) ?is') ?b')"
        using more i' unfolding group_rows_def Let_def row_def by (simp add: map_of_map_pair)
      have "row width ?lens ?b ! t = row width' (map (\<lambda>j. real (len j)) ?is') ?b' ! t"
        using t wb bt unfolding row_def same f [symmetric] by (simp add: cut)
      then show ?thesis using single multi by blast
    qed
  qed
qed

lemma degenerate_agree:
  assumes nd: "\<not> degenerate epsilon w width is" and ne: "filter (\<lambda>j. len j \<noteq> 0) is \<noteq> []"
    and w: "\<And>j t. j \<in> set is \<Longrightarrow> t < width' \<Longrightarrow> w j t = (if len j \<noteq> 0 then w' j t else 0)"
    and le: "width' \<le> width"
  shows "\<not> degenerate epsilon w' width' (filter (\<lambda>j. len j \<noteq> 0) is)"
proof
  let ?is' = "filter (\<lambda>j. len j \<noteq> 0) is"
  assume "degenerate epsilon w' width' ?is'"
  then obtain t where t: "length ?is' \<noteq> 1" "t < width'" "sum_list (map (\<lambda>i. w' i t) ?is') + epsilon = 0" unfolding degenerate_def by blast
  have "sum_list (map (\<lambda>j. w j t) is) = sum_list (map (\<lambda>j. w j t) ?is')"
    by (rule sum_list_map_filter [symmetric]) (use w t in simp)
  also have "\<dots> = sum_list (map (\<lambda>j. w' j t) ?is')" by (rule arg_cong [where f = sum_list], rule map_cong) (use w t in auto)
  finally have s: "sum_list (map (\<lambda>i. w i t) is) + epsilon = 0" using t(3) by simp
  have "length ?is' \<noteq> 0" using ne by simp
  then have "length is \<noteq> 1" using t(1) length_filter_le [of "\<lambda>j. len j \<noteq> 0" "is"] by linarith
  then show False using nd s t(2) le unfolding degenerate_def by (meson order_less_le_trans)
qed

lemma length_scatter [simp]: "length (scatter m xs) = length m"
  by (induction m xs rule: scatter.induct) (auto split: list.splits)

lemma length_group_row: "map_of (group_rows h width len1 (weighted_ratio epsilon num w width) is) i = Some b \<Longrightarrow> length b = width"
proof (drule map_of_SomeD)
  assume "(i, b) \<in> set (group_rows h width len1 (weighted_ratio epsilon num w width) is)"
  then show ?thesis by (auto simp: group_rows_def weighted_ratio_def Let_def split: if_splits)
qed

lemma length_baseline_of:
  "length (baseline_of (map (\<lambda>(g, is). (g, group_rows h width len1 (weighted_ratio epsilon num w width) is)) groups) g i width) = width"
  by (auto simp: baseline_of_def map_of_map_snd length_group_row split: option.splits)

lemma shape_path_variance:
  assumes "shape lps = shape M" "shape sp = shape M" "\<And>w. ws = Some w \<Longrightarrow> shape w = shape M"
  shows "shape (path_variance M lps sp ws) = shape M"
proof -
  have c: "shape (map cumsum A) = shape A" for A by (induction A) (simp_all add: cumsum_def)
  show ?thesis using assms by (cases ws) (simp_all add: path_variance_def Let_def c shape_mzip)
qed

lemma shape_rewards_to_go:
  assumes "shape R = shape M"
  shows "shape (rewards_to_go R M) = shape M"
proof -
  have l: "length (rev_cumsum xs) = length xs" for xs by (induction xs) simp_all
  have c: "shape (map rev_cumsum A) = shape A" for A by (induction A) (simp_all add: l)
  show ?thesis using assms by (simp add: rewards_to_go_def c shape_mzip)
qed

lemma compress_prefix:
  assumes "length xs = T" "l \<le> T" "m = replicate l 1 @ replicate (T - l) 0" "l \<le> width"
  shows "length (compress xs m l width) = width"
    "t < width \<Longrightarrow> compress xs m l width ! t = (if t < l then xs ! t else 0)"
  using assms by (auto simp: compress_def kept_prefix nth_append)

text \<open>For responses of one turn, whose mask is a prefix, the two optimal token baselines agree: moving the kept tokens to
  the front and back changes nothing, nor does leaving empty responses out of the groups.\<close>

theorem otb_turns_agree:
  assumes res: "compute_optimal_token_baseline_advantage R M index lps sp ws True epsilon = Inr (Some (A, G))"
    and shp: "same_shape R M" "same_shape lps M" "same_shape sp M" "\<And>w. ws = Some w \<Longrightarrow> same_shape w M"
    and index: "length index = length R" and prefix: "prefix_mask (mat_width R) M"
  shows "compute_multi_turn_optimal_token_baseline_advantage R M index lps sp ws True epsilon = Inr (Some (A, G))"
proof -
  let ?T = "mat_width R"
  define n where "n = length M"
  define len where "len = row_len M"
  define GG where "GG = rewards_to_go R M"
  define W where "W = path_variance M lps sp ws"
  define width where "width = (if M = [] then 0 else Max (len ` {0..<n}))"
  have shR: "shape R = shape M" using shp(1) by (simp add: same_shape_iff)
  have nR: "length R = n" unfolding n_def by (rule length_shape [OF shR])
  have shG: "shape GG = shape M" unfolding GG_def by (rule shape_rewards_to_go [OF shR])
  have shW: "shape W = shape M" unfolding W_def using shp(2-4) by (intro shape_path_variance) (simp_all add: same_shape_iff)
  have row: "len i \<le> ?T \<and> M ! i = replicate (len i) 1 @ replicate (?T - len i) 0 \<and> sum_list (M ! i) = real (len i)" if "i < n" for i
    using row_prefix [OF prefix, of i] that unfolding n_def len_def by metis
  have sums: "sum_list (M ! i) = real (len i)" if "i < n" for i using row [OF that] by blast
  have lenM: "length (M ! i) = ?T" if "i < n" for i using row [OF that] by (metis length_append length_replicate le_add_diff_inverse)
  have lenW: "length (W ! i) = ?T" "length (GG ! i) = ?T" if "i < n" for i
    using that shape_nth [OF shW, of i] shape_nth [OF shG, of i] length_shape [OF shW] length_shape [OF shG] lenM [OF that] by (simp_all add: n_def)
  have le: "len i \<le> width" if "i < n" for i using that by (auto simp: width_def n_def)
  have wT: "width \<le> ?T"
    using row by (auto simp: width_def n_def)
  define all_w where "all_w = map (\<lambda>i. compress (W ! i) (M ! i) (len i) width) [0..<n]"
  define all_r where "all_r = map (\<lambda>i. compress (GG ! i) (M ! i) (len i) width) [0..<n]"
  have m: "M ! i ! t = (if t < len i then 1 else 0)" if "i < n" "t < ?T" for i t
  proof -
    have e: "M ! i = replicate (len i) 1 @ replicate (?T - len i) 0" using row [OF that(1)] by blast
    have "(replicate (len i) 1 @ replicate (?T - len i) 0) ! t = (if t < len i then 1 else 0 :: real)"
      using that(2) by (simp add: nth_append)
    then show ?thesis unfolding e .
  qed
  have cw: "all_w ! i ! t = (if t < len i then W ! i ! t else 0)" "all_r ! i ! t = (if t < len i then GG ! i ! t else 0)"
    "length (all_r ! i) = width" if "i < n" "t < width" for i t
    using compress_prefix [OF lenW(1), of i "len i" "M ! i" width] compress_prefix [OF lenW(2), of i "len i" "M ! i" width] row le that
    by (simp_all add: all_w_def all_r_def)
  define num where "num = (\<lambda>i t. GG ! i ! t * W ! i ! t * M ! i ! t)"
  define w where "w = (\<lambda>i t. W ! i ! t * M ! i ! t)"
  define num' where "num' = (\<lambda>i t. all_r ! i ! t * all_w ! i ! t)"
  define w' where "w' = (\<lambda>i t. all_w ! i ! t)"
  have agree: "w i t = (if len i \<noteq> 0 then w' i t else 0)" "num i t = (if len i \<noteq> 0 then num' i t else 0)" if "i < n" "t < width" for i t
    using cw [OF that] m [of i t] that wT by (simp_all add: w_def num_def w'_def num'_def)
  define rows where "rows = filter (\<lambda>i. len i \<noteq> 0) [0..<n]"
  define groups where "groups = group_by index [0..<n]"
  define groups' where "groups' = group_by (map (\<lambda>i. index ! i) rows) rows"
  let ?is = "\<lambda>g. filter (\<lambda>j. index ! j = g) [0..<n]"
  have grp: "map_of groups g = (if ?is g = [] then None else Some (?is g))" for g
    using map_of_group_by [of index "[0..<n]" g] members_upt [of g index] index nR by (simp add: groups_def)
  have swap: "filter (\<lambda>j. index ! j = g) rows = filter (\<lambda>j. len j \<noteq> 0) (?is g)" for g
    unfolding rows_def filter_filter by (rule filter_cong) auto
  have grp': "map_of groups' g = (if filter (\<lambda>j. len j \<noteq> 0) (?is g) = [] then None else Some (filter (\<lambda>j. len j \<noteq> 0) (?is g)))" for g
    using map_of_group_by [of "map (\<lambda>i. index ! i) rows" rows g] members_filter [of g "\<lambda>j. index ! j" rows] unfolding groups'_def swap by simp
  have nd: "\<not> degenerate epsilon w ?T is" if "(g, is) \<in> set groups" for g "is"
    using res that index nR
    by (auto simp: compute_optimal_token_baseline_advantage_def Let_def groups_def w_def W_def split: if_splits)
  have nd': "\<not> degenerate epsilon w' width is" if "(g, is) \<in> set groups'" for g "is"
  proof -
    have "map_of groups' g = Some is" using that distinct_group_by unfolding groups'_def dict_keys_def by (metis map_of_is_SomeI)
    then have i: "is = filter (\<lambda>j. len j \<noteq> 0) (?is g)" "is \<noteq> []" unfolding grp' by (auto split: if_splits)
    then have "?is g \<noteq> []" by (metis filter.simps(1))
    then have "(g, ?is g) \<in> set groups" using grp [of g] by (simp add: map_of_SomeD)
    from degenerate_agree [OF nd [OF this], of len width w'] agree(1) wT i show ?thesis by simp
  qed
  let ?row = "\<lambda>is. group_rows True ?T (\<lambda>i. sum_list (M ! i)) (weighted_ratio epsilon num w ?T) is"
  let ?row' = "\<lambda>is. group_rows True width (\<lambda>i. real (len i)) (weighted_ratio epsilon num' w' width) is"
  define B where "B i = baseline_of (map (\<lambda>(g, is). (g, ?row is)) groups) (index ! i) i ?T" for i
  define B' where "B' i = baseline_of (map (\<lambda>(g, is). (g, ?row' is)) groups') (index ! i) i width" for i
  have base: "B i ! t = B' i ! t" if "i < n" "t < len i" for i t
  proof -
    let ?g = "index ! i"
    have mem: "i \<in> set (?is ?g)" using that(1) by simp
    then have "?is ?g \<noteq> []" "filter (\<lambda>j. len j \<noteq> 0) (?is ?g) \<noteq> []" using that by (auto simp: filter_empty_conv)
    then have maps: "map_of groups ?g = Some (?is ?g)" "map_of groups' ?g = Some (filter (\<lambda>j. len j \<noteq> 0) (?is ?g))"
      unfolding grp grp' by simp_all
    have "\<exists>b b'. map_of (?row (?is ?g)) i = Some b \<and> map_of (?row' (filter (\<lambda>j. len j \<noteq> 0) (?is ?g))) i = Some b' \<and> b ! t = b' ! t"
      by (rule group_rows_agree [OF mem]) (use that agree sums le [of i] wT in auto)
    then obtain b b' where b: "map_of (?row (?is ?g)) i = Some b"
      "map_of (?row' (filter (\<lambda>j. len j \<noteq> 0) (?is ?g))) i = Some b'" "b ! t = b' ! t" by blast
    show ?thesis by (simp only: B_def B'_def baseline_of_def map_of_map_snd maps option.map option.case b)
  qed
  let ?B = "map B [0..<n]"
  let ?A' = "map (\<lambda>i. if len i = 0 then replicate (length (M ! i)) 0
      else scatter (M ! i) (take (len i) (vzip (\<lambda>r b. r - b) (all_r ! i) (B' i)))) [0..<n]"
  have lB: "length (B i) = ?T" "length (B' i) = width" for i unfolding B_def B'_def by (rule length_baseline_of)+
  have shB: "shape ?B = shape M"
    unfolding shape_def by (rule nth_equalityI) (simp_all add: n_def [symmetric] lB(1) lenM)
  have shA': "shape ?A' = shape M"
    unfolding shape_def by (rule nth_equalityI) (simp_all add: n_def [symmetric])
  have "(if \<exists>(g, is) \<in> set groups. degenerate epsilon w ?T is then None
      else Some (mzip (\<lambda>a m. a * m) (mzip (\<lambda>g b. g - b) GG ?B) M, GG)) = Some (A, G)"
    using res unfolding compute_optimal_token_baseline_advantage_def Let_def require_Inr nR GG_def [symmetric] W_def [symmetric]
      groups_def [symmetric] num_def [symmetric] w_def [symmetric] B_def [symmetric] by (simp only: sum.inject)
  then have A: "A = mzip (\<lambda>a m. a * m) (mzip (\<lambda>g b. g - b) GG ?B) M" "G = GG" 
    by (metis option.distinct(1) option.inject prod.inject)+
  have shS: "shape (mzip (\<lambda>g b. g - b) GG ?B) = shape M" using shG shB by (simp add: shape_mzip)
  have "mzip (\<lambda>a m. a * m) ?A' M = A"
  proof (rule mat_eqI)
    show "shape (mzip (\<lambda>a m. a * m) ?A' M) = shape A" using shA' shS by (simp add: A(1) shape_mzip)
    fix i t
    assume it: "i < length (mzip (\<lambda>a m. a * m) ?A' M)" "t < length (mzip (\<lambda>a m. a * m) ?A' M ! i)"
    have sh: "shape (mzip (\<lambda>a m. a * m) ?A' M) = shape M" using shA' by (simp add: shape_mzip)
    have i: "i < n" and t: "t < length (M ! i)" using it length_shape [OF sh] shape_nth [OF sh it(1)] by (simp_all add: n_def)
    have tT: "t < ?T" using t lenM [OF i] by simp
    have "?A' ! i ! t * M ! i ! t = (GG ! i ! t - B i ! t) * M ! i ! t"
    proof (cases "t < len i")
      case True
      let ?x = "take (len i) (vzip (\<lambda>r b. r - b) (all_r ! i) (B' i))"
      have tw: "t < width" using True le [OF i] by simp
      have lx: "length ?x = len i" using cw(3) [OF i tw] lB(2) [of i] le [OF i] by simp
      have e: "M ! i = replicate (len i) 1 @ replicate (?T - len i) 0" using row [OF i] by blast
      have "?A' ! i = scatter (M ! i) ?x" using i True by simp
      also have "\<dots> = ?x @ replicate (?T - len i) 0" by (subst e, rule scatter_prefix [OF lx])
      finally have "?A' ! i ! t = ?x ! t" using True lx by (simp add: nth_append)
      also have "\<dots> = GG ! i ! t - B i ! t" using True tw cw [OF i tw] lB(2) [of i] base [OF i True] by simp
      finally show ?thesis by simp
    next
      case False
      then show ?thesis using m [OF i tT] by simp
    qed
    moreover have "mzip (\<lambda>a m. a * m) ?A' M ! i ! t = ?A' ! i ! t * M ! i ! t"
      using i t shape_nth [OF shA', of i] by (intro nth_mzip [OF shA']) simp_all
    moreover have "A ! i ! t = (GG ! i ! t - B i ! t) * M ! i ! t"
    proof -
      have gi: "i < length GG" "t < length (GG ! i)" using i tT lenW(2) [OF i] length_shape [OF shG] by (simp_all add: n_def)
      have si: "i < length (mzip (\<lambda>g b. g - b) GG ?B)" "t < length (mzip (\<lambda>g b. g - b) GG ?B ! i)"
        using i t length_shape [OF shS] shape_nth [OF shS, of i] by (simp_all add: n_def)
      have shGB: "shape GG = shape ?B" using shG shB by simp
      have "mzip (\<lambda>g b. g - b) GG ?B ! i ! t = GG ! i ! t - B i ! t"
        using nth_mzip [OF shGB gi, of "\<lambda>g b. g - b"] i by simp
      then show ?thesis unfolding A(1) using nth_mzip [OF shS si, of "\<lambda>a m. a * m"] by simp
    qed
    ultimately show "mzip (\<lambda>a m. a * m) ?A' M ! i ! t = A ! i ! t" by simp
  qed
  moreover have "length (kept (M ! i) (M ! i)) = len i \<and> i < length index" if "i \<in> set rows" for i
  proof -
    have i: "i < n" using that by (simp add: rows_def)
    have "kept (M ! i) (M ! i) = take (len i) (M ! i)"
      using row [OF i] kept_prefix [OF lenM [OF i], of "len i"] by metis
    then show ?thesis using row [OF i] lenM [OF i] i index nR by simp
  qed
  ultimately show ?thesis using nd' A(2)
    unfolding compute_multi_turn_optimal_token_baseline_advantage_def Let_def n_def [symmetric] len_def [symmetric] GG_def [symmetric]
      W_def [symmetric] width_def [symmetric] all_w_def [symmetric] all_r_def [symmetric] rows_def [symmetric] groups'_def [symmetric]
      num'_def [symmetric] w'_def [symmetric] B'_def [symmetric] by auto
qed

section \<open>Example\<close>

theorem otb_witness:
  "\<exists>A G. compute_optimal_token_baseline_advantage [[1, 0], [2, 0]] [[1, 1], [1, 0]] [0 :: nat, 0] [[0, 0], [0, 0]] [[2, 2], [2, 2]] None True 1
      = Inr (Some (A, G)) \<and>
    compute_multi_turn_optimal_token_baseline_advantage [[1, 0], [2, 0]] [[1, 1], [1, 0]] [0 :: nat, 0] [[0, 0], [0, 0]] [[2, 2], [2, 2]] None True 1
      = Inr (Some (A, G))"
proof -
  have W: "path_variance [[1, 1], [1, 0]] [[0, 0], [0, 0]] [[2, 2], [2, 2]] None = [[1, 2], [1, 1]]"
    by (simp add: path_variance_def cumsum_def Let_def)
  have g: "group_by [0 :: nat, 0] [0 :: nat, Suc 0] = [(0, [0, Suc 0])]" by (simp add: group_by_def append_to_def)
  have "\<not> degenerate 1 (\<lambda>i t. [[1, 2], [1, 1]] ! i ! t * [[1, 1], [1, 0]] ! i ! t) 2 [0, Suc 0]"
    by (auto simp: degenerate_def nth_Cons')
  then have nd: "\<not> degenerate 1 (\<lambda>i t. [[1, 2], [1, 1]] ! i ! t * [[1, 1], [1, 0]] ! i ! t) (Suc (Suc 0)) [0, Suc 0]" by (simp add: numeral_2_eq_2)
  then obtain A G where r: "compute_optimal_token_baseline_advantage [[1, 0], [2, 0]] [[1, 1], [1, 0]] [0 :: nat, 0] [[0, 0], [0, 0]]
      [[2, 2], [2, 2]] None True 1 = Inr (Some (A, G))"
    by (simp add: compute_optimal_token_baseline_advantage_def Let_def W mat_width_def g)
  have p: "prefix_mask (mat_width [[1, 0], [2, 0 :: real]]) [[1, 1], [1, 0]]"
    unfolding prefix_mask_def mat_width_def
    by (auto intro: exI [of _ "Suc 0"] exI [of _ "Suc (Suc 0)"])
  have s: "same_shape [[1, 0], [2, 0 :: real]] [[1, 1], [1, 0 :: real]]" "same_shape [[0, 0], [0, 0 :: real]] [[1, 1], [1, 0 :: real]]"
    "same_shape [[2, 2], [2, 2 :: real]] [[1, 1], [1, 0 :: real]]" "length [0 :: nat, 0] = length [[1, 0], [2, 0 :: real]]" by simp_all
  have "compute_multi_turn_optimal_token_baseline_advantage [[1, 0], [2, 0]] [[1, 1], [1, 0]] [0 :: nat, 0] [[0, 0], [0, 0]]
      [[2, 2], [2, 2]] None True 1 = Inr (Some (A, G))"
    by (rule otb_turns_agree [OF r s(1,2,3) _ s(4) p]) simp
  with r show ?thesis by (intro exI conjI)
qed

end
