(* ===== verification/Resample.thy ===== *)
theory Resample
  imports Tensor DataProto
begin

text \<open>
  \<open>compute_pf_ppo_reweight_data\<close> of \<^verbatim>\<open>verl/trainer/ppo/core_algos.py\<close>: rows drawn with replacement, by weights
  computed from their scores, from the tensors, the arrays and the per-row lists of a batch.
  \<open>multinomial ws n\<close> are the \<open>n\<close> positions that torch.multinomial draws.
\<close>

section \<open>Weights\<close>

text \<open>\<open>torch.pow\<close> of a non-negative number; a power of 0 with a negative exponent is infinite.\<close>

definition pow_weight :: "real \<Rightarrow> real \<Rightarrow> real option" where
  "pow_weight p s = (if s = 0 then (if p = 0 then Some 1 else if p < 0 then None else Some 0) else Some (\<bar>s\<bar> powr p))"

definition compute_weights :: "vec \<Rightarrow> string \<Rightarrow> real \<Rightarrow> real option list result" where
  "compute_weights scores reweight_method weight_pow =
     (if reweight_method = ''pow'' then Inr (map (pow_weight weight_pow) scores)
      else if reweight_method = ''max_min''
      then require (scores \<noteq> []) RuntimeError
        (Inr (map (\<lambda>s. Some (if s = Max (set scores) \<or> s = Min (set scores) then 1 else 0)) scores))
      else if reweight_method = ''max_random''
      then require (scores \<noteq> []) RuntimeError
        (Inr (map (\<lambda>s. Some (if s = Max (set scores) then 4 / 10 else 1 / 10)) scores))
      else Inl ValueError)"

text \<open>An infinite weight, or an empty batch, makes \<open>torch.multinomial\<close> raise.\<close>

definition sampling_weights :: "real option list \<Rightarrow> vec result" where
  "sampling_weights ws = require (ws \<noteq> [] \<and> (\<forall>w \<in> set ws. w \<noteq> None)) RuntimeError
     (Inr (map (\<lambda>w. max (the w + 1 / 10 ^ 8) (1 / 10 ^ 8)) ws))"

section \<open>Resampling\<close>

definition resample_meta :: "nat \<Rightarrow> nat list \<Rightarrow> (string, 'm pyval) dict \<Rightarrow> (string, 'm pyval) dict" where
  "resample_meta n rows meta = map_items (\<lambda>v. case v of
       PyList xs \<Rightarrow> if length xs = n then PyList (map (\<lambda>i. xs ! i) rows) else v
     | _ \<Rightarrow> v) meta"

text \<open>\<open>row_sum\<close> adds up the entries of a row.\<close>

definition compute_pf_ppo_reweight_data :: "('r \<Rightarrow> real) \<Rightarrow> (vec \<Rightarrow> nat \<Rightarrow> nat list) \<Rightarrow> ('r, 'o, 'm) data_proto \<Rightarrow> string \<Rightarrow>
    real \<Rightarrow> ('r, 'o, 'm) data_proto result" where
  "compute_pf_ppo_reweight_data row_sum multinomial d reweight_method weight_pow =
     (case dp_batch d of
        None \<Rightarrow> Inl TypeError
      | Some b \<Rightarrow>
          bind_r (dict_item (td_items b) ''token_level_scores'') (\<lambda>token_scores.
          let scores = map row_sum token_scores in
          bind_r (compute_weights scores reweight_method weight_pow) (\<lambda>ws.
          bind_r (sampling_weights ws) (\<lambda>weights.
          let rows = multinomial weights (length scores) in
          bind_r (items_r (pick (Idxs (map int rows))) (td_items b)) (\<lambda>it.
          bind_r (items_r (pick (Idxs (map int rows))) (dp_non_tensor d)) (\<lambda>nt.
            Inr (d\<lparr>dp_batch := Some \<lparr>td_size = td_size b, td_items = it\<rparr>, dp_non_tensor := nt,
                   dp_meta := resample_meta (length scores) rows (dp_meta d)\<rparr>)))))))"

section \<open>Properties\<close>

text \<open>What torch promises of the draw: as many positions as asked for, all in range and of positive weight.\<close>

definition draws :: "(vec \<Rightarrow> nat \<Rightarrow> nat list) \<Rightarrow> bool" where
  "draws multinomial \<longleftrightarrow> (\<forall>ws n. ws \<noteq> [] \<longrightarrow> (\<forall>w \<in> set ws. 0 \<le> w) \<longrightarrow> (\<exists>w \<in> set ws. 0 < w) \<longrightarrow>
     length (multinomial ws n) = n \<and> (\<forall>i \<in> set (multinomial ws n). i < length ws \<and> 0 < ws ! i))"

lemma pick_in_range:
  assumes "length xs = n" "\<forall>i \<in> set rows. i < n"
  shows "pick (Idxs (map int rows)) xs = Inr (map (\<lambda>i. xs ! i) rows)"
proof -
  have "map_r (\<lambda>i. bind_r (norm_index (length xs) i) (\<lambda>j. Inr (xs ! j))) (map int rows) = Inr (map (\<lambda>i. xs ! nat i) (map int rows))"
    by (rule map_r_total) (use assms in \<open>auto simp: norm_index_def\<close>)
  then show ?thesis by (simp add: pick_def comp_def)
qed

lemma weights_succeed:
  assumes "m \<in> {''pow'', ''max_min'', ''max_random''}" "0 \<le> p" "scores \<noteq> []"
  shows "\<exists>ws w. compute_weights scores m p = Inr ws \<and> sampling_weights ws = Inr w \<and> length w = length scores \<and> (\<forall>x \<in> set w. 0 < x)"
proof -
  have pos: "0 < max x (1 / 10 ^ 8)" for x :: real by (simp add: less_max_iff_disj)
  have fin: "pow_weight p s \<noteq> None" for s using assms(2) by (simp add: pow_weight_def)
  obtain ws where ws: "compute_weights scores m p = Inr ws" "length ws = length scores" "\<forall>w \<in> set ws. w \<noteq> None"
  proof -
    from assms(1) have "m = ''pow'' \<or> m = ''max_min'' \<or> m = ''max_random''" by simp
    then have "\<exists>f. compute_weights scores m p = Inr (map f scores) \<and> (\<forall>s. f s \<noteq> None)"
    proof (elim disjE)
      assume "m = ''pow''"
      then show ?thesis using fin by (intro exI [of _ "pow_weight p"]) (simp add: compute_weights_def)
    next
      assume "m = ''max_min''"
      then show ?thesis using assms(3)
        by (intro exI [of _ "\<lambda>s. Some (if s = Max (set scores) \<or> s = Min (set scores) then 1 else 0)"]) (simp add: compute_weights_def)
    next
      assume "m = ''max_random''"
      then show ?thesis using assms(3)
        by (intro exI [of _ "\<lambda>s. Some (if s = Max (set scores) then 4 / 10 else 1 / 10)"]) (simp add: compute_weights_def)
    qed
    then obtain f where "compute_weights scores m p = Inr (map f scores)" "\<forall>s. f s \<noteq> None" by blast
    then show ?thesis by (intro that [of "map f scores"]) simp_all
  qed
  then have "ws \<noteq> []" using assms(3) by (metis length_0_conv)
  with ws(3) have "sampling_weights ws = Inr (map (\<lambda>w. max (the w + 1 / 10 ^ 8) (1 / 10 ^ 8)) ws)" by (simp add: sampling_weights_def)
  moreover have "length (map (\<lambda>w. max (the w + 1 / 10 ^ 8) (1 / 10 ^ 8 :: real)) ws) = length scores" using ws(2) by simp
  moreover have "\<forall>x \<in> set (map (\<lambda>w. max (the w + 1 / 10 ^ 8) (1 / 10 ^ 8 :: real)) ws). 0 < x" using pos by auto
  ultimately show ?thesis using ws(1) by blast
qed

text \<open>Reweighting reorders the whole batch by the drawn positions: every tensor, every array and every list of the meta
  information with one entry per row is read at the same positions, so that rows stay together, and the
  size stays the same. It cannot fail on a batch with rows and scores, for a power that is not negative.\<close>

theorem reweight_keeps_rows_together:
  assumes ok: "dp_ok d" and b: "dp_batch d = Some b" "map_of (td_items b) ''token_level_scores'' = Some S" "S \<noteq> []"
    and m: "reweight_method \<in> {''pow'', ''max_min'', ''max_random''}" "0 \<le> weight_pow" and dr: "draws multinomial"
  shows "\<exists>rows e. length rows = dp_len d \<and> (\<forall>i \<in> set rows. i < dp_len d) \<and> reorder (map int rows) d = Inr e \<and>
    compute_pf_ppo_reweight_data row_sum multinomial d reweight_method weight_pow =
      Inr (e\<lparr>dp_meta := resample_meta (dp_len d) rows (dp_meta d)\<rparr>) \<and> dp_len e = dp_len d"
proof -
  let ?n = "dp_len d"
  have lenS: "length S = ?n" using tensor_length [OF ok b(1)] map_of_SomeD [OF b(2)] by blast
  let ?scores = "map row_sum S"
  obtain ws w where w: "compute_weights ?scores reweight_method weight_pow = Inr ws" "sampling_weights ws = Inr w"
    "length w = length ?scores" "\<forall>x \<in> set w. 0 < x" 
  proof -
    have "map row_sum S \<noteq> []" using b(3) by simp
    from weights_succeed [OF m this] that show ?thesis by blast
  qed
  define rows where "rows = multinomial w (length ?scores)"
  have "w \<noteq> []" using w(3) b(3) by auto
  then have "\<exists>x \<in> set w. 0 < x" "\<forall>x \<in> set w. 0 \<le> x" using w(4) by (auto simp: less_imp_le neq_Nil_conv)
  with dr \<open>w \<noteq> []\<close> have r: "length rows = ?n" "\<forall>i \<in> set rows. i < ?n"
    unfolding draws_def rows_def using w(3) lenS by auto
  have it: "items_r (pick (Idxs (map int rows))) (td_items b) = Inr (map_items (\<lambda>v. map (\<lambda>i. v ! i) rows) (td_items b))"
    by (rule items_r_total, rule pick_in_range [OF tensor_length [OF ok b(1)] r(2)])
  have nt: "items_r (pick (Idxs (map int rows))) (dp_non_tensor d) = Inr (map_items (\<lambda>v. map (\<lambda>i. v ! i) rows) (dp_non_tensor d))"
    by (rule items_r_total, rule pick_in_range [OF array_length [OF ok] r(2)])
  have mult: "multinomial w (dp_len d) = rows" using lenS by (simp add: rows_def)
  have sz: "td_size b = ?n" using b(1) by (simp add: dp_len_def)
  let ?e = "d\<lparr>dp_batch := Some \<lparr>td_size = ?n, td_items = map_items (\<lambda>v. map (\<lambda>i. v ! i) rows) (td_items b)\<rparr>,
    dp_non_tensor := map_items (\<lambda>v. map (\<lambda>i. v ! i) rows) (dp_non_tensor d)\<rparr>"
  have "reorder (map int rows) d = Inr ?e" using b(1) it nt r(1) by (simp add: reorder_def)
  moreover have "compute_pf_ppo_reweight_data row_sum multinomial d reweight_method weight_pow =
      Inr (?e\<lparr>dp_meta := resample_meta ?n rows (dp_meta d)\<rparr>)"
    using b w(1,2) it nt sz lenS mult by (simp add: compute_pf_ppo_reweight_data_def dict_item_def Let_def)
  ultimately show ?thesis using r by (intro exI [of _ rows] exI [of _ ?e]) (simp add: dp_len_def)
qed

section \<open>Example\<close>

definition first_positive :: "vec \<Rightarrow> nat \<Rightarrow> nat list" where
  "first_positive ws n = replicate n (length (takeWhile (\<lambda>w. \<not> 0 < w) ws))"

lemma first_positive_draws: "draws first_positive"
proof -
  have "length (takeWhile (\<lambda>w. \<not> 0 < w) ws) < length ws" if "\<exists>w \<in> set ws. 0 < w" for ws :: vec
    using that by (induction ws) auto
  moreover have "0 < ws ! length (takeWhile (\<lambda>w. \<not> 0 < w) ws)" if "\<exists>w \<in> set ws. 0 < w" for ws :: vec
    using that by (induction ws) auto
  ultimately show ?thesis by (auto simp: draws_def first_positive_def)
qed

definition scored_batch :: "(vec, nat, nat) data_proto" where
  "scored_batch = \<lparr>dp_batch = Some \<lparr>td_size = 2, td_items = [(''token_level_scores'', [[1, 0], [0, 3]])]\<rparr>,
     dp_non_tensor = [(''uid'', [7, 8])], dp_meta = [(''tags'', PyList [Atom 1, Atom 2])]\<rparr>"

theorem reweight_witness:
  "\<exists>rows e. length rows = 2 \<and> reorder (map int rows) scored_batch = Inr e \<and>
    compute_pf_ppo_reweight_data sum_list first_positive scored_batch ''pow'' 2 =
      Inr (e\<lparr>dp_meta := resample_meta 2 rows (dp_meta scored_batch)\<rparr>)"
proof -
  have ok: "dp_ok scored_batch" by (simp add: scored_batch_def dp_ok_def td_ok_def dp_len_def dict_keys_def)
  have b: "dp_batch scored_batch = Some \<lparr>td_size = 2, td_items = [(''token_level_scores'', [[1, 0], [0, 3]])]\<rparr>"
    by (simp add: scored_batch_def)
  have n: "dp_len scored_batch = 2" by (simp add: scored_batch_def dp_len_def)
  from reweight_keeps_rows_together [OF ok b, of "[[1, 0], [0, 3]]" "''pow''" 2 first_positive sum_list] first_positive_draws show ?thesis
    unfolding n by auto
qed

end
