(* ===== verification/PyText.thy ===== *)
theory PyText
  imports Prelude Complex_Main
begin

text \<open>
  What the code uses of Python's strings: \<open>strip\<close>, \<open>split\<close>, \<open>startswith\<close>, \<open>endswith\<close> and \<open>float\<close> of a string.
  The words for infinity and NaN that \<open>float\<close> accepts have no real value and are read as errors.
\<close>

section \<open>Strings\<close>

definition is_space :: "char \<Rightarrow> bool" where
  "is_space c \<longleftrightarrow> of_char c \<in> {9, 10, 11, 12, 13, 28, 29, 30, 31, 32 :: nat}"

definition py_strip :: "string \<Rightarrow> string" where
  "py_strip s = rev (dropWhile is_space (rev (dropWhile is_space s)))"

fun split_on :: "char \<Rightarrow> string \<Rightarrow> string list" where
  "split_on c [] = [[]]"
| "split_on c (x # s) = (if x = c then [] # split_on c s
     else case split_on c s of [] \<Rightarrow> [[x]] | p # ps \<Rightarrow> (x # p) # ps)"

text \<open>\<open>s.split(c, 1)\<close> of a string that holds the separator.\<close>

definition split_once :: "char \<Rightarrow> string \<Rightarrow> string \<times> string" where
  "split_once c s = (takeWhile (\<lambda>x. x \<noteq> c) s, drop 1 (dropWhile (\<lambda>x. x \<noteq> c) s))"

definition startswith :: "string \<Rightarrow> string \<Rightarrow> bool" where
  "startswith p s \<longleftrightarrow> take (length p) s = p"

definition endswith :: "string \<Rightarrow> string \<Rightarrow> bool" where
  "endswith p s \<longleftrightarrow> startswith (rev p) (rev s)"

section \<open>Numbers\<close>

definition is_digit :: "char \<Rightarrow> bool" where
  "is_digit c \<longleftrightarrow> of_char c \<in> {48..57 :: nat}"

definition digit_val :: "char \<Rightarrow> real" where
  "digit_val c = of_char c - 48"

text \<open>Digits, with single underscores between them: the value so far, their number and the rest.\<close>

fun digit_run :: "real \<Rightarrow> nat \<Rightarrow> string \<Rightarrow> real \<times> nat \<times> string" where
  "digit_run v n [] = (v, n, [])"
| "digit_run v n (c # s) =
     (if is_digit c then digit_run (10 * v + digit_val c) (n + 1) s
      else if c = CHR ''_'' \<and> 0 < n \<and> s \<noteq> [] \<and> is_digit (hd s) then digit_run v n s
      else (v, n, c # s))"

definition sign_of :: "string \<Rightarrow> real \<times> string" where
  "sign_of s = (case s of
       [] \<Rightarrow> (1, [])
     | c # r \<Rightarrow> if c = CHR ''-'' then (-1, r) else if c = CHR ''+'' then (1, r) else (1, s))"

definition exponent_of :: "string \<Rightarrow> int option" where
  "exponent_of s = (case s of
       [] \<Rightarrow> Some 0
     | c # r \<Rightarrow>
         if c = CHR ''e'' \<or> c = CHR ''E''
         then (let (sg, r1) = sign_of r; (x, n, r2) = digit_run 0 0 r1
               in if 0 < n \<and> r2 = [] then Some (\<lfloor>sg * x\<rfloor>) else None)
         else None)"

definition float_of :: "string \<Rightarrow> real option" where
  "float_of text =
     (let (sg, s) = sign_of (py_strip text);
          (v, ni, r) = digit_run 0 0 s;
          (w, nf, r1) = (if r \<noteq> [] \<and> hd r = CHR ''.'' then digit_run v 0 (tl r) else (v, 0, r))
      in if ni + nf = 0 then None
         else case exponent_of r1 of
             None \<Rightarrow> None
           | Some x \<Rightarrow> Some (sg * w * (if int nf \<le> x then 10 ^ nat (x - int nf) else 1 / 10 ^ nat (int nf - x))))"

section \<open>Facts\<close>

lemma split_on_not_nil [simp]: "split_on c s \<noteq> []"
  by (induction s) (auto split: list.splits)

lemma startswith_code [simp]:
  "startswith [] s" "\<not> startswith (c # p) []" "startswith (c # p) (d # s) \<longleftrightarrow> c = d \<and> startswith p s"
  by (auto simp: startswith_def)

lemma float_examples:
  "float_of ''0.999'' = Some (999 / 1000)" "float_of '' 2 '' = Some 2" "float_of ''-1.5e1'' = Some (-15)"
  "float_of ''1_0'' = Some 10" "float_of ''1_'' = None" "float_of ''abc'' = None" "float_of '''' = None"
  by (simp_all add: float_of_def py_strip_def is_space_def sign_of_def is_digit_def digit_val_def exponent_of_def)

end
