(* ===== verification/MaskedLoss.thy ===== *)
theory MaskedLoss
  imports PolicyLoss
begin

text \<open>
  What every policy loss of \<^verbatim>\<open>verl/trainer/ppo/core_algos.py\<close> promises its callers: it reads log-probabilities,
  advantages and weights only at the tokens of the response mask. The promise is a locale and every loss is an instance of it;
  \<open>LossRegistry\<close> adds the loss of bypass mode and shows that the registry hands out only such losses.
\<close>

section \<open>Agreement on the kept tokens\<close>

text \<open>Two matrices that agree wherever the mask is not 0.\<close>

definition masked_eq :: "mat \<Rightarrow> 'a list list \<Rightarrow> 'a list list \<Rightarrow> bool" where
  "masked_eq M A B \<longleftrightarrow> shape A = shape M \<and> shape B = shape M \<and>
     (\<forall>i < length M. \<forall>j < length (M ! i). M ! i ! j = 0 \<or> A ! i ! j = B ! i ! j)"

lemma masked_eq_shape: "masked_eq M A B \<Longrightarrow> shape A = shape M" "masked_eq M A B \<Longrightarrow> shape B = shape M"
  by (simp_all add: masked_eq_def)

lemma masked_eq_mzip:
  assumes "masked_eq M A B" "masked_eq M C D"
  shows "masked_eq M (mzip f A C) (mzip f B D)"
proof -
  note sh = masked_eq_shape [OF assms(1)] masked_eq_shape [OF assms(2)]
  have "mzip f A C ! i ! j = mzip f B D ! i ! j" if ij: "i < length M" "j < length (M ! i)" "M ! i ! j \<noteq> 0" for i j
  proof -
    have b: "i < length A" "j < length (A ! i)" "i < length B" "j < length (B ! i)"
      using ij length_shape [OF sh(1)] length_shape [OF sh(2)] shape_nth [OF sh(1), of i] shape_nth [OF sh(2), of i] by simp_all
    have "A ! i ! j = B ! i ! j" "C ! i ! j = D ! i ! j" using assms ij by (auto simp: masked_eq_def)
    with b sh show ?thesis by (simp add: nth_mzip)
  qed
  with sh show ?thesis unfolding masked_eq_def by (auto simp: shape_mzip)
qed

lemma masked_eq_refl: "shape A = shape M \<Longrightarrow> masked_eq M A A"
  by (simp add: masked_eq_def)

lemma masked_product_eq:
  assumes "masked_eq M A B" "\<And>v. f v 0 = (0 :: real)"
  shows "mzip f A M = mzip f B M"
proof -
  note sh = masked_eq_shape [OF assms(1)]
  show ?thesis
  proof (rule mat_eqI)
    show "shape (mzip f A M) = shape (mzip f B M)" using sh by (simp add: shape_mzip)
    fix i j
    assume ij: "i < length (mzip f A M)" "j < length (mzip f A M ! i)"
    have shm: "shape (mzip f A M) = shape M" using sh by (simp add: shape_mzip)
    have m: "i < length M" "j < length (M ! i)" using ij length_shape [OF shm] shape_nth [OF shm ij(1)] by simp_all
    then have b: "i < length A" "j < length (A ! i)" "i < length B" "j < length (B ! i)"
      using length_shape [OF sh(1)] length_shape [OF sh(2)] shape_nth [OF sh(1), of i] shape_nth [OF sh(2), of i] by simp_all
    have "M ! i ! j = 0 \<or> A ! i ! j = B ! i ! j" using assms(1) m by (simp add: masked_eq_def)
    then show "mzip f A M ! i ! j = mzip f B M ! i ! j" using b sh assms(2) by (auto simp: nth_mzip)
  qed
qed

lemma masked_sum_cong: "masked_eq M A B \<Longrightarrow> masked_sum A M = masked_sum B M"
  unfolding masked_sum_def by (subst masked_product_eq) simp_all

lemma masked_mean_cong: "masked_eq M A B \<Longrightarrow> masked_mean A M = masked_mean B M"
  by (simp add: masked_mean_def masked_sum_cong)

lemma agg_loss_cong: "masked_eq M A B \<Longrightarrow> agg_loss A M mode info = agg_loss B M mode info"
proof -
  assume e: "masked_eq M A B"
  have "mzip (\<lambda>l m. l * m) A M = mzip (\<lambda>l m. l * m) B M" by (rule masked_product_eq [OF e]) simp
  then show ?thesis unfolding agg_loss_def by (simp only: masked_sum_cong [OF e])
qed


lemma masked_eq_mmap: "masked_eq M A B \<Longrightarrow> masked_eq M (mmap f A) (mmap f B)"
proof -
  assume e: "masked_eq M A B"
  note sh = masked_eq_shape [OF e]
  have "mmap f A ! i ! j = mmap f B ! i ! j" if ij: "i < length M" "j < length (M ! i)" "M ! i ! j \<noteq> 0" for i j
  proof -
    have b: "i < length A" "j < length (A ! i)" "i < length B" "j < length (B ! i)"
      using ij length_shape [OF sh(1)] length_shape [OF sh(2)] shape_nth [OF sh(1), of i] shape_nth [OF sh(2), of i] by simp_all
    have "A ! i ! j = B ! i ! j" using e ij unfolding masked_eq_def by blast
    with b show ?thesis by (simp add: nth_mmap)
  qed
  then show ?thesis using sh unfolding masked_eq_def shape_mmap by blast
qed

lemma masked_eq_mzip3: "masked_eq M A A' \<Longrightarrow> masked_eq M B B' \<Longrightarrow> masked_eq M C C' \<Longrightarrow>
    masked_eq M (mzip3 f A B C) (mzip3 f A' B' C')"
  unfolding mzip3_def by (intro masked_eq_mzip)

definition masked_opt :: "mat \<Rightarrow> mat option \<Rightarrow> mat option \<Rightarrow> bool" where
  "masked_opt M ws ws' \<longleftrightarrow> rel_option (masked_eq M) ws ws'"

lemma masked_eq_corrected: "masked_opt M ws ws' \<Longrightarrow> masked_eq M L L' \<Longrightarrow> masked_eq M (corrected ws L) (corrected ws' L')"
  unfolding corrected_def masked_opt_def by (cases ws; cases ws') (simp_all add: masked_eq_mzip)

text \<open>Rows of agreeing matrices have the same masked products.\<close>

lemma masked_rows:
  assumes "masked_eq M A B" "\<And>r s m. length r = length m \<Longrightarrow> length s = length m \<Longrightarrow> (\<And>j. j < length m \<Longrightarrow> m ! j = 0 \<or> r ! j = s ! j) \<Longrightarrow> f r m = f s m"
  shows "vzip f A M = vzip f B M"
proof (rule nth_equalityI)
  note sh = masked_eq_shape [OF assms(1)]
  show "length (vzip f A M) = length (vzip f B M)" using length_shape [OF sh(1)] length_shape [OF sh(2)] by simp
  fix i
  assume "i < length (vzip f A M)"
  then have i: "i < length A" "i < length B" "i < length M" using length_shape [OF sh(1)] length_shape [OF sh(2)] by simp_all
  have "f (A ! i) (M ! i) = f (B ! i) (M ! i)"
    using assms(1) i(3) shape_nth [OF sh(1) i(1)] shape_nth [OF sh(2) i(2)] by (intro assms(2)) (auto simp: masked_eq_def)
  then show "vzip f A M ! i = vzip f B M ! i" using i by simp
qed

lemma vzip_product_cong:
  assumes "length r = length m" "length s = length m" "\<And>j. j < length m \<Longrightarrow> m ! j = 0 \<or> r ! j = s ! j"
  shows "vzip (\<lambda>x b. x * b) r m = vzip (\<lambda>x b. x * b) s (m :: real list)"
proof (rule nth_equalityI)
  show "length (vzip (\<lambda>x b. x * b) r m) = length (vzip (\<lambda>x b. x * b) s m)" using assms(1,2) by simp
  fix j
  assume "j < length (vzip (\<lambda>x b. x * b) r m)"
  then have j: "j < length m" by simp
  from assms(3) [OF j] show "vzip (\<lambda>x b. x * b) r m ! j = vzip (\<lambda>x b. x * b) s m ! j"
    using j assms(1,2) by (elim disjE) simp_all
qed

lemma row_mean_cong: "masked_eq M A B \<Longrightarrow> vzip row_mean A M = vzip row_mean B M"
proof (erule masked_rows)
  fix r s m :: vec
  assume "length r = length m" "length s = length m" "\<And>j. j < length m \<Longrightarrow> m ! j = 0 \<or> r ! j = s ! j"
  from vzip_product_cong [OF this] show "row_mean r m = row_mean s m" by (simp only: row_mean_def)
qed

lemma loss_cong: "agg_loss A M mode info = agg_loss A' M mode info \<Longrightarrow> ms = ms' \<Longrightarrow>
    bind_r (agg_loss A M mode info) (\<lambda>loss. Inr (loss, ms)) = bind_r (agg_loss A' M mode info) (\<lambda>loss. Inr (loss, ms'))"
  by simp

lemma metric_cong: "x = x' \<Longrightarrow> xs = xs' \<Longrightarrow> (k, x) # xs = (k, x') # xs'"
  by simp

lemmas masked_intros = loss_cong metric_cong agg_loss_cong masked_mean_cong masked_eq_corrected masked_eq_mzip3 masked_eq_mzip masked_eq_mmap

section \<open>The interface\<close>

locale masked_loss =
  fixes loss :: "mat \<Rightarrow> mat \<Rightarrow> mat \<Rightarrow> mat \<Rightarrow> mat option \<Rightarrow> loss_result"
  assumes masked_tokens: "masked_eq M p p' \<Longrightarrow> masked_eq M l l' \<Longrightarrow> masked_eq M a a' \<Longrightarrow> masked_opt M ws ws' \<Longrightarrow>
    loss p l a M ws = loss p' l' a' M ws'"
begin

definition blank :: "mat \<Rightarrow> mat \<Rightarrow> mat" where
  "blank M A = mzip (\<lambda>x m. if m = 0 then 0 else x) A M"

lemma masked_eq_blank: "shape A = shape M \<Longrightarrow> masked_eq M A (blank M A)"
proof -
  assume sh: "shape A = shape M"
  have "blank M A ! i ! j = A ! i ! j" if ij: "i < length M" "j < length (M ! i)" "M ! i ! j \<noteq> 0" for i j
    using nth_mzip [OF sh, of i j "\<lambda>x m. if m = 0 then 0 else x"] ij length_shape [OF sh] shape_nth [OF sh, of i]
    by (simp add: blank_def)
  moreover have "shape (blank M A) = shape M" using sh by (simp add: blank_def shape_mzip)
  ultimately show ?thesis using sh unfolding masked_eq_def by metis
qed

lemma padding_is_free:
  assumes "shape p = shape M" "shape l = shape M" "shape a = shape M" "\<And>w. ws = Some w \<Longrightarrow> shape w = shape M"
  shows "loss p l a M ws = loss (blank M p) (blank M l) (blank M a) M (map_option (blank M) ws)"
proof (rule masked_tokens)
  show "masked_opt M ws (map_option (blank M) ws)"
    using assms(4) unfolding masked_opt_def by (cases ws) (simp_all add: masked_eq_blank)
qed (simp_all add: assms masked_eq_blank)

end

section \<open>The losses\<close>

lemma ppo_loss_masked:
  assumes "masked_eq M p p'" "masked_eq M l l'" "masked_eq M a a'" "masked_opt M ws ws'"
  shows "ppo_loss lo hi c mode info ws p l a M = ppo_loss lo hi c mode info ws' p' l' a' M"
  unfolding ppo_loss_def Let_def approx_kl_def by (intro arg_cong [where f = "require (1 < c) AssertionError"] masked_intros refl assms)

lemma dppo_loss_masked:
  assumes "masked_eq M p p'" "masked_eq M l l'" "masked_eq M a a'" "masked_opt M ws ws'"
  shows "dppo_loss valid p l a M mode cfg ws = dppo_loss valid p' l' a' M mode cfg ws'"
  unfolding dppo_loss_def Let_def approx_kl_def by (intro masked_intros refl assms)

interpretation vanilla: masked_loss "\<lambda>p l a M ws. compute_policy_loss_vanilla p l a M mode cfg ws" for mode cfg
  by unfold_locales (simp only: compute_policy_loss_vanilla_def ppo_loss_masked)

interpretation dppo_tv: masked_loss "\<lambda>p l a M ws. compute_policy_loss_dppo_tv p l a M mode cfg ws" for mode cfg
  by unfold_locales (simp only: compute_policy_loss_dppo_tv_def dppo_loss_masked)

interpretation dppo_kl: masked_loss "\<lambda>p l a M ws. compute_policy_loss_dppo_kl p l a M mode cfg ws" for mode cfg
  by unfold_locales (simp only: compute_policy_loss_dppo_kl_def dppo_loss_masked)

interpretation sapo: masked_loss "\<lambda>p l a M ws. compute_policy_loss_sapo p l a M cfg ws" for cfg
  by unfold_locales (unfold compute_policy_loss_sapo_def Let_def approx_kl_def, intro masked_intros refl)

interpretation gpg: masked_loss "\<lambda>p l a M ws. compute_policy_loss_gpg l a M mode cfg ws" for mode cfg
  by unfold_locales (unfold compute_policy_loss_gpg_def Let_def, intro masked_intros refl)

interpretation cispo: masked_loss "\<lambda>p l a M ws. compute_policy_loss_cispo p l a M mode cfg ws" for mode cfg
  by unfold_locales (unfold compute_policy_loss_cispo_def Let_def approx_kl_def, intro masked_intros refl)

interpretation reinforce: masked_loss "\<lambda>p l a M ws. compute_policy_loss_reinforce p l a M mode cfg ws" for mode cfg
  by unfold_locales (unfold compute_policy_loss_reinforce_def Let_def, intro masked_intros refl)

text \<open>GSPO: one ratio per row.\<close>

lemma seq_log_ratios: "vzip (\<lambda>(p, l) m. seq_log_ratio p l m) (zip P L) M =
    vzip (\<lambda>d m. sum_list (vzip (\<lambda>x b. x * b) d m) / max (sum_list m) 1) (mzip (\<lambda>l p. l - p) L P) M"
proof (induction P arbitrary: L M)
  case (Cons p P)
  then show ?case by (cases L; cases M) (simp_all add: seq_log_ratio_def)
qed simp

lemma seq_log_ratios_cong:
  assumes "masked_eq M p p'" "masked_eq M l l'"
  shows "vzip (\<lambda>(p, l) m. seq_log_ratio p l m) (zip p l) M = vzip (\<lambda>(p, l) m. seq_log_ratio p l m) (zip p' l') M"
  unfolding seq_log_ratios
proof (rule masked_rows [OF masked_eq_mzip [OF assms(2,1)]])
  fix r s m :: vec
  assume "length r = length m" "length s = length m" "\<And>j. j < length m \<Longrightarrow> m ! j = 0 \<or> r ! j = s ! j"
  from vzip_product_cong [OF this] show "sum_list (vzip (\<lambda>x b. x * b) r m) / max (sum_list m) 1 = sum_list (vzip (\<lambda>x b. x * b) s m) / max (sum_list m) 1"
    by (simp only:)
qed

lemma row_ratio_cong:
  fixes l l' :: mat
  assumes "masked_eq M l l'" "length S = length M"
  shows "masked_eq M (vzip (\<lambda>s lp. map (\<lambda>l. exp (min (l - l + s) 10)) lp) S l) (vzip (\<lambda>s lp. map (\<lambda>l. exp (min (l - l + s) 10)) lp) S l')"
proof -
  have c: "vzip (\<lambda>s lp. map (\<lambda>l. exp (min (l - l + s) 10)) lp) S l = vzip (\<lambda>s lp. map (\<lambda>l. exp (min (l - l + s) 10)) lp) S l'"
    if "shape l = shape l'" for S and l l' :: mat
    using that
  proof (induction S arbitrary: l l')
    case (Cons s S)
    show ?case
    proof (cases l)
      case Nil
      with Cons.prems show ?thesis by (cases l') simp_all
    next
      case l: (Cons r R)
      then obtain r' R' where "l' = r' # R'" "length r = length r'" "shape R = shape R'" using Cons.prems by (cases l') auto
      with Cons.IH [of R R'] l show ?thesis by (simp add: map_replicate_const)
    qed
  qed simp
  have "shape (vzip (\<lambda>s lp. map (\<lambda>l. exp (min (l - l + s) 10)) lp) S l) = shape M"
  proof -
    have "length S = length l" using assms(2) length_shape [OF masked_eq_shape(1) [OF assms(1)]] by simp
    then have "shape (vzip (\<lambda>s lp. map (\<lambda>l. exp (min (l - l + s) 10)) lp) S l) = shape l" by (rule shape_vzip_rows [rotated]) simp
    then show ?thesis using masked_eq_shape(1) [OF assms(1)] by simp
  qed
  moreover have "shape l = shape l'" using masked_eq_shape [OF assms(1)] by simp
  ultimately show ?thesis using c [of l l' S] by (simp add: masked_eq_def)
qed

interpretation gspo: masked_loss "\<lambda>p l a M ws. compute_policy_loss_gspo p l a M cfg ws" for cfg
proof unfold_locales
  fix M p p' l l' a a' :: mat and ws ws' :: "mat option"
  assume e: "masked_eq M p p'" "masked_eq M l l'" "masked_eq M a a'" "masked_opt M ws ws'"
  have "length (vzip (\<lambda>(p, l) m. seq_log_ratio p l m) (zip p' l') M) = length M"
    using length_shape [OF masked_eq_shape(2) [OF e(1)]] length_shape [OF masked_eq_shape(2) [OF e(2)]] by simp
  note r = row_ratio_cong [OF e(2) this]
  show "compute_policy_loss_gspo p l a M cfg ws = compute_policy_loss_gspo p' l' a' M cfg ws'"
    unfolding compute_policy_loss_gspo_def Let_def seq_log_ratios_cong [OF e(1,2)] by (intro masked_intros refl e r)
qed

text \<open>GMPO: one ratio and one advantage per row.\<close>

interpretation geo_mean: masked_loss "\<lambda>p l a M ws. compute_policy_loss_geo_mean p l a M cfg ws" for cfg
proof unfold_locales
  fix M p p' l l' a a' :: mat and ws ws' :: "mat option"
  assume e: "masked_eq M p p'" "masked_eq M l l'" "masked_eq M a a'" "masked_opt M ws ws'"
  let ?D = "mzip (\<lambda>l p. l - p) l p" and ?D' = "mzip (\<lambda>l p. l - p) l' p'"
  have d: "masked_eq M ?D ?D'" by (rule masked_eq_mzip [OF e(2,1)])
  let ?w = "\<lambda>L ws. case ws of None \<Rightarrow> L
    | Some W \<Rightarrow> vzip (\<lambda>l w. l * w) L (map exp (vzip row_mean (mmap (\<lambda>w. ln (w + 1 / 10 ^ 10)) W) M))"
  have "?w L ws = ?w L ws'" for L
    using e(4) unfolding masked_opt_def by (cases ws; cases ws') (simp_all add: row_mean_cong [OF masked_eq_mmap])
  note w = this [of "vzip (\<lambda>a r. - a * r) (vzip row_mean a' M) (map exp (vzip row_mean (mzip (geo_clip (clip_low cfg) (clip_high cfg)) ?D' a') M))"]
  show "compute_policy_loss_geo_mean p l a M cfg ws = compute_policy_loss_geo_mean p' l' a' M cfg ws'"
    unfolding compute_policy_loss_geo_mean_def Let_def row_mean_cong [OF masked_eq_mzip [OF d e(3)]] row_mean_cong [OF e(3)] w
    by (intro arg_cong [where f = Inr] arg_cong [where f = "Pair _"] masked_intros refl e d)
qed

text \<open>The covariance losses choose positions among the kept tokens.\<close>

lemma positions_shape: "shape A = shape B \<Longrightarrow> positions A = positions B"
proof -
  assume sh: "shape A = shape B"
  have "map (\<lambda>i. map (\<lambda>j. (i, j)) [0..<length (A ! i)]) [0..<length A] = map (\<lambda>i. map (\<lambda>j. (i, j)) [0..<length (B ! i)]) [0..<length B]"
    using length_shape [OF sh] shape_nth [OF sh] by (intro map_cong) simp_all
  then show ?thesis unfolding positions_def by (rule arg_cong)
qed

lemma positions_range: "ij \<in> set (positions A) \<Longrightarrow> fst ij < length A \<and> snd ij < length (A ! fst ij)"
  by (auto simp: positions_def)

lemma masked_eq_entry: "masked_eq M A B \<Longrightarrow> ij \<in> set (positions M) \<Longrightarrow> entry M ij \<noteq> 0 \<Longrightarrow> entry A ij = entry B ij"
  using positions_range [of ij M] unfolding masked_eq_def entry_def by blast

lemma nth_mmap_at: "i < length A \<Longrightarrow> j < length (A ! i) \<Longrightarrow> mmap_at f A ! i ! j = f (i, j) (A ! i ! j)"
  by (simp add: mmap_at_def)

lemma shape_mmap_at [simp]: "shape (mmap_at f A) = shape A"
  unfolding shape_def mmap_at_def by (rule nth_equalityI) simp_all

lemma masked_eq_mmap_at:
  assumes "masked_eq M A B" "\<And>i j. i < length M \<Longrightarrow> j < length (M ! i) \<Longrightarrow> M ! i ! j \<noteq> 0 \<Longrightarrow> f (i, j) (B ! i ! j) = g (i, j) (B ! i ! j)"
  shows "masked_eq M (mmap_at f A) (mmap_at g B)"
proof -
  note sh = masked_eq_shape [OF assms(1)]
  have "mmap_at f A ! i ! j = mmap_at g B ! i ! j" if ij: "i < length M" "j < length (M ! i)" "M ! i ! j \<noteq> 0" for i j
  proof -
    have b: "i < length A" "j < length (A ! i)" "i < length B" "j < length (B ! i)"
      using ij length_shape [OF sh(1)] length_shape [OF sh(2)] shape_nth [OF sh(1), of i] shape_nth [OF sh(2), of i] by simp_all
    have "A ! i ! j = B ! i ! j" using assms(1) ij unfolding masked_eq_def by blast
    with b assms(2) [OF ij] show ?thesis by (simp add: nth_mmap_at)
  qed
  then show ?thesis using sh unfolding masked_eq_def shape_mmap_at by blast
qed

lemma clip_cov_candidates_cong:
  assumes "masked_eq M l l'" "masked_eq M a a'" "masked_eq M X X'" "masked_eq M Y Y'"
  shows "clip_cov_candidates lb ub l a M X Y = clip_cov_candidates lb ub l' a' M X' Y'"
proof -
  let ?c = "\<lambda>l a. mzip (\<lambda>a' l'. (a' - masked_mean a M) * (l' - masked_mean l M)) a l"
  have c: "masked_eq M (?c l a) (?c l' a')"
    unfolding masked_mean_cong [OF assms(1)] masked_mean_cong [OF assms(2)] by (rule masked_eq_mzip [OF assms(2,1)])
  have pos: "positions (?c l a) = positions M" "positions (?c l' a') = positions M"
    by (rule positions_shape [OF masked_eq_shape(1) [OF c]], rule positions_shape [OF masked_eq_shape(2) [OF c]])
  show ?thesis unfolding clip_cov_candidates_def Let_def pos
  proof (rule filter_cong [OF refl])
    fix ij
    assume ij: "ij \<in> set (positions M)"
    note same = masked_eq_entry [OF c ij] masked_eq_entry [OF assms(3) ij] masked_eq_entry [OF assms(4) ij]
    show "(0 < entry M ij \<and> \<not> entry X ij < entry Y ij \<and> lb < entry (?c l a) ij \<and> entry (?c l a) ij < ub) \<longleftrightarrow>
      (0 < entry M ij \<and> \<not> entry X' ij < entry Y' ij \<and> lb < entry (?c l' a') ij \<and> entry (?c l' a') ij < ub)"
    proof (cases "0 < entry M ij")
      case True
      then have nz: "entry M ij \<noteq> 0" by simp
      show ?thesis by (simp only: same(1) [OF nz] same(2) [OF nz] same(3) [OF nz])
    qed simp
  qed
qed

interpretation clip_cov: masked_loss "\<lambda>p l a M ws. compute_policy_loss_clip_cov perm p l a M mode cfg ws" for perm mode cfg
proof unfold_locales
  fix M p p' l l' a a' :: mat and ws ws' :: "mat option"
  assume e: "masked_eq M p p'" "masked_eq M l l'" "masked_eq M a a'" "masked_opt M ws ws'"
  let ?R = "mzip (\<lambda>p l. exp (l - p)) p l" and ?R' = "mzip (\<lambda>p l. exp (l - p)) p' l'"
  have r: "masked_eq M ?R ?R'" by (rule masked_eq_mzip [OF e(1,2)])
  note idx = clip_cov_candidates_cong [OF e(2,3) masked_eq_mzip [OF r e(3)] masked_eq_mzip [OF r e(3)]]
  have at: "masked_eq M (mmap_at (\<lambda>ij a. if ij \<in> C then 0 else 1) a) (mmap_at (\<lambda>ij a. if ij \<in> C then 0 else 1) a')" for C
    by (rule masked_eq_mmap_at [OF e(3)]) simp
  show "compute_policy_loss_clip_cov perm p l a M mode cfg ws = compute_policy_loss_clip_cov perm p' l' a' M mode cfg ws'"
    unfolding compute_policy_loss_clip_cov_def Let_def idx
    by (intro arg_cong [where f = "require _ AssertionError"] masked_intros at refl e r)
qed

interpretation kl_cov: masked_loss "\<lambda>p l a M ws. compute_policy_loss_kl_cov topk p l a M mode cfg ws" for topk mode cfg
proof unfold_locales
  fix M p p' l l' a a' :: mat and ws ws' :: "mat option"
  assume e: "masked_eq M p p'" "masked_eq M l l'" "masked_eq M a a'" "masked_opt M ws ws'"
  let ?valid = "filter (\<lambda>ij. 0 < entry M ij) (positions M)"
  have "map (entry A) ?valid = map (entry A') ?valid" if "masked_eq M A A'" for A A'
    using masked_eq_entry [OF that] by auto
  note en = this [OF e(2)] this [OF e(3)]
  have at: "masked_eq M (mmap_at (\<lambda>ij x. if ij \<in> C then entry B ij else x) A) (mmap_at (\<lambda>ij x. if ij \<in> C then entry B' ij else x) A')"
    if "masked_eq M A A'" "masked_eq M B B'" for A A' B B' C
  proof (rule masked_eq_mmap_at [OF that(1)])
    fix i j
    assume "i < length M" "j < length (M ! i)" "M ! i ! j \<noteq> 0"
    then have "entry B (i, j) = entry B' (i, j)" using that(2) unfolding masked_eq_def entry_def by auto
    then show "(if (i, j) \<in> C then entry B (i, j) else A' ! i ! j) = (if (i, j) \<in> C then entry B' (i, j) else A' ! i ! j)" by simp
  qed
  show "compute_policy_loss_kl_cov topk p l a M mode cfg ws = compute_policy_loss_kl_cov topk p' l' a' M mode cfg ws'"
    unfolding compute_policy_loss_kl_cov_def Let_def en
    by (intro arg_cong [where f = "require _ _"] masked_intros at refl e)
qed

section \<open>Example\<close>

definition plain_actor :: actor_config where
  "plain_actor = \<lparr>ac_clip_ratio = 1/5, ac_clip_ratio_low = None, ac_clip_ratio_high = None, ac_clip_ratio_c = None,
     ac_info = default_info, ac_tau_pos = 1, ac_tau_neg = 1, ac_clip_cov_ratio = None, ac_clip_cov_lb = None, ac_clip_cov_ub = None,
     ac_kl_cov_ratio = None, ac_ppo_kl_coef = None\<rparr>"

end
