(* ===== verification/RolloutCorr.thy ===== *)
theory RolloutCorr
  imports PyText Advantage MaskedLoss DataProto
begin

text \<open>
  Rollout correction of \<^verbatim>\<open>verl/trainer/ppo/rollout_corr_helper.py\<close>: thresholds read from their text form, rejection
  masks from divergence estimates, truncated importance-sampling weights, the metrics of both, the step
  that writes them into the batch, and the policy loss of bypass mode that uses them.
\<close>

section \<open>Thresholds\<close>

datatype threshold = ThrBool bool | ThrNum real | ThrStr string

definition parse_is_threshold :: "threshold \<Rightarrow> (real \<times> real option) result" where
  "parse_is_threshold spec =
     bind_r (case spec of
         ThrBool b \<Rightarrow> Inl TypeError
       | ThrNum u \<Rightarrow> Inr (u, None)
       | ThrStr text \<Rightarrow>
           (let s = py_strip text in
            require (s \<noteq> []) ValueError
              (if CHR ''_'' \<in> set s
               then (case (float_of (fst (split_once CHR ''_'' s)), float_of (snd (split_once CHR ''_'' s))) of
                   (Some l, Some u) \<Rightarrow> Inr (u, Some l) | _ \<Rightarrow> Inl ValueError)
               else (case float_of s of Some u \<Rightarrow> Inr (u, None) | None \<Rightarrow> Inl ValueError))))
       (\<lambda>(upper, lower).
         require (0 < upper) ValueError
           (case lower of None \<Rightarrow> Inr (upper, None)
            | Some l \<Rightarrow> require (0 < l) ValueError (require (l \<le> upper) ValueError (Inr (upper, Some l)))))"

text \<open>A number is turned into its text and read again: it is kept here as a number.\<close>

datatype raw_spec = RawNum real | RawStr string

definition raw_float :: "raw_spec \<Rightarrow> real result" where
  "raw_float r = (case r of RawNum x \<Rightarrow> Inr x
     | RawStr s \<Rightarrow> (case float_of s of Some x \<Rightarrow> Inr x | None \<Rightarrow> Inl ValueError))"

definition has_underscore :: "raw_spec \<Rightarrow> bool" where
  "has_underscore r = (case r of RawNum x \<Rightarrow> False | RawStr s \<Rightarrow> CHR ''_'' \<in> set s)"

definition raw_specs :: "threshold \<Rightarrow> raw_spec list" where
  "raw_specs spec = (case spec of
       ThrBool b \<Rightarrow> [RawStr (if b then ''True'' else ''False'')]
     | ThrNum x \<Rightarrow> [RawNum x]
     | ThrStr s \<Rightarrow> map RawStr (filter (\<lambda>p. p \<noteq> []) (map py_strip (split_on CHR '','' s))))"

definition is_k1 :: "string \<Rightarrow> bool" where
  "is_k1 opt \<longleftrightarrow> endswith ''k1'' opt"

definition parse_rs_spec :: "string \<Rightarrow> raw_spec \<Rightarrow> (real option \<times> real) result" where
  "parse_rs_spec opt spec =
     (if is_k1 opt
      then bind_r (case spec of
             RawStr s \<Rightarrow> if CHR ''_'' \<in> set s
               then bind_r (raw_float (RawStr (fst (split_once CHR ''_'' s)))) (\<lambda>l.
                    bind_r (raw_float (RawStr (snd (split_once CHR ''_'' s)))) (\<lambda>u. Inr (l, u)))
               else bind_r (raw_float spec) (\<lambda>u. require (u \<noteq> 0) ZeroDivisionError (Inr (1 / u, u)))
           | RawNum u \<Rightarrow> require (u \<noteq> 0) ZeroDivisionError (Inr (1 / u, u)))
         (\<lambda>(lower, upper). require (0 < lower \<and> 0 < upper) ValueError (Inr (Some lower, upper)))
      else require (\<not> has_underscore spec) ValueError
         (bind_r (raw_float spec) (\<lambda>upper. require (0 < upper) ValueError (Inr (None, upper)))))"

definition parse_rs_thresholds :: "string list \<Rightarrow> threshold option \<Rightarrow> (string, real option \<times> real) dict result" where
  "parse_rs_thresholds opts spec = (case spec of
       None \<Rightarrow> Inl ValueError
     | Some t \<Rightarrow>
         (let raw = raw_specs t;
              raw' = (if length raw = 1 \<and> 1 < length opts then replicate (length opts) (hd raw) else raw)
          in require (raw \<noteq> []) ValueError
            (require (length raw = 1 \<or> length raw = length opts) ValueError
              (map_r (\<lambda>(opt, r). bind_r (parse_rs_spec opt r) (\<lambda>b. Inr (opt, b))) (zip opts raw')))))"

section \<open>Rejection options\<close>

definition supported_rs_options :: "string list" where
  "supported_rs_options = [''token_k1'', ''token_k2'', ''token_k3'', ''seq_sum_k1'', ''seq_sum_k2'', ''seq_sum_k3'',
     ''seq_mean_k1'', ''seq_mean_k2'', ''seq_mean_k3'', ''seq_max_k2'', ''seq_max_k3'']"

definition token_level_options :: "string list" where
  "token_level_options = [''token_k1'', ''token_k2'', ''token_k3'']"

fun dedupe :: "'a list \<Rightarrow> 'a list \<Rightarrow> 'a list" where
  "dedupe acc [] = acc"
| "dedupe acc (x # xs) = dedupe (if x \<in> set acc then acc else acc @ [x]) xs"

definition normalize_options :: "string \<Rightarrow> string list result" where
  "normalize_options rollout_rs =
     (let opts = filter (\<lambda>p. p \<noteq> []) (map py_strip (split_on CHR '','' rollout_rs))
      in require (opts \<noteq> []) ValueError
        (require (\<forall>p \<in> set opts. p \<in> set supported_rs_options) ValueError (Inr (dedupe [] opts))))"

text \<open>Estimates of the divergence of a token from its log ratio, clamped to \<open>SAFETY_BOUND\<close>.\<close>

definition safe :: "real \<Rightarrow> real" where
  "safe x = clamp (-20) 20 x"

definition token_stat :: "string \<Rightarrow> real \<Rightarrow> real" where
  "token_stat opt x =
     (if is_k1 opt then - safe x
      else if endswith ''k2'' opt then 1 / 2 * safe x ^ 2
      else exp (safe x) - 1 - safe x)"

definition row_sum :: "vec \<Rightarrow> vec \<Rightarrow> real" where
  "row_sum xs m = masked_sum [xs] [m]"

definition row_avg :: "vec \<Rightarrow> vec \<Rightarrow> real" where
  "row_avg xs m = masked_mean [xs] [m]"

definition row_max :: "vec \<Rightarrow> vec \<Rightarrow> real" where
  "row_max xs m = (case kept xs m of [] \<Rightarrow> 0 | y # ys \<Rightarrow> Max (set (y # ys)))"

definition seq_stat :: "string \<Rightarrow> vec \<Rightarrow> vec \<Rightarrow> real" where
  "seq_stat opt row m =
     (let xs = map (token_stat opt) row
      in if startswith ''seq_sum'' opt then row_sum xs m
         else if startswith ''seq_mean'' opt then row_avg xs m
         else row_max xs m)"

definition in_bounds :: "string \<Rightarrow> real option \<times> real \<Rightarrow> real \<Rightarrow> bool" where
  "in_bounds opt b x =
     (if is_k1 opt then (case fst b of None \<Rightarrow> False | Some l \<Rightarrow> ln l \<le> x \<and> x \<le> ln (snd b))
      else x \<le> snd b)"

text \<open>Which tokens an option keeps.\<close>

definition token_keep :: "string \<Rightarrow> real option \<times> real \<Rightarrow> mat \<Rightarrow> mat \<Rightarrow> bool list list" where
  "token_keep opt b L M =
     (if opt \<in> set token_level_options then mmap (\<lambda>x. in_bounds opt b (token_stat opt x)) L
      else vzip (\<lambda>row m. replicate (length m) (in_bounds opt b (seq_stat opt row m))) L M)"

section \<open>Metrics of rejection\<close>

definition any_valid :: "mat \<Rightarrow> bool" where
  "any_valid M \<longleftrightarrow> (\<exists>row \<in> set M. \<exists>m \<in> set row. m \<noteq> 0)"

definition valid_entries :: "'a list list \<Rightarrow> mat \<Rightarrow> 'a list" where
  "valid_entries A M = concat (vzip kept A M)"

definition seq_valid :: "mat \<Rightarrow> bool list" where
  "seq_valid M = map (\<lambda>row. 0 < sum_list row) M"

definition pick_valid :: "'a list \<Rightarrow> bool list \<Rightarrow> 'a list" where
  "pick_valid xs bs = map fst (filter snd (zip xs bs))"

definition max_of :: "vec \<Rightarrow> real" where "max_of xs = Max (set xs)"
definition min_of :: "vec \<Rightarrow> real" where "min_of xs = Min (set xs)"

definition std_or_0 :: "vec \<Rightarrow> real" where
  "std_or_0 xs = (if 1 < length xs then std xs else 0)"

definition masked_std :: "mat \<Rightarrow> mat \<Rightarrow> real" where
  "masked_std S M = (if 1 < msum M
     then sqrt (max (masked_mean (mmap (\<lambda>x. x ^ 2) S) M - masked_mean S M ^ 2) 0) else 0)"

type_synonym metrics = "(string, real) dict"

definition compute_rs_metrics :: "string \<Rightarrow> mat \<Rightarrow> mat \<Rightarrow> bool list \<Rightarrow> bool \<Rightarrow> vec option \<Rightarrow> real \<Rightarrow> real \<Rightarrow> bool \<Rightarrow> metrics result" where
  "compute_rs_metrics opt S M valid seq_level per_seq hi lo apply_lower =
     require (any_valid M) ValueError
       (let prefix = ''rollout_rs_'' @ opt;
            seq_values = (case per_seq of Some v \<Rightarrow> v | None \<Rightarrow> vzip row_avg S M);
            sv = pick_valid seq_values valid;
            by_seq = (seq_level \<and> sv \<noteq> []);
            entries = valid_entries S M;
            high = (if by_seq then avg (map (\<lambda>x. frac (hi < x)) sv) else masked_mean (mmap (\<lambda>x. frac (hi < x)) S) M);
            low = (if \<not> apply_lower then 0 else if by_seq then avg (map (\<lambda>x. frac (x < lo)) sv)
                   else masked_mean (mmap (\<lambda>x. frac (x < lo)) S) M);
            clamped = mmap (clamp (if apply_lower then lo else 0) hi) S
        in Inr ([(prefix @ ''_mean'', masked_mean S M),
            (prefix @ ''_max'', max_of (if by_seq then sv else entries)),
            (prefix @ ''_min'', min_of (if by_seq then sv else entries)),
            (prefix @ ''_fraction_high'', high), (prefix @ ''_fraction_low'', low),
            (prefix @ ''_std'', masked_std clamped M)] @
          (if sv \<noteq> []
           then [(prefix @ ''_seq_mean'', avg sv), (prefix @ ''_seq_std'', std_or_0 sv), (prefix @ ''_seq_max'', max_of sv),
             (prefix @ ''_seq_min'', min_of sv), (prefix @ ''_seq_max_deviation'', max_of (map abs sv)),
             (prefix @ ''_seq_fraction_high'', avg (map (\<lambda>x. frac (hi < x)) sv))] @
             (if apply_lower then [(prefix @ ''_seq_fraction_low'', avg (map (\<lambda>x. frac (x < lo)) sv))] else [])
           else map (\<lambda>k. (prefix @ k, 0)) [''_seq_mean'', ''_seq_std'', ''_seq_max'', ''_seq_min'', ''_seq_max_deviation'',
             ''_seq_fraction_high'', ''_seq_fraction_low''])))"

section \<open>The rejection mask\<close>

definition combine_keep :: "mat \<Rightarrow> bool list list \<Rightarrow> mat" where
  "combine_keep C K = mzip (\<lambda>c k. c * frac k) C K"

definition option_metrics :: "string \<Rightarrow> real option \<times> real \<Rightarrow> mat \<Rightarrow> mat \<Rightarrow> metrics result" where
  "option_metrics opt b L M =
     (let keep = token_keep opt b L M; seq_level = (opt \<notin> set token_level_options);
          per_seq = vzip (seq_stat opt) L M;
          S = (if seq_level then vzip (\<lambda>s m. replicate (length m) s) per_seq M else mmap (token_stat opt) L);
          hi = (if is_k1 opt then ln (snd b) else snd b);
          lo = (if is_k1 opt then (case fst b of None \<Rightarrow> 0 | Some l \<Rightarrow> ln l) else 0);
          seq_keep = vzip (\<lambda>ks m. list_all (\<lambda>k. k) (kept ks m)) keep M;
          n = sum_list (map frac (seq_valid M))
      in bind_r (compute_rs_metrics opt S M (seq_valid M) seq_level (if seq_level then Some per_seq else None) hi lo (is_k1 opt)) (\<lambda>ms.
         Inr (ms @ [(''rollout_rs_'' @ opt @ ''_masked_fraction'', masked_mean (mmap (\<lambda>k. 1 - frac k) keep) M),
           (''rollout_rs_'' @ opt @ ''_seq_masked_fraction'',
             if 0 < n then sum_list (vzip (\<lambda>k v. (1 - frac k) * frac v) seq_keep (seq_valid M)) / n else 0)])))"

fun run_options :: "(string \<times> real option \<times> real) list \<Rightarrow> mat \<Rightarrow> mat \<Rightarrow> mat \<Rightarrow> metrics \<Rightarrow> (mat \<times> metrics) result" where
  "run_options [] L M C ms = Inr (C, ms)"
| "run_options ((opt, b) # specs) L M C ms =
     require (\<not> startswith ''seq_max'' opt \<or> (\<forall>row \<in> set L. row \<noteq> [])) IndexError
       (bind_r (option_metrics opt b L M) (\<lambda>om.
          run_options specs L M (combine_keep C (token_keep opt b L M)) (dict_update ms om)))"

definition compute_rollout_rejection_mask :: "mat \<Rightarrow> mat \<Rightarrow> string \<Rightarrow> threshold option \<Rightarrow> (mat \<times> metrics) result" where
  "compute_rollout_rejection_mask L M rollout_rs spec =
     require (spec \<noteq> None) ValueError
       (if L = [] then Inr (M, [])
        else bind_r (normalize_options rollout_rs) (\<lambda>opts.
          bind_r (parse_rs_thresholds opts spec) (\<lambda>specs.
          bind_r (run_options specs L M (mmap (\<lambda>_. 1) M) []) (\<lambda>(C, ms).
            let has_masked = vzip (\<lambda>c m. list_ex (\<lambda>x. \<not> 1 / 2 < x) (kept c m)) C M
            in Inr (mzip (\<lambda>m c. m * c) M C,
                 dict_set ''rollout_rs_seq_masked_fraction'' (avg (map frac has_masked))
                   (dict_set ''rollout_rs_masked_fraction'' (masked_mean (mmap (\<lambda>c. 1 - c) C) M) ms))))))"

section \<open>Importance-sampling weights\<close>

text \<open>\<open>peers\<close> are the sums and counts of the other ranks when torch.distributed is initialised.\<close>

definition mean_over_ranks :: "(real \<times> real) option \<Rightarrow> real \<Rightarrow> real \<Rightarrow> real \<Rightarrow> real" where
  "mean_over_ranks peers local_mean s n = (case peers of None \<Rightarrow> local_mean | Some (s', n') \<Rightarrow> (s + s') / (n + n'))"

definition raw_is_weights :: "string \<Rightarrow> mat \<Rightarrow> mat \<Rightarrow> mat" where
  "raw_is_weights level L M =
     (if level = ''token'' then mzip (\<lambda>x m. exp (safe x) * m) L M
      else vzip (\<lambda>row m. map (\<lambda>b. exp (safe (row_sum row m)) * b) m) L M)"

definition truncate_weight :: "real \<Rightarrow> real option \<Rightarrow> real \<Rightarrow> real" where
  "truncate_weight upper lower w = (case lower of
       None \<Rightarrow> min w upper
     | Some l \<Rightarrow> if l \<le> w \<and> w \<le> upper then w else 0)"

definition compute_is_metrics :: "mat \<Rightarrow> mat \<Rightarrow> vec \<Rightarrow> mat \<Rightarrow> string \<Rightarrow> real \<Rightarrow> real option \<Rightarrow> metrics result" where
  "compute_is_metrics W raw log_sums M level upper lower_opt =
     require (any_valid M) ValueError
       (let lower = (case lower_opt of None \<Rightarrow> 1 / upper | Some l \<Rightarrow> l);
            entries = valid_entries W M;
            by_level =
              (if level = ''sequence''
               then [(''rollout_is_max'', exp (min (max_of log_sums) 20)), (''rollout_is_min'', exp (min_of log_sums)),
                 (''rollout_is_mean'', masked_mean W M),
                 (''rollout_is_ratio_fraction_high'', avg (map (\<lambda>x. frac (ln upper < x)) log_sums)),
                 (''rollout_is_ratio_fraction_low'', avg (map (\<lambda>x. frac (x < ln lower)) log_sums))]
               else [(''rollout_is_mean'', masked_mean W M),
                 (''rollout_is_ratio_fraction_high'', masked_mean (mmap (\<lambda>x. frac (upper < x)) raw) M),
                 (''rollout_is_ratio_fraction_low'', masked_mean (mmap (\<lambda>x. frac (x < lower)) raw) M),
                 (''rollout_is_max'', max_of entries), (''rollout_is_min'', min_of entries)]);
            clamped = mmap (clamp 0 upper) W;
            m = masked_mean clamped M;
            second_moment = masked_mean (mmap (\<lambda>x. (x / (m + 1 / 10 ^ 8)) ^ 2) clamped) M;
            seq_mean = vzip row_avg W M
        in require (second_moment \<noteq> 0) ZeroDivisionError
          (Inr (by_level @
            [(''rollout_is_std'', masked_std clamped M), (''rollout_is_eff_sample_size'', 1 / second_moment),
             (''rollout_is_seq_mean'', avg seq_mean), (''rollout_is_seq_std'', std_or_0 seq_mean),
             (''rollout_is_seq_max'', max_of seq_mean), (''rollout_is_seq_min'', min_of seq_mean),
             (''rollout_is_seq_max_deviation'', max_of (map (\<lambda>x. \<bar>x - 1\<bar>) seq_mean)),
             (''rollout_is_seq_fraction_high'', avg (map (\<lambda>x. frac (upper < x)) seq_mean)),
             (''rollout_is_seq_fraction_low'', avg (map (\<lambda>x. frac (x < lower)) seq_mean))])))"

definition weights_mean :: "(real \<times> real) option \<Rightarrow> string \<Rightarrow> mat \<Rightarrow> mat \<Rightarrow> real" where
  "weights_mean peers level W M =
     (if level = ''token'' then mean_over_ranks peers (masked_mean W M) (msum (mzip (\<lambda>w m. w * m) W M)) (msum M)
      else (let sw = vzip row_avg W M; sm = seq_present M; s = sum_list (vzip (\<lambda>w m. w * m) sw sm); n = sum_list sm
            in mean_over_ranks peers (s / max n (1 / 10 ^ 8)) s n))"

definition compute_rollout_correction_weights :: "(real \<times> real) option \<Rightarrow> mat \<Rightarrow> mat \<Rightarrow> string \<Rightarrow> threshold \<Rightarrow> bool \<Rightarrow>
    (mat \<times> metrics) result" where
  "compute_rollout_correction_weights peers L M level spec batch_normalize =
     require (level = ''token'' \<or> level = ''sequence'') ValueError
       (bind_r (parse_is_threshold spec) (\<lambda>(upper, lower).
          let raw = raw_is_weights level L M; W = mmap (truncate_weight upper lower) raw
          in bind_r (compute_is_metrics W raw (vzip row_sum L M) M level upper lower) (\<lambda>ms.
            let ms1 = (case lower of None \<Rightarrow> ms
                  | Some l \<Rightarrow> dict_set ''rollout_is_oob_ratio'' (masked_mean (mmap (\<lambda>x. frac (x < l \<or> upper < x)) raw) M) ms);
                wm = weights_mean peers level W M
            in Inr (if \<not> batch_normalize then (W, ms1)
               else if 1 / 10 ^ 8 < wm then (mmap (\<lambda>w. w / wm) W, dict_set ''rollout_is_batch_norm_factor'' wm ms1)
               else (W, dict_set ''rollout_is_batch_norm_factor'' 1 ms1)))))"

section \<open>Off-policy metrics\<close>

definition compute_offpolicy_metrics :: "mat \<Rightarrow> mat option \<Rightarrow> mat \<Rightarrow> metrics result" where
  "compute_offpolicy_metrics lps rollout_lps M =
     require (any_valid M) AssertionError
       (let train = vzip row_avg lps M;
            base = [(''training_ppl'', avg (map (\<lambda>x. exp (- x)) train)), (''training_log_ppl'', avg (map uminus train))]
        in Inr (case rollout_lps of None \<Rightarrow> base
          | Some rl \<Rightarrow>
            (let log_ratios = mzip (\<lambda>p q. p - q) lps rl;
                 roll = vzip row_avg rl M;
                 d = vzip (\<lambda>r t. r - t) roll train
             in base @
               [(''kl'', masked_mean (mzip (\<lambda>q p. q - p) rl lps) M),
                (''k3_kl'', masked_mean (mmap (\<lambda>x. exp x - x - 1) log_ratios) M),
                (''rollout_ppl'', avg (map (\<lambda>x. exp (- x)) roll)), (''rollout_log_ppl'', avg (map uminus roll)),
                (''log_ppl_diff'', avg d), (''log_ppl_abs_diff'', avg (map abs d)),
                (''log_ppl_diff_max'', max_of d), (''log_ppl_diff_min'', min_of d),
                (''ppl_ratio'', avg (map exp d)),
                (''chi2_token'', masked_mean (mmap (\<lambda>x. exp (safe x) ^ 2) log_ratios) M - 1),
                (''chi2_seq'', avg (vzip (\<lambda>row m. exp (2 * safe (row_sum row m))) log_ratios M) - 1)])))"

section \<open>The pipeline\<close>

record corr_config =
  rollout_is :: "string option"
  rollout_is_threshold :: "threshold option"
  rollout_is_batch_normalize :: bool
  rollout_rs :: "string option"
  rollout_rs_threshold :: "threshold option"
  bypass_mode :: bool
  loss_type :: string

definition with_prefix :: "metrics \<Rightarrow> metrics" where
  "with_prefix ms = map (\<lambda>(k, v). (''rollout_corr/'' @ k, v)) ms"

definition compute_rollout_correction_and_rejection_mask :: "(real \<times> real) option \<Rightarrow> mat \<Rightarrow> mat \<Rightarrow> mat \<Rightarrow> corr_config \<Rightarrow>
    (mat option \<times> mat \<times> metrics) result" where
  "compute_rollout_correction_and_rejection_mask peers lps rollout_lps M cfg =
     require (any_valid M) ValueError
       (require (map length lps = map length rollout_lps \<and> map length lps = map length M) ValueError
         (let L = mzip (\<lambda>p q. p - q) lps rollout_lps in
          bind_r (case (rollout_is cfg, rollout_is_threshold cfg) of
              (Some level, Some spec) \<Rightarrow> bind_r (compute_rollout_correction_weights peers L M level spec (rollout_is_batch_normalize cfg))
                 (\<lambda>(W, ms). Inr (Some W, ms))
            | _ \<Rightarrow> Inr (None, []))
          (\<lambda>(W, ms1).
          bind_r (case rollout_rs cfg of
              None \<Rightarrow> Inr (M, [])
            | Some rs \<Rightarrow> require (rollout_rs_threshold cfg \<noteq> None) ValueError
                (compute_rollout_rejection_mask L M rs (rollout_rs_threshold cfg)))
          (\<lambda>(M', ms2).
          bind_r (compute_offpolicy_metrics lps (Some rollout_lps) M) (\<lambda>ms3.
            Inr (W, M', with_prefix (dict_update (dict_update ms1 ms2) ms3)))))))"

text \<open>The training batch: its tensors are rows of reals.\<close>

type_synonym ('o, 'm) train_batch = "(vec, 'o, 'm) data_proto"

definition batch_item :: "('o, 'm) train_batch \<Rightarrow> string \<Rightarrow> mat result" where
  "batch_item d k = (case dp_batch d of None \<Rightarrow> Inl TypeError | Some b \<Rightarrow> dict_item (td_items b) k)"

definition set_batch_item :: "string \<Rightarrow> mat \<Rightarrow> ('o, 'm) train_batch \<Rightarrow> ('o, 'm) train_batch" where
  "set_batch_item k v d = d\<lparr>dp_batch := map_option (\<lambda>b. b\<lparr>td_items := dict_set k v (td_items b)\<rparr>) (dp_batch d)\<rparr>"

definition compute_rollout_correction_and_add_to_batch :: "(real \<times> real) option \<Rightarrow> ('o, 'm) train_batch \<Rightarrow> corr_config \<Rightarrow>
    (('o, 'm) train_batch \<times> metrics) result" where
  "compute_rollout_correction_and_add_to_batch peers d cfg =
     bind_r (batch_item d ''old_log_probs'') (\<lambda>lps.
     bind_r (batch_item d ''rollout_log_probs'') (\<lambda>rl.
     bind_r (batch_item d ''response_mask'') (\<lambda>M.
     bind_r (compute_rollout_correction_and_rejection_mask peers lps rl M cfg) (\<lambda>(W, M', ms).
       let d1 = set_batch_item ''response_mask'' M' d in
       case W of None \<Rightarrow> Inr (d1, ms)
       | Some w \<Rightarrow> bind_r (mk_dp (Some \<lparr>td_size = length w, td_items = [(''rollout_is_weights'', w)]\<rparr>) [] [])
           (\<lambda>e. bind_r (union_dp d1 e) (\<lambda>d2. Inr (d2, ms)))))))"

definition compute_rollout_corr_metrics_from_logprobs :: "mat \<Rightarrow> mat \<Rightarrow> mat \<Rightarrow> metrics result" where
  "compute_rollout_corr_metrics_from_logprobs lps rollout_lps M =
     bind_r (compute_offpolicy_metrics lps (Some rollout_lps) M) (\<lambda>ms. Inr (with_prefix ms))"

text \<open>Bypass mode: the log-probabilities of the rollout stand in for the old ones; the loss configuration gets the
  correction settings and the name of the loss.\<close>

record loss_config =
  lc_loss_mode :: string
  lc_rollout_correction :: "corr_config option"

definition apply_bypass_mode :: "('o, 'm) train_batch \<Rightarrow> corr_config option \<Rightarrow> loss_config \<Rightarrow>
    (('o, 'm) train_batch \<times> loss_config) result" where
  "apply_bypass_mode d cfg lc =
     (case batch_item d ''rollout_log_probs'' of
        Inl e \<Rightarrow> Inl (if e = KeyError then ValueError else e)
      | Inr rl \<Rightarrow> Inr (set_batch_item ''old_log_probs'' rl d, lc\<lparr>lc_rollout_correction := cfg, lc_loss_mode := ''bypass_mode''\<rparr>))"

definition compute_policy_loss_bypass_mode :: "(real \<times> real) option \<Rightarrow> mat \<Rightarrow> mat \<Rightarrow> mat \<Rightarrow> mat \<Rightarrow> string \<Rightarrow> actor_config \<Rightarrow>
    loss_config \<Rightarrow> mat option \<Rightarrow> loss_result" where
  "compute_policy_loss_bypass_mode peers old_lps lps advs M mode cfg lc ws =
     (case lc_rollout_correction lc of
        None \<Rightarrow> Inl ValueError
      | Some cc \<Rightarrow>
          bind_r (compute_rollout_correction_and_rejection_mask peers lps old_lps M cc) (\<lambda>(W, M', ms).
          bind_r (if loss_type cc = ''reinforce'' then compute_policy_loss_reinforce old_lps lps advs M' mode cfg W
                  else if loss_type cc = ''ppo_clip'' then compute_policy_loss_vanilla old_lps lps advs M' mode cfg None
                  else Inl ValueError) (\<lambda>(loss, pg_ms). Inr (loss, dict_update pg_ms ms))))"

section \<open>The rejection mask\<close>

lemma shape_token_keep: "shape L = shape M \<Longrightarrow> shape (token_keep opt b L M) = shape M"
  using length_shape [of L M] by (simp add: token_keep_def shape_vzip_rows)

lemma parse_rs_keys:
  assumes "parse_rs_thresholds opts spec = Inr specs"
  shows "map fst specs = opts"
proof -
  let ?f = "\<lambda>(opt, r). bind_r (parse_rs_spec opt r) (\<lambda>b. Inr (opt, b))"
  have gen: "map fst specs = opts" if "map_r ?f (zip opts raw) = Inr specs" "length raw = length opts" for raw
  proof -
    from that(1) have "list_all2 (\<lambda>p q. ?f p = Inr q) (zip opts raw) specs" by (simp add: map_r_Inr)
    then have "map fst specs = map fst (zip opts raw)"
      by (induction rule: list_all2_induct) (auto simp: bind_r_Inr split: prod.splits)
    then show ?thesis using that(2) by simp
  qed
  from assms obtain t where t: "spec = Some t" by (cases spec) (simp_all add: parse_rs_thresholds_def)
  define raw where "raw = raw_specs t"
  define raw' where "raw' = (if length raw = 1 \<and> 1 < length opts then replicate (length opts) (hd raw) else raw)"
  from assms have l: "length raw = 1 \<or> length raw = length opts" and m: "map_r ?f (zip opts raw') = Inr specs"
    unfolding t parse_rs_thresholds_def raw_def raw'_def by (simp_all only: option.case Let_def require_Inr)
  show ?thesis
  proof (cases "opts = []")
    case True
    with m show ?thesis by simp
  next
    case False
    then have "0 < length opts" by simp
    then have "length raw' = length opts" using l unfolding raw'_def
      by (cases "length opts") (auto split: if_splits)
    with m show ?thesis by (rule gen)
  qed
qed

definition all_keep :: "(string \<times> real option \<times> real) list \<Rightarrow> mat \<Rightarrow> mat \<Rightarrow> nat \<Rightarrow> nat \<Rightarrow> bool" where
  "all_keep specs L M i j \<longleftrightarrow> (\<forall>(opt, b) \<in> set specs. token_keep opt b L M ! i ! j)"

lemma run_options_mask:
  assumes "run_options specs L M C ms = Inr (C', ms')" "shape L = shape M" "shape C = shape M"
  shows "shape C' = shape M \<and> (\<forall>i < length M. \<forall>j < length (M ! i). C' ! i ! j = C ! i ! j * frac (all_keep specs L M i j))"
  using assms
proof (induction specs L M C ms arbitrary: C' ms' rule: run_options.induct)
  case (2 opt b specs L M C ms)
  let ?K = "token_keep opt b L M"
  have K: "shape C = shape ?K" using 2(3,4) by (simp add: shape_token_keep)
  then have sh: "shape (combine_keep C ?K) = shape M" using 2(4) by (simp add: combine_keep_def shape_mzip)
  from 2(2) obtain om where "option_metrics opt b L M = Inr om"
    and run: "run_options specs L M (combine_keep C ?K) (dict_update ms om) = Inr (C', ms')" by (auto simp: require_Inr bind_r_Inr)
  from 2(1) [OF run 2(3) sh] have IH: "shape C' = shape M"
    "\<forall>i < length M. \<forall>j < length (M ! i). C' ! i ! j = combine_keep C ?K ! i ! j * frac (all_keep specs L M i j)"
    by (auto simp: require_Inr)
  have "C' ! i ! j = C ! i ! j * frac (all_keep ((opt, b) # specs) L M i j)" if "i < length M" "j < length (M ! i)" for i j
    using IH(2) that nth_mzip [OF K, of i j "\<lambda>c k. c * frac k"] length_shape [OF 2(4)] shape_nth [OF 2(4), of i]
    by (simp add: combine_keep_def all_keep_def frac_def)
  with IH(1) show ?case by blast
qed (simp add: all_keep_def frac_def)

text \<open>C39 Rejection sampling keeps a valid token exactly if every option keeps it, and the mask stays a mask of the same
  shape; when all options judge sequences, every response is kept as it is or rejected as a whole.\<close>

theorem rejection_mask_exact:
  assumes res: "compute_rollout_rejection_mask L M rs spec = Inr (M', ms)"
    and shp: "same_shape L M" "is_mask M" "L \<noteq> []"
  shows "\<exists>opts specs. normalize_options rs = Inr opts \<and> parse_rs_thresholds opts spec = Inr specs \<and> map fst specs = opts \<and>
    same_shape M' M \<and>
    (\<forall>i < length M. \<forall>j < length (M ! i). M' ! i ! j = (if M ! i ! j = 1 \<and> all_keep specs L M i j then 1 else 0)) \<and>
    ((\<forall>opt \<in> set opts. opt \<notin> set token_level_options) \<longrightarrow>
       (\<forall>i < length M. M' ! i = M ! i \<or> M' ! i = replicate (length (M ! i)) 0))"
proof -
  from res shp(3) obtain opts specs C ms1 where p: "normalize_options rs = Inr opts" "parse_rs_thresholds opts spec = Inr specs"
    "run_options specs L M (mmap (\<lambda>_. 1) M) [] = Inr (C, ms1)" and M': "M' = mzip (\<lambda>m c. m * c) M C"
    by (auto simp: compute_rollout_rejection_mask_def require_Inr bind_r_Inr Let_def)
  have shL: "shape L = shape M" using shp(1) by (simp add: same_shape_iff)
  from run_options_mask [OF p(3) shL] have C: "shape C = shape M"
    "\<forall>i < length M. \<forall>j < length (M ! i). C ! i ! j = frac (all_keep specs L M i j)" by (simp_all add: nth_mmap)
  have shM': "shape M' = shape M" unfolding M' using C(1) by (simp add: shape_mzip)
  have m01: "M ! i ! j = 0 \<or> M ! i ! j = 1" if "i < length M" "j < length (M ! i)" for i j
    using shp(2) that unfolding is_mask_def by (metis nth_mem)
  have entry: "M' ! i ! j = (if M ! i ! j = 1 \<and> all_keep specs L M i j then 1 else 0)"
    if "i < length M" "j < length (M ! i)" for i j
    using m01 [OF that] C that by (auto simp: M' nth_mzip frac_def)
  have fsts: "map fst specs = opts" by (rule parse_rs_keys [OF p(2)])
  have rows: "M' ! i = M ! i \<or> M' ! i = replicate (length (M ! i)) 0"
    if seq: "\<forall>opt \<in> set opts. opt \<notin> set token_level_options" and i: "i < length M" for i
  proof -
    have len: "length (M' ! i) = length (M ! i)" using shape_nth [OF shM'] i length_shape [OF shM'] by simp
    have "all_keep specs L M i j = all_keep specs L M i 0" if j: "j < length (M ! i)" for j
    proof -
      have "token_keep opt b L M ! i ! j = token_keep opt b L M ! i ! 0" if "(opt, b) \<in> set specs" for opt b
      proof -
        have "opt \<notin> set token_level_options" using seq that fsts by (metis fst_conv image_eqI list.set_map)
        moreover have "0 < length (M ! i)" using j by (cases "M ! i") simp_all
        ultimately show ?thesis using i j length_shape [OF shL] by (simp only: token_keep_def if_False nth_vzip nth_replicate)
      qed
      then show ?thesis by (auto simp: all_keep_def)
    qed
    then have e: "M' ! i ! j = (if all_keep specs L M i 0 then M ! i ! j else 0)" if "j < length (M ! i)" for j
      using entry [OF i that] m01 [OF i that] that by (cases "M ! i ! j = 1") simp_all
    then show ?thesis using len
      by (cases "all_keep specs L M i 0") (simp_all add: list_eq_iff_nth_eq)
  qed
  show ?thesis
    using p(1,2) fsts shM' entry rows by (intro exI [of _ opts] exI [of _ specs]) (simp add: same_shape_iff)
qed

section \<open>Weights\<close>

lemma parse_is_bounds:
  assumes "parse_is_threshold spec = Inr (upper, lower)"
  shows "0 < upper" "lower = Some l \<Longrightarrow> 0 < l \<and> l \<le> upper"
proof -
  let ?check = "\<lambda>(upper, lower). require (0 < upper) ValueError
    (case lower of None \<Rightarrow> Inr (upper, None)
     | Some l \<Rightarrow> require (0 < l) ValueError (require (l \<le> upper) ValueError (Inr (upper, Some l))))"
  from assms obtain x where "?check x = Inr (upper, lower)"
    unfolding parse_is_threshold_def bind_r_Inr by blast
  then show "0 < upper" "lower = Some l \<Longrightarrow> 0 < l \<and> l \<le> upper"
    by (cases x; cases "snd x"; simp add: require_Inr; blast)+
qed

text \<open>The log ratio of a weight: that of the token, or the sum over the valid tokens of the response.\<close>

definition weight_log :: "string \<Rightarrow> mat \<Rightarrow> mat \<Rightarrow> nat \<Rightarrow> nat \<Rightarrow> real" where
  "weight_log level L M i j = (if level = ''token'' then L ! i ! j else row_sum (L ! i) (M ! i))"

lemma shape_raw [simp]: "shape L = shape M \<Longrightarrow> shape (raw_is_weights level L M) = shape M"
  using length_shape [of L M] by (simp add: raw_is_weights_def shape_mzip shape_vzip_rows)

lemma raw_entry:
  assumes "shape L = shape M" "i < length M" "j < length (M ! i)"
  shows "raw_is_weights level L M ! i ! j = exp (safe (weight_log level L M i j)) * M ! i ! j"
proof -
  have "i < length L" "j < length (L ! i)" using assms length_shape [OF assms(1)] shape_nth [OF assms(1), of i] by simp_all
  then show ?thesis using assms nth_mzip [OF assms(1), of i j "\<lambda>x m. exp (safe x) * m"]
    by (simp add: raw_is_weights_def weight_log_def)
qed

lemma correction_weights_split:
  assumes "compute_rollout_correction_weights peers L M level spec b = Inr (W, ms)"
  obtains upper lower ms1 where "parse_is_threshold spec = Inr (upper, lower)" "level = ''token'' \<or> level = ''sequence''"
    "compute_is_metrics (mmap (truncate_weight upper lower) (raw_is_weights level L M)) (raw_is_weights level L M)
       (vzip row_sum L M) M level upper lower = Inr ms1"
    "W = (let W0 = mmap (truncate_weight upper lower) (raw_is_weights level L M); wm = weights_mean peers level W0 M
          in if b \<and> 1 / 10 ^ 8 < wm then mmap (\<lambda>w. w / wm) W0 else W0)"
  using assms unfolding compute_rollout_correction_weights_def require_Inr bind_r_Inr
  by (auto simp: Let_def bind_r_Inr split: if_splits)

text \<open>Importance weights without normalisation: padding gets 0; a valid token gets the ratio of the policies (of the token,
  or of the whole response), exact while its logarithm stays within 20, cut to the upper threshold or, with
  two thresholds, set to 0 outside of them. No weight is negative or above the upper threshold.\<close>

theorem is_weights_truncated:
  assumes res: "compute_rollout_correction_weights peers L M level spec False = Inr (W, ms)"
    and shp: "same_shape L M" "is_mask M" and ij: "i < length M" "j < length (M ! i)"
  shows "\<exists>upper lower. parse_is_threshold spec = Inr (upper, lower) \<and> 0 \<le> W ! i ! j \<and> W ! i ! j \<le> upper \<and>
    (M ! i ! j = 0 \<longrightarrow> W ! i ! j = 0) \<and>
    (M ! i ! j = 1 \<and> \<bar>weight_log level L M i j\<bar> \<le> 20 \<longrightarrow>
       (let r = exp (weight_log level L M i j) in
        W ! i ! j = (case lower of None \<Rightarrow> min r upper | Some l \<Rightarrow> if l \<le> r \<and> r \<le> upper then r else 0)))"
proof -
  from res obtain upper lower where p: "parse_is_threshold spec = Inr (upper, lower)"
    and W: "W = mmap (truncate_weight upper lower) (raw_is_weights level L M)"
    by (rule correction_weights_split) (auto simp: Let_def)
  have sh: "shape L = shape M" using shp(1) by (simp add: same_shape_iff)
  let ?R = "raw_is_weights level L M"
  have "i < length ?R" "j < length (?R ! i)"
    using ij length_shape [OF shape_raw [OF sh, of level]] shape_nth [OF shape_raw [OF sh, of level], of i] by simp_all
  then have w: "W ! i ! j = truncate_weight upper lower (exp (safe (weight_log level L M i j)) * M ! i ! j)"
    unfolding W by (simp add: nth_mmap raw_entry [OF sh ij])
  have m: "M ! i ! j = 0 \<or> M ! i ! j = 1" using shp(2) ij unfolding is_mask_def by (metis nth_mem)
  note up = parse_is_bounds [OF p]
  have pos: "0 \<le> exp (safe (weight_log level L M i j)) * M ! i ! j" using m by auto
  have range: "0 \<le> truncate_weight upper lower x \<and> truncate_weight upper lower x \<le> upper" if "0 \<le> x" for x
    using up(1) that by (simp add: truncate_weight_def split: option.splits)
  have zero: "truncate_weight upper lower 0 = 0"
    using up(1) up(2) by (cases lower) (auto simp: truncate_weight_def)
  have safe: "safe x = x" if "\<bar>x\<bar> \<le> 20" for x using that by (simp add: safe_def clamp_id abs_le_iff)
  show ?thesis unfolding w
    by (intro exI [of _ upper] exI [of _ lower])
      (use p range [OF pos] zero safe in \<open>auto simp: Let_def truncate_weight_def\<close>)
qed

lemma masked_sum_scale: "masked_sum (mmap (\<lambda>w. w / c) W) M = masked_sum W M / c"
proof -
  have "sum_list (vzip (\<lambda>v m. v * m) (map (\<lambda>w. w / c) r) s) = sum_list (vzip (\<lambda>v m. v * m) r s) / c" for r s
    by (induction r s rule: list_induct2') (simp_all add: add_divide_distrib)
  then show ?thesis unfolding masked_sum_mult
    by (induction W M rule: list_induct2') (simp_all add: mmap_def add_divide_distrib)
qed

lemma row_avg_scale: "vzip row_avg (mmap (\<lambda>w. w / c) W) M = map (\<lambda>x. x / c) (vzip row_avg W M)"
proof (induction W M rule: list_induct2')
  case (4 r W s M)
  have "row_avg (map (\<lambda>w. w / c) r) s = row_avg r s / c"
    using masked_sum_scale [of c "[r]" "[s]"] by (simp add: row_avg_def masked_mean_def mmap_def)
  with 4 show ?case by (simp add: mmap_def)
qed (simp_all add: mmap_def)

lemma weights_mean_scale: "weights_mean None level (mmap (\<lambda>w. w / c) W) M = weights_mean None level W M / c"
proof -
  have "sum_list (vzip (\<lambda>w m. w * m) (map (\<lambda>x. x / c) xs) ms) = sum_list (vzip (\<lambda>w m. w * m) xs ms) / c" for xs ms :: vec
    by (induction xs ms rule: list_induct2') (simp_all add: add_divide_distrib)
  then show ?thesis
    by (simp add: weights_mean_def mean_over_ranks_def masked_mean_def masked_sum_scale row_avg_scale Let_def)
qed

text \<open>Batch normalisation on one rank makes the mean weight (over tokens, or over responses) exactly 1, unless it is
  at most \<open>1e-8\<close>; then the weights stay as they are.\<close>

theorem is_weights_normalised:
  assumes "compute_rollout_correction_weights None L M level spec True = Inr (W, ms)"
  shows "\<exists>W0 ms0. compute_rollout_correction_weights None L M level spec False = Inr (W0, ms0) \<and>
    (if 1 / 10 ^ 8 < weights_mean None level W0 M
     then weights_mean None level W M = 1 \<and> W = mmap (\<lambda>w. w / weights_mean None level W0 M) W0 else W = W0)"
proof -
  from assms obtain upper lower ms1 where p: "parse_is_threshold spec = Inr (upper, lower)" "level = ''token'' \<or> level = ''sequence''"
    and ms1: "compute_is_metrics (mmap (truncate_weight upper lower) (raw_is_weights level L M)) (raw_is_weights level L M)
       (vzip row_sum L M) M level upper lower = Inr ms1"
    and W: "W = (let W0 = mmap (truncate_weight upper lower) (raw_is_weights level L M); wm = weights_mean None level W0 M
          in if True \<and> 1 / 10 ^ 8 < wm then mmap (\<lambda>w. w / wm) W0 else W0)" by (rule correction_weights_split)
  let ?W0 = "mmap (truncate_weight upper lower) (raw_is_weights level L M)"
  obtain ms0 where "compute_rollout_correction_weights None L M level spec False = Inr (?W0, ms0)"
    using p ms1 by (simp add: compute_rollout_correction_weights_def Let_def)
  moreover have "weights_mean None level ?W0 M \<noteq> 0" if "1 / 10 ^ 8 < weights_mean None level ?W0 M" using that by auto
  ultimately show ?thesis unfolding W Let_def by (intro exI [of _ ?W0] exI [of _ ms0]) (simp add: weights_mean_scale)
qed

lemma row_sum_zero: "sum_list (vzip (\<lambda>v m. v * m) (map (\<lambda>_. 0) r) s) = (0 :: real)"
  by (induction r s rule: list_induct2') simp_all

lemma masked_sum_zero: "masked_sum (mmap (\<lambda>_. 0) A) B = 0"
  unfolding masked_sum_mult by (induction A B rule: list_induct2') (simp_all add: mmap_def row_sum_zero)

lemma mmap_mmap: "mmap f (mmap g A) = mmap (\<lambda>x. f (g x)) A"
  by (simp add: mmap_def comp_def)

text \<open>With two thresholds, a batch in which every valid token lies outside of them is not handled: the effective
  sample size divides by zero and the whole step raises.\<close>

theorem icepop_all_rejected_raises:
  assumes p: "parse_is_threshold spec = Inr (upper, Some l)" and level: "level = ''token'' \<or> level = ''sequence''"
    and shp: "same_shape L M" "is_mask M" "any_valid M"
    and out: "\<And>i j. i < length M \<Longrightarrow> j < length (M ! i) \<Longrightarrow> M ! i ! j = 1 \<Longrightarrow>
      \<not> (l \<le> exp (safe (weight_log level L M i j)) \<and> exp (safe (weight_log level L M i j)) \<le> upper)"
  shows "compute_rollout_correction_weights peers L M level spec b = Inl ZeroDivisionError"
proof -
  have sh: "shape L = shape M" using shp(1) by (simp add: same_shape_iff)
  let ?R = "raw_is_weights level L M"
  let ?W = "mmap (truncate_weight upper (Some l)) ?R"
  have shW: "shape ?W = shape M" using sh by simp
  have l: "0 < l" using parse_is_bounds(2) [OF p] by simp
  have "?W = mmap (\<lambda>_. 0) M"
  proof (rule mat_eqI)
    show "shape ?W = shape (mmap (\<lambda>_. 0 :: real) M)" using shW by simp
    fix i j
    assume "i < length ?W" "j < length (?W ! i)"
    then have ij: "i < length M" "j < length (M ! i)" using length_shape [OF shW] shape_nth [OF shW] by simp_all
    then have ijR: "i < length ?R" "j < length (?R ! i)"
      using length_shape [OF shape_raw [OF sh, of level]] shape_nth [OF shape_raw [OF sh, of level], of i] by simp_all
    have "M ! i ! j = 0 \<or> M ! i ! j = 1" using shp(2) ij unfolding is_mask_def by (metis nth_mem)
    then show "?W ! i ! j = mmap (\<lambda>_. 0) M ! i ! j"
      using out [OF ij] l by (auto simp: nth_mmap ij ijR raw_entry [OF sh ij] truncate_weight_def)
  qed
  moreover have "min 0 upper = 0" using parse_is_bounds(1) [OF p] by simp
  ultimately have "compute_is_metrics ?W ?R (vzip row_sum L M) M level upper (Some l) = Inl ZeroDivisionError"
    using shp(3) by (simp add: masked_sum_zero compute_is_metrics_def Let_def mmap_mmap masked_mean_def clamp_def require_def)
  with p level show ?thesis by (simp add: compute_rollout_correction_weights_def Let_def)
qed

section \<open>Bounds of the k1 options\<close>

text \<open>The two thresholds of a k1 option bound the inverse ratio, rollout over training, not the ratio itself; a single
  threshold stands for itself and its reciprocal, so that one below 1 rejects every token.\<close>

theorem k1_bounds_inverse_ratio:
  assumes spec: "parse_rs_spec ''token_k1'' raw = Inr (Some l, u)" and r: "0 < r" "\<bar>ln r\<bar> \<le> 20"
  shows "(in_bounds ''token_k1'' (Some l, u) (token_stat ''token_k1'' (ln r)) \<longleftrightarrow> l \<le> 1 / r \<and> 1 / r \<le> u) \<and>
    (\<not> has_underscore raw \<longrightarrow> l = 1 / u \<and>
       (u < 1 \<longrightarrow> \<not> in_bounds ''token_k1'' (Some l, u) (token_stat ''token_k1'' (ln r))))"
proof -
  have k1: "is_k1 ''token_k1''" by (simp add: is_k1_def endswith_def)
  from spec have pos: "0 < l" "0 < u" by (auto simp: parse_rs_spec_def k1 bind_r_Inr require_Inr)
  have stat: "token_stat ''token_k1'' (ln r) = ln (1 / r)"
    using r by (simp add: token_stat_def k1 safe_def clamp_id abs_le_iff ln_div)
  have iff: "in_bounds ''token_k1'' (Some l, u) (token_stat ''token_k1'' (ln r)) \<longleftrightarrow> l \<le> 1 / r \<and> 1 / r \<le> u"
    using pos r(1) unfolding stat by (simp add: in_bounds_def k1 del: ln_divide_pos)
  have "l = 1 / u" if "\<not> has_underscore raw"
    using spec that by (auto simp: parse_rs_spec_def k1 has_underscore_def bind_r_Inr require_Inr split: raw_spec.splits)
  moreover have "\<not> (1 / u \<le> x \<and> x \<le> u)" if "u < 1" for x
  proof -
    have "1 < 1 / u" using that pos(2) by simp
    with that show ?thesis by linarith
  qed
  ultimately show ?thesis using iff by blast
qed

section \<open>Losses on a rejection mask\<close>

lemma shape_rejection_mask:
  assumes res: "compute_rollout_rejection_mask L M rs spec = Inr (M', ms)" and sh: "shape L = shape M"
  shows "shape M' = shape M"
proof (cases "L = []")
  case True
  with res show ?thesis by (simp add: compute_rollout_rejection_mask_def require_Inr)
next
  case False
  with res obtain opts specs C ms1 where "run_options specs L M (mmap (\<lambda>_. 1) M) [] = Inr (C, ms1)"
    and M': "M' = mzip (\<lambda>m c. m * c) M C"
    by (auto simp: compute_rollout_rejection_mask_def require_Inr bind_r_Inr Let_def)
  from run_options_mask [OF this(1) sh] have "shape C = shape M" by simp
  then show ?thesis unfolding M' by (simp add: shape_mzip)
qed

lemma pipeline_shapes:
  assumes "compute_rollout_correction_and_rejection_mask peers lps rl M cc = Inr (W, M', ms)"
  shows "shape lps = shape M \<and> shape rl = shape M \<and> shape M' = shape M \<and> (case W of None \<Rightarrow> True | Some w \<Rightarrow> shape w = shape M)"
proof -
  let ?L = "mzip (\<lambda>p q. p - q) lps rl"
  from assms have sh: "shape lps = shape M" "shape rl = shape M" and valid: "any_valid M"
    by (auto simp: compute_rollout_correction_and_rejection_mask_def require_Inr shape_def)
  have shL: "shape ?L = shape M" using sh by (simp add: shape_mzip)
  have "shape M' = shape M"
  proof (cases "rollout_rs cc")
    case None
    with assms show ?thesis by (auto simp: compute_rollout_correction_and_rejection_mask_def require_Inr bind_r_Inr Let_def)
  next
    case (Some rs)
    with assms obtain ms2 where "compute_rollout_rejection_mask ?L M rs (rollout_rs_threshold cc) = Inr (M', ms2)"
      by (auto simp: compute_rollout_correction_and_rejection_mask_def require_Inr bind_r_Inr Let_def)
    then show ?thesis by (rule shape_rejection_mask [OF _ shL])
  qed
  moreover have "shape w = shape M" if "W = Some w" for w
  proof -
    from assms that obtain level spec b ms1 where "compute_rollout_correction_weights peers ?L M level spec b = Inr (w, ms1)"
      by (cases "rollout_is cc"; cases "rollout_is_threshold cc")
        (auto simp: compute_rollout_correction_and_rejection_mask_def require_Inr bind_r_Inr Let_def)
    then obtain upper lower ms2 where "w = (let W0 = mmap (truncate_weight upper lower) (raw_is_weights level ?L M); wm = weights_mean peers level W0 M
          in if b \<and> 1 / 10 ^ 8 < wm then mmap (\<lambda>w. w / wm) W0 else W0)" by (rule correction_weights_split)
    then show ?thesis using shL by (simp only: Let_def shape_mmap shape_raw split: if_split) blast
  qed
  ultimately show ?thesis using sh by (simp split: option.splits)
qed

text \<open>C40 In bypass mode a rejected token has no influence through its advantage, nor have the weights handed in: the loss
  and its metrics only read the advantages at the tokens that the rejection mask keeps, with both losses.\<close>

theorem bypass_ignores_rejected:
  assumes cc: "lc_rollout_correction lc = Some cc"
    and res: "compute_rollout_correction_and_rejection_mask peers lps old_lps M cc = Inr (W, M', ms)"
    and advs: "same_shape advs M" "same_shape advs' M"
      "\<And>i j. i < length M \<Longrightarrow> j < length (M ! i) \<Longrightarrow> M' ! i ! j \<noteq> 0 \<Longrightarrow> advs ! i ! j = advs' ! i ! j"
  shows "compute_policy_loss_bypass_mode peers old_lps lps advs M mode cfg lc ws =
    compute_policy_loss_bypass_mode peers old_lps lps advs' M mode cfg lc ws'"
proof -
  note sh = pipeline_shapes [OF res]
  then have shM: "shape M' = shape M" by simp
  have e: "masked_eq M' advs advs'"
    using advs shM length_shape [OF shM] shape_nth [OF shM] unfolding same_shape_iff masked_eq_def by (metis)
  have lp: "masked_eq M' old_lps old_lps" "masked_eq M' lps lps" using sh by (simp_all add: masked_eq_refl)
  have "masked_opt M' None None" "masked_opt M' W W"
    using sh by (simp_all add: masked_opt_def option.rel_refl_strong masked_eq_refl split: option.splits)
  note vanilla.masked_tokens [OF lp e this(1)] reinforce.masked_tokens [OF lp e this(2)]
  then show ?thesis by (simp add: compute_policy_loss_bypass_mode_def cc res)
qed

section \<open>Presets\<close>

text \<open>The presets of \<^verbatim>\<open>RolloutCorrectionConfig\<close>, by their thresholds.\<close>

definition default_corr :: corr_config where
  "default_corr = \<lparr>rollout_is = Some ''sequence'', rollout_is_threshold = Some (ThrNum 2), rollout_is_batch_normalize = False,
     rollout_rs = None, rollout_rs_threshold = None, bypass_mode = False, loss_type = ''ppo_clip''\<rparr>"

definition with_is :: "string option \<Rightarrow> threshold \<Rightarrow> corr_config \<Rightarrow> corr_config" where
  "with_is level t c = c\<lparr>rollout_is := level, rollout_is_threshold := Some t\<rparr>"

definition with_rs :: "string \<Rightarrow> threshold option \<Rightarrow> corr_config \<Rightarrow> corr_config" where
  "with_rs opt t c = c\<lparr>rollout_rs := Some opt, rollout_rs_threshold := t\<rparr>"

definition bypass_with :: "string \<Rightarrow> corr_config \<Rightarrow> corr_config" where
  "bypass_with loss c = c\<lparr>bypass_mode := True, loss_type := loss\<rparr>"

definition no_is :: "corr_config \<Rightarrow> corr_config" where
  "no_is c = c\<lparr>rollout_is := None\<rparr>"

definition decoupled_token_is :: "real \<Rightarrow> corr_config" where
  "decoupled_token_is t = with_is (Some ''token'') (ThrNum t) default_corr"

definition decoupled_seq_is :: "real \<Rightarrow> corr_config" where
  "decoupled_seq_is t = with_is (Some ''sequence'') (ThrNum t) default_corr"

text \<open>The bounds of the IcePop presets are given by their text.\<close>

definition decoupled_token_icepop :: "string \<Rightarrow> string \<Rightarrow> corr_config" where
  "decoupled_token_icepop upper lower = with_is (Some ''token'') (ThrStr (lower @ ''_'' @ upper)) default_corr"

definition decoupled_seq_is_rs :: "real \<Rightarrow> threshold option \<Rightarrow> corr_config" where
  "decoupled_seq_is_rs t rs = with_rs ''seq_sum_k1'' rs (with_is (Some ''sequence'') (ThrNum t) default_corr)"

definition decoupled_geo_rs :: "threshold option \<Rightarrow> corr_config" where
  "decoupled_geo_rs rs = with_rs ''seq_mean_k1'' rs (no_is default_corr)"

definition bypass_ppo_clip :: corr_config where
  "bypass_ppo_clip = bypass_with ''ppo_clip'' (no_is default_corr)"

definition bypass_ppo_clip_geo_rs :: "threshold option \<Rightarrow> corr_config" where
  "bypass_ppo_clip_geo_rs rs = bypass_with ''ppo_clip'' (with_rs ''seq_mean_k1'' rs (no_is default_corr))"

definition bypass_ppo_clip_k3_rs :: "real \<Rightarrow> corr_config" where
  "bypass_ppo_clip_k3_rs t = bypass_with ''ppo_clip'' (with_rs ''seq_mean_k3'' (Some (ThrNum t)) (no_is default_corr))"

definition bypass_pg_is :: "real \<Rightarrow> corr_config" where
  "bypass_pg_is t = bypass_with ''reinforce'' (with_is (Some ''sequence'') (ThrNum t) default_corr)"

definition bypass_pg_token_icepop :: "string \<Rightarrow> string \<Rightarrow> corr_config" where
  "bypass_pg_token_icepop upper lower = bypass_with ''reinforce'' (with_is (Some ''token'') (ThrStr (lower @ ''_'' @ upper)) default_corr)"

definition bypass_pg_geo_rs :: "threshold option \<Rightarrow> corr_config" where
  "bypass_pg_geo_rs rs = bypass_with ''reinforce'' (with_rs ''seq_mean_k1'' rs (no_is default_corr))"

definition decoupled_geo_rs_seq_tis :: "real \<Rightarrow> threshold option \<Rightarrow> corr_config" where
  "decoupled_geo_rs_seq_tis t rs = with_rs ''seq_mean_k1'' rs (with_is (Some ''sequence'') (ThrNum t) default_corr)"

definition decoupled_geo_rs_token_tis :: "real \<Rightarrow> threshold option \<Rightarrow> corr_config" where
  "decoupled_geo_rs_token_tis t rs = with_rs ''seq_mean_k1'' rs (with_is (Some ''token'') (ThrNum t) default_corr)"

definition bypass_pg_geo_rs_seq_tis :: "real \<Rightarrow> threshold option \<Rightarrow> corr_config" where
  "bypass_pg_geo_rs_seq_tis t rs = bypass_with ''reinforce'' (with_rs ''seq_mean_k1'' rs (with_is (Some ''sequence'') (ThrNum t) default_corr))"

definition bypass_pg_geo_rs_token_tis :: "real \<Rightarrow> threshold option \<Rightarrow> corr_config" where
  "bypass_pg_geo_rs_token_tis t rs = bypass_with ''reinforce'' (with_rs ''seq_mean_k1'' rs (with_is (Some ''token'') (ThrNum t) default_corr))"

definition decoupled_k3_rs :: "real \<Rightarrow> corr_config" where
  "decoupled_k3_rs t = with_rs ''seq_mean_k3'' (Some (ThrNum t)) (no_is default_corr)"

definition decoupled_k3_rs_seq_tis :: "real \<Rightarrow> real \<Rightarrow> corr_config" where
  "decoupled_k3_rs_seq_tis t rs = with_rs ''seq_mean_k3'' (Some (ThrNum rs)) (with_is (Some ''sequence'') (ThrNum t) default_corr)"

definition decoupled_k3_rs_token_tis :: "real \<Rightarrow> real \<Rightarrow> corr_config" where
  "decoupled_k3_rs_token_tis t rs = with_rs ''seq_mean_k3'' (Some (ThrNum rs)) (with_is (Some ''token'') (ThrNum t) default_corr)"

definition disabled :: corr_config where
  "disabled = no_is default_corr"

definition geo_bounds :: "threshold option" where
  "geo_bounds = Some (ThrStr ''0.999_1.001'')"

text \<open>The presets with one weight threshold, with their default arguments.\<close>

definition tis_presets :: "corr_config list" where
  "tis_presets = [decoupled_token_is 2, decoupled_seq_is 2, decoupled_seq_is_rs 2 (Some (ThrStr ''0.5_2.0'')), decoupled_geo_rs geo_bounds,
     bypass_ppo_clip, bypass_ppo_clip_geo_rs geo_bounds, bypass_ppo_clip_k3_rs (1/100), bypass_pg_is 2, bypass_pg_geo_rs geo_bounds,
     decoupled_geo_rs_seq_tis 2 geo_bounds, decoupled_geo_rs_token_tis 2 geo_bounds, bypass_pg_geo_rs_seq_tis 2 geo_bounds,
     bypass_pg_geo_rs_token_tis 2 geo_bounds, decoupled_k3_rs (1/100), decoupled_k3_rs_seq_tis 2 (1/100),
     decoupled_k3_rs_token_tis 2 (1/100), disabled]"

text \<open>A metric step cannot fail on positive weights.\<close>

lemma msum_pos:
  assumes "\<And>row x. row \<in> set P \<Longrightarrow> x \<in> set row \<Longrightarrow> 0 \<le> x" "row \<in> set P" "x \<in> set row" "0 < x"
  shows "0 < msum P"
proof -
  have rows: "0 \<le> sum_list r" if "r \<in> set P" for r using assms(1) [OF that] by (intro sum_list_nonneg) auto
  have "sum_list row \<noteq> 0" using assms sum_list_nonneg_eq_0_iff [of row] by auto
  then have "msum P \<noteq> 0" unfolding msum_def using rows assms(2) by (subst sum_list_nonneg_eq_0_iff) auto
  moreover have "0 \<le> msum P" unfolding msum_def using rows by (intro sum_list_nonneg) auto
  ultimately show ?thesis by simp
qed

lemma masked_sum_pos:
  assumes shA: "shape A = shape M" and mask: "is_mask M" and ij: "i < length M" "j < length (M ! i)" "M ! i ! j = 1" "0 < A ! i ! j"
    and nn: "\<And>i j. i < length M \<Longrightarrow> j < length (M ! i) \<Longrightarrow> 0 \<le> A ! i ! j"
  shows "0 < masked_sum A M"
proof -
  let ?P = "mzip (\<lambda>v m. v * m) A M"
  have shP: "shape ?P = shape M" using shA by (simp add: shape_mzip)
  have e: "?P ! i ! j = A ! i ! j * M ! i ! j" if "i < length M" "j < length (M ! i)" for i j
    using that nth_mzip [OF shA, of i j "\<lambda>v m. v * m"] length_shape [OF shA] shape_nth [OF shA, of i] by simp
  have "0 \<le> x" if "row \<in> set ?P" "x \<in> set row" for row x
  proof -
    from that obtain i j where x: "i < length ?P" "j < length (?P ! i)" "x = ?P ! i ! j" by (metis in_set_conv_nth)
    then have b: "i < length M" "j < length (M ! i)" using length_shape [OF shP] shape_nth [OF shP x(1)] by simp_all
    have "0 \<le> M ! i ! j" using mask b unfolding is_mask_def by (metis nth_mem order_refl zero_le_one)
    then show ?thesis using x(3) e [OF b] nn [OF b] by simp
  qed
  moreover have "?P ! i \<in> set ?P" "?P ! i ! j \<in> set (?P ! i)" using ij length_shape [OF shP] shape_nth [OF shP, of i] by simp_all
  moreover have "0 < ?P ! i ! j" using e ij by simp
  ultimately show ?thesis unfolding masked_sum_mult by (rule msum_pos)
qed

lemma any_valid_nth:
  assumes "any_valid M" "is_mask M"
  obtains i j where "i < length M" "j < length (M ! i)" "M ! i ! j = 1"
proof -
  from assms obtain row m where r: "row \<in> set M" "m \<in> set row" "m \<noteq> 0" by (auto simp: any_valid_def)
  with assms(2) have "m = 1" unfolding is_mask_def by blast
  with r that show ?thesis by (metis in_set_conv_nth)
qed

lemma tis_weights_succeed:
  assumes sh: "shape L = shape M" and mask: "is_mask M" "any_valid M" and u: "0 < u" and level: "level = ''token'' \<or> level = ''sequence''"
  shows "\<exists>W ms. compute_rollout_correction_weights peers L M level (ThrNum u) b = Inr (W, ms)"
proof -
  let ?R = "raw_is_weights level L M"
  let ?W = "mmap (truncate_weight u None) ?R"
  let ?C = "mmap (clamp 0 u) ?W"
  have shR: "shape ?R = shape M" using sh by simp
  have c: "?C ! i ! j = (if M ! i ! j = 1 then min (exp (safe (weight_log level L M i j))) u else 0)"
    if ij: "i < length M" "j < length (M ! i)" for i j
  proof -
    have "i < length ?R" "j < length (?R ! i)" using ij length_shape [OF shR] shape_nth [OF shR, of i] by simp_all
    then have "?C ! i ! j = clamp 0 u (min (exp (safe (weight_log level L M i j)) * M ! i ! j) u)"
      by (simp add: mmap_mmap nth_mmap raw_entry [OF sh ij] truncate_weight_def)
    moreover have "M ! i ! j = 0 \<or> M ! i ! j = 1" using mask(1) ij unfolding is_mask_def by (metis nth_mem)
    ultimately show ?thesis using u by (auto simp: clamp_def)
  qed
  have shC: "shape ?C = shape M" using shR by simp
  have mn: "0 \<le> msum M" using mask_sum_nonneg [OF mask(1)] .
  from mask(2,1) obtain i j where ij: "i < length M" "j < length (M ! i)" "M ! i ! j = 1" by (rule any_valid_nth)
  have "0 < masked_sum ?C M" using c u by (intro masked_sum_pos [OF shC mask(1) ij]) (simp_all add: ij)
  then have m: "0 < masked_mean ?C M + 1 / 10 ^ 8" using mn by (simp add: masked_mean_def add_nonneg_pos)
  let ?S = "mmap (\<lambda>x. (x / (masked_mean ?C M + 1 / 10 ^ 8)) ^ 2) ?C"
  have shS: "shape ?S = shape M" using shC by simp
  have s: "?S ! i ! j = (?C ! i ! j / (masked_mean ?C M + 1 / 10 ^ 8)) ^ 2" if "i < length M" "j < length (M ! i)" for i j
    using that length_shape [OF shC] shape_nth [OF shC, of i] by (subst nth_mmap) simp_all
  have "0 < masked_sum ?S M"
    using c u m by (intro masked_sum_pos [OF shS mask(1) ij]) (simp_all only: s ij zero_le_power2 zero_less_power2, simp add: ij min_def)
  then have "masked_mean ?S M \<noteq> 0" using mn by (simp add: masked_mean_def)
  then obtain ms where "compute_is_metrics ?W ?R (vzip row_sum L M) M level u None = Inr ms"
    using mask(2) by (simp add: compute_is_metrics_def Let_def)
  then show ?thesis using u level by (simp add: compute_rollout_correction_weights_def parse_is_threshold_def Let_def)
qed

lemma run_options_total:
  assumes "any_valid M" "\<forall>(opt, b) \<in> set specs. \<not> startswith ''seq_max'' opt"
  shows "\<exists>C' ms'. run_options specs L M C ms = Inr (C', ms')"
  using assms(2)
proof (induction specs arbitrary: C ms)
  case (Cons sp specs)
  obtain opt b where sp: "sp = (opt, b)" by (cases sp)
  obtain om where "option_metrics opt b L M = Inr om"
    using assms(1) by (simp add: option_metrics_def compute_rs_metrics_def Let_def)
  with Cons show ?case by (simp add: sp)
qed simp

lemma rejection_succeeds:
  assumes "any_valid M" "normalize_options rs = Inr opts" "parse_rs_thresholds opts spec = Inr specs" "spec \<noteq> None"
    "\<forall>opt \<in> set opts. \<not> startswith ''seq_max'' opt"
  shows "\<exists>M' ms. compute_rollout_rejection_mask L M rs spec = Inr (M', ms)"
proof -
  have "\<forall>(opt, b) \<in> set specs. \<not> startswith ''seq_max'' opt"
    using parse_rs_keys [OF assms(3)] assms(5) by force
  then obtain C ms where "run_options specs L M (mmap (\<lambda>_. 1) M) [] = Inr (C, ms)" using run_options_total [OF assms(1)] by blast
  with assms(2-4) show ?thesis by (cases "L = []") (simp_all add: compute_rollout_rejection_mask_def Let_def)
qed

lemma pipeline_succeeds:
  assumes sh: "shape lps = shape M" "shape rl = shape M" and mask: "is_mask M" "any_valid M"
    and is_ok: "\<And>level t. rollout_is cfg = Some level \<Longrightarrow> rollout_is_threshold cfg = Some t \<Longrightarrow>
      (level = ''token'' \<or> level = ''sequence'') \<and> (\<exists>u. t = ThrNum u \<and> 0 < u)"
    and rs_ok: "\<And>rs. rollout_rs cfg = Some rs \<Longrightarrow> \<exists>opts specs. normalize_options rs = Inr opts \<and>
      parse_rs_thresholds opts (rollout_rs_threshold cfg) = Inr specs \<and> (\<forall>opt \<in> set opts. \<not> startswith ''seq_max'' opt)"
  shows "\<exists>r. compute_rollout_correction_and_rejection_mask peers lps rl M cfg = Inr r"
proof -
  let ?L = "mzip (\<lambda>p q. p - q) lps rl"
  have shL: "shape ?L = shape M" using sh by (simp add: shape_mzip)
  have "\<exists>W ms1. (case (rollout_is cfg, rollout_is_threshold cfg) of
      (Some level, Some spec) \<Rightarrow> bind_r (compute_rollout_correction_weights peers ?L M level spec (rollout_is_batch_normalize cfg))
         (\<lambda>(W, ms). Inr (Some W, ms))
    | _ \<Rightarrow> Inr (None, [])) = Inr (W, ms1)"
  proof (cases "rollout_is cfg"; cases "rollout_is_threshold cfg")
    fix level t
    assume l: "rollout_is cfg = Some level" "rollout_is_threshold cfg = Some t"
    with is_ok obtain u where u: "level = ''token'' \<or> level = ''sequence''" "t = ThrNum u" "0 < u" by blast
    from tis_weights_succeed [OF shL mask u(3) u(1)] obtain W ms
      where "compute_rollout_correction_weights peers ?L M level (ThrNum u) (rollout_is_batch_normalize cfg) = Inr (W, ms)" by blast
    with l u(2) show ?thesis by simp
  qed simp_all
  then obtain W ms1 where w: "(case (rollout_is cfg, rollout_is_threshold cfg) of
      (Some level, Some spec) \<Rightarrow> bind_r (compute_rollout_correction_weights peers ?L M level spec (rollout_is_batch_normalize cfg))
         (\<lambda>(W, ms). Inr (Some W, ms))
    | _ \<Rightarrow> Inr (None, [])) = Inr (W, ms1)" by blast
  have "\<exists>M' ms2. (case rollout_rs cfg of
      None \<Rightarrow> Inr (M, [])
    | Some rs \<Rightarrow> require (rollout_rs_threshold cfg \<noteq> None) ValueError
        (compute_rollout_rejection_mask ?L M rs (rollout_rs_threshold cfg))) = Inr (M', ms2)"
  proof (cases "rollout_rs cfg")
    case (Some rs)
    with rs_ok obtain opts specs where o: "normalize_options rs = Inr opts"
      "parse_rs_thresholds opts (rollout_rs_threshold cfg) = Inr specs" "\<forall>opt \<in> set opts. \<not> startswith ''seq_max'' opt" by blast
    then have n: "rollout_rs_threshold cfg \<noteq> None" by (cases "rollout_rs_threshold cfg") (simp_all add: parse_rs_thresholds_def)
    from rejection_succeeds [OF mask(2) o(1,2) n o(3)] n Some show ?thesis by simp
  qed simp
  then obtain M' ms2 where r: "(case rollout_rs cfg of
      None \<Rightarrow> Inr (M, [])
    | Some rs \<Rightarrow> require (rollout_rs_threshold cfg \<noteq> None) ValueError
        (compute_rollout_rejection_mask ?L M rs (rollout_rs_threshold cfg))) = Inr (M', ms2)" by blast
  obtain ms3 where "compute_offpolicy_metrics lps (Some rl) M = Inr ms3"
    using mask(2) by (simp add: compute_offpolicy_metrics_def Let_def)
  then show ?thesis using sh mask(2) w r
    unfolding compute_rollout_correction_and_rejection_mask_def shape_def [symmetric] Let_def by simp
qed

lemma threshold_texts:
  "parse_rs_spec ''seq_mean_k1'' (RawStr ''0.999_1.001'') = Inr (Some (999/1000), 1001/1000)"
  "parse_rs_spec ''seq_sum_k1'' (RawStr ''0.5_2.0'') = Inr (Some (1/2), 2)"
  "parse_rs_spec ''seq_mean_k3'' (RawNum (1/100)) = Inr (None, 1/100)"
  by (simp_all add: parse_rs_spec_def is_k1_def endswith_def split_once_def raw_float_def float_of_def py_strip_def is_space_def
      sign_of_def is_digit_def digit_val_def exponent_of_def has_underscore_def)

lemma option_texts:
  "normalize_options ''seq_mean_k1'' = Inr [''seq_mean_k1'']" "normalize_options ''seq_sum_k1'' = Inr [''seq_sum_k1'']"
  "normalize_options ''seq_mean_k3'' = Inr [''seq_mean_k3'']"
  by (simp_all add: normalize_options_def py_strip_def is_space_def supported_rs_options_def Let_def)

lemma raw_texts:
  "raw_specs (ThrStr ''0.999_1.001'') = [RawStr ''0.999_1.001'']" "raw_specs (ThrStr ''0.5_2.0'') = [RawStr ''0.5_2.0'']"
  by (simp_all add: raw_specs_def py_strip_def is_space_def)

text \<open>Every preset with a single weight threshold is accepted by the pipeline on every batch with a valid token: its
  texts parse, and neither its weights nor its metrics can fail.\<close>

theorem presets_accepted:
  assumes "cfg \<in> set tis_presets" "same_shape lps M" "same_shape rl M" "is_mask M" "any_valid M"
  shows "\<exists>W M' ms. compute_rollout_correction_and_rejection_mask peers lps rl M cfg = Inr (W, M', ms)"
proof -
  have "(\<forall>level t. rollout_is cfg = Some level \<longrightarrow> rollout_is_threshold cfg = Some t \<longrightarrow>
      (level = ''token'' \<or> level = ''sequence'') \<and> (\<exists>u. t = ThrNum u \<and> 0 < u)) \<and>
    (\<forall>rs. rollout_rs cfg = Some rs \<longrightarrow> (\<exists>opts specs. normalize_options rs = Inr opts \<and>
      parse_rs_thresholds opts (rollout_rs_threshold cfg) = Inr specs \<and> (\<forall>opt \<in> set opts. \<not> startswith ''seq_max'' opt)))"
    using assms(1) unfolding tis_presets_def list.set insert_iff empty_iff
    by (elim disjE FalseE)
      (simp_all add: default_corr_def with_is_def with_rs_def bypass_with_def no_is_def geo_bounds_def disabled_def
        decoupled_token_is_def decoupled_seq_is_def decoupled_seq_is_rs_def decoupled_geo_rs_def bypass_ppo_clip_def
        bypass_ppo_clip_geo_rs_def bypass_ppo_clip_k3_rs_def bypass_pg_is_def bypass_pg_geo_rs_def decoupled_geo_rs_seq_tis_def
        decoupled_geo_rs_token_tis_def bypass_pg_geo_rs_seq_tis_def bypass_pg_geo_rs_token_tis_def decoupled_k3_rs_def
        decoupled_k3_rs_seq_tis_def decoupled_k3_rs_token_tis_def option_texts parse_rs_thresholds_def raw_texts threshold_texts
        raw_specs_def [of "ThrNum _"])
  then obtain r where "compute_rollout_correction_and_rejection_mask peers lps rl M cfg = Inr r"
    using pipeline_succeeds [of lps M rl cfg peers] assms(2-5) unfolding same_shape_iff by blast
  then show ?thesis by (cases r) auto
qed

section \<open>Examples\<close>

lemma example_mask: "is_mask [[1, 1], [1, 0]]" "any_valid [[1, 1], [1, 0]]"
  by (simp_all add: is_mask_def any_valid_def)

lemma parse_single: "normalize_options ''seq_mean_k3'' = Inr opts \<Longrightarrow>
    parse_rs_thresholds opts (Some (ThrNum (1/100))) = Inr [(''seq_mean_k3'', None, 1/100)]"
  by (auto simp: option_texts parse_rs_thresholds_def raw_specs_def threshold_texts)

theorem rejection_mask_witness:
  "\<exists>M' ms. compute_rollout_rejection_mask [[0, 0], [5, 0]] [[1, 1], [1, 0]] ''seq_mean_k3'' (Some (ThrNum (1/100))) = Inr (M', ms) \<and>
    (\<forall>i < 2. M' ! i = [[1, 1], [1, 0]] ! i \<or> M' ! i = replicate (length ([[1, 1], [1, 0 :: real]] ! i)) 0)"
proof -
  obtain M' ms where r: "compute_rollout_rejection_mask [[0, 0], [5, 0]] [[1, 1], [1, 0]] ''seq_mean_k3'' (Some (ThrNum (1/100))) = Inr (M', ms)"
    using rejection_succeeds [OF example_mask(2) option_texts(3) parse_single [OF option_texts(3)]] by fastforce
  have s: "same_shape [[0, 0], [5, 0 :: real]] [[1, 1], [1, 0 :: real]]" "[[0, 0], [5, 0 :: real]] \<noteq> []" by simp_all
  from rejection_mask_exact [OF r s(1) example_mask(1) s(2)] obtain opts where
    o: "normalize_options ''seq_mean_k3'' = Inr opts"
      "(\<forall>opt \<in> set opts. opt \<notin> set token_level_options) \<longrightarrow>
       (\<forall>i < length [[1, 1], [1, 0 :: real]]. M' ! i = [[1, 1], [1, 0]] ! i \<or> M' ! i = replicate (length ([[1, 1], [1, 0 :: real]] ! i)) 0)"
    by (elim exE conjE)
  from o(1) have "opts = [''seq_mean_k3'']" by (simp add: option_texts)
  with o(2) have "\<forall>i < length [[1, 1], [1, 0 :: real]]. M' ! i = [[1, 1], [1, 0]] ! i \<or> M' ! i = replicate (length ([[1, 1], [1, 0 :: real]] ! i)) 0"
    by (simp add: token_level_options_def)
  moreover have "length [[1, 1], [1, 0 :: real]] = 2" by simp
  ultimately show ?thesis using r by (intro exI conjI) (simp_all only:)
qed

theorem is_weights_witness:
  "\<exists>W ms. compute_rollout_correction_weights None [[0, 0], [5, 0]] [[1, 1], [1, 0]] ''token'' (ThrNum 2) False = Inr (W, ms) \<and>
    W ! 0 ! 0 = 1 \<and> W ! 1 ! 1 = 0"
proof -
  have sh: "shape [[0, 0], [5, 0 :: real]] = shape [[1, 1], [1, 0 :: real]]" by simp
  from tis_weights_succeed [OF sh example_mask, of 2 "''token''" None False] obtain W ms where
    r: "compute_rollout_correction_weights None [[0, 0], [5, 0]] [[1, 1], [1, 0]] ''token'' (ThrNum 2) False = Inr (W, ms)" by auto
  have ss: "same_shape [[0, 0], [5, 0 :: real]] [[1, 1], [1, 0 :: real]]" by simp
  from is_weights_truncated [OF r ss example_mask(1), of 0 0] is_weights_truncated [OF r ss example_mask(1), of 1 1] r show ?thesis
    by (auto simp: parse_is_threshold_def weight_log_def)
qed

theorem is_normalised_witness:
  "\<exists>W ms W0. compute_rollout_correction_weights None [[0, 0], [5, 0]] [[1, 1], [1, 0]] ''token'' (ThrNum 2) True = Inr (W, ms) \<and>
    (if 1 / 10 ^ 8 < weights_mean None ''token'' W0 [[1, 1], [1, 0]]
     then weights_mean None ''token'' W [[1, 1], [1, 0]] = 1 else W = W0)"
proof -
  have sh: "shape [[0, 0], [5, 0 :: real]] = shape [[1, 1], [1, 0 :: real]]" by simp
  from tis_weights_succeed [OF sh example_mask, of 2 "''token''" None True] obtain W ms where
    r: "compute_rollout_correction_weights None [[0, 0], [5, 0]] [[1, 1], [1, 0]] ''token'' (ThrNum 2) True = Inr (W, ms)" by auto
  from is_weights_normalised [OF r] obtain W0 where
    "if 1 / 10 ^ 8 < weights_mean None ''token'' W0 [[1, 1], [1, 0]]
     then weights_mean None ''token'' W [[1, 1], [1, 0]] = 1 \<and> W = mmap (\<lambda>w. w / weights_mean None ''token'' W0 [[1, 1], [1, 0]]) W0
     else W = W0" by blast
  then have "if 1 / 10 ^ 8 < weights_mean None ''token'' W0 [[1, 1], [1, 0]]
     then weights_mean None ''token'' W [[1, 1], [1, 0]] = 1 else W = W0" by argo
  with r show ?thesis by blast
qed

theorem icepop_witness:
  "compute_rollout_correction_weights None [[0, 0]] [[1, 1]] ''token'' (ThrStr ''2_5'') False = Inl ZeroDivisionError"
proof (rule icepop_all_rejected_raises [of _ 5 2])
  show "parse_is_threshold (ThrStr ''2_5'') = Inr (5, Some 2)"
    by (simp add: parse_is_threshold_def py_strip_def is_space_def split_once_def float_of_def sign_of_def is_digit_def digit_val_def
        exponent_of_def)
  fix i j
  assume "i < length [[1, 1 :: real]]" "j < length ([[1, 1 :: real]] ! i)"
  then show "\<not> (2 \<le> exp (safe (weight_log ''token'' [[0, 0]] [[1, 1]] i j)) \<and> exp (safe (weight_log ''token'' [[0, 0]] [[1, 1]] i j)) \<le> 5)"
    by (auto simp: weight_log_def safe_def clamp_def nth_Cons')
qed (simp_all add: is_mask_def any_valid_def)

theorem k1_bounds_witness:
  "in_bounds ''token_k1'' (Some (1/2), 2) (token_stat ''token_k1'' (ln 1)) \<and>
   \<not> in_bounds ''token_k1'' (Some 2, 1/2) (token_stat ''token_k1'' (ln 1))"
  using k1_bounds_inverse_ratio [of "RawNum 2" "1/2" 2 1] k1_bounds_inverse_ratio [of "RawNum (1/2)" 2 "1/2" 1]
  by (simp add: parse_rs_spec_def is_k1_def endswith_def has_underscore_def)

theorem presets_witness:
  "\<exists>W M' ms. compute_rollout_correction_and_rejection_mask None [[0, 0]] [[1, 0]] [[1, 1]] (decoupled_seq_is_rs 2 (Some (ThrStr ''0.5_2.0'')))
     = Inr (W, M', ms)"
  by (rule presets_accepted) (simp_all add: tis_presets_def is_mask_def any_valid_def)

text \<open>The second token has moved too far from the rollout policy and is rejected.\<close>

definition rejecting :: corr_config where
  "rejecting = bypass_with ''reinforce'' (with_rs ''token_k2'' (Some (ThrNum (1/100))) (no_is default_corr))"

lemma rejecting_run:
  "\<exists>ms. compute_rollout_correction_and_rejection_mask None [[0, 5]] [[0, 0]] [[1, 1]] rejecting = Inr (None, [[1, 0]], ms)"
proof -
  let ?L = "[[0, 5 :: real]]" and ?M = "[[1, 1 :: real]]"
  have valid: "any_valid ?M" by (simp add: any_valid_def)
  have opts: "normalize_options ''token_k2'' = Inr [''token_k2'']"
    by (simp add: normalize_options_def py_strip_def is_space_def supported_rs_options_def Let_def)
  have specs: "parse_rs_thresholds [''token_k2''] (Some (ThrNum (1/100))) = Inr [(''token_k2'', None, 1/100)]"
    by (simp add: parse_rs_thresholds_def raw_specs_def parse_rs_spec_def is_k1_def endswith_def raw_float_def has_underscore_def)
  have keep: "token_keep ''token_k2'' (None, 1/100) ?L ?M = [[True, False]]"
    by (simp add: token_keep_def token_level_options_def mmap_def in_bounds_def token_stat_def is_k1_def endswith_def safe_def clamp_def power2_eq_square)
  obtain om where om: "option_metrics ''token_k2'' (None, 1/100) ?L ?M = Inr om"
    using valid by (simp add: option_metrics_def compute_rs_metrics_def Let_def)
  have "run_options [(''token_k2'', None, 1/100)] ?L ?M [[1, 1]] [] = Inr ([[1, 0]], dict_update [] om)"
    by (simp add: om keep combine_keep_def frac_def mzip_def vzip_def startswith_def)
  then obtain ms2 where "compute_rollout_rejection_mask ?L ?M ''token_k2'' (Some (ThrNum (1/100))) = Inr ([[1, 0]], ms2)"
    by (simp add: compute_rollout_rejection_mask_def opts specs mmap_def Let_def mzip_def vzip_def)
  then show ?thesis using valid
    by (simp add: compute_rollout_correction_and_rejection_mask_def rejecting_def bypass_with_def with_rs_def no_is_def default_corr_def
        compute_offpolicy_metrics_def Let_def mzip_def vzip_def)
qed

theorem bypass_witness:
  "compute_policy_loss_bypass_mode None [[0, 0]] [[0, 5]] [[3, 7]] [[1, 1]] ''token-mean'' plain_actor
     \<lparr>lc_loss_mode = ''bypass_mode'', lc_rollout_correction = Some rejecting\<rparr> None =
   compute_policy_loss_bypass_mode None [[0, 0]] [[0, 5]] [[3, 8]] [[1, 1]] ''token-mean'' plain_actor
     \<lparr>lc_loss_mode = ''bypass_mode'', lc_rollout_correction = Some rejecting\<rparr> (Some [[1, 2]])"
proof -
  obtain ms where "compute_rollout_correction_and_rejection_mask None [[0, 5]] [[0, 0]] [[1, 1]] rejecting = Inr (None, [[1, 0]], ms)"
    using rejecting_run by blast
  then show ?thesis by (rule bypass_ignores_rejected [rotated]) (auto simp: less_Suc_eq)
qed

end
