(* ===== verification/LossRegistry.thy ===== *)
theory LossRegistry
  imports RolloutCorr
begin

text \<open>
  The registry of policy losses of \<^verbatim>\<open>verl/trainer/ppo/core_algos.py\<close> with all the losses that its decorators register.
  The last of them, \<^verbatim>\<open>bypass_mode\<close>, runs the rollout correction and hands the rejection mask to another loss; here it is shown
  to be a masked loss as the others are: masks, weights and metrics of the correction read the log-probabilities at the tokens
  of the response mask alone.
\<close>

section \<open>Corrections read kept tokens\<close>

lemma kept_cong:
  assumes "length r = length m" "length s = length m" "\<And>j. j < length m \<Longrightarrow> m ! j = 0 \<or> r ! j = s ! j"
  shows "kept r m = kept s m"
  using assms
proof (induction r m arbitrary: s rule: list_induct2)
  case (Cons x r b m)
  then obtain y t where s: "s = y # t" by (cases s) auto
  have "kept r m = kept t m"
  proof (rule Cons.IH)
    show "length t = length m" using Cons.prems(1) s by simp
    show "m ! j = 0 \<or> r ! j = t ! j" if "j < length m" for j using Cons.prems(2) [of "Suc j"] s that by simp
  qed
  moreover have "b = 0 \<or> x = y" using Cons.prems(2) [of 0] s by simp
  ultimately show ?case using s by auto
qed simp

lemma masked_eq_kept: "masked_eq M A B \<Longrightarrow> vzip kept A M = vzip kept B M"
proof (erule masked_rows)
  fix r s :: "'a list" and m :: vec
  assume "length r = length m" "length s = length m" "\<And>j. j < length m \<Longrightarrow> m ! j = 0 \<or> r ! j = s ! j"
  then show "kept r m = kept s m" by (rule kept_cong)
qed

lemma valid_entries_cong: "masked_eq M A B \<Longrightarrow> valid_entries A M = valid_entries B M"
  by (simp add: valid_entries_def masked_eq_kept)

lemma kept_fun_cong: "masked_eq M A B \<Longrightarrow> vzip (\<lambda>r m. f (kept r m)) A M = vzip (\<lambda>r m. f (kept r m)) B M"
proof (erule masked_rows)
  fix r s :: "'a list" and m :: vec
  assume "length r = length m" "length s = length m" "\<And>j. j < length m \<Longrightarrow> m ! j = 0 \<or> r ! j = s ! j"
  then show "f (kept r m) = f (kept s m)" by (intro arg_cong [where f = f] kept_cong)
qed

lemma masked_eq_rows:
  assumes "length r = length m" "length s = length m" "\<And>j. j < length m \<Longrightarrow> m ! j = 0 \<or> r ! j = s ! j"
  shows "masked_eq [m] [r] [s]"
  using assms by (simp add: masked_eq_def)

lemma row_sum_cong: "masked_eq [m] [r] [s] \<Longrightarrow> row_sum r m = row_sum s m"
  by (simp add: row_sum_def masked_sum_cong)

lemma row_avg_row_cong: "masked_eq [m] [r] [s] \<Longrightarrow> row_avg r m = row_avg s m"
  by (simp add: row_avg_def masked_mean_cong)

lemma row_max_cong: "masked_eq [m] [r] [s] \<Longrightarrow> row_max r m = row_max s m"
proof -
  assume "masked_eq [m] [r] [s]"
  then have "kept r m = kept s m" by (intro kept_cong) (auto simp: masked_eq_def)
  then show ?thesis by (simp add: row_max_def)
qed

lemma seq_stat_cong: "masked_eq [m] [r] [s] \<Longrightarrow> seq_stat opt r m = seq_stat opt s m"
proof -
  assume "masked_eq [m] [r] [s]"
  from masked_eq_mmap [OF this] have "masked_eq [m] [map (token_stat opt) r] [map (token_stat opt) s]" by (simp add: mmap_def)
  note this [THEN row_sum_cong] this [THEN row_avg_row_cong] this [THEN row_max_cong]
  then show ?thesis by (simp add: seq_stat_def Let_def)
qed

lemma by_rows:
  fixes A B :: mat
  assumes "masked_eq M A B" "\<And>r s m. masked_eq [m] [r] [s] \<Longrightarrow> f r m = f s m"
  shows "vzip f A M = vzip f B M"
proof (rule masked_rows [OF assms(1)])
  fix r s m :: vec
  assume "length r = length m" "length s = length m" "\<And>j. j < length m \<Longrightarrow> m ! j = 0 \<or> r ! j = s ! j"
  then show "f r m = f s m" by (intro assms(2) masked_eq_rows)
qed

lemma row_reductions_cong:
  assumes "masked_eq M A B"
  shows "vzip row_sum A M = vzip row_sum B M" "vzip row_avg A M = vzip row_avg B M" "vzip (seq_stat opt) A M = vzip (seq_stat opt) B M"
proof -
  show "vzip row_sum A M = vzip row_sum B M" by (rule by_rows [OF assms]) (rule row_sum_cong)
  show "vzip row_avg A M = vzip row_avg B M" by (rule by_rows [OF assms]) (rule row_avg_row_cong)
  show "vzip (seq_stat opt) A M = vzip (seq_stat opt) B M" by (rule by_rows [OF assms]) (rule seq_stat_cong)
qed

lemma token_keep_masked: "masked_eq M L L' \<Longrightarrow> masked_eq M (token_keep opt b L M) (token_keep opt b L' M)"
proof (cases "opt \<in> set token_level_options")
  case True
  assume "masked_eq M L L'"
  then show ?thesis using True by (simp add: token_keep_def masked_eq_mmap)
next
  case False
  assume e: "masked_eq M L L'"
  have "vzip (\<lambda>row m. replicate (length m) (in_bounds opt b (seq_stat opt row m))) L M =
      vzip (\<lambda>row m. replicate (length m) (in_bounds opt b (seq_stat opt row m))) L' M"
    by (rule by_rows [OF e]) (simp add: seq_stat_cong)
  then have "token_keep opt b L M = token_keep opt b L' M" using False by (simp add: token_keep_def)
  moreover have "shape (token_keep opt b L' M) = shape M" by (rule shape_token_keep [OF masked_eq_shape(2) [OF e]])
  ultimately show ?thesis by (simp add: masked_eq_refl)
qed

text \<open>The metrics.\<close>

lemma masked_std_cong: "masked_eq M S S' \<Longrightarrow> masked_std S M = masked_std S' M"
proof -
  assume e: "masked_eq M S S'"
  show ?thesis unfolding masked_std_def masked_mean_cong [OF e] masked_mean_cong [OF masked_eq_mmap [OF e]] ..
qed

lemma compute_rs_metrics_cong:
  assumes "masked_eq M S S'"
  shows "compute_rs_metrics opt S M valid seq_level per_seq hi lo apply_lower = compute_rs_metrics opt S' M valid seq_level per_seq hi lo apply_lower"
proof -
  show ?thesis
    unfolding compute_rs_metrics_def Let_def row_reductions_cong(2) [OF assms(1)] valid_entries_cong [OF assms(1)] masked_mean_cong [OF assms(1)]
      masked_mean_cong [OF masked_eq_mmap [OF assms(1)]] masked_std_cong [OF masked_eq_mmap [OF assms(1)]] ..
qed

lemma option_metrics_cong:
  assumes e: "masked_eq M L L'"
  shows "option_metrics opt b L M = option_metrics opt b L' M"
proof -
  note stat = row_reductions_cong(3) [OF e, of opt]
  let ?S = "\<lambda>L. if opt \<notin> set token_level_options then vzip (\<lambda>s m. replicate (length m) s) (vzip (seq_stat opt) L' M) M else mmap (token_stat opt) L"
  have "shape (vzip (\<lambda>s m. replicate (length m) s) (vzip (seq_stat opt) L' M) M) = shape M"
    using length_shape [OF masked_eq_shape(2) [OF e]] by (intro shape_vzip_rows) simp_all
  then have S: "masked_eq M (?S L) (?S L')" using e by (simp add: masked_eq_refl masked_eq_mmap)
  note k = token_keep_masked [OF e, of opt b]
  show ?thesis
    unfolding option_metrics_def Let_def stat kept_fun_cong [OF k] masked_mean_cong [OF masked_eq_mmap [OF k]] compute_rs_metrics_cong [OF S] ..
qed

section \<open>The rejection mask\<close>

lemma run_options_masked:
  assumes "masked_eq M L L'" "masked_eq M C C'"
  shows "rel_sum (=) (\<lambda>(K, ms) (K', ms'). masked_eq M K K' \<and> ms = ms') (run_options specs L M C acc) (run_options specs L' M C' acc)"
  using assms
proof (induction specs L M C acc arbitrary: C' rule: run_options.induct)
  case (2 opt b specs L M C acc)
  have cells: "(\<forall>row \<in> set L. row \<noteq> []) = (\<forall>row \<in> set L'. row \<noteq> [])"
  proof -
    have "shape L = shape L'" using masked_eq_shape [OF 2(2)] by simp
    moreover have "(\<forall>row \<in> set A. row \<noteq> []) = (0 \<notin> set (shape A))" for A :: mat by (auto simp: shape_def)
    ultimately show ?thesis by simp
  qed
  have C: "masked_eq M (combine_keep C (token_keep opt b L M)) (combine_keep C' (token_keep opt b L' M))"
    unfolding combine_keep_def by (rule masked_eq_mzip [OF 2(3) token_keep_masked [OF 2(2)]])
  show ?case
  proof (cases "option_metrics opt b L' M")
    case (Inl e)
    then show ?thesis using option_metrics_cong [OF 2(2), of opt b] cells by (simp add: require_def)
  next
    case (Inr om)
    then show ?thesis using 2(1) [OF 2(2) C] option_metrics_cong [OF 2(2), of opt b] cells by (auto simp: require_def)
  qed
qed simp

lemma rejection_mask_cong:
  assumes e: "masked_eq M L L'"
  shows "compute_rollout_rejection_mask L M rs spec = compute_rollout_rejection_mask L' M rs spec"
proof -
  have none: "L = [] \<longleftrightarrow> L' = []" using length_shape [OF masked_eq_shape(1) [OF e]] length_shape [OF masked_eq_shape(2) [OF e]] by auto
  have run: "bind_r (run_options specs L M (mmap (\<lambda>_. 1) M) []) (\<lambda>(C, ms).
            let has_masked = vzip (\<lambda>c m. list_ex (\<lambda>x. \<not> 1 / 2 < x) (kept c m)) C M
            in Inr (mzip (\<lambda>m c. m * c) M C,
                 dict_set ''rollout_rs_seq_masked_fraction'' (avg (map frac has_masked))
                   (dict_set ''rollout_rs_masked_fraction'' (masked_mean (mmap (\<lambda>c. 1 - c) C) M) ms))) =
      bind_r (run_options specs L' M (mmap (\<lambda>_. 1) M) []) (\<lambda>(C, ms).
            let has_masked = vzip (\<lambda>c m. list_ex (\<lambda>x. \<not> 1 / 2 < x) (kept c m)) C M
            in Inr (mzip (\<lambda>m c. m * c) M C,
                 dict_set ''rollout_rs_seq_masked_fraction'' (avg (map frac has_masked))
                   (dict_set ''rollout_rs_masked_fraction'' (masked_mean (mmap (\<lambda>c. 1 - c) C) M) ms)))" for specs
  proof -
    have "masked_eq M (mmap (\<lambda>_. 1 :: real) M) (mmap (\<lambda>_. 1) M)" by (simp add: masked_eq_refl)
    from run_options_masked [OF e this, of specs "[]"] show ?thesis
    proof (cases rule: rel_sum.cases)
      case (2 x y)
      then obtain C C' ms where C: "x = (C, ms)" "y = (C', ms)" "masked_eq M C C'" by auto
      have "mzip (\<lambda>m c. m * c) M C = mzip (\<lambda>m c. m * c) M C'"
      proof -
        have swap: "mzip (\<lambda>m c. m * c) M K = mzip (\<lambda>c m. m * c) K M" if "shape K = shape M" for K :: mat
        proof (rule mat_eqI)
          show "shape (mzip (\<lambda>m c. m * c) M K) = shape (mzip (\<lambda>c m. m * c) K M)" using that by (simp add: shape_mzip)
          fix i j
          assume "i < length (mzip (\<lambda>m c. m * c) M K)" "j < length (mzip (\<lambda>m c. m * c) M K ! i)"
          moreover have "shape (mzip (\<lambda>m c. m * c) M K) = shape M" using that by (simp add: shape_mzip)
          ultimately have "i < length M" "j < length (M ! i)" using length_shape shape_nth by metis+
          moreover from this have "i < length K" "j < length (K ! i)" using that length_shape shape_nth by metis+
          ultimately show "mzip (\<lambda>m c. m * c) M K ! i ! j = mzip (\<lambda>c m. m * c) K M ! i ! j" using that by (simp add: nth_mzip)
        qed
        show ?thesis unfolding swap [OF masked_eq_shape(1) [OF C(3)]] swap [OF masked_eq_shape(2) [OF C(3)]]
          by (rule masked_product_eq [OF C(3)]) simp
      qed
      then show ?thesis using 2(1,2)
        unfolding C(1,2) by (simp add: kept_fun_cong [OF C(3)] masked_mean_cong [OF masked_eq_mmap [OF C(3)]])
    qed simp
  qed
  show ?thesis unfolding compute_rollout_rejection_mask_def none by (simp only: run)
qed

section \<open>Weights and metrics\<close>

lemma raw_weights_cong:
  assumes e: "masked_eq M L L'"
  shows "raw_is_weights level L M = raw_is_weights level L' M"
proof (cases "level = ''token''")
  case True
  have "mzip (\<lambda>x m. exp (safe x) * m) L M = mzip (\<lambda>x m. exp (safe x) * m) L' M" by (rule masked_product_eq [OF e]) simp
  then show ?thesis using True by (simp add: raw_is_weights_def)
next
  case False
  have "vzip (\<lambda>row m. map (\<lambda>b. exp (safe (row_sum row m)) * b) m) L M = vzip (\<lambda>row m. map (\<lambda>b. exp (safe (row_sum row m)) * b) m) L' M"
    by (rule by_rows [OF e]) (simp add: row_sum_cong)
  then show ?thesis using False by (simp add: raw_is_weights_def)
qed

lemma correction_weights_cong:
  assumes e: "masked_eq M L L'"
  shows "compute_rollout_correction_weights peers L M level spec b = compute_rollout_correction_weights peers L' M level spec b"
  unfolding compute_rollout_correction_weights_def raw_weights_cong [OF e] row_reductions_cong(1) [OF e] ..

lemma offpolicy_metrics_cong:
  assumes "masked_eq M p p'" "masked_eq M q q'"
  shows "compute_offpolicy_metrics p (Some q) M = compute_offpolicy_metrics p' (Some q') M"
proof -
  have D: "masked_eq M (mzip (\<lambda>p q. p - q) p q) (mzip (\<lambda>p q. p - q) p' q')" "masked_eq M (mzip (\<lambda>q p. q - p) q p) (mzip (\<lambda>q p. q - p) q' p')"
    by (rule masked_eq_mzip [OF assms], rule masked_eq_mzip [OF assms(2,1)])
  have chi: "vzip (\<lambda>row m. exp (2 * safe (row_sum row m))) (mzip (\<lambda>p q. p - q) p q) M =
      vzip (\<lambda>row m. exp (2 * safe (row_sum row m))) (mzip (\<lambda>p q. p - q) p' q') M"
    by (rule by_rows [OF D(1)]) (simp add: row_sum_cong)
  show ?thesis
    unfolding compute_offpolicy_metrics_def Let_def option.case row_reductions_cong(2) [OF assms(1)] row_reductions_cong(2) [OF assms(2)]
      masked_mean_cong [OF D(2)] masked_mean_cong [OF masked_eq_mmap [OF D(1)]] chi ..
qed

lemma correction_cong:
  assumes "masked_eq M p p'" "masked_eq M q q'"
  shows "compute_rollout_correction_and_rejection_mask peers p q M cc = compute_rollout_correction_and_rejection_mask peers p' q' M cc"
proof -
  note sh = masked_eq_shape [OF assms(1), unfolded shape_def] masked_eq_shape [OF assms(2), unfolded shape_def]
  note D = masked_eq_mzip [OF assms, where f = "\<lambda>p q. p - q"]
  show ?thesis
    unfolding compute_rollout_correction_and_rejection_mask_def Let_def correction_weights_cong [OF D] rejection_mask_cong [OF D]
      offpolicy_metrics_cong [OF assms] sh ..
qed

section \<open>Bypass mode\<close>

text \<open>The mask of the correction rejects tokens, it never adds one.\<close>

lemma rejection_within:
  assumes res: "compute_rollout_correction_and_rejection_mask peers p q M cc = Inr (W, M', ms)" and "masked_eq M A B"
  shows "masked_eq M' A B"
proof -
  note sh = pipeline_shapes [OF res]
  have zero: "M' ! i ! j = 0" if ij: "i < length M" "j < length (M ! i)" "M ! i ! j = 0" for i j
  proof (cases "rollout_rs cc")
    case None
    with res have "M' = M" by (auto simp: compute_rollout_correction_and_rejection_mask_def require_Inr bind_r_Inr Let_def)
    then show ?thesis using ij by simp
  next
    case (Some rs)
    let ?L = "mzip (\<lambda>p q. p - q) p q"
    have shL: "shape ?L = shape M" using sh by (simp add: shape_mzip)
    from Some res obtain ms2 where r: "compute_rollout_rejection_mask ?L M rs (rollout_rs_threshold cc) = Inr (M', ms2)"
      by (auto simp: compute_rollout_correction_and_rejection_mask_def require_Inr bind_r_Inr Let_def)
    have "?L \<noteq> []" using ij length_shape [OF shL] by auto
    with r obtain specs C ms1 where "run_options specs ?L M (mmap (\<lambda>_. 1) M) [] = Inr (C, ms1)" and M': "M' = mzip (\<lambda>m c. m * c) M C"
      by (auto simp: compute_rollout_rejection_mask_def require_Inr bind_r_Inr Let_def)
    from run_options_mask [OF this(1) shL] have "shape C = shape M" by simp
    then show ?thesis unfolding M' using ij nth_mzip [of M C i j "\<lambda>m c. m * c"] by simp
  qed
  have "shape M' = shape M" using sh by simp
  then show ?thesis
    using assms(2) zero length_shape shape_nth unfolding masked_eq_def by metis
qed

interpretation bypass: masked_loss "\<lambda>p l a M ws. compute_policy_loss_bypass_mode peers p l a M mode cfg lc ws" for peers mode cfg lc
proof unfold_locales
  fix M p p' l l' a a' :: mat and ws ws' :: "mat option"
  assume e: "masked_eq M p p'" "masked_eq M l l'" "masked_eq M a a'" "masked_opt M ws ws'"
  show "compute_policy_loss_bypass_mode peers p l a M mode cfg lc ws = compute_policy_loss_bypass_mode peers p' l' a' M mode cfg lc ws'"
  proof (cases "lc_rollout_correction lc")
    case None
    then show ?thesis by (simp add: compute_policy_loss_bypass_mode_def)
  next
    case cc: (Some cc)
    show ?thesis
    proof (cases "compute_rollout_correction_and_rejection_mask peers l p M cc")
      case (Inl x)
      then show ?thesis using correction_cong [OF e(2,1), of peers cc] by (simp add: compute_policy_loss_bypass_mode_def cc)
    next
      case (Inr y)
      obtain W M' ms where y: "y = (W, M', ms)" by (cases y) auto
      note run = Inr [unfolded y]
      note r = rejection_within [OF run e(1)] rejection_within [OF run e(2)] rejection_within [OF run e(3)]
      have "masked_opt M' None None" "masked_opt M' W W"
        using pipeline_shapes [OF run] by (simp_all add: masked_opt_def option.rel_refl_strong masked_eq_refl split: option.splits)
      note vanilla.masked_tokens [OF r this(1), of mode cfg] reinforce.masked_tokens [OF r this(2), of mode cfg]
      then show ?thesis using run correction_cong [OF e(2,1), of peers cc] by (simp add: compute_policy_loss_bypass_mode_def cc)
    qed
  qed
qed

section \<open>The registry\<close>

type_synonym policy_loss = "mat \<Rightarrow> mat \<Rightarrow> mat \<Rightarrow> mat \<Rightarrow> string \<Rightarrow> actor_config \<Rightarrow> mat option \<Rightarrow> loss_result"

text \<open>The eleven losses that the decorators of the module register, in their order. The parameters are what some of them read
  besides their arguments: the random permutation of \<^verbatim>\<open>clip_cov\<close>, the order of \<^verbatim>\<open>topk\<close> in \<^verbatim>\<open>kl_cov\<close>, and in bypass mode
  the sums of the other ranks and the section \<^verbatim>\<open>policy_loss\<close> of the configuration.\<close>

definition policy_losses :: "(nat \<Rightarrow> nat list) \<Rightarrow> (nat \<Rightarrow> vec \<Rightarrow> nat list) \<Rightarrow> (real \<times> real) option \<Rightarrow> loss_config \<Rightarrow>
    (string, policy_loss) dict" where
  "policy_losses perm topk peers lc =
     fold (\<lambda>(name, f) reg. register_policy_loss name f reg)
       [(''vanilla'', compute_policy_loss_vanilla),
        (''dppo_tv'', compute_policy_loss_dppo_tv),
        (''dppo_kl'', compute_policy_loss_dppo_kl),
        (''gspo'', \<lambda>p l a M mode. compute_policy_loss_gspo p l a M),
        (''sapo'', \<lambda>p l a M mode. compute_policy_loss_sapo p l a M),
        (''gpg'', \<lambda>p. compute_policy_loss_gpg),
        (''clip_cov'', compute_policy_loss_clip_cov perm),
        (''kl_cov'', compute_policy_loss_kl_cov topk),
        (''geo_mean'', \<lambda>p l a M mode. compute_policy_loss_geo_mean p l a M),
        (''cispo'', compute_policy_loss_cispo),
        (''bypass_mode'', \<lambda>p l a M mode cfg. compute_policy_loss_bypass_mode peers p l a M mode cfg lc)] []"

lemma policy_losses_cases:
  assumes "get_policy_loss_fn name (policy_losses perm topk peers lc) = Inr f"
  shows "f = compute_policy_loss_vanilla \<or> f = compute_policy_loss_dppo_tv \<or> f = compute_policy_loss_dppo_kl \<or>
    f = (\<lambda>p l a M mode. compute_policy_loss_gspo p l a M) \<or> f = (\<lambda>p l a M mode. compute_policy_loss_sapo p l a M) \<or>
    f = (\<lambda>p. compute_policy_loss_gpg) \<or> f = compute_policy_loss_clip_cov perm \<or> f = compute_policy_loss_kl_cov topk \<or>
    f = (\<lambda>p l a M mode. compute_policy_loss_geo_mean p l a M) \<or> f = compute_policy_loss_cispo \<or>
    f = (\<lambda>p l a M mode cfg. compute_policy_loss_bypass_mode peers p l a M mode cfg lc)"
  using assms unfolding get_policy_loss_fn_def policy_losses_def register_policy_loss_def
  by (simp del: fun_upd_apply split: option.splits if_splits) (auto split: if_splits)

text \<open>C21 Every loss that the registry hands out, that of bypass mode with its rejection masks and weights included, reads its inputs only at the tokens of the response mask: changing the
  log-probabilities, advantages or weights of padding changes neither the loss, nor a metric, nor an error.\<close>

theorem policy_losses_ignore_padding:
  assumes "get_policy_loss_fn name (policy_losses perm topk peers lc) = Inr f"
    and "masked_eq M p p'" "masked_eq M l l'" "masked_eq M a a'" "masked_opt M ws ws'"
  shows "f p l a M mode cfg ws = f p' l' a' M mode cfg ws'"
  using policy_losses_cases [OF assms(1)]
  by (elim disjE)
    (simp_all add: vanilla.masked_tokens [OF assms(2-5)] dppo_tv.masked_tokens [OF assms(2-5)] dppo_kl.masked_tokens [OF assms(2-5)]
      gspo.masked_tokens [OF assms(2-5)] sapo.masked_tokens [OF assms(2-5)] gpg.masked_tokens [OF assms(2-5)]
      clip_cov.masked_tokens [OF assms(2-5)] kl_cov.masked_tokens [OF assms(2-5)] geo_mean.masked_tokens [OF assms(2-5)]
      cispo.masked_tokens [OF assms(2-5)] bypass.masked_tokens [OF assms(2-5)])

section \<open>Examples\<close>

definition no_bypass :: loss_config where
  "no_bypass = \<lparr>lc_loss_mode = ''vanilla'', lc_rollout_correction = None\<rparr>"

theorem padding_witness:
  "compute_policy_loss_gspo [[0, 5]] [[0, 6]] [[1, 7]] [[1, 0]] plain_actor None =
     compute_policy_loss_gspo [[0, 0]] [[0, 0]] [[1, 0]] [[1, 0]] plain_actor None \<and>
   compute_policy_loss_bypass_mode None [[0, 5]] [[0, 6]] [[1, 7]] [[1, 0]] ''token-mean'' plain_actor
       \<lparr>lc_loss_mode = ''bypass_mode'', lc_rollout_correction = Some (bypass_pg_is 2)\<rparr> None =
     compute_policy_loss_bypass_mode None [[0, 0]] [[0, 0]] [[1, 0]] [[1, 0]] ''token-mean'' plain_actor
       \<lparr>lc_loss_mode = ''bypass_mode'', lc_rollout_correction = Some (bypass_pg_is 2)\<rparr> None"
proof -
  let ?lc = "\<lparr>lc_loss_mode = ''bypass_mode'', lc_rollout_correction = Some (bypass_pg_is 2)\<rparr>"
  have g: "get_policy_loss_fn ''gspo'' (policy_losses rev_upt topk None ?lc) = Inr (\<lambda>p l a M mode. compute_policy_loss_gspo p l a M)" for rev_upt topk
    by (simp add: get_policy_loss_fn_def policy_losses_def register_policy_loss_def)
  have b: "get_policy_loss_fn ''bypass_mode'' (policy_losses rev_upt topk None ?lc) =
      Inr (\<lambda>p l a M mode cfg. compute_policy_loss_bypass_mode None p l a M mode cfg ?lc)" for rev_upt topk
    by (simp add: get_policy_loss_fn_def policy_losses_def register_policy_loss_def)
  have e: "masked_eq [[1, 0]] [[0, 5]] [[0, 0 :: real]]" "masked_eq [[1, 0]] [[0, 6]] [[0, 0 :: real]]" "masked_eq [[1, 0]] [[1, 7]] [[1, 0 :: real]]"
    by (auto simp: masked_eq_def less_Suc_eq)
  have "masked_opt [[1, 0]] None None" by (simp add: masked_opt_def)
  from policy_losses_ignore_padding [OF g e this] policy_losses_ignore_padding [OF b e this] show ?thesis by blast
qed

end
