(* ===== verification/ToolAgent.thy ===== *)
theory ToolAgent
  imports Prelude Complex_Main
begin

text \<open>
  The multi-turn tool agent (\<open>ToolAgentLoop\<close> of \<^verbatim>\<open>verl/experimental/agent_loop/tool_agent_loop.py\<close>): a state
  machine that lets the model generate, runs the tools it calls, appends their answers to the prompt and
  generates again. Each handler of the source is one function on the state of a trajectory
  (\<open>agent_data\<close>); \<open>agent_loop\<close> runs them with fuel, and \<open>agent_run_total\<close> gives enough of it.

  The inference server, the tokenizer, its chat template, the tool parser, JSON and the tools are the
  outside: the fields of \<open>agent_env\<close>. The server and the tools act on a world \<open>'w\<close>, which is passed
  through; a tool sees its arguments and the world, but not the \<^verbatim>\<open>agent_data\<close> that the source hands to it as well, so
  tools that change the trajectory behind the agent's back are not modelled. The tools that one turn calls run one after the other, one of the orders that
  \<open>asyncio.gather\<close> allows. Videos, audio and processor options are constant for a trajectory and part of the
  environment; timing metrics are left out.
\<close>

section \<open>Data\<close>

datatype agent_state = Pending | Generating | Processing_Tools | Terminated

record function_call =
  fc_arguments :: string
  fc_name :: string

record ('i, 'v) tool_response =
  tr_text :: "string option"
  tr_image :: "'i option list option"
  tr_video :: "'v list option"

datatype message_part = Image_Part | Video_Part | Text_Part string

datatype 'm message = Given 'm | Tool_Text string | Tool_Parts "message_part list"

record ('e, 'x) gen_output =
  go_ids :: "int list"
  go_log_probs :: "real list option"
  go_routed :: "'e list option"
  go_preempted :: "int option"
  go_extra :: "(string, 'x) dict"

text \<open>A function tool is called with the parsed arguments and gives an error text or a response and a reward; a
  stateful tool is created with the keyword arguments of the sample, executed and released.\<close>

datatype ('w, 'a, 'k, 'i, 'v) tool =
    Function_Tool "'a \<Rightarrow> 'w \<Rightarrow> (string + ('i, 'v) tool_response \<times> real option) \<times> 'w"
  | Base_Tool (tool_create: "'k option \<Rightarrow> 'w \<Rightarrow> (string + string) \<times> 'w")
      (tool_execute: "string \<Rightarrow> 'a \<Rightarrow> 'w \<Rightarrow> (string + ('i, 'v) tool_response \<times> real option) \<times> 'w")
      (tool_release: "string \<Rightarrow> 'w \<Rightarrow> unit result \<times> 'w")

record ('w, 'a, 'k, 'i, 'v, 'm, 'e, 'x) agent_env =
  ae_generate :: "'w \<Rightarrow> int list \<Rightarrow> 'i list option \<Rightarrow> ('e, 'x) gen_output \<times> 'w"
  ae_template :: "'m message list \<Rightarrow> ('w, 'a, 'k, 'i, 'v) tool list option \<Rightarrow> 'i list option \<Rightarrow> int list"
  ae_system_prompt :: "int list"
  ae_encode :: "string \<Rightarrow> int list"
  ae_extract :: "int list \<Rightarrow> ('w, 'a, 'k, 'i, 'v) tool list \<Rightarrow> function_call list"
  ae_json :: "string \<Rightarrow> string + 'a"
  ae_repr_names :: "string list \<Rightarrow> string"
  ae_repr_parts :: "message_part list \<Rightarrow> string"
  ae_image_processor :: bool
  ae_truthy :: "'x \<Rightarrow> bool"
  ae_tools_kwargs :: "(string, 'k) dict"

record agent_cfg =
  ac_max_user_turns :: "nat option"
  ac_max_assistant_turns :: "nat option"
  ac_max_parallel_calls :: int
  ac_max_tool_response_length :: int
  ac_truncate_side :: string
  ac_response_length :: nat
  ac_parser_name :: string

record ('w, 'a, 'k, 'i, 'v, 'm, 'e, 'x) agent_data =
  ad_messages :: "'m message list"
  ad_images :: "'i list option"
  ad_prompt_ids :: "int list"
  ad_response_ids :: "int list"
  ad_response_mask :: "int list"
  ad_response_logprobs :: "real list"
  ad_tool_rewards :: "real list"
  ad_user_turns :: nat
  ad_assistant_turns :: nat
  ad_tool_calls :: "function_call list"
  ad_routed :: "'e list option"
  ad_extra :: "(string, 'x) dict"
  ad_num_preempted :: "int option"
  ad_active_tools :: "(string, ('w, 'a, 'k, 'i, 'v) tool) dict"

record ('i, 'e, 'x) agent_output =
  ao_prompt_ids :: "int list"
  ao_response_ids :: "int list"
  ao_response_mask :: "int list"
  ao_images :: "'i list option"
  ao_response_logprobs :: "real list option"
  ao_num_turns :: nat
  ao_num_preempted :: "int option"
  ao_routed :: "'e list option"
  ao_extra :: "(string, 'x) dict"
  ao_tool_rewards :: "real list"

section \<open>Calling a tool\<close>

definition text_response :: "string \<Rightarrow> ('i, 'v) tool_response" where
  "text_response s = \<lparr>tr_text = Some s, tr_image = None, tr_video = None\<rparr>"

text \<open>The side names the end that is kept.\<close>

definition truncate_text :: "int \<Rightarrow> string \<Rightarrow> string \<Rightarrow> string" where
  "truncate_text limit side s =
     (if s = [] \<or> int (length s) \<le> limit then s
      else if side = ''left'' then slice_to limit s @ ''...(truncated)''
      else if side = ''right'' then ''(truncated)...'' @ slice_from (- limit) s
      else (let h = limit div 2 in slice_to h s @ ''...(truncated)...'' @ slice_from (- h) s))"

definition run_tool :: "'k option \<Rightarrow> ('w, 'a, 'k, 'i, 'v) tool \<Rightarrow> 'a \<Rightarrow> 'w \<Rightarrow>
    ((string + ('i, 'v) tool_response \<times> real option) \<times> unit result) \<times> 'w" where
  "run_tool kw t a w = (case t of
       Function_Tool f \<Rightarrow> (let (r, w1) = f a w in ((r, Inr ()), w1))
     | Base_Tool create execute release \<Rightarrow>
         (case create kw w of
            (Inl e, w1) \<Rightarrow> ((Inl e, Inr ()), w1)
          | (Inr iid, w1) \<Rightarrow>
              (let (r, w2) = execute iid a w1;
                   (released, w3) = (if iid \<noteq> [] then release iid w2 else (Inr (), w2))
               in ((r, released), w3))))"

definition call_tool :: "('w, 'a, 'k, 'i, 'v, 'm, 'e, 'x) agent_env \<Rightarrow> agent_cfg \<Rightarrow>
    (string, ('w, 'a, 'k, 'i, 'v) tool) dict \<Rightarrow> function_call \<Rightarrow> 'w \<Rightarrow>
    (('i, 'v) tool_response \<times> real option) result \<times> 'w" where
  "call_tool E cfg tools c w = (case map_of tools (fc_name c) of
       None \<Rightarrow> (Inr (text_response (''Unknown function '' @ [CHR 0x27] @ fc_name c @ [CHR 0x27] @ ''. Available tools: '' @
                 ae_repr_names E (dict_keys tools)), Some 0), w)
     | Some t \<Rightarrow> (case ae_json E (fc_arguments c) of
         Inl e \<Rightarrow> (Inr (text_response (''Invalid JSON in arguments for '' @ [CHR 0x27] @ fc_name c @ [CHR 0x27] @ '': '' @ e), Some 0), w)
       | Inr a \<Rightarrow>
           (let ((r, released), w1) = run_tool (map_of (ae_tools_kwargs E) (fc_name c)) t a w
            in (bind_r released (\<lambda>_. Inr (case r of
                 Inl e \<Rightarrow> (text_response (''Error executing tool '' @ [CHR 0x27] @ fc_name c @ [CHR 0x27] @ '': '' @ e), Some 0)
               | Inr (tr, reward) \<Rightarrow>
                   (tr\<lparr>tr_text := map_option (truncate_text (ac_max_tool_response_length cfg) (ac_truncate_side cfg)) (tr_text tr)\<rparr>,
                    reward))), w1))))"

fun call_tools :: "('w, 'a, 'k, 'i, 'v, 'm, 'e, 'x) agent_env \<Rightarrow> agent_cfg \<Rightarrow>
    (string, ('w, 'a, 'k, 'i, 'v) tool) dict \<Rightarrow> function_call list \<Rightarrow> 'w \<Rightarrow>
    (('i, 'v) tool_response \<times> real option) result list \<times> 'w" where
  "call_tools E cfg tools [] w = ([], w)"
| "call_tools E cfg tools (c # cs) w =
     (let (r, w1) = call_tool E cfg tools c w; (rs, w2) = call_tools E cfg tools cs w1 in (r # rs, w2))"

section \<open>The handlers\<close>

definition apply_chat_template :: "('w, 'a, 'k, 'i, 'v, 'm, 'e, 'x) agent_env \<Rightarrow> 'm message list \<Rightarrow>
    ('w, 'a, 'k, 'i, 'v) tool list option \<Rightarrow> 'i list option \<Rightarrow> bool \<Rightarrow> int list" where
  "apply_chat_template E msgs tools images remove_system_prompt =
     (let ids = ae_template E msgs tools images
      in if remove_system_prompt then drop (length (ae_system_prompt E)) ids else ids)"

definition handle_pending :: "('w, 'a, 'k, 'i, 'v, 'm, 'e, 'x) agent_env \<Rightarrow> ('w, 'a, 'k, 'i, 'v, 'm, 'e, 'x) agent_data \<Rightarrow>
    agent_state \<times> ('w, 'a, 'k, 'i, 'v, 'm, 'e, 'x) agent_data" where
  "handle_pending E d =
     (Generating, d\<lparr>ad_prompt_ids :=
        apply_chat_template E (ad_messages d) (Some (map snd (ad_active_tools d))) (ad_images d) False\<rparr>)"

text \<open>A limit of None or 0 is no limit.\<close>

definition limit_reached :: "nat option \<Rightarrow> nat \<Rightarrow> bool" where
  "limit_reached limit n = (case limit of None \<Rightarrow> False | Some k \<Rightarrow> k \<noteq> 0 \<and> k \<le> n)"

definition merge_extra :: "('x \<Rightarrow> bool) \<Rightarrow> (string, 'x) dict \<Rightarrow> (string, 'x) dict \<Rightarrow> (string, 'x) dict" where
  "merge_extra truthy old new =
     (if old = [] then dict_update old new
      else case map_of new ''max_global_steps'' of
          None \<Rightarrow> old
        | Some v \<Rightarrow> if truthy v then dict_set ''max_global_steps'' v old else old)"

definition record_output :: "('x \<Rightarrow> bool) \<Rightarrow> ('e, 'x) gen_output \<Rightarrow> ('w, 'a, 'k, 'i, 'v, 'm, 'e, 'x) agent_data \<Rightarrow>
    ('w, 'a, 'k, 'i, 'v, 'm, 'e, 'x) agent_data" where
  "record_output truthy out d =
     d\<lparr>ad_num_preempted := Some (case ad_num_preempted d of
           None \<Rightarrow> (case go_preempted out of None \<Rightarrow> -1 | Some n \<Rightarrow> n)
         | Some k \<Rightarrow> k + (case go_preempted out of None \<Rightarrow> 0 | Some n \<Rightarrow> n)),
       ad_extra := merge_extra truthy (ad_extra d) (go_extra out),
       ad_assistant_turns := ad_assistant_turns d + 1,
       ad_response_ids := go_ids out,
       ad_prompt_ids := ad_prompt_ids d @ go_ids out,
       ad_response_mask := ad_response_mask d @ replicate (length (go_ids out)) 1,
       ad_response_logprobs := ad_response_logprobs d @ (case go_log_probs out of None \<Rightarrow> [] | Some l \<Rightarrow> l),
       ad_routed := (case go_routed out of None \<Rightarrow> ad_routed d | Some e \<Rightarrow> Some e)\<rparr>"

definition handle_generating :: "('w, 'a, 'k, 'i, 'v, 'm, 'e, 'x) agent_env \<Rightarrow> agent_cfg \<Rightarrow>
    ('w, 'a, 'k, 'i, 'v, 'm, 'e, 'x) agent_data \<Rightarrow> 'w \<Rightarrow>
    (agent_state \<times> ('w, 'a, 'k, 'i, 'v, 'm, 'e, 'x) agent_data) \<times> 'w" where
  "handle_generating E cfg d w =
     (let (out, w1) = ae_generate E w (ad_prompt_ids d) (ad_images d);
          d1 = record_output (ae_truthy E) out d
      in if ac_response_length cfg \<le> length (ad_response_mask d1) then ((Terminated, d1), w1)
         else if limit_reached (ac_max_assistant_turns cfg) (ad_assistant_turns d1) then ((Terminated, d1), w1)
         else if limit_reached (ac_max_user_turns cfg) (ad_user_turns d1) then ((Terminated, d1), w1)
         else (let d2 = d1\<lparr>ad_tool_calls := ae_extract E (ad_response_ids d1) (map snd (ad_active_tools d1))\<rparr>
               in ((if ad_tool_calls d2 \<noteq> [] then Processing_Tools else Terminated, d2), w1)))"

definition some_items :: "'b list option \<Rightarrow> bool" where
  "some_items o_xs = (case o_xs of None \<Rightarrow> False | Some xs \<Rightarrow> xs \<noteq> [])"

definition tool_message :: "bool \<Rightarrow> ('i, 'v) tool_response \<Rightarrow> 'm message result" where
  "tool_message has_image_processor r =
     (if some_items (tr_image r) \<or> some_items (tr_video r)
      then require has_image_processor ValueError (Inr (Tool_Parts
             ((if some_items (tr_image r) then [Image_Part] else []) @
              (if some_items (tr_video r) then [Video_Part] else []) @
              (case tr_text r of None \<Rightarrow> [] | Some s \<Rightarrow> if s = [] then [] else [Text_Part s]))))
      else Inr (Tool_Text (case tr_text r of None \<Rightarrow> [] | Some s \<Rightarrow> s)))"

text \<open>The messages, the new images and the rewards of the tool responses of one turn.\<close>

fun collect_responses :: "bool \<Rightarrow> (('i, 'v) tool_response \<times> real option) list \<Rightarrow>
    ('m message list \<times> 'i list \<times> real list) result" where
  "collect_responses has_image_processor [] = Inr ([], [], [])"
| "collect_responses has_image_processor ((r, reward) # rs) =
     bind_r (tool_message has_image_processor r) (\<lambda>m.
     require (\<not> some_items (tr_video r)) NotImplementedError
      (bind_r (collect_responses has_image_processor rs) (\<lambda>(ms, imgs, rewards).
        Inr (m # ms,
             (case tr_image r of None \<Rightarrow> [] | Some xs \<Rightarrow> List.map_filter id xs) @ imgs,
             (case reward of None \<Rightarrow> [] | Some x \<Rightarrow> [x]) @ rewards))))"

definition message_text :: "(message_part list \<Rightarrow> string) \<Rightarrow> 'm message \<Rightarrow> string" where
  "message_text repr_parts m = (case m of Given x \<Rightarrow> [] | Tool_Text s \<Rightarrow> s | Tool_Parts ps \<Rightarrow> repr_parts ps)"

definition format_gpt_oss_tool_response_manually :: "string \<Rightarrow> string \<Rightarrow> string" where
  "format_gpt_oss_tool_response_manually response name =
     ''<|start|>functions.'' @ name @ '' to=assistant<|channel|>commentary<|message|>'' @ response @ ''<|end|>''"

definition build_gpt_oss_tool_response_text :: "(message_part list \<Rightarrow> string) \<Rightarrow> 'm message list \<Rightarrow> string list \<Rightarrow> string" where
  "build_gpt_oss_tool_response_text repr_parts msgs names =
     concat (map (\<lambda>(m, n). format_gpt_oss_tool_response_manually (message_text repr_parts m) n) (zip msgs names)) @
     ''<|start|>assistant''"

definition tool_response_ids :: "('w, 'a, 'k, 'i, 'v, 'm, 'e, 'x) agent_env \<Rightarrow> agent_cfg \<Rightarrow> 'm message list \<Rightarrow> string list \<Rightarrow>
    'i list \<Rightarrow> int list" where
  "tool_response_ids E cfg msgs names images =
     (if ac_parser_name cfg = ''gpt-oss'' then ae_encode E (build_gpt_oss_tool_response_text (ae_repr_parts E) msgs names)
      else apply_chat_template E msgs None (if images = [] then None else Some images) True)"

definition append_observation :: "int list \<Rightarrow> 'i list \<Rightarrow> ('w, 'a, 'k, 'i, 'v, 'm, 'e, 'x) agent_data \<Rightarrow>
    ('w, 'a, 'k, 'i, 'v, 'm, 'e, 'x) agent_data" where
  "append_observation ids images d =
     d\<lparr>ad_images := (if images = [] then ad_images d
          else Some ((case ad_images d of None \<Rightarrow> [] | Some xs \<Rightarrow> xs) @ images)),
       ad_prompt_ids := ad_prompt_ids d @ ids,
       ad_response_mask := ad_response_mask d @ replicate (length ids) 0,
       ad_response_logprobs := (if ad_response_logprobs d = [] then []
          else ad_response_logprobs d @ replicate (length ids) 0),
       ad_user_turns := ad_user_turns d + 1\<rparr>"

definition handle_tools :: "('w, 'a, 'k, 'i, 'v, 'm, 'e, 'x) agent_env \<Rightarrow> agent_cfg \<Rightarrow>
    ('w, 'a, 'k, 'i, 'v, 'm, 'e, 'x) agent_data \<Rightarrow> 'w \<Rightarrow>
    (agent_state \<times> ('w, 'a, 'k, 'i, 'v, 'm, 'e, 'x) agent_data) result \<times> 'w" where
  "handle_tools E cfg d w =
     (let calls = slice_to (ac_max_parallel_calls cfg) (ad_tool_calls d);
          (rs, w1) = call_tools E cfg (ad_active_tools d) calls w
      in (bind_r (map_r (\<lambda>r. r) rs) (\<lambda>responses.
          bind_r (collect_responses (ae_image_processor E) responses) (\<lambda>(msgs, images, rewards).
            let d1 = d\<lparr>ad_tool_rewards := ad_tool_rewards d @ rewards, ad_messages := ad_messages d @ msgs\<rparr>;
                ids = tool_response_ids E cfg msgs (map fc_name calls) images
            in Inr (if ac_response_length cfg \<le> length (ad_response_mask d1) + length ids then (Terminated, d1)
                    else (Generating, append_observation ids images d1)))), w1))"

section \<open>A trajectory\<close>

definition agent_step :: "('w, 'a, 'k, 'i, 'v, 'm, 'e, 'x) agent_env \<Rightarrow> agent_cfg \<Rightarrow> agent_state \<Rightarrow>
    ('w, 'a, 'k, 'i, 'v, 'm, 'e, 'x) agent_data \<Rightarrow> 'w \<Rightarrow>
    (agent_state \<times> ('w, 'a, 'k, 'i, 'v, 'm, 'e, 'x) agent_data) result \<times> 'w" where
  "agent_step E cfg st d w = (case st of
       Pending \<Rightarrow> (Inr (handle_pending E d), w)
     | Generating \<Rightarrow> (let (r, w1) = handle_generating E cfg d w in (Inr r, w1))
     | Processing_Tools \<Rightarrow> handle_tools E cfg d w
     | Terminated \<Rightarrow> (Inr (Terminated, d), w))"

text \<open>\<open>agent_loop fuel\<close> is None when the loop has not ended after \<open>fuel\<close> handlers.\<close>

fun agent_loop :: "nat \<Rightarrow> ('w, 'a, 'k, 'i, 'v, 'm, 'e, 'x) agent_env \<Rightarrow> agent_cfg \<Rightarrow> agent_state \<Rightarrow>
    ('w, 'a, 'k, 'i, 'v, 'm, 'e, 'x) agent_data \<Rightarrow> 'w \<Rightarrow>
    (('w, 'a, 'k, 'i, 'v, 'm, 'e, 'x) agent_data result \<times> 'w) option" where
  "agent_loop fuel E cfg st d w =
     (if st = Terminated then Some (Inr d, w)
      else case fuel of
          0 \<Rightarrow> None
        | Suc n \<Rightarrow> (case agent_step E cfg st d w of
              (Inl e, w1) \<Rightarrow> Some (Inl e, w1)
            | (Inr (st1, d1), w1) \<Rightarrow> agent_loop n E cfg st1 d1 w1))"

declare agent_loop.simps [simp del]

definition select_tools :: "(string, 't) dict \<Rightarrow> string list option \<Rightarrow> (string, 't) dict" where
  "select_tools tools selection = (case selection of
       None \<Rightarrow> tools
     | Some names \<Rightarrow>
         if names \<noteq> [] \<and> tools \<noteq> []
         then foldl (\<lambda>d n. case map_of tools n of None \<Rightarrow> d | Some t \<Rightarrow> dict_set n t d) [] names
         else tools)"

definition agent_init :: "'m list \<Rightarrow> 'i list option \<Rightarrow> (string, ('w, 'a, 'k, 'i, 'v) tool) dict \<Rightarrow>
    ('w, 'a, 'k, 'i, 'v, 'm, 'e, 'x) agent_data" where
  "agent_init raw_prompt images tools =
     \<lparr>ad_messages = map Given raw_prompt, ad_images = images, ad_prompt_ids = [], ad_response_ids = [],
      ad_response_mask = [], ad_response_logprobs = [], ad_tool_rewards = [], ad_user_turns = 0,
      ad_assistant_turns = 0, ad_tool_calls = [], ad_routed = None, ad_extra = [], ad_num_preempted = None,
      ad_active_tools = tools\<rparr>"

definition finalize :: "agent_cfg \<Rightarrow> ('w, 'a, 'k, 'i, 'v, 'm, 'e, 'x) agent_data \<Rightarrow> ('i, 'e, 'x) agent_output" where
  "finalize cfg d =
     (let n = length (ad_response_mask d); R = ac_response_length cfg;
          response = slice_from (- int n) (ad_prompt_ids d);
          prompt = slice_to (int (length (ad_prompt_ids d)) - int n) (ad_prompt_ids d)
      in \<lparr>ao_prompt_ids = prompt, ao_response_ids = take R response, ao_response_mask = take R (ad_response_mask d),
          ao_images = ad_images d,
          ao_response_logprobs = (if ad_response_logprobs d = [] then None else Some (take R (ad_response_logprobs d))),
          ao_num_turns = ad_user_turns d + ad_assistant_turns d + 1,
          ao_num_preempted = ad_num_preempted d,
          ao_routed = map_option (take (length prompt + R)) (ad_routed d),
          ao_extra = ad_extra d, ao_tool_rewards = ad_tool_rewards d\<rparr>)"

definition agent_run :: "nat \<Rightarrow> ('w, 'a, 'k, 'i, 'v, 'm, 'e, 'x) agent_env \<Rightarrow> agent_cfg \<Rightarrow>
    (string, ('w, 'a, 'k, 'i, 'v) tool) dict \<Rightarrow> string list option \<Rightarrow> 'm list \<Rightarrow> 'i list option \<Rightarrow> 'w \<Rightarrow>
    (('i, 'e, 'x) agent_output result \<times> 'w) option" where
  "agent_run fuel E cfg tools selection raw_prompt images w =
     map_option (\<lambda>(r, w1). (bind_r r (\<lambda>d. Inr (finalize cfg d)), w1))
       (agent_loop fuel E cfg Pending (agent_init raw_prompt images (select_tools tools selection)) w)"

text \<open>\<open>SingleTurnAgentLoop.run\<close>.\<close>

definition single_turn_run :: "('w, 'a, 'k, 'i, 'v, 'm, 'e, 'x) agent_env \<Rightarrow> agent_cfg \<Rightarrow> 'm list \<Rightarrow> 'i list option \<Rightarrow> 'w \<Rightarrow>
    ('i, 'e, 'x) agent_output \<times> 'w" where
  "single_turn_run E cfg raw_prompt images w =
     (let prompt = apply_chat_template E (map Given raw_prompt) None images False;
          (out, w1) = ae_generate E w prompt images; R = ac_response_length cfg
      in (\<lparr>ao_prompt_ids = prompt, ao_response_ids = take R (go_ids out),
           ao_response_mask = take R (replicate (length (go_ids out)) 1), ao_images = images,
           ao_response_logprobs = (case go_log_probs out of None \<Rightarrow> None | Some l \<Rightarrow> if l = [] then None else Some (take R l)),
           ao_num_turns = 2,
           ao_num_preempted = Some (case go_preempted out of None \<Rightarrow> -1 | Some n \<Rightarrow> n),
           ao_routed = map_option (take (length prompt + R)) (go_routed out),
           ao_extra = go_extra out, ao_tool_rewards = []\<rparr>, w1))"

section \<open>Runs and their invariants\<close>

lemma agent_loop_Terminated [simp]: "agent_loop n E cfg Terminated d w = Some (Inr d, w)"
  by (subst agent_loop.simps) simp

lemma agent_loop_0 [simp]: "st \<noteq> Terminated \<Longrightarrow> agent_loop 0 E cfg st d w = None"
  by (subst agent_loop.simps) simp

lemma agent_loop_Suc: "st \<noteq> Terminated \<Longrightarrow> agent_loop (Suc n) E cfg st d w =
    (case agent_step E cfg st d w of
       (Inl e, w1) \<Rightarrow> Some (Inl e, w1)
     | (Inr (st1, d1), w1) \<Rightarrow> agent_loop n E cfg st1 d1 w1)"
  by (subst agent_loop.simps) simp

inductive agent_trans :: "('w, 'a, 'k, 'i, 'v, 'm, 'e, 'x) agent_env \<Rightarrow> agent_cfg \<Rightarrow>
    (agent_state \<times> ('w, 'a, 'k, 'i, 'v, 'm, 'e, 'x) agent_data) \<times> 'w \<Rightarrow>
    (agent_state \<times> ('w, 'a, 'k, 'i, 'v, 'm, 'e, 'x) agent_data) \<times> 'w \<Rightarrow> bool" for E cfg where
  pending: "agent_trans E cfg ((Pending, d), w) (handle_pending E d, w)"
| generating: "handle_generating E cfg d w = (s', w1) \<Longrightarrow> agent_trans E cfg ((Generating, d), w) (s', w1)"
| tools: "handle_tools E cfg d w = (Inr s', w1) \<Longrightarrow> agent_trans E cfg ((Processing_Tools, d), w) (s', w1)"

lemma agent_step_trans:
  "agent_step E cfg st d w = (Inr s', w1) \<Longrightarrow> st \<noteq> Terminated \<Longrightarrow> agent_trans E cfg ((st, d), w) (s', w1)"
  by (cases st) (auto simp: agent_step_def intro: agent_trans.intros split: prod.splits)

lemma agent_loop_trans:
  "agent_loop n E cfg st d w = Some (Inr d', w1) \<Longrightarrow> (agent_trans E cfg)\<^sup>*\<^sup>* ((st, d), w) ((Terminated, d'), w1)"
proof (induction n arbitrary: st d w)
  case 0
  then show ?case by (cases "st = Terminated") auto
next
  case (Suc n)
  show ?case
  proof (cases "st = Terminated")
    case False
    obtain r w2 where s: "agent_step E cfg st d w = (r, w2)" by fastforce
    with Suc.prems False obtain st2 d2 where r: "r = Inr (st2, d2)" and l: "agent_loop n E cfg st2 d2 w2 = Some (Inr d', w1)"
      by (cases r) (auto simp: agent_loop_Suc)
    show ?thesis using agent_step_trans [OF s [unfolded r] False] Suc.IH [OF l]
      by (rule converse_rtranclp_into_rtranclp)
  qed (use Suc.prems in auto)
qed

lemma agent_run_trans:
  assumes "agent_run n E cfg tools sel raw images w = Some (Inr out, w1)"
  shows "\<exists>d. out = finalize cfg d \<and>
    (agent_trans E cfg)\<^sup>*\<^sup>* ((Pending, agent_init raw images (select_tools tools sel)), w) ((Terminated, d), w1)"
  using assms by (auto simp: agent_run_def bind_r_Inr dest: agent_loop_trans)

section \<open>What the tokens of a trajectory are\<close>

text \<open>A trajectory after the prompt is a sequence of segments: tokens that the server generated, with their
  log-probabilities, and tokens that stand for tool responses.\<close>

datatype segment = Model_Tokens "int list" "real list" | Tool_Tokens "int list"

fun seg_ids :: "segment \<Rightarrow> int list" where
  "seg_ids (Model_Tokens ids lps) = ids" | "seg_ids (Tool_Tokens ids) = ids"

fun seg_mask :: "segment \<Rightarrow> int list" where
  "seg_mask (Model_Tokens ids lps) = replicate (length ids) 1"
| "seg_mask (Tool_Tokens ids) = replicate (length ids) 0"

fun seg_lps :: "segment \<Rightarrow> real list" where
  "seg_lps (Model_Tokens ids lps) = lps" | "seg_lps (Tool_Tokens ids) = replicate (length ids) 0"

definition ids_of :: "segment list \<Rightarrow> int list" where "ids_of segs = concat (map seg_ids segs)"
definition mask_of :: "segment list \<Rightarrow> int list" where "mask_of segs = concat (map seg_mask segs)"
definition lps_of :: "segment list \<Rightarrow> real list" where "lps_of segs = concat (map seg_lps segs)"

lemma segs_simps [simp]:
  "ids_of [] = []" "ids_of (segs @ [s]) = ids_of segs @ seg_ids s"
  "mask_of [] = []" "mask_of (segs @ [s]) = mask_of segs @ seg_mask s"
  "lps_of [] = []" "lps_of (segs @ [s]) = lps_of segs @ seg_lps s"
  by (simp_all add: ids_of_def mask_of_def lps_of_def)

lemma length_mask_of [simp]: "length (mask_of segs) = length (ids_of segs)"
proof -
  have "length (seg_mask s) = length (seg_ids s)" for s by (cases s) auto
  then show ?thesis by (induction segs) (simp_all add: mask_of_def ids_of_def)
qed

text \<open>The tokens of a turn of tools: the calls that the parser has found, as many as may run in parallel, are made in order, their responses
  become messages, and the messages are rendered as tokens.\<close>

definition observation :: "('w, 'a, 'k, 'i, 'v, 'm, 'e, 'x) agent_env \<Rightarrow> agent_cfg \<Rightarrow> (string, ('w, 'a, 'k, 'i, 'v) tool) dict \<Rightarrow>
    function_call list \<Rightarrow> 'w \<Rightarrow> (int list \<times> 'i list) result \<times> 'w" where
  "observation E cfg tools found w =
     (let calls = slice_to (ac_max_parallel_calls cfg) found; (rs, w1) = call_tools E cfg tools calls w
      in (bind_r (map_r (\<lambda>r. r) rs) (\<lambda>responses.
          bind_r (collect_responses (ae_image_processor E) responses) (\<lambda>(msgs, images, rewards).
            Inr (tool_response_ids E cfg msgs (map fc_name calls) images, images))), w1))"

definition more_images :: "'i list \<Rightarrow> 'i list option \<Rightarrow> 'i list option" where
  "more_images images old = (if images = [] then old else Some ((case old of None \<Rightarrow> [] | Some xs \<Rightarrow> xs) @ images))"

text \<open>Where a trajectory stands: the tokens recorded so far, the images, the world, and the last answer of the server when its calls are still to be
  made. A model segment has to be what the server answers to exactly these tokens and images; a tool segment has to be the tokens of the turn of
  tools that this last answer calls for.\<close>

definition replay_step :: "('w, 'a, 'k, 'i, 'v, 'm, 'e, 'x) agent_env \<Rightarrow> agent_cfg \<Rightarrow> (string, ('w, 'a, 'k, 'i, 'v) tool) dict \<Rightarrow> segment \<Rightarrow>
    int list \<times> 'i list option \<times> 'w \<times> int list option \<Rightarrow> (int list \<times> 'i list option \<times> 'w \<times> int list option) option" where
  "replay_step E cfg tools seg = (\<lambda>(p, images, w, due). case (due, seg) of
       (None, Model_Tokens ids lps) \<Rightarrow> (let (out, w1) = ae_generate E w p images in
          if ids = go_ids out \<and> lps = (case go_log_probs out of None \<Rightarrow> [] | Some l \<Rightarrow> l) then Some (p @ ids, images, w1, Some ids) else None)
     | (Some answer, Tool_Tokens ids) \<Rightarrow> (let found = ae_extract E answer (map snd tools) in case observation E cfg tools found w of
            (Inr (rendered, images1), w1) \<Rightarrow> if found \<noteq> [] \<and> ids = rendered then Some (p @ ids, more_images images1 images, w1, None) else None
          | (Inl e, w1) \<Rightarrow> None)
     | _ \<Rightarrow> None)"

fun replay :: "('w, 'a, 'k, 'i, 'v, 'm, 'e, 'x) agent_env \<Rightarrow> agent_cfg \<Rightarrow> (string, ('w, 'a, 'k, 'i, 'v) tool) dict \<Rightarrow>
    int list \<times> 'i list option \<times> 'w \<times> int list option \<Rightarrow> segment list \<Rightarrow> (int list \<times> 'i list option \<times> 'w \<times> int list option) option" where
  "replay E cfg tools s [] = Some s"
| "replay E cfg tools s (seg # segs) = (case replay_step E cfg tools seg s of None \<Rightarrow> None | Some s1 \<Rightarrow> replay E cfg tools s1 segs)"

definition generated_from :: "('w, 'a, 'k, 'i, 'v, 'm, 'e, 'x) agent_env \<Rightarrow> agent_cfg \<Rightarrow> (string, ('w, 'a, 'k, 'i, 'v) tool) dict \<Rightarrow>
    int list \<Rightarrow> 'i list option \<Rightarrow> 'w \<Rightarrow> segment list \<Rightarrow> bool" where
  "generated_from E cfg tools p images w segs \<longleftrightarrow> replay E cfg tools (p, images, w, None) segs \<noteq> None"

lemma replay_snoc: "replay E cfg tools s (segs @ [seg]) =
    (case replay E cfg tools s segs of None \<Rightarrow> None | Some s1 \<Rightarrow> replay_step E cfg tools seg s1)"
  by (induction segs arbitrary: s) (simp_all split: option.splits)

lemma replay_step_tokens: "replay_step E cfg tools seg (p, images, w, due) = Some (p', rest) \<Longrightarrow> p' = p @ seg_ids seg"
  by (cases due; cases seg) (auto simp: replay_step_def Let_def split: prod.splits sum.splits if_splits)

lemma replay_tokens: "replay E cfg tools (p, images, w, due) segs = Some (p', rest) \<Longrightarrow> p' = p @ ids_of segs"
proof (induction segs arbitrary: p images w due)
  case (Cons seg segs)
  obtain q images1 w1 due1 where st: "replay_step E cfg tools seg (p, images, w, due) = Some (q, images1, w1, due1)"
    and r: "replay E cfg tools (q, images1, w1, due1) segs = Some (p', rest)"
    using Cons.prems by (auto split: option.splits)
  from Cons.IH [OF r] replay_step_tokens [OF st] show ?case by (simp add: ids_of_def)
qed simp

definition scores_outputs :: "('w, 'a, 'k, 'i, 'v, 'm, 'e, 'x) agent_env \<Rightarrow> bool" where
  "scores_outputs E \<longleftrightarrow> (\<forall>w p images. \<exists>l. go_log_probs (fst (ae_generate E w p images)) = Some l \<and>
     length l = length (go_ids (fst (ae_generate E w p images))))"

text \<open>The parser finds no tool call in an empty response.\<close>

definition parses_nothing_in_nothing :: "('w, 'a, 'k, 'i, 'v, 'm, 'e, 'x) agent_env \<Rightarrow> bool" where
  "parses_nothing_in_nothing E \<longleftrightarrow> (\<forall>tools. ae_extract E [] tools = [])"

definition traj_inv :: "('w, 'a, 'k, 'i, 'v, 'm, 'e, 'x) agent_env \<Rightarrow> agent_cfg \<Rightarrow> (string, ('w, 'a, 'k, 'i, 'v) tool) dict \<Rightarrow>
    int list \<Rightarrow> 'i list option \<Rightarrow> 'w \<Rightarrow> (agent_state \<times> ('w, 'a, 'k, 'i, 'v, 'm, 'e, 'x) agent_data) \<times> 'w \<Rightarrow> bool" where
  "traj_inv E cfg tools p images0 w0 = (\<lambda>((st, d), w). ad_active_tools d = tools \<and> (if st = Pending
     then p = apply_chat_template E (ad_messages d) (Some (map snd (ad_active_tools d))) (ad_images d) False \<and>
       ad_images d = images0 \<and> w = w0 \<and> ad_response_mask d = [] \<and> ad_response_logprobs d = []
     else \<exists>segs w1 due. replay E cfg tools (p, images0, w0, None) segs = Some (ad_prompt_ids d, ad_images d, w1, due) \<and>
       ad_response_mask d = mask_of segs \<and>
       (st = Generating \<longrightarrow> w1 = w \<and> due = None \<and> (ids_of segs = [] \<or> length (ids_of segs) < ac_response_length cfg)) \<and>
       (st = Processing_Tools \<longrightarrow> w1 = w \<and> length (ids_of segs) < ac_response_length cfg \<and> ad_tool_calls d \<noteq> [] \<and>
          (\<exists>answer. due = Some answer \<and> ad_tool_calls d = ae_extract E answer (map snd tools))) \<and>
       (scores_outputs E \<and> parses_nothing_in_nothing E \<longrightarrow>
          ad_response_logprobs d = lps_of segs \<and> length (lps_of segs) = length (ids_of segs) \<and>
          (st = Processing_Tools \<longrightarrow> ids_of segs \<noteq> []))))"

lemma traj_inv_pending: "traj_inv E cfg tools p images0 w0 ((Pending, d), w) \<Longrightarrow> traj_inv E cfg tools p images0 w0 (handle_pending E d, w)"
  by (auto simp: traj_inv_def handle_pending_def intro!: exI [of _ "[]"])

lemma record_output_simps [simp]:
  "ad_prompt_ids (record_output tr out d) = ad_prompt_ids d @ go_ids out"
  "ad_response_ids (record_output tr out d) = go_ids out"
  "ad_response_mask (record_output tr out d) = ad_response_mask d @ replicate (length (go_ids out)) 1"
  "ad_response_logprobs (record_output tr out d) =
     ad_response_logprobs d @ (case go_log_probs out of None \<Rightarrow> [] | Some l \<Rightarrow> l)"
  "ad_assistant_turns (record_output tr out d) = ad_assistant_turns d + 1"
  "ad_user_turns (record_output tr out d) = ad_user_turns d"
  "ad_images (record_output tr out d) = ad_images d"
  "ad_active_tools (record_output tr out d) = ad_active_tools d"
  by (simp_all add: record_output_def)

lemma handle_generating_cases:
  assumes "handle_generating E cfg d w = ((st', d'), w1)"
  shows "\<exists>out. ae_generate E w (ad_prompt_ids d) (ad_images d) = (out, w1) \<and>
    d' = record_output (ae_truthy E) out d\<lparr>ad_tool_calls := ad_tool_calls d'\<rparr> \<and>
    (st' = Terminated \<or> st' = Processing_Tools \<and>
      length (ad_response_mask d) + length (go_ids out) < ac_response_length cfg \<and>
      \<not> limit_reached (ac_max_assistant_turns cfg) (ad_assistant_turns d + 1) \<and>
      \<not> limit_reached (ac_max_user_turns cfg) (ad_user_turns d) \<and>
      ad_tool_calls d' = ae_extract E (go_ids out) (map snd (ad_active_tools d)) \<and> ad_tool_calls d' \<noteq> [])"
proof -
  obtain out w2 where gen: "ae_generate E w (ad_prompt_ids d) (ad_images d) = (out, w2)" by fastforce
  define d1 where "d1 = record_output (ae_truthy E) out d"
  have d1: "ad_response_ids d1 = go_ids out" "length (ad_response_mask d1) = length (ad_response_mask d) + length (go_ids out)"
    "ad_assistant_turns d1 = ad_assistant_turns d + 1" "ad_user_turns d1 = ad_user_turns d" "ad_active_tools d1 = ad_active_tools d"
    by (simp_all add: d1_def)
  show ?thesis
    using assms gen d1 unfolding handle_generating_def Let_def
    by (auto simp flip: d1_def split: if_splits)
qed

lemma traj_inv_generating:
  assumes inv: "traj_inv E cfg tools p images0 w0 ((Generating, d), w)" and h: "handle_generating E cfg d w = (s', w1)"
  shows "traj_inv E cfg tools p images0 w0 (s', w1)"
proof -
  obtain segs where segs: "replay E cfg tools (p, images0, w0, None) segs = Some (ad_prompt_ids d, ad_images d, w, None)"
    "ad_response_mask d = mask_of segs" "ad_active_tools d = tools"
    "scores_outputs E \<and> parses_nothing_in_nothing E \<longrightarrow>
       ad_response_logprobs d = lps_of segs \<and> length (lps_of segs) = length (ids_of segs)"
    using inv by (auto simp: traj_inv_def)
  obtain st' d' where s': "s' = (st', d')" by fastforce
  from handle_generating_cases [OF h [unfolded s']] obtain out where
    gen: "ae_generate E w (ad_prompt_ids d) (ad_images d) = (out, w1)"
    and d': "d' = record_output (ae_truthy E) out d\<lparr>ad_tool_calls := ad_tool_calls d'\<rparr>"
    and st: "st' = Terminated \<or> st' = Processing_Tools \<and>
      length (ad_response_mask d) + length (go_ids out) < ac_response_length cfg \<and>
      ad_tool_calls d' = ae_extract E (go_ids out) (map snd (ad_active_tools d)) \<and> ad_tool_calls d' \<noteq> []"
    by blast
  let ?l = "case go_log_probs out of None \<Rightarrow> [] | Some l \<Rightarrow> l"
  let ?segs = "segs @ [Model_Tokens (go_ids out) ?l]"
  have g: "replay E cfg tools (p, images0, w0, None) ?segs = Some (ad_prompt_ids d @ go_ids out, ad_images d, w1, Some (go_ids out))"
    by (simp add: replay_snoc segs(1) replay_step_def gen)
  have l: "scores_outputs E \<Longrightarrow> length ?l = length (go_ids out)"
    using gen by (metis fst_conv option.simps(5) scores_outputs_def)
  have e: "parses_nothing_in_nothing E \<Longrightarrow> ae_extract E (go_ids out) ts \<noteq> [] \<Longrightarrow> go_ids out \<noteq> []" for ts
    by (auto simp: parses_nothing_in_nothing_def)
  have rec: "ad_prompt_ids d' = ad_prompt_ids d @ go_ids out" "ad_response_mask d' = mask_of ?segs"
    "ad_response_logprobs d' = ad_response_logprobs d @ ?l" "ad_images d' = ad_images d" "ad_active_tools d' = tools"
    using segs(2,3) by (subst d', simp)+
  have "length (ids_of ?segs) < ac_response_length cfg \<and> ad_tool_calls d' \<noteq> [] \<and>
      ad_tool_calls d' = ae_extract E (go_ids out) (map snd tools)" if "st' = Processing_Tools"
    using st that segs(2,3) by auto
  moreover have "ad_response_logprobs d' = lps_of ?segs \<and> length (lps_of ?segs) = length (ids_of ?segs) \<and> (st' = Processing_Tools \<longrightarrow> ids_of ?segs \<noteq> [])"
    if "scores_outputs E \<and> parses_nothing_in_nothing E"
    using that segs(4) rec(3) l e st by auto
  moreover have "st' \<noteq> Pending" "st' \<noteq> Generating" using st by auto
  ultimately show ?thesis
    unfolding s' traj_inv_def using rec(1,2,4,5) g by (auto intro!: exI [of _ ?segs])
qed

lemma handle_tools_cases:
  assumes "handle_tools E cfg d w = (Inr s', w1)"
  shows "\<exists>d1 ids images. ad_prompt_ids d1 = ad_prompt_ids d \<and> ad_response_mask d1 = ad_response_mask d \<and>
    ad_response_logprobs d1 = ad_response_logprobs d \<and> ad_user_turns d1 = ad_user_turns d \<and>
    ad_assistant_turns d1 = ad_assistant_turns d \<and> ad_images d1 = ad_images d \<and> ad_active_tools d1 = ad_active_tools d \<and>
    observation E cfg (ad_active_tools d) (ad_tool_calls d) w = (Inr (ids, images), w1) \<and>
    s' = (if ac_response_length cfg \<le> length (ad_response_mask d1) + length ids then (Terminated, d1)
      else (Generating, append_observation ids images d1))"
proof -
  let ?calls = "slice_to (ac_max_parallel_calls cfg) (ad_tool_calls d)"
  obtain rs w2 where c: "call_tools E cfg (ad_active_tools d) ?calls w = (rs, w2)" by fastforce
  let ?finish = "\<lambda>(msgs, images, rewards).
     let d1 = d\<lparr>ad_tool_rewards := ad_tool_rewards d @ rewards, ad_messages := ad_messages d @ msgs\<rparr>;
         ids = tool_response_ids E cfg msgs (map fc_name ?calls) images
     in Inr (if ac_response_length cfg \<le> length (ad_response_mask d1) + length ids then (Terminated, d1)
             else (Generating, append_observation ids images d1))"
  have run: "bind_r (map_r (\<lambda>r. r) rs) (\<lambda>responses. bind_r (collect_responses (ae_image_processor E) responses) ?finish) = Inr s'" "w2 = w1"
    using assms by (simp_all add: handle_tools_def Let_def c)
  then obtain responses m where m: "map_r (\<lambda>r. r) rs = Inr responses" "collect_responses (ae_image_processor E) responses = Inr m"
    "(?finish m :: _ result) = Inr s'" by (auto simp only: bind_r_Inr)
  obtain msgs images rewards where m3: "m = (msgs, images, rewards)" by (cases m)
  have "observation E cfg (ad_active_tools d) (ad_tool_calls d) w = (Inr (tool_response_ids E cfg msgs (map fc_name ?calls) images, images), w1)"
    using m(1,2) run(2) by (simp add: observation_def c m3)
  moreover have "(?finish (msgs, images, rewards) :: _ result) = Inr s'" using m(3) unfolding m3 .
  ultimately show ?thesis unfolding Let_def
    by (intro exI [of _ "d\<lparr>ad_tool_rewards := ad_tool_rewards d @ rewards, ad_messages := ad_messages d @ msgs\<rparr>"]
        exI [of _ "tool_response_ids E cfg msgs (map fc_name ?calls) images"] exI [of _ images]) simp
qed

lemma traj_inv_tools:
  assumes inv: "traj_inv E cfg tools p images0 w0 ((Processing_Tools, d), w)" and h: "handle_tools E cfg d w = (Inr s', w1)"
  shows "traj_inv E cfg tools p images0 w0 (s', w1)"
proof -
  have "\<exists>segs answer. replay E cfg tools (p, images0, w0, None) segs = Some (ad_prompt_ids d, ad_images d, w, Some answer) \<and>
     ad_response_mask d = mask_of segs \<and> ad_active_tools d = tools \<and> ad_tool_calls d \<noteq> [] \<and> ad_tool_calls d = ae_extract E answer (map snd tools) \<and>
     (scores_outputs E \<and> parses_nothing_in_nothing E \<longrightarrow>
       ad_response_logprobs d = lps_of segs \<and> length (lps_of segs) = length (ids_of segs) \<and> ids_of segs \<noteq> [])"
    using inv unfolding traj_inv_def by simp metis
  then obtain segs answer where segs: "replay E cfg tools (p, images0, w0, None) segs = Some (ad_prompt_ids d, ad_images d, w, Some answer)"
    "ad_response_mask d = mask_of segs" "ad_active_tools d = tools" "ad_tool_calls d \<noteq> []" "ad_tool_calls d = ae_extract E answer (map snd tools)"
    "scores_outputs E \<and> parses_nothing_in_nothing E \<longrightarrow>
       ad_response_logprobs d = lps_of segs \<and> length (lps_of segs) = length (ids_of segs) \<and> ids_of segs \<noteq> []"
    by blast
  obtain d1 ids images where d1: "ad_prompt_ids d1 = ad_prompt_ids d" "ad_response_mask d1 = ad_response_mask d"
      "ad_response_logprobs d1 = ad_response_logprobs d" "ad_images d1 = ad_images d" "ad_active_tools d1 = ad_active_tools d"
    and obs: "observation E cfg (ad_active_tools d) (ad_tool_calls d) w = (Inr (ids, images), w1)"
    and s': "s' = (if ac_response_length cfg \<le> length (ad_response_mask d1) + length ids then (Terminated, d1)
      else (Generating, append_observation ids images d1))"
    using handle_tools_cases [OF h] by blast
  show ?thesis
  proof (cases "ac_response_length cfg \<le> length (ad_response_mask d1) + length ids")
    case True
    then show ?thesis using segs d1 by (auto simp: s' traj_inv_def intro!: exI [of _ segs])
  next
    case False
    let ?segs = "segs @ [Tool_Tokens ids]"
    have r: "replay E cfg tools (p, images0, w0, None) ?segs = Some (ad_prompt_ids d @ ids, more_images images (ad_images d), w1, None)"
      using obs segs(3-5) by (simp add: replay_snoc segs(1) replay_step_def)
    have "ad_response_logprobs d \<noteq> []" if "scores_outputs E" "parses_nothing_in_nothing E"
      using segs(6) that by auto
    then have "ad_response_logprobs (append_observation ids images d1) = lps_of ?segs \<and> length (lps_of ?segs) = length (ids_of ?segs)"
      if "scores_outputs E \<and> parses_nothing_in_nothing E"
      using that segs(6) d1(3) by (simp add: append_observation_def)
    then show ?thesis using False segs(2,3) d1 r
      by (auto simp: s' traj_inv_def append_observation_def more_images_def intro!: exI [of _ ?segs])
  qed
qed

lemma traj_inv_reachable:
  assumes "(agent_trans E cfg)\<^sup>*\<^sup>* s s'" and "traj_inv E cfg tools p images0 w0 s"
  shows "traj_inv E cfg tools p images0 w0 s'"
  using assms
proof (induction rule: rtranclp_induct)
  case (step y z)
  from step(2) show ?case using step(3) [OF step.prems]
    by cases (auto intro: traj_inv_pending traj_inv_generating traj_inv_tools)
qed simp

lemma traj_inv_init:
  "traj_inv E cfg tools (apply_chat_template E (map Given raw) (Some (map snd tools)) images False) images w ((Pending, agent_init raw images tools), w)"
  by (simp add: traj_inv_def agent_init_def)

lemma mask_of_Nil [simp]: "mask_of segs = [] \<longleftrightarrow> ids_of segs = []"
  using length_mask_of [of segs] by (metis length_0_conv)

lemma finalize_tokens:
  assumes "ad_prompt_ids d = p @ ids_of segs" "ad_response_mask d = mask_of segs"
  shows "ao_prompt_ids (finalize cfg d) = p"
    "ao_response_ids (finalize cfg d) = take (ac_response_length cfg) (if ids_of segs = [] then p else ids_of segs)"
    "ao_response_mask (finalize cfg d) = take (ac_response_length cfg) (mask_of segs)"
proof -
  have "slice_to (int (length p + n) - int n) (p @ xs) = p" if "n = length xs" for n xs
    using slice_to_nat [of "length p" "p @ xs"] that by simp
  then show "ao_prompt_ids (finalize cfg d) = p" using assms by (simp add: finalize_def Let_def)
  show "ao_response_ids (finalize cfg d) = take (ac_response_length cfg) (if ids_of segs = [] then p else ids_of segs)"
    using assms by (simp add: finalize_def Let_def slice_from_minus last_n_def)
  show "ao_response_mask (finalize cfg d) = take (ac_response_length cfg) (mask_of segs)"
    using assms by (simp add: finalize_def Let_def)
qed

text \<open>The templated prompt of a trajectory.\<close>

definition templated_prompt :: "('w, 'a, 'k, 'i, 'v, 'm, 'e, 'x) agent_env \<Rightarrow> (string, ('w, 'a, 'k, 'i, 'v) tool) dict \<Rightarrow>
    string list option \<Rightarrow> 'm list \<Rightarrow> 'i list option \<Rightarrow> int list" where
  "templated_prompt E tools sel raw images =
     apply_chat_template E (map Given raw) (Some (map snd (select_tools tools sel))) images False"

lemma agent_run_segments:
  assumes "agent_run n E cfg tools sel raw images w = Some (Inr out, w1)"
  shows "ao_prompt_ids out = templated_prompt E tools sel raw images \<and>
    (\<exists>segs. generated_from E cfg (select_tools tools sel) (ao_prompt_ids out) images w segs \<and>
       ao_response_ids out = take (ac_response_length cfg) (if ids_of segs = [] then ao_prompt_ids out else ids_of segs) \<and>
       ao_response_mask out = take (ac_response_length cfg) (mask_of segs) \<and>
       (scores_outputs E \<and> parses_nothing_in_nothing E \<longrightarrow> length (lps_of segs) = length (mask_of segs) \<and>
          ao_response_logprobs out = (if ids_of segs = [] then None else Some (take (ac_response_length cfg) (lps_of segs)))))"
proof -
  let ?p = "templated_prompt E tools sel raw images" and ?tools = "select_tools tools sel"
  obtain d where d: "out = finalize cfg d"
    "(agent_trans E cfg)\<^sup>*\<^sup>* ((Pending, agent_init raw images ?tools), w) ((Terminated, d), w1)"
    using agent_run_trans [OF assms] by blast
  have "traj_inv E cfg ?tools ?p images w ((Terminated, d), w1)"
    using traj_inv_reachable [OF d(2) traj_inv_init] by (simp add: templated_prompt_def)
  then obtain segs w2 due where segs: "replay E cfg ?tools (?p, images, w, None) segs = Some (ad_prompt_ids d, ad_images d, w2, due)"
    "ad_response_mask d = mask_of segs"
    "scores_outputs E \<and> parses_nothing_in_nothing E \<longrightarrow>
       ad_response_logprobs d = lps_of segs \<and> length (lps_of segs) = length (ids_of segs)"
    by (auto simp: traj_inv_def)
  have "ao_response_logprobs out = (if ids_of segs = [] then None else Some (take (ac_response_length cfg) (lps_of segs)))"
    if "scores_outputs E" "parses_nothing_in_nothing E"
    using segs(3) that d(1) by (auto simp: finalize_def Let_def)
  moreover have "generated_from E cfg ?tools ?p images w segs" by (simp add: generated_from_def segs(1))
  ultimately show ?thesis using finalize_tokens [OF replay_tokens [OF segs(1)] segs(2), of cfg] segs(3) d(1)
    by (intro conjI exI [of _ segs]) simp_all
qed

text \<open>C23 The output of a trajectory is the templated prompt followed by model and tool segments that take turns, cut to the response length.
  Every model segment is the answer of the server to exactly the tokens, images and world recorded before it; every tool segment is the
  rendered responses of the tools that the answer before it called, after the tokens recorded before it. The response mask is 1 on the model segments and 0
  on the tool segments.\<close>

theorem agent_tokens_faithful:
  assumes "agent_run n E cfg tools sel raw images w = Some (Inr out, w1)" and "ao_response_mask out \<noteq> []"
  shows "ao_prompt_ids out = templated_prompt E tools sel raw images \<and>
    (\<exists>segs. generated_from E cfg (select_tools tools sel) (ao_prompt_ids out) images w segs \<and>
       ao_response_ids out = take (ac_response_length cfg) (ids_of segs) \<and>
       ao_response_mask out = take (ac_response_length cfg) (mask_of segs))"
proof -
  obtain segs where segs: "generated_from E cfg (select_tools tools sel) (ao_prompt_ids out) images w segs"
    "ao_response_ids out = take (ac_response_length cfg) (if ids_of segs = [] then ao_prompt_ids out else ids_of segs)"
    "ao_response_mask out = take (ac_response_length cfg) (mask_of segs)"
    using agent_run_segments [OF assms(1)] by blast
  then have "ids_of segs \<noteq> []" using assms(2) by auto
  with segs agent_run_segments [OF assms(1)] show ?thesis by auto
qed

text \<open>C24 When the server scores its tokens and the parser finds no call in an empty response, the log-probabilities of the
  output are aligned with its response mask: those of the server on model tokens, 0 on tool tokens.\<close>

theorem agent_log_probs_aligned:
  assumes "agent_run n E cfg tools sel raw images w = Some (Inr out, w1)"
    and "scores_outputs E" and "parses_nothing_in_nothing E"
  shows "\<exists>segs. generated_from E cfg (select_tools tools sel) (ao_prompt_ids out) images w segs \<and>
    ao_response_mask out = take (ac_response_length cfg) (mask_of segs) \<and>
    ao_response_logprobs out = (if ids_of segs = [] then None else Some (take (ac_response_length cfg) (lps_of segs))) \<and>
    length (lps_of segs) = length (mask_of segs)"
  using agent_run_segments [OF assms(1)] assms(2,3) by blast

section \<open>Termination and turns\<close>

lemma agent_loop_total:
  assumes "parses_nothing_in_nothing E"
    and "2 * (ac_response_length cfg - length (ad_response_mask d)) + 1 \<le> n"
  shows "agent_loop n E cfg Generating d w \<noteq> None"
  using assms(2)
proof (induction n arbitrary: d w rule: less_induct)
  case (less n)
  then obtain k where n: "n = Suc k" by (cases n) auto
  obtain st1 d1 w1 where g: "handle_generating E cfg d w = ((st1, d1), w1)" by (metis prod.exhaust)
  then have s: "agent_step E cfg Generating d w = (Inr (st1, d1), w1)" by (simp add: agent_step_def)
  from handle_generating_cases [OF g] obtain out where
    d1: "d1 = record_output (ae_truthy E) out d\<lparr>ad_tool_calls := ad_tool_calls d1\<rparr>"
    and st: "st1 = Terminated \<or> st1 = Processing_Tools \<and>
      length (ad_response_mask d) + length (go_ids out) < ac_response_length cfg \<and>
      ad_tool_calls d1 = ae_extract E (go_ids out) (map snd (ad_active_tools d)) \<and> ad_tool_calls d1 \<noteq> []"
    by blast
  have m: "ad_response_mask d1 = ad_response_mask d @ replicate (length (go_ids out)) 1" by (subst d1) simp
  show ?case
  proof (cases "st1 = Terminated")
    case False
    with st have pos: "0 < length (go_ids out)" and lt: "length (ad_response_mask d1) < ac_response_length cfg"
      and st1: "st1 = Processing_Tools" and more: "length (ad_response_mask d) < length (ad_response_mask d1)"
      using assms(1) m by (auto simp: parses_nothing_in_nothing_def)
    then obtain j where k: "k = Suc j" using less.prems n by (cases k) auto
    obtain r w2 where t: "handle_tools E cfg d1 w1 = (r, w2)" by fastforce
    show ?thesis
    proof (cases r)
      case (Inl e)
      then show ?thesis using s t st1 by (simp add: n k agent_loop_Suc agent_step_def)
    next
      case (Inr s2)
      obtain st2 d2 where s2: "s2 = (st2, d2)" by fastforce
      have nxt: "agent_loop n E cfg Generating d w = agent_loop j E cfg st2 d2 w2"
        using s t st1 by (simp add: n k agent_loop_Suc agent_step_def Inr s2)
      show ?thesis
      proof (cases "st2 = Terminated")
        case False
        then have "st2 = Generating" and "length (ad_response_mask d1) \<le> length (ad_response_mask d2)"
          using handle_tools_cases [OF t [unfolded Inr]] s2 by (auto simp: append_observation_def split: if_splits)
        moreover have "agent_loop j E cfg Generating d2 w2 \<noteq> None" if "length (ad_response_mask d1) \<le> length (ad_response_mask d2)"
          by (rule less.IH) (use less.prems that lt more n k in auto)
        ultimately show ?thesis unfolding nxt by simp
      qed (simp add: nxt)
    qed
  qed (use s in \<open>simp add: n agent_loop_Suc\<close>)
qed

text \<open>C31 When the parser finds no tool call in an empty response, every trajectory ends, after at most two handlers per token
  of the response length.\<close>

theorem agent_run_total:
  assumes "parses_nothing_in_nothing E"
  shows "\<exists>r w1. agent_run (2 * ac_response_length cfg + 2) E cfg tools sel raw images w = Some (r, w1)"
proof -
  let ?d = "agent_init raw images (select_tools tools sel)"
  obtain d1 where h: "handle_pending E ?d = (Generating, d1)" and m: "ad_response_mask d1 = []"
    by (simp add: handle_pending_def agent_init_def)
  have "agent_loop (2 * ac_response_length cfg + 1) E cfg Generating d1 w \<noteq> None"
    by (rule agent_loop_total [OF assms]) (simp add: m)
  moreover have "agent_loop (2 * ac_response_length cfg + 2) E cfg Pending ?d w =
      agent_loop (2 * ac_response_length cfg + 1) E cfg Generating d1 w"
    using agent_loop_Suc [of Pending "2 * ac_response_length cfg + 1" E cfg ?d w] h by (simp add: agent_step_def)
  ultimately show ?thesis by (auto simp: agent_run_def)
qed

definition turns_inv :: "agent_cfg \<Rightarrow> (agent_state \<times> ('w, 'a, 'k, 'i, 'v, 'm, 'e, 'x) agent_data) \<times> 'w \<Rightarrow> bool" where
  "turns_inv cfg = (\<lambda>((st, d), w). case st of
       Pending \<Rightarrow> ad_user_turns d = 0 \<and> ad_assistant_turns d = 0
     | Generating \<Rightarrow> ad_assistant_turns d = ad_user_turns d \<and>
         (\<forall>k > 0. ac_max_assistant_turns cfg = Some k \<longrightarrow> ad_assistant_turns d < k) \<and>
         (\<forall>k > 0. ac_max_user_turns cfg = Some k \<longrightarrow> ad_user_turns d \<le> k)
     | Processing_Tools \<Rightarrow> ad_assistant_turns d = ad_user_turns d + 1 \<and>
         (\<forall>k > 0. ac_max_assistant_turns cfg = Some k \<longrightarrow> ad_assistant_turns d < k) \<and>
         (\<forall>k > 0. ac_max_user_turns cfg = Some k \<longrightarrow> ad_user_turns d < k)
     | Terminated \<Rightarrow> ad_assistant_turns d = ad_user_turns d + 1 \<and>
         (\<forall>k > 0. ac_max_assistant_turns cfg = Some k \<longrightarrow> ad_assistant_turns d \<le> k) \<and>
         (\<forall>k > 0. ac_max_user_turns cfg = Some k \<longrightarrow> ad_user_turns d \<le> k))"

lemma turns_inv_step: "agent_trans E cfg s s' \<Longrightarrow> turns_inv cfg s \<Longrightarrow> turns_inv cfg s'"
proof (induction rule: agent_trans.induct)
  case (pending d w)
  then show ?case by (auto simp: turns_inv_def handle_pending_def)
next
  case (generating d w s' w1)
  obtain st' d' where s': "s' = (st', d')" by fastforce
  from handle_generating_cases [OF generating(1) [unfolded s']] obtain out where
    d': "d' = record_output (ae_truthy E) out d\<lparr>ad_tool_calls := ad_tool_calls d'\<rparr>"
    and st: "st' = Terminated \<or> st' = Processing_Tools \<and>
      \<not> limit_reached (ac_max_assistant_turns cfg) (ad_assistant_turns d + 1) \<and>
      \<not> limit_reached (ac_max_user_turns cfg) (ad_user_turns d)"
    by blast
  have "ad_assistant_turns d' = ad_assistant_turns d + 1" "ad_user_turns d' = ad_user_turns d" by (subst d', simp)+
  then show ?case using generating(2) st by (auto simp: s' turns_inv_def limit_reached_def)
next
  case (tools d w s' w1)
  from handle_tools_cases [OF tools(1)] tools(2) show ?case
    by (cases s') (auto simp: turns_inv_def append_observation_def split: if_splits)
qed

lemma turns_inv_reachable: "(agent_trans E cfg)\<^sup>*\<^sup>* s s' \<Longrightarrow> turns_inv cfg s \<Longrightarrow> turns_inv cfg s'"
  by (induction rule: rtranclp_induct) (auto intro: turns_inv_step)

text \<open>Every tool turn follows a turn of the model and the last turn is the model's, so the number of turns is even; the two
  limits, where they are set, bound it.\<close>

theorem agent_turns_bounded:
  assumes "agent_run n E cfg tools sel raw images w = Some (Inr out, w1)"
  shows "even (ao_num_turns out) \<and> 2 \<le> ao_num_turns out \<and>
    (\<forall>k > 0. ac_max_assistant_turns cfg = Some k \<longrightarrow> ao_num_turns out \<le> 2 * k) \<and>
    (\<forall>k > 0. ac_max_user_turns cfg = Some k \<longrightarrow> ao_num_turns out \<le> 2 * k + 2)"
proof -
  obtain d where d: "out = finalize cfg d"
    "(agent_trans E cfg)\<^sup>*\<^sup>* ((Pending, agent_init raw images (select_tools tools sel)), w) ((Terminated, d), w1)"
    using agent_run_trans [OF assms] by blast
  have "turns_inv cfg ((Terminated, d), w1)"
    by (rule turns_inv_reachable [OF d(2)]) (simp add: turns_inv_def agent_init_def)
  then show ?thesis by (auto simp: d(1) turns_inv_def finalize_def Let_def)
qed

section \<open>Two boundary cases\<close>

text \<open>When the server returned no token at all, the response of the output is the prompt: the slice
  \<open>prompt_ids[-0:]\<close> of the source is the whole list, while the response mask is empty.\<close>

theorem agent_empty_response_is_prompt:
  assumes "agent_run n E cfg tools sel raw images w = Some (Inr out, w1)"
    and "ao_response_mask out = []" and "0 < ac_response_length cfg"
  shows "ao_response_ids out = take (ac_response_length cfg) (ao_prompt_ids out)"
  using agent_run_segments [OF assms(1)] assms(2,3) by fastforce

text \<open>The text of a tool is cut to the limit and a marker, on whichever side; but a limit of 1 with the side
  \<open>middle\<close> keeps the whole text, because half the limit is 0 and \<open>text[-0:]\<close> is all of it.\<close>

theorem tool_text_bounded:
  shows "(2 \<le> limit \<longrightarrow> int (length (truncate_text limit side s)) \<le> limit + 17) \<and>
    (1 < length s \<longrightarrow> truncate_text 1 ''middle'' s = ''...(truncated)...'' @ s)"
proof -
  have to: "int (length (slice_to k s)) \<le> k" if "0 \<le> k" for k
    using that by (simp add: slice_to_def slice_bound_def)
  have from_end: "int (length (slice_from (- k) s)) \<le> k" if "0 < k" for k
    using slice_from_minus [of "nat k" s] that by simp
  have half: "0 < limit div 2" "2 * (limit div 2) \<le> limit" if "2 \<le> limit" using that by simp_all
  have "int (length (truncate_text limit side s)) \<le> limit + 17" if l: "2 \<le> limit"
  proof -
    have "int (length (slice_to limit s)) \<le> limit" "int (length (slice_from (- limit) s)) \<le> limit"
      "int (length (slice_to (limit div 2) s)) \<le> limit div 2" "int (length (slice_from (- (limit div 2)) s)) \<le> limit div 2"
      using l half to from_end by simp_all
    then show ?thesis using half l by (auto simp: truncate_text_def Let_def)
  qed
  moreover have "truncate_text 1 ''middle'' s = ''...(truncated)...'' @ s" if "1 < length s"
    using that by (auto simp: truncate_text_def slice_to_def slice_from_def slice_bound_def)
  ultimately show ?thesis by blast
qed

section \<open>Examples\<close>

text \<open>A server that calls the tool \<open>t\<close> (token 12) in its first answer and then ends (token 13); the tool answers
  \<open>ok\<close>, which the template renders as the token 8 after the system prompt 7.\<close>

definition calling_env :: "(nat, nat, nat, nat, nat, nat, nat, nat) agent_env" where
  "calling_env = \<lparr>
     ae_generate = (\<lambda>w p images. (if w = 0
        then \<lparr>go_ids = [11, 12], go_log_probs = Some [-1, -2], go_routed = None, go_preempted = None, go_extra = []\<rparr>
        else \<lparr>go_ids = [13], go_log_probs = Some [-3], go_routed = None, go_preempted = None, go_extra = []\<rparr>, w + 1)),
     ae_template = (\<lambda>ms tools images. case tools of None \<Rightarrow> [7, 8] | Some ts \<Rightarrow> [1, 2]),
     ae_system_prompt = [7],
     ae_encode = (\<lambda>s. []),
     ae_extract = (\<lambda>ids tools. if 12 \<in> set ids then [\<lparr>fc_arguments = [], fc_name = ''t''\<rparr>] else []),
     ae_json = (\<lambda>s. Inr 0), ae_repr_names = (\<lambda>ns. []), ae_repr_parts = (\<lambda>ps. []),
     ae_image_processor = False, ae_truthy = (\<lambda>x. x \<noteq> 0), ae_tools_kwargs = []\<rparr>"

definition calling_tools :: "(string, (nat, nat, nat, nat, nat) tool) dict" where
  "calling_tools = [(''t'', Function_Tool (\<lambda>a w. (Inr (text_response ''ok'', Some (1 / 2)), w)))]"

definition calling_cfg :: agent_cfg where
  "calling_cfg = \<lparr>ac_max_user_turns = Some 3, ac_max_assistant_turns = Some 5, ac_max_parallel_calls = 1,
     ac_max_tool_response_length = 256, ac_truncate_side = ''middle'', ac_response_length = 6, ac_parser_name = ''hermes''\<rparr>"

definition calling_output :: "(nat, nat, nat) agent_output" where
  "calling_output = \<lparr>ao_prompt_ids = [1, 2], ao_response_ids = [11, 12, 8, 13], ao_response_mask = [1, 1, 0, 1],
     ao_images = None, ao_response_logprobs = Some [-1, -2, 0, -3], ao_num_turns = 4, ao_num_preempted = Some (-1),
     ao_routed = None, ao_extra = [], ao_tool_rewards = [1 / 2]\<rparr>"

lemma agent_loop_numeral: "st \<noteq> Terminated \<Longrightarrow> agent_loop (numeral n) E cfg st d w =
    (case agent_step E cfg st d w of
       (Inl e, w1) \<Rightarrow> Some (Inl e, w1)
     | (Inr (st1, d1), w1) \<Rightarrow> agent_loop (pred_numeral n) E cfg st1 d1 w1)"
  by (simp add: numeral_eq_Suc agent_loop_Suc)

lemmas agent_exec = agent_run_def agent_init_def select_tools_def agent_loop_Suc agent_loop_numeral agent_step_def
  handle_pending_def apply_chat_template_def handle_generating_def record_output_def merge_extra_def limit_reached_def
  handle_tools_def call_tool_def run_tool_def truncate_text_def text_response_def tool_message_def some_items_def
  tool_response_ids_def append_observation_def finalize_def slice_to_def slice_from_def slice_bound_def Let_def

lemma calling_run: "agent_run 14 calling_env calling_cfg calling_tools None [0] None 0 = Some (Inr calling_output, 2)"
  by (simp add: agent_exec calling_env_def calling_cfg_def calling_tools_def calling_output_def)

lemma calling_parses: "parses_nothing_in_nothing calling_env"
  by (simp add: parses_nothing_in_nothing_def calling_env_def)

lemma calling_mask: "ao_response_mask calling_output \<noteq> []"
  by (simp add: calling_output_def)

lemma calling_scores: "scores_outputs calling_env"
  by (simp add: scores_outputs_def calling_env_def)

theorem agent_tokens_witness:
  "ao_prompt_ids calling_output = templated_prompt calling_env calling_tools None [0] None \<and>
    (\<exists>segs. generated_from calling_env calling_cfg calling_tools (ao_prompt_ids calling_output) None 0 segs \<and>
       ao_response_ids calling_output = take (ac_response_length calling_cfg) (ids_of segs) \<and>
       ao_response_mask calling_output = take (ac_response_length calling_cfg) (mask_of segs))"
  using agent_tokens_faithful [OF calling_run calling_mask] unfolding select_tools_def option.case .

theorem agent_log_probs_witness:
  "\<exists>segs. generated_from calling_env calling_cfg calling_tools (ao_prompt_ids calling_output) None 0 segs \<and>
    ao_response_mask calling_output = take (ac_response_length calling_cfg) (mask_of segs) \<and>
    ao_response_logprobs calling_output =
      (if ids_of segs = [] then None else Some (take (ac_response_length calling_cfg) (lps_of segs))) \<and>
    length (lps_of segs) = length (mask_of segs)"
  using agent_log_probs_aligned [OF calling_run calling_scores calling_parses] unfolding select_tools_def option.case .

theorem agent_run_total_witness:
  "\<exists>r w1. agent_run (2 * ac_response_length calling_cfg + 2) calling_env calling_cfg calling_tools None [0] None 0 = Some (r, w1)"
  by (rule agent_run_total [OF calling_parses])

theorem agent_turns_witness: "even (ao_num_turns calling_output) \<and> ao_num_turns calling_output \<le> 8"
  using agent_turns_bounded [OF calling_run] by (simp add: calling_cfg_def)

text \<open>A server that answers with no token.\<close>

definition silent_env :: "(nat, nat, nat, nat, nat, nat, nat, nat) agent_env" where
  "silent_env = calling_env\<lparr>ae_generate := (\<lambda>w p images.
     (\<lparr>go_ids = [], go_log_probs = None, go_routed = None, go_preempted = None, go_extra = []\<rparr>, w + 1))\<rparr>"

definition silent_output :: "(nat, nat, nat) agent_output" where
  "silent_output = \<lparr>ao_prompt_ids = [1, 2], ao_response_ids = [1, 2], ao_response_mask = [], ao_images = None,
     ao_response_logprobs = None, ao_num_turns = 2, ao_num_preempted = Some (-1), ao_routed = None, ao_extra = [],
     ao_tool_rewards = []\<rparr>"

lemma silent_run: "agent_run 14 silent_env calling_cfg calling_tools None [0] None 0 = Some (Inr silent_output, 1)"
  by (simp add: agent_exec silent_env_def calling_env_def calling_cfg_def calling_tools_def silent_output_def)

theorem agent_empty_response_witness:
  "ao_response_ids silent_output = take (ac_response_length calling_cfg) (ao_prompt_ids silent_output)"
  by (rule agent_empty_response_is_prompt [OF silent_run]) (simp_all add: silent_output_def calling_cfg_def)

theorem tool_text_witness:
  "int (length (truncate_text 4 ''middle'' ''abcdefg'')) \<le> 21 \<and> truncate_text 1 ''middle'' ''ab'' = ''...(truncated)...ab''"
  using tool_text_bounded [of 4 "''middle''" "''abcdefg''"] tool_text_bounded [of 4 "''middle''" "''ab''"] by simp

end
