(* ===== verification/AgentBatch.thy ===== *)
theory AgentBatch
  imports ToolAgent DataProto
begin

text \<open>
  From trajectories to a batch (\<open>AgentLoopWorker\<close> of \<^verbatim>\<open>verl/experimental/agent_loop/agent_loop.py\<close>): every
  output of an agent loop is padded, prompts on the left and responses on the right, and the padded rows
  become the tensors and arrays of a \<open>DataProto\<close>. \<open>tokenizer.pad\<close> is a method of the tokenizer and a parameter
  here; \<open>pads_to_max\<close> states its documented behaviour, that on an empty input included. The model is the text-only branch (no processor, no
  distillation); the reward of a trajectory is computed by another worker and is an argument.
\<close>

section \<open>Padding one trajectory\<close>

datatype pad_side = Left_Side | Right_Side

text \<open>What \<^verbatim>\<open>tokenizer.pad\<close> hands back: a tensor of ids with its attention mask, or an input it has not touched, a list still.\<close>

datatype padded = Tensors "int list" "int list" | Unpadded "int list"

type_synonym padder = "pad_side \<Rightarrow> int list \<Rightarrow> nat \<Rightarrow> padded"

text \<open>Ids and attention mask of \<open>tokenizer.pad(ids, padding="max_length", max_length=n)\<close>; longer inputs are not cut, and an empty
  input is returned as it is, neither padded nor converted.\<close>

definition pads_to_max :: "int \<Rightarrow> padder \<Rightarrow> bool" where
  "pads_to_max pad_id pad \<longleftrightarrow> (\<forall>side n. pad side [] n = Unpadded []) \<and> (\<forall>xs n. xs \<noteq> [] \<longrightarrow>
     pad Left_Side xs n = Tensors (replicate (n - length xs) pad_id @ xs) (replicate (n - length xs) 0 @ replicate (length xs) 1) \<and>
     pad Right_Side xs n = Tensors (xs @ replicate (n - length xs) pad_id) (replicate (length xs) 1 @ replicate (n - length xs) 0))"

text \<open>The worker asks for the dimension of the ids; a list has none.\<close>

definition padded_tensors :: "padded \<Rightarrow> (int list \<times> int list) result" where
  "padded_tensors r = (case r of Tensors ids att \<Rightarrow> Inr (ids, att) | Unpadded ids \<Rightarrow> Inl AttributeError)"

record ('e, 'x, 'm) padded_output =
  po_prompt_ids :: "int list"
  po_response_ids :: "int list"
  po_input_ids :: "int list"
  po_position_ids :: "int list"
  po_response_mask :: "int list"
  po_attention_mask :: "int list"
  po_response_logprobs :: "real list option"
  po_routed :: "'e list option"
  po_score :: "real option"
  po_num_turns :: nat
  po_metrics :: "'m pyval"
  po_extra :: "(string, 'x) dict"

definition compute_position_id_with_mask :: "int list \<Rightarrow> int list" where
  "compute_position_id_with_mask att = map (\<lambda>i. max 0 (sum_list (take (Suc i) att) - 1)) [0..<length att]"

text \<open>The assignment of the experts of the tokens to the unpadded part of the row.\<close>

definition place_routed :: "'e \<Rightarrow> nat \<Rightarrow> nat \<Rightarrow> nat \<Rightarrow> 'e list \<Rightarrow> 'e list result" where
  "place_routed zero width prompt_width prompt_len experts =
     (let start = int prompt_width - int prompt_len; stop = min (start + int (length experts)) (int width)
      in require (\<not> (start < 0 \<or> int width < stop)) ValueError
          (require (stop - start = int (length experts) \<or> length experts = 1) RuntimeError
            (Inr (replicate (nat start) zero @ take (nat (stop - start)) experts @ replicate (width - nat stop) zero))))"

text \<open>\<open>extra\<close> are the extra fields of the output; \<open>reward\<close> is the score and the extra information of the reward worker, if
  there is one.\<close>

definition agent_loop_postprocess :: "padder \<Rightarrow> 'e \<Rightarrow> nat \<Rightarrow> nat \<Rightarrow> ('i, 'e, 'x) agent_output \<Rightarrow> (string, 'x) dict \<Rightarrow>
    'x \<Rightarrow> (real \<times> 'x) option \<Rightarrow> 'm pyval \<Rightarrow> ('e, 'x, 'm) padded_output result" where
  "agent_loop_postprocess pad zero P R out extra raw_prompt reward metrics =
     bind_r (padded_tensors (pad Left_Side (ao_prompt_ids out) P)) (\<lambda>(prompt, prompt_att).
     bind_r (padded_tensors (pad Right_Side (ao_response_ids out) R)) (\<lambda>(response, response_att).
     bind_r (padded_tensors (pad Right_Side (ao_response_mask out) R)) (\<lambda>(rmask, unused).
      let att = prompt_att @ response_att; ids = prompt @ response
      in require (length rmask = length response_att) RuntimeError
          (bind_r (case ao_routed out of
              None \<Rightarrow> Inr None
            | Some es \<Rightarrow> bind_r (place_routed zero (length ids) (length prompt) (length (ao_prompt_ids out)) es) (\<lambda>r. Inr (Some r)))
           (\<lambda>routed. Inr
             \<lparr>po_prompt_ids = prompt, po_response_ids = response, po_input_ids = ids,
              po_position_ids = compute_position_id_with_mask att,
              po_response_mask = map (\<lambda>(m, a). m * a) (zip rmask response_att),
              po_attention_mask = att,
              po_response_logprobs = map_option (\<lambda>l. l @ replicate (R - length l) 0) (ao_response_logprobs out),
              po_routed = routed, po_score = map_option fst reward, po_num_turns = ao_num_turns out, po_metrics = metrics,
              po_extra = (let e = dict_set ''raw_prompt'' raw_prompt extra
                          in case reward of None \<Rightarrow> e | Some (s, info) \<Rightarrow> dict_set ''reward_extra_info'' info e)\<rparr>)))))"

section \<open>Building the batch\<close>

datatype 'e agent_row = Ids "int list" | Reals "real list" | Experts "'e list"

datatype 'x agent_obj = Turns nat | Val 'x | Absent | Empty_Dict

text \<open>\<open>torch.cat\<close> of rows of one tensor each.\<close>

definition cat_rows :: "('a list \<Rightarrow> 'r) \<Rightarrow> 'a list list \<Rightarrow> 'r list result" where
  "cat_rows f rows = require (\<forall>r \<in> set rows. length r = length (hd rows)) RuntimeError (Inr (map f rows))"

text \<open>A column that is there when the first output has it.\<close>

definition optional_rows :: "string \<Rightarrow> ('a list \<Rightarrow> 'r) \<Rightarrow> 'a list option list \<Rightarrow> (string, 'r list) dict result" where
  "optional_rows key f cs = (case cs of
       Some r # _ \<Rightarrow> bind_r (map_r (\<lambda>c. case c of None \<Rightarrow> Inl TypeError | Some x \<Rightarrow> Inr x) cs) (\<lambda>rows.
          bind_r (cat_rows f rows) (\<lambda>t. Inr [(key, t)]))
     | _ \<Rightarrow> Inr [])"

text \<open>\<open>rm_scores[i, idx] = score\<close>, where a negative index counts from the end.\<close>

definition put_score :: "nat \<Rightarrow> int \<Rightarrow> real \<Rightarrow> real list result" where
  "put_score width idx score =
     (let i = (if idx < 0 then idx + int width else idx)
      in require (0 \<le> i \<and> i < int width) IndexError (Inr ((replicate width 0)[nat i := score])))"

definition rm_scores :: "nat \<Rightarrow> ('e, 'x, 'm) padded_output list \<Rightarrow> (string, 'e agent_row list) dict result" where
  "rm_scores prompt_length outs =
     (if \<forall>q \<in> set outs. po_score q \<noteq> None
      then bind_r (map_r (\<lambda>q. put_score (length (po_response_mask q))
             (sum_list (drop prompt_length (po_attention_mask q)) - 1) (the (po_score q))) outs) (\<lambda>rows.
           Inr [(''rm_scores'', map Reals rows)])
      else Inr [])"

definition extra_keys :: "('e, 'x, 'm) padded_output list \<Rightarrow> string list" where
  "extra_keys outs = fold (\<lambda>k ks. if k \<in> set ks then ks else ks @ [k])
     (concat (map (\<lambda>q. dict_keys (po_extra q)) outs) @
      [''turn_scores'', ''tool_rewards'', ''min_global_steps'', ''max_global_steps'', ''extras'']) []"

definition agent_non_tensor :: "('x \<Rightarrow> (string, 'x) dict) \<Rightarrow> bool \<Rightarrow> (string, 'x agent_obj list) dict \<Rightarrow>
    ('e, 'x, 'm) padded_output list \<Rightarrow> ((string, 'x agent_obj list) dict \<times> string list) result" where
  "agent_non_tensor as_info has_reward_workers input_non_tensor outs =
     (let nt0 = [(''__num_turns__'', map (\<lambda>q. Turns (po_num_turns q)) outs)];
          nt1 = (if \<not> has_reward_workers then dict_update nt0 input_non_tensor else nt0);
          infos = map (\<lambda>q. case map_of (po_extra q) ''reward_extra_info'' of None \<Rightarrow> [] | Some v \<Rightarrow> as_info v) outs;
          reward_keys = dict_keys (hd infos)
      in bind_r (map_r (\<lambda>k. bind_r (map_r (\<lambda>info. dict_item info k) infos) (\<lambda>vs. Inr (k, map Val vs))) reward_keys) (\<lambda>cols.
          let nt2 = dict_update nt1 cols;
              nt3 = dict_set ''multi_modal_inputs'' (map (\<lambda>q. Empty_Dict) outs) nt2;
              ex = map (\<lambda>k. (k, map (\<lambda>q. case map_of (po_extra q) k of None \<Rightarrow> Absent | Some v \<Rightarrow> Val v) outs)) (extra_keys outs)
          in Inr (dict_update nt3 ex, reward_keys)))"

definition postprocess :: "('x \<Rightarrow> (string, 'x) dict) \<Rightarrow> (string \<Rightarrow> 'm) \<Rightarrow> bool \<Rightarrow> (string, 'x agent_obj list) dict \<Rightarrow>
    ('e, 'x, 'm) padded_output list \<Rightarrow> ('e agent_row, 'x agent_obj, 'm) data_proto result" where
  "postprocess as_info atom has_reward_workers input_non_tensor outs =
     require (outs \<noteq> []) RuntimeError
      (bind_r (cat_rows Ids (map po_prompt_ids outs)) (\<lambda>prompts.
       bind_r (cat_rows Ids (map po_response_ids outs)) (\<lambda>responses.
       bind_r (cat_rows Ids (map po_response_mask outs)) (\<lambda>rmask.
       bind_r (cat_rows Ids (map po_attention_mask outs)) (\<lambda>att.
       bind_r (cat_rows Ids (map po_input_ids outs)) (\<lambda>ids.
       bind_r (cat_rows Ids (map po_position_ids outs)) (\<lambda>pos.
       bind_r (optional_rows ''rollout_log_probs'' Reals (map po_response_logprobs outs)) (\<lambda>lps.
       bind_r (optional_rows ''routed_experts'' Experts (map po_routed outs)) (\<lambda>experts.
       bind_r (rm_scores (length (po_prompt_ids (hd outs))) outs) (\<lambda>scores.
       bind_r (agent_non_tensor as_info has_reward_workers input_non_tensor outs) (\<lambda>(nt, reward_keys).
       let tensors = [(''prompts'', prompts), (''responses'', responses), (''response_mask'', rmask), (''input_ids'', ids),
             (''attention_mask'', att), (''position_ids'', pos)] @ lps @ experts @ scores;
           meta = [(''metrics'', PyList (map po_metrics outs))] @
             (if scores \<noteq> [] then [(''reward_extra_keys'', PyList (map (\<lambda>k. Atom (atom k)) reward_keys))] else [])
       in mk_dp (Some \<lparr>td_size = length outs, td_items = tensors\<rparr>) nt meta)))))))))))"

section \<open>Trajectories of a batch\<close>

record 'k trajectory =
  tj_step :: int
  tj_sample_index :: 'k
  tj_rollout_n :: nat
  tj_validate :: bool

fun rollout_numbers :: "'k option \<Rightarrow> nat \<Rightarrow> 'k list \<Rightarrow> nat list" where
  "rollout_numbers prev n [] = []"
| "rollout_numbers prev n (k # ks) =
     (let m = (if prev = Some k then n + 1 else 0) in m # rollout_numbers (Some k) m ks)"

definition get_trajectory_info :: "int \<Rightarrow> 'k list \<Rightarrow> bool \<Rightarrow> 'k trajectory list" where
  "get_trajectory_info step index validate =
     map (\<lambda>(k, n). \<lparr>tj_step = step, tj_sample_index = k, tj_rollout_n = n, tj_validate = validate\<rparr>)
       (zip index (rollout_numbers None 0 index))"

record gen_params =
  gp_temperature :: real
  gp_top_p :: real
  gp_top_k :: int
  gp_repetition_penalty :: real
  gp_logprobs :: bool

definition apply_greedy_sampling_params :: "gen_params \<Rightarrow> gen_params" where
  "apply_greedy_sampling_params p = p\<lparr>gp_top_p := 1, gp_top_k := -1, gp_temperature := 0\<rparr>"

record rollout_sampling =
  rs_temperature :: real
  rs_top_p :: real
  rs_top_k :: int
  rs_val_temperature :: real
  rs_val_top_p :: real
  rs_val_top_k :: int
  rs_calculate_log_probs :: bool

text \<open>The sampling parameters of row i: validation has its own, and a row may ask for greedy decoding otherwise.\<close>

definition row_sampling_params :: "rollout_sampling \<Rightarrow> bool \<Rightarrow> bool list option \<Rightarrow> nat \<Rightarrow> gen_params" where
  "row_sampling_params c validate do_sample i =
     (let p = \<lparr>gp_temperature = rs_temperature c, gp_top_p = rs_top_p c, gp_top_k = rs_top_k c,
               gp_repetition_penalty = 1, gp_logprobs = rs_calculate_log_probs c\<rparr>;
          q = (if validate then p\<lparr>gp_top_p := rs_val_top_p c, gp_top_k := rs_val_top_k c, gp_temperature := rs_val_temperature c\<rparr>
               else p)
      in case do_sample of
          None \<Rightarrow> q
        | Some bs \<Rightarrow> if \<not> validate \<and> \<not> bs ! i then apply_greedy_sampling_params q else q)"

text \<open>\<open>run\<close> runs the agent loop of one row and pads its output (\<open>_run_agent_loop\<close>); the rows run concurrently and share
  nothing, so the order does not matter.\<close>

definition worker_generate_sequences :: "('x \<Rightarrow> (string, 'x) dict) \<Rightarrow> (string \<Rightarrow> 'm) \<Rightarrow> ('x agent_obj \<Rightarrow> bool) \<Rightarrow>
    (gen_params \<Rightarrow> 'x agent_obj trajectory \<Rightarrow> (string, 'x agent_obj) dict \<Rightarrow> ('e, 'x, 'm) padded_output result) \<Rightarrow>
    rollout_sampling \<Rightarrow> 'x agent_obj \<Rightarrow> bool \<Rightarrow> int \<Rightarrow> bool \<Rightarrow> ('r, 'x agent_obj, 'm) data_proto \<Rightarrow>
    ('e agent_row, 'x agent_obj, 'm) data_proto result" where
  "worker_generate_sequences as_info atom truthy run c default_agent_loop has_reward_workers global_steps validate d =
     (let n = dp_len d; nt0 = dp_non_tensor d;
          nt = (if ''agent_name'' \<in> set (dict_keys nt0) then nt0
                else dict_set ''agent_name'' (replicate n default_agent_loop) nt0);
          index = (case map_of nt ''index'' of Some col \<Rightarrow> col | None \<Rightarrow> map Turns [0..<n]);
          info = get_trajectory_info global_steps index validate;
          do_sample = map_option (map truthy) (map_of nt ''__do_sample__'')
      in bind_r (map_r (\<lambda>i. run (row_sampling_params c validate do_sample i) (info ! i)
                  (map (\<lambda>(k, v). (k, v ! i)) (filter (\<lambda>(k, v). k \<noteq> ''__do_sample__'') nt))) [0..<n]) (\<lambda>outs.
          postprocess as_info atom has_reward_workers nt outs))"

section \<open>Properties\<close>

lemma prefix_sums_ones:
  "map (\<lambda>i. max 0 (sum_list (take (Suc i) (replicate a 0 @ replicate b 1 @ replicate c (0 :: int))) - 1)) [a..<a + b] = map int [0..<b]"
proof -
  have "sum_list (take (Suc i) (replicate a 0 @ replicate b 1 @ replicate c (0 :: int))) = int (Suc i - a)" if "a \<le> i" "i < a + b" for i
    using that by (simp add: sum_list_replicate min_def) arith
  then show ?thesis by (intro nth_equalityI) (auto simp: sum_list_replicate)
qed

lemma kept_middle:
  assumes "length ys = b"
  shows "map fst (filter (\<lambda>(x, a). a = 1) (zip (xs @ ys @ zs)
    (replicate (length xs) (0 :: int) @ replicate b 1 @ replicate (length zs) 0))) = ys"
proof -
  have no: "filter (\<lambda>(x, a). a = 1) (zip us (replicate (length us) (0 :: int))) = []" for us :: "'a list"
    by (auto simp: filter_empty_conv zip_replicate2)
  have yes: "map fst (filter (\<lambda>(x, a). a = 1) (zip ys (replicate b (1 :: int)))) = ys"
    using assms by (induction ys arbitrary: b) auto
  show ?thesis using assms yes by (simp add: zip_append no)
qed

lemma upt_split3: "[0..<a + b + c] = [0..<a] @ [a..<a + b] @ [a + b..<a + b + c]"
  using upt_add_eq_append [of 0 a b] upt_add_eq_append [of 0 "a + b" c] by simp

text \<open>What padding gives for an output whose parts are not longer than the widths.\<close>

definition fits :: "nat \<Rightarrow> nat \<Rightarrow> ('i, 'e, 'x) agent_output \<Rightarrow> bool" where
  "fits P R out \<longleftrightarrow> length (ao_prompt_ids out) \<le> P \<and> length (ao_response_ids out) \<le> R \<and> length (ao_response_mask out) \<le> R"

lemma postprocess_non_empty:
  assumes "pads_to_max pad_id pad" "agent_loop_postprocess pad zero P R out extra raw_prompt reward metrics = Inr q"
  shows "ao_prompt_ids out \<noteq> []" "ao_response_ids out \<noteq> []" "ao_response_mask out \<noteq> []"
  using assms by (auto simp: agent_loop_postprocess_def pads_to_max_def padded_tensors_def bind_r_Inr)

lemma postprocess_fields:
  assumes "pads_to_max pad_id pad" "fits P R out"
    and "agent_loop_postprocess pad zero P R out extra raw_prompt reward metrics = Inr q"
  shows "po_prompt_ids q = replicate (P - length (ao_prompt_ids out)) pad_id @ ao_prompt_ids out"
    "po_response_ids q = ao_response_ids out @ replicate (R - length (ao_response_ids out)) pad_id"
    "po_input_ids q = po_prompt_ids q @ po_response_ids q"
    "po_attention_mask q = replicate (P - length (ao_prompt_ids out)) 0 @
       replicate (length (ao_prompt_ids out) + length (ao_response_ids out)) 1 @ replicate (R - length (ao_response_ids out)) 0"
    "po_position_ids q = compute_position_id_with_mask (po_attention_mask q)"
    "po_response_mask q = map (\<lambda>(m, a). m * a) (zip (ao_response_mask out @ replicate (R - length (ao_response_mask out)) pad_id)
       (replicate (length (ao_response_ids out)) 1 @ replicate (R - length (ao_response_ids out)) 0))"
    "po_score q = map_option fst reward"
  using assms postprocess_non_empty [OF assms(1,3)] by (auto simp: agent_loop_postprocess_def pads_to_max_def padded_tensors_def Let_def
      fits_def bind_r_Inr require_Inr replicate_add)

text \<open>C32 Padding loses nothing: the tokens under the attention mask are the prompt and the response, their positions count from 0,
  every row has the full width, and the response mask is the one of the agent loop, 0 on padding.\<close>

theorem padding_keeps_tokens:
  assumes "pads_to_max pad_id pad" "fits P R out" "length (ao_response_mask out) = length (ao_response_ids out)"
    and "agent_loop_postprocess pad zero P R out extra raw_prompt reward metrics = Inr q"
  shows "map fst (filter (\<lambda>(x, a). a = 1) (zip (po_input_ids q) (po_attention_mask q))) = ao_prompt_ids out @ ao_response_ids out \<and>
    map fst (filter (\<lambda>(x, a). a = 1) (zip (po_position_ids q) (po_attention_mask q))) =
      map int [0..<length (ao_prompt_ids out) + length (ao_response_ids out)] \<and>
    po_response_mask q = ao_response_mask out @ replicate (R - length (ao_response_mask out)) 0 \<and>
    length (po_input_ids q) = P + R \<and> length (po_attention_mask q) = P + R \<and> length (po_response_mask q) = R"
proof -
  note f = postprocess_fields [OF assms(1,2,4)]
  let ?p = "ao_prompt_ids out" and ?r = "ao_response_ids out"
  let ?a = "P - length ?p" and ?b = "length ?p + length ?r" and ?c = "R - length ?r"
  let ?pos = "\<lambda>i. max 0 (sum_list (take (Suc i) (po_attention_mask q)) - 1)"
  have len: "?a + ?b + ?c = P + R" using assms(2) by (simp add: fits_def)
  have tokens: "map fst (filter (\<lambda>(x, a). a = 1) (zip (po_input_ids q) (po_attention_mask q))) = ?p @ ?r"
    using kept_middle [of "?p @ ?r" ?b "replicate ?a pad_id" "replicate ?c pad_id"] unfolding f by simp
  have split: "[0..<P + R] = [0..<?a] @ [?a..<?a + ?b] @ [?a + ?b..<?a + ?b + ?c]"
    unfolding len [symmetric] by (rule upt_split3)
  have "length (po_attention_mask q) = ?a + ?b + ?c" unfolding f(4) by simp
  then have "po_position_ids q = map ?pos [0..<P + R]"
    unfolding f(5) compute_position_id_with_mask_def len by simp
  moreover have "map ?pos [?a..<?a + ?b] = map int [0..<?b]" unfolding f(4) by (rule prefix_sums_ones)
  ultimately have "po_position_ids q = map ?pos [0..<?a] @ map int [0..<?b] @ map ?pos [?a + ?b..<?a + ?b + ?c]"
    by (simp only: split map_append)
  then have positions: "map fst (filter (\<lambda>(x, a). a = 1) (zip (po_position_ids q) (po_attention_mask q))) = map int [0..<?b]"
    using kept_middle [of "map int [0..<?b]" ?b "map ?pos [0..<?a]" "map ?pos [?a + ?b..<?a + ?b + ?c]"] unfolding f(4) by simp
  have "map (\<lambda>(m, a). m * a) (zip us (replicate (length us) (1 :: int))) = us" for us
    by (induction us) auto
  moreover have "map (\<lambda>(m, a). m * a) (zip (replicate k x) (replicate k (0 :: int))) = replicate k 0" for k x
    by (induction k) auto
  ultimately have "po_response_mask q = ao_response_mask out @ replicate (R - length (ao_response_mask out)) 0"
    unfolding f(6) using assms(3) by (metis (no_types, lifting) length_replicate map_append zip_append)
  then show ?thesis using tokens positions f(1-4) assms(2,3) len by (simp add: fits_def)
qed

text \<open>C35 When the server answers the templated prompt with no token at all, in which the parser finds no tool call, the agent still returns an output, whose response is the prompt (the slice
  \<open>prompt_ids[-0:]\<close> of the source is the whole list) and whose response mask is empty; the worker cannot pad this mask and raises an AttributeError,
  whatever the widths and the reward are.\<close>

theorem empty_answer_fails_to_pad:
  assumes "pads_to_max pad_id pad" "parses_nothing_in_nothing E"
    and "go_ids (fst (ae_generate E w (templated_prompt E tools sel raw images) images)) = []"
  shows "\<exists>out w1. agent_run (n + 2) E cfg tools sel raw images w = Some (Inr out, w1) \<and>
    ao_response_ids out = take (ac_response_length cfg) (ao_prompt_ids out) \<and> ao_response_mask out = [] \<and>
    agent_loop_postprocess pad zero P R out extra raw_prompt reward metrics = Inl AttributeError"
proof -
  let ?d = "agent_init raw images (select_tools tools sel)"
  obtain d1 where h: "handle_pending E ?d = (Generating, d1)" and d1: "ad_response_mask d1 = []" "ad_prompt_ids d1 = templated_prompt E tools sel raw images"
    "ad_images d1 = images" by (simp add: handle_pending_def agent_init_def templated_prompt_def)
  obtain st d2 w1 where g: "handle_generating E cfg d1 w = ((st, d2), w1)" by (metis prod.exhaust)
  from handle_generating_cases [OF g] obtain answer where
    gen: "ae_generate E w (ad_prompt_ids d1) (ad_images d1) = (answer, w1)"
    and d2: "d2 = record_output (ae_truthy E) answer d1\<lparr>ad_tool_calls := ad_tool_calls d2\<rparr>"
    and st: "st = Terminated \<or> ae_extract E (go_ids answer) (map snd (ad_active_tools d1)) \<noteq> []"
    by metis
  have none: "go_ids answer = []" using gen assms(3) by (simp add: d1)
  then have "st = Terminated" using st assms(2) by (simp add: parses_nothing_in_nothing_def)
  then have loop: "agent_loop (n + 2) E cfg Pending ?d w = Some (Inr d2, w1)"
    using h g by (simp add: numeral_2_eq_2 agent_loop_Suc agent_step_def)
  have "ad_response_mask d2 = []" using none d1 by (subst d2) simp
  moreover have "pad Right_Side [] R = Unpadded []" using assms(1) by (simp add: pads_to_max_def)
  moreover have "padded_tensors (pad side xs k) = Inl AttributeError \<or> (\<exists>y. padded_tensors (pad side xs k) = Inr y)" for side xs k
    by (cases "pad side xs k") (simp_all add: padded_tensors_def)
  ultimately have "agent_loop_postprocess pad zero P R (finalize cfg d2) extra raw_prompt reward metrics = Inl AttributeError"
    by (fastforce simp: agent_loop_postprocess_def finalize_def Let_def padded_tensors_def split: padded.splits)
  then show ?thesis using loop \<open>ad_response_mask d2 = []\<close>
    by (auto simp: agent_run_def finalize_def Let_def slice_from_minus last_n_def)
qed

text \<open>A padded output comes from an output that fits the widths, with this reward.\<close>

definition padded_from :: "padder \<Rightarrow> 'e \<Rightarrow> nat \<Rightarrow> nat \<Rightarrow> ('i, 'e, 'x) agent_output \<Rightarrow> (real \<times> 'x) option \<Rightarrow>
    ('e, 'x, 'm) padded_output \<Rightarrow> bool" where
  "padded_from pad zero P R out reward q \<longleftrightarrow> fits P R out \<and>
     (\<exists>extra raw_prompt metrics. agent_loop_postprocess pad zero P R out extra raw_prompt reward metrics = Inr q)"

lemma padded_score:
  assumes "pads_to_max pad_id pad" "padded_from pad zero P R out (Some (s, info)) q" "ao_response_ids out \<noteq> []"
  shows "po_score q = Some s \<and> put_score (length (po_response_mask q)) (sum_list (drop P (po_attention_mask q)) - 1) s =
    Inr ((replicate R 0)[length (ao_response_ids out) - 1 := s])"
proof -
  obtain extra raw_prompt metrics where q: "fits P R out"
    "agent_loop_postprocess pad zero P R out extra raw_prompt (Some (s, info)) metrics = Inr q"
    using assms(2) by (auto simp: padded_from_def)
  note f = postprocess_fields [OF assms(1) q]
  let ?p = "length (ao_prompt_ids out)" and ?r = "length (ao_response_ids out)"
  have w: "?p \<le> P" "?r \<le> R" "0 < ?r" using q(1) assms(3) by (simp_all add: fits_def)
  have "length (po_response_mask q) = R" using w q(1) unfolding f(6) by (simp add: fits_def)
  moreover have "sum_list (drop P (po_attention_mask q)) = int ?r"
    using w unfolding f(4) by (simp add: sum_list_replicate)
  moreover have "nat (int ?r - 1) = ?r - 1" by arith
  ultimately show ?thesis using w f(7) by (simp add: put_score_def Let_def)
qed

text \<open>The score of every trajectory stands at its last response token and the other tokens get 0.\<close>

theorem scores_on_last_token:
  assumes "pads_to_max pad_id pad"
    and "list_all2 (\<lambda>(out, s) q. ao_response_ids out \<noteq> [] \<and> (\<exists>info. padded_from pad zero P R out (Some (s, info)) q)) outs qs"
  shows "rm_scores P qs = Inr [(''rm_scores'',
    map (\<lambda>(out, s). Reals ((replicate R 0)[length (ao_response_ids out) - 1 := s])) outs)]"
proof -
  let ?row = "\<lambda>(out, s). (replicate R (0 :: real))[length (ao_response_ids out) - 1 := s]"
  from assms(2) have "(\<forall>q \<in> set qs. po_score q \<noteq> None) \<and>
    map_r (\<lambda>q. put_score (length (po_response_mask q)) (sum_list (drop P (po_attention_mask q)) - 1) (the (po_score q))) qs =
      Inr (map ?row outs)"
  proof (induction rule: list_all2_induct)
    case (Cons o1 os q qs)
    obtain out s info where o1: "o1 = (out, s)" and p: "padded_from pad zero P R out (Some (s, info)) q" "ao_response_ids out \<noteq> []"
      using Cons.hyps(1) by (cases o1) auto
    from padded_score [OF assms(1) p] Cons.IH show ?case by (simp add: o1)
  qed simp
  then show ?thesis by (simp add: rm_scores_def comp_def case_prod_unfold)
qed

lemma cat_rows_Inr: "cat_rows f rows = Inr t \<longleftrightarrow> (\<forall>r \<in> set rows. length r = length (hd rows)) \<and> t = map f rows"
  by (auto simp: cat_rows_def require_Inr)

lemma optional_rows_Inr:
  "optional_rows key f cs = Inr tab \<Longrightarrow> tab = [] \<or> (\<exists>t. tab = [(key, t)] \<and> length t = length cs)"
  by (auto simp: optional_rows_def bind_r_Inr cat_rows_Inr dest: length_map_r split: list.splits option.splits)

lemma rm_scores_Inr:
  "rm_scores P outs = Inr tab \<Longrightarrow> tab = [] \<or> (\<exists>t. tab = [(''rm_scores'', t)] \<and> length t = length outs)"
  by (auto simp: rm_scores_def bind_r_Inr dest: length_map_r split: if_splits)

lemma agent_non_tensor_keys:
  assumes "agent_non_tensor as_info hw nt0 outs = Inr (nt, keys)"
  shows "distinct (dict_keys nt)"
  using assms by (auto simp: agent_non_tensor_def Let_def bind_r_Inr dict_keys_def [symmetric]
      intro!: distinct_dict_update distinct_dict_set) (simp_all add: dict_keys_def)

lemma postprocess_ok:
  assumes res: "postprocess as_info atom hw nt0 outs = Inr d" and wf: "\<forall>q \<in> set outs. py_wf (po_metrics q)"
  shows "dp_ok d \<and> dp_len d = length outs \<and>
    (\<exists>b. dp_batch d = Some b \<and> map_of (td_items b) ''prompts'' = Some (map (\<lambda>q. Ids (po_prompt_ids q)) outs) \<and>
      map_of (td_items b) ''responses'' = Some (map (\<lambda>q. Ids (po_response_ids q)) outs) \<and>
      map_of (td_items b) ''response_mask'' = Some (map (\<lambda>q. Ids (po_response_mask q)) outs) \<and>
      map_of (td_items b) ''attention_mask'' = Some (map (\<lambda>q. Ids (po_attention_mask q)) outs))"
proof -
  from res obtain lps experts scores nt keys meta where
    c: "optional_rows ''rollout_log_probs'' Reals (map po_response_logprobs outs) = Inr lps"
      "optional_rows ''routed_experts'' Experts (map po_routed outs) = Inr experts"
      "rm_scores (length (po_prompt_ids (hd outs))) outs = Inr scores"
      "agent_non_tensor as_info hw nt0 outs = Inr (nt, keys)"
    and meta: "meta = [(''metrics'', PyList (map po_metrics outs))] @
      (if scores \<noteq> [] then [(''reward_extra_keys'', PyList (map (\<lambda>k. Atom (atom k)) keys))] else [])"
    and d: "mk_dp (Some \<lparr>td_size = length outs, td_items =
      [(''prompts'', map (\<lambda>q. Ids (po_prompt_ids q)) outs), (''responses'', map (\<lambda>q. Ids (po_response_ids q)) outs),
       (''response_mask'', map (\<lambda>q. Ids (po_response_mask q)) outs), (''input_ids'', map (\<lambda>q. Ids (po_input_ids q)) outs),
       (''attention_mask'', map (\<lambda>q. Ids (po_attention_mask q)) outs),
       (''position_ids'', map (\<lambda>q. Ids (po_position_ids q)) outs)] @ lps @ experts @ scores\<rparr>) nt meta = Inr d"
    by (auto simp: postprocess_def require_Inr bind_r_Inr cat_rows_Inr comp_def)
  note o_cols = optional_rows_Inr [OF c(1)] optional_rows_Inr [OF c(2)] rm_scores_Inr [OF c(3)]
  have "distinct (dict_keys meta) \<and> (\<forall>(k, v) \<in> set meta. py_wf v)"
    using wf by (simp add: meta dict_keys_def)
  moreover have "check_consistency d" and dd: "d = \<lparr>dp_batch = Some \<lparr>td_size = length outs, td_items =
      [(''prompts'', map (\<lambda>q. Ids (po_prompt_ids q)) outs), (''responses'', map (\<lambda>q. Ids (po_response_ids q)) outs),
       (''response_mask'', map (\<lambda>q. Ids (po_response_mask q)) outs), (''input_ids'', map (\<lambda>q. Ids (po_input_ids q)) outs),
       (''attention_mask'', map (\<lambda>q. Ids (po_attention_mask q)) outs),
       (''position_ids'', map (\<lambda>q. Ids (po_position_ids q)) outs)] @ lps @ experts @ scores\<rparr>,
     dp_non_tensor = nt, dp_meta = meta\<rparr>"
    using d by (auto simp: mk_dp_def require_Inr Let_def)
  moreover have "td_ok \<lparr>td_size = length outs, td_items =
      [(''prompts'', map (\<lambda>q. Ids (po_prompt_ids q)) outs), (''responses'', map (\<lambda>q. Ids (po_response_ids q)) outs),
       (''response_mask'', map (\<lambda>q. Ids (po_response_mask q)) outs), (''input_ids'', map (\<lambda>q. Ids (po_input_ids q)) outs),
       (''attention_mask'', map (\<lambda>q. Ids (po_attention_mask q)) outs),
       (''position_ids'', map (\<lambda>q. Ids (po_position_ids q)) outs)] @ lps @ experts @ scores\<rparr>"
    using o_cols by (elim disjE exE) (simp_all add: td_ok_def dict_keys_def)
  ultimately show ?thesis using agent_non_tensor_keys [OF c(4)]
    by (auto simp: dd dp_ok_def dp_len_def check_consistency_def)
qed

text \<open>A worker's batch is well-formed, has one row per prompt in their order, and each row holds the padded output of the
  agent loop run on that prompt with its own sampling parameters.\<close>

theorem generated_batch_rows:
  assumes res: "worker_generate_sequences as_info atom truthy run c loop hw step validate d = Inr d'"
    and wf: "\<And>p t kw q. run p t kw = Inr q \<Longrightarrow> py_wf (po_metrics q)"
  shows "dp_ok d' \<and> dp_len d' = dp_len d \<and>
    (\<exists>outs b. dp_batch d' = Some b \<and> map_of (td_items b) ''responses'' = Some (map (\<lambda>q. Ids (po_response_ids q)) outs) \<and>
      map_of (td_items b) ''response_mask'' = Some (map (\<lambda>q. Ids (po_response_mask q)) outs) \<and> length outs = dp_len d \<and>
      (\<forall>i < dp_len d. \<exists>t kw. run (row_sampling_params c validate
          (map_option (map truthy) (map_of (dp_non_tensor d) ''__do_sample__'')) i) t kw = Inr (outs ! i)))"
proof -
  let ?nt = "if ''agent_name'' \<in> set (dict_keys (dp_non_tensor d)) then dp_non_tensor d
    else dict_set ''agent_name'' (replicate (dp_len d) loop) (dp_non_tensor d)"
  have same: "map_of ?nt ''__do_sample__'' = map_of (dp_non_tensor d) ''__do_sample__''" by simp
  let ?p = "\<lambda>i. row_sampling_params c validate (map_option (map truthy) (map_of (dp_non_tensor d) ''__do_sample__'')) i"
  let ?f = "\<lambda>i. get_trajectory_info step (case map_of ?nt ''index'' of Some col \<Rightarrow> col | None \<Rightarrow> map Turns [0..<dp_len d]) validate ! i"
  let ?g = "\<lambda>i. map (\<lambda>(k, v). (k, v ! i)) (filter (\<lambda>(k, v). k \<noteq> ''__do_sample__'') ?nt)"
  obtain outs where outs: "map_r (\<lambda>i. run (?p i) (?f i) (?g i)) [0..<dp_len d] = Inr outs"
    and post: "postprocess as_info atom hw ?nt outs = Inr d'"
    using res unfolding worker_generate_sequences_def Let_def same by (simp only: bind_r_Inr) blast
  have run: "\<forall>i < dp_len d. run (?p i) (?f i) (?g i) = Inr (outs ! i)" and len: "length outs = dp_len d"
    using outs by (auto simp: map_r_Inr list_all2_conv_all_nth)
  have "\<forall>q \<in> set outs. py_wf (po_metrics q)"
    using wf [OF run [rule_format]] by (simp add: all_set_conv_all_nth len)
  from postprocess_ok [OF post this] obtain b where b: "dp_batch d' = Some b"
    "map_of (td_items b) ''responses'' = Some (map (\<lambda>q. Ids (po_response_ids q)) outs)"
    "map_of (td_items b) ''response_mask'' = Some (map (\<lambda>q. Ids (po_response_mask q)) outs)"
    and ok: "dp_ok d'" "dp_len d' = length outs" by blast
  have "\<forall>i < dp_len d. \<exists>t kw. run (?p i) t kw = Inr (outs ! i)" using run [rule_format] by (intro allI impI exI)
  then show ?thesis using b ok len by (intro conjI exI [of _ outs] exI [of _ b]) simp_all
qed

lemma rollout_numbers_nth:
  "length (rollout_numbers prev n ks) = length ks"
  "i < length ks \<Longrightarrow> rollout_numbers prev n ks ! i =
     (if i = 0 then (if prev = Some (ks ! 0) then n + 1 else 0)
      else if ks ! (i - 1) = ks ! i then rollout_numbers prev n ks ! (i - 1) + 1 else 0)"
proof -
  show "length (rollout_numbers prev n ks) = length ks"
    by (induction ks arbitrary: prev n) (simp_all add: Let_def)
  show "i < length ks \<Longrightarrow> rollout_numbers prev n ks ! i =
     (if i = 0 then (if prev = Some (ks ! 0) then n + 1 else 0)
      else if ks ! (i - 1) = ks ! i then rollout_numbers prev n ks ! (i - 1) + 1 else 0)"
  proof (induction ks arbitrary: prev n i)
    case (Cons k ks)
    show ?case
    proof (cases i)
      case (Suc j)
      then show ?thesis using Cons.IH [of j "Some k"] Cons.prems by (cases j) (auto simp: Let_def)
    qed (simp add: Let_def)
  qed simp
qed

text \<open>The rollout number of a trajectory counts the trajectories of the same prompt directly before it.\<close>

theorem rollout_number_counts:
  assumes "i < length index" and "tj_rollout_n (get_trajectory_info step index validate ! i) = n"
  shows "n \<le> i \<and> (\<forall>j \<le> n. index ! (i - j) = index ! i) \<and> (n < i \<longrightarrow> index ! (i - n - 1) \<noteq> index ! i)"
proof -
  let ?r = "rollout_numbers None 0 index"
  have r: "tj_rollout_n (get_trajectory_info step index validate ! i) = ?r ! i" if "i < length index" for i
    using that by (simp add: get_trajectory_info_def rollout_numbers_nth(1))
  have "?r ! i \<le> i \<and> (\<forall>j \<le> ?r ! i. index ! (i - j) = index ! i) \<and> (?r ! i < i \<longrightarrow> index ! (i - ?r ! i - 1) \<noteq> index ! i)"
    using assms(1)
  proof (induction i)
    case 0
    then show ?case using rollout_numbers_nth(2) [of 0 index None 0] by simp
  next
    case (Suc i)
    have s: "?r ! Suc i = (if index ! i = index ! Suc i then ?r ! i + 1 else 0)"
      using rollout_numbers_nth(2) [of "Suc i" index None 0] Suc.prems by simp
    show ?case
    proof (cases "index ! i = index ! Suc i")
      case True
      have "index ! (Suc i - j) = index ! Suc i" if "j \<le> ?r ! i + 1" for j
        using Suc that True by (cases j) auto
      then show ?thesis using Suc True s by (auto simp: Suc_diff_le)
    qed (use s in simp)
  qed
  then show ?thesis using r [OF assms(1)] assms(2) by simp
qed

section \<open>Examples\<close>

definition example_pad :: padder where
  "example_pad side xs n = (if xs = [] then Unpadded [] else case side of
       Left_Side \<Rightarrow> Tensors (replicate (n - length xs) 9 @ xs) (replicate (n - length xs) 0 @ replicate (length xs) 1)
     | Right_Side \<Rightarrow> Tensors (xs @ replicate (n - length xs) 9) (replicate (length xs) 1 @ replicate (n - length xs) 0))"

lemma example_pads: "pads_to_max 9 example_pad"
  by (simp add: pads_to_max_def example_pad_def)

definition padded_calling :: "(nat, nat, string) padded_output" where
  "padded_calling = \<lparr>po_prompt_ids = [9, 1, 2], po_response_ids = [11, 12, 8, 13, 9, 9],
     po_input_ids = [9, 1, 2, 11, 12, 8, 13, 9, 9], po_position_ids = [0, 0, 1, 2, 3, 4, 5, 5, 5],
     po_response_mask = [1, 1, 0, 1, 0, 0], po_attention_mask = [0, 1, 1, 1, 1, 1, 1, 0, 0],
     po_response_logprobs = Some [-1, -2, 0, -3, 0, 0], po_routed = None, po_score = Some (1 / 2), po_num_turns = 4,
     po_metrics = PyNone, po_extra = [(''raw_prompt'', 0), (''reward_extra_info'', 1)]\<rparr>"

lemma calling_padded:
  "agent_loop_postprocess example_pad 0 3 6 calling_output [] 0 (Some (1 / 2, 1)) PyNone = Inr padded_calling"
  by (simp add: agent_loop_postprocess_def padded_tensors_def example_pad_def calling_output_def padded_calling_def
      compute_position_id_with_mask_def Let_def dict_set_def upt_rec numeral_eq_Suc)

lemma calling_fits: "fits 3 6 calling_output"
  by (simp add: fits_def calling_output_def)

theorem padding_tokens_witness:
  "map fst (filter (\<lambda>(x, a). a = 1) (zip (po_input_ids padded_calling) (po_attention_mask padded_calling))) =
    ao_prompt_ids calling_output @ ao_response_ids calling_output"
  using padding_keeps_tokens [OF example_pads calling_fits _ calling_padded] by (simp add: calling_output_def)

theorem empty_answer_witness:
  "\<exists>out. agent_run 5 silent_env calling_cfg calling_tools None [0] None 0 = Some (Inr out, 1) \<and> ao_response_ids out = [1, 2] \<and> ao_response_mask out = [] \<and>
    agent_loop_postprocess example_pad 0 3 6 out [] 0 None (PyNone :: string pyval) = Inl AttributeError"
proof -
  have quiet: "parses_nothing_in_nothing silent_env" by (simp add: parses_nothing_in_nothing_def silent_env_def calling_env_def)
  have none: "go_ids (fst (ae_generate silent_env 0 p images)) = []" for p images by (simp add: silent_env_def)
  have run: "agent_run (3 + 2) silent_env calling_cfg calling_tools None [0] None 0 = Some (Inr silent_output, 1)"
    by (simp add: agent_exec silent_env_def calling_env_def calling_cfg_def calling_tools_def silent_output_def)
  obtain out w1 where "agent_run (3 + 2) silent_env calling_cfg calling_tools None [0] None 0 = Some (Inr out, w1)"
    "ao_response_ids out = take (ac_response_length calling_cfg) (ao_prompt_ids out)" "ao_response_mask out = []"
    "agent_loop_postprocess example_pad 0 3 6 out [] 0 None (PyNone :: string pyval) = Inl AttributeError"
    using empty_answer_fails_to_pad [OF example_pads quiet none] by blast
  moreover from this(1) have "out = silent_output" unfolding run by simp
  ultimately show ?thesis using run by (intro exI [of _ silent_output]) (simp add: silent_output_def calling_cfg_def)
qed

theorem scores_witness: "rm_scores 3 [padded_calling] = Inr [(''rm_scores'', [Reals [0, 0, 0, 1 / 2, 0, 0]])]"
proof -
  have "padded_from example_pad 0 3 6 calling_output (Some (1 / 2, 1)) padded_calling"
    using calling_padded calling_fits by (auto simp: padded_from_def)
  then have "list_all2 (\<lambda>(out, s) q. ao_response_ids out \<noteq> [] \<and> (\<exists>info. padded_from example_pad 0 3 6 out (Some (s, info)) q))
      [(calling_output, 1 / 2)] [padded_calling]"
    by (auto simp: calling_output_def)
  from scores_on_last_token [OF example_pads this] show ?thesis
    by (simp add: calling_output_def numeral_eq_Suc)
qed

definition one_prompt :: "(nat, nat agent_obj, string) data_proto" where
  "one_prompt = \<lparr>dp_batch = Some \<lparr>td_size = 1, td_items = [(''dummy'', [0])]\<rparr>,
     dp_non_tensor = [(''raw_prompt'', [Val 0])], dp_meta = []\<rparr>"

definition plain_sampling :: rollout_sampling where
  "plain_sampling = \<lparr>rs_temperature = 1, rs_top_p = 1, rs_top_k = -1, rs_val_temperature = 0, rs_val_top_p = 1,
     rs_val_top_k = -1, rs_calculate_log_probs = True\<rparr>"

lemma one_prompt_generated:
  "\<exists>d'. worker_generate_sequences (\<lambda>_. []) (\<lambda>k. k) (\<lambda>_. True) (\<lambda>_ _ _. Inr padded_calling) plain_sampling (Val 1) True
     0 False one_prompt = Inr d'"
  by (simp add: worker_generate_sequences_def one_prompt_def dp_len_def Let_def postprocess_def cat_rows_def
      optional_rows_def rm_scores_def put_score_def agent_non_tensor_def extra_keys_def padded_calling_def dict_keys_def
      mk_dp_def check_consistency_def dict_set_def dict_update_def)

theorem generated_batch_witness:
  "\<exists>d'. worker_generate_sequences (\<lambda>_. []) (\<lambda>k. k) (\<lambda>_. True) (\<lambda>_ _ _. Inr padded_calling) plain_sampling (Val (1 :: nat)) True
     0 False one_prompt = Inr d' \<and> dp_ok d' \<and> dp_len d' = 1"
proof -
  obtain d' where d': "worker_generate_sequences (\<lambda>_. []) (\<lambda>k. k) (\<lambda>_. True) (\<lambda>_ _ _. Inr padded_calling) plain_sampling
      (Val (1 :: nat)) True 0 False one_prompt = Inr d'"
    using one_prompt_generated by blast
  have "dp_ok d' \<and> dp_len d' = dp_len one_prompt"
    using generated_batch_rows [OF d'] by (auto simp: padded_calling_def)
  then show ?thesis using d' by (auto simp: one_prompt_def dp_len_def)
qed

theorem rollout_number_witness:
  "tj_rollout_n (get_trajectory_info 5 [3, 7, 7, 7 :: nat] False ! 3) = 2 \<and> [3, 7, 7, 7 :: nat] ! (3 - 2 - 1) \<noteq> 7"
proof -
  have "tj_rollout_n (get_trajectory_info 5 [3, 7, 7, 7 :: nat] False ! 3) = 2"
    by (simp add: get_trajectory_info_def Let_def numeral_eq_Suc)
  from rollout_number_counts [OF _ this] this show ?thesis by simp
qed

end
