(* ===== verification/Padding.thy ===== *)
theory Padding
  imports AgentBatch
begin

text \<open>
  From padded batches to the ragged tensors the engines work on, and back (\<^verbatim>\<open>verl/workers/utils/padding.py\<close>).
  A nested tensor is the list of its rows, its values their concatenation. \<open>unpad_input\<close> and
  \<open>index_first_axis\<close> are functions of flash-attn and parameters here; \<open>unpads\<close> and \<open>gathers\<close> state their
  documented behaviour. Teacher tensors, which are treated like the routed experts, are left out.
\<close>

section \<open>Removing the padding\<close>

definition attended :: "'a list \<Rightarrow> int list \<Rightarrow> 'a list" where
  "attended xs att = map fst (filter (\<lambda>(x, a). a \<noteq> 0) (zip xs att))"

text \<open>Values, indices into the flattened batch and cumulative lengths.\<close>

type_synonym 'a unpadder = "'a list list \<Rightarrow> int list list \<Rightarrow> 'a list \<times> nat list \<times> nat list"

fun offsets_from :: "nat \<Rightarrow> 'a list list \<Rightarrow> nat list" where
  "offsets_from n [] = [n]"
| "offsets_from n (row # rows) = n # offsets_from (n + length row) rows"

definition unpads :: "'a unpadder \<Rightarrow> bool" where
  "unpads unpad \<longleftrightarrow> (\<forall>X M. map length X = map length M \<longrightarrow>
     unpad X M = (concat (map2 attended X M), attended [0..<length (concat M)] (concat M), offsets_from 0 (map2 attended X M)))"

definition gathers :: "('a list \<Rightarrow> nat list \<Rightarrow> 'a list) \<Rightarrow> bool" where
  "gathers gather \<longleftrightarrow> (\<forall>xs is. gather xs is = map (\<lambda>i. xs ! i) is)"

text \<open>\<open>torch.nested.nested_tensor_from_jagged\<close>.\<close>

fun nested_from_jagged :: "'a list \<Rightarrow> nat list \<Rightarrow> 'a list list" where
  "nested_from_jagged values (a # b # offs) = take (b - a) (drop a values) # nested_from_jagged values (b # offs)"
| "nested_from_jagged values offs = []"

record 'e padded_td =
  pt_prompts :: "int list list"
  pt_responses :: "int list list"
  pt_input_ids :: "int list list"
  pt_attention_mask :: "int list list"
  pt_response_mask :: "int list list"
  pt_position_ids :: "int list list"
  pt_routed :: "'e list list option"

record 'e nested_td = "'e padded_td" +
  nt_loss_mask :: "int list list"
  nt_max_seq_len :: nat
  nt_max_response_len :: nat
  nt_indices :: "nat list"

definition left_right_2_no_padding :: "int unpadder \<Rightarrow> ('e list \<Rightarrow> nat list \<Rightarrow> 'e list) \<Rightarrow> 'e padded_td \<Rightarrow> 'e nested_td" where
  "left_right_2_no_padding unpad gather d =
     (let (values, indices, cu_seqlens) = unpad (pt_input_ids d) (pt_attention_mask d)
      in \<lparr>pt_prompts = pt_prompts d, pt_responses = pt_responses d,
          pt_input_ids = nested_from_jagged values cu_seqlens,
          pt_attention_mask = pt_attention_mask d, pt_response_mask = pt_response_mask d,
          pt_position_ids = map2 attended (pt_position_ids d) (pt_attention_mask d),
          pt_routed = map_option (\<lambda>es. nested_from_jagged (gather (concat es) indices) cu_seqlens) (pt_routed d),
          nt_loss_mask = pt_response_mask d,
          nt_max_seq_len = (case pt_input_ids d of [] \<Rightarrow> 0 | row # _ \<Rightarrow> length row),
          nt_max_response_len = (case pt_response_mask d of [] \<Rightarrow> 0 | row # _ \<Rightarrow> length row),
          nt_indices = indices\<rparr>)"

section \<open>Bringing the padding back\<close>

text \<open>The loop over the sequences: \<open>values[off - r - 1 : off - 1]\<close>, padded (or cut) to the width.\<close>

fun response_slices :: "'a \<Rightarrow> nat \<Rightarrow> 'a list \<Rightarrow> nat list \<Rightarrow> nat list \<Rightarrow> 'a list list" where
  "response_slices zero width values (r # rs) (off # offs) =
     take width (take r (drop (off - r - 1) values) @ replicate (width - r) zero) # response_slices zero width values rs offs"
| "response_slices zero width values rs offs = []"

fun cumsum_from :: "nat \<Rightarrow> nat list \<Rightarrow> nat list" where
  "cumsum_from n [] = []"
| "cumsum_from n (x # xs) = (n + x) # cumsum_from (n + x) xs"

definition slice_responses :: "'a \<Rightarrow> nat \<Rightarrow> 'a list \<Rightarrow> nat list \<Rightarrow> nat list \<Rightarrow> 'a list list result" where
  "slice_responses zero width values prompt_lens response_lens =
     require (prompt_lens \<noteq> []) IndexError
      (require (sum_list prompt_lens + sum_list response_lens = length values) AssertionError
        (require (0 \<notin> set prompt_lens) AssertionError
          (Inr (response_slices zero width values response_lens (cumsum_from 0 (map2 (+) prompt_lens response_lens))))))"

definition count_ones :: "int list \<Rightarrow> nat" where
  "count_ones att = nat (sum_list att)"

definition no_padding_2_padding :: "'a \<Rightarrow> 'a list \<Rightarrow> ('e, 'z) padded_td_scheme \<Rightarrow> 'a list list result" where
  "no_padding_2_padding zero values d =
     (let width = (case pt_prompts d of [] \<Rightarrow> 0 | row # _ \<Rightarrow> length row)
      in slice_responses zero (case pt_responses d of [] \<Rightarrow> 0 | row # _ \<Rightarrow> length row) values
           (map (\<lambda>att. count_ones (take width att)) (pt_attention_mask d))
           (map (\<lambda>att. count_ones (drop width att)) (pt_attention_mask d)))"

text \<open>The branch of nested prompts and responses, whose width is the stored one or the longest response.\<close>

definition nested_2_padding :: "'a \<Rightarrow> 'a list \<Rightarrow> int list list \<Rightarrow> int list list \<Rightarrow> nat option \<Rightarrow> 'a list list result" where
  "nested_2_padding zero values prompts responses stored_width =
     slice_responses zero (case stored_width of Some n \<Rightarrow> n | None \<Rightarrow> fold max (map length responses) 0) values
       (map length prompts) (map length responses)"

definition response_from_nested :: "'a list list \<Rightarrow> 'b list list \<Rightarrow> 'a list list" where
  "response_from_nested rows response_mask =
     map2 (\<lambda>r off. take r (drop (off - r - 1) (concat rows)))
       (map length response_mask) (cumsum_from 0 (map length rows))"

definition response_to_nested :: "'a list list \<Rightarrow> 'b list list \<Rightarrow> 'a list list" where
  "response_to_nested padded response_mask = map2 (\<lambda>row m. take (length m) row) padded response_mask"

text \<open>\<open>embeds_padding_2_no_padding\<close> for the embeddings of prompts.\<close>

definition to_nested :: "'v list list \<Rightarrow> int list list \<Rightarrow> 'v list list \<times> bool list list" where
  "to_nested embeds masks = (map2 attended embeds masks, map (\<lambda>m. attended (map (\<lambda>a. a \<noteq> 0) m) m) masks)"

definition embeds_padding_2_no_padding ::
    "('v list list \<times> int list list) \<times> ('v list list \<times> int list list) option \<Rightarrow>
      ('v list list \<times> bool list list) \<times> ('v list list \<times> bool list list) option" where
  "embeds_padding_2_no_padding = (\<lambda>((e, m), negative).
     (to_nested e m, map_option (\<lambda>(ne, nm). to_nested ne nm) negative))"

section \<open>Facts\<close>

lemma offsets_from_Cons: "\<exists>offs. offsets_from n rows = n # offs"
  by (cases rows) simp_all

lemma nested_from_offsets:
  "nested_from_jagged (pre @ concat rows) (offsets_from (length pre) rows) = rows"
proof (induction rows arbitrary: pre)
  case (Cons row rows)
  obtain offs where offs: "offsets_from (length pre + length row) rows = (length pre + length row) # offs"
    using offsets_from_Cons by blast
  show ?case using Cons.IH [of "pre @ row"] by (simp add: offs)
qed simp

lemma response_slices_rows:
  assumes "list_all2 (\<lambda>r row. r < length row) rs rows" "\<forall>r \<in> set rs. r \<le> width"
  shows "response_slices zero width (pre @ concat rows) rs (cumsum_from (length pre) (map length rows)) =
    map2 (\<lambda>r row. take r (drop (length row - r - 1) row) @ replicate (width - r) zero) rs rows"
  using assms
proof (induction arbitrary: pre rule: list_all2_induct)
  case (Cons r rs row rows)
  let ?k = "length row - r - 1"
  have k: "length pre + length row - r - 1 = length pre + ?k" "?k + r \<le> length row" using Cons.hyps(1) by simp_all
  have head: "take r (drop (length pre + length row - r - 1) (pre @ row @ concat rows)) = take r (drop ?k row)"
    unfolding k(1) using k(2) by simp
  have len: "length (take r (drop ?k row)) = r" using k(2) by simp
  have "take width (take r (drop ?k row) @ replicate (width - r) zero) = take r (drop ?k row) @ replicate (width - r) zero"
    using len Cons.prems by simp
  with head Cons.IH [of "pre @ row"] Cons.prems show ?case by simp
qed simp

lemma length_attended: "length (attended xs att) = length (filter (\<lambda>a. a \<noteq> 0) att)" if "length xs = length att"
  using that unfolding attended_def by (induction xs att rule: list_induct2) auto

lemma attended_append: "length xs = length as \<Longrightarrow> attended (xs @ ys) (as @ bs) = attended xs as @ attended ys bs"
  by (simp add: attended_def)

lemma attended_const [simp]:
  "length xs = n \<Longrightarrow> attended xs (replicate n 1) = xs" "length xs = n \<Longrightarrow> attended xs (replicate n 0) = []"
  unfolding attended_def by (induction xs arbitrary: n) auto

lemma sum_list_counts [simp]: "count_ones (replicate n 0 @ replicate m 1) = m" "count_ones (replicate m 1 @ replicate n 0) = m"
  by (simp_all add: count_ones_def sum_list_replicate)

text \<open>The padded batch of a list of prompts and responses, as \<open>agent_loop_postprocess\<close> lays it out.\<close>

definition holds_rows :: "int \<Rightarrow> nat \<Rightarrow> nat \<Rightarrow> (int list \<times> int list) list \<Rightarrow> 'e padded_td \<Rightarrow> bool" where
  "holds_rows pad_id P R prs d \<longleftrightarrow>
     (\<forall>(p, r) \<in> set prs. length p \<le> P \<and> length r \<le> R) \<and>
     pt_prompts d = map (\<lambda>(p, r). replicate (P - length p) pad_id @ p) prs \<and>
     pt_responses d = map (\<lambda>(p, r). r @ replicate (R - length r) pad_id) prs \<and>
     pt_input_ids d = map (\<lambda>(p, r). replicate (P - length p) pad_id @ (p @ r) @ replicate (R - length r) pad_id) prs \<and>
     pt_attention_mask d = map (\<lambda>(p, r). replicate (P - length p) 0 @ replicate (length (p @ r)) 1 @ replicate (R - length r) 0) prs"

lemma nested_ids:
  assumes "unpads unpad" "holds_rows pad_id P R prs d"
  shows "pt_input_ids (left_right_2_no_padding unpad gather d) = map (\<lambda>(p, r). p @ r) prs"
proof -
  have row: "attended (replicate a x @ ys @ replicate b y) (replicate a 0 @ replicate (length ys) 1 @ replicate b 0) = ys"
    for a b x y and ys :: "int list"
    by (simp add: attended_append)
  have row': "attended (replicate a x @ p @ r @ replicate b y) (replicate a 0 @ replicate (length p + length r) 1 @ replicate b 0) = p @ r"
    for a b x y and p r :: "int list"
    using row [of a x "p @ r" b y] by simp
  have "map2 attended (pt_input_ids d) (pt_attention_mask d) = map (\<lambda>(p, r). p @ r) prs"
    using assms(2) by (auto simp: holds_rows_def map2_map_map row')
  moreover have "map length (pt_input_ids d) = map length (pt_attention_mask d)"
    using assms(2) by (auto simp: holds_rows_def)
  ultimately show ?thesis using assms(1) nested_from_offsets [of "[]" "map (\<lambda>(p, r). p @ r) prs"]
    by (simp add: left_right_2_no_padding_def unpads_def)
qed

lemma slice_responses_rows:
  assumes "rows \<noteq> []" "list_all2 (\<lambda>r row. r < length row) rs rows" "\<forall>r \<in> set rs. r \<le> width"
  shows "slice_responses zero width (concat rows) (map2 (\<lambda>r row. length row - r) rs rows) rs =
    Inr (map2 (\<lambda>r row. take r (drop (length row - r - 1) row) @ replicate (width - r) zero) rs rows)"
proof -
  let ?ps = "map2 (\<lambda>r row. length row - r) rs rows"
  have "map2 (+) ?ps rs = map length rows \<and> sum_list ?ps + sum_list rs = length (concat rows) \<and> 0 \<notin> set ?ps"
    using assms(2) by (induction rule: list_all2_induct) auto
  moreover have "?ps \<noteq> []" using assms(1,2) by (cases rows; cases rs) auto
  ultimately show ?thesis using response_slices_rows [OF assms(2,3), of zero "[]"]
    by (simp add: slice_responses_def)
qed

text \<open>C37 The model scores, in a row without padding, every token by the tokens before it; the value at the last position is not
  used. Then after padding again, the value at response token t is the score of that token given the prompt
  and the response tokens before it, and padding gets 0.\<close>

theorem response_log_probs_aligned:
  assumes "unpads unpad" and d: "holds_rows pad_id P R prs d" and ne: "prs \<noteq> []" "\<forall>(p, r) \<in> set prs. p \<noteq> []"
    and outs: "outs = map (\<lambda>row. map (\<lambda>j. lp (take (Suc j) row) (row ! Suc j)) [0..<length row - 1] @ [last_value row])
      (pt_input_ids (left_right_2_no_padding unpad gather d))"
  shows "no_padding_2_padding (0 :: real) (concat outs) (left_right_2_no_padding unpad gather d) =
    Inr (map (\<lambda>(p, r). map (\<lambda>t. lp (p @ take t r) (r ! t)) [0..<length r] @ replicate (R - length r) 0) prs)"
proof -
  let ?n = "left_right_2_no_padding unpad gather d"
  let ?out = "\<lambda>row. map (\<lambda>j. lp (take (Suc j) row) (row ! Suc j)) [0..<length row - 1] @ [last_value row]"
  have fields: "pt_prompts ?n = pt_prompts d" "pt_responses ?n = pt_responses d" "pt_attention_mask ?n = pt_attention_mask d"
    by (simp_all add: left_right_2_no_padding_def split: prod.splits)
  have o1: "outs = map (\<lambda>(p, r). ?out (p @ r)) prs" unfolding outs nested_ids [OF assms(1) d] by auto
  obtain p0 r0 rest where cons: "prs = (p0, r0) # rest" using ne(1) by (cases prs) auto
  have fit: "\<forall>(p, r) \<in> set prs. length p \<le> P \<and> length r \<le> R \<and> p \<noteq> []" using d ne(2) by (auto simp: holds_rows_def)
  have w: "(case pt_prompts d of [] \<Rightarrow> 0 | row # _ \<Rightarrow> length row) = P" "(case pt_responses d of [] \<Rightarrow> 0 | row # _ \<Rightarrow> length row) = R"
    using d fit by (auto simp: holds_rows_def cons)
  have rl: "map (\<lambda>att. count_ones (drop P att)) (pt_attention_mask d) = map (\<lambda>(p, r). length r) prs"
    using d fit by (auto simp: holds_rows_def)
  have "length (?out (p @ r)) - length r = length p" if "p \<noteq> []" for p r :: "int list"
    using that by (cases p) auto
  then have pl: "map (\<lambda>att. count_ones (take P att)) (pt_attention_mask d) =
      map2 (\<lambda>r row. length row - r) (map (\<lambda>(p, r). length r) prs) outs"
    using d fit unfolding o1 by (auto simp: holds_rows_def zip_map_map zip_same_conv_map)
  have longer: "length r < Suc (length p + length r - Suc 0)" if "p \<noteq> []" for p r :: "int list"
    using that by (cases p) auto
  have all: "list_all2 (\<lambda>r row. r < length row) (map (\<lambda>(p, r). length r) prs) outs" "\<forall>n \<in> set (map (\<lambda>(p, r). length r) prs). n \<le> R"
    using fit unfolding o1 by (auto simp: list_all2_map1 list_all2_map2 list_all2_same longer)
  have row: "take (length r) (drop (length (?out (p @ r)) - length r - 1) (?out (p @ r))) = map (\<lambda>t. lp (p @ take t r) (r ! t)) [0..<length r]"
    if "p \<noteq> []" for p r
  proof (rule nth_equalityI)
    show "length (take (length r) (drop (length (?out (p @ r)) - length r - 1) (?out (p @ r)))) =
        length (map (\<lambda>t. lp (p @ take t r) (r ! t)) [0..<length r])"
      using that by (cases p) auto
    fix i
    assume "i < length (take (length r) (drop (length (?out (p @ r)) - length r - 1) (?out (p @ r))))"
    then have i: "i < length r" by simp
    from that obtain a q where p: "p = a # q" by (cases p) auto
    show "take (length r) (drop (length (?out (p @ r)) - length r - 1) (?out (p @ r))) ! i =
        map (\<lambda>t. lp (p @ take t r) (r ! t)) [0..<length r] ! i"
      using i by (simp add: p nth_append)
  qed
  have "no_padding_2_padding 0 (concat outs) ?n =
      slice_responses 0 R (concat outs) (map2 (\<lambda>r row. length row - r) (map (\<lambda>(p, r). length r) prs) outs) (map (\<lambda>(p, r). length r) prs)"
    unfolding no_padding_2_padding_def fields Let_def w rl pl by simp
  also have "\<dots> = Inr (map2 (\<lambda>r row. take r (drop (length row - r - 1) row) @ replicate (R - r) 0) (map (\<lambda>(p, r). length r) prs) outs)"
    by (rule slice_responses_rows [OF _ all]) (simp add: o1 cons)
  also have "map2 (\<lambda>r row. take r (drop (length row - r - 1) row) @ replicate (R - r) 0) (map (\<lambda>(p, r). length r) prs) outs =
      map (\<lambda>(p, r). map (\<lambda>t. lp (p @ take t r) (r ! t)) [0..<length r] @ replicate (R - length r) 0) prs"
    unfolding o1 map2_map_map
  proof (rule map_cong [OF refl])
    fix x
    assume "x \<in> set prs"
    moreover obtain p r where x: "x = (p, r)" by (cases x)
    ultimately have p: "p \<noteq> []" using ne(2) by auto
    show "(take (case x of (p, r) \<Rightarrow> length r) (drop (length (case x of (p, r) \<Rightarrow> ?out (p @ r)) - (case x of (p, r) \<Rightarrow> length r) - 1)
        (case x of (p, r) \<Rightarrow> ?out (p @ r))) @ replicate (R - (case x of (p, r) \<Rightarrow> length r)) 0) =
      (case x of (p, r) \<Rightarrow> map (\<lambda>t. lp (p @ take t r) (r ! t)) [0..<length r] @ replicate (R - length r) 0)"
      unfolding x prod.case by (rule arg_cong [OF row [OF p], of "\<lambda>z. z @ replicate (R - length r) 0"])
  qed
  finally show ?thesis .
qed

text \<open>The two ways of taking the responses out of a ragged output agree: slicing to a padded tensor and dropping the padding
  again is slicing to a ragged tensor.\<close>

theorem response_slicings_agree:
  assumes rows: "rows \<noteq> []" "list_all2 (\<lambda>m row. length m < length row) response_mask rows" and w: "\<forall>m \<in> set response_mask. length m \<le> width"
  shows "\<exists>padded. slice_responses zero width (concat rows) (map2 (\<lambda>m row. length row - length m) response_mask rows)
      (map length response_mask) = Inr padded \<and> (\<forall>row \<in> set padded. length row = width) \<and>
    response_to_nested padded response_mask = response_from_nested rows response_mask"
proof -
  let ?rs = "map length response_mask"
  let ?padded = "map2 (\<lambda>r row. take r (drop (length row - r - 1) row) @ replicate (width - r) zero) ?rs rows"
  have all: "list_all2 (\<lambda>r row. r < length row) ?rs rows" "\<forall>r \<in> set ?rs. r \<le> width"
    using rows(2) w by (simp_all add: list_all2_conv_all_nth)
  have e1: "slice_responses zero width (concat rows) (map2 (\<lambda>m row. length row - length m) response_mask rows) ?rs = Inr ?padded"
    using slice_responses_rows [OF rows(1) all] by (simp add: zip_map1 comp_def case_prod_unfold)
  have e2: "\<forall>row \<in> set ?padded. length row = width"
    using rows(2) w by (auto simp: set_zip list_all2_conv_all_nth)
  have e3: "response_to_nested ?padded response_mask = map2 (\<lambda>m row. take (length m) (drop (length row - length m - 1) row)) response_mask rows"
    using rows(2) unfolding response_to_nested_def by (induction rule: list_all2_induct) auto
  have "map2 (\<lambda>r off. take r (drop (off - r - 1) (pre @ concat rows))) ?rs (cumsum_from (length pre) (map length rows)) =
      map2 (\<lambda>m row. take (length m) (drop (length row - length m - 1) row)) response_mask rows" for pre
    using rows(2)
  proof (induction arbitrary: pre rule: list_all2_induct)
    case (Cons m ms row rows)
    let ?k = "length row - length m - 1"
    have k: "length pre + length row - length m - 1 = length pre + ?k" "?k + length m \<le> length row" using Cons.hyps(1) by simp_all
    have "take (length m) (drop (length pre + length row - length m - 1) (pre @ row @ concat rows)) = take (length m) (drop ?k row)"
      unfolding k(1) using k(2) by simp
    with Cons.IH [of "pre @ row"] show ?case by simp
  qed simp
  from this [of "[]"] have e4: "response_from_nested rows response_mask =
      map2 (\<lambda>m row. take (length m) (drop (length row - length m - 1) row)) response_mask rows"
    by (simp add: response_from_nested_def)
  show ?thesis
    by (rule exI [of _ ?padded], intro conjI, fact e1, fact e2) (simp only: e3 e4)
qed

lemma response_log_probs_witness:
  "no_padding_2_padding (0 :: real) [5, 6, 100]
      (left_right_2_no_padding (\<lambda>X M. (concat (map2 attended X M), attended [0..<length (concat M)] (concat M), offsets_from 0 (map2 attended X M)))
        (\<lambda>xs is. map (\<lambda>i. xs ! i) is :: int list)
        \<lparr>pt_prompts = [[0, 1]], pt_responses = [[5, 6, 0]], pt_input_ids = [[0, 1, 5, 6, 0]],
          pt_attention_mask = [[0, 1, 1, 1, 0]], pt_response_mask = [[1, 1, 0]], pt_position_ids = [[0, 0, 1, 2, 2]], pt_routed = None\<rparr>) =
    Inr [[5, 6, 0]]"
proof -
  let ?unpad = "\<lambda>X M. (concat (map2 attended X M), attended [0..<length (concat M)] (concat M), offsets_from 0 (map2 attended X M))"
  let ?gather = "\<lambda>xs is. map (\<lambda>i. xs ! i) is :: int list"
  let ?d = "\<lparr>pt_prompts = [[0, 1]], pt_responses = [[5, 6, 0]], pt_input_ids = [[0, 1, 5, 6, 0]],
          pt_attention_mask = [[0, 1, 1, 1, 0]], pt_response_mask = [[1, 1, 0]], pt_position_ids = [[0, 0, 1, 2, 2]], pt_routed = None\<rparr>"
  have u: "unpads ?unpad" by (simp add: unpads_def)
  have h: "holds_rows 0 2 3 [([1], [5, 6])] ?d" by (simp add: holds_rows_def numeral_eq_Suc)
  have ids: "pt_input_ids (left_right_2_no_padding ?unpad ?gather ?d) = [[1, 5, 6]]" unfolding nested_ids [OF u h] by simp
  show ?thesis
    using response_log_probs_aligned [OF u h, of _ "\<lambda>ps t. real_of_int t" "\<lambda>_. 100" ?gather, OF _ _ refl]
    unfolding ids by (simp add: numeral_eq_Suc upt_rec)
qed

lemma response_slicings_witness:
  "\<exists>padded. slice_responses (0 :: nat) 3 (concat [[7, 8, 9], [4, 5]]) (map2 (\<lambda>m row. length row - length m) [[1, 1], [1 :: nat]] [[7, 8, 9 :: nat], [4, 5]])
      (map length [[1, 1], [1 :: nat]]) = Inr padded \<and> (\<forall>row \<in> set padded. length row = 3) \<and>
    response_to_nested padded [[1, 1], [1 :: nat]] = response_from_nested [[7, 8, 9], [4, 5]] [[1, 1], [1 :: nat]]"
  by (rule response_slicings_agree) simp_all

end
