(* ===== verification/FitLoop.thy ===== *)
theory FitLoop
  imports Checkpoint
begin

text \<open>
  The training loop of \<open>RayPPOTrainer\<close> (\<^verbatim>\<open>verl/trainer/ppo/ray_trainer.py\<close>: \<open>fit\<close>, \<open>_save_checkpoint\<close>,
  \<open>_load_checkpoint\<close>): which weights generate, when models are updated, saved, sent to the rollout replicas
  and validated, and where a resumed run continues. What a step computes from a batch is a parameter
  (\<open>fit_env\<close>); \<open>PPOStep\<close> models it. The state holds the parameters of actor and critic, the KL controller,
  the weights in the replicas (None while they sleep), the position of the data loader, the checkpoints on
  disk and a trace of what was done. Profiling, logging and asynchronous saving are left out.
\<close>

section \<open>State\<close>

text \<open>The stateful data loader: how often it has been iterated before, and the batches given out since.\<close>

record loader =
  ld_iteration :: nat
  ld_given :: nat

record ('a, 'c) checkpoint =
  cp_actor :: 'a
  cp_critic :: "'c option"
  cp_loader :: "loader option"

datatype ('a, 'b) fit_event =
    Generated nat 'a 'b
  | Slept
  | Sent nat 'a
  | Critic_Updated nat
  | Actor_Updated nat 'a
  | Saved nat
  | Validated nat 'a
  | Logged nat nat

record ('a, 'c, 'k, 'b) driver =
  dr_steps :: nat
  dr_actor :: 'a
  dr_critic :: 'c
  dr_kl :: 'k
  dr_served :: "'a option"
  dr_loader :: loader
  dr_ckpts :: "(nat, ('a, 'c) checkpoint) dict"
  dr_latest :: "nat option"
  dr_trace :: "('a, 'b) fit_event list"

record ppo_config =
  fc_total_epochs :: nat
  fc_total_steps :: "int option"
  fc_save_freq :: int
  fc_test_freq :: int
  fc_critic_warmup :: int
  fc_val_before_train :: bool
  fc_val_only :: bool
  fc_use_critic :: bool
  fc_async_save :: bool
  fc_val_rewards_colocated :: bool

text \<open>The batches of every iteration of the data loader, the number of validation batches, the responses that weights
  generate, the training data a step derives from them (with the new state of the KL controller), the two
  updates, and whether the instance is about to expire.\<close>

record ('a, 'c, 'k, 'b, 'r, 'd) fit_env =
  fe_order :: "nat \<Rightarrow> 'b list"
  fe_val_batches :: nat
  fe_rollout :: "'a \<Rightarrow> nat \<Rightarrow> 'b \<Rightarrow> 'r"
  fe_prepare :: "'k \<Rightarrow> 'a \<Rightarrow> 'c \<Rightarrow> 'r \<Rightarrow> 'd \<times> 'k"
  fe_update_critic :: "'d \<Rightarrow> 'c \<Rightarrow> 'c"
  fe_update_actor :: "'d \<Rightarrow> 'a \<Rightarrow> 'a"
  fe_esi :: "nat \<Rightarrow> bool"

definition loader_len :: "('a, 'c, 'k, 'b, 'r, 'd) fit_env \<Rightarrow> nat" where
  "loader_len E = length (fe_order E 0)"

definition total_training_steps :: "ppo_config \<Rightarrow> ('a, 'c, 'k, 'b, 'r, 'd) fit_env \<Rightarrow> int" where
  "total_training_steps cfg E =
     (case fc_total_steps cfg of Some n \<Rightarrow> n | None \<Rightarrow> int (loader_len E * fc_total_epochs cfg))"

section \<open>Parts of a step\<close>

definition add_event :: "('a, 'b) fit_event \<Rightarrow> ('a, 'c, 'k, 'b) driver \<Rightarrow> ('a, 'c, 'k, 'b) driver" where
  "add_event e s = s\<lparr>dr_trace := dr_trace s @ [e]\<rparr>"

text \<open>\<open>checkpoint_manager.sleep_replicas\<close> and \<open>update_weights\<close>; the latter also wakes the replicas.\<close>

definition sleep_replicas :: "('a, 'c, 'k, 'b) driver \<Rightarrow> ('a, 'c, 'k, 'b) driver" where
  "sleep_replicas s = add_event Slept (s\<lparr>dr_served := None\<rparr>)"

definition update_weights :: "('a, 'c, 'k, 'b) driver \<Rightarrow> ('a, 'c, 'k, 'b) driver" where
  "update_weights s = add_event (Sent (dr_steps s) (dr_actor s)) (s\<lparr>dr_served := Some (dr_actor s)\<rparr>)"

text \<open>Sleeping replicas answer no request.\<close>

definition generate_step :: "('a, 'c, 'k, 'b, 'r, 'd) fit_env \<Rightarrow> 'b \<Rightarrow> ('a, 'c, 'k, 'b) driver \<Rightarrow>
    ('r \<times> ('a, 'c, 'k, 'b) driver) result" where
  "generate_step E b s = (case dr_served s of
       None \<Rightarrow> Inl RuntimeError
     | Some w \<Rightarrow> Inr (fe_rollout E w (dr_steps s) b, sleep_replicas (add_event (Generated (dr_steps s) w b) s)))"

text \<open>\<open>_validate\<close>, batch by batch.\<close>

fun run_validation :: "ppo_config \<Rightarrow> nat \<Rightarrow> ('a, 'c, 'k, 'b) driver \<Rightarrow> ('a, 'c, 'k, 'b) driver result" where
  "run_validation cfg 0 s = Inr s"
| "run_validation cfg (Suc n) s = (case dr_served s of
       None \<Rightarrow> Inl RuntimeError
     | Some w \<Rightarrow>
         (let s1 = add_event (Validated (dr_steps s) w) s
          in run_validation cfg n (if fc_val_rewards_colocated cfg then update_weights (sleep_replicas s1) else s1)))"

definition save_driver :: "ppo_config \<Rightarrow> ('a, 'c, 'k, 'b) driver \<Rightarrow> ('a, 'c, 'k, 'b) driver" where
  "save_driver cfg s =
     add_event (Saved (dr_steps s))
       (s\<lparr>dr_ckpts := dict_set (dr_steps s)
             \<lparr>cp_actor = dr_actor s, cp_critic = (if fc_use_critic cfg then Some (dr_critic s) else None),
              cp_loader = Some (dr_loader s)\<rparr> (dr_ckpts s),
          dr_latest := (if fc_async_save cfg then dr_latest s else Some (dr_steps s))\<rparr>)"

definition should_save :: "ppo_config \<Rightarrow> ('a, 'c, 'k, 'b, 'r, 'd) fit_env \<Rightarrow> nat \<Rightarrow> bool" where
  "should_save cfg E g \<longleftrightarrow> 0 < fc_save_freq cfg \<and>
     (total_training_steps cfg E \<le> int g \<or> int g mod fc_save_freq cfg = 0 \<or> fe_esi E g)"

definition should_validate :: "ppo_config \<Rightarrow> ('a, 'c, 'k, 'b, 'r, 'd) fit_env \<Rightarrow> nat \<Rightarrow> bool" where
  "should_validate cfg E g \<longleftrightarrow> 0 < fc_test_freq cfg \<and>
     (total_training_steps cfg E \<le> int g \<or> int g mod fc_test_freq cfg = 0)"

definition update_models :: "ppo_config \<Rightarrow> ('a, 'c, 'k, 'b, 'r, 'd) fit_env \<Rightarrow> 'r \<Rightarrow> ('a, 'c, 'k, 'b) driver \<Rightarrow>
    ('a, 'c, 'k, 'b) driver" where
  "update_models cfg E r s =
     (let g = dr_steps s;
          (d, kl) = fe_prepare E (dr_kl s) (dr_actor s) (dr_critic s) r;
          s1 = s\<lparr>dr_kl := kl\<rparr>;
          s2 = (if fc_use_critic cfg
                then add_event (Critic_Updated g) (s1\<lparr>dr_critic := fe_update_critic E d (dr_critic s1)\<rparr>) else s1)
      in if int g < fc_critic_warmup cfg then update_weights s2
         else (let a = fe_update_actor E d (dr_actor s2);
                   s3 = add_event (Actor_Updated g a) (s2\<lparr>dr_actor := a\<rparr>)
               in update_weights (if should_save cfg E g then save_driver cfg s3 else s3)))"

text \<open>One pass through the body of the loop; the loader has given out the batch.\<close>

definition train_step :: "ppo_config \<Rightarrow> ('a, 'c, 'k, 'b, 'r, 'd) fit_env \<Rightarrow> nat \<Rightarrow> 'b \<Rightarrow> ('a, 'c, 'k, 'b) driver \<Rightarrow>
    ('a, 'c, 'k, 'b) driver result" where
  "train_step cfg E epoch b s =
     (let s0 = s\<lparr>dr_loader := (dr_loader s)\<lparr>ld_given := ld_given (dr_loader s) + 1\<rparr>\<rparr> in
      bind_r (generate_step E b s0) (\<lambda>(r, s1).
      let s2 = update_models cfg E r s1 in
      bind_r (if should_validate cfg E (dr_steps s2) then run_validation cfg (fe_val_batches E) s2 else Inr s2) (\<lambda>s3.
        Inr ((add_event (Logged (dr_steps s3) epoch) s3)\<lparr>dr_steps := dr_steps s3 + 1\<rparr>))))"

section \<open>The loops\<close>

text \<open>The flag tells that the last step was done and \<open>fit\<close> returned from within the loop.\<close>

fun batches_loop :: "ppo_config \<Rightarrow> ('a, 'c, 'k, 'b, 'r, 'd) fit_env \<Rightarrow> nat \<Rightarrow> 'b list \<Rightarrow> ('a, 'c, 'k, 'b) driver \<Rightarrow>
    (('a, 'c, 'k, 'b) driver \<times> bool) result" where
  "batches_loop cfg E epoch [] s =
     Inr (s\<lparr>dr_loader := \<lparr>ld_iteration = ld_iteration (dr_loader s) + 1, ld_given = 0\<rparr>\<rparr>, False)"
| "batches_loop cfg E epoch (b # bs) s =
     (let is_last_step = total_training_steps cfg E \<le> int (dr_steps s) in
      bind_r (train_step cfg E epoch b s) (\<lambda>s'.
        if is_last_step then Inr (s', True) else batches_loop cfg E epoch bs s'))"

fun epochs_loop :: "ppo_config \<Rightarrow> ('a, 'c, 'k, 'b, 'r, 'd) fit_env \<Rightarrow> nat list \<Rightarrow> ('a, 'c, 'k, 'b) driver \<Rightarrow>
    (('a, 'c, 'k, 'b) driver \<times> bool) result" where
  "epochs_loop cfg E [] s = Inr (s, False)"
| "epochs_loop cfg E (epoch # epochs) s =
     bind_r (batches_loop cfg E epoch (drop (ld_given (dr_loader s)) (fe_order E (ld_iteration (dr_loader s)))) s)
       (\<lambda>(s', finished). if finished then Inr (s', True) else epochs_loop cfg E epochs s')"

section \<open>Resuming\<close>

text \<open>A given path names the step of its folder, or none, which fails an assertion.\<close>

datatype resume_mode = Resume_Disable | Resume_Auto | Resume_Path "nat option" | Resume_Other

definition resume_folder :: "bool \<Rightarrow> resume_mode \<Rightarrow> ('a, 'c, 'k, 'b) driver \<Rightarrow> nat option result" where
  "resume_folder hdfs mode s = (if mode = Resume_Disable then Inr None
     else require (\<not> hdfs) NotImplementedError
       (bind_r (find_latest_ckpt_path (Some ()) (\<lambda>_. map_option (\<lambda>n. Inr (int n)) (dr_latest s)) (\<lambda>_. nat)
          (set (dict_keys (dr_ckpts s)))) (\<lambda>latest.
        case mode of
          Resume_Auto \<Rightarrow> Inr latest
        | Resume_Path (Some n) \<Rightarrow> Inr (Some n)
        | Resume_Path None \<Rightarrow> Inl AssertionError
        | _ \<Rightarrow> (case latest of None \<Rightarrow> Inl AttributeError | Some n \<Rightarrow> Inr (Some n)))))"

text \<open>A folder that is not there, or holds no critic, makes the workers raise.\<close>

definition ppo_load_checkpoint :: "ppo_config \<Rightarrow> ('a, 'c, 'k, 'b, 'r, 'd) fit_env \<Rightarrow> bool \<Rightarrow> resume_mode \<Rightarrow>
    ('a, 'c, 'k, 'b) driver \<Rightarrow> ('a, 'c, 'k, 'b) driver result" where
  "ppo_load_checkpoint cfg E hdfs mode s =
     bind_r (resume_folder hdfs mode s) (\<lambda>folder. case folder of
         None \<Rightarrow> Inr s
       | Some n \<Rightarrow> (case map_of (dr_ckpts s) n of
            None \<Rightarrow> Inl RuntimeError
          | Some c \<Rightarrow>
              (let s1 = s\<lparr>dr_steps := n, dr_actor := cp_actor c\<rparr> in
               bind_r (if fc_use_critic cfg
                       then (case cp_critic c of None \<Rightarrow> Inl RuntimeError | Some v \<Rightarrow> Inr (s1\<lparr>dr_critic := v\<rparr>)) else Inr s1) (\<lambda>s2.
                 Inr (case cp_loader c of
                     None \<Rightarrow> s2
                   | Some l \<Rightarrow> if 0 < loader_len E \<and> n mod loader_len E = 0 then s2 else s2\<lparr>dr_loader := l\<rparr>)))))"

definition ppo_fit :: "ppo_config \<Rightarrow> ('a, 'c, 'k, 'b, 'r, 'd) fit_env \<Rightarrow> bool \<Rightarrow> resume_mode \<Rightarrow>
    ('a, 'c, 'k, 'b) driver \<Rightarrow> (('a, 'c, 'k, 'b) driver \<times> bool) result" where
  "ppo_fit cfg E hdfs mode s =
     bind_r (ppo_load_checkpoint cfg E hdfs mode (s\<lparr>dr_steps := 0\<rparr>)) (\<lambda>s1.
     let s2 = update_weights s1; current_epoch = dr_steps s2 div loader_len E in
     bind_r (if fc_val_before_train cfg then run_validation cfg (fe_val_batches E) s2 else Inr s2) (\<lambda>s3.
       if fc_val_before_train cfg \<and> fc_val_only cfg then Inr (s3, False)
       else epochs_loop cfg E [current_epoch..<fc_total_epochs cfg] (s3\<lparr>dr_steps := dr_steps s3 + 1\<rparr>)))"

section \<open>What a step does\<close>

text \<open>The parameters of actor and critic and the KL controller after a step on a batch.\<close>

definition learn :: "ppo_config \<Rightarrow> ('a, 'c, 'k, 'b, 'r, 'd) fit_env \<Rightarrow> nat \<Rightarrow> 'b \<Rightarrow> 'a \<times> 'c \<times> 'k \<Rightarrow> 'a \<times> 'c \<times> 'k" where
  "learn cfg E g b m = (case m of (a, c, k) \<Rightarrow>
     (case fe_prepare E k a c (fe_rollout E a g b) of (d, k') \<Rightarrow>
       (if int g < fc_critic_warmup cfg then a else fe_update_actor E d a,
        if fc_use_critic cfg then fe_update_critic E d c else c, k')))"

definition models :: "('a, 'c, 'k, 'b) driver \<Rightarrow> 'a \<times> 'c \<times> 'k" where
  "models s = (dr_actor s, dr_critic s, dr_kl s)"

definition saves_at :: "ppo_config \<Rightarrow> ('a, 'c, 'k, 'b, 'r, 'd) fit_env \<Rightarrow> nat \<Rightarrow> bool" where
  "saves_at cfg E g \<longleftrightarrow> fc_critic_warmup cfg \<le> int g \<and> should_save cfg E g"

definition checkpoint_of :: "ppo_config \<Rightarrow> 'a \<times> 'c \<times> 'k \<Rightarrow> loader \<Rightarrow> ('a, 'c) checkpoint" where
  "checkpoint_of cfg m l =
     \<lparr>cp_actor = fst m, cp_critic = (if fc_use_critic cfg then Some (fst (snd m)) else None), cp_loader = Some l\<rparr>"

definition validation_trace :: "ppo_config \<Rightarrow> nat \<Rightarrow> nat \<Rightarrow> 'a \<Rightarrow> ('a, 'b) fit_event list" where
  "validation_trace cfg n g a =
     concat (replicate n (Validated g a # (if fc_val_rewards_colocated cfg then [Slept, Sent g a] else [])))"

definition step_trace :: "ppo_config \<Rightarrow> ('a, 'c, 'k, 'b, 'r, 'd) fit_env \<Rightarrow> nat \<Rightarrow> nat \<Rightarrow> 'b \<Rightarrow> 'a \<Rightarrow> 'a \<Rightarrow>
    ('a, 'b) fit_event list" where
  "step_trace cfg E g epoch b a a' =
     [Generated g a b, Slept] @ (if fc_use_critic cfg then [Critic_Updated g] else []) @
     (if int g < fc_critic_warmup cfg then [] else Actor_Updated g a' # (if should_save cfg E g then [Saved g] else [])) @
     [Sent g a'] @ (if should_validate cfg E g then validation_trace cfg (fe_val_batches E) g a' else []) @ [Logged g epoch]"

lemma fst_models: "fst (models s) = dr_actor s"
  by (simp add: models_def)

lemma driver_updates [simp]:
  "dr_steps (add_event e s) = dr_steps s" "dr_actor (add_event e s) = dr_actor s" "dr_critic (add_event e s) = dr_critic s"
  "dr_kl (add_event e s) = dr_kl s" "dr_served (add_event e s) = dr_served s" "dr_loader (add_event e s) = dr_loader s"
  "dr_ckpts (add_event e s) = dr_ckpts s" "dr_latest (add_event e s) = dr_latest s"
  "dr_trace (add_event e s) = dr_trace s @ [e]"
  by (simp_all add: add_event_def)

lemma run_validation_effect:
  "dr_served s = Some (dr_actor s) \<Longrightarrow>
    run_validation cfg n s = Inr (s\<lparr>dr_trace := dr_trace s @ validation_trace cfg n (dr_steps s) (dr_actor s)\<rparr>)"
proof (induction n arbitrary: s)
  case (Suc n)
  let ?s1 = "add_event (Validated (dr_steps s) (dr_actor s)) s"
  let ?s2 = "if fc_val_rewards_colocated cfg then update_weights (sleep_replicas ?s1) else ?s1"
  have "run_validation cfg (Suc n) s = run_validation cfg n ?s2" using Suc.prems by (simp add: Let_def)
  moreover have "dr_served ?s2 = Some (dr_actor ?s2)" using Suc.prems by (simp add: update_weights_def sleep_replicas_def)
  ultimately have "run_validation cfg (Suc n) s =
      Inr (?s2\<lparr>dr_trace := dr_trace ?s2 @ validation_trace cfg n (dr_steps ?s2) (dr_actor ?s2)\<rparr>)" using Suc.IH by simp
  then show ?case
    using Suc.prems by (simp add: update_weights_def sleep_replicas_def add_event_def validation_trace_def)
qed (simp add: validation_trace_def)

lemma update_models_effect:
  fixes s :: "('a, 'c, 'k, 'b) driver" and cfg :: ppo_config
  assumes r: "r = fe_rollout E (dr_actor s) (dr_steps s) b"
  defines "m \<equiv> learn cfg E (dr_steps s) b (models s)"
  shows "models (update_models cfg E r s) = m" "dr_served (update_models cfg E r s) = Some (fst m)"
    "dr_steps (update_models cfg E r s) = dr_steps s" "dr_loader (update_models cfg E r s) = dr_loader s"
    "dr_ckpts (update_models cfg E r s) = (if saves_at cfg E (dr_steps s)
       then dict_set (dr_steps s) (checkpoint_of cfg m (dr_loader s)) (dr_ckpts s) else dr_ckpts s)"
    "dr_trace (update_models cfg E r s) = dr_trace s @ (if fc_use_critic cfg then [Critic_Updated (dr_steps s)] else []) @
     (if int (dr_steps s) < fc_critic_warmup cfg then []
      else Actor_Updated (dr_steps s) (fst m) # (if should_save cfg E (dr_steps s) then [Saved (dr_steps s)] else [])) @
     [Sent (dr_steps s) (fst m)]"
proof -
  obtain d k where p: "fe_prepare E (dr_kl s) (dr_actor s) (dr_critic s) r = (d, k)" by fastforce
  note facts = update_models_def Let_def p prod.case update_weights_def save_driver_def m_def learn_def models_def r [symmetric]
    checkpoint_of_def saves_at_def
  show "models (update_models cfg E r s) = m" "dr_served (update_models cfg E r s) = Some (fst m)"
    "dr_steps (update_models cfg E r s) = dr_steps s" "dr_loader (update_models cfg E r s) = dr_loader s"
    by (simp_all add: facts)
  show "dr_ckpts (update_models cfg E r s) = (if saves_at cfg E (dr_steps s)
       then dict_set (dr_steps s) (checkpoint_of cfg m (dr_loader s)) (dr_ckpts s) else dr_ckpts s)"
    by (simp add: facts)
  show "dr_trace (update_models cfg E r s) = dr_trace s @ (if fc_use_critic cfg then [Critic_Updated (dr_steps s)] else []) @
     (if int (dr_steps s) < fc_critic_warmup cfg then []
      else Actor_Updated (dr_steps s) (fst m) # (if should_save cfg E (dr_steps s) then [Saved (dr_steps s)] else [])) @
     [Sent (dr_steps s) (fst m)]"
    by (simp add: facts)
qed

lemma train_step_effect:
  fixes s :: "('a, 'c, 'k, 'b) driver" and cfg :: ppo_config and E :: "('a, 'c, 'k, 'b, 'r, 'd) fit_env" and b :: 'b
  assumes "dr_served s = Some (dr_actor s)"
  defines "g \<equiv> dr_steps s" and "m \<equiv> learn cfg E (dr_steps s) b (models s)"
    and "l \<equiv> (dr_loader s)\<lparr>ld_given := ld_given (dr_loader s) + 1\<rparr>"
  obtains s' where "train_step cfg E epoch b s = Inr s'" "models s' = m" "dr_served s' = Some (dr_actor s')"
    "dr_steps s' = g + 1" "dr_loader s' = l"
    "dr_ckpts s' = (if saves_at cfg E g then dict_set g (checkpoint_of cfg m l) (dr_ckpts s) else dr_ckpts s)"
    "dr_trace s' = dr_trace s @ step_trace cfg E g epoch b (dr_actor s) (fst m)"
proof -
  let ?s0 = "s\<lparr>dr_loader := l\<rparr>"
  let ?r = "fe_rollout E (dr_actor s) g b"
  let ?s1 = "sleep_replicas (add_event (Generated g (dr_actor s) b) ?s0)"
  let ?s2 = "update_models cfg E ?r ?s1"
  let ?v = "if should_validate cfg E g then validation_trace cfg (fe_val_batches E) g (fst m) else []"
  let ?s3 = "?s2\<lparr>dr_trace := dr_trace ?s2 @ ?v\<rparr>"
  let ?s' = "(add_event (Logged g epoch) ?s3)\<lparr>dr_steps := g + 1\<rparr>"
  have fields: "dr_actor ?s1 = dr_actor s" "dr_steps ?s1 = g" "models ?s1 = models s" "dr_loader ?s1 = l" "dr_ckpts ?s1 = dr_ckpts s"
    "dr_trace ?s1 = dr_trace s @ [Generated g (dr_actor s) b, Slept]"
    by (simp_all add: sleep_replicas_def models_def g_def)
  have m1: "learn cfg E g b (models s) = m" by (simp only: m_def g_def)
  have r1: "?r = fe_rollout E (dr_actor ?s1) (dr_steps ?s1) b" unfolding fields by (rule refl)
  note u = update_models_effect [OF r1, of cfg, unfolded fields m1]
  have a2: "dr_actor ?s2 = fst m" using arg_cong [OF u(1), of fst] by (simp only: fst_models)
  have gen: "generate_step E b ?s0 = Inr (?r, ?s1)" using assms(1) by (simp add: generate_step_def g_def)
  have "(if should_validate cfg E g then run_validation cfg (fe_val_batches E) ?s2 else Inr ?s2) = Inr ?s3"
    using run_validation_effect [of ?s2 cfg "fe_val_batches E"] u(2,3) a2 by simp
  then have step: "train_step cfg E epoch b s = Inr ?s'"
    unfolding train_step_def Let_def l_def [symmetric] gen bind_r_simps prod.case u(3) by (simp add: u(3))
  show thesis
  proof (rule that [OF step])
    show "dr_trace ?s' = dr_trace s @ step_trace cfg E g epoch b (dr_actor s) (fst m)"
      by (simp add: u(6) step_trace_def)
  qed (use u a2 in \<open>simp_all add: models_def\<close>)
qed

section \<open>The loops as one sequence of steps\<close>

text \<open>Every step with its epoch, its batch and the position of the loader before it.\<close>

fun steps_loop :: "ppo_config \<Rightarrow> ('a, 'c, 'k, 'b, 'r, 'd) fit_env \<Rightarrow> (nat \<times> 'b \<times> loader) list \<Rightarrow> ('a, 'c, 'k, 'b) driver \<Rightarrow>
    (('a, 'c, 'k, 'b) driver \<times> bool) result" where
  "steps_loop cfg E [] s = Inr (s, False)"
| "steps_loop cfg E ((epoch, b, l) # xs) s =
     (let is_last_step = total_training_steps cfg E \<le> int (dr_steps s) in
      bind_r (train_step cfg E epoch b (s\<lparr>dr_loader := l\<rparr>)) (\<lambda>s'.
        if is_last_step then Inr (s', True) else steps_loop cfg E xs s'))"

definition epoch_steps :: "nat \<Rightarrow> nat \<Rightarrow> nat \<Rightarrow> 'b list \<Rightarrow> (nat \<times> 'b \<times> loader) list" where
  "epoch_steps epoch it p bs = map (\<lambda>(i, b). (epoch, b, \<lparr>ld_iteration = it, ld_given = i\<rparr>)) (enumerate p bs)"

fun flat_steps :: "('a, 'c, 'k, 'b, 'r, 'd) fit_env \<Rightarrow> nat \<Rightarrow> nat \<Rightarrow> nat list \<Rightarrow> (nat \<times> 'b \<times> loader) list" where
  "flat_steps E it p [] = []"
| "flat_steps E it p (e # es) = epoch_steps e it p (drop p (fe_order E it)) @ flat_steps E (it + 1) 0 es"

definition serving :: "('a, 'c, 'k, 'b) driver \<Rightarrow> bool" where
  "serving s \<longleftrightarrow> dr_served s = Some (dr_actor s)"

lemma serving_loader [simp]: "serving (s\<lparr>dr_loader := l\<rparr>) = serving s"
  by (simp add: serving_def)

lemma loader_same: "dr_loader s = l \<Longrightarrow> s\<lparr>dr_loader := l\<rparr> = s"
  by auto

lemma steps_loop_total: "serving s \<Longrightarrow> \<exists>s' fin. steps_loop cfg E xs s = Inr (s', fin) \<and> serving s'"
proof (induction xs arbitrary: s)
  case (Cons x xs)
  obtain epoch b l where x: "x = (epoch, b, l)" by (cases x)
  have "dr_served (s\<lparr>dr_loader := l\<rparr>) = Some (dr_actor (s\<lparr>dr_loader := l\<rparr>))" using Cons.prems by (simp add: serving_def)
  from train_step_effect [OF this, of cfg E epoch b] obtain s' where
    "train_step cfg E epoch b (s\<lparr>dr_loader := l\<rparr>) = Inr s'" "serving s'" unfolding serving_def by metis
  with Cons.IH [of s'] show ?case by (cases "total_training_steps cfg E \<le> int (dr_steps s)") (auto simp: x)
next
  case Nil
  then show ?case by (intro exI [of _ s] exI [of _ False]) simp
qed

lemma batches_loop_steps:
  assumes "serving s" "dr_loader s = \<lparr>ld_iteration = it, ld_given = p\<rparr>"
  shows "batches_loop cfg E epoch bs s = bind_r (steps_loop cfg E (epoch_steps epoch it p bs) s)
    (\<lambda>(s', fin). Inr (if fin then s' else s'\<lparr>dr_loader := \<lparr>ld_iteration = it + 1, ld_given = 0\<rparr>\<rparr>, fin))"
  using assms
proof (induction bs arbitrary: s p)
  case (Cons b bs)
  from train_step_effect [OF Cons.prems(1) [unfolded serving_def], of cfg E epoch b] obtain s' where
    s': "train_step cfg E epoch b s = Inr s'" "dr_served s' = Some (dr_actor s')"
      "dr_loader s' = (dr_loader s)\<lparr>ld_given := ld_given (dr_loader s) + 1\<rparr>" by metis
  have l: "dr_loader s' = \<lparr>ld_iteration = it, ld_given = p + 1\<rparr>" using s'(3) Cons.prems(2) by simp
  have "serving s'" using s'(2) by (simp add: serving_def)
  from Cons.IH [OF this l] show ?case
    using Cons.prems(2) by (simp add: epoch_steps_def loader_same s'(1))
qed (simp add: epoch_steps_def)

lemma steps_loop_append:
  "steps_loop cfg E (xs @ ys) s = bind_r (steps_loop cfg E xs s) (\<lambda>(s', fin). if fin then Inr (s', True) else steps_loop cfg E ys s')"
proof (induction xs arbitrary: s)
  case (Cons x xs)
  obtain epoch b l where x: "x = (epoch, b, l)" by (cases x)
  show ?case by (cases "train_step cfg E epoch b (s\<lparr>dr_loader := l\<rparr>)") (simp_all add: x Cons.IH)
qed simp

lemma steps_loop_loader: "xs \<noteq> [] \<Longrightarrow> steps_loop cfg E xs (s\<lparr>dr_loader := l\<rparr>) = steps_loop cfg E xs s"
  by (cases xs) auto

lemma epochs_loop_steps:
  assumes "serving s" "dr_loader s = \<lparr>ld_iteration = it, ld_given = p\<rparr>"
  shows "\<exists>s' fin l. steps_loop cfg E (flat_steps E it p es) s = Inr (s', fin) \<and>
    epochs_loop cfg E es s = Inr (s'\<lparr>dr_loader := l\<rparr>, fin)"
  using assms
proof (induction es arbitrary: s it p)
  case Nil
  show ?case by (intro exI [of _ s] exI [of _ False] exI [of _ "dr_loader s"]) simp
next
  case (Cons e es)
  let ?bs = "drop p (fe_order E it)"
  obtain s1 fin1 where s1: "steps_loop cfg E (epoch_steps e it p ?bs) s = Inr (s1, fin1)" "serving s1"
    using steps_loop_total [OF Cons.prems(1)] by blast
  have b: "batches_loop cfg E e ?bs s = Inr (if fin1 then s1 else s1\<lparr>dr_loader := \<lparr>ld_iteration = it + 1, ld_given = 0\<rparr>\<rparr>, fin1)"
    unfolding batches_loop_steps [OF Cons.prems] s1(1) by simp
  show ?case
  proof (cases fin1)
    case True
    then have "epochs_loop cfg E (e # es) s = Inr (s1\<lparr>dr_loader := dr_loader s1\<rparr>, True)" using b Cons.prems(2) by simp
    moreover have "steps_loop cfg E (flat_steps E it p (e # es)) s = Inr (s1, True)" using True s1(1) by (simp add: steps_loop_append)
    ultimately show ?thesis by blast
  next
    case False
    let ?s2 = "s1\<lparr>dr_loader := \<lparr>ld_iteration = it + 1, ld_given = 0\<rparr>\<rparr>"
    have "serving ?s2" "dr_loader ?s2 = \<lparr>ld_iteration = it + 1, ld_given = 0\<rparr>" using s1(2) by simp_all
    from Cons.IH [OF this] obtain s' fin l where
      ih: "steps_loop cfg E (flat_steps E (it + 1) 0 es) ?s2 = Inr (s', fin)" "epochs_loop cfg E es ?s2 = Inr (s'\<lparr>dr_loader := l\<rparr>, fin)"
      by blast
    have e: "epochs_loop cfg E (e # es) s = Inr (s'\<lparr>dr_loader := l\<rparr>, fin)" using b Cons.prems(2) False ih(2) by simp
    have st: "steps_loop cfg E (flat_steps E it p (e # es)) s = steps_loop cfg E (flat_steps E (it + 1) 0 es) s1"
      using s1(1) False by (simp add: steps_loop_append)
    show ?thesis
    proof (cases "flat_steps E (it + 1) 0 es = []")
      case True
      then have "s' = ?s2" "fin = False" using ih(1) by simp_all
      then have "epochs_loop cfg E (e # es) s = Inr (s1\<lparr>dr_loader := l\<rparr>, False)" using e by simp
      moreover have "steps_loop cfg E (flat_steps E it p (e # es)) s = Inr (s1, False)" unfolding st using True by simp
      ultimately show ?thesis by blast
    next
      case False
      then have "steps_loop cfg E (flat_steps E it p (e # es)) s = Inr (s', fin)" using st ih(1) by (simp add: steps_loop_loader)
      with e show ?thesis by blast
    qed
  qed
qed

text \<open>Step j + 1 of a run whose first epoch is the iteration \<open>it\<close> of the loader and the epoch e: its epoch, its batch
  and the position of the loader.\<close>

definition step_at :: "('a, 'c, 'k, 'b, 'r, 'd) fit_env \<Rightarrow> nat \<Rightarrow> nat \<Rightarrow> nat \<Rightarrow> nat \<times> 'b \<times> loader" where
  "step_at E it e j = (let L = loader_len E; i = it + (j div L - e) in
     (j div L, fe_order E i ! (j mod L), \<lparr>ld_iteration = i, ld_given = j mod L\<rparr>))"

lemma epoch_steps_upt:
  assumes "p \<le> L" "length xs = L"
  shows "epoch_steps e it p (drop p xs) = map (\<lambda>i. (e, xs ! i, \<lparr>ld_iteration = it, ld_given = i\<rparr>)) [p..<L]"
proof (rule nth_equalityI)
  show "length (epoch_steps e it p (drop p xs)) = length (map (\<lambda>i. (e, xs ! i, \<lparr>ld_iteration = it, ld_given = i\<rparr>)) [p..<L])"
    using assms by (simp add: epoch_steps_def)
qed (use assms in \<open>simp add: epoch_steps_def nth_enumerate_eq\<close>)

lemma upt_split: "j \<le> k \<Longrightarrow> k \<le> n \<Longrightarrow> [j..<n] = [j..<k] @ [k..<n]"
  by (metis le_add_diff_inverse upt_add_eq_append)

lemma upt_shift: "[a + p..<a + q] = map (\<lambda>i. a + i) [p..<q]"
  by (induction q) (auto simp: upt_Suc)

lemma flat_steps_upt:
  assumes "\<forall>i. length (fe_order E i) = loader_len E" "0 < loader_len E"
  shows "flat_steps E it (n mod loader_len E) [n div loader_len E..<k] = map (step_at E it (n div loader_len E)) [n..<k * loader_len E]"
  using assms(2)
proof (induction "k - n div loader_len E" arbitrary: it n)
  case 0
  then have "k * loader_len E \<le> n" by (metis diff_is_0_eq' mult_le_mono1 div_times_less_eq_dividend le_trans diff_is_0_eq)
  then show ?case using 0 by simp
next
  case (Suc d)
  let ?L = "loader_len E" and ?e = "n div loader_len E"
  let ?n = "(?e + 1) * ?L"
  have e: "?e < k" using Suc.hyps(2) by simp
  have n: "n = ?e * ?L + n mod ?L" by simp
  have q: "?n div ?L = ?e + 1" "?n mod ?L = 0" using assms(2) by (simp_all add: div_mult_self_is_m)
  have "n < ?n" using mod_less_divisor [OF assms(2), of n] n by (metis add_less_cancel_left add_mult_distrib mult_1)
  moreover have "?n \<le> k * ?L" using e by (intro mult_le_mono1) simp
  ultimately have le: "n \<le> ?n" "?n \<le> k * ?L" by simp_all
  have "flat_steps E it (n mod ?L) [?e..<k] =
      epoch_steps ?e it (n mod ?L) (drop (n mod ?L) (fe_order E it)) @ flat_steps E (it + 1) 0 [?e + 1..<k]"
    using e by (simp add: upt_conv_Cons)
  also have "flat_steps E (it + 1) 0 [?e + 1..<k] = map (step_at E (it + 1) (?e + 1)) [?n..<k * ?L]"
    using Suc.hyps(1) [of ?n "it + 1"] Suc.hyps(2) assms(2) unfolding q by simp
  also have "\<dots> = map (step_at E it ?e) [?n..<k * ?L]"
  proof (rule map_cong [OF refl])
    fix j
    assume "j \<in> set [?n..<k * ?L]"
    then have "?n div ?L \<le> j div ?L" by (intro div_le_mono) simp
    then have "it + 1 + (j div ?L - (?e + 1)) = it + (j div ?L - ?e)" unfolding q by simp
    then show "step_at E (it + 1) (?e + 1) j = step_at E it ?e j" by (simp only: step_at_def Let_def)
  qed
  also have "epoch_steps ?e it (n mod ?L) (drop (n mod ?L) (fe_order E it)) = map (step_at E it ?e) [n..<?n]"
  proof -
    have "[n..<?n] = [?e * ?L + n mod ?L..<?e * ?L + ?L]" by (simp add: add.commute)
    also have "\<dots> = map (\<lambda>i. ?e * ?L + i) [n mod ?L..<?L]" by (rule upt_shift)
    finally have "map (step_at E it ?e) [n..<?n] = map (\<lambda>i. step_at E it ?e (?e * ?L + i)) [n mod ?L..<?L]" by (simp add: comp_def)
    also have "\<dots> = map (\<lambda>i. (?e, fe_order E it ! i, \<lparr>ld_iteration = it, ld_given = i\<rparr>)) [n mod ?L..<?L]"
    proof (rule map_cong [OF refl])
      fix i
      assume "i \<in> set [n mod ?L..<?L]"
      then have "i < ?L" by simp
      then have "(?e * ?L + i) div ?L = ?e" "(?e * ?L + i) mod ?L = i" by simp_all
      then show "step_at E it ?e (?e * ?L + i) = (?e, fe_order E it ! i, \<lparr>ld_iteration = it, ld_given = i\<rparr>)"
        by (simp add: step_at_def Let_def)
    qed
    finally show ?thesis using epoch_steps_upt [of "n mod ?L" ?L "fe_order E it" ?e it] assms by simp
  qed
  finally show ?case unfolding map_append [symmetric] upt_split [OF le, symmetric] .
qed

definition model_run :: "ppo_config \<Rightarrow> ('a, 'c, 'k, 'b, 'r, 'd) fit_env \<Rightarrow> (nat \<Rightarrow> nat \<times> 'b \<times> loader) \<Rightarrow> nat \<Rightarrow> nat \<Rightarrow>
    'a \<times> 'c \<times> 'k \<Rightarrow> 'a \<times> 'c \<times> 'k" where
  "model_run cfg E f j n m = fold (\<lambda>i. learn cfg E (i + 1) (fst (snd (f i)))) [j..<n] m"

lemma model_run_start: "model_run cfg E f j j m = m"
  by (simp add: model_run_def)

lemma model_run_Cons: "j < n \<Longrightarrow> model_run cfg E f j n m = model_run cfg E f (j + 1) n (learn cfg E (j + 1) (fst (snd (f j))) m)"
  by (simp add: model_run_def upt_conv_Cons)

lemma model_run_split: "j \<le> k \<Longrightarrow> k \<le> n \<Longrightarrow> model_run cfg E f j n m = model_run cfg E f k n (model_run cfg E f j k m)"
  unfolding model_run_def by (subst upt_split [of j k n]) simp_all

definition run_trace :: "ppo_config \<Rightarrow> ('a, 'c, 'k, 'b, 'r, 'd) fit_env \<Rightarrow> (nat \<Rightarrow> nat \<times> 'b \<times> loader) \<Rightarrow> nat \<Rightarrow> nat \<Rightarrow>
    'a \<times> 'c \<times> 'k \<Rightarrow> ('a, 'b) fit_event list" where
  "run_trace cfg E f j n m = concat (map (\<lambda>i. step_trace cfg E (i + 1) (fst (f i)) (fst (snd (f i)))
     (fst (model_run cfg E f j i m)) (fst (model_run cfg E f j (i + 1) m))) [j..<n])"

lemma run_trace_Cons:
  assumes "j < n"
  shows "run_trace cfg E f j n m =
    (let m' = learn cfg E (j + 1) (fst (snd (f j))) m in
     step_trace cfg E (j + 1) (fst (f j)) (fst (snd (f j))) (fst m) (fst m') @ run_trace cfg E f (j + 1) n m')"
proof -
  let ?t = "model_run cfg E f"
  let ?m' = "learn cfg E (j + 1) (fst (snd (f j))) m"
  let ?st = "\<lambda>i j m. step_trace cfg E (i + 1) (fst (f i)) (fst (snd (f i))) (fst (?t j i m)) (fst (?t j (i + 1) m))"
  have tail: "map (\<lambda>i. ?st i j m) [j + 1..<n] = map (\<lambda>i. ?st i (j + 1) ?m') [j + 1..<n]"
    by (rule map_cong [OF refl]) (simp add: model_run_Cons [of j])
  have "?t j (j + 1) m = ?m'" by (simp add: model_run_Cons [of j] model_run_start)
  then show ?thesis using assms unfolding run_trace_def Let_def tail [symmetric]
    by (simp only: upt_conv_Cons list.map concat.simps model_run_start Suc_eq_plus1)
qed

definition next_loader :: "loader \<Rightarrow> loader" where
  "next_loader l = l\<lparr>ld_given := ld_given l + 1\<rparr>"

definition last_step :: "int \<Rightarrow> nat \<Rightarrow> nat \<Rightarrow> nat" where
  "last_step T n M = min M (max (n + 1) (nat T))"

lemma steps_loop_run:
  fixes s :: "('a, 'c, 'k, 'b) driver" and f :: "nat \<Rightarrow> nat \<times> 'b \<times> loader" and cfg :: ppo_config and E :: "('a, 'c, 'k, 'b, 'r, 'd) fit_env"
  assumes "serving s" "dr_steps s = j + 1" "j \<le> M"
  defines "N \<equiv> last_step (total_training_steps cfg E) j M"
  shows "\<exists>s' fin. steps_loop cfg E (map f [j..<M]) s = Inr (s', fin) \<and> serving s' \<and> dr_steps s' = N + 1 \<and>
    (fin \<longleftrightarrow> j < M \<and> total_training_steps cfg E \<le> int N) \<and> models s' = model_run cfg E f j N (models s) \<and>
    dr_trace s' = dr_trace s @ run_trace cfg E f j N (models s) \<and>
    (\<forall>n. map_of (dr_ckpts s') n = (if j < n \<and> n \<le> N \<and> saves_at cfg E n
       then Some (checkpoint_of cfg (model_run cfg E f j n (models s)) (next_loader (snd (snd (f (n - 1))))))
       else map_of (dr_ckpts s) n))"
  using assms(1-3) unfolding N_def
proof (induction "M - j" arbitrary: j s)
  case 0
  then have "j = M" by simp
  with 0 show ?case
    by (intro exI [of _ s] exI [of _ False]) (auto simp: last_step_def model_run_start run_trace_def)
next
  case (Suc d)
  let ?T = "total_training_steps cfg E"
  let ?N = "last_step ?T j M"
  obtain epoch b l where fj: "f j = (epoch, b, l)" by (cases "f j")
  let ?s0 = "s\<lparr>dr_loader := l\<rparr>"
  let ?m = "learn cfg E (j + 1) b (models s)"
  have m0: "models ?s0 = models s" "dr_steps ?s0 = j + 1" "dr_actor ?s0 = fst (models s)" using Suc.prems(2) by (simp_all add: models_def)
  have "dr_served ?s0 = Some (dr_actor ?s0)" using Suc.prems(1) by (simp add: serving_def)
  note effect = train_step_effect [OF this, of cfg E epoch b, unfolded m0]
  obtain s1 where
    s1: "train_step cfg E epoch b ?s0 = Inr s1" "models s1 = ?m" "dr_served s1 = Some (dr_actor s1)" "dr_steps s1 = j + 1 + 1"
      and cd: "dr_ckpts s1 = (if saves_at cfg E (j + 1) then dict_set (j + 1) (checkpoint_of cfg ?m
        ((dr_loader ?s0)\<lparr>ld_given := ld_given (dr_loader ?s0) + 1\<rparr>)) (dr_ckpts ?s0) else dr_ckpts ?s0)"
      and td: "dr_trace s1 = dr_trace ?s0 @ step_trace cfg E (j + 1) epoch b (fst (models s)) (fst ?m)"
    by (rule effect)
  have s1': "dr_ckpts s1 = (if saves_at cfg E (j + 1) then dict_set (j + 1) (checkpoint_of cfg ?m (next_loader l)) (dr_ckpts s) else dr_ckpts s)"
      "dr_trace s1 = dr_trace s @ step_trace cfg E (j + 1) epoch b (fst (models s)) (fst ?m)"
    using cd td by (simp_all add: next_loader_def)
  have jM: "j < M" using Suc.hyps(2) by simp
  have sl: "steps_loop cfg E (map f [j..<M]) s =
      (if ?T \<le> int (j + 1) then Inr (s1, True) else steps_loop cfg E (map f [j + 1..<M]) s1)"
    using jM Suc.prems(2) s1(1) by (simp add: upt_conv_Cons fj)
  show ?case
  proof (cases "?T \<le> int (j + 1)")
    case True
    then have N: "?N = j + 1" using jM by (simp add: last_step_def)
    have "model_run cfg E f j (j + 1) (models s) = ?m" "run_trace cfg E f j (j + 1) (models s) = step_trace cfg E (j + 1) epoch b (fst (models s)) (fst ?m)"
      by (simp_all add: model_run_Cons [of j] model_run_start run_trace_def fj)
    moreover have "map_of (dr_ckpts s1) n = (if j < n \<and> n \<le> j + 1 \<and> saves_at cfg E n
        then Some (checkpoint_of cfg (model_run cfg E f j n (models s)) (next_loader (snd (snd (f (n - 1))))))
        else map_of (dr_ckpts s) n)" for n
    proof (cases "n = j + 1")
      case True
      then show ?thesis using calculation(1) by (simp add: s1'(1) fj)
    qed (auto simp: s1'(1))
    ultimately show ?thesis unfolding sl N using True s1 s1'(2) jM
      by (intro exI [of _ s1] exI [of _ True]) (simp add: serving_def)
  next
    case False
    have N: "last_step ?T (j + 1) M = ?N" "j < ?N" using False jM by (simp_all add: last_step_def)
    have "serving s1" using s1(3) by (simp add: serving_def)
    moreover have "d = M - (j + 1)" "j + 1 \<le> M" using Suc.hyps(2) by simp_all
    ultimately obtain s' fin where
      ih: "steps_loop cfg E (map f [j + 1..<M]) s1 = Inr (s', fin)" "serving s'" "dr_steps s' = last_step ?T (j + 1) M + 1"
        "fin \<longleftrightarrow> j + 1 < M \<and> ?T \<le> int (last_step ?T (j + 1) M)" "models s' = model_run cfg E f (j + 1) (last_step ?T (j + 1) M) ?m"
        "dr_trace s' = dr_trace s1 @ run_trace cfg E f (j + 1) (last_step ?T (j + 1) M) ?m"
        "\<forall>n. map_of (dr_ckpts s') n = (if j + 1 < n \<and> n \<le> last_step ?T (j + 1) M \<and> saves_at cfg E n
           then Some (checkpoint_of cfg (model_run cfg E f (j + 1) n ?m) (next_loader (snd (snd (f (n - 1))))))
           else map_of (dr_ckpts s1) n)"
      using Suc.hyps(1) [OF _ _ s1(4), unfolded s1(2)] by blast
    note ih = ih [unfolded N(1)]
    have tr: "model_run cfg E f j n (models s) = model_run cfg E f (j + 1) n ?m" if "j < n" for n
      using model_run_Cons [OF that, of cfg E f "models s"] by (simp add: fj)
    have rt: "run_trace cfg E f j ?N (models s) =
        step_trace cfg E (j + 1) epoch b (fst (models s)) (fst ?m) @ run_trace cfg E f (j + 1) ?N ?m"
      using run_trace_Cons [OF N(2), of cfg E f "models s"] by (simp add: fj Let_def)
    have ck: "map_of (dr_ckpts s') n = (if j < n \<and> n \<le> ?N \<and> saves_at cfg E n
        then Some (checkpoint_of cfg (model_run cfg E f j n (models s)) (next_loader (snd (snd (f (n - 1))))))
        else map_of (dr_ckpts s) n)" for n
    proof (cases "n = j + 1")
      case True
      then show ?thesis using ih(7) [rule_format, of n] N(2) by (simp add: s1'(1) fj tr model_run_start)
    next
      case False
      then have "map_of (dr_ckpts s1) n = map_of (dr_ckpts s) n" "j + 1 < n \<longleftrightarrow> j < n" by (auto simp: s1'(1))
      then show ?thesis using ih(7) [rule_format, of n] by (auto simp: tr)
    qed
    have "fin \<longleftrightarrow> j < M \<and> ?T \<le> int ?N" using ih(4) False by (auto simp: last_step_def)
    then show ?thesis unfolding sl using False ih(1,2,3,5,6) ck
      by (intro exI [of _ s'] exI [of _ fin]) (simp add: tr [OF N(2)] rt s1'(2))
  qed
qed

section \<open>Properties\<close>

text \<open>The weights of the trained actor after a trace.\<close>

fun weights_after :: "'a \<Rightarrow> ('a, 'b) fit_event list \<Rightarrow> 'a" where
  "weights_after a [] = a"
| "weights_after a (Actor_Updated g w # es) = weights_after w es"
| "weights_after a (e # es) = weights_after a es"

text \<open>Responses, validation and the transfer to the replicas use those weights.\<close>

fun on_policy_trace :: "'a \<Rightarrow> ('a, 'b) fit_event list \<Rightarrow> bool" where
  "on_policy_trace a [] \<longleftrightarrow> True"
| "on_policy_trace a (Generated g w b # es) \<longleftrightarrow> w = a \<and> on_policy_trace a es"
| "on_policy_trace a (Validated g w # es) \<longleftrightarrow> w = a \<and> on_policy_trace a es"
| "on_policy_trace a (Sent g w # es) \<longleftrightarrow> w = a \<and> on_policy_trace a es"
| "on_policy_trace a (Actor_Updated g w # es) \<longleftrightarrow> on_policy_trace w es"
| "on_policy_trace a (e # es) \<longleftrightarrow> on_policy_trace a es"

lemma weights_after_append: "weights_after a (xs @ ys) = weights_after (weights_after a xs) ys"
proof (induction xs arbitrary: a)
  case (Cons x xs)
  then show ?case by (cases x) auto
qed simp

lemma trace_on_policy_append: "on_policy_trace a (xs @ ys) \<longleftrightarrow> on_policy_trace a xs \<and> on_policy_trace (weights_after a xs) ys"
proof (induction xs arbitrary: a)
  case (Cons x xs)
  then show ?case by (cases x) auto
qed simp

lemma validation_on_policy: "on_policy_trace a (validation_trace cfg n g a)" "weights_after a (validation_trace cfg n g a) = a"
  by (induction n) (auto simp: validation_trace_def)

lemma step_on_policy:
  assumes "a' = fst (learn cfg E g b (a, c, k))"
  shows "on_policy_trace a (step_trace cfg E g epoch b a a')" "weights_after a (step_trace cfg E g epoch b a a') = a'"
proof -
  have "int g < fc_critic_warmup cfg \<Longrightarrow> a' = a" using assms by (simp add: learn_def split: prod.splits)
  then show "on_policy_trace a (step_trace cfg E g epoch b a a')" "weights_after a (step_trace cfg E g epoch b a a') = a'"
    by (auto simp: step_trace_def trace_on_policy_append weights_after_append validation_on_policy)
qed

lemma steps_loop_on_policy:
  assumes "serving s" "steps_loop cfg E xs s = Inr (s', fin)"
  shows "\<exists>tr. dr_trace s' = dr_trace s @ tr \<and> on_policy_trace (dr_actor s) tr \<and> weights_after (dr_actor s) tr = dr_actor s'"
  using assms
proof (induction xs arbitrary: s)
  case Nil
  then show ?case by (intro exI [of _ "[]"]) simp
next
  case (Cons x xs)
  obtain epoch b l where x: "x = (epoch, b, l)" by (cases x)
  let ?s0 = "s\<lparr>dr_loader := l\<rparr>"
  have "dr_served ?s0 = Some (dr_actor ?s0)" using Cons.prems(1) by (simp add: serving_def)
  from train_step_effect [OF this, of cfg E epoch b] obtain s1 where
    s1: "train_step cfg E epoch b ?s0 = Inr s1" "models s1 = learn cfg E (dr_steps ?s0) b (models ?s0)" "serving s1"
      "dr_trace s1 = dr_trace ?s0 @ step_trace cfg E (dr_steps ?s0) epoch b (dr_actor ?s0) (fst (learn cfg E (dr_steps ?s0) b (models ?s0)))"
    unfolding serving_def by metis
  let ?st = "step_trace cfg E (dr_steps s) epoch b (dr_actor s) (dr_actor s1)"
  have a1: "dr_actor s1 = fst (learn cfg E (dr_steps s) b (dr_actor s, dr_critic s, dr_kl s))"
    using arg_cong [OF s1(2), of fst] by (simp add: models_def)
  have t1: "dr_trace s1 = dr_trace s @ ?st" using s1(4) a1 by (simp add: models_def)
  show ?case
  proof (cases "total_training_steps cfg E \<le> int (dr_steps s)")
    case True
    then have "s' = s1" using Cons.prems(2) s1(1) by (simp add: x)
    then show ?thesis using t1 step_on_policy [OF a1] by blast
  next
    case False
    then have "steps_loop cfg E xs s1 = Inr (s', fin)" using Cons.prems(2) s1(1) by (simp add: x)
    from Cons.IH [OF s1(3) this] obtain tr where
      "dr_trace s' = dr_trace s1 @ tr" "on_policy_trace (dr_actor s1) tr" "weights_after (dr_actor s1) tr = dr_actor s'" by blast
    then show ?thesis using t1 step_on_policy [OF a1]
      by (intro exI [of _ "?st @ tr"]) (simp add: trace_on_policy_append weights_after_append)
  qed
qed

lemma ppo_load_checkpoint_trace: "ppo_load_checkpoint cfg E hdfs mode s = Inr s1 \<Longrightarrow> dr_trace s1 = dr_trace s"
  by (auto simp: ppo_load_checkpoint_def Let_def bind_r_def split: sum.splits option.splits if_splits)

text \<open>The state in which the loops start.\<close>

definition before_loops :: "ppo_config \<Rightarrow> ('a, 'c, 'k, 'b, 'r, 'd) fit_env \<Rightarrow> ('a, 'c, 'k, 'b) driver \<Rightarrow> ('a, 'c, 'k, 'b) driver" where
  "before_loops cfg E s = s\<lparr>dr_served := Some (dr_actor s), dr_trace := dr_trace s @ Sent (dr_steps s) (dr_actor s) #
     (if fc_val_before_train cfg then validation_trace cfg (fe_val_batches E) (dr_steps s) (dr_actor s) else [])\<rparr>"

lemma fit_loaded:
  assumes "ppo_load_checkpoint cfg E hdfs mode (s\<lparr>dr_steps := 0\<rparr>) = Inr s1"
  shows "ppo_fit cfg E hdfs mode s = (if fc_val_before_train cfg \<and> fc_val_only cfg then Inr (before_loops cfg E s1, False)
    else epochs_loop cfg E [dr_steps s1 div loader_len E..<fc_total_epochs cfg]
      ((before_loops cfg E s1)\<lparr>dr_steps := dr_steps s1 + 1\<rparr>))"
proof -
  have "dr_served (update_weights s1) = Some (dr_actor (update_weights s1))" by (simp add: update_weights_def)
  note v = run_validation_effect [OF this, of cfg "fe_val_batches E"]
  show ?thesis unfolding ppo_fit_def assms bind_r_simps Let_def v
    by (simp add: update_weights_def add_event_def before_loops_def)
qed

text \<open>C9 Training is on-policy: \<open>fit\<close> runs to its end without asking sleeping replicas, and every batch of responses, every
  validation and every transfer uses the weights of the actor after all updates made so far.\<close>

theorem fit_on_policy:
  assumes "ppo_load_checkpoint cfg E hdfs mode (s\<lparr>dr_steps := 0\<rparr>) = Inr s1" "dr_trace s = []"
  shows "\<exists>s' fin. ppo_fit cfg E hdfs mode s = Inr (s', fin) \<and> on_policy_trace (dr_actor s1) (dr_trace s')"
proof -
  let ?s2 = "before_loops cfg E s1"
  let ?s3 = "?s2\<lparr>dr_steps := dr_steps s1 + 1\<rparr>"
  have tr: "dr_trace s1 = []" using ppo_load_checkpoint_trace [OF assms(1)] assms(2) by simp
  have p2: "on_policy_trace (dr_actor s1) (dr_trace ?s2)" "weights_after (dr_actor s1) (dr_trace ?s2) = dr_actor s1"
    by (simp_all add: before_loops_def tr validation_on_policy)
  show ?thesis
  proof (cases "fc_val_before_train cfg \<and> fc_val_only cfg")
    case True
    then show ?thesis using fit_loaded [OF assms(1)] p2 by auto
  next
    case False
    have sv: "serving ?s3" by (simp add: serving_def before_loops_def)
    have "dr_loader ?s3 = \<lparr>ld_iteration = ld_iteration (dr_loader ?s3), ld_given = ld_given (dr_loader ?s3)\<rparr>" by simp
    from epochs_loop_steps [OF sv this, of cfg E "[dr_steps s1 div loader_len E..<fc_total_epochs cfg]"]
    obtain xs s' fin l where
      run: "steps_loop cfg E xs ?s3 = Inr (s', fin)"
        "epochs_loop cfg E [dr_steps s1 div loader_len E..<fc_total_epochs cfg] ?s3 = Inr (s'\<lparr>dr_loader := l\<rparr>, fin)" by blast
    obtain t where t: "dr_trace s' = dr_trace ?s3 @ t" "on_policy_trace (dr_actor ?s3) t"
      using steps_loop_on_policy [OF sv run(1)] by blast
    have "on_policy_trace (dr_actor s1) (dr_trace s')" using t p2 by (simp add: trace_on_policy_append) (simp add: before_loops_def)
    moreover have "ppo_fit cfg E hdfs mode s = Inr (s'\<lparr>dr_loader := l\<rparr>, fin)" unfolding fit_loaded [OF assms(1)] if_not_P [OF False] by (rule run(2))
    ultimately show ?thesis by (intro exI [of _ "s'\<lparr>dr_loader := l\<rparr>"] exI [of _ fin]) simp
  qed
qed

lemma fit_run:
  fixes s :: "('a, 'c, 'k, 'b) driver" and cfg :: ppo_config and E :: "('a, 'c, 'k, 'b, 'r, 'd) fit_env"
  assumes load: "ppo_load_checkpoint cfg E hdfs mode (s\<lparr>dr_steps := 0\<rparr>) = Inr s1"
    and L: "\<forall>i. length (fe_order E i) = loader_len E" "0 < loader_len E"
    and pos: "ld_given (dr_loader s1) = dr_steps s1 mod loader_len E" "dr_steps s1 \<le> fc_total_epochs cfg * loader_len E"
    and train: "\<not> (fc_val_before_train cfg \<and> fc_val_only cfg)"
  defines "f \<equiv> step_at E (ld_iteration (dr_loader s1)) (dr_steps s1 div loader_len E)"
    and "N \<equiv> last_step (total_training_steps cfg E) (dr_steps s1) (fc_total_epochs cfg * loader_len E)"
  obtains s' fin where "ppo_fit cfg E hdfs mode s = Inr (s', fin)"
    "fin \<longleftrightarrow> dr_steps s1 < fc_total_epochs cfg * loader_len E \<and> total_training_steps cfg E \<le> int N"
    "models s' = model_run cfg E f (dr_steps s1) N (models s1)"
    "dr_trace s' = dr_trace (before_loops cfg E s1) @ run_trace cfg E f (dr_steps s1) N (models s1)"
    "\<forall>n. map_of (dr_ckpts s') n = (if dr_steps s1 < n \<and> n \<le> N \<and> saves_at cfg E n
       then Some (checkpoint_of cfg (model_run cfg E f (dr_steps s1) n (models s1)) (next_loader (snd (snd (f (n - 1))))))
       else map_of (dr_ckpts s1) n)"
proof -
  let ?n = "dr_steps s1" and ?es = "[dr_steps s1 div loader_len E..<fc_total_epochs cfg]"
  let ?s3 = "(before_loops cfg E s1)\<lparr>dr_steps := ?n + 1\<rparr>"
  have sv: "serving ?s3" by (simp add: serving_def before_loops_def)
  have m3: "models ?s3 = models s1" "dr_trace ?s3 = dr_trace (before_loops cfg E s1)" "dr_ckpts ?s3 = dr_ckpts s1"
    by (simp_all add: models_def before_loops_def)
  have ld: "dr_loader ?s3 = \<lparr>ld_iteration = ld_iteration (dr_loader s1), ld_given = ?n mod loader_len E\<rparr>"
    unfolding pos(1) [symmetric] by (simp add: before_loops_def)
  from epochs_loop_steps [OF sv ld, of cfg E ?es, unfolded flat_steps_upt [OF L] f_def [symmetric]]
  obtain s' fin l where e: "steps_loop cfg E (map f [?n..<fc_total_epochs cfg * loader_len E]) ?s3 = Inr (s', fin)"
    "epochs_loop cfg E ?es ?s3 = Inr (s'\<lparr>dr_loader := l\<rparr>, fin)" by blast
  have "ppo_fit cfg E hdfs mode s = Inr (s'\<lparr>dr_loader := l\<rparr>, fin)"
    unfolding fit_loaded [OF load] if_not_P [OF train] by (rule e(2))
  moreover have "dr_steps ?s3 = ?n + 1" by simp
  note run = steps_loop_run [OF sv this pos(2), of cfg E f, unfolded e(1) m3, folded N_def]
  ultimately show thesis using run
    by (intro that [of "s'\<lparr>dr_loader := l\<rparr>" fin]) (auto simp: models_def)
qed

text \<open>The steps of a trace with their batches, and with their epochs.\<close>

fun batches_used :: "('a, 'b) fit_event list \<Rightarrow> (nat \<times> 'b) list" where
  "batches_used [] = []"
| "batches_used (Generated g w b # es) = (g, b) # batches_used es"
| "batches_used (e # es) = batches_used es"

fun epochs_logged :: "('a, 'b) fit_event list \<Rightarrow> (nat \<times> nat) list" where
  "epochs_logged [] = []"
| "epochs_logged (Logged g epoch # es) = (g, epoch) # epochs_logged es"
| "epochs_logged (e # es) = epochs_logged es"

lemma batches_used_append: "batches_used (xs @ ys) = batches_used xs @ batches_used ys"
proof (induction xs)
  case (Cons x xs)
  then show ?case by (cases x) auto
qed simp

lemma epochs_logged_append: "epochs_logged (xs @ ys) = epochs_logged xs @ epochs_logged ys"
proof (induction xs)
  case (Cons x xs)
  then show ?case by (cases x) auto
qed simp

lemma validation_uses_nothing: "batches_used (validation_trace cfg n g a) = []" "epochs_logged (validation_trace cfg n g a) = []"
  by (induction n) (auto simp: validation_trace_def)

lemma step_uses: "batches_used (step_trace cfg E g epoch b a a') = [(g, b)]" "epochs_logged (step_trace cfg E g epoch b a a') = [(g, epoch)]"
  by (simp_all add: step_trace_def batches_used_append epochs_logged_append validation_uses_nothing)

lemma run_uses:
  "batches_used (run_trace cfg E f j n m) = map (\<lambda>i. (i + 1, fst (snd (f i)))) [j..<n]"
  "epochs_logged (run_trace cfg E f j n m) = map (\<lambda>i. (i + 1, fst (f i))) [j..<n]"
proof -
  have b: "batches_used (concat (map (\<lambda>i. step_trace cfg E (h i) (ep i) (b i) (a i) (a' i)) is)) = map (\<lambda>i. (h i, b i)) is"
    and e: "epochs_logged (concat (map (\<lambda>i. step_trace cfg E (h i) (ep i) (b i) (a i) (a' i)) is)) = map (\<lambda>i. (h i, ep i)) is"
    for h ep b a a' "is" by (induction "is") (simp_all add: batches_used_append epochs_logged_append step_uses)
  show "batches_used (run_trace cfg E f j n m) = map (\<lambda>i. (i + 1, fst (snd (f i)))) [j..<n]"
    unfolding run_trace_def by (rule b)
  show "epochs_logged (run_trace cfg E f j n m) = map (\<lambda>i. (i + 1, fst (f i))) [j..<n]"
    unfolding run_trace_def by (rule e)
qed

text \<open>C30 A run that starts after step n takes the steps n + 1 to N in order, each once, each on the next batch of its epoch, where N
  is the last step of the last epoch or the total number of training steps, whichever is smaller, but at least
  n + 1: a run resumed at or past the total takes one more step. Only a run that reaches its total ends as finished;
  with a larger total it ends with the last epoch, without the final save and validation.\<close>

theorem fit_schedule:
  fixes s :: "('a, 'c, 'k, 'b) driver" and cfg :: ppo_config and E :: "('a, 'c, 'k, 'b, 'r, 'd) fit_env"
  assumes "ppo_load_checkpoint cfg E hdfs mode (s\<lparr>dr_steps := 0\<rparr>) = Inr s1" "dr_trace s = []"
    and "\<forall>i. length (fe_order E i) = loader_len E" "0 < loader_len E"
    and "ld_given (dr_loader s1) = dr_steps s1 mod loader_len E" "dr_steps s1 \<le> fc_total_epochs cfg * loader_len E"
    and "\<not> (fc_val_before_train cfg \<and> fc_val_only cfg)"
    and n: "n = dr_steps s1" and M: "M = fc_total_epochs cfg * loader_len E" and N: "N = min M (max (n + 1) (nat (total_training_steps cfg E)))"
  shows "\<exists>s' fin. ppo_fit cfg E hdfs mode s = Inr (s', fin) \<and>
    batches_used (dr_trace s') = map (\<lambda>j. (j + 1, fe_order E (ld_iteration (dr_loader s1) +
      (j div loader_len E - n div loader_len E)) ! (j mod loader_len E))) [n..<N] \<and>
    epochs_logged (dr_trace s') = map (\<lambda>j. (j + 1, j div loader_len E)) [n..<N] \<and>
    (fin \<longleftrightarrow> n < M \<and> total_training_steps cfg E \<le> int N)"
proof -
  have N': "last_step (total_training_steps cfg E) (dr_steps s1) (fc_total_epochs cfg * loader_len E) = N"
    by (simp add: N M n last_step_def)
  from fit_run [OF assms(1,3-7)] obtain s' fin where
    r: "ppo_fit cfg E hdfs mode s = Inr (s', fin)" "fin \<longleftrightarrow> dr_steps s1 < fc_total_epochs cfg * loader_len E \<and> total_training_steps cfg E \<le> int N"
      "dr_trace s' = dr_trace (before_loops cfg E s1) @ run_trace cfg E
         (step_at E (ld_iteration (dr_loader s1)) (dr_steps s1 div loader_len E)) (dr_steps s1) N (models s1)"
    unfolding N' by metis
  have "dr_trace s1 = []" using ppo_load_checkpoint_trace [OF assms(1)] assms(2) by simp
  then have "batches_used (dr_trace (before_loops cfg E s1)) = []" "epochs_logged (dr_trace (before_loops cfg E s1)) = []"
    by (simp_all add: before_loops_def validation_uses_nothing)
  then show ?thesis using r
    by (intro exI [of _ s'] exI [of _ fin])
      (simp add: batches_used_append epochs_logged_append run_uses step_at_def Let_def n M)
qed

section \<open>Resuming a run\<close>

text \<open>A new process with the pretrained models and a new KL controller, and what it finds on disk.\<close>

definition new_process :: "'a \<Rightarrow> 'c \<Rightarrow> 'k \<Rightarrow> (nat, ('a, 'c) checkpoint) dict \<Rightarrow> nat option \<Rightarrow> ('a, 'c, 'k, 'b) driver" where
  "new_process a c k ckpts latest =
     \<lparr>dr_steps = 0, dr_actor = a, dr_critic = c, dr_kl = k, dr_served = None,
      dr_loader = \<lparr>ld_iteration = 0, ld_given = 0\<rparr>, dr_ckpts = ckpts, dr_latest = latest, dr_trace = []\<rparr>"

lemma model_run_cong:
  "(\<And>i. j \<le> i \<Longrightarrow> i < n \<Longrightarrow> fst (snd (f i)) = fst (snd (g i))) \<Longrightarrow> model_run cfg E f j n m = model_run cfg E g j n m"
  unfolding model_run_def by (rule fold_cong) auto

lemma model_run_keeps:
  fixes m :: "'a \<times> 'c \<times> 'k"
  assumes "\<And>k (a :: 'a) (c :: 'c) r. snd (fe_prepare E k a c r) = k"
  shows "snd (snd (model_run cfg E f j n m)) = snd (snd m)"
    "\<not> fc_use_critic cfg \<Longrightarrow> fst (snd (model_run cfg E f j n m)) = fst (snd m)"
proof -
  have k: "snd (snd (learn cfg E g b m)) = snd (snd m)" for g b and m :: "'a \<times> 'c \<times> 'k"
    using assms by (cases m) (auto simp: learn_def split: prod.splits, metis snd_conv)
  have c: "\<not> fc_use_critic cfg \<Longrightarrow> fst (snd (learn cfg E g b m)) = fst (snd m)" for g b and m :: "'a \<times> 'c \<times> 'k"
    by (cases m) (auto simp: learn_def split: prod.splits)
  have "snd (snd (fold (\<lambda>i. learn cfg E (i + 1) (h i)) is m)) = snd (snd m)"
    "\<not> fc_use_critic cfg \<Longrightarrow> fst (snd (fold (\<lambda>i. learn cfg E (i + 1) (h i)) is m)) = fst (snd m)"
    for h "is" and m :: "'a \<times> 'c \<times> 'k"
    by (induction "is" arbitrary: m) (simp_all add: k c)
  then show "snd (snd (model_run cfg E f j n m)) = snd (snd m)"
    "\<not> fc_use_critic cfg \<Longrightarrow> fst (snd (model_run cfg E f j n m)) = fst (snd m)"
    by (simp_all add: model_run_def)
qed

lemma load_latest:
  assumes "map_of ckpts n = Some ck" "fc_use_critic cfg \<longrightarrow> cp_critic ck \<noteq> None"
  shows "ppo_load_checkpoint cfg E False Resume_Auto ((new_process a c k ckpts (Some n))\<lparr>dr_steps := 0\<rparr>) =
    Inr ((new_process a c k ckpts (Some n))\<lparr>dr_steps := n, dr_actor := cp_actor ck,
      dr_critic := (if fc_use_critic cfg then the (cp_critic ck) else c),
      dr_loader := (case cp_loader ck of None \<Rightarrow> \<lparr>ld_iteration = 0, ld_given = 0\<rparr>
        | Some l \<Rightarrow> if 0 < loader_len E \<and> n mod loader_len E = 0 then \<lparr>ld_iteration = 0, ld_given = 0\<rparr> else l)\<rparr>)"
proof -
  have "n \<in> set (dict_keys ckpts)" using assms(1) by (simp add: keys_map_of)
  then have folder: "resume_folder False Resume_Auto (new_process a c k ckpts (Some n)) = Inr (Some n)"
    by (simp add: resume_folder_def new_process_def find_latest_ckpt_path_def Let_def)
  have same: "(new_process a c k ckpts (Some n))\<lparr>dr_steps := 0\<rparr> = new_process a c k ckpts (Some n)"
    and disk: "dr_ckpts (new_process a c k ckpts (Some n)) = ckpts" by (simp_all add: new_process_def)
  show ?thesis unfolding same ppo_load_checkpoint_def folder bind_r_simps option.case disk assms(1) Let_def
    using assms(2) by (cases "fc_use_critic cfg"; cases "cp_critic ck"; cases "cp_loader ck") (simp_all add: new_process_def)
qed

text \<open>C4 A run that is stopped after a checkpoint and resumed from it in a new process ends with the models of the run that was
  not stopped. The KL controller must be fixed, since its value is not saved; and when the checkpoint is at the
  end of an epoch, the loader, whose state is then not restored, must give the batches in the same order in every epoch.\<close>

theorem fit_resume_same_models:
  fixes E :: "('a, 'c, 'k, 'b, 'r, 'd) fit_env" and a :: 'a and c :: 'c and k :: 'k
  assumes run: "ppo_fit cfg E False Resume_Disable (new_process a c k [] None) = Inr (s, fin)"
    and saved: "map_of (dr_ckpts s) n = Some ck" "int n < total_training_steps cfg E"
    and kl: "\<forall>k (a :: 'a) (c :: 'c) r. snd (fe_prepare E k a c r) = k"
    and L: "\<forall>i. length (fe_order E i) = loader_len E" "0 < loader_len E"
    and order: "n mod loader_len E \<noteq> 0 \<or> (\<forall>i. fe_order E i = fe_order E 0)"
    and train: "\<not> (fc_val_before_train cfg \<and> fc_val_only cfg)"
  shows "\<exists>s'. ppo_fit cfg E False Resume_Auto (new_process a c k [(n, ck)] (Some n)) = Inr (s', fin) \<and> models s' = models s"
proof -
  let ?L = "loader_len E" and ?T = "total_training_steps cfg E"
  let ?M = "fc_total_epochs cfg * ?L"
  let ?p = "new_process a c k [] None :: ('a, 'c, 'k, 'b) driver"
  have l0: "ppo_load_checkpoint cfg E False Resume_Disable (?p\<lparr>dr_steps := 0\<rparr>) = Inr ?p"
    by (simp add: ppo_load_checkpoint_def resume_folder_def new_process_def)
  let ?f = "step_at E 0 0"
  let ?m = "models ?p"
  let ?N = "last_step ?T 0 ?M"
  have p: "dr_steps ?p = 0" "dr_loader ?p = \<lparr>ld_iteration = 0, ld_given = 0\<rparr>" "dr_ckpts ?p = []" by (simp_all add: new_process_def)
  obtain sA finA where A: "ppo_fit cfg E False Resume_Disable ?p = Inr (sA, finA)" "finA \<longleftrightarrow> 0 < ?M \<and> ?T \<le> int ?N"
    "models sA = model_run cfg E ?f 0 ?N ?m"
    "\<forall>n. map_of (dr_ckpts sA) n = (if 0 < n \<and> n \<le> ?N \<and> saves_at cfg E n
       then Some (checkpoint_of cfg (model_run cfg E ?f 0 n ?m) (next_loader (snd (snd (?f (n - 1)))))) else None)"
    by (rule fit_run [OF l0 L _ _ train, unfolded p]) (auto simp: p)
  have sA: "sA = s" "finA = fin" using A(1) run by simp_all
  from saved(1) A(4) have n: "0 < n" "n \<le> ?N" and ck: "ck = checkpoint_of cfg (model_run cfg E ?f 0 n ?m) (next_loader (snd (snd (?f (n - 1)))))"
    unfolding sA by (auto split: if_splits)
  have nM: "n \<le> ?M" using n(2) by (simp add: last_step_def)
  let ?t = "model_run cfg E ?f 0 n ?m"
  let ?q = "new_process a c k [(n, ck)] (Some n) :: ('a, 'c, 'k, 'b) driver"
  let ?l = "if n mod ?L = 0 then \<lparr>ld_iteration = 0, ld_given = 0\<rparr> else \<lparr>ld_iteration = n div ?L, ld_given = n mod ?L\<rparr>"
  let ?s1 = "?q\<lparr>dr_steps := n, dr_actor := fst ?t, dr_critic := fst (snd ?t), dr_loader := ?l\<rparr>"
  have crit: "\<not> fc_use_critic cfg \<Longrightarrow> fst (snd ?t) = c" using model_run_keeps(2) [of E cfg ?f 0 n ?m] kl
    by (simp add: models_def new_process_def)
  have kls: "snd (snd ?t) = k" using model_run_keeps(1) [of E cfg ?f 0 n ?m] kl by (simp add: models_def new_process_def)
  have ldr: "next_loader (snd (snd (?f (n - 1)))) = \<lparr>ld_iteration = n div ?L, ld_given = n mod ?L\<rparr>" if "n mod ?L \<noteq> 0"
  proof -
    obtain m where m: "n = Suc m" using n(1) by (cases n) auto
    have "Suc (m mod ?L) \<noteq> ?L" using that mod_Suc [of m ?L] by (auto simp: m)
    then have "m div ?L = n div ?L" "Suc (m mod ?L) = n mod ?L" by (simp_all add: m div_Suc mod_Suc)
    then show ?thesis by (simp add: m step_at_def Let_def next_loader_def)
  qed
  have l1: "ppo_load_checkpoint cfg E False Resume_Auto (?q\<lparr>dr_steps := 0\<rparr>) = Inr ?s1"
    using load_latest [of "[(n, ck)]" n ck cfg E a c k] L(2) crit ldr by (auto simp: ck checkpoint_of_def)
  have s1: "dr_steps ?s1 = n" "dr_loader ?s1 = ?l" "models ?s1 = ?t" using kls
    by (simp_all add: models_def new_process_def prod_eq_iff)
  have given: "ld_given ?l = n mod ?L" by simp
  let ?g = "step_at E (ld_iteration ?l) (n div ?L)"
  have N: "last_step ?T n ?M = ?N" using saved(2) n(1) by (auto simp: last_step_def)
  obtain sB finB where B: "ppo_fit cfg E False Resume_Auto ?q = Inr (sB, finB)" "finB \<longleftrightarrow> n < ?M \<and> ?T \<le> int ?N"
    "models sB = model_run cfg E ?g n ?N ?t"
    by (rule fit_run [OF l1 L _ _ train, unfolded s1 N]) (use given nM in auto)
  have "fst (snd (?g i)) = fst (snd (?f i))" if "n \<le> i" for i
  proof (cases "n mod ?L = 0")
    case True
    then show ?thesis using order by (metis step_at_def fst_conv snd_conv)
  next
    case False
    have "n div ?L \<le> i div ?L" using that by (rule div_le_mono)
    then show ?thesis using False by (simp add: step_at_def Let_def)
  qed
  then have "models sB = models s" unfolding B(3) sA(1) [symmetric] A(3) model_run_split [OF _ n(2), of 0, simplified]
    by (intro model_run_cong) simp
  moreover have "finB = fin"
  proof -
    have "?T \<le> int ?N \<Longrightarrow> n < ?M" using saved(2) n(2) by (auto simp: last_step_def)
    then show ?thesis using B(2) A(2) sA(2) by auto
  qed
  ultimately show ?thesis using B(1) by blast
qed

section \<open>Concrete runs\<close>

text \<open>Three batches per epoch, two epochs, a checkpoint every second step, one step of critic warm-up. The training data of
  a step depend on the responses, the critic and the KL coefficient; the second environment raises it by one per step.\<close>

definition example_config :: ppo_config where
  "example_config = \<lparr>fc_total_epochs = 2, fc_total_steps = None, fc_save_freq = 2, fc_test_freq = 3, fc_critic_warmup = 2,
     fc_val_before_train = True, fc_val_only = False, fc_use_critic = True, fc_async_save = False,
     fc_val_rewards_colocated = True\<rparr>"

definition example_env :: "bool \<Rightarrow> (nat, nat, nat, nat, nat, nat) fit_env" where
  "example_env adaptive = \<lparr>fe_order = (\<lambda>_. [10, 20, 30]), fe_val_batches = 1, fe_rollout = (\<lambda>a g b. a + b),
     fe_prepare = (\<lambda>k a c r. (r + k * c, if adaptive then k + 1 else k)), fe_update_critic = (\<lambda>d c. c + d),
     fe_update_actor = (\<lambda>d a. a + 2 * d), fe_esi = (\<lambda>g. g = 5)\<rparr>"

lemma example_env_simps [simp]:
  "loader_len (example_env adaptive) = 3" "total_training_steps example_config (example_env adaptive) = 6"
  "fe_order (example_env adaptive) i = [10, 20, 30]"
  by (simp_all add: loader_len_def example_env_def total_training_steps_def example_config_def)

lemma example_loads:
  "ppo_load_checkpoint example_config (example_env adaptive) False Resume_Disable ((new_process a c k [] None)\<lparr>dr_steps := 0\<rparr>) =
    Inr (new_process a c k [] None)"
  by (simp add: ppo_load_checkpoint_def resume_folder_def new_process_def)

theorem fit_on_policy_witness:
  "\<exists>s' fin. ppo_fit example_config (example_env True) False Resume_Disable (new_process 1 2 3 [] None) = Inr (s', fin) \<and>
    on_policy_trace 1 (dr_trace s')"
  using fit_on_policy [OF example_loads, of 1 2 3 True] by (simp add: new_process_def)

theorem fit_schedule_witness:
  "\<exists>s' fin. ppo_fit example_config (example_env False) False Resume_Disable (new_process 1 2 3 [] None) = Inr (s', fin) \<and>
    batches_used (dr_trace s') = [(1, 10), (2, 20), (3, 30), (4, 10), (5, 20), (6, 30)] \<and>
    epochs_logged (dr_trace s') = [(1, 0), (2, 0), (3, 0), (4, 1), (5, 1), (6, 1)] \<and> fin"
proof -
  let ?p = "new_process 1 2 3 [] None :: (nat, nat, nat, nat) driver"
  have cfg: "fc_total_epochs example_config = 2" "\<not> (fc_val_before_train example_config \<and> fc_val_only example_config)"
    by (simp_all add: example_config_def)
  have p: "dr_steps ?p = 0" "dr_loader ?p = \<lparr>ld_iteration = 0, ld_given = 0\<rparr>" "dr_trace ?p = []" by (simp_all add: new_process_def)
  have six: "[0..<6] = [0, 1, 2, 3, 4, 5 :: nat]" by (simp add: upt_rec)
  have "dr_steps ?p \<le> fc_total_epochs example_config * 3" "ld_given (dr_loader ?p) = dr_steps ?p mod 3" by (simp_all only: p) simp_all
  then have "\<exists>s' fin. ppo_fit example_config (example_env False) False Resume_Disable ?p = Inr (s', fin) \<and>
      batches_used (dr_trace s') = map (\<lambda>j. (j + 1, fe_order (example_env False) (ld_iteration (dr_loader ?p) +
        (j div loader_len (example_env False) - 0 div loader_len (example_env False))) ! (j mod loader_len (example_env False)))) [0..<6] \<and>
      epochs_logged (dr_trace s') = map (\<lambda>j. (j + 1, j div loader_len (example_env False))) [0..<6] \<and>
      (fin \<longleftrightarrow> (0 :: nat) < 6 \<and> total_training_steps example_config (example_env False) \<le> int 6)"
    using p(1) by (intro fit_schedule [OF example_loads p(3)]) (simp_all add: cfg)
  then show ?thesis unfolding six p by (simp del: One_nat_def)
qed

theorem fit_resume_witness:
  "\<exists>s fin ck s'. ppo_fit example_config (example_env False) False Resume_Disable (new_process 1 2 3 [] None) = Inr (s, fin) \<and>
    map_of (dr_ckpts s) 4 = Some ck \<and>
    ppo_fit example_config (example_env False) False Resume_Auto (new_process 1 2 3 [(4, ck)] (Some 4)) = Inr (s', fin) \<and>
    models s' = models s"
proof -
  have cfg: "fc_total_epochs example_config = 2" "\<not> (fc_val_before_train example_config \<and> fc_val_only example_config)"
    by (simp_all add: example_config_def)
  obtain s fin where s: "ppo_fit example_config (example_env False) False Resume_Disable (new_process 1 2 3 [] None) = Inr (s, fin)"
    "\<forall>n. map_of (dr_ckpts s) n \<noteq> None \<longleftrightarrow> 0 < n \<and> n \<le> 6 \<and> saves_at example_config (example_env False) n"
    by (rule fit_run [OF example_loads [of False 1 2 3] _ _ _ _ cfg(2)])
      (auto simp: new_process_def cfg last_step_def split: if_splits)
  have "saves_at example_config (example_env False) 4"
    by (simp add: saves_at_def should_save_def) (simp add: example_config_def)
  then obtain ck where ck: "map_of (dr_ckpts s) 4 = Some ck" using s(2) [rule_format, of 4] by auto
  have "\<exists>s'. ppo_fit example_config (example_env False) False Resume_Auto (new_process 1 2 3 [(4, ck)] (Some 4)) = Inr (s', fin) \<and>
      models s' = models s"
    by (rule fit_resume_same_models [OF s(1) ck _ _ _ _ _ cfg(2)]) (simp_all, simp add: example_env_def)
  then show ?thesis using s(1) ck by blast
qed

text \<open>The adaptive KL coefficient is not part of a checkpoint: a run resumed with it computes other models.\<close>

lemma fit_resume_forgets_kl:
  "\<exists>s fin ck s' fin'. ppo_fit example_config (example_env True) False Resume_Disable (new_process 1 2 3 [] None) = Inr (s, fin) \<and>
    map_of (dr_ckpts s) 4 = Some ck \<and>
    ppo_fit example_config (example_env True) False Resume_Auto (new_process 1 2 3 [(4, ck)] (Some 4)) = Inr (s', fin') \<and>
    dr_actor s' \<noteq> dr_actor s"
proof -
  let ?E = "example_env True"
  let ?p = "new_process 1 2 3 [] None :: (nat, nat, nat, nat) driver"
  have cfg: "fc_total_epochs example_config = 2" "\<not> (fc_val_before_train example_config \<and> fc_val_only example_config)"
    "fc_use_critic example_config"
    by (simp_all add: example_config_def)
  have p: "dr_steps ?p = 0" "dr_loader ?p = \<lparr>ld_iteration = 0, ld_given = 0\<rparr>" "models ?p = (1, 2, 3)" "dr_ckpts ?p = []"
    by (simp_all add: new_process_def models_def)
  have N: "last_step 6 0 6 = 6" "last_step 6 4 6 = 6" by (simp_all add: last_step_def)
  let ?f = "step_at ?E 0 0"
  let ?t = "model_run example_config ?E ?f 0 4 (1, 2, 3)"
  have steps: "[0..<4] = [0, 1, 2, 3 :: nat]" "[0..<6] = [0, 1, 2, 3, 4, 5 :: nat]" "[4..<6] = [4, 5 :: nat]" by (simp_all add: upt_rec)
  note eval = model_run_def steps step_at_def Let_def learn_def example_env_def example_config_def
  obtain s fin where s: "ppo_fit example_config ?E False Resume_Disable ?p = Inr (s, fin)"
    "models s = model_run example_config ?E ?f 0 6 (1, 2, 3)"
    "\<forall>n. map_of (dr_ckpts s) n = (if 0 < n \<and> n \<le> 6 \<and> saves_at example_config ?E n
       then Some (checkpoint_of example_config (model_run example_config ?E ?f 0 n (1, 2, 3)) (next_loader (snd (snd (?f (n - 1)))))) else None)"
    by (rule fit_run [OF example_loads [of True 1 2 3] _ _ _ _ cfg(2), unfolded p]) (auto simp: p cfg N)
  let ?ck = "checkpoint_of example_config ?t \<lparr>ld_iteration = 1, ld_given = 1\<rparr>"
  have "saves_at example_config ?E 4"
    by (simp add: saves_at_def should_save_def) (simp add: example_config_def)
  then have ck: "map_of (dr_ckpts s) 4 = Some ?ck"
    using s(3) [rule_format, of 4] by (simp add: step_at_def next_loader_def)
  let ?q = "new_process 1 2 3 [(4, ?ck)] (Some 4) :: (nat, nat, nat, nat) driver"
  let ?s1 = "?q\<lparr>dr_steps := 4, dr_actor := fst ?t, dr_critic := fst (snd ?t), dr_loader := \<lparr>ld_iteration = 1, ld_given = 1\<rparr>\<rparr>"
  have load: "ppo_load_checkpoint example_config ?E False Resume_Auto (?q\<lparr>dr_steps := 0\<rparr>) = Inr ?s1"
    using load_latest [of "[(4, ?ck)]" 4 ?ck example_config ?E 1 2 3] by (simp add: cfg checkpoint_of_def)
  have s1: "dr_steps ?s1 = 4" "dr_loader ?s1 = \<lparr>ld_iteration = 1, ld_given = 1\<rparr>" "models ?s1 = (fst ?t, fst (snd ?t), 3)"
    by (simp_all add: models_def new_process_def)
  obtain s' fin' where s': "ppo_fit example_config ?E False Resume_Auto ?q = Inr (s', fin')"
    "models s' = model_run example_config ?E (step_at ?E 1 1) 4 6 (fst ?t, fst (snd ?t), 3)"
    by (rule fit_run [OF load _ _ _ _ cfg(2), unfolded s1]) (auto simp: cfg N)
  have "fst (models s') \<noteq> fst (models s)" unfolding s(2) s'(2) by (simp add: eval)
  then show ?thesis using s(1) ck s'(1) by (intro exI conjI) (auto simp: fst_models)
qed

end
