(* ===== verification/RowOrder.thy ===== *)
theory RowOrder
  imports Advantage
begin

text \<open>
  Advantage estimators and the order of the rows. The trainer reorders a batch to balance the ranks before it
  computes advantages; the estimators that only use sums over groups or over the batch give every row the same
  advantages wherever it stands. \<open>perm ix xs\<close> is the list reordered by the positions \<open>ix\<close>.
\<close>

definition perm :: "nat list \<Rightarrow> 'a list \<Rightarrow> 'a list" where
  "perm ix xs = map (\<lambda>i. xs ! i) ix"

text \<open>Every position below \<open>n\<close> exactly once.\<close>

definition reorders :: "nat list \<Rightarrow> nat \<Rightarrow> bool" where
  "reorders ix n \<longleftrightarrow> mset ix = mset [0..<n]"

lemma length_perm [simp]: "length (perm ix xs) = length ix"
  by (simp add: perm_def)

lemma reorders_facts:
  assumes "reorders ix n"
  shows "length ix = n" "\<And>i. i \<in> set ix \<longleftrightarrow> i < n" "distinct ix"
proof -
  show "length ix = n" using assms mset_eq_length [of ix "[0..<n]"] by (simp add: reorders_def)
  show "i \<in> set ix \<longleftrightarrow> i < n" for i using assms mset_eq_setD [of ix "[0..<n]"] by (simp add: reorders_def)
  show "distinct ix" using assms mset_upt_distinct [of ix n] by (simp add: reorders_def)
qed

lemma mset_perm:
  assumes "reorders ix (length xs)"
  shows "mset (perm ix xs) = mset xs"
proof -
  have "mset (perm ix xs) = mset (map (\<lambda>i. xs ! i) [0..<length xs])"
    using assms by (simp add: perm_def reorders_def)
  then show ?thesis by (simp only: map_nth)
qed

lemma perm_map: "\<forall>i \<in> set ix. i < length xs \<Longrightarrow> perm ix (map f xs) = map f (perm ix xs)"
  by (auto simp: perm_def)

lemma perm_zip: "length xs = length ys \<Longrightarrow> \<forall>i \<in> set ix. i < length xs \<Longrightarrow> zip (perm ix xs) (perm ix ys) = perm ix (zip xs ys)"
  by (auto simp: perm_def zip_map_map zip_same_conv_map)

lemma perm_vzip:
  assumes "length xs = length ys" "\<forall>i \<in> set ix. i < length xs"
  shows "vzip f (perm ix xs) (perm ix ys) = perm ix (vzip f xs ys)"
  using assms by (simp add: vzip_def perm_zip perm_map)

lemma perm_scores: "\<forall>i \<in> set ix. i < length R \<Longrightarrow> scores_of (perm ix R) = perm ix (scores_of R)"
  by (simp add: scores_of_def perm_map)

section \<open>Groups\<close>

lemma mset_members:
  assumes "reorders ix (length xs)" "length index = length xs"
  shows "mset (members g (perm ix index) (perm ix xs)) = mset (members g index xs)"
proof -
  have "mset (zip (perm ix index) (perm ix xs)) = mset (zip index xs)"
    using mset_perm [of ix "zip index xs"] assms reorders_facts(2) [OF assms(1)] by (simp add: perm_zip)
  then have "mset (filter (\<lambda>(h, v). h = g) (zip (perm ix index) (perm ix xs))) = mset (filter (\<lambda>(h, v). h = g) (zip index xs))"
    by simp
  then show ?thesis unfolding members_def mset_map by (rule arg_cong)
qed

text \<open>What a group computes must not depend on the order of its members.\<close>

definition symmetric :: "(vec \<Rightarrow> 'b) \<Rightarrow> bool" where
  "symmetric st \<longleftrightarrow> (\<forall>xs ys. mset xs = mset ys \<longrightarrow> st xs = st ys)"

lemma symmetricD: "symmetric st \<Longrightarrow> mset xs = mset ys \<Longrightarrow> st xs = st ys"
  unfolding symmetric_def by blast

lemma per_row_members:
  assumes "length index = length xs"
  shows "per_row (map (\<lambda>(g, ys). (g, st ys)) (group_by index xs)) f index xs =
    vzip (\<lambda>g x. f (st (members g index xs)) x) index xs"
proof -
  have ne: "members g index xs \<noteq> []" if "(g, x) \<in> set (zip index xs)" for g x
  proof -
    have "(g, x) \<in> set (filter (\<lambda>(h, v). h = g) (zip index xs))" using that by simp
    then show ?thesis unfolding members_def by (metis empty_iff empty_set map_is_Nil_conv)
  qed
  show ?thesis unfolding per_row_def vzip_def
  proof (rule map_cong [OF refl])
    fix p
    assume p: "p \<in> set (zip index xs)"
    obtain g x where gx: "p = (g, x)" by (cases p)
    have "map_of (group_by index xs) g = Some (members g index xs)"
      using ne [of g x] p by (simp add: gx map_of_group_by [OF assms])
    then show "(case p of (g, s) \<Rightarrow> case map_of (map (\<lambda>(g, ys). (g, st ys)) (group_by index xs)) g of None \<Rightarrow> s | Some t \<Rightarrow> f t s) =
        (case p of (g, x) \<Rightarrow> f (st (members g index xs)) x)"
      by (simp add: gx map_of_map_snd)
  qed
qed

lemma perm_per_row:
  assumes "reorders ix (length xs)" "length index = length xs" "symmetric st"
  shows "per_row (map (\<lambda>(g, ys). (g, st ys)) (group_by (perm ix index) (perm ix xs))) f (perm ix index) (perm ix xs) =
    perm ix (per_row (map (\<lambda>(g, ys). (g, st ys)) (group_by index xs)) f index xs)"
proof -
  have "st (members g (perm ix index) (perm ix xs)) = st (members g index xs)" for g
    by (rule symmetricD [OF assms(3) mset_members [OF assms(1,2)]])
  then show ?thesis using assms(2) reorders_facts(2) [OF assms(1)]
    by (simp add: per_row_members perm_vzip)
qed

lemma perm_scale_rows:
  "length v = length M \<Longrightarrow> \<forall>i \<in> set ix. i < length M \<Longrightarrow> scale_rows (perm ix v) (perm ix M) = perm ix (scale_rows v M)"
  by (simp add: scale_rows_def perm_vzip)

lemma mean_mset: "mset xs = mset ys \<Longrightarrow> mean xs = mean ys"
  using mset_eq_length [of xs ys] by (metis mean_def sum_mset_sum_list)

lemma std_mset: "mset xs = mset ys \<Longrightarrow> std xs = std ys"
proof -
  assume m: "mset xs = mset ys"
  then have "mset (map (\<lambda>x. (x - mean xs) ^ 2) xs) = mset (map (\<lambda>x. (x - mean ys) ^ 2) ys)" using mean_mset [OF m] by simp
  then have "sq_dev xs = sq_dev ys" unfolding sq_dev_def by (metis sum_mset_sum_list)
  then show ?thesis using mset_eq_length [OF m] by (simp add: std_def)
qed

lemma symmetric_stats [intro]:
  "symmetric grpo_stats" "symmetric baseline_mean" "symmetric (\<lambda>xs. (real (length xs), baseline_mean xs))"
  unfolding symmetric_def grpo_stats_def baseline_mean_def
  by (auto dest: mean_mset std_mset mset_eq_length)

section \<open>Whitening\<close>

lemma msum_perm: "reorders ix (length A) \<Longrightarrow> msum (perm ix A) = msum A"
proof -
  assume r: "reorders ix (length A)"
  have "mset (map sum_list (perm ix A)) = mset (map sum_list A)" using mset_perm [OF r] by simp
  then show ?thesis unfolding msum_def by (metis sum_mset_sum_list)
qed

lemma perm_mzip: "length A = length B \<Longrightarrow> \<forall>i \<in> set ix. i < length A \<Longrightarrow> mzip f (perm ix A) (perm ix B) = perm ix (mzip f A B)"
  by (simp add: mzip_def perm_vzip)

lemma perm_mmap: "\<forall>i \<in> set ix. i < length A \<Longrightarrow> mmap f (perm ix A) = perm ix (mmap f A)"
  by (simp add: mmap_def perm_map)

lemma masked_mean_perm:
  assumes "reorders ix (length A)" "length M = length A"
  shows "masked_mean (perm ix A) (perm ix M) = masked_mean A M"
proof -
  have "length (mzip f A M) = length A" for f :: "real \<Rightarrow> real \<Rightarrow> real" using assms(2) by (simp add: mzip_def vzip_def)
  then show ?thesis using assms reorders_facts(2) [OF assms(1)]
    by (simp add: masked_mean_def masked_sum_def perm_mzip msum_perm)
qed

definition map_result :: "('a \<Rightarrow> 'b) \<Rightarrow> 'a result \<Rightarrow> 'b result" where
  "map_result f r = bind_r r (\<lambda>x. Inr (f x))"

lemma map_result_simps [simp]: "map_result f (Inl e) = Inl e" "map_result f (Inr x) = Inr (f x)"
  by (simp_all add: map_result_def)

lemma masked_whiten_perm:
  assumes "reorders ix (length A)" "length M = length A"
  shows "masked_whiten (perm ix A) (perm ix M) sh = map_result (perm ix) (masked_whiten A M sh)"
proof -
  have v: "masked_var (perm ix A) (perm ix M) True = masked_var A M True"
  proof -
    have "length (mmap f A) = length A" for f :: "real \<Rightarrow> real" by (simp add: mmap_def)
    then show ?thesis using assms reorders_facts(2) [OF assms(1)]
      by (simp add: masked_var_def masked_mean_perm perm_mmap msum_perm Let_def)
  qed
  show ?thesis unfolding masked_whiten_def v masked_mean_perm [OF assms] Let_def
    using reorders_facts(2) [OF assms(1)] by (cases "masked_var A M True") (simp_all add: perm_mmap)
qed

section \<open>Estimators\<close>

lemma grpo_perm:
  assumes "reorders ix (length R)" "length M = length R" "length index = length R"
  shows "compute_grpo_outcome_advantage (perm ix R) (perm ix M) (perm ix index) eps by_std =
    map_result (perm ix) (compute_grpo_outcome_advantage R M index eps by_std)"
proof -
  have "length (scores_of R) = length R" by (simp add: scores_of_def)
  then show ?thesis using assms reorders_facts(1,2) [OF assms(1)]
    by (simp add: compute_grpo_outcome_advantage_def perm_scores Let_def perm_per_row symmetric_stats perm_scale_rows)
qed

lemma rloo_perm:
  assumes "reorders ix (length R)" "length M = length R" "length index = length R"
  shows "compute_rloo_outcome_advantage (perm ix R) (perm ix M) (perm ix index) =
    map_result (perm ix) (compute_rloo_outcome_advantage R M index)"
proof -
  have "length (scores_of R) = length R" by (simp add: scores_of_def)
  then show ?thesis using assms reorders_facts(1,2) [OF assms(1)]
    by (simp add: compute_rloo_outcome_advantage_def perm_scores Let_def perm_per_row symmetric_stats perm_scale_rows)
qed

lemma rfpp_baseline_perm:
  assumes "reorders ix (length R)" "length M = length R" "length index = length R"
  shows "compute_reinforce_plus_plus_baseline_outcome_advantage (perm ix R) (perm ix M) (perm ix index) =
    map_result (perm ix) (compute_reinforce_plus_plus_baseline_outcome_advantage R M index)"
proof -
  have s: "length (scores_of R) = length R" by (simp add: scores_of_def)
  let ?A = "scale_rows (per_row (map (\<lambda>(g, xs). (g, baseline_mean xs)) (group_by index (scores_of R))) (\<lambda>mu s. s - mu) index (scores_of R)) M"
  have A: "length ?A = length R" using assms s by (simp add: scale_rows_def vzip_def)
  have m: "masked_whiten (perm ix ?A) (perm ix M) True = map_result (perm ix) (masked_whiten ?A M True)"
    by (rule masked_whiten_perm) (use assms A in simp_all)
  have w: "masked_whiten ?A M True = Inr W \<Longrightarrow> length W = length R" for W
    using A by (auto simp: masked_whiten_def mmap_def Let_def res_simps)
  have "compute_reinforce_plus_plus_baseline_outcome_advantage (perm ix R) (perm ix M) (perm ix index) =
      bind_r (masked_whiten (perm ix ?A) (perm ix M) True) (\<lambda>w. Inr (mzip (\<lambda>x m. x * m) w (perm ix M)))"
    using assms s reorders_facts(1,2) [OF assms(1)]
    by (simp add: compute_reinforce_plus_plus_baseline_outcome_advantage_def perm_scores Let_def perm_per_row symmetric_stats perm_scale_rows)
  moreover have "compute_reinforce_plus_plus_baseline_outcome_advantage R M index =
      bind_r (masked_whiten ?A M True) (\<lambda>w. Inr (mzip (\<lambda>x m. x * m) w M))"
    using assms by (simp add: compute_reinforce_plus_plus_baseline_outcome_advantage_def Let_def)
  ultimately show ?thesis unfolding m using w assms(2) reorders_facts(2) [OF assms(1)]
    by (cases "masked_whiten ?A M True") (simp_all add: perm_mzip)
qed

lemma gpg_perm:
  assumes "reorders ix (length R)" "length M = length R" "length index = length R"
  shows "compute_gpg_outcome_advantage (perm ix R) (perm ix M) (perm ix index) f_norm =
    map_result (perm ix) (compute_gpg_outcome_advantage R M index f_norm)"
proof -
  have s: "length (scores_of R) = length R" by (simp add: scores_of_def)
  have "mset (filter (\<lambda>s. s \<noteq> 0) (perm ix (scores_of R))) = mset (filter (\<lambda>s. s \<noteq> 0) (scores_of R))"
    using mset_perm [of ix "scores_of R"] assms(1) s by simp
  then have "length (filter (\<lambda>s. s \<noteq> 0) (perm ix (scores_of R))) = length (filter (\<lambda>s. s \<noteq> 0) (scores_of R))"
    by (rule mset_eq_length)
  then show ?thesis using assms s reorders_facts(1,2) [OF assms(1)]
    by (simp add: compute_gpg_outcome_advantage_def perm_scores Let_def perm_per_row symmetric_stats perm_scale_rows)
qed

definition perm2 :: "nat list \<Rightarrow> 'a list \<times> 'b list \<Rightarrow> 'a list \<times> 'b list" where
  "perm2 ix = (\<lambda>(A, B). (perm ix A, perm ix B))"

lemma gae_perm:
  assumes "reorders ix (length R)" "length V = length R" "length M = length R"
  shows "compute_gae_advantage_return (perm ix R) (perm ix V) (perm ix M) gamma lam =
    map_result (perm2 ix) (compute_gae_advantage_return R V M gamma lam)"
proof -
  let ?A = "gae_rows gamma lam R V M"
  have A: "length ?A = length R" using assms by (simp add: gae_rows_def)
  have rows: "gae_rows gamma lam (perm ix R) (perm ix V) (perm ix M) = perm ix ?A"
    using assms reorders_facts(2) [OF assms(1)] by (simp add: gae_rows_def perm_zip perm_map)
  show ?thesis unfolding compute_gae_advantage_return_def rows Let_def
    using masked_whiten_perm [of ix ?A M True] assms A reorders_facts(2) [OF assms(1)]
    by (cases "masked_whiten ?A M True") (simp_all add: perm_mzip perm2_def)
qed

lemma rfpp_perm:
  assumes "reorders ix (length R)" "length M = length R"
  shows "compute_reinforce_plus_plus_outcome_advantage (perm ix R) (perm ix M) gamma =
    map_result (perm2 ix) (compute_reinforce_plus_plus_outcome_advantage R M gamma)"
proof -
  let ?A = "vzip (\<lambda>r m. fst (rfpp_row gamma (zip r m))) R M"
  have A: "length ?A = length R" using assms by (simp add: vzip_def)
  have rows: "vzip (\<lambda>r m. fst (rfpp_row gamma (zip r m))) (perm ix R) (perm ix M) = perm ix ?A"
    using assms reorders_facts(2) [OF assms(1)] by (simp add: perm_vzip)
  have w: "masked_whiten ?A M True = Inr W \<Longrightarrow> length W = length R" for W
    using A by (auto simp: masked_whiten_def mmap_def Let_def res_simps)
  show ?thesis unfolding compute_reinforce_plus_plus_outcome_advantage_def rows Let_def
    using masked_whiten_perm [of ix ?A M True] assms A w reorders_facts(2) [OF assms(1)]
    by (cases "masked_whiten ?A M True") (simp_all add: perm_mzip perm2_def)
qed

lemma remax_perm:
  assumes "reorders ix (length R)" "length M = length R" "length b = length R"
  shows "compute_remax_outcome_advantage (perm ix R) (perm ix b) (perm ix M) = perm2 ix (compute_remax_outcome_advantage R b M)"
proof -
  have i: "\<forall>i \<in> set ix. i < length R" using reorders_facts(2) [OF assms(1)] by simp
  have l: "length (mzip f R M) = length R" for f :: "real \<Rightarrow> real \<Rightarrow> real" using assms(2) by (simp add: mzip_def vzip_def)
  have "rewards_to_go (perm ix R) (perm ix M) = perm ix (rewards_to_go R M)"
    using assms i l by (simp add: rewards_to_go_def perm_mzip perm_map)
  moreover have "length (rewards_to_go R M) = length R" "length (scale_rows b M) = length R"
    using assms l by (simp_all add: rewards_to_go_def scale_rows_def vzip_def)
  ultimately show ?thesis using assms i
    by (simp add: compute_remax_outcome_advantage_def perm2_def perm_scale_rows perm_mzip Let_def)
qed

end
