(* ===== verification/PPOAdvantage.thy ===== *)
theory PPOAdvantage
  imports RowOrder PolicyLoss TokenBaseline Resample AgentBatch
begin

text \<open>
  Rewards and advantages of a training batch (\<^verbatim>\<open>verl/trainer/ppo/ray_trainer.py\<close>: \<open>apply_kl_penalty\<close>,
  \<open>compute_response_mask\<close>, \<open>compute_advantage\<close>), with the registry of estimators of \<^verbatim>\<open>core_algos.py\<close>. The
  rows of the batch are those of \<open>AgentBatch\<close>: token ids and masks are integers, the rest are reals. A tensor of one
  dimension has rows of one entry. An estimator returns None where torch would give NaN values.
\<close>

section \<open>Tensors of a batch\<close>

definition real_row :: "'e agent_row \<Rightarrow> vec result" where
  "real_row row = (case row of Reals v \<Rightarrow> Inr v | Ids is \<Rightarrow> Inr (map real_of_int is) | Experts es \<Rightarrow> Inl TypeError)"

definition tensor :: "string \<Rightarrow> ('e agent_row, 'o, 'm) data_proto \<Rightarrow> mat result" where
  "tensor key d = (case dp_batch d of
       None \<Rightarrow> Inl TypeError
     | Some b \<Rightarrow> bind_r (dict_item (td_items b) key) (map_r real_row))"

definition has_tensor :: "string \<Rightarrow> ('r, 'o, 'm) data_proto \<Rightarrow> bool" where
  "has_tensor key d = (case dp_batch d of None \<Rightarrow> False | Some b \<Rightarrow> map_of (td_items b) key \<noteq> None)"

text \<open>\<open>TensorDict\<close> checks the batch size of a tensor that is set.\<close>

definition set_tensor :: "string \<Rightarrow> 'r list \<Rightarrow> ('r, 'o, 'm) data_proto \<Rightarrow> ('r, 'o, 'm) data_proto result" where
  "set_tensor key rows d = (case dp_batch d of
       None \<Rightarrow> Inl TypeError
     | Some b \<Rightarrow> require (length rows = td_size b) RuntimeError
         (Inr (d\<lparr>dp_batch := Some (b\<lparr>td_items := dict_set key rows (td_items b)\<rparr>)\<rparr>)))"

section \<open>KL penalty in the reward\<close>

definition kl_matrix :: "string \<Rightarrow> mat \<Rightarrow> mat \<Rightarrow> mat result" where
  "kl_matrix penalty P Q =
     bind_r (kl_penalty (0, 0) (0, 0) penalty) (\<lambda>_. Inr (mzip (\<lambda>p q. fst (projr (kl_penalty (p, 0) (q, 0) penalty))) P Q))"

definition row_masked_mean :: "vec \<Rightarrow> vec \<Rightarrow> real" where
  "row_masked_mean v m = sum_list (vzip (\<lambda>x k. (if k \<noteq> 0 then x else 0) * k) v m) / (sum_list m + 1 / 10 ^ 8)"

text \<open>The mean of an empty batch is NaN, and so is an adaptive coefficient after it.\<close>

definition update_controller :: "real option \<Rightarrow> real \<Rightarrow> kl_controller \<Rightarrow> kl_controller option" where
  "update_controller current_kl n_steps ctrl = (case (current_kl, ctrl) of
       (Some k, _) \<Rightarrow> Some (kl_update k n_steps ctrl) | (None, Fixed v) \<Rightarrow> Some ctrl | (None, Adaptive v t h) \<Rightarrow> None)"

definition apply_kl_penalty :: "('e agent_row, 'o, 'm) data_proto \<Rightarrow> kl_controller \<Rightarrow> string \<Rightarrow>
    (('e agent_row, 'o, 'm) data_proto \<times> kl_controller option \<times> real option \<times> real) result" where
  "apply_kl_penalty d kl_ctrl penalty =
     bind_r (tensor ''response_mask'' d) (\<lambda>response_mask.
     bind_r (tensor ''token_level_scores'' d) (\<lambda>token_level_scores.
     bind_r (tensor ''old_log_probs'' d) (\<lambda>old_log_probs.
     bind_r (tensor ''ref_log_prob'' d) (\<lambda>ref_log_prob.
     bind_r (kl_matrix penalty old_log_probs ref_log_prob) (\<lambda>k.
     let kld = mzip (\<lambda>x m. x * m) k response_mask;
         beta = kl_value kl_ctrl;
         token_level_rewards = mzip (\<lambda>s x. s - beta * x) token_level_scores kld;
         current_kl = div_fin (sum_list (vzip row_masked_mean kld response_mask)) (real (length kld))
     in bind_r (set_tensor ''token_level_rewards'' (map Reals token_level_rewards) d) (\<lambda>d'.
          Inr (d', update_controller current_kl (real (dp_len d)) kl_ctrl, current_kl, beta)))))))"

section \<open>Advantages\<close>

fun row_size :: "'e agent_row \<Rightarrow> nat" where
  "row_size (Ids is) = length is"
| "row_size (Reals v) = length v"
| "row_size (Experts es) = length es"

text \<open>\<open>row[-n:]\<close>\<close>

fun row_tail :: "nat \<Rightarrow> 'e agent_row \<Rightarrow> 'e agent_row" where
  "row_tail n (Ids is) = Ids (slice_from (- int n) is)"
| "row_tail n (Reals v) = Reals (slice_from (- int n) v)"
| "row_tail n (Experts es) = Experts (slice_from (- int n) es)"

definition compute_response_mask :: "('e agent_row, 'o, 'm) data_proto \<Rightarrow> 'e agent_row list result" where
  "compute_response_mask d = (case dp_batch d of
       None \<Rightarrow> Inl TypeError
     | Some b \<Rightarrow> bind_r (dict_item (td_items b) ''responses'') (\<lambda>responses.
         bind_r (dict_item (td_items b) ''attention_mask'') (\<lambda>attention_mask.
           let response_length = (case responses of [] \<Rightarrow> 0 | row # _ \<Rightarrow> row_size row)
           in Inr (map (row_tail response_length) attention_mask))))"

record algo_config =
  ac_gamma :: real
  ac_norm_by_std :: "bool option"
  ac_use_pf_ppo :: bool
  ac_reweight_method :: string
  ac_weight_pow :: real
  ac_gdpo_keys :: "string list"
  ac_gdpo_weights :: "vec option"

text \<open>The keyword arguments of an estimator; the last one holds \<open>sum_pi_squared\<close>, \<open>old_log_probs\<close> and the importance weights.\<close>

record 'g adv_kwargs =
  ak_rewards :: mat
  ak_mask :: mat
  ak_config :: algo_config
  ak_index :: "'g list option"
  ak_baselines :: "vec option"
  ak_gdpo :: "gdpo_input option"
  ak_otb :: "(mat \<times> mat \<times> mat option) option"

type_synonym 'g adv_estimator = "'g adv_kwargs \<Rightarrow> (mat \<times> mat) option result"

definition needs_index :: "'g adv_kwargs \<Rightarrow> ('g list \<Rightarrow> 'a result) \<Rightarrow> 'a result" where
  "needs_index k f = (case ak_index k of None \<Rightarrow> Inl TypeError | Some index \<Rightarrow> f index)"

definition both :: "mat result \<Rightarrow> (mat \<times> mat) option result" where
  "both r = bind_r r (\<lambda>A. Inr (Some (A, A)))"

text \<open>The registered estimators beside GAE and GRPO, which \<open>compute_advantage\<close> calls itself, with their default arguments.
  Labels of groups are compared by \<open>np.unique\<close> where numbers are needed (\<open>as_torch_index\<close>); \<open>argmax\<close> is the index
  \<open>torch.topk\<close> gives first. The vectorised GRPO estimator takes no further keywords.\<close>

definition adv_estimators :: "(vec \<Rightarrow> nat) \<Rightarrow> (string, ('g :: linorder) adv_estimator) dict" where
  "adv_estimators argmax =
    [(''grpo_vectorized'', \<lambda>k. require (ak_baselines k = None) TypeError (needs_index k (\<lambda>index.
        both (compute_grpo_vectorized_outcome_advantage (ak_rewards k) (ak_mask k) (unique_inverse index) (1 / 10 ^ 6) True)))),
     (''gdpo'', \<lambda>k. needs_index k (\<lambda>index.
        both (compute_gdpo_outcome_advantage (ak_rewards k) (ak_mask k) index (1 / 10 ^ 6) True (ak_gdpo k)))),
     (''grpo_passk'', \<lambda>k. needs_index k (\<lambda>index.
        both (compute_grpo_passk_outcome_advantage argmax (ak_rewards k) (ak_mask k) index (1 / 10 ^ 6)
          (case ac_norm_by_std (ak_config k) of None \<Rightarrow> True | Some b \<Rightarrow> b)))),
     (''reinforce_plus_plus_baseline'', \<lambda>k. needs_index k (\<lambda>index.
        both (compute_reinforce_plus_plus_baseline_outcome_advantage (ak_rewards k) (ak_mask k) index))),
     (''rloo'', \<lambda>k. needs_index k (\<lambda>index. both (compute_rloo_outcome_advantage (ak_rewards k) (ak_mask k) index))),
     (''opo'', \<lambda>k. needs_index k (\<lambda>index.
        bind_r (compute_opo_outcome_advantage (ak_rewards k) (ak_mask k) index) (\<lambda>r. Inr (map_option (\<lambda>A. (A, A)) r)))),
     (''reinforce_plus_plus'', \<lambda>k.
        bind_r (compute_reinforce_plus_plus_outcome_advantage (ak_rewards k) (ak_mask k) (ac_gamma (ak_config k))) (\<lambda>r. Inr (Some r))),
     (''remax'', \<lambda>k. case ak_baselines k of None \<Rightarrow> Inl TypeError
        | Some b \<Rightarrow> Inr (Some (compute_remax_outcome_advantage (ak_rewards k) b (ak_mask k)))),
     (''gpg'', \<lambda>k. needs_index k (\<lambda>index. both (compute_gpg_outcome_advantage (ak_rewards k) (ak_mask k) index 1))),
     (''rloo_vectorized'', \<lambda>k. needs_index k (\<lambda>index.
        both (Inr (compute_rloo_vectorized_outcome_advantage (ak_rewards k) (ak_mask k) index)))),
     (''optimal_token_baseline'', \<lambda>k. needs_index k (\<lambda>index. case ak_otb k of None \<Rightarrow> Inl TypeError
        | Some (sq, lps, w) \<Rightarrow> compute_optimal_token_baseline_advantage (ak_rewards k) (ak_mask k) index lps sq w True (1 / 10 ^ 8))),
     (''tir_optimal_token_baseline'', \<lambda>k. needs_index k (\<lambda>index. case ak_otb k of None \<Rightarrow> Inl TypeError
        | Some (sq, lps, w) \<Rightarrow> compute_multi_turn_optimal_token_baseline_advantage (ak_rewards k) (ak_mask k) index lps sq w True (1 / 10 ^ 8)))]"

definition optional_tensor :: "string \<Rightarrow> ('e agent_row, 'o, 'm) data_proto \<Rightarrow> mat option result" where
  "optional_tensor key d = (if has_tensor key d then bind_r (tensor key d) (\<lambda>A. Inr (Some A)) else Inr None)"

text \<open>What GDPO reads: the scores of its dimensions, as reals, and the attention mask after the prompts.\<close>

definition gdpo_kwargs :: "('o \<Rightarrow> real) \<Rightarrow> algo_config \<Rightarrow> ('e agent_row, 'o, 'm) data_proto \<Rightarrow> gdpo_input result" where
  "gdpo_kwargs as_real cfg d =
     require (map_of (dp_non_tensor d) ''uid'' \<noteq> None) TypeError (require (ac_gdpo_keys cfg \<noteq> []) AssertionError
     (bind_r (tensor ''prompts'' d) (\<lambda>prompts. bind_r (tensor ''attention_mask'' d) (\<lambda>attention.
       let width = (case prompts of [] \<Rightarrow> 0 | row # _ \<Rightarrow> length row)
       in Inr \<lparr>gi_reward_keys = ac_gdpo_keys cfg, gi_reward_weights = ac_gdpo_weights cfg,
               gi_non_tensor = map_items (map as_real) (dp_non_tensor d), gi_response_attention = map (drop width) attention\<rparr>))))"

definition otb_names :: "string list" where
  "otb_names = [''optimal_token_baseline'', ''tir_optimal_token_baseline'']"

definition estimator_kwargs :: "('o \<Rightarrow> real) \<Rightarrow> string \<Rightarrow> algo_config \<Rightarrow> mat \<Rightarrow> mat \<Rightarrow> ('e agent_row, 'o, 'm) data_proto \<Rightarrow>
    'o adv_kwargs result" where
  "estimator_kwargs as_real est cfg rewards response_mask d =
     bind_r (optional_tensor ''reward_baselines'' d) (\<lambda>baselines.
     bind_r (if est = ''gdpo'' then bind_r (gdpo_kwargs as_real cfg d) (\<lambda>g. Inr (Some g)) else Inr None) (\<lambda>gdpo.
     bind_r (if est \<in> set otb_names
             then require (has_tensor ''sum_pi_squared'' d) AssertionError
               (bind_r (tensor ''sum_pi_squared'' d) (\<lambda>sq. bind_r (tensor ''old_log_probs'' d) (\<lambda>lps.
                bind_r (optional_tensor ''rollout_is_weights'' d) (\<lambda>w. Inr (Some (sq, lps, w))))))
             else Inr None) (\<lambda>otb.
       Inr \<lparr>ak_rewards = rewards, ak_mask = response_mask, ak_config = cfg, ak_index = map_of (dp_non_tensor d) ''uid'',
            ak_baselines = map_option (map hd) baselines, ak_gdpo = gdpo, ak_otb = otb\<rparr>)))"

definition set_advantages :: "(mat \<times> mat) \<Rightarrow> ('e agent_row, 'o, 'm) data_proto \<Rightarrow> ('e agent_row, 'o, 'm) data_proto result" where
  "set_advantages AR d = bind_r (set_tensor ''advantages'' (map Reals (fst AR)) d) (set_tensor ''returns'' (map Reals (snd AR)))"

definition row_total :: "'e agent_row \<Rightarrow> real" where
  "row_total row = (case real_row row of Inl _ \<Rightarrow> 0 | Inr v \<Rightarrow> sum_list v)"

definition with_response_mask :: "('e agent_row, 'o, 'm) data_proto \<Rightarrow> ('e agent_row, 'o, 'm) data_proto result" where
  "with_response_mask d = (if dp_batch d = None then Inl AttributeError
     else if has_tensor ''response_mask'' d then Inr d
     else bind_r (compute_response_mask d) (\<lambda>rows. set_tensor ''response_mask'' rows d))"

definition compute_advantage :: "(string, 'o adv_estimator) dict \<Rightarrow> (vec \<Rightarrow> nat \<Rightarrow> nat list) \<Rightarrow> ('o \<Rightarrow> real) \<Rightarrow>
    ('e agent_row, 'o, 'm) data_proto \<Rightarrow> string \<Rightarrow> real \<Rightarrow> real \<Rightarrow> bool \<Rightarrow> algo_config \<Rightarrow>
    ('e agent_row, 'o, 'm) data_proto option result" where
  "compute_advantage registry multinomial as_real d est gamma lam by_std cfg =
     bind_r (with_response_mask d) (\<lambda>d.
     bind_r (tensor ''token_level_rewards'' d) (\<lambda>rewards.
     bind_r (tensor ''response_mask'' d) (\<lambda>response_mask.
       if est = ''gae'' then
         bind_r (tensor ''values'' d) (\<lambda>values.
         bind_r (compute_gae_advantage_return rewards values response_mask gamma lam) (\<lambda>AR.
         bind_r (set_advantages AR d) (\<lambda>d'.
           if ac_use_pf_ppo cfg
           then bind_r (compute_pf_ppo_reweight_data row_total multinomial d' (ac_reweight_method cfg) (ac_weight_pow cfg)) (\<lambda>e. Inr (Some e))
           else Inr (Some d'))))
       else if est = ''grpo'' then
         bind_r (dict_item (dp_non_tensor d) ''uid'') (\<lambda>index.
         bind_r (compute_grpo_outcome_advantage rewards response_mask index (1 / 10 ^ 6) by_std) (\<lambda>A.
         bind_r (set_advantages (A, A) d) (\<lambda>d'. Inr (Some d'))))
       else
         bind_r (get_adv_estimator_fn est registry) (\<lambda>f.
         bind_r (estimator_kwargs as_real est cfg rewards response_mask d) (\<lambda>kwargs.
         bind_r (f kwargs) (\<lambda>r. case r of
             None \<Rightarrow> Inr None
           | Some AR \<Rightarrow> bind_r (set_advantages AR d) (\<lambda>d'. Inr (Some d'))))))))"

section \<open>Reading and writing tensors\<close>

lemma length_real_rows: "map_r real_row rows = Inr A \<Longrightarrow> length A = length rows"
  by (rule length_map_r)

lemma tensor_rows:
  "tensor key d = Inr A \<longleftrightarrow> (\<exists>b rows. dp_batch d = Some b \<and> map_of (td_items b) key = Some rows \<and> map_r real_row rows = Inr A)"
  by (auto simp: tensor_def dict_item_def res_simps split: option.splits)

lemma tensor_size:
  assumes "dp_ok d" "tensor key d = Inr A"
  shows "length A = dp_len d"
proof -
  from assms(2) obtain b rows where "dp_batch d = Some b" "map_of (td_items b) key = Some rows" "map_r real_row rows = Inr A"
    unfolding tensor_rows by blast
  then show ?thesis using tensor_length [OF assms(1)] length_real_rows map_of_SomeD by metis
qed

lemma real_rows_Reals [simp]: "map_r real_row (map Reals A) = Inr A"
  by (induction A) (simp_all add: real_row_def)

lemma tensor_set_tensor:
  "set_tensor key rows d = Inr d' \<Longrightarrow> tensor key' d' = (if key' = key then map_r real_row rows else tensor key' d)"
  by (auto simp: set_tensor_def tensor_def dict_item_def res_simps split: option.splits)

lemma set_tensor_same:
  assumes "set_tensor key rows d = Inr d'"
  shows "dp_non_tensor d' = dp_non_tensor d" "dp_meta d' = dp_meta d" "dp_len d' = dp_len d" "dp_batch d' \<noteq> None"
  using assms by (auto simp: set_tensor_def res_simps dp_len_def split: option.splits)

lemma set_tensor_ok:
  assumes "dp_ok d" "set_tensor key rows d = Inr d'"
  shows "dp_ok d'"
proof -
  obtain b where b: "dp_batch d = Some b" "length rows = td_size b"
    "d' = d\<lparr>dp_batch := Some (b\<lparr>td_items := dict_set key rows (td_items b)\<rparr>)\<rparr>"
    using assms(2) by (auto simp: set_tensor_def res_simps split: option.splits)
  have td: "distinct (dict_keys (td_items b))" "\<forall>(k, v) \<in> set (td_items b). length v = td_size b"
    using assms(1) b(1) by (simp_all add: dp_ok_def td_ok_def)
  have "distinct (dict_keys (dict_set key rows (td_items b)))" using td(1) by simp
  moreover have "length v = td_size b" if "(k, v) \<in> set (dict_set key rows (td_items b))" for k v
  proof -
    have "map_of (dict_set key rows (td_items b)) k = Some v" using calculation that unfolding dict_keys_def by (rule map_of_is_SomeI)
    then show ?thesis using td(2) b(2) by (auto split: if_splits dest!: map_of_SomeD)
  qed
  ultimately show ?thesis using assms(1) by (auto simp: b dp_ok_def td_ok_def dp_len_def)
qed

section \<open>The KL penalty\<close>

lemma sum_vzip_charge:
  fixes beta :: real
  shows "length ys = length xs \<Longrightarrow> sum_list (vzip (\<lambda>s x. s - beta * x) xs ys) = sum_list xs - beta * sum_list ys"
proof (induction xs arbitrary: ys)
  case (Cons x xs)
  then show ?case by (cases ys) (simp_all add: vzip_def algebra_simps)
qed (simp add: vzip_def)

text \<open>C26 With a penalty in the reward, every response token is charged the coefficient times its divergence from the reference policy
  and padding keeps its score; so the total reward of a row is its score minus the coefficient times the divergence
  of its response. Nothing else in the batch changes, and the metric is the coefficient before its update.\<close>

theorem kl_penalty_in_reward:
  assumes ok: "dp_ok d"
    and cols: "tensor ''response_mask'' d = Inr M" "tensor ''token_level_scores'' d = Inr S"
      "tensor ''old_log_probs'' d = Inr P" "tensor ''ref_log_prob'' d = Inr Q"
    and sh: "same_shape M S" "same_shape P S" "same_shape Q S" and mask: "is_mask M"
    and pen: "kl_penalty (0, 0) (0, 0) penalty = Inr k0"
  defines "kl \<equiv> \<lambda>p q. fst (projr (kl_penalty (p, 0) (q, 0) penalty))"
  shows "\<exists>d' ctrl' current R. apply_kl_penalty d ctrl penalty = Inr (d', ctrl', current, kl_value ctrl) \<and>
    tensor ''token_level_rewards'' d' = Inr R \<and> same_shape R S \<and>
    (\<forall>i < length S. \<forall>t < length (S ! i). R ! i ! t =
       (if M ! i ! t = 0 then S ! i ! t else S ! i ! t - kl_value ctrl * kl (P ! i ! t) (Q ! i ! t))) \<and>
    (\<forall>i < length S. sum_list (R ! i) = sum_list (S ! i) -
       kl_value ctrl * sum_list (vzip (\<lambda>x m. x * m) (vzip kl (P ! i) (Q ! i)) (M ! i))) \<and>
    (\<forall>key. key \<noteq> ''token_level_rewards'' \<longrightarrow> tensor key d' = tensor key d) \<and>
    dp_non_tensor d' = dp_non_tensor d \<and> dp_meta d' = dp_meta d"
proof -
  let ?K = "mzip (\<lambda>x m. x * m) (mzip kl P Q) M"
  let ?R = "mzip (\<lambda>s x. s - kl_value ctrl * x) S ?K"
  have km: "kl_matrix penalty P Q = Inr (mzip kl P Q)" unfolding kl_matrix_def pen kl_def by simp
  obtain b where b: "dp_batch d = Some b" using cols(1) by (auto simp: tensor_rows)
  have lens: "length S = dp_len d" "length M = length S" "length P = length S" "length Q = length S"
    using tensor_size [OF ok] cols by simp_all
  have rl: "length (M ! i) = length (S ! i)" "length (P ! i) = length (S ! i)" "length (Q ! i) = length (S ! i)"
    if "i < length S" for i using that sh lens by (auto simp: same_shape_def list_all2_conv_all_nth)
  have R: "length ?R = length S" "\<And>i. i < length S \<Longrightarrow> length (?R ! i) = length (S ! i)"
    using lens rl by (simp_all add: mzip_def vzip_def)
  have sz: "td_size b = dp_len d" using b by (simp add: dp_len_def)
  obtain d' where d': "set_tensor ''token_level_rewards'' (map Reals ?R) d = Inr d'"
    using b R(1) lens(1) sz by (simp add: set_tensor_def)
  note same = set_tensor_same [OF d'] tensor_set_tensor [OF d']
  have entry: "?R ! i ! t = (if M ! i ! t = 0 then S ! i ! t else S ! i ! t - kl_value ctrl * kl (P ! i ! t) (Q ! i ! t))"
    if "i < length S" "t < length (S ! i)" for i t
  proof -
    have "M ! i \<in> set M" "M ! i ! t \<in> set (M ! i)" using that rl(1) [OF that(1)] lens(2) by simp_all
    then have "M ! i ! t = 0 \<or> M ! i ! t = 1" using mask unfolding is_mask_def by blast
    then show ?thesis using that lens rl [OF that(1)] by (auto simp: mzip_def vzip_def)
  qed
  have total: "sum_list (?R ! i) = sum_list (S ! i) - kl_value ctrl * sum_list (vzip (\<lambda>x m. x * m) (vzip kl (P ! i) (Q ! i)) (M ! i))"
    if "i < length S" for i
  proof -
    have "?R ! i = vzip (\<lambda>s x. s - kl_value ctrl * x) (S ! i) (vzip (\<lambda>x m. x * m) (vzip kl (P ! i) (Q ! i)) (M ! i))"
      using that lens by (simp add: mzip_def vzip_def)
    moreover have "length (vzip (\<lambda>x m. x * m) (vzip kl (P ! i) (Q ! i)) (M ! i)) = length (S ! i)"
      using rl [OF that] by (simp add: vzip_def)
    ultimately show ?thesis by (simp only: sum_vzip_charge)
  qed
  have "apply_kl_penalty d ctrl penalty = Inr (d', update_controller
      (div_fin (sum_list (vzip row_masked_mean ?K M)) (real (length ?K))) (real (dp_len d)) ctrl,
      div_fin (sum_list (vzip row_masked_mean ?K M)) (real (length ?K)), kl_value ctrl)"
    by (simp add: apply_kl_penalty_def cols km Let_def d')
  moreover have "tensor ''token_level_rewards'' d' = Inr ?R" using same(5) by simp
  moreover have "same_shape ?R S" using R by (simp add: same_shape_def list_all2_conv_all_nth)
  moreover have "\<forall>key. key \<noteq> ''token_level_rewards'' \<longrightarrow> tensor key d' = tensor key d" using same(5) by simp
  ultimately show ?thesis using entry total same(1,2) by blast
qed
section \<open>The order of the rows\<close>

text \<open>The batch with all columns reordered.\<close>

definition reordered :: "nat list \<Rightarrow> ('r, 'o, 'm) data_proto \<Rightarrow> ('r, 'o, 'm) data_proto" where
  "reordered ix d = cols (perm ix) (perm ix) (length ix) d"

lemma reorder_reordered:
  assumes "dp_ok d" "dp_batch d \<noteq> None" "reorders ix (dp_len d)"
  shows "reorder (map int ix) d = Inr (reordered ix d)"
proof -
  obtain b where b: "dp_batch d = Some b" using assms(2) by blast
  have r: "\<forall>i \<in> set ix. i < dp_len d" using reorders_facts(2) [OF assms(3)] by simp
  have "items_r (pick (Idxs (map int ix))) (td_items b) = Inr (map_items (perm ix) (td_items b))"
    by (rule items_r_total) (simp only: perm_def pick_in_range [OF tensor_length [OF assms(1) b] r])
  moreover have "items_r (pick (Idxs (map int ix))) (dp_non_tensor d) = Inr (map_items (perm ix) (dp_non_tensor d))"
    by (rule items_r_total) (simp only: perm_def pick_in_range [OF array_length [OF assms(1)] r])
  ultimately show ?thesis by (simp add: reorder_def b reordered_def cols_def)
qed

lemma map_items_dict_set: "map_items f (dict_set k v d) = dict_set k (f v) (map_items f d)"
  by (induction d) (auto simp: map_items_def)

lemma perm_map_r:
  assumes "map_r f xs = Inr ys" "\<forall>i \<in> set ix. i < length xs"
  shows "map_r f (perm ix xs) = Inr (perm ix ys)"
proof -
  have l: "list_all2 (\<lambda>x y. f x = Inr y) xs ys" using assms(1) by (simp add: map_r_Inr)
  then have "list_all2 (\<lambda>x y. f x = Inr y) (perm ix xs) (perm ix ys)"
    using assms(2) list_all2_nthD [OF l] by (auto simp: perm_def list_all2_map1 list_all2_map2 list_all2_same)
  then show ?thesis by (simp add: map_r_Inr)
qed

lemma tensor_reordered:
  assumes "dp_ok d" "reorders ix (dp_len d)" "tensor key d = Inr A"
  shows "tensor key (reordered ix d) = Inr (perm ix A)"
proof -
  obtain b rows where b: "dp_batch d = Some b" "map_of (td_items b) key = Some rows" "map_r real_row rows = Inr A"
    using assms(3) unfolding tensor_rows by blast
  have "length rows = dp_len d" using tensor_length [OF assms(1) b(1)] b(2) map_of_SomeD by metis
  then have "map_r real_row (perm ix rows) = Inr (perm ix A)"
    using b(3) reorders_facts(2) [OF assms(2)] by (intro perm_map_r) simp_all
  then show ?thesis by (simp add: tensor_def reordered_def cols_def b dict_item_def map_of_map_items)
qed

lemma has_tensor_reordered [simp]: "has_tensor key (reordered ix d) = has_tensor key d"
  by (simp add: has_tensor_def reordered_def cols_def map_of_map_items split: option.splits)

lemma set_tensor_reordered:
  assumes "reorders ix (dp_len d)" "set_tensor key rows d = Inr d'"
  shows "set_tensor key (perm ix rows) (reordered ix d) = Inr (reordered ix d')"
proof -
  obtain b where b: "dp_batch d = Some b" "length rows = td_size b"
    "d' = d\<lparr>dp_batch := Some (b\<lparr>td_items := dict_set key rows (td_items b)\<rparr>)\<rparr>"
    using assms(2) by (auto simp: set_tensor_def res_simps split: option.splits)
  show ?thesis by (simp add: b set_tensor_def reordered_def cols_def map_items_dict_set)
qed

lemma set_advantages_reordered:
  fixes d :: "('e agent_row, 'o, 'm) data_proto"
  assumes "reorders ix (dp_len d)" "set_advantages (A, R) d = Inr d'"
  shows "set_advantages (perm ix A, perm ix R) (reordered ix d) = Inr (reordered ix d')"
proof -
  obtain d1 where d1: "set_tensor ''advantages'' (map Reals A) d = Inr d1" "set_tensor ''returns'' (map Reals R) d1 = Inr d'"
    using assms(2) by (auto simp: set_advantages_def res_simps)
  have lens: "length A = dp_len d" "length R = dp_len d"
    using d1 set_tensor_same(3) [OF d1(1)] by (auto simp: set_tensor_def res_simps dp_len_def split: option.splits)
  have ix: "\<forall>i \<in> set ix. i < dp_len d" using reorders_facts(2) [OF assms(1)] by simp
  have "map Reals (perm ix A) = (perm ix (map Reals A) :: 'e agent_row list)"
    "map Reals (perm ix R) = (perm ix (map Reals R) :: 'e agent_row list)"
    using ix lens by (simp_all add: perm_map)
  moreover have r1: "reorders ix (dp_len d1)" using assms(1) set_tensor_same(3) [OF d1(1)] by simp
  ultimately show ?thesis
    using set_tensor_reordered [OF assms(1) d1(1)] set_tensor_reordered [OF r1 d1(2)] by (simp add: set_advantages_def)
qed

lemma set_advantages_ok:
  assumes "dp_ok d" "set_advantages AR d = Inr d'"
  shows "dp_ok d'" "dp_len d' = dp_len d" "dp_batch d' \<noteq> None" "dp_non_tensor d' = dp_non_tensor d"
proof -
  obtain d1 where d1: "set_tensor ''advantages'' (map Reals (fst AR)) d = Inr d1" "set_tensor ''returns'' (map Reals (snd AR)) d1 = Inr d'"
    using assms(2) by (auto simp: set_advantages_def res_simps)
  show "dp_ok d'" by (rule set_tensor_ok [OF set_tensor_ok [OF assms(1) d1(1)] d1(2)])
  show "dp_len d' = dp_len d" "dp_batch d' \<noteq> None" "dp_non_tensor d' = dp_non_tensor d"
    using set_tensor_same [OF d1(1)] set_tensor_same [OF d1(2)] by simp_all
qed

lemma uid_reordered: "map_of (dp_non_tensor (reordered ix d)) key = map_option (perm ix) (map_of (dp_non_tensor d) key)"
  by (simp add: reordered_def cols_def map_of_map_items)

lemma optional_tensor_reordered:
  "dp_ok d \<Longrightarrow> reorders ix (dp_len d) \<Longrightarrow> optional_tensor key d = Inr A \<Longrightarrow>
    optional_tensor key (reordered ix d) = Inr (map_option (perm ix) A)"
  by (auto simp: optional_tensor_def res_simps tensor_reordered split: if_splits)

text \<open>The estimators that \<open>adv_estimators\<close> holds under these names give every row the same advantages in any order.\<close>

definition order_free :: "string list" where
  "order_free = [''rloo'', ''gpg'', ''reinforce_plus_plus'', ''reinforce_plus_plus_baseline'', ''remax'']"

definition perm_kwargs :: "nat list \<Rightarrow> 'g adv_kwargs \<Rightarrow> 'g adv_kwargs" where
  "perm_kwargs ix k = k\<lparr>ak_rewards := perm ix (ak_rewards k), ak_mask := perm ix (ak_mask k),
     ak_index := map_option (perm ix) (ak_index k), ak_baselines := map_option (perm ix) (ak_baselines k)\<rparr>"

lemma both_map: "both (map_result g r) = map_result (map_option (\<lambda>(A, B). (g A, g B))) (both r)"
  by (cases r) (simp_all add: both_def)

lemma order_free_estimators:
  assumes "est \<in> set order_free" "get_adv_estimator_fn est (adv_estimators argmax) = Inr f"
    and "reorders ix (length (ak_rewards k))" "length (ak_mask k) = length (ak_rewards k)"
    and "\<And>index. ak_index k = Some index \<Longrightarrow> length index = length (ak_rewards k)"
    and "\<And>b. ak_baselines k = Some b \<Longrightarrow> length b = length (ak_rewards k)"
  shows "f (perm_kwargs ix k) = map_result (map_option (perm2 ix)) (f k)"
proof -
  have p2: "perm2 ix = (\<lambda>(A, B). (perm ix A, perm ix B))" by (simp add: perm2_def)
  from assms(1) have "est = ''rloo'' \<or> est = ''gpg'' \<or> est = ''reinforce_plus_plus'' \<or> est = ''reinforce_plus_plus_baseline'' \<or> est = ''remax''"
    by (simp add: order_free_def)
  then show ?thesis
  proof (elim disjE)
    assume "est = ''rloo''"
    then have "f = (\<lambda>k. needs_index k (\<lambda>index. both (compute_rloo_outcome_advantage (ak_rewards k) (ak_mask k) index)))"
      using assms(2) by (simp add: get_adv_estimator_fn_def adv_estimators_def)
    then show ?thesis by (cases "ak_index k")
      (simp_all add: rloo_perm [OF assms(3,4)] assms(5) needs_index_def perm_kwargs_def both_map p2)
  next
    assume "est = ''gpg''"
    then have "f = (\<lambda>k. needs_index k (\<lambda>index. both (compute_gpg_outcome_advantage (ak_rewards k) (ak_mask k) index 1)))"
      using assms(2) by (simp add: get_adv_estimator_fn_def adv_estimators_def)
    then show ?thesis by (cases "ak_index k")
      (simp_all add: gpg_perm [OF assms(3,4)] assms(5) needs_index_def perm_kwargs_def both_map p2)
  next
    assume "est = ''reinforce_plus_plus_baseline''"
    then have "f = (\<lambda>k. needs_index k (\<lambda>index. both (compute_reinforce_plus_plus_baseline_outcome_advantage (ak_rewards k) (ak_mask k) index)))"
      using assms(2) by (simp add: get_adv_estimator_fn_def adv_estimators_def)
    then show ?thesis by (cases "ak_index k")
      (simp_all add: rfpp_baseline_perm [OF assms(3,4)] assms(5) needs_index_def perm_kwargs_def both_map p2)
  next
    assume "est = ''reinforce_plus_plus''"
    then have "f = (\<lambda>k. bind_r (compute_reinforce_plus_plus_outcome_advantage (ak_rewards k) (ak_mask k) (ac_gamma (ak_config k))) (\<lambda>r. Inr (Some r)))"
      using assms(2) by (simp add: get_adv_estimator_fn_def adv_estimators_def)
    then show ?thesis using rfpp_perm [OF assms(3,4), of "ac_gamma (ak_config k)"]
      by (cases "compute_reinforce_plus_plus_outcome_advantage (ak_rewards k) (ak_mask k) (ac_gamma (ak_config k))")
        (simp_all add: perm_kwargs_def)
  next
    assume "est = ''remax''"
    then have "f = (\<lambda>k. case ak_baselines k of None \<Rightarrow> Inl TypeError
        | Some b \<Rightarrow> Inr (Some (compute_remax_outcome_advantage (ak_rewards k) b (ak_mask k))))"
      using assms(2) by (simp add: get_adv_estimator_fn_def adv_estimators_def)
    then show ?thesis using remax_perm [OF assms(3,4)] assms(6)
      by (cases "ak_baselines k") (simp_all add: perm_kwargs_def)
  qed
qed
lemma estimator_kwargs_reordered:
  assumes ok: "dp_ok d" and ix: "reorders ix (dp_len d)" and est: "est \<noteq> ''gdpo''" "est \<notin> set otb_names"
    and R: "tensor ''token_level_rewards'' d = Inr R" and M: "tensor ''response_mask'' d = Inr M"
    and k: "estimator_kwargs as_real est cfg R M d = Inr k"
  shows "estimator_kwargs as_real est cfg (perm ix R) (perm ix M) (reordered ix d) = Inr (perm_kwargs ix k)"
    "length (ak_rewards k) = dp_len d" "length (ak_mask k) = dp_len d"
    "\<And>index. ak_index k = Some index \<Longrightarrow> length index = dp_len d" "\<And>b. ak_baselines k = Some b \<Longrightarrow> length b = dp_len d"
proof -
  obtain bs where bs: "optional_tensor ''reward_baselines'' d = Inr bs"
    and kk: "k = \<lparr>ak_rewards = R, ak_mask = M, ak_config = cfg, ak_index = map_of (dp_non_tensor d) ''uid'',
       ak_baselines = map_option (map hd) bs, ak_gdpo = None, ak_otb = None\<rparr>"
    using k est by (auto simp: estimator_kwargs_def res_simps)
  have len: "length b = dp_len d" if "bs = Some b" for b
    using bs that tensor_size [OF ok] by (auto simp: optional_tensor_def res_simps split: if_splits)
  have "map_option (map hd) (map_option (perm ix) bs) = map_option (perm ix) (map_option (map hd) bs)"
    using len reorders_facts(2) [OF ix] by (cases bs) (simp_all add: perm_map)
  then show "estimator_kwargs as_real est cfg (perm ix R) (perm ix M) (reordered ix d) = Inr (perm_kwargs ix k)"
    using est optional_tensor_reordered [OF ok ix bs]
    by (simp add: estimator_kwargs_def uid_reordered perm_kwargs_def kk)
  show "length (ak_rewards k) = dp_len d" "length (ak_mask k) = dp_len d"
    using tensor_size [OF ok R] tensor_size [OF ok M] by (simp_all add: kk)
  show "length index = dp_len d" if "ak_index k = Some index" for index
    using that array_length [OF ok] map_of_SomeD by (fastforce simp: kk)
  show "length b = dp_len d" if "ak_baselines k = Some b" for b
    using that len by (auto simp: kk)
qed

text \<open>Balancing the ranks does not touch the advantages: computing them on a batch whose rows have been reordered gives the reordered
  batch with its advantages, for GAE (without resampling), GRPO, RLOO, GPG, REINFORCE++ with and without
  baseline, and ReMax.\<close>

theorem advantages_follow_rows:
  fixes d :: "('e agent_row, 'o :: linorder, 'm) data_proto"
  assumes ok: "dp_ok d" and rm: "has_tensor ''response_mask'' d" and ix: "reorders ix (dp_len d)"
    and est: "est = ''gae'' \<and> \<not> ac_use_pf_ppo cfg \<or> est = ''grpo'' \<or> est \<in> set order_free"
    and run: "compute_advantage (adv_estimators argmax) multinomial as_real d est gamma lam by_std cfg = Inr (Some e)"
  shows "\<exists>d' e'. reorder (map int ix) d = Inr d' \<and> reorder (map int ix) e = Inr e' \<and>
    compute_advantage (adv_estimators argmax) multinomial as_real d' est gamma lam by_std cfg = Inr (Some e')"
proof -
  let ?d = "reordered ix d"
  have b: "dp_batch d \<noteq> None" using rm by (cases "dp_batch d") (auto simp: has_tensor_def)
  have bd: "dp_batch ?d \<noteq> None" using b by (simp add: reordered_def cols_def)
  have w: "with_response_mask d = Inr d" "with_response_mask ?d = Inr ?d" using rm b bd by (simp_all add: with_response_mask_def)
  obtain R M where R: "tensor ''token_level_rewards'' d = Inr R" and M: "tensor ''response_mask'' d = Inr M"
    using run by (auto simp: compute_advantage_def w res_simps)
  note Rd = tensor_reordered [OF ok ix R] and Md = tensor_reordered [OF ok ix M]
  have len: "length R = dp_len d" "length M = dp_len d" using tensor_size [OF ok R] tensor_size [OF ok M] by simp_all
  have ixR: "reorders ix (length R)" using ix len by simp
  have finish: ?thesis if "set_advantages AR d = Inr e"
    "compute_advantage (adv_estimators argmax) multinomial as_real ?d est gamma lam by_std cfg = Inr (Some (reordered ix e))" for AR
  proof -
    note e = set_advantages_ok [OF ok that(1)]
    have "reorder (map int ix) e = Inr (reordered ix e)" using e ix by (intro reorder_reordered) simp_all
    then show ?thesis using reorder_reordered [OF ok b ix] that(2) by blast
  qed
  from est show ?thesis
  proof (elim disjE conjE)
    assume est: "est = ''gae''" "\<not> ac_use_pf_ppo cfg"
    obtain V A G where V: "tensor ''values'' d = Inr V" and g: "compute_gae_advantage_return R V M gamma lam = Inr (A, G)"
      and e: "set_advantages (A, G) d = Inr e"
      using run est by (auto simp: compute_advantage_def w R M res_simps)
    have "length V = length R" "length M = length R" using tensor_size [OF ok V] len by simp_all
    then have "compute_gae_advantage_return (perm ix R) (perm ix V) (perm ix M) gamma lam = Inr (perm ix A, perm ix G)"
      using gae_perm [OF ixR] g by (simp add: perm2_def)
    then show ?thesis using est set_advantages_reordered [OF ix e] tensor_reordered [OF ok ix V]
      by (intro finish [OF e]) (simp add: compute_advantage_def w Rd Md)
  next
    assume est: "est = ''grpo''"
    obtain index A where u: "map_of (dp_non_tensor d) ''uid'' = Some index"
      and g: "compute_grpo_outcome_advantage R M index (1 / 10 ^ 6) by_std = Inr A" and e: "set_advantages (A, A) d = Inr e"
      using run est by (auto simp: compute_advantage_def w R M dict_item_def res_simps split: option.splits)
    have "length index = length R" "length M = length R" using array_length [OF ok map_of_SomeD [OF u]] len by simp_all
    then have "compute_grpo_outcome_advantage (perm ix R) (perm ix M) (perm ix index) (1 / 10 ^ 6) by_std = Inr (perm ix A)"
      using g by (simp add: grpo_perm [OF ixR])
    then show ?thesis using est set_advantages_reordered [OF ix e]
      by (intro finish [OF e]) (simp add: compute_advantage_def w Rd Md dict_item_def uid_reordered u)
  next
    assume est: "est \<in> set order_free"
    then have names: "est \<noteq> ''gae''" "est \<noteq> ''grpo''" "est \<noteq> ''gdpo''" "est \<notin> set otb_names"
      by (auto simp: order_free_def otb_names_def)
    obtain f k A G where f: "get_adv_estimator_fn est (adv_estimators argmax) = Inr f"
      and k: "estimator_kwargs as_real est cfg R M d = Inr k" and fk: "f k = Inr (Some (A, G))" and e: "set_advantages (A, G) d = Inr e"
      using run names by (auto simp: compute_advantage_def w R M res_simps split: option.splits)
    note kd = estimator_kwargs_reordered [OF ok ix names(3,4) R M k]
    have "f (perm_kwargs ix k) = Inr (Some (perm ix A, perm ix G))"
      using order_free_estimators [OF est f, of ix k] ix kd(2-5) fk by (simp add: perm2_def)
    then show ?thesis using names set_advantages_reordered [OF ix e]
      by (intro finish [OF e]) (simp add: compute_advantage_def w Rd Md f kd(1))
  qed
qed

text \<open>The configured switch off of the division by the standard deviation reaches the GRPO estimator but not its vectorised version,
  which always divides.\<close>

theorem vectorized_grpo_ignores_norm_switch:
  fixes d :: "('e agent_row, 'o :: linorder, 'm) data_proto"
  assumes "with_response_mask d = Inr d"
  shows "compute_advantage (adv_estimators argmax) multinomial as_real d ''grpo_vectorized'' gamma lam by_std cfg =
    compute_advantage (adv_estimators argmax) multinomial as_real d ''grpo_vectorized'' gamma lam (\<not> by_std)
      (cfg\<lparr>ac_norm_by_std := flag\<rparr>)"
proof -
  have "estimator_kwargs as_real ''grpo_vectorized'' (cfg\<lparr>ac_norm_by_std := flag\<rparr>) R M d =
      map_result (\<lambda>k. k\<lparr>ak_config := cfg\<lparr>ac_norm_by_std := flag\<rparr>\<rparr>) (estimator_kwargs as_real ''grpo_vectorized'' cfg R M d)" for R M
    by (cases "optional_tensor ''reward_baselines'' d") (simp_all add: estimator_kwargs_def otb_names_def)
  moreover obtain f where f: "get_adv_estimator_fn ''grpo_vectorized'' (adv_estimators argmax :: (string, 'o adv_estimator) dict) = Inr f"
    by (simp add: get_adv_estimator_fn_def adv_estimators_def)
  moreover have "f (k\<lparr>ak_config := c\<rparr>) = f k" for k c
    using f by (cases "ak_index k") (auto simp: get_adv_estimator_fn_def adv_estimators_def needs_index_def)
  ultimately show ?thesis
    by (cases "tensor ''token_level_rewards'' d"; cases "tensor ''response_mask'' d";
        cases "estimator_kwargs as_real ''grpo_vectorized'' cfg (projr (tensor ''token_level_rewards'' d)) (projr (tensor ''response_mask'' d)) d")
      (simp_all add: compute_advantage_def assms)
qed
section \<open>Examples\<close>

text \<open>Two responses to the same prompt, the second of one token.\<close>

definition scored_pair :: "(nat agent_row, nat, nat) data_proto" where
  "scored_pair = \<lparr>dp_batch = Some \<lparr>td_size = 2, td_items =
      [(''response_mask'', [Ids [1, 1], Ids [1, 0]]), (''token_level_scores'', [Reals [0, 1], Reals [0, 0]]),
       (''token_level_rewards'', [Reals [0, 1], Reals [0, 0]]),
       (''old_log_probs'', [Reals [-1, -2], Reals [-1, -5]]), (''ref_log_prob'', [Reals [-2, -2], Reals [-3, -1]])]\<rparr>,
     dp_non_tensor = [(''uid'', [7, 7])], dp_meta = []\<rparr>"

definition plain_algo :: algo_config where
  "plain_algo = \<lparr>ac_gamma = 1, ac_norm_by_std = None, ac_use_pf_ppo = False, ac_reweight_method = ''pow'', ac_weight_pow = 2,
     ac_gdpo_keys = [], ac_gdpo_weights = None\<rparr>"

lemma scored_pair_ok: "dp_ok scored_pair" "dp_len scored_pair = 2" "has_tensor ''response_mask'' scored_pair"
  by (simp_all add: scored_pair_def dp_ok_def td_ok_def dp_len_def dict_keys_def has_tensor_def)

lemma scored_pair_tensors:
  "tensor ''response_mask'' scored_pair = Inr [[1, 1], [1, 0]]" "tensor ''token_level_scores'' scored_pair = Inr [[0, 1], [0, 0]]"
  "tensor ''token_level_rewards'' scored_pair = Inr [[0, 1], [0, 0]]"
  "tensor ''old_log_probs'' scored_pair = Inr [[-1, -2], [-1, -5]]" "tensor ''ref_log_prob'' scored_pair = Inr [[-2, -2], [-3, -1]]"
  by (simp_all add: scored_pair_def tensor_def dict_item_def real_row_def)

theorem kl_penalty_in_reward_witness:
  "\<exists>d' ctrl' current R. apply_kl_penalty scored_pair (Fixed (1 / 2)) ''kl'' = Inr (d', ctrl', current, 1 / 2) \<and>
    tensor ''token_level_rewards'' d' = Inr R \<and> R ! 0 ! 0 = - 1 / 2 \<and> R ! 1 ! 1 = 0 \<and> sum_list (R ! 1) = - 1"
proof -
  have k: "kl_penalty p q ''kl'' = Inr (d_sub p q)" for p q
    by (simp add: kl_penalty_def kl_penalty_forward_def ends_plus_def)
  have sh: "same_shape [[1 :: real, 1], [1, 0]] [[0 :: real, 1], [0, 0]]" "same_shape [[-1 :: real, -2], [-1, -5]] [[0 :: real, 1], [0, 0]]"
    "same_shape [[-2 :: real, -2], [-3, -1]] [[0 :: real, 1], [0, 0]]" "is_mask [[1, 1], [1, 0]]"
    by (simp_all add: same_shape_def is_mask_def)
  from kl_penalty_in_reward [OF scored_pair_ok(1) scored_pair_tensors(1,2,4,5) sh k, of "Fixed (1 / 2)"]
  obtain d' ctrl' current R where r: "apply_kl_penalty scored_pair (Fixed (1 / 2)) ''kl'' = Inr (d', ctrl', current, 1 / 2)"
    "tensor ''token_level_rewards'' d' = Inr R"
    "\<forall>i < 2. \<forall>t < length ([[0 :: real, 1], [0, 0]] ! i). R ! i ! t = (if [[1 :: real, 1], [1, 0]] ! i ! t = 0 then [[0, 1], [0, 0]] ! i ! t
       else [[0, 1], [0, 0]] ! i ! t - 1 / 2 * ([[-1, -2], [-1, -5]] ! i ! t - [[-2, -2], [-3, -1]] ! i ! t))"
    "\<forall>i < 2. sum_list (R ! i) = sum_list ([[0, 1], [0, 0]] ! i) - 1 / 2 * sum_list (vzip (\<lambda>x m. x * m)
       (vzip (\<lambda>p q. p - q) ([[-1, -2], [-1, -5]] ! i) ([[-2, -2], [-3, -1]] ! i)) ([[1, 1], [1, 0]] ! i))"
    by (auto simp: k d_sub_def kl_value_def numeral_2_eq_2)
  have "R ! 0 ! 0 = - 1 / 2" "R ! 1 ! 1 = 0" using r(3) [rule_format, of 0 0] r(3) [rule_format, of 1 1] by simp_all
  moreover have "sum_list (R ! 1) = - 1" using r(4) [rule_format, of 1] by (simp add: vzip_def)
  ultimately show ?thesis using r(1,2) by blast
qed

theorem advantages_follow_rows_witness:
  "\<exists>e d' e'. compute_advantage (adv_estimators (\<lambda>_. 0)) (\<lambda>_ _. []) real scored_pair ''grpo'' 1 1 False plain_algo = Inr (Some e) \<and>
    reorder [1, 0] scored_pair = Inr d' \<and> reorder [1, 0] e = Inr e' \<and>
    compute_advantage (adv_estimators (\<lambda>_. 0)) (\<lambda>_ _. []) real d' ''grpo'' 1 1 False plain_algo = Inr (Some e')"
proof -
  have w: "with_response_mask scored_pair = Inr scored_pair"
    by (simp add: with_response_mask_def scored_pair_ok) (simp add: scored_pair_def)
  have u: "dict_item (dp_non_tensor scored_pair) ''uid'' = Inr [7, 7]" by (simp add: scored_pair_def dict_item_def)
  have s: "length A = 2 \<Longrightarrow> \<exists>e. set_advantages (A, A) scored_pair = Inr e" for A
    by (simp add: set_advantages_def set_tensor_def scored_pair_def)
  obtain A where A: "compute_grpo_outcome_advantage [[0, 1], [0, 0]] [[1, 1], [1, 0]] [7 :: nat, 7] (1 / 10 ^ 6) False = Inr A" "length A = 2"
    by (simp add: compute_grpo_outcome_advantage_def scores_of_def scale_rows_def vzip_def Let_def)
  obtain e where e: "set_advantages (A, A) scored_pair = Inr e" using s [OF A(2)] by blast
  have run: "compute_advantage (adv_estimators (\<lambda>_. 0)) (\<lambda>_ _. []) real scored_pair ''grpo'' 1 1 False plain_algo = Inr (Some e)"
    using A(1) by (simp add: compute_advantage_def w scored_pair_tensors u e)
  have "reorders [1, 0] (dp_len scored_pair)" by (simp add: reorders_def scored_pair_ok(2) upt_rec)
  from advantages_follow_rows [OF scored_pair_ok(1,3) this _ run] run show ?thesis by auto
qed

theorem vectorized_grpo_witness:
  "compute_advantage (adv_estimators (\<lambda>_. 0)) (\<lambda>_ _. []) real scored_pair ''grpo_vectorized'' 1 1 True plain_algo =
    compute_advantage (adv_estimators (\<lambda>_. 0)) (\<lambda>_ _. []) real scored_pair ''grpo_vectorized'' 1 1 False
      (plain_algo\<lparr>ac_norm_by_std := Some False\<rparr>)"
proof -
  have "with_response_mask scored_pair = Inr scored_pair"
    by (simp add: with_response_mask_def scored_pair_ok) (simp add: scored_pair_def)
  from vectorized_grpo_ignores_norm_switch [OF this, of _ _ _ _ _ True] show ?thesis by simp
qed

end
