(* ===== verification/StepData.thy ===== *)
theory StepData
  imports PPOAdvantage Seqlen_Balance
begin

text \<open>
  The batch of a training step before the advantages (\<^verbatim>\<open>verl/trainer/ppo/ray_trainer.py\<close>: \<open>_get_gen_batch\<close>,
  the part of \<open>fit\<close> that builds the requests, with a greedy baseline per prompt for ReMax, takes the answers apart and
  joins them with the prompts, and \<open>_balance_batch\<close>).
\<close>

section \<open>Requests and answers\<close>

definition reward_keys :: "string list" where
  "reward_keys = [''data_source'', ''reward_model'', ''extra_info'', ''uid'']"

text \<open>What is left of the batch keeps its tensors and the keys the reward needs; the requests get all arrays.\<close>

definition get_gen_batch :: "('r, 'o, 'm) data_proto \<Rightarrow> (('r, 'o, 'm) data_proto \<times> ('r, 'o, 'm) data_proto) result" where
  "get_gen_batch d =
     bind_r (pop_dp [] (filter (\<lambda>k. k \<notin> set reward_keys) (dict_keys (dp_non_tensor d))) [] d) (\<lambda>(gen, batch).
       Inr (gen\<lparr>dp_non_tensor := dict_update (dp_non_tensor gen) (dp_non_tensor batch)\<rparr>, batch))"

definition set_array :: "string \<Rightarrow> 'o list \<Rightarrow> ('r, 'o, 'm) data_proto \<Rightarrow> ('r, 'o, 'm) data_proto" where
  "set_array key xs d = d\<lparr>dp_non_tensor := dict_set key xs (dp_non_tensor d)\<rparr>"

definition do_sample_key :: string where
  "do_sample_key = ''__do_sample__''"

text \<open>\<open>flag\<close> is a Python bool as an object. The second component is the number of sampled requests.\<close>

definition combined_requests :: "(bool \<Rightarrow> 'o) \<Rightarrow> nat \<Rightarrow> bool \<Rightarrow> ('r, 'o, 'm) data_proto \<Rightarrow> (('r, 'o, 'm) data_proto \<times> nat) result" where
  "combined_requests flag rollout_n remax gen_batch =
     bind_r (repeat_dp rollout_n True gen_batch) (\<lambda>sampled.
       if remax
       then bind_r (slice_dp (Some 0) None None gen_batch) (\<lambda>base.
         bind_r (concat_dp [set_array do_sample_key (replicate (dp_len sampled) (flag True)) sampled,
                            set_array do_sample_key (replicate (dp_len base) (flag False)) base]) (\<lambda>c.
           Inr (c, dp_len sampled)))
       else Inr (sampled, dp_len sampled))"

definition drop_array :: "string \<Rightarrow> ('r, 'o, 'm) data_proto \<Rightarrow> ('r, 'o, 'm) data_proto result" where
  "drop_array key d = (if key \<in> set (dict_keys (dp_non_tensor d))
     then bind_r (pop_dp [] [key] [] d) (\<lambda>(popped, rest). Inr rest) else Inr d)"

text \<open>\<open>score\<close> is the colocated reward model, None when the agent loops have scored already or there is none.\<close>

definition greedy_rewards :: "(('e agent_row, 'o, 'm) data_proto \<Rightarrow> ('e agent_row, 'o, 'm) data_proto result) option \<Rightarrow> nat \<Rightarrow>
    ('e agent_row, 'o, 'm) data_proto \<Rightarrow> 'e agent_row list result" where
  "greedy_rewards score num_sampled out =
     bind_r (slice_dp (Some (int num_sampled)) None None out) (\<lambda>base.
     bind_r (drop_array do_sample_key base) (\<lambda>base.
     bind_r (case score of None \<Rightarrow> Inr base
        | Some f \<Rightarrow> if has_tensor ''rm_scores'' base then Inr base else bind_r (f base) (union_dp base)) (\<lambda>base.
     bind_r (tensor ''rm_scores'' base) (\<lambda>scores. Inr (map (\<lambda>s. Reals [sum_list s]) scores)))))"

text \<open>From the batch of prompts, with a fresh uid each, to the batch of responses; \<open>generate\<close> is the call of the agent-loop manager.\<close>

definition step_batch :: "(bool \<Rightarrow> 'o) \<Rightarrow> 'm pyval \<Rightarrow> (('e agent_row, 'o, 'm) data_proto \<Rightarrow> ('e agent_row, 'o, 'm) data_proto result) option \<Rightarrow>
    (('e agent_row, 'o, 'm) data_proto \<Rightarrow> ('e agent_row, 'o, 'm) data_proto result) \<Rightarrow> nat \<Rightarrow> bool \<Rightarrow> 'o list \<Rightarrow>
    ('e agent_row, 'o, 'm) data_proto \<Rightarrow> ('e agent_row, 'o, 'm) data_proto result" where
  "step_batch flag global_steps score generate rollout_n remax uids d =
     bind_r (get_gen_batch (set_array ''uid'' uids d)) (\<lambda>(gen_batch, batch).
     let gen_batch = gen_batch\<lparr>dp_meta := dict_set ''global_steps'' global_steps (dp_meta gen_batch)\<rparr> in
     bind_r (combined_requests flag rollout_n remax gen_batch) (\<lambda>(requests, num_sampled).
     bind_r (generate requests) (\<lambda>out.
     bind_r (dict_item (dp_meta out) ''timing'') (\<lambda>_.
     let out = out\<lparr>dp_meta := dict_del ''timing'' (dp_meta out)\<rparr> in
     bind_r (slice_dp (Some 0) (Some (int num_sampled)) None out) (\<lambda>sampled.
     bind_r (drop_array do_sample_key sampled) (\<lambda>sampled.
     bind_r (if remax then bind_r (greedy_rewards score num_sampled out) (\<lambda>rows. set_tensor ''reward_baselines'' rows batch)
             else Inr batch) (\<lambda>batch.
     bind_r (repeat_dp rollout_n True batch) (\<lambda>batch.
     bind_r (union_dp batch sampled) (\<lambda>batch.
       with_response_mask batch)))))))))"

section \<open>Balancing the ranks\<close>

definition token_counts :: "('e agent_row, 'o, 'm) data_proto \<Rightarrow> int list result" where
  "token_counts d = (case dp_batch d of
       None \<Rightarrow> Inl TypeError
     | Some b \<Rightarrow> bind_r (dict_item (td_items b) ''attention_mask'') (map_r (\<lambda>row. case row of Ids is \<Rightarrow> Inr (sum_list is) | _ \<Rightarrow> Inl TypeError)))"

text \<open>Small workloads at both ends: \<open>partition[::2] + partition[1::2][::-1]\<close> of the sorted partition.\<close>

definition ends_small :: "int list \<Rightarrow> nat list \<Rightarrow> nat list" where
  "ends_small workloads p =
     (let q = sort_key (\<lambda>x. (workloads ! x, x)) p in stride 0 2 q @ rev (stride 1 2 q))"

fun minibatch_partitions :: "int list \<Rightarrow> nat \<Rightarrow> nat \<Rightarrow> nat \<Rightarrow> nat list list result" where
  "minibatch_partitions workloads dp mini 0 = Inr (replicate dp [])"
| "minibatch_partitions workloads dp mini (Suc i) =
     bind_r (minibatch_partitions workloads dp mini i) (\<lambda>parts.
     bind_r (get_seqlen_balanced_partitions (take mini (drop (i * mini) workloads)) dp True) (\<lambda>more.
       Inr (map (\<lambda>(p, q). p @ map (\<lambda>x. x + mini * i) q) (zip parts more))))"

record balance_config =
  bl_prefix_grouper :: bool
  bl_keep_minibatch :: bool
  bl_mini_batch_size :: "nat option"

definition global_partitions :: "balance_config \<Rightarrow> 'u list option \<Rightarrow> nat \<Rightarrow> int list \<Rightarrow> nat list list result" where
  "global_partitions cfg uids dp seqlens =
     (let workloads = map calculate_workload seqlens in
      bind_r (case (if bl_prefix_grouper cfg then uids else None) of
          Some us \<Rightarrow> require (card (set us) mod dp = 0) ValueError (get_group_balanced_partitions seqlens us dp)
        | None \<Rightarrow>
            if bl_keep_minibatch cfg
            then (case bl_mini_batch_size cfg of
                None \<Rightarrow> Inl TypeError
              | Some mini \<Rightarrow> require (mini \<noteq> 0) ZeroDivisionError
                  (minibatch_partitions workloads dp mini (length workloads div mini)))
            else get_seqlen_balanced_partitions workloads dp True) (\<lambda>parts.
        Inr (if bl_prefix_grouper cfg then parts else map (ends_small workloads) parts)))"

text \<open>\<open>dp_ranks\<close> maps the workers to their data-parallel ranks.\<close>

definition get_dp_size :: "nat list \<Rightarrow> nat result" where
  "get_dp_size dp_ranks = require (dp_ranks \<noteq> []) ValueError (Inr (Max (set dp_ranks) + 1))"

definition balance_batch :: "balance_config \<Rightarrow> nat list \<Rightarrow> ('e agent_row, 'o, 'm) data_proto \<Rightarrow>
    (('e agent_row, 'o, 'm) data_proto \<times> unbalance_log) result" where
  "balance_batch cfg dp_ranks d =
     bind_r (token_counts d) (\<lambda>seqlens.
     bind_r (get_dp_size dp_ranks) (\<lambda>dp.
     bind_r (global_partitions cfg (map_of (dp_non_tensor d) ''uid'') dp seqlens) (\<lambda>parts.
     bind_r (reorder (map int (concat parts)) d) (\<lambda>d'.
     bind_r (log_seqlen_unbalance seqlens parts) (\<lambda>log_entry.
       Inr (d', log_entry))))))"

section \<open>Facts on the partitions\<close>

lemma mset_ends_small [simp]: "mset (ends_small w p) = mset p"
proof -
  let ?q = "sort_key (\<lambda>x. (w ! x, x)) p"
  have "mset (ends_small w p) = mset (rev (stride 0 2 ?q) @ stride 1 2 ?q)" by (simp add: ends_small_def Let_def)
  also have "\<dots> = mset ?q" by (rule mset_strides)
  finally show ?thesis by simp
qed

lemma length_ends_small [simp]: "length (ends_small w p) = length p"
  using mset_eq_length [OF mset_ends_small] .

lemma ends_small_partition: "is_partition n k ps \<Longrightarrow> is_partition n k (map (ends_small w) ps)"
proof -
  assume p: "is_partition n k ps"
  have "mset (concat (map (ends_small w) qs)) = mset (concat qs)" for qs by (induction qs) simp_all
  then show ?thesis using p by (simp add: is_partition_def)
qed

lemma part_sum_ends_small [simp]: "part_sum xs (ends_small w p) = part_sum xs p"
  using part_sum_mset mset_ends_small by blast

lemma global_partitions_partition:
  assumes "global_partitions cfg us dp seqlens = Inr parts" "\<forall>l \<in> set seqlens. 0 \<le> l" "\<not> bl_keep_minibatch cfg"
  shows "is_partition (length seqlens) dp parts"
proof -
  let ?w = "map calculate_workload seqlens"
  have w: "\<forall>v \<in> set ?w. 0 \<le> v" using assms(2) calculate_workload_nonneg by auto
  obtain ps where ps: "parts = (if bl_prefix_grouper cfg then ps else map (ends_small ?w) ps)"
    and c: "(case (if bl_prefix_grouper cfg then us else None) of
        Some us \<Rightarrow> require (card (set us) mod dp = 0) ValueError (get_group_balanced_partitions seqlens us dp)
      | None \<Rightarrow> get_seqlen_balanced_partitions ?w dp True) = Inr ps"
    using assms(1,3) by (cases "if bl_prefix_grouper cfg then us else None") (auto simp: global_partitions_def Let_def bind_r_Inr)
  have "is_partition (length seqlens) dp ps"
  proof (cases "if bl_prefix_grouper cfg then us else None")
    case None
    then show ?thesis using c balanced_partitions_partition [of ?w dp True ps] w by simp
  next
    case (Some u)
    then show ?thesis using c group_balanced_ok [of seqlens u dp ps] assms(2) by (simp add: require_Inr)
  qed
  then show ?thesis using ps ends_small_partition by auto
qed

lemma is_partition_reorders: "is_partition n k ps \<Longrightarrow> reorders (concat ps) n"
  by (simp add: is_partition_def reorders_def)

lemma token_counts_length: "dp_ok d \<Longrightarrow> token_counts d = Inr seqlens \<Longrightarrow> length seqlens = dp_len d"
proof -
  assume ok: "dp_ok d" and t: "token_counts d = Inr seqlens"
  obtain b rows where b: "dp_batch d = Some b" "map_of (td_items b) ''attention_mask'' = Some rows"
    "map_r (\<lambda>row. case row of Ids is \<Rightarrow> Inr (sum_list is) | _ \<Rightarrow> Inl TypeError) rows = Inr seqlens"
    using t by (auto simp: token_counts_def dict_item_def res_simps split: option.splits)
  then show ?thesis using length_map_r [OF b(3)] tensor_length [OF ok b(1)] map_of_SomeD by metis
qed

lemma log_seqlen_succeeds:
  assumes "length ps \<noteq> 0" "length xs div length ps \<noteq> 0" "\<forall>p \<in> set ps. \<forall>i \<in> set p. i < length xs"
  shows "\<exists>e. log_seqlen_unbalance xs ps = Inr e"
  using assms by (simp add: log_seqlen_unbalance_def Let_def require_def)

lemma equal_pieces:
  assumes "\<forall>p \<in> set ps. length p = m" "r < length ps"
  shows "take m (drop (r * m) (concat ps)) = ps ! r"
  using assms
proof (induction ps arbitrary: r)
  case (Cons p ps)
  then show ?case by (cases r) simp_all
qed simp

lemma balance_batch_ok:
  assumes ok: "dp_ok d" and tc: "token_counts d = Inr seqlens" and len: "\<forall>l \<in> set seqlens. 0 \<le> l \<and> calculate_workload l \<le> M"
    and dp: "dp_ranks \<noteq> []" "dp = Max (set dp_ranks) + 1" and n: "0 < dp_len d" "dp_len d mod dp = 0"
    and cfg: "\<not> bl_prefix_grouper cfg" "\<not> bl_keep_minibatch cfg"
  shows "\<exists>d' entry parts. balance_batch cfg dp_ranks d = Inr (d', entry) \<and> length parts = dp \<and> reorders (concat parts) (dp_len d) \<and>
    reorder (map int (concat parts)) d = Inr d' \<and>
    (\<forall>r < dp. take (dp_len d div dp) (drop (r * (dp_len d div dp)) (concat parts)) = parts ! r) \<and>
    (\<forall>p \<in> set parts. \<forall>q \<in> set parts.
       part_sum (map calculate_workload seqlens) p - part_sum (map calculate_workload seqlens) q \<le> M)"
proof -
  let ?w = "map calculate_workload seqlens" and ?n = "dp_len d"
  have ls: "length seqlens = ?n" by (rule token_counts_length [OF ok tc])
  have w: "\<forall>v \<in> set ?w. 0 \<le> v \<and> v \<le> M" using len calculate_workload_nonneg by auto
  have dp0: "0 < dp" using dp(2) by simp
  have le: "dp \<le> ?n" using n dp0 by (metis dvd_imp_le mod_eq_0_iff_dvd)
  obtain ps where ps: "get_seqlen_balanced_partitions ?w dp True = Inr ps" "is_partition ?n dp ps"
    "\<forall>p \<in> set ps. \<forall>q \<in> set ps. part_sum ?w p - part_sum ?w q \<le> M" "\<forall>p \<in> set ps. length p * dp = ?n"
  proof (rule balanced_partitions_ok [OF _ w dp0, of True])
    show "?w \<noteq> []" using ls n(1) by auto
  qed (use ls le n(2) in auto)
  let ?ps = "map (ends_small ?w) ps"
  have gp: "global_partitions cfg us dp seqlens = Inr ?ps" for us :: "'b list option"
    using cfg ps(1) by (simp add: global_partitions_def)
  have get_dp: "get_dp_size dp_ranks = Inr dp" using dp by (simp add: get_dp_size_def)
  have part: "is_partition ?n dp ?ps" by (rule ends_small_partition [OF ps(2)])
  note ix = is_partition_reorders [OF part]
  have b: "dp_batch d \<noteq> None" using tc by (auto simp: token_counts_def split: option.splits)
  note ro = reorder_reordered [OF ok b ix]
  have m: "length p = ?n div dp" if "p \<in> set ?ps" for p
    using that ps(4) dp0 by (auto simp: ) (metis nonzero_mult_div_cancel_right less_irrefl)
  have "?n div dp \<noteq> 0" using le dp0 by (simp add: div_eq_0_iff)
  then obtain entry where entry: "log_seqlen_unbalance seqlens ?ps = Inr entry"
  proof -
    have "length ?ps \<noteq> 0" "length seqlens div length ?ps \<noteq> 0"
      using is_partition_facts(1) [OF part] dp0 ls \<open>?n div dp \<noteq> 0\<close> by simp_all
    moreover have "\<forall>p \<in> set ?ps. \<forall>i \<in> set p. i < length seqlens"
    proof (intro ballI)
      fix p i assume "p \<in> set ?ps" "i \<in> set p"
      then have "i \<in> set (concat ?ps)" unfolding set_concat by blast
      then show "i < length seqlens" unfolding is_partition_facts(2) [OF part] ls by simp
    qed
    ultimately show ?thesis using log_seqlen_succeeds [of ?ps seqlens] that by blast
  qed
  have "balance_batch cfg dp_ranks d = Inr (reordered (concat ?ps) d, entry)"
    unfolding balance_batch_def tc get_dp gp ro entry bind_r_simps by (rule refl)
  moreover have "\<forall>r < dp. take (?n div dp) (drop (r * (?n div dp)) (concat ?ps)) = ?ps ! r"
    using equal_pieces [of ?ps "?n div dp"] m is_partition_facts(1) [OF part] by simp
  moreover have "\<forall>p \<in> set ?ps. \<forall>q \<in> set ?ps. part_sum ?w p - part_sum ?w q \<le> M" using ps(3) by simp
  ultimately show ?thesis using ix ro is_partition_facts(1) [OF part] by blast
qed

text \<open>Balancing reorders the batch so that the equal pieces the dispatcher cuts are the computed partitions, and the workloads of two
  ranks differ by at most the workload of the longest sample. It succeeds when the ranks divide the batch.\<close>

theorem balance_batch_balanced:
  assumes ok: "dp_ok d" and tc: "token_counts d = Inr seqlens" and len: "\<forall>l \<in> set seqlens. 0 \<le> l \<and> calculate_workload l \<le> M"
    and dp: "dp_ranks \<noteq> []" "dp = Max (set dp_ranks) + 1" and n: "0 < dp_len d" "dp_len d mod dp = 0"
    and cfg: "\<not> bl_prefix_grouper cfg" "\<not> bl_keep_minibatch cfg"
  shows "\<exists>d' entry parts. balance_batch cfg dp_ranks d = Inr (d', entry) \<and> length parts = dp \<and> reorders (concat parts) (dp_len d) \<and>
    reorder (map int (concat parts)) d = Inr d' \<and>
    (\<forall>r < dp. take (dp_len d div dp) (drop (r * (dp_len d div dp)) (concat parts)) = parts ! r) \<and>
    (\<forall>p \<in> set parts. \<forall>q \<in> set parts.
       part_sum (map calculate_workload seqlens) p - part_sum (map calculate_workload seqlens) q \<le> M)"
  by (rule balance_batch_ok [OF assms])

section \<open>Balancing and advantages\<close>

lemma set_tensor_items:
  assumes "set_tensor key rows d = Inr d'" "key' \<noteq> key"
  shows "(case dp_batch d' of None \<Rightarrow> None | Some b \<Rightarrow> map_of (td_items b) key') =
    (case dp_batch d of None \<Rightarrow> None | Some b \<Rightarrow> map_of (td_items b) key')"
  using assms by (auto simp: set_tensor_def res_simps split: option.splits)

lemma token_counts_lookup:
  "dp_batch d \<noteq> None \<Longrightarrow> token_counts d =
     (case (case dp_batch d of None \<Rightarrow> None | Some b \<Rightarrow> map_of (td_items b) ''attention_mask'') of None \<Rightarrow> Inl KeyError
      | Some rows \<Rightarrow> map_r (\<lambda>row. case row of Ids is \<Rightarrow> Inr (sum_list is) | _ \<Rightarrow> Inl TypeError) rows)"
  by (auto simp: token_counts_def dict_item_def split: option.splits)

lemma set_advantages_counts:
  assumes "set_advantages AR d = Inr e" "dp_batch d \<noteq> None"
  shows "token_counts e = token_counts d"
proof -
  obtain d1 where d1: "set_tensor ''advantages'' (map Reals (fst AR)) d = Inr d1" "set_tensor ''returns'' (map Reals (snd AR)) d1 = Inr e"
    using assms(1) by (auto simp: set_advantages_def res_simps)
  have "(case dp_batch e of None \<Rightarrow> None | Some b \<Rightarrow> map_of (td_items b) ''attention_mask'') =
      (case dp_batch d of None \<Rightarrow> None | Some b \<Rightarrow> map_of (td_items b) ''attention_mask'')"
    using set_tensor_items [OF d1(1), of "''attention_mask''"] set_tensor_items [OF d1(2), of "''attention_mask''"] by simp
  moreover have "dp_batch e \<noteq> None" using set_tensor_same(4) [OF d1(2)] .
  ultimately show ?thesis using token_counts_lookup [of e] token_counts_lookup [OF assms(2)] by simp
qed

lemma compute_advantage_sets:
  assumes "has_tensor ''response_mask'' d" "est = ''gae'' \<longrightarrow> \<not> ac_use_pf_ppo cfg"
    and "compute_advantage registry multinomial as_real d est gamma lam by_std cfg = Inr (Some e)"
  shows "\<exists>AR. set_advantages AR d = Inr e"
proof -
  have "dp_batch d \<noteq> None" using assms(1) by (cases "dp_batch d") (auto simp: has_tensor_def)
  then have w: "with_response_mask d = Inr d" using assms(1) by (simp add: with_response_mask_def)
  show ?thesis using assms(2,3) by (auto simp: compute_advantage_def w res_simps split: if_splits option.splits)
qed

text \<open>C12 The comment in \<open>fit\<close>: balancing does not affect the advantages. Whether a batch is balanced before or after its advantages are
  computed, the rows get the same ones, in the same order.\<close>

theorem balancing_keeps_advantages:
  fixes d :: "('e agent_row, 'o :: linorder, 'm) data_proto"
  assumes ok: "dp_ok d" and rm: "has_tensor ''response_mask'' d"
    and est: "est = ''gae'' \<and> \<not> ac_use_pf_ppo cfg \<or> est = ''grpo'' \<or> est \<in> set order_free"
    and run: "compute_advantage (adv_estimators argmax) multinomial as_real d est gamma lam by_std cfg = Inr (Some e)"
    and bal: "balance_batch bcfg dp_ranks d = Inr (d', stats)" "\<not> bl_keep_minibatch bcfg"
    and tok: "\<forall>seqlens. token_counts d = Inr seqlens \<longrightarrow> (\<forall>l \<in> set seqlens. 0 \<le> l)"
  shows "\<exists>e'. compute_advantage (adv_estimators argmax) multinomial as_real d' est gamma lam by_std cfg = Inr (Some e') \<and>
    balance_batch bcfg dp_ranks e = Inr (e', stats)"
proof -
  obtain seqlens dp parts where b: "token_counts d = Inr seqlens" "get_dp_size dp_ranks = Inr dp"
    "global_partitions bcfg (map_of (dp_non_tensor d) ''uid'') dp seqlens = Inr parts"
    "reorder (map int (concat parts)) d = Inr d'" "log_seqlen_unbalance seqlens parts = Inr stats"
    using bal(1) by (auto simp: balance_batch_def res_simps)
  have ix: "reorders (concat parts) (dp_len d)"
    using is_partition_reorders [OF global_partitions_partition [OF b(3) _ bal(2)]] tok b(1) token_counts_length [OF ok b(1)] by simp
  from advantages_follow_rows [OF ok rm ix est run] b(4) obtain e' where
    e': "reorder (map int (concat parts)) e = Inr e'"
      "compute_advantage (adv_estimators argmax) multinomial as_real d' est gamma lam by_std cfg = Inr (Some e')" by auto
  have "est = ''gae'' \<longrightarrow> \<not> ac_use_pf_ppo cfg" using est by (auto simp: order_free_def)
  then obtain AR where AR: "set_advantages AR d = Inr e" using compute_advantage_sets [OF rm _ run] by blast
  have bd: "dp_batch d \<noteq> None" using rm by (cases "dp_batch d") (auto simp: has_tensor_def)
  have "balance_batch bcfg dp_ranks e = Inr (e', stats)"
    unfolding balance_batch_def set_advantages_counts [OF AR bd] set_advantages_ok(4) [OF ok AR] b bind_r_simps e'(1) by (rule refl)
  with e'(2) show ?thesis by blast
qed

text \<open>With the mini-batches kept, the rows after the last whole mini-batch are dropped.\<close>

lemma mset_extended:
  "length ps = length qs \<Longrightarrow> mset (concat (map (\<lambda>(p, q). p @ map f q) (zip ps qs))) = mset (concat ps) + image_mset f (mset (concat qs))"
  by (induction ps qs rule: list_induct2) (simp_all add: ac_simps)

lemma shifted_upt: "map (\<lambda>x. a + x) [0..<m] = [a..<a + m]"
  by (induction m) (auto simp: upt_Suc)

lemma minibatch_partitions_cover:
  assumes "minibatch_partitions w dp mini i = Inr parts" "\<forall>v \<in> set w. 0 \<le> v" "i * mini \<le> length w"
  shows "is_partition (i * mini) dp parts"
  using assms
proof (induction i arbitrary: parts)
  case 0
  then show ?case by (auto simp: is_partition_def)
next
  case (Suc i)
  let ?w = "take mini (drop (i * mini) w)"
  obtain ps qs where ps: "minibatch_partitions w dp mini i = Inr ps" "get_seqlen_balanced_partitions ?w dp True = Inr qs"
    "parts = map (\<lambda>(p, q). p @ map (\<lambda>x. x + mini * i) q) (zip ps qs)"
    using Suc.prems(1) by (auto simp: res_simps)
  have le: "i * mini + mini \<le> length w" using Suc.prems(3) by (simp add: add.commute)
  have P: "is_partition (i * mini) dp ps" using Suc.IH [OF ps(1) Suc.prems(2)] le by simp
  have "\<forall>v \<in> set ?w. 0 \<le> v" using Suc.prems(2) by (meson in_set_dropD in_set_takeD)
  from balanced_partitions_partition [OF ps(2) this] have Q: "is_partition mini dp qs" using le by simp
  have "mset (concat parts) = mset [0..<i * mini] + image_mset (\<lambda>x. x + mini * i) (mset [0..<mini])"
    using P Q unfolding ps(3) by (subst mset_extended) (simp_all add: is_partition_def)
  also have "\<dots> = mset ([0..<i * mini] @ map (\<lambda>x. i * mini + x) [0..<mini])" by (simp add: ac_simps)
  also have "map (\<lambda>x. i * mini + x) [0..<mini] = [i * mini..<i * mini + mini]"
    by (rule shifted_upt)
  also have "[0..<i * mini] @ [i * mini..<i * mini + mini] = [0..<Suc i * mini]"
    by (metis add.commute le_add1 mult_Suc upt_add_eq_append zero_le add_0)
  finally show ?case using P Q by (simp add: is_partition_def ps(3))
qed

theorem minibatch_balancing_drops_rows:
  assumes ok: "dp_ok d" and bal: "balance_batch cfg dp_ranks d = Inr (d', stats)"
    and cfg: "bl_keep_minibatch cfg" "\<not> bl_prefix_grouper cfg" "bl_mini_batch_size cfg = Some mini"
    and tok: "token_counts d = Inr seqlens" "\<forall>l \<in> set seqlens. 0 \<le> l"
  shows "dp_len d' = dp_len d div mini * mini"
proof -
  let ?w = "map calculate_workload seqlens"
  obtain dp parts where b: "global_partitions cfg (map_of (dp_non_tensor d) ''uid'') dp seqlens = Inr parts"
    "reorder (map int (concat parts)) d = Inr d'"
    using bal tok(1) by (auto simp: balance_batch_def res_simps)
  obtain ps where ps: "minibatch_partitions ?w dp mini (length ?w div mini) = Inr ps" "parts = map (ends_small ?w) ps"
    using b(1) cfg by (auto simp: global_partitions_def Let_def bind_r_Inr require_Inr)
  have "\<forall>v \<in> set ?w. 0 \<le> v" using tok(2) calculate_workload_nonneg by auto
  from minibatch_partitions_cover [OF ps(1) this] have "is_partition (length ?w div mini * mini) dp ps" by simp
  then have "length (concat parts) = length ?w div mini * mini"
    unfolding ps(2) using reorders_facts(1) is_partition_reorders ends_small_partition by blast
  moreover have "dp_len d' = length (concat parts)" using b(2)
    by (auto simp: reorder_def dp_len_def res_simps split: option.splits)
  ultimately show ?thesis using token_counts_length [OF ok tok(1)] by simp
qed

section \<open>Examples\<close>

text \<open>Four rows on two ranks.\<close>

definition four_scored :: "(nat agent_row, nat, nat) data_proto" where
  "four_scored = \<lparr>dp_batch = Some \<lparr>td_size = 4, td_items =
      [(''attention_mask'', [Ids [1, 1], Ids [1, 0], Ids [1, 1], Ids [1, 0]]),
       (''response_mask'', [Ids [1], Ids [0], Ids [1], Ids [0]]),
       (''token_level_rewards'', [Reals [1], Reals [0], Reals [1], Reals [1]])]\<rparr>,
     dp_non_tensor = [(''uid'', [7, 7, 8, 8])], dp_meta = []\<rparr>"

definition plain_balance :: "bool \<Rightarrow> balance_config" where
  "plain_balance keep = \<lparr>bl_prefix_grouper = False, bl_keep_minibatch = keep, bl_mini_batch_size = Some 3\<rparr>"

lemma four_scored_facts:
  "dp_ok four_scored" "dp_len four_scored = 4" "has_tensor ''response_mask'' four_scored" "token_counts four_scored = Inr [2, 1, 2, 1]"
  "dp_batch four_scored \<noteq> None"
  by (simp_all add: four_scored_def dp_ok_def td_ok_def dp_len_def dict_keys_def has_tensor_def token_counts_def dict_item_def)

theorem balance_batch_witness:
  "\<exists>d' stats parts. balance_batch (plain_balance False) [0, 0, 1, 1] four_scored = Inr (d', stats) \<and> length parts = 2 \<and>
    reorders (concat parts) 4 \<and> reorder (map int (concat parts)) four_scored = Inr d' \<and>
    (\<forall>r < 2. take 2 (drop (r * 2) (concat parts)) = parts ! r)"
proof -
  have "\<forall>l \<in> set [2, 1, 2, 1]. 0 \<le> l \<and> calculate_workload l \<le> calculate_workload 2" by (simp add: calculate_workload_def)
  from balance_batch_balanced [OF four_scored_facts(1,4) this, of "[0, 0, 1, 1]" 2 "plain_balance False"]
  show ?thesis unfolding four_scored_facts(2) by (auto simp: plain_balance_def)
qed

theorem balancing_keeps_advantages_witness:
  "\<exists>e d' stats e'. compute_advantage (adv_estimators (\<lambda>_. 0)) (\<lambda>_ _. []) real four_scored ''rloo'' 1 1 True plain_algo = Inr (Some e) \<and>
    balance_batch (plain_balance False) [0, 0, 1, 1] four_scored = Inr (d', stats) \<and>
    compute_advantage (adv_estimators (\<lambda>_. 0)) (\<lambda>_ _. []) real d' ''rloo'' 1 1 True plain_algo = Inr (Some e') \<and>
    balance_batch (plain_balance False) [0, 0, 1, 1] e = Inr (e', stats)"
proof -
  obtain d' stats where b: "balance_batch (plain_balance False) [0, 0, 1, 1] four_scored = Inr (d', stats)"
  proof -
    have "\<forall>l \<in> set [2, 1, 2, 1]. 0 \<le> l \<and> calculate_workload l \<le> calculate_workload 2" by (simp add: calculate_workload_def)
    from balance_batch_ok [OF four_scored_facts(1,4) this, of "[0, 0, 1, 1]" 2 "plain_balance False"] that
    show ?thesis unfolding four_scored_facts(2) by (auto simp: plain_balance_def)
  qed
  have w: "with_response_mask four_scored = Inr four_scored" by (simp add: with_response_mask_def four_scored_facts)
  have t: "tensor ''token_level_rewards'' four_scored = Inr [[1], [0], [1], [1]]"
    "tensor ''response_mask'' four_scored = Inr [[1], [0], [1], [0]]"
    by (simp_all add: four_scored_def tensor_def dict_item_def real_row_def)
  have k: "estimator_kwargs real ''rloo'' plain_algo [[1], [0], [1], [1]] [[1], [0], [1], [0]] four_scored =
      Inr \<lparr>ak_rewards = [[1], [0], [1], [1]], ak_mask = [[1], [0], [1], [0]], ak_config = plain_algo, ak_index = Some [7, 7, 8, 8],
        ak_baselines = None, ak_gdpo = None, ak_otb = None\<rparr>"
    by (simp add: estimator_kwargs_def optional_tensor_def has_tensor_def four_scored_def otb_names_def)
  obtain A where A: "compute_rloo_outcome_advantage [[1], [0], [1], [1]] [[1], [0], [1], [0]] [7 :: nat, 7, 8, 8] = Inr A" "length A = 4"
    by (simp add: compute_rloo_outcome_advantage_def scores_of_def scale_rows_def vzip_def Let_def)
  obtain e where e: "set_advantages (A, A) four_scored = Inr e"
    using A(2) by (simp add: set_advantages_def set_tensor_def four_scored_def)
  have run: "compute_advantage (adv_estimators (\<lambda>_. 0)) (\<lambda>_ _. []) real four_scored ''rloo'' 1 1 True plain_algo = Inr (Some e)"
    using A(1) by (simp add: compute_advantage_def w t k e get_adv_estimator_fn_def adv_estimators_def needs_index_def both_def)
  have tok: "\<forall>seqlens. token_counts four_scored = Inr seqlens \<longrightarrow> (\<forall>l \<in> set seqlens. 0 \<le> l)" by (simp add: four_scored_facts)
  have est: "''rloo'' = ''gae'' \<and> \<not> ac_use_pf_ppo plain_algo \<or> ''rloo'' = ''grpo'' \<or> ''rloo'' \<in> set order_free" by (simp add: order_free_def)
  have keep: "\<not> bl_keep_minibatch (plain_balance False)" by (simp add: plain_balance_def)
  from balancing_keeps_advantages [OF four_scored_facts(1,3) est run b keep tok] run b show ?thesis by blast
qed

end
