(* ===== verification/LossSplit.thy ===== *)
theory LossSplit
  imports LossRegistry RowOrder
begin

text \<open>
  Policy losses over micro-batches. The engine cuts the rows of a batch over data-parallel ranks and micro-batches,
  in any order; a loss whose token losses are computed row by row, and which is divided by the counts of the global
  batch, adds up to the loss of the whole batch. \<open>split_loss\<close> is that interface; seven of the registered losses
  provide it.
\<close>

section \<open>Sums over parts of a batch\<close>

lemma perm_upt [simp]: "perm [0..<length xs] xs = xs"
  by (simp add: perm_def map_nth)

lemma loss_total_perm:
  assumes "length L = length M"
  shows "loss_total mode (perm ix L) (perm ix M) = sum_list (map (\<lambda>i. loss_total mode [L ! i] [M ! i]) ix)"
proof (induction ix)
  case Nil
  show ?case by (simp add: perm_def loss_total_def masked_sum_def masked_sum_vec_def seq_present_def)
next
  case (Cons i ix)
  have "loss_total mode (perm (i # ix) L) (perm (i # ix) M) = loss_total mode ([L ! i] @ perm ix L) ([M ! i] @ perm ix M)"
    by (simp add: perm_def)
  also have "\<dots> = loss_total mode [L ! i] [M ! i] + loss_total mode (perm ix L) (perm ix M)"
    by (rule loss_total_append) simp
  finally show ?case using Cons.IH by simp
qed

lemma sum_list_parts: "sum_list (map (\<lambda>mbs. sum_list (map (\<lambda>ix. sum_list (map g ix)) mbs)) parts) = sum_list (map g (concat (concat parts)))"
  for g :: "'a \<Rightarrow> real"
proof -
  have "sum_list (map (\<lambda>ix. sum_list (map g ix)) mbs) = sum_list (map g (concat mbs))" for mbs
    by (induction mbs) simp_all
  then show ?thesis by (induction parts) simp_all
qed

lemma sum_list_mset:
  fixes g :: "'a \<Rightarrow> real"
  assumes "mset xs = mset ys"
  shows "sum_list (map g xs) = sum_list (map g ys)"
proof -
  have "mset (map g xs) = mset (map g ys)" using assms by simp
  then show ?thesis by (metis sum_mset_sum_list)
qed

lemma loss_total_parts:
  assumes "reorders (concat (concat parts)) (length M)" "length L = length M"
  shows "sum_list (map (\<lambda>mbs. sum_list (map (\<lambda>ix. loss_total mode (perm ix L) (perm ix M)) mbs)) parts) = loss_total mode L M"
proof -
  let ?g = "\<lambda>i. loss_total mode [L ! i] [M ! i]"
  have "sum_list (map (\<lambda>mbs. sum_list (map (\<lambda>ix. loss_total mode (perm ix L) (perm ix M)) mbs)) parts) =
      sum_list (map ?g (concat (concat parts)))"
    unfolding loss_total_perm [OF assms(2)] by (rule sum_list_parts)
  also have "\<dots> = sum_list (map ?g [0..<length M])"
    using assms(1) unfolding reorders_def by (rule sum_list_mset)
  also have "\<dots> = loss_total mode (perm [0..<length M] L) (perm [0..<length M] M)" by (rule loss_total_perm [OF assms(2), symmetric])
  also have "\<dots> = loss_total mode L M" using assms(2) perm_upt [of L] perm_upt [of M] by simp
  finally show ?thesis .
qed

text \<open>What the sum of a batch is divided by, given the counts of the global batch.\<close>

definition given_divisor :: "string \<Rightarrow> real \<Rightarrow> real \<Rightarrow> real option \<Rightarrow> nat \<Rightarrow> real" where
  "given_divisor mode tokens seqs scale width =
     (if mode = ''token-mean'' then tokens
      else if mode = ''seq-mean-token-sum-norm'' then seqs * (case scale of Some s \<Rightarrow> s | None \<Rightarrow> real width)
      else seqs)"

definition given_info :: "nat \<Rightarrow> real \<Rightarrow> real \<Rightarrow> real option \<Rightarrow> batch_info" where
  "given_info dp tokens seqs scale = \<lparr>bi_dp_size = dp, bi_num_tokens = Some tokens, bi_batch_size = Some seqs, bi_scale_factor = scale\<rparr>"

lemma agg_loss_given:
  assumes "known_mode mode" "given_divisor mode tokens seqs scale width \<noteq> 0" "M \<noteq> []" "\<forall>row \<in> set M. length row = width"
  shows "agg_loss L M mode (given_info dp tokens seqs scale) =
    Inr (Some (loss_total mode L M * real dp / given_divisor mode tokens seqs scale width))"
proof -
  have w: "(case M of [] \<Rightarrow> 0 | row # _ \<Rightarrow> length row) = width" using assms(3,4) by (cases M) auto
  have s: "(case scale of None \<Rightarrow> real width | Some s \<Rightarrow> s) \<noteq> 0" if "mode = ''seq-mean-token-sum-norm''"
    using assms(2) that by (simp add: given_divisor_def)
  show ?thesis
    using assms(1,2) s w unfolding known_mode_def insert_iff empty_iff
    by (cases scale; elim disjE FalseE;
        simp add: agg_loss_def loss_total_def given_info_def needs_global_def times_dp_def div_fin_def given_divisor_def Let_def)
qed

lemma sum_list_divided:
  "sum_list (map (\<lambda>x. f x / c) xs) = sum_list (map f xs) / (c :: real)"
  by (induction xs) (simp_all add: add_divide_distrib)

text \<open>The counts are usable: no mode divides by zero.\<close>

definition usable_counts :: "real \<Rightarrow> real \<Rightarrow> real option \<Rightarrow> nat \<Rightarrow> bool" where
  "usable_counts tokens seqs scale width \<longleftrightarrow> tokens \<noteq> 0 \<and> seqs \<noteq> 0 \<and> (case scale of Some s \<Rightarrow> s \<noteq> 0 | None \<Rightarrow> width \<noteq> 0)"

lemma usable_divisor: "usable_counts tokens seqs scale width \<Longrightarrow> given_divisor mode tokens seqs scale width \<noteq> 0"
  by (cases scale) (simp_all add: usable_counts_def given_divisor_def)

text \<open>A quantity of the parts of a batch that adds up to that of the whole.\<close>

definition additive :: "nat \<Rightarrow> (nat list \<Rightarrow> real) \<Rightarrow> bool" where
  "additive n g \<longleftrightarrow> (\<forall>parts. reorders (concat (concat parts)) n \<longrightarrow>
     sum_list (map (\<lambda>mbs. sum_list (map g mbs)) parts) = g [0..<n])"

lemma additive_linear:
  assumes "additive n f" "additive n g"
  shows "additive n (\<lambda>ix. f ix + c * g ix)"
proof -
  have inner: "sum_list (map (\<lambda>ix. f ix + c * g ix) mbs) = sum_list (map f mbs) + c * sum_list (map g mbs)" for mbs
    by (induction mbs) (simp_all add: algebra_simps)
  have "sum_list (map (\<lambda>mbs. sum_list (map (\<lambda>ix. f ix + c * g ix) mbs)) parts) =
      sum_list (map (\<lambda>mbs. sum_list (map f mbs)) parts) + c * sum_list (map (\<lambda>mbs. sum_list (map g mbs)) parts)" for parts
    unfolding inner by (induction parts) (simp_all add: algebra_simps)
  then show ?thesis using assms unfolding additive_def by simp
qed

lemma additive_cong: "additive n f \<Longrightarrow> (\<And>ix. f ix = g ix) \<Longrightarrow> additive n g"
  by (metis ext)

lemma additive_divided:
  assumes "additive n f"
  shows "additive n (\<lambda>ix. f ix / c)"
  using assms unfolding additive_def by (simp add: sum_list_divided)

lemma loss_total_additive:
  assumes "length L = length M" "length M = n"
  shows "additive n (\<lambda>ix. loss_total mode (perm ix L) (perm ix M))"
  unfolding additive_def using loss_total_parts [OF _ assms(1)] perm_upt [of L] perm_upt [of M] assms by simp

section \<open>Losses that can be split\<close>

abbreviation pick_rows :: "nat list \<Rightarrow> 'a list option \<Rightarrow> 'a list option" where
  "pick_rows ix \<equiv> map_option (perm ix)"

definition sized :: "nat \<Rightarrow> mat option \<Rightarrow> bool" where
  "sized n ws \<longleftrightarrow> (case ws of None \<Rightarrow> True | Some W \<Rightarrow> length W = n)"

definition pg_metric_keys :: "string set" where
  "pg_metric_keys = {''actor/pg_clipfrac'', ''actor/ppo_kl'', ''actor/pg_clipfrac_lower''}"

locale split_loss =
  fixes loss :: policy_loss
    and tokens :: "actor_config \<Rightarrow> mat \<Rightarrow> mat \<Rightarrow> mat \<Rightarrow> mat \<Rightarrow> mat option \<Rightarrow> mat"
    and mode_of :: "string \<Rightarrow> string"
    and guard :: "actor_config \<Rightarrow> bool"
  assumes aggregates: "guard cfg \<Longrightarrow> agg_loss (tokens cfg p l a M ws) M (mode_of mode) (ac_info cfg) = Inr x \<Longrightarrow>
      \<exists>ms. loss p l a M mode cfg ws = Inr (x, ms) \<and> fst ` set ms \<subseteq> pg_metric_keys"
    and by_rows: "length p = n \<Longrightarrow> length l = n \<Longrightarrow> length a = n \<Longrightarrow> length M = n \<Longrightarrow> sized n ws \<Longrightarrow> \<forall>i \<in> set ix. i < n \<Longrightarrow>
      tokens cfg (perm ix p) (perm ix l) (perm ix a) (perm ix M) (pick_rows ix ws) = perm ix (tokens cfg p l a M ws)"
    and row_count: "length p = n \<Longrightarrow> length l = n \<Longrightarrow> length a = n \<Longrightarrow> length M = n \<Longrightarrow> sized n ws \<Longrightarrow>
      length (tokens cfg p l a M ws) = n"
    and info_free: "tokens (cfg\<lparr>ac_info := info\<rparr>) = tokens cfg" "guard (cfg\<lparr>ac_info := info\<rparr>) = guard cfg"
begin

definition total_of :: "string \<Rightarrow> actor_config \<Rightarrow> mat \<Rightarrow> mat \<Rightarrow> mat \<Rightarrow> mat \<Rightarrow> mat option \<Rightarrow> nat list \<Rightarrow> real" where
  "total_of mode cfg p l a M ws ix = loss_total (mode_of mode) (perm ix (tokens cfg p l a M ws)) (perm ix M)"

lemma parts_add_up:
  assumes n: "length p = n" "length l = n" "length a = n" "length M = n" "sized n ws"
    and "guard cfg" "known_mode (mode_of mode)" "usable_counts t b sc width" "\<forall>row \<in> set M. length row = width"
  shows "\<exists>g. additive n g \<and> (\<forall>ix dp. ix \<noteq> [] \<longrightarrow> (\<forall>i \<in> set ix. i < n) \<longrightarrow>
    (\<exists>ms. loss (perm ix p) (perm ix l) (perm ix a) (perm ix M) mode (cfg\<lparr>ac_info := given_info dp t b sc\<rparr>) (pick_rows ix ws) =
      Inr (Some (g ix * real dp), ms) \<and> fst ` set ms \<subseteq> pg_metric_keys))"
proof -
  let ?T = "tokens cfg p l a M ws" and ?d = "given_divisor (mode_of mode) t b sc width"
  let ?g = "\<lambda>ix. loss_total (mode_of mode) (perm ix ?T) (perm ix M) / ?d"
  have "length ?T = length M" using row_count [OF n] n(4) by simp
  then have "additive n ?g" using n(4) by (intro additive_divided loss_total_additive)
  moreover have "\<exists>ms. loss (perm ix p) (perm ix l) (perm ix a) (perm ix M) mode (cfg\<lparr>ac_info := given_info dp t b sc\<rparr>) (pick_rows ix ws) =
      Inr (Some (?g ix * real dp), ms) \<and> fst ` set ms \<subseteq> pg_metric_keys" if ix: "ix \<noteq> []" "\<forall>i \<in> set ix. i < n" for ix dp
  proof -
    have "perm ix M \<noteq> []" "\<forall>row \<in> set (perm ix M). length row = width"
      using n(4) ix assms(9) by (auto simp: perm_def)
    from agg_loss_given [OF assms(7) usable_divisor [OF assms(8)] this]
    have "agg_loss (perm ix ?T) (perm ix M) (mode_of mode) (given_info dp t b sc) = Inr (Some (?g ix * real dp))" by simp
    then show ?thesis using by_rows [OF n ix(2)] assms(6) by (intro aggregates) (simp_all add: info_free)
  qed
  ultimately show ?thesis by blast
qed

end

section \<open>The losses of the registry\<close>

lemma corrected_rows:
  assumes "length L = n" "sized n ws" "\<forall>i \<in> set ix. i < n"
  shows "corrected (pick_rows ix ws) (perm ix L) = perm ix (corrected ws L)"
  using assms by (cases ws) (simp_all add: corrected_def sized_def perm_mzip)

lemma length_corrected: "length L = n \<Longrightarrow> sized n ws \<Longrightarrow> length (corrected ws L) = n"
  by (cases ws) (simp_all add: corrected_def sized_def mzip_def)

lemma length_mzip: "length A = n \<Longrightarrow> length B = n \<Longrightarrow> length (mzip f A B) = n"
  by (simp add: mzip_def)

lemma length_mzip3: "length A = n \<Longrightarrow> length B = n \<Longrightarrow> length C = n \<Longrightarrow> length (mzip3 f A B C) = n"
  by (simp add: mzip3_def mzip_def)

lemma perm_mzip3: "length A = n \<Longrightarrow> length B = n \<Longrightarrow> length C = n \<Longrightarrow> \<forall>i \<in> set ix. i < n \<Longrightarrow>
    mzip3 f (perm ix A) (perm ix B) (perm ix C) = perm ix (mzip3 f A B C)"
  by (simp add: mzip3_def perm_mzip length_mzip)

lemmas split_simps = corrected_rows length_corrected length_mzip length_mzip3 perm_mzip perm_mzip3 clip_low_def clip_high_def

definition vanilla_tokens :: "actor_config \<Rightarrow> mat \<Rightarrow> mat \<Rightarrow> mat \<Rightarrow> mat \<Rightarrow> mat option \<Rightarrow> mat" where
  "vanilla_tokens cfg p l a M ws = corrected ws
     (mzip (dual_clip_loss (clip_low cfg) (clip_high cfg) (get_or 3 (ac_clip_ratio_c cfg))) (mzip (\<lambda>p l. exp (log_ratio p l)) p l) a)"

interpretation vanilla_split: split_loss compute_policy_loss_vanilla vanilla_tokens "\<lambda>mode. mode"
    "\<lambda>cfg. 1 < get_or 3 (ac_clip_ratio_c cfg)"
proof
  show "\<exists>ms. compute_policy_loss_vanilla p l a M mode cfg ws = Inr (x, ms) \<and> fst ` set ms \<subseteq> pg_metric_keys"
    if "1 < get_or 3 (ac_clip_ratio_c cfg)" "agg_loss (vanilla_tokens cfg p l a M ws) M mode (ac_info cfg) = Inr x" for cfg p l a M ws mode x
    using that by (simp add: compute_policy_loss_vanilla_def ppo_loss_def Let_def vanilla_tokens_def pg_metric_keys_def)
qed (auto simp: vanilla_tokens_def split_simps fun_eq_iff)

definition dppo_tokens :: "(real \<Rightarrow> real \<Rightarrow> real \<Rightarrow> bool) \<Rightarrow> actor_config \<Rightarrow> mat \<Rightarrow> mat \<Rightarrow> mat \<Rightarrow> mat option \<Rightarrow> mat" where
  "dppo_tokens valid cfg p l a ws = corrected ws
     (mzip3 (\<lambda>p l a. - a * min (exp (log_ratio p l)) (get_or 20 (ac_clip_ratio_c cfg)) * l * frac (valid p l a)) p l a)"

lemma dppo_aggregates:
  assumes "agg_loss (dppo_tokens valid cfg p l a ws) M mode (ac_info cfg) = Inr x"
  shows "\<exists>ms. dppo_loss valid p l a M mode cfg ws = Inr (x, ms) \<and> fst ` set ms \<subseteq> pg_metric_keys"
  using assms by (simp add: dppo_loss_def dppo_tokens_def Let_def pg_metric_keys_def)

interpretation dppo_tv_split: split_loss compute_policy_loss_dppo_tv
    "\<lambda>cfg p l a M. dppo_tokens (valid_tv (clip_low cfg) (clip_high cfg)) cfg p l a" "\<lambda>mode. mode" "\<lambda>cfg. True"
  by unfold_locales (auto simp: compute_policy_loss_dppo_tv_def dppo_aggregates dppo_tokens_def [abs_def] split_simps fun_eq_iff)

interpretation dppo_kl_split: split_loss compute_policy_loss_dppo_kl
    "\<lambda>cfg p l a M. dppo_tokens (valid_kl (clip_low cfg) (clip_high cfg)) cfg p l a" "\<lambda>mode. mode" "\<lambda>cfg. True"
  by unfold_locales (auto simp: compute_policy_loss_dppo_kl_def dppo_aggregates dppo_tokens_def [abs_def] split_simps fun_eq_iff)

definition sapo_tokens :: "actor_config \<Rightarrow> mat \<Rightarrow> mat \<Rightarrow> mat \<Rightarrow> mat option \<Rightarrow> mat" where
  "sapo_tokens cfg p l a ws = corrected ws
     (mzip3 (\<lambda>p l a. - sapo_gate (if 0 < a then ac_tau_pos cfg else ac_tau_neg cfg) (exp (log_ratio p l)) * a) p l a)"

lemma sapo_info_free: "sapo_tokens (cfg\<lparr>ac_info := info\<rparr>) = sapo_tokens cfg"
  by (simp add: sapo_tokens_def [abs_def] cong: if_cong)

interpretation sapo_split: split_loss "\<lambda>p l a M mode. compute_policy_loss_sapo p l a M" "\<lambda>cfg p l a M. sapo_tokens cfg p l a"
    "\<lambda>mode. ''seq-mean-token-mean''" "\<lambda>cfg. True"
  by (unfold_locales, unfold sapo_info_free) (auto simp: compute_policy_loss_sapo_def pg_metric_keys_def Let_def sapo_tokens_def split_simps)

definition gpg_tokens :: "mat \<Rightarrow> mat \<Rightarrow> mat option \<Rightarrow> mat" where
  "gpg_tokens l a ws = corrected ws (mzip (\<lambda>l a. - l * a) l a)"

interpretation gpg_split: split_loss "\<lambda>p. compute_policy_loss_gpg" "\<lambda>cfg p l a M. gpg_tokens l a" "\<lambda>mode. mode" "\<lambda>cfg. True"
  by unfold_locales (auto simp: compute_policy_loss_gpg_def gpg_tokens_def split_simps fun_eq_iff)

definition cispo_tokens :: "actor_config \<Rightarrow> mat \<Rightarrow> mat \<Rightarrow> mat \<Rightarrow> mat option \<Rightarrow> mat" where
  "cispo_tokens cfg p l a ws = corrected ws
     (mzip3 (\<lambda>r a l. - r * a * l) (mmap (clamp (1 - clip_low cfg) (1 + clip_high cfg)) (mzip (\<lambda>p l. exp (log_ratio p l)) p l)) a l)"

lemma length_mmap: "length (mmap f A) = length A"
  by (simp add: mmap_def)

lemma perm_mmap_sized: "length A = n \<Longrightarrow> \<forall>i \<in> set ix. i < n \<Longrightarrow> mmap f (perm ix A) = perm ix (mmap f A)"
  by (simp add: perm_mmap)

interpretation cispo_split: split_loss compute_policy_loss_cispo "\<lambda>cfg p l a M. cispo_tokens cfg p l a" "\<lambda>mode. mode" "\<lambda>cfg. True"
  by unfold_locales
    (auto simp: compute_policy_loss_cispo_def pg_metric_keys_def Let_def cispo_tokens_def split_simps perm_mmap_sized length_mmap fun_eq_iff)

definition gspo_tokens :: "actor_config \<Rightarrow> mat \<Rightarrow> mat \<Rightarrow> mat \<Rightarrow> mat \<Rightarrow> mat option \<Rightarrow> mat" where
  "gspo_tokens cfg p l a M ws =
     (let R = vzip (\<lambda>s lp. map (\<lambda>l. exp (min (l - l + s) 10)) lp) (vzip (\<lambda>(p, l) m. seq_log_ratio p l m) (zip p l) M) l
      in corrected ws (mzip max (mzip pg_losses1 R a) (mzip (pg_losses2 (clip_low cfg) (clip_high cfg)) R a)))"

lemma perm_vzip_sized: "length xs = n \<Longrightarrow> length ys = n \<Longrightarrow> \<forall>i \<in> set ix. i < n \<Longrightarrow> vzip f (perm ix xs) (perm ix ys) = perm ix (vzip f xs ys)"
  by (simp add: perm_vzip)

lemma perm_zip_sized: "length xs = n \<Longrightarrow> length ys = n \<Longrightarrow> \<forall>i \<in> set ix. i < n \<Longrightarrow> zip (perm ix xs) (perm ix ys) = perm ix (zip xs ys)"
  by (simp add: perm_zip)

lemma length_vzip_sized: "length xs = n \<Longrightarrow> length ys = n \<Longrightarrow> length (vzip f xs ys) = n"
  by simp

interpretation gspo_split: split_loss "\<lambda>p l a M mode. compute_policy_loss_gspo p l a M" gspo_tokens
    "\<lambda>mode. ''seq-mean-token-mean''" "\<lambda>cfg. True"
proof
  show "\<exists>ms. compute_policy_loss_gspo p l a M cfg ws = Inr (x, ms) \<and> fst ` set ms \<subseteq> pg_metric_keys"
    if "agg_loss (gspo_tokens cfg p l a M ws) M ''seq-mean-token-mean'' (ac_info cfg) = Inr x" for cfg p l a M ws x
    using that by (simp add: compute_policy_loss_gspo_def pg_metric_keys_def Let_def gspo_tokens_def)
qed (auto simp: gspo_tokens_def Let_def split_simps perm_vzip_sized perm_zip_sized length_vzip_sized fun_eq_iff)

definition split_names :: "string list" where
  "split_names = [''vanilla'', ''dppo_tv'', ''dppo_kl'', ''gspo'', ''sapo'', ''gpg'', ''cispo'']"

lemma registered_losses_split:
  assumes "get_policy_loss_fn name (policy_losses perms topk peers bypass) = Inr f" "name \<in> set split_names" "1 < get_or 3 (ac_clip_ratio_c cfg)"
    and "length p = n" "length l = n" "length a = n" "length M = n" "sized n ws"
    and "known_mode mode" "usable_counts t b sc width" "\<forall>row \<in> set M. length row = width"
  shows "\<exists>g. additive n g \<and> (\<forall>ix dp. ix \<noteq> [] \<longrightarrow> (\<forall>i \<in> set ix. i < n) \<longrightarrow>
    (\<exists>ms. f (perm ix p) (perm ix l) (perm ix a) (perm ix M) mode (cfg\<lparr>ac_info := given_info dp t b sc\<rparr>) (pick_rows ix ws) =
      Inr (Some (g ix * real dp), ms) \<and> fst ` set ms \<subseteq> pg_metric_keys))"
proof -
  have "known_mode ''seq-mean-token-mean''" by (simp add: known_mode_def)
  note parts = assms(3-8) TrueI assms(9) this assms(10,11)
  have "f = compute_policy_loss_vanilla \<or> f = compute_policy_loss_dppo_tv \<or> f = compute_policy_loss_dppo_kl \<or>
      f = (\<lambda>p l a M mode. compute_policy_loss_gspo p l a M) \<or> f = (\<lambda>p l a M mode. compute_policy_loss_sapo p l a M) \<or>
      f = (\<lambda>p. compute_policy_loss_gpg) \<or> f = compute_policy_loss_cispo"
    using assms(1,2) unfolding get_policy_loss_fn_def policy_losses_def register_policy_loss_def split_names_def
    by (simp del: fun_upd_apply split: option.splits if_splits) (auto split: if_splits)
  then show ?thesis
  proof (elim disjE)
    assume "f = compute_policy_loss_vanilla"
    then show ?thesis using vanilla_split.parts_add_up [OF parts(2-6) parts(1) parts(8) parts(10,11)] by simp
  next
    assume "f = compute_policy_loss_dppo_tv"
    then show ?thesis using dppo_tv_split.parts_add_up [OF parts(2-6) parts(7) parts(8) parts(10,11)] by simp
  next
    assume "f = compute_policy_loss_dppo_kl"
    then show ?thesis using dppo_kl_split.parts_add_up [OF parts(2-6) parts(7) parts(8) parts(10,11)] by simp
  next
    assume "f = (\<lambda>p l a M mode. compute_policy_loss_gspo p l a M)"
    then show ?thesis using gspo_split.parts_add_up [OF parts(2-6) parts(7) parts(9) parts(10,11)] by simp
  next
    assume "f = (\<lambda>p l a M mode. compute_policy_loss_sapo p l a M)"
    then show ?thesis using sapo_split.parts_add_up [OF parts(2-6) parts(7) parts(9) parts(10,11)] by simp
  next
    assume "f = (\<lambda>p. compute_policy_loss_gpg)"
    then show ?thesis using gpg_split.parts_add_up [OF parts(2-6) parts(7) parts(8) parts(10,11)] by simp
  next
    assume "f = compute_policy_loss_cispo"
    then show ?thesis using cispo_split.parts_add_up [OF parts(2-6) parts(7) parts(8) parts(10,11)] by simp
  qed
qed

end
