(* ===== verification/Metrics.thy ===== *)
theory Metrics
  imports Advantage PyText
begin

text \<open>
  Training metrics (\<^verbatim>\<open>verl/utils/metric/utils.py\<close>, \<open>append_to_dict\<close> of \<^verbatim>\<open>verl/utils/py_functional.py\<close>): values with
  the way they are aggregated over micro-batches and over the data-parallel ranks. A number is a real option: NaN, which
  is also the mean of nothing, is None, and every aggregate of a NaN is NaN.
\<close>

section \<open>Metrics\<close>

datatype aggregation_type = Agg_mean | Agg_sum | Agg_min | Agg_max

definition parse_aggregation :: "string \<Rightarrow> aggregation_type result" where
  "parse_aggregation s =
     (if s = ''mean'' then Inr Agg_mean else if s = ''sum'' then Inr Agg_sum
      else if s = ''min'' then Inr Agg_min else if s = ''max'' then Inr Agg_max else Inl ValueError)"

record metric =
  mt_aggregation :: aggregation_type
  mt_values :: "real option list"

text \<open>What can be appended: a number, a tensor with its elements, another metric; a list is none of these.\<close>

datatype metric_arg = Number "real option" | Tensor_of "real option list" | Metric_of metric | List_of "real option list"

definition extend_metric :: "metric \<Rightarrow> metric \<Rightarrow> metric result" where
  "extend_metric m other =
     require (mt_aggregation other = mt_aggregation m) ValueError (Inr (m\<lparr>mt_values := mt_values m @ mt_values other\<rparr>))"

definition append_metric :: "metric \<Rightarrow> metric_arg \<Rightarrow> metric result" where
  "append_metric m arg = (case arg of
       Number x \<Rightarrow> Inr (m\<lparr>mt_values := mt_values m @ [x]\<rparr>)
     | Tensor_of xs \<Rightarrow> require (length xs = 1) ValueError (Inr (m\<lparr>mt_values := mt_values m @ xs\<rparr>))
     | Metric_of other \<Rightarrow> extend_metric m other
     | List_of xs \<Rightarrow> Inl ValueError)"

definition extend_list :: "metric \<Rightarrow> metric_arg list \<Rightarrow> metric result" where
  "extend_list m args = fold (\<lambda>a r. bind_r r (\<lambda>m. append_metric m a)) args (Inr m)"

definition new_metric :: "aggregation_type \<Rightarrow> metric_arg option \<Rightarrow> metric result" where
  "new_metric agg val =
     (let m = \<lparr>mt_aggregation = agg, mt_values = []\<rparr>
      in case val of None \<Rightarrow> Inr m | Some v \<Rightarrow> append_metric m v)"

definition init_list :: "metric \<Rightarrow> metric" where
  "init_list m = \<lparr>mt_aggregation = mt_aggregation m, mt_values = []\<rparr>"

definition metrics_from_dict :: "(string \<times> real option) list \<Rightarrow> aggregation_type \<Rightarrow> (string \<times> metric) list" where
  "metrics_from_dict d agg = map (\<lambda>(k, v). (k, \<lparr>mt_aggregation = agg, mt_values = [v]\<rparr>)) d"

definition with_numbers :: "real option list \<Rightarrow> (vec \<Rightarrow> real option result) \<Rightarrow> real option result" where
  "with_numbers xs f = (case those xs of None \<Rightarrow> Inr None | Some ys \<Rightarrow> f ys)"

definition mean_of :: "vec \<Rightarrow> real option" where
  "mean_of xs = div_fin (sum_list xs) (real (length xs))"

definition max_of :: "vec \<Rightarrow> real option result" where
  "max_of xs = require (xs \<noteq> []) ValueError (Inr (Some (Max (set xs))))"

definition min_of :: "vec \<Rightarrow> real option result" where
  "min_of xs = require (xs \<noteq> []) ValueError (Inr (Some (Min (set xs))))"

definition aggregate_values :: "vec \<Rightarrow> aggregation_type \<Rightarrow> real option result" where
  "aggregate_values xs agg = (case agg of
       Agg_mean \<Rightarrow> Inr (mean_of xs)
     | Agg_sum \<Rightarrow> Inr (Some (sum_list xs))
     | Agg_min \<Rightarrow> min_of xs
     | Agg_max \<Rightarrow> max_of xs)"

definition aggregate :: "metric \<Rightarrow> real option result" where
  "aggregate m = with_numbers (mt_values m) (\<lambda>xs. aggregate_values xs (mt_aggregation m))"

text \<open>\<open>np.mean(value_arrays, axis=0)\<close>: one mean over the ranks for every micro-batch.\<close>

definition rank_means :: "vec \<Rightarrow> nat \<Rightarrow> nat \<Rightarrow> vec" where
  "rank_means xs n k = map (\<lambda>j. sum_list (map (\<lambda>i. xs ! (i * k + j)) [0..<n]) / real n) [0..<k]"

definition aggregate_dp :: "metric list \<Rightarrow> real option result" where
  "aggregate_dp ms =
     require (ms \<noteq> []) ValueError
      (let value_lists = map mt_values ms; k = length (hd value_lists)
       in require (\<forall>ls \<in> set value_lists. length ls = k) ValueError
           (let agg = mt_aggregation (hd ms)
            in with_numbers (concat value_lists) (\<lambda>xs.
                 if agg = Agg_sum \<or> agg = Agg_mean then aggregate_values (rank_means xs (length ms) k) agg
                 else aggregate_values xs agg)))"

section \<open>Dictionaries of metrics\<close>

text \<open>A value of a dictionary that is being collected: a metric or a list of numbers and metrics.\<close>

datatype item = Item_number "real option" | Item_metric metric

datatype collected = Collected_metric metric | Collected_list "item list"

text \<open>numpy cannot reduce a list that holds a metric.\<close>

definition item_number :: "item \<Rightarrow> real option result" where
  "item_number it = (case it of Item_number x \<Rightarrow> Inr x | Item_metric m \<Rightarrow> Inl TypeError)"

definition contains_text :: "string \<Rightarrow> string \<Rightarrow> bool" where
  "contains_text p s \<longleftrightarrow> (\<exists>i \<in> set [0..<length s + 1]. startswith p (drop i s))"

definition reduce_value :: "string \<Rightarrow> collected \<Rightarrow> real option result" where
  "reduce_value key v = (case v of
       Collected_metric m \<Rightarrow> aggregate m
     | Collected_list items \<Rightarrow> bind_r (map_r item_number items) (\<lambda>xs.
         with_numbers xs (\<lambda>ys.
           if contains_text ''max'' key then max_of ys
           else if contains_text ''min'' key then min_of ys
           else Inr (mean_of ys))))"

definition reduce_metrics :: "(string, collected) dict \<Rightarrow> (string, real option) dict result" where
  "reduce_metrics d = map_r (\<lambda>(key, v). bind_r (reduce_value key v) (\<lambda>x. Inr (key, x))) d"

text \<open>What a step reports under a key.\<close>

datatype reported = Reported_item item | Reported_list "item list"

definition item_arg :: "item \<Rightarrow> metric_arg" where
  "item_arg it = (case it of Item_number x \<Rightarrow> Number x | Item_metric m \<Rightarrow> Metric_of m)"

definition append_reported :: "collected \<Rightarrow> reported \<Rightarrow> collected result" where
  "append_reported c r = (case c of
       Collected_metric m \<Rightarrow>
         bind_r (case r of Reported_item it \<Rightarrow> append_metric m (item_arg it) | Reported_list its \<Rightarrow> extend_list m (map item_arg its))
           (\<lambda>m. Inr (Collected_metric m))
     | Collected_list items \<Rightarrow>
         Inr (Collected_list (items @ (case r of Reported_item it \<Rightarrow> [it] | Reported_list its \<Rightarrow> its))))"

definition empty_for :: "reported \<Rightarrow> collected" where
  "empty_for r = (case r of Reported_item (Item_metric m) \<Rightarrow> Collected_metric (init_list m) | _ \<Rightarrow> Collected_list [])"

definition append_to_dict :: "(string, collected) dict \<Rightarrow> (string, reported) dict \<Rightarrow> string \<Rightarrow> (string, collected) dict result" where
  "append_to_dict data new_data prefix =
     fold (\<lambda>(key, v) r. bind_r r (\<lambda>data.
         let new_key = (if startswith prefix key then key else prefix @ key);
             old = (case map_of data new_key of None \<Rightarrow> empty_for v | Some c \<Rightarrow> c)
         in bind_r (append_reported old v) (\<lambda>c. Inr (dict_set new_key c data))))
       new_data (Inr data)"

section \<open>Aggregation over ranks\<close>

lemma those_Some [simp]: "those (map Some xs) = Some xs"
  by (induction xs) simp_all

lemma sum_list_swap: "sum_list (map (\<lambda>x. sum_list (map (f x) ys)) xs) = sum_list (map (\<lambda>y. sum_list (map (\<lambda>x. f x y) xs)) ys)"
  for f :: "'a \<Rightarrow> 'b \<Rightarrow> real"
  by (induction xs) (simp_all add: sum_list_addf)

lemma sum_list_div: "sum_list (map (\<lambda>x. f x / c) xs) = sum_list (map f xs) / (c :: real)"
  by (induction xs) (simp_all add: add_divide_distrib)

lemma sum_rank_means:
  assumes "\<forall>row \<in> set rows. length row = k"
  shows "sum_list (rank_means (concat rows) (length rows) k) = sum_list (map sum_list rows) / real (length rows)"
proof -
  have "map (\<lambda>j. concat rows ! (i * k + j)) [0..<k] = rows ! i" if "i < length rows" for i
    using that assms
  proof (induction rows arbitrary: i)
    case (Cons row rows)
    show ?case
    proof (cases i)
      case 0
      then show ?thesis using Cons.prems by (auto simp: nth_append intro!: nth_equalityI)
    next
      case (Suc i')
      then have "map (\<lambda>j. concat rows ! (i' * k + j)) [0..<k] = rows ! i'" using Cons by simp
      moreover have "concat (row # rows) ! (i * k + j) = concat rows ! (i' * k + j)" for j
        using Cons.prems(2) by (simp add: Suc nth_append)
      ultimately show ?thesis by (simp add: Suc)
    qed
  qed simp
  then have row: "sum_list (map (\<lambda>j. concat rows ! (i * k + j)) [0..<k]) = sum_list (rows ! i)" if "i < length rows" for i
    using that by simp
  have "sum_list (map (\<lambda>j. sum_list (map (\<lambda>i. concat rows ! (i * k + j)) [0..<length rows])) [0..<k]) =
      sum_list (map (\<lambda>i. sum_list (map (\<lambda>j. concat rows ! (i * k + j)) [0..<k])) [0..<length rows])"
    by (rule sum_list_swap)
  also have "\<dots> = sum_list (map (\<lambda>i. sum_list (rows ! i)) [0..<length rows])"
    by (rule arg_cong [of _ _ sum_list], rule map_cong [OF refl], rule row) simp
  also have "\<dots> = sum_list (map sum_list rows)"
    by (rule arg_cong [of _ _ sum_list], rule nth_equalityI) simp_all
  finally show ?thesis unfolding rank_means_def by (simp only: sum_list_div)
qed

definition numbers_metric :: "aggregation_type \<Rightarrow> vec \<Rightarrow> metric" where
  "numbers_metric agg xs = \<lparr>mt_aggregation = agg, mt_values = map Some xs\<rparr>"

lemma aggregate_dp_numbers:
  assumes "rows \<noteq> []" "\<forall>row \<in> set rows. length row = k"
  shows "aggregate_dp (map (numbers_metric agg) rows) =
    (if agg = Agg_sum \<or> agg = Agg_mean then aggregate_values (rank_means (concat rows) (length rows) k) agg
     else aggregate_values (concat rows) agg)"
proof -
  have "hd rows \<in> set rows" using assms(1) by simp
  then have h: "length (hd rows) = k" using assms(2) by blast
  have v: "map mt_values (map (numbers_metric agg) rows) = map (map Some) rows" by (simp add: numbers_metric_def)
  have c: "concat (map (map Some) rows) = map Some (concat rows)" by (simp add: map_concat)
  have a: "mt_aggregation (hd (map (numbers_metric agg) rows)) = agg" using assms(1) by (simp add: hd_map numbers_metric_def)
  have k: "length (hd (map (map Some) rows)) = k" using assms(1) h by (simp add: hd_map)
  show ?thesis unfolding aggregate_dp_def Let_def v c a k with_numbers_def those_Some using assms by simp
qed

lemma aggregate_dp_sum:
  assumes "rows \<noteq> []" "\<forall>row \<in> set rows. length row = k"
  shows "aggregate_dp (map (numbers_metric Agg_sum) rows) = Inr (Some (sum_list (map sum_list rows) / real (length rows)))"
  by (simp add: aggregate_dp_numbers [OF assms] aggregate_values_def sum_rank_means [OF assms(2)])

lemma aggregate_dp_mean:
  assumes "rows \<noteq> []" "\<forall>row \<in> set rows. length row = k" "0 < k"
  shows "aggregate_dp (map (numbers_metric Agg_mean) rows) = Inr (Some (mean (concat rows)))"
proof -
  have len: "length (rank_means (concat rows) (length rows) k) = k" by (simp add: rank_means_def)
  have all: "length (concat rows) = length rows * k" using assms(2) by (induction rows) auto
  have tot: "sum_list (concat rows) = sum_list (map sum_list rows)" by (induction rows) auto
  show ?thesis using assms
    by (simp add: aggregate_dp_numbers [OF assms(1,2)] aggregate_values_def mean_of_def div_fin_def len sum_rank_means [OF assms(2)] mean_def all tot)
qed

end
