(* ===== verification/WorkerLoss.thy ===== *)
theory WorkerLoss
  imports Padding LossSplit Metrics PPOAdvantage
begin

text \<open>
  The losses that the training workers hand to their engine (\<^verbatim>\<open>verl/workers/utils/losses.py\<close>): supervised
  fine-tuning, the PPO loss with its entropy and KL terms, and the value loss. Model outputs are ragged (the list
  of the rows), the columns of the batch are padded matrices, as the trainer's driver sends them. A loss that is
  not a finite number is None.
\<close>

section \<open>Batches and configuration\<close>

record 'e loss_td = "'e nested_td" +
  lt_old_log_probs :: mat
  lt_advantages :: mat
  lt_is_weights :: "mat option"
  lt_ref_log_prob :: "mat option"
  lt_values :: mat
  lt_returns :: mat
  lt_dp_size :: nat
  lt_num_tokens :: "real option"
  lt_global_batch_size :: "real option"

record loss_config =
  lc_actor :: actor_config
  lc_agg_mode :: string
  lc_loss_mode :: "string option"
  lc_scale_factor :: "real option"
  lc_entropy_coeff :: real
  lc_use_kl_loss :: bool
  lc_kl_loss_type :: string
  lc_kl_loss_coef :: real

text \<open>\<open>data["response_mask"].to(bool)\<close>\<close>

definition bool_mask :: "int list list \<Rightarrow> mat" where
  "bool_mask M = mmap (\<lambda>m. if m \<noteq> 0 then 1 else 0) M"

section \<open>Supervised fine-tuning\<close>

text \<open>\<open>torch.roll(_, shifts=-1)\<close> of the flattened mask is \<open>rotate1\<close>.\<close>

definition sft_scaled :: "real \<Rightarrow> real \<Rightarrow> nat \<Rightarrow> real option" where
  "sft_scaled s batch_num_tokens dp_size = map_option (\<lambda>x. x * real dp_size) (div_fin (- s) batch_num_tokens)"

definition sft_loss :: "vec list \<Rightarrow> vec list \<Rightarrow> real \<Rightarrow> nat \<Rightarrow> real option result" where
  "sft_loss log_prob loss_mask batch_num_tokens dp_size =
     (let log_prob_flatten = concat log_prob; loss_mask_flatten = rotate1 (concat loss_mask)
      in require (length log_prob_flatten = length loss_mask_flatten) RuntimeError
           (Inr (sft_scaled (masked_sum [log_prob_flatten] [loss_mask_flatten]) batch_num_tokens dp_size)))"

definition sft_loss_padded :: "mat \<Rightarrow> int list list \<Rightarrow> real \<Rightarrow> nat \<Rightarrow> real option result" where
  "sft_loss_padded log_prob response_mask batch_num_tokens dp_size =
     require (shape log_prob = shape response_mask) RuntimeError
      (Inr (sft_scaled (masked_sum log_prob (bool_mask response_mask)) batch_num_tokens dp_size))"

section \<open>The PPO loss\<close>

definition add_scaled :: "real \<Rightarrow> real option \<Rightarrow> real option \<Rightarrow> real option" where
  "add_scaled c x y = (case (x, y) of (Some a, Some b) \<Rightarrow> Some (a + c * b) | _ \<Rightarrow> None)"

definition single_metric :: "aggregation_type \<Rightarrow> real option \<Rightarrow> reported" where
  "single_metric agg x = Reported_item (Item_metric \<lparr>mt_aggregation = agg, mt_values = [x]\<rparr>)"

definition policy_metrics :: "(string \<times> real) list \<Rightarrow> (string, reported) dict" where
  "policy_metrics ms = map (\<lambda>(k, m). (k, Reported_item (Item_metric m))) (metrics_from_dict (map (\<lambda>(k, v). (k, Some v)) ms) Agg_mean)"

definition loss_info :: "loss_config \<Rightarrow> 'e loss_td \<Rightarrow> batch_info" where
  "loss_info cfg d = \<lparr>bi_dp_size = lt_dp_size d, bi_num_tokens = lt_num_tokens d, bi_batch_size = lt_global_batch_size d,
     bi_scale_factor = lc_scale_factor cfg\<rparr>"

text \<open>Sums when the loss is divided by counts of the global batch.\<close>

definition metric_aggregation :: "loss_config \<Rightarrow> 'e loss_td \<Rightarrow> aggregation_type" where
  "metric_aggregation cfg d =
     (if 1 < lt_dp_size d \<or> lt_num_tokens d \<noteq> None \<or> lt_global_batch_size d \<noteq> None \<or> lc_scale_factor cfg \<noteq> None
      then Agg_sum else Agg_mean)"

type_synonym loss_output = "(real option \<times> (string, reported) dict) result"

definition entropy_term :: "loss_config \<Rightarrow> batch_info \<Rightarrow> aggregation_type \<Rightarrow> mat \<Rightarrow> mat option \<Rightarrow>
    real option \<Rightarrow> (string, reported) dict \<Rightarrow> loss_output" where
  "entropy_term cfg info agg M entropy loss metrics = (case entropy of
       None \<Rightarrow> Inr (loss, metrics)
     | Some E \<Rightarrow> bind_r (agg_loss E M (lc_agg_mode cfg) info) (\<lambda>entropy_loss.
         Inr (add_scaled (- lc_entropy_coeff cfg) loss entropy_loss,
              dict_set ''actor/entropy_loss'' (single_metric agg entropy_loss) metrics)))"

definition kl_term :: "loss_config \<Rightarrow> batch_info \<Rightarrow> aggregation_type \<Rightarrow> mat \<Rightarrow> mat \<Rightarrow> mat option \<Rightarrow>
    real option \<Rightarrow> (string, reported) dict \<Rightarrow> loss_output" where
  "kl_term cfg info agg M log_prob ref loss metrics =
     (if lc_use_kl_loss cfg
      then (case ref of
          None \<Rightarrow> Inl KeyError
        | Some Q \<Rightarrow> bind_r (kl_matrix (lc_kl_loss_type cfg) log_prob Q) (\<lambda>kld.
            bind_r (agg_loss kld M (lc_agg_mode cfg) info) (\<lambda>kl_loss.
              Inr (add_scaled (lc_kl_loss_coef cfg) loss kl_loss,
                   dict_set ''kl_coef'' (Reported_item (Item_number (Some (lc_kl_loss_coef cfg))))
                     (dict_set ''kl_loss'' (single_metric agg kl_loss) metrics)))))
      else Inr (loss, metrics))"

definition opt_result :: "('a \<Rightarrow> 'b result) \<Rightarrow> 'a option \<Rightarrow> 'b option result" where
  "opt_result f x = (case x of None \<Rightarrow> Inr None | Some a \<Rightarrow> map_result Some (f a))"

definition worker_ppo_loss :: "(string, policy_loss) dict \<Rightarrow> loss_config \<Rightarrow> vec list \<Rightarrow> vec list option \<Rightarrow> 'e loss_td \<Rightarrow> loss_output" where
  "worker_ppo_loss registry cfg log_probs entropies d =
     bind_r (no_padding_2_padding 0 (concat log_probs) d) (\<lambda>log_prob.
     bind_r (opt_result (\<lambda>e. no_padding_2_padding 0 (concat e) d) entropies) (\<lambda>entropy.
     let info = loss_info cfg d; agg = metric_aggregation cfg d; M = bool_mask (pt_response_mask d)
     in bind_r (get_policy_loss_fn (case lc_loss_mode cfg of None \<Rightarrow> ''vanilla'' | Some m \<Rightarrow> m) registry) (\<lambda>policy_loss_fn.
        bind_r (policy_loss_fn (lt_old_log_probs d) log_prob (lt_advantages d) M (lc_agg_mode cfg)
            ((lc_actor cfg)\<lparr>ac_info := info\<rparr>) (lt_is_weights d)) (\<lambda>(pg_loss, pg_metrics).
        bind_r (entropy_term cfg info agg M entropy pg_loss
            (dict_set ''actor/pg_loss'' (single_metric agg pg_loss) (policy_metrics pg_metrics))) (\<lambda>(loss, metrics).
        kl_term cfg info agg M log_prob (lt_ref_log_prob d) loss metrics)))))"

section \<open>The value loss\<close>

definition worker_value_loss :: "real \<Rightarrow> string \<Rightarrow> vec list \<Rightarrow> 'e loss_td \<Rightarrow> loss_output" where
  "worker_value_loss cliprange_value loss_agg_mode vpreds d =
     bind_r (no_padding_2_padding 0 (concat vpreds) d) (\<lambda>V.
     let M = bool_mask (pt_response_mask d)
     in bind_r (compute_value_loss V (lt_returns d) (lt_values d) M cliprange_value loss_agg_mode) (\<lambda>(vf_loss, vf_clipfrac).
        Inr (vf_loss, [(''critic/vf_loss'', Reported_item (Item_number vf_loss)),
          (''critic/vf_clipfrac'', Reported_item (Item_number (Some vf_clipfrac))),
          (''critic/vpred_mean'', Reported_item (Item_number (Some (masked_mean V M))))])))"

section \<open>Rows of a batch\<close>

text \<open>\<open>index_select_tensor_dict\<close>: every column is indexed, the meta data stay.\<close>

definition index_select_td :: "nat list \<Rightarrow> 'e loss_td \<Rightarrow> 'e loss_td" where
  "index_select_td ix d = d\<lparr>
     pt_prompts := perm ix (pt_prompts d), pt_responses := perm ix (pt_responses d), pt_input_ids := perm ix (pt_input_ids d),
     pt_attention_mask := perm ix (pt_attention_mask d), pt_response_mask := perm ix (pt_response_mask d),
     pt_position_ids := perm ix (pt_position_ids d), pt_routed := pick_rows ix (pt_routed d), nt_loss_mask := perm ix (nt_loss_mask d),
     lt_old_log_probs := perm ix (lt_old_log_probs d), lt_advantages := perm ix (lt_advantages d),
     lt_is_weights := pick_rows ix (lt_is_weights d), lt_ref_log_prob := pick_rows ix (lt_ref_log_prob d),
     lt_values := perm ix (lt_values d), lt_returns := perm ix (lt_returns d)\<rparr>"

definition opt_rows :: "nat \<Rightarrow> 'a list option \<Rightarrow> bool" where
  "opt_rows n x \<longleftrightarrow> (case x of None \<Rightarrow> True | Some xs \<Rightarrow> length xs = n)"

definition td_rows :: "nat \<Rightarrow> 'e loss_td \<Rightarrow> bool" where
  "td_rows n d \<longleftrightarrow> length (pt_prompts d) = n \<and> length (pt_responses d) = n \<and> length (pt_input_ids d) = n \<and>
     length (pt_attention_mask d) = n \<and> length (pt_response_mask d) = n \<and> length (pt_position_ids d) = n \<and>
     opt_rows n (pt_routed d) \<and> length (nt_loss_mask d) = n \<and> length (lt_old_log_probs d) = n \<and> length (lt_advantages d) = n \<and>
     opt_rows n (lt_is_weights d) \<and> opt_rows n (lt_ref_log_prob d) \<and> length (lt_values d) = n \<and> length (lt_returns d) = n"

lemma pick_all: "opt_rows n x \<Longrightarrow> pick_rows [0..<n] x = x"
  by (cases x) (auto simp: opt_rows_def)

lemma perm_all: "length xs = n \<Longrightarrow> perm [0..<n] xs = xs"
  by auto

lemma index_select_all: "td_rows n d \<Longrightarrow> index_select_td [0..<n] d = d"
  by (simp add: td_rows_def index_select_td_def perm_all pick_all)

text \<open>A ragged output has one value per token of its row; prompts are not empty.\<close>

definition prompt_count :: "nat \<Rightarrow> ('e, 'z) padded_td_scheme \<Rightarrow> nat \<Rightarrow> nat" where
  "prompt_count P d i = count_ones (take P (pt_attention_mask d ! i))"

definition response_count :: "nat \<Rightarrow> ('e, 'z) padded_td_scheme \<Rightarrow> nat \<Rightarrow> nat" where
  "response_count P d i = count_ones (drop P (pt_attention_mask d ! i))"

definition scored :: "nat \<Rightarrow> nat \<Rightarrow> nat \<Rightarrow> vec list \<Rightarrow> 'e loss_td \<Rightarrow> bool" where
  "scored n P R outs d \<longleftrightarrow> length outs = n \<and> (\<forall>row \<in> set (pt_prompts d). length row = P) \<and> (\<forall>row \<in> set (pt_responses d). length row = R) \<and>
     (\<forall>i < n. 0 < prompt_count P d i \<and> response_count P d i \<le> R \<and> length (outs ! i) = prompt_count P d i + response_count P d i)"

definition padded_out :: "nat \<Rightarrow> nat \<Rightarrow> nat \<Rightarrow> vec list \<Rightarrow> 'e loss_td \<Rightarrow> mat" where
  "padded_out n P R outs d = map (\<lambda>i. take (response_count P d i) (drop (length (outs ! i) - response_count P d i - 1) (outs ! i)) @
     replicate (R - response_count P d i) 0) [0..<n]"

lemma padded_out_rows:
  assumes "td_rows n d" "scored n P R outs d" "ix \<noteq> []" "\<forall>i \<in> set ix. i < n"
  shows "no_padding_2_padding 0 (concat (perm ix outs)) (index_select_td ix d) = Inr (perm ix (padded_out n P R outs d))"
proof -
  let ?r = "\<lambda>i. response_count P d i"
  obtain i0 rest where ix: "ix = i0 # rest" using assms(3) by (cases ix) auto
  then have "pt_prompts d ! i0 \<in> set (pt_prompts d)" "pt_responses d ! i0 \<in> set (pt_responses d)"
    using assms(1,4) by (auto simp: td_rows_def)
  then have w: "(case perm ix (pt_prompts d) of [] \<Rightarrow> 0 | row # _ \<Rightarrow> length row) = P"
    "(case perm ix (pt_responses d) of [] \<Rightarrow> 0 | row # _ \<Rightarrow> length row) = R"
    using assms(2) by (auto simp: perm_def ix scored_def)
  have good: "0 < prompt_count P d i \<and> ?r i \<le> R \<and> length (outs ! i) = prompt_count P d i + ?r i" if "i \<in> set ix" for i
    using assms(2,4) that by (auto simp: scored_def)
  have cnt: "map (\<lambda>att. count_ones (drop P att)) (perm ix (pt_attention_mask d)) = map ?r ix"
    "map (\<lambda>att. count_ones (take P att)) (perm ix (pt_attention_mask d)) = map2 (\<lambda>r row. length row - r) (map ?r ix) (perm ix outs)"
    using good by (auto simp: perm_def prompt_count_def response_count_def map2_map_map)
  have rows: "perm ix outs \<noteq> []" "list_all2 (\<lambda>r row. r < length row) (map ?r ix) (perm ix outs)" "\<forall>r \<in> set (map ?r ix). r \<le> R"
    using good by (auto simp: perm_def ix list_all2_map1 list_all2_map2 list_all2_same)
  have "no_padding_2_padding 0 (concat (perm ix outs)) (index_select_td ix d) =
      slice_responses 0 R (concat (perm ix outs)) (map2 (\<lambda>r row. length row - r) (map ?r ix) (perm ix outs)) (map ?r ix)"
    by (simp add: no_padding_2_padding_def index_select_td_def w cnt)
  also have "\<dots> = Inr (map2 (\<lambda>r row. take r (drop (length row - r - 1) row) @ replicate (R - r) 0) (map ?r ix) (perm ix outs))"
    by (rule slice_responses_rows [OF rows])
  also have "map2 (\<lambda>r row. take r (drop (length row - r - 1) row) @ replicate (R - r) 0) (map ?r ix) (perm ix outs) = perm ix (padded_out n P R outs d)"
    using assms(4) by (auto simp: perm_def padded_out_def map2_map_map)
  finally show ?thesis .
qed

section \<open>Micro-batches\<close>

text \<open>What the PPO loss needs to be defined on every part of the batch.\<close>

definition loss_name :: "loss_config \<Rightarrow> string" where
  "loss_name cfg = (case lc_loss_mode cfg of None \<Rightarrow> ''vanilla'' | Some m \<Rightarrow> m)"

definition ppo_ready :: "nat \<Rightarrow> nat \<Rightarrow> nat \<Rightarrow> loss_config \<Rightarrow> vec list \<Rightarrow> vec list option \<Rightarrow> 'e loss_td \<Rightarrow> bool" where
  "ppo_ready n P R cfg log_probs entropies d \<longleftrightarrow>
     td_rows n d \<and> scored n P R log_probs d \<and> (case entropies of None \<Rightarrow> True | Some es \<Rightarrow> scored n P R es d) \<and>
     (\<forall>row \<in> set (pt_response_mask d). length row = R) \<and>
     loss_name cfg \<in> set split_names \<and> known_mode (lc_agg_mode cfg) \<and> 1 < get_or 3 (ac_clip_ratio_c (lc_actor cfg)) \<and>
     (lc_use_kl_loss cfg \<longrightarrow> lt_ref_log_prob d \<noteq> None \<and> \<not> isl (kl_penalty (0, 0) (0, 0) (lc_kl_loss_type cfg))) \<and>
     (case (lt_num_tokens d, lt_global_batch_size d) of
        (Some t, Some b) \<Rightarrow> usable_counts t b (lc_scale_factor cfg) R | _ \<Rightarrow> False)"

lemma split_names_registered:
  assumes "name \<in> set split_names"
  obtains f where "get_policy_loss_fn name (policy_losses perms topk peers bypass) = Inr f"
  using assms that unfolding split_names_def get_policy_loss_fn_def policy_losses_def register_policy_loss_def by auto

lemma length_bool_mask [simp]: "length (bool_mask M) = length M"
  by (simp add: bool_mask_def mmap_def)

lemma length_padded_out [simp]: "length (padded_out n P R outs d) = n"
  by (simp add: padded_out_def)

lemma aggregated_part:
  assumes "length L = n" "length M = n" "\<forall>row \<in> set M. length row = width" "known_mode mode" "usable_counts t b sc width"
  shows "\<exists>g. additive n g \<and> (\<forall>ix dp. ix \<noteq> [] \<longrightarrow> (\<forall>i \<in> set ix. i < n) \<longrightarrow>
    agg_loss (perm ix L) (perm ix M) mode (given_info dp t b sc) = Inr (Some (g ix * real dp)))"
proof (intro exI conjI allI impI)
  let ?d = "given_divisor mode t b sc width"
  show "additive n (\<lambda>ix. loss_total mode (perm ix L) (perm ix M) / ?d)"
    using assms(1,2) by (intro additive_divided loss_total_additive) simp_all
  fix ix dp
  assume ix: "ix \<noteq> []" "\<forall>i \<in> set ix. i < n"
  have "perm ix M \<noteq> []" "\<forall>row \<in> set (perm ix M). length row = width" using assms(2,3) ix by (auto simp: perm_def)
  from agg_loss_given [OF assms(4) usable_divisor [OF assms(5)] this]
  show "agg_loss (perm ix L) (perm ix M) mode (given_info dp t b sc) = Inr (Some (loss_total mode (perm ix L) (perm ix M) / ?d * real dp))"
    by simp
qed

lemma entropy_part:
  assumes "case entropies of None \<Rightarrow> True | Some es \<Rightarrow> scored n P R es d" "td_rows n d" "length M = n"
    and "\<forall>row \<in> set M. length row = width" "known_mode (lc_agg_mode cfg)" "usable_counts t b sc width"
  shows "\<exists>g. additive n g \<and> (\<forall>ix dp. ix \<noteq> [] \<longrightarrow> (\<forall>i \<in> set ix. i < n) \<longrightarrow>
    (\<exists>E. opt_result (\<lambda>e. no_padding_2_padding 0 (concat e) (index_select_td ix d)) (pick_rows ix entropies) = Inr E \<and>
      (\<forall>agg x ms. \<exists>ms'. entropy_term cfg (given_info dp t b sc) agg (perm ix M) E (Some x) ms = Inr (Some (x + g ix * real dp), ms'))))"
proof (cases entropies)
  case None
  have "additive n (\<lambda>ix. 0)" by (simp add: additive_def)
  then show ?thesis by (intro exI [of _ "\<lambda>ix. 0"]) (auto simp: None opt_result_def entropy_term_def)
next
  case (Some es)
  let ?E = "padded_out n P R es d"
  have sc: "scored n P R es d" using assms(1) Some by simp
  from aggregated_part [OF length_padded_out assms(3-6)] obtain g where g: "additive n g"
    "\<And>ix dp. ix \<noteq> [] \<Longrightarrow> \<forall>i \<in> set ix. i < n \<Longrightarrow>
      agg_loss (perm ix ?E) (perm ix M) (lc_agg_mode cfg) (given_info dp t b sc) = Inr (Some (g ix * real dp))" by blast
  have "additive n (\<lambda>ix. 0)" by (simp add: additive_def)
  from additive_linear [OF this g(1), of "- lc_entropy_coeff cfg"]
  have "additive n (\<lambda>ix. - lc_entropy_coeff cfg * g ix)" by simp
  then show ?thesis
    by (intro exI [of _ "\<lambda>ix. - lc_entropy_coeff cfg * g ix"])
      (auto simp: Some opt_result_def padded_out_rows [OF assms(2) sc] entropy_term_def g(2) add_scaled_def)
qed

lemma kl_part:
  assumes "lc_use_kl_loss cfg \<longrightarrow> lt_ref_log_prob d \<noteq> None \<and> \<not> isl (kl_penalty (0, 0) (0, 0) (lc_kl_loss_type cfg))"
    and "td_rows n d" "length L = n" "length M = n" "\<forall>row \<in> set M. length row = width" "known_mode (lc_agg_mode cfg)" "usable_counts t b sc width"
  shows "\<exists>g. additive n g \<and> (\<forall>ix dp agg x ms. ix \<noteq> [] \<longrightarrow> (\<forall>i \<in> set ix. i < n) \<longrightarrow>
    (\<exists>ms'. kl_term cfg (given_info dp t b sc) agg (perm ix M) (perm ix L) (pick_rows ix (lt_ref_log_prob d)) (Some x) ms =
      Inr (Some (x + g ix * real dp), ms')))"
proof (cases "lc_use_kl_loss cfg")
  case False
  have "additive n (\<lambda>ix. 0)" by (simp add: additive_def)
  then show ?thesis by (intro exI [of _ "\<lambda>ix. 0"]) (auto simp: False kl_term_def)
next
  case True
  then obtain Q where Q: "lt_ref_log_prob d = Some Q" "length Q = n" using assms(1,2) by (auto simp: td_rows_def opt_rows_def)
  obtain k0 where k0: "kl_penalty (0, 0) (0, 0) (lc_kl_loss_type cfg) = Inr k0"
    using assms(1) True by (cases "kl_penalty (0, 0) (0, 0) (lc_kl_loss_type cfg)") auto
  let ?kl = "\<lambda>p q. fst (projr (kl_penalty (p, 0) (q, 0) (lc_kl_loss_type cfg)))"
  let ?K = "mzip ?kl L Q"
  have "length ?K = n" by (rule length_mzip [OF assms(3) Q(2)])
  from aggregated_part [OF this assms(4-7)] obtain g where g: "additive n g"
    "\<And>ix dp. ix \<noteq> [] \<Longrightarrow> \<forall>i \<in> set ix. i < n \<Longrightarrow>
      agg_loss (perm ix ?K) (perm ix M) (lc_agg_mode cfg) (given_info dp t b sc) = Inr (Some (g ix * real dp))" by blast
  have "additive n (\<lambda>ix. 0)" by (simp add: additive_def)
  from additive_linear [OF this g(1), of "lc_kl_loss_coef cfg"]
  have "additive n (\<lambda>ix. lc_kl_loss_coef cfg * g ix)" by simp
  moreover have "kl_matrix (lc_kl_loss_type cfg) (perm ix L) (perm ix Q) = Inr (perm ix ?K)" if "\<forall>i \<in> set ix. i < n" for ix
    using perm_mzip [of L Q ix ?kl] that assms(3) Q(2) by (simp add: kl_matrix_def k0)
  ultimately show ?thesis
    by (intro exI [of _ "\<lambda>ix. lc_kl_loss_coef cfg * g ix"]) (auto simp: True kl_term_def Q(1) g(2) add_scaled_def)
qed

text \<open>Every metric of the PPO loss has the same aggregation in every report.\<close>

definition ppo_aggregation :: "string \<Rightarrow> aggregation_type" where
  "ppo_aggregation k = (if k \<in> {''actor/pg_loss'', ''actor/entropy_loss'', ''kl_loss''} then Agg_sum else Agg_mean)"

definition uniform_value :: "(string \<Rightarrow> aggregation_type) \<Rightarrow> string \<times> reported \<Rightarrow> bool" where
  "uniform_value A = (\<lambda>(k, v). case v of
       Reported_item it \<Rightarrow> (case it of Item_metric m \<Rightarrow> mt_aggregation m = A k | Item_number x \<Rightarrow> True)
     | Reported_list its \<Rightarrow> False)"

definition uniform_report :: "(string \<Rightarrow> aggregation_type) \<Rightarrow> (string, reported) dict \<Rightarrow> bool" where
  "uniform_report A ms \<longleftrightarrow> (\<forall>kv \<in> set ms. uniform_value A kv)"

lemma set_dict_set: "set (dict_set k v d) \<subseteq> insert (k, v) (set d)"
  unfolding dict_set_def by (induction d) auto

lemma uniform_dict_set: "uniform_report A ms \<Longrightarrow> uniform_value A (k, v) \<Longrightarrow> uniform_report A (dict_set k v ms)"
  using set_dict_set [of k v ms] unfolding uniform_report_def by blast

lemma uniform_policy_metrics: "fst ` set ms \<subseteq> pg_metric_keys \<Longrightarrow> uniform_report ppo_aggregation (policy_metrics ms)"
proof -
  assume keys: "fst ` set ms \<subseteq> pg_metric_keys"
  have "ppo_aggregation k = Agg_mean" if "k \<in> pg_metric_keys" for k
    using that by (auto simp: pg_metric_keys_def ppo_aggregation_def)
  then have "uniform_value ppo_aggregation (k, Reported_item (Item_metric \<lparr>mt_aggregation = Agg_mean, mt_values = [Some v]\<rparr>))"
    if "(k, v) \<in> set ms" for k v
    using keys that by (force simp: uniform_value_def)
  then show ?thesis by (auto simp: uniform_report_def policy_metrics_def metrics_from_dict_def)
qed

lemma uniform_single: "uniform_value ppo_aggregation (k, single_metric Agg_sum x) \<longleftrightarrow> k \<in> {''actor/pg_loss'', ''actor/entropy_loss'', ''kl_loss''}"
  by (simp add: uniform_value_def single_metric_def ppo_aggregation_def)

lemma entropy_term_uniform:
  assumes "entropy_term cfg info Agg_sum M E x ms = Inr (y, ms')" "uniform_report ppo_aggregation ms"
  shows "uniform_report ppo_aggregation ms'"
  using assms by (auto simp: entropy_term_def bind_r_Inr uniform_single intro!: uniform_dict_set split: option.splits)

lemma kl_term_uniform:
  assumes "kl_term cfg info Agg_sum M L Q x ms = Inr (y, ms')" "uniform_report ppo_aggregation ms"
  shows "uniform_report ppo_aggregation ms'"
  using assms
  by (auto simp: kl_term_def bind_r_Inr uniform_single intro!: uniform_dict_set split: option.splits if_splits)
    (simp add: uniform_value_def)

lemma bool_mask_perm: "\<forall>i \<in> set ix. i < length M \<Longrightarrow> bool_mask (perm ix M) = perm ix (bool_mask M)"
  by (simp add: bool_mask_def perm_mmap)

lemma padding_dp_size: "no_padding_2_padding z v (index_select_td ix (d\<lparr>lt_dp_size := dp\<rparr>)) = no_padding_2_padding z v (index_select_td ix d)"
  by (simp add: no_padding_2_padding_def index_select_td_def)

lemma worker_part:
  assumes ready: "ppo_ready n P R cfg log_probs entropies d"
  shows "\<exists>g. additive n g \<and> (\<forall>ix dp. ix \<noteq> [] \<longrightarrow> (\<forall>i \<in> set ix. i < n) \<longrightarrow>
    (\<exists>ms. worker_ppo_loss (policy_losses perms topk peers bypass) cfg (perm ix log_probs) (pick_rows ix entropies)
      (index_select_td ix (d\<lparr>lt_dp_size := dp\<rparr>)) = Inr (Some (g ix * real dp), ms) \<and> uniform_report ppo_aggregation ms))"
proof -
  let ?M = "bool_mask (pt_response_mask d)" and ?L = "padded_out n P R log_probs d"
  obtain t b where tb: "lt_num_tokens d = Some t" "lt_global_batch_size d = Some b" "usable_counts t b (lc_scale_factor cfg) R"
    using ready unfolding ppo_ready_def by (auto split: option.splits)
  have rows: "td_rows n d" and sc: "scored n P R log_probs d" and mode: "known_mode (lc_agg_mode cfg)"
    and ent: "case entropies of None \<Rightarrow> True | Some es \<Rightarrow> scored n P R es d"
    and kl: "lc_use_kl_loss cfg \<longrightarrow> lt_ref_log_prob d \<noteq> None \<and> \<not> isl (kl_penalty (0, 0) (0, 0) (lc_kl_loss_type cfg))"
    using ready unfolding ppo_ready_def by blast+
  have M: "length ?M = n" "\<forall>row \<in> set ?M. length row = R"
    using ready unfolding ppo_ready_def by (auto simp: td_rows_def bool_mask_def mmap_def)
  have names: "loss_name cfg \<in> set split_names" using ready unfolding ppo_ready_def by blast
  have cols: "length (lt_old_log_probs d) = n" "length (lt_advantages d) = n" "sized n (lt_is_weights d)"
    using rows by (simp_all add: td_rows_def opt_rows_def sized_def)
  obtain f where f: "get_policy_loss_fn (loss_name cfg) (policy_losses perms topk peers bypass) = Inr f" by (rule split_names_registered [OF names])
  have c: "1 < get_or 3 (ac_clip_ratio_c (lc_actor cfg))" using ready unfolding ppo_ready_def by blast
  from registered_losses_split [OF f names c cols(1) length_padded_out [of n P R log_probs d] cols(2) M(1) cols(3) mode tb(3) M(2)]
  obtain g1 where g1: "additive n g1" and pg: "\<And>ix dp. ix \<noteq> [] \<Longrightarrow> \<forall>i \<in> set ix. i < n \<Longrightarrow>
      \<exists>ms. f (perm ix (lt_old_log_probs d)) (perm ix ?L) (perm ix (lt_advantages d)) (perm ix ?M) (lc_agg_mode cfg)
        ((lc_actor cfg)\<lparr>ac_info := given_info dp t b (lc_scale_factor cfg)\<rparr>) (pick_rows ix (lt_is_weights d)) = Inr (Some (g1 ix * real dp), ms) \<and>
          fst ` set ms \<subseteq> pg_metric_keys"
    by blast
  from entropy_part [OF ent rows M mode tb(3)] obtain g2 where g2: "additive n g2" and en: "\<And>ix dp. ix \<noteq> [] \<Longrightarrow> \<forall>i \<in> set ix. i < n \<Longrightarrow>
      \<exists>E. opt_result (\<lambda>e. no_padding_2_padding 0 (concat e) (index_select_td ix d)) (pick_rows ix entropies) = Inr E \<and>
      (\<forall>agg x ms. \<exists>ms'. entropy_term cfg (given_info dp t b (lc_scale_factor cfg)) agg (perm ix ?M) E (Some x) ms = Inr (Some (x + g2 ix * real dp), ms'))"
    by blast
  from kl_part [OF kl rows length_padded_out [of n P R log_probs d] M mode tb(3)] obtain g3 where g3: "additive n g3"
    and kt: "\<And>ix dp agg x ms. ix \<noteq> [] \<Longrightarrow> \<forall>i \<in> set ix. i < n \<Longrightarrow>
      \<exists>ms'. kl_term cfg (given_info dp t b (lc_scale_factor cfg)) agg (perm ix ?M) (perm ix ?L) (pick_rows ix (lt_ref_log_prob d)) (Some x) ms =
        Inr (Some (x + g3 ix * real dp), ms')" by blast
  let ?g = "\<lambda>ix. (g1 ix + 1 * g2 ix) + 1 * g3 ix"
  have add: "additive n ?g" by (intro additive_linear g1 g2 g3)
  have "\<exists>ms. worker_ppo_loss (policy_losses perms topk peers bypass) cfg (perm ix log_probs) (pick_rows ix entropies)
      (index_select_td ix (d\<lparr>lt_dp_size := dp\<rparr>)) = Inr (Some (?g ix * real dp), ms) \<and> uniform_report ppo_aggregation ms" if ix: "ix \<noteq> []" "\<forall>i \<in> set ix. i < n" for ix dp
  proof -
    let ?d = "index_select_td ix (d\<lparr>lt_dp_size := dp\<rparr>)"
    obtain E where E: "opt_result (\<lambda>e. no_padding_2_padding 0 (concat e) (index_select_td ix d)) (pick_rows ix entropies) = Inr E"
      "\<And>agg x ms. \<exists>ms'. entropy_term cfg (given_info dp t b (lc_scale_factor cfg)) agg (perm ix ?M) E (Some x) ms = Inr (Some (x + g2 ix * real dp), ms')"
      using en [OF ix] by blast
    obtain ms1 where r1: "f (perm ix (lt_old_log_probs d)) (perm ix ?L) (perm ix (lt_advantages d)) (perm ix ?M) (lc_agg_mode cfg)
        ((lc_actor cfg)\<lparr>ac_info := given_info dp t b (lc_scale_factor cfg)\<rparr>) (pick_rows ix (lt_is_weights d)) = Inr (Some (g1 ix * real dp), ms1)"
      and keys: "fst ` set ms1 \<subseteq> pg_metric_keys"
      using pg [OF ix] by blast
    have agg: "metric_aggregation cfg ?d = Agg_sum" by (simp add: metric_aggregation_def index_select_td_def tb)
    let ?ms1 = "dict_set ''actor/pg_loss'' (single_metric Agg_sum (Some (g1 ix * real dp))) (policy_metrics ms1)"
    have u1: "uniform_report ppo_aggregation ?ms1" by (intro uniform_dict_set uniform_policy_metrics keys) (simp add: uniform_single)
    obtain ms2 where r2: "entropy_term cfg (given_info dp t b (lc_scale_factor cfg)) Agg_sum (perm ix ?M) E (Some (g1 ix * real dp)) ?ms1 =
        Inr (Some (g1 ix * real dp + g2 ix * real dp), ms2)" using E(2) by blast
    obtain ms3 where r3: "kl_term cfg (given_info dp t b (lc_scale_factor cfg)) Agg_sum (perm ix ?M) (perm ix ?L)
        (pick_rows ix (lt_ref_log_prob d)) (Some (g1 ix * real dp + g2 ix * real dp)) ms2 =
        Inr (Some (g1 ix * real dp + g2 ix * real dp + g3 ix * real dp), ms3)" using kt [OF ix] by blast
    have info: "loss_info cfg ?d = given_info dp t b (lc_scale_factor cfg)" by (simp add: loss_info_def given_info_def index_select_td_def tb)
    have cols': "lt_old_log_probs ?d = perm ix (lt_old_log_probs d)" "lt_advantages ?d = perm ix (lt_advantages d)"
      "lt_is_weights ?d = pick_rows ix (lt_is_weights d)" "lt_ref_log_prob ?d = pick_rows ix (lt_ref_log_prob d)"
      "bool_mask (pt_response_mask ?d) = perm ix ?M"
      using ix(2) rows by (simp_all add: index_select_td_def bool_mask_perm td_rows_def)
    have "worker_ppo_loss (policy_losses perms topk peers bypass) cfg (perm ix log_probs) (pick_rows ix entropies) ?d =
        Inr (Some (g1 ix * real dp + g2 ix * real dp + g3 ix * real dp), ms3)"
      unfolding worker_ppo_loss_def padding_dp_size padded_out_rows [OF rows sc ix] E(1) bind_r_simps Let_def info agg cols'
        f [unfolded loss_name_def] r1 prod.case r2 r3 ..
    moreover have "uniform_report ppo_aggregation ms3" by (rule kl_term_uniform [OF r3 entropy_term_uniform [OF r2 u1]])
    ultimately show ?thesis by (simp add: algebra_simps)
  qed
  with add show ?thesis by (intro exI [of _ ?g]) blast
qed

text \<open>C6 The PPO loss does not depend on how the rows of a mini-batch are spread over the data-parallel ranks and over
  micro-batches, nor on their order: the sums of the losses of the micro-batches, averaged over the ranks, are the
  loss of the whole mini-batch in one piece, entropy and KL terms included. The policy loss is one of the seven in \<open>split_names\<close>.\<close>

theorem micro_batches_add_up:
  assumes ready: "ppo_ready n P R cfg log_probs entropies d"
    and parts: "parts \<noteq> []" "reorders (concat (concat parts)) n" "\<forall>mbs \<in> set parts. \<forall>ix \<in> set mbs. ix \<noteq> []" "0 < n"
  shows "\<exists>xss ms. map_r (map_r (\<lambda>ix. map_result fst (worker_ppo_loss (policy_losses perms topk peers bypass) cfg (perm ix log_probs) (pick_rows ix entropies)
        (index_select_td ix (d\<lparr>lt_dp_size := length parts\<rparr>))))) parts = Inr (map (map Some) xss) \<and>
    worker_ppo_loss (policy_losses perms topk peers bypass) cfg log_probs entropies (d\<lparr>lt_dp_size := 1\<rparr>) =
      Inr (Some (sum_list (map sum_list xss) / real (length parts)), ms)"
proof -
  obtain g where add: "additive n g" and part: "\<And>ix dp. ix \<noteq> [] \<Longrightarrow> \<forall>i \<in> set ix. i < n \<Longrightarrow>
      \<exists>ms. worker_ppo_loss (policy_losses perms topk peers bypass) cfg (perm ix log_probs) (pick_rows ix entropies)
        (index_select_td ix (d\<lparr>lt_dp_size := dp\<rparr>)) = Inr (Some (g ix * real dp), ms)"
  proof -
    obtain g where "additive n g" "\<forall>ix dp. ix \<noteq> [] \<longrightarrow> (\<forall>i \<in> set ix. i < n) \<longrightarrow>
        (\<exists>ms. worker_ppo_loss (policy_losses perms topk peers bypass) cfg (perm ix log_probs) (pick_rows ix entropies)
          (index_select_td ix (d\<lparr>lt_dp_size := dp\<rparr>)) = Inr (Some (g ix * real dp), ms) \<and> uniform_report ppo_aggregation ms)"
      using worker_part [OF ready, of perms topk peers bypass] by blast
    then show thesis by (intro that [of g]) (simp, metis)
  qed
  let ?k = "real (length parts)"
  let ?xss = "map (map (\<lambda>ix. g ix * ?k)) parts"
  have range: "\<forall>i \<in> set ix. i < n" if "mbs \<in> set parts" "ix \<in> set mbs" for mbs ix
    using that reorders_facts(2) [OF parts(2)] by auto
  have "map_r (map_r (\<lambda>ix. map_result fst (worker_ppo_loss (policy_losses perms topk peers bypass) cfg (perm ix log_probs) (pick_rows ix entropies)
        (index_select_td ix (d\<lparr>lt_dp_size := length parts\<rparr>))))) parts = Inr (map (\<lambda>mbs. map (\<lambda>ix. Some (g ix * ?k)) mbs) parts)"
  proof (rule map_r_total, rule map_r_total)
    fix mbs ix
    assume "mbs \<in> set parts" "ix \<in> set mbs"
    with part [of ix "length parts"] parts(3) range
    show "map_result fst (worker_ppo_loss (policy_losses perms topk peers bypass) cfg (perm ix log_probs) (pick_rows ix entropies)
        (index_select_td ix (d\<lparr>lt_dp_size := length parts\<rparr>))) = Inr (Some (g ix * ?k))" by fastforce
  qed
  then have micro: "map_r (map_r (\<lambda>ix. map_result fst (worker_ppo_loss (policy_losses perms topk peers bypass) cfg (perm ix log_probs) (pick_rows ix entropies)
        (index_select_td ix (d\<lparr>lt_dp_size := length parts\<rparr>))))) parts = Inr (map (map Some) ?xss)" by (simp add: comp_def)
  have rows: "td_rows n d" "length log_probs = n" "opt_rows n entropies"
    using ready unfolding ppo_ready_def by (auto simp: scored_def opt_rows_def split: option.splits)
  have rows1: "td_rows n (d\<lparr>lt_dp_size := 1\<rparr>)" using rows(1) by (simp add: td_rows_def)
  have "[0..<n] \<noteq> []" "\<forall>i \<in> set [0..<n]. i < n" using parts(4) by simp_all
  from part [OF this, of 1] obtain ms where
    "worker_ppo_loss (policy_losses perms topk peers bypass) cfg log_probs entropies (d\<lparr>lt_dp_size := 1\<rparr>) = Inr (Some (g [0..<n]), ms)"
    unfolding index_select_all [OF rows1] pick_all [OF rows(3)] perm_all [OF rows(2)] by auto
  moreover have "sum_list (map sum_list ?xss) = ?k * g [0..<n]"
  proof -
    have "sum_list (map (\<lambda>ix. g ix * ?k) mbs) = ?k * sum_list (map g mbs)" for mbs by (induction mbs) (simp_all add: algebra_simps)
    then have "sum_list (map sum_list ?xss) = ?k * sum_list (map (\<lambda>mbs. sum_list (map g mbs)) parts)"
      by (simp add: comp_def sum_list_const_mult)
    then show ?thesis using add parts(2) by (simp add: additive_def)
  qed
  ultimately show ?thesis using micro parts(1) by (intro exI [of _ ?xss] exI [of _ ms]) simp
qed

section \<open>Fine-tuning over micro-batches\<close>

text \<open>The score of a sample: every token that counts, scored by the position before it.\<close>

definition sample_score :: "vec \<times> vec \<Rightarrow> real" where
  "sample_score = (\<lambda>(lp, m). sum_list (vzip (*) (butlast lp) (tl m)))"

definition sft_sample :: "vec \<times> vec \<Rightarrow> bool" where
  "sft_sample = (\<lambda>(lp, m). length lp = length m \<and> m \<noteq> [] \<and> hd m = 0)"

lemma rolled_masks:
  assumes "\<forall>m \<in> set ms. m \<noteq> [] \<and> hd m = (0 :: real)"
  shows "rotate1 (concat ms) = concat (map (\<lambda>m. tl m @ [0]) ms)"
  using assms
proof (induction ms)
  case (Cons m ms)
  then obtain q where q: "m = 0 # q" by (cases m) auto
  have "q @ concat ms @ [0] = q @ [0] @ rotate1 (concat ms)"
  proof (cases ms)
    case (Cons m' rest)
    then obtain q' where "m' = 0 # q'" using \<open>\<forall>m \<in> set (m # ms). m \<noteq> [] \<and> hd m = 0\<close> by (cases m') auto
    then show ?thesis by (simp add: Cons)
  qed simp
  with Cons show ?case by (simp add: q)
qed simp

lemma rolled_sum:
  assumes "\<forall>s \<in> set samples. sft_sample s"
  shows "masked_sum [concat (map fst samples)] [rotate1 (concat (map snd samples))] = sum_list (map sample_score samples)"
    "length (concat (map fst samples)) = length (rotate1 (concat (map snd samples)))"
proof -
  have row: "sum_list (vzip (*) lp (tl m @ [0])) = sample_score (lp, m)" if s: "sft_sample (lp, m)" for lp m
  proof -
    obtain q where q: "m = 0 # q" using s by (cases m) (auto simp: sft_sample_def)
    have lp: "lp = butlast lp @ [last lp]" and len: "length (butlast lp) = length q"
      using s by (cases lp rule: rev_cases; simp add: sft_sample_def q)+
    have "vzip (*) lp (q @ [0]) = vzip (*) (butlast lp @ [last lp]) (q @ [0])" using lp by simp
    also have "\<dots> = vzip (*) (butlast lp) q @ [0]" unfolding vzip_append [OF len] by simp
    finally show ?thesis by (simp add: sample_score_def q)
  qed
  have "rotate1 (concat (map snd samples)) = concat (map (\<lambda>s. tl (snd s) @ [0]) samples)"
    using rolled_masks [of "map snd samples"] assms by (fastforce simp: sft_sample_def comp_def)
  moreover have "sum_list (vzip (*) (concat (map fst samples)) (concat (map (\<lambda>s. tl (snd s) @ [0]) samples))) = sum_list (map sample_score samples)"
    using assms
  proof (induction samples)
    case (Cons s samples)
    obtain lp m where s: "s = (lp, m)" by (cases s)
    have len: "length lp = length (tl m @ [0])" using Cons.prems by (auto simp: s sft_sample_def)
    have "vzip (*) (lp @ concat (map fst samples)) ((tl m @ [0]) @ concat (map (\<lambda>s. tl (snd s) @ [0]) samples)) =
        vzip (*) lp (tl m @ [0]) @ vzip (*) (concat (map fst samples)) (concat (map (\<lambda>s. tl (snd s) @ [0]) samples))"
      by (rule vzip_append [OF len])
    with Cons row [of lp m] show ?case by (simp add: s)
  qed simp
  ultimately show "masked_sum [concat (map fst samples)] [rotate1 (concat (map snd samples))] = sum_list (map sample_score samples)"
    by (simp add: masked_sum_mult)
  show "length (concat (map fst samples)) = length (rotate1 (concat (map snd samples)))"
    using assms by (induction samples) (auto simp: sft_sample_def)
qed

text \<open>C33 Fine-tuning on ragged micro-batches: when the mask of every sample starts with 0, the losses of all micro-batches,
  summed and averaged over the ranks, are the negative mean log-probability of the tokens that count.\<close>

theorem sft_micro_batches_add_up:
  assumes "parts \<noteq> []" "\<forall>mbs \<in> set parts. \<forall>mb \<in> set mbs. \<forall>s \<in> set mb. sft_sample s" "tokens \<noteq> 0"
  shows "\<exists>xss. map_r (map_r (\<lambda>mb. sft_loss (map fst mb) (map snd mb) tokens (length parts))) parts = Inr (map (map Some) xss) \<and>
    sum_list (map sum_list xss) / real (length parts) = - sum_list (map sample_score (concat (concat parts))) / tokens"
proof -
  let ?k = "real (length parts)"
  let ?g = "\<lambda>mb. - sum_list (map sample_score mb) / tokens * ?k"
  have "map_r (map_r (\<lambda>mb. sft_loss (map fst mb) (map snd mb) tokens (length parts))) parts = Inr (map (map (\<lambda>mb. Some (?g mb))) parts)"
  proof (rule map_r_total, rule map_r_total)
    fix mbs mb
    assume "mbs \<in> set parts" "mb \<in> set mbs"
    then have ok: "\<forall>s \<in> set mb. sft_sample s" using assms(2) by blast
    show "sft_loss (map fst mb) (map snd mb) tokens (length parts) = Inr (Some (?g mb))"
      using rolled_sum [OF ok] assms(3) unfolding sft_loss_def Let_def by (simp add: sft_scaled_def div_fin_def)
  qed
  moreover have "sum_list (map sum_list (map (map ?g) parts)) / ?k = - sum_list (map sample_score (concat (concat parts))) / tokens"
  proof -
    have "sum_list (map ?g mbs) = - ?k / tokens * sum_list (map sample_score (concat mbs))" for mbs
      by (induction mbs) (simp_all add: algebra_simps)
    then have "sum_list (map sum_list (map (map ?g) parts)) = - ?k / tokens * sum_list (map (\<lambda>mbs. sum_list (map sample_score (concat mbs))) parts)"
      unfolding map_map comp_def by (simp only: sum_list_const_mult)
    also have "sum_list (map (\<lambda>mbs. sum_list (map sample_score (concat mbs))) parts) = sum_list (map sample_score (concat (concat parts)))"
      by (induction parts) simp_all
    finally show ?thesis using assms(1) by simp
  qed
  ultimately show ?thesis by (intro exI [of _ "map (map ?g) parts"]) (simp add: comp_def)
qed

text \<open>Without that condition, which left truncation of a long conversation breaks, the last position of a sample is
  scored with the mask of the first token of the next one: its log-probability, which scores a token of
  another sample, becomes part of the loss.\<close>

theorem sft_first_token_leaks:
  "sft_loss [[- 1, - 7], [- 2, 0]] [[0, 1], [1, 1]] 3 1 = Inr (Some (10 / 3)) \<and>
   - (sample_score ([- 1, - 7], [0, 1]) + sample_score ([- 2, 0], [1, 1])) / 3 = (1 :: real)"
  by (simp add: sft_loss_def sft_scaled_def div_fin_def masked_sum_def sample_score_def Let_def)

section \<open>Losses that depend on the micro-batches\<close>

text \<open>The value loss is divided by the tokens of its own micro-batch, and the engine adds the micro-batches up: the loss
  of a micro-batch is also the loss of that micro-batch taken twice, while the engine's sum over both is twice as much.\<close>

lemma value_loss_split:
  assumes "compute_value_loss V R W M clip ''token-mean'' = Inr (Some x, y)" "shape V = shape M" "shape R = shape M" "shape W = shape M"
  shows "\<exists>y'. compute_value_loss (V @ V) (R @ R) (W @ W) (M @ M) clip ''token-mean'' = Inr (Some x, y')"
proof -
  let ?L = "\<lambda>V R W. mzip max (mzip (\<lambda>p r. (p - r) ^ 2) V R) (mzip (\<lambda>p r. (p - r) ^ 2) (mzip (\<lambda>p v. clip_by_value p (v - clip) (v + clip)) V W) R)"
  have app: "mzip f (A @ A') (B @ B') = mzip f A B @ mzip f A' B'" if "shape A = shape B" for f :: "real \<Rightarrow> real \<Rightarrow> real" and A A' B B'
    using length_shape [OF that] by (simp add: mzip_def vzip_append)
  have LL: "?L (V @ V) (R @ R) (W @ W) = ?L V R W @ ?L V R W"
    using assms(2-4) by (simp add: app shape_mzip)
  have "shape (?L V R W) = shape M" using assms(2-4) by (simp add: shape_mzip)
  then have len: "length (?L V R W) = length M" by (rule length_shape)
  have "masked_sum (?L V R W @ ?L V R W) (M @ M) = 2 * masked_sum (?L V R W) M"
    using len by (simp add: masked_sum_def mzip_def vzip_append)
  then have "agg_loss (?L V R W @ ?L V R W) (M @ M) ''token-mean'' default_info = agg_loss (?L V R W) M ''token-mean'' default_info"
    by (simp add: agg_loss_def needs_global_def default_info_def times_dp_def div_fin_def)
  then show ?thesis using assms(1) unfolding compute_value_loss_def Let_def LL by (auto simp: bind_r_Inr)
qed

lemma perm_twice: "length xs = n \<Longrightarrow> perm ([0..<n] @ [0..<n]) xs = xs @ xs"
  using perm_all [of xs n] by (simp add: perm_def)

theorem value_loss_counts_micro_batches:
  assumes "td_rows n d" "scored n P R vpreds d" "0 < n"
    and "\<forall>row \<in> set (pt_response_mask d). length row = R" "shape (lt_values d) = shape (pt_response_mask d)"
      "shape (lt_returns d) = shape (pt_response_mask d)"
    and "worker_value_loss clip ''token-mean'' vpreds d = Inr (Some x, ms)"
  shows "\<exists>ms'. worker_value_loss clip ''token-mean'' (vpreds @ vpreds) (index_select_td ([0..<n] @ [0..<n]) d) = Inr (Some x, ms')"
proof -
  let ?V = "padded_out n P R vpreds d" and ?M = "bool_mask (pt_response_mask d)" and ?ix = "[0..<n] @ [0..<n]"
  have n: "length (pt_response_mask d) = n" "length (lt_values d) = n" "length (lt_returns d) = n" "length vpreds = n"
    using assms(1,2) by (simp_all add: td_rows_def scored_def)
  have range: "[0..<n] \<noteq> []" "\<forall>i \<in> set [0..<n]. i < n" "?ix \<noteq> []" "\<forall>i \<in> set ?ix. i < n" using assms(3) by auto
  have one: "no_padding_2_padding 0 (concat vpreds) d = Inr ?V"
    using padded_out_rows [OF assms(1,2) range(1,2)] by (simp add: index_select_all [OF assms(1)] perm_all n)
  have two: "no_padding_2_padding 0 (concat (vpreds @ vpreds)) (index_select_td ?ix d) = Inr (?V @ ?V)"
    using padded_out_rows [OF assms(1,2) range(3,4)] unfolding perm_twice [OF n(4)] perm_twice [OF length_padded_out] .
  have "length (?V ! i) = R" if "i < n" for i using assms(2) that by (simp add: padded_out_def scored_def)
  then have "shape ?V = replicate n R" by (auto simp: shape_def list_eq_iff_nth_eq)
  moreover have "shape (pt_response_mask d) = replicate n R"
    using assms(4) n(1) by (auto simp: shape_def list_eq_iff_nth_eq)
  ultimately have sh: "shape ?V = shape ?M" "shape (lt_returns d) = shape ?M" "shape (lt_values d) = shape ?M"
    using assms(5,6) by (simp_all add: bool_mask_def)
  obtain y where y: "compute_value_loss ?V (lt_returns d) (lt_values d) ?M clip ''token-mean'' = Inr (Some x, y)"
    using assms(7) unfolding worker_value_loss_def one by (auto simp: bind_r_Inr Let_def)
  have cols: "lt_returns (index_select_td ?ix d) = lt_returns d @ lt_returns d" "lt_values (index_select_td ?ix d) = lt_values d @ lt_values d"
    "bool_mask (pt_response_mask (index_select_td ?ix d)) = ?M @ ?M"
    using n by (simp_all add: index_select_td_def perm_twice bool_mask_def mmap_def)
  from value_loss_split [OF y sh] obtain y' where
    "compute_value_loss (?V @ ?V) (lt_returns d @ lt_returns d) (lt_values d @ lt_values d) (?M @ ?M) clip ''token-mean'' = Inr (Some x, y')" by blast
  then show ?thesis unfolding worker_value_loss_def two bind_r_simps Let_def cols by simp
qed

text \<open>GMPO averages over the rows of its micro-batch, whatever the counts of the global batch and the ranks are.\<close>

theorem geo_mean_ignores_global_counts:
  "compute_policy_loss_geo_mean p l a M (cfg\<lparr>ac_info := info\<rparr>) ws = compute_policy_loss_geo_mean p l a M cfg ws"
  by (simp add: compute_policy_loss_geo_mean_def clip_low_def clip_high_def)

section \<open>Examples\<close>

definition two_samples_td :: "unit loss_td" where
  "two_samples_td = \<lparr>pt_prompts = [[5], [6]], pt_responses = [[7], [8]], pt_input_ids = [[5, 7], [6, 8]],
     pt_attention_mask = [[1, 1], [1, 1]], pt_response_mask = [[1], [1]], pt_position_ids = [[0, 1], [0, 1]], pt_routed = None,
     nt_loss_mask = [[1], [1]], nt_max_seq_len = 2, nt_max_response_len = 1, nt_indices = [0, 1, 2, 3],
     lt_old_log_probs = [[-1], [-2]], lt_advantages = [[1], [-1]], lt_is_weights = None, lt_ref_log_prob = Some [[-1], [-1]],
     lt_values = [[0], [0]], lt_returns = [[1], [1]], lt_dp_size = 1, lt_num_tokens = Some 2, lt_global_batch_size = Some 2\<rparr>"

definition plain_loss :: loss_config where
  "plain_loss = \<lparr>lc_actor = plain_actor, lc_agg_mode = ''token-mean'', lc_loss_mode = None, lc_scale_factor = None,
     lc_entropy_coeff = 1, lc_use_kl_loss = True, lc_kl_loss_type = ''k1'', lc_kl_loss_coef = 1\<rparr>"

lemma two_samples_ready: "ppo_ready 2 1 1 plain_loss [[-1, 0], [-2, 0]] (Some [[1, 0], [1, 0]]) two_samples_td"
  by (simp add: ppo_ready_def two_samples_td_def plain_loss_def td_rows_def scored_def opt_rows_def prompt_count_def response_count_def
      count_ones_def less_Suc_eq numeral_2_eq_2 loss_name_def split_names_def known_mode_def plain_actor_def get_or_def usable_counts_def
      kl_penalty_def kl_penalty_forward_def ends_plus_def)

lemma micro_batches_witness:
  "\<exists>xss ms. map_r (map_r (\<lambda>ix. map_result fst (worker_ppo_loss (policy_losses (\<lambda>n. [0..<n]) (\<lambda>k xs. [0..<k]) None no_bypass) plain_loss (perm ix [[-1, 0], [-2, 0]])
        (pick_rows ix (Some [[1, 0], [1, 0]])) (index_select_td ix (two_samples_td\<lparr>lt_dp_size := 2\<rparr>))))) [[[1]], [[0]]] = Inr (map (map Some) xss) \<and>
    worker_ppo_loss (policy_losses (\<lambda>n. [0..<n]) (\<lambda>k xs. [0..<k]) None no_bypass) plain_loss [[-1, 0], [-2, 0]] (Some [[1, 0], [1, 0]]) (two_samples_td\<lparr>lt_dp_size := 1\<rparr>) =
      Inr (Some (sum_list (map sum_list xss) / 2), ms)"
  using micro_batches_add_up [OF two_samples_ready, of "[[[1]], [[0]]]" "\<lambda>n. [0..<n]" "\<lambda>k xs. [0..<k]"]
  by (simp add: reorders_def numeral_2_eq_2 add.commute)

lemma sft_micro_batches_witness:
  "\<exists>xss. map_r (map_r (\<lambda>mb. sft_loss (map fst mb) (map snd mb) 3 1)) [[[([-1, -2, -7], [0, 1, 1])], [([-3, -4], [0, 1])]]] =
      Inr (map (map Some) xss) \<and> sum_list (map sum_list xss) / 1 = 2"
  using sft_micro_batches_add_up [of "[[[([-1, -2, -7], [0, 1, 1])], [([-3, -4], [0, 1])]]]" 3]
  by (simp add: sft_sample_def sample_score_def)

end
