(* ===== verification/TrainEngine.thy ===== *)
theory TrainEngine
  imports WorkerLoss Seqlen_Balance
begin

text \<open>
  One optimiser step and one update call of a data-parallel training engine: \<open>prepare_micro_batches\<close> and
  \<open>postprocess_batch_func\<close> of \<^verbatim>\<open>verl/workers/engine/utils.py\<close>, \<open>forward_backward_batch\<close> and \<open>optimizer_step\<close> of the
  FSDP engine, \<open>train_batch\<close> and \<open>infer_batch\<close> of \<^verbatim>\<open>engine/base.py\<close>, and \<open>TrainingWorker\<close> of
  \<^verbatim>\<open>verl/workers/engine_workers.py\<close>. All ranks run the same program, so one function takes the batches of all of
  them; what an all-reduce or all-gather exchanges is computed from all. The network is a function that scores a
  row of tokens (per position: log-probability of the next token and entropy); differentiation, gradient clipping
  and the optimiser are parameters that act on the objective the micro-batches accumulate. The objective is the loss as a function
  of the weights, so the gradient is taken of its value: \<^verbatim>\<open>detach\<close> in a loss (GSPO, CISPO, DPPO, the straight-through KL penalties), \<^verbatim>\<open>zero_grad\<close> and
  the accumulation of gradients in buffers are not represented; the sum of the micro-batch losses stands for the latter.
\<close>

section \<open>Micro-batches of a rank\<close>

record engine_config =
  en_dynamic :: bool
  en_max_token_len :: int
  en_micro_batch_size :: nat
  en_sp_size :: nat
  en_group_size :: nat

definition row_lens :: "int list list \<Rightarrow> int list" where
  "row_lens rows = map (\<lambda>r. int (length r)) rows"

text \<open>\<open>chunk_tensordict\<close>, by the positions of the rows.\<close>

definition chunk_indices :: "nat \<Rightarrow> nat \<Rightarrow> nat list list result" where
  "chunk_indices n chunks =
     require (chunks \<noteq> 0) ZeroDivisionError
      (require (n mod chunks = 0) AssertionError
        (Inr (map (\<lambda>j. [j * (n div chunks)..<(j + 1) * (n div chunks)]) [0..<chunks])))"

definition engine_options :: "engine_config \<Rightarrow> (int \<Rightarrow> int) option \<Rightarrow> mb_options" where
  "engine_options cfg all_reduce = \<lparr>mb_dp_all_reduce_max = all_reduce, mb_num_batches_divided_by = None,
     mb_min_num_micro_batch = None, mb_use_dynamic_bsz_balance = True, mb_force_group_size = en_group_size cfg\<rparr>"

definition prepare_micro_batches :: "engine_config \<Rightarrow> (int \<Rightarrow> int) option \<Rightarrow> int list \<Rightarrow> nat list list result" where
  "prepare_micro_batches cfg all_reduce lens =
     (if en_dynamic cfg
      then require (lens \<noteq> []) ValueError
             (micro_batch_indices lens (Max (set lens)) (en_max_token_len cfg * int (en_sp_size cfg)) (engine_options cfg all_reduce))
      else let step = en_group_size cfg * en_micro_batch_size cfg in
           require (step \<noteq> 0) ZeroDivisionError
            (require (length lens mod step = 0) AssertionError (chunk_indices (length lens) (length lens div step))))"

text \<open>The number of micro-batches is the largest that any rank asks for.\<close>

definition group_micro_batches :: "engine_config \<Rightarrow> int list list \<Rightarrow> nat list list list result" where
  "group_micro_batches cfg lens =
     (if en_dynamic cfg
      then bind_r (map_r (\<lambda>l. num_micro_batches l (en_max_token_len cfg * int (en_sp_size cfg)) (engine_options cfg None)) lens) (\<lambda>nums.
             map_r (prepare_micro_batches cfg (Some (\<lambda>_. Max (set nums)))) lens)
      else map_r (prepare_micro_batches cfg None) lens)"

section \<open>Forward and backward\<close>

type_synonym 'e loss_fn = "vec list \<Rightarrow> vec list option \<Rightarrow> 'e loss_td \<Rightarrow> loss_output"

record step_output =
  so_log_probs :: "vec list"
  so_entropies :: "vec list"
  so_losses :: "real option list"
  so_metrics :: "(string, collected) dict"

text \<open>\<open>forward_step\<close>: without a loss function the loss is 1 and there are no metrics, which only inference allows.\<close>

definition forward_step :: "('w \<Rightarrow> int list \<Rightarrow> vec \<times> vec) \<Rightarrow> 'e loss_fn option \<Rightarrow> bool \<Rightarrow> 'w \<Rightarrow> 'e loss_td \<Rightarrow>
    (vec list \<times> vec list \<times> real option \<times> (string, reported) dict) result" where
  "forward_step score loss_fn forward_only w micro =
     (let lps = map (\<lambda>row. fst (score w row)) (pt_input_ids micro); ents = map (\<lambda>row. snd (score w row)) (pt_input_ids micro)
      in case loss_fn of
           Some f \<Rightarrow> bind_r (f lps (Some ents) micro) (\<lambda>(loss, metrics). Inr (lps, ents, loss, metrics))
         | None \<Rightarrow> require forward_only AssertionError (Inr (lps, ents, Some 1, [])))"

definition collect_step_metrics :: "(string, reported) dict list \<Rightarrow> (string, collected) dict result" where
  "collect_step_metrics ms = fold (\<lambda>m r. bind_r r (\<lambda>data. append_to_dict data m '''')) ms (Inr [])"

definition restore_rows :: "bool \<Rightarrow> nat list list \<Rightarrow> vec list \<Rightarrow> vec list result" where
  "restore_rows dynamic indices rows = (if dynamic then restore_dynamic_batch rows indices else Inr rows)"

definition postprocess_batch_func :: "bool \<Rightarrow> nat list list \<Rightarrow> (vec list \<times> vec list \<times> real option \<times> (string, reported) dict) list \<Rightarrow>
    step_output result" where
  "postprocess_batch_func dynamic indices outs =
     bind_r (restore_rows dynamic indices (concat (map (\<lambda>(lps, ents, loss, ms). lps) outs))) (\<lambda>log_probs.
     bind_r (restore_rows dynamic indices (concat (map (\<lambda>(lps, ents, loss, ms). ents) outs))) (\<lambda>entropies.
     bind_r (collect_step_metrics (map (\<lambda>(lps, ents, loss, ms). ms) outs)) (\<lambda>metrics.
       Inr \<lparr>so_log_probs = log_probs, so_entropies = entropies, so_losses = map (\<lambda>(lps, ents, loss, ms). loss) outs,
         so_metrics = metrics\<rparr>)))"

definition forward_rank :: "('w \<Rightarrow> int list \<Rightarrow> vec \<times> vec) \<Rightarrow> 'e loss_fn option \<Rightarrow> bool \<Rightarrow> bool \<Rightarrow> 'w \<Rightarrow> 'e loss_td \<Rightarrow> nat list list \<Rightarrow>
    step_output result" where
  "forward_rank score loss_fn forward_only dynamic w d parts =
     bind_r (map_r (\<lambda>ix. forward_step score loss_fn forward_only w (index_select_td ix d)) parts) (postprocess_batch_func dynamic parts)"

text \<open>The counts of the global batch that \<open>forward_backward_batch\<close> adds to the data of every rank.\<close>

definition with_global_counts :: "'e loss_td list \<Rightarrow> 'e loss_td list" where
  "with_global_counts ds =
     (let n = sum_list (map (\<lambda>d. real_of_int (sum_list (map sum_list (nt_loss_mask d)))) ds)
      in map (\<lambda>d. d\<lparr>lt_num_tokens := Some n, lt_dp_size := length ds\<rparr>) ds)"

definition batch_parts :: "engine_config \<Rightarrow> 'e loss_td list \<Rightarrow> nat list list list result" where
  "batch_parts cfg ds = group_micro_batches cfg (map (\<lambda>d. row_lens (pt_input_ids d)) ds)"

definition forward_backward_batch :: "('w \<Rightarrow> int list \<Rightarrow> vec \<times> vec) \<Rightarrow> 'e loss_fn option \<Rightarrow> bool \<Rightarrow> engine_config \<Rightarrow> 'w \<Rightarrow> 'e loss_td list \<Rightarrow>
    step_output list result" where
  "forward_backward_batch score loss_fn forward_only cfg w ds =
     bind_r (batch_parts cfg ds) (\<lambda>parts.
       map_r (\<lambda>(d, p). forward_rank score loss_fn forward_only (en_dynamic cfg) w d p) (zip (with_global_counts ds) parts))"

definition infer_batch :: "('w \<Rightarrow> int list \<Rightarrow> vec \<times> vec) \<Rightarrow> 'e loss_fn option \<Rightarrow> engine_config \<Rightarrow> 'w \<Rightarrow> 'e loss_td list \<Rightarrow> step_output list result" where
  "infer_batch score loss_fn cfg w ds = forward_backward_batch score loss_fn True cfg w ds"

section \<open>The optimiser step\<close>

text \<open>A sum of losses is NaN when one of them is.\<close>

definition sum_losses :: "real option list \<Rightarrow> real option" where
  "sum_losses xs = map_option sum_list (those xs)"

text \<open>What \<open>_postprocess_output\<close> reports: the sum over the micro-batches, averaged over the ranks.\<close>

definition average_losses :: "real option list list \<Rightarrow> real option" where
  "average_losses losses = (case those (map sum_losses losses) of None \<Rightarrow> None | Some xs \<Rightarrow> div_fin (sum_list xs) (real (length losses)))"

text \<open>The objective whose gradient the backward passes accumulate and the ranks average, as a function of the weights.\<close>

definition rank_losses :: "('w \<Rightarrow> int list \<Rightarrow> vec \<times> vec) \<Rightarrow> 'e loss_fn \<Rightarrow> 'w \<Rightarrow> 'e loss_td \<Rightarrow> nat list list \<Rightarrow> real option list result" where
  "rank_losses score loss_fn w d parts =
     map_r (\<lambda>ix. map_result (\<lambda>(lps, ents, loss, metrics). loss) (forward_step score (Some loss_fn) False w (index_select_td ix d))) parts"

definition objective :: "('w \<Rightarrow> int list \<Rightarrow> vec \<times> vec) \<Rightarrow> 'e loss_fn \<Rightarrow> engine_config \<Rightarrow> 'e loss_td list \<Rightarrow> 'w \<Rightarrow> real option" where
  "objective score loss_fn cfg ds w =
     (case bind_r (batch_parts cfg ds) (\<lambda>parts. map_r (\<lambda>(d, p). rank_losses score loss_fn w d p) (zip (with_global_counts ds) parts)) of
        Inl e \<Rightarrow> None | Inr losses \<Rightarrow> average_losses losses)"

text \<open>The optimiser and its parameters: a state with the weights, the gradient of an objective at the weights, clipping
  (a norm of None is not finite), and the update.\<close>

record ('s, 'w, 'g) optimizer_env =
  oe_weights :: "'s \<Rightarrow> 'w"
  oe_gradient :: "('w \<Rightarrow> real option) \<Rightarrow> 'w \<Rightarrow> 'g"
  oe_clip :: "'g \<Rightarrow> 'g \<times> real option"
  oe_apply :: "'s \<Rightarrow> 'g \<Rightarrow> 's"
  oe_lr_step :: "'s \<Rightarrow> 's \<times> real"

definition optimizer_step :: "('s, 'w, 'g) optimizer_env \<Rightarrow> ('w \<Rightarrow> real option) \<Rightarrow> 's \<Rightarrow> 's \<times> real option" where
  "optimizer_step env obj s =
     (let (g, grad_norm) = oe_clip env (oe_gradient env obj (oe_weights env s))
      in (if grad_norm = None then s else oe_apply env s g, grad_norm))"

definition train_batch_engine :: "('s, 'w, 'g) optimizer_env \<Rightarrow> ('w \<Rightarrow> int list \<Rightarrow> vec \<times> vec) \<Rightarrow> 'e loss_fn \<Rightarrow> engine_config \<Rightarrow>
    's \<Rightarrow> 'e loss_td list \<Rightarrow> ('s \<times> step_output list \<times> real option) result" where
  "train_batch_engine env score loss_fn cfg s ds =
     bind_r (forward_backward_batch score (Some loss_fn) False cfg (oe_weights env s) ds) (\<lambda>outs.
       let (s', grad_norm) = optimizer_step env (objective score loss_fn cfg ds) s
       in Inr (s', outs, grad_norm))"

section \<open>The training worker\<close>

text \<open>A metric of a step: the values of all ranks, or one number.\<close>

datatype step_metric = Per_rank "collected list" | One "real option"

definition allgather_dict_into_dict :: "(string, 'a) dict list \<Rightarrow> (string, 'a list) dict" where
  "allgather_dict_into_dict ds =
     fold (\<lambda>d acc. fold (\<lambda>(k, v) acc. dict_set k ((case map_of acc k of None \<Rightarrow> [] | Some vs \<Rightarrow> vs) @ [v]) acc) d acc) ds []"

definition postprocess_output :: "step_output list \<Rightarrow> real option option \<Rightarrow> real option \<Rightarrow> (string, step_metric) dict" where
  "postprocess_output outs grad_norm lr =
     (let metrics = map (\<lambda>(k, vs). (k, Per_rank vs)) (allgather_dict_into_dict (map so_metrics outs));
          m1 = dict_set ''loss'' (One (average_losses (map so_losses outs))) metrics;
          m2 = (case grad_norm of None \<Rightarrow> m1 | Some g \<Rightarrow> dict_set ''grad_norm'' (One g) m1)
      in (case lr of None \<Rightarrow> m2 | Some x \<Rightarrow> dict_set ''lr'' (One (Some x)) m2))"

definition train_batch :: "('s, 'w, 'g) optimizer_env \<Rightarrow> ('w \<Rightarrow> int list \<Rightarrow> vec \<times> vec) \<Rightarrow> 'e loss_fn \<Rightarrow> engine_config \<Rightarrow> bool \<Rightarrow>
    's \<Rightarrow> 'e loss_td list \<Rightarrow> ('s \<times> (string, step_metric) dict) result" where
  "train_batch env score loss_fn cfg update_lr_scheduler s ds =
     bind_r (train_batch_engine env score loss_fn cfg s ds) (\<lambda>(s1, outs, grad_norm).
       let (s2, lr) = (if update_lr_scheduler then let (s2, lr) = oe_lr_step env s1 in (s2, Some lr) else (s1, None))
       in Inr (s2, postprocess_output outs (Some grad_norm) lr))"

text \<open>A gathered list of metrics is aggregated over the ranks, a gathered list of lists is chained.\<close>

definition collected_metric :: "collected \<Rightarrow> metric result" where
  "collected_metric c = (case c of Collected_metric m \<Rightarrow> Inr m | Collected_list xs \<Rightarrow> Inl AttributeError)"

definition collected_items :: "collected \<Rightarrow> item list result" where
  "collected_items c = (case c of Collected_metric m \<Rightarrow> Inl TypeError | Collected_list xs \<Rightarrow> Inr xs)"

definition flatten_metric :: "step_metric \<Rightarrow> reported result" where
  "flatten_metric v = (case v of
       One x \<Rightarrow> Inr (Reported_item (Item_number x))
     | Per_rank vs \<Rightarrow> require (vs \<noteq> []) IndexError (case hd vs of
           Collected_metric m \<Rightarrow> bind_r (map_r collected_metric vs) (\<lambda>ms. bind_r (aggregate_dp ms) (\<lambda>x. Inr (Reported_item (Item_number x))))
         | Collected_list xs \<Rightarrow> bind_r (map_r collected_items vs) (\<lambda>xss. Inr (Reported_list (concat xss)))))"

definition mini_batch_metrics :: "(string, step_metric) dict list \<Rightarrow> (string, collected) dict result" where
  "mini_batch_metrics outs = fold (\<lambda>out r. bind_r r (\<lambda>data.
       bind_r (map_r (\<lambda>(k, v). bind_r (flatten_metric v) (\<lambda>x. Inr (k, x))) out) (\<lambda>m. append_to_dict data m ''''))) outs (Inr [])"

record train_request =
  tr_mini_batch_size :: "nat option"
  tr_num_mini_batch :: "nat option"
  tr_epochs :: nat
  tr_seed :: nat

definition mini_batch_size_per_gpu :: "train_request \<Rightarrow> nat \<Rightarrow> nat \<Rightarrow> nat result" where
  "mini_batch_size_per_gpu req dp_size batch_size_per_dp = (case (tr_mini_batch_size req, tr_num_mini_batch req) of
       (None, None) \<Rightarrow> Inl AssertionError
     | (None, Some k) \<Rightarrow> require (k \<noteq> 0) ZeroDivisionError (require (batch_size_per_dp mod k = 0) AssertionError (Inr (batch_size_per_dp div k)))
     | (Some b, _) \<Rightarrow> require (b mod dp_size = 0) AssertionError (Inr (b div dp_size)))"

text \<open>\<open>make_iterator\<close>: in every epoch the data loader of a rank goes through its rows in an order that depends on
  its seed, in mini-batches; without shuffling the order is that of the rows.\<close>

definition make_td_iterator :: "(nat \<Rightarrow> nat \<Rightarrow> nat \<Rightarrow> nat list) \<Rightarrow> nat \<Rightarrow> nat \<Rightarrow> nat \<Rightarrow> nat \<Rightarrow> nat list list result" where
  "make_td_iterator order n mini_batch_size epochs seed =
     require (mini_batch_size \<noteq> 0) ZeroDivisionError
      (require (n mod mini_batch_size = 0) AssertionError
        (Inr (concat (map (\<lambda>epoch. map (\<lambda>j. take mini_batch_size (drop (j * mini_batch_size) (order seed epoch n)))
          [0..<n div mini_batch_size]) [0..<epochs]))))"

fun train_steps :: "('s, 'w, 'g) optimizer_env \<Rightarrow> ('w \<Rightarrow> int list \<Rightarrow> vec \<times> vec) \<Rightarrow> 'e loss_fn \<Rightarrow> engine_config \<Rightarrow> nat \<Rightarrow> nat \<Rightarrow>
    's \<Rightarrow> 'e loss_td list list \<Rightarrow> ('s \<times> (string, step_metric) dict list) result" where
  "train_steps env score loss_fn cfg total_num batch_idx s [] = Inr (s, [])"
| "train_steps env score loss_fn cfg total_num batch_idx s (ds # rest) =
     bind_r (train_batch env score loss_fn cfg (batch_idx + 1 = total_num) s ds) (\<lambda>(s1, out).
     bind_r (train_steps env score loss_fn cfg total_num (batch_idx + 1) s1 rest) (\<lambda>(s2, outs). Inr (s2, out # outs)))"

definition rank_rows :: "nat list list list \<Rightarrow> nat \<Rightarrow> nat list list" where
  "rank_rows iters j = map (\<lambda>it. it ! j) iters"

definition train_mini_batch :: "('s, 'w, 'g) optimizer_env \<Rightarrow> ('w \<Rightarrow> int list \<Rightarrow> vec \<times> vec) \<Rightarrow> 'e loss_fn \<Rightarrow> engine_config \<Rightarrow>
    (nat \<Rightarrow> nat \<Rightarrow> nat \<Rightarrow> nat list) \<Rightarrow> train_request \<Rightarrow> 's \<Rightarrow> 'e loss_td list \<Rightarrow> ('s \<times> (string, collected) dict) result" where
  "train_mini_batch env score loss_fn cfg order req s ds =
     (let n = (case ds of [] \<Rightarrow> 0 | d # _ \<Rightarrow> length (pt_input_ids d))
      in bind_r (mini_batch_size_per_gpu req (length ds) n) (\<lambda>mini.
         bind_r (map_r (\<lambda>r. make_td_iterator order n mini (tr_epochs req) (tr_seed req + r)) [0..<length ds]) (\<lambda>iters.
         let steps = n div mini * tr_epochs req;
             batches = map (\<lambda>j. map2 index_select_td (rank_rows iters j) ds) [0..<steps]
         in bind_r (train_steps env score loss_fn cfg steps 0 s batches) (\<lambda>(s', outs).
            bind_r (mini_batch_metrics outs) (\<lambda>metrics. Inr (s', metrics))))))"

section \<open>Micro-batches cover the batch\<close>

lemma check_and_sort_nonempty:
  assumes "get_seqlen_balanced_partitions xs k eq = Inr ps" "p \<in> set ps"
  shows "p \<noteq> []"
proof -
  obtain qs where "map_r (\<lambda>p. require (p \<noteq> []) AssertionError (Inr (sort p))) qs = Inr ps"
    using assms(1) by (auto simp: get_seqlen_balanced_partitions_def check_and_sort_partitions_def require_Inr bind_r_Inr)
  then have all: "list_all2 (\<lambda>q p. require (q \<noteq> []) AssertionError (Inr (sort q)) = Inr p) qs ps" by (simp only: map_r_Inr)
  obtain i where i: "i < length ps" "p = ps ! i" using assms(2) by (auto simp: in_set_conv_nth)
  define q where "q = qs ! i"
  have "require (q \<noteq> []) AssertionError (Inr (sort q)) = Inr p" unfolding q_def i(2) by (rule list_all2_nthD2 [OF all i(1)])
  then have "q \<noteq> []" "sort q = p" by (simp_all add: require_Inr)
  then have "length p \<noteq> 0" using length_sort [of "\<lambda>x. x" q] by simp
  then show ?thesis by simp
qed

lemma micro_batch_indices_nonempty:
  assumes "micro_batch_indices seq_lens max_seq_len max_token_len opts = Inr idx" "p \<in> set idx"
  shows "p \<noteq> []"
proof -
  define g where "g = mb_force_group_size opts"
  define w where "w = (if g > 1 then group_workloads seq_lens g else map calculate_workload seq_lens)"
  obtain num parts where g: "g \<noteq> 0" and parts: "get_seqlen_balanced_partitions w (nat num) False = Inr parts"
    and idx: "idx = (let i = (if g > 1 then map (expand_group g) parts else parts) in
      if mb_use_dynamic_bsz_balance opts then balance_order w g i else i)"
    using assms(1) unfolding micro_batch_indices_def Let_def g_def [symmetric] w_def [symmetric]
    by (auto simp: require_Inr bind_r_Inr)
  have "p \<in> set (if g > 1 then map (expand_group g) parts else parts)"
    using assms(2) set_balance_order [of w g] unfolding idx Let_def by (cases "mb_use_dynamic_bsz_balance opts"; cases "g > 1") auto
  then show ?thesis using check_and_sort_nonempty [OF parts] expand_group_nonempty [of g] g by (auto split: if_splits)
qed

lemma concat_chunks_upt: "concat (map (\<lambda>j. [j * k..<(j + 1) * k]) [0..<c]) = [0..<c * k]"
proof (induction c)
  case (Suc c)
  have "[0..<c * k] @ [c * k..<c * k + k] = [0..<c * k + k]" by (rule upt_add_eq_append [symmetric]) simp
  with Suc show ?case by (simp add: add.commute)
qed simp

lemma prepared_parts:
  assumes "prepare_micro_batches cfg red lens = Inr p" "\<forall>l \<in> set lens. 0 \<le> l"
  shows "reorders (concat p) (length lens)" "\<And>ix. ix \<in> set p \<Longrightarrow> ix \<noteq> []" "\<not> en_dynamic cfg \<Longrightarrow> concat p = [0..<length lens]"
proof -
  have static: "concat p = [0..<length lens] \<and> (\<forall>ix \<in> set p. ix \<noteq> [])" if "\<not> en_dynamic cfg"
  proof -
    let ?step = "en_group_size cfg * en_micro_batch_size cfg"
    let ?c = "length lens div ?step" and ?n = "length lens"
    have ok: "?step \<noteq> 0" "?n mod ?step = 0" "?c \<noteq> 0" "?n mod ?c = 0"
      and p: "p = map (\<lambda>j. [j * (?n div ?c)..<(j + 1) * (?n div ?c)]) [0..<?c]"
      using assms(1) that by (auto simp: prepare_micro_batches_def chunk_indices_def Let_def require_Inr)
    have "?c * (?n div ?c) = ?n" using ok(4) by auto
    moreover have "?n div ?c \<noteq> 0" using ok(3,4) by (metis calculation div_0 mult_is_0)
    ultimately show ?thesis unfolding p concat_chunks_upt by auto
  qed
  have dyn: "reorders (concat p) (length lens) \<and> (\<forall>ix \<in> set p. ix \<noteq> [])" if "en_dynamic cfg"
  proof -
    have "micro_batch_indices lens (Max (set lens)) (en_max_token_len cfg * int (en_sp_size cfg)) (engine_options cfg red) = Inr p"
      using assms(1) that by (simp add: prepare_micro_batches_def require_Inr)
    from micro_batch_indices_partition [OF this assms(2)] micro_batch_indices_nonempty [OF this]
    show ?thesis by (auto simp: reorders_def)
  qed
  show "reorders (concat p) (length lens)" using static dyn by (cases "en_dynamic cfg") (auto simp: reorders_def)
  show "ix \<noteq> []" if "ix \<in> set p" for ix using that static dyn by (cases "en_dynamic cfg") auto
  show "concat p = [0..<length lens]" if "\<not> en_dynamic cfg" using static that by simp
qed

lemma batch_parts_ok:
  assumes "batch_parts cfg ds = Inr parts"
  shows "list_all2 (\<lambda>d p. reorders (concat p) (length (pt_input_ids d)) \<and> (\<forall>ix \<in> set p. ix \<noteq> []) \<and>
    (\<not> en_dynamic cfg \<longrightarrow> concat p = [0..<length (pt_input_ids d)])) ds parts"
proof -
  obtain red where "map_r (\<lambda>d. prepare_micro_batches cfg red (row_lens (pt_input_ids d))) ds = Inr parts"
    using assms by (auto simp: batch_parts_def group_micro_batches_def map_r_map bind_r_Inr split: if_splits)
  then have "list_all2 (\<lambda>d p. prepare_micro_batches cfg red (row_lens (pt_input_ids d)) = Inr p) ds parts" by (simp only: map_r_Inr)
  then show ?thesis
  proof (rule list_all2_mono)
    fix d p
    assume "prepare_micro_batches cfg red (row_lens (pt_input_ids d)) = Inr p"
    note facts = prepared_parts [OF this]
    show "reorders (concat p) (length (pt_input_ids d)) \<and> (\<forall>ix \<in> set p. ix \<noteq> []) \<and>
        (\<not> en_dynamic cfg \<longrightarrow> concat p = [0..<length (pt_input_ids d)])"
      using facts by (auto simp: row_lens_def)
  qed
qed

section \<open>Inference\<close>

lemma forward_step_outputs:
  assumes "forward_step score loss_fn fo w micro = Inr (lps, ents, loss, ms)"
  shows "lps = map (\<lambda>row. fst (score w row)) (pt_input_ids micro)" "ents = map (\<lambda>row. snd (score w row)) (pt_input_ids micro)"
  using assms by (auto simp: forward_step_def Let_def bind_r_Inr require_Inr split: option.splits)

lemma index_select_ids: "pt_input_ids (index_select_td ix d) = perm ix (pt_input_ids d)"
  by (simp add: index_select_td_def)

lemma restored:
  assumes "reorders (concat p) (length xs)" "\<not> dynamic \<longrightarrow> concat p = [0..<length xs]" "restore_rows dynamic p (concat (map (\<lambda>ix. perm ix xs) p)) = Inr ys"
  shows "ys = xs"
proof (cases dynamic)
  case True
  have "restore_dynamic_batch (concat (map (map ((!) xs)) p)) p = Inr xs"
    using assms(1) by (intro restore_permuted) (simp add: reorders_def)
  moreover have "(\<lambda>ix. perm ix xs) = map ((!) xs)" by (simp add: perm_def fun_eq_iff)
  ultimately show ?thesis using assms(3) True by (simp add: restore_rows_def)
next
  case False
  have "concat (map (\<lambda>ix. perm ix xs) p) = perm (concat p) xs" by (simp add: perm_def map_concat comp_def)
  then show ?thesis using assms(2,3) False by (simp add: restore_rows_def)
qed

lemma forward_rank_outputs:
  assumes ok: "forward_rank score loss_fn fo dynamic w d p = Inr out"
    and p: "reorders (concat p) (length (pt_input_ids d))" "\<not> dynamic \<longrightarrow> concat p = [0..<length (pt_input_ids d)]"
  shows "so_log_probs out = map (\<lambda>row. fst (score w row)) (pt_input_ids d)" "so_entropies out = map (\<lambda>row. snd (score w row)) (pt_input_ids d)"
proof -
  obtain outs where outs: "map_r (\<lambda>ix. forward_step score loss_fn fo w (index_select_td ix d)) p = Inr outs"
    and post: "postprocess_batch_func dynamic p outs = Inr out" using ok by (auto simp: forward_rank_def bind_r_Inr)
  have range: "\<forall>ix \<in> set p. \<forall>i \<in> set ix. i < length (pt_input_ids d)"
    using reorders_facts(2) [OF p(1)] by auto
  have "list_all2 (\<lambda>ix out. forward_step score loss_fn fo w (index_select_td ix d) = Inr out) p outs"
    using outs by (simp only: map_r_Inr)
  then have rows: "map (\<lambda>(lps, ents, loss, ms). lps) outs = map (\<lambda>ix. perm ix (map (\<lambda>row. fst (score w row)) (pt_input_ids d))) p \<and>
      map (\<lambda>(lps, ents, loss, ms). ents) outs = map (\<lambda>ix. perm ix (map (\<lambda>row. snd (score w row)) (pt_input_ids d))) p"
    using range
  proof (induction rule: list_all2_induct)
    case (Cons ix p out outs)
    obtain lps ents loss ms where out: "out = (lps, ents, loss, ms)" by (cases out)
    note o = forward_step_outputs [OF Cons(1) [unfolded out]]
    have "\<forall>i \<in> set ix. i < length (pt_input_ids d)" using Cons.prems by simp
    note m = perm_map [OF this]
    show ?case using Cons.IH Cons.prems by (simp add: out o index_select_ids m)
  qed simp
  obtain lps ents where r: "restore_rows dynamic p (concat (map (\<lambda>(lps, ents, loss, ms). lps) outs)) = Inr lps"
      "restore_rows dynamic p (concat (map (\<lambda>(lps, ents, loss, ms). ents) outs)) = Inr ents"
    and out: "so_log_probs out = lps" "so_entropies out = ents"
    using post by (auto simp: postprocess_batch_func_def bind_r_Inr)
  have p': "reorders (concat p) (length (map f (pt_input_ids d)))" "\<not> dynamic \<longrightarrow> concat p = [0..<length (map f (pt_input_ids d))]" for f :: "int list \<Rightarrow> vec"
    using p by simp_all
  show "so_log_probs out = map (\<lambda>row. fst (score w row)) (pt_input_ids d)"
    unfolding out by (rule restored [OF p' r(1) [unfolded rows [THEN conjunct1]]])
  show "so_entropies out = map (\<lambda>row. snd (score w row)) (pt_input_ids d)"
    unfolding out by (rule restored [OF p' r(2) [unfolded rows [THEN conjunct2]]])
qed

lemma counts_keep_ids: "map pt_input_ids (with_global_counts ds) = map pt_input_ids ds"
  by (simp add: with_global_counts_def Let_def)

text \<open>C34 Whatever the micro-batches of the ranks are, inference returns for every rank the scores of its rows in their order.\<close>

theorem inference_keeps_order:
  assumes "infer_batch score loss_fn cfg w ds = Inr outs"
  shows "map so_log_probs outs = map (\<lambda>d. map (\<lambda>row. fst (score w row)) (pt_input_ids d)) ds \<and>
    map so_entropies outs = map (\<lambda>d. map (\<lambda>row. snd (score w row)) (pt_input_ids d)) ds"
proof -
  obtain parts where parts: "batch_parts cfg ds = Inr parts"
    and run: "map_r (\<lambda>(d, p). forward_rank score loss_fn True (en_dynamic cfg) w d p) (zip (with_global_counts ds) parts) = Inr outs"
    using assms by (auto simp: infer_batch_def forward_backward_batch_def bind_r_Inr)
  let ?ds = "with_global_counts ds"
  have len: "length ?ds = length ds" "length parts = length ds"
    using list_all2_lengthD [OF batch_parts_ok [OF parts]] by (simp_all add: with_global_counts_def Let_def)
  have ids: "pt_input_ids (?ds ! i) = pt_input_ids (ds ! i)" if "i < length ds" for i
    using arg_cong [OF counts_keep_ids, of "\<lambda>xs. xs ! i" ds] that len by simp
  have all: "list_all2 (\<lambda>(d, p) out. forward_rank score loss_fn True (en_dynamic cfg) w d p = Inr out) (zip ?ds parts) outs"
    using run by (simp add: map_r_Inr case_prod_unfold)
  have outs: "length outs = length ds" using list_all2_lengthD [OF all] len by simp
  have each: "so_log_probs (outs ! i) = map (\<lambda>row. fst (score w row)) (pt_input_ids (ds ! i)) \<and>
      so_entropies (outs ! i) = map (\<lambda>row. snd (score w row)) (pt_input_ids (ds ! i))" if i: "i < length ds" for i
  proof -
    have "forward_rank score loss_fn True (en_dynamic cfg) w (?ds ! i) (parts ! i) = Inr (outs ! i)"
      using list_all2_nthD [OF all, of i] i len by simp
    moreover have "reorders (concat (parts ! i)) (length (pt_input_ids (?ds ! i)))"
      "\<not> en_dynamic cfg \<longrightarrow> concat (parts ! i) = [0..<length (pt_input_ids (?ds ! i))]"
      using list_all2_nthD [OF batch_parts_ok [OF parts] i] by (simp_all add: ids [OF i])
    ultimately show ?thesis using forward_rank_outputs [of score loss_fn True "en_dynamic cfg" w "?ds ! i" "parts ! i" "outs ! i"] ids [OF i] by simp
  qed
  show ?thesis using each outs by (simp add: list_eq_iff_nth_eq)
qed

section \<open>Collecting the metrics\<close>

definition uniform_collected :: "(string \<Rightarrow> aggregation_type) \<Rightarrow> (string, collected) dict \<Rightarrow> bool" where
  "uniform_collected A data \<longleftrightarrow> (\<forall>(k, c) \<in> set data. case c of Collected_metric m \<Rightarrow> mt_aggregation m = A k | Collected_list xs \<Rightarrow> True)"

lemma append_reported_uniform:
  assumes "case c of Collected_metric m \<Rightarrow> mt_aggregation m = A k | Collected_list xs \<Rightarrow> True" "uniform_value A (k, v)"
  shows "\<exists>c'. append_reported c v = Inr c' \<and> (case c' of Collected_metric m \<Rightarrow> mt_aggregation m = A k | Collected_list xs \<Rightarrow> True)"
proof -
  obtain it where v: "v = Reported_item it" "case it of Item_metric m \<Rightarrow> mt_aggregation m = A k | Item_number x \<Rightarrow> True"
    using assms(2) by (cases v) (auto simp: uniform_value_def)
  show ?thesis
  proof (cases c)
    case (Collected_metric m)
    then show ?thesis using assms(1) v
      by (cases it) (auto simp: append_reported_def append_metric_def item_arg_def extend_metric_def)
  qed (simp add: append_reported_def)
qed

lemma append_to_dict_uniform:
  assumes "uniform_collected A data" "uniform_report A ms"
  shows "\<exists>data'. append_to_dict data ms '''' = Inr data' \<and> uniform_collected A data'"
  using assms
proof (induction ms arbitrary: data)
  case Nil
  then show ?case by (simp add: append_to_dict_def)
next
  case (Cons kv ms)
  obtain k v where kv: "kv = (k, v)" by (cases kv)
  let ?old = "case map_of data k of None \<Rightarrow> empty_for v | Some c \<Rightarrow> c"
  have val: "uniform_value A (k, v)" and rest: "uniform_report A ms" using Cons.prems(2) by (simp_all add: uniform_report_def kv)
  have "case ?old of Collected_metric m \<Rightarrow> mt_aggregation m = A k | Collected_list xs \<Rightarrow> True"
  proof (cases "map_of data k")
    case None
    with val show ?thesis
      by (auto simp: empty_for_def init_list_def uniform_value_def split: reported.splits item.splits)
  next
    case (Some c)
    then have "(k, c) \<in> set data" by (rule map_of_SomeD)
    with Cons.prems(1) have "case c of Collected_metric m \<Rightarrow> mt_aggregation m = A k | Collected_list xs \<Rightarrow> True"
      unfolding uniform_collected_def by blast
    then show ?thesis by (simp add: Some)
  qed
  from append_reported_uniform [OF this val] obtain c' where c': "append_reported ?old v = Inr c'"
    "case c' of Collected_metric m \<Rightarrow> mt_aggregation m = A k | Collected_list xs \<Rightarrow> True" by blast
  have "uniform_collected A (dict_set k c' data)"
    using Cons.prems(1) c'(2) set_dict_set [of k c' data] unfolding uniform_collected_def by blast
  from Cons.IH [OF this rest] obtain data' where "append_to_dict (dict_set k c' data) ms '''' = Inr data'" "uniform_collected A data'" by blast
  moreover have "append_to_dict data (kv # ms) '''' = append_to_dict (dict_set k c' data) ms ''''"
    using c'(1) by (simp add: append_to_dict_def kv startswith_def Let_def)
  ultimately show ?case by simp
qed

lemma collect_uniform:
  assumes "\<forall>ms \<in> set mss. uniform_report A ms"
  shows "\<exists>data. collect_step_metrics mss = Inr data"
proof -
  have "\<exists>data'. fold (\<lambda>m r. bind_r r (\<lambda>data. append_to_dict data m '''')) mss (Inr data) = Inr data'"
    if "uniform_collected A data" for data
    using assms that
  proof (induction mss arbitrary: data)
    case (Cons ms mss)
    from append_to_dict_uniform [OF Cons.prems(2), of ms] Cons.prems(1) obtain data' where
      d: "append_to_dict data ms '''' = Inr data'" "uniform_collected A data'" by auto
    show ?case using Cons.IH [OF _ d(2)] Cons.prems(1) d(1) by simp
  qed simp
  then show ?thesis by (simp add: collect_step_metrics_def uniform_collected_def)
qed

section \<open>A step on many ranks is a step on the whole batch\<close>

definition scores_of_rows :: "('w \<Rightarrow> int list \<Rightarrow> vec \<times> vec) \<Rightarrow> 'w \<Rightarrow> 'e loss_td \<Rightarrow> vec list" where
  "scores_of_rows score w d = map (\<lambda>row. fst (score w row)) (pt_input_ids d)"

definition entropies_of_rows :: "('w \<Rightarrow> int list \<Rightarrow> vec \<times> vec) \<Rightarrow> 'w \<Rightarrow> 'e loss_td \<Rightarrow> vec list" where
  "entropies_of_rows score w d = map (\<lambda>row. snd (score w row)) (pt_input_ids d)"

definition total_tokens :: "'e loss_td \<Rightarrow> real" where
  "total_tokens d = real_of_int (sum_list (map sum_list (nt_loss_mask d)))"

text \<open>The loss of a batch in one piece, on one rank, as a function of the weights.\<close>

definition whole_loss :: "('w \<Rightarrow> int list \<Rightarrow> vec \<times> vec) \<Rightarrow> 'e loss_fn \<Rightarrow> 'e loss_td \<Rightarrow> 'w \<Rightarrow> real option" where
  "whole_loss score loss_fn d w =
     (case loss_fn (scores_of_rows score w d) (Some (entropies_of_rows score w d)) (d\<lparr>lt_num_tokens := Some (total_tokens d), lt_dp_size := 1\<rparr>) of
        Inl e \<Rightarrow> None | Inr (x, ms) \<Rightarrow> x)"

lemma perm_perm: "\<forall>i \<in> set ix. i < length r \<Longrightarrow> perm ix (perm r xs) = perm (perm ix r) xs"
  by (simp add: perm_def)

lemma pick_twice: "\<forall>i \<in> set ix. i < length r \<Longrightarrow> pick_rows ix (pick_rows r x) = pick_rows (perm ix r) x"
  by (cases x) (simp_all add: perm_perm)

lemma index_select_twice:
  "\<forall>i \<in> set ix. i < length r \<Longrightarrow> index_select_td ix (index_select_td r d) = index_select_td (perm ix r) d"
  by (simp add: index_select_td_def perm_perm pick_twice del: option.map_comp)

lemma total_tokens_ranks:
  assumes "reorders (concat rs) n" "length (nt_loss_mask d) = n"
  shows "sum_list (map (\<lambda>r. total_tokens (index_select_td r d)) rs) = total_tokens d"
proof -
  let ?g = "\<lambda>i. real_of_int (sum_list (nt_loss_mask d ! i))"
  have one: "total_tokens (index_select_td r d) = sum_list (map ?g r)" for r
    by (induction r) (simp_all add: total_tokens_def index_select_td_def perm_def)
  have "sum_list (map (\<lambda>r. sum_list (map ?g r)) rs) = sum_list (map ?g (concat rs))" by (induction rs) simp_all
  also have "\<dots> = sum_list (map ?g [0..<n])" using assms(1) unfolding reorders_def by (rule sum_list_mset)
  also have "\<dots> = total_tokens d"
    using one [of "[0..<n]"] assms(2) by (simp add: total_tokens_def index_select_td_def perm_all)
  finally show ?thesis by (simp only: one)
qed

lemma global_counts_ranks:
  assumes "reorders (concat rs) n" "length (nt_loss_mask d) = n"
  shows "with_global_counts (map (\<lambda>r. index_select_td r d) rs) =
    map (\<lambda>r. index_select_td r (d\<lparr>lt_num_tokens := Some (total_tokens d), lt_dp_size := length rs\<rparr>)) rs"
proof -
  have "sum_list (map (\<lambda>d. real_of_int (sum_list (map sum_list (nt_loss_mask d)))) (map (\<lambda>r. index_select_td r d) rs)) = total_tokens d"
    using total_tokens_ranks [OF assms] by (simp add: total_tokens_def comp_def)
  then show ?thesis unfolding with_global_counts_def Let_def by (simp add: index_select_td_def)
qed

text \<open>The batch and its scores are what the PPO loss needs, at the given weights.\<close>

definition step_ready :: "nat \<Rightarrow> nat \<Rightarrow> nat \<Rightarrow> loss_config \<Rightarrow> ('w \<Rightarrow> int list \<Rightarrow> vec \<times> vec) \<Rightarrow> 'e loss_td \<Rightarrow> 'w \<Rightarrow> bool" where
  "step_ready n P R lcfg score d w \<longleftrightarrow>
     ppo_ready n P R lcfg (scores_of_rows score w d) (Some (entropies_of_rows score w d)) (d\<lparr>lt_num_tokens := Some (total_tokens d)\<rparr>)"

lemma forward_step_part:
  assumes r: "\<forall>i \<in> set r. i < length (pt_input_ids d)" and ix: "\<forall>i \<in> set ix. i < length r"
  shows "forward_step score (Some f) fo w (index_select_td ix (index_select_td r (d\<lparr>lt_num_tokens := t, lt_dp_size := k\<rparr>))) =
    bind_r (f (perm (perm ix r) (scores_of_rows score w d)) (pick_rows (perm ix r) (Some (entropies_of_rows score w d)))
        (index_select_td (perm ix r) (d\<lparr>lt_num_tokens := t, lt_dp_size := k\<rparr>)))
      (\<lambda>(loss, ms). Inr (perm (perm ix r) (scores_of_rows score w d), perm (perm ix r) (entropies_of_rows score w d), loss, ms))"
proof -
  have range: "\<forall>i \<in> set (perm ix r). i < length (pt_input_ids d)" using r ix by (auto simp: perm_def)
  have ids: "pt_input_ids (index_select_td (perm ix r) (d\<lparr>lt_num_tokens := t, lt_dp_size := k\<rparr>)) = perm (perm ix r) (pt_input_ids d)"
    by (simp add: index_select_td_def)
  have "perm (perm ix r) (scores_of_rows score w d) = map (\<lambda>row. fst (score w row)) (perm (perm ix r) (pt_input_ids d))"
    "perm (perm ix r) (entropies_of_rows score w d) = map (\<lambda>row. snd (score w row)) (perm (perm ix r) (pt_input_ids d))"
    unfolding scores_of_rows_def entropies_of_rows_def by (rule perm_map [OF range])+
  then show ?thesis unfolding index_select_twice [OF ix] by (simp add: forward_step_def Let_def ids)
qed

lemma average_of_parts:
  assumes "additive n g" "reorders (concat (concat parts)) n" "parts \<noteq> []"
  shows "average_losses (map (map (\<lambda>ix. Some (g ix * real (length parts)))) parts) = Some (g [0..<n])"
proof -
  let ?k = "real (length parts)"
  have "sum_losses (map (\<lambda>ix. Some (g ix * ?k)) mbs) = Some (sum_list (map g mbs) * ?k)" for mbs
  proof -
    have "those (map (\<lambda>ix. Some (g ix * ?k)) mbs) = Some (map (\<lambda>ix. g ix * ?k) mbs)"
      using those_Some [of "map (\<lambda>ix. g ix * ?k) mbs"] by (simp add: comp_def)
    then show ?thesis by (simp add: sum_losses_def sum_list_mult_const)
  qed
  then have "map sum_losses (map (map (\<lambda>ix. Some (g ix * ?k))) parts) = map Some (map (\<lambda>mbs. sum_list (map g mbs) * ?k) parts)" by simp
  then have "average_losses (map (map (\<lambda>ix. Some (g ix * ?k))) parts) = div_fin (sum_list (map (\<lambda>mbs. sum_list (map g mbs) * ?k) parts)) ?k"
    by (simp only: average_losses_def those_Some option.case length_map)
  also have "\<dots> = Some (sum_list (map (\<lambda>mbs. sum_list (map g mbs)) parts))"
    using assms(3) by (simp add: div_fin_def sum_list_mult_const)
  finally show ?thesis using assms(1,2) by (simp add: additive_def)
qed

lemma rank_run:
  assumes r: "\<forall>i \<in> set r. i < n" and len: "length (pt_input_ids d) = n"
    and p: "reorders (concat p) (length r)" "\<forall>ix \<in> set p. ix \<noteq> []" "\<not> dynamic \<longrightarrow> concat p = [0..<length r]"
    and f: "\<And>ix. ix \<noteq> [] \<Longrightarrow> \<forall>i \<in> set ix. i < n \<Longrightarrow> \<exists>ms. f (perm ix (scores_of_rows score w d)) (pick_rows ix (Some (entropies_of_rows score w d)))
        (index_select_td ix (d\<lparr>lt_num_tokens := t, lt_dp_size := k\<rparr>)) = Inr (h ix, ms) \<and> uniform_report A ms"
  shows "\<exists>out. forward_rank score (Some f) fo dynamic w (index_select_td r (d\<lparr>lt_num_tokens := t, lt_dp_size := k\<rparr>)) p = Inr out \<and>
      so_losses out = map (\<lambda>ix. h (perm ix r)) p"
    "rank_losses score f w (index_select_td r (d\<lparr>lt_num_tokens := t, lt_dp_size := k\<rparr>)) p = Inr (map (\<lambda>ix. h (perm ix r)) p)"
proof -
  let ?d = "index_select_td r (d\<lparr>lt_num_tokens := t, lt_dp_size := k\<rparr>)"
  let ?s = "\<lambda>ix. perm (perm ix r) (scores_of_rows score w d)" and ?e = "\<lambda>ix. perm (perm ix r) (entropies_of_rows score w d)"
  have "\<exists>ms. forward_step score (Some f) fo' w (index_select_td ix ?d) = Inr (?s ix, ?e ix, h (perm ix r), ms) \<and> uniform_report A ms"
    if "ix \<in> set p" for ix fo'
  proof -
    have ix: "ix \<noteq> []" "\<forall>i \<in> set ix. i < length r" using that p(2) reorders_facts(2) [OF p(1)] by auto
    then have jx: "perm ix r \<noteq> []" "\<forall>i \<in> set (perm ix r). i < n" using r by (auto simp: perm_def)
    have rr: "\<forall>i \<in> set r. i < length (pt_input_ids d)" using r len by simp
    show ?thesis using f [OF jx] unfolding forward_step_part [OF rr ix(2)] by auto
  qed
  then have "\<forall>fo'. \<forall>ix \<in> set p. \<exists>ms. forward_step score (Some f) fo' w (index_select_td ix ?d) = Inr (?s ix, ?e ix, h (perm ix r), ms) \<and> uniform_report A ms"
    by blast
  then obtain M where M: "\<And>fo' ix. ix \<in> set p \<Longrightarrow> forward_step score (Some f) fo' w (index_select_td ix ?d) = Inr (?s ix, ?e ix, h (perm ix r), M fo' ix) \<and>
      uniform_report A (M fo' ix)" by metis
  show "rank_losses score f w ?d p = Inr (map (\<lambda>ix. h (perm ix r)) p)"
    unfolding rank_losses_def by (rule map_r_total) (simp add: M)
  let ?outs = "map (\<lambda>ix. (?s ix, ?e ix, h (perm ix r), M fo ix)) p"
  have steps: "map_r (\<lambda>ix. forward_step score (Some f) fo w (index_select_td ix ?d)) p = Inr ?outs"
    by (rule map_r_total) (simp add: M)
  obtain data where data: "collect_step_metrics (map (\<lambda>(lps, ents, loss, ms). ms) ?outs) = Inr data"
    using collect_uniform [of "map (\<lambda>(lps, ents, loss, ms). ms) ?outs" A] M by auto
  have rest: "restore_rows dynamic p (concat (map (\<lambda>ix. perm (perm ix r) xs) p)) = Inr (perm r xs)" for xs :: "vec list"
  proof (cases dynamic)
    case True
    have "restore_dynamic_batch (concat (map (map ((!) (perm r xs))) p)) p = Inr (perm r xs)"
      using p(1) by (intro restore_permuted) (simp add: reorders_def)
    moreover have "concat (map (\<lambda>ix. perm (perm ix r) xs) p) = concat (map (map ((!) (perm r xs))) p)"
    proof -
      have "perm (perm ix r) xs = map ((!) (perm r xs)) ix" if "ix \<in> set p" for ix
      proof -
        have "\<forall>i \<in> set ix. i < length r" using that reorders_facts(2) [OF p(1)] by auto
        from perm_perm [OF this, of xs] show ?thesis by (simp add: perm_def)
      qed
      then show ?thesis by (metis (no_types, lifting) map_cong)
    qed
    ultimately show ?thesis using True by (simp add: restore_rows_def)
  next
    case False
    have "concat (map (\<lambda>ix. perm (perm ix r) xs) p) = perm (perm (concat p) r) xs" by (simp add: perm_def map_concat comp_def)
    then show ?thesis using False p(3) by (simp add: restore_rows_def perm_all)
  qed
  have "postprocess_batch_func dynamic p ?outs = Inr \<lparr>so_log_probs = perm r (scores_of_rows score w d), so_entropies = perm r (entropies_of_rows score w d),
      so_losses = map (\<lambda>ix. h (perm ix r)) p, so_metrics = data\<rparr>"
    unfolding postprocess_batch_func_def using data rest by (simp add: comp_def)
  then show "\<exists>out. forward_rank score (Some f) fo dynamic w ?d p = Inr out \<and> so_losses out = map (\<lambda>ix. h (perm ix r)) p"
    using steps by (simp add: forward_rank_def)
qed

lemma map_r_zip_total: "length xs = length ys \<Longrightarrow> (\<And>x y. (x, y) \<in> set (zip xs ys) \<Longrightarrow> f (x, y) = Inr (g x y)) \<Longrightarrow>
    map_r f (zip xs ys) = Inr (map2 g xs ys)"
  using map_r_total [of "zip xs ys" f "\<lambda>(x, y). g x y"] by auto

lemma rank_parts_reorder:
  assumes "reorders (concat rs) n" "list_all2 (\<lambda>r p. reorders (concat p) (length r)) rs parts"
  shows "reorders (concat (concat (map2 (\<lambda>r p. map (\<lambda>ix. perm ix r) p) rs parts))) n"
proof -
  have one: "mset (concat (map (\<lambda>ix. perm ix r) p)) = mset r" if "reorders (concat p) (length r)" for r :: "nat list" and p
  proof -
    have "concat (map (\<lambda>ix. perm ix r) p) = perm (concat p) r" by (simp add: perm_def map_concat comp_def)
    then show ?thesis using mset_perm [OF that] by simp
  qed
  have "mset (concat (concat (map2 (\<lambda>r p. map (\<lambda>ix. perm ix r) p) rs parts))) = mset (concat rs)"
    using assms(2) by (induction rule: list_all2_induct) (simp_all add: one)
  then show ?thesis using assms(1) by (simp add: reorders_def)
qed

lemma run_at_weights:
  fixes score :: "'w \<Rightarrow> int list \<Rightarrow> vec \<times> vec" and d :: "'e loss_td" and perms topk peers bypass
  assumes ready: "step_ready n P R lcfg score d w" and rs: "reorders (concat rs) n" "rs \<noteq> []" "0 < n"
    and parts: "batch_parts cfg (map (\<lambda>r. index_select_td r d) rs) = Inr parts"
  defines "f \<equiv> worker_ppo_loss (policy_losses perms topk peers bypass) lcfg"
  shows "\<exists>outs. forward_backward_batch score (Some f) fo cfg w (map (\<lambda>r. index_select_td r d) rs) = Inr outs \<and>
      average_losses (map so_losses outs) = whole_loss score f d w"
    "objective score f cfg (map (\<lambda>r. index_select_td r d) rs) w = whole_loss score f d w"
proof -
  let ?d1 = "d\<lparr>lt_num_tokens := Some (total_tokens d)\<rparr>" and ?k = "length rs"
  let ?dk = "d\<lparr>lt_num_tokens := Some (total_tokens d), lt_dp_size := ?k\<rparr>"
  obtain g where g: "additive n g" "\<And>ix k. ix \<noteq> [] \<Longrightarrow> \<forall>i \<in> set ix. i < n \<Longrightarrow>
      \<exists>ms. f (perm ix (scores_of_rows score w d)) (pick_rows ix (Some (entropies_of_rows score w d)))
        (index_select_td ix (d\<lparr>lt_num_tokens := Some (total_tokens d), lt_dp_size := k\<rparr>)) = Inr (Some (g ix * real k), ms) \<and> uniform_report ppo_aggregation ms"
    using worker_part [OF ready [unfolded step_ready_def], of perms topk peers bypass] unfolding f_def by blast
  have rows: "td_rows n ?d1" using ready by (simp add: step_ready_def ppo_ready_def)
  then have len: "length (pt_input_ids d) = n" "length (nt_loss_mask d) = n" by (simp_all add: td_rows_def)
  have range: "\<forall>i \<in> set r. i < n" if "r \<in> set rs" for r using that reorders_facts(2) [OF rs(1)] by auto
  have "list_all2 (\<lambda>d p. reorders (concat p) (length (pt_input_ids d)) \<and> (\<forall>ix \<in> set p. ix \<noteq> []) \<and>
      (\<not> en_dynamic cfg \<longrightarrow> concat p = [0..<length (pt_input_ids d)])) (map (\<lambda>r. index_select_td r d) rs) parts"
    by (rule batch_parts_ok [OF parts])
  then have ok: "list_all2 (\<lambda>r p. reorders (concat p) (length r) \<and> (\<forall>ix \<in> set p. ix \<noteq> []) \<and>
      (\<not> en_dynamic cfg \<longrightarrow> concat p = [0..<length r])) rs parts"
    by (simp add: list_all2_map1 index_select_ids)
  then have lens: "length rs = length parts" by (rule list_all2_lengthD)
  have counts: "with_global_counts (map (\<lambda>r. index_select_td r d) rs) = map (\<lambda>r. index_select_td r ?dk) rs"
    by (rule global_counts_ranks [OF rs(1) len(2)])
  have zip: "zip (map (\<lambda>r. index_select_td r ?dk) rs) parts = map (\<lambda>(r, p). (index_select_td r ?dk, p)) (zip rs parts)"
    by (simp add: zip_map1)
  have fk: "\<exists>ms. f (perm ix (scores_of_rows score w d)) (pick_rows ix (Some (entropies_of_rows score w d)))
        (index_select_td ix ?dk) = Inr (Some (g ix * real ?k), ms) \<and> uniform_report ppo_aggregation ms"
    if "ix \<noteq> []" "\<forall>i \<in> set ix. i < n" for ix using g(2) [OF that] .
  have each: "(\<exists>out. forward_rank score (Some f) fo (en_dynamic cfg) w (index_select_td r ?dk) p = Inr out \<and>
        so_losses out = map (\<lambda>ix. Some (g (perm ix r) * real ?k)) p) \<and>
      rank_losses score f w (index_select_td r ?dk) p = Inr (map (\<lambda>ix. Some (g (perm ix r) * real ?k)) p)"
    if "(r, p) \<in> set (zip rs parts)" for r p
  proof -
    have r: "\<forall>i \<in> set r. i < n" using range set_zip_leftD [OF that] by blast
    have p: "reorders (concat p) (length r)" "\<forall>ix \<in> set p. ix \<noteq> []" "\<not> en_dynamic cfg \<longrightarrow> concat p = [0..<length r]"
      using ok that by (auto simp: list_all2_iff)
    show ?thesis using rank_run [where h = "\<lambda>ix. Some (g ix * real ?k)" and f = f and score = score and w = w and A = ppo_aggregation, OF r len(1) p fk]
      by blast
  qed
  let ?losses = "map2 (\<lambda>r p. map (\<lambda>ix. Some (g (perm ix r) * real ?k)) p) rs parts"
  let ?jx = "map2 (\<lambda>r p. map (\<lambda>ix. perm ix r) p) rs parts"
  have avg: "average_losses ?losses = Some (g [0..<n])"
  proof -
    have "reorders (concat (concat ?jx)) n" by (rule rank_parts_reorder [OF rs(1)]) (rule list_all2_mono [OF ok], blast)
    moreover have "?jx \<noteq> []" using rs(2) lens by (cases rs; cases parts) simp_all
    ultimately have "average_losses (map (map (\<lambda>ix. Some (g ix * real (length ?jx)))) ?jx) = Some (g [0..<n])"
      by (rule average_of_parts [OF g(1)])
    moreover have "length ?jx = ?k" using lens by simp
    ultimately show ?thesis by (simp add: case_prod_unfold comp_def)
  qed
  have whole: "whole_loss score f d w = Some (g [0..<n])"
  proof -
    have "td_rows n (d\<lparr>lt_num_tokens := Some (total_tokens d), lt_dp_size := 1\<rparr>)" using rows by (simp add: td_rows_def)
    note all = index_select_all [OF this]
    have "[0..<n] \<noteq> []" "\<forall>i \<in> set [0..<n]. i < n" using rs(3) by simp_all
    from g(2) [OF this, of 1] obtain ms where "f (scores_of_rows score w d) (Some (entropies_of_rows score w d))
        (d\<lparr>lt_num_tokens := Some (total_tokens d), lt_dp_size := 1\<rparr>) = Inr (Some (g [0..<n]), ms)"
      unfolding all using len by (auto simp: perm_all scores_of_rows_def entropies_of_rows_def)
    then show ?thesis by (simp add: whole_loss_def)
  qed
  obtain out where out: "\<And>r p. (r, p) \<in> set (zip rs parts) \<Longrightarrow> forward_rank score (Some f) fo (en_dynamic cfg) w (index_select_td r ?dk) p = Inr (out r p) \<and>
      so_losses (out r p) = map (\<lambda>ix. Some (g (perm ix r) * real ?k)) p"
    using each by metis
  have "forward_backward_batch score (Some f) fo cfg w (map (\<lambda>r. index_select_td r d) rs) = Inr (map2 out rs parts)"
    unfolding forward_backward_batch_def parts bind_r_simps counts zip map_r_map
    by (rule map_r_zip_total [OF lens]) (simp add: out)
  moreover have "map so_losses (map2 out rs parts) = ?losses" using out by auto
  then have "average_losses (map so_losses (map2 out rs parts)) = whole_loss score f d w" unfolding whole by (simp only: avg)
  ultimately show "\<exists>outs. forward_backward_batch score (Some f) fo cfg w (map (\<lambda>r. index_select_td r d) rs) = Inr outs \<and>
      average_losses (map so_losses outs) = whole_loss score f d w" by blast
  have "map_r (\<lambda>(d, p). rank_losses score f w d p) (zip (map (\<lambda>r. index_select_td r ?dk) rs) parts) = Inr ?losses"
    unfolding zip map_r_map by (rule map_r_zip_total [OF lens]) (simp add: each)
  then show "objective score f cfg (map (\<lambda>r. index_select_td r d) rs) w = whole_loss score f d w"
    by (simp add: objective_def parts counts avg whole)
qed

lemma train_step_whole:
  fixes perms topk peers bypass
  assumes ready: "\<And>w. step_ready n P R lcfg score d w" and rs: "reorders (concat rs) n" "rs \<noteq> []" "0 < n"
    and parts: "batch_parts cfg (map (\<lambda>r. index_select_td r d) rs) = Inr parts"
  defines "f \<equiv> worker_ppo_loss (policy_losses perms topk peers bypass) lcfg"
  shows "\<exists>ms. train_batch env score f cfg upd s (map (\<lambda>r. index_select_td r d) rs) =
      Inr ((if upd then fst \<circ> oe_lr_step env else id) (fst (optimizer_step env (whole_loss score f d) s)), ms) \<and>
    map_of ms ''loss'' = Some (One (whole_loss score f d (oe_weights env s)))"
proof -
  let ?ds = "map (\<lambda>r. index_select_td r d) rs"
  obtain outs where outs: "forward_backward_batch score (Some f) False cfg (oe_weights env s) ?ds = Inr outs"
    "average_losses (map so_losses outs) = whole_loss score f d (oe_weights env s)"
    using run_at_weights(1) [OF ready rs parts] unfolding f_def by blast
  have obj: "objective score f cfg ?ds = whole_loss score f d"
    using run_at_weights(2) [OF ready rs parts] unfolding f_def by (rule ext)
  obtain s1 gn where st: "optimizer_step env (whole_loss score f d) s = (s1, gn)" by (cases "optimizer_step env (whole_loss score f d) s")
  have eng: "train_batch_engine env score f cfg s ?ds = Inr (s1, outs, gn)"
    by (simp add: train_batch_engine_def outs obj st)
  obtain s2 lr where lr: "oe_lr_step env s1 = (s2, lr)" by (cases "oe_lr_step env s1")
  have loss: "map_of (postprocess_output outs (Some gn) l) ''loss'' = Some (One (whole_loss score f d (oe_weights env s)))" for l
    by (cases l) (simp_all add: postprocess_output_def Let_def outs(2))
  show ?thesis by (cases upd) (simp_all add: train_batch_def eng st lr loss)
qed

text \<open>C3 A training step over any number of ranks and micro-batches takes the optimiser where a step on the loss of the whole
  batch in one piece takes it, and reports that loss: the objective whose gradient the ranks accumulate is, at
  every weight, the loss of the whole batch. The policy loss is one of the seven in \<open>split_names\<close>; gradient, clipping and optimiser are parameters.\<close>

theorem train_step_on_whole_batch:
  fixes perms topk peers bypass
  assumes ready: "\<And>w. step_ready n P R lcfg score d w" and rs: "reorders (concat rs) n" "rs \<noteq> []" "0 < n"
    and parts: "batch_parts cfg (map (\<lambda>r. index_select_td r d) rs) = Inr parts"
  defines "f \<equiv> worker_ppo_loss (policy_losses perms topk peers bypass) lcfg"
  shows "\<exists>ms. train_batch env score f cfg upd s (map (\<lambda>r. index_select_td r d) rs) =
      Inr ((if upd then fst \<circ> oe_lr_step env else id) (fst (optimizer_step env (whole_loss score f d) s)), ms) \<and>
    map_of ms ''loss'' = Some (One (whole_loss score f d (oe_weights env s)))"
  using train_step_whole [OF ready rs parts] unfolding f_def .

section \<open>The steps of an update\<close>

text \<open>A mini-batch and the rows that each rank has of it.\<close>

definition step_planned :: "nat \<Rightarrow> nat \<Rightarrow> nat \<Rightarrow> loss_config \<Rightarrow> ('w \<Rightarrow> int list \<Rightarrow> vec \<times> vec) \<Rightarrow> engine_config \<Rightarrow> 'e loss_td \<times> nat list list \<Rightarrow> bool" where
  "step_planned n P R lcfg score cfg = (\<lambda>(d, rs). (\<forall>w. step_ready n P R lcfg score d w) \<and> reorders (concat rs) n \<and> rs \<noteq> [] \<and>
     \<not> isl (batch_parts cfg (map (\<lambda>r. index_select_td r d) rs)))"

definition on_ranks :: "'e loss_td \<times> nat list list \<Rightarrow> 'e loss_td list" where
  "on_ranks = (\<lambda>(d, rs). map (\<lambda>r. index_select_td r d) rs)"

definition sequential_steps :: "('s, 'w, 'g) optimizer_env \<Rightarrow> ('w \<Rightarrow> int list \<Rightarrow> vec \<times> vec) \<Rightarrow> 'e loss_fn \<Rightarrow> 'e loss_td list \<Rightarrow> 's \<Rightarrow> 's" where
  "sequential_steps env score f ds s = fold (\<lambda>d s. fst (optimizer_step env (whole_loss score f d) s)) ds s"

lemma train_steps_sequential:
  fixes perms topk peers bypass
  assumes "\<forall>x \<in> set plan. step_planned n P R lcfg score cfg x" "0 < n" "plan \<noteq> []" "last_idx = idx + length plan"
  defines "f \<equiv> worker_ppo_loss (policy_losses perms topk peers bypass) lcfg"
  shows "\<exists>outs. train_steps env score f cfg last_idx idx s (map on_ranks plan) =
    Inr (fst (oe_lr_step env (sequential_steps env score f (map fst plan) s)), outs) \<and> length outs = length plan"
  using assms(1,3,4)
proof (induction plan arbitrary: idx s)
  case (Cons x plan)
  obtain d rs where x: "x = (d, rs)" by (cases x)
  obtain parts where ready: "\<And>w. step_ready n P R lcfg score d w" and rs: "reorders (concat rs) n" "rs \<noteq> []"
    and parts: "batch_parts cfg (map (\<lambda>r. index_select_td r d) rs) = Inr parts"
  proof -
    have "step_planned n P R lcfg score cfg (d, rs)" using Cons.prems(1) by (simp add: x)
    then show thesis using that by (cases "batch_parts cfg (map (\<lambda>r. index_select_td r d) rs)") (auto simp: step_planned_def)
  qed
  let ?s1 = "fst (optimizer_step env (whole_loss score f d) s)" and ?upd = "idx + 1 = last_idx"
  obtain ms where ms: "train_batch env score f cfg ?upd s (on_ranks x) = Inr ((if ?upd then fst \<circ> oe_lr_step env else id) ?s1, ms)"
    using train_step_whole [where env = env and upd = ?upd and s = s, OF ready rs assms(2) parts, of perms topk peers bypass]
    unfolding f_def on_ranks_def x prod.case by blast
  have seq: "sequential_steps env score f (map fst (x # plan)) s = sequential_steps env score f (map fst plan) ?s1"
    by (simp add: sequential_steps_def x)
  show ?case
  proof (cases plan)
    case Nil
    then show ?thesis using ms Cons.prems(3) seq by (simp add: sequential_steps_def)
  next
    case (Cons y ys)
    have "\<exists>outs. train_steps env score f cfg last_idx (idx + 1) ?s1 (map on_ranks plan) =
        Inr (fst (oe_lr_step env (sequential_steps env score f (map fst plan) ?s1)), outs) \<and> length outs = length plan"
      using Cons.prems Cons by (intro Cons.IH) simp_all
    moreover have "\<not> ?upd" using Cons.prems(3) Cons by simp
    ultimately show ?thesis using ms seq by auto
  qed
qed simp

text \<open>C8 An update of several mini-batches on many ranks is one optimiser step per mini-batch, in their order, each on the loss
  of the whole mini-batch; the learning rate moves once, after the last. The policy loss is one of the seven in \<open>split_names\<close>.\<close>

theorem update_is_sequential:
  fixes perms topk peers bypass
  assumes "\<forall>x \<in> set plan. step_planned n P R lcfg score cfg x" "0 < n" "plan \<noteq> []"
  defines "f \<equiv> worker_ppo_loss (policy_losses perms topk peers bypass) lcfg"
  shows "\<exists>outs. train_steps env score f cfg (length plan) 0 s (map on_ranks plan) =
    Inr (fst (oe_lr_step env (sequential_steps env score f (map fst plan) s)), outs) \<and> length outs = length plan"
  using train_steps_sequential [where perms = perms and topk = topk and peers = peers and bypass = bypass and idx = 0 and env = env and s = s, OF assms(1-3)] unfolding f_def by simp

text \<open>The mini-batches of an epoch hold every row of a rank exactly once.\<close>

lemma concat_take_drop: "concat (map (\<lambda>j. take k (drop (j * k) xs)) [0..<c]) = take (c * k) xs"
proof (induction c)
  case (Suc c)
  have "take (c * k) xs @ take k (drop (c * k) xs) = take (c * k + k) xs" by (simp add: take_add)
  with Suc show ?case by (simp add: add.commute)
qed simp

theorem iterator_covers_rows:
  assumes "make_td_iterator order n mini epochs seed = Inr its" "\<And>e. reorders (order seed e n) n"
  shows "mset (concat its) = repeat_mset epochs (mset [0..<n]) \<and> length its = epochs * (n div mini) \<and> (\<forall>ix \<in> set its. length ix = mini)"
proof -
  have ok: "mini \<noteq> 0" "n mod mini = 0"
    and its: "its = concat (map (\<lambda>epoch. map (\<lambda>j. take mini (drop (j * mini) (order seed epoch n))) [0..<n div mini]) [0..<epochs])"
    using assms(1) by (auto simp: make_td_iterator_def require_Inr)
  have len: "length (order seed e n) = n" for e using reorders_facts(1) [OF assms(2)] .
  have n: "n div mini * mini = n" using ok(2) by auto
  have ep: "mset (concat (map (\<lambda>j. take mini (drop (j * mini) (order seed e n))) [0..<n div mini])) = mset [0..<n]" for e
    unfolding concat_take_drop n using assms(2) len by (simp add: reorders_def)
  have "mset (concat (concat (map (\<lambda>epoch. map (\<lambda>j. take mini (drop (j * mini) (order seed epoch n))) [0..<n div mini]) [0..<e]))) =
      repeat_mset e (mset [0..<n])" for e
  proof (induction e)
    case (Suc e)
    then show ?case using ep [of e] by (simp add: add.commute)
  qed simp
  then have "mset (concat its) = repeat_mset epochs (mset [0..<n])" unfolding its .
  moreover have "length its = epochs * (n div mini)" unfolding its by (induction epochs) simp_all
  moreover have "length ix = mini" if "ix \<in> set its" for ix
  proof -
    from that obtain e j where "j < n div mini" "ix = take mini (drop (j * mini) (order seed e n))" unfolding its by auto
    moreover from this(1) have "(j + 1) * mini \<le> n" using n by (metis Suc_eq_plus1 Suc_leI mult_le_mono1)
    ultimately show ?thesis using len by simp
  qed
  ultimately show ?thesis by blast
qed

section \<open>Examples\<close>

definition constant_score :: "real \<Rightarrow> int list \<Rightarrow> vec \<times> vec" where
  "constant_score w row = (map (\<lambda>_. w) row, map (\<lambda>_. 1) row)"

definition value_descent :: "(real, real, real) optimizer_env" where
  "value_descent = \<lparr>oe_weights = (\<lambda>s. s), oe_gradient = (\<lambda>obj w. case obj w of None \<Rightarrow> 0 | Some x \<Rightarrow> x),
     oe_clip = (\<lambda>g. (min g 1, Some g)), oe_apply = (\<lambda>s g. s - g), oe_lr_step = (\<lambda>s. (s, 1/10))\<rparr>"

definition one_row_batches :: engine_config where
  "one_row_batches = \<lparr>en_dynamic = False, en_max_token_len = 0, en_micro_batch_size = 1, en_sp_size = 1, en_group_size = 1\<rparr>"

lemma two_samples_step_ready: "step_ready 2 1 1 plain_loss constant_score two_samples_td w"
  by (simp add: step_ready_def ppo_ready_def scores_of_rows_def entropies_of_rows_def constant_score_def total_tokens_def
      two_samples_td_def plain_loss_def td_rows_def scored_def opt_rows_def prompt_count_def response_count_def
      count_ones_def less_Suc_eq numeral_2_eq_2 loss_name_def split_names_def known_mode_def plain_actor_def get_or_def usable_counts_def
      kl_penalty_def kl_penalty_forward_def ends_plus_def)

lemma two_samples_parts: "batch_parts one_row_batches (map (\<lambda>r. index_select_td r two_samples_td) [[1], [0]]) = Inr [[[0]], [[0]]]"
  by (simp add: batch_parts_def group_micro_batches_def one_row_batches_def prepare_micro_batches_def chunk_indices_def row_lens_def
      index_select_td_def two_samples_td_def perm_def Let_def)

lemma two_samples_reorder: "reorders (concat [[1], [0]]) 2"
  by (simp add: reorders_def numeral_2_eq_2 add.commute)

lemma train_step_witness:
  "\<exists>ms. train_batch value_descent constant_score (worker_ppo_loss (policy_losses (\<lambda>n. [0..<n]) (\<lambda>k xs. [0..<k]) None no_bypass) plain_loss) one_row_batches True 0
        (map (\<lambda>r. index_select_td r two_samples_td) [[1], [0]]) =
      Inr ((if True then fst \<circ> oe_lr_step value_descent else id) (fst (optimizer_step value_descent
        (whole_loss constant_score (worker_ppo_loss (policy_losses (\<lambda>n. [0..<n]) (\<lambda>k xs. [0..<k]) None no_bypass) plain_loss) two_samples_td) 0)), ms) \<and>
    map_of ms ''loss'' = Some (One (whole_loss constant_score (worker_ppo_loss (policy_losses (\<lambda>n. [0..<n]) (\<lambda>k xs. [0..<k]) None no_bypass) plain_loss)
        two_samples_td (oe_weights value_descent 0)))"
  by (rule train_step_on_whole_batch [OF two_samples_step_ready two_samples_reorder _ _ two_samples_parts]) simp_all

definition two_steps :: "(unit loss_td \<times> nat list list) list" where
  "two_steps = [(two_samples_td, [[1], [0]]), (two_samples_td, [[0], [1]])]"

lemma update_witness:
  "\<exists>outs. train_steps value_descent constant_score (worker_ppo_loss (policy_losses (\<lambda>n. [0..<n]) (\<lambda>k xs. [0..<k]) None no_bypass) plain_loss) one_row_batches
      (length two_steps) 0 0 (map on_ranks two_steps) =
    Inr (fst (oe_lr_step value_descent (sequential_steps value_descent constant_score
        (worker_ppo_loss (policy_losses (\<lambda>n. [0..<n]) (\<lambda>k xs. [0..<k]) None no_bypass) plain_loss) (map fst two_steps) 0)), outs) \<and>
    length outs = length two_steps"
proof -
  have "batch_parts one_row_batches (map (\<lambda>r. index_select_td r two_samples_td) [[0], [1]]) = Inr [[[0]], [[0]]]"
    by (simp add: batch_parts_def group_micro_batches_def one_row_batches_def prepare_micro_batches_def chunk_indices_def row_lens_def
        index_select_td_def two_samples_td_def perm_def Let_def)
  moreover have "reorders (concat [[0], [1]]) 2" by (simp add: reorders_def numeral_2_eq_2)
  ultimately have plan: "\<forall>x \<in> set two_steps. step_planned 2 1 1 plain_loss constant_score one_row_batches x"
    using two_samples_reorder two_samples_parts allI [of "step_ready 2 1 1 plain_loss constant_score two_samples_td", OF two_samples_step_ready]
    by (simp add: two_steps_def step_planned_def)
  show ?thesis by (rule update_is_sequential [OF plan]) (simp_all add: two_steps_def)
qed

text \<open>Two rows in two micro-batches whose outputs are put back in order.\<close>

lemma inference_witness:
  "map so_log_probs [\<lparr>so_log_probs = [[3, 3], [3, 3]], so_entropies = [[1, 1], [1, 1]], so_losses = [Some 1, Some 1], so_metrics = []\<rparr>] =
      map (\<lambda>d. map (\<lambda>row. fst (constant_score 3 row)) (pt_input_ids d)) [two_samples_td] \<and>
    map so_entropies [\<lparr>so_log_probs = [[3, 3], [3, 3]], so_entropies = [[1, 1], [1, 1]], so_losses = [Some 1, Some 1], so_metrics = []\<rparr>] =
      map (\<lambda>d. map (\<lambda>row. snd (constant_score 3 row)) (pt_input_ids d)) [two_samples_td]"
proof (rule inference_keeps_order)
  have r: "[0..<2] = [0, 1 :: nat]" by (simp add: numeral_2_eq_2)
  have p: "batch_parts one_row_batches [two_samples_td] = Inr [[[0], [1]]]"
    by (simp add: batch_parts_def group_micro_batches_def one_row_batches_def prepare_micro_batches_def chunk_indices_def row_lens_def
        two_samples_td_def Let_def r numeral_2_eq_2)
  show "infer_batch constant_score None one_row_batches 3 [two_samples_td] =
      Inr [\<lparr>so_log_probs = [[3, 3], [3, 3]], so_entropies = [[1, 1], [1, 1]], so_losses = [Some 1, Some 1], so_metrics = []\<rparr>]"
    unfolding infer_batch_def forward_backward_batch_def p bind_r_simps
    by (simp add: with_global_counts_def forward_rank_def forward_step_def index_select_td_def perm_def
        two_samples_td_def constant_score_def postprocess_batch_func_def restore_rows_def one_row_batches_def collect_step_metrics_def append_to_dict_def)
qed

end
