(* ===== verification/PyKeys.thy ===== *)
theory PyKeys
  imports PyText
begin

text \<open>
  Decimal texts of numbers and the keys that the trainer with a transfer queue builds from them: the key of an output
  is \<open>{uid}_{session_id}_{index}\<close>, and \<open>rsplit\<close> with \<open>int\<close> read it back.
\<close>

section \<open>Decimal texts\<close>

definition digit :: "nat \<Rightarrow> char" where
  "digit n = char_of (48 + n)"

fun str_nat :: "nat \<Rightarrow> string" where
  "str_nat n = (if n < 10 then [digit n] else str_nat (n div 10) @ [digit (n mod 10)])"

declare str_nat.simps [simp del]

definition digit_number :: "char \<Rightarrow> int" where
  "digit_number c = int (of_char c) - 48"

definition digits_value :: "string \<Rightarrow> int" where
  "digits_value s = foldl (\<lambda>a c. 10 * a + digit_number c) 0 s"

text \<open>\<open>int\<close> of a text without underscores.\<close>

definition int_of :: "string \<Rightarrow> int result" where
  "int_of text =
     (let s = py_strip text;
          (sign, ds) = (case s of [] \<Rightarrow> (1, []) | c # r \<Rightarrow> if c = CHR ''-'' then (-1, r) else if c = CHR ''+'' then (1, r) else (1, s))
      in require (ds \<noteq> [] \<and> list_all is_digit ds) ValueError (Inr (sign * digits_value ds)))"

lemma digit_facts:
  assumes "n < 10"
  shows "is_digit (digit n)" "digit_number (digit n) = int n" "digit n \<noteq> CHR ''_''" "\<not> is_space (digit n)" "digit n \<noteq> CHR ''-''" "digit n \<noteq> CHR ''+''"
proof -
  have code: "of_char (digit n) = 48 + n" using assms by (simp add: digit_def)
  then have ne: "digit n \<noteq> c" if "of_char c \<noteq> 48 + n" for c using that by auto
  show "is_digit (digit n)" "\<not> is_space (digit n)" using assms by (auto simp: is_digit_def is_space_def code)
  show "digit_number (digit n) = int n" by (simp add: digit_number_def code)
  show "digit n \<noteq> CHR ''_''" "digit n \<noteq> CHR ''-''" "digit n \<noteq> CHR ''+''" by (rule ne, use assms in simp)+
qed

lemma str_nat_digits: "\<forall>c \<in> set (str_nat n). \<exists>d < 10. c = digit d"
proof (induction n rule: str_nat.induct)
  case (1 n)
  have "\<exists>d < 10. digit (n mod 10) = digit d" by (rule exI [of _ "n mod 10"]) simp
  then show ?case using 1 by (cases "n < 10") (auto simp: str_nat.simps [of n])
qed

lemma str_nat_not_nil [simp]: "str_nat n \<noteq> []"
  by (subst str_nat.simps) simp

lemma str_nat_no_underscore: "CHR ''_'' \<notin> set (str_nat n)"
  using str_nat_digits digit_facts(3) by metis

lemma digits_value_snoc: "digits_value (s @ [c]) = 10 * digits_value s + digit_number c"
  by (simp add: digits_value_def)

lemma digits_value_str: "digits_value (str_nat n) = int n"
proof (induction n rule: str_nat.induct)
  case (1 n)
  show ?case
  proof (cases "n < 10")
    case True
    then show ?thesis by (simp add: str_nat.simps [of n] digits_value_def digit_facts)
  next
    case False
    have "10 * int (n div 10) + int (n mod 10) = int n" by presburger
    then show ?thesis using False 1 by (simp add: str_nat.simps [of n] digits_value_snoc digit_facts)
  qed
qed

lemma py_strip_none: "\<forall>c \<in> set s. \<not> is_space c \<Longrightarrow> py_strip s = s"
proof -
  assume s: "\<forall>c \<in> set s. \<not> is_space c"
  have id: "dropWhile is_space t = t" if "\<forall>c \<in> set t. \<not> is_space c" for t
    using that by (cases t) simp_all
  show "py_strip s = s" using id [of s] id [of "rev s"] s by (simp add: py_strip_def)
qed

lemma int_of_str [simp]: "int_of (str_nat n) = Inr (int n)"
proof -
  have ds: "is_digit c \<and> \<not> is_space c \<and> c \<noteq> CHR ''-'' \<and> c \<noteq> CHR ''+''" if "c \<in> set (str_nat n)" for c
  proof -
    from that str_nat_digits [of n] obtain d where "d < 10" "c = digit d" by blast
    then show ?thesis using digit_facts [of d] by simp
  qed
  then have strip: "py_strip (str_nat n) = str_nat n" by (intro py_strip_none) blast
  obtain c r where cr: "str_nat n = c # r" by (cases "str_nat n") simp_all
  then have "c \<noteq> CHR ''-''" "c \<noteq> CHR ''+''" "\<forall>x \<in> set (c # r). is_digit x" using ds [of c] ds by simp_all
  then show ?thesis using digits_value_str [of n] using strip unfolding int_of_def cr by (simp add: list_all_iff)
qed

lemma str_nat_inj [simp]: "str_nat m = str_nat n \<longleftrightarrow> m = n"
  by (metis digits_value_str of_nat_eq_iff)

section \<open>Splitting from the right\<close>

definition after_last :: "char \<Rightarrow> string \<Rightarrow> string" where
  "after_last c s = rev (takeWhile (\<lambda>x. x \<noteq> c) (rev s))"

definition before_last :: "char \<Rightarrow> string \<Rightarrow> string" where
  "before_last c s = rev (tl (dropWhile (\<lambda>x. x \<noteq> c) (rev s)))"

fun rsplit :: "char \<Rightarrow> nat \<Rightarrow> string \<Rightarrow> string list" where
  "rsplit c 0 s = [s]"
| "rsplit c (Suc k) s = (if c \<in> set s then rsplit c k (before_last c s) @ [after_last c s] else [s])"

lemma split_last:
  assumes "c \<notin> set t"
  shows "after_last c (s @ c # t) = t" "before_last c (s @ c # t) = s"
proof -
  have rev: "rev (s @ c # t) = rev t @ c # rev s" by simp
  show "after_last c (s @ c # t) = t" using assms unfolding after_last_def rev by (subst takeWhile_append2) auto
  show "before_last c (s @ c # t) = s" using assms unfolding before_last_def rev by (subst dropWhile_append2) auto
qed

section \<open>Keys\<close>

definition output_key :: "string \<Rightarrow> nat \<Rightarrow> nat \<Rightarrow> string" where
  "output_key uid session_id index = uid @ ''_'' @ str_nat session_id @ ''_'' @ str_nat index"

definition session_key :: "string \<Rightarrow> nat \<Rightarrow> string" where
  "session_key uid session_id = uid @ ''_'' @ str_nat session_id"

lemma rsplit_output_key: "rsplit (CHR ''_'') 2 (output_key uid s i) = [uid, str_nat s, str_nat i]"
proof -
  let ?u = "CHR ''_''"
  have key: "output_key uid s i = (uid @ ?u # str_nat s) @ ?u # str_nat i" by (simp add: output_key_def)
  show ?thesis unfolding key numeral_2_eq_2
    using split_last [OF str_nat_no_underscore [of i], of "uid @ ?u # str_nat s"] split_last [OF str_nat_no_underscore [of s], of uid] by simp
qed

lemma output_key_inj [simp]: "output_key u s i = output_key u' s' i' \<longleftrightarrow> u = u' \<and> s = s' \<and> i = i'"
proof
  assume "output_key u s i = output_key u' s' i'"
  then have "[u, str_nat s, str_nat i] = [u', str_nat s', str_nat i']" by (metis rsplit_output_key)
  then show "u = u' \<and> s = s' \<and> i = i'" by simp
qed simp

lemma output_key_underscore: "CHR ''_'' \<in> set (output_key u s i)"
  by (simp add: output_key_def)

lemma output_key_not_uid: "CHR ''_'' \<notin> set u' \<Longrightarrow> output_key u s i \<noteq> u'"
  using output_key_underscore by blast

lemma session_key_inj [simp]: "session_key u s = session_key u' s' \<longleftrightarrow> u = u' \<and> s = s'"
proof
  assume "session_key u s = session_key u' s'"
  then have "output_key u s 0 = output_key u' s' 0" by (simp add: session_key_def output_key_def)
  then show "u = u' \<and> s = s'" by simp
qed simp

end
