(* ===== verification/ReplayBuffer.thy ===== *)
theory ReplayBuffer
  imports PyKeys
begin

text \<open>
  The replay buffer between the agent loops and the synchronous trainer (\<^verbatim>\<open>verl/trainer/main_ppo_sync.py\<close>). Agent
  loops put their outputs into the transfer queue under keys \<open>{uid}_{session_id}_{index}\<close> with tags; a thread of the
  buffer polls the tags of the queue and merges them into the buffer; the trainer registers the prompts of a step,
  waits until none of them is running, takes the batch and clears its keys. Poll thread, workers and trainer are
  actions on one state, so that a run is a list of actions in any order: each put is an action of its own, the poll is
  one action for the listing and one for each partition that it merges under the lock. The queue itself is outside:
  \<open>kv_ops\<close> are its operations, the locale \<open>kv_store\<close> their documented behaviour.
\<close>

section \<open>The buffer\<close>

datatype tag_value = Tag_int int | Tag_text string | Tag_bool bool

type_synonym tag = "(string, tag_value) dict"

record replay_buffer =
  rb_partitions :: "(string, (string, tag) dict) dict"

text \<open>\<open>partitions\<close> is a \<open>defaultdict\<close>.\<close>

definition rb_partition :: "string \<Rightarrow> replay_buffer \<Rightarrow> (string, tag) dict" where
  "rb_partition p rb = (case map_of (rb_partitions rb) p of None \<Rightarrow> [] | Some part \<Rightarrow> part)"

definition merge_item :: "string \<times> tag \<Rightarrow> (string, tag) dict \<Rightarrow> (string, tag) dict" where
  "merge_item = (\<lambda>(key, tags) part. dict_set key (dict_update (case map_of part key of None \<Rightarrow> [] | Some old \<Rightarrow> old) tags) part)"

definition rb_add :: "string \<Rightarrow> (string, tag) dict \<Rightarrow> replay_buffer \<Rightarrow> replay_buffer" where
  "rb_add p items rb = rb\<lparr>rb_partitions := dict_set p (fold merge_item items (rb_partition p rb)) (rb_partitions rb)\<rparr>"

definition rb_remove :: "string \<Rightarrow> string list \<Rightarrow> replay_buffer \<Rightarrow> replay_buffer" where
  "rb_remove p keys rb = rb\<lparr>rb_partitions := dict_set p (fold dict_del keys (rb_partition p rb)) (rb_partitions rb)\<rparr>"

text \<open>One pass over the partition under the lock: None when a prompt of the step is still running.\<close>

fun scan_tags :: "int option \<Rightarrow> (string, tag) dict \<Rightarrow> (string \<times> tag) list option result" where
  "scan_tags g [] = Inr (Some [])"
| "scan_tags g ((key, tag) # rest) =
     bind_r (dict_item tag ''global_steps'') (\<lambda>step.
       if map_option Tag_int g = Some step
       then bind_r (dict_item tag ''status'') (\<lambda>status.
              if status = Tag_text ''running'' then Inr None
              else bind_r (scan_tags g rest) (\<lambda>r.
                Inr (map_option (\<lambda>found. if status = Tag_text ''success'' then (key, tag) # found else found) r)))
       else scan_tags g rest)"

record kv_batch =
  kb_partition :: string
  kb_keys :: "string list"
  kb_tags :: "tag list"

definition rb_sample_attempt :: "string \<Rightarrow> int option \<Rightarrow> int option \<Rightarrow> replay_buffer \<Rightarrow> kv_batch option result" where
  "rb_sample_attempt p global_steps batch_size rb =
     (let has_size = (batch_size \<noteq> None \<and> batch_size \<noteq> Some 0) in
      require ((global_steps \<noteq> None \<or> has_size) \<and> \<not> (global_steps \<noteq> None \<and> has_size)) AssertionError
       (bind_r (scan_tags global_steps (rb_partition p rb)) (\<lambda>r.
          Inr (map_option (\<lambda>found. \<lparr>kb_partition = p, kb_keys = map fst found, kb_tags = map snd found\<rparr>) r))))"

section \<open>The transfer queue\<close>

record 'q kv_ops =
  kv_put :: "string \<Rightarrow> string \<Rightarrow> tag \<Rightarrow> 'q \<Rightarrow> 'q"
  kv_clear :: "string \<Rightarrow> string list \<Rightarrow> 'q \<Rightarrow> 'q"
  kv_list :: "'q \<Rightarrow> (string, (string, tag) dict) dict option"

definition stored :: "'q kv_ops \<Rightarrow> 'q \<Rightarrow> string \<Rightarrow> string \<Rightarrow> tag option" where
  "stored K q p key = (case kv_list K q of
       None \<Rightarrow> None
     | Some d \<Rightarrow> (case map_of d p of None \<Rightarrow> None | Some items \<Rightarrow> map_of items key))"

locale kv_store =
  fixes K :: "'q kv_ops"
  assumes put_stored: "stored K q p key = None \<Longrightarrow>
      stored K (kv_put K p key tag q) p' key' = (if p' = p \<and> key' = key then Some tag else stored K q p' key')"
    and clear_stored: "stored K (kv_clear K p keys q) p' key' = (if p' = p \<and> key' \<in> set keys then None else stored K q p' key')"
    and list_distinct: "kv_list K q = Some d \<Longrightarrow> distinct (dict_keys d) \<and> (\<forall>(p, items) \<in> set d. distinct (dict_keys items))"
begin

lemma listed_stored:
  assumes "kv_list K q = Some d" "(p, items) \<in> set d"
  shows "map_of items key = stored K q p key" "distinct (dict_keys items)"
proof -
  have dist: "distinct (dict_keys d)" "distinct (dict_keys items)" using list_distinct [OF assms(1)] assms(2) by auto
  then show "distinct (dict_keys items)" by blast
  have "map_of d p = Some items" using dist(1) assms(2) by (simp add: dict_keys_def)
  then show "map_of items key = stored K q p key" by (simp add: stored_def assms(1))
qed

end

text \<open>A queue that keeps its tags in one list of entries.\<close>

definition list_store :: "((string \<times> string) \<times> tag) list kv_ops" where
  "list_store = \<lparr>kv_put = (\<lambda>p key tag q. dict_set (p, key) tag q),
     kv_clear = (\<lambda>p keys q. filter (\<lambda>((p', key), tag). \<not> (p' = p \<and> key \<in> set keys)) q),
     kv_list = (\<lambda>q. Some (map (\<lambda>p. (p, map (\<lambda>key. (key, the (map_of q (p, key))))
         (remdups (map (\<lambda>((p', key), tag). key) (filter (\<lambda>((p', key), tag). p' = p) q)))))
       (remdups (map (\<lambda>((p, key), tag). p) q))))\<rparr>"

lemma map_of_keyed: "map_of (map (\<lambda>x. (x, f x)) xs) x = (if x \<in> set xs then Some (f x) else None)"
  by (induction xs) auto

lemma stored_list_store: "stored list_store q p key = map_of q (p, key)"
proof -
  let ?ps = "map (\<lambda>((p, key), tag). p) q" and ?ks = "map (\<lambda>((p', key), tag). key) (filter (\<lambda>((p', key), tag). p' = p) q)"
  have eq: "stored list_store q p key =
      (if p \<in> set ?ps then if key \<in> set ?ks then Some (the (map_of q (p, key))) else None else None)"
    by (simp add: stored_def list_store_def map_of_keyed)
  show ?thesis
  proof (cases "map_of q (p, key)")
    case None
    then have "\<nexists>tag. ((p, key), tag) \<in> set q" by (force simp: map_of_eq_None_iff)
    then have "key \<notin> set ?ks" by auto
    then show ?thesis unfolding eq using None by simp
  next
    case (Some tag)
    have "((p, key), tag) \<in> set q" by (rule map_of_SomeD [OF Some])
    then have "p \<in> set ?ps" "key \<in> set ?ks" by force+
    then show ?thesis unfolding eq using Some by simp
  qed
qed

lemma map_of_filter_keys: "map_of (filter (\<lambda>(k, v). P k) d) k = (if P k then map_of d k else None)"
  by (induction d) auto

interpretation listed: kv_store list_store
proof unfold_locales
  fix q :: "((string \<times> string) \<times> tag) list" and p p' key key' keys tag d
  show "stored list_store (kv_put list_store p key tag q) p' key' = (if p' = p \<and> key' = key then Some tag else stored list_store q p' key')"
    by (simp add: stored_list_store) (simp add: list_store_def)
  have "kv_clear list_store p keys q = filter (\<lambda>(k, v). \<not> (fst k = p \<and> snd k \<in> set keys)) q"
    by (simp add: list_store_def case_prod_unfold)
  then show "stored list_store (kv_clear list_store p keys q) p' key' = (if p' = p \<and> key' \<in> set keys then None else stored list_store q p' key')"
    by (simp add: stored_list_store map_of_filter_keys)
  show "distinct (dict_keys d) \<and> (\<forall>(p, items) \<in> set d. distinct (dict_keys items))" if "kv_list list_store q = Some d"
    using that by (auto simp: list_store_def dict_keys_def comp_def)
qed

end
