(* ===== verification/SyncRollout.thy ===== *)
theory SyncRollout
  imports ReplayBuffer
begin

text \<open>
  The asynchronous rollout of \<^verbatim>\<open>main_ppo_sync.py\<close>: \<open>AgentLoopManagerTQ.generate_sequences\<close> registers the prompts of a
  step and starts their tasks, \<open>_run_prompt\<close> runs the sessions of a prompt and puts its final status,
  \<open>_agent_loop_postprocess\<close> puts the outputs of a session, the trainer samples, pads, clears and removes a batch, the
  poll thread copies. \<open>sy_puts\<close> (all puts so far), \<open>sy_gone\<close> (the cleared keys) and \<open>sy_pads\<close> (the padding uids) are
  history that no operation reads, except that uids are new.

  The trainer goes through its rounds one after the other: a round is dispatched when it holds no batch. \<open>fit\<close> of the source also validates while
  it still holds the batch of its step; that round is in the partition \<open>val\<close>, whose entries the held keys of \<open>train\<close> do not meet, and is modelled as a round
  before or after, not as one inside.
\<close>

section \<open>State and actions\<close>

text \<open>A session generates, stores its outputs (given by their prompt and response lengths) one by one, and returns or raises.\<close>

datatype session = Generating | Storing "(nat \<times> nat) list" nat | Returned "(nat \<times> nat) list" | Raised "(nat \<times> nat) list" nat

fun session_outputs :: "session \<Rightarrow> (nat \<times> nat) list" where
  "session_outputs Generating = []"
| "session_outputs (Storing outs k) = take k outs"
| "session_outputs (Returned outs) = outs"
| "session_outputs (Raised outs k) = take k outs"

fun has_returned :: "session \<Rightarrow> bool" where
  "has_returned (Returned outs) = True"
| "has_returned _ = False"

fun has_raised :: "session \<Rightarrow> bool" where
  "has_raised (Raised outs k) = True"
| "has_raised _ = False"

record prompt_task =
  pr_uid :: string
  pr_partition :: string
  pr_step :: int
  pr_sessions :: "session list"
  pr_ended :: "string option"

datatype trainer_pc = Idle | Waiting string int nat | Holding kv_batch | Clearing kv_batch | Crashed py_error

record 'q sync =
  sy_store :: 'q
  sy_buffer :: replay_buffer
  sy_poll :: "(string, (string, tag) dict) dict"
  sy_prompts :: "prompt_task list"
  sy_pc :: trainer_pc
  sy_puts :: "(string \<times> string \<times> tag) list"
  sy_gone :: "(string \<times> string) set"
  sy_pads :: "string set"

definition running_tag :: "int \<Rightarrow> tag" where
  "running_tag g = [(''global_steps'', Tag_int g), (''status'', Tag_text ''running'')]"

definition success_tag :: "int \<Rightarrow> nat \<times> nat \<Rightarrow> tag" where
  "success_tag g = (\<lambda>(prompt_len, response_len). [(''global_steps'', Tag_int g), (''status'', Tag_text ''success''),
     (''prompt_len'', Tag_int (int prompt_len)), (''response_len'', Tag_int (int response_len)),
     (''seq_len'', Tag_int (int (prompt_len + response_len)))])"

definition end_tag :: "string \<Rightarrow> tag" where
  "end_tag status = [(''status'', Tag_text status)]"

definition padding_tag :: "tag \<Rightarrow> tag" where
  "padding_tag source = dict_update source
     [(''is_padding'', Tag_bool True), (''prompt_len'', Tag_int 1), (''response_len'', Tag_int 1), (''seq_len'', Tag_int 2)]"

definition new_prompt :: "string \<Rightarrow> int \<Rightarrow> nat \<Rightarrow> string \<Rightarrow> prompt_task" where
  "new_prompt p g n uid = \<lparr>pr_uid = uid, pr_partition = p, pr_step = g, pr_sessions = replicate n Generating, pr_ended = None\<rparr>"

definition put_entry :: "'q kv_ops \<Rightarrow> string \<Rightarrow> string \<Rightarrow> tag \<Rightarrow> 'q sync \<Rightarrow> 'q sync" where
  "put_entry K p key tag S = S\<lparr>sy_store := kv_put K p key tag (sy_store S), sy_puts := sy_puts S @ [(p, key, tag)]\<rparr>"

definition set_session :: "nat \<Rightarrow> nat \<Rightarrow> session \<Rightarrow> 'q sync \<Rightarrow> 'q sync" where
  "set_session i s ses S =
     (let t = sy_prompts S ! i in S\<lparr>sy_prompts := (sy_prompts S)[i := t\<lparr>pr_sessions := (pr_sessions t)[s := ses]\<rparr>]\<rparr>)"

definition uid_free :: "'q sync \<Rightarrow> string \<Rightarrow> bool" where
  "uid_free S uid \<longleftrightarrow> CHR ''_'' \<notin> set uid \<and> uid \<notin> pr_uid ` set (sy_prompts S) \<and> uid \<notin> sy_pads S"

inductive sync_step :: "'q kv_ops \<Rightarrow> 'q sync \<Rightarrow> 'q sync \<Rightarrow> bool" for K where
  dispatch: "sy_pc S = Idle \<Longrightarrow> distinct uids \<Longrightarrow> \<forall>u \<in> set uids. uid_free S u \<Longrightarrow>
    sync_step K S (S\<lparr>sy_buffer := rb_add p (map (\<lambda>u. (u, running_tag g)) uids) (sy_buffer S),
      sy_prompts := sy_prompts S @ map (new_prompt p g n) uids, sy_pc := Waiting p g (length (sy_prompts S))\<rparr>)"
| generated: "i < length (sy_prompts S) \<Longrightarrow> s < length (pr_sessions (sy_prompts S ! i)) \<Longrightarrow>
    pr_sessions (sy_prompts S ! i) ! s = Generating \<Longrightarrow>
    sync_step K S (set_session i s (if outs = [] then Returned [] else Storing outs 0) S)"
| store_output: "i < length (sy_prompts S) \<Longrightarrow> t = sy_prompts S ! i \<Longrightarrow> s < length (pr_sessions t) \<Longrightarrow>
    pr_sessions t ! s = Storing outs k \<Longrightarrow> k < length outs \<Longrightarrow>
    sync_step K S (set_session i s (if k + 1 = length outs then Returned outs else Storing outs (k + 1))
      (put_entry K (pr_partition t) (output_key (pr_uid t) s k) (success_tag (pr_step t) (outs ! k)) S))"
| session_raises: "i < length (sy_prompts S) \<Longrightarrow> s < length (pr_sessions (sy_prompts S ! i)) \<Longrightarrow>
    ses = pr_sessions (sy_prompts S ! i) ! s \<Longrightarrow> ses' = (case ses of Storing outs k \<Rightarrow> Raised outs k | _ \<Rightarrow> Raised [] 0) \<Longrightarrow>
    \<not> has_returned ses \<Longrightarrow> \<not> has_raised ses \<Longrightarrow> sync_step K S (set_session i s ses' S)"
| prompt_finishes: "i < length (sy_prompts S) \<Longrightarrow> t = sy_prompts S ! i \<Longrightarrow> pr_ended t = None \<Longrightarrow>
    list_all has_returned (pr_sessions t) \<Longrightarrow>
    sync_step K S ((put_entry K (pr_partition t) (pr_uid t) (end_tag ''finished'') S)
      \<lparr>sy_prompts := (sy_prompts S)[i := t\<lparr>pr_ended := Some ''finished''\<rparr>]\<rparr>)"
| prompt_fails: "i < length (sy_prompts S) \<Longrightarrow> t = sy_prompts S ! i \<Longrightarrow> pr_ended t = None \<Longrightarrow>
    list_ex has_raised (pr_sessions t) \<Longrightarrow>
    sync_step K S ((put_entry K (pr_partition t) (pr_uid t) (end_tag ''failure'') S)
      \<lparr>sy_prompts := (sy_prompts S)[i := t\<lparr>pr_ended := Some ''failure''\<rparr>]\<rparr>)"
| poll_list: "sy_poll S = [] \<Longrightarrow>
    sync_step K S (S\<lparr>sy_poll := (case kv_list K (sy_store S) of None \<Rightarrow> [] | Some d \<Rightarrow> d)\<rparr>)"
| poll_add: "sy_poll S = (p, items) # rest \<Longrightarrow> sync_step K S (S\<lparr>sy_buffer := rb_add p items (sy_buffer S), sy_poll := rest\<rparr>)"
| sample_waits: "sy_pc S = Waiting p g k \<Longrightarrow> rb_sample_attempt p (Some g) None (sy_buffer S) = Inr None \<Longrightarrow> sync_step K S S"
| sample_returns: "sy_pc S = Waiting p g k \<Longrightarrow> rb_sample_attempt p (Some g) None (sy_buffer S) = Inr (Some b) \<Longrightarrow>
    sync_step K S (S\<lparr>sy_pc := Holding b\<rparr>)"
| sample_raises: "sy_pc S = Waiting p g k \<Longrightarrow> rb_sample_attempt p (Some g) None (sy_buffer S) = Inl e \<Longrightarrow>
    sync_step K S (S\<lparr>sy_pc := Crashed e\<rparr>)"
| pad_batch: "sy_pc S = Holding b \<Longrightarrow> kb_keys b \<noteq> [] \<Longrightarrow> pad_key = output_key pad_uid n 0 \<Longrightarrow>
    pad_uid \<in> sy_pads S \<or> uid_free S pad_uid \<Longrightarrow> pad_key \<notin> (fst \<circ> snd) ` set (sy_puts S) \<Longrightarrow> pad_tag = padding_tag (hd (kb_tags b)) \<Longrightarrow>
    sync_step K S ((put_entry K (kb_partition b) pad_key pad_tag S)
      \<lparr>sy_pads := insert pad_uid (sy_pads S), sy_pc := Holding (b\<lparr>kb_keys := kb_keys b @ [pad_key], kb_tags := kb_tags b @ [pad_tag]\<rparr>)\<rparr>)"
| clear: "sy_pc S = Holding b \<Longrightarrow>
    sync_step K S (S\<lparr>sy_store := kv_clear K (kb_partition b) (kb_keys b) (sy_store S),
      sy_gone := sy_gone S \<union> Pair (kb_partition b) ` set (kb_keys b), sy_pc := Clearing b\<rparr>)"
| remove: "sy_pc S = Clearing b \<Longrightarrow>
    sync_step K S (S\<lparr>sy_buffer := rb_remove (kb_partition b) (kb_keys b) (sy_buffer S), sy_pc := Idle\<rparr>)"

definition sync_start :: "'q \<Rightarrow> 'q sync" where
  "sync_start q = \<lparr>sy_store = q, sy_buffer = \<lparr>rb_partitions = []\<rparr>, sy_poll = [], sy_prompts = [], sy_pc = Idle,
     sy_puts = [], sy_gone = {}, sy_pads = {}\<rparr>"

inductive sync_reachable :: "'q kv_ops \<Rightarrow> 'q \<Rightarrow> 'q sync \<Rightarrow> bool" for K q where
  start: "sync_reachable K q (sync_start q)"
| step: "sync_reachable K q S \<Longrightarrow> sync_step K S T \<Longrightarrow> sync_reachable K q T"

section \<open>What the invariant says\<close>

definition outputs_of :: "prompt_task \<Rightarrow> (string \<times> tag) set" where
  "outputs_of t = {(output_key (pr_uid t) s k, success_tag (pr_step t) (session_outputs (pr_sessions t ! s) ! k)) | s k.
     s < length (pr_sessions t) \<and> k < length (session_outputs (pr_sessions t ! s))}"

text \<open>The prompts of rounds before the one that the trainer is waiting for.\<close>

definition past_prompts :: "'q sync \<Rightarrow> prompt_task set" where
  "past_prompts S = set (case sy_pc S of Waiting p g k \<Rightarrow> take k (sy_prompts S) | _ \<Rightarrow> sy_prompts S)"

definition prompts_ok :: "'q sync \<Rightarrow> bool" where
  "prompts_ok S \<longleftrightarrow> distinct (map pr_uid (sy_prompts S)) \<and>
     (\<forall>t \<in> set (sy_prompts S). CHR ''_'' \<notin> set (pr_uid t) \<and> pr_uid t \<notin> sy_pads S \<and> pr_ended t \<in> {None, Some ''finished'', Some ''failure''} \<and>
       (pr_ended t = Some ''finished'' \<longrightarrow> list_all has_returned (pr_sessions t)))"

definition put_kind :: "'q sync \<Rightarrow> string \<times> string \<times> tag \<Rightarrow> bool" where
  "put_kind S = (\<lambda>(p, key, tag).
     (\<exists>t \<in> set (sy_prompts S). pr_partition t = p \<and>
        ((key, tag) \<in> outputs_of t \<or> (\<exists>st. pr_ended t = Some st \<and> key = pr_uid t \<and> tag = end_tag st))) \<or>
     (\<exists>u \<in> sy_pads S. \<exists>n. key = output_key u n 0 \<and> (\<exists>t \<in> past_prompts S. pr_partition t = p \<and>
        map_of tag ''global_steps'' = Some (Tag_int (pr_step t)) \<and> map_of tag ''status'' = Some (Tag_text ''success'')) \<and> distinct (dict_keys tag)))"

definition puts_ok :: "'q sync \<Rightarrow> bool" where
  "puts_ok S \<longleftrightarrow> distinct (map (\<lambda>(p, key, tag). key) (sy_puts S)) \<and> (\<forall>x \<in> set (sy_puts S). put_kind S x) \<and>
     (\<forall>t \<in> set (sy_prompts S). (\<forall>(key, tag) \<in> outputs_of t. (pr_partition t, key, tag) \<in> set (sy_puts S)) \<and>
       (\<forall>st. pr_ended t = Some st \<longrightarrow> (pr_partition t, pr_uid t, end_tag st) \<in> set (sy_puts S)))"

definition store_ok :: "'q kv_ops \<Rightarrow> 'q sync \<Rightarrow> bool" where
  "store_ok K S \<longleftrightarrow> (\<forall>p key tag. stored K (sy_store S) p key = Some tag \<longleftrightarrow> (p, key, tag) \<in> set (sy_puts S) \<and> (p, key) \<notin> sy_gone S) \<and>
     (\<forall>(p, key) \<in> sy_gone S. \<exists>tag. (p, key, tag) \<in> set (sy_puts S))"

text \<open>A set of keys that holds the finished prompt holds its outputs, as far as they are not cleared.\<close>

definition holds_outputs :: "'q sync \<Rightarrow> string \<Rightarrow> string set \<Rightarrow> prompt_task \<Rightarrow> bool" where
  "holds_outputs S p keys t \<longleftrightarrow> (\<forall>(key, tag) \<in> outputs_of t. key \<in> keys \<or> (p, key) \<in> sy_gone S)"

definition items_ok :: "'q sync \<Rightarrow> string \<times> (string, tag) dict \<Rightarrow> bool" where
  "items_ok S = (\<lambda>(p, items). distinct (dict_keys items) \<and> (\<forall>(key, tag) \<in> set items. (p, key, tag) \<in> set (sy_puts S)) \<and>
     (\<forall>t \<in> set (sy_prompts S). pr_partition t = p \<longrightarrow> pr_ended t = Some ''finished'' \<longrightarrow> pr_uid t \<in> set (dict_keys items) \<longrightarrow>
       holds_outputs S p (set (dict_keys items)) t))"

definition uid_tag :: "int \<Rightarrow> string \<Rightarrow> tag" where
  "uid_tag g status = [(''global_steps'', Tag_int g), (''status'', Tag_text status)]"

definition part_ok :: "'q sync \<Rightarrow> string \<Rightarrow> (string, tag) dict \<Rightarrow> bool" where
  "part_ok S p part \<longleftrightarrow> distinct (dict_keys part) \<and>
     (\<forall>(key, tag) \<in> set part.
        (\<exists>t \<in> set (sy_prompts S). pr_partition t = p \<and> key = pr_uid t \<and> (\<exists>st. (st = ''running'' \<or> pr_ended t = Some st) \<and> tag = uid_tag (pr_step t) st)) \<or>
        CHR ''_'' \<in> set key \<and> (p, key, tag) \<in> set (sy_puts S)) \<and>
     (\<forall>t \<in> set (sy_prompts S). pr_partition t = p \<longrightarrow> pr_uid t \<in> set (dict_keys part) \<and>
        (map_of part (pr_uid t) = Some (uid_tag (pr_step t) ''finished'') \<longrightarrow> holds_outputs S p (set (dict_keys part)) t))"

definition gone_kind :: "'q sync \<Rightarrow> string \<times> string \<Rightarrow> bool" where
  "gone_kind S = (\<lambda>(p, key). (\<exists>t \<in> past_prompts S. pr_partition t = p \<and> (\<exists>s k. key = output_key (pr_uid t) s k)) \<or>
     (\<exists>u \<in> sy_pads S. \<exists>n. key = output_key u n 0))"

definition pc_ok :: "'q sync \<Rightarrow> bool" where
  "pc_ok S \<longleftrightarrow> (\<forall>x \<in> sy_gone S. gone_kind S x) \<and>
     (case sy_pc S of
        Idle \<Rightarrow> True
      | Waiting p g k \<Rightarrow> k \<le> length (sy_prompts S) \<and> (\<forall>t \<in> set (drop k (sy_prompts S)). pr_partition t = p \<and> pr_step t = g)
      | Crashed e \<Rightarrow> False
      | Holding b \<Rightarrow> length (kb_tags b) = length (kb_keys b) \<and> (\<forall>(key, tag) \<in> set (zip (kb_keys b) (kb_tags b)). CHR ''_'' \<in> set key \<and> (kb_partition b, key, tag) \<in> set (sy_puts S))
      | Clearing b \<Rightarrow> \<forall>key \<in> set (kb_keys b). CHR ''_'' \<in> set key \<and> (kb_partition b, key) \<in> sy_gone S)"

definition sync_inv :: "'q kv_ops \<Rightarrow> 'q sync \<Rightarrow> bool" where
  "sync_inv K S \<longleftrightarrow> prompts_ok S \<and> puts_ok S \<and> store_ok K S \<and> (\<forall>x \<in> set (sy_poll S). items_ok S x) \<and>
     (\<forall>p. part_ok S p (rb_partition p (sy_buffer S))) \<and> pc_ok S"

section \<open>Growth\<close>

definition grows :: "prompt_task \<Rightarrow> prompt_task \<Rightarrow> bool" where
  "grows t t' \<longleftrightarrow> pr_uid t' = pr_uid t \<and> pr_partition t' = pr_partition t \<and> pr_step t' = pr_step t \<and>
     (\<forall>st. pr_ended t = Some st \<longrightarrow> pr_ended t' = Some st) \<and> (pr_ended t = Some ''finished'' \<longrightarrow> t' = t) \<and> outputs_of t \<subseteq> outputs_of t'"

definition sync_grows :: "'q sync \<Rightarrow> 'q sync \<Rightarrow> bool" where
  "sync_grows S T \<longleftrightarrow> set (sy_puts S) \<subseteq> set (sy_puts T) \<and> sy_gone S \<subseteq> sy_gone T \<and> sy_pads S \<subseteq> sy_pads T \<and>
     (\<forall>t \<in> past_prompts S. \<exists>t' \<in> past_prompts T. grows t t') \<and>
     (\<exists>ts fresh. sy_prompts T = ts @ fresh \<and> list_all2 grows (sy_prompts S) ts \<and> (\<forall>t \<in> set fresh. pr_ended t = None \<and> outputs_of t = {}))"

lemma grows_refl [simp]: "grows t t"
  by (simp add: grows_def)

lemma list_all2_grows_refl: "list_all2 grows ts ts"
  by (simp add: list_all2_refl)

lemma grows_update:
  assumes "i < length ts" "grows (ts ! i) t"
  shows "list_all2 grows ts (ts[i := t])"
  using assms by (auto simp: list_all2_conv_all_nth nth_list_update)

lemma list_all2_partner1: "list_all2 P xs ys \<Longrightarrow> x \<in> set xs \<Longrightarrow> \<exists>y \<in> set ys. P x y"
  by (induction rule: list_all2_induct) auto

lemma list_all2_partner2: "list_all2 P xs ys \<Longrightarrow> y \<in> set ys \<Longrightarrow> \<exists>x \<in> set xs. P x y"
  by (induction rule: list_all2_induct) auto

lemma grown_prompt:
  assumes "sync_grows S T" "t \<in> set (sy_prompts S)"
  shows "\<exists>t' \<in> set (sy_prompts T). grows t t'"
proof -
  obtain ts fresh where T: "sy_prompts T = ts @ fresh" "list_all2 grows (sy_prompts S) ts" using assms(1) by (auto simp: sync_grows_def)
  have "\<exists>t' \<in> set ts. grows t t'" using T(2) assms(2) by (rule list_all2_partner1)
  then show ?thesis using T(1) by auto
qed

lemma former_prompt:
  assumes "sync_grows S T" "t' \<in> set (sy_prompts T)"
  shows "(\<exists>t \<in> set (sy_prompts S). grows t t') \<or> pr_ended t' = None \<and> outputs_of t' = {}"
proof -
  obtain ts fresh where T: "sy_prompts T = ts @ fresh" "list_all2 grows (sy_prompts S) ts"
      "\<forall>t \<in> set fresh. pr_ended t = None \<and> outputs_of t = {}" using assms(1) by (auto simp: sync_grows_def)
  have "\<exists>t \<in> set (sy_prompts S). grows t t'" if "t' \<in> set ts"
    using T(2) that by (rule list_all2_partner2)
  then show ?thesis using T assms(2) by auto
qed

lemma put_kind_mono:
  assumes "sync_grows S T" "put_kind S x"
  shows "put_kind T x"
proof -
  obtain p key tag where x: "x = (p, key, tag)" by (cases x)
  consider (prompt) t where "t \<in> set (sy_prompts S)" "pr_partition t = p"
        "(key, tag) \<in> outputs_of t \<or> (\<exists>st. pr_ended t = Some st \<and> key = pr_uid t \<and> tag = end_tag st)"
    | (pad) u n t where "u \<in> sy_pads S" "key = output_key u n 0" "t \<in> past_prompts S" "pr_partition t = p"
        "map_of tag ''global_steps'' = Some (Tag_int (pr_step t))" "map_of tag ''status'' = Some (Tag_text ''success'')" "distinct (dict_keys tag)"
    using assms(2) unfolding x put_kind_def by auto
  then show ?thesis
  proof cases
    case prompt
    obtain t' where "t' \<in> set (sy_prompts T)" "grows t t'" using grown_prompt [OF assms(1) prompt(1)] by blast
    then show ?thesis using prompt unfolding x put_kind_def grows_def by auto
  next
    case pad
    obtain t' where "t' \<in> past_prompts T" "grows t t'" using assms(1) pad(3) unfolding sync_grows_def by blast
    moreover have "u \<in> sy_pads T" using assms(1) pad(1) by (auto simp: sync_grows_def)
    ultimately show ?thesis using pad unfolding x put_kind_def grows_def by auto
  qed
qed

lemma uid_put_ended:
  assumes "prompts_ok S" "puts_ok S" "(p, pr_uid t, tag) \<in> set (sy_puts S)" "t \<in> set (sy_prompts S)"
  shows "\<exists>st. pr_ended t = Some st \<and> tag = end_tag st"
proof -
  have no: "CHR ''_'' \<notin> set (pr_uid t)" using assms(1,4) by (auto simp: prompts_ok_def)
  have "put_kind S (p, pr_uid t, tag)" using assms(2,3) by (auto simp: puts_ok_def)
  moreover have "(pr_uid t, tag) \<notin> outputs_of t2" for t2
  proof
    assume "(pr_uid t, tag) \<in> outputs_of t2"
    then obtain s k where "pr_uid t = output_key (pr_uid t2) s k" by (auto simp: outputs_of_def)
    then show False using output_key_not_uid [OF no] by metis
  qed
  moreover have "pr_uid t \<noteq> output_key u n 0" for u n using output_key_not_uid [OF no] by metis
  ultimately obtain t2 st where t2: "t2 \<in> set (sy_prompts S)" "pr_uid t2 = pr_uid t" "pr_ended t2 = Some st" "tag = end_tag st"
    by (auto simp: put_kind_def)
  have "inj_on pr_uid (set (sy_prompts S))" using assms(1) by (simp add: prompts_ok_def distinct_map)
  then have "t2 = t" using t2(1,2) assms(4) by (simp add: inj_on_eq_iff)
  then show ?thesis using t2 by blast
qed

lemma holds_outputs_mono:
  assumes "holds_outputs S p keys t" "sy_gone S \<subseteq> sy_gone T" "keys \<subseteq> keys'"
  shows "holds_outputs T p keys' t"
  using assms by (force simp: holds_outputs_def)

lemma items_ok_mono:
  assumes "sync_grows S T" "prompts_ok S" "puts_ok S" "items_ok S x"
  shows "items_ok T x"
proof -
  obtain p items where x: "x = (p, items)" by (cases x)
  have ok: "distinct (dict_keys items)" "\<forall>(key, tag) \<in> set items. (p, key, tag) \<in> set (sy_puts S)"
    "\<And>t. t \<in> set (sy_prompts S) \<Longrightarrow> pr_partition t = p \<Longrightarrow> pr_ended t = Some ''finished'' \<Longrightarrow> pr_uid t \<in> set (dict_keys items) \<Longrightarrow>
       holds_outputs S p (set (dict_keys items)) t"
    using assms(4) unfolding x items_ok_def by auto
  have mono: "set (sy_puts S) \<subseteq> set (sy_puts T)" "sy_gone S \<subseteq> sy_gone T" using assms(1) by (simp_all add: sync_grows_def)
  have "holds_outputs T p (set (dict_keys items)) t'"
    if t': "t' \<in> set (sy_prompts T)" "pr_partition t' = p" "pr_ended t' = Some ''finished''" "pr_uid t' \<in> set (dict_keys items)" for t'
  proof -
    obtain t where t: "t \<in> set (sy_prompts S)" "grows t t'" using former_prompt [OF assms(1) t'(1)] t'(3) by auto
    have same: "pr_uid t' = pr_uid t" "pr_partition t' = pr_partition t" using t(2) by (auto simp: grows_def)
    obtain tag where "(pr_uid t, tag) \<in> set items" using t'(4) same by (auto simp: dict_keys_def)
    then have "(p, pr_uid t, tag) \<in> set (sy_puts S)" using ok(2) by auto
    then obtain st where st: "pr_ended t = Some st" using uid_put_ended [OF assms(2,3) _ t(1)] by blast
    then have "st = ''finished''" using t(2) t'(3) by (auto simp: grows_def)
    then have "t' = t" "pr_ended t = Some ''finished''" using t(2) st by (auto simp: grows_def)
    then show ?thesis using ok(3) [OF t(1)] t' mono(2) by (auto intro: holds_outputs_mono)
  qed
  then show ?thesis using ok(1,2) mono(1) unfolding x items_ok_def by auto
qed

lemma part_prompt_tag:
  assumes "prompts_ok S" "part_ok S p part" "t \<in> set (sy_prompts S)" "map_of part (pr_uid t) = Some tag"
  shows "\<exists>st. (st = ''running'' \<or> pr_ended t = Some st) \<and> tag = uid_tag (pr_step t) st"
proof -
  have "(pr_uid t, tag) \<in> set part" by (rule map_of_SomeD [OF assms(4)])
  then have "(\<exists>t2 \<in> set (sy_prompts S). pr_partition t2 = p \<and> pr_uid t = pr_uid t2 \<and> (\<exists>st. (st = ''running'' \<or> pr_ended t2 = Some st) \<and> tag = uid_tag (pr_step t2) st)) \<or>
      CHR ''_'' \<in> set (pr_uid t)" using assms(2) by (auto simp: part_ok_def)
  moreover have "CHR ''_'' \<notin> set (pr_uid t)" using assms(1,3) by (auto simp: prompts_ok_def)
  moreover have "inj_on pr_uid (set (sy_prompts S))" using assms(1) by (simp add: prompts_ok_def distinct_map)
  ultimately show ?thesis using assms(3) by (metis inj_on_eq_iff)
qed

lemma part_ok_grow:
  assumes "sync_grows S T" "\<And>t'. t' \<in> set (sy_prompts T) \<Longrightarrow> pr_partition t' = p \<Longrightarrow> \<exists>t \<in> set (sy_prompts S). grows t t'"
    "prompts_ok S" "part_ok S p part"
  shows "part_ok T p part"
proof -
  have ok: "distinct (dict_keys part)"
    "\<And>key tag. (key, tag) \<in> set part \<Longrightarrow> (\<exists>t \<in> set (sy_prompts S). pr_partition t = p \<and> key = pr_uid t \<and> (\<exists>st. (st = ''running'' \<or> pr_ended t = Some st) \<and> tag = uid_tag (pr_step t) st)) \<or>
        CHR ''_'' \<in> set key \<and> (p, key, tag) \<in> set (sy_puts S)"
    "\<And>t. t \<in> set (sy_prompts S) \<Longrightarrow> pr_partition t = p \<Longrightarrow> pr_uid t \<in> set (dict_keys part) \<and>
        (map_of part (pr_uid t) = Some (uid_tag (pr_step t) ''finished'') \<longrightarrow> holds_outputs S p (set (dict_keys part)) t)"
    using assms(4) unfolding part_ok_def by auto
  have mono: "set (sy_puts S) \<subseteq> set (sy_puts T)" "sy_gone S \<subseteq> sy_gone T" using assms(1) by (simp_all add: sync_grows_def)
  have "(\<exists>t \<in> set (sy_prompts T). pr_partition t = p \<and> key = pr_uid t \<and> (\<exists>st. (st = ''running'' \<or> pr_ended t = Some st) \<and> tag = uid_tag (pr_step t) st)) \<or>
        CHR ''_'' \<in> set key \<and> (p, key, tag) \<in> set (sy_puts T)" if "(key, tag) \<in> set part" for key tag
  proof (cases "CHR ''_'' \<in> set key \<and> (p, key, tag) \<in> set (sy_puts S)")
    case False
    with ok(2) [OF that] obtain t st where t: "t \<in> set (sy_prompts S)" "pr_partition t = p" "key = pr_uid t" "st = ''running'' \<or> pr_ended t = Some st" "tag = uid_tag (pr_step t) st"
      by blast
    obtain t' where "t' \<in> set (sy_prompts T)" "grows t t'" using grown_prompt [OF assms(1) t(1)] by blast
    then show ?thesis using t unfolding grows_def by metis
  qed (use mono(1) in blast)
  moreover have "pr_uid t' \<in> set (dict_keys part) \<and>
      (map_of part (pr_uid t') = Some (uid_tag (pr_step t') ''finished'') \<longrightarrow> holds_outputs T p (set (dict_keys part)) t')"
    if t': "t' \<in> set (sy_prompts T)" "pr_partition t' = p" for t'
  proof -
    obtain t where t: "t \<in> set (sy_prompts S)" "grows t t'" using assms(2) [OF t'] by blast
    then have same: "pr_uid t' = pr_uid t" "pr_partition t = p" "pr_step t' = pr_step t" using t'(2) by (auto simp: grows_def)
    have "holds_outputs T p (set (dict_keys part)) t'" if "map_of part (pr_uid t') = Some (uid_tag (pr_step t') ''finished'')"
    proof -
      have "pr_ended t = Some ''finished''"
        using part_prompt_tag [OF assms(3,4) t(1), of "uid_tag (pr_step t) ''finished''"] that same by (auto simp: uid_tag_def)
      then have "t' = t" using t(2) by (simp add: grows_def)
      then show ?thesis using ok(3) [OF t(1) same(2)] that mono(2) by (auto intro: holds_outputs_mono)
    qed
    then show ?thesis using ok(3) [OF t(1) same(2)] same by simp
  qed
  ultimately show ?thesis using ok(1) unfolding part_ok_def by blast
qed

lemma part_ok_mono:
  assumes "sync_grows S T" "length (sy_prompts T) = length (sy_prompts S)" "prompts_ok S" "part_ok S p part"
  shows "part_ok T p part"
proof (rule part_ok_grow [OF assms(1) _ assms(3,4)])
  obtain ts fresh where T: "sy_prompts T = ts @ fresh" "list_all2 grows (sy_prompts S) ts" using assms(1) by (auto simp: sync_grows_def)
  then have "fresh = []" using assms(2) by (auto dest: list_all2_lengthD)
  then show "\<exists>t \<in> set (sy_prompts S). grows t t'" if "t' \<in> set (sy_prompts T)" for t'
    using list_all2_partner2 [OF T(2), of t'] T(1) that by simp
qed

section \<open>Actions of the workers\<close>

lemma store_put:
  assumes "kv_store K" "store_ok K S" "key \<notin> (fst \<circ> snd) ` set (sy_puts S)"
  shows "store_ok K (put_entry K p key tag S)"
proof -
  have new: "(p', key, tag') \<notin> set (sy_puts S)" for p' tag' using assms(3) by force
  then have "stored K (sy_store S) p key = None" using assms(2) by (cases "stored K (sy_store S) p key") (auto simp: store_ok_def)
  note put = kv_store.put_stored [OF assms(1) this, of tag]
  have "(p, key) \<notin> sy_gone S" using assms(2) new by (fastforce simp: store_ok_def)
  then show ?thesis using assms(2) new unfolding store_ok_def put_entry_def by (auto simp: put)
qed

definition with_put :: "'q kv_ops \<Rightarrow> string \<Rightarrow> (string \<times> tag) option \<Rightarrow> 'q sync \<Rightarrow> 'q sync" where
  "with_put K p entry S = (case entry of None \<Rightarrow> S | Some (key, tag) \<Rightarrow> put_entry K p key tag S)"

lemma with_put_fields [simp]:
  "sy_prompts (with_put K p entry S) = sy_prompts S" "sy_buffer (with_put K p entry S) = sy_buffer S"
  "sy_poll (with_put K p entry S) = sy_poll S" "sy_pc (with_put K p entry S) = sy_pc S" "sy_gone (with_put K p entry S) = sy_gone S"
  "sy_pads (with_put K p entry S) = sy_pads S"
  "sy_puts (with_put K p entry S) = sy_puts S @ (case entry of None \<Rightarrow> [] | Some (key, tag) \<Rightarrow> [(p, key, tag)])"
  by (auto simp: with_put_def put_entry_def split: option.splits)

lemma update_sync_grows:
  assumes "i < length (sy_prompts S)" "grows (sy_prompts S ! i) t'" "sy_prompts T = (sy_prompts S)[i := t']"
    "set (sy_puts S) \<subseteq> set (sy_puts T)" "sy_gone T = sy_gone S" "sy_pads T = sy_pads S" "sy_pc T = sy_pc S"
  shows "sync_grows S T"
proof -
  have all: "list_all2 grows (sy_prompts S) (sy_prompts T)" unfolding assms(3) by (rule grows_update [OF assms(1,2)])
  have "\<exists>t' \<in> past_prompts T. grows t t'" if "t \<in> past_prompts S" for t
    using that list_all2_partner1 [OF all, of t] list_all2_partner1 [OF list_all2_takeI [OF all], of t]
    unfolding past_prompts_def assms(7) by (auto split: trainer_pc.splits)
  moreover have "sy_prompts T = sy_prompts T @ []" by simp
  ultimately show ?thesis using all assms(4-6) unfolding sync_grows_def by (metis empty_iff empty_set order_refl)
qed

lemma prompts_ok_update:
  assumes "prompts_ok S" "i < length (sy_prompts S)" "pr_uid t' = pr_uid (sy_prompts S ! i)"
    "pr_ended t' \<in> {None, Some ''finished'', Some ''failure''}" "pr_ended t' = Some ''finished'' \<longrightarrow> list_all has_returned (pr_sessions t')"
    "sy_prompts T = (sy_prompts S)[i := t']" "sy_pads T = sy_pads S"
  shows "prompts_ok T"
proof -
  have "map pr_uid (sy_prompts T) = map pr_uid (sy_prompts S)" unfolding assms(6) map_update assms(3)
    using assms(2) by (metis list_update_id nth_map)
  moreover have "sy_prompts S ! i \<in> set (sy_prompts S)" using assms(2) by simp
  moreover have "set (sy_prompts T) \<subseteq> insert t' (set (sy_prompts S))" unfolding assms(6) by (rule set_update_subset_insert)
  moreover define Q where "Q t \<longleftrightarrow> CHR ''_'' \<notin> set (pr_uid t) \<and> pr_uid t \<notin> sy_pads S \<and> pr_ended t \<in> {None, Some ''finished'', Some ''failure''} \<and>
       (pr_ended t = Some ''finished'' \<longrightarrow> list_all has_returned (pr_sessions t))" for t :: prompt_task
  have "\<forall>t \<in> set (sy_prompts S). Q t" using assms(1) unfolding prompts_ok_def Q_def by blast
  moreover have "Q t'" using assms(3-5) calculation unfolding Q_def by simp
  ultimately have "distinct (map pr_uid (sy_prompts T)) \<and> (\<forall>t \<in> set (sy_prompts T). Q t)"
    using assms(1) by (auto simp: prompts_ok_def)
  then show ?thesis unfolding prompts_ok_def Q_def assms(7) .
qed

lemma gone_kind_mono:
  assumes "sync_grows S T" "gone_kind S x"
  shows "gone_kind T x"
proof -
  obtain p key where x: "x = (p, key)" by (cases x)
  consider (prompt) t where "t \<in> past_prompts S" "pr_partition t = p" "\<exists>s k. key = output_key (pr_uid t) s k"
    | (pad) u where "u \<in> sy_pads S" "\<exists>n. key = output_key u n 0" using assms(2) by (auto simp: x gone_kind_def)
  then show ?thesis
  proof cases
    case prompt
    obtain t' where "t' \<in> past_prompts T" "grows t t'" using assms(1) prompt(1) unfolding sync_grows_def by blast
    with prompt show ?thesis unfolding x gone_kind_def grows_def by auto
  next
    case pad
    then show ?thesis using assms(1) unfolding x gone_kind_def sync_grows_def by blast
  qed
qed

lemma inv_prompt_action:
  assumes K: "kv_store K" and inv: "sync_inv K S" and i: "i < length (sy_prompts S)" and t: "t = sy_prompts S ! i"
    and grow: "grows t t'" and ended: "pr_ended t' \<in> {None, Some ''finished'', Some ''failure''}"
      "pr_ended t' = Some ''finished'' \<longrightarrow> list_all has_returned (pr_sessions t')"
    and fresh: "\<And>key tag. entry = Some (key, tag) \<Longrightarrow> key \<notin> (fst \<circ> snd) ` set (sy_puts S) \<and>
      ((key, tag) \<in> outputs_of t' \<or> (\<exists>st. pr_ended t' = Some st \<and> key = pr_uid t \<and> tag = end_tag st))"
    and outs: "outputs_of t' \<subseteq> outputs_of t \<union> set_option entry"
    and fin: "\<And>st. pr_ended t' = Some st \<Longrightarrow> pr_ended t = Some st \<or> entry = Some (pr_uid t, end_tag st)"
  shows "sync_inv K ((with_put K (pr_partition t) entry S)\<lparr>sy_prompts := (sy_prompts S)[i := t']\<rparr>)" (is "sync_inv K ?T")
proof -
  have ok: "prompts_ok S" "puts_ok S" "store_ok K S" "\<forall>x \<in> set (sy_poll S). items_ok S x" "\<forall>p. part_ok S p (rb_partition p (sy_buffer S))" "pc_ok S"
    using inv by (simp_all add: sync_inv_def)
  have g: "sync_grows S ?T" using i grow t by (intro update_sync_grows [of i S t']) (auto split: option.splits)
  have same: "pr_uid t' = pr_uid t" "pr_partition t' = pr_partition t" "pr_step t' = pr_step t" using grow by (auto simp: grows_def)
  have p: "prompts_ok ?T" using ended same t by (intro prompts_ok_update [OF ok(1) i, of t']) auto
  have members: "t' \<in> set (sy_prompts ?T)" "set (sy_prompts ?T) \<subseteq> insert t' (set (sy_prompts S))" "t \<in> set (sy_prompts S)"
    using i set_update_subset_insert [of "sy_prompts S" i t'] by (simp_all add: set_update_memI t)
  have puts: "puts_ok ?T"
  proof -
    have "distinct (map (\<lambda>(p, key, tag). key) (sy_puts ?T))"
      using ok(2) fresh by (cases entry) (force simp: puts_ok_def image_iff)+
    moreover have "put_kind ?T x" if x: "x \<in> set (sy_puts ?T)" for x
    proof (cases "x \<in> set (sy_puts S)")
      case True
      then show ?thesis using ok(2) put_kind_mono [OF g] by (auto simp: puts_ok_def)
    next
      case False
      then obtain key tag where e: "entry = Some (key, tag)" "x = (pr_partition t, key, tag)" using x by (auto split: option.splits)
      then show ?thesis using fresh [OF e(1)] members(1) same unfolding put_kind_def by auto
    qed
    moreover have "(\<forall>(key, tag) \<in> outputs_of u. (pr_partition u, key, tag) \<in> set (sy_puts ?T)) \<and>
       (\<forall>st. pr_ended u = Some st \<longrightarrow> (pr_partition u, pr_uid u, end_tag st) \<in> set (sy_puts ?T))" if "u \<in> set (sy_prompts ?T)" for u
    proof (cases "u = t'")
      case False
      then have "u \<in> set (sy_prompts S)" using that members(2) by auto
      then show ?thesis using ok(2) by (fastforce simp: puts_ok_def)
    next
      case True
      have old: "\<forall>(key, tag) \<in> outputs_of t. (pr_partition t, key, tag) \<in> set (sy_puts S)"
        "\<forall>st. pr_ended t = Some st \<longrightarrow> (pr_partition t, pr_uid t, end_tag st) \<in> set (sy_puts S)"
        using ok(2) members(3) by (auto simp: puts_ok_def)
      have "(pr_partition t, key, tag) \<in> set (sy_puts ?T)" if "(key, tag) \<in> outputs_of t'" for key tag
        using that outs old(1) by (cases entry) auto
      moreover have "(pr_partition t, pr_uid t, end_tag st) \<in> set (sy_puts ?T)" if "pr_ended t' = Some st" for st
        using fin [OF that] old(2) by auto
      ultimately show ?thesis using True same by auto
    qed
    ultimately show ?thesis unfolding puts_ok_def by blast
  qed
  have "store_ok K (with_put K (pr_partition t) entry S)"
    using store_put [OF K ok(3)] ok(3) fresh by (auto simp: with_put_def split: option.splits)
  then have store: "store_ok K ?T" by (simp add: store_ok_def)
  have poll: "\<forall>x \<in> set (sy_poll ?T). items_ok ?T x" using ok(4) items_ok_mono [OF g ok(1,2)] by simp
  have parts: "\<forall>p. part_ok ?T p (rb_partition p (sy_buffer ?T))" using ok(5) part_ok_mono [OF g _ ok(1)] by simp
  have all: "list_all2 grows (sy_prompts S) (sy_prompts ?T)" using grows_update [OF i, of t'] grow t by simp
  have gone: "\<forall>x \<in> sy_gone ?T. gone_kind ?T x" using ok(6) gone_kind_mono [OF g] by (simp add: pc_ok_def)
  have pc: "pc_ok ?T"
  proof (cases "sy_pc S")
    case (Waiting p g k)
    have drop: "list_all2 grows (drop k (sy_prompts S)) (drop k (sy_prompts ?T))" by (rule list_all2_dropI [OF all])
    have old: "\<forall>t \<in> set (drop k (sy_prompts S)). pr_partition t = p \<and> pr_step t = g" using ok(6) Waiting by (simp add: pc_ok_def)
    have "pr_partition u' = p \<and> pr_step u' = g" if "u' \<in> set (drop k (sy_prompts ?T))" for u'
      using list_all2_partner2 [OF drop that] old by (auto simp: grows_def)
    then have "\<forall>t \<in> set (drop k (sy_prompts ?T)). pr_partition t = p \<and> pr_step t = g" by blast
    moreover have "k \<le> length (sy_prompts ?T)" using ok(6) Waiting by (simp add: pc_ok_def)
    moreover have "sy_pc ?T = Waiting p g k" using Waiting by simp
    ultimately show ?thesis using gone unfolding pc_ok_def by (simp only: trainer_pc.case simp_thms)
  next
    case (Holding b)
    then have "length (kb_tags b) = length (kb_keys b)"
      "\<forall>(key, tag) \<in> set (zip (kb_keys b) (kb_tags b)). CHR ''_'' \<in> set key \<and> (kb_partition b, key, tag) \<in> set (sy_puts S)"
      using ok(6) by (simp_all add: pc_ok_def)
    then show ?thesis using gone Holding unfolding pc_ok_def by auto
  qed (use gone ok(6) in \<open>simp_all add: pc_ok_def\<close>)
  show ?thesis using p puts store poll parts pc by (simp add: sync_inv_def)
qed

lemma outputs_of_same:
  assumes "s < length (pr_sessions t)" "session_outputs ses = session_outputs (pr_sessions t ! s)"
  shows "outputs_of (t\<lparr>pr_sessions := (pr_sessions t)[s := ses]\<rparr>) = outputs_of t"
proof -
  have "session_outputs ((pr_sessions t)[s := ses] ! s') = session_outputs (pr_sessions t ! s')" for s'
    using assms by (cases "s' = s") simp_all
  then show ?thesis by (simp add: outputs_of_def)
qed

lemma outputs_of_store:
  assumes "s < length (pr_sessions t)" "pr_sessions t ! s = Storing outs k" "k < length outs" "session_outputs ses = take (k + 1) outs"
  shows "outputs_of (t\<lparr>pr_sessions := (pr_sessions t)[s := ses]\<rparr>) =
    insert (output_key (pr_uid t) s k, success_tag (pr_step t) (outs ! k)) (outputs_of t)"
proof -
  define F where "F s' os = (\<lambda>k'. (output_key (pr_uid t) s' k', success_tag (pr_step t) (os ! k'))) ` {..<length os}" for s' os
  have union: "outputs_of t2 = (\<Union>s' < length (pr_sessions t2). F s' (session_outputs (pr_sessions t2 ! s')))"
    if "pr_uid t2 = pr_uid t" "pr_step t2 = pr_step t" for t2
    using that unfolding outputs_of_def F_def by auto
  have nth: "take k outs ! x = outs ! x" if "x < k" for x using that by simp
  have step: "F s (take (k + 1) outs) = insert (output_key (pr_uid t) s k, success_tag (pr_step t) (outs ! k)) (F s (take k outs))"
  proof -
    have "{..<length (take (k + 1) outs)} = insert k {..<length (take k outs)}" using assms(3) by auto
    moreover have "(\<lambda>k'. (output_key (pr_uid t) s k', success_tag (pr_step t) (take (k + 1) outs ! k'))) ` {..<length (take k outs)} =
        (\<lambda>k'. (output_key (pr_uid t) s k', success_tag (pr_step t) (take k outs ! k'))) ` {..<length (take k outs)}"
      by (rule image_cong) simp_all
    ultimately show ?thesis unfolding F_def by simp
  qed
  have split: "{..<length (pr_sessions t)} = insert s ({..<length (pr_sessions t)} - {s})" using assms(1) by auto
  have "F s' (session_outputs ((pr_sessions t)[s := ses] ! s')) = F s' (session_outputs (pr_sessions t ! s'))" if "s' \<in> {..<length (pr_sessions t)} - {s}" for s'
    using that by simp
  then have others: "(\<Union>s' \<in> {..<length (pr_sessions t)} - {s}. F s' (session_outputs ((pr_sessions t)[s := ses] ! s'))) =
      (\<Union>s' \<in> {..<length (pr_sessions t)} - {s}. F s' (session_outputs (pr_sessions t ! s')))" by (rule SUP_cong [OF refl])
  have "outputs_of (t\<lparr>pr_sessions := (pr_sessions t)[s := ses]\<rparr>) = F s (take (k + 1) outs) \<union>
      (\<Union>s' \<in> {..<length (pr_sessions t)} - {s}. F s' (session_outputs (pr_sessions t ! s')))"
  proof -
    let ?t' = "t\<lparr>pr_sessions := (pr_sessions t)[s := ses]\<rparr>"
    have "outputs_of ?t' = (\<Union>s' < length (pr_sessions t). F s' (session_outputs ((pr_sessions t)[s := ses] ! s')))" using union [of ?t'] by simp
    also have "\<dots> = F s (session_outputs ((pr_sessions t)[s := ses] ! s)) \<union>
        (\<Union>s' \<in> {..<length (pr_sessions t)} - {s}. F s' (session_outputs ((pr_sessions t)[s := ses] ! s')))"
      by (subst split) (rule UN_insert)
    finally show ?thesis using assms(1) unfolding others by (simp add: assms(4))
  qed
  moreover have "outputs_of t = F s (take k outs) \<union> (\<Union>s' \<in> {..<length (pr_sessions t)} - {s}. F s' (session_outputs (pr_sessions t ! s')))"
    by (subst union, simp, simp, subst split) (simp only: UN_insert, simp add: assms(2))
  ultimately show ?thesis unfolding step by simp
qed

lemma inv_silent_session:
  assumes K: "kv_store K" and inv: "sync_inv K S" and i: "i < length (sy_prompts S)" and s: "s < length (pr_sessions (sy_prompts S ! i))"
    and outs: "session_outputs ses = session_outputs (pr_sessions (sy_prompts S ! i) ! s)" and going: "\<not> has_returned (pr_sessions (sy_prompts S ! i) ! s)"
  shows "sync_inv K (set_session i s ses S)"
proof -
  let ?t = "sy_prompts S ! i"
  let ?t' = "?t\<lparr>pr_sessions := (pr_sessions ?t)[s := ses]\<rparr>"
  have t: "?t \<in> set (sy_prompts S)" using i by simp
  have ok: "pr_ended ?t \<in> {None, Some ''finished'', Some ''failure''}" "pr_ended ?t = Some ''finished'' \<longrightarrow> list_all has_returned (pr_sessions ?t)"
    using inv t by (auto simp: sync_inv_def prompts_ok_def)
  have nf: "pr_ended ?t \<noteq> Some ''finished''" using ok(2) going s by (auto simp: list_all_length)
  have same: "outputs_of ?t' = outputs_of ?t" by (rule outputs_of_same [OF s outs])
  have "sync_inv K ((with_put K (pr_partition ?t) None S)\<lparr>sy_prompts := (sy_prompts S)[i := ?t']\<rparr>)"
    using ok nf same by (intro inv_prompt_action [OF K inv i refl]) (auto simp: grows_def)
  then show ?thesis by (simp add: with_put_def set_session_def Let_def)
qed

lemma output_key_fresh:
  assumes "sync_inv K S" "t \<in> set (sy_prompts S)" "s < length (pr_sessions t)" "pr_sessions t ! s = Storing outs k" "k < length outs"
  shows "output_key (pr_uid t) s k \<notin> (fst \<circ> snd) ` set (sy_puts S)"
proof
  have ok: "prompts_ok S" "puts_ok S" using assms(1) by (simp_all add: sync_inv_def)
  assume "output_key (pr_uid t) s k \<in> (fst \<circ> snd) ` set (sy_puts S)"
  then obtain p tag where "(p, output_key (pr_uid t) s k, tag) \<in> set (sy_puts S)" by auto
  then have "put_kind S (p, output_key (pr_uid t) s k, tag)" using ok(2) by (auto simp: puts_ok_def)
  then consider (out) t2 where "t2 \<in> set (sy_prompts S)" "(output_key (pr_uid t) s k, tag) \<in> outputs_of t2"
    | (uid) t2 where "t2 \<in> set (sy_prompts S)" "output_key (pr_uid t) s k = pr_uid t2"
    | (pad) u n where "u \<in> sy_pads S" "output_key (pr_uid t) s k = output_key u n 0"
    unfolding put_kind_def by auto
  then show False
  proof cases
    case out
    then have same: "pr_uid t2 = pr_uid t" "k < length (session_outputs (pr_sessions t2 ! s))" by (auto simp: outputs_of_def)
    have "inj_on pr_uid (set (sy_prompts S))" using ok(1) by (simp add: prompts_ok_def distinct_map)
    then have "t2 = t" using same(1) out(1) assms(2) by (simp add: inj_on_eq_iff)
    then show False using same(2) assms(4,5) by simp
  next
    case uid
    then show False using ok(1) output_key_underscore [of "pr_uid t" s k] by (auto simp: prompts_ok_def)
  next
    case pad
    then show False using ok(1) assms(2) by (auto simp: prompts_ok_def)
  qed
qed

lemma inv_store_output:
  assumes K: "kv_store K" and inv: "sync_inv K S" and i: "i < length (sy_prompts S)" and t: "t = sy_prompts S ! i" and s: "s < length (pr_sessions t)"
    and ses: "pr_sessions t ! s = Storing outs k" and k: "k < length outs"
  shows "sync_inv K (set_session i s (if k + 1 = length outs then Returned outs else Storing outs (k + 1))
      (put_entry K (pr_partition t) (output_key (pr_uid t) s k) (success_tag (pr_step t) (outs ! k)) S))"
proof -
  let ?ses = "if k + 1 = length outs then Returned outs else Storing outs (k + 1)"
  let ?t' = "t\<lparr>pr_sessions := (pr_sessions t)[s := ?ses]\<rparr>" and ?e = "(output_key (pr_uid t) s k, success_tag (pr_step t) (outs ! k))"
  have mem: "t \<in> set (sy_prompts S)" using i t by simp
  have ok: "pr_ended t \<in> {None, Some ''finished'', Some ''failure''}" "pr_ended t = Some ''finished'' \<longrightarrow> list_all has_returned (pr_sessions t)"
    using inv mem by (auto simp: sync_inv_def prompts_ok_def)
  have nf: "pr_ended t \<noteq> Some ''finished''" using ok(2) ses s by (auto simp: list_all_length)
  have "session_outputs ?ses = take (k + 1) outs" by simp
  note outs = outputs_of_store [OF s ses k this]
  have "sync_inv K ((with_put K (pr_partition t) (Some ?e) S)\<lparr>sy_prompts := (sy_prompts S)[i := ?t']\<rparr>)"
    using ok nf outs output_key_fresh [OF inv mem s ses k] by (intro inv_prompt_action [OF K inv i t]) (auto simp: grows_def)
  then show ?thesis using i by (simp add: with_put_def set_session_def Let_def put_entry_def t)
qed

lemma inv_prompt_ends:
  assumes K: "kv_store K" and inv: "sync_inv K S" and i: "i < length (sy_prompts S)" and t: "t = sy_prompts S ! i" and going: "pr_ended t = None"
    and st: "st = ''finished'' \<and> list_all has_returned (pr_sessions t) \<or> st = ''failure''"
  shows "sync_inv K ((put_entry K (pr_partition t) (pr_uid t) (end_tag st) S)\<lparr>sy_prompts := (sy_prompts S)[i := t\<lparr>pr_ended := Some st\<rparr>]\<rparr>)"
proof -
  let ?t' = "t\<lparr>pr_ended := Some st\<rparr>"
  have mem: "t \<in> set (sy_prompts S)" using i t by simp
  have fresh: "pr_uid t \<notin> (fst \<circ> snd) ` set (sy_puts S)"
  proof
    assume "pr_uid t \<in> (fst \<circ> snd) ` set (sy_puts S)"
    then obtain p tag where "(p, pr_uid t, tag) \<in> set (sy_puts S)" by auto
    then show False using uid_put_ended [of S p t tag] inv mem going by (auto simp: sync_inv_def)
  qed
  have outs: "outputs_of ?t' = outputs_of t" by (simp add: outputs_of_def)
  have "sync_inv K ((with_put K (pr_partition t) (Some (pr_uid t, end_tag st)) S)\<lparr>sy_prompts := (sy_prompts S)[i := ?t']\<rparr>)"
    using going st outs fresh by (intro inv_prompt_action [OF K inv i t]) (auto simp: grows_def)
  then show ?thesis by (simp add: with_put_def)
qed

section \<open>The poll thread\<close>

lemma dict_set_again: "distinct (dict_keys d) \<Longrightarrow> map_of d k = Some v \<Longrightarrow> dict_set k v d = d"
proof (induction d)
  case (Cons x d)
  then show ?case by (cases x) (auto simp: dict_keys_def split: if_splits)
qed simp

lemma dict_update_same:
  assumes "distinct (dict_keys d)" "\<forall>(k, v) \<in> set e. map_of d k = Some v"
  shows "dict_update d e = d"
  using assms(2)
proof (induction e)
  case (Cons x e)
  then show ?case by (cases x) (simp add: dict_set_again [OF assms(1)])
qed simp

lemma map_of_merged: "distinct (dict_keys items) \<Longrightarrow> map_of (fold merge_item items part) key =
    (case map_of items key of None \<Rightarrow> map_of part key
     | Some tags \<Rightarrow> Some (dict_update (case map_of part key of None \<Rightarrow> [] | Some old \<Rightarrow> old) tags))"
proof (induction items arbitrary: part)
  case (Cons x items)
  obtain k t where x: "x = (k, t)" by (cases x)
  have "k \<notin> set (dict_keys items)" using Cons.prems by (simp add: x dict_keys_def)
  then have "map_of items k = None" by (simp add: keys_map_of)
  then show ?case using Cons.IH [of "merge_item x part"] Cons.prems by (auto simp: x merge_item_def dict_keys_def split: option.splits)
qed simp

lemma keys_merged: "set (dict_keys (fold merge_item items part)) = set (dict_keys items) \<union> set (dict_keys part)"
proof (induction items arbitrary: part)
  case (Cons x items)
  then show ?case by (cases x) (auto simp: merge_item_def keys_dict_set, auto simp: dict_keys_def)
qed (simp add: dict_keys_def)

lemma distinct_merged: "distinct (dict_keys part) \<Longrightarrow> distinct (dict_keys (fold merge_item items part))"
  by (induction items arbitrary: part) (auto simp: merge_item_def)

lemma rb_partition_add: "rb_partition p' (rb_add p items rb) = (if p' = p then fold merge_item items (rb_partition p rb) else rb_partition p' rb)"
  by (simp add: rb_partition_def rb_add_def)

lemma uid_tag_update: "dict_update (uid_tag g st) (end_tag st') = uid_tag g st'"
  by (simp add: uid_tag_def end_tag_def)

lemma distinct_success [simp]: "distinct (dict_keys (success_tag g os))"
  by (cases os) (simp add: success_tag_def dict_keys_def)

lemma put_functional:
  assumes "puts_ok S" "(p, key, tag) \<in> set (sy_puts S)" "(p', key, tag') \<in> set (sy_puts S)"
  shows "p' = p \<and> tag' = tag"
proof -
  have "inj_on (\<lambda>(p, key, tag). key) (set (sy_puts S))" using assms(1) by (simp add: puts_ok_def distinct_map)
  from inj_onD [OF this _ assms(2,3)] show ?thesis by simp
qed

lemma put_tag:
  assumes "prompts_ok S" "puts_ok S" "(p, key, tag) \<in> set (sy_puts S)"
  shows "CHR ''_'' \<in> set key \<and> distinct (dict_keys tag) \<or>
    (\<exists>t \<in> set (sy_prompts S). \<exists>st. pr_partition t = p \<and> key = pr_uid t \<and> pr_ended t = Some st \<and> tag = end_tag st)"
proof -
  have "put_kind S (p, key, tag)" using assms(2,3) by (auto simp: puts_ok_def)
  then show ?thesis unfolding put_kind_def
    using output_key_underscore by (auto simp: outputs_of_def)
qed

lemma part_ok_merged:
  assumes ok: "prompts_ok S" "puts_ok S" "part_ok S p part" "items_ok S (p, items)"
  shows "part_ok S p (fold merge_item items part)"
proof -
  let ?new = "fold merge_item items part"
  have part: "distinct (dict_keys part)" using ok(3) by (simp add: part_ok_def)
  have items: "distinct (dict_keys items)" "\<forall>(key, tag) \<in> set items. (p, key, tag) \<in> set (sy_puts S)" using ok(4) by (simp_all add: items_ok_def)
  note lookup = map_of_merged [OF items(1), of part]
  have dist: "distinct (dict_keys ?new)" by (rule distinct_merged [OF part])
  have pairs: "(\<exists>t \<in> set (sy_prompts S). pr_partition t = p \<and> key = pr_uid t \<and> (\<exists>st. (st = ''running'' \<or> pr_ended t = Some st) \<and> tag = uid_tag (pr_step t) st)) \<or>
        CHR ''_'' \<in> set key \<and> (p, key, tag) \<in> set (sy_puts S)" if kt: "(key, tag) \<in> set ?new" for key tag
  proof -
    have new: "map_of ?new key = Some tag" using kt dist by (simp add: dict_keys_def)
    show ?thesis
    proof (cases "map_of items key")
      case None
      then have "(key, tag) \<in> set part" using new lookup [of key] by (auto dest: map_of_SomeD)
      then show ?thesis using ok(3) by (auto simp: part_ok_def)
    next
      case (Some tags)
      let ?old = "case map_of part key of None \<Rightarrow> [] | Some old \<Rightarrow> old"
      have put: "(p, key, tags) \<in> set (sy_puts S)" using items(2) map_of_SomeD [OF Some] by auto
      have tag: "tag = dict_update ?old tags" using new lookup [of key] Some by simp
      from put_tag [OF ok(1,2) put] show ?thesis
      proof
        assume out: "CHR ''_'' \<in> set key \<and> distinct (dict_keys tags)"
        have "tag = tags"
        proof (cases "map_of part key")
          case None
          then show ?thesis using tag out dict_update_fresh [of "[]" tags] by simp
        next
          case (Some old)
          have "(\<exists>t \<in> set (sy_prompts S). key = pr_uid t) \<or> (p, key, old) \<in> set (sy_puts S)"
            using ok(3) map_of_SomeD [OF Some] by (fastforce simp: part_ok_def)
          moreover have "\<forall>t \<in> set (sy_prompts S). key \<noteq> pr_uid t" using ok(1) out by (auto simp: prompts_ok_def)
          ultimately have "old = tags" using put_functional [OF ok(2) put, of p old] by blast
          moreover have "\<forall>(k, v) \<in> set tags. map_of tags k = Some v" using out by (auto simp: dict_keys_def)
          ultimately show ?thesis using tag Some out dict_update_same [of tags tags] by simp
        qed
        then show ?thesis using out put by blast
      next
        assume "\<exists>t \<in> set (sy_prompts S). \<exists>st. pr_partition t = p \<and> key = pr_uid t \<and> pr_ended t = Some st \<and> tags = end_tag st"
        then obtain t st where t: "t \<in> set (sy_prompts S)" "pr_partition t = p" "key = pr_uid t" "pr_ended t = Some st" "tags = end_tag st" by blast
        have "pr_uid t \<in> set (dict_keys part)" using ok(3) t(1,2) by (simp add: part_ok_def)
        then obtain old where old: "map_of part (pr_uid t) = Some old" by (auto simp: keys_map_of)
        then obtain st' where "old = uid_tag (pr_step t) st'" using part_prompt_tag [OF ok(1,3) t(1) old] by blast
        then have "tag = uid_tag (pr_step t) st" using tag old t(3,5) by (simp add: uid_tag_update)
        then show ?thesis using t by blast
      qed
    qed
  qed
  have uids: "pr_uid t \<in> set (dict_keys ?new) \<and>
      (map_of ?new (pr_uid t) = Some (uid_tag (pr_step t) ''finished'') \<longrightarrow> holds_outputs S p (set (dict_keys ?new)) t)"
    if t: "t \<in> set (sy_prompts S)" "pr_partition t = p" for t
  proof -
    have old: "pr_uid t \<in> set (dict_keys part)"
      "map_of part (pr_uid t) = Some (uid_tag (pr_step t) ''finished'') \<Longrightarrow> holds_outputs S p (set (dict_keys part)) t"
      using ok(3) t by (simp_all add: part_ok_def)
    have "holds_outputs S p (set (dict_keys ?new)) t" if fin: "map_of ?new (pr_uid t) = Some (uid_tag (pr_step t) ''finished'')"
    proof (cases "map_of items (pr_uid t)")
      case None
      then have "holds_outputs S p (set (dict_keys part)) t" using old(2) fin lookup [of "pr_uid t"] by simp
      then show ?thesis by (rule holds_outputs_mono) (simp_all add: keys_merged)
    next
      case (Some tags)
      then have put: "(p, pr_uid t, tags) \<in> set (sy_puts S)" using items(2) map_of_SomeD [OF Some] by auto
      obtain st where st: "pr_ended t = Some st" "tags = end_tag st" using uid_put_ended [OF ok(1,2) put t(1)] by blast
      obtain before where before: "map_of part (pr_uid t) = Some before" using old(1) by (auto simp: keys_map_of)
      then obtain st' where "before = uid_tag (pr_step t) st'" using part_prompt_tag [OF ok(1,3) t(1) before] by blast
      then have "uid_tag (pr_step t) st = uid_tag (pr_step t) ''finished''"
        using fin lookup [of "pr_uid t"] Some st(2) before by (simp add: uid_tag_update)
      then have "pr_ended t = Some ''finished''" using st(1) by (simp add: uid_tag_def)
      moreover have "pr_uid t \<in> set (dict_keys items)" using Some by (simp add: keys_map_of)
      ultimately have "holds_outputs S p (set (dict_keys items)) t" using ok(4) t by (simp add: items_ok_def)
      then show ?thesis by (rule holds_outputs_mono) (simp_all add: keys_merged)
    qed
    then show ?thesis using old(1) by (simp add: keys_merged)
  qed
  show ?thesis using dist pairs uids unfolding part_ok_def by blast
qed

lemma same_inv_parts:
  assumes "sy_prompts T = sy_prompts S" "sy_puts T = sy_puts S" "sy_gone T = sy_gone S" "sy_pads T = sy_pads S" "past_prompts T = past_prompts S"
  shows "prompts_ok T = prompts_ok S" "puts_ok T = puts_ok S" "sy_store T = sy_store S \<Longrightarrow> store_ok K T = store_ok K S"
    "items_ok T = items_ok S" "part_ok T = part_ok S" "gone_kind T = gone_kind S"
  using assms by (simp_all add: prompts_ok_def puts_ok_def put_kind_def store_ok_def items_ok_def part_ok_def holds_outputs_def gone_kind_def fun_eq_iff)

lemma inv_poll_list:
  assumes K: "kv_store K" and inv: "sync_inv K S"
  shows "sync_inv K (S\<lparr>sy_poll := (case kv_list K (sy_store S) of None \<Rightarrow> [] | Some d \<Rightarrow> d)\<rparr>)" (is "sync_inv K ?T")
proof -
  have ok: "puts_ok S" "store_ok K S" "pc_ok S" using inv by (simp_all add: sync_inv_def)
  have past: "past_prompts ?T = past_prompts S" by (cases "sy_pc S") (simp_all add: past_prompts_def)
  note same = same_inv_parts [of ?T S, simplified, OF past]
  have "items_ok S x" if x: "x \<in> set (sy_poll ?T)" for x
  proof -
    from x obtain d where d: "kv_list K (sy_store S) = Some d" "x \<in> set d" by (cases "kv_list K (sy_store S)") auto
    obtain p items where pi: "x = (p, items)" by (cases x)
    note listed = kv_store.listed_stored [OF K d(1) d(2) [unfolded pi]]
    have "(p, key, tag) \<in> set (sy_puts S)" if "(key, tag) \<in> set items" for key tag
    proof -
      have "map_of items key = Some tag" using that listed(2) by (simp add: dict_keys_def)
      then have "stored K (sy_store S) p key = Some tag" using listed(1) [of key] by simp
      then show ?thesis using ok(2) by (simp add: store_ok_def)
    qed
    moreover have "holds_outputs S p (set (dict_keys items)) t" if "t \<in> set (sy_prompts S)" "pr_partition t = p" for t
    proof -
      have "key \<in> set (dict_keys items) \<or> (p, key) \<in> sy_gone S" if "(key, tag) \<in> outputs_of t" for key tag
      proof -
        have "(p, key, tag) \<in> set (sy_puts S)" using ok(1) that \<open>t \<in> set (sy_prompts S)\<close> \<open>pr_partition t = p\<close> by (auto simp: puts_ok_def)
        then show ?thesis using ok(2) listed(1) [of key] by (auto simp: store_ok_def keys_map_of)
      qed
      then show ?thesis by (auto simp: holds_outputs_def)
    qed
    ultimately show ?thesis using listed(2) by (auto simp: pi items_ok_def)
  qed
  moreover have "pc_ok ?T" using ok(3) by (cases "sy_pc S") (simp_all add: pc_ok_def same)
  ultimately show ?thesis using inv by (simp add: sync_inv_def same)
qed

lemma inv_poll_add:
  assumes inv: "sync_inv K S" and poll: "sy_poll S = (p, items) # rest"
  shows "sync_inv K (S\<lparr>sy_buffer := rb_add p items (sy_buffer S), sy_poll := rest\<rparr>)" (is "sync_inv K ?T")
proof -
  have past: "past_prompts ?T = past_prompts S" by (cases "sy_pc S") (simp_all add: past_prompts_def)
  note same = same_inv_parts [of ?T S, simplified, OF past]
  have "part_ok S p' (rb_partition p' (sy_buffer ?T))" for p'
    using inv poll part_ok_merged [of S p "rb_partition p (sy_buffer S)" items] by (simp add: sync_inv_def rb_partition_add)
  moreover have "pc_ok ?T" using inv by (cases "sy_pc S") (simp_all add: sync_inv_def pc_ok_def same)
  ultimately show ?thesis using inv poll by (simp add: sync_inv_def same)
qed

section \<open>The trainer\<close>

lemma outputs_of_new [simp]: "outputs_of (new_prompt p g n u) = {}"
  by (auto simp: outputs_of_def new_prompt_def)

lemma new_prompt_fields [simp]:
  "pr_uid (new_prompt p g n u) = u" "pr_partition (new_prompt p g n u) = p" "pr_step (new_prompt p g n u) = g" "pr_ended (new_prompt p g n u) = None"
  by (simp_all add: new_prompt_def)

lemma merge_fresh:
  "distinct (map fst items) \<Longrightarrow> \<forall>(k, t) \<in> set items. k \<notin> set (dict_keys part) \<and> distinct (dict_keys t) \<Longrightarrow> fold merge_item items part = part @ items"
proof (induction items arbitrary: part)
  case (Cons x items)
  obtain k t where x: "x = (k, t)" by (cases x)
  have k: "k \<notin> set (dict_keys part)" "distinct (dict_keys t)" using Cons.prems(2) by (simp_all add: x)
  then have "map_of part k = None" by (simp add: keys_map_of)
  then have "merge_item x part = part @ [x]" using k dict_update_fresh [of "[]" t] by (simp add: x merge_item_def dict_set_fresh)
  moreover have "k' \<notin> set (dict_keys (part @ [x])) \<and> distinct (dict_keys t')" if "(k', t') \<in> set items" for k' t'
  proof -
    have "k' \<in> fst ` set items" using that by force
    then have "k' \<noteq> k" using Cons.prems(1) by (auto simp: x)
    then show ?thesis using Cons.prems(2) that by (auto simp: x dict_keys_def)
  qed
  then have "\<forall>(k', t') \<in> set items. k' \<notin> set (dict_keys (part @ [x])) \<and> distinct (dict_keys t')" by blast
  ultimately show ?case using Cons.IH [of "part @ [x]"] Cons.prems(1) by simp
qed simp

lemma running_uid_tag: "running_tag g = uid_tag g ''running''"
  by (simp add: running_tag_def uid_tag_def)

lemma part_key_kind:
  "part_ok S p part \<Longrightarrow> k \<in> set (dict_keys part) \<Longrightarrow> CHR ''_'' \<in> set k \<or> k \<in> pr_uid ` set (sy_prompts S)"
  by (fastforce simp: part_ok_def dict_keys_def)

lemma sync_growsI:
  assumes "sy_prompts T = sy_prompts S @ fresh" "\<forall>t \<in> set fresh. pr_ended t = None \<and> outputs_of t = {}"
    "set (sy_puts S) \<subseteq> set (sy_puts T)" "sy_gone S \<subseteq> sy_gone T" "sy_pads S \<subseteq> sy_pads T" "past_prompts S \<subseteq> past_prompts T"
  shows "sync_grows S T"
proof -
  have "\<forall>t \<in> past_prompts S. \<exists>t' \<in> past_prompts T. grows t t'" using assms(6) grows_refl by blast
  then show ?thesis unfolding sync_grows_def using assms(1-5) list_all2_grows_refl by blast
qed

lemma inv_dispatch:
  assumes inv: "sync_inv K S" and idle: "sy_pc S = Idle" and uids: "distinct uids" "\<forall>u \<in> set uids. uid_free S u"
  shows "sync_inv K (S\<lparr>sy_buffer := rb_add p (map (\<lambda>u. (u, running_tag g)) uids) (sy_buffer S),
      sy_prompts := sy_prompts S @ map (new_prompt p g n) uids, sy_pc := Waiting p g (length (sy_prompts S))\<rparr>)" (is "sync_inv K ?T")
proof -
  have ok: "prompts_ok S" "puts_ok S" "store_ok K S" "\<forall>x \<in> set (sy_poll S). items_ok S x" "\<And>p. part_ok S p (rb_partition p (sy_buffer S))" "pc_ok S"
    using inv by (simp_all add: sync_inv_def)
  let ?items = "map (\<lambda>u. (u, running_tag g)) uids" and ?part = "rb_partition p (sy_buffer S)"
  have past: "past_prompts ?T = set (sy_prompts S)" "past_prompts S = set (sy_prompts S)" by (simp_all add: past_prompts_def idle)
  have grow: "sync_grows S ?T" by (rule sync_growsI [of _ _ "map (new_prompt p g n) uids"]) (auto simp: past)
  have free: "CHR ''_'' \<notin> set u \<and> u \<notin> pr_uid ` set (sy_prompts S) \<and> u \<notin> sy_pads S" if "u \<in> set uids" for u
    using uids(2) that by (simp add: uid_free_def)
  have prompts: "prompts_ok ?T"
  proof -
    have "distinct (map pr_uid (sy_prompts S @ map (new_prompt p g n) uids))"
      using ok(1) uids(1) free by (auto simp: prompts_ok_def comp_def)
    then show ?thesis using ok(1) free unfolding prompts_ok_def by auto
  qed
  have puts: "puts_ok ?T" using ok(2) put_kind_mono [OF grow] unfolding puts_ok_def by auto
  have store: "store_ok K ?T" using ok(3) by (simp add: store_ok_def)
  have poll: "\<forall>x \<in> set (sy_poll ?T). items_ok ?T x" using ok(4) items_ok_mono [OF grow ok(1,2)] by simp
  have merged: "fold merge_item ?items ?part = ?part @ ?items"
  proof (rule merge_fresh)
    have "u \<notin> set (dict_keys ?part)" if "u \<in> set uids" for u
      using part_key_kind [OF ok(5), of u p] free [OF that] by blast
    then show "\<forall>(k, t) \<in> set ?items. k \<notin> set (dict_keys ?part) \<and> distinct (dict_keys t)"
      by (auto simp: running_tag_def dict_keys_def)
  qed (simp add: comp_def uids(1))
  have new_keys: "u \<notin> set (dict_keys ?part)" if "u \<in> set uids" for u
    using part_key_kind [OF ok(5), of u p] free [OF that] by blast
  have part: "part_ok ?T p (?part @ ?items)"
  proof -
    have dist: "distinct (dict_keys (?part @ ?items))"
      using ok(5) [of p] new_keys uids(1) by (auto simp: part_ok_def dict_keys_def comp_def)
    have pairs: "(\<exists>t \<in> set (sy_prompts ?T). pr_partition t = p \<and> key = pr_uid t \<and> (\<exists>st. (st = ''running'' \<or> pr_ended t = Some st) \<and> tag = uid_tag (pr_step t) st)) \<or>
        CHR ''_'' \<in> set key \<and> (p, key, tag) \<in> set (sy_puts ?T)" if kt: "(key, tag) \<in> set (?part @ ?items)" for key tag
    proof (cases "(key, tag) \<in> set ?part")
      case True
      then have "(\<exists>t \<in> set (sy_prompts S). pr_partition t = p \<and> key = pr_uid t \<and> (\<exists>st. (st = ''running'' \<or> pr_ended t = Some st) \<and> tag = uid_tag (pr_step t) st)) \<or>
        CHR ''_'' \<in> set key \<and> (p, key, tag) \<in> set (sy_puts S)" using ok(5) [of p] by (auto simp: part_ok_def)
      then show ?thesis by auto
    next
      case False
      then obtain u where "u \<in> set uids" "key = u" "tag = running_tag g" using kt by auto
      then have "new_prompt p g n u \<in> set (sy_prompts ?T)" "key = pr_uid (new_prompt p g n u)" "tag = uid_tag (pr_step (new_prompt p g n u)) ''running''"
        by (simp_all add: running_uid_tag)
      then show ?thesis using new_prompt_fields(2) by blast
    qed
    have members: "pr_uid t \<in> set (dict_keys (?part @ ?items)) \<and>
        (map_of (?part @ ?items) (pr_uid t) = Some (uid_tag (pr_step t) ''finished'') \<longrightarrow> holds_outputs ?T p (set (dict_keys (?part @ ?items))) t)"
      if t: "t \<in> set (sy_prompts ?T)" "pr_partition t = p" for t
    proof (cases "t \<in> set (sy_prompts S)")
      case True
      then have old: "pr_uid t \<in> set (dict_keys ?part)"
        "map_of ?part (pr_uid t) = Some (uid_tag (pr_step t) ''finished'') \<Longrightarrow> holds_outputs S p (set (dict_keys ?part)) t"
        using ok(5) [of p] t(2) by (simp_all add: part_ok_def)
      have "map_of (?part @ ?items) (pr_uid t) = map_of ?part (pr_uid t)" using old(1) by (auto simp: keys_map_of map_add_def split: option.splits)
      then show ?thesis using old by (auto simp: dict_keys_def intro: holds_outputs_mono)
    next
      case False
      then obtain u where u: "u \<in> set uids" "t = new_prompt p g n u" using t(1) by auto
      have "map_of ?items u = Some (running_tag g)" using u(1) map_of_keyed [of "\<lambda>u. running_tag g" uids u] by simp
      then have "map_of (?part @ ?items) u = Some (running_tag g)"
        using new_keys [OF u(1)] by (auto simp: keys_map_of map_add_def split: option.splits)
      then show ?thesis using u by (auto simp: dict_keys_def running_tag_def uid_tag_def)
    qed
    show ?thesis using dist pairs members unfolding part_ok_def by blast
  qed
  have others: "part_ok ?T p' (rb_partition p' (sy_buffer ?T))" for p'
  proof (cases "p' = p")
    case True
    then show ?thesis using part merged by (simp add: rb_partition_add)
  next
    case False
    have "part_ok ?T p' (rb_partition p' (sy_buffer S))"
      using False by (intro part_ok_grow [OF grow _ ok(1) ok(5)]) (auto intro: grows_refl)
    then show ?thesis using False by (simp add: rb_partition_add)
  qed
  have "\<forall>x \<in> sy_gone ?T. gone_kind ?T x" using ok(6) gone_kind_mono [OF grow] by (simp add: pc_ok_def)
  then have "pc_ok ?T" by (simp add: pc_ok_def)
  then show ?thesis using prompts puts store poll others by (simp add: sync_inv_def)
qed

lemma output_put:
  assumes "prompts_ok S" "puts_ok S" "(p, key, tag) \<in> set (sy_puts S)" "CHR ''_'' \<in> set key"
  shows "distinct (dict_keys tag) \<and> map_of tag ''status'' = Some (Tag_text ''success'') \<and>
    (\<exists>t \<in> set (sy_prompts S). pr_partition t = p \<and> map_of tag ''global_steps'' = Some (Tag_int (pr_step t)) \<and>
      ((key, tag) \<in> outputs_of t \<or> (\<exists>u \<in> sy_pads S. \<exists>n. key = output_key u n 0) \<and> t \<in> past_prompts S))"
proof -
  have sub: "past_prompts S \<subseteq> set (sy_prompts S)" by (auto simp: past_prompts_def split: trainer_pc.splits dest: in_set_takeD)
  have "put_kind S (p, key, tag)" using assms(2,3) by (auto simp: puts_ok_def)
  then consider (out) t where "t \<in> set (sy_prompts S)" "pr_partition t = p" "(key, tag) \<in> outputs_of t"
    | (uid) t where "t \<in> set (sy_prompts S)" "key = pr_uid t"
    | (pad) u n t where "u \<in> sy_pads S" "key = output_key u n 0" "t \<in> past_prompts S" "pr_partition t = p" "distinct (dict_keys tag)"
        "map_of tag ''global_steps'' = Some (Tag_int (pr_step t))" "map_of tag ''status'' = Some (Tag_text ''success'')"
    unfolding put_kind_def by auto
  then show ?thesis
  proof cases
    case out
    then obtain s k where "tag = success_tag (pr_step t) (session_outputs (pr_sessions t ! s) ! k)" by (auto simp: outputs_of_def)
    then have "distinct (dict_keys tag)" "map_of tag ''status'' = Some (Tag_text ''success'')" "map_of tag ''global_steps'' = Some (Tag_int (pr_step t))"
      by (simp_all add: success_tag_def dict_keys_def split: prod.splits)
    then show ?thesis using out by blast
  next
    case uid
    then show ?thesis using assms(1,4) by (auto simp: prompts_ok_def)
  next
    case pad
    then show ?thesis using sub by blast
  qed
qed

lemma part_tags:
  assumes "prompts_ok S" "puts_ok S" "part_ok S p part" "(key, tag) \<in> set part"
  shows "\<exists>t \<in> set (sy_prompts S). \<exists>st. pr_partition t = p \<and> map_of tag ''global_steps'' = Some (Tag_int (pr_step t)) \<and>
    map_of tag ''status'' = Some (Tag_text st) \<and> (st = ''success'' \<longrightarrow> CHR ''_'' \<in> set key \<and> (p, key, tag) \<in> set (sy_puts S))"
proof -
  consider (uid) t st where "t \<in> set (sy_prompts S)" "pr_partition t = p" "st = ''running'' \<or> pr_ended t = Some st" "tag = uid_tag (pr_step t) st"
    | (out) "CHR ''_'' \<in> set key" "(p, key, tag) \<in> set (sy_puts S)"
    using assms(3,4) unfolding part_ok_def by blast
  then show ?thesis
  proof cases
    case uid
    then have "st \<noteq> ''success''" using assms(1) by (auto simp: prompts_ok_def)
    then show ?thesis using uid by (auto simp: uid_tag_def)
  next
    case out
    then show ?thesis using output_put [OF assms(1,2) out(2,1)] by blast
  qed
qed

lemma scan_total:
  assumes "\<forall>(key, tag) \<in> set part. map_of tag ''global_steps'' \<noteq> None \<and> map_of tag ''status'' \<noteq> None"
  shows "\<exists>r. scan_tags g part = Inr r"
  using assms
proof (induction part)
  case (Cons x part)
  then obtain r where "scan_tags g part = Inr r" by auto
  then show ?case using Cons.prems by (cases x) (auto simp: dict_item_def split: option.splits)
qed simp

definition of_step :: "int \<Rightarrow> string \<times> tag \<Rightarrow> bool" where
  "of_step g = (\<lambda>(key, tag). map_of tag ''global_steps'' = Some (Tag_int g))"

definition is_success :: "string \<times> tag \<Rightarrow> bool" where
  "is_success = (\<lambda>(key, tag). map_of tag ''status'' = Some (Tag_text ''success''))"

lemma scan_found:
  assumes "scan_tags (Some g) part = Inr (Some found)"
  shows "found = filter (\<lambda>x. of_step g x \<and> is_success x) part \<and> (\<forall>(key, tag) \<in> set part. of_step g (key, tag) \<longrightarrow> map_of tag ''status'' \<noteq> Some (Tag_text ''running''))"
  using assms
proof (induction part arbitrary: found)
  case (Cons x part)
  obtain key tag where x: "x = (key, tag)" by (cases x)
  obtain step where step: "map_of tag ''global_steps'' = Some step" using Cons.prems by (auto simp: x dict_item_def split: option.splits)
  show ?case
  proof (cases "step = Tag_int g")
    case False
    then show ?thesis using Cons step by (auto simp: x dict_item_def of_step_def)
  next
    case True
    then obtain status where status: "map_of tag ''status'' = Some status" "status \<noteq> Tag_text ''running''"
      using Cons.prems step by (auto simp: x dict_item_def split: option.splits if_splits)
    obtain rest where rest: "scan_tags (Some g) part = Inr (Some rest)" "found = (if status = Tag_text ''success'' then x # rest else rest)"
      using Cons.prems True step status by (auto simp: x dict_item_def bind_r_Inr)
    show ?thesis using Cons.IH [OF rest(1)] rest(2) True step status by (simp add: x of_step_def is_success_def)
  qed
qed simp

lemma inv_sample_returns:
  assumes inv: "sync_inv K S" and pc: "sy_pc S = Waiting p g k"
    and b: "rb_sample_attempt p (Some g) None (sy_buffer S) = Inr (Some b)"
  shows "sync_inv K (S\<lparr>sy_pc := Holding b\<rparr>)" (is "sync_inv K ?T")
proof -
  have ok: "prompts_ok S" "puts_ok S" "store_ok K S" "\<forall>x \<in> set (sy_poll S). items_ok S x" "\<And>p. part_ok S p (rb_partition p (sy_buffer S))" "pc_ok S"
    using inv by (simp_all add: sync_inv_def)
  have "set (take k (sy_prompts S)) \<subseteq> set (sy_prompts S)" by (rule set_take_subset)
  then have grow: "sync_grows S ?T" by (intro sync_growsI [of _ _ "[]"]) (auto simp: past_prompts_def pc)
  obtain found where found: "scan_tags (Some g) (rb_partition p (sy_buffer S)) = Inr (Some found)"
    "b = \<lparr>kb_partition = p, kb_keys = map fst found, kb_tags = map snd found\<rparr>"
    using b by (auto simp: rb_sample_attempt_def bind_r_Inr require_Inr Let_def)
  have "CHR ''_'' \<in> set key \<and> (p, key, tag) \<in> set (sy_puts S)" if "(key, tag) \<in> set found" for key tag
  proof -
    have "(key, tag) \<in> set (rb_partition p (sy_buffer S))" "is_success (key, tag)" using that scan_found [OF found(1)] by auto
    then show ?thesis using part_tags [OF ok(1,2) ok(5), of key tag p] by (auto simp: is_success_def)
  qed
  then have batch: "\<forall>(key, tag) \<in> set (zip (kb_keys b) (kb_tags b)). CHR ''_'' \<in> set key \<and> (kb_partition b, key, tag) \<in> set (sy_puts S)"
    by (auto simp: found(2) zip_map_fst_snd)
  have "\<forall>x \<in> sy_gone ?T. gone_kind ?T x" using ok(6) gone_kind_mono [OF grow] by (simp add: pc_ok_def)
  then have "pc_ok ?T" using batch by (simp add: pc_ok_def found(2))
  moreover have "prompts_ok ?T" "store_ok K ?T" using ok(1,3) by (simp_all add: prompts_ok_def store_ok_def)
  moreover have "puts_ok ?T" using ok(2) put_kind_mono [OF grow] unfolding puts_ok_def by simp
  moreover have "\<forall>x \<in> set (sy_poll ?T). items_ok ?T x" using ok(4) items_ok_mono [OF grow ok(1,2)] by simp
  moreover have "\<forall>p. part_ok ?T p (rb_partition p (sy_buffer ?T))" using part_ok_mono [OF grow _ ok(1) ok(5)] by simp
  ultimately show ?thesis by (simp add: sync_inv_def)
qed

lemma sample_never_raises:
  assumes "sync_inv K S"
  shows "\<exists>r. rb_sample_attempt p (Some g) None (sy_buffer S) = Inr r"
proof -
  have ok: "prompts_ok S" "puts_ok S" "part_ok S p (rb_partition p (sy_buffer S))" using assms by (simp_all add: sync_inv_def)
  have "map_of tag ''global_steps'' \<noteq> None \<and> map_of tag ''status'' \<noteq> None" if "(key, tag) \<in> set (rb_partition p (sy_buffer S))" for key tag
    using part_tags [OF ok that] by auto
  then have "\<forall>(key, tag) \<in> set (rb_partition p (sy_buffer S)). map_of tag ''global_steps'' \<noteq> None \<and> map_of tag ''status'' \<noteq> None" by blast
  then obtain r where "scan_tags (Some g) (rb_partition p (sy_buffer S)) = Inr r" using scan_total by blast
  then show ?thesis by (simp add: rb_sample_attempt_def Let_def)
qed

lemma inv_pad:
  assumes K: "kv_store K" and inv: "sync_inv K S" and pc: "sy_pc S = Holding b" and ne: "kb_keys b \<noteq> []" and key: "pad_key = output_key u n 0"
    and u: "u \<in> sy_pads S \<or> uid_free S u" and fresh: "pad_key \<notin> (fst \<circ> snd) ` set (sy_puts S)" and tag: "pad_tag = padding_tag (hd (kb_tags b))"
  shows "sync_inv K ((put_entry K (kb_partition b) pad_key pad_tag S)
      \<lparr>sy_pads := insert u (sy_pads S), sy_pc := Holding (b\<lparr>kb_keys := kb_keys b @ [pad_key], kb_tags := kb_tags b @ [pad_tag]\<rparr>)\<rparr>)" (is "sync_inv K ?T")
proof -
  have ok: "prompts_ok S" "puts_ok S" "store_ok K S" "\<forall>x \<in> set (sy_poll S). items_ok S x" "\<And>p. part_ok S p (rb_partition p (sy_buffer S))" "pc_ok S"
    using inv by (simp_all add: sync_inv_def)
  have batch: "length (kb_tags b) = length (kb_keys b)"
    "\<forall>(key, tag) \<in> set (zip (kb_keys b) (kb_tags b)). CHR ''_'' \<in> set key \<and> (kb_partition b, key, tag) \<in> set (sy_puts S)"
    using ok(6) pc by (simp_all add: pc_ok_def)
  have past: "past_prompts ?T = set (sy_prompts S)" "past_prompts S = set (sy_prompts S)" by (simp_all add: past_prompts_def pc put_entry_def)
  have grow: "sync_grows S ?T" by (rule sync_growsI [of _ _ "[]"]) (simp_all only: past, auto simp: put_entry_def)
  have "(hd (kb_keys b), hd (kb_tags b)) \<in> set (zip (kb_keys b) (kb_tags b))"
    using ne batch(1) by (cases "kb_keys b"; cases "kb_tags b") auto
  then have "CHR ''_'' \<in> set (hd (kb_keys b))" "(kb_partition b, hd (kb_keys b), hd (kb_tags b)) \<in> set (sy_puts S)" using batch(2) by auto
  from output_put [OF ok(1,2) this(2,1)] obtain t where src: "distinct (dict_keys (hd (kb_tags b)))" "map_of (hd (kb_tags b)) ''status'' = Some (Tag_text ''success'')"
    "t \<in> set (sy_prompts S)" "pr_partition t = kb_partition b" "map_of (hd (kb_tags b)) ''global_steps'' = Some (Tag_int (pr_step t))" by blast
  have pad: "distinct (dict_keys pad_tag)" "map_of pad_tag ''status'' = Some (Tag_text ''success'')" "map_of pad_tag ''global_steps'' = Some (Tag_int (pr_step t))"
    unfolding tag padding_tag_def using src(1,2,5) by (simp_all add: map_of_dict_update)
  have "t \<in> past_prompts ?T" "u \<in> sy_pads ?T" unfolding past using src(3) by simp_all
  then have "put_kind ?T (kb_partition b, pad_key, pad_tag)"
    using pad src(4) key unfolding put_kind_def by blast
  moreover have "\<forall>x \<in> set (sy_puts S). put_kind ?T x" using ok(2) put_kind_mono [OF grow] unfolding puts_ok_def by blast
  moreover have "distinct (map (\<lambda>(p, key, tag). key) (sy_puts S @ [(kb_partition b, pad_key, pad_tag)]))"
    using ok(2) fresh by (force simp: puts_ok_def)
  ultimately have puts: "puts_ok ?T" using ok(2) unfolding puts_ok_def by (auto simp: put_entry_def)
  have "prompts_ok ?T" using ok(1) u unfolding prompts_ok_def uid_free_def put_entry_def by auto
  moreover have "store_ok K ?T" using store_put [OF K ok(3) fresh] by (simp add: store_ok_def)
  moreover have "\<forall>x \<in> set (sy_poll ?T). items_ok ?T x" using ok(4) items_ok_mono [OF grow ok(1,2)] by (simp add: put_entry_def)
  moreover have "\<forall>p. part_ok ?T p (rb_partition p (sy_buffer ?T))" using part_ok_mono [OF grow _ ok(1) ok(5)] by (simp add: put_entry_def)
  moreover have "pc_ok ?T"
  proof -
    have "\<forall>x \<in> sy_gone ?T. gone_kind ?T x" using ok(6) gone_kind_mono [OF grow] by (simp add: pc_ok_def put_entry_def)
    then show ?thesis using batch key output_key_underscore by (auto simp: pc_ok_def put_entry_def)
  qed
  ultimately show ?thesis using puts by (simp add: sync_inv_def)
qed

lemma inv_clear:
  assumes K: "kv_store K" and inv: "sync_inv K S" and pc: "sy_pc S = Holding b"
  shows "sync_inv K (S\<lparr>sy_store := kv_clear K (kb_partition b) (kb_keys b) (sy_store S),
      sy_gone := sy_gone S \<union> Pair (kb_partition b) ` set (kb_keys b), sy_pc := Clearing b\<rparr>)" (is "sync_inv K ?T")
proof -
  have ok: "prompts_ok S" "puts_ok S" "store_ok K S" "\<forall>x \<in> set (sy_poll S). items_ok S x" "\<And>p. part_ok S p (rb_partition p (sy_buffer S))" "pc_ok S"
    using inv by (simp_all add: sync_inv_def)
  have keys: "\<exists>tag. CHR ''_'' \<in> set key \<and> (kb_partition b, key, tag) \<in> set (sy_puts S)" if "key \<in> set (kb_keys b)" for key
  proof -
    have len: "length (kb_tags b) = length (kb_keys b)" using ok(6) pc by (simp add: pc_ok_def)
    obtain i where "i < length (kb_keys b)" "key = kb_keys b ! i" using \<open>key \<in> set (kb_keys b)\<close> by (auto simp: in_set_conv_nth)
    then have "(key, kb_tags b ! i) \<in> set (zip (kb_keys b) (kb_tags b))" using len by (auto simp: set_zip)
    then show ?thesis using ok(6) pc by (auto simp: pc_ok_def)
  qed
  have past: "past_prompts ?T = set (sy_prompts S)" "past_prompts S = set (sy_prompts S)" by (simp_all add: past_prompts_def pc)
  have grow: "sync_grows S ?T" by (rule sync_growsI [of _ _ "[]"]) (auto simp: past)
  have store: "store_ok K ?T"
  proof -
    have "\<exists>tag. (p, key, tag) \<in> set (sy_puts S)" if "(p, key) \<in> sy_gone ?T" for p key
      using that ok(3) keys by (auto simp: store_ok_def)
    moreover have "stored K (sy_store ?T) p key = Some tag \<longleftrightarrow> (p, key, tag) \<in> set (sy_puts ?T) \<and> (p, key) \<notin> sy_gone ?T" for p key tag
      using ok(3) kv_store.clear_stored [OF K, of "kb_partition b" "kb_keys b" "sy_store S" p key] by (auto simp: store_ok_def)
    ultimately show ?thesis unfolding store_ok_def by auto
  qed
  have gone: "gone_kind ?T x" if "x \<in> sy_gone ?T" for x
  proof (cases "x \<in> sy_gone S")
    case True
    then show ?thesis using ok(6) gone_kind_mono [OF grow] by (simp add: pc_ok_def)
  next
    case False
    from False that obtain key where x: "x = (kb_partition b, key)" "key \<in> set (kb_keys b)" by auto
    obtain tag where "CHR ''_'' \<in> set key" "(kb_partition b, key, tag) \<in> set (sy_puts S)" using keys [OF x(2)] by blast
    from output_put [OF ok(1,2) this(2,1)] show ?thesis unfolding gone_kind_def x(1) past by (auto simp: outputs_of_def)
  qed
  then have "pc_ok ?T" using keys by (auto simp: pc_ok_def)
  moreover have "prompts_ok ?T" using ok(1) by (simp add: prompts_ok_def)
  moreover have "puts_ok ?T" using ok(2) put_kind_mono [OF grow] unfolding puts_ok_def by simp
  moreover have "\<forall>x \<in> set (sy_poll ?T). items_ok ?T x" using ok(4) items_ok_mono [OF grow ok(1,2)] by simp
  moreover have "\<forall>p. part_ok ?T p (rb_partition p (sy_buffer ?T))" using part_ok_mono [OF grow _ ok(1) ok(5)] by simp
  ultimately show ?thesis using store by (simp add: sync_inv_def)
qed

lemma removed_lookup: "map_of (fold dict_del keys part) k = (if k \<in> set keys then None else map_of part k)"
  by (induction keys arbitrary: part) auto

lemma removed_distinct: "distinct (dict_keys part) \<Longrightarrow> distinct (dict_keys (fold dict_del keys part))"
  by (induction keys arbitrary: part) auto

lemma inv_remove:
  assumes inv: "sync_inv K S" and pc: "sy_pc S = Clearing b"
  shows "sync_inv K (S\<lparr>sy_buffer := rb_remove (kb_partition b) (kb_keys b) (sy_buffer S), sy_pc := Idle\<rparr>)" (is "sync_inv K ?T")
proof -
  have ok: "prompts_ok S" "puts_ok S" "store_ok K S" "\<forall>x \<in> set (sy_poll S). items_ok S x" "\<And>p. part_ok S p (rb_partition p (sy_buffer S))" "pc_ok S"
    using inv by (simp_all add: sync_inv_def)
  have past: "past_prompts ?T = past_prompts S" by (simp add: past_prompts_def pc)
  note same = same_inv_parts [of ?T S, simplified, OF past]
  have keys: "\<forall>key \<in> set (kb_keys b). CHR ''_'' \<in> set key \<and> (kb_partition b, key) \<in> sy_gone S" using ok(6) pc by (simp add: pc_ok_def)
  have "part_ok S p (rb_partition p (sy_buffer ?T))" for p
  proof (cases "p = kb_partition b")
    case False
    then show ?thesis using ok(5) by (simp add: rb_remove_def rb_partition_def)
  next
    case True
    let ?part = "rb_partition p (sy_buffer S)" and ?new = "fold dict_del (kb_keys b) (rb_partition p (sy_buffer S))"
    have dist: "distinct (dict_keys ?part)" using ok(5) [of p] by (simp add: part_ok_def)
    have new: "distinct (dict_keys ?new)" by (rule removed_distinct [OF dist])
    have sub: "set ?new \<subseteq> set ?part"
    proof
      fix x assume "x \<in> set ?new"
      then have "map_of ?new (fst x) = Some (snd x)" using new by (simp add: dict_keys_def)
      then have "map_of ?part (fst x) = Some (snd x)" by (simp add: removed_lookup split: if_splits)
      then show "x \<in> set ?part" using map_of_SomeD by fastforce
    qed
    have uid: "map_of ?new (pr_uid t) = map_of ?part (pr_uid t)" if "t \<in> set (sy_prompts S)" for t
      using that ok(1) keys by (auto simp: removed_lookup prompts_ok_def)
    have outs: "holds_outputs S p (set (dict_keys ?new)) t" if "holds_outputs S p (set (dict_keys ?part)) t" for t
    proof -
      have "key \<in> set (dict_keys ?new) \<or> (p, key) \<in> sy_gone S" if "key \<in> set (dict_keys ?part)" for key
        using that keys True by (auto simp: keys_map_of removed_lookup)
      then show ?thesis using that unfolding holds_outputs_def by fastforce
    qed
    have "part_ok S p ?new" unfolding part_ok_def
    proof (intro conjI)
      show "distinct (dict_keys ?new)" by (rule new)
      show "\<forall>(key, tag) \<in> set ?new. (\<exists>t \<in> set (sy_prompts S). pr_partition t = p \<and> key = pr_uid t \<and> (\<exists>st. (st = ''running'' \<or> pr_ended t = Some st) \<and> tag = uid_tag (pr_step t) st)) \<or>
          CHR ''_'' \<in> set key \<and> (p, key, tag) \<in> set (sy_puts S)" using sub ok(5) [of p] unfolding part_ok_def by blast
      show "\<forall>t \<in> set (sy_prompts S). pr_partition t = p \<longrightarrow> pr_uid t \<in> set (dict_keys ?new) \<and>
          (map_of ?new (pr_uid t) = Some (uid_tag (pr_step t) ''finished'') \<longrightarrow> holds_outputs S p (set (dict_keys ?new)) t)"
        using ok(5) [of p] uid outs unfolding part_ok_def by (simp add: keys_map_of)
    qed
    then show ?thesis using True by (simp add: rb_remove_def rb_partition_def)
  qed
  moreover have "pc_ok ?T" using ok(6) same(6) by (simp add: pc_ok_def)
  ultimately show ?thesis using inv by (simp add: sync_inv_def same)
qed

section \<open>The invariant holds in every run\<close>

lemma sync_step_inv:
  assumes K: "kv_store K" and "sync_step K S T" "sync_inv K S"
  shows "sync_inv K T"
  using assms(2,3)
proof cases
  case (dispatch uids p g n)
  then show ?thesis using inv_dispatch [OF assms(3)] by simp
next
  case (generated i s outs)
  then show ?thesis using inv_silent_session [OF K assms(3)] by simp
next
  case (store_output i t s outs k)
  then show ?thesis using inv_store_output [OF K assms(3)] by simp
next
  case (session_raises i s ses ses')
  have "session_outputs (case x of Storing outs k \<Rightarrow> Raised outs k | _ \<Rightarrow> Raised [] 0) = session_outputs x"
    if "\<not> has_returned x" "\<not> has_raised x" for x using that by (cases x) simp_all
  then have "session_outputs ses' = session_outputs ses" using session_raises(5-7) by blast
  then show ?thesis using session_raises inv_silent_session [OF K assms(3)] by simp
next
  case (prompt_finishes i t)
  then show ?thesis using inv_prompt_ends [OF K assms(3), of i t "''finished''"] by simp
next
  case (prompt_fails i t)
  then show ?thesis using inv_prompt_ends [OF K assms(3), of i t "''failure''"] by simp
next
  case poll_list
  then show ?thesis using inv_poll_list [OF K assms(3)] by simp
next
  case (poll_add p items rest)
  then show ?thesis using inv_poll_add [OF assms(3)] by simp
next
  case (sample_returns p g k b)
  then show ?thesis using inv_sample_returns [OF assms(3)] by simp
next
  case (sample_raises p g k e)
  then show ?thesis using sample_never_raises [OF assms(3), of p g] by auto
next
  case (pad_batch b pad_key u n pad_tag)
  then show ?thesis using inv_pad [OF K assms(3)] by simp
next
  case (clear b)
  then show ?thesis using inv_clear [OF K assms(3)] by simp
next
  case (remove b)
  then show ?thesis using inv_remove [OF assms(3)] by simp
qed simp

definition empty_store :: "'q kv_ops \<Rightarrow> 'q \<Rightarrow> bool" where
  "empty_store K q \<longleftrightarrow> (\<forall>p key. stored K q p key = None)"

lemma sync_start_inv: "empty_store K q \<Longrightarrow> sync_inv K (sync_start q)"
  by (simp add: sync_inv_def prompts_ok_def puts_ok_def store_ok_def part_ok_def pc_ok_def sync_start_def rb_partition_def empty_store_def dict_keys_def)

lemma sync_reachable_inv:
  assumes "kv_store K" "empty_store K q" "sync_reachable K q S"
  shows "sync_inv K S"
  using assms(3) by (induction rule: sync_reachable.induct) (auto intro: sync_start_inv [OF assms(2)] sync_step_inv [OF assms(1)])

section \<open>Properties\<close>

text \<open>C2 The batch of a step is complete: when \<open>sample\<close> returns, every prompt of the round has ended, the batch holds every
  output of every finished prompt, with its tags, and otherwise only outputs of prompts of the round, each once. The
  step must be new: no earlier round of the partition had it.\<close>

theorem sampled_batch_complete:
  assumes "kv_store K" "empty_store K q" "sync_reachable K q S" "sy_pc S = Waiting p g k"
    and new: "\<forall>t \<in> set (take k (sy_prompts S)). \<not> (pr_partition t = p \<and> pr_step t = g)"
    and b: "rb_sample_attempt p (Some g) None (sy_buffer S) = Inr (Some b)"
  shows "distinct (kb_keys b) \<and> (\<forall>t \<in> set (drop k (sy_prompts S)). pr_ended t \<noteq> None \<and>
      (pr_ended t = Some ''finished'' \<longrightarrow> outputs_of t \<subseteq> set (zip (kb_keys b) (kb_tags b)))) \<and>
    set (zip (kb_keys b) (kb_tags b)) \<subseteq> (\<Union>t \<in> set (drop k (sy_prompts S)). outputs_of t)"
proof -
  have inv: "sync_inv K S" by (rule sync_reachable_inv [OF assms(1-3)])
  let ?part = "rb_partition p (sy_buffer S)"
  have ok: "prompts_ok S" "puts_ok S" "part_ok S p ?part" "pc_ok S" using inv by (simp_all add: sync_inv_def)
  have dist: "distinct (dict_keys ?part)" using ok(3) by (simp add: part_ok_def)
  obtain found where found: "scan_tags (Some g) ?part = Inr (Some found)" "b = \<lparr>kb_partition = p, kb_keys = map fst found, kb_tags = map snd found\<rparr>"
    using b by (auto simp: rb_sample_attempt_def bind_r_Inr require_Inr Let_def)
  have zip: "set (zip (kb_keys b) (kb_tags b)) = set found" by (simp add: found(2) zip_map_fst_snd)
  have scan: "found = filter (\<lambda>x. of_step g x \<and> is_success x) ?part"
    "\<And>key tag. (key, tag) \<in> set ?part \<Longrightarrow> of_step g (key, tag) \<Longrightarrow> map_of tag ''status'' \<noteq> Some (Tag_text ''running'')"
    using scan_found [OF found(1)] by auto
  have keys: "distinct (kb_keys b)" using dist by (simp add: found(2) scan(1) dict_keys_def distinct_map_filter)
  have members: "set (sy_prompts S) = set (take k (sy_prompts S)) \<union> set (drop k (sy_prompts S))" by (metis append_take_drop_id set_append)
  have inj: "t = t'" if "t \<in> set (sy_prompts S)" "t' \<in> set (sy_prompts S)" "pr_uid t = pr_uid t'" for t t'
    using that ok(1) by (auto simp: prompts_ok_def distinct_map dest: inj_onD)
  have past: "past_prompts S = set (take k (sy_prompts S))" by (simp add: past_prompts_def assms(4))
  have "(key, tag) \<in> (\<Union>t \<in> set (drop k (sy_prompts S)). outputs_of t)" if "(key, tag) \<in> set found" for key tag
  proof -
    have kt: "(key, tag) \<in> set ?part" "map_of tag ''global_steps'' = Some (Tag_int g)" "is_success (key, tag)"
      using that by (auto simp: scan(1) of_step_def)
    have put: "CHR ''_'' \<in> set key" "(p, key, tag) \<in> set (sy_puts S)"
      using part_tags [OF ok(1-3) kt(1)] kt(3) by (auto simp: is_success_def)
    obtain t where "t \<in> set (sy_prompts S)" "pr_partition t = p" "pr_step t = g" "(key, tag) \<in> outputs_of t \<or> t \<in> past_prompts S"
      using output_put [OF ok(1,2) put(2,1)] kt(2) by auto
    then show ?thesis using new members past by auto
  qed
  moreover have "pr_ended t \<noteq> None \<and> (pr_ended t = Some ''finished'' \<longrightarrow> outputs_of t \<subseteq> set found)" if t: "t \<in> set (drop k (sy_prompts S))" for t
  proof -
    have round: "pr_partition t = p" "pr_step t = g" "t \<in> set (sy_prompts S)" using ok(4) assms(4) t members by (auto simp: pc_ok_def)
    have "pr_uid t \<in> set (dict_keys ?part)" using ok(3) round by (simp add: part_ok_def)
    then obtain tag where tag: "map_of ?part (pr_uid t) = Some tag" by (auto simp: keys_map_of)
    obtain st where st: "st = ''running'' \<or> pr_ended t = Some st" "tag = uid_tag g st"
      using part_prompt_tag [OF ok(1,3) round(3) tag] round(2) by blast
    have "st \<noteq> ''running''" using scan(2) [OF map_of_SomeD [OF tag]] by (auto simp: st(2) of_step_def uid_tag_def)
    then have ended: "pr_ended t = Some st" using st(1) by simp
    have "(key, otag) \<in> set found" if fin: "pr_ended t = Some ''finished''" and out: "(key, otag) \<in> outputs_of t" for key otag
    proof -
      have "holds_outputs S p (set (dict_keys ?part)) t" using ok(3) round tag st(2) ended fin by (simp add: part_ok_def)
      then have "key \<in> set (dict_keys ?part) \<or> (p, key) \<in> sy_gone S" using out by (auto simp: holds_outputs_def)
      moreover have "(p, key) \<notin> sy_gone S"
      proof
        assume "(p, key) \<in> sy_gone S"
        then have "gone_kind S (p, key)" using ok(4) by (simp add: pc_ok_def)
        moreover obtain s j where "key = output_key (pr_uid t) s j" using out by (auto simp: outputs_of_def)
        ultimately consider (prompt) t' where "t' \<in> past_prompts S" "pr_uid t' = pr_uid t" | (pad) "pr_uid t \<in> sy_pads S"
          by (auto simp: gone_kind_def)
        then show False
        proof cases
          case prompt
          then have "t' = t" using inj [of t' t] round(3) past by (auto dest: in_set_takeD)
          then show False using prompt(1) new round past by auto
        next
          case pad
          then show False using ok(1) round(3) by (simp add: prompts_ok_def)
        qed
      qed
      ultimately obtain tag' where tag': "map_of ?part key = Some tag'" by (auto simp: keys_map_of)
      have put: "(p, key, otag) \<in> set (sy_puts S)" using ok(2) round(1,3) out by (auto simp: puts_ok_def)
      have under: "CHR ''_'' \<in> set key" using out output_key_underscore by (auto simp: outputs_of_def)
      have "\<forall>t \<in> set (sy_prompts S). key \<noteq> pr_uid t" using ok(1) under by (auto simp: prompts_ok_def)
      then have "(p, key, tag') \<in> set (sy_puts S)" using ok(3) map_of_SomeD [OF tag'] unfolding part_ok_def by blast
      then have "tag' = otag" using put_functional [OF ok(2) put] by blast
      then have "(key, otag) \<in> set ?part" using map_of_SomeD [OF tag'] by simp
      moreover obtain s j where "otag = success_tag g (session_outputs (pr_sessions t ! s) ! j)" using out round(2) by (auto simp: outputs_of_def)
      ultimately show ?thesis by (auto simp: scan(1) of_step_def is_success_def success_tag_def split: prod.splits)
    qed
    then show ?thesis using ended by auto
  qed
  ultimately show ?thesis using keys unfolding zip by auto
qed

text \<open>A prompt is never removed, neither from the buffer nor, once it has ended, from the queue.\<close>

theorem prompts_are_never_removed:
  assumes "kv_store K" "empty_store K q" "sync_reachable K q S" "t \<in> set (sy_prompts S)"
  shows "pr_uid t \<in> set (dict_keys (rb_partition (pr_partition t) (sy_buffer S))) \<and>
    (pr_ended t = Some st \<longrightarrow> stored K (sy_store S) (pr_partition t) (pr_uid t) = Some (end_tag st))"
proof -
  have inv: "sync_inv K S" by (rule sync_reachable_inv [OF assms(1-3)])
  then have ok: "prompts_ok S" "puts_ok S" "store_ok K S" "part_ok S (pr_partition t) (rb_partition (pr_partition t) (sy_buffer S))" "pc_ok S"
    by (simp_all add: sync_inv_def)
  have "(pr_partition t, pr_uid t) \<notin> sy_gone S"
  proof
    assume "(pr_partition t, pr_uid t) \<in> sy_gone S"
    then have "CHR ''_'' \<in> set (pr_uid t)" using ok(5) output_key_underscore by (auto simp: pc_ok_def gone_kind_def)
    then show False using ok(1) assms(4) by (simp add: prompts_ok_def)
  qed
  then show ?thesis using ok(2-4) assms(4) by (auto simp: part_ok_def puts_ok_def store_ok_def)
qed

section \<open>Runs\<close>

text \<open>The actions as functions, to follow concrete runs; None means that the action is not enabled.\<close>

datatype sync_action = Dispatch string int "string list" nat | Generate nat nat "(nat \<times> nat) list" | Store nat nat | End_prompt nat
  | Poll_list | Poll_add | Take_sample | Clear | Remove

fun sync_act :: "'q kv_ops \<Rightarrow> sync_action \<Rightarrow> 'q sync \<Rightarrow> 'q sync option" where
  "sync_act K (Dispatch p g uids n) S =
     (if sy_pc S = Idle \<and> distinct uids \<and> list_all (uid_free S) uids
      then Some (S\<lparr>sy_buffer := rb_add p (map (\<lambda>u. (u, running_tag g)) uids) (sy_buffer S),
        sy_prompts := sy_prompts S @ map (new_prompt p g n) uids, sy_pc := Waiting p g (length (sy_prompts S))\<rparr>) else None)"
| "sync_act K (Generate i s outs) S =
     (if i < length (sy_prompts S) \<and> s < length (pr_sessions (sy_prompts S ! i)) \<and> pr_sessions (sy_prompts S ! i) ! s = Generating
      then Some (set_session i s (if outs = [] then Returned [] else Storing outs 0) S) else None)"
| "sync_act K (Store i s) S =
     (if i < length (sy_prompts S) \<and> s < length (pr_sessions (sy_prompts S ! i))
      then let t = sy_prompts S ! i in (case pr_sessions t ! s of
        Storing outs k \<Rightarrow> if k < length outs then Some (set_session i s (if k + 1 = length outs then Returned outs else Storing outs (k + 1))
          (put_entry K (pr_partition t) (output_key (pr_uid t) s k) (success_tag (pr_step t) (outs ! k)) S)) else None
      | _ \<Rightarrow> None) else None)"
| "sync_act K (End_prompt i) S =
     (if i < length (sy_prompts S) \<and> pr_ended (sy_prompts S ! i) = None \<and> list_all has_returned (pr_sessions (sy_prompts S ! i))
      then let t = sy_prompts S ! i in Some ((put_entry K (pr_partition t) (pr_uid t) (end_tag ''finished'') S)
        \<lparr>sy_prompts := (sy_prompts S)[i := t\<lparr>pr_ended := Some ''finished''\<rparr>]\<rparr>) else None)"
| "sync_act K Poll_list S =
     (if sy_poll S = [] then Some (S\<lparr>sy_poll := (case kv_list K (sy_store S) of None \<Rightarrow> [] | Some d \<Rightarrow> d)\<rparr>) else None)"
| "sync_act K Poll_add S = (case sy_poll S of [] \<Rightarrow> None
     | (p, items) # rest \<Rightarrow> Some (S\<lparr>sy_buffer := rb_add p items (sy_buffer S), sy_poll := rest\<rparr>))"
| "sync_act K Take_sample S = (case sy_pc S of
       Waiting p g k \<Rightarrow> (case rb_sample_attempt p (Some g) None (sy_buffer S) of Inr (Some b) \<Rightarrow> Some (S\<lparr>sy_pc := Holding b\<rparr>) | _ \<Rightarrow> None)
     | _ \<Rightarrow> None)"
| "sync_act K Clear S = (case sy_pc S of
       Holding b \<Rightarrow> Some (S\<lparr>sy_store := kv_clear K (kb_partition b) (kb_keys b) (sy_store S),
         sy_gone := sy_gone S \<union> Pair (kb_partition b) ` set (kb_keys b), sy_pc := Clearing b\<rparr>)
     | _ \<Rightarrow> None)"
| "sync_act K Remove S = (case sy_pc S of
       Clearing b \<Rightarrow> Some (S\<lparr>sy_buffer := rb_remove (kb_partition b) (kb_keys b) (sy_buffer S), sy_pc := Idle\<rparr>)
     | _ \<Rightarrow> None)"

lemma sync_act_step: "sync_act K a S = Some T \<Longrightarrow> sync_step K S T"
proof (induction a)
  case (Generate i s outs)
  then have *: "i < length (sy_prompts S)" "s < length (pr_sessions (sy_prompts S ! i))" "pr_sessions (sy_prompts S ! i) ! s = Generating"
      "T = set_session i s (if outs = [] then Returned [] else Storing outs 0) S"
    by (auto split: if_splits)
  show ?case unfolding *(4) by (rule sync_step.generated [OF *(1-3)])
next
  case (Store i s)
  then obtain outs k where *: "i < length (sy_prompts S)" "s < length (pr_sessions (sy_prompts S ! i))"
      "pr_sessions (sy_prompts S ! i) ! s = Storing outs k" "k < length outs"
      "T = set_session i s (if k + 1 = length outs then Returned outs else Storing outs (k + 1))
        (put_entry K (pr_partition (sy_prompts S ! i)) (output_key (pr_uid (sy_prompts S ! i)) s k) (success_tag (pr_step (sy_prompts S ! i)) (outs ! k)) S)"
    by (auto simp: Let_def split: if_splits session.splits)
  show ?case unfolding *(5) by (rule sync_step.store_output [OF *(1) refl *(2-4)])
next
  case Take_sample
  then show ?case by (auto split: trainer_pc.splits sum.splits option.splits intro: sync_step.sample_returns)
qed (auto simp: Let_def list_all_iff split: if_splits list.splits trainer_pc.splits intro: sync_step.intros)

fun sync_run :: "'q kv_ops \<Rightarrow> sync_action list \<Rightarrow> 'q sync \<Rightarrow> 'q sync option" where
  "sync_run K [] S = Some S"
| "sync_run K (a # as) S = (case sync_act K a S of None \<Rightarrow> None | Some T \<Rightarrow> sync_run K as T)"

lemma sync_run_reachable: "sync_reachable K q S \<Longrightarrow> sync_run K as S = Some T \<Longrightarrow> sync_reachable K q T"
proof (induction as arbitrary: S)
  case (Cons a as)
  then obtain S1 where S1: "sync_act K a S = Some S1" "sync_run K as S1 = Some T" by (auto split: option.splits)
  from Cons.IH [OF sync_reachable.step [OF Cons.prems(1) sync_act_step [OF S1(1)]] S1(2)] show ?case .
qed simp

lemma empty_list_store: "empty_store list_store []"
  by (simp add: empty_store_def stored_list_store)

definition one_round :: "sync_action list" where
  "one_round = [Dispatch ''train'' 1 [''a''] 1, Generate 0 0 [(2, 3)], Store 0 0, End_prompt 0, Poll_list, Poll_add]"

definition two_validation_batches :: "sync_action list" where
  "two_validation_batches = [Dispatch ''val'' 0 [''a''] 1, Generate 0 0 [(1, 1)], Store 0 0, End_prompt 0, Poll_list, Poll_add, Poll_list,
     Take_sample, Clear, Remove, Poll_add, Dispatch ''val'' 0 [''b''] 1, Generate 1 0 [], End_prompt 1, Poll_list, Poll_add]"

lemma one_round_runs: "map_option (\<lambda>T. (sy_pc T, rb_sample_attempt ''train'' (Some 1) None (sy_buffer T))) (sync_run list_store one_round (sync_start [])) =
    Some (Waiting ''train'' 1 0, Inr (Some \<lparr>kb_partition = ''train'', kb_keys = [''a_0_0''], kb_tags = [success_tag 1 (2, 3)]\<rparr>))"
  by code_simp


lemma one_round_state:
  obtains S where "sync_reachable list_store [] S" "sync_run list_store one_round (sync_start []) = Some S"
    "sy_pc S = Waiting ''train'' 1 0"
    "rb_sample_attempt ''train'' (Some 1) None (sy_buffer S) = Inr (Some \<lparr>kb_partition = ''train'', kb_keys = [''a_0_0''], kb_tags = [success_tag 1 (2, 3)]\<rparr>)"
  using one_round_runs sync_run_reachable [OF sync_reachable.start, of list_store one_round "[]"] by (auto simp: map_option_case split: option.splits)

theorem sampled_batch_witness:
  "\<exists>S b. sync_run list_store one_round (sync_start []) = Some S \<and> rb_sample_attempt ''train'' (Some 1) None (sy_buffer S) = Inr (Some b) \<and>
    kb_keys b = [''a_0_0''] \<and> distinct (kb_keys b) \<and> (\<forall>t \<in> set (sy_prompts S). pr_ended t \<noteq> None)"
proof -
  obtain S where S: "sync_reachable list_store [] S" "sync_run list_store one_round (sync_start []) = Some S" "sy_pc S = Waiting ''train'' 1 0"
    "rb_sample_attempt ''train'' (Some 1) None (sy_buffer S) = Inr (Some \<lparr>kb_partition = ''train'', kb_keys = [''a_0_0''], kb_tags = [success_tag 1 (2, 3)]\<rparr>)"
    by (rule one_round_state)
  show ?thesis using sampled_batch_complete [OF listed.kv_store_axioms empty_list_store S(1,3) _ S(4)] S(2,4) by simp
qed

theorem prompts_are_never_removed_witness:
  "\<exists>S t. sync_run list_store one_round (sync_start []) = Some S \<and> t \<in> set (sy_prompts S) \<and>
     stored list_store (sy_store S) (pr_partition t) (pr_uid t) = Some (end_tag ''finished'')"
proof -
  have run: "map_option (\<lambda>T. map pr_ended (sy_prompts T)) (sync_run list_store one_round (sync_start [])) = Some [Some ''finished'']" by code_simp
  then obtain S where S: "sync_run list_store one_round (sync_start []) = Some S" "map pr_ended (sy_prompts S) = [Some ''finished'']" by auto
  then obtain t where t: "t \<in> set (sy_prompts S)" "pr_ended t = Some ''finished''" by (cases "sy_prompts S") auto
  show ?thesis using prompts_are_never_removed [OF listed.kv_store_axioms empty_list_store sync_run_reachable [OF sync_reachable.start S(1)] t(1)] S(1) t by blast
qed

lemma stale_run: "map_option (\<lambda>T. (sy_pc T, rb_sample_attempt ''val'' (Some 0) None (sy_buffer T), stored list_store (sy_store T) ''val'' ''a_0_0''))
    (sync_run list_store two_validation_batches (sync_start [])) =
    Some (Waiting ''val'' 0 1, Inr (Some \<lparr>kb_partition = ''val'', kb_keys = [''a_0_0''], kb_tags = [success_tag 0 (1, 1)]\<rparr>), None)"
  by code_simp


text \<open>C36 Two rounds with the same step, as the batches of one validation have, can mix: when the poll thread lists the queue before
  the first batch is cleared and merges it after the batch is removed, the second batch holds a key of the first, which the
  queue no longer has.\<close>

theorem stale_keys_are_sampled:
  "\<exists>S b key. sync_reachable list_store [] S \<and> sy_pc S = Waiting ''val'' 0 1 \<and> rb_sample_attempt ''val'' (Some 0) None (sy_buffer S) = Inr (Some b) \<and>
     key \<in> set (kb_keys b) \<and> stored list_store (sy_store S) ''val'' key = None"
proof -
  obtain S where S: "sync_run list_store two_validation_batches (sync_start []) = Some S" "sy_pc S = Waiting ''val'' 0 1"
    "rb_sample_attempt ''val'' (Some 0) None (sy_buffer S) = Inr (Some \<lparr>kb_partition = ''val'', kb_keys = [''a_0_0''], kb_tags = [success_tag 0 (1, 1)]\<rparr>)"
    "stored list_store (sy_store S) ''val'' ''a_0_0'' = None"
    using stale_run by auto
  have "sync_reachable list_store [] S" by (rule sync_run_reachable [OF sync_reachable.start S(1)])
  then show ?thesis using S by (intro exI [of _ S] exI [of _ "\<lparr>kb_partition = ''val'', kb_keys = [''a_0_0''], kb_tags = [success_tag 0 (1, 1)]\<rparr>"] exI [of _ "''a_0_0''"]) simp
qed

text \<open>\<open>sample\<close> with a batch size does not sample: it returns an empty batch.\<close>

theorem batch_size_is_ignored:
  assumes "\<forall>(key, tag) \<in> set (rb_partition p rb). map_of tag ''global_steps'' \<noteq> None" "n \<noteq> 0"
  shows "rb_sample_attempt p None (Some n) rb = Inr (Some \<lparr>kb_partition = p, kb_keys = [], kb_tags = []\<rparr>)"
proof -
  have "scan_tags None part = Inr (Some [])" if "\<forall>(key, tag) \<in> set part. map_of tag ''global_steps'' \<noteq> None" for part
    using that by (induction part) (auto simp: dict_item_def split: option.splits)
  then show ?thesis using assms by (simp add: rb_sample_attempt_def Let_def)
qed

section \<open>A round that has ended is sampled\<close>

definition drain :: "'q sync \<Rightarrow> 'q sync" where
  "drain S = S\<lparr>sy_buffer := fold (\<lambda>(p, items). rb_add p items) (sy_poll S) (sy_buffer S), sy_poll := []\<rparr>"

lemma drain_steps: "(sync_step K)\<^sup>*\<^sup>* S (drain S)"
proof (induction "sy_poll S" arbitrary: S)
  case Nil
  have "drain S = S" unfolding drain_def using Nil by simp
  then show ?case by simp
next
  case (Cons x rest)
  obtain p items where x: "x = (p, items)" by (cases x)
  let ?T = "S\<lparr>sy_buffer := rb_add p items (sy_buffer S), sy_poll := rest\<rparr>"
  have "sync_step K S ?T" using Cons(2) x by (intro sync_step.poll_add) simp
  moreover have "(sync_step K)\<^sup>*\<^sup>* ?T (drain ?T)" by (rule Cons(1)) simp
  moreover have "drain ?T = drain S" using Cons(2) [symmetric] by (simp add: drain_def x)
  ultimately show ?case by (metis converse_rtranclp_into_rtranclp)
qed

lemma drained_partition:
  assumes "distinct (dict_keys d)"
  shows "rb_partition p (fold (\<lambda>(p, items). rb_add p items) d rb) =
    (case map_of d p of None \<Rightarrow> rb_partition p rb | Some items \<Rightarrow> fold merge_item items (rb_partition p rb))"
  using assms
proof (induction d arbitrary: rb)
  case (Cons x d)
  obtain p' items where x: "x = (p', items)" by (cases x)
  have "p' \<notin> set (dict_keys d)" "distinct (dict_keys d)" using Cons.prems by (auto simp: x dict_keys_def)
  then show ?case using Cons.IH [of "rb_add p' items rb"] by (auto simp: x rb_partition_add keys_map_of split: option.splits)
qed simp

lemma scan_returns:
  assumes "\<forall>(key, tag) \<in> set part. map_of tag ''global_steps'' \<noteq> None \<and> map_of tag ''status'' \<noteq> None \<and>
    (of_step g (key, tag) \<longrightarrow> map_of tag ''status'' \<noteq> Some (Tag_text ''running''))"
  shows "\<exists>found. scan_tags (Some g) part = Inr (Some found)"
  using assms
proof (induction part)
  case (Cons x part)
  then obtain found where "scan_tags (Some g) part = Inr (Some found)" by auto
  then show ?case using Cons.prems by (cases x) (auto simp: dict_item_def of_step_def split: option.splits)
qed simp

lemma reachable_steps: "(sync_step K)\<^sup>*\<^sup>* S T \<Longrightarrow> sync_reachable K q S \<Longrightarrow> sync_reachable K q T"
  by (induction rule: rtranclp_induct) (auto intro: sync_reachable.step)

text \<open>C7 The trainer does not wait for ever: once every prompt of a new step has ended, finished or failed, the poll thread alone
  leads to a state in which \<open>sample\<close> returns.\<close>

theorem ended_round_is_sampled:
  assumes K: "kv_store K" and q: "empty_store K q" and S: "sync_reachable K q S" and pc: "sy_pc S = Waiting p g k"
    and new: "\<forall>t \<in> set (take k (sy_prompts S)). \<not> (pr_partition t = p \<and> pr_step t = g)"
    and ended: "\<forall>t \<in> set (drop k (sy_prompts S)). pr_ended t \<noteq> None"
  shows "\<exists>T b. (sync_step K)\<^sup>*\<^sup>* S T \<and> sy_prompts T = sy_prompts S \<and> sy_pc T = Waiting p g k \<and> rb_sample_attempt p (Some g) None (sy_buffer T) = Inr (Some b)"
proof -
  define d where "d = (case kv_list K (sy_store S) of None \<Rightarrow> [] | Some d \<Rightarrow> d)"
  let ?S1 = "drain S" let ?S2 = "?S1\<lparr>sy_poll := d\<rparr>" let ?T = "drain ?S2"
  have same: "sy_prompts ?T = sy_prompts S" "sy_store ?T = sy_store S" "sy_pc ?T = sy_pc S" by (simp_all add: drain_def)
  have "sync_step K ?S1 ?S2" unfolding d_def using sync_step.poll_list [of ?S1 K] by (simp add: drain_def)
  then have steps: "(sync_step K)\<^sup>*\<^sup>* S ?T" using drain_steps [of K S] drain_steps [of K ?S2] by (meson rtranclp.rtrancl_into_rtrancl rtranclp_trans)
  have reach: "sync_reachable K q ?T" by (rule reachable_steps [OF steps S])
  have inv: "sync_inv K ?T" by (rule sync_reachable_inv [OF K q reach])
  let ?part = "rb_partition p (sy_buffer ?T)" and ?before = "rb_partition p (sy_buffer ?S1)"
  have ok: "prompts_ok ?T" "puts_ok ?T" "part_ok ?T p ?part" using inv by (simp_all add: sync_inv_def)
  have d: "distinct (dict_keys d)" "\<And>p items. (p, items) \<in> set d \<Longrightarrow> distinct (dict_keys items)"
    using kv_store.list_distinct [OF K, of "sy_store S"] by (cases "kv_list K (sy_store S)"; fastforce simp: d_def dict_keys_def)+
  have not_running: "map_of ?part (pr_uid t) \<noteq> Some (uid_tag g ''running'')"
    if t: "t \<in> set (sy_prompts S)" "pr_partition t = p" "pr_step t = g" for t
  proof -
    have "set (sy_prompts S) = set (take k (sy_prompts S)) \<union> set (drop k (sy_prompts S))" by (metis append_take_drop_id set_append)
    then have "t \<in> set (drop k (sy_prompts S))" using t new by auto
    then obtain st where st: "pr_ended t = Some st" using ended by auto
    have stored: "stored K (sy_store S) p (pr_uid t) = Some (end_tag st)"
    proof -
      have "sync_inv K S" by (rule sync_reachable_inv [OF K q S])
      then have old: "prompts_ok S" "puts_ok S" "store_ok K S" "pc_ok S" by (simp_all add: sync_inv_def)
      have "(p, pr_uid t) \<notin> sy_gone S"
        using old(1,4) t(1) output_key_underscore by (fastforce simp: pc_ok_def gone_kind_def prompts_ok_def)
      moreover have "(p, pr_uid t, end_tag st) \<in> set (sy_puts S)" using old(2) t st by (auto simp: puts_ok_def)
      ultimately show ?thesis using old(3) by (simp add: store_ok_def)
    qed
    then obtain items where items: "map_of d p = Some items" "map_of items (pr_uid t) = Some (end_tag st)"
      by (auto simp: stored_def d_def split: option.splits)
    have "?part = fold merge_item items ?before"
      using drained_partition [OF d(1), of p "sy_buffer ?S1"] items(1) by (simp add: drain_def)
    then have "\<exists>old. map_of ?part (pr_uid t) = Some (dict_update old (end_tag st))"
      using map_of_merged [OF d(2) [OF map_of_SomeD [OF items(1)]], of ?before "pr_uid t"] items(2) by auto
    then obtain old where old: "map_of ?part (pr_uid t) = Some (dict_update old (end_tag st))" by blast
    then have "map_of (dict_update old (end_tag st)) ''status'' = Some (Tag_text st)" by (simp add: end_tag_def)
    moreover have "st \<noteq> ''running''" using ok(1) t(1) st same(1) by (auto simp: prompts_ok_def)
    ultimately show ?thesis using old by (auto simp: uid_tag_def)
  qed
  have dist: "distinct (dict_keys ?part)" using ok(3) by (simp add: part_ok_def)
  have fine: "map_of tag ''global_steps'' \<noteq> None \<and> map_of tag ''status'' \<noteq> None \<and>
    (of_step g (key, tag) \<longrightarrow> map_of tag ''status'' \<noteq> Some (Tag_text ''running''))" if kt: "(key, tag) \<in> set ?part" for key tag
  proof -
    consider (uid) t st where "t \<in> set (sy_prompts S)" "pr_partition t = p" "key = pr_uid t" "tag = uid_tag (pr_step t) st"
      | (out) "CHR ''_'' \<in> set key" "(p, key, tag) \<in> set (sy_puts ?T)"
      using ok(3) kt same(1) unfolding part_ok_def by fastforce
    then show ?thesis
    proof cases
      case uid
      have "map_of ?part key = Some tag" using kt dist by (simp add: dict_keys_def)
      then show ?thesis using uid not_running [OF uid(1,2)] by (auto simp: of_step_def uid_tag_def)
    next
      case out
      then show ?thesis using output_put [OF ok(1,2) out(2,1)] by auto
    qed
  qed
  then have "\<forall>(key, tag) \<in> set ?part. map_of tag ''global_steps'' \<noteq> None \<and> map_of tag ''status'' \<noteq> None \<and>
    (of_step g (key, tag) \<longrightarrow> map_of tag ''status'' \<noteq> Some (Tag_text ''running''))" by blast
  then obtain found where "scan_tags (Some g) ?part = Inr (Some found)" using scan_returns by blast
  then have "rb_sample_attempt p (Some g) None (sy_buffer ?T) = Inr (Some \<lparr>kb_partition = p, kb_keys = map fst found, kb_tags = map snd found\<rparr>)"
    by (simp add: rb_sample_attempt_def Let_def)
  then show ?thesis using steps same pc by metis
qed

theorem ended_round_witness:
  "\<exists>S T b. sync_run list_store (butlast (butlast one_round)) (sync_start []) = Some S \<and> (sync_step list_store)\<^sup>*\<^sup>* S T \<and>
     rb_sample_attempt ''train'' (Some 1) None (sy_buffer T) = Inr (Some b)"
proof -
  have run: "map_option (\<lambda>T. (sy_pc T, map pr_ended (sy_prompts T))) (sync_run list_store (butlast (butlast one_round)) (sync_start [])) =
      Some (Waiting ''train'' 1 0, [Some ''finished''])" by code_simp
  then obtain S where S: "sync_run list_store (butlast (butlast one_round)) (sync_start []) = Some S" "sy_pc S = Waiting ''train'' 1 0"
    "map pr_ended (sy_prompts S) = [Some ''finished'']" by auto
  have "\<forall>t \<in> set (drop 0 (sy_prompts S)). pr_ended t \<noteq> None" using S(3) by (cases "sy_prompts S") auto
  from ended_round_is_sampled [OF listed.kv_store_axioms empty_list_store sync_run_reachable [OF sync_reachable.start S(1)] S(2) _ this]
  show ?thesis using S(1) by auto
qed

end
