(* ===== verification/MultiTraj.thy ===== *)
theory MultiTraj
  imports PyKeys PPOAdvantage Dispatch
begin

text \<open>
  Advantages of agent loops with several outputs per session (\<^verbatim>\<open>verl/trainer/main_ppo_sync.py\<close>:
  \<open>compute_advantage_for_multi_trajectories\<close>). For GRPO only the last output of a session takes part in the group,
  and its score is spread over all outputs of the session. Rows are identified by the keys of the transfer queue.
\<close>

section \<open>Sessions\<close>

text \<open>The session of a key and the index of the output in it.\<close>

definition key_fields :: "string \<Rightarrow> (string \<times> int) result" where
  "key_fields key =
     (let parsed = rsplit (CHR ''_'') 2 key
      in require (length parsed = 3) AssertionError
          (bind_r (int_of (parsed ! 2)) (\<lambda>index. Inr (parsed ! 0 @ ''_'' @ parsed ! 1, index))))"

definition note_output :: "nat \<times> string \<times> int \<Rightarrow> (string, int \<times> nat) dict \<Rightarrow> (string, int \<times> nat) dict" where
  "note_output = (\<lambda>(i, session, index) final. (case map_of final session of
       None \<Rightarrow> dict_set session (index, i) final
     | Some (best, row) \<Rightarrow> if best < index then dict_set session (index, i) final else final))"

definition final_sessions :: "string list \<Rightarrow> ((string, int \<times> nat) dict \<times> string list) result" where
  "final_sessions batch_keys =
     bind_r (map_r key_fields batch_keys) (\<lambda>parsed.
       Inr (fold note_output (enumerate 0 parsed) [], map fst parsed))"

definition final_rows :: "(string, int \<times> nat) dict \<Rightarrow> nat list" where
  "final_rows final = map (\<lambda>(session, index, row). row) final"

definition local_index :: "(string, int \<times> nat) dict \<Rightarrow> string \<Rightarrow> nat" where
  "local_index final session = length (takeWhile (\<lambda>s. s \<noteq> session) (dict_keys final))"

text \<open>\<open>argmax\<close> of a row gives the first position of its greatest entry.\<close>

definition row_argmax :: "vec \<Rightarrow> nat result" where
  "row_argmax row = require (row \<noteq> []) IndexError (Inr (length (takeWhile (\<lambda>x. x \<noteq> Max (set row)) row)))"

text \<open>Broadcasting a column over n rows.\<close>

definition spread :: "nat \<Rightarrow> 'a list \<Rightarrow> 'a list result" where
  "spread n xs = (if length xs = n then Inr xs else if length xs = 1 then Inr (replicate n (hd xs)) else Inl RuntimeError)"

definition compute_advantage_for_multi_trajectories :: "(string, 'o adv_estimator) dict \<Rightarrow> (vec \<Rightarrow> nat \<Rightarrow> nat list) \<Rightarrow> ('o \<Rightarrow> real) \<Rightarrow>
    ('e agent_row, 'o, 'm) data_proto \<Rightarrow> string list \<Rightarrow> string \<Rightarrow> real \<Rightarrow> real \<Rightarrow> bool \<Rightarrow> algo_config \<Rightarrow>
    ('e agent_row, 'o, 'm) data_proto option result" where
  "compute_advantage_for_multi_trajectories registry multinomial as_real d batch_keys est gamma lam by_std cfg =
     (if est \<noteq> ''grpo'' then compute_advantage registry multinomial as_real d est gamma lam by_std cfg
      else bind_r (final_sessions batch_keys) (\<lambda>(final, sessions).
        bind_r (select_idxs (Idxs (map int (final_rows final))) d) (\<lambda>chosen.
        bind_r (compute_advantage registry multinomial as_real chosen est gamma lam by_std cfg) (\<lambda>r. case r of
            None \<Rightarrow> Inr None
          | Some final_data \<Rightarrow>
              bind_r (tensor ''response_mask'' final_data) (\<lambda>final_mask.
              bind_r (map_r row_argmax final_mask) (\<lambda>first_nnz.
              bind_r (tensor ''advantages'' final_data) (\<lambda>final_adv.
              let final_scores = map2 (!) final_adv first_nnz;
                  scores = map (\<lambda>s. final_scores ! local_index final s) sessions
              in bind_r (tensor ''response_mask'' d) (\<lambda>response_mask.
                 bind_r (spread (length response_mask) scores) (\<lambda>scores.
                 let A = scale_rows scores response_mask
                 in bind_r (set_advantages (A, A) d) (\<lambda>e. Inr (Some e)))))))))))"

section \<open>The last output of a session\<close>

lemma key_fields_output: "key_fields (output_key uid s k) = Inr (session_key uid s, int k)"
  unfolding key_fields_def rsplit_output_key Let_def by (simp add: session_key_def numeral_2_eq_2)

text \<open>The outputs of the rows so far: what the table says.\<close>

definition table_ok :: "(string \<times> int) list \<Rightarrow> (string, int \<times> nat) dict \<Rightarrow> bool" where
  "table_ok parsed final \<longleftrightarrow> distinct (dict_keys final) \<and> set (dict_keys final) = fst ` set parsed \<and>
     (\<forall>(s, best, row) \<in> set final. row < length parsed \<and> parsed ! row = (s, best) \<and> (\<forall>index. (s, index) \<in> set parsed \<longrightarrow> index \<le> best))"

lemma note_output_ok:
  assumes "table_ok parsed final"
  shows "table_ok (parsed @ [f]) (note_output (length parsed, f) final)"
proof -
  obtain s index where f: "f = (s, index)" by (cases f)
  have old: "distinct (dict_keys final)" "set (dict_keys final) = fst ` set parsed"
    "\<And>s best row. (s, best, row) \<in> set final \<Longrightarrow> row < length parsed \<and> parsed ! row = (s, best) \<and> (\<forall>index. (s, index) \<in> set parsed \<longrightarrow> index \<le> best)"
    using assms by (auto simp: table_ok_def)
  have changed: "table_ok (parsed @ [f]) (dict_set s (index, length parsed) final)"
    if big: "\<forall>i. (s, i) \<in> set parsed \<longrightarrow> i \<le> index"
  proof -
    have keys: "set (dict_keys (dict_set s (index, length parsed) final)) = fst ` set (parsed @ [f])"
      using old(2) by (auto simp: keys_dict_set f)
    have dist: "distinct (dict_keys (dict_set s (index, length parsed) final))" using old(1) by simp
    have "row < length (parsed @ [f]) \<and> (parsed @ [f]) ! row = (s', best) \<and> (\<forall>i. (s', i) \<in> set (parsed @ [f]) \<longrightarrow> i \<le> best)"
      if "(s', best, row) \<in> set (dict_set s (index, length parsed) final)" for s' best row
    proof -
      have "map_of (dict_set s (index, length parsed) final) s' = Some (best, row)" using dist that unfolding dict_keys_def by (rule map_of_is_SomeI)
      then show ?thesis
        using old(3) [of s' best row] big by (cases "s' = s") (auto simp: f nth_append dest: map_of_SomeD)
    qed
    then show ?thesis using keys dist unfolding table_ok_def by blast
  qed
  show ?thesis
  proof (cases "map_of final s")
    case None
    then have "s \<notin> fst ` set parsed" using old(2) by (metis keys_map_of)
    then have "\<forall>i. (s, i) \<in> set parsed \<longrightarrow> i \<le> index" by force
    from changed [OF this] show ?thesis using None by (simp add: note_output_def f)
  next
    case (Some v)
    obtain best row where v: "v = (best, row)" by (cases v)
    have bound: "row < length parsed" "parsed ! row = (s, best)" "\<forall>i. (s, i) \<in> set parsed \<longrightarrow> i \<le> best"
      using old(3) [OF map_of_SomeD [OF Some [unfolded v]]] by auto
    show ?thesis
    proof (cases "best < index")
      case True
      then have "\<forall>i. (s, i) \<in> set parsed \<longrightarrow> i \<le> index" using bound(3) by fastforce
      from changed [OF this] show ?thesis using True Some v by (simp add: note_output_def f)
    next
      case False
      have "s \<in> fst ` set parsed" using bound(1,2) by (metis fst_conv image_eqI nth_mem)
      then have "set (dict_keys final) = fst ` set (parsed @ [f])" using old(2) f by auto
      moreover have "row' < length (parsed @ [f]) \<and> (parsed @ [f]) ! row' = (s', best') \<and> (\<forall>i. (s', i) \<in> set (parsed @ [f]) \<longrightarrow> i \<le> best')"
        if m: "(s', best', row') \<in> set final" for s' best' row'
      proof -
        have "index \<le> best'" if "s' = s"
        proof -
          have "map_of final s' = Some (best', row')" using m old(1) by (simp add: dict_keys_def)
          then show ?thesis using that Some v False by simp
        qed
        then show ?thesis using old(3) [OF m] by (auto simp: f nth_append)
      qed
      ultimately show ?thesis using old(1) Some v False unfolding table_ok_def note_output_def f by auto
    qed
  qed
qed

lemma fold_note_output_ok: "table_ok parsed (fold note_output (enumerate 0 parsed) [])"
proof (induction parsed rule: rev_induct)
  case Nil
  then show ?case by (simp add: table_ok_def dict_keys_def)
next
  case (snoc f parsed)
  then show ?case using note_output_ok [of parsed _ f] by (simp add: enumerate_append_eq)
qed

section \<open>A run on the chosen rows\<close>

lemma set_advantages_total:
  fixes d :: "('e agent_row, 'o, 'm) data_proto"
  assumes "dp_batch d \<noteq> None" "length A = dp_len d" "length R = dp_len d"
  shows "\<exists>e. set_advantages (A, R) d = Inr e \<and> tensor ''advantages'' e = Inr A \<and>
    (\<forall>key. key \<noteq> ''advantages'' \<longrightarrow> key \<noteq> ''returns'' \<longrightarrow> tensor key e = tensor key d)"
proof -
  obtain b where b: "dp_batch d = Some b" using assms(1) by blast
  then have len: "length A = td_size b" "length R = td_size b" using assms(2,3) by (simp_all add: dp_len_def)
  obtain d1 where d1: "set_tensor ''advantages'' (map Reals A) d = Inr d1" using b len by (simp add: set_tensor_def)
  have "dp_len d1 = td_size b" "dp_batch d1 \<noteq> None" using set_tensor_same(3,4) [OF d1] b by (simp_all add: dp_len_def)
  then obtain e where e: "set_tensor ''returns'' (map Reals R) d1 = Inr e" using len by (auto simp: set_tensor_def dp_len_def)
  have "set_advantages (A, R) d = Inr e" using d1 e by (simp add: set_advantages_def)
  then show ?thesis using tensor_set_tensor [OF d1] tensor_set_tensor [OF e] by simp
qed

lemma grpo_run:
  fixes d :: "('e agent_row, 'o, 'm) data_proto"
  assumes ok: "dp_ok d" and R: "tensor ''token_level_rewards'' d = Inr R" and M: "tensor ''response_mask'' d = Inr M"
    and u: "map_of (dp_non_tensor d) ''uid'' = Some index"
  shows "\<exists>a e. compute_grpo_outcome_advantage R M index (1 / 10 ^ 6) by_std = Inr (scale_rows a M) \<and> length a = length M \<and>
    set_advantages (scale_rows a M, scale_rows a M) d = Inr e \<and>
    compute_advantage registry multinomial as_real d ''grpo'' gamma lam by_std cfg = Inr (Some e) \<and>
    tensor ''response_mask'' e = Inr M \<and> tensor ''advantages'' e = Inr (scale_rows a M)"
proof -
  have len: "length R = dp_len d" "length M = dp_len d" using tensor_size [OF ok R] tensor_size [OF ok M] by simp_all
  have ilen: "length index = length R" using array_length [OF ok map_of_SomeD [OF u]] len by simp
  obtain a where a: "compute_grpo_outcome_advantage R M index (1 / 10 ^ 6) by_std = Inr (scale_rows a M)" "length a = length R"
    using grpo_group_relative [OF ilen, of M "1 / 10 ^ 6" by_std] by blast
  have b: "dp_batch d \<noteq> None" using M unfolding tensor_rows by auto
  have size: "length (scale_rows a M) = dp_len d" using a(2) len by (simp add: scale_rows_def)
  obtain e where e: "set_advantages (scale_rows a M, scale_rows a M) d = Inr e" "tensor ''advantages'' e = Inr (scale_rows a M)"
    "\<forall>key. key \<noteq> ''advantages'' \<longrightarrow> key \<noteq> ''returns'' \<longrightarrow> tensor key e = tensor key d"
    using set_advantages_total [OF b size size] by blast
  have "has_tensor ''response_mask'' d" using M unfolding tensor_rows has_tensor_def by auto
  then have w: "with_response_mask d = Inr d" using b by (simp add: with_response_mask_def)
  have "compute_advantage registry multinomial as_real d ''grpo'' gamma lam by_std cfg = Inr (Some e)"
    using a(1) e(1) by (simp add: compute_advantage_def w R M u dict_item_def)
  then show ?thesis using a len e M by auto
qed

text \<open>The batch of the given rows.\<close>

definition rows_of :: "nat list \<Rightarrow> ('r, 'o, 'm) data_proto \<Rightarrow> ('r, 'o, 'm) data_proto" where
  "rows_of js d = cols (perm js) (perm js) (length js) d"

lemma select_rows:
  assumes "dp_ok d" "\<forall>j \<in> set js. j < dp_len d"
  shows "select_idxs (Idxs (map int js)) d = Inr (rows_of js d)" "dp_ok (rows_of js d)"
proof -
  show "select_idxs (Idxs (map int js)) d = Inr (rows_of js d)"
  proof -
    have "perm js = (\<lambda>xs. map (\<lambda>j. xs ! j) js)" for js and xs :: "'x list" by (simp add: perm_def fun_eq_iff)
    then show ?thesis unfolding rows_of_def using select_idxs_nat [OF assms] by (simp add: perm_def [abs_def])
  qed
  then show "dp_ok (rows_of js d)" by (rule select_idxs_ok [OF assms(1)])
qed

lemma tensor_rows_of:
  assumes "dp_ok d" "\<forall>j \<in> set js. j < dp_len d" "tensor key d = Inr A"
  shows "tensor key (rows_of js d) = Inr (perm js A)"
proof -
  obtain b rows where b: "dp_batch d = Some b" "map_of (td_items b) key = Some rows" "map_r real_row rows = Inr A"
    using assms(3) unfolding tensor_rows by blast
  have "length rows = dp_len d" using tensor_length [OF assms(1) b(1)] b(2) map_of_SomeD by metis
  then have "map_r real_row (perm js rows) = Inr (perm js A)" using b(3) assms(2) by (intro perm_map_r) simp_all
  then show ?thesis by (simp add: tensor_def rows_of_def cols_def b dict_item_def map_of_map_items)
qed

lemma uid_rows_of: "map_of (dp_non_tensor (rows_of js d)) key = map_option (perm js) (map_of (dp_non_tensor d) key)"
  by (simp add: rows_of_def cols_def map_of_map_items)

section \<open>Sessions of the rows\<close>

text \<open>The rows are given by uid, session and index of the output.\<close>

definition row_keys :: "(string \<times> nat \<times> nat) list \<Rightarrow> string list" where
  "row_keys outs = map (\<lambda>(u, s, k). output_key u s k) outs"

definition row_session :: "(string \<times> nat \<times> nat) list \<Rightarrow> nat \<Rightarrow> string \<times> nat" where
  "row_session outs i = (case outs ! i of (u, s, k) \<Rightarrow> (u, s))"

definition row_output :: "(string \<times> nat \<times> nat) list \<Rightarrow> nat \<Rightarrow> nat" where
  "row_output outs i = (case outs ! i of (u, s, k) \<Rightarrow> k)"

lemma local_index_nth:
  "s \<in> set (dict_keys final) \<Longrightarrow> local_index final s < length final \<and> dict_keys final ! local_index final s = s"
proof -
  assume s: "s \<in> set (dict_keys final)"
  have "length (takeWhile (\<lambda>x. x \<noteq> s) xs) < length xs" if "s \<in> set xs" for xs
    using that by (induction xs) auto
  then have "length (takeWhile (\<lambda>x. x \<noteq> s) (dict_keys final)) < length (dict_keys final)" using s by blast
  moreover have "dict_keys final ! length (takeWhile (\<lambda>x. x \<noteq> s) (dict_keys final)) = s"
    using nth_length_takeWhile [OF calculation] by simp
  ultimately show ?thesis by (simp add: local_index_def dict_keys_def)
qed

lemma sessions_of_rows:
  obtains final sessions where "final_sessions (row_keys outs) = Inr (final, sessions)"
    "sessions = map (\<lambda>i. case row_session outs i of (u, s) \<Rightarrow> session_key u s) [0..<length outs]"
    "distinct (final_rows final)" "\<And>j. j \<in> set (final_rows final) \<Longrightarrow> j < length outs"
    "\<And>i. i < length outs \<Longrightarrow> local_index final (sessions ! i) < length (final_rows final)"
    "\<And>i. i < length outs \<Longrightarrow> row_session outs (final_rows final ! local_index final (sessions ! i)) = row_session outs i"
    "\<And>i i'. i < length outs \<Longrightarrow> i' < length outs \<Longrightarrow> row_session outs i' = row_session outs i \<Longrightarrow>
       row_output outs i' \<le> row_output outs (final_rows final ! local_index final (sessions ! i))"
    "\<And>j. j < length (final_rows final) \<Longrightarrow> local_index final (sessions ! (final_rows final ! j)) = j"
proof -
  define parsed where "parsed = map (\<lambda>(u, s, k). (session_key u s, int k)) outs"
  have plen: "length parsed = length outs" by (simp add: parsed_def)
  define final where "final = fold note_output (enumerate 0 parsed) []"
  define sessions where "sessions = map fst parsed"
  have "map_r key_fields (row_keys outs) = Inr parsed"
    unfolding row_keys_def parsed_def map_r_map by (subst map_r_total [where g = "\<lambda>(u, s, k). (session_key u s, int k)"]) (auto simp: key_fields_output)
  then have fin: "final_sessions (row_keys outs) = Inr (final, sessions)" by (simp add: final_sessions_def final_def sessions_def)
  have tab: "table_ok parsed final" unfolding final_def by (rule fold_note_output_ok)
  then have dist: "distinct (dict_keys final)" and keys: "set (dict_keys final) = set sessions"
    and table: "\<And>s best row. (s, best, row) \<in> set final \<Longrightarrow> row < length outs \<and> parsed ! row = (s, best) \<and> (\<forall>index. (s, index) \<in> set parsed \<longrightarrow> index \<le> best)"
    unfolding table_ok_def sessions_def by (simp, simp, (fastforce simp: plen)+)
  have ent: "\<exists>best row. final ! j = (dict_keys final ! j, best, row) \<and> final_rows final ! j = row" if "j < length final" for j
    using that by (cases "final ! j") (auto simp: dict_keys_def final_rows_def)
  have nth: "sessions ! i = (case row_session outs i of (u, s) \<Rightarrow> session_key u s)" "parsed ! i = (sessions ! i, int (row_output outs i))"
    if "i < length outs" for i
    using that by (auto simp: sessions_def parsed_def row_session_def row_output_def split: prod.splits)
  have same: "sessions ! i = sessions ! i' \<longleftrightarrow> row_session outs i = row_session outs i'" if "i < length outs" "i' < length outs" for i i'
    using nth(1) [OF that(1)] nth(1) [OF that(2)] by (auto split: prod.splits)
  have row: "final_rows final ! j < length outs" "sessions ! (final_rows final ! j) = dict_keys final ! j"
    "\<And>i. i < length outs \<Longrightarrow> sessions ! i = dict_keys final ! j \<Longrightarrow> row_output outs i \<le> row_output outs (final_rows final ! j)"
    if j: "j < length final" for j
  proof -
    obtain best row where e: "final ! j = (dict_keys final ! j, best, row)" "final_rows final ! j = row" using ent [OF j] by blast
    have mem: "(dict_keys final ! j, best, row) \<in> set final" using e(1) j by (metis nth_mem)
    note t = table [OF mem]
    show "final_rows final ! j < length outs" using t e(2) by simp
    then show "sessions ! (final_rows final ! j) = dict_keys final ! j" using t e(2) nth(2) [of row] by simp
    have best: "best = int (row_output outs row)" using t nth(2) [of row] by simp
    show "row_output outs i \<le> row_output outs (final_rows final ! j)" if "i < length outs" "sessions ! i = dict_keys final ! j" for i
    proof -
      have "parsed ! i \<in> set parsed" using that(1) by (intro nth_mem) (simp add: plen)
      then have "(dict_keys final ! j, int (row_output outs i)) \<in> set parsed" using nth(2) [OF that(1)] that(2) by simp
      then show ?thesis using t best e(2) by fastforce
    qed
  qed
  have slen: "length sessions = length outs" by (simp add: sessions_def plen)
  have loc: "local_index final (sessions ! i) < length final" "dict_keys final ! local_index final (sessions ! i) = sessions ! i" if "i < length outs" for i
    using local_index_nth [of "sessions ! i" final] keys that slen by simp_all
  have again: "local_index final (sessions ! (final_rows final ! j)) = j" if j: "j < length final" for j
  proof -
    have "dict_keys final ! local_index final (dict_keys final ! j) = dict_keys final ! j" "local_index final (dict_keys final ! j) < length final"
      using local_index_nth [of "dict_keys final ! j" final] j by (simp_all add: dict_keys_def)
    then have "local_index final (dict_keys final ! j) = j"
      using nth_eq_iff_index_eq [OF dist, of "local_index final (dict_keys final ! j)" j] j by (simp add: dict_keys_def)
    then show ?thesis using row(2) [OF j] by simp
  qed
  have flen: "length (final_rows final) = length final" by (simp add: final_rows_def)
  have f2: "distinct (final_rows final)" unfolding distinct_conv_nth flen using again by metis
  have f3: "j < length outs" if "j \<in> set (final_rows final)" for j
  proof -
    from that obtain i where "i < length final" "j = final_rows final ! i" by (auto simp: in_set_conv_nth flen)
    then show ?thesis using row(1) by simp
  qed
  have f1: "sessions = map (\<lambda>i. case row_session outs i of (u, s) \<Rightarrow> session_key u s) [0..<length outs]"
  proof (rule nth_equalityI)
    show "sessions ! i = map (\<lambda>i. case row_session outs i of (u, s) \<Rightarrow> session_key u s) [0..<length outs] ! i" if "i < length sessions" for i
    proof -
      have i: "i < length outs" using that slen by simp
      then show ?thesis using nth(1) [OF i] by simp
    qed
  qed (simp add: slen)
  have f5: "row_session outs (final_rows final ! local_index final (sessions ! i)) = row_session outs i" if "i < length outs" for i
    using row(1,2) [OF loc(1) [OF that]] loc(2) [OF that] same that by simp
  have f6: "row_output outs i' \<le> row_output outs (final_rows final ! local_index final (sessions ! i))"
    if "i < length outs" "i' < length outs" "row_session outs i' = row_session outs i" for i i'
    using row(3) [OF loc(1) [OF that(1)] that(2)] loc(2) [OF that(1)] same [OF that(2,1)] that(3) by simp
  have f4: "local_index final (sessions ! i) < length (final_rows final)" if "i < length outs" for i using loc(1) [OF that] flen by simp
  have f7: "local_index final (sessions ! (final_rows final ! j)) = j" if "j < length (final_rows final)" for j using again [of j] that flen by simp
  show thesis by (rule that [OF fin f1 f2 f3 f4 f5 f6 f7])
qed

section \<open>What a row gets\<close>

lemma argmax_row:
  assumes "row \<noteq> []"
  shows "row_argmax row = Inr (length (takeWhile (\<lambda>x. x \<noteq> Max (set row)) row))"
    "length (takeWhile (\<lambda>x. x \<noteq> Max (set row)) row) < length row"
    "row ! length (takeWhile (\<lambda>x. x \<noteq> Max (set row)) row) = Max (set row)"
proof -
  have "Max (set row) \<in> set row" using assms by simp
  then show less: "length (takeWhile (\<lambda>x. x \<noteq> Max (set row)) row) < length row"
    by (metis (mono_tags, lifting) length_takeWhile_le nat_less_le takeWhile_eq_all_conv takeWhile_eq_take take_all_iff)
  show "row ! length (takeWhile (\<lambda>x. x \<noteq> Max (set row)) row) = Max (set row)" using nth_length_takeWhile [OF less] by simp
qed (simp add: row_argmax_def assms)

lemma nth_scale_rows: "j < length a \<Longrightarrow> j < length M \<Longrightarrow> scale_rows a M ! j = map (\<lambda>m. a ! j * m) (M ! j)"
  by (simp add: scale_rows_def vzip_def)

lemma multi_run:
  fixes d :: "('e agent_row, 'o, 'm) data_proto"
  assumes ok: "dp_ok d" and R: "tensor ''token_level_rewards'' d = Inr R" and M: "tensor ''response_mask'' d = Inr M"
    and u: "map_of (dp_non_tensor d) ''uid'' = Some index" and outs: "length outs = dp_len d" and wide: "\<forall>row \<in> set M. row \<noteq> []"
  obtains fin L a scores e where "distinct fin" "\<And>j. j \<in> set fin \<Longrightarrow> j < length outs"
    "\<And>i. i < length outs \<Longrightarrow> L i < length fin \<and> row_session outs (fin ! L i) = row_session outs i \<and>
       (\<forall>i' < length outs. row_session outs i' = row_session outs i \<longrightarrow> row_output outs i' \<le> row_output outs (fin ! L i))"
    "distinct (map (row_session outs) fin)"
    "compute_grpo_outcome_advantage (perm fin R) (perm fin M) (perm fin index) (1 / 10 ^ 6) by_std = Inr (scale_rows a (perm fin M))" "length a = length fin"
    "scores = map (\<lambda>i. a ! L i * Max (set (M ! (fin ! L i)))) [0..<length outs]"
    "set_advantages (scale_rows scores M, scale_rows scores M) d = Inr e" "tensor ''advantages'' e = Inr (scale_rows scores M)"
    "compute_advantage_for_multi_trajectories registry multinomial as_real d (row_keys outs) ''grpo'' gamma lam by_std cfg = Inr (Some e)"
proof -
  obtain final sessions where s: "final_sessions (row_keys outs) = Inr (final, sessions)"
    "sessions = map (\<lambda>i. case row_session outs i of (u, s) \<Rightarrow> session_key u s) [0..<length outs]"
    "distinct (final_rows final)" "\<And>j. j \<in> set (final_rows final) \<Longrightarrow> j < length outs"
    "\<And>i. i < length outs \<Longrightarrow> local_index final (sessions ! i) < length (final_rows final)"
    "\<And>i. i < length outs \<Longrightarrow> row_session outs (final_rows final ! local_index final (sessions ! i)) = row_session outs i"
    "\<And>i i'. i < length outs \<Longrightarrow> i' < length outs \<Longrightarrow> row_session outs i' = row_session outs i \<Longrightarrow>
       row_output outs i' \<le> row_output outs (final_rows final ! local_index final (sessions ! i))"
    "\<And>j. j < length (final_rows final) \<Longrightarrow> local_index final (sessions ! (final_rows final ! j)) = j"
    by (rule sessions_of_rows [of outs]) (rule that)
  let ?fin = "final_rows final" and ?L = "\<lambda>i. local_index final (sessions ! i)"
  have len: "length R = dp_len d" "length M = dp_len d" using tensor_size [OF ok R] tensor_size [OF ok M] by simp_all
  have range: "\<forall>j \<in> set ?fin. j < dp_len d" using s(4) outs by auto
  note sel = select_rows [OF ok range]
  note cR = tensor_rows_of [OF ok range R] and cM = tensor_rows_of [OF ok range M]
  have cu: "map_of (dp_non_tensor (rows_of ?fin d)) ''uid'' = Some (perm ?fin index)" by (simp add: uid_rows_of u)
  obtain a fd where a: "compute_grpo_outcome_advantage (perm ?fin R) (perm ?fin M) (perm ?fin index) (1 / 10 ^ 6) by_std = Inr (scale_rows a (perm ?fin M))"
    "length a = length ?fin" and fd: "compute_advantage registry multinomial as_real (rows_of ?fin d) ''grpo'' gamma lam by_std cfg = Inr (Some fd)"
    "tensor ''response_mask'' fd = Inr (perm ?fin M)" "tensor ''advantages'' fd = Inr (scale_rows a (perm ?fin M))"
    using grpo_run [OF sel(2) cR cM cu, where ?by_std = by_std and ?registry = registry and ?multinomial = multinomial and ?as_real = as_real
        and ?gamma = gamma and ?lam = lam and ?cfg = cfg] by auto
  let ?amax = "\<lambda>row :: vec. length (takeWhile (\<lambda>x. x \<noteq> Max (set row)) row)"
  have wide_fin: "row \<noteq> []" if "row \<in> set (perm ?fin M)" for row
    using that wide range len by (auto simp: perm_def)
  then have nnz: "map_r row_argmax (perm ?fin M) = Inr (map ?amax (perm ?fin M))" by (intro map_r_total argmax_row(1))
  let ?fs = "map2 (!) (scale_rows a (perm ?fin M)) (map ?amax (perm ?fin M))"
  have fs: "?fs ! j = a ! j * Max (set (M ! (?fin ! j)))" if j: "j < length ?fin" for j
  proof -
    have row: "perm ?fin M ! j = M ! (?fin ! j)" using j by (simp add: perm_def)
    have "perm ?fin M ! j \<in> set (perm ?fin M)" using j by (intro nth_mem) simp
    then have ne: "M ! (?fin ! j) \<noteq> []" using wide_fin row by metis
    have lens: "length (scale_rows a (perm ?fin M)) = length ?fin" using a(2) by (simp add: scale_rows_def)
    show ?thesis using j argmax_row(2,3) [OF ne] by (simp add: lens nth_scale_rows a(2) row)
  qed
  define scores where "scores = map (\<lambda>i. a ! ?L i * Max (set (M ! (?fin ! ?L i)))) [0..<length outs]"
  have slen: "length sessions = length outs" by (simp add: s(2))
  have "map (\<lambda>s. ?fs ! local_index final s) sessions = scores"
  proof (rule nth_equalityI)
    show "map (\<lambda>s. ?fs ! local_index final s) sessions ! i = scores ! i" if "i < length (map (\<lambda>s. ?fs ! local_index final s) sessions)" for i
    proof -
      have i: "i < length outs" using that slen by simp
      show ?thesis using fs [OF s(5) [OF i]] i slen by (simp add: scores_def)
    qed
  qed (simp add: scores_def slen)
  moreover have spread: "spread (length M) scores = Inr scores" using len outs by (simp add: spread_def scores_def)
  moreover have b: "dp_batch d \<noteq> None" using M unfolding tensor_rows by auto
  moreover have size: "length (scale_rows scores M) = dp_len d" using len outs by (simp add: scale_rows_def scores_def)
  moreover obtain e where e: "set_advantages (scale_rows scores M, scale_rows scores M) d = Inr e" "tensor ''advantages'' e = Inr (scale_rows scores M)"
    using set_advantages_total [OF b size size] by blast
  ultimately have run: "compute_advantage_for_multi_trajectories registry multinomial as_real d (row_keys outs) ''grpo'' gamma lam by_std cfg = Inr (Some e)"
    using s(1) sel(1) fd nnz M by (simp add: compute_advantage_for_multi_trajectories_def Let_def del: map_map)
  have one: "distinct (map (row_session outs) ?fin)"
    unfolding distinct_map
  proof (intro conjI inj_onI)
    fix i i' assume i: "i \<in> set ?fin" "i' \<in> set ?fin" and same: "row_session outs i = row_session outs i'"
    then have "sessions ! i = sessions ! i'" using s(2,4) by simp
    moreover obtain j j' where "j < length ?fin" "i = ?fin ! j" "j' < length ?fin" "i' = ?fin ! j'" using i by (auto simp: in_set_conv_nth)
    ultimately show "i = i'" using s(8) by metis
  qed (rule s(3))
  show thesis
    by (rule that [of ?fin ?L a scores e]) (use s(1,3-7) a e run one in \<open>auto simp: scores_def\<close>)
qed

text \<open>C17 With GRPO the rows \<open>fin\<close> that compete in their groups are exactly the last outputs of the sessions: each is the last output of its session,
  no two are of the same session, and every row has the competing row of its session. The advantage of this row reaches every output of the session, on the
  tokens that the mask of the row keeps; it is lost when the last output has no token that counts.\<close>

theorem session_advantage_spread:
  fixes d :: "('e agent_row, 'o, 'm) data_proto"
  assumes ok: "dp_ok d" and R: "tensor ''token_level_rewards'' d = Inr R" and M: "tensor ''response_mask'' d = Inr M"
    and u: "map_of (dp_non_tensor d) ''uid'' = Some index" and outs: "length outs = dp_len d" and wide: "\<forall>row \<in> set M. row \<noteq> []"
  shows "\<exists>fin L a e. distinct fin \<and> distinct (map (row_session outs) fin) \<and>
     (\<forall>j \<in> set fin. j < length outs \<and> (\<forall>i' < length outs. row_session outs i' = row_session outs j \<longrightarrow> row_output outs i' \<le> row_output outs j)) \<and>
     (\<forall>i < length outs. L i < length fin \<and> fin ! L i < length outs \<and> row_session outs (fin ! L i) = row_session outs i \<and>
        (\<forall>i' < length outs. row_session outs i' = row_session outs i \<longrightarrow> row_output outs i' \<le> row_output outs (fin ! L i))) \<and>
     compute_grpo_outcome_advantage (perm fin R) (perm fin M) (perm fin index) (1 / 10 ^ 6) by_std = Inr (scale_rows a (perm fin M)) \<and>
     compute_advantage_for_multi_trajectories registry multinomial as_real d (row_keys outs) ''grpo'' gamma lam by_std cfg = Inr (Some e) \<and>
     (\<exists>A. tensor ''advantages'' e = Inr A \<and> length A = length outs \<and>
        (\<forall>i < length outs. A ! i = map (\<lambda>m. a ! L i * Max (set (M ! (fin ! L i))) * m) (M ! i)))"
proof -
  obtain fin L a scores e where run: "distinct fin" "\<And>j. j \<in> set fin \<Longrightarrow> j < length outs"
    "\<And>i. i < length outs \<Longrightarrow> L i < length fin \<and> row_session outs (fin ! L i) = row_session outs i \<and>
       (\<forall>i' < length outs. row_session outs i' = row_session outs i \<longrightarrow> row_output outs i' \<le> row_output outs (fin ! L i))"
    "distinct (map (row_session outs) fin)"
    "compute_grpo_outcome_advantage (perm fin R) (perm fin M) (perm fin index) (1 / 10 ^ 6) by_std = Inr (scale_rows a (perm fin M))" "length a = length fin"
    "scores = map (\<lambda>i. a ! L i * Max (set (M ! (fin ! L i)))) [0..<length outs]"
    "set_advantages (scale_rows scores M, scale_rows scores M) d = Inr e" "tensor ''advantages'' e = Inr (scale_rows scores M)"
    "compute_advantage_for_multi_trajectories registry multinomial as_real d (row_keys outs) ''grpo'' gamma lam by_std cfg = Inr (Some e)"
    by (rule multi_run [OF assms]) (rule that)
  have len: "length M = length outs" using tensor_size [OF ok M] outs by simp
  have slen: "length scores = length outs" by (simp add: run(7))
  have A: "length (scale_rows scores M) = length outs" using len slen by (simp add: scale_rows_def)
  have rows: "scale_rows scores M ! i = map (\<lambda>m. a ! L i * Max (set (M ! (fin ! L i))) * m) (M ! i)" if "i < length outs" for i
  proof -
    have "scores ! i = a ! L i * Max (set (M ! (fin ! L i)))" using that by (simp add: run(7))
    then show ?thesis using that len slen by (simp add: nth_scale_rows)
  qed
  have inside: "fin ! L i < length outs" if "i < length outs" for i using run(2,3) that by (meson nth_mem)
  have greatest: "row_output outs i' \<le> row_output outs j" if j: "j \<in> set fin" "i' < length outs" "row_session outs i' = row_session outs j" for i' j
  proof -
    have "L j < length fin" "row_session outs (fin ! L j) = row_session outs j" "row_output outs i' \<le> row_output outs (fin ! L j)"
      using run(3) [OF run(2) [OF j(1)]] j by auto
    moreover from this have "fin ! L j = j"
      using run(4) j(1) nth_mem [of "L j" fin] unfolding distinct_map inj_on_def by metis
    ultimately show ?thesis by simp
  qed
  show ?thesis using run(1-6,8-10) A rows inside greatest by (intro exI [of _ fin] exI [of _ L] exI [of _ a] exI [of _ e]) auto
qed

text \<open>C18 With one output per session and masks of zeros and ones this is the ordinary GRPO advantage of the batch.\<close>

theorem single_outputs_agree:
  fixes d :: "('e agent_row, 'o, 'm) data_proto"
  assumes ok: "dp_ok d" and R: "tensor ''token_level_rewards'' d = Inr R" and M: "tensor ''response_mask'' d = Inr M"
    and u: "map_of (dp_non_tensor d) ''uid'' = Some index" and outs: "length outs = dp_len d" and wide: "\<forall>row \<in> set M. row \<noteq> [] \<and> set row \<subseteq> {0, 1}"
    and single: "distinct (map (\<lambda>(u, s, k). (u, s)) outs)"
  shows "compute_advantage_for_multi_trajectories registry multinomial as_real d (row_keys outs) ''grpo'' gamma lam by_std cfg =
    compute_advantage registry multinomial as_real d ''grpo'' gamma lam by_std cfg"
proof -
  have wide': "\<forall>row \<in> set M. row \<noteq> []" using wide by blast
  obtain fin L a scores e where run: "distinct fin" "\<And>j. j \<in> set fin \<Longrightarrow> j < length outs"
    "\<And>i. i < length outs \<Longrightarrow> L i < length fin \<and> row_session outs (fin ! L i) = row_session outs i \<and>
       (\<forall>i' < length outs. row_session outs i' = row_session outs i \<longrightarrow> row_output outs i' \<le> row_output outs (fin ! L i))"
    "distinct (map (row_session outs) fin)"
    "compute_grpo_outcome_advantage (perm fin R) (perm fin M) (perm fin index) (1 / 10 ^ 6) by_std = Inr (scale_rows a (perm fin M))" "length a = length fin"
    "scores = map (\<lambda>i. a ! L i * Max (set (M ! (fin ! L i)))) [0..<length outs]"
    "set_advantages (scale_rows scores M, scale_rows scores M) d = Inr e" "tensor ''advantages'' e = Inr (scale_rows scores M)"
    "compute_advantage_for_multi_trajectories registry multinomial as_real d (row_keys outs) ''grpo'' gamma lam by_std cfg = Inr (Some e)"
    by (rule multi_run [OF ok R M u outs wide']) (rule that)
  have len: "length R = length outs" "length M = length outs" "length index = length outs"
    using tensor_size [OF ok R] tensor_size [OF ok M] array_length [OF ok map_of_SomeD [OF u]] outs by simp_all
  have self: "fin ! L i = i" if "i < length outs" for i
  proof -
    have j: "fin ! L i < length outs" "row_session outs (fin ! L i) = row_session outs i" using run(2,3) that by (auto intro: nth_mem)
    have "map (\<lambda>(u, s, k). (u, s)) outs ! i = row_session outs i" if "i < length outs" for i
      using that by (simp add: row_session_def split: prod.splits)
    then have "map (\<lambda>(u, s, k). (u, s)) outs ! (fin ! L i) = map (\<lambda>(u, s, k). (u, s)) outs ! i" using j that by simp
    then show ?thesis using nth_eq_iff_index_eq [OF single] j that by simp
  qed
  have reord: "reorders fin (length outs)"
  proof -
    have "set fin = {..<length outs}" using run(2,3) self by (force simp: set_conv_nth)
    then have "mset fin = mset [0..<length outs]" using run(1) by (intro set_eq_iff_mset_eq_distinct [THEN iffD1]) (simp_all add: atLeast0LessThan)
    then show ?thesis by (simp add: reorders_def)
  qed
  obtain a0 e0 where base: "compute_grpo_outcome_advantage R M index (1 / 10 ^ 6) by_std = Inr (scale_rows a0 M)" "length a0 = length M"
    "set_advantages (scale_rows a0 M, scale_rows a0 M) d = Inr e0"
    "compute_advantage registry multinomial as_real d ''grpo'' gamma lam by_std cfg = Inr (Some e0)"
    using grpo_run [OF ok R M u] by metis
  have "scale_rows a (perm fin M) = perm fin (scale_rows a0 M)"
    using grpo_perm [of fin R M index "1 / 10 ^ 6" by_std] reord len run(5) base(1) by simp
  then have same: "map (\<lambda>m. a ! L i * m) (M ! i) = map (\<lambda>m. a0 ! i * m) (M ! i)" if "i < length outs" for i
  proof -
    have j: "L i < length fin" "fin ! L i = i" using run(3) self that by auto
    have "scale_rows a (perm fin M) ! L i = map (\<lambda>m. a ! L i * m) (M ! i)" using j run(6) by (simp add: nth_scale_rows perm_def)
    moreover have "perm fin (scale_rows a0 M) ! L i = map (\<lambda>m. a0 ! i * m) (M ! i)" using j base(2) that len by (simp add: nth_scale_rows perm_def)
    ultimately show ?thesis using \<open>scale_rows a (perm fin M) = perm fin (scale_rows a0 M)\<close> by (simp only:)
  qed
  have slen: "length scores = length outs" by (simp add: run(7))
  have "scale_rows scores M = scale_rows a0 M"
  proof (rule nth_equalityI)
    show "scale_rows scores M ! i = scale_rows a0 M ! i" if "i < length (scale_rows scores M)" for i
    proof -
      have i: "i < length outs" using that len slen by (simp add: scale_rows_def)
      have bits: "M ! i \<noteq> []" "set (M ! i) \<subseteq> {0, 1}" using wide i len by auto
      have "Max (set (M ! i)) * m = m" if "m \<in> set (M ! i)" for m
      proof (cases "1 \<in> set (M ! i)")
        case True
        then have "Max (set (M ! i)) = 1" using bits(2) by (intro Max_eqI) auto
        then show ?thesis by simp
      next
        case False
        then show ?thesis using that bits(2) by auto
      qed
      then have "map (\<lambda>m. scores ! i * m) (M ! i) = map (\<lambda>m. a ! L i * m) (M ! i)"
        using self [OF i] i by (simp add: run(7) mult.assoc)
      then show ?thesis using i len slen base(2) same [OF i] by (simp add: nth_scale_rows)
    qed
  qed (simp add: scale_rows_def slen base(2) len)
  then have "e = e0" using run(8) base(3) by simp
  then show ?thesis using run(10) base(4) by simp
qed

section \<open>Examples\<close>

lemma scored_pair_uid: "map_of (dp_non_tensor scored_pair) ''uid'' = Some [7, 7]"
  by (simp add: scored_pair_def)

text \<open>Two outputs of one session: both rows get the advantage of the second.\<close>

theorem session_advantage_witness:
  "\<exists>e A. compute_advantage_for_multi_trajectories (adv_estimators (\<lambda>_. 0)) (\<lambda>_ _. []) real scored_pair [''a_0_0'', ''a_0_1''] ''grpo'' 1 1 True plain_algo = Inr (Some e) \<and>
    tensor ''advantages'' e = Inr A \<and> A ! 0 ! 0 = A ! 1 ! 0"
proof -
  define outs where "outs = [(''a'', 0 :: nat, 0 :: nat), (''a'', 0, 1)]"
  let ?M = "[[1, 1], [1, 0 :: real]]"
  have keys: "row_keys outs = [''a_0_0'', ''a_0_1'']" unfolding outs_def by code_simp
  have n: "length outs = 2" by (simp add: outs_def)
  then have len: "length outs = dp_len scored_pair" by (simp add: scored_pair_ok)
  have wide: "\<forall>row \<in> set ?M. row \<noteq> []" by simp
  obtain fin L a e A where r: "distinct fin" "\<forall>i < length outs. L i < length fin \<and> fin ! L i < length outs \<and> row_session outs (fin ! L i) = row_session outs i \<and>
        (\<forall>i' < length outs. row_session outs i' = row_session outs i \<longrightarrow> row_output outs i' \<le> row_output outs (fin ! L i))"
    "compute_advantage_for_multi_trajectories (adv_estimators (\<lambda>_. 0)) (\<lambda>_ _. []) real scored_pair (row_keys outs) ''grpo'' 1 1 True plain_algo = Inr (Some e)"
    "tensor ''advantages'' e = Inr A" "\<forall>i < length outs. A ! i = map (\<lambda>m. a ! L i * Max (set (?M ! (fin ! L i))) * m) (?M ! i)"
    using session_advantage_spread [OF scored_pair_ok(1) scored_pair_tensors(3,1) scored_pair_uid len wide,
      where ?by_std = True and ?registry = "adv_estimators (\<lambda>_. 0)" and ?multinomial = "\<lambda>_ _. []" and ?as_real = real and ?gamma = 1 and ?lam = 1 and ?cfg = plain_algo]
    by blast
  have last: "fin ! L i = 1" if "i < 2" for i
  proof -
    have "row_session outs 1 = row_session outs i" using that by (auto simp: row_session_def outs_def less_2_cases_iff)
    then have "row_output outs 1 \<le> row_output outs (fin ! L i)" "fin ! L i < 2" using r(2) that n by auto
    then show ?thesis by (auto simp: row_output_def outs_def less_2_cases_iff)
  qed
  have "L 0 < length fin" "L 1 < length fin" "fin ! L 0 = fin ! L 1" using r(2) last [of 0] last [of 1] n by simp_all
  then have "L 0 = L 1" using r(1) by (simp add: nth_eq_iff_index_eq)
  then have "A ! 0 ! 0 = A ! 1 ! 0" using r(5) [rule_format, of 0] r(5) [rule_format, of 1] last n by simp
  then show ?thesis using r(3,4) unfolding keys by blast
qed

theorem single_outputs_witness:
  "compute_advantage_for_multi_trajectories (adv_estimators (\<lambda>_. 0)) (\<lambda>_ _. []) real scored_pair (row_keys [(''a'', 0, 0), (''a'', 1, 0)]) ''grpo'' 1 1 True plain_algo =
    compute_advantage (adv_estimators (\<lambda>_. 0)) (\<lambda>_ _. []) real scored_pair ''grpo'' 1 1 True plain_algo"
  by (rule single_outputs_agree [OF scored_pair_ok(1) scored_pair_tensors(3,1) scored_pair_uid]) (simp_all add: scored_pair_ok)

end
