(* ===== verification/ValMetrics.thy ===== *)
theory ValMetrics
  imports PyKeys Metrics DataProto
begin

text \<open>
  Validation metrics (\<^verbatim>\<open>verl/trainer/ppo/metric_utils.py\<close>: \<open>bootstrap_metric\<close>, \<open>calc_maj_val\<close>,
  \<open>process_validation_metrics\<close>; \<^verbatim>\<open>verl/trainer/main_ppo_sync.py\<close>: \<open>_val_metrics_update\<close>). The samples are
  grouped by data source and prompt; each prompt gets its mean, its deviation and bootstrapped best-of, worst-of and
  majority values; a metric of a data source is the mean over its prompts.
\<close>

section \<open>Grouping\<close>

text \<open>What a reward function reports for a sample: a number, a text or nothing.\<close>

datatype info_value = Num real | Text string | Missing

text \<open>\<open>f\<close> applied to \<open>d[k]\<close>, where a missing entry is created first (a \<open>defaultdict\<close>).\<close>

definition dict_at :: "'k \<Rightarrow> 'v \<Rightarrow> ('v \<Rightarrow> 'v) \<Rightarrow> ('k, 'v) dict \<Rightarrow> ('k, 'v) dict" where
  "dict_at k fresh f d = dict_set k (f (case map_of d k of None \<Rightarrow> fresh | Some v \<Rightarrow> v)) d"

definition dict_push :: "'k \<Rightarrow> 'a \<Rightarrow> ('k, 'a list) dict \<Rightarrow> ('k, 'a list) dict" where
  "dict_push k x = dict_at k [] (\<lambda>xs. xs @ [x])"

type_synonym 'a nested = "(string, (string, (string, 'a) dict) dict) dict"

definition py_nth :: "nat \<Rightarrow> 'a list \<Rightarrow> 'a result" where
  "py_nth i xs = require (i < length xs) IndexError (Inr (xs ! i))"

definition note_sample :: "(string, info_value list) dict \<Rightarrow> string list \<Rightarrow> nat \<times> string \<Rightarrow> info_value list nested \<Rightarrow> info_value list nested result" where
  "note_sample infos sample_uids = (\<lambda>(i, data_source) groups.
     bind_r (py_nth i sample_uids) (\<lambda>uid.
     bind_r (items_r (py_nth i) infos) (\<lambda>values.
       Inr (dict_at data_source [] (dict_at uid [] (fold (\<lambda>(var, v). dict_push var v) values)) groups))))"

fun fold_r :: "('a \<Rightarrow> 's \<Rightarrow> 's result) \<Rightarrow> 'a list \<Rightarrow> 's \<Rightarrow> 's result" where
  "fold_r f [] s = Inr s"
| "fold_r f (x # xs) s = bind_r (f x s) (fold_r f xs)"

definition group_samples :: "string list \<Rightarrow> string list \<Rightarrow> (string, info_value list) dict \<Rightarrow> info_value list nested result" where
  "group_samples data_sources sample_uids infos = fold_r (note_sample infos sample_uids) (enumerate 0 data_sources) []"

section \<open>The metrics of a prompt\<close>

definition np_mean :: "vec \<Rightarrow> real" where
  "np_mean xs = sum_list xs / real (length xs)"

definition np_std :: "vec \<Rightarrow> real" where
  "np_std xs = sqrt (np_mean (map (\<lambda>x. (x - np_mean xs)\<^sup>2) xs))"

definition np_max :: "vec \<Rightarrow> real result" where
  "np_max xs = require (xs \<noteq> []) ValueError (Inr (Max (set xs)))"

definition np_min :: "vec \<Rightarrow> real result" where
  "np_min xs = require (xs \<noteq> []) ValueError (Inr (Min (set xs)))"

text \<open>Numpy cannot add \<open>None\<close> or texts.\<close>

definition number_of :: "info_value \<Rightarrow> real result" where
  "number_of v = (case v of Num x \<Rightarrow> Inr x | _ \<Rightarrow> Inl TypeError)"

text \<open>The sizes of the subsets: the powers of two below the number of responses, and that number.\<close>

function doubling :: "nat \<Rightarrow> nat \<Rightarrow> nat list" where
  "doubling n n_resps = (if 0 < n \<and> n < n_resps then n # doubling (n * 2) n_resps else [n_resps])"
  by pat_completeness auto

termination by (relation "measure (\<lambda>(n, n_resps). n_resps - n)") auto

declare doubling.simps [simp del]

definition gen_ns :: "nat \<Rightarrow> nat list" where
  "gen_ns n_resps = (if n_resps \<le> 1 then [] else doubling 2 n_resps)"

text \<open>\<open>np.random.choice(n_data, size=(n_bootstrap, subset_size))\<close> after \<open>np.random.seed(seed)\<close>: its rows.\<close>

type_synonym draws = "int \<Rightarrow> nat \<Rightarrow> nat \<Rightarrow> nat \<Rightarrow> nat list list"

definition bootstrap_metric :: "draws \<Rightarrow> 'a list \<Rightarrow> nat \<Rightarrow> ('a list \<Rightarrow> real result) list \<Rightarrow> nat \<Rightarrow> int \<Rightarrow> (real \<times> real) list result" where
  "bootstrap_metric choice data subset_size reduce_fns n_bootstrap seed =
     require (data \<noteq> [] \<or> n_bootstrap * subset_size = 0) ValueError
      (let bootstrap_idxs = choice seed (length data) n_bootstrap subset_size
       in map_r (\<lambda>reduce_fn.
            bind_r (map_r (\<lambda>idxs. bind_r (map_r (\<lambda>i. py_nth i data) idxs) reduce_fn) bootstrap_idxs) (\<lambda>results.
              Inr (np_mean results, np_std results))) reduce_fns)"

text \<open>\<open>max(d, key=d.get)\<close>: the first key with the greatest value.\<close>

definition max_key :: "('k \<times> nat) list \<Rightarrow> 'k result" where
  "max_key d = require (d \<noteq> []) ValueError (Inr (fst (hd (filter (\<lambda>p. snd p = Max (snd ` set d)) d))))"

definition calc_maj_val :: "(string, info_value) dict list \<Rightarrow> string \<Rightarrow> string \<Rightarrow> info_value result" where
  "calc_maj_val data vote_key val_key =
     bind_r (map_r (\<lambda>d. bind_r (dict_item d vote_key) (\<lambda>v. bind_r (dict_item d val_key) (\<lambda>x. Inr (v, x)))) data) (\<lambda>votes.
     let vote2vals = fold (\<lambda>(v, x). dict_push v x) votes []
     in bind_r (max_key (map_items length vote2vals)) (\<lambda>maj_vote.
        bind_r (dict_item vote2vals maj_vote) (py_nth 0)))"

definition metric_key :: "string \<Rightarrow> nat \<Rightarrow> string \<Rightarrow> string" where
  "metric_key prefix n suffix = prefix @ ''@'' @ str_nat n @ suffix"

text \<open>One size: best and worst of the subsets, and with predictions the majority's value. The pairs are (mean, deviation).\<close>

definition vote_data :: "info_value list \<Rightarrow> info_value list \<Rightarrow> (string, info_value) dict list result" where
  "vote_data var_vals pred_vals =
     require (length var_vals = length pred_vals) ValueError
      (Inr (map2 (\<lambda>v p. [(''val'', v), (''pred'', p)]) var_vals pred_vals))"

definition subset_metrics :: "draws \<Rightarrow> int \<Rightarrow> info_value list \<Rightarrow> info_value list option \<Rightarrow> nat \<Rightarrow> (string, real) dict \<Rightarrow> (string, real) dict result" where
  "subset_metrics choice seed var_vals pred_vals n metric =
     bind_r (bootstrap_metric choice var_vals n
         [\<lambda>s. bind_r (map_r number_of s) np_max, \<lambda>s. bind_r (map_r number_of s) np_min] 1000 seed) (\<lambda>pairs.
     let (bon_mean, bon_std) = pairs ! 0; (won_mean, won_std) = pairs ! 1;
         metric = dict_set (metric_key ''worst'' n ''/std'') won_std (dict_set (metric_key ''worst'' n ''/mean'') won_mean
            (dict_set (metric_key ''best'' n ''/std'') bon_std (dict_set (metric_key ''best'' n ''/mean'') bon_mean metric)))
     in case pred_vals of
          None \<Rightarrow> Inr metric
        | Some preds \<Rightarrow>
            bind_r (vote_data var_vals preds) (\<lambda>votes.
            bind_r (bootstrap_metric choice votes n [\<lambda>s. bind_r (calc_maj_val s ''pred'' ''val'') number_of] 1000 seed) (\<lambda>pairs.
            let (maj_n_mean, maj_n_std) = pairs ! 0
            in Inr (dict_set (metric_key ''maj'' n ''/std'') maj_n_std (dict_set (metric_key ''maj'' n ''/mean'') maj_n_mean metric)))))"

definition var_metrics :: "draws \<Rightarrow> int \<Rightarrow> info_value list \<Rightarrow> info_value list option \<Rightarrow> (string, real) dict result" where
  "var_metrics choice seed var_vals pred_vals =
     bind_r (map_r number_of var_vals) (\<lambda>xs.
     let n_resps = length var_vals; metric = dict_set (metric_key ''mean'' n_resps []) (np_mean xs) []
     in if n_resps > 1
        then fold_r (subset_metrics choice seed var_vals pred_vals) (gen_ns n_resps)
          (dict_set (metric_key ''std'' n_resps []) (np_std xs) metric)
        else Inr metric)"

definition skipped :: "info_value list \<Rightarrow> bool" where
  "skipped var_vals \<longleftrightarrow> (case var_vals of [] \<Rightarrow> True | Text t # _ \<Rightarrow> True | _ \<Rightarrow> False)"

definition prompt_metrics :: "draws \<Rightarrow> int \<Rightarrow> (string, info_value list) dict \<Rightarrow> (string, (string, real) dict) dict result" where
  "prompt_metrics choice seed var2vals =
     items_r (\<lambda>var_vals. var_metrics choice seed var_vals (map_of var2vals ''pred''))
       (filter (\<lambda>(var, var_vals). \<not> skipped var_vals) var2vals)"

section \<open>The metrics of a data source\<close>

text \<open>Every metric of every prompt, in the order of the loops.\<close>

definition metric_items :: "(string, real) dict nested \<Rightarrow> (string \<times> string \<times> string \<times> real) list" where
  "metric_items results = concat (map (\<lambda>(data_source, uid2var2metric). concat (map (\<lambda>(uid, var2metric).
     concat (map (\<lambda>(var, metric). map (\<lambda>(name, v). (data_source, var, name, v)) metric) var2metric)) uid2var2metric)) results)"

definition gather :: "(string \<times> string \<times> string \<times> real) list \<Rightarrow> real list nested" where
  "gather its = fold (\<lambda>(data_source, var, name, v). dict_at data_source [] (dict_at var [] (dict_push name v))) its []"

definition process_validation_metrics :: "draws \<Rightarrow> string list \<Rightarrow> string list \<Rightarrow> (string, info_value list) dict \<Rightarrow> int \<Rightarrow> real nested result" where
  "process_validation_metrics choice data_sources sample_uids infos_dict seed =
     bind_r (group_samples data_sources sample_uids infos_dict) (\<lambda>groups.
     bind_r (items_r (items_r (prompt_metrics choice seed)) groups) (\<lambda>results.
       Inr (map_items (map_items (map_items np_mean)) (gather (metric_items results)))))"

section \<open>The reported names\<close>

text \<open>\<open>str\<close> of an int.\<close>

definition str_int :: "int \<Rightarrow> string" where
  "str_int n = (if n < 0 then ''-'' @ str_nat (nat (- n)) else str_nat (nat n))"

definition size_in_name :: "string \<Rightarrow> int result" where
  "size_in_name name = int_of (hd (split_on (CHR ''/'') (last (split_on (CHR ''@'') name))))"

definition is_core :: "string \<Rightarrow> string \<Rightarrow> int \<Rightarrow> string \<Rightarrow> bool" where
  "is_core core_var var_name n_max metric_name \<longleftrightarrow>
     var_name = core_var \<and> (\<exists>pfx \<in> set [''mean'', ''maj'', ''best'']. startswith pfx metric_name) \<and>
     contains_text (''@'' @ str_int n_max) metric_name"

definition report_source :: "string \<times> (string, (string, real) dict) dict \<Rightarrow> (string, real) dict \<Rightarrow> (string, real) dict result" where
  "report_source = (\<lambda>(data_source, var2metric2val) metric_dict.
     let core_var = if ''acc'' \<in> set (dict_keys var2metric2val) then ''acc'' else ''reward''
     in fold_r (\<lambda>(var_name, metric2val) metric_dict.
          bind_r (map_r size_in_name (dict_keys metric2val)) (\<lambda>ns. require (ns \<noteq> []) ValueError
            (let n_max = Max (set ns)
             in Inr (fold (\<lambda>(metric_name, metric_val). dict_set
                  ((if is_core core_var var_name n_max metric_name then ''val-core'' else ''val-aux'') @ ''/'' @ data_source @ ''/'' @
                     var_name @ ''/'' @ metric_name) metric_val) metric2val metric_dict))))
        var2metric2val metric_dict)"

definition val_metrics_update :: "draws \<Rightarrow> string list \<Rightarrow> string list \<Rightarrow> (string, info_value list) dict \<Rightarrow> vec \<Rightarrow> (string, real) dict result" where
  "val_metrics_update choice data_sources sample_uids reward_extra_infos_dict sample_turns =
     bind_r (process_validation_metrics choice data_sources sample_uids reward_extra_infos_dict 42) (\<lambda>data_src2var2metric2val.
     bind_r (fold_r report_source data_src2var2metric2val []) (\<lambda>metric_dict.
       Inr (if sample_turns \<noteq> []
         then dict_set ''val-aux/num_turns/mean'' (np_mean sample_turns) (dict_set ''val-aux/num_turns/max'' (Max (set sample_turns))
            (dict_set ''val-aux/num_turns/min'' (Min (set sample_turns)) metric_dict))
         else metric_dict)))"

section \<open>Groups in closed form\<close>

text \<open>The distinct elements in the order of their first occurrence.\<close>

definition in_order :: "'a list \<Rightarrow> 'a list" where
  "in_order xs = rev (remdups (rev xs))"

definition prompts_of :: "string list \<Rightarrow> string list \<Rightarrow> string \<Rightarrow> string list" where
  "prompts_of sources uids source = in_order (map snd (filter (\<lambda>(d, u). d = source) (zip sources uids)))"

definition responses :: "string list \<Rightarrow> string list \<Rightarrow> string \<Rightarrow> string \<Rightarrow> 'a list \<Rightarrow> 'a list" where
  "responses sources uids source uid col = map snd (filter (\<lambda>((d, u), v). d = source \<and> u = uid) (zip (zip sources uids) col))"

definition keyed :: "('k \<Rightarrow> 'v) \<Rightarrow> 'k list \<Rightarrow> ('k, 'v) dict" where
  "keyed f ks = map (\<lambda>k. (k, f k)) ks"

lemma in_order_snoc: "in_order (xs @ [x]) = (if x \<in> set xs then in_order xs else in_order xs @ [x])"
  by (simp add: in_order_def)

lemma set_in_order [simp]: "set (in_order xs) = set xs"
  by (simp add: in_order_def)

lemma distinct_in_order [simp]: "distinct (in_order xs)"
  by (simp add: in_order_def)

lemma in_order_Nil [simp]: "in_order [] = []"
  by (simp add: in_order_def)

lemma map_of_keyed_list [simp]: "map_of (keyed f ks) k = (if k \<in> set ks then Some (f k) else None)"
  by (induction ks) (auto simp: keyed_def)

lemma keys_keyed [simp]: "dict_keys (keyed f ks) = ks"
  by (simp add: dict_keys_def keyed_def comp_def)

lemma dict_set_keyed: "distinct ks \<Longrightarrow> dict_set k v (keyed f ks) = keyed (f(k := v)) (if k \<in> set ks then ks else ks @ [k])"
  by (induction ks) (auto simp: keyed_def)

lemma dict_at_keyed:
  assumes "distinct ks"
  shows "dict_at k fresh g (keyed f ks) =
    keyed (f(k := g (if k \<in> set ks then f k else fresh))) (if k \<in> set ks then ks else ks @ [k])"
  by (simp add: dict_at_def dict_set_keyed [OF assms])

lemma push_values_step:
  assumes "distinct (map fst pre @ map fst infos)"
  shows "fold (\<lambda>(var, v). dict_push var v) (map (\<lambda>(var, c). (var, g c)) infos) (pre @ map (\<lambda>(var, c). (var, R c)) infos) =
    pre @ map (\<lambda>(var, c). (var, R c @ [g c])) infos"
  using assms
proof (induction infos arbitrary: pre)
  case (Cons vc infos)
  obtain var c where vc: "vc = (var, c)" by (cases vc)
  have new: "var \<notin> fst ` set pre" using Cons.prems vc by auto
  have "dict_push var (g c) (pre @ (var, R c) # map (\<lambda>(var, c). (var, R c)) infos) =
    (pre @ [(var, R c @ [g c])]) @ map (\<lambda>(var, c). (var, R c)) infos"
    using new by (induction pre) (auto simp: dict_push_def dict_at_def)
  then show ?case using Cons.IH [of "pre @ [(var, R c @ [g c])]"] Cons.prems by (simp add: vc)
qed simp

lemma push_values_start:
  assumes "distinct (map fst pre @ map fst infos)"
  shows "fold (\<lambda>(var, v). dict_push var v) (map (\<lambda>(var, c). (var, g c)) infos) pre = pre @ map (\<lambda>(var, c). (var, [g c])) infos"
  using assms
proof (induction infos arbitrary: pre)
  case (Cons vc infos)
  obtain var c where vc: "vc = (var, c)" by (cases vc)
  have "var \<notin> set (dict_keys pre)" using Cons.prems vc by (auto simp: dict_keys_def)
  moreover from this have "map_of pre var = None" by (simp add: map_of_eq_None_iff dict_keys_def)
  ultimately have "dict_push var (g c) pre = pre @ [(var, [g c])]" by (simp add: dict_push_def dict_at_def dict_set_fresh)
  then show ?case using Cons.IH [of "pre @ [(var, [g c])]"] Cons.prems by (simp add: vc)
qed simp

lemma fold_r_append: "fold_r f (xs @ ys) s = bind_r (fold_r f xs s) (fold_r f ys)"
proof (induction xs arbitrary: s)
  case (Cons x xs)
  then show ?case by (cases "f x s") auto
qed simp

lemma zip_snoc_left: "length xs < length ys \<Longrightarrow> zip (xs @ [x]) ys = zip xs ys @ [(x, ys ! length xs)]"
  by (induction xs ys rule: list_induct2') (auto simp: neq_Nil_conv)

lemma responses_snoc:
  assumes "length sources < length uids" "length sources < length col"
  shows "responses (sources @ [d]) uids source uid col =
    responses sources uids source uid col @ (if d = source \<and> uids ! length sources = uid then [col ! length sources] else [])"
  using assms by (simp add: responses_def zip_snoc_left)

lemma prompts_of_snoc:
  assumes "length sources < length uids"
  shows "prompts_of (sources @ [d]) uids source =
    (if d = source \<and> uids ! length sources \<notin> set (prompts_of sources uids source)
     then prompts_of sources uids source @ [uids ! length sources] else prompts_of sources uids source)"
  using assms by (simp add: prompts_of_def zip_snoc_left in_order_snoc)

lemma set_prompts_of: "uid \<in> set (prompts_of sources uids source) \<longleftrightarrow> (source, uid) \<in> set (zip sources uids)"
  by (force simp: prompts_of_def)

lemma responses_none:
  assumes "uid \<notin> set (prompts_of sources uids source)"
  shows "responses sources uids source uid col = []"
proof -
  have "\<not> (d = source \<and> u = uid)" if "((d, u), v) \<in> set (zip (zip sources uids) col)" for d u v
    using assms set_zip_leftD [OF that] by (auto simp: set_prompts_of)
  then show ?thesis by (auto simp: responses_def filter_empty_conv)
qed

lemma prompts_none:
  assumes "source \<notin> set sources"
  shows "prompts_of sources uids source = []"
proof -
  have "uid \<notin> set (prompts_of sources uids source)" for uid using assms by (auto simp: set_prompts_of dest: set_zip_leftD)
  then show ?thesis by (meson ex_in_conv set_empty)
qed

definition grouped :: "string list \<Rightarrow> string list \<Rightarrow> (string, info_value list) dict \<Rightarrow> info_value list nested" where
  "grouped sources uids infos =
     keyed (\<lambda>source. keyed (\<lambda>uid. map (\<lambda>(var, col). (var, responses sources uids source uid col)) infos)
       (prompts_of sources uids source)) (in_order sources)"

lemma keyed_cong: "ks = ks' \<Longrightarrow> (\<And>k. k \<in> set ks' \<Longrightarrow> f k = g k) \<Longrightarrow> keyed f ks = keyed g ks'"
  by (simp add: keyed_def)

lemma distinct_prompts_of [simp]: "distinct (prompts_of sources uids source)"
  by (simp add: prompts_of_def)

lemma push_values:
  assumes "distinct (dict_keys infos)"
  shows "fold (\<lambda>(var, v). dict_push var v) (map (\<lambda>(var, c). (var, g c)) infos) (if b then map (\<lambda>(var, c). (var, R c)) infos else []) =
    map (\<lambda>(var, c). (var, (if b then R c else []) @ [g c])) infos"
  using assms push_values_step [of "[]" infos g R] push_values_start [of "[]" infos g] by (simp add: dict_keys_def)

lemma note_sample_step:
  assumes len: "length xs < length uids" "distinct (dict_keys infos)" "\<forall>(var, col) \<in> set infos. length xs < length col"
  shows "note_sample infos uids (length xs, source) (grouped xs uids infos) = Inr (grouped (xs @ [source]) uids infos)"
proof -
  let ?n = "length xs" and ?uid = "uids ! length xs"
  let ?R = "\<lambda>s u c. responses xs uids s u c" and ?R' = "\<lambda>s u c. responses (xs @ [source]) uids s u c"
  let ?F = "\<lambda>s. keyed (\<lambda>u. map (\<lambda>(var, c). (var, ?R s u c)) infos) (prompts_of xs uids s)"
  let ?F' = "\<lambda>s. keyed (\<lambda>u. map (\<lambda>(var, c). (var, ?R' s u c)) infos) (prompts_of (xs @ [source]) uids s)"
  let ?push = "fold (\<lambda>(var, v). dict_push var v) (map (\<lambda>(var, c). (var, c ! ?n)) infos)"
  have items: "items_r (py_nth ?n) infos = Inr (map_items (\<lambda>c. c ! ?n) infos)"
    by (rule items_r_total) (use len(3) in \<open>auto simp: py_nth_def\<close>)
  have R': "?R' s u c = ?R s u c @ (if s = source \<and> u = ?uid then [c ! ?n] else [])" if "(var, c) \<in> set infos" for s u c var
    using that len by (auto simp: responses_snoc)
  have P': "prompts_of (xs @ [source]) uids s = (if s = source \<and> ?uid \<notin> set (prompts_of xs uids s)
      then prompts_of xs uids s @ [?uid] else prompts_of xs uids s)" for s
    by (auto simp: prompts_of_snoc [OF len(1)])
  have outer: "(if source \<in> set (in_order xs) then ?F source else []) = ?F source"
    by (simp add: prompts_none keyed_def)
  have pushed: "?push (if ?uid \<in> set (prompts_of xs uids source) then map (\<lambda>(var, c). (var, ?R source ?uid c)) infos else []) =
      map (\<lambda>(var, c). (var, ?R' source ?uid c)) infos"
    unfolding push_values [OF len(2), of "\<lambda>c. c ! ?n"] by (auto simp: R' responses_none)
  have inner: "dict_at ?uid [] ?push (?F source) = ?F' source"
    unfolding dict_at_keyed [OF distinct_prompts_of] pushed
    by (rule keyed_cong) (auto simp: P' R')
  have other: "?F s = ?F' s" if "s \<noteq> source" for s
    by (rule keyed_cong) (use that in \<open>auto simp: P' R'\<close>)
  have "dict_at source [] (dict_at ?uid [] ?push) (grouped xs uids infos) = grouped (xs @ [source]) uids infos"
    unfolding grouped_def dict_at_keyed [OF distinct_in_order] outer inner
    by (rule keyed_cong) (simp_all add: in_order_snoc other)
  then show ?thesis using len(1) by (simp add: note_sample_def items py_nth_def map_items_def)
qed

lemma group_samples_closed:
  assumes "length sources \<le> length uids" "distinct (dict_keys infos)" "\<forall>(var, col) \<in> set infos. length sources \<le> length col"
  shows "group_samples sources uids infos = Inr (grouped sources uids infos)"
  using assms
proof (induction sources rule: rev_induct)
  case Nil
  then show ?case by (simp add: group_samples_def grouped_def keyed_def)
next
  case (snoc source xs)
  then have "group_samples xs uids infos = Inr (grouped xs uids infos)" by fastforce
  then show ?case using snoc.prems note_sample_step [of xs uids infos source]
    by (fastforce simp: group_samples_def enumerate_append_eq fold_r_append)
qed

section \<open>Majority votes\<close>

lemma push_groups:
  "fold (\<lambda>(k, x). dict_push k x) kvs [] = keyed (\<lambda>k. map snd (filter (\<lambda>(k', x). k' = k) kvs)) (in_order (map fst kvs))"
proof (induction kvs rule: rev_induct)
  case (snoc kv kvs)
  obtain k x where kv: "kv = (k, x)" by (cases kv)
  have none: "map snd (filter (\<lambda>(k', x). k' = k) kvs) = []" if "k \<notin> fst ` set kvs"
    using that by (force simp: filter_empty_conv)
  show ?case
    unfolding fold_append snoc.IH o_apply
    by (simp add: kv dict_push_def dict_at_keyed in_order_snoc, intro conjI impI keyed_cong)
      (auto simp: none)
qed (simp add: keyed_def)

definition vote_row :: "info_value \<times> info_value \<Rightarrow> (string, info_value) dict" where
  "vote_row = (\<lambda>(v, p). [(''val'', v), (''pred'', p)])"

definition votes_for :: "info_value \<Rightarrow> (info_value \<times> info_value) list \<Rightarrow> (info_value \<times> info_value) list" where
  "votes_for p rows = filter (\<lambda>(v, p'). p' = p) rows"

lemma in_order_append: "in_order (xs @ ys) = in_order xs @ filter (\<lambda>y. y \<notin> set xs) (in_order ys)"
proof (induction ys rule: rev_induct)
  case (snoc y ys)
  then show ?case using in_order_snoc [of "xs @ ys" y] by (simp add: in_order_snoc)
qed simp

lemma in_order_none [simp]: "in_order xs = [] \<longleftrightarrow> xs = []"
  by (metis set_empty set_in_order)

lemma in_order_Cons: "in_order (x # xs) = x # filter (\<lambda>y. y \<noteq> x) (in_order xs)"
  using in_order_append [of "[x]" xs] by (simp add: in_order_def)

lemma filter_in_order: "filter P (in_order xs) = in_order (filter P xs)"
  by (induction xs rule: rev_induct) (auto simp: in_order_snoc)

lemma hd_filter: "i < length xs \<Longrightarrow> P (xs ! i) \<Longrightarrow> (\<And>j. j < i \<Longrightarrow> \<not> P (xs ! j)) \<Longrightarrow> hd (filter P xs) = xs ! i"
proof (induction xs arbitrary: i)
  case (Cons x xs)
  show ?case
  proof (cases i)
    case (Suc i')
    then have "\<not> P x" "\<And>j. j < i' \<Longrightarrow> \<not> P (xs ! j)" using Cons.prems(3) [of 0] Cons.prems(3) [of "Suc _"] by auto
    then show ?thesis using Cons.IH [of i'] Cons.prems Suc by simp
  qed (use Cons.prems in simp)
qed simp

text \<open>The winner is the vote of the first row whose vote has the most rows, and its value is the value of that row.\<close>

lemma maj_val_rows:
  assumes "rows \<noteq> []"
  shows "\<exists>i < length rows. calc_maj_val (map vote_row rows) ''pred'' ''val'' = Inr (fst (rows ! i)) \<and>
    (\<forall>p. length (votes_for p rows) \<le> length (votes_for (snd (rows ! i)) rows)) \<and>
    (\<forall>j < i. length (votes_for (snd (rows ! j)) rows) < length (votes_for (snd (rows ! i)) rows))"
proof -
  let ?g = "\<lambda>p. map fst (votes_for p rows)" and ?ks = "in_order (map snd rows)" and ?c = "\<lambda>p. length (votes_for p rows)"
  have votes: "map_r (\<lambda>d. bind_r (dict_item d ''pred'') (\<lambda>v. bind_r (dict_item d ''val'') (\<lambda>x. Inr (v, x)))) (map vote_row rows) =
      Inr (map (\<lambda>(v, p). (p, v)) rows)"
    unfolding map_r_map by (rule map_r_total) (auto simp: vote_row_def dict_item_def)
  have table: "fold (\<lambda>(v, x). dict_push v x) (map (\<lambda>(v, p). (p, v)) rows) [] = keyed ?g ?ks"
    unfolding push_groups by (rule keyed_cong) (simp_all add: comp_def case_prod_unfold votes_for_def filter_map)
  define top where "top = Max (?c ` set (map snd rows))"
  have top: "\<forall>r \<in> set rows. ?c (snd r) \<le> top" "\<exists>r \<in> set rows. ?c (snd r) = top"
  proof -
    have "?c ` set (map snd rows) \<noteq> {}" using assms by simp
    then have "top \<in> ?c ` set (map snd rows)" unfolding top_def by (intro Max_in) simp_all
    then show "\<exists>r \<in> set rows. ?c (snd r) = top" by force
  qed (simp add: top_def)
  obtain i where i: "i < length rows" and at_i: "?c (snd (rows ! i)) = top" and before: "\<And>j. j < i \<Longrightarrow> ?c (snd (rows ! j)) \<noteq> top"
  proof -
    have "\<exists>i < length rows. ?c (snd (rows ! i)) = top" using top(2) by (metis in_set_conv_nth)
    then obtain i where "i < length rows \<and> ?c (snd (rows ! i)) = top" "\<And>j. j < i \<Longrightarrow> \<not> (j < length rows \<and> ?c (snd (rows ! j)) = top)"
      using exists_least_iff [of "\<lambda>i. i < length rows \<and> ?c (snd (rows ! i)) = top"] by blast
    then show thesis by (intro that [of i]) (auto dest: less_trans)
  qed
  have "max_key (map_items length (keyed ?g ?ks)) = Inr (hd (filter (\<lambda>p. ?c p = top) ?ks))"
  proof -
    have "map_items length (keyed ?g ?ks) = map (\<lambda>p. (p, ?c p)) ?ks" by (simp add: map_items_def keyed_def)
    moreover have "Max (snd ` set (map (\<lambda>p. (p, ?c p)) ?ks)) = top" by (simp add: top_def image_image)
    moreover have "filter (\<lambda>q. snd q = top) (map (\<lambda>p. (p, ?c p)) ?ks) = map (\<lambda>p. (p, ?c p)) (filter (\<lambda>p. ?c p = top) ?ks)"
      by (simp add: filter_map comp_def)
    moreover have "filter (\<lambda>p. ?c p = top) ?ks \<noteq> []" using top(2) by (auto simp: filter_empty_conv)
    ultimately show ?thesis using assms by (simp add: max_key_def hd_map)
  qed
  also have "hd (filter (\<lambda>p. ?c p = top) ?ks) = snd (rows ! i)"
  proof -
    have "filter (\<lambda>p. ?c p = top) (map snd rows) = map snd (filter (\<lambda>r. ?c (snd r) = top) rows)" by (simp add: filter_map comp_def)
    moreover have ne: "filter (\<lambda>r. ?c (snd r) = top) rows \<noteq> []" using top(2) by (auto simp: filter_empty_conv)
    moreover have "hd (filter (\<lambda>r. ?c (snd r) = top) rows) = rows ! i" by (rule hd_filter [OF i]) (use at_i before in auto)
    moreover have "hd (in_order ys) = hd ys" if "ys \<noteq> []" for ys :: "info_value list" using that by (cases ys) (auto simp: in_order_Cons)
    ultimately show ?thesis by (simp add: filter_in_order hd_map)
  qed
  finally have winner: "max_key (map_items length (keyed ?g ?ks)) = Inr (snd (rows ! i))" .
  have earlier: "snd (rows ! j) \<noteq> snd (rows ! i)" if "j < i" for j using before [OF that] at_i by auto
  have "hd (votes_for (snd (rows ! i)) rows) = rows ! i"
    unfolding votes_for_def by (rule hd_filter [OF i]) (simp_all add: case_prod_unfold earlier)
  moreover have ne: "votes_for (snd (rows ! i)) rows \<noteq> []" using nth_mem [OF i] by (force simp: votes_for_def filter_empty_conv case_prod_unfold)
  ultimately have "py_nth 0 (?g (snd (rows ! i))) = Inr (fst (rows ! i))" by (simp add: py_nth_def hd_conv_nth)
  then have "calc_maj_val (map vote_row rows) ''pred'' ''val'' = Inr (fst (rows ! i))"
    unfolding calc_maj_val_def votes bind_r_simps Let_def table winner using i by (simp add: dict_item_def)
  moreover have "?c p \<le> top" for p
  proof (cases "votes_for p rows = []")
    case False
    then obtain v where "(v, p) \<in> set rows" by (auto simp: votes_for_def filter_empty_conv)
    then show ?thesis using top(1) by fastforce
  qed simp
  moreover have "?c (snd (rows ! j)) < top" if "j < i" for j
    using before [OF that] top(1) i that by (meson le_neq_implies_less less_trans nth_mem)
  ultimately show ?thesis using i at_i by (intro exI [of _ i]) auto
qed

section \<open>The metrics of a prompt in closed form\<close>

definition draws_ok :: "draws \<Rightarrow> bool" where
  "draws_ok choice \<longleftrightarrow> (\<forall>seed n_data n_bootstrap subset_size. 0 < n_data \<longrightarrow>
     length (choice seed n_data n_bootstrap subset_size) = n_bootstrap \<and>
     (\<forall>idxs \<in> set (choice seed n_data n_bootstrap subset_size). length idxs = subset_size \<and> (\<forall>i \<in> set idxs. i < n_data)))"

lemma draws_okD:
  assumes "draws_ok choice" "0 < n"
  shows "length (choice seed n b k) = b"
    and "idxs \<in> set (choice seed n b k) \<Longrightarrow> length idxs = k"
    and "idxs \<in> set (choice seed n b k) \<Longrightarrow> i \<in> set idxs \<Longrightarrow> i < n"
  using assms unfolding draws_ok_def by blast+

definition subsets :: "draws \<Rightarrow> int \<Rightarrow> nat \<Rightarrow> 'a list \<Rightarrow> 'a list list" where
  "subsets choice seed n xs = map (\<lambda>idxs. map ((!) xs) idxs) (choice seed (length xs) 1000 n)"

lemma subsets_facts:
  assumes "draws_ok choice" "xs \<noteq> []"
  shows "length (subsets choice seed n xs) = 1000"
    and "s \<in> set (subsets choice seed n xs) \<Longrightarrow> length s = n \<and> set s \<subseteq> set xs"
  using draws_okD [OF assms(1), of "length xs"] assms(2) by (auto simp: subsets_def)

lemma bootstrap_total:
  assumes choice: "draws_ok choice" and ne: "data \<noteq> []" and n: "0 < n"
    and fns: "list_all2 (\<lambda>f g. \<forall>s. s \<noteq> [] \<and> set s \<subseteq> set data \<longrightarrow> f s = Inr (g s)) fns gs"
  shows "bootstrap_metric choice data n fns 1000 seed =
    Inr (map (\<lambda>g. (np_mean (map g (subsets choice seed n data)), np_std (map g (subsets choice seed n data)))) gs)"
proof -
  let ?rows = "choice seed (length data) 1000 n"
  have one: "map_r (\<lambda>idxs. bind_r (map_r (\<lambda>i. py_nth i data) idxs) f) ?rows = Inr (map g (subsets choice seed n data))"
    if f: "\<And>s. s \<noteq> [] \<Longrightarrow> set s \<subseteq> set data \<Longrightarrow> f s = Inr (g s)" for f g
  proof -
    have "bind_r (map_r (\<lambda>i. py_nth i data) idxs) f = Inr (g (map ((!) data) idxs))" if "idxs \<in> set ?rows" for idxs
    proof -
      have ok: "length idxs = n" "\<forall>i \<in> set idxs. i < length data" using draws_okD [OF choice, of "length data"] ne that by blast+
      then have "map_r (\<lambda>i. py_nth i data) idxs = Inr (map ((!) data) idxs)" by (intro map_r_total) (simp add: py_nth_def)
      moreover have "set (map ((!) data) idxs) \<subseteq> set data" using ok by auto
      ultimately show ?thesis using f [of "map ((!) data) idxs"] ok n by auto
    qed
    then show ?thesis unfolding subsets_def map_map comp_def by (rule map_r_total)
  qed
  have "map_r (\<lambda>f. bind_r (map_r (\<lambda>idxs. bind_r (map_r (\<lambda>i. py_nth i data) idxs) f) ?rows) (\<lambda>results. Inr (np_mean results, np_std results))) fns =
    Inr (map (\<lambda>g. (np_mean (map g (subsets choice seed n data)), np_std (map g (subsets choice seed n data)))) gs)"
    using fns by (induction fns gs rule: list_all2_induct) (simp_all add: one)
  then show ?thesis using ne by (simp add: bootstrap_metric_def Let_def)
qed

definition majority :: "(real \<times> info_value) list \<Rightarrow> real" where
  "majority rows = (let count = (\<lambda>p. length (filter (\<lambda>r. snd r = p) rows))
     in fst (hd (filter (\<lambda>r. count (snd r) = Max ((\<lambda>r. count (snd r)) ` set rows)) rows)))"

definition subset_items :: "draws \<Rightarrow> int \<Rightarrow> vec \<Rightarrow> info_value list option \<Rightarrow> nat \<Rightarrow> (string, real) dict" where
  "subset_items choice seed xs preds n =
     (let best = map (\<lambda>s. Max (set s)) (subsets choice seed n xs); worst = map (\<lambda>s. Min (set s)) (subsets choice seed n xs)
      in [(metric_key ''best'' n ''/mean'', np_mean best), (metric_key ''best'' n ''/std'', np_std best),
          (metric_key ''worst'' n ''/mean'', np_mean worst), (metric_key ''worst'' n ''/std'', np_std worst)] @
         (case preds of None \<Rightarrow> []
          | Some ps \<Rightarrow> let maj = map majority (subsets choice seed n (zip xs ps))
              in [(metric_key ''maj'' n ''/mean'', np_mean maj), (metric_key ''maj'' n ''/std'', np_std maj)]))"

definition prompt_items :: "draws \<Rightarrow> int \<Rightarrow> vec \<Rightarrow> info_value list option \<Rightarrow> (string, real) dict" where
  "prompt_items choice seed xs preds =
     (metric_key ''mean'' (length xs) [], np_mean xs) #
     (if 1 < length xs then (metric_key ''std'' (length xs) [], np_std xs) # concat (map (subset_items choice seed xs preds) (gen_ns (length xs)))
      else [])"

lemma map_r_numbers [simp]: "map_r number_of (map Num xs) = Inr xs"
  by (induction xs) (auto simp: number_of_def)

lemma map_number_of: "set s \<subseteq> Num ` A \<Longrightarrow> \<exists>ys. s = map Num ys \<and> set ys \<subseteq> A"
proof (induction s)
  case (Cons v s)
  then obtain y ys where "v = Num y" "y \<in> A" "s = map Num ys" "set ys \<subseteq> A" by auto
  then show ?case by (intro exI [of _ "y # ys"]) simp
qed simp

lemma subsets_map: "draws_ok choice \<Longrightarrow> xs \<noteq> [] \<Longrightarrow> subsets choice seed n (map f xs) = map (map f) (subsets choice seed n xs)"
  using draws_okD(3) [of choice "length xs"] by (force simp: subsets_def)

lemma majority_member: "rows \<noteq> [] \<Longrightarrow> majority rows \<in> fst ` set rows"
proof -
  assume ne: "rows \<noteq> []"
  let ?count = "\<lambda>p. length (filter (\<lambda>r. snd r = p) rows)"
  let ?top = "Max ((\<lambda>r. ?count (snd r)) ` set rows)"
  have "?top \<in> (\<lambda>r. ?count (snd r)) ` set rows" by (rule Max_in) (use ne in simp_all)
  then obtain r where "r \<in> set rows" "?count (snd r) = ?top" by (metis (no_types, lifting) imageE)
  then have "filter (\<lambda>r. ?count (snd r) = ?top) rows \<noteq> []" by (metis (mono_tags, lifting) filter_empty_conv)
  then have "hd (filter (\<lambda>r. ?count (snd r) = Max ((\<lambda>r. ?count (snd r)) ` set rows)) rows) \<in> set rows"
    by (metis (no_types, lifting) filter_is_subset hd_in_set subsetD)
  then show ?thesis by (simp add: majority_def)
qed

lemma majority_at:
  assumes i: "i < length rows"
    and top: "\<forall>p. length (filter (\<lambda>r. snd r = p) rows) \<le> length (filter (\<lambda>r. snd r = snd (rows ! i)) rows)"
    and before: "\<forall>j < i. length (filter (\<lambda>r. snd r = snd (rows ! j)) rows) < length (filter (\<lambda>r. snd r = snd (rows ! i)) rows)"
  shows "majority rows = fst (rows ! i)"
proof -
  let ?count = "\<lambda>p. length (filter (\<lambda>r. snd r = p) rows)"
  have max: "Max ((\<lambda>r. ?count (snd r)) ` set rows) = ?count (snd (rows ! i))"
    by (rule Max_eqI) (use i top in auto)
  have "hd (filter (\<lambda>r. ?count (snd r) = ?count (snd (rows ! i))) rows) = rows ! i"
    by (rule hd_filter [OF i]) (use before in auto)
  then show ?thesis unfolding majority_def Let_def max by simp
qed

lemma calc_maj_val_majority:
  assumes "rows \<noteq> []"
  shows "calc_maj_val (map (\<lambda>(x, p). vote_row (Num x, p)) rows) ''pred'' ''val'' = Inr (Num (majority rows))"
proof -
  let ?rows = "map (\<lambda>(x, p). (Num x, p)) rows"
  have count: "length (votes_for p ?rows) = length (filter (\<lambda>r. snd r = p) rows)" for p
    by (simp add: votes_for_def filter_map comp_def case_prod_unfold)
  have nth: "snd (?rows ! i) = snd (rows ! i)" "fst (?rows ! i) = Num (fst (rows ! i))" if "i < length rows" for i
    using that by (simp_all add: case_prod_unfold)
  obtain i where i: "i < length rows" "calc_maj_val (map vote_row ?rows) ''pred'' ''val'' = Inr (fst (?rows ! i))"
    "\<forall>p. length (votes_for p ?rows) \<le> length (votes_for (snd (?rows ! i)) ?rows)"
    "\<forall>j < i. length (votes_for (snd (?rows ! j)) ?rows) < length (votes_for (snd (?rows ! i)) ?rows)"
    using maj_val_rows [of ?rows] assms by auto
  have "majority rows = fst (rows ! i)"
    by (rule majority_at [OF i(1)]) (use i nth in \<open>auto simp: count\<close>)
  moreover have eq: "map (\<lambda>(x, p). vote_row (Num x, p)) rows = map vote_row ?rows" by auto
  ultimately show ?thesis using i(1) nth unfolding eq i(2) by simp
qed

definition unnum :: "info_value \<Rightarrow> real" where
  "unnum v = (case v of Num x \<Rightarrow> x | _ \<Rightarrow> 0)"

definition unvote :: "(string, info_value) dict \<Rightarrow> real \<times> info_value" where
  "unvote d = (unnum (snd (d ! 0)), snd (d ! 1))"

lemma unvote_inverse [simp]: "map (unvote \<circ> (\<lambda>(x, p). vote_row (Num x, p))) rows = rows" "map (unnum \<circ> Num) xs = xs"
  by (simp_all add: map_idI unvote_def vote_row_def unnum_def case_prod_unfold)

lemma map_member: "set s \<subseteq> F ` A \<Longrightarrow> \<exists>ys. s = map F ys"
proof (induction s)
  case (Cons v s)
  then obtain y ys where "v = F y" "s = map F ys" by auto
  then show ?case by (intro exI [of _ "y # ys"]) simp
qed simp

lemma subset_metrics_closed:
  assumes choice: "draws_ok choice" and xs: "xs \<noteq> []" and n: "0 < n" and preds: "\<And>ps. preds = Some ps \<Longrightarrow> length ps = length xs"
  shows "subset_metrics choice seed (map Num xs) preds n metric = Inr (dict_update metric (subset_items choice seed xs preds n))"
proof -
  let ?F = "\<lambda>(x, p). vote_row (Num x, p)"
  have extreme: "bind_r (map_r number_of s) np_max = Inr (Max (set (map unnum s)))" "bind_r (map_r number_of s) np_min = Inr (Min (set (map unnum s)))"
    if s: "s \<noteq> []" "set s \<subseteq> set (map Num xs)" for s
  proof -
    obtain ys where "s = map Num ys" using map_member [of s Num "set xs"] s(2) by auto
    then show "bind_r (map_r number_of s) np_max = Inr (Max (set (map unnum s)))" "bind_r (map_r number_of s) np_min = Inr (Min (set (map unnum s)))"
      using s(1) by (simp_all add: np_max_def np_min_def unnum_def image_image)
  qed
  have vals: "bootstrap_metric choice (map Num xs) n [\<lambda>s. bind_r (map_r number_of s) np_max, \<lambda>s. bind_r (map_r number_of s) np_min] 1000 seed =
    Inr (let best = map (\<lambda>s. Max (set s)) (subsets choice seed n xs); worst = map (\<lambda>s. Min (set s)) (subsets choice seed n xs)
      in [(np_mean best, np_std best), (np_mean worst, np_std worst)])"
  proof -
    have "bootstrap_metric choice (map Num xs) n [\<lambda>s. bind_r (map_r number_of s) np_max, \<lambda>s. bind_r (map_r number_of s) np_min] 1000 seed =
      Inr (map (\<lambda>g. (np_mean (map g (subsets choice seed n (map Num xs))), np_std (map g (subsets choice seed n (map Num xs)))))
        [\<lambda>s. Max (set (map unnum s)), \<lambda>s. Min (set (map unnum s))])"
      by (rule bootstrap_total [OF choice _ n]) (use xs extreme in simp_all)
    then show ?thesis by (simp add: subsets_map [OF choice xs] comp_def image_image unnum_def Let_def)
  qed
  have votes: "bootstrap_metric choice (map ?F (zip xs ps)) n [\<lambda>s. bind_r (calc_maj_val s ''pred'' ''val'') number_of] 1000 seed =
    Inr (let maj = map majority (subsets choice seed n (zip xs ps)) in [(np_mean maj, np_std maj)])" if ps: "length ps = length xs" for ps
  proof -
    have ne: "zip xs ps \<noteq> []" using xs ps by (cases xs; cases ps) simp_all
    have maj: "bind_r (calc_maj_val s ''pred'' ''val'') number_of = Inr (majority (map unvote s))"
      if s: "s \<noteq> []" "set s \<subseteq> set (map ?F (zip xs ps))" for s
    proof -
      obtain rows where "s = map ?F rows" using map_member [of s ?F "set (zip xs ps)"] s(2) by auto
      then show ?thesis using s(1) calc_maj_val_majority [of rows] by (simp add: number_of_def)
    qed
    have "bootstrap_metric choice (map ?F (zip xs ps)) n [\<lambda>s. bind_r (calc_maj_val s ''pred'' ''val'') number_of] 1000 seed =
      Inr (map (\<lambda>g. (np_mean (map g (subsets choice seed n (map ?F (zip xs ps)))), np_std (map g (subsets choice seed n (map ?F (zip xs ps))))))
        [\<lambda>s. majority (map unvote s)])"
      by (rule bootstrap_total [OF choice _ n]) (use ne maj in simp_all)
    then show ?thesis by (simp add: subsets_map [OF choice ne] comp_def [of _ "map _"] Let_def)
  qed
  have rows: "vote_data (map Num xs) ps = Inr (map ?F (zip xs ps))" if "length ps = length xs" for ps
    using that by (simp add: vote_data_def vote_row_def zip_map1 case_prod_unfold)
  show ?thesis
  proof (cases preds)
    case None
    then show ?thesis by (simp add: subset_metrics_def vals subset_items_def Let_def)
  next
    case (Some ps)
    show ?thesis unfolding Some subset_metrics_def vals
      by (simp add: subset_items_def Let_def rows [OF preds [OF Some]] votes [OF preds [OF Some]])
  qed
qed

lemma fold_updates:
  assumes "\<And>n metric. n \<in> set ns \<Longrightarrow> f n metric = Inr (dict_update metric (g n))"
  shows "fold_r f ns metric = Inr (dict_update metric (concat (map g ns)))"
  using assms by (induction ns arbitrary: metric) (simp_all add: dict_update_def)

section \<open>Names of metrics\<close>

lemma digit_not: "c \<in> set (str_nat n) \<Longrightarrow> c \<noteq> CHR ''@'' \<and> c \<noteq> CHR ''/''"
proof -
  assume "c \<in> set (str_nat n)"
  then obtain d where d: "d < 10" "c = digit d" using str_nat_digits by blast
  have "is_digit c" using digit_facts(1) [OF d(1)] d(2) by simp
  then show ?thesis by (auto simp: is_digit_def)
qed

lemma takeWhile_stop: "\<forall>c \<in> set xs. P c \<Longrightarrow> ys = [] \<or> \<not> P (hd ys) \<Longrightarrow> takeWhile P (xs @ ys) = xs"
  by (induction xs) (cases ys, auto)

lemma metric_key_inj:
  assumes "CHR ''@'' \<notin> set p" "CHR ''@'' \<notin> set p'" "s = [] \<or> hd s = CHR ''/''" "s' = [] \<or> hd s' = CHR ''/''"
  shows "metric_key p n s = metric_key p' n' s' \<longleftrightarrow> p = p' \<and> n = n' \<and> s = s'"
proof
  assume eq: "metric_key p n s = metric_key p' n' s'"
  have p: "takeWhile (\<lambda>c. c \<noteq> CHR ''@'') (metric_key p n s) = p" if "CHR ''@'' \<notin> set p" for p n s
    using that unfolding metric_key_def by (intro takeWhile_stop) auto
  have pp: "p = p'" using eq p [OF assms(1)] p [OF assms(2)] by metis
  then have t: "str_nat n @ s = str_nat n' @ s'" using eq by (simp add: metric_key_def)
  have num: "takeWhile (\<lambda>c. c \<noteq> CHR ''/'') (str_nat n @ s) = str_nat n" if "s = [] \<or> hd s = CHR ''/''" for n s
    using that digit_not by (intro takeWhile_stop) auto
  have "str_nat n = str_nat n'" using t num [OF assms(3)] num [OF assms(4)] by metis
  then show "p = p' \<and> n = n' \<and> s = s'" using pp t by simp
qed simp

lemma metric_key_simps [simp]:
  "metric_key ''mean'' n [] \<noteq> metric_key ''std'' n' []"
  "metric_key ''std'' n' [] \<noteq> metric_key ''mean'' n []"
  "p \<in> {''best'', ''worst'', ''maj''} \<Longrightarrow> s \<in> {''/mean'', ''/std''} \<Longrightarrow> metric_key p n s \<noteq> metric_key ''mean'' n' []"
  "p \<in> {''best'', ''worst'', ''maj''} \<Longrightarrow> s \<in> {''/mean'', ''/std''} \<Longrightarrow> metric_key p n s \<noteq> metric_key ''std'' n' []"
  "p \<in> {''best'', ''worst'', ''maj''} \<Longrightarrow> s \<in> {''/mean'', ''/std''} \<Longrightarrow> p' \<in> {''best'', ''worst'', ''maj''} \<Longrightarrow> s' \<in> {''/mean'', ''/std''} \<Longrightarrow>
    metric_key p n s = metric_key p' n' s' \<longleftrightarrow> p = p' \<and> n = n' \<and> s = s'"
  by (subst metric_key_inj; auto)+

lemma mean_key_inj [simp]: "metric_key p n [] = metric_key p n' [] \<longleftrightarrow> n = n'"
  by (simp add: metric_key_def)

lemma doubling_facts:
  assumes "0 < n" "n \<le> n_resps"
  shows "distinct (doubling n n_resps) \<and> (\<forall>k \<in> set (doubling n n_resps). n \<le> k \<and> k \<le> n_resps) \<and> n_resps \<in> set (doubling n n_resps) \<and>
    last (doubling n n_resps) = n_resps \<and> doubling n n_resps \<noteq> []"
  using assms
proof (induction n n_resps rule: doubling.induct)
  case (1 n n_resps)
  show ?case
  proof (cases "n < n_resps")
    case True
    show ?thesis
    proof (cases "n * 2 \<le> n_resps")
      case le: True
      have eq: "doubling n n_resps = n # doubling (n * 2) n_resps" using True 1(2) doubling.simps [of n n_resps] by simp
      have pos: "0 < n \<and> n < n_resps" "0 < n * 2" using True 1(2) by simp_all
      obtain D where D: "D = doubling (n * 2) n_resps" by simp
      have IH: "distinct D" "\<And>k. k \<in> set D \<Longrightarrow> n * 2 \<le> k \<and> k \<le> n_resps" "n_resps \<in> set D" "last D = n_resps" "D \<noteq> []"
        using 1(1) [OF pos le] unfolding D [symmetric] by auto
      have up: "n < k \<and> k \<le> n_resps" if "k \<in> set D" for k using IH(2) [OF that] pos by simp
      then have "n \<notin> set D" by blast
      then show ?thesis using IH(1,3,4,5) up pos unfolding eq D [symmetric] by (auto intro: less_imp_le)
    next
      case gt: False
      then have "doubling n n_resps = [n, n_resps]" using True 1(2) doubling.simps [of n n_resps] doubling.simps [of "n * 2" n_resps] by simp
      then show ?thesis using True by simp
    qed
  next
    case False
    then show ?thesis using 1(2,3) doubling.simps [of n n_resps] by simp
  qed
qed

lemma gen_ns_facts:
  assumes "1 < n_resps"
  shows "distinct (gen_ns n_resps)" "k \<in> set (gen_ns n_resps) \<Longrightarrow> 2 \<le> k \<and> k \<le> n_resps" "n_resps \<in> set (gen_ns n_resps)"
  using assms doubling_facts [of 2 n_resps] by (auto simp: gen_ns_def)

lemma subset_keys: "kv \<in> set (subset_items choice seed xs preds n) \<Longrightarrow>
    \<exists>p \<in> {''best'', ''worst'', ''maj''}. \<exists>s \<in> {''/mean'', ''/std''}. fst kv = metric_key p n s"
  by (auto simp: subset_items_def Let_def split: option.splits)

lemma distinct_subset_items: "distinct (map fst (subset_items choice seed xs preds n))"
  by (cases preds) (simp_all add: subset_items_def Let_def)

lemma distinct_prompt_items: "distinct (map fst (prompt_items choice seed xs preds))"
proof (cases "1 < length xs")
  case True
  have dist: "distinct (map fst (concat (map (subset_items choice seed xs preds) ns)))" if "distinct ns" for ns
    using that
  proof (induction ns)
    case (Cons n ns)
    have "fst kv \<noteq> fst kv'" if in1: "kv \<in> set (subset_items choice seed xs preds n)" and in2: "kv' \<in> set (concat (map (subset_items choice seed xs preds) ns))" for kv kv'
    proof -
      obtain n' where n': "n' \<in> set ns" "kv' \<in> set (subset_items choice seed xs preds n')" using in2 by auto
      obtain p s where a: "p \<in> {''best'', ''worst'', ''maj''}" "s \<in> {''/mean'', ''/std''}" "fst kv = metric_key p n s"
        using subset_keys [OF in1] by (elim bexE) (rule that)
      obtain p' s' where b: "p' \<in> {''best'', ''worst'', ''maj''}" "s' \<in> {''/mean'', ''/std''}" "fst kv' = metric_key p' n' s'"
        using subset_keys [OF n'(2)] by (elim bexE) (rule that)
      show ?thesis using a b n'(1) Cons.prems by auto
    qed
    then have "fst ` set (subset_items choice seed xs preds n) \<inter> fst ` set (concat (map (subset_items choice seed xs preds) ns)) = {}"
      by blast
    then show ?case using Cons distinct_subset_items [of choice seed xs preds n] by (simp del: set_concat map_concat)
  qed simp
  have apart: "fst kv \<noteq> metric_key p k []" if kv: "kv \<in> set (concat (map (subset_items choice seed xs preds) ns))" and p: "p = ''mean'' \<or> p = ''std''" for kv p k ns
  proof -
    obtain n where n: "kv \<in> set (subset_items choice seed xs preds n)" using kv by auto
    from subset_keys [OF n] p show ?thesis by auto
  qed
  let ?C = "concat (map (subset_items choice seed xs preds) (gen_ns (length xs)))"
  have "metric_key p k [] \<notin> fst ` set ?C" if "p = ''mean'' \<or> p = ''std''" for p k using apart [of _ "gen_ns (length xs)" p k] that by force
  then show ?thesis using True dist [OF gen_ns_facts(1) [OF True]] by (simp add: prompt_items_def del: set_concat map_concat)
qed (simp add: prompt_items_def)

lemma var_metrics_closed:
  assumes choice: "draws_ok choice" and xs: "xs \<noteq> []" and preds: "\<And>ps. preds = Some ps \<Longrightarrow> length ps = length xs"
  shows "var_metrics choice seed (map Num xs) preds = Inr (prompt_items choice seed xs preds)"
proof (cases "1 < length xs")
  case True
  have "fold_r (subset_metrics choice seed (map Num xs) preds) (gen_ns (length xs)) metric =
    Inr (dict_update metric (concat (map (subset_items choice seed xs preds) (gen_ns (length xs)))))" for metric
    by (rule fold_updates, rule subset_metrics_closed [OF choice xs _ preds]) (use gen_ns_facts(2) [OF True] in fastforce)
  moreover have "dict_update [(metric_key ''mean'' (length xs) [], np_mean xs), (metric_key ''std'' (length xs) [], np_std xs)]
      (concat (map (subset_items choice seed xs preds) (gen_ns (length xs)))) = prompt_items choice seed xs preds"
    using True distinct_prompt_items [of choice seed xs preds] by (subst dict_update_fresh) (simp_all add: prompt_items_def dict_keys_def)
  ultimately show ?thesis using True by (simp add: var_metrics_def Let_def)
qed (simp add: var_metrics_def prompt_items_def)

section \<open>The metrics of a data source in closed form\<close>

definition get3 :: "'a nested \<Rightarrow> string \<Rightarrow> string \<Rightarrow> string \<Rightarrow> 'a option" where
  "get3 D source var name = Option.bind (map_of D source) (\<lambda>E. Option.bind (map_of E var) (\<lambda>F. map_of F name))"

definition picked :: "string \<Rightarrow> string \<Rightarrow> string \<Rightarrow> (string \<times> string \<times> string \<times> 'a) list \<Rightarrow> 'a list" where
  "picked source var name its = map (\<lambda>(s, v, k, x). x) (filter (\<lambda>(s, v, k, x). s = source \<and> v = var \<and> k = name) its)"

lemma picked_append [simp]: "picked s v k (xs @ ys) = picked s v k xs @ picked s v k ys"
  by (simp add: picked_def)

lemma picked_concat: "picked s v k (concat xss) = concat (map (picked s v k) xss)"
  by (induction xss) (simp_all add: picked_def)

lemma map_of_dict_at: "map_of (dict_at k fresh f d) k' = (if k' = k then Some (f (case map_of d k of None \<Rightarrow> fresh | Some v \<Rightarrow> v)) else map_of d k')"
  by (simp add: dict_at_def)

lemma get3_gather: "get3 (gather its) source var name = (let vs = picked source var name its in if vs = [] then None else Some vs)"
proof (induction its rule: rev_induct)
  case Nil
  then show ?case by (simp add: gather_def get3_def picked_def)
next
  case (snoc it its)
  obtain s v k x where it: "it = (s, v, k, x)" by (cases it)
  have step: "gather (its @ [it]) = dict_at s [] (dict_at v [] (dict_push k x)) (gather its)" by (simp add: gather_def it)
  show ?case
  proof (cases "s = source \<and> v = var")
    case True
    have "get3 (gather (its @ [it])) source var name =
      (if k = name then Some ((case get3 (gather its) source var name of None \<Rightarrow> [] | Some xs \<Rightarrow> xs) @ [x]) else get3 (gather its) source var name)"
      using True unfolding step get3_def dict_push_def
      by (cases "map_of (gather its) source"; cases "map_of (the (map_of (gather its) source)) var") (simp_all add: map_of_dict_at)
    then show ?thesis using True snoc.IH by (auto simp: it picked_def Let_def)
  next
    case False
    have "get3 (gather (its @ [it])) source var name = get3 (gather its) source var name"
      using False unfolding step get3_def
      by (cases "map_of (gather its) source") (auto simp: map_of_dict_at)
    then show ?thesis using False snoc.IH by (auto simp: it picked_def)
  qed
qed

lemma get3_map_items: "get3 (map_items (map_items (map_items f)) D) source var name = map_option f (get3 D source var name)"
  by (cases "map_of D source"; cases "map_of (the (map_of D source)) var") (simp_all add: get3_def map_of_map_items)

lemma concat_select: "distinct ks \<Longrightarrow> concat (map (\<lambda>k. if k = a then f k else []) ks) = (if a \<in> set ks then f a else [])"
  by (induction ks) auto

lemma concat_select_dict:
  "distinct (map fst d) \<Longrightarrow> concat (map (\<lambda>(k, v). if k = a then f v else []) d) = (case map_of d a of None \<Rightarrow> [] | Some v \<Rightarrow> f v)"
proof (induction d)
  case (Cons kv d)
  then show ?case by (cases kv) (auto simp: map_of_eq_None_iff [THEN iffD2] split: option.splits dest: map_of_SomeD)
qed simp

lemma concat_options: "concat (map (\<lambda>u. case g u of None \<Rightarrow> [] | Some x \<Rightarrow> [x]) us) = List.map_filter g us"
  by (induction us) (simp_all add: List.map_filter_simps split: option.splits)

text \<open>The values of one metric over the prompts of a source, when the names are unique.\<close>

lemma picked_metric_items:
  assumes "distinct sources"
    and "\<And>s u. s \<in> set sources \<Longrightarrow> u \<in> set (P s) \<Longrightarrow> distinct (map fst (J s u)) \<and> (\<forall>(v, m) \<in> set (J s u). distinct (map fst m))"
  shows "picked source var name (metric_items (keyed (\<lambda>s. keyed (J s) (P s)) sources)) =
    (if source \<in> set sources then List.map_filter (\<lambda>u. Option.bind (map_of (J source u) var) (\<lambda>m. map_of m name)) (P source) else [])"
proof -
  let ?one = "\<lambda>s u. concat (map (\<lambda>(v, metric). map (\<lambda>(k, x). (s, v, k, x)) metric) (J s u))"
  have leaf: "picked source var name (map (\<lambda>(k, x). (s, v, k, x)) metric) =
      (if s = source \<and> v = var then (case map_of metric name of None \<Rightarrow> [] | Some x \<Rightarrow> [x]) else [])" if "distinct (map fst metric)" for s v and metric :: "(string, real) dict"
  proof -
    have "picked source var name (map (\<lambda>(k, x). (s, v, k, x)) metric) =
      (if s = source \<and> v = var then concat (map (\<lambda>(k, x). if k = name then [x] else []) metric) else [])"
      by (induction metric) (auto simp: picked_def)
    then show ?thesis using concat_select_dict [OF that, of name "\<lambda>x. [x]"] by simp
  qed
  have prompt: "picked source var name (?one s u) =
      (if s = source then (case Option.bind (map_of (J s u) var) (\<lambda>m. map_of m name) of None \<Rightarrow> [] | Some x \<Rightarrow> [x]) else [])"
    if "s \<in> set sources" "u \<in> set (P s)" for s u
  proof -
    have ok: "distinct (map fst (J s u))" "\<forall>(v, m) \<in> set (J s u). distinct (map fst m)" using assms(2) [OF that] by auto
    have "picked source var name (?one s u) = concat (map (\<lambda>(v, m). if v = var then (if s = source then (case map_of m name of None \<Rightarrow> [] | Some x \<Rightarrow> [x]) else []) else []) (J s u))"
      unfolding picked_concat map_map comp_def
      by (rule arg_cong [of _ _ concat], rule map_cong [OF refl]) (use ok(2) leaf in \<open>auto split: option.splits\<close>)
    also have "\<dots> = (case map_of (J s u) var of None \<Rightarrow> [] | Some m \<Rightarrow> if s = source then (case map_of m name of None \<Rightarrow> [] | Some x \<Rightarrow> [x]) else [])"
      by (rule concat_select_dict [OF ok(1)])
    finally show ?thesis by (cases "map_of (J s u) var") auto
  qed
  have "metric_items (keyed (\<lambda>s. keyed (J s) (P s)) sources) = concat (map (\<lambda>s. concat (map (?one s) (P s))) sources)"
    by (simp add: metric_items_def keyed_def comp_def)
  then have "picked source var name (metric_items (keyed (\<lambda>s. keyed (J s) (P s)) sources)) =
      concat (map (\<lambda>s. concat (map (\<lambda>u. picked source var name (?one s u)) (P s))) sources)"
    by (simp add: picked_concat comp_def)
  also have "\<dots> = concat (map (\<lambda>s. if s = source then List.map_filter (\<lambda>u. Option.bind (map_of (J s u) var) (\<lambda>m. map_of m name)) (P s) else []) sources)"
  proof (rule arg_cong [of _ _ concat], rule map_cong [OF refl])
    fix s assume s: "s \<in> set sources"
    have eq: "map (\<lambda>u. picked source var name (?one s u)) (P s) = map (\<lambda>u. if s = source then (case Option.bind (map_of (J s u) var) (\<lambda>m. map_of m name) of None \<Rightarrow> [] | Some x \<Rightarrow> [x]) else []) (P s)"
      by (rule map_cong [OF refl]) (rule prompt [OF s])
    show "concat (map (\<lambda>u. picked source var name (?one s u)) (P s)) =
        (if s = source then List.map_filter (\<lambda>u. Option.bind (map_of (J s u) var) (\<lambda>m. map_of m name)) (P s) else [])"
      unfolding eq by (simp add: concat_options)
  qed
  finally show ?thesis by (simp add: concat_select [OF assms(1)])
qed

section \<open>A whole validation in closed form\<close>

definition is_num :: "info_value \<Rightarrow> bool" where
  "is_num v \<longleftrightarrow> (case v of Num x \<Rightarrow> True | _ \<Rightarrow> False)"

definition is_text :: "info_value \<Rightarrow> bool" where
  "is_text v \<longleftrightarrow> (case v of Text t \<Rightarrow> True | _ \<Rightarrow> False)"

text \<open>Every column has a value for every sample, and holds numbers only or texts only.\<close>

definition clean_infos :: "nat \<Rightarrow> (string, info_value list) dict \<Rightarrow> bool" where
  "clean_infos n infos \<longleftrightarrow> distinct (dict_keys infos) \<and>
     (\<forall>(var, col) \<in> set infos. length col = n \<and> (list_all is_num col \<or> list_all is_text col))"

lemma list_all_num: "list_all is_num col \<longleftrightarrow> col = map Num (map unnum col)"
  by (induction col) (auto simp: is_num_def unnum_def split: info_value.splits)

lemma responses_map: "responses sources uids s u (map f col) = map f (responses sources uids s u col)"
  by (simp add: responses_def zip_map2 filter_map comp_def case_prod_unfold)

lemma set_responses: "set (responses sources uids s u col) \<subseteq> set col"
  by (auto simp: responses_def dest: set_zip_rightD)

lemma responses_nonempty:
  assumes "u \<in> set (prompts_of sources uids s)" "length sources \<le> length uids" "length col = length sources"
  shows "responses sources uids s u col \<noteq> []"
proof -
  obtain i where i: "i < length sources" "sources ! i = s" "uids ! i = u"
    using assms(1,2) by (auto simp: set_prompts_of in_set_zip)
  then have "((s, u), col ! i) \<in> set (zip (zip sources uids) col)" using assms(2,3) by (auto simp: in_set_zip intro!: exI [of _ i])
  then show ?thesis by (force simp: responses_def filter_empty_conv)
qed

lemma responses_nth:
  assumes "length c = length sources"
  shows "responses sources uids s u c =
    map (\<lambda>i. c ! i) (filter (\<lambda>i. sources ! i = s \<and> uids ! i = u) [0..<min (length sources) (length uids)])"
proof -
  have "zip (zip sources uids) c = map (\<lambda>i. ((sources ! i, uids ! i), c ! i)) [0..<min (length sources) (length uids)]"
    by (rule nth_equalityI) (use assms in auto)
  then show ?thesis by (simp add: responses_def filter_map comp_def)
qed

lemma length_responses:
  assumes "length col = length sources" "length col' = length sources"
  shows "length (responses sources uids s u col) = length (responses sources uids s u col')"
  unfolding responses_nth [OF assms(1)] responses_nth [OF assms(2)] by simp

definition source_prompt_items :: "draws \<Rightarrow> int \<Rightarrow> string list \<Rightarrow> string list \<Rightarrow> (string, info_value list) dict \<Rightarrow> string \<Rightarrow> string \<Rightarrow>
    (string, (string, real) dict) dict" where
  "source_prompt_items choice seed sources uids infos s u =
     map (\<lambda>(var, col). (var, prompt_items choice seed (responses sources uids s u (map unnum col))
            (map_option (responses sources uids s u) (map_of infos ''pred''))))
       (filter (\<lambda>(var, col). list_all is_num col) infos)"

lemma items_r_map:
  assumes "\<And>k c. (k, c) \<in> set L \<Longrightarrow> f (h c) = Inr (g c)"
  shows "items_r f (map (\<lambda>(k, c). (k, h c)) L) = Inr (map (\<lambda>(k, c). (k, g c)) L)"
  unfolding items_r_def map_r_map by (rule map_r_total) (use assms in auto)

lemma items_r_keyed:
  assumes "\<And>k. k \<in> set ks \<Longrightarrow> f (h k) = Inr (g k)"
  shows "items_r f (keyed h ks) = Inr (keyed g ks)"
  unfolding items_r_def keyed_def map_r_map by (rule map_r_total) (simp add: assms)

lemma prompt_metrics_closed:
  assumes choice: "draws_ok choice" and len: "length sources \<le> length uids" and clean: "clean_infos (length sources) infos"
    and u: "u \<in> set (prompts_of sources uids s)"
  shows "prompt_metrics choice seed (map (\<lambda>(var, col). (var, responses sources uids s u col)) infos) =
    Inr (source_prompt_items choice seed sources uids infos s u)"
proof -
  let ?r = "\<lambda>col. responses sources uids s u col"
  have preds: "map_of (map (\<lambda>(var, col). (var, ?r col)) infos) ''pred'' = map_option ?r (map_of infos ''pred'')"
    by (simp add: map_of_map case_prod_unfold [symmetric])
  have col: "length col = length sources" "?r col \<noteq> []" "skipped (?r col) \<longleftrightarrow> \<not> list_all is_num col" if "(var, col) \<in> set infos" for var col
  proof -
    show l: "length col = length sources" using clean that by (auto simp: clean_infos_def)
    show ne: "?r col \<noteq> []" by (rule responses_nonempty [OF u len l])
    obtain v vs where v: "?r col = v # vs" using ne by (cases "?r col") auto
    then have "v \<in> set col" using set_responses [of sources uids s u col] by auto
    moreover have "list_all is_num col \<or> list_all is_text col" using clean that by (auto simp: clean_infos_def)
    ultimately show "skipped (?r col) \<longleftrightarrow> \<not> list_all is_num col"
      unfolding v by (auto simp: skipped_def list_all_iff is_num_def is_text_def split: info_value.splits)
  qed
  have "filter (\<lambda>(var, vals). \<not> skipped vals) (map (\<lambda>(var, col). (var, ?r col)) infos) =
      map (\<lambda>(var, col). (var, ?r col)) (filter (\<lambda>(var, col). list_all is_num col) infos)"
    using col(3) by (induction infos) auto
  moreover have "items_r (\<lambda>vals. var_metrics choice seed vals (map_option ?r (map_of infos ''pred'')))
      (map (\<lambda>(var, col). (var, ?r col)) (filter (\<lambda>(var, col). list_all is_num col) infos)) =
      Inr (source_prompt_items choice seed sources uids infos s u)"
    unfolding source_prompt_items_def
  proof (rule items_r_map)
    fix var col assume "(var, col) \<in> set (filter (\<lambda>(var, col). list_all is_num col) infos)"
    then have c: "(var, col) \<in> set infos" "list_all is_num col" by auto
    have "col = map Num (map unnum col)" using c(2) list_all_num by blast
    then have eq: "?r col = map Num (?r (map unnum col))" using responses_map [of sources uids s u Num "map unnum col"] by simp
    show "var_metrics choice seed (?r col) (map_option ?r (map_of infos ''pred'')) =
      Inr (prompt_items choice seed (?r (map unnum col)) (map_option ?r (map_of infos ''pred'')))"
      unfolding eq
    proof (rule var_metrics_closed [OF choice])
      show "?r (map unnum col) \<noteq> []" using col(2) [OF c(1)] eq by auto
      show "length ps = length (?r (map unnum col))" if ps: "map_option ?r (map_of infos ''pred'') = Some ps" for ps
      proof -
        obtain p where p: "map_of infos ''pred'' = Some p" "ps = ?r p" using ps by auto
        then show ?thesis using length_responses [of p sources "map unnum col"] col(1) [OF map_of_SomeD [OF p(1)]] col(1) [OF c(1)] by simp
      qed
    qed
  qed
  ultimately show ?thesis by (simp add: prompt_metrics_def preds)
qed

lemma process_closed:
  assumes choice: "draws_ok choice" and len: "length sources \<le> length uids" and clean: "clean_infos (length sources) infos"
  shows "process_validation_metrics choice sources uids infos seed =
    Inr (map_items (map_items (map_items np_mean)) (gather (metric_items
      (keyed (\<lambda>s. keyed (source_prompt_items choice seed sources uids infos s) (prompts_of sources uids s)) (in_order sources)))))"
proof -
  have "group_samples sources uids infos = Inr (grouped sources uids infos)"
    by (rule group_samples_closed [OF len]) (use clean in \<open>auto simp: clean_infos_def\<close>)
  moreover have "items_r (items_r (prompt_metrics choice seed)) (grouped sources uids infos) =
    Inr (keyed (\<lambda>s. keyed (source_prompt_items choice seed sources uids infos s) (prompts_of sources uids s)) (in_order sources))"
    unfolding grouped_def by (rule items_r_keyed, rule items_r_keyed, rule prompt_metrics_closed [OF choice len clean])
  ultimately show ?thesis by (simp add: process_validation_metrics_def)
qed

lemma map_of_distinct_keyed:
  "distinct (map fst L) \<Longrightarrow> (k, c) \<in> set L \<Longrightarrow> P k c \<Longrightarrow> map_of (map (\<lambda>(k, c). (k, h c)) (filter (\<lambda>(k, c). P k c) L)) k = Some (h c)"
  by (induction L) (auto simp: image_iff split: prod.splits)

lemma process_lookup:
  assumes choice: "draws_ok choice" and len: "length sources \<le> length uids" and clean: "clean_infos (length sources) infos"
    and var: "map_of infos var = Some (map Num xs)"
  shows "\<exists>R. process_validation_metrics choice sources uids infos seed = Inr R \<and> (\<forall>s name. get3 R s var name =
    (let vs = List.map_filter (\<lambda>u. map_of (prompt_items choice seed (responses sources uids s u xs)
        (map_option (responses sources uids s u) (map_of infos ''pred''))) name) (prompts_of sources uids s)
     in if vs = [] then None else Some (np_mean vs)))"
proof -
  let ?J = "source_prompt_items choice seed sources uids infos"
  have keys: "distinct (map fst infos)" using clean by (simp add: clean_infos_def dict_keys_def)
  have J: "distinct (map fst (?J s u)) \<and> (\<forall>(v, m) \<in> set (?J s u). distinct (map fst m))" for s u
    using keys distinct_prompt_items by (auto simp: source_prompt_items_def comp_def case_prod_unfold distinct_map_filter)
  have here: "map_of (?J s u) var = Some (prompt_items choice seed (responses sources uids s u xs)
      (map_option (responses sources uids s u) (map_of infos ''pred'')))" for s u
  proof -
    have num: "list_all is_num (map Num xs)" "map unnum (map Num xs) = xs" by (simp_all add: list_all_iff is_num_def unnum_def comp_def)
    show ?thesis unfolding source_prompt_items_def
      by (subst map_of_distinct_keyed [OF keys map_of_SomeD [OF var], where P = "\<lambda>var col. list_all is_num col", OF num(1)]) (simp only: num(2))
  qed
  have "get3 (map_items (map_items (map_items np_mean)) (gather (metric_items (keyed (\<lambda>s. keyed (?J s) (prompts_of sources uids s)) (in_order sources))))) s var name =
    (let vs = List.map_filter (\<lambda>u. map_of (prompt_items choice seed (responses sources uids s u xs)
        (map_option (responses sources uids s u) (map_of infos ''pred''))) name) (prompts_of sources uids s)
     in if vs = [] then None else Some (np_mean vs))" for s name
    unfolding get3_map_items get3_gather
    using picked_metric_items [of "in_order sources" "prompts_of sources uids" ?J s var name] J
    by (simp add: Let_def here prompts_none List.map_filter_simps)
  then show ?thesis using process_closed [OF choice len clean] by blast
qed

lemma map_of_prompt_items:
  "map_of (prompt_items choice seed xs preds) (metric_key ''mean'' k []) = (if k = length xs then Some (np_mean xs) else None)"
proof -
  have "fst kv \<noteq> metric_key ''mean'' k []" if "kv \<in> set (concat (map (subset_items choice seed xs preds) ns))" for kv ns
    using that subset_keys by (fastforce dest: subset_keys)
  then have none: "map_of (concat (map (subset_items choice seed xs preds) ns)) (metric_key ''mean'' k []) = None" for ns
    by (force simp: map_of_eq_None_iff simp del: set_concat)
  show ?thesis by (simp add: prompt_items_def none del: map_concat)
qed

lemma map_filter_if: "List.map_filter (\<lambda>u. if P u then Some (g u) else None) us = map g (filter P us)"
  by (induction us) (simp_all add: List.map_filter_simps)

text \<open>C19 The mean of a variable. Samples are grouped by prompt and not mixed: \<open>mean@k\<close> is the mean over the prompts with k responses
  of the means over their responses; prompts with another number of responses go into metrics of other names.\<close>

theorem val_mean_over_prompts:
  assumes choice: "draws_ok choice" and len: "length sources \<le> length uids" and clean: "clean_infos (length sources) infos"
    and var: "map_of infos var = Some (map Num xs)"
  shows "\<exists>R. process_validation_metrics choice sources uids infos seed = Inr R \<and>
    (\<forall>s k. get3 R s var (metric_key ''mean'' k []) =
      (let us = filter (\<lambda>u. length (responses sources uids s u xs) = k) (prompts_of sources uids s)
       in if us = [] then None else Some (np_mean (map (\<lambda>u. np_mean (responses sources uids s u xs)) us))))"
proof -
  obtain R where R: "process_validation_metrics choice sources uids infos seed = Inr R"
    "\<And>s name. get3 R s var name = (let vs = List.map_filter (\<lambda>u. map_of (prompt_items choice seed (responses sources uids s u xs)
        (map_option (responses sources uids s u) (map_of infos ''pred''))) name) (prompts_of sources uids s)
     in if vs = [] then None else Some (np_mean vs))"
    using process_lookup [OF assms] by blast
  have eq: "(k = length (responses sources uids s u xs)) = (length (responses sources uids s u xs) = k)" for k s u by auto
  show ?thesis by (rule exI [of _ R]) (simp add: R map_of_prompt_items eq map_filter_if Let_def)
qed

section \<open>Best, worst and majority\<close>

lemma np_mean_mono:
  assumes "length xs = length ys" "\<And>i. i < length xs \<Longrightarrow> xs ! i \<le> ys ! i"
  shows "np_mean xs \<le> np_mean ys"
proof -
  have "sum_list xs \<le> sum_list ys" using assms by (intro sum_list_mono2) auto
  then show ?thesis using assms(1) by (simp add: np_mean_def divide_right_mono)
qed

lemma np_mean_map_mono: "(\<And>s. s \<in> set ss \<Longrightarrow> f s \<le> g s) \<Longrightarrow> np_mean (map f ss) \<le> np_mean (map g ss)"
  by (rule np_mean_mono) simp_all

lemma subset_keys_unique:
  assumes n: "n \<in> set (gen_ns (length xs))" and x: "(metric_key p n s, x) \<in> set (subset_items choice seed xs preds n)"
  shows "map_of (prompt_items choice seed xs preds) (metric_key p n s) = Some x"
proof -
  have "1 < length xs" using n by (cases "1 < length xs") (simp_all add: gen_ns_def)
  then have "(metric_key p n s, x) \<in> set (prompt_items choice seed xs preds)"
    using n x by (auto simp: prompt_items_def)
  then show ?thesis using distinct_prompt_items by (simp add: map_of_is_SomeI)
qed

lemma extreme_only_in_gen_ns:
  assumes q: "q \<in> {''best'', ''worst'', ''maj''}" and n: "n \<notin> set (gen_ns (length xs))"
  shows "map_of (prompt_items choice seed xs preds) (metric_key q n ''/mean'') = None"
proof (rule ccontr)
  assume "map_of (prompt_items choice seed xs preds) (metric_key q n ''/mean'') \<noteq> None"
  then obtain x where x: "(metric_key q n ''/mean'', x) \<in> set (prompt_items choice seed xs preds)" by (auto dest: map_of_SomeD)
  have ne: "metric_key q n ''/mean'' \<noteq> metric_key ''mean'' k []" "metric_key q n ''/mean'' \<noteq> metric_key ''std'' k []" for k using q by auto
  then have "\<exists>n' \<in> set (gen_ns (length xs)). (metric_key q n ''/mean'', x) \<in> set (subset_items choice seed xs preds n')"
    using x by (auto simp: prompt_items_def split: if_splits)
  then obtain n' where n': "n' \<in> set (gen_ns (length xs))" "(metric_key q n ''/mean'', x) \<in> set (subset_items choice seed xs preds n')" by blast
  obtain p s where "p \<in> {''best'', ''worst'', ''maj''}" "s \<in> {''/mean'', ''/std''}" "metric_key q n ''/mean'' = metric_key p n' s"
    using subset_keys [OF n'(2)] by auto
  then have "n = n'" using q by auto
  then show False using n'(1) n by simp
qed

text \<open>The metrics of one prompt: all three use the same subsets, since every call seeds the generator anew.\<close>

lemma prompt_best_worst_majority:
  assumes choice: "draws_ok choice" and ne: "xs \<noteq> []" and ps: "length ps = length xs" and n: "n \<in> set (gen_ns (length xs))"
  shows "\<exists>w m b. map_of (prompt_items choice seed xs (Some ps)) (metric_key ''worst'' n ''/mean'') = Some w \<and>
    map_of (prompt_items choice seed xs (Some ps)) (metric_key ''maj'' n ''/mean'') = Some m \<and>
    map_of (prompt_items choice seed xs (Some ps)) (metric_key ''best'' n ''/mean'') = Some b \<and> w \<le> m \<and> m \<le> b"
proof -
  have n0: "0 < n"
  proof -
    have "1 < length xs" using n by (cases "1 < length xs") (simp_all add: gen_ns_def)
    from gen_ns_facts(2) [OF this n] show ?thesis by simp
  qed
  let ?S = "subsets choice seed n xs" and ?Z = "subsets choice seed n (zip xs ps)"
  have zne: "zip xs ps \<noteq> []" using ne ps by (cases xs; cases ps) simp_all
  have fsts: "map (map fst) ?Z = ?S"
    using subsets_map [OF choice zne, of seed n fst] ps by simp
  have between: "Min (set (map fst s)) \<le> majority s \<and> majority s \<le> Max (set (map fst s))" if "s \<in> set ?Z" for s
  proof -
    have "s \<noteq> []" using subsets_facts(2) [OF choice zne that] n0 by auto
    then have "majority s \<in> set (map fst s)" using majority_member by auto
    then show ?thesis by simp
  qed
  let ?w = "np_mean (map (\<lambda>s. Min (set s)) ?S)" and ?m = "np_mean (map majority ?Z)" and ?b = "np_mean (map (\<lambda>s. Max (set s)) ?S)"
  have S: "map (\<lambda>s. Min (set s)) ?S = map (\<lambda>s. Min (set (map fst s))) ?Z" "map (\<lambda>s. Max (set s)) ?S = map (\<lambda>s. Max (set (map fst s))) ?Z"
    unfolding fsts [symmetric] by simp_all
  have "?w \<le> ?m" "?m \<le> ?b" unfolding S using between by (intro np_mean_map_mono; blast)+
  moreover have "map_of (prompt_items choice seed xs (Some ps)) (metric_key ''worst'' n ''/mean'') = Some ?w"
    "map_of (prompt_items choice seed xs (Some ps)) (metric_key ''maj'' n ''/mean'') = Some ?m"
    "map_of (prompt_items choice seed xs (Some ps)) (metric_key ''best'' n ''/mean'') = Some ?b"
    by (rule subset_keys_unique [OF n], simp add: subset_items_def Let_def)+
  ultimately show ?thesis by blast
qed

lemma ordered_options:
  assumes "\<And>u. u \<in> set us \<Longrightarrow> (w u = None \<and> m u = None \<and> b u = None) \<or>
      (\<exists>x y z. w u = Some x \<and> m u = Some y \<and> b u = Some z \<and> x \<le> (y :: real) \<and> y \<le> z)"
  shows "list_all2 (\<le>) (List.map_filter w us) (List.map_filter m us) \<and> list_all2 (\<le>) (List.map_filter m us) (List.map_filter b us)"
  using assms
proof (induction us)
  case (Cons u us)
  have "list_all2 (\<le>) (List.map_filter w us) (List.map_filter m us) \<and> list_all2 (\<le>) (List.map_filter m us) (List.map_filter b us)"
    by (rule Cons.IH, rule Cons.prems) simp
  then show ?case using Cons.prems [of u] by (auto simp: List.map_filter_simps)
qed (simp add: List.map_filter_simps)

lemma np_mean_list_all2: "list_all2 (\<le>) xs ys \<Longrightarrow> np_mean xs \<le> np_mean ys"
  by (rule np_mean_mono) (auto simp: list_all2_conv_all_nth)

text \<open>C29 Majority voting lies between the worst and the best: when a source has a best-of-n value of a variable and the samples
  have predictions, it has the worst-of-n and majority values too, in this order.\<close>

theorem majority_between_worst_and_best:
  assumes choice: "draws_ok choice" and len: "length sources \<le> length uids" and clean: "clean_infos (length sources) infos"
    and var: "map_of infos var = Some (map Num xs)" and pred: "''pred'' \<in> set (dict_keys infos)"
  shows "\<exists>R. process_validation_metrics choice sources uids infos seed = Inr R \<and>
    (\<forall>s n b. get3 R s var (metric_key ''best'' n ''/mean'') = Some b \<longrightarrow>
      (\<exists>w m. get3 R s var (metric_key ''worst'' n ''/mean'') = Some w \<and> get3 R s var (metric_key ''maj'' n ''/mean'') = Some m \<and> w \<le> m \<and> m \<le> b))"
proof -
  obtain ps where ps: "map_of infos ''pred'' = Some ps" using pred by (auto simp: keys_map_of)
  let ?r = "\<lambda>s u. responses sources uids s u xs"
  let ?it = "\<lambda>s u. prompt_items choice seed (?r s u) (Some (responses sources uids s u ps))"
  let ?vs = "\<lambda>s p n. List.map_filter (\<lambda>u. map_of (?it s u) (metric_key p n ''/mean'')) (prompts_of sources uids s)"
  obtain R where R: "process_validation_metrics choice sources uids infos seed = Inr R"
    "\<And>s name. get3 R s var name = (let vs = List.map_filter (\<lambda>u. map_of (?it s u) name) (prompts_of sources uids s)
     in if vs = [] then None else Some (np_mean vs))"
    using process_lookup [OF choice len clean var, of seed] ps by auto
  have cols: "length (map Num xs) = length sources" "length ps = length sources"
    using clean map_of_SomeD [OF var] map_of_SomeD [OF ps] by (auto simp: clean_infos_def)
  let ?f = "\<lambda>s p n u. map_of (?it s u) (metric_key p n ''/mean'')"
  have prompt: "(?f s ''worst'' n u = None \<and> ?f s ''maj'' n u = None \<and> ?f s ''best'' n u = None) \<or>
      (\<exists>w m b. ?f s ''worst'' n u = Some w \<and> ?f s ''maj'' n u = Some m \<and> ?f s ''best'' n u = Some b \<and> w \<le> m \<and> m \<le> b)"
    if u: "u \<in> set (prompts_of sources uids s)" for s u n
  proof (cases "n \<in> set (gen_ns (length (?r s u)))")
    case True
    have "?r s u \<noteq> []" by (rule responses_nonempty [OF u len]) (use cols in simp)
    moreover have "length (responses sources uids s u ps) = length (?r s u)" by (rule length_responses) (use cols in simp_all)
    ultimately show ?thesis by (intro disjI2 prompt_best_worst_majority [OF choice _ _ True])
  next
    case False
    have "map_of (?it s u) (metric_key p n ''/mean'') = None" if "p \<in> {''best'', ''worst'', ''maj''}" for p
      by (rule extreme_only_in_gen_ns [OF that False])
    then show ?thesis by simp
  qed
  have "\<exists>w m. get3 R s var (metric_key ''worst'' n ''/mean'') = Some w \<and> get3 R s var (metric_key ''maj'' n ''/mean'') = Some m \<and> w \<le> m \<and> m \<le> b"
    if b: "get3 R s var (metric_key ''best'' n ''/mean'') = Some b" for s n b
  proof -
    have ord: "list_all2 (\<le>) (?vs s ''worst'' n) (?vs s ''maj'' n) \<and> list_all2 (\<le>) (?vs s ''maj'' n) (?vs s ''best'' n)"
      by (rule ordered_options [of "prompts_of sources uids s" "?f s ''worst'' n" "?f s ''maj'' n" "?f s ''best'' n"]) (rule prompt)
    have best: "?vs s ''best'' n \<noteq> []" "b = np_mean (?vs s ''best'' n)" using b unfolding R(2) Let_def by (simp_all split: if_splits)
    have maj: "?vs s ''maj'' n \<noteq> []" using best(1) list_all2_lengthD [OF conjunct2 [OF ord]] by force
    then have worst: "?vs s ''worst'' n \<noteq> []" using list_all2_lengthD [OF conjunct1 [OF ord]] by force
    show ?thesis unfolding R(2) Let_def best(2)
      by (intro exI [of _ "np_mean (?vs s ''worst'' n)"] exI [of _ "np_mean (?vs s ''maj'' n)"] conjI np_mean_list_all2
        conjunct1 [OF ord] conjunct2 [OF ord]) (simp_all only: maj worst if_False)
  qed
  then show ?thesis using R(1) by blast
qed

section \<open>The names of the core metrics\<close>

lemma str_nat_length_mono: "m \<le> n \<Longrightarrow> length (str_nat m) \<le> length (str_nat n)"
proof (induction n arbitrary: m rule: less_induct)
  case (less n)
  show ?case
  proof (cases "m < 10")
    case True
    then have "length (str_nat m) = 1" by (simp add: str_nat.simps [of m])
    moreover have "0 < length (str_nat n)" by simp
    ultimately show ?thesis by arith
  next
    case False
    then have n: "\<not> n < 10" using less.prems by arith
    have "length (str_nat (m div 10)) \<le> length (str_nat (n div 10))"
      by (rule less.IH) (use n less.prems in \<open>auto intro: div_le_mono\<close>)
    then show ?thesis using False n by (simp add: str_nat.simps [of m] str_nat.simps [of n])
  qed
qed

lemma size_in_metric_key:
  assumes "CHR ''@'' \<notin> set p" "s = [] \<or> s = ''/mean'' \<or> s = ''/std''"
  shows "size_in_name (metric_key p k s) = Inr (int k)"
proof -
  have none: "split_on c t = [t]" if "c \<notin> set t" for c t using that by (induction t) auto
  have one: "split_on c (t @ c # t') = t # split_on c t'" if "c \<notin> set t" for c t t' using that by (induction t) auto
  have at: "CHR ''@'' \<notin> set (str_nat k @ s)" using digit_not assms(2) by auto
  have slash: "CHR ''/'' \<notin> set (str_nat k)" using digit_not by blast
  have "last (split_on (CHR ''@'') (metric_key p k s)) = str_nat k @ s"
    using one [OF assms(1), of "str_nat k @ s"] none [OF at] by (simp add: metric_key_def)
  moreover have "hd (split_on (CHR ''/'') (str_nat k @ s)) = str_nat k"
    using assms(2) none [OF slash] one [OF slash] by auto
  ultimately show ?thesis by (simp add: size_in_name_def)
qed

lemma contains_size:
  assumes p: "CHR ''@'' \<notin> set p" and s: "s = [] \<or> hd s = CHR ''/''" "CHR ''@'' \<notin> set s" and le: "k \<le> n"
  shows "contains_text (''@'' @ str_nat n) (metric_key p k s) \<longleftrightarrow> k = n"
proof
  assume "contains_text (''@'' @ str_nat n) (metric_key p k s)"
  then obtain i where i: "take (Suc (length (str_nat n))) (drop i (metric_key p k s)) = CHR ''@'' # str_nat n"
    by (fastforce simp: contains_text_def startswith_def)
  have lt: "i < length (metric_key p k s)" using i by (cases "i < length (metric_key p k s)") auto
  then have "metric_key p k s ! i = CHR ''@''" using i by (simp add: Cons_nth_drop_Suc [symmetric])
  moreover have "metric_key p k s ! j \<noteq> CHR ''@''" if "j < length (metric_key p k s)" "j \<noteq> length p" for j
  proof (cases "j < length p")
    case True
    then show ?thesis using p by (auto simp: metric_key_def nth_append dest: nth_mem)
  next
    case False
    have rest: "CHR ''@'' \<notin> set (str_nat k @ s)" using digit_not s(2) by auto
    have "metric_key p k s ! j = (str_nat k @ s) ! (j - Suc (length p))" "j - Suc (length p) < length (str_nat k @ s)"
      using False that by (auto simp: metric_key_def nth_append nth_Cons')
    then show ?thesis using rest nth_mem by metis
  qed
  ultimately have "i = length p" using lt by blast
  then have t: "take (length (str_nat n)) (str_nat k @ s) = str_nat n" using i by (simp add: metric_key_def)
  have "length (str_nat k) = length (str_nat n)"
  proof (rule ccontr)
    assume "length (str_nat k) \<noteq> length (str_nat n)"
    then have short: "length (str_nat k) < length (str_nat n)" using str_nat_length_mono [OF le] by simp
    then have "s \<noteq> []" using arg_cong [OF t, of length] by auto
    then have "str_nat n ! length (str_nat k) = CHR ''/''"
      using s(1) t short by (metis hd_conv_nth nth_append_length_plus nth_take add_0_right)
    then show False using digit_not nth_mem [OF short] by metis
  qed
  then show "k = n" using t by simp
next
  assume "k = n"
  then have "take (length (''@'' @ str_nat n)) (drop (length p) (metric_key p k s)) = ''@'' @ str_nat n" "length p < length (metric_key p k s) + 1"
    by (simp_all add: metric_key_def)
  then show "contains_text (''@'' @ str_nat n) (metric_key p k s)"
    unfolding contains_text_def startswith_def by (metis atLeast0LessThan atLeastLessThan_upt lessThan_iff)
qed

text \<open>The sizes in the names of the metrics are read back, and the core metrics of a source are exactly the means, the
  majority values and the best-of values of the core variable at the greatest size: \<open>@1\<close> is not found in \<open>@16\<close>, because no name has a greater size.\<close>

theorem core_metrics_have_greatest_size:
  assumes "p \<in> {''mean'', ''std'', ''best'', ''worst'', ''maj''}" "s = [] \<or> s = ''/mean'' \<or> s = ''/std''" "k \<le> n"
  shows "size_in_name (metric_key p k s) = Inr (int k) \<and>
    (is_core core_var var (int n) (metric_key p k s) \<longleftrightarrow> var = core_var \<and> p \<in> {''mean'', ''best'', ''maj''} \<and> k = n)"
proof -
  have at: "CHR ''@'' \<notin> set p" "CHR ''@'' \<notin> set s" "s = [] \<or> hd s = CHR ''/''" using assms by auto
  have str: "''@'' @ str_int (int n) = ''@'' @ str_nat n" by (simp add: str_int_def)
  have pfx: "(\<exists>pfx \<in> set [''mean'', ''maj'', ''best'']. startswith pfx (metric_key p k s)) \<longleftrightarrow> p \<in> {''mean'', ''best'', ''maj''}"
  proof -
    have "startswith q (p @ ''@'' @ t) \<longleftrightarrow> p = q" if "q \<in> {''mean'', ''maj'', ''best''}" for q t
      using that assms(1) by (elim insertE emptyE) (simp_all add: startswith_def)
    then show ?thesis unfolding metric_key_def by auto
  qed
  show ?thesis using size_in_metric_key [OF at(1) assms(2)] contains_size [OF at(1,3,2) assms(3)] pfx
    unfolding is_core_def str by blast
qed

section \<open>Missing values\<close>

lemma map_r_fails: "x \<in> set xs \<Longrightarrow> f x = Inl e \<Longrightarrow> \<exists>e. map_r f xs = Inl e"
proof (induction xs)
  case (Cons y ys)
  show ?case
  proof (cases "f y")
    case (Inr z)
    then have "x \<in> set ys" using Cons.prems by auto
    then show ?thesis using Cons Inr by auto
  qed simp
qed simp

lemma items_r_fails: "(k, v) \<in> set d \<Longrightarrow> f v = Inl e \<Longrightarrow> \<exists>e. items_r f d = Inl e"
  unfolding items_r_def by (rule map_r_fails [of "(k, v)"]) auto

text \<open>C38 A single missing value of a prompt's variable, such as validation fills in for a sample whose reward reports no value
  for a key, makes the whole evaluation raise, unless the first value of this prompt's variable is a text: a variable whose first value
  is a text is skipped for that prompt, missing values included. The other samples do not matter.\<close>

theorem missing_value_raises:
  assumes len: "length sources \<le> length uids" and keys: "distinct (dict_keys infos)"
    and cols: "\<forall>(var, col) \<in> set infos. length sources = length col"
    and var: "(var, col) \<in> set infos" and missing: "Missing \<in> set (responses sources uids s u col)"
    and first: "\<not> is_text (hd (responses sources uids s u col))"
  shows "\<exists>e. process_validation_metrics choice sources uids infos seed = Inl e"
proof -
  let ?r = "responses sources uids s u"
  let ?v = "map (\<lambda>(var, col). (var, ?r col)) infos"
  have groups: "group_samples sources uids infos = Inr (grouped sources uids infos)"
    by (rule group_samples_closed [OF len keys]) (use cols in auto)
  have u: "u \<in> set (prompts_of sources uids s)" using missing responses_none [of u sources uids s col] by fastforce
  then have s: "s \<in> set sources" using prompts_none [of s sources uids] by force
  have "\<exists>e. map_r number_of (?r col) = Inl e" by (rule map_r_fails [OF missing]) (simp add: number_of_def)
  then obtain e where e: "var_metrics choice seed (?r col) (map_of ?v ''pred'') = Inl e" by (auto simp: var_metrics_def)
  have "\<not> skipped (?r col)" using missing first by (cases "?r col") (auto simp: skipped_def is_text_def split: info_value.splits)
  then have "(var, ?r col) \<in> set (filter (\<lambda>(var, vals). \<not> skipped vals) ?v)" using var by force
  from items_r_fails [where f = "\<lambda>vals. var_metrics choice seed vals (map_of ?v ''pred'')", OF this e]
  obtain e1 where e1: "prompt_metrics choice seed ?v = Inl e1" by (auto simp: prompt_metrics_def)
  have "(u, ?v) \<in> set (keyed (\<lambda>u. map (\<lambda>(var, col). (var, responses sources uids s u col)) infos) (prompts_of sources uids s))"
    using u by (auto simp: keyed_def)
  from items_r_fails [where f = "prompt_metrics choice seed", OF this e1] obtain e2 where
    e2: "items_r (prompt_metrics choice seed) (keyed (\<lambda>u. map (\<lambda>(var, col). (var, responses sources uids s u col)) infos) (prompts_of sources uids s)) = Inl e2" by blast
  have "(s, keyed (\<lambda>u. map (\<lambda>(var, col). (var, responses sources uids s u col)) infos) (prompts_of sources uids s)) \<in> set (grouped sources uids infos)"
    using s unfolding grouped_def keyed_def [of _ "in_order sources"] by auto
  from items_r_fails [where f = "items_r (prompt_metrics choice seed)", OF this e2] show ?thesis
    by (auto simp: process_validation_metrics_def groups)
qed

section \<open>Examples\<close>

definition zero_draws :: draws where
  "zero_draws seed n_data n_bootstrap subset_size = replicate n_bootstrap (replicate subset_size 0)"

lemma zero_draws_ok: "draws_ok zero_draws"
  by (simp add: draws_ok_def zero_draws_def)

text \<open>Two responses of one prompt and one of another: the means are reported under \<open>mean@2\<close> and \<open>mean@1\<close>.\<close>

definition three_infos :: "(string, info_value list) dict" where
  "three_infos = [(''reward'', [Num 1, Num 0, Num 1]), (''pred'', [Text ''4'', Text ''5'', Text ''4''])]"

lemma three_infos_facts:
  "clean_infos 3 three_infos" "map_of three_infos ''reward'' = Some (map Num [1, 0, 1])" "''pred'' \<in> set (dict_keys three_infos)"
  by (simp_all add: three_infos_def clean_infos_def dict_keys_def is_num_def is_text_def)

lemma three_prompts:
  "prompts_of [''gsm8k'', ''gsm8k'', ''gsm8k''] [''a'', ''a'', ''b''] ''gsm8k'' = [''a'', ''b'']"
  "responses [''gsm8k'', ''gsm8k'', ''gsm8k''] [''a'', ''a'', ''b''] ''gsm8k'' ''a'' [1, 0, 1 :: real] = [1, 0]"
  "responses [''gsm8k'', ''gsm8k'', ''gsm8k''] [''a'', ''a'', ''b''] ''gsm8k'' ''b'' [1, 0, 1 :: real] = [1]"
  by (simp_all add: prompts_of_def responses_def in_order_def)

theorem val_mean_witness:
  "\<exists>R. process_validation_metrics zero_draws [''gsm8k'', ''gsm8k'', ''gsm8k''] [''a'', ''a'', ''b''] three_infos 42 = Inr R \<and>
    get3 R ''gsm8k'' ''reward'' (metric_key ''mean'' 2 []) = Some (1 / 2) \<and> get3 R ''gsm8k'' ''reward'' (metric_key ''mean'' 1 []) = Some 1"
proof -
  obtain R where R: "process_validation_metrics zero_draws [''gsm8k'', ''gsm8k'', ''gsm8k''] [''a'', ''a'', ''b''] three_infos 42 = Inr R"
    "\<And>s k. get3 R s ''reward'' (metric_key ''mean'' k []) =
      (let us = filter (\<lambda>u. length (responses [''gsm8k'', ''gsm8k'', ''gsm8k''] [''a'', ''a'', ''b''] s u [1, 0, 1 :: real]) = k)
          (prompts_of [''gsm8k'', ''gsm8k'', ''gsm8k''] [''a'', ''a'', ''b''] s)
       in if us = [] then None
          else Some (np_mean (map (\<lambda>u. np_mean (responses [''gsm8k'', ''gsm8k'', ''gsm8k''] [''a'', ''a'', ''b''] s u [1, 0, 1])) us)))"
    using val_mean_over_prompts [OF zero_draws_ok _ _ three_infos_facts(2), of "[''gsm8k'', ''gsm8k'', ''gsm8k'']" "[''a'', ''a'', ''b'']" 42]
      three_infos_facts(1) by (auto simp: numeral_3_eq_3)
  show ?thesis
    by (rule exI [of _ R], intro conjI, rule R(1)) (simp_all add: R(2) three_prompts Let_def np_mean_def)
qed

theorem majority_between_witness:
  "\<exists>R. process_validation_metrics zero_draws [''gsm8k'', ''gsm8k'', ''gsm8k''] [''a'', ''a'', ''b''] three_infos 42 = Inr R \<and>
    (\<forall>s n b. get3 R s ''reward'' (metric_key ''best'' n ''/mean'') = Some b \<longrightarrow>
      (\<exists>w m. get3 R s ''reward'' (metric_key ''worst'' n ''/mean'') = Some w \<and>
        get3 R s ''reward'' (metric_key ''maj'' n ''/mean'') = Some m \<and> w \<le> m \<and> m \<le> b))"
  by (rule majority_between_worst_and_best [OF zero_draws_ok _ _ three_infos_facts(2,3)])
    (use three_infos_facts(1) in \<open>simp_all add: numeral_3_eq_3\<close>)

theorem core_metrics_witness:
  "is_core ''acc'' ''acc'' (int 16) (metric_key ''mean'' 16 []) \<and> \<not> is_core ''acc'' ''acc'' (int 16) (metric_key ''best'' 1 ''/mean'')"
  using core_metrics_have_greatest_size [of "''mean''" "[]" 16 16 "''acc''" "''acc''"]
    core_metrics_have_greatest_size [of "''best''" "''/mean''" 1 16 "''acc''" "''acc''"] by simp

text \<open>Only one of two samples of a prompt reports \<open>acc\<close>.\<close>

theorem missing_value_witness:
  "\<exists>e. process_validation_metrics zero_draws [''gsm8k'', ''gsm8k''] [''a'', ''a''] [(''reward'', [Num 1, Num 0]), (''acc'', [Num 1, Missing])] 42 = Inl e"
  by (rule missing_value_raises [of _ _ _ "''acc''" "[Num 1, Missing]" "''gsm8k''" "''a''"])
    (simp_all add: dict_keys_def responses_def is_text_def)

end
