(* ===== verification/Spec2Isabelle.thy ===== *)
theory Spec2Isabelle
  imports Seqlen_Balance MessageQueue Rollouter Trainer LoadBalancer ServerClient TokenBucket Checkpoint DataProto Dispatch Advantage PolicyLoss TokenBaseline Resample RolloutCorr LossRegistry AgentBatch Padding FitLoop StepData TrainEngine SyncRollout MultiTraj ValMetrics
begin

text \<open>
  A verification development of verl, a library for training language models by reinforcement
  learning. The program alternates two activities. \<^emph>\<open>Rollout\<close>: language-model servers generate
  responses to prompts. \<^emph>\<open>Training\<close>: a driver turns the responses and their rewards into advantages,
  and worker groups compute log-probabilities and a policy loss and update the model. This development
  models the Python code that decides \<^emph>\<open>what\<close> is computed, in which order and by whom; it treats the
  neural network, the GPUs, ray, torch and the inference engines as the outside.

  \<^bold>\<open>The parts and how they interact.\<close> All paths are below \<^verbatim>\<open>src/verl\<close>.

  \<^item> In the fully asynchronous policy (\<^verbatim>\<open>experimental/fully_async_policy\<close>) a rollouter and a trainer
    run side by side and share a message queue. \<open>MessageQueue\<close> models the queue actor
    (\<^verbatim>\<open>message_queue.py\<close>) as a record with one operation per method, and its callers as interleaved steps.
    \<open>Rollouter\<close> models \<^verbatim>\<open>fully_async_rollouter.py\<close>: the feed, the processor with its program counter, the
    generation tasks, the monitor, \<open>reset_staleness\<close> and the end of the main coroutine are actions on one
    record, each action going from one \<open>await\<close> of the source to the next, so that a run is a list of actions
    in any order. \<open>Trainer\<close> models \<^verbatim>\<open>fully_async_trainer.py\<close>: collecting samples, trigger steps, the
    parameter version, the copies of the model that \<open>_compute_old_log_prob\<close> saves and restores,
    synchronisation, validation, checkpoints and resumption.
  \<^item> \<open>LoadBalancer\<close> models \<^verbatim>\<open>workers/rollout/llm_server.py\<close>: sticky sessions with an LRU cache,
    least-loaded selection, in-flight counts. \<open>ServerClient\<close> models the client of the servers, which resumes
    a generation that a weight update aborted, and the manager that adds and removes hybrid replicas.
  \<^item> \<open>TokenBucket\<close> is the rate limiter of reward requests, \<open>Checkpoint\<close> the rotation of checkpoints.
  \<^item> \<open>DataProto\<close> models \<^verbatim>\<open>protocol.py\<close>, the batch that travels between driver and workers: tensors,
    arrays of objects and meta information, with slicing, indexing, chunking, concatenation, union,
    padding, folding, repetition and iteration. \<open>Dispatch\<close> models \<^verbatim>\<open>single_controller/\<close>: how a call on a
    worker group cuts its arguments over the workers and collects their results.
  \<^item> \<open>Seqlen_KK\<close> and \<open>Seqlen_Balance\<close> model \<^verbatim>\<open>utils/seqlen_balancing.py\<close>: Karmarkar--Karp partitioning,
    the greedy partitioner, micro-batches of a token budget and putting their outputs back in order.
  \<^item> \<open>Tensor\<close>, \<open>Advantage\<close>, \<open>TokenBaseline\<close>, \<open>PolicyLoss\<close>, \<open>MaskedLoss\<close> and \<open>Resample\<close> model
    \<^verbatim>\<open>trainer/ppo/core_algos.py\<close>: every advantage estimator, policy loss, KL penalty and KL controller of the
    registries. \<open>RolloutCorr\<close> models \<^verbatim>\<open>trainer/ppo/rollout_corr_helper.py\<close>, the corrections for
    responses that were generated by another policy than the one being trained, with the threshold texts
    that \<open>PyText\<close> parses; \<open>LossRegistry\<close> is the registry of all eleven policy losses, that of bypass mode included.
  \<^item> \<open>ToolAgent\<close> and \<open>AgentBatch\<close> model \<^verbatim>\<open>experimental/agent_loop\<close>: the tool agent as a state machine that
    alternates generation, tool calls and user turns within the budget of the response, the single-turn
    agent, and the worker that runs one agent per row, pads their outputs and stacks them into a batch.
    \<open>Padding\<close> models \<^verbatim>\<open>workers/utils/padding.py\<close>: the way from padded to ragged tensors and back.
  \<^item> \<open>FitLoop\<close> models the loop of \<^verbatim>\<open>trainer/ppo/ray_trainer.py\<close> as a run that writes a trace of the events
    it causes: loading a checkpoint, the steps of training, validation, weight transfer and saving.
    \<open>StepData\<close> models what a step does with its batch between rollout and update: the generation batch,
    the repeated prompts, the greedy responses of the ReMax baseline, balancing over the workers.
    \<open>PPOAdvantage\<close> models the rewards with their KL penalty and the registry of estimators behind
    \<open>compute_advantage\<close>; \<open>RowOrder\<close> holds what the estimators do when the rows of a batch are permuted.
  \<^item> \<open>WorkerLoss\<close> models \<^verbatim>\<open>workers/utils/losses.py\<close>, the losses of actor, critic and fine-tuning on a
    micro-batch, and \<open>Metrics\<close> the metrics they report (\<^verbatim>\<open>utils/metric/utils.py\<close>). \<open>LossSplit\<close> splits the
    loss of a batch into a sum over its rows. \<open>TrainEngine\<close> models the steps around them (\<^verbatim>\<open>workers/engine\<close>,
    \<^verbatim>\<open>workers/engine_workers.py\<close>): micro-batches on all ranks, forward and backward, the optimiser step,
    the mini-batches and epochs of an update.
  \<^item> \<open>ReplayBuffer\<close>, \<open>SyncRollout\<close> and \<open>MultiTraj\<close> model the trainer of \<^verbatim>\<open>trainer/main_ppo_sync.py\<close>, whose
    batches stay in a transfer queue and travel as keys and tags. \<open>ReplayBuffer\<close> is its buffer: the entries that
    a poll thread copies, and \<open>sample\<close>, which waits for the prompts of a step. \<open>SyncRollout\<close> puts the trainer, the
    poll thread and the tasks of the agent workers side by side as a step relation on one record; \<open>MultiTraj\<close>
    computes advantages for sessions with several outputs; \<open>PyKeys\<close> holds the keys \<^verbatim>\<open>{uid}_{session}_{index}\<close>
    that tie them together.
  \<^item> \<open>ValMetrics\<close> models the evaluation of a validation (\<^verbatim>\<open>trainer/ppo/metric_utils.py\<close>): grouping of the
    samples by data source and prompt, means, bootstrapped best-of, worst-of and majority values, and the names
    under which they are reported.
  \<^item> \<open>Prelude\<close> holds Python's exceptions as values, the result monad, list indexing and slicing,
    insertion-ordered dictionaries, and the lemmas on lists and multisets that all components share.

  \<^bold>\<open>How code becomes definitions.\<close> A class becomes a record or a datatype, a method a function on it, and
  the name is kept where it is free. An exception is the value \<open>Inl e\<close>, a return value \<open>Inr v\<close>, and every
  \<open>raise\<close>, \<open>assert\<close> and failing lookup of the source is a branch. Dictionaries are association lists in
  insertion order. Python integers are \<open>int\<close> or, where they count, \<open>nat\<close>; torch's 64-bit integers are
  words where they can overflow. Tensors of floats are lists of reals: rounding is not modelled, and the small constants of the source
  (such as 1e-8) are kept. Infinite or NaN values appear only as \<open>None\<close> where a division by zero can happen.
  What is outside is a parameter: the LRU cache of cachetools (locale \<open>lru_cache\<close>, its documented laws), an
  inference server (a function of prompt and sampling parameters), an optimiser step, the store of the transfer queue (locale
  \<open>kv_store\<close>), the draws of the
  random generators of torch and numpy, the sums of other ranks.

  \<^bold>\<open>What the lemmas show.\<close>

  \<^item> Asynchronous training: the samples between rollouter and trainer stay within the limit, and exceed it by at
    most one after a reset that overlaps the processor (\<open>rollouter_backlog_bounded\<close>), none is lost unless a reset overlaps the processor
    (\<open>rollouter_drops_nothing\<close>, \<open>rollouter_reset_can_drop\<close>), a reset that counts finished tasks can stop
    both sides for ever (\<open>rollouter_can_deadlock\<close>), the queue conserves its samples, and the old
    log-probabilities are those of the policy that was sent to the servers.
  \<^item> Serving: a session keeps its server, the counts are those of the open requests, and a
    resumed generation gives what an uninterrupted one gives; the loop of \<open>generate\<close> returns.
  \<^item> Batches: chunking, padding and folding are undone by their inverses; every operation keeps a
    well-formed batch well-formed; calls on worker groups with the FSDP layout or with automatic padding give
    what the method gives on the whole batch; micro-batches are put back in order and stay within the budget.
  \<^item> Algorithms: group-relative advantages, agreement of the vectorised estimators with the loops
    they replace, of the multi-turn baseline with the single-turn one, GAE as a discounted sum over the
    response tokens, independence of the loss from the number of ranks and from padding, bounds of the
    clipped losses, the straight-through KL penalties (value of one estimator, derivative of another), and
    the exact effect of rejection and importance weights.
  \<^item> Training loop: a step generates with the weights that the step before has produced, the schedule of
    validation, saving and updating is that of the configuration, a run that is resumed from a checkpoint
    has the models of one that was not stopped (\<open>fit_resume_forgets_kl\<close>: but not its KL coefficient).
    Balancing a batch over the workers permutes it, and leaves every row the advantage it would have had.
  \<^item> Updates: the loss of a batch is the sum over any division into ranks and micro-batches
    (\<open>micro_batches_add_up\<close>), so a training step of many ranks is one optimiser step on the whole batch
    (\<open>train_step_on_whole_batch\<close>), and an update is one such step per mini-batch, in their order; inference
    keeps the order of the rows. The value loss and the GMPO loss do not split this way
    (\<open>value_loss_counts_micro_batches\<close>, \<open>geo_mean_ignores_global_counts\<close>).
  \<^item> Training from a transfer queue: when \<open>sample\<close> returns, every prompt of the round has ended and the batch
    holds the outputs of the prompts that finished, each once (\<open>sampled_batch_complete\<close>); once the prompts have ended, polls alone let it
    return (\<open>ended_round_is_sampled\<close>); two rounds with the same step can mix (\<open>stale_keys_are_sampled\<close>). The last output
    of a session earns the advantage of all its outputs (\<open>session_advantage_spread\<close>), which with one output each is
    plain GRPO (\<open>single_outputs_agree\<close>).
  \<^item> Validation: \<open>mean@k\<close> is the mean over the prompts with k responses of their own means
    (\<open>val_mean_over_prompts\<close>), majority values lie between worst-of and best-of values of the same size
    (\<open>majority_between_worst_and_best\<close>), the core metrics are those of the greatest size
    (\<open>core_metrics_have_greatest_size\<close>), and one missing value among numbers makes the evaluation raise
    (\<open>missing_value_raises\<close>).
  \<^item> Agent loops: a run returns, its response has the budget's length at most, its segments are
    answers of the server and of the tools it called (\<open>agent_tokens_faithful\<close>), mask and tokens have the
    same length, tool text is masked out; an empty answer of the server makes the padding raise (\<open>empty_answer_fails_to_pad\<close>); the ragged layout gives back the log-probabilities of the response.

  Interfaces are locales: \<open>mergeable\<close> (what a Karmarkar--Karp reduction needs of its states),
  \<open>bounded_queue\<close> (what both ends of the message queue rely on), \<open>lru_cache\<close> (what the balancer needs
  of its cache), \<open>batch_type\<close> (what dispatching needs of a batch), \<open>masked_loss\<close> (what the trainer needs
  of a policy loss), \<open>split_loss\<close> (what the division into micro-batches needs of it) and \<open>kv_store\<close> (what the replay
  buffer needs of the transfer queue). Each is interpreted on the definitions of the component that provides it; the cache and
  the store, which are outside, on lists with the documented behaviour.

  \<^bold>\<open>Fuel and termination.\<close> Two loops have fuel. \<open>generate_loop\<close> has it since a server may abort for
  ever; \<open>resume_generate_total\<close> gives fuel that is enough when every attempt returns a token. The state
  machine of the tool agent has it since its states call each other; \<open>agent_run_total\<close> shows that twice the
  response budget and two steps more are enough for every server, tool and user. All other loops are
  structural or have a termination proof.

  \<^bold>\<open>What is not modelled.\<close> Model definitions, kernels, sharding, quantisation, the set-up of training engines and
  the inference servers compute with tensors on devices and are calls into torch, Megatron, vLLM and
  SGLang; their effect is a parameter here: the network is a function that scores a row,
  and the gradient, clipping and the optimiser are functions of the objective and the weights. Datasets, tokenisation, tracking, profiling and model
  merging are input and output around those libraries. Gradients are modelled only where the code forms
  them by hand (the straight-through KL penalties). The manifest lists these parts one by one.
\<close>

end
